(* ===== verification/Anos_Prelude.thy ===== *)
theory Anos_Prelude
  imports Main "HOL-Library.Word"
begin

text \<open>
  Shared vocabulary of the development: the widths of the C integer types, the page
  geometry of \<^verbatim>\<open>vmm/vmconfig.h\<close>, the collections that carry component proofs, and generic
  facts on words, intervals and lists.
\<close>

unbundle bit_operations_syntax

named_theorems page_simps \<open>page geometry: constants and their readings as naturals\<close>

type_synonym u8 = "8 word"
type_synonym u16 = "16 word"
type_synonym u32 = "32 word"
type_synonym u64 = "64 word"

text \<open>Pointers are 64-bit addresses; the null pointer is 0.\<close>

type_synonym ptr = u64

abbreviation (input) NULL :: ptr where
  "NULL \<equiv> 0"

text \<open>\<^verbatim>\<open>VM_PAGE_SIZE\<close> (4 KiB on both architectures) and \<^verbatim>\<open>VM_PAGE_LINEAR_SHIFT\<close>.\<close>

definition VM_PAGE_SIZE :: u64 where
  "VM_PAGE_SIZE = 0x1000"

definition VM_PAGE_LINEAR_SHIFT :: nat where
  "VM_PAGE_LINEAR_SHIFT = 12"

text \<open>An address is page aligned when its low twelve bits are clear.\<close>

definition page_aligned :: "u64 \<Rightarrow> bool" where
  "page_aligned a \<longleftrightarrow> a AND 0xFFF = 0"

text \<open>The page frame number of an address.\<close>

definition pfn :: "u64 \<Rightarrow> nat" where
  "pfn a = unat a div 4096"

section \<open>Words read as naturals\<close>

lemma u64_less [simp]: "unat (a :: u64) < 18446744073709551616"
  using unsigned_less [of a, where 'a = nat] by simp

lemma unat_add_u64: "unat (a :: u64) + unat b < 18446744073709551616 \<Longrightarrow> unat (a + b) = unat a + unat b"
  using unat_add_lem [of a b] by simp

lemma unat_sub_u64: "unat (b :: u64) \<le> unat a \<Longrightarrow> unat (a - b) = unat a - unat b"
  by (simp add: unat_sub word_le_nat_alt)

lemma unat_mult_u64: "unat (a :: u64) * unat b < 18446744073709551616 \<Longrightarrow> unat (a * b) = unat a * unat b"
  using unat_mult_lem [of a b] by simp

lemma u64_eq_iff: "(a :: u64) = b \<longleftrightarrow> unat a = unat b"
  by (simp add: word_unat_eq_iff)

lemma unat_VM_PAGE_SIZE [page_simps, simp]: "unat VM_PAGE_SIZE = 4096"
  by (simp add: VM_PAGE_SIZE_def)

lemma page_aligned_iff: "page_aligned a \<longleftrightarrow> unat a mod 4096 = 0"
proof -
  have "a AND 0xFFF = take_bit 12 a"
    by (simp add: take_bit_eq_mask mask_eq_exp_minus_1)
  then have "unat (a AND 0xFFF) = unat a mod 4096"
    by (simp add: take_bit_eq_mod unat_mod)
  then show ?thesis unfolding page_aligned_def
    by (metis unat_eq_zero)
qed

lemma page_aligned_pfn: "page_aligned a \<Longrightarrow> unat a = pfn a * 4096"
  by (auto simp: page_aligned_iff pfn_def)

lemma pfn_less: "pfn a < 4503599627370496"
proof -
  have "unat a < 4503599627370496 * 4096" by simp
  then show ?thesis unfolding pfn_def by (simp only: less_mult_imp_div_less)
qed

lemma pfn_inj: "page_aligned a \<Longrightarrow> page_aligned b \<Longrightarrow> pfn a = pfn b \<longleftrightarrow> a = b"
  by (metis page_aligned_pfn u64_eq_iff)

lemma align_down_eq: "(a :: u64) AND 0xFFFFFFFFFFFFF000 = push_bit 12 (drop_bit 12 a)"
proof -
  have "(0xFFFFFFFFFFFFF000 :: u64) = push_bit 12 (mask 52)"
    by (simp add: mask_eq_exp_minus_1 push_bit_eq_mult)
  then have "a AND 0xFFFFFFFFFFFFF000 = a AND push_bit 12 (mask 52)" by (rule arg_cong)
  also have "\<dots> = push_bit 12 (drop_bit 12 a)"
    by (rule bit_word_eqI) (auto simp: bit_simps)
  finally show ?thesis .
qed

lemma unat_align_down: "unat ((a :: u64) AND 0xFFFFFFFFFFFFF000) = pfn a * 4096"
proof -
  have "unat (drop_bit 12 a) = pfn a" by (simp add: drop_bit_eq_div unat_div pfn_def)
  moreover have "pfn a * 4096 < 18446744073709551616" using pfn_less [of a] by simp
  ultimately have "unat (push_bit 12 (drop_bit 12 a)) = pfn a * 4096"
    by (simp add: push_bit_eq_mult unat_mult_u64)
  then show ?thesis by (simp add: align_down_eq)
qed

lemma pfn_align_down [simp]: "pfn ((a :: u64) AND 0xFFFFFFFFFFFFF000) = pfn a"
  by (simp add: pfn_def [of "a AND _"] unat_align_down)

lemma page_aligned_align_down [simp]: "page_aligned ((a :: u64) AND 0xFFFFFFFFFFFFF000)"
  by (simp add: page_aligned_iff unat_align_down)

section \<open>Circular indices\<close>

lemma nat_mod_shift_less: "i < j \<Longrightarrow> j < c \<Longrightarrow> (h + i) mod c \<noteq> (h + j) mod (c :: nat)"
proof
  assume a: "i < j" "j < c" "(h + i) mod c = (h + j) mod c"
  then have "c dvd (h + j) - (h + i)" by (intro mod_eq_dvd_iff_nat [THEN iffD1]) simp_all
  then show False using a by (auto dest: dvd_imp_le)
qed

lemma nat_mod_shift_inj: "i < c \<Longrightarrow> j < c \<Longrightarrow> (h + i) mod c = (h + j) mod (c :: nat) \<longleftrightarrow> i = j"
  using nat_mod_shift_less [of i j c h] nat_mod_shift_less [of j i c h] by (cases i j rule: linorder_cases) auto

end
