(* ===== verification/Page_Alloc.thy ===== *)
theory Page_Alloc
  imports Anos_Prelude
begin

text \<open>
  The physical page allocator, \<^verbatim>\<open>kernel/pmm/pagealloc.c\<close>: a stack of free blocks, each a
  page-aligned base and a number of pages. The C code keeps the stack in a buffer after the
  \<^verbatim>\<open>MemoryRegion\<close> struct and \<^verbatim>\<open>sp\<close> points at its top; the model keeps the live part of the
  buffer as a list whose head is the block at \<^verbatim>\<open>sp\<close>, so that the empty list is
  \<^verbatim>\<open>stack_empty\<close>. Each operation runs with the region lock held from its first access to
  its last, so an operation is one step on the region.
\<close>

section \<open>State\<close>

record MemoryBlock =
  mb_base :: u64
  mb_size :: u64

record MemoryRegion =
  mr_size :: u64
  mr_free :: u64
  mr_stack :: "MemoryBlock list"

text \<open>A Limine memory map entry and the entry types of \<^verbatim>\<open>Limine_MemMapEntry_Type\<close>.\<close>

record Limine_MemMapEntry =
  me_base :: u64
  me_length :: u64
  me_type :: u64

definition LIMINE_MEMMAP_USABLE :: u64 where
  "LIMINE_MEMMAP_USABLE = 0"

definition LIMINE_MEMMAP_BOOTLOADER_RECLAIMABLE :: u64 where
  "LIMINE_MEMMAP_BOOTLOADER_RECLAIMABLE = 5"

definition LIMINE_MEMMAP_EXECUTABLE_AND_MODULES :: u64 where
  "LIMINE_MEMMAP_EXECUTABLE_AND_MODULES = 6"

lemmas memmap_types = LIMINE_MEMMAP_USABLE_def LIMINE_MEMMAP_BOOTLOADER_RECLAIMABLE_def
  LIMINE_MEMMAP_EXECUTABLE_AND_MODULES_def

section \<open>Operations\<close>

text \<open>The tail of the loop body of \<^verbatim>\<open>page_alloc_init_limine\<close>: account for and stack one block.\<close>

definition stack_block :: "MemoryRegion \<Rightarrow> u64 \<Rightarrow> u64 \<Rightarrow> MemoryRegion" where
  "stack_block region start finish =
     (let total_bytes = finish - start
      in if total_bytes = 0 then region
         else region\<lparr>mr_size := mr_size region + total_bytes,
                     mr_free := mr_free region + total_bytes,
                     mr_stack := \<lparr>mb_base = start, mb_size = drop_bit VM_PAGE_LINEAR_SHIFT total_bytes\<rparr>
                                   # mr_stack region\<rparr>)"

definition init_entry :: "u64 \<Rightarrow> bool \<Rightarrow> Limine_MemMapEntry \<Rightarrow> MemoryRegion \<Rightarrow> MemoryRegion" where
  "init_entry managed_base reclaim_exec_mods entry region =
     (if me_length entry > 0 then
        if me_type entry = LIMINE_MEMMAP_USABLE
           \<or> me_type entry = LIMINE_MEMMAP_EXECUTABLE_AND_MODULES
           \<or> me_type entry = LIMINE_MEMMAP_BOOTLOADER_RECLAIMABLE then
          if \<not> reclaim_exec_mods \<and> me_type entry = LIMINE_MEMMAP_EXECUTABLE_AND_MODULES then region
          else
            let start = me_base entry AND 0xFFFFFFFFFFFFF000;
                finish = (me_base entry + me_length entry) AND 0xFFFFFFFFFFFFF000;
                start = (if me_base entry > start then start + VM_PAGE_SIZE else start)
            in if start < managed_base then
                 if finish \<le> managed_base then region
                 else stack_block region managed_base finish
               else stack_block region start finish
        else region
      else region)"

definition page_alloc_init_limine ::
    "Limine_MemMapEntry list \<Rightarrow> u64 \<Rightarrow> bool \<Rightarrow> MemoryRegion" where
  "page_alloc_init_limine memmap managed_base reclaim_exec_mods =
     fold (init_entry managed_base reclaim_exec_mods) memmap
       \<lparr>mr_size = 0, mr_free = 0, mr_stack = []\<rparr>"

definition stack_empty :: "MemoryRegion \<Rightarrow> bool" where
  "stack_empty region \<longleftrightarrow> mr_stack region = []"

text \<open>
  The loop of \<^verbatim>\<open>page_alloc_m\<close>: \<open>i\<close> is the distance of \<^verbatim>\<open>ptr\<close> below \<^verbatim>\<open>sp\<close>.
\<close>

function page_alloc_m_loop :: "u64 \<Rightarrow> MemoryRegion \<Rightarrow> nat \<Rightarrow> MemoryRegion \<times> u64" where
  "page_alloc_m_loop count region i =
     (if i < length (mr_stack region) then
        let p = mr_stack region ! i
        in if mb_size p > count then
             (region\<lparr>mr_stack := (mr_stack region)[i := p\<lparr>mb_base := mb_base p + VM_PAGE_SIZE,
                                                       mb_size := mb_size p - count\<rparr>],
                     mr_free := mr_free region - push_bit VM_PAGE_LINEAR_SHIFT count\<rparr>,
              mb_base p)
           else if mb_size p = count then
             (region\<lparr>mr_stack := tl (if i \<noteq> 0 then (mr_stack region)[i := hd (mr_stack region)]
                                    else mr_stack region),
                     mr_free := mr_free region - push_bit 12 count\<rparr>,
              mb_base p)
           else page_alloc_m_loop count region (Suc i)
      else (region, 0xFF))"
  by pat_completeness auto
termination
  by (relation "measure (\<lambda>(count, region, i). length (mr_stack region) - i)") auto

declare page_alloc_m_loop.simps [simp del]

definition page_alloc_m :: "MemoryRegion \<Rightarrow> u64 \<Rightarrow> MemoryRegion \<times> u64" where
  "page_alloc_m region count =
     (if stack_empty region then (region, 0xFF) else page_alloc_m_loop count region 0)"

definition page_alloc :: "MemoryRegion \<Rightarrow> MemoryRegion \<times> u64" where
  "page_alloc region =
     (case mr_stack region of
        [] \<Rightarrow> (region, 0xFF)
      | b # rest \<Rightarrow>
          let region = region\<lparr>mr_free := mr_free region - VM_PAGE_SIZE\<rparr>
          in if mb_size b > 1 then
               (region\<lparr>mr_stack := b\<lparr>mb_base := mb_base b + VM_PAGE_SIZE, mb_size := mb_size b - 1\<rparr> # rest\<rparr>,
                mb_base b)
             else (region\<lparr>mr_stack := rest\<rparr>, mb_base b))"

definition page_free :: "MemoryRegion \<Rightarrow> u64 \<Rightarrow> MemoryRegion" where
  "page_free region page =
     (if page AND 0xFFF \<noteq> 0 then region
      else
        let region = region\<lparr>mr_free := mr_free region + VM_PAGE_SIZE\<rparr>;
            stacked = region\<lparr>mr_stack := \<lparr>mb_base = page, mb_size = 1\<rparr> # mr_stack region\<rparr>
        in case mr_stack region of
             [] \<Rightarrow> stacked
           | b # rest \<Rightarrow>
               if mb_base b = page + VM_PAGE_SIZE then
                 region\<lparr>mr_stack := b\<lparr>mb_base := page, mb_size := mb_size b + 1\<rparr> # rest\<rparr>
               else if mb_base b = page - VM_PAGE_SIZE then
                 region\<lparr>mr_stack := b\<lparr>mb_size := mb_size b + 1\<rparr> # rest\<rparr>
               else stacked)"

section \<open>Well-formed regions and the set of free frames\<close>

text \<open>
  A block is a non-empty aligned range that ends below the top of the address space; a
  region is a stack of disjoint blocks whose byte count is the free counter.
\<close>

definition block_pages :: "MemoryBlock \<Rightarrow> nat set" where
  "block_pages b = {pfn (mb_base b) ..< pfn (mb_base b) + unat (mb_size b)}"

definition block_wf :: "MemoryBlock \<Rightarrow> bool" where
  "block_wf b \<longleftrightarrow> page_aligned (mb_base b) \<and> mb_size b \<noteq> 0
     \<and> pfn (mb_base b) + unat (mb_size b) < 4503599627370496"

fun blocks_disjoint :: "MemoryBlock list \<Rightarrow> bool" where
  "blocks_disjoint [] = True"
| "blocks_disjoint (b # bs) =
     ((\<forall>c \<in> set bs. block_pages b \<inter> block_pages c = {}) \<and> blocks_disjoint bs)"

definition stack_pages :: "MemoryBlock list \<Rightarrow> nat set" where
  "stack_pages bs = (\<Union>b \<in> set bs. block_pages b)"

definition free_pages :: "MemoryRegion \<Rightarrow> nat set" where
  "free_pages r = stack_pages (mr_stack r)"

definition stack_wf :: "MemoryBlock list \<Rightarrow> bool" where
  "stack_wf bs \<longleftrightarrow> (\<forall>b \<in> set bs. block_wf b) \<and> blocks_disjoint bs"

definition region_wf :: "MemoryRegion \<Rightarrow> bool" where
  "region_wf r \<longleftrightarrow> stack_wf (mr_stack r)
     \<and> unat (mr_free r) = 4096 * sum_list (map (unat \<circ> mb_size) (mr_stack r))"


section \<open>Library: blocks, stacks and frames\<close>

lemma stack_pages_simps [simp]:
  "stack_pages [] = {}" "stack_pages (b # bs) = block_pages b \<union> stack_pages bs"
  by (auto simp: stack_pages_def)

lemma stack_pages_append [simp]: "stack_pages (xs @ ys) = stack_pages xs \<union> stack_pages ys"
  by (auto simp: stack_pages_def)

lemma blocks_disjoint_Cons: "blocks_disjoint (b # bs) \<longleftrightarrow> block_pages b \<inter> stack_pages bs = {} \<and> blocks_disjoint bs"
  by (auto simp: stack_pages_def)

lemma blocks_disjoint_append:
  "blocks_disjoint (xs @ ys) \<longleftrightarrow>
     blocks_disjoint xs \<and> blocks_disjoint ys \<and> stack_pages xs \<inter> stack_pages ys = {}"
  by (induction xs) (auto simp: blocks_disjoint_Cons simp del: blocks_disjoint.simps(2))

lemma stack_wf_Nil [simp]: "stack_wf []" by (simp add: stack_wf_def)

lemma stack_wf_Cons:
  "stack_wf (b # bs) \<longleftrightarrow> block_wf b \<and> block_pages b \<inter> stack_pages bs = {} \<and> stack_wf bs"
  by (auto simp: stack_wf_def blocks_disjoint_Cons simp del: blocks_disjoint.simps(2))

lemma stack_wf_append:
  "stack_wf (xs @ ys) \<longleftrightarrow> stack_wf xs \<and> stack_wf ys \<and> stack_pages xs \<inter> stack_pages ys = {}"
  by (auto simp: stack_wf_def blocks_disjoint_append)

lemma finite_block_pages [simp]: "finite (block_pages b)" "card (block_pages b) = unat (mb_size b)"
  by (simp_all add: block_pages_def)

lemma finite_stack_pages [simp]: "finite (stack_pages bs)" by (auto simp: stack_pages_def)

lemma card_stack_pages: "stack_wf bs \<Longrightarrow> card (stack_pages bs) = sum_list (map (unat \<circ> mb_size) bs)"
  by (induction bs) (auto simp: stack_wf_Cons card_Un_disjoint)

lemma block_pages_bound: "block_wf b \<Longrightarrow> block_pages b \<subseteq> {..<4503599627370495}"
  by (auto simp: block_wf_def block_pages_def)

lemma stack_pages_bound: "stack_wf bs \<Longrightarrow> stack_pages bs \<subseteq> {..<4503599627370495}"
  using block_pages_bound by (fastforce simp: stack_wf_def stack_pages_def)

lemma stack_sum_bound:
  assumes "stack_wf bs" shows "4096 * sum_list (map (unat \<circ> mb_size) bs) < 18446744073709551616"
proof -
  have "card (stack_pages bs) \<le> card {..<4503599627370495::nat}"
    using stack_pages_bound [OF assms] by (intro card_mono) auto
  then show ?thesis by (simp add: card_stack_pages [OF assms, symmetric])
qed

lemma pfn_add_page: "page_aligned a \<Longrightarrow> pfn a + 1 < 4503599627370496 \<Longrightarrow> pfn (a + VM_PAGE_SIZE) = pfn a + 1 \<and> page_aligned (a + VM_PAGE_SIZE)"
proof -
  assume a: "page_aligned a" "pfn a + 1 < 4503599627370496"
  then have "unat (a + VM_PAGE_SIZE) = unat a + 4096"
    by (subst unat_add_u64) (auto simp: page_aligned_pfn)
  then show ?thesis using a by (auto simp: pfn_def page_aligned_iff)
qed

lemma unat_minus_one_u64: "x \<noteq> 0 \<Longrightarrow> unat (x - 1 :: u64) = unat x - 1"
  by (subst unat_sub_u64) (auto simp: unat_gt_0 Suc_le_eq)

lemma block_pages_pop:
  assumes "block_wf b" "mb_size b > 1"
  defines "c \<equiv> b\<lparr>mb_base := mb_base b + VM_PAGE_SIZE, mb_size := mb_size b - 1\<rparr>"
  shows "block_wf c" "block_pages c = block_pages b - {pfn (mb_base b)}"
proof -
  have s: "unat (mb_size b) > 1" using assms(2) by (simp add: word_less_nat_alt)
  have p: "pfn (mb_base b + VM_PAGE_SIZE) = pfn (mb_base b) + 1" "page_aligned (mb_base b + VM_PAGE_SIZE)"
    using assms(1) s pfn_add_page [of "mb_base b"] by (auto simp: block_wf_def)
  have u: "unat (mb_size b - 1) = unat (mb_size b) - 1"
    using s by (intro unat_minus_one_u64) auto
  show "block_wf c" using assms(1) s p u by (auto simp: block_wf_def c_def unat_eq_zero simp flip: unat_gt_0)
  show "block_pages c = block_pages b - {pfn (mb_base b)}" using s p u by (auto simp: block_pages_def c_def)
qed

lemma block_wf_first: "block_wf b \<Longrightarrow> pfn (mb_base b) \<in> block_pages b"
  by (auto simp: block_wf_def block_pages_def unat_gt_0)

lemma block_pages_single: "block_wf b \<Longrightarrow> \<not> mb_size b > 1 \<Longrightarrow> block_pages b = {pfn (mb_base b)}"
proof -
  assume a: "block_wf b" "\<not> mb_size b > 1"
  then have "unat (mb_size b) \<le> 1" "unat (mb_size b) \<noteq> 0"
    by (auto simp: block_wf_def word_less_nat_alt unat_eq_zero)
  then have "unat (mb_size b) = 1" by linarith
  then show ?thesis by (auto simp: block_pages_def)
qed

lemma region_wf_free:
  assumes "region_wf r" shows "unat (mr_free r) = 4096 * card (free_pages r)"
  using assms by (auto simp: region_wf_def free_pages_def card_stack_pages)

lemma region_wfI:
  assumes "stack_wf (mr_stack r)" "unat (mr_free r) = 4096 * card (free_pages r)"
  shows "region_wf r"
  using assms by (auto simp: region_wf_def free_pages_def card_stack_pages)

lemma page_alloc_spec:
  assumes wf: "region_wf r" and ne: "mr_stack r \<noteq> []" and al: "page_alloc r = (r', p)"
  shows "page_aligned p \<and> pfn p \<in> free_pages r \<and> free_pages r' = free_pages r - {pfn p} \<and> region_wf r' \<and> mr_size r' = mr_size r"
proof -
  from ne obtain b rest where st: "mr_stack r = b # rest" by (cases "mr_stack r") auto
  have bw: "block_wf b" "block_pages b \<inter> stack_pages rest = {}" "stack_wf rest"
    using wf st by (auto simp: region_wf_def stack_wf_Cons)
  have p: "p = mb_base b" using al st by (auto simp: page_alloc_def Let_def split: if_splits)
  have stk: "stack_wf (mr_stack r') \<and> free_pages r' = free_pages r - {pfn p}"
  proof (cases "mb_size b > 1")
    case True
    with al st have "mr_stack r' = b\<lparr>mb_base := mb_base b + VM_PAGE_SIZE, mb_size := mb_size b - 1\<rparr> # rest"
      by (auto simp: page_alloc_def Let_def)
    with block_pages_pop [OF bw(1) True] block_wf_first [OF bw(1)] bw(2,3) show ?thesis
      by (auto simp: stack_wf_Cons free_pages_def st p)
  next
    case False
    with al st have "mr_stack r' = rest" by (auto simp: page_alloc_def Let_def)
    with block_pages_single [OF bw(1) False] bw(2,3) show ?thesis
      by (auto simp: free_pages_def st p)
  qed
  have pin: "pfn p \<in> free_pages r" using block_wf_first [OF bw(1)] by (auto simp: free_pages_def st p)
  have fr: "mr_free r' = mr_free r - VM_PAGE_SIZE" "mr_size r' = mr_size r"
    using al st by (auto simp: page_alloc_def Let_def split: if_splits)
  have fin: "finite (free_pages r)" by (simp add: free_pages_def)
  have "card (free_pages r) > 0" using pin fin by (auto simp: card_gt_0_iff)
  then have "4096 \<le> unat (mr_free r)" using region_wf_free [OF wf] by simp
  then have "unat (mr_free r') = 4096 * card (free_pages r) - 4096"
    unfolding fr(1) using region_wf_free [OF wf] by (subst unat_sub_u64) auto
  also have "\<dots> = 4096 * card (free_pages r')"
    using stk pin by (simp add: card_Diff_singleton right_diff_distrib')
  finally have "unat (mr_free r') = 4096 * card (free_pages r')" .
  then have "region_wf r'" using stk by (intro region_wfI) simp_all
  moreover have "page_aligned p" using bw(1) by (simp add: p block_wf_def)
  ultimately show ?thesis using stk pin fr(2) by blast
qed

lemma pfn_le_sub: "page_aligned a \<Longrightarrow> a \<noteq> 0 \<Longrightarrow> pfn (a - VM_PAGE_SIZE) = pfn a - 1 \<and> page_aligned (a - VM_PAGE_SIZE) \<and> pfn a \<noteq> 0"
proof -
  assume a: "page_aligned a" "a \<noteq> 0"
  then have ge: "unat a \<ge> 4096" "pfn a \<noteq> 0"
    by (auto simp: page_aligned_pfn u64_eq_iff)
  then have "unat (a - VM_PAGE_SIZE) = unat a - 4096" by (subst unat_sub_u64) auto
  then have "unat (a - VM_PAGE_SIZE) = (pfn a - 1) * 4096" using a by (simp add: page_aligned_pfn algebra_simps)
  then show ?thesis using ge by (simp add: pfn_def page_aligned_iff)
qed

lemma block_size_bound: "block_wf b \<Longrightarrow> unat (mb_size b + 1) = unat (mb_size b) + 1"
  by (subst unat_add_u64) (auto simp: block_wf_def)

lemma page_free_spec:
  assumes wf: "region_wf r" and al: "page_aligned p" and top: "pfn p + 1 < 4503599627370496"
    and nf: "pfn p \<notin> free_pages r"
  shows "free_pages (page_free r p) = insert (pfn p) (free_pages r) \<and> region_wf (page_free r p)
    \<and> mr_size (page_free r p) = mr_size r"
proof -
  let ?r = "page_free r p"
  let ?one = "\<lparr>mb_base = p, mb_size = 1\<rparr>"
  have one: "block_wf ?one" "block_pages ?one = {pfn p}"
    using al top by (auto simp: block_wf_def block_pages_def)
  have masked: "p AND 0xFFF = 0" using al by (simp add: page_aligned_def)
  have stk: "stack_wf (mr_stack ?r) \<and> free_pages ?r = insert (pfn p) (free_pages r)"
  proof (cases "mr_stack r")
    case Nil
    then show ?thesis using one masked by (simp add: page_free_def free_pages_def stack_wf_Cons)
  next
    case (Cons b rest)
    have bw: "block_wf b" "block_pages b \<inter> stack_pages rest = {}" "stack_wf rest"
      using wf Cons by (auto simp: region_wf_def stack_wf_Cons)
    have nb: "pfn p \<notin> block_pages b" "pfn p \<notin> stack_pages rest"
      using nf Cons by (auto simp: free_pages_def)
    consider (below) "mb_base b = p + VM_PAGE_SIZE"
      | (above) "mb_base b \<noteq> p + VM_PAGE_SIZE" "mb_base b = p - VM_PAGE_SIZE"
      | (apart) "mb_base b \<noteq> p + VM_PAGE_SIZE" "mb_base b \<noteq> p - VM_PAGE_SIZE" by blast
    then show ?thesis
    proof cases
      case below
      let ?c = "b\<lparr>mb_base := p, mb_size := mb_size b + 1\<rparr>"
      have pb: "pfn (mb_base b) = pfn p + 1" using pfn_add_page [OF al top] below by simp
      have "block_wf ?c" "block_pages ?c = insert (pfn p) (block_pages b)"
        using bw(1) al pb block_size_bound [OF bw(1)]
        by (auto simp: block_wf_def block_pages_def u64_eq_iff)
      then show ?thesis using below masked Cons bw nb
        by (auto simp: page_free_def free_pages_def stack_wf_Cons)
    next
      case above
      let ?c = "b\<lparr>mb_size := mb_size b + 1\<rparr>"
      have "p \<noteq> 0"
      proof
        assume "p = 0"
        then have "pfn (mb_base b) = 4503599627370495" using above by (simp add: VM_PAGE_SIZE_def pfn_def)
        then show False using bw(1) by (auto simp: block_wf_def unat_eq_zero)
      qed
      then have pb: "pfn p = pfn (mb_base b) + 1" using pfn_le_sub [OF al] above by simp
      then have sz: "unat (mb_size b) = 1" using nb(1) bw(1)
        by (auto simp: block_pages_def block_wf_def u64_eq_iff)
      have "block_wf ?c" "block_pages ?c = insert (pfn p) (block_pages b)"
        using bw(1) pb sz top block_size_bound [OF bw(1)]
        by (auto simp: block_wf_def block_pages_def u64_eq_iff)
      then show ?thesis using above masked Cons bw nb
        by (auto simp: page_free_def free_pages_def stack_wf_Cons)
    next
      case apart
      then show ?thesis using masked Cons one bw nb
        by (auto simp: page_free_def free_pages_def stack_wf_Cons)
    qed
  qed
  have fr: "mr_free ?r = mr_free r + VM_PAGE_SIZE" "mr_size ?r = mr_size r"
    using masked by (auto simp: page_free_def Let_def split: list.splits)
  have fin: "finite (free_pages r)" by (simp add: free_pages_def)
  have "4096 * card (free_pages ?r) < 18446744073709551616"
    using stack_sum_bound [of "mr_stack ?r"] card_stack_pages [of "mr_stack ?r"] stk
    by (simp only: free_pages_def)
  then have "unat (mr_free ?r) = 4096 * card (free_pages ?r)"
    unfolding fr(1) using region_wf_free [OF wf] stk nf fin by (subst unat_add_u64) auto
  then show ?thesis using stk fr(2) by (auto intro: region_wfI)
qed

lemma page_alloc_m_loop_skip:
  assumes "mr_stack r = xs @ ys" and "i \<le> length xs" and "\<forall>c \<in> set (drop i xs). mb_size c < n"
  shows "page_alloc_m_loop n r i = page_alloc_m_loop n r (length xs)"
  using assms
proof (induction "length xs - i" arbitrary: i)
  case 0
  then show ?case by simp
next
  case (Suc d)
  then have i: "i < length xs" by simp
  then have "xs ! i \<in> set (drop i xs)" by (simp add: Cons_nth_drop_Suc [symmetric])
  then have lt: "mb_size (mr_stack r ! i) < n" using Suc.prems i by (simp add: nth_append)
  have "set (drop (Suc i) xs) \<subseteq> set (drop i xs)" by (simp add: set_drop_subset_set_drop)
  then have "page_alloc_m_loop n r (Suc i) = page_alloc_m_loop n r (length xs)"
    using Suc i by (intro Suc.hyps(1)) auto
  then show ?case using lt i Suc.prems(1) by (subst page_alloc_m_loop.simps) (auto simp: Let_def)
qed

lemma page_alloc_m_fit:
  assumes "mr_stack r = xs @ b # ys" and "\<forall>c \<in> set xs. mb_size c < n"
  shows "page_alloc_m r n = page_alloc_m_loop n r (length xs)"
  using page_alloc_m_loop_skip [of r xs "b # ys" 0 n] assms
  by (simp add: page_alloc_m_def stack_empty_def)

lemma page_alloc_m_none:
  assumes "\<forall>c \<in> set (mr_stack r). mb_size c < n"
  shows "page_alloc_m r n = (r, 0xFF)"
  using page_alloc_m_loop_skip [of r "mr_stack r" "[]" 0 n] assms
  by (simp add: page_alloc_m_def page_alloc_m_loop.simps)

lemma stack_bytes_u64:
  assumes "region_wf r" and "k \<le> card (free_pages r)"
  shows "unat (mr_free r - push_bit 12 (of_nat k)) = 4096 * (card (free_pages r) - k)"
proof -
  have c: "4096 * card (free_pages r) < 18446744073709551616"
    using region_wf_free [OF assms(1)] u64_less [of "mr_free r"] by simp
  then have "unat (of_nat k :: u64) = k" using assms(2) by (simp add: unat_of_nat)
  then have "unat (push_bit 12 (of_nat k) :: u64) = 4096 * k"
    using c assms(2) by (simp add: push_bit_eq_mult unat_mult_u64)
  then show ?thesis using region_wf_free [OF assms(1)] assms(2)
    by (subst unat_sub_u64) (auto simp: right_diff_distrib')
qed

lemma page_alloc_m_exact_spec:
  assumes wf: "region_wf r" and st: "mr_stack r = xs @ b # ys" and small: "\<forall>c \<in> set xs. mb_size c < n"
    and fit: "mb_size b = n" and al: "page_alloc_m r n = (r', p)"
  shows "p = mb_base b \<and> block_pages b \<subseteq> free_pages r \<and> free_pages r' = free_pages r - block_pages b
     \<and> region_wf r'"
proof -
  have loop: "page_alloc_m_loop n r (length xs) = (r', p)" using page_alloc_m_fit [OF st small] al by simp
  have r': "p = mb_base b" "mr_stack r' = (case xs of [] \<Rightarrow> ys | t # us \<Rightarrow> us @ t # ys)"
    "mr_free r' = mr_free r - push_bit 12 n"
    using loop fit page_alloc_m_loop.simps [of n r "length xs"]
    by (auto simp: Let_def st nth_append split: list.splits)
  have sw: "stack_wf (xs @ b # ys)" using wf st by (simp add: region_wf_def)
  have eq: "stack_wf (mr_stack r') \<and> stack_pages (mr_stack r') = stack_pages (xs @ b # ys) - block_pages b"
    using sw unfolding r'(2) by (cases xs) (auto simp: stack_wf_append stack_wf_Cons)
  then have fp: "free_pages r' = free_pages r - block_pages b" by (simp add: free_pages_def st)
  have sub: "block_pages b \<subseteq> free_pages r" by (auto simp: free_pages_def st)
  then have le: "unat n \<le> card (free_pages r)"
    using card_mono [of "free_pages r" "block_pages b"] fit by (simp add: free_pages_def)
  have "unat (mr_free r') = 4096 * (card (free_pages r) - unat n)"
    using stack_bytes_u64 [OF wf le] by (simp add: r'(3))
  also have "\<dots> = 4096 * card (free_pages r')" using fp sub fit by (simp add: card_Diff_subset)
  finally have "region_wf r'" using eq by (intro region_wfI) simp_all
  then show ?thesis using r'(1) fp sub by blast
qed

lemma page_alloc_m_split_spec:
  assumes wf: "region_wf r" and st: "mr_stack r = xs @ b # ys" and small: "\<forall>c \<in> set xs. mb_size c < n"
    and fit: "mb_size b > n" and n: "n \<noteq> 0" and al: "page_alloc_m r n = (r', p)"
  shows "p = mb_base b \<and> free_pages r' = free_pages r - block_pages b
      \<union> {pfn p + 1 ..< pfn p + 1 + (unat (mb_size b) - unat n)} \<and> region_wf r'"
proof -
  let ?c = "b\<lparr>mb_base := mb_base b + VM_PAGE_SIZE, mb_size := mb_size b - n\<rparr>"
  have loop: "page_alloc_m_loop n r (length xs) = (r', p)" using page_alloc_m_fit [OF st small] al by simp
  have r': "p = mb_base b" "mr_stack r' = xs @ ?c # ys" "mr_free r' = mr_free r - push_bit 12 n"
    using loop fit page_alloc_m_loop.simps [of n r "length xs"]
    by (auto simp: Let_def st nth_append VM_PAGE_LINEAR_SHIFT_def)
  have sw: "stack_wf (xs @ b # ys)" using wf st by (simp add: region_wf_def)
  then have bw: "block_wf b" by (auto simp: stack_wf_append stack_wf_Cons)
  have lt: "unat n < unat (mb_size b)" "unat n \<noteq> 0" using fit n by (auto simp: word_less_nat_alt unat_eq_zero)
  have us: "unat (mb_size b - n) = unat (mb_size b) - unat n" using lt by (subst unat_sub_u64) auto
  have pc: "pfn (mb_base b + VM_PAGE_SIZE) = pfn (mb_base b) + 1" "page_aligned (mb_base b + VM_PAGE_SIZE)"
    using bw lt pfn_add_page [of "mb_base b"] by (auto simp: block_wf_def)
  have cw: "block_wf ?c" "block_pages ?c \<subseteq> block_pages b"
    "block_pages ?c = {pfn p + 1 ..< pfn p + 1 + (unat (mb_size b) - unat n)}"
    using bw lt us pc by (auto simp: block_wf_def block_pages_def u64_eq_iff r'(1))
  have dis: "stack_pages xs \<inter> block_pages b = {}" "stack_pages ys \<inter> block_pages b = {}"
    using sw by (auto simp: stack_wf_append stack_wf_Cons)
  have eq: "stack_wf (mr_stack r')"
    using sw cw(1,2) unfolding r'(2) by (auto simp: stack_wf_append stack_wf_Cons)
  have fp: "free_pages r' = free_pages r - block_pages b \<union> block_pages ?c"
    using dis by (auto simp: free_pages_def st r'(2))
  have sub: "block_pages b \<subseteq> free_pages r" by (auto simp: free_pages_def st)
  have cb: "card (block_pages b) \<le> card (free_pages r)"
    using sub by (intro card_mono) (simp_all add: free_pages_def)
  have "card (free_pages r') = card (free_pages r) - unat (mb_size b) + (unat (mb_size b) - unat n)"
    unfolding fp using sub cw(2) us
    by (subst card_Un_disjoint) (auto simp: card_Diff_subset free_pages_def)
  then have cd: "card (free_pages r') = card (free_pages r) - unat n" using cb lt by simp
  have "unat (mr_free r') = 4096 * card (free_pages r')"
    using stack_bytes_u64 [OF wf, of "unat n"] cb lt unfolding cd by (simp add: r'(3))
  then have "region_wf r'" using eq by (intro region_wfI) simp_all
  then show ?thesis using r'(1) fp cw(3) by simp
qed

section \<open>The frame allocator contract\<close>

text \<open>
  What the kernel's users of the allocator rely on: an allocation removes one frame from the
  free set and returns its address, a failed one changes nothing and returns the marker 0xFF,
  and freeing puts a frame back.
\<close>

datatype frame_op = AllocOp | FreeOp nat

text \<open>A client that owns a list of pages: it allocates, and frees pages that it owns.\<close>

fun frame_client ::
    "('s \<Rightarrow> 's \<times> u64) \<Rightarrow> ('s \<Rightarrow> u64 \<Rightarrow> 's) \<Rightarrow> frame_op list \<Rightarrow> 's \<times> u64 list \<Rightarrow> 's \<times> u64 list" where
  "frame_client alloc free [] s = s"
| "frame_client alloc free (AllocOp # ops) (s, owned) =
     (case alloc s of (s', p) \<Rightarrow>
        frame_client alloc free ops (if p AND 0xFF = 0 then (s', p # owned) else (s', owned)))"
| "frame_client alloc free (FreeOp i # ops) (s, owned) =
     (if i < length owned
      then frame_client alloc free ops (free s (owned ! i), take i owned @ drop (Suc i) owned)
      else frame_client alloc free ops (s, owned))"

locale frame_allocator =
  fixes alloc :: "'s \<Rightarrow> 's \<times> u64" and free :: "'s \<Rightarrow> u64 \<Rightarrow> 's"
    and frames :: "'s \<Rightarrow> nat set" and wf :: "'s \<Rightarrow> bool"
  assumes frames_top: "wf s \<Longrightarrow> f \<in> frames s \<Longrightarrow> f + 1 < 4503599627370496"
    and alloc_ok: "wf s \<Longrightarrow> frames s \<noteq> {} \<Longrightarrow> alloc s = (s', p)
      \<Longrightarrow> page_aligned p \<and> pfn p \<in> frames s \<and> frames s' = frames s - {pfn p} \<and> wf s'"
    and alloc_fail: "wf s \<Longrightarrow> frames s = {} \<Longrightarrow> alloc s = (s, 0xFF)"
    and free_ok: "wf s \<Longrightarrow> page_aligned p \<Longrightarrow> pfn p + 1 < 4503599627370496 \<Longrightarrow> pfn p \<notin> frames s
      \<Longrightarrow> frames (free s p) = insert (pfn p) (frames s) \<and> wf (free s p)"
begin

definition client_inv :: "nat set \<Rightarrow> 's \<times> u64 list \<Rightarrow> bool" where
  "client_inv F c \<longleftrightarrow> wf (fst c) \<and> distinct (map pfn (snd c))
     \<and> (\<forall>p \<in> set (snd c). page_aligned p \<and> pfn p + 1 < 4503599627370496)
     \<and> pfn ` set (snd c) \<inter> frames (fst c) = {} \<and> pfn ` set (snd c) \<union> frames (fst c) = F"

lemma client_inv_alloc:
  assumes inv: "client_inv F (s, owned)" and al: "alloc s = (s', p)"
  shows "client_inv F (if p AND 0xFF = 0 then (s', p # owned) else (s', owned))"
proof (cases "frames s = {}")
  case True
  then show ?thesis using inv alloc_fail [of s] al by (auto simp: client_inv_def)
next
  case False
  have a: "page_aligned p \<and> pfn p \<in> frames s \<and> frames s' = frames s - {pfn p} \<and> wf s'"
    using inv False al by (intro alloc_ok) (auto simp: client_inv_def)
  have m: "p AND 0xFF = 0"
  proof -
    have "p AND 0xFF = (p AND 0xFFF) AND 0xFF" by (simp add: and.assoc)
    then show ?thesis using a by (simp add: page_aligned_def)
  qed
  have "pfn p + 1 < 4503599627370496" using a inv by (intro frames_top) (auto simp: client_inv_def)
  then show ?thesis using inv a m by (auto simp: client_inv_def)
qed

lemma set_remove_nth:
  "i < length xs \<Longrightarrow> distinct (map f xs)
    \<Longrightarrow> f ` set (take i xs @ drop (Suc i) xs) = f ` set xs - {f (xs ! i)}"
proof -
  assume a: "i < length xs" "distinct (map f xs)"
  then have e: "xs = take i xs @ xs ! i # drop (Suc i) xs" by (simp add: id_take_nth_drop)
  then have "distinct (map f (take i xs) @ f (xs ! i) # map f (drop (Suc i) xs))"
    using a(2) by (metis list.simps(9) map_append)
  then have "f (xs ! i) \<notin> f ` set (take i xs @ drop (Suc i) xs)" by auto
  moreover have "f ` set xs = insert (f (xs ! i)) (f ` set (take i xs @ drop (Suc i) xs))"
    by (subst e) auto
  ultimately show ?thesis by simp
qed

lemma client_inv_free:
  assumes inv: "client_inv F (s, owned)" and i: "i < length owned"
  shows "client_inv F (free s (owned ! i), take i owned @ drop (Suc i) owned)"
proof -
  have d: "distinct (map pfn owned)" using inv by (simp add: client_inv_def)
  have mem: "owned ! i \<in> set owned" using i by simp
  have f: "frames (free s (owned ! i)) = insert (pfn (owned ! i)) (frames s) \<and> wf (free s (owned ! i))"
    using inv mem by (intro free_ok) (auto simp: client_inv_def)
  have im: "pfn ` set (take i owned @ drop (Suc i) owned) = pfn ` set owned - {pfn (owned ! i)}"
    by (rule set_remove_nth [OF i d])
  have "distinct (map pfn (take i owned @ drop (Suc i) owned))"
    using d unfolding map_append take_map [symmetric] drop_map [symmetric]
    by (simp add: set_take_disj_set_drop_if_distinct)
  moreover have "set (take i owned @ drop (Suc i) owned) \<subseteq> set owned"
    by (auto dest: in_set_takeD in_set_dropD)
  ultimately show ?thesis using inv f im mem by (auto simp: client_inv_def)
qed

lemma frame_client_inv: "client_inv F c \<Longrightarrow> client_inv F (frame_client alloc free ops c)"
proof (induction ops arbitrary: c)
  case Nil
  then show ?case by simp
next
  case (Cons x ops)
  obtain s owned where c: "c = (s, owned)" by (cases c)
  obtain s' p where al: "alloc s = (s', p)" by (cases "alloc s")
  show ?case
  proof (cases x)
    case AllocOp
    then show ?thesis using Cons.IH [OF client_inv_alloc [OF _ al]] Cons.prems c al by simp
  next
    case (FreeOp i)
    then show ?thesis using Cons.IH Cons.IH [OF client_inv_free, of s owned i] Cons.prems c by simp
  qed
qed


text \<open>Every page the client holds is its own: no two allocations return one frame.\<close>

lemma frame_client_exclusive:
  assumes "wf s" and "frame_client alloc free ops (s, []) = (s', owned)"
  shows "distinct owned \<and> pfn ` set owned \<inter> frames s' = {} \<and> pfn ` set owned \<union> frames s' = frames s \<and> wf s'"
proof -
  have "client_inv (frames s) (s, [])" using assms(1) by (simp add: client_inv_def)
  then have "client_inv (frames s) (s', owned)" using frame_client_inv [of _ "(s, [])" ops] assms(2) by simp
  then show ?thesis by (auto simp: client_inv_def distinct_map)
qed

lemma frame_client_conserves:
  assumes "wf s" and "frame_client alloc free ops (s, []) = (s', owned)"
  shows "frames s' \<subseteq> frames s"
  using frame_client_exclusive [OF assms] by blast

end

lemma free_pages_empty: "region_wf r \<Longrightarrow> free_pages r = {} \<longleftrightarrow> mr_stack r = []"
  using block_wf_first by (cases "mr_stack r") (auto simp: free_pages_def region_wf_def stack_wf_Cons)

interpretation pmm: frame_allocator page_alloc page_free free_pages region_wf
proof
  show "f + 1 < 4503599627370496" if "region_wf s" "f \<in> free_pages s" for s f
    using that stack_pages_bound [of "mr_stack s"] by (auto simp: region_wf_def free_pages_def)
  show "page_aligned p \<and> pfn p \<in> free_pages s \<and> free_pages s' = free_pages s - {pfn p} \<and> region_wf s'"
    if "region_wf s" "free_pages s \<noteq> {}" "page_alloc s = (s', p)" for s s' p
    using page_alloc_spec [of s s' p] that free_pages_empty by blast
  show "page_alloc s = (s, 0xFF)" if "region_wf s" "free_pages s = {}" for s
    using that by (simp add: free_pages_empty page_alloc_def)
  show "free_pages (page_free s p) = insert (pfn p) (free_pages s) \<and> region_wf (page_free s p)"
    if "region_wf s" "page_aligned p" "pfn p + 1 < 4503599627370496" "pfn p \<notin> free_pages s" for s p
    using page_free_spec that by blast
qed

section \<open>Initialisation from the memory map\<close>

text \<open>The frames an entry contributes: the whole pages inside it, above the managed base.\<close>

definition entry_usable :: "bool \<Rightarrow> Limine_MemMapEntry \<Rightarrow> bool" where
  "entry_usable reclaim e \<longleftrightarrow> me_length e > 0 \<and>
     (me_type e = LIMINE_MEMMAP_USABLE \<or> me_type e = LIMINE_MEMMAP_BOOTLOADER_RECLAIMABLE
      \<or> reclaim \<and> me_type e = LIMINE_MEMMAP_EXECUTABLE_AND_MODULES)"

definition entry_frames :: "u64 \<Rightarrow> bool \<Rightarrow> Limine_MemMapEntry \<Rightarrow> nat set" where
  "entry_frames managed_base reclaim e =
     (if entry_usable reclaim e
      then {max ((unat (me_base e) + 4095) div 4096) (pfn managed_base)
              ..< (unat (me_base e) + unat (me_length e)) div 4096}
      else {})"

text \<open>An entry that does not wrap and spans at least one page boundary.\<close>

definition entry_ok :: "bool \<Rightarrow> Limine_MemMapEntry \<Rightarrow> bool" where
  "entry_ok reclaim e \<longleftrightarrow> (entry_usable reclaim e \<longrightarrow>
     unat (me_base e) + unat (me_length e) < 18446744073709551616
     \<and> (unat (me_base e) + 4095) div 4096 \<le> (unat (me_base e) + unat (me_length e)) div 4096)"

fun entries_disjoint :: "u64 \<Rightarrow> bool \<Rightarrow> Limine_MemMapEntry list \<Rightarrow> bool" where
  "entries_disjoint m rc [] = True"
| "entries_disjoint m rc (e # es) =
     ((\<forall>f \<in> set es. entry_frames m rc e \<inter> entry_frames m rc f = {}) \<and> entries_disjoint m rc es)"

lemma stack_block_spec:
  assumes wf: "region_wf r" "mr_size r = mr_free r" and al: "page_aligned a" "page_aligned z"
    and le: "pfn a \<le> pfn z" and dis: "free_pages r \<inter> {pfn a ..< pfn z} = {}"
  shows "region_wf (stack_block r a z) \<and> mr_size (stack_block r a z) = mr_free (stack_block r a z)
     \<and> free_pages (stack_block r a z) = free_pages r \<union> {pfn a ..< pfn z}"
proof (cases "z = a")
  case True
  then show ?thesis using wf by (simp add: stack_block_def)
next
  case False
  have t: "unat (z - a) = (pfn z - pfn a) * 4096"
    using le page_aligned_pfn [OF al(1)] page_aligned_pfn [OF al(2)]
    by (subst unat_sub_u64) (auto simp: diff_mult_distrib)
  let ?b = "\<lparr>mb_base = a, mb_size = drop_bit 12 (z - a)\<rparr>"
  have sz: "unat (mb_size ?b) = pfn z - pfn a" by (simp add: drop_bit_eq_div unat_div t)
  have lt: "pfn a < pfn z" using False le pfn_inj [OF al] by auto
  have bp: "block_pages ?b = {pfn a ..< pfn z}" using lt sz by (simp add: block_pages_def)
  have bw: "block_wf ?b" using lt sz al(1) pfn_less [of z] by (auto simp: block_wf_def u64_eq_iff)
  let ?r = "stack_block r a z"
  have st: "mr_stack ?r = ?b # mr_stack r" "mr_free ?r = mr_free r + (z - a)" "mr_size ?r = mr_free ?r"
    using False wf(2) by (simp_all add: stack_block_def VM_PAGE_LINEAR_SHIFT_def Let_def)
  have fp: "free_pages ?r = free_pages r \<union> {pfn a ..< pfn z}" by (simp add: free_pages_def st(1) bp Un_commute)
  have sw: "stack_wf (mr_stack ?r)"
    using wf(1) bw dis by (auto simp: region_wf_def st(1) stack_wf_Cons bp free_pages_def)
  have c: "card (free_pages ?r) = card (free_pages r) + (pfn z - pfn a)"
    unfolding fp using dis by (subst card_Un_disjoint) (auto simp: free_pages_def)
  have "4096 * card (free_pages ?r) < 18446744073709551616"
    using stack_sum_bound [OF sw] card_stack_pages [OF sw] by (simp only: free_pages_def)
  then have "unat (mr_free ?r) = 4096 * card (free_pages ?r)"
    unfolding st(2) c using region_wf_free [OF wf(1)] t
    by (subst unat_add_u64) (auto simp: algebra_simps)
  then show ?thesis using sw fp st(3) by (auto intro: region_wfI)
qed

lemma round_up_div: "(x + 4095) div 4096 = (if x mod 4096 = 0 then x div 4096 else x div 4096 + 1)" for x :: nat
proof (cases "x mod 4096 = 0")
  case False
  define q m where "q = x div 4096" and "m = x mod 4096"
  have "x = q * 4096 + m" "0 < m" "m < 4096" using False by (simp_all add: q_def m_def)
  then have "(x + 4095) div 4096 = q + 1" by (intro div_nat_eqI) simp_all
  then show ?thesis using False by (simp add: q_def)
qed (auto elim!: dvdE simp: mod_eq_0_iff_dvd)

lemma round_up_page:
  assumes "(unat b + 4095) div 4096 < 4503599627370496"
  defines "s \<equiv> b AND 0xFFFFFFFFFFFFF000"
  defines "s' \<equiv> if b > s then s + VM_PAGE_SIZE else s"
  shows "page_aligned s'" "pfn s' = (unat b + 4095) div 4096"
proof -
  have us: "unat s = unat b div 4096 * 4096" by (simp add: s_def unat_align_down pfn_def)
  have p: "page_aligned s" "pfn s = unat b div 4096" by (simp_all add: s_def pfn_def [of b])
  have gt: "b > s \<longleftrightarrow> unat b mod 4096 \<noteq> 0"
    using us div_mult_mod_eq [of "unat b" 4096] unfolding word_less_nat_alt by linarith
  have up: "(unat b + 4095) div 4096 = (if unat b mod 4096 = 0 then unat b div 4096 else unat b div 4096 + 1)"
    by (rule round_up_div)
  have nx: "b > s \<Longrightarrow> pfn (s + VM_PAGE_SIZE) = pfn s + 1 \<and> page_aligned (s + VM_PAGE_SIZE)"
    using gt up p assms(1) by (intro pfn_add_page) auto
  show "page_aligned s'" "pfn s' = (unat b + 4095) div 4096"
    unfolding s'_def using gt up nx p by auto
qed

lemma page_aligned_less: "page_aligned a \<Longrightarrow> page_aligned b \<Longrightarrow> a < b \<longleftrightarrow> pfn a < pfn b"
  by (simp add: word_less_nat_alt page_aligned_pfn)

lemma page_aligned_le: "page_aligned a \<Longrightarrow> page_aligned b \<Longrightarrow> a \<le> b \<longleftrightarrow> pfn a \<le> pfn b"
  by (simp add: word_le_nat_alt page_aligned_pfn)

lemma init_entry_spec:
  assumes wf: "region_wf r" "mr_size r = mr_free r" and m: "page_aligned m" and ok: "entry_ok rc e"
    and dis: "free_pages r \<inter> entry_frames m rc e = {}"
  shows "region_wf (init_entry m rc e r) \<and> mr_size (init_entry m rc e r) = mr_free (init_entry m rc e r)
     \<and> free_pages (init_entry m rc e r) = free_pages r \<union> entry_frames m rc e"
proof (cases "entry_usable rc e")
  case False
  then have "init_entry m rc e r = r" by (auto simp: init_entry_def entry_usable_def)
  then show ?thesis using wf False by (simp add: entry_frames_def)
next
  case True
  define s where "s = (if me_base e > me_base e AND 0xFFFFFFFFFFFFF000
    then (me_base e AND 0xFFFFFFFFFFFFF000) + VM_PAGE_SIZE else me_base e AND 0xFFFFFFFFFFFFF000)"
  define z where "z = (me_base e + me_length e) AND 0xFFFFFFFFFFFFF000"
  have sum: "unat (me_base e + me_length e) = unat (me_base e) + unat (me_length e)"
    using True ok by (intro unat_add_u64) (simp add: entry_ok_def)
  have z: "page_aligned z" "pfn z = (unat (me_base e) + unat (me_length e)) div 4096"
    by (simp_all add: z_def sum pfn_def [of "me_base e + me_length e"])
  have "(unat (me_base e) + 4095) div 4096 < 4503599627370496"
    using True ok pfn_less [of z] z(2) by (auto simp: entry_ok_def)
  from round_up_page [OF this] have s: "page_aligned s" "pfn s = (unat (me_base e) + 4095) div 4096"
    by (simp_all add: s_def)
  have le: "pfn s \<le> pfn z" using True ok s(2) z(2) by (simp add: entry_ok_def)
  have ef: "entry_frames m rc e = {max (pfn s) (pfn m) ..< pfn z}"
    using True by (simp add: entry_frames_def s(2) z(2))
  have ie: "init_entry m rc e r = (if s < m then if z \<le> m then r else stack_block r m z else stack_block r s z)"
    using True by (auto simp: init_entry_def entry_usable_def Let_def s_def z_def memmap_types)
  consider (low) "pfn s < pfn m" "pfn z \<le> pfn m" | (cut) "pfn s < pfn m" "pfn m < pfn z" | (high) "pfn m \<le> pfn s"
    by linarith
  then show ?thesis
  proof cases
    case low
    then have "init_entry m rc e r = r" using ie s z m by (simp add: page_aligned_less page_aligned_le)
    then show ?thesis using wf low by (simp add: ef)
  next
    case cut
    then have "init_entry m rc e r = stack_block r m z" using ie s z m by (simp add: page_aligned_less page_aligned_le)
    then show ?thesis using stack_block_spec [OF wf m z(1)] cut dis by (simp add: ef)
  next
    case high
    then have "init_entry m rc e r = stack_block r s z" using ie s z m by (simp add: page_aligned_less page_aligned_le)
    then show ?thesis using stack_block_spec [OF wf s(1) z(1) le] high dis by (simp add: ef)
  qed
qed

lemma init_entries_spec:
  assumes "region_wf r" "mr_size r = mr_free r" "page_aligned m" "\<forall>e \<in> set es. entry_ok rc e"
    "entries_disjoint m rc es" "\<forall>e \<in> set es. free_pages r \<inter> entry_frames m rc e = {}"
  shows "region_wf (fold (init_entry m rc) es r)
     \<and> mr_size (fold (init_entry m rc) es r) = mr_free (fold (init_entry m rc) es r)
     \<and> free_pages (fold (init_entry m rc) es r) = free_pages r \<union> (\<Union>e \<in> set es. entry_frames m rc e)"
  using assms
proof (induction es arbitrary: r)
  case Nil
  then show ?case by simp
next
  case (Cons e es)
  have step: "region_wf (init_entry m rc e r)" "mr_size (init_entry m rc e r) = mr_free (init_entry m rc e r)"
     "free_pages (init_entry m rc e r) = free_pages r \<union> entry_frames m rc e"
    using init_entry_spec [of r m rc e] Cons.prems by auto
  have "\<forall>f \<in> set es. free_pages (init_entry m rc e r) \<inter> entry_frames m rc f = {}"
    using Cons.prems step(3) by auto
  then have "region_wf (fold (init_entry m rc) es (init_entry m rc e r))
     \<and> mr_size (fold (init_entry m rc) es (init_entry m rc e r)) = mr_free (fold (init_entry m rc) es (init_entry m rc e r))
     \<and> free_pages (fold (init_entry m rc) es (init_entry m rc e r))
        = free_pages (init_entry m rc e r) \<union> (\<Union>e \<in> set es. entry_frames m rc e)"
    using Cons.prems step(1,2) by (intro Cons.IH) auto
  then show ?case by (simp add: step(3) Un_assoc)
qed

section \<open>Properties\<close>

text \<open>C1: across any run of allocations and frees by a client that frees only pages it owns,
  starting from any well-formed region, the pages the client holds are pairwise distinct,
  none of them is still free, and held and free frames together are exactly the frames that
  were free at the start: no frame is handed out twice and none is lost.\<close>

theorem page_alloc_exclusive:
  assumes "region_wf r" and "frame_client page_alloc page_free ops (r, []) = (r', owned)"
  shows "distinct owned \<and> pfn ` set owned \<inter> free_pages r' = {}
    \<and> pfn ` set owned \<union> free_pages r' = free_pages r \<and> region_wf r'"
  using pmm.frame_client_exclusive [OF assms] .

definition demo_region :: MemoryRegion where
  "demo_region = page_alloc_init_limine
     [\<lparr>me_base = 0x1000, me_length = 0x2000, me_type = 0\<rparr>, \<lparr>me_base = 0x5000, me_length = 0x1000, me_type = 5\<rparr>] 0 True"

lemma demo_region_eq: "demo_region = \<lparr>mr_size = 0x3000, mr_free = 0x3000,
   mr_stack = [\<lparr>mb_base = 0x5000, mb_size = 1\<rparr>, \<lparr>mb_base = 0x1000, mb_size = 2\<rparr>]\<rparr>"
  by code_simp

lemma demo_region_wf: "region_wf demo_region"
  by (simp add: demo_region_eq region_wf_def stack_wf_Cons block_wf_def block_pages_def page_aligned_def pfn_def)

lemma demo_run: "frame_client page_alloc page_free
     [AllocOp, AllocOp, FreeOp 1, AllocOp, AllocOp, FreeOp 1] (demo_region, [])
   = (\<lparr>mr_size = 0x3000, mr_free = 0x1000, mr_stack = [\<lparr>mb_base = 0x5000, mb_size = 1\<rparr>]\<rparr>, [0x2000, 0x1000])"
  by code_simp

theorem page_alloc_exclusive_witness:
  "distinct [0x2000, 0x1000 :: u64]
   \<and> region_wf \<lparr>mr_size = 0x3000, mr_free = 0x1000, mr_stack = [\<lparr>mb_base = 0x5000, mb_size = 1\<rparr>]\<rparr>"
  using page_alloc_exclusive [OF demo_region_wf demo_run] by simp

text \<open>On a memory map whose usable entries do not wrap, span a page boundary and share no
  page, initialisation yields a well-formed region whose free frames are exactly the whole
  pages inside the usable entries above the managed base, with the free byte counter equal
  to the size.\<close>

theorem page_alloc_init_limine_ok:
  assumes "page_aligned managed_base" and "\<forall>e \<in> set memmap. entry_ok reclaim e"
    and "entries_disjoint managed_base reclaim memmap"
  defines "r \<equiv> page_alloc_init_limine memmap managed_base reclaim"
  shows "region_wf r \<and> free_pages r = (\<Union>e \<in> set memmap. entry_frames managed_base reclaim e)
    \<and> mr_size r = mr_free r"
  using init_entries_spec [of "\<lparr>mr_size = 0, mr_free = 0, mr_stack = []\<rparr>" managed_base memmap reclaim] assms(1-3)
  by (simp add: r_def page_alloc_init_limine_def region_wf_def free_pages_def)

theorem page_alloc_init_limine_ok_witness:
  "free_pages (page_alloc_init_limine [\<lparr>me_base = 0x1800, me_length = 0x2900, me_type = 0\<rparr>] 0x3000 False) = {3}"
proof -
  let ?e = "\<lparr>me_base = 0x1800, me_length = 0x2900, me_type = 0\<rparr>"
  have "entry_frames 0x3000 False ?e = {3}"
    by (auto simp: entry_frames_def entry_usable_def LIMINE_MEMMAP_USABLE_def pfn_def)
  then show ?thesis
    using page_alloc_init_limine_ok [of "0x3000" "[?e]" False] by (simp add: page_aligned_def entry_ok_def)
qed

text \<open>A multi-page allocation that finds its first sufficient block (searching from the top
  of the stack) either an exact fit or asked for a single page returns the base of that block
  and removes exactly the requested run of frames from the free set.\<close>

theorem page_alloc_m_correct:
  assumes "region_wf r" and "mr_stack r = xs @ b # ys" and "\<forall>c \<in> set xs. mb_size c < n"
    and "mb_size b = n \<or> mb_size b > n \<and> n = 1" and "page_alloc_m r n = (r', p)"
  shows "p = mb_base b \<and> {pfn p ..< pfn p + unat n} \<subseteq> free_pages r
    \<and> free_pages r' = free_pages r - {pfn p ..< pfn p + unat n} \<and> region_wf r'"
proof (cases "mb_size b = n")
  case True
  then show ?thesis using page_alloc_m_exact_spec [OF assms(1-3) _ assms(5)] by (simp add: block_pages_def)
next
  case False
  then have f: "mb_size b > n" "n = 1" using assms(4) by auto
  have sub: "block_pages b \<subseteq> free_pages r" by (auto simp: free_pages_def assms(2))
  have "1 < unat (mb_size b)" using f by (simp add: word_less_nat_alt)
  then have "block_pages b = insert (pfn (mb_base b)) {pfn (mb_base b) + 1 ..< pfn (mb_base b) + 1 + (unat (mb_size b) - 1)}"
    by (auto simp: block_pages_def)
  moreover have "{pfn p ..< pfn p + unat n} = {pfn p}" using f by simp
  ultimately show ?thesis
    using page_alloc_m_split_spec [OF assms(1-3) f(1) _ assms(5)] sub unfolding f(2) by auto
qed

theorem page_alloc_m_correct_witness:
  "page_alloc_m demo_region 2 = (\<lparr>mr_size = 0x3000, mr_free = 0x1000, mr_stack = [\<lparr>mb_base = 0x5000, mb_size = 1\<rparr>]\<rparr>, 0x1000)
   \<and> {pfn 0x1000 ..< pfn 0x1000 + 2} \<subseteq> free_pages demo_region"
proof -
  have e: "page_alloc_m demo_region 2 = (\<lparr>mr_size = 0x3000, mr_free = 0x1000, mr_stack = [\<lparr>mb_base = 0x5000, mb_size = 1\<rparr>]\<rparr>, 0x1000)"
    by code_simp
  show ?thesis
    using page_alloc_m_correct [of demo_region "[\<lparr>mb_base = 0x5000, mb_size = 1\<rparr>]" "\<lparr>mb_base = 0x1000, mb_size = 2\<rparr>" "[]" 2, OF _ _ _ _ e]
    by (simp add: demo_region_wf e) (simp add: demo_region_eq)
qed

text \<open>When the first sufficient block is larger than a request for two or more pages, the
  block is advanced by one page only, so every frame of the run handed out except the first
  stays in the free set (as long as the block still covers it), and the last frames of the
  block drop out of it.\<close>

theorem page_alloc_m_split_overlap:
  assumes "region_wf r" and "mr_stack r = xs @ b # ys" and "\<forall>c \<in> set xs. mb_size c < n"
    and "mb_size b > n" and "n \<ge> 2" and "page_alloc_m r n = (r', p)"
  shows "p = mb_base b \<and> pfn p + 1 \<in> free_pages r' \<and> pfn p + unat (mb_size b) - 1 \<notin> free_pages r'"
proof -
  have n: "2 \<le> unat n" "n \<noteq> 0" "unat n < unat (mb_size b)"
    using assms(4,5) by (auto simp: word_le_nat_alt word_less_nat_alt)
  have s: "p = mb_base b" "free_pages r' = free_pages r - block_pages b
      \<union> {pfn p + 1 ..< pfn p + 1 + (unat (mb_size b) - unat n)}"
    using page_alloc_m_split_spec [OF assms(1-4) n(2) assms(6)] by blast+
  then show ?thesis using n by (auto simp: block_pages_def)
qed

definition split_region :: MemoryRegion where
  "split_region = \<lparr>mr_size = 0x4000, mr_free = 0x4000, mr_stack = [\<lparr>mb_base = 0x1000, mb_size = 4\<rparr>]\<rparr>"

theorem page_alloc_m_split_overlap_witness:
  "page_alloc_m split_region 2 = (\<lparr>mr_size = 0x4000, mr_free = 0x2000, mr_stack = [\<lparr>mb_base = 0x2000, mb_size = 2\<rparr>]\<rparr>, 0x1000)
   \<and> pfn 0x1000 + 1 \<in> free_pages (fst (page_alloc_m split_region 2))"
proof -
  have e: "page_alloc_m split_region 2 = (\<lparr>mr_size = 0x4000, mr_free = 0x2000, mr_stack = [\<lparr>mb_base = 0x2000, mb_size = 2\<rparr>]\<rparr>, 0x1000)"
    by code_simp
  have "region_wf split_region"
    by (simp add: split_region_def region_wf_def stack_wf_Cons block_wf_def page_aligned_def pfn_def)
  then show ?thesis
    using page_alloc_m_split_overlap [of split_region "[]" "\<lparr>mb_base = 0x1000, mb_size = 4\<rparr>" "[]" 2, OF _ _ _ _ _ e]
    by (simp add: e) (simp add: split_region_def)
qed

text \<open>An unaligned usable entry that lies inside one page (it spans no page boundary) and
  above the managed base makes the byte count wrap: a block of almost the whole address space
  is stacked.\<close>

theorem init_entry_subpage_wraps:
  assumes "entry_usable reclaim e" and "pfn (me_base e) = pfn (me_base e + me_length e)"
    and "\<not> page_aligned (me_base e)" and "pfn managed_base \<le> pfn (me_base e)"
    and "pfn (me_base e) + 1 < 4503599627370496" and "page_aligned managed_base"
  shows "\<exists>b. mr_stack (init_entry managed_base reclaim e r) = b # mr_stack r
     \<and> unat (mb_size b) = 4503599627370495"
proof -
  define s where "s = me_base e AND 0xFFFFFFFFFFFFF000"
  have z: "(me_base e + me_length e) AND 0xFFFFFFFFFFFFF000 = s"
    using assms(2) by (simp add: s_def u64_eq_iff unat_align_down)
  have gt: "me_base e > s"
  proof -
    have "unat s \<le> unat (me_base e)" by (simp add: s_def unat_align_down pfn_def)
    moreover have "s \<noteq> me_base e" using assms(3) page_aligned_align_down [of "me_base e"] unfolding s_def by metis
    ultimately show ?thesis by (simp add: word_less_nat_alt u64_eq_iff)
  qed
  have s: "pfn s = pfn (me_base e)" "page_aligned s" by (simp_all add: s_def)
  then have s1: "pfn (s + VM_PAGE_SIZE) = pfn s + 1" "page_aligned (s + VM_PAGE_SIZE)"
    using assms(5) pfn_add_page [of s] by auto
  then have nl: "\<not> s + VM_PAGE_SIZE < managed_base"
    using assms(4,6) s by (simp add: page_aligned_less)
  have "init_entry managed_base reclaim e r = stack_block r (s + VM_PAGE_SIZE) s"
    using assms(1) gt nl z
    by (auto simp: init_entry_def entry_usable_def Let_def memmap_types simp flip: s_def)
  moreover have "s - (s + VM_PAGE_SIZE) = 0xFFFFFFFFFFFFF000" by (simp add: VM_PAGE_SIZE_def)
  moreover have "unat (drop_bit 12 (0xFFFFFFFFFFFFF000 :: u64)) = 4503599627370495"
    by (simp add: drop_bit_eq_div unat_div)
  ultimately show ?thesis by (simp add: stack_block_def VM_PAGE_LINEAR_SHIFT_def)
qed

theorem init_entry_subpage_wraps_witness:
  "\<exists>b. mr_stack (init_entry 0 True \<lparr>me_base = 0x1100, me_length = 0x100, me_type = 6\<rparr>
       \<lparr>mr_size = 0, mr_free = 0, mr_stack = []\<rparr>) = [b] \<and> unat (mb_size b) = 4503599627370495"
  using init_entry_subpage_wraps [of True "\<lparr>me_base = 0x1100, me_length = 0x100, me_type = 6\<rparr>" 0
    "\<lparr>mr_size = 0, mr_free = 0, mr_stack = []\<rparr>"]
  by (simp add: entry_usable_def LIMINE_MEMMAP_EXECUTABLE_AND_MODULES_def page_aligned_def pfn_def)

end
