(* ===== verification/Syscall_Result.thy ===== *)
theory Syscall_Result
  imports Anos_Prelude
begin

text \<open>
  What a system call returns, \<^verbatim>\<open>kernel/include/syscalls.h\<close> and the helpers at the top of \<^verbatim>\<open>kernel/syscalls.c\<close>: a kind of outcome and a value.
\<close>

datatype SyscallResultType = SYSCALL_OK | SYSCALL_FAILURE | SYSCALL_BAD_NUMBER | SYSCALL_NOT_IMPL | SYSCALL_BADARGS | SYSCALL_BAD_NAME | SYSCALL_INCAPABLE

record SyscallResult =
  sr_type :: SyscallResultType
  sr_value :: u64

definition RESULT_TYPE_VALUE :: "SyscallResultType \<Rightarrow> u64 \<Rightarrow> SyscallResult" where
  "RESULT_TYPE_VALUE ty val = \<lparr>sr_type = ty, sr_value = val\<rparr>"

definition RESULT_TYPE :: "SyscallResultType \<Rightarrow> SyscallResult" where
  "RESULT_TYPE ty = \<lparr>sr_type = ty, sr_value = 0\<rparr>"

abbreviation RESULT_OK :: SyscallResult where "RESULT_OK \<equiv> RESULT_TYPE SYSCALL_OK"

abbreviation RESULT_OK_VAL :: "u64 \<Rightarrow> SyscallResult" where "RESULT_OK_VAL \<equiv> RESULT_TYPE_VALUE SYSCALL_OK"

abbreviation RESULT_FAILURE :: SyscallResult where "RESULT_FAILURE \<equiv> RESULT_TYPE SYSCALL_FAILURE"

abbreviation RESULT_BADARGS :: SyscallResult where "RESULT_BADARGS \<equiv> RESULT_TYPE SYSCALL_BADARGS"

lemma result_type_eq [simp]:
  "RESULT_TYPE a = RESULT_TYPE b \<longleftrightarrow> a = b" "RESULT_TYPE_VALUE a v = RESULT_TYPE_VALUE b w \<longleftrightarrow> a = b \<and> v = w"
  "RESULT_TYPE_VALUE a v = RESULT_TYPE b \<longleftrightarrow> a = b \<and> v = 0" "RESULT_TYPE b = RESULT_TYPE_VALUE a v \<longleftrightarrow> a = b \<and> v = 0"
  by (auto simp: RESULT_TYPE_def RESULT_TYPE_VALUE_def)

lemma result_sel [simp]: "sr_type (RESULT_TYPE a) = a" "sr_type (RESULT_TYPE_VALUE a v) = a" "sr_value (RESULT_TYPE_VALUE a v) = v"
  by (simp_all add: RESULT_TYPE_def RESULT_TYPE_VALUE_def)

end
