(* ===== verification/Region_Tree.thy ===== *)
theory Region_Tree
  imports Syscall_Result
begin

text \<open>
  The per-process tree of virtual memory regions, \<^verbatim>\<open>kernel/structs/region_tree.c\<close>: an AVL
  tree of half-open address ranges keyed by their start, with the two system calls
  (\<^verbatim>\<open>create_region\<close> and \<^verbatim>\<open>destroy_region\<close> of \<^verbatim>\<open>kernel/syscalls.c\<close>) that change it. A node pointer is a
  tree, the null pointer is the empty tree; a pointer into the tree that is written through
  (\<^verbatim>\<open>adj\<close> in \<^verbatim>\<open>create_region\<close>) is the path to the node. Heights are integers. Rotations read
  through a child pointer that the balance test proves non-null; the model returns the tree
  unchanged where the pointer would be null.
\<close>

section \<open>Data\<close>

definition USERSPACE_LIMIT :: u64 where
  "USERSPACE_LIMIT = 0x8000000000000000"

datatype Region = NoRegion
  | Region (rg_start: u64) (rg_end: u64) (rg_flags: u64) (rg_left: Region) (rg_right: Region) (rg_height: int)

section \<open>Operations\<close>

fun height :: "Region \<Rightarrow> int" where
  "height NoRegion = 0"
| "height (Region s e f l r h) = h"

text \<open>The assignment \<^verbatim>\<open>node->height = 1 + max(...)\<close>.\<close>

fun set_height :: "Region \<Rightarrow> Region" where
  "set_height NoRegion = NoRegion"
| "set_height (Region s e f l r h) = Region s e f l r (max (height l) (height r) + 1)"

fun rotate_right :: "Region \<Rightarrow> Region" where
  "rotate_right (Region ys ye yf (Region xs xe xf xl T2 xh) yr yh) =
     set_height (Region xs xe xf xl (set_height (Region ys ye yf T2 yr yh)) xh)"
| "rotate_right t = t"

fun rotate_left :: "Region \<Rightarrow> Region" where
  "rotate_left (Region xs xe xf xl (Region ys ye yf T2 yr yh) xh) =
     set_height (Region ys ye yf (set_height (Region xs xe xf xl T2 xh)) yr yh)"
| "rotate_left t = t"

fun get_balance :: "Region \<Rightarrow> int" where
  "get_balance NoRegion = 0"
| "get_balance (Region s e f l r h) = height l - height r"

text \<open>The rebalancing at the end of \<^verbatim>\<open>region_tree_insert\<close>, steered by the inserted key.\<close>

fun rebalance_insert :: "u64 \<Rightarrow> Region \<Rightarrow> Region" where
  "rebalance_insert k NoRegion = NoRegion"
| "rebalance_insert k (Region s e f l r h) =
     (let node = set_height (Region s e f l r h);
          balance = get_balance node
      in if balance > 1 \<and> k < rg_start l then rotate_right node
         else if balance < -1 \<and> k \<ge> rg_start r then rotate_left node
         else if balance > 1 \<and> k \<ge> rg_start l then rotate_right (Region s e f (rotate_left l) r (rg_height node))
         else if balance < -1 \<and> k < rg_start r then rotate_left (Region s e f l (rotate_right r) (rg_height node))
         else node)"

fun region_tree_insert :: "Region \<Rightarrow> Region \<Rightarrow> Region" where
  "region_tree_insert node new_region =
     (if new_region = NoRegion \<or> rg_end new_region \<le> rg_start new_region then node
      else if rg_end new_region > USERSPACE_LIMIT then node
      else case node of
             NoRegion \<Rightarrow> new_region
           | Region s e f l r h \<Rightarrow>
               rebalance_insert (rg_start new_region)
                 (if rg_start new_region < s then Region s e f (region_tree_insert l new_region) r h
                  else Region s e f l (region_tree_insert r new_region) h))"

declare region_tree_insert.simps [simp del]

fun region_tree_lookup :: "Region \<Rightarrow> u64 \<Rightarrow> Region" where
  "region_tree_lookup NoRegion addr = NoRegion"
| "region_tree_lookup (Region s e f l r h) addr =
     (if addr < s then region_tree_lookup l addr
      else if addr \<ge> e then region_tree_lookup r addr
      else Region s e f l r h)"

fun region_tree_visit_all :: "Region \<Rightarrow> (Region \<Rightarrow> 'd \<Rightarrow> 'd) \<Rightarrow> 'd \<Rightarrow> 'd" where
  "region_tree_visit_all NoRegion fn data = data"
| "region_tree_visit_all (Region s e f l r h) fn data =
     region_tree_visit_all r fn (fn (Region s e f l r h) (region_tree_visit_all l fn data))"

fun region_tree_resize :: "Region \<Rightarrow> u64 \<Rightarrow> Region \<times> bool" where
  "region_tree_resize NoRegion new_end = (NoRegion, False)"
| "region_tree_resize (Region s e f l r h) new_end =
     (if new_end \<le> s \<or> new_end > USERSPACE_LIMIT then (Region s e f l r h, False)
      else (Region s new_end f l r h, True))"

fun min_value_node :: "Region \<Rightarrow> Region" where
  "min_value_node NoRegion = NoRegion"
| "min_value_node (Region s e f l r h) = (if l = NoRegion then Region s e f l r h else min_value_node l)"

text \<open>The rebalancing at the end of \<^verbatim>\<open>region_tree_remove\<close>, steered by the children's balance.\<close>

fun rebalance_remove :: "Region \<Rightarrow> Region" where
  "rebalance_remove NoRegion = NoRegion"
| "rebalance_remove (Region s e f l r h) =
     (let root = set_height (Region s e f l r h);
          balance = get_balance root
      in if balance > 1 \<and> get_balance l \<ge> 0 then rotate_right root
         else if balance > 1 \<and> get_balance l < 0 then rotate_right (Region s e f (rotate_left l) r (rg_height root))
         else if balance < -1 \<and> get_balance r \<le> 0 then rotate_left root
         else if balance < -1 \<and> get_balance r > 0 then rotate_left (Region s e f l (rotate_right r) (rg_height root))
         else root)"

fun region_tree_remove :: "Region \<Rightarrow> u64 \<Rightarrow> Region" where
  "region_tree_remove NoRegion start = NoRegion"
| "region_tree_remove (Region s e f l r h) start =
     (if start < s then rebalance_remove (Region s e f (region_tree_remove l start) r h)
      else if start > s then rebalance_remove (Region s e f l (region_tree_remove r start) h)
      else if l = NoRegion \<or> r = NoRegion then (if l \<noteq> NoRegion then l else r)
      else
        let temp = min_value_node r
        in rebalance_remove (Region (rg_start temp) (rg_end temp) (rg_flags temp) l
             (region_tree_remove r (rg_start temp)) h))"

text \<open>\<^verbatim>\<open>region_tree_free_all\<close> frees the nodes children first and clears the root pointer: the
  new root and the nodes in the order they are freed.\<close>

fun region_tree_free_all :: "Region \<Rightarrow> Region \<times> Region list" where
  "region_tree_free_all NoRegion = (NoRegion, [])"
| "region_tree_free_all (Region s e f l r h) =
     (NoRegion, snd (region_tree_free_all l) @ snd (region_tree_free_all r) @ [Region s e f l r h])"

section \<open>System calls on the tree\<close>

datatype dir = L | R

fun update_at :: "dir list \<Rightarrow> (Region \<Rightarrow> Region) \<Rightarrow> Region \<Rightarrow> Region" where
  "update_at p g NoRegion = NoRegion"
| "update_at [] g (Region s e f l r h) = g (Region s e f l r h)"
| "update_at (L # p) g (Region s e f l r h) = Region s e f (update_at p g l) r h"
| "update_at (R # p) g (Region s e f l r h) = Region s e f l (update_at p g r) h"

fun region_tree_find_adjacent :: "Region \<Rightarrow> u64 \<Rightarrow> u64 \<Rightarrow> u64 \<Rightarrow> dir list option" where
  "region_tree_find_adjacent NoRegion start finish flags = None"
| "region_tree_find_adjacent (Region s e f l r h) start finish flags =
     (if finish = s \<and> flags = f then Some []
      else if start = e \<and> flags = f then Some []
      else if finish \<le> s then map_option ((#) L) (region_tree_find_adjacent l start finish flags)
      else if start \<ge> e then map_option ((#) R) (region_tree_find_adjacent r start finish flags)
      else None)"

fun region_tree_overlaps :: "Region \<Rightarrow> u64 \<Rightarrow> u64 \<Rightarrow> bool" where
  "region_tree_overlaps NoRegion start finish = False"
| "region_tree_overlaps (Region s e f l r h) start finish =
     (if start < e \<and> finish > s then True
      else if finish \<le> s then region_tree_overlaps l start finish
      else region_tree_overlaps r start finish)"

text \<open>The write through \<^verbatim>\<open>adj\<close>.\<close>

fun extend_region :: "u64 \<Rightarrow> u64 \<Rightarrow> Region \<Rightarrow> Region" where
  "extend_region start finish NoRegion = NoRegion"
| "extend_region start finish (Region s e f l r h) =
     (if finish = s then Region start e f l r h
      else if start = e then Region s finish f l r h
      else Region s e f l r h)"

text \<open>\<open>slab_ok\<close> is whether \<^verbatim>\<open>slab_alloc_block\<close> returned a block.\<close>

definition handle_create_region :: "bool \<Rightarrow> Region \<Rightarrow> u64 \<Rightarrow> u64 \<Rightarrow> u64 \<Rightarrow> Region \<times> SyscallResult" where
  "handle_create_region slab_ok regions start finish flags =
     (if start AND 0xFFF \<noteq> 0 \<or> finish AND 0xFFF \<noteq> 0 \<or> finish \<le> start
         \<or> start \<ge> USERSPACE_LIMIT \<or> finish > USERSPACE_LIMIT then (regions, RESULT_BADARGS)
      else case region_tree_find_adjacent regions start finish flags of
             Some adj \<Rightarrow> (update_at adj (extend_region start finish) regions, RESULT_OK)
           | None \<Rightarrow>
               if region_tree_overlaps regions start finish then (regions, RESULT_OK)
               else if \<not> slab_ok then (regions, RESULT_FAILURE)
               else (region_tree_insert regions (Region start finish flags NoRegion NoRegion 1), RESULT_OK))"

definition handle_destroy_region :: "Region \<Rightarrow> u64 \<Rightarrow> Region \<times> SyscallResult" where
  "handle_destroy_region regions start =
     (if start AND 0xFFF \<noteq> 0 \<or> start \<ge> USERSPACE_LIMIT then (regions, RESULT_BADARGS)
      else (region_tree_remove regions start, RESULT_OK))"

section \<open>Invariants\<close>

type_synonym range = "u64 \<times> u64 \<times> u64"

fun rg_inorder :: "Region \<Rightarrow> range list" where
  "rg_inorder NoRegion = []"
| "rg_inorder (Region s e f l r h) = rg_inorder l @ (s, e, f) # rg_inorder r"

text \<open>Ordered, pairwise disjoint, non-empty user-space ranges.\<close>

definition ranges_ok :: "range list \<Rightarrow> bool" where
  "ranges_ok xs \<longleftrightarrow> (\<forall>(s, e, f) \<in> set xs. s < e \<and> e \<le> USERSPACE_LIMIT)
     \<and> sorted_wrt (\<lambda>x y. fst (snd x) \<le> fst y) xs"

text \<open>Cached heights are right and siblings differ by at most one.\<close>

fun avl :: "Region \<Rightarrow> bool" where
  "avl NoRegion = True"
| "avl (Region s e f l r h) =
     (avl l \<and> avl r \<and> h = max (height l) (height r) + 1 \<and> \<bar>height l - height r\<bar> \<le> 1)"

definition region_tree_wf :: "Region \<Rightarrow> bool" where
  "region_tree_wf t \<longleftrightarrow> avl t \<and> ranges_ok (rg_inorder t)"

section \<open>Library: contents of rotated and rebalanced trees\<close>

lemma inorder_set_height [simp]: "rg_inorder (set_height t) = rg_inorder t"
  by (cases t) auto

lemma inorder_rotate_right [simp]: "rg_inorder (rotate_right t) = rg_inorder t"
  by (induction t rule: rotate_right.induct) auto

lemma inorder_rotate_left [simp]: "rg_inorder (rotate_left t) = rg_inorder t"
  by (induction t rule: rotate_left.induct) auto

lemma inorder_rebalance_insert [simp]: "rg_inorder (rebalance_insert k t) = rg_inorder t"
  by (cases t) (simp_all add: Let_def del: set_height.simps)

lemma inorder_rebalance_remove [simp]: "rg_inorder (rebalance_remove t) = rg_inorder t"
  by (cases t) (simp_all add: Let_def del: set_height.simps)

declare rebalance_insert.simps(2) [simp del] rebalance_remove.simps(2) [simp del]

lemma inorder_empty [simp]: "rg_inorder t = [] \<longleftrightarrow> t = NoRegion"
  by (cases t) auto

text \<open>Ranges as sorted lists: what order gives about members.\<close>

lemma ranges_ok_Nil [simp]: "ranges_ok []" by (simp add: ranges_ok_def)

lemma ranges_ok_append:
  "ranges_ok (xs @ ys) \<longleftrightarrow> ranges_ok xs \<and> ranges_ok ys \<and> (\<forall>x \<in> set xs. \<forall>y \<in> set ys. fst (snd x) \<le> fst y)"
  by (simp add: ranges_ok_def sorted_wrt_append ball_Un) blast

lemma ranges_ok_Cons:
  "ranges_ok ((s, e, f) # ys) \<longleftrightarrow> s < e \<and> e \<le> USERSPACE_LIMIT \<and> ranges_ok ys \<and> (\<forall>y \<in> set ys. e \<le> fst y)"
  by (auto simp: ranges_ok_def)

lemma ranges_ok_mem: "ranges_ok xs \<Longrightarrow> (s, e, f) \<in> set xs \<Longrightarrow> s < e \<and> e \<le> USERSPACE_LIMIT"
  by (auto simp: ranges_ok_def)

lemma ranges_ok_node:
  assumes "ranges_ok (xs @ (s, e, f) # ys)"
  shows "ranges_ok xs" "ranges_ok ys" "s < e" "e \<le> USERSPACE_LIMIT"
    and "\<And>a b c. (a, b, c) \<in> set xs \<Longrightarrow> a < s \<and> b \<le> s" and "\<And>a b c. (a, b, c) \<in> set ys \<Longrightarrow> e \<le> a \<and> s < a"
proof -
  show "ranges_ok xs" "ranges_ok ys" "s < e" "e \<le> USERSPACE_LIMIT"
    using assms by (simp_all add: ranges_ok_append ranges_ok_Cons)
  show "a < s \<and> b \<le> s" if "(a, b, c) \<in> set xs" for a b c
    using that assms ranges_ok_mem [of xs a b c] by (fastforce simp: ranges_ok_append)
  show "e \<le> a \<and> s < a" if "(a, b, c) \<in> set ys" for a b c
    using that assms by (fastforce simp: ranges_ok_append ranges_ok_Cons)
qed

lemma filter_none: "(\<And>x. x \<in> set xs \<Longrightarrow> \<not> P x) \<Longrightarrow> filter P xs = []"
  by (simp add: filter_empty_conv)

lemma filter_all: "(\<And>x. x \<in> set xs \<Longrightarrow> P x) \<Longrightarrow> filter P xs = xs"
  by (simp add: filter_id_conv)

section \<open>Insertion\<close>

abbreviation new_node :: "u64 \<Rightarrow> u64 \<Rightarrow> u64 \<Rightarrow> Region" where
  "new_node s e f \<equiv> Region s e f NoRegion NoRegion 1"

lemma region_tree_insert_simps:
  assumes "a < b" "b \<le> USERSPACE_LIMIT"
  shows "region_tree_insert NoRegion (new_node a b c) = new_node a b c"
    and "region_tree_insert (Region s e f l r h) (new_node a b c) = rebalance_insert a
      (if a < s then Region s e f (region_tree_insert l (new_node a b c)) r h
       else Region s e f l (region_tree_insert r (new_node a b c)) h)"
proof -
  have "\<not> b \<le> a" "\<not> USERSPACE_LIMIT < b" using assms by auto
  then show "region_tree_insert NoRegion (new_node a b c) = new_node a b c"
    and "region_tree_insert (Region s e f l r h) (new_node a b c) = rebalance_insert a
      (if a < s then Region s e f (region_tree_insert l (new_node a b c)) r h
       else Region s e f l (region_tree_insert r (new_node a b c)) h)"
    by (simp_all add: region_tree_insert.simps [of NoRegion] region_tree_insert.simps [of "Region _ _ _ _ _ _"])
qed

lemma inorder_insert:
  assumes "ranges_ok (rg_inorder t)" "a < b" "b \<le> USERSPACE_LIMIT"
  shows "rg_inorder (region_tree_insert t (new_node a b c)) =
    filter (\<lambda>x. fst x \<le> a) (rg_inorder t) @ (a, b, c) # filter (\<lambda>x. fst x > a) (rg_inorder t)"
  using assms(1)
proof (induction t)
  case NoRegion
  then show ?case using assms by (simp add: region_tree_insert_simps)
next
  case (Region s e f l r h)
  note o = ranges_ok_node [OF Region.prems [simplified]]
  show ?case
  proof (cases "a < s")
    case True
    have "filter (\<lambda>x. fst x \<le> a) (rg_inorder r) = []"
      using o(6) True by (intro filter_none) force
    moreover have "filter (\<lambda>x. fst x > a) (rg_inorder r) = rg_inorder r"
      using o(6) True by (intro filter_all) force
    ultimately show ?thesis using True Region.IH(1) [OF o(1)] assms by (simp add: region_tree_insert_simps)
  next
    case False
    have "filter (\<lambda>x. fst x > a) (rg_inorder l) = []"
      using o(5) False by (intro filter_none) force
    moreover have "filter (\<lambda>x. fst x \<le> a) (rg_inorder l) = rg_inorder l"
      using o(5) False by (intro filter_all) force
    ultimately show ?thesis using False Region.IH(2) [OF o(2)] assms by (simp add: region_tree_insert_simps)
  qed
qed

text \<open>What insertion does to the height, in the strength the key-steered rebalancing needs.\<close>

fun grown :: "u64 \<Rightarrow> Region \<Rightarrow> Region \<Rightarrow> bool" where
  "grown k NoRegion t' = True"
| "grown k (Region s e f l r h) t' = (case t' of NoRegion \<Rightarrow> False | Region s' e' f' l' r' h' \<Rightarrow>
     s' = s \<and> (if k < s then height l' = height r' + 1 else height r' = height l' + 1))"

lemma height_nonneg: "avl t \<Longrightarrow> 0 \<le> height t \<and> (height t = 0 \<longleftrightarrow> t = NoRegion)"
  by (induction t) auto

lemma rebalance_insert_left:
  fixes e f :: u64
  assumes l: "avl l" "avl r" "h = max (height l) (height r) + 1" "\<bar>height l - height r\<bar> \<le> 1"
    and l': "avl l'" "height l' = height l \<or> height l' = height l + 1 \<and> grown a l l'" and as: "a < s"
  defines "t' \<equiv> rebalance_insert a (Region s e f l' r h)"
  shows "avl t' \<and> (height t' = h \<or> height t' = h + 1 \<and> grown a (Region s e f l r h) t')"
proof (cases "height l' = height r + 2")
  case False
  then show ?thesis using l l' as by (auto simp: t'_def rebalance_insert.simps Let_def)
next
  case big: True
  then have g: "grown a l l'" "height l = height r + 1" "height l' = height l + 1" using l'(2) l(4) by auto
  then obtain ls le lf ll lr lh where ll: "l = Region ls le lf ll lr lh"
    using height_nonneg [OF l(2)] by (cases l) auto
  then obtain le' lf' ll' lr' lh' where ll': "l' = Region ls le' lf' ll' lr' lh'"
    "if a < ls then height ll' = height lr' + 1 else height lr' = height ll' + 1"
    using g(1) by (cases l') auto
  show ?thesis
  proof (cases "a < ls")
    case True
    then show ?thesis using as big ll' l'(1) l g by (auto simp: t'_def rebalance_insert.simps Let_def)
  next
    case False
    then have "height lr' = height ll' + 1" using ll'(2) by simp
    moreover then obtain a1 a2 a3 a4 a5 a6 where "lr' = Region a1 a2 a3 a4 a5 a6"
      using height_nonneg [of ll'] l'(1) ll'(1) by (cases lr') auto
    ultimately show ?thesis using False as big ll' l'(1) l g by (auto simp: t'_def rebalance_insert.simps Let_def)
  qed
qed

lemma rebalance_insert_right:
  fixes e f :: u64
  assumes r: "avl l" "avl r" "h = max (height l) (height r) + 1" "\<bar>height l - height r\<bar> \<le> 1"
    and r': "avl r'" "height r' = height r \<or> height r' = height r + 1 \<and> grown a r r'" and as: "\<not> a < s"
  defines "t' \<equiv> rebalance_insert a (Region s e f l r' h)"
  shows "avl t' \<and> (height t' = h \<or> height t' = h + 1 \<and> grown a (Region s e f l r h) t')"
proof (cases "height r' = height l + 2")
  case False
  then show ?thesis using r r' as by (auto simp: t'_def rebalance_insert.simps Let_def)
next
  case big: True
  then have g: "grown a r r'" "height r = height l + 1" "height r' = height r + 1" using r'(2) r(4) by auto
  then obtain rs re rf rl rr rh where rr: "r = Region rs re rf rl rr rh"
    using height_nonneg [OF r(1)] by (cases r) auto
  then obtain re' rf' rl' rr' rh' where rr': "r' = Region rs re' rf' rl' rr' rh'"
    "if a < rs then height rl' = height rr' + 1 else height rr' = height rl' + 1"
    using g(1) by (cases r') auto
  show ?thesis
  proof (cases "a < rs")
    case True
    then have "height rl' = height rr' + 1" using rr'(2) by simp
    moreover then obtain a1 a2 a3 a4 a5 a6 where "rl' = Region a1 a2 a3 a4 a5 a6"
      using height_nonneg [of rr'] r'(1) rr'(1) by (cases rl') auto
    ultimately show ?thesis using True as big rr' r'(1) r g by (auto simp: t'_def rebalance_insert.simps Let_def)
  next
    case False
    then show ?thesis using as big rr' r'(1) r g by (auto simp: t'_def rebalance_insert.simps Let_def)
  qed
qed

lemma avl_insert:
  assumes v: "a < b" "b \<le> USERSPACE_LIMIT" and "avl t"
  shows "avl (region_tree_insert t (new_node a b c))
    \<and> (height (region_tree_insert t (new_node a b c)) = height t
       \<or> height (region_tree_insert t (new_node a b c)) = height t + 1
         \<and> grown a t (region_tree_insert t (new_node a b c)))"
  using assms(3)
proof (induction t)
  case NoRegion
  then show ?case using v by (simp add: region_tree_insert_simps)
next
  case (Region s e f l r h)
  then have p: "avl l" "avl r" "h = max (height l) (height r) + 1" "\<bar>height l - height r\<bar> \<le> 1" by auto
  then show ?case
    using rebalance_insert_left [OF p, of "region_tree_insert l (new_node a b c)" a s e f]
      rebalance_insert_right [OF p, of "region_tree_insert r (new_node a b c)" a s e f] Region.IH
    by (cases "a < s") (simp_all add: region_tree_insert_simps [OF v] del: avl.simps grown.simps)
qed

lemma region_tree_insert_wf:
  assumes wf: "region_tree_wf t" and v: "a < b" "b \<le> USERSPACE_LIMIT"
    and free: "\<And>s e f. (s, e, f) \<in> set (rg_inorder t) \<Longrightarrow> e \<le> a \<or> b \<le> s"
  shows "region_tree_wf (region_tree_insert t (new_node a b c))
    \<and> set (rg_inorder (region_tree_insert t (new_node a b c))) = insert (a, b, c) (set (rg_inorder t))"
proof -
  have o: "ranges_ok (rg_inorder t)" "avl t" using wf by (simp_all add: region_tree_wf_def)
  note eq = inorder_insert [OF o(1) v, of c]
  have part: "ranges_ok (filter P (rg_inorder t))" for P
    using o(1) by (auto simp: ranges_ok_def sorted_wrt_filter)
  have low: "e \<le> a" if "(s, e, f) \<in> set (rg_inorder t)" "s \<le> a" for s e f
    using free [OF that(1)] that(2) v(1) by auto
  have high: "b \<le> s" if "(s, e, f) \<in> set (rg_inorder t)" "a < s" for s e f
    using free [OF that(1)] that ranges_ok_mem [OF o(1) that(1)] by auto
  have "ranges_ok (rg_inorder (region_tree_insert t (new_node a b c)))"
    unfolding eq ranges_ok_append ranges_ok_Cons using part v low high by fastforce
  moreover have "set (rg_inorder (region_tree_insert t (new_node a b c))) = insert (a, b, c) (set (rg_inorder t))"
    unfolding eq by auto
  ultimately show ?thesis using avl_insert [OF v o(2)] by (auto simp: region_tree_wf_def)
qed

section \<open>Removal\<close>

lemma min_value_inorder: "t \<noteq> NoRegion \<Longrightarrow> \<exists>xs. rg_inorder t =
    (rg_start (min_value_node t), rg_end (min_value_node t), rg_flags (min_value_node t)) # xs"
  by (induction t) auto

lemma inorder_remove:
  assumes "ranges_ok (rg_inorder t)"
  shows "rg_inorder (region_tree_remove t a) = filter (\<lambda>x. fst x \<noteq> a) (rg_inorder t)"
  using assms
proof (induction t arbitrary: a)
  case NoRegion
  then show ?case by simp
next
  case (Region s e f l r h)
  note o = ranges_ok_node [OF Region.prems [simplified]]
  have keep_l: "filter (\<lambda>x. fst x \<noteq> a) (rg_inorder l) = rg_inorder l" if "s \<le> a" for a
    using o(5) that by (intro filter_all) force
  have keep_r: "filter (\<lambda>x. fst x \<noteq> a) (rg_inorder r) = rg_inorder r" if "a \<le> s" for a
    using o(6) that by (intro filter_all) force
  consider "a < s" | "s < a" | "a = s" "l = NoRegion \<or> r = NoRegion" | "a = s" "l \<noteq> NoRegion" "r \<noteq> NoRegion"
    by fastforce
  then show ?case
  proof cases
    case 4
    obtain xs where xs: "rg_inorder r =
      (rg_start (min_value_node r), rg_end (min_value_node r), rg_flags (min_value_node r)) # xs"
      using min_value_inorder 4 by blast
    have "filter (\<lambda>x. fst x \<noteq> rg_start (min_value_node r)) xs = xs"
      using o(2) unfolding xs ranges_ok_Cons by (intro filter_all) fastforce
    then show ?thesis using 4 Region.IH(2) [OF o(2)] xs keep_l [of a] keep_r [of a]
      by (simp add: Let_def)
  qed (use Region.IH(1) [OF o(1)] Region.IH(2) [OF o(2)] keep_l keep_r in \<open>auto\<close>)
qed

lemma rebalance_remove_avl:
  fixes s e f :: u64 and h :: int
  assumes "avl l" "avl r" "\<bar>height l - height r\<bar> \<le> 2"
  defines "t' \<equiv> rebalance_remove (Region s e f l r h)" and "m \<equiv> max (height l) (height r) + 1"
  shows "avl t' \<and> (height t' = m \<or> height t' = m - 1 \<and> \<bar>height l - height r\<bar> = 2)"
proof -
  consider (bal) "\<bar>height l - height r\<bar> \<le> 1" | (left) "height l = height r + 2" | (right) "height r = height l + 2"
    using assms(3) by linarith
  then show ?thesis
  proof cases
    case bal
    then show ?thesis using assms(1,2) by (auto simp: t'_def rebalance_remove.simps m_def Let_def)
  next
    case left
    then obtain ls le lf ll lr lh where l: "l = Region ls le lf ll lr lh"
      using height_nonneg [OF assms(2)] by (cases l) auto
    show ?thesis using left assms(1,2) height_nonneg [of ll] unfolding l
      by (cases lr) (auto simp: t'_def rebalance_remove.simps m_def l Let_def)
  next
    case right
    then obtain rs re rf rl rr rh where r: "r = Region rs re rf rl rr rh"
      using height_nonneg [OF assms(1)] by (cases r) auto
    show ?thesis using right assms(1,2) height_nonneg [of rr] unfolding r
      by (cases rl) (auto simp: t'_def rebalance_remove.simps m_def r Let_def)
  qed
qed

lemma avl_remove:
  "avl t \<Longrightarrow> avl (region_tree_remove t a)
    \<and> (height (region_tree_remove t a) = height t \<or> height (region_tree_remove t a) = height t - 1)"
proof (induction t arbitrary: a)
  case NoRegion
  then show ?case by simp
next
  case (Region s e f l r h)
  have p: "avl l" "avl r" "h = max (height l) (height r) + 1" "\<bar>height l - height r\<bar> \<le> 1"
    using Region.prems by auto
  have L: "avl (region_tree_remove l k)" "height (region_tree_remove l k) = height l \<or> height (region_tree_remove l k) = height l - 1"
    and R: "avl (region_tree_remove r k)" "height (region_tree_remove r k) = height r \<or> height (region_tree_remove r k) = height r - 1"
    for k using Region.IH p by blast+
  have left: "avl (rebalance_remove (Region s' e' f' (region_tree_remove l k) r h)) \<and>
      (height (rebalance_remove (Region s' e' f' (region_tree_remove l k) r h)) = h \<or>
       height (rebalance_remove (Region s' e' f' (region_tree_remove l k) r h)) = h - 1)" for s' e' f' k
    using rebalance_remove_avl [OF L(1) [of k] p(2), of s' e' f' h] L(2) [of k] p(3,4) by linarith
  have right: "avl (rebalance_remove (Region s' e' f' l (region_tree_remove r k) h)) \<and>
      (height (rebalance_remove (Region s' e' f' l (region_tree_remove r k) h)) = h \<or>
       height (rebalance_remove (Region s' e' f' l (region_tree_remove r k) h)) = h - 1)" for s' e' f' k
    using rebalance_remove_avl [OF p(1) R(1) [of k], of s' e' f' h] R(2) [of k] p(3,4) by linarith
  show ?case
    using left right p height_nonneg [OF p(1)] height_nonneg [OF p(2)]
    by (auto simp: Let_def)
qed

lemma region_tree_remove_wf:
  assumes "region_tree_wf t"
  shows "region_tree_wf (region_tree_remove t a)
    \<and> set (rg_inorder (region_tree_remove t a)) = {x \<in> set (rg_inorder t). fst x \<noteq> a}"
  using assms avl_remove [of t a] inorder_remove [of t a]
  by (auto simp: region_tree_wf_def ranges_ok_def sorted_wrt_filter)

section \<open>Searching\<close>

text \<open>The range a node pointer denotes.\<close>

fun node_range :: "Region \<Rightarrow> range option" where
  "node_range NoRegion = None"
| "node_range (Region s e f l r h) = Some (s, e, f)"

lemma lookup_spec:
  assumes "ranges_ok (rg_inorder t)"
  shows "node_range (region_tree_lookup t a) = Some (s, e, f) \<longleftrightarrow> (s, e, f) \<in> set (rg_inorder t) \<and> s \<le> a \<and> a < e"
  using assms
proof (induction t)
  case NoRegion
  then show ?case by simp
next
  case (Region s' e' f' l r h)
  note o = ranges_ok_node [OF Region.prems [simplified]]
  consider "a < s'" | "e' \<le> a" "\<not> a < s'" | "s' \<le> a" "a < e'" by fastforce
  then show ?case
    using o(5) [of s e f] o(6) [of s e f] Region.IH(1) [OF o(1)] Region.IH(2) [OF o(2)] o(3)
    by cases (auto simp: not_le)
qed

lemma overlaps_spec:
  assumes "ranges_ok (rg_inorder t)" "a < b"
  shows "region_tree_overlaps t a b \<longleftrightarrow> (\<exists>(s, e, f) \<in> set (rg_inorder t). a < e \<and> s < b)"
  using assms(1)
proof (induction t)
  case NoRegion
  then show ?case by simp
next
  case (Region s' e' f' l r h)
  note o = ranges_ok_node [OF Region.prems [simplified]]
  have l: "\<not> (a < e \<and> s < b)" if "(s, e, f) \<in> set (rg_inorder l)" "e' \<le> a" for s e f
    using o(3) o(5) [OF that(1)] that(2) by auto
  have r: "\<not> (a < e \<and> s < b)" if "(s, e, f) \<in> set (rg_inorder r)" "b \<le> s'" for s e f
    using o(3) o(6) [OF that(1)] that(2) by auto
  consider "a < e'" "s' < b" | "b \<le> s'" "\<not> (a < e' \<and> s' < b)" | "e' \<le> a" "\<not> b \<le> s'" by fastforce
  then show ?case
  proof cases
    case 2
    then show ?thesis using r Region.IH(1) [OF o(1)] by fastforce
  next
    case 3
    then show ?thesis using l Region.IH(2) [OF o(2)] by fastforce
  qed auto
qed

lemma visit_all_inorder:
  "region_tree_visit_all t (\<lambda>n acc. acc @ [the (node_range n)]) acc = acc @ rg_inorder t"
  by (induction t arbitrary: acc) auto

text \<open>Following the path that \<^verbatim>\<open>region_tree_find_adjacent\<close> returns and extending that node.\<close>

lemma avl_extend_region:
  "avl (update_at p (extend_region a b) t) = avl t \<and> height (update_at p (extend_region a b) t) = height t"
  by (induction p "extend_region a b" t rule: update_at.induct) auto

text \<open>No region shares an address with the range.\<close>

definition range_free :: "u64 \<Rightarrow> u64 \<Rightarrow> range list \<Rightarrow> bool" where
  "range_free a b xs \<longleftrightarrow> (\<forall>(s, e, f) \<in> set xs. e \<le> a \<or> b \<le> s)"

lemma range_free_simps [simp]:
  "range_free a b []" "range_free a b ((s, e, f) # xs) \<longleftrightarrow> (e \<le> a \<or> b \<le> s) \<and> range_free a b xs"
  "range_free a b (xs @ ys) \<longleftrightarrow> range_free a b xs \<and> range_free a b ys"
  by (simp_all add: range_free_def ball_Un)

lemma range_freeD: "range_free a b xs \<Longrightarrow> (s, e, f) \<in> set xs \<Longrightarrow> e \<le> a \<or> b \<le> s"
  by (auto simp: range_free_def)

text \<open>Coalescing keeps the invariant when the new range is disjoint from every region.\<close>

lemma coalesce_ok:
  assumes "region_tree_find_adjacent t a b c = Some p" "ranges_ok (rg_inorder t)" "a < b" "b \<le> USERSPACE_LIMIT"
    and "range_free a b (rg_inorder t)"
  shows "\<exists>xs ys s e. rg_inorder t = xs @ (s, e, c) # ys
     \<and> (b = s \<and> rg_inorder (update_at p (extend_region a b) t) = xs @ (a, e, c) # ys
        \<or> b \<noteq> s \<and> a = e \<and> rg_inorder (update_at p (extend_region a b) t) = xs @ (s, b, c) # ys)"
  using assms
proof (induction t arbitrary: p)
  case NoRegion
  then show ?case by simp
next
  case (Region s' e' f' l r h)
  note o = ranges_ok_node [OF Region.prems(2) [simplified]]
  consider (here) "(b = s' \<or> a = e') \<and> c = f'" "p = []"
    | (left) q where "b \<le> s'" "region_tree_find_adjacent l a b c = Some q" "p = L # q"
    | (right) q where "region_tree_find_adjacent r a b c = Some q" "p = R # q"
    using Region.prems(1) by (auto split: if_splits)
  then show ?case
  proof cases
    case here
    then show ?thesis using o(3) by (intro exI [of _ "rg_inorder l"] exI [of _ "rg_inorder r"] exI [of _ s'] exI [of _ e']) auto
  next
    case left
    have "range_free a b (rg_inorder l)" using Region.prems(5) by simp
    from Region.IH(1) [OF left(2) o(1) assms(3,4) this]
    obtain xs ys s e where "rg_inorder l = xs @ (s, e, c) # ys"
     "b = s \<and> rg_inorder (update_at q (extend_region a b) l) = xs @ (a, e, c) # ys
        \<or> b \<noteq> s \<and> a = e \<and> rg_inorder (update_at q (extend_region a b) l) = xs @ (s, b, c) # ys" by blast
    then show ?thesis using left(3)
      by (intro exI [of _ xs] exI [of _ "ys @ (s', e', f') # rg_inorder r"] exI [of _ s] exI [of _ e]) auto
  next
    case right
    have "range_free a b (rg_inorder r)" using Region.prems(5) by simp
    from Region.IH(2) [OF right(1) o(2) assms(3,4) this]
    obtain xs ys s e where "rg_inorder r = xs @ (s, e, c) # ys"
     "b = s \<and> rg_inorder (update_at q (extend_region a b) r) = xs @ (a, e, c) # ys
        \<or> b \<noteq> s \<and> a = e \<and> rg_inorder (update_at q (extend_region a b) r) = xs @ (s, b, c) # ys" by blast
    then show ?thesis using right(2)
      by (intro exI [of _ "rg_inorder l @ (s', e', f') # xs"] exI [of _ ys] exI [of _ s] exI [of _ e]) auto
  qed
qed

text \<open>The addresses covered by the regions.\<close>

definition covered :: "range list \<Rightarrow> u64 set" where
  "covered xs = (\<Union>(s, e, f) \<in> set xs. {s ..< e})"

lemma covered_simps [simp]:
  "covered [] = {}" "covered ((s, e, f) # xs) = {s ..< e} \<union> covered xs" "covered (xs @ ys) = covered xs \<union> covered ys"
  by (auto simp: covered_def)

text \<open>The addresses in regions with the given flags.\<close>

definition covered_as :: "u64 \<Rightarrow> range list \<Rightarrow> u64 set" where
  "covered_as f xs = covered (filter (\<lambda>(s, e, g). g = f) xs)"

lemma covered_as_insert: "set ys = insert (a, b, c) (set xs) \<Longrightarrow> covered_as f ys = covered_as f xs \<union> (if f = c then {a ..< b} else {})"
  unfolding covered_as_def covered_def by auto

lemma coalesce_wf:
  assumes adj: "region_tree_find_adjacent t a b c = Some p" and wf: "region_tree_wf t" and v: "a < b" "b \<le> USERSPACE_LIMIT"
    and free: "range_free a b (rg_inorder t)"
  shows "region_tree_wf (update_at p (extend_region a b) t)
    \<and> covered_as f (rg_inorder (update_at p (extend_region a b) t)) = covered_as f (rg_inorder t) \<union> (if f = c then {a ..< b} else {})"
proof -
  let ?t = "update_at p (extend_region a b) t"
  have o: "ranges_ok (rg_inorder t)" "avl t" using wf by (simp_all add: region_tree_wf_def)
  obtain xs ys s e where t: "rg_inorder t = xs @ (s, e, c) # ys"
     and d: "b = s \<and> rg_inorder ?t = xs @ (a, e, c) # ys
        \<or> b \<noteq> s \<and> a = e \<and> rg_inorder ?t = xs @ (s, b, c) # ys"
    using coalesce_ok [OF adj o(1) v free] by blast
  note n = ranges_ok_node [OF o(1) [unfolded t]]
  have fx: "y \<le> a" if "(x, y, z) \<in> set xs" "b = s" for x y z
    using range_freeD [OF free, of x y z] n(5) [OF that(1)] that n(1) ranges_ok_mem [OF n(1) that(1)] by (auto simp: t)
  have fy: "b \<le> x" if "(x, y, z) \<in> set ys" "a = e" for x y z
    using range_freeD [OF free, of x y z] n(6) [OF that(1)] that ranges_ok_mem [OF n(2) that(1)] by (auto simp: t)
  have "ranges_ok (rg_inorder ?t)"
    using d n(1,2,3,4) v fx fy o(1) unfolding t
    by (auto simp: ranges_ok_append ranges_ok_Cons; fastforce)
  moreover have "covered_as f (rg_inorder ?t) = covered_as f (rg_inorder t) \<union> (if f = c then {a ..< b} else {})"
    using d n(3) v unfolding t by (auto simp: covered_as_def not_le not_less)
  ultimately show ?thesis
    using avl_extend_region [of p a b t] o(2) by (simp add: region_tree_wf_def)
qed

section \<open>Properties\<close>

text \<open>C32: inserting a range that overlaps no region keeps the tree a height-balanced search tree
  with right cached heights over ordered disjoint user-space ranges, and adds exactly that range.\<close>

theorem region_tree_insert_correct:
  assumes "region_tree_wf t" and "a < b" and "b \<le> USERSPACE_LIMIT" and "range_free a b (rg_inorder t)"
  shows "region_tree_wf (region_tree_insert t (new_node a b c))
    \<and> set (rg_inorder (region_tree_insert t (new_node a b c))) = insert (a, b, c) (set (rg_inorder t))"
  using region_tree_insert_wf [OF assms(1-3)] range_freeD [OF assms(4)] by blast

text \<open>A tree built by three ascending insertions, which needs a rotation.\<close>

definition demo_tree :: Region where
  "demo_tree = region_tree_insert (region_tree_insert (region_tree_insert NoRegion
     (new_node 0x1000 0x2000 1)) (new_node 0x3000 0x4000 2)) (new_node 0x5000 0x6000 1)"

lemma demo_tree_eq: "demo_tree = Region 0x3000 0x4000 2 (new_node 0x1000 0x2000 1) (new_node 0x5000 0x6000 1) 2"
  by code_simp

lemma demo_tree_wf: "region_tree_wf demo_tree"
  by (simp add: demo_tree_eq region_tree_wf_def ranges_ok_def USERSPACE_LIMIT_def)

theorem region_tree_insert_correct_witness:
  "region_tree_wf (region_tree_insert demo_tree (new_node 0x2000 0x3000 7))"
  using region_tree_insert_correct [OF demo_tree_wf, of "0x2000" "0x3000" 7]
  by (simp add: demo_tree_eq USERSPACE_LIMIT_def)

text \<open>C33: removal by start address keeps the balanced search tree and removes exactly the
  region that starts there, if there is one.\<close>

theorem region_tree_remove_correct:
  assumes "region_tree_wf t"
  shows "region_tree_wf (region_tree_remove t a)
    \<and> rg_inorder (region_tree_remove t a) = filter (\<lambda>x. fst x \<noteq> a) (rg_inorder t)"
  using assms region_tree_remove_wf [of t a] inorder_remove [of t a] by (simp add: region_tree_wf_def)

theorem region_tree_remove_correct_witness:
  "rg_inorder (region_tree_remove demo_tree 0x3000) = [(0x1000, 0x2000, 1), (0x5000, 0x6000, 1)]
   \<and> region_tree_wf (region_tree_remove demo_tree 0x3000)"
  using region_tree_remove_correct [OF demo_tree_wf, of "0x3000"] by (simp add: demo_tree_eq)

text \<open>C34: on a well-formed tree the single root-to-leaf searches agree with the set of regions:
  lookup finds a region exactly when one contains the address (and then that region), and the
  overlap test is true exactly when some region shares an address with the range.\<close>

theorem region_tree_search_correct:
  assumes "region_tree_wf t" and "a < b"
  shows "(node_range (region_tree_lookup t x) = Some (s, e, f) \<longleftrightarrow> (s, e, f) \<in> set (rg_inorder t) \<and> s \<le> x \<and> x < e)
    \<and> (region_tree_overlaps t a b \<longleftrightarrow> \<not> range_free a b (rg_inorder t))"
  using lookup_spec [of t x s e f] overlaps_spec [of t a b] assms
  by (auto simp: region_tree_wf_def range_free_def not_le not_less split: prod.splits)

theorem region_tree_search_correct_witness:
  "node_range (region_tree_lookup demo_tree 0x5800) = Some (0x5000, 0x6000, 1) \<and> region_tree_overlaps demo_tree 0x1800 0x2800"
  using region_tree_search_correct [OF demo_tree_wf, where a = "0x1800" and b = "0x2800"
      and x = "0x5800" and s = "0x5000" and e = "0x6000" and f = 1]
  by (simp add: demo_tree_eq)

text \<open>C35: creating a region for a range that shares no address with a region. A range that is empty, not made of whole pages or not in user space is refused and changes
  nothing. With memory for a node every other range is accepted: the addresses of the range are then covered with the given flags, every other address is covered as before,
  whether or not the range was merged into a neighbour, and the tree is well formed. Without memory the call either does the same, by merging, or fails and changes nothing.\<close>

theorem create_region_correct:
  assumes "region_tree_wf t" and "range_free a b (rg_inorder t)" and "handle_create_region ok t a b c = (t', res)"
    and "bad \<longleftrightarrow> a AND 0xFFF \<noteq> 0 \<or> b AND 0xFFF \<noteq> 0 \<or> b \<le> a \<or> b > 0x8000000000000000"
  shows "region_tree_wf t'
    \<and> (if bad then res = RESULT_BADARGS \<and> t' = t
       else (ok \<longrightarrow> res = RESULT_OK) \<and> (res = RESULT_OK \<or> res = RESULT_FAILURE \<and> t' = t)
         \<and> (res = RESULT_OK \<longrightarrow> (\<forall>f. covered_as f (rg_inorder t') = covered_as f (rg_inorder t) \<union> (if f = c then {a ..< b} else {}))))"
proof (cases bad)
  case True
  then show ?thesis using assms(1,3,4) by (auto simp: handle_create_region_def USERSPACE_LIMIT_def)
next
  case False
  then have v: "a < b" "b \<le> USERSPACE_LIMIT" and c: "\<not> (a AND 0xFFF \<noteq> 0 \<or> b AND 0xFFF \<noteq> 0 \<or> b \<le> a \<or> a \<ge> USERSPACE_LIMIT \<or> b > USERSPACE_LIMIT)"
    using assms(4) by (auto simp: USERSPACE_LIMIT_def)
  have no: "\<not> region_tree_overlaps t a b"
    using assms(1,2) overlaps_spec [of t a b] v
    by (auto simp: region_tree_wf_def range_free_def not_le not_less split: prod.splits)
  show ?thesis
  proof (cases "region_tree_find_adjacent t a b c")
    case (Some p)
    then have "t' = update_at p (extend_region a b) t" "res = RESULT_OK" using assms(3) c by (simp_all add: handle_create_region_def)
    then show ?thesis using False coalesce_wf [OF Some assms(1) v assms(2)] by simp
  next
    case None
    have i: "region_tree_wf (region_tree_insert t (new_node a b c))"
      "set (rg_inorder (region_tree_insert t (new_node a b c))) = insert (a, b, c) (set (rg_inorder t))"
      using region_tree_insert_wf [OF assms(1) v] range_freeD [OF assms(2)] by blast+
    have "(t', res) = (if ok then (region_tree_insert t (new_node a b c), RESULT_OK) else (t, RESULT_FAILURE))"
      using None no assms(3) c by (cases ok) (simp_all add: handle_create_region_def)
    then show ?thesis using False i(1) covered_as_insert [OF i(2)] assms(1) by (cases ok) simp_all
  qed
qed

theorem create_region_correct_witness:
  "\<exists>t'. handle_create_region True demo_tree 0x2000 0x3000 1 = (t', RESULT_OK)
     \<and> covered_as 1 (rg_inorder t') = covered_as 1 (rg_inorder demo_tree) \<union> {0x2000 ..< 0x3000}"
proof -
  obtain t' res where r: "handle_create_region True demo_tree 0x2000 0x3000 1 = (t', res)" by fastforce
  have "range_free 0x2000 0x3000 (rg_inorder demo_tree)" by (simp add: demo_tree_eq)
  from create_region_correct [OF demo_tree_wf this r, of False] r show ?thesis by simp
qed

text \<open>The adjacency test runs before the overlap test and stops at the first neighbour, so a
  range that touches one region and overlaps another is merged into the neighbour: the tree is
  left with two overlapping regions and the call reports success.\<close>

theorem create_region_coalesce_overlaps:
  "\<exists>t a b c. region_tree_wf t \<and> snd (handle_create_region True t a b c) = RESULT_OK
     \<and> \<not> ranges_ok (rg_inorder (fst (handle_create_region True t a b c)))"
proof (intro exI conjI)
  let ?t = "Region 0x1000 0x2000 1 NoRegion (new_node 0x3000 0x4000 2) 2"
  show "region_tree_wf ?t" by (simp add: region_tree_wf_def ranges_ok_def USERSPACE_LIMIT_def)
  have e: "handle_create_region True ?t 0x2000 0x4000 1 = (Region 0x1000 0x4000 1 NoRegion (new_node 0x3000 0x4000 2) 2, RESULT_OK)"
    by code_simp
  show "snd (handle_create_region True ?t 0x2000 0x4000 1) = RESULT_OK" by (simp add: e)
  show "\<not> ranges_ok (rg_inorder (fst (handle_create_region True ?t 0x2000 0x4000 1)))"
    by (simp add: e ranges_ok_def)
qed

end
