(* ===== verification/Bitmap.thy ===== *)
theory Bitmap
  imports Anos_Prelude
begin

text \<open>
  Bitmaps over 64-bit words, \<^verbatim>\<open>kernel/include/structs/bitmap.h\<close>, and the lowest-set-bit search
  of \<^verbatim>\<open>kernel/fba/alloc.c\<close>. A bitmap is the list of its words; an access past the end, which the
  C code does not check, leaves the list unchanged or reads a clear bit.
\<close>

section \<open>Operations\<close>

definition bit_mask :: "u64 \<Rightarrow> u64" where
  "bit_mask b = push_bit (unat (b AND 0x3F)) 1"

definition word_at :: "u64 list \<Rightarrow> u64 \<Rightarrow> u64" where
  "word_at bitmap b = (if unat (drop_bit 6 b) < length bitmap then bitmap ! unat (drop_bit 6 b) else 0)"

definition bitmap_set :: "u64 list \<Rightarrow> u64 \<Rightarrow> u64 list" where
  "bitmap_set bitmap b = bitmap[unat (drop_bit 6 b) := word_at bitmap b OR bit_mask b]"

definition bitmap_clear :: "u64 list \<Rightarrow> u64 \<Rightarrow> u64 list" where
  "bitmap_clear bitmap b = bitmap[unat (drop_bit 6 b) := word_at bitmap b AND NOT (bit_mask b)]"

definition bitmap_flip :: "u64 list \<Rightarrow> u64 \<Rightarrow> u64 list" where
  "bitmap_flip bitmap b = bitmap[unat (drop_bit 6 b) := word_at bitmap b XOR bit_mask b]"

definition bitmap_check :: "u64 list \<Rightarrow> u64 \<Rightarrow> bool" where
  "bitmap_check bitmap b \<longleftrightarrow> word_at bitmap b AND bit_mask b \<noteq> 0"

text \<open>\<^verbatim>\<open>__builtin_ctzll\<close>: the number of trailing zero bits of a non-zero word.\<close>

definition ctzll :: "u64 \<Rightarrow> nat" where
  "ctzll w = length (takeWhile (\<lambda>i. \<not> bit w i) [0..<64])"

definition DeBruijnTable :: "nat list" where
  "DeBruijnTable = [0,  1,  48, 2,  57, 49, 28, 3,  61, 58, 50, 42, 38, 29, 17, 4,
                    62, 55, 59, 36, 53, 51, 43, 22, 45, 39, 33, 30, 24, 18, 12, 5,
                    63, 47, 56, 27, 60, 41, 37, 16, 54, 35, 52, 21, 44, 32, 23, 11,
                    46, 26, 40, 15, 34, 20, 31, 10, 25, 14, 19, 9,  13, 8,  7,  6]"

text \<open>The two branches of \<^verbatim>\<open>first_set_bit_64\<close>: the compiler intrinsic, and the fallback.\<close>

definition first_set_bit_64 :: "u64 \<Rightarrow> nat" where
  "first_set_bit_64 nonzero = ctzll nonzero"

definition first_set_bit_64_fallback :: "u64 \<Rightarrow> nat" where
  "first_set_bit_64_fallback nonzero =
     DeBruijnTable ! unat (drop_bit 58 ((nonzero AND - nonzero) * 0x03f79d71b4cb0a89))"

section \<open>Bits by index\<close>

text \<open>Bit \<open>i\<close> of the bitmap, as a natural number index.\<close>

definition bmp_bit :: "u64 list \<Rightarrow> nat \<Rightarrow> bool" where
  "bmp_bit bm i \<longleftrightarrow> i div 64 < length bm \<and> bit (bm ! (i div 64)) (i mod 64)"

lemma bit_mask_eq: "bit_mask b = push_bit (unat b mod 64) 1"
proof -
  have "b AND 0x3F = take_bit 6 b" by (simp add: take_bit_eq_mask mask_eq_exp_minus_1)
  then have "unat (b AND 0x3F) = unat b mod 64" by (simp add: take_bit_eq_mod unat_mod)
  then show ?thesis by (simp add: bit_mask_def)
qed

lemma bit_bit_mask: "n < 64 \<Longrightarrow> bit (bit_mask b) n \<longleftrightarrow> n = unat b mod 64"
  by (auto simp: bit_mask_eq bit_exp_iff)

lemma drop6: "unat (drop_bit 6 (b :: u64)) = unat b div 64"
  by (simp add: drop_bit_eq_div unat_div)

lemma bitmap_length [simp]:
  "length (bitmap_set bm b) = length bm" "length (bitmap_clear bm b) = length bm" "length (bitmap_flip bm b) = length bm"
  by (simp_all add: bitmap_set_def bitmap_clear_def bitmap_flip_def)

lemma div_mod_eqI: "i div 64 = j div 64 \<Longrightarrow> i mod 64 = j mod 64 \<Longrightarrow> i = (j :: nat)"
  by (metis div_mult_mod_eq)

lemma bmp_bit_update:
  "q < length bm \<Longrightarrow> bmp_bit (bm[q := w]) i \<longleftrightarrow> (if i div 64 = q then bit w (i mod 64) else bmp_bit bm i)"
  by (simp add: bmp_bit_def)

lemma bmp_word:
  assumes "unat b < 64 * length bm"
  shows "unat (drop_bit 6 b) < length bm" "unat (drop_bit 6 b) = unat b div 64"
    and "i div 64 = unat b div 64 \<Longrightarrow> bit (word_at bm b) (i mod 64) \<longleftrightarrow> bmp_bit bm i"
    and "i div 64 = unat b div 64 \<Longrightarrow> bit (bit_mask b) (i mod 64) \<longleftrightarrow> i = unat b"
proof -
  have lt: "unat b div 64 < length bm" using assms by (simp add: less_mult_imp_div_less mult.commute)
  then show "unat (drop_bit 6 b) < length bm" "unat (drop_bit 6 b) = unat b div 64" by (simp_all add: drop6)
  show "i div 64 = unat b div 64 \<Longrightarrow> bit (word_at bm b) (i mod 64) \<longleftrightarrow> bmp_bit bm i"
    using lt by (simp add: word_at_def bmp_bit_def drop6)
  show "i div 64 = unat b div 64 \<Longrightarrow> bit (bit_mask b) (i mod 64) \<longleftrightarrow> i = unat b"
    using div_mod_eqI [of i "unat b"] by (auto simp: bit_bit_mask)
qed

lemma bmp_bit_set:
  assumes "unat b < 64 * length bm"
  shows "bmp_bit (bitmap_set bm b) i \<longleftrightarrow> i = unat b \<or> bmp_bit bm i"
  using bmp_word [OF assms] by (auto simp: bitmap_set_def bmp_bit_update bit_or_iff)

lemma bmp_bit_clear:
  assumes "unat b < 64 * length bm"
  shows "bmp_bit (bitmap_clear bm b) i \<longleftrightarrow> i \<noteq> unat b \<and> bmp_bit bm i"
  using bmp_word [OF assms] by (auto simp: bitmap_clear_def bmp_bit_update bit_and_iff bit_not_iff)

lemma bmp_bit_flip:
  assumes "unat b < 64 * length bm"
  shows "bmp_bit (bitmap_flip bm b) i \<longleftrightarrow> (if i = unat b then \<not> bmp_bit bm i else bmp_bit bm i)"
  using bmp_word [OF assms] by (auto simp: bitmap_flip_def bmp_bit_update bit_xor_iff)

lemma bitmap_check_eq: "bitmap_check bm b \<longleftrightarrow> bmp_bit bm (unat b)"
proof -
  have "w AND bit_mask b \<noteq> 0 \<longleftrightarrow> bit w (unat b mod 64)" for w :: u64
    by (auto simp: bit_mask_eq and_exp_eq_0_iff_not_bit push_bit_of_1)
  then show ?thesis by (auto simp: bitmap_check_def bmp_bit_def word_at_def drop6)
qed

section \<open>The lowest set bit\<close>

lemma ctzll_props:
  assumes "w \<noteq> 0"
  shows "ctzll w < 64" "bit w (ctzll w)" "\<And>i. i < ctzll w \<Longrightarrow> \<not> bit w i"
proof -
  have "\<exists>k < 64. bit w k"
  proof (rule ccontr)
    assume "\<not> ?thesis"
    then have "w = 0" by (intro bit_word_eqI) auto
    then show False using assms by simp
  qed
  then obtain k where k: "bit w k" "k < 64" by blast
  show lt: "ctzll w < 64"
  proof (rule ccontr)
    assume "\<not> ctzll w < 64"
    then have "takeWhile (\<lambda>i. \<not> bit w i) [0..<64] = [0..<64]"
      using takeWhile_eq_take [of "\<lambda>i. \<not> bit w i" "[0..<64]"] by (simp add: ctzll_def)
    then have "\<forall>i \<in> set [0..<64]. \<not> bit w i" by (simp only: takeWhile_eq_all_conv)
    then show False using k by simp
  qed
  show "bit w (ctzll w)"
    using nth_length_takeWhile [of "\<lambda>i. \<not> bit w i" "[0..<64]"] lt by (simp add: ctzll_def)
  show "\<not> bit w i" if "i < ctzll w" for i
  proof -
    have "[0..<64] ! i \<in> set (takeWhile (\<lambda>i. \<not> bit w i) [0..<64])"
      using that by (metis ctzll_def nth_mem takeWhile_nth)
    then show ?thesis using that lt by (auto dest: set_takeWhileD)
  qed
qed

lemma lowest_bit_isolated:
  fixes w :: u64
  assumes "w \<noteq> 0"
  shows "w AND - w = push_bit (ctzll w) 1"
proof -
  define k where "k = ctzll w"
  define v where "v = drop_bit k w"
  note p = ctzll_props [OF assms, folded k_def]
  have w: "w = push_bit k v"
  proof (rule bit_word_eqI)
    fix n assume "n < LENGTH(64)"
    then show "bit w n \<longleftrightarrow> bit (push_bit k v) n"
      using p(3) [of n] by (cases "k \<le> n") (auto simp: v_def bit_push_bit_iff bit_drop_bit_eq)
  qed
  have odd: "bit v 0" using p by (simp add: v_def bit_drop_bit_eq)
  have "- v = NOT v OR 1"
  proof -
    have "- v = NOT v + 1" by (simp add: not_eq_complement)
    also have "\<dots> = NOT v OR 1"
      using odd by (subst disjunctive_add) (auto simp: bit_simps)
    finally show ?thesis .
  qed
  then have "v AND - v = 1" using odd by (simp add: bit_eq_iff) (auto simp: bit_simps)
  moreover have "- push_bit k v = push_bit k (- v)" by (simp add: push_bit_eq_mult)
  ultimately show ?thesis unfolding w [symmetric] k_def [symmetric]
    by (metis push_bit_and w)
qed

lemma deBruijn_all: "\<forall>k \<in> set [0..<64]. DeBruijnTable ! unat (drop_bit 58 (push_bit k (1 :: u64) * 0x03f79d71b4cb0a89)) = k"
  by code_simp

section \<open>Properties\<close>

text \<open>The multiply-and-lookup fallback used on other compilers agrees with the compiler's
  count-trailing-zeros on every non-zero word, and that value is the index of the lowest set bit.\<close>

theorem first_set_bit_fallback_correct:
  assumes "w \<noteq> 0"
  shows "first_set_bit_64_fallback w = first_set_bit_64 w \<and> first_set_bit_64 w < 64
    \<and> bit w (first_set_bit_64 w) \<and> (\<forall>i < first_set_bit_64 w. \<not> bit w i)"
  using deBruijn_all ctzll_props [OF assms] lowest_bit_isolated [OF assms]
  by (auto simp: first_set_bit_64_fallback_def first_set_bit_64_def)

theorem first_set_bit_fallback_correct_witness:
  "first_set_bit_64_fallback 0x50 = first_set_bit_64 0x50 \<and> bit (0x50 :: u64) (first_set_bit_64 0x50)"
  using first_set_bit_fallback_correct [of "0x50"] by simp

end
