(* ===== verification/Fba.thy ===== *)
theory Fba
  imports Page_Alloc Bitmap
begin

text \<open>
  The fixed block allocator of the kernel heap, \<^verbatim>\<open>kernel/fba/alloc.c\<close>: a bitmap of 4 KiB blocks
  over a virtual window, one bit per block, whose first blocks hold the bitmap itself. Backing
  pages come from the physical page allocator. \<^verbatim>\<open>vmm_map_page_in\<close> and \<^verbatim>\<open>vmm_unmap_page_in\<close>, which
  belong to the architecture's mapper and may themselves take pages for tables, are parameters
  on a state that holds the physical region and the address space. The operations hold
  \<^verbatim>\<open>fba_lock\<close> around every access to the bitmap. Bit indices are natural numbers; addresses are
  64-bit words.
\<close>

section \<open>State\<close>

record 'v fba_state =
  fba_begin :: u64
  fba_size_blocks :: u64
  fba_bitmap :: "u64 list"
  fba_mem :: "MemoryRegion \<times> 'v"

type_synonym 'v map_page = "MemoryRegion \<times> 'v \<Rightarrow> u64 \<Rightarrow> u64 \<Rightarrow> MemoryRegion \<times> 'v"
type_synonym 'v unmap_page = "MemoryRegion \<times> 'v \<Rightarrow> u64 \<Rightarrow> (MemoryRegion \<times> 'v) \<times> u64"

definition KERNEL_FBA_BEGIN :: u64 where
  "KERNEL_FBA_BEGIN = 0xffffffffc0000000"

definition KERNEL_FBA_SIZE :: u64 where
  "KERNEL_FBA_SIZE = 0x40000000"

definition KERNEL_FBA_SIZE_BLOCKS :: u64 where
  "KERNEL_FBA_SIZE_BLOCKS = KERNEL_FBA_SIZE div VM_PAGE_SIZE"

section \<open>Initialisation\<close>

text \<open>The loop that backs the bitmap with pages; the fuel is the number of bitmap pages, which
  is the number of steps from \<^verbatim>\<open>fba_begin\<close> to \<^verbatim>\<open>bitmap_page_end\<close>.\<close>

fun fba_init_map ::
    "'v map_page \<Rightarrow> nat \<Rightarrow> u64 \<Rightarrow> u64 \<Rightarrow> MemoryRegion \<times> 'v \<Rightarrow> (MemoryRegion \<times> 'v) \<times> bool" where
  "fba_init_map map_page 0 bitmap_page_end virt mem = (mem, True)"
| "fba_init_map map_page (Suc n) bitmap_page_end virt mem =
     (if virt < bitmap_page_end then
        let (region, phys) = page_alloc (fst mem)
        in if phys AND 0xFFF \<noteq> 0 then ((region, snd mem), False)
           else fba_init_map map_page n bitmap_page_end (virt + 0x1000) (map_page (region, snd mem) virt phys)
      else (mem, True))"

definition fba_init :: "'v map_page \<Rightarrow> 'v fba_state \<Rightarrow> u64 \<Rightarrow> u64 \<Rightarrow> 'v fba_state \<times> bool" where
  "fba_init map_page st begin_addr size_blocks =
     (if begin_addr AND 0xFFF \<noteq> 0 then (st, False)
      else if size_blocks AND 0x7FFF \<noteq> 0 then (st, False)
      else if size_blocks = 0 then (st, True)
      else
        let bitmap_page_count = drop_bit 15 size_blocks;
            bitmap_page_end = begin_addr + push_bit 12 bitmap_page_count;
            (mem, ok) = fba_init_map map_page (unat bitmap_page_count) bitmap_page_end begin_addr (fba_mem st)
        in if \<not> ok then (st\<lparr>fba_mem := mem\<rparr>, False)
           else (\<lparr>fba_begin = begin_addr, fba_size_blocks = size_blocks,
                  fba_bitmap = fold (\<lambda>i bm. bitmap_set bm (of_nat i)) [0..<unat bitmap_page_count]
                    (replicate (512 * unat bitmap_page_count) 0),
                  fba_mem = mem\<rparr>, True))"

section \<open>Searching the bitmap\<close>

text \<open>\<^verbatim>\<open>aligned_start == current_bit\<close>.\<close>

definition start_aligned :: "nat \<Rightarrow> nat \<Rightarrow> bool" where
  "start_aligned align_page_count current_bit \<longleftrightarrow>
     (let align_mask = of_nat align_page_count - 1 :: u64;
          current = of_nat current_bit :: u64
      in (current + align_mask) AND NOT align_mask = current)"

text \<open>
  The loop state is \<open>(consec_zeroes, start_bit)\<close>; \<open>Inl\<close> is the early return of a start bit.
  First the loop over the bits of a mixed word, then the loop over the words. The code has the
  two loops twice, for \<open>n \<le> 64\<close> and for larger \<open>n\<close>, with the same bodies.
\<close>

fun scan_bits :: "nat \<Rightarrow> nat \<Rightarrow> u64 \<Rightarrow> nat \<Rightarrow> nat list \<Rightarrow> nat \<times> nat \<Rightarrow> nat + nat \<times> nat" where
  "scan_bits align n word base [] s = Inr s"
| "scan_bits align n word base (bit_idx # rest) (consec, start) =
     (let current_bit = base + bit_idx
      in if word AND push_bit bit_idx 1 = 0 then
           if consec = 0 \<and> \<not> start_aligned align current_bit then scan_bits align n word base rest (consec, start)
           else
             let start = (if consec = 0 then current_bit else start);
                 consec = consec + 1
             in if consec = n then Inl start else scan_bits align n word base rest (consec, start)
         else scan_bits align n word base rest (0, start))"

fun scan_words :: "nat \<Rightarrow> nat \<Rightarrow> nat \<Rightarrow> u64 list \<Rightarrow> nat \<times> nat \<Rightarrow> nat + nat \<times> nat" where
  "scan_words align n word_idx [] s = Inr s"
| "scan_words align n word_idx (word # rest) (consec, start) =
     (if word = 0 then
        if consec = 0 \<and> \<not> start_aligned align (word_idx * 64) then scan_words align n (word_idx + 1) rest (0, start)
        else
          let start = (if consec = 0 then word_idx * 64 else start);
              consec = consec + 64
          in if consec \<ge> n then Inl start else scan_words align n (word_idx + 1) rest (consec, start)
      else if word = 0xffffffffffffffff then scan_words align n (word_idx + 1) rest (0, start)
      else case scan_bits align n word (word_idx * 64) [0..<64] (consec, start) of
             Inl r \<Rightarrow> Inl r
           | Inr s \<Rightarrow> scan_words align n (word_idx + 1) rest s)"

definition find_unset_run :: "u64 list \<Rightarrow> nat \<Rightarrow> nat \<Rightarrow> nat" where
  "find_unset_run bitmap align_page_count n =
     (if n = 0 \<or> bitmap = [] then 0
      else case scan_words align_page_count n 0 bitmap (0, 0) of
             Inl start_bit \<Rightarrow> start_bit
           | Inr s \<Rightarrow> length bitmap * 64)"

section \<open>Allocation and freeing\<close>

definition do_alloc :: "'v map_page \<Rightarrow> MemoryRegion \<times> 'v \<Rightarrow> u64 \<Rightarrow> (MemoryRegion \<times> 'v) \<times> u64" where
  "do_alloc map_page mem block_address =
     (let (region, phys) = page_alloc (fst mem)
      in if phys AND 0xFFF \<noteq> 0 then ((region, snd mem), NULL)
         else (map_page (region, snd mem) block_address phys, block_address))"

text \<open>The loop that marks and backs the blocks of a run: blocks \<open>i\<close> to \<open>count\<close>.\<close>

fun alloc_run :: "'v map_page \<Rightarrow> nat \<Rightarrow> u64 \<Rightarrow> nat list \<Rightarrow> 'v fba_state \<Rightarrow> 'v fba_state \<times> bool" where
  "alloc_run map_page first first_address [] st = (st, True)"
| "alloc_run map_page first first_address (i # rest) st =
     (let st = st\<lparr>fba_bitmap := bitmap_set (fba_bitmap st) (of_nat (first + i))\<rparr>;
          (mem, p) = do_alloc map_page (fba_mem st) (first_address + of_nat i * VM_PAGE_SIZE);
          st = st\<lparr>fba_mem := mem\<rparr>
      in if p = NULL then (st, False) else alloc_run map_page first first_address rest st)"

definition fba_alloc_blocks_aligned ::
    "'v map_page \<Rightarrow> 'v fba_state \<Rightarrow> u32 \<Rightarrow> u8 \<Rightarrow> 'v fba_state \<times> u64" where
  "fba_alloc_blocks_aligned map_page st count page_align =
     (if count = 0 then (st, NULL)
      else if page_align = 0 \<or> page_align > 64 \<or> page_align AND (page_align - 1) \<noteq> 0 then (st, NULL)
      else
        let b = find_unset_run (fba_bitmap st) (unat page_align) (unat count)
        in if b = length (fba_bitmap st) * 64 then (st, NULL)
           else
             let first_block_address = fba_begin st + of_nat b * VM_PAGE_SIZE;
                 (st', ok) = alloc_run map_page b first_block_address [0..<unat count] st
             in if ok then (st', first_block_address) else (st', NULL))"

definition fba_alloc_blocks :: "'v map_page \<Rightarrow> 'v fba_state \<Rightarrow> u32 \<Rightarrow> 'v fba_state \<times> u64" where
  "fba_alloc_blocks map_page st count = fba_alloc_blocks_aligned map_page st count 1"

text \<open>\<^verbatim>\<open>fba_alloc_block\<close>: the first word with a clear bit, and its lowest clear bit.\<close>

fun first_free_quad :: "u64 list \<Rightarrow> nat" where
  "first_free_quad [] = 0"
| "first_free_quad (w # ws) = (if w \<noteq> 0xffffffffffffffff then 0 else Suc (first_free_quad ws))"

definition fba_alloc_block :: "'v map_page \<Rightarrow> 'v fba_state \<Rightarrow> 'v fba_state \<times> u64" where
  "fba_alloc_block map_page st =
     (let q = first_free_quad (fba_bitmap st)
      in if q = length (fba_bitmap st) then (st, NULL)
         else
           let b = q * 64 + first_set_bit_64 (NOT (fba_bitmap st ! q));
               block_address = fba_begin st + of_nat b * VM_PAGE_SIZE;
               st = st\<lparr>fba_bitmap := bitmap_set (fba_bitmap st) (of_nat b)\<rparr>;
               (mem, p) = do_alloc map_page (fba_mem st) block_address
           in (st\<lparr>fba_mem := mem\<rparr>, p))"

definition fba_free :: "'v unmap_page \<Rightarrow> 'v fba_state \<Rightarrow> u64 \<Rightarrow> 'v fba_state" where
  "fba_free unmap_page st block =
     (if block = NULL then st
      else if block < fba_begin st \<or> block \<ge> fba_begin st + fba_size_blocks st * VM_PAGE_SIZE then st
      else
        let block_index = (block - fba_begin st) div VM_PAGE_SIZE
        in if bitmap_check (fba_bitmap st) block_index then
             let ((region, vm), phys) = unmap_page (fba_mem st) block
             in st\<lparr>fba_bitmap := bitmap_clear (fba_bitmap st) block_index,
                   fba_mem := (if phys = 0 then (region, vm) else (page_free region phys, vm))\<rparr>
           else st)"

text \<open>The loop of \<^verbatim>\<open>fba_free_blocks\<close> over addresses below \<open>finish\<close>; the fuel is the block count.\<close>

fun free_run :: "'v unmap_page \<Rightarrow> nat \<Rightarrow> u64 \<Rightarrow> u64 \<Rightarrow> 'v fba_state \<Rightarrow> 'v fba_state" where
  "free_run unmap_page 0 current finish st = st"
| "free_run unmap_page (Suc k) current finish st =
     (if current < finish then free_run unmap_page k (current + VM_PAGE_SIZE) finish (fba_free unmap_page st current)
      else st)"

definition fba_free_blocks :: "'v unmap_page \<Rightarrow> 'v fba_state \<Rightarrow> u64 \<Rightarrow> u32 \<Rightarrow> 'v fba_state" where
  "fba_free_blocks unmap_page st block count =
     free_run unmap_page (unat count) block (block + of_nat (unat count) * VM_PAGE_SIZE) st"

section \<open>Library: runs of clear bits\<close>

definition clear_run :: "u64 list \<Rightarrow> nat \<Rightarrow> nat \<Rightarrow> bool" where
  "clear_run bm i j \<longleftrightarrow> (\<forall>k. i \<le> k \<and> k < j \<longrightarrow> \<not> bmp_bit bm k)"

lemma clear_run_empty [simp]: "clear_run bm i i" by (auto simp: clear_run_def)

lemma clear_run_Suc: "i \<le> j \<Longrightarrow> clear_run bm i (Suc j) \<longleftrightarrow> clear_run bm i j \<and> \<not> bmp_bit bm j"
  by (auto simp: clear_run_def less_Suc_eq)

lemma clear_run_split: "i \<le> j \<Longrightarrow> j \<le> k \<Longrightarrow> clear_run bm i k \<longleftrightarrow> clear_run bm i j \<and> clear_run bm j k"
  by (auto simp: clear_run_def) (meson not_le)

text \<open>The loop state after the bits below \<open>pos\<close>: the current run starts at the first aligned
  position after the last set bit, and no aligned run of \<open>n\<close> clear bits ends by \<open>pos\<close>.\<close>

definition scan_inv :: "u64 list \<Rightarrow> nat \<Rightarrow> nat \<Rightarrow> nat \<Rightarrow> nat \<times> nat \<Rightarrow> bool" where
  "scan_inv bm al n pos s \<longleftrightarrow> (case s of (cz, sb) \<Rightarrow> cz < n
     \<and> (0 < cz \<longrightarrow> sb + cz = pos \<and> al dvd sb \<and> clear_run bm sb pos)
     \<and> (\<forall>t < pos. al dvd t \<and> clear_run bm t pos \<longrightarrow> 0 < cz \<and> sb \<le> t)
     \<and> (\<forall>t. al dvd t \<and> t + n \<le> pos \<longrightarrow> \<not> clear_run bm t (t + n)))"

definition scan_found :: "u64 list \<Rightarrow> nat \<Rightarrow> nat \<Rightarrow> nat \<Rightarrow> nat \<Rightarrow> bool" where
  "scan_found bm al n lim r \<longleftrightarrow> al dvd r \<and> r + n \<le> lim \<and> clear_run bm r (r + n)
     \<and> (\<forall>t < r. al dvd t \<longrightarrow> \<not> clear_run bm t (t + n))"

lemma scan_invD:
  assumes "scan_inv bm al n pos (cz, sb)"
  shows "cz < n" "0 < cz \<Longrightarrow> sb + cz = pos \<and> al dvd sb \<and> clear_run bm sb pos"
    and "\<And>t. t < pos \<Longrightarrow> al dvd t \<Longrightarrow> clear_run bm t pos \<Longrightarrow> 0 < cz \<and> sb \<le> t"
    and "\<And>t. al dvd t \<Longrightarrow> t + n \<le> pos \<Longrightarrow> \<not> clear_run bm t (t + n)"
  using assms by (auto simp: scan_inv_def)

lemma scan_inv_set:
  assumes "scan_inv bm al n pos (cz, sb)" "pos < pos'" "bmp_bit bm (pos' - 1)"
    and new: "\<And>t. pos < t + n \<Longrightarrow> t + n \<le> pos' \<Longrightarrow> \<not> clear_run bm t (t + n)"
  shows "scan_inv bm al n pos' (0, sb')"
proof -
  have "\<not> clear_run bm t pos'" if "t < pos'" for t
    using assms(2,3) that by (auto simp: clear_run_def intro!: exI [of _ "pos' - 1"])
  then show ?thesis using scan_invD(1,4) [OF assms(1)] new
    by (auto simp: scan_inv_def) (meson not_le)
qed

text \<open>Extending the state over \<open>m\<close> clear bits; \<open>b\<close> is the aligned position where a new run starts.\<close>

lemma scan_inv_clear:
  assumes inv: "scan_inv bm al n pos (cz, sb)" and m: "0 < m" "clear_run bm pos (pos + m)"
    and al: "cz = 0 \<Longrightarrow> al dvd pos"
  defines "sb' \<equiv> if cz = 0 then pos else sb"
  shows "if n \<le> cz + m then scan_found bm al n (pos + m) sb' else scan_inv bm al n (pos + m) (cz + m, sb')"
proof -
  note i = scan_invD [OF inv]
  have run: "sb' + cz = pos" "al dvd sb'" "clear_run bm sb' pos" using i(2) al by (auto simp: sb'_def)
  have full: "clear_run bm sb' (pos + m)" using run m clear_run_split [of sb' pos "pos + m" bm] by simp
  have low: "sb' \<le> t" if "al dvd t" "clear_run bm t (t + k)" "t < pos" "pos \<le> t + k" for t k
  proof -
    have "clear_run bm t pos" using that by (auto simp: clear_run_def)
    then show ?thesis using i(3) that by (auto simp: sb'_def)
  qed
  have none: "\<not> clear_run bm t (t + n)" if "al dvd t" "t < sb'" for t
  proof (cases "t + n \<le> pos")
    case False
    then show ?thesis using low [of t n] that run(1) by auto
  qed (use i(4) that in auto)
  show ?thesis
  proof (cases "n \<le> cz + m")
    case True
    then have "clear_run bm sb' (sb' + n)" using full run(1) by (auto simp: clear_run_def)
    then show ?thesis using True run none by (auto simp: scan_found_def)
  next
    case False
    have "\<not> clear_run bm t (t + n)" if "al dvd t" "t + n \<le> pos + m" for t
      using none [OF that(1)] that False run(1) by (cases "t < sb'") auto
    moreover have "sb' \<le> t" if "t < pos + m" "al dvd t" "clear_run bm t (pos + m)" for t
      using low [of t "pos + m - t"] that run(1) by (cases "t < pos") auto
    ultimately show ?thesis using False run full m(1) by (auto simp: scan_inv_def)
  qed
qed

lemma scan_inv_skip:
  assumes inv: "scan_inv bm al n pos (0, sb)" and "\<not> al dvd pos" "0 < n"
  shows "scan_inv bm al n (Suc pos) (0, sb')"
proof -
  note i = scan_invD [OF inv]
  have no: "\<not> clear_run bm t (Suc pos)" if "al dvd t" "t \<le> pos" for t
  proof
    assume c: "clear_run bm t (Suc pos)"
    have "t < pos" using that assms(2) by (cases "t = pos") auto
    then show False using i(3) [of t] that c by (auto simp: clear_run_Suc)
  qed
  have "\<not> clear_run bm t (t + n)" if "al dvd t" "t + n \<le> Suc pos" for t
  proof (cases "t + n \<le> pos")
    case False
    then have "t + n = Suc pos" using that by simp
    then show ?thesis using no [OF that(1)] assms(3) by simp
  qed (use i(4) that in auto)
  then show ?thesis using no assms(3) by (auto simp: scan_inv_def)
qed


text \<open>The alignment test of the code is divisibility.\<close>

lemma start_aligned_iff:
  assumes "al = 2 ^ k" "k \<le> 6" "c < 9223372036854775808"
  shows "start_aligned al c \<longleftrightarrow> al dvd c"
proof -
  define m where "m = (mask k :: u64)"
  define x where "x = (of_nat c :: u64)"
  have al: "of_nat al - 1 = m" by (simp add: assms(1) m_def mask_eq_exp_minus_1)
  have ux: "unat x = c" using assms(3) by (simp add: x_def unat_of_nat)
  have "(2 :: nat) ^ k \<le> 2 ^ 6" using assms(2) by (intro power_increasing) auto
  then have "unat (of_nat (2 ^ k) :: u64) = 2 ^ k" by (simp only: unat_of_nat) simp
  then have "unat (2 ^ k :: u64) = 2 ^ k" by simp
  then have "al dvd c \<longleftrightarrow> unat (take_bit k x) = 0"
    using assms(2) by (simp add: assms(1) ux take_bit_eq_mod unat_mod dvd_eq_mod_eq_0)
  then have dvd: "al dvd c \<longleftrightarrow> x AND m = 0" by (simp add: take_bit_eq_mask m_def unat_eq_zero)
  have dis: "\<not> bit x i \<or> \<not> bit m i" if "x AND m = 0" for i
    using arg_cong [OF that, of "\<lambda>y. bit y i"] by (simp add: bit_and_iff)
  have to: "(x + m) AND NOT m = x" if "x AND m = 0"
  proof -
    have "x + m = x OR m" using dis [OF that] by (intro disjunctive_add)
    then show ?thesis using dis [OF that] by (auto simp: bit_eq_iff bit_simps)
  qed
  have "x AND m = 0" if eq: "(x + m) AND NOT m = x"
  proof -
    have "x AND m = ((x + m) AND NOT m) AND m" by (simp only: eq)
    then show ?thesis by (simp add: and.assoc)
  qed
  then show ?thesis using to dvd unfolding start_aligned_def Let_def al x_def [symmetric] by blast
qed

lemma scan_found_mono: "scan_found bm al n a r \<Longrightarrow> a \<le> b \<Longrightarrow> scan_found bm al n b r"
  by (auto simp: scan_found_def)

lemma scan_bits_spec:
  assumes al: "al = 2 ^ k" "k \<le> 6" and n: "0 < n" and w: "w < length bm" "bm ! w = word"
    and big: "64 * length bm < 9223372036854775808" and "i \<le> 64" and "scan_inv bm al n (w * 64 + i) s"
  shows "case scan_bits al n word (w * 64) [i..<64] s of
      Inl r \<Rightarrow> scan_found bm al n (64 * length bm) r
    | Inr s' \<Rightarrow> scan_inv bm al n (w * 64 + 64) s'"
  using assms(7,8)
proof (induction "64 - i" arbitrary: i s)
  case 0
  then show ?case by simp
next
  case (Suc d)
  then have i: "i < 64" by simp
  obtain cz sb where s: "s = (cz, sb)" by (cases s)
  let ?pos = "w * 64 + i"
  have bitpos: "bmp_bit bm ?pos \<longleftrightarrow> bit word i" using i w by (simp add: bmp_bit_def)
  have test: "word AND push_bit i 1 = 0 \<longleftrightarrow> \<not> bit word i"
    by (simp add: and_exp_eq_0_iff_not_bit push_bit_of_1)
  have lim: "Suc ?pos \<le> 64 * length bm" using i w(1) by linarith
  have ali: "start_aligned al ?pos \<longleftrightarrow> al dvd ?pos" using lim big by (intro start_aligned_iff [OF al]) simp
  have IH: "case scan_bits al n word (w * 64) [Suc i..<64] s' of
      Inl r \<Rightarrow> scan_found bm al n (64 * length bm) r | Inr s' \<Rightarrow> scan_inv bm al n (w * 64 + 64) s'"
    if "scan_inv bm al n (Suc ?pos) s'" for s'
    using Suc.hyps(1) [of "Suc i" s'] Suc.hyps(2) that i by simp
  have upt: "[i..<64] = i # [Suc i..<64]" using i by (rule upt_conv_Cons)
  have inv: "scan_inv bm al n ?pos (cz, sb)" using Suc.prems(2) s by simp
  consider (set) "bit word i" | (skip) "\<not> bit word i" "cz = 0" "\<not> al dvd ?pos" | (run) "\<not> bit word i" "cz = 0 \<longrightarrow> al dvd ?pos"
    by blast
  then show ?case
  proof cases
    case set
    have "scan_inv bm al n (Suc ?pos) (0, sb)"
    proof (rule scan_inv_set [OF inv])
      show "\<not> clear_run bm t (t + n)" if "?pos < t + n" "t + n \<le> Suc ?pos" for t
        using that set bitpos n by (auto simp: clear_run_def intro!: exI [of _ "?pos"])
    qed (use set bitpos in auto)
    then show ?thesis using IH set test unfolding upt s by simp
  next
    case skip
    then have "scan_inv bm al n (Suc ?pos) (0, sb)" using scan_inv_skip inv n by blast
    then show ?thesis using IH skip test ali unfolding upt s by simp
  next
    case run
    have cr: "clear_run bm ?pos (?pos + 1)" using run bitpos by (auto simp: clear_run_def less_Suc_eq)
    have st: "if n \<le> cz + 1 then scan_found bm al n (?pos + 1) (if cz = 0 then ?pos else sb)
      else scan_inv bm al n (?pos + 1) (cz + 1, if cz = 0 then ?pos else sb)"
      using scan_inv_clear [OF inv _ cr] run by auto
    have "cz + 1 = n \<longleftrightarrow> n \<le> cz + 1" using scan_invD(1) [OF inv] by linarith
    then show ?thesis
      using st IH run test ali scan_found_mono [OF _ lim] unfolding upt s by (auto simp: Let_def split: if_splits)
  qed
qed


lemma scan_words_spec:
  assumes al: "al = 2 ^ k" "k \<le> 6" and n: "0 < n" and big: "64 * length bm < 9223372036854775808"
    and "bm = take w bm @ ws" "w \<le> length bm" and "scan_inv bm al n (w * 64) s"
  shows "case scan_words al n w ws s of
      Inl r \<Rightarrow> scan_found bm al n (64 * length bm) r
    | Inr s' \<Rightarrow> scan_inv bm al n (64 * length bm) s'"
  using assms(5,6,7)
proof (induction ws arbitrary: w s)
  case Nil
  then have "length bm = w" by (metis append_Nil2 length_take min.absorb2)
  then show ?case using Nil by (simp add: mult.commute)
next
  case (Cons word ws)
  obtain cz sb where s: "s = (cz, sb)" by (cases s)
  have w: "w < length bm" using Cons.prems(1,2) by (cases "w = length bm") auto
  have nth: "bm ! w = word" by (subst Cons.prems(1)) (use w in \<open>simp add: nth_append\<close>)
  have nxt: "bm = take (w + 1) bm @ ws" using Cons.prems(1) w nth by (simp add: take_Suc_conv_app_nth)
  have lim: "w * 64 + 64 \<le> 64 * length bm" using w by linarith
  have ali: "al dvd w * 64" "start_aligned al (w * 64)"
  proof -
    have "al dvd 2 ^ 6" unfolding al(1) by (rule le_imp_power_dvd [OF al(2)])
    then show "al dvd w * 64" by (simp add: dvd_mult)
    then show "start_aligned al (w * 64)" using lim big by (subst start_aligned_iff [OF al]) auto
  qed
  have inv: "scan_inv bm al n (w * 64) (cz, sb)" using Cons.prems(3) s by simp
  have IH: "case scan_words al n (w + 1) ws s' of
      Inl r \<Rightarrow> scan_found bm al n (64 * length bm) r | Inr s' \<Rightarrow> scan_inv bm al n (64 * length bm) s'"
    if "scan_inv bm al n (w * 64 + 64) s'" for s'
    using Cons.IH [OF nxt, of s'] w that by (simp add: add.commute)
  consider (zero) "word = 0" | (full) "word = 0xffffffffffffffff" | (mixed) "word \<noteq> 0" "word \<noteq> 0xffffffffffffffff" by blast
  then show ?case
  proof cases
    case zero
    have "clear_run bm (w * 64) (w * 64 + 64)"
    proof -
      have "\<not> bmp_bit bm j" if "w * 64 \<le> j" "j < w * 64 + 64" for j
      proof -
        have "j div 64 = w" using that by (intro div_nat_eqI) auto
        then show ?thesis using nth zero by (simp add: bmp_bit_def)
      qed
      then show ?thesis by (simp add: clear_run_def)
    qed
    from scan_inv_clear [OF inv _ this] ali have
      st: "if n \<le> cz + 64 then scan_found bm al n (w * 64 + 64) (if cz = 0 then w * 64 else sb)
        else scan_inv bm al n (w * 64 + 64) (cz + 64, if cz = 0 then w * 64 else sb)" by auto
    then show ?thesis using zero ali IH scan_found_mono [OF _ lim] unfolding s
      by (auto simp: Let_def split: if_splits)
  next
    case full
    have bits: "bmp_bit bm j" if "w * 64 \<le> j" "j < w * 64 + 64" for j
    proof -
      have "j div 64 = w" using that by (intro div_nat_eqI) auto
      moreover have "word = - 1" by (simp add: full)
      ultimately show ?thesis using nth w by (simp add: bmp_bit_def)
    qed
    have "scan_inv bm al n (w * 64 + 64) (0, sb)"
    proof (rule scan_inv_set [OF inv])
      show "\<not> clear_run bm t (t + n)" if "w * 64 < t + n" "t + n \<le> w * 64 + 64" for t
      proof -
        have "bmp_bit bm (t + n - 1)" using that bits by auto
        then show ?thesis using n by (auto simp: clear_run_def intro!: exI [of _ "t + n - 1"])
      qed
    qed (use bits [of "63 + w * 64"] in auto)
    then show ?thesis using full IH unfolding s by simp
  next
    case mixed
    have sp: "case scan_bits al n word (w * 64) [0..<64] (cz, sb) of
        Inl r \<Rightarrow> scan_found bm al n (64 * length bm) r | Inr s' \<Rightarrow> scan_inv bm al n (w * 64 + 64) s'"
      using scan_bits_spec [OF al n w nth big, of 0 "(cz, sb)"] inv by simp
    show ?thesis
    proof (cases "scan_bits al n word (w * 64) [0..<64] (cz, sb)")
      case (Inl r)
      then show ?thesis using sp mixed unfolding s by simp
    next
      case (Inr s')
      then show ?thesis using sp mixed IH [of s'] unfolding s by simp
    qed
  qed
qed

lemma find_unset_run_spec:
  assumes al: "al = 2 ^ k" "k \<le> 6" and n: "0 < n" and big: "64 * length bm < 9223372036854775808"
  defines "r \<equiv> find_unset_run bm al n"
  shows "r < 64 * length bm \<and> scan_found bm al n (64 * length bm) r
    \<or> r = 64 * length bm \<and> (\<forall>t. al dvd t \<and> t + n \<le> 64 * length bm \<longrightarrow> \<not> clear_run bm t (t + n))"
proof (cases "bm = []")
  case True
  then show ?thesis using n by (simp add: r_def find_unset_run_def)
next
  case False
  have "scan_inv bm al n (0 * 64) (0, 0)" using n by (simp add: scan_inv_def)
  from scan_words_spec [OF al n big, of 0 bm, OF _ _ this]
  show ?thesis using False n
    by (auto simp: r_def find_unset_run_def scan_found_def scan_inv_def mult.commute split: sum.splits)
qed

section \<open>Library: allocation and freeing\<close>

lemma alloc_run_bits:
  assumes "alloc_run mp first a is st = (st', ok)" "\<forall>i \<in> set is. first + i < 64 * length (fba_bitmap st)"
    and "64 * length (fba_bitmap st) < 9223372036854775808"
  shows "length (fba_bitmap st') = length (fba_bitmap st) \<and> fba_begin st' = fba_begin st
    \<and> fba_size_blocks st' = fba_size_blocks st
    \<and> (\<forall>j. bmp_bit (fba_bitmap st') j \<longrightarrow> bmp_bit (fba_bitmap st) j \<or> j \<in> (+) first ` set is)
    \<and> (\<forall>j. bmp_bit (fba_bitmap st) j \<longrightarrow> bmp_bit (fba_bitmap st') j)
    \<and> (ok \<longrightarrow> (\<forall>j \<in> (+) first ` set is. bmp_bit (fba_bitmap st') j))"
  using assms
proof (induction "is" arbitrary: st)
  case Nil
  then show ?case by simp
next
  case (Cons i rest)
  define s1 where "s1 = st\<lparr>fba_bitmap := bitmap_set (fba_bitmap st) (of_nat (first + i))\<rparr>"
  obtain mem p where d: "do_alloc mp (fba_mem s1) (a + of_nat i * VM_PAGE_SIZE) = (mem, p)"
    by (cases "do_alloc mp (fba_mem s1) (a + of_nat i * VM_PAGE_SIZE)")
  define s2 where "s2 = s1\<lparr>fba_mem := mem\<rparr>"
  have u: "unat (of_nat (first + i) :: u64) = first + i"
    using Cons.prems(2,3) by (simp add: unat_of_nat del: of_nat_add)
  have b: "bmp_bit (fba_bitmap s2) j \<longleftrightarrow> j = first + i \<or> bmp_bit (fba_bitmap st) j" for j
    using bmp_bit_set [of "of_nat (first + i)" "fba_bitmap st" j] Cons.prems(2) by (simp add: s2_def s1_def u del: of_nat_add)
  have same: "length (fba_bitmap s2) = length (fba_bitmap st)" "fba_begin s2 = fba_begin st" "fba_size_blocks s2 = fba_size_blocks st"
    by (simp_all add: s2_def s1_def)
  show ?case
  proof (cases "p = NULL")
    case True
    then have "st' = s2" "\<not> ok" using Cons.prems(1) d by (auto simp: s1_def s2_def Let_def)
    then show ?thesis using b same by auto
  next
    case False
    then have "alloc_run mp first a rest s2 = (st', ok)" using Cons.prems(1) d by (auto simp: s1_def s2_def Let_def)
    note IH = Cons.IH [OF this]
    show ?thesis using IH Cons.prems(2,3) same b by auto
  qed
qed


lemma page_align_power:
  assumes "page_align \<noteq> 0" "\<not> page_align > 64" "page_align AND (page_align - 1) = (0 :: u8)"
  shows "\<exists>k \<le> 6. unat page_align = 2 ^ k"
proof -
  have all: "\<forall>n \<in> set [0..<65]. (of_nat n :: u8) \<noteq> 0 \<and> of_nat n AND (of_nat n - 1) = (0 :: u8) \<longrightarrow> n \<in> set (map (\<lambda>k. 2 ^ k) [0..<7])"
    by code_simp
  have "unat page_align < 65" using assms(2) by (simp add: not_less word_le_nat_alt)
  then have "unat page_align \<in> set (map (\<lambda>k. 2 ^ k) [0..<7])"
    using all assms(1,3) by (auto dest!: bspec [of _ _ "unat page_align"])
  then show ?thesis by auto
qed

lemma first_free_quad_le: "first_free_quad ws \<le> length ws"
  by (induction ws) auto

lemma first_free_quad_spec:
  "first_free_quad ws < length ws \<Longrightarrow> ws ! first_free_quad ws \<noteq> 0xffffffffffffffff
    \<and> (\<forall>i < first_free_quad ws. ws ! i = 0xffffffffffffffff)"
  by (induction ws) (auto simp: less_Suc_eq_0_disj nth_Cons')

lemma full_word: "(0xffffffffffffffff :: u64) = - 1"
  by simp

lemma full_word_bit: "i < 64 \<Longrightarrow> bit (0xffffffffffffffff :: u64) i"
  by (simp only: full_word) simp

lemma bitmap_eqI:
  assumes "length bm = length bm'" "\<And>i. bmp_bit bm i \<longleftrightarrow> bmp_bit bm' i"
  shows "bm = bm'"
proof (rule nth_equalityI)
  fix q assume q: "q < length bm"
  show "bm ! q = bm' ! q"
  proof (rule bit_word_eqI)
    fix i assume "i < LENGTH(64)"
    then show "bit (bm ! q) i \<longleftrightarrow> bit (bm' ! q) i"
      using assms(2) [of "q * 64 + i"] assms(1) q by (simp add: bmp_bit_def)
  qed
qed (rule assms(1))

text \<open>The block \<^verbatim>\<open>fba_alloc_block\<close> takes is the lowest clear bit.\<close>

definition lowest_clear :: "u64 list \<Rightarrow> nat" where
  "lowest_clear bm = first_free_quad bm * 64 + first_set_bit_64 (NOT (bm ! first_free_quad bm))"

lemma lowest_clear_spec:
  assumes "first_free_quad bm < length bm"
  shows "lowest_clear bm < 64 * length bm" "\<not> bmp_bit bm (lowest_clear bm)"
    and "\<And>i. i < lowest_clear bm \<Longrightarrow> bmp_bit bm i"
proof -
  define q where "q = first_free_quad bm"
  note f = first_free_quad_spec [OF assms, folded q_def]
  have nz: "NOT (bm ! q) \<noteq> 0"
  proof
    assume "NOT (bm ! q) = 0"
    then have "bm ! q = NOT 0" by (metis bit.double_compl)
    then show False using f by simp
  qed
  define c where "c = first_set_bit_64 (NOT (bm ! q))"
  have c: "c < 64" "\<not> bit (bm ! q) c" "\<And>i. i < c \<Longrightarrow> bit (bm ! q) i"
    using ctzll_props [OF nz] by (auto simp: c_def first_set_bit_64_def bit_not_iff)
  have lc: "lowest_clear bm = q * 64 + c" by (simp add: lowest_clear_def q_def c_def)
  have ql: "q < length bm" using assms by (simp add: q_def)
  show "lowest_clear bm < 64 * length bm" using lc c(1) ql by linarith
  show "\<not> bmp_bit bm (lowest_clear bm)" using lc c by (simp add: bmp_bit_def)
  show "bmp_bit bm i" if "i < lowest_clear bm" for i
  proof (cases "i div 64 = q")
    case True
    then have "i mod 64 < c" using that lc div_mult_mod_eq [of i 64] by linarith
    then show ?thesis using True c(3) ql by (simp add: bmp_bit_def)
  next
    case False
    then have "i div 64 < q" using that lc c(1) by linarith
    then show ?thesis using f ql full_word_bit by (simp add: bmp_bit_def)
  qed
qed

section \<open>Properties\<close>

text \<open>The bitmap search is first fit: for an alignment that is a power of two up to 64 and a
  non-empty request, the result is the smallest aligned index that starts a run of that many
  clear bits inside the bitmap, or the bitmap's size in bits when there is no such run.\<close>

theorem find_unset_run_first_fit:
  assumes "al = 2 ^ k" and "k \<le> 6" and "0 < n" and "64 * length bm < 9223372036854775808"
  shows "find_unset_run bm al n =
    (if \<exists>t. al dvd t \<and> t + n \<le> 64 * length bm \<and> clear_run bm t (t + n)
     then (LEAST t. al dvd t \<and> t + n \<le> 64 * length bm \<and> clear_run bm t (t + n))
     else 64 * length bm)"
proof -
  let ?P = "\<lambda>t. al dvd t \<and> t + n \<le> 64 * length bm \<and> clear_run bm t (t + n)"
  consider "scan_found bm al n (64 * length bm) (find_unset_run bm al n)"
    | "find_unset_run bm al n = 64 * length bm" "\<not> (\<exists>t. ?P t)"
    using find_unset_run_spec [OF assms] by blast
  then show ?thesis
  proof cases
    case 1
    then have p: "?P (find_unset_run bm al n)" by (simp add: scan_found_def)
    have "(LEAST t. ?P t) = find_unset_run bm al n"
      using 1 p by (intro Least_equality) (auto simp: scan_found_def not_le [symmetric])
    then show ?thesis using p by auto
  qed auto
qed

lemma if_other: "(8 :: nat) = (if P then x else y) \<Longrightarrow> y \<noteq> 8 \<Longrightarrow> x = 8"
  by (simp split: if_splits)

theorem find_unset_run_first_fit_witness:
  "(LEAST t. 8 dvd t \<and> t + 20 \<le> 64 * length [0x7, 0x10 :: u64] \<and> clear_run [0x7, 0x10] t (t + 20)) = 8"
proof -
  have e: "find_unset_run [0x7, 0x10] 8 20 = 8" by code_simp
  show ?thesis
    by (rule if_other, rule find_unset_run_first_fit [of 8 3 20 "[0x7, 0x10]", unfolded e]) simp_all
qed

text \<open>An aligned multi-block allocation that succeeds returns the address of an aligned run of
  blocks that were all free, marks exactly those blocks, and changes no other bit; when no
  aligned run is free it returns null and changes nothing.\<close>

theorem fba_alloc_blocks_aligned_correct:
  assumes "fba_alloc_blocks_aligned mp st count page_align = (st', p)"
    and "64 * length (fba_bitmap st) < 9223372036854775808"
  shows "(p \<noteq> NULL \<longrightarrow> (\<exists>b. p = fba_begin st + of_nat b * VM_PAGE_SIZE \<and> unat page_align dvd b
       \<and> b + unat count \<le> 64 * length (fba_bitmap st) \<and> clear_run (fba_bitmap st) b (b + unat count)
       \<and> (\<forall>j. bmp_bit (fba_bitmap st') j \<longleftrightarrow> bmp_bit (fba_bitmap st) j \<or> j \<in> {b ..< b + unat count})))
    \<and> ((\<nexists>b. unat page_align dvd b \<and> b + unat count \<le> 64 * length (fba_bitmap st)
          \<and> clear_run (fba_bitmap st) b (b + unat count)) \<longrightarrow> st' = st \<and> p = NULL)"
proof (cases "count = 0 \<or> page_align = 0 \<or> page_align > 64 \<or> page_align AND (page_align - 1) \<noteq> 0")
  case True
  then show ?thesis using assms(1) by (auto simp: fba_alloc_blocks_aligned_def split: if_splits)
next
  case False
  then obtain k where k: "k \<le> 6" "unat page_align = 2 ^ k" using page_align_power by blast
  let ?bm = "fba_bitmap st" and ?n = "unat count"
  define b where "b = find_unset_run ?bm (unat page_align) ?n"
  have n: "0 < ?n" using False by (simp add: unat_gt_0)
  note spec = find_unset_run_spec [OF k(2,1) n assms(2), folded b_def]
  show ?thesis
  proof (cases "b = 64 * length ?bm")
    case True
    then have "st' = st" "p = NULL" using assms(1) False
      by (auto simp: fba_alloc_blocks_aligned_def b_def [symmetric] Let_def mult.commute)
    then show ?thesis by simp
  next
    case run: False
    then have f: "unat page_align dvd b" "b + ?n \<le> 64 * length ?bm" "clear_run ?bm b (b + ?n)"
      using spec by (auto simp: scan_found_def)
    obtain s ok where ar: "alloc_run mp b (fba_begin st + of_nat b * VM_PAGE_SIZE) [0..<?n] st = (s, ok)"
      by (cases "alloc_run mp b (fba_begin st + of_nat b * VM_PAGE_SIZE) [0..<?n] st")
    have res: "st' = s" "p \<noteq> NULL \<longrightarrow> ok \<and> p = fba_begin st + of_nat b * VM_PAGE_SIZE"
      using assms(1) False run ar
      by (auto simp: fba_alloc_blocks_aligned_def b_def [symmetric] Let_def mult.commute split: if_splits)
    have im: "(+) b ` set [0..<?n] = {b ..< b + ?n}" by (auto simp: image_iff)
    have bits: "ok \<longrightarrow> (\<forall>j. bmp_bit (fba_bitmap s) j \<longleftrightarrow> bmp_bit ?bm j \<or> j \<in> {b ..< b + ?n})"
      using alloc_run_bits [OF ar] f(2) assms(2) unfolding im by fastforce
    show ?thesis using res f bits by auto
  qed
qed

definition demo_fba :: "unit fba_state" where
  "demo_fba = \<lparr>fba_begin = 0x100000, fba_size_blocks = 128, fba_bitmap = [0x3, 0x0],
     fba_mem = (\<lparr>mr_size = 0x4000, mr_free = 0x4000, mr_stack = [\<lparr>mb_base = 0x1000, mb_size = 4\<rparr>]\<rparr>, ())\<rparr>"

theorem fba_alloc_blocks_aligned_correct_witness:
  "snd (fba_alloc_blocks_aligned (\<lambda>m v p. m) demo_fba 2 4) = 0x104000
   \<and> (\<exists>b. 0x104000 = fba_begin demo_fba + of_nat b * VM_PAGE_SIZE \<and> 4 dvd b)"
proof -
  have e: "snd (fba_alloc_blocks_aligned (\<lambda>m v p. m) demo_fba 2 4) = 0x104000" by code_simp
  have "64 * length (fba_bitmap demo_fba) < 9223372036854775808" by (simp add: demo_fba_def)
  then show ?thesis
    using fba_alloc_blocks_aligned_correct [OF surjective_pairing, of demo_fba "\<lambda>m v p. m" 2 4] e by auto
qed

lemma fba_alloc_block_cases:
  assumes "fba_alloc_block mp st = (st', p)" "64 * length (fba_bitmap st) < 9223372036854775808"
  shows "p = NULL \<or> first_free_quad (fba_bitmap st) < length (fba_bitmap st)
    \<and> p = fba_begin st + of_nat (lowest_clear (fba_bitmap st)) * VM_PAGE_SIZE
    \<and> fba_bitmap st' = bitmap_set (fba_bitmap st) (of_nat (lowest_clear (fba_bitmap st)))
    \<and> fba_begin st' = fba_begin st \<and> fba_size_blocks st' = fba_size_blocks st"
  using assms first_free_quad_le [of "fba_bitmap st"]
  by (auto simp: fba_alloc_block_def Let_def do_alloc_def lowest_clear_def split: if_splits prod.splits)

text \<open>A single-block allocation takes the lowest clear bit of the bitmap, and freeing the block
  it returned gives back the bitmap as it was, for a window that ends below the top of the
  address space.\<close>

theorem fba_alloc_free_roundtrip:
  assumes "fba_alloc_block mp st = (st', p)" and "p \<noteq> NULL"
    and "unat (fba_begin st) + unat (fba_size_blocks st) * 4096 < 18446744073709551616"
    and "unat (fba_size_blocks st) = 64 * length (fba_bitmap st)"
  shows "(\<exists>b. p = fba_begin st + of_nat b * VM_PAGE_SIZE \<and> \<not> bmp_bit (fba_bitmap st) b
       \<and> (\<forall>i < b. bmp_bit (fba_bitmap st) i) \<and> bmp_bit (fba_bitmap st') b)
    \<and> fba_bitmap (fba_free um st' p) = fba_bitmap st"
proof -
  let ?bm = "fba_bitmap st"
  define b where "b = lowest_clear ?bm"
  have big: "64 * length ?bm < 9223372036854775808" using assms(3,4) by linarith
  have r: "first_free_quad ?bm < length ?bm" "p = fba_begin st + of_nat b * VM_PAGE_SIZE"
    "fba_bitmap st' = bitmap_set ?bm (of_nat b)" "fba_begin st' = fba_begin st" "fba_size_blocks st' = fba_size_blocks st"
    using fba_alloc_block_cases [OF assms(1) big] assms(2) by (auto simp: b_def)
  note lc = lowest_clear_spec [OF r(1), folded b_def]
  have ub: "unat (of_nat b :: u64) = b" using lc(1) big by (simp add: unat_of_nat)
  have um: "unat (of_nat b * VM_PAGE_SIZE) = b * 4096"
    using lc(1) assms(3,4) ub by (subst unat_mult_u64) auto
  have up: "unat p = unat (fba_begin st) + b * 4096"
    unfolding r(2) using lc(1) assms(3,4) um by (subst unat_add_u64) auto
  have ue: "unat (fba_begin st + fba_size_blocks st * VM_PAGE_SIZE) = unat (fba_begin st) + unat (fba_size_blocks st) * 4096"
    using assms(3) by (subst unat_add_u64; subst unat_mult_u64) auto
  have inr: "\<not> (p < fba_begin st' \<or> p \<ge> fba_begin st' + fba_size_blocks st' * VM_PAGE_SIZE)"
    using lc(1) assms(4) up ue r(4,5) by (simp add: word_less_nat_alt word_le_nat_alt)
  have idx: "(p - fba_begin st') div VM_PAGE_SIZE = of_nat b"
  proof -
    have "p - fba_begin st' = of_nat b * VM_PAGE_SIZE" using r(2,4) by simp
    then show ?thesis using um ub by (simp add: u64_eq_iff unat_div)
  qed
  have set: "bmp_bit (fba_bitmap st') j \<longleftrightarrow> j = b \<or> bmp_bit ?bm j" for j
    using bmp_bit_set [of "of_nat b" ?bm j] lc(1) ub r(3) by simp
  have chk: "bitmap_check (fba_bitmap st') (of_nat b)" using set ub by (simp add: bitmap_check_eq)
  have "fba_bitmap (fba_free um st' p) = bitmap_clear (fba_bitmap st') (of_nat b)"
    using inr idx chk assms(2) by (simp add: fba_free_def Let_def split: prod.splits)
  also have "\<dots> = ?bm"
  proof (rule bitmap_eqI)
    show "bmp_bit (bitmap_clear (fba_bitmap st') (of_nat b)) i \<longleftrightarrow> bmp_bit ?bm i" for i
      using bmp_bit_clear [of "of_nat b" "fba_bitmap st'" i] lc(1,2) ub r(3) set by auto
  qed (simp add: r(3))
  finally show ?thesis using r(2) lc set by auto
qed

theorem fba_alloc_free_roundtrip_witness:
  "fba_bitmap (fba_free (\<lambda>m v. (m, 0)) (fst (fba_alloc_block (\<lambda>m v p. m) demo_fba)) 0x102000) = [0x3, 0x0]"
proof -
  have e: "fba_alloc_block (\<lambda>m v p. m) demo_fba = (fst (fba_alloc_block (\<lambda>m v p. m) demo_fba), 0x102000)"
    by code_simp
  show ?thesis
    using fba_alloc_free_roundtrip [OF e, of "\<lambda>m v. (m, 0)"] by (simp add: demo_fba_def)
qed

text \<open>With the window the kernel configures, 1 GiB that ends at the top of the address space,
  the end of the window wraps to zero, every address is taken as out of range and freeing a
  block does nothing.\<close>

theorem fba_free_kernel_window_noop:
  assumes "fba_begin st = KERNEL_FBA_BEGIN" and "fba_size_blocks st = KERNEL_FBA_SIZE_BLOCKS"
  shows "fba_free um st block = st"
proof -
  have "KERNEL_FBA_BEGIN + KERNEL_FBA_SIZE_BLOCKS * VM_PAGE_SIZE = 0" by code_simp
  then show ?thesis using assms by (simp add: fba_free_def)
qed

theorem fba_free_kernel_window_noop_witness:
  "fba_free (\<lambda>m v. (m, 0x5000)) (demo_fba\<lparr>fba_begin := KERNEL_FBA_BEGIN, fba_size_blocks := KERNEL_FBA_SIZE_BLOCKS\<rparr>)
     (KERNEL_FBA_BEGIN + 0x1000) = demo_fba\<lparr>fba_begin := KERNEL_FBA_BEGIN, fba_size_blocks := KERNEL_FBA_SIZE_BLOCKS\<rparr>"
  by (rule fba_free_kernel_window_noop) simp_all

end
