(* ===== verification/Hash_Table.thy ===== *)
theory Hash_Table
  imports Anos_Prelude
begin

text \<open>
  The kernel's hash table, \<^verbatim>\<open>kernel/structs/hash.c\<close>: open addressing with linear probing from
  \<open>key mod capacity\<close>, key 0 for an empty slot, doubling when the load passes three quarters, and
  removal that rehashes the cluster after the freed slot. Every operation holds the table lock
  and is one step. The capacity is the length of the entry array. Allocation of the arrays is a
  boolean outcome. Values are pointers, and null is the answer for a missing key.
\<close>

section \<open>Data\<close>

record HashEntry =
  he_key :: u64
  he_data :: ptr

record HashTable =
  ht_size :: nat
  ht_entries :: "HashEntry list"

definition ENTRIES_PER_PAGE :: nat where
  "ENTRIES_PER_PAGE = 4096 div 16"

definition empty_entry :: HashEntry where
  "empty_entry = \<lparr>he_key = 0, he_data = NULL\<rparr>"

abbreviation key_at :: "HashEntry list \<Rightarrow> nat \<Rightarrow> u64" where
  "key_at es p \<equiv> he_key (es ! p)"

section \<open>Operations\<close>

text \<open>The positions the loops visit: \<open>(index + i) mod capacity\<close> for \<open>i\<close> from 0.\<close>

definition probe_seq :: "nat \<Rightarrow> u64 \<Rightarrow> nat list" where
  "probe_seq capacity key = map (\<lambda>i. (unat key mod capacity + i) mod capacity) [0..<capacity]"

text \<open>Put an entry in the first empty slot on its probe sequence; \<open>False\<close> when there is none.\<close>

fun place :: "HashEntry list \<Rightarrow> u64 \<Rightarrow> ptr \<Rightarrow> nat list \<Rightarrow> HashEntry list \<times> bool" where
  "place es key v [] = (es, False)"
| "place es key v (pos # ps) =
     (if key_at es pos = 0 then (es[pos := \<lparr>he_key = key, he_data = v\<rparr>], True) else place es key v ps)"

definition hash_table_resize :: "bool \<Rightarrow> HashTable \<Rightarrow> HashTable \<times> bool" where
  "hash_table_resize alloc_ok ht =
     (let current_pages = length (ht_entries ht) div ENTRIES_PER_PAGE;
          new_pages = current_pages * 2;
          new_capacity = new_pages * ENTRIES_PER_PAGE
      in if \<not> alloc_ok then (ht, False)
         else
           (ht\<lparr>ht_entries :=
              fold (\<lambda>e es. if he_key e \<noteq> 0 then fst (place es (he_key e) (he_data e) (probe_seq new_capacity (he_key e))) else es)
                (ht_entries ht) (replicate new_capacity empty_entry)\<rparr>, True))"

text \<open>\<^verbatim>\<open>hash_table_create\<close>: the outcomes of its three allocations; \<open>None\<close> is the null result.\<close>

definition hash_table_create :: "bool \<Rightarrow> bool \<Rightarrow> bool \<Rightarrow> nat \<Rightarrow> HashTable option" where
  "hash_table_create ht_ok entries_ok lock_ok num_pages =
     (if \<not> ht_ok then None
      else if \<not> entries_ok then None
      else if \<not> lock_ok then None
      else Some \<lparr>ht_size = 0, ht_entries = replicate (num_pages * ENTRIES_PER_PAGE) empty_entry\<rparr>)"

fun insert_loop :: "HashTable \<Rightarrow> u64 \<Rightarrow> ptr \<Rightarrow> nat list \<Rightarrow> HashTable \<times> bool" where
  "insert_loop ht key v [] = (ht, False)"
| "insert_loop ht key v (pos # ps) =
     (if key_at (ht_entries ht) pos = key then (ht, False)
      else if key_at (ht_entries ht) pos = 0 then
        (ht\<lparr>ht_entries := (ht_entries ht)[pos := \<lparr>he_key = key, he_data = v\<rparr>], ht_size := ht_size ht + 1\<rparr>, True)
      else insert_loop ht key v ps)"

definition hash_table_insert :: "bool \<Rightarrow> HashTable \<Rightarrow> u64 \<Rightarrow> ptr \<Rightarrow> HashTable \<times> bool" where
  "hash_table_insert alloc_ok ht key v =
     (let (ht, ok) = (if ht_size ht + 1 > 3 * length (ht_entries ht) div 4 then hash_table_resize alloc_ok ht
                      else (ht, True))
      in if \<not> ok then (ht, False)
         else insert_loop ht key v (probe_seq (length (ht_entries ht)) key))"

fun lookup_loop :: "HashEntry list \<Rightarrow> u64 \<Rightarrow> nat list \<Rightarrow> ptr" where
  "lookup_loop es key [] = NULL"
| "lookup_loop es key (pos # ps) =
     (if key_at es pos = 0 then NULL
      else if key_at es pos = key then he_data (es ! pos)
      else lookup_loop es key ps)"

definition hash_table_lookup :: "HashTable \<Rightarrow> u64 \<Rightarrow> ptr" where
  "hash_table_lookup ht key = lookup_loop (ht_entries ht) key (probe_seq (length (ht_entries ht)) key)"

text \<open>
  The cluster loop of removal: \<open>None\<close> when the fuel runs out before an empty slot is met.
  Each round takes the entry at \<open>j\<close> out and places it again.
\<close>

fun rehash_cluster :: "nat \<Rightarrow> HashTable \<Rightarrow> nat \<Rightarrow> HashTable option" where
  "rehash_cluster fuel ht j =
     (if key_at (ht_entries ht) j = 0 then Some ht
      else case fuel of
             0 \<Rightarrow> None
           | Suc fuel' \<Rightarrow>
               let es = ht_entries ht;
                   e = es ! j;
                   (es', placed) = place (es[j := empty_entry]) (he_key e) (he_data e) (probe_seq (length es) (he_key e))
               in rehash_cluster fuel'
                    (ht\<lparr>ht_entries := es', ht_size := ht_size ht - 1 + (if placed then 1 else 0)\<rparr>)
                    ((j + 1) mod length es))"

fun remove_loop :: "HashTable \<Rightarrow> u64 \<Rightarrow> nat list \<Rightarrow> (HashTable \<times> ptr) option" where
  "remove_loop ht key [] = Some (ht, NULL)"
| "remove_loop ht key (pos # ps) =
     (let es = ht_entries ht
      in if key_at es pos = 0 then Some (ht, NULL)
         else if key_at es pos = key then
           map_option (\<lambda>ht'. (ht', he_data (es ! pos)))
             (rehash_cluster (length es) (ht\<lparr>ht_entries := es[pos := empty_entry], ht_size := ht_size ht - 1\<rparr>)
                ((pos + 1) mod length es))
         else remove_loop ht key ps)"

definition hash_table_remove :: "HashTable \<Rightarrow> u64 \<Rightarrow> (HashTable \<times> ptr) option" where
  "hash_table_remove ht key = remove_loop ht key (probe_seq (length (ht_entries ht)) key)"

declare rehash_cluster.simps [simp del]

section \<open>Invariant and abstraction\<close>

text \<open>Every slot that a stored key's probe sequence visits before the key is in use.\<close>

definition probe_ok :: "HashEntry list \<Rightarrow> bool" where
  "probe_ok es \<longleftrightarrow> (\<forall>p < length es. key_at es p \<noteq> 0 \<longrightarrow>
     (\<forall>q \<in> set (takeWhile (\<lambda>x. x \<noteq> p) (probe_seq (length es) (key_at es p))). key_at es q \<noteq> 0))"

definition keys_distinct :: "HashEntry list \<Rightarrow> bool" where
  "keys_distinct es \<longleftrightarrow> (\<forall>p < length es. \<forall>q < length es. key_at es p = key_at es q \<and> key_at es p \<noteq> 0 \<longrightarrow> p = q)"

definition used :: "HashEntry list \<Rightarrow> nat" where
  "used es = length (filter (\<lambda>e. he_key e \<noteq> 0) es)"

definition ht_wf :: "HashTable \<Rightarrow> bool" where
  "ht_wf ht \<longleftrightarrow> (let es = ht_entries ht in
     probe_ok es \<and> keys_distinct es \<and> ht_size ht = used es \<and> used es \<le> 3 * length es div 4
     \<and> length es > 0 \<and> ENTRIES_PER_PAGE dvd length es)"

text \<open>The finite map a table stands for.\<close>

definition entries_map :: "HashEntry list \<Rightarrow> u64 \<Rightarrow> ptr option" where
  "entries_map es k = (if k = 0 then None else map_option he_data (find (\<lambda>e. he_key e = k) es))"

definition ht_map :: "HashTable \<Rightarrow> u64 \<Rightarrow> ptr option" where
  "ht_map ht = entries_map (ht_entries ht)"

section \<open>Library: entries as a map\<close>

lemma keys_distinctD:
  "keys_distinct es \<Longrightarrow> p < length es \<Longrightarrow> q < length es \<Longrightarrow> key_at es p = key_at es q \<Longrightarrow> key_at es p \<noteq> 0 \<Longrightarrow> p = q"
  by (simp add: keys_distinct_def)

lemma entries_map_Some:
  assumes "keys_distinct es"
  shows "entries_map es k = Some v \<longleftrightarrow> k \<noteq> 0 \<and> (\<exists>p < length es. key_at es p = k \<and> he_data (es ! p) = v)"
proof -
  have "find (\<lambda>e. he_key e = k) es = Some (es ! p)" if "p < length es" "key_at es p = k" "k \<noteq> 0" for p
  proof -
    have "\<forall>j < p. key_at es j \<noteq> k" using keys_distinctD [OF assms, of _ p] that by (metis less_trans nat_neq_iff)
    then show ?thesis using that by (auto simp: find_Some_iff intro!: exI [of _ p])
  qed
  then have "entries_map es k = Some (he_data (es ! p))" if "p < length es" "key_at es p = k" "k \<noteq> 0" for p
    using that by (simp add: entries_map_def)
  moreover have "k \<noteq> 0 \<and> (\<exists>p < length es. key_at es p = k \<and> he_data (es ! p) = v)" if "entries_map es k = Some v"
    using that by (auto simp: entries_map_def find_Some_iff split: if_splits)
  ultimately show ?thesis by blast
qed

lemma entries_map_None: "entries_map es k = None \<longleftrightarrow> k = 0 \<or> (\<forall>p < length es. key_at es p \<noteq> k)"
  by (auto simp: entries_map_def find_None_iff in_set_conv_nth)

lemma entries_map_eqI:
  assumes "keys_distinct es" "\<And>k v. k \<noteq> 0 \<Longrightarrow> m k = Some v \<longleftrightarrow> (\<exists>p < length es. key_at es p = k \<and> he_data (es ! p) = v)" "m 0 = None"
  shows "entries_map es = m"
proof (rule ext, rule option.expand)
  fix k
  show "(entries_map es k = None) = (m k = None)"
    using assms entries_map_Some [OF assms(1), of k] by (metis not_Some_eq)
  show "the (entries_map es k) = the (m k)" if "entries_map es k \<noteq> None" "m k \<noteq> None"
    using that assms entries_map_Some [OF assms(1), of k] by (metis option.collapse option.sel)
qed

lemma used_Nil [simp]: "used [] = 0" by (simp add: used_def)

lemma used_Cons [simp]: "used (e # es) = (if he_key e \<noteq> 0 then 1 else 0) + used es" by (simp add: used_def)

lemma used_update:
  "p < length es \<Longrightarrow> used (es[p := e]) + (if key_at es p \<noteq> 0 then 1 else 0) = used es + (if he_key e \<noteq> 0 then 1 else 0)"
proof (induction es arbitrary: p)
  case (Cons x es)
  then show ?case by (cases p) auto
qed simp

lemma used_full: "used es < length es \<Longrightarrow> \<exists>p < length es. key_at es p = 0"
proof (rule ccontr)
  assume "used es < length es" "\<not> (\<exists>p < length es. key_at es p = 0)"
  then have "filter (\<lambda>e. he_key e \<noteq> 0) es = es" by (auto simp: filter_id_conv in_set_conv_nth)
  then show False using \<open>used es < length es\<close> by (simp add: used_def)
qed

lemma used_replicate [simp]: "used (replicate n empty_entry) = 0"
  by (simp add: used_def empty_entry_def)

section \<open>Library: probe sequences\<close>

lemma probe_seq_length [simp]: "length (probe_seq c k) = c" by (simp add: probe_seq_def)

lemma probe_seq_nth [simp]: "i < c \<Longrightarrow> probe_seq c k ! i = (unat k mod c + i) mod c"
  by (simp add: probe_seq_def)

lemma probe_seq_distinct: "distinct (probe_seq c k)"
proof -
  have "i = j" if "i < c" "j < c" "(unat k mod c + i) mod c = (unat k mod c + j) mod c" for i j
    using that nat_mod_shift_inj [of i c j "unat k mod c"] by blast
  then have "inj_on (\<lambda>i. (unat k mod c + i) mod c) {0..<c}" unfolding inj_on_def by (metis atLeastLessThan_iff)
  then show ?thesis by (simp only: probe_seq_def distinct_map set_upt distinct_upt)
qed

lemma probe_seq_set: "set (probe_seq c k) = {..<c}"
proof (rule card_subset_eq)
  show "set (probe_seq c k) \<subseteq> {..<c}" by (auto simp: probe_seq_def)
  show "card (set (probe_seq c k)) = card {..<c}"
    using distinct_card [OF probe_seq_distinct, of c k] by simp
qed simp

text \<open>The first empty slot on a list of positions that has one.\<close>

lemma first_empty:
  assumes "\<exists>p \<in> set ps. key_at es p = 0"
  obtains xs q ys where "ps = xs @ q # ys" "key_at es q = 0" "\<forall>x \<in> set xs. key_at es x \<noteq> 0"
  using split_list_first_prop [of ps "\<lambda>p. key_at es p = 0"] assms by blast

lemma place_first: "key_at es q = 0 \<Longrightarrow> \<forall>x \<in> set xs. key_at es x \<noteq> 0
   \<Longrightarrow> place es k v (xs @ q # ys) = (es[q := \<lparr>he_key = k, he_data = v\<rparr>], True)"
  by (induction xs) auto

lemma insert_loop_first: "key_at (ht_entries ht) q = 0 \<Longrightarrow> k \<noteq> 0 \<Longrightarrow> \<forall>x \<in> set xs. key_at (ht_entries ht) x \<noteq> 0 \<and> key_at (ht_entries ht) x \<noteq> k
   \<Longrightarrow> insert_loop ht k v (xs @ q # ys) =
     (ht\<lparr>ht_entries := (ht_entries ht)[q := \<lparr>he_key = k, he_data = v\<rparr>], ht_size := ht_size ht + 1\<rparr>, True)"
  by (induction xs) auto

lemma insert_loop_dup: "key_at (ht_entries ht) q = k \<Longrightarrow> \<forall>x \<in> set xs. key_at (ht_entries ht) x \<noteq> 0
   \<Longrightarrow> insert_loop ht k v (xs @ q # ys) = (ht, False)"
  by (induction xs) auto

lemma lookup_loop_found: "key_at es q = k \<Longrightarrow> k \<noteq> 0 \<Longrightarrow> \<forall>x \<in> set xs. key_at es x \<noteq> 0 \<and> key_at es x \<noteq> k
   \<Longrightarrow> lookup_loop es k (xs @ q # ys) = he_data (es ! q)"
  by (induction xs) auto

lemma lookup_loop_absent: "\<forall>x \<in> set ps. key_at es x \<noteq> k \<Longrightarrow> lookup_loop es k ps = NULL"
  by (induction ps) auto

lemma remove_loop_absent: "\<forall>x \<in> set ps. key_at (ht_entries ht) x \<noteq> k \<Longrightarrow> remove_loop ht k ps = Some (ht, NULL)"
  by (induction ps) (auto simp: Let_def)

lemma remove_loop_found: "key_at (ht_entries ht) q = k \<Longrightarrow> k \<noteq> 0
   \<Longrightarrow> \<forall>x \<in> set xs. key_at (ht_entries ht) x \<noteq> 0 \<and> key_at (ht_entries ht) x \<noteq> k
   \<Longrightarrow> remove_loop ht k (xs @ q # ys) = remove_loop ht k [q]"
  by (induction xs) (auto simp: Let_def)

text \<open>Where a stored key is, its probe sequence reaches it through used slots.\<close>

lemma probe_split:
  assumes "probe_ok es" "p < length es" "key_at es p = k" "k \<noteq> 0"
  obtains xs ys where "probe_seq (length es) k = xs @ p # ys" "\<forall>x \<in> set xs. key_at es x \<noteq> 0 \<and> x \<noteq> p"
proof -
  have "p \<in> set (probe_seq (length es) k)" using assms(2) by (simp add: probe_seq_set)
  then obtain xs ys where s: "probe_seq (length es) k = xs @ p # ys" "p \<notin> set xs" by (meson split_list_first)
  have "takeWhile (\<lambda>x. x \<noteq> p) (xs @ p # ys) = xs" using s(2) by (simp add: takeWhile_tail) (metis takeWhile_eq_all_conv)
  then have "\<forall>x \<in> set xs. key_at es x \<noteq> 0 \<and> x \<noteq> p" using assms s by (auto simp: probe_ok_def)
  then show ?thesis using that s by blast
qed

lemma probe_okI:
  assumes "\<And>p. p < length es \<Longrightarrow> key_at es p \<noteq> 0 \<Longrightarrow>
    \<exists>xs ys. probe_seq (length es) (key_at es p) = xs @ p # ys \<and> (\<forall>x \<in> set xs. key_at es x \<noteq> 0)"
  shows "probe_ok es"
  unfolding probe_ok_def
proof (intro allI impI ballI)
  fix p q assume p: "p < length es" "key_at es p \<noteq> 0"
    and q: "q \<in> set (takeWhile (\<lambda>x. x \<noteq> p) (probe_seq (length es) (key_at es p)))"
  from assms [OF p] obtain xs ys where s: "probe_seq (length es) (key_at es p) = xs @ p # ys" "\<forall>x \<in> set xs. key_at es x \<noteq> 0" by blast
  have "p \<notin> set xs" using probe_seq_distinct [of "length es" "key_at es p"] s(1) by auto
  then have "takeWhile (\<lambda>x. x \<noteq> p) (xs @ p # ys) = xs" by (simp add: takeWhile_tail) (metis takeWhile_eq_all_conv)
  then show "key_at es q \<noteq> 0" using q s by simp
qed

section \<open>Adding an entry\<close>

lemma put_map:
  fixes v :: ptr
  assumes ok: "keys_distinct es" and k: "k \<noteq> 0" "\<forall>p < length es. key_at es p \<noteq> k"
    and q: "q < length es" "key_at es q = 0"
  defines "es' \<equiv> es[q := \<lparr>he_key = k, he_data = v\<rparr>]"
  shows "keys_distinct es' \<and> used es' = used es + 1 \<and> entries_map es' = (entries_map es)(k \<mapsto> v)"
proof -
  have at: "key_at es' p = (if p = q then k else key_at es p)" if "p < length es" for p
    using q that by (simp add: es'_def nth_list_update)
  have len: "length es' = length es" by (simp add: es'_def)
  have kd: "keys_distinct es'"
    unfolding keys_distinct_def len using at k keys_distinctD [OF ok] by metis
  moreover have "used es' = used es + 1"
    using used_update [OF q(1), of "\<lparr>he_key = k, he_data = v\<rparr>"] q(2) k(1) by (simp add: es'_def)
  moreover have "entries_map es' = (entries_map es)(k \<mapsto> v)"
  proof (rule entries_map_eqI [OF kd])
    fix j :: u64 and w :: ptr assume j: "j \<noteq> 0"
    have "(\<exists>p < length es. key_at es' p = j \<and> he_data (es' ! p) = w) \<longleftrightarrow>
        (if j = k then w = v else \<exists>p < length es. key_at es p = j \<and> he_data (es ! p) = w)"
      using q k j by (auto simp: es'_def nth_list_update)
    then show "((entries_map es)(k \<mapsto> v)) j = Some w \<longleftrightarrow> (\<exists>p < length es'. key_at es' p = j \<and> he_data (es' ! p) = w)"
      using j by (auto simp: len entries_map_Some [OF ok])
  qed (use k in \<open>simp add: entries_map_None\<close>)
  ultimately show ?thesis by blast
qed

lemma put_ok:
  fixes v :: ptr
  assumes ok: "probe_ok es" "keys_distinct es" and k: "k \<noteq> 0" "\<forall>p < length es. key_at es p \<noteq> k"
    and seq: "probe_seq (length es) k = xs @ q # ys" "key_at es q = 0" "\<forall>x \<in> set xs. key_at es x \<noteq> 0"
  defines "es' \<equiv> es[q := \<lparr>he_key = k, he_data = v\<rparr>]"
  shows "probe_ok es' \<and> keys_distinct es' \<and> used es' = used es + 1 \<and> entries_map es' = (entries_map es)(k \<mapsto> v)"
proof -
  have q: "q < length es" using seq(1) probe_seq_set [of "length es" k] by auto
  have at: "key_at es' p = (if p = q then k else key_at es p)" if "p < length es" for p
    using q that by (simp add: es'_def nth_list_update)
  have len: "length es' = length es" by (simp add: es'_def)
  have mono: "key_at es' x \<noteq> 0" if "key_at es x \<noteq> 0" "x < length es" for x using at that k(1) by simp
  have inseq: "x < length es" if "x \<in> set zs" "probe_seq (length es) j = zs @ ws" for x zs ws j
    using that probe_seq_set [of "length es" j] by auto
  have "probe_ok es'"
  proof (rule probe_okI, unfold len)
    fix p assume p: "p < length es" "key_at es' p \<noteq> 0"
    show "\<exists>xs ys. probe_seq (length es) (key_at es' p) = xs @ p # ys \<and> (\<forall>x \<in> set xs. key_at es' x \<noteq> 0)"
    proof (cases "p = q")
      case True
      then show ?thesis using seq mono inseq [OF _ seq(1)] at [OF q] by auto
    next
      case False
      then obtain us ws where "probe_seq (length es) (key_at es p) = us @ p # ws" "\<forall>x \<in> set us. key_at es x \<noteq> 0 \<and> x \<noteq> p"
        using probe_split [OF ok(1) p(1) refl] p at by auto
      note split = this
      have "key_at es' x \<noteq> 0" if "x \<in> set us" for x using mono [of x] inseq [OF that split(1)] split(2) that by blast
      then show ?thesis using split(1) False at [OF p(1)] by (intro exI [of _ us] exI [of _ ws]) simp
    qed
  qed
  then show ?thesis using put_map [OF ok(2) k q seq(2), of v] by (simp add: es'_def)
qed

lemma empty_on_probe: "used es < length es \<Longrightarrow> \<exists>p \<in> set (probe_seq (length es) k). key_at es p = 0"
  using used_full by (auto simp: probe_seq_set)

lemma place_ok:
  assumes "probe_ok es" "keys_distinct es" "k \<noteq> 0" "\<forall>p < length es. key_at es p \<noteq> k" "used es < length es"
    and "place es k v (probe_seq (length es) k) = (es', b)"
  shows "probe_ok es' \<and> keys_distinct es' \<and> used es' = used es + 1 \<and> entries_map es' = (entries_map es)(k \<mapsto> v)
    \<and> length es' = length es \<and> b"
proof -
  obtain xs q ys where s: "probe_seq (length es) k = xs @ q # ys" "key_at es q = 0" "\<forall>x \<in> set xs. key_at es x \<noteq> 0"
    using first_empty [OF empty_on_probe [OF assms(5)]] by blast
  then show ?thesis using put_ok [OF assms(1-4) s, of v] place_first [OF s(2,3)] assms(6) by auto
qed

section \<open>Resizing\<close>

lemma keys_distinct_Cons: "keys_distinct (e # es) \<Longrightarrow> keys_distinct es"
  unfolding keys_distinct_def by (metis Suc_less_eq length_Cons nat.inject nth_Cons_Suc)

lemma entries_map_Cons:
  assumes "keys_distinct (e # es)"
  shows "entries_map (e # es) = (if he_key e = 0 then entries_map es else (entries_map es)(he_key e \<mapsto> he_data e))"
  by (auto simp: entries_map_def fun_eq_iff)

lemma keys_distinct_head:
  assumes "keys_distinct (e # es)" "he_key e \<noteq> 0" shows "entries_map es (he_key e) = None"
proof -
  have "key_at es p \<noteq> he_key e" if "p < length es" for p
    using keys_distinctD [OF assms(1), of 0 "Suc p"] assms(2) that by auto
  then show ?thesis by (simp add: entries_map_None)
qed

abbreviation rehash_into :: "HashEntry list \<Rightarrow> HashEntry list \<Rightarrow> HashEntry list" where
  "rehash_into old es \<equiv> fold (\<lambda>e es. if he_key e \<noteq> 0 then fst (place es (he_key e) (he_data e) (probe_seq (length es) (he_key e))) else es) old es"

lemma rehash_into_ok:
  assumes "probe_ok es" "keys_distinct es" "keys_distinct old" "used old + used es < length es"
    and "\<forall>k. k \<noteq> 0 \<and> entries_map old k \<noteq> None \<longrightarrow> entries_map es k = None"
  shows "probe_ok (rehash_into old es) \<and> keys_distinct (rehash_into old es)
    \<and> used (rehash_into old es) = used old + used es \<and> length (rehash_into old es) = length es
    \<and> entries_map (rehash_into old es) = entries_map es ++ entries_map old"
  using assms
proof (induction old arbitrary: es)
  case Nil
  have "entries_map [] = Map.empty" by (auto simp: entries_map_def)
  then show ?case using Nil by simp
next
  case (Cons e old)
  have kd: "keys_distinct old" using Cons.prems(3) by (rule keys_distinct_Cons)
  show ?case
  proof (cases "he_key e = 0")
    case True
    then show ?thesis using Cons.IH [OF Cons.prems(1,2) kd] Cons.prems entries_map_Cons [OF Cons.prems(3)] by simp
  next
    case False
    obtain es' b where pl: "place es (he_key e) (he_data e) (probe_seq (length es) (he_key e)) = (es', b)"
      by (cases "place es (he_key e) (he_data e) (probe_seq (length es) (he_key e))")
    have "entries_map es (he_key e) = None"
      using Cons.prems(5) False entries_map_Cons [OF Cons.prems(3)] by simp
    then have fresh: "\<forall>p < length es. key_at es p \<noteq> he_key e" using False by (simp add: entries_map_None)
    have p: "probe_ok es'" "keys_distinct es'" "used es' = used es + 1" "entries_map es' = (entries_map es)(he_key e \<mapsto> he_data e)"
      "length es' = length es"
      using place_ok [OF Cons.prems(1,2) False fresh _ pl] Cons.prems(4) False by auto
    have step: "rehash_into (e # old) es = rehash_into old es'" using False pl by simp
    have none: "entries_map old (he_key e) = None" by (rule keys_distinct_head [OF Cons.prems(3) False])
    have "\<forall>k. k \<noteq> 0 \<and> entries_map old k \<noteq> None \<longrightarrow> entries_map es' k = None"
      using Cons.prems(5) none p(4) entries_map_Cons [OF Cons.prems(3)] False by auto
    from Cons.IH [OF p(1,2) kd _ this] show ?thesis
      using Cons.prems(4) False p(3,4,5) none entries_map_Cons [OF Cons.prems(3)] unfolding step
      by (auto simp: map_add_def fun_eq_iff split: option.splits)
  qed
qed


lemma place_length: "length (fst (place es k v ps)) = length es"
  by (induction ps) auto

lemma rehash_const: "length es = c \<Longrightarrow>
   fold (\<lambda>e es. if he_key e \<noteq> 0 then fst (place es (he_key e) (he_data e) (probe_seq c (he_key e))) else es) old es
   = rehash_into old es"
  by (induction old arbitrary: es) (auto simp: place_length)

lemma probe_ok_empty: "probe_ok (replicate n empty_entry)" "keys_distinct (replicate n empty_entry)"
    "entries_map (replicate n empty_entry) = Map.empty"
  by (auto simp: probe_ok_def keys_distinct_def empty_entry_def entries_map_def fun_eq_iff find_None_iff)

lemma resize_ok:
  assumes "ht_wf ht" "hash_table_resize ok ht = (ht', b)"
  shows "b = ok \<and> (ok \<longrightarrow> ht_wf ht' \<and> ht_map ht' = ht_map ht \<and> ht_size ht' = ht_size ht
           \<and> length (ht_entries ht') = 2 * length (ht_entries ht)) \<and> (\<not> ok \<longrightarrow> ht' = ht)"
proof (cases ok)
  case False
  then show ?thesis using assms(2) by (simp add: hash_table_resize_def Let_def)
next
  case True
  let ?es = "ht_entries ht"
  have w: "probe_ok ?es" "keys_distinct ?es" "ht_size ht = used ?es" "used ?es \<le> 3 * length ?es div 4"
    "0 < length ?es" "ENTRIES_PER_PAGE dvd length ?es" using assms(1) by (auto simp: ht_wf_def Let_def)
  have c: "length ?es div ENTRIES_PER_PAGE * 2 * ENTRIES_PER_PAGE = 2 * length ?es" using w(6) by auto
  define es' where "es' = rehash_into ?es (replicate (2 * length ?es) empty_entry)"
  have ht': "ht' = ht\<lparr>ht_entries := es'\<rparr>" "b"
    using assms(2) True by (simp_all add: hash_table_resize_def Let_def c rehash_const es'_def)
  have bound: "used ?es + 0 < 2 * length ?es" using w(4,5) by linarith
  have r: "probe_ok es'" "keys_distinct es'" "used es' = used ?es" "length es' = 2 * length ?es" "entries_map es' = entries_map ?es"
    using rehash_into_ok [of "replicate (2 * length ?es) empty_entry" ?es] probe_ok_empty w(2) bound
    by (auto simp: es'_def)
  have "ht_wf ht'" using r w by (auto simp: ht_wf_def ht' Let_def)
  then show ?thesis using True ht' r by (simp add: ht_map_def)
qed

section \<open>Insertion and lookup\<close>

lemma insert_ok:
  assumes "ht_wf ht" "k \<noteq> 0" "hash_table_insert ok ht k v = (ht', b)"
  shows "ht_wf ht' \<and> (b \<longrightarrow> ht_map ht k = None \<and> ht_map ht' = (ht_map ht)(k \<mapsto> v)) \<and> (\<not> b \<longrightarrow> ht_map ht' = ht_map ht)
    \<and> (ok \<longrightarrow> b = (ht_map ht k = None))"
proof -
  define r where "r = (if ht_size ht + 1 > 3 * length (ht_entries ht) div 4 then hash_table_resize ok ht else (ht, True))"
  obtain h o1 where r': "r = (h, o1)" by (cases r)
  have ins0: "hash_table_insert ok ht k v = (if \<not> o1 then (h, False) else insert_loop h k v (probe_seq (length (ht_entries h)) k))"
    unfolding hash_table_insert_def r_def [symmetric] r' Let_def by simp
  have sz: "ht_size ht \<le> 3 * length (ht_entries ht) div 4" "2 \<le> length (ht_entries ht)"
    using assms(1) dvd_imp_le [of ENTRIES_PER_PAGE "length (ht_entries ht)"]
    by (auto simp: ht_wf_def Let_def ENTRIES_PER_PAGE_def)
  have h: "ht_wf h" "ht_map h = ht_map ht" "o1 \<Longrightarrow> ht_size h + 1 \<le> 3 * length (ht_entries h) div 4" "ok \<Longrightarrow> o1"
  proof -
    consider (same) "r = (ht, True)" "ht_size ht + 1 \<le> 3 * length (ht_entries ht) div 4"
      | (grow) "hash_table_resize ok ht = (h, o1)" using r' by (auto simp: r_def split: if_splits)
    then have "ht_wf h \<and> ht_map h = ht_map ht \<and> (o1 \<longrightarrow> ht_size h + 1 \<le> 3 * length (ht_entries h) div 4) \<and> (ok \<longrightarrow> o1)"
    proof cases
      case grow
      have "ht_size ht + 1 \<le> 3 * (2 * length (ht_entries ht)) div 4"
        using sz by (simp add: less_eq_div_iff_mult_less_eq)
      then show ?thesis using resize_ok [OF assms(1) grow] assms(1) by (cases ok) simp_all
    qed (use r' assms(1) in auto)
    then show "ht_wf h" "ht_map h = ht_map ht" "o1 \<Longrightarrow> ht_size h + 1 \<le> 3 * length (ht_entries h) div 4" "ok \<Longrightarrow> o1"
      by blast+
  qed
  show ?thesis
  proof (cases o1)
    case False
    then have "ht' = h" "\<not> b" using assms(3) ins0 by auto
    then show ?thesis using h False by auto
  next
    case True
    let ?es = "ht_entries h"
    have w: "probe_ok ?es" "keys_distinct ?es" "ht_size h = used ?es" "used ?es + 1 \<le> 3 * length ?es div 4"
      "0 < length ?es" "ENTRIES_PER_PAGE dvd length ?es" using h(1,3) True by (auto simp: ht_wf_def Let_def)
    have ins: "insert_loop h k v (probe_seq (length ?es) k) = (ht', b)"
      using assms(3) True ins0 by simp
    show ?thesis
    proof (cases "ht_map h k")
      case (Some x)
      then obtain p where p: "p < length ?es" "key_at ?es p = k"
        using entries_map_Some [OF w(2)] by (auto simp: ht_map_def)
      obtain xs ys where "probe_seq (length ?es) k = xs @ p # ys" "\<forall>x \<in> set xs. key_at ?es x \<noteq> 0 \<and> x \<noteq> p"
        using probe_split [OF w(1) p assms(2)] by blast
      then have "ht' = h" "\<not> b" using ins insert_loop_dup [of h p k xs v ys] p by auto
      then show ?thesis using h Some by auto
    next
      case None
      then have fresh: "\<forall>p < length ?es. key_at ?es p \<noteq> k" using assms(2) by (simp add: ht_map_def entries_map_None)
      have "used ?es < length ?es" using w(4,5) by linarith
      then obtain xs q ys where s: "probe_seq (length ?es) k = xs @ q # ys" "key_at ?es q = 0" "\<forall>x \<in> set xs. key_at ?es x \<noteq> 0"
        using first_empty [OF empty_on_probe] by blast
      have "\<forall>x \<in> set xs. x < length ?es" using s(1) probe_seq_set [of "length ?es" k] by auto
      then have e: "ht' = h\<lparr>ht_entries := ?es[q := \<lparr>he_key = k, he_data = v\<rparr>], ht_size := ht_size h + 1\<rparr>" "b"
        using ins insert_loop_first [OF s(2) assms(2), of xs v ys] s fresh by auto
      show ?thesis using put_ok [OF w(1,2) assms(2) fresh s, of v] w h None e
        by (auto simp: ht_wf_def ht_map_def Let_def)
    qed
  qed
qed

lemma lookup_ok:
  assumes "ht_wf ht"
  shows "hash_table_lookup ht k = (case ht_map ht k of None \<Rightarrow> NULL | Some v \<Rightarrow> v)"
proof -
  let ?es = "ht_entries ht"
  have w: "probe_ok ?es" "keys_distinct ?es" using assms by (auto simp: ht_wf_def Let_def)
  show ?thesis
  proof (cases "ht_map ht k")
    case None
    then consider "k = 0" | "\<forall>p < length ?es. key_at ?es p \<noteq> k" by (auto simp: ht_map_def entries_map_None)
    then have "lookup_loop ?es k (probe_seq (length ?es) k) = NULL"
    proof cases
      case 1
      have "lookup_loop ?es 0 ps = NULL" for ps by (induction ps) auto
      then show ?thesis using 1 by simp
    next
      case 2
      then show ?thesis by (intro lookup_loop_absent) (simp add: probe_seq_set)
    qed
    then show ?thesis using None by (simp add: hash_table_lookup_def)
  next
    case (Some v)
    then obtain p where p: "p < length ?es" "key_at ?es p = k" "he_data (?es ! p) = v" "k \<noteq> 0"
      using entries_map_Some [OF w(2)] by (auto simp: ht_map_def)
    obtain xs ys where s: "probe_seq (length ?es) k = xs @ p # ys" "\<forall>x \<in> set xs. key_at ?es x \<noteq> 0 \<and> x \<noteq> p"
      using probe_split [OF w(1) p(1,2,4)] by blast
    have "\<forall>x \<in> set xs. x < length ?es" using s(1) probe_seq_set [of "length ?es" k] by auto
    then have "\<forall>x \<in> set xs. key_at ?es x \<noteq> 0 \<and> key_at ?es x \<noteq> k"
      using s(2) p keys_distinctD [OF w(2)] by metis
    then show ?thesis using lookup_loop_found [OF p(2,4), of xs ys] s(1) p Some by (simp add: hash_table_lookup_def)
  qed
qed

section \<open>Removal\<close>

text \<open>
  Positions counted from just after an empty slot \<open>z\<close>: no probe path crosses \<open>z\<close>, so in these
  coordinates every path is an interval. \<open>slot c z x\<close> is the position of coordinate \<open>x\<close> and
  \<open>home c z k\<close> the coordinate where the probe sequence of \<open>k\<close> starts.
\<close>

definition slot :: "nat \<Rightarrow> nat \<Rightarrow> nat \<Rightarrow> nat" where
  "slot c z x = (z + 1 + x) mod c"

definition home :: "nat \<Rightarrow> nat \<Rightarrow> u64 \<Rightarrow> nat" where
  "home c z k = (unat k mod c + (c - 1 - z)) mod c"

lemma slot_less: "0 < c \<Longrightarrow> slot c z x < c" by (simp add: slot_def)

lemma home_less: "0 < c \<Longrightarrow> home c z k < c" by (simp add: home_def)

lemma slot_inj: "x < c \<Longrightarrow> y < c \<Longrightarrow> slot c z x = slot c z y \<longleftrightarrow> x = y"
  unfolding slot_def by (rule nat_mod_shift_inj)

lemma slot_last: "z < c \<Longrightarrow> slot c z (c - 1) = z" by (simp add: slot_def)

lemma slot_Suc: "(slot c z x + 1) mod c = slot c z (Suc x)" by (simp add: slot_def mod_simps)

lemma Suc_slot: "Suc (slot c z x) mod c = slot c z (Suc x)" using slot_Suc [of c z x] by simp

lemma slot_surj: "p < c \<Longrightarrow> z < c \<Longrightarrow> \<exists>x < c. p = slot c z x"
proof
  assume a: "p < c" "z < c"
  then have "z + 1 + (p + (c - 1 - z)) = p + c" by simp
  then have "(z + 1 + (p + (c - 1 - z)) mod c) mod c = p" using a by (metis mod_add_right_eq mod_add_self2 mod_less)
  then show "(p + (c - 1 - z)) mod c < c \<and> p = slot c z ((p + (c - 1 - z)) mod c)" using a by (simp add: slot_def)
qed

lemma probe_slot: "i < c \<Longrightarrow> z < c \<Longrightarrow> probe_seq c k ! i = slot c z (home c z k + i)"
proof -
  assume a: "i < c" "z < c"
  have "z + 1 + (unat k mod c + (c - 1 - z) + i) = unat k mod c + i + c" using a by simp
  then have "(z + 1 + ((unat k mod c + (c - 1 - z)) mod c + i)) mod c = (unat k mod c + i) mod c"
    by (metis (no_types, lifting) add.assoc mod_add_left_eq mod_add_right_eq mod_add_self2)
  then show ?thesis using a by (simp add: slot_def home_def)
qed

lemma probe_prefix:
  assumes "home c z k + d < c" "z < c"
  shows "\<exists>ys. probe_seq c k = map (\<lambda>i. slot c z (home c z k + i)) [0..<d] @ slot c z (home c z k + d) # ys"
proof -
  have d: "d < c" using assms(1) by simp
  have "take d (probe_seq c k) = map (\<lambda>i. slot c z (home c z k + i)) [0..<d]"
    using d by (intro nth_equalityI) (auto simp: probe_slot [OF _ assms(2)] simp del: probe_seq_nth)
  moreover have "probe_seq c k = take d (probe_seq c k) @ probe_seq c k ! d # drop (Suc d) (probe_seq c k)"
    using d by (intro id_take_nth_drop) simp
  ultimately show ?thesis using probe_slot [OF d assms(2)] by metis
qed

text \<open>Paths are intervals of used slots, except for keys at the coordinates in \<open>I\<close>.\<close>

definition lin_ok :: "HashEntry list \<Rightarrow> nat \<Rightarrow> nat set \<Rightarrow> bool" where
  "lin_ok es z I \<longleftrightarrow> (let c = length es in \<forall>x < c. key_at es (slot c z x) \<noteq> 0 \<and> x \<notin> I \<longrightarrow>
     home c z (key_at es (slot c z x)) \<le> x
     \<and> (\<forall>y. home c z (key_at es (slot c z x)) \<le> y \<and> y \<le> x \<longrightarrow> key_at es (slot c z y) \<noteq> 0))"

lemma lin_okD:
  assumes "lin_ok es z I" "x < length es" "key_at es (slot (length es) z x) = k" "k \<noteq> 0" "x \<notin> I"
  shows "home (length es) z k \<le> x"
    and "\<And>y. home (length es) z k \<le> y \<Longrightarrow> y \<le> x \<Longrightarrow> key_at es (slot (length es) z y) \<noteq> 0"
  using assms by (auto simp: lin_ok_def Let_def)

lemma probe_ok_lin:
  assumes "probe_ok es" "z < length es" "key_at es z = 0"
  shows "lin_ok es z {}"
  unfolding lin_ok_def Let_def
proof (intro allI impI, elim conjE)
  let ?c = "length es"
  fix x assume x: "x < ?c" "key_at es (slot ?c z x) \<noteq> 0"
  define k where "k = key_at es (slot ?c z x)"
  define h where "h = home ?c z k"
  have c: "0 < ?c" using x(1) by linarith
  have h: "h < ?c" unfolding h_def by (rule home_less [OF c])
  obtain xs ys where s: "probe_seq ?c k = xs @ slot ?c z x # ys" "\<forall>u \<in> set xs. key_at es u \<noteq> 0 \<and> u \<noteq> slot ?c z x"
    using probe_split [OF assms(1) slot_less [OF c]] x(2) k_def by metis
  have lxs: "length xs < ?c" using arg_cong [OF s(1), of length] by simp
  have nx: "slot ?c z (h + length xs) = slot ?c z x"
    using probe_slot [OF lxs assms(2), of k] s(1) by (simp add: h_def del: probe_seq_nth)
  have before: "key_at es (slot ?c z (h + i)) \<noteq> 0" if "i < length xs" for i
  proof -
    have "xs ! i = slot ?c z (h + i)"
      using probe_slot [of i ?c z k] that lxs assms(2) s(1) by (simp add: h_def nth_append del: probe_seq_nth)
    then show ?thesis using s(2) that by (metis nth_mem)
  qed
  have "h + length xs \<le> ?c - 1"
  proof (rule ccontr)
    assume "\<not> ?thesis"
    then have "?c - 1 - h < length xs" using h by linarith
    from before [OF this] show False using h assms(3) slot_last [OF assms(2)] by simp
  qed
  then have hx: "h + length xs = x" using nx slot_inj [of "h + length xs" ?c x z] x(1) c by simp
  show "home ?c z (key_at es (slot ?c z x)) \<le> x \<and>
    (\<forall>y. home ?c z (key_at es (slot ?c z x)) \<le> y \<and> y \<le> x \<longrightarrow> key_at es (slot ?c z y) \<noteq> 0)"
    unfolding k_def [symmetric] h_def [symmetric]
  proof (intro conjI allI impI)
    show "h \<le> x" using hx by simp
    fix y assume "h \<le> y \<and> y \<le> x"
    then show "key_at es (slot ?c z y) \<noteq> 0"
      using before [of "y - h"] hx x(2) by (cases "y = x") (auto simp: less_diff_conv2)
  qed
qed

lemma lin_probe_ok:
  assumes "lin_ok es z {}" "z < length es"
  shows "probe_ok es"
proof (rule probe_okI)
  let ?c = "length es"
  fix p assume p: "p < ?c" "key_at es p \<noteq> 0"
  obtain x where x: "x < ?c" "p = slot ?c z x" using slot_surj [OF p(1) assms(2)] by blast
  note l = lin_okD [OF assms(1) x(1) _ p(2)] 
  have h: "home ?c z (key_at es p) \<le> x" using l(1) x by simp
  obtain ys where "probe_seq ?c (key_at es p) =
      map (\<lambda>i. slot ?c z (home ?c z (key_at es p) + i)) [0..<x - home ?c z (key_at es p)] @ slot ?c z x # ys"
    using probe_prefix [of ?c z "key_at es p" "x - home ?c z (key_at es p)"] h x(1) assms(2) by auto
  moreover have "key_at es u \<noteq> 0"
    if "u \<in> set (map (\<lambda>i. slot ?c z (home ?c z (key_at es p) + i)) [0..<x - home ?c z (key_at es p)])" for u
    using that l(2) x by auto
  ultimately show "\<exists>xs ys. probe_seq ?c (key_at es p) = xs @ p # ys \<and> (\<forall>x \<in> set xs. key_at es x \<noteq> 0)"
    using x(2) by blast
qed


text \<open>Taking an entry out.\<close>

lemma clear_map:
  assumes "keys_distinct es" "p < length es" "key_at es p = k" "k \<noteq> 0"
  defines "es' \<equiv> es[p := empty_entry]"
  shows "keys_distinct es' \<and> used es = used es' + 1 \<and> entries_map es' = (entries_map es)(k := None)
    \<and> (\<forall>q < length es. key_at es' q \<noteq> k)"
proof -
  have at: "key_at es' q = (if q = p then 0 else key_at es q)" if "q < length es" for q
    using that assms(2) by (simp add: es'_def nth_list_update empty_entry_def)
  have len: "length es' = length es" by (simp add: es'_def)
  have kd: "keys_distinct es'" unfolding keys_distinct_def len using at keys_distinctD [OF assms(1)] by metis
  moreover have "used es = used es' + 1"
    using used_update [OF assms(2), of empty_entry] assms(3,4) by (simp add: es'_def empty_entry_def)
  moreover have gone: "\<forall>q < length es. key_at es' q \<noteq> k" using at assms(3,4) keys_distinctD [OF assms(1)] assms(2) by metis
  moreover have "entries_map es' = (entries_map es)(k := None)"
  proof (rule entries_map_eqI [OF kd])
    fix j :: u64 and w :: ptr assume j: "j \<noteq> 0"
    have "(\<exists>q < length es. key_at es' q = j \<and> he_data (es' ! q) = w) \<longleftrightarrow>
        j \<noteq> k \<and> (\<exists>q < length es. key_at es q = j \<and> he_data (es ! q) = w)"
    proof (cases "j = k")
      case True
      then show ?thesis using gone by auto
    next
      case False
      have "es' ! q = es ! q" if "q < length es" "q \<noteq> p" for q using that by (simp add: es'_def)
      then show ?thesis using False at assms(2,3) j by metis
    qed
    then show "((entries_map es)(k := None)) j = Some w \<longleftrightarrow> (\<exists>q < length es'. key_at es' q = j \<and> he_data (es' ! q) = w)"
      using j by (auto simp: len entries_map_Some [OF assms(1)])
  qed (simp add: entries_map_None assms(4))
  ultimately show ?thesis by blast
qed

lemma lin_mono: "lin_ok es z {} \<Longrightarrow> lin_ok es z I"
  by (auto simp: lin_ok_def Let_def)

text \<open>Clearing coordinate \<open>j\<close> just before the exempt interval hurts no key outside it.\<close>

lemma lin_clear:
  assumes z: "z < length es" and j: "j < e0" "e0 < length es"
    and empty: "key_at es (slot (length es) z e0) = 0" and lin: "lin_ok es z {j..<e0}"
  shows "lin_ok (es[slot (length es) z j := empty_entry]) z {Suc j..<e0}"
  unfolding lin_ok_def Let_def length_list_update
proof (intro allI impI, elim conjE)
  let ?c = "length es" and ?es1 = "es[slot (length es) z j := empty_entry]"
  fix x assume x: "x < ?c" "key_at ?es1 (slot ?c z x) \<noteq> 0" "x \<notin> {Suc j..<e0}"
  have c: "0 < ?c" using z by linarith
  have at1: "key_at ?es1 (slot ?c z y) = (if y = j then 0 else key_at es (slot ?c z y))" if "y < ?c" for y
    using that j slot_inj [of y ?c j z] slot_less [OF c, of z] by (auto simp: nth_list_update empty_entry_def)
  then have xk: "key_at es (slot ?c z x) \<noteq> 0" "x \<noteq> j" "key_at ?es1 (slot ?c z x) = key_at es (slot ?c z x)"
    using x by (auto split: if_splits)
  then have xj: "x \<notin> {j..<e0}" using x(3) by auto
  note l = lin_okD [OF lin x(1) refl xk(1) xj]
  have nj: "\<not> (home ?c z (key_at es (slot ?c z x)) \<le> j \<and> j \<le> x)"
    using l(2) [of e0] j empty xj by auto
  have "key_at ?es1 (slot ?c z y) \<noteq> 0" if "home ?c z (key_at es (slot ?c z x)) \<le> y" "y \<le> x" for y
    using l(2) [OF that] nj that at1 [of y] x(1) by (cases "y = j") auto
  then show "home ?c z (key_at ?es1 (slot ?c z x)) \<le> x \<and>
     (\<forall>y. home ?c z (key_at ?es1 (slot ?c z x)) \<le> y \<and> y \<le> x \<longrightarrow> key_at ?es1 (slot ?c z y) \<noteq> 0)"
    using l(1) xk(3) by simp
qed

lemma lin_put:
  fixes v :: ptr
  assumes z: "z < length es" and lin: "lin_ok es z I" and k: "k \<noteq> 0" and q: "home (length es) z k \<le> q" "q < length es"
    and before: "\<And>y. home (length es) z k \<le> y \<Longrightarrow> y < q \<Longrightarrow> key_at es (slot (length es) z y) \<noteq> 0"
  shows "lin_ok (es[slot (length es) z q := \<lparr>he_key = k, he_data = v\<rparr>]) z I"
  unfolding lin_ok_def Let_def length_list_update
proof (intro allI impI, elim conjE)
  let ?c = "length es" and ?es1 = "es[slot (length es) z q := \<lparr>he_key = k, he_data = v\<rparr>]"
  fix x assume x: "x < ?c" "key_at ?es1 (slot ?c z x) \<noteq> 0" "x \<notin> I"
  have c: "0 < ?c" using z by linarith
  have at1: "key_at ?es1 (slot ?c z y) = (if y = q then k else key_at es (slot ?c z y))" if "y < ?c" for y
    using that q slot_inj [of y ?c q z] slot_less [OF c, of z] by (auto simp: nth_list_update)
  show "home ?c z (key_at ?es1 (slot ?c z x)) \<le> x \<and>
     (\<forall>y. home ?c z (key_at ?es1 (slot ?c z x)) \<le> y \<and> y \<le> x \<longrightarrow> key_at ?es1 (slot ?c z y) \<noteq> 0)"
  proof (cases "x = q")
    case True
    then show ?thesis using at1 q before k by (auto simp: le_less)
  next
    case False
    then have xk: "key_at es (slot ?c z x) \<noteq> 0" "key_at ?es1 (slot ?c z x) = key_at es (slot ?c z x)"
      using at1 [OF x(1)] x(2) by auto
    note l = lin_okD [OF lin x(1) refl xk(1) x(3)]
    then show ?thesis using at1 x(1) k unfolding xk(2) by auto
  qed
qed

text \<open>One round of the cluster loop, in coordinates.\<close>

lemma rehash_step:
  assumes z: "z < length es" and j: "j < e0" "e0 < length es" and kd: "keys_distinct es"
    and empty: "key_at es (slot (length es) z e0) = 0"
    and lin: "lin_ok es z {j..<e0}"
    and todo: "\<forall>p \<in> {j..<e0}. key_at es (slot (length es) z p) \<noteq> 0 \<and> home (length es) z (key_at es (slot (length es) z p)) \<le> p"
  defines "s \<equiv> slot (length es) z j" and "k \<equiv> key_at es (slot (length es) z j)" and "v \<equiv> he_data (es ! slot (length es) z j)"
  obtains es' where "place (es[s := empty_entry]) k v (probe_seq (length es) k) = (es', True)"
    and "length es' = length es" "keys_distinct es'" "entries_map es' = entries_map es" "used es' = used es"
    and "key_at es' (slot (length es) z e0) = 0" "lin_ok es' z {Suc j..<e0}"
    and "\<forall>p \<in> {Suc j..<e0}. key_at es' (slot (length es) z p) \<noteq> 0 \<and> home (length es) z (key_at es' (slot (length es) z p)) \<le> p"
proof -
  let ?c = "length es"
  define es1 where "es1 = es[s := empty_entry]"
  define h where "h = home ?c z k"
  have k: "k \<noteq> 0" "h \<le> j" using todo j(1) by (auto simp: k_def h_def)
  have c: "0 < ?c" using z by linarith
  have s: "s < ?c" unfolding s_def by (rule slot_less [OF c])
  have at1: "key_at es1 (slot ?c z x) = (if x = j then 0 else key_at es (slot ?c z x))" if "x < ?c" for x
    using that j s slot_inj [of x ?c j z] slot_less [OF c, of z x]
    by (auto simp: es1_def s_def nth_list_update empty_entry_def)
  have "key_at es s = k" by (simp add: s_def k_def)
  note cl = clear_map [OF kd s this k(1), folded es1_def]
  define q where "q = (LEAST y. h \<le> y \<and> key_at es1 (slot ?c z y) = 0)"
  have "h \<le> j \<and> key_at es1 (slot ?c z j) = 0" using k(2) at1 [of j] j by simp
  then have q: "h \<le> q" "key_at es1 (slot ?c z q) = 0" "q \<le> j"
    unfolding q_def by (metis (mono_tags, lifting) LeastI, metis (mono_tags, lifting) LeastI, metis (mono_tags, lifting) Least_le)
  have before: "key_at es1 (slot ?c z y) \<noteq> 0" if "h \<le> y" "y < q" for y
    using that not_less_Least [of y "\<lambda>y. h \<le> y \<and> key_at es1 (slot ?c z y) = 0"] by (auto simp: q_def)
  have qc: "q < ?c" using q(3) j by linarith
  define es' where "es' = es1[slot ?c z q := \<lparr>he_key = k, he_data = v\<rparr>]"
  have len: "length es1 = ?c" "length es' = ?c" by (simp_all add: es1_def es'_def)
  obtain ys where pr: "probe_seq ?c k = map (\<lambda>i. slot ?c z (h + i)) [0..<q - h] @ slot ?c z q # ys"
    using probe_prefix [of ?c z k "q - h"] q(1) qc z by (auto simp: h_def)
  have pl: "place es1 k v (probe_seq ?c k) = (es', True)"
    unfolding pr es'_def using before q by (intro place_first) auto
  have sq: "slot ?c z q < length es1" using slot_less [OF c] len by simp
  have fresh: "\<forall>p < length es1. key_at es1 p \<noteq> k" using cl len by simp
  note put = put_map [OF conjunct1 [OF cl] k(1) fresh sq q(2), of v, folded es'_def]
  have at2: "key_at es' (slot ?c z x) = (if x = q then k else if x = j then 0 else key_at es (slot ?c z x))" if "x < ?c" for x
    using at1 [OF that] slot_inj [OF that qc, of z] slot_less [OF c, of z x] len that by (auto simp: es'_def nth_list_update)
  have Some: "entries_map es k = Some v"
    using entries_map_Some [OF kd, of k v] k(1) s by (auto simp: s_def k_def v_def)
  have "lin_ok es1 z {Suc j..<e0}" using lin_clear [OF z j empty lin] by (simp add: es1_def s_def)
  then have "lin_ok es' z {Suc j..<e0}"
    using lin_put [of z es1 "{Suc j..<e0}" k q v] z k(1) q(1) qc before len by (simp add: es'_def h_def)
  moreover have "\<forall>p \<in> {Suc j..<e0}. key_at es' (slot ?c z p) \<noteq> 0 \<and> home ?c z (key_at es' (slot ?c z p)) \<le> p"
    using todo at2 j q(3) by auto
  moreover have "key_at es' (slot ?c z e0) = 0" using at2 [OF j(2)] empty j(1) q(3) by auto
  moreover have "entries_map es' = entries_map es" using put cl Some by auto
  ultimately show thesis using that [OF pl [unfolded es1_def]] len put cl by auto
qed


lemma rehash_cluster_ok:
  assumes "z < length (ht_entries ht)" "j \<le> e0" "e0 < length (ht_entries ht)" "keys_distinct (ht_entries ht)"
    and "key_at (ht_entries ht) (slot (length (ht_entries ht)) z e0) = 0" "lin_ok (ht_entries ht) z {j..<e0}"
    and "\<forall>p \<in> {j..<e0}. key_at (ht_entries ht) (slot (length (ht_entries ht)) z p) \<noteq> 0
      \<and> home (length (ht_entries ht)) z (key_at (ht_entries ht) (slot (length (ht_entries ht)) z p)) \<le> p"
    and "ht_size ht = used (ht_entries ht)" "e0 - j \<le> fuel"
  shows "\<exists>ht'. rehash_cluster fuel ht (slot (length (ht_entries ht)) z j) = Some ht'
    \<and> lin_ok (ht_entries ht') z {} \<and> keys_distinct (ht_entries ht') \<and> entries_map (ht_entries ht') = entries_map (ht_entries ht)
    \<and> used (ht_entries ht') = used (ht_entries ht) \<and> length (ht_entries ht') = length (ht_entries ht) \<and> ht_size ht' = ht_size ht"
  using assms
proof (induction "e0 - j" arbitrary: j ht fuel)
  case 0
  then have "j = e0" by simp
  then show ?case using 0 by (subst rehash_cluster.simps) (simp add: rehash_cluster.simps)
next
  case (Suc d)
  let ?es = "ht_entries ht" and ?c = "length (ht_entries ht)"
  have j: "j < e0" using Suc.hyps(2) by simp
  obtain f' where fuel: "fuel = Suc f'" using Suc.prems(9) Suc.hyps(2) by (cases fuel) auto
  have nz: "key_at ?es (slot ?c z j) \<noteq> 0" using Suc.prems(7) j by simp
  obtain es' where es': "place (?es[slot ?c z j := empty_entry]) (key_at ?es (slot ?c z j)) (he_data (?es ! slot ?c z j))
        (probe_seq ?c (key_at ?es (slot ?c z j))) = (es', True)"
    "length es' = ?c" "keys_distinct es'" "entries_map es' = entries_map ?es" "used es' = used ?es"
    "key_at es' (slot ?c z e0) = 0" "lin_ok es' z {Suc j..<e0}"
    "\<forall>p \<in> {Suc j..<e0}. key_at es' (slot ?c z p) \<noteq> 0 \<and> home ?c z (key_at es' (slot ?c z p)) \<le> p"
    using rehash_step [OF Suc.prems(1) j Suc.prems(3-7)] by blast
  have "slot ?c z j < ?c" using slot_less [of ?c z j] Suc.prems(1) by linarith
  then have pos: "0 < used ?es" using nz clear_map [OF Suc.prems(4), of "slot ?c z j"] by force
  define ht1 where "ht1 = ht\<lparr>ht_entries := es', ht_size := ht_size ht - 1 + 1\<rparr>"
  have "rehash_cluster fuel ht (slot ?c z j) = rehash_cluster f' ht1 (slot ?c z (Suc j))"
    using nz es'(1) fuel by (subst rehash_cluster.simps) (simp add: Let_def Suc_slot ht1_def)
  moreover have "\<exists>ht'. rehash_cluster f' ht1 (slot (length (ht_entries ht1)) z (Suc j)) = Some ht'
    \<and> lin_ok (ht_entries ht') z {} \<and> keys_distinct (ht_entries ht') \<and> entries_map (ht_entries ht') = entries_map (ht_entries ht1)
    \<and> used (ht_entries ht') = used (ht_entries ht1) \<and> length (ht_entries ht') = length (ht_entries ht1) \<and> ht_size ht' = ht_size ht1"
    using Suc.hyps(2) Suc.prems es' pos fuel j by (intro Suc.hyps(1)) (auto simp: ht1_def)
  ultimately show ?case using es' pos Suc.prems(8) by (auto simp: ht1_def)
qed

lemma remove_ok:
  assumes "ht_wf ht"
  shows "\<exists>ht'. hash_table_remove ht k = Some (ht', hash_table_lookup ht k) \<and> ht_wf ht' \<and> ht_map ht' = (ht_map ht)(k := None)"
proof -
  let ?es = "ht_entries ht" and ?c = "length (ht_entries ht)"
  have w: "probe_ok ?es" "keys_distinct ?es" "ht_size ht = used ?es" "used ?es \<le> 3 * ?c div 4" "0 < ?c" "ENTRIES_PER_PAGE dvd ?c"
    using assms by (auto simp: ht_wf_def Let_def)
  show ?thesis
  proof (cases "ht_map ht k")
    case None
    then have "remove_loop ht k (probe_seq ?c k) = Some (ht, NULL)"
    proof (cases "k = 0")
      case True
      have "remove_loop ht 0 ps = Some (ht, NULL)" for ps by (induction ps) (auto simp: Let_def)
      then show ?thesis using True by simp
    next
      case False
      then show ?thesis using None by (intro remove_loop_absent) (simp add: probe_seq_set ht_map_def entries_map_None)
    qed
    then show ?thesis using None assms lookup_ok [OF assms, of k] by (simp add: hash_table_remove_def fun_upd_idem)
  next
    case (Some v)
    then obtain p where p: "p < ?c" "key_at ?es p = k" "he_data (?es ! p) = v" "k \<noteq> 0"
      using entries_map_Some [OF w(2)] by (auto simp: ht_map_def)
    obtain xs ys where s: "probe_seq ?c k = xs @ p # ys" "\<forall>x \<in> set xs. key_at ?es x \<noteq> 0 \<and> x \<noteq> p"
      using probe_split [OF w(1) p(1,2,4)] by blast
    have "\<forall>x \<in> set xs. x < ?c" using s(1) probe_seq_set [of ?c k] by auto
    then have "\<forall>x \<in> set xs. key_at ?es x \<noteq> 0 \<and> key_at ?es x \<noteq> k" using s(2) p keys_distinctD [OF w(2)] by metis
    then have rl: "hash_table_remove ht k = remove_loop ht k [p]"
      using remove_loop_found [OF p(2,4), of xs ys] s(1) by (simp add: hash_table_remove_def)
    define es1 where "es1 = ?es[p := empty_entry]"
    note cl = clear_map [OF w(2) p(1,2,4), folded es1_def]
    have len: "length es1 = ?c" by (simp add: es1_def)
    have "used ?es < ?c" using w(4,5) by linarith
    then obtain z where z: "z < ?c" "key_at ?es z = 0" using used_full [of ?es] by blast
    obtain x where x: "x < ?c" "p = slot ?c z x" using slot_surj [OF p(1) z(1)] by blast
    have lin: "lin_ok ?es z {}" by (rule probe_ok_lin [OF w(1) z])
    have at: "key_at es1 (slot ?c z y) = (if y = x then 0 else key_at ?es (slot ?c z y))" if "y < ?c" for y
      using that x slot_inj [of y ?c x z] slot_less [OF w(5), of z y] by (auto simp: es1_def nth_list_update empty_entry_def)
    have xl: "x < ?c - 1" using x z p slot_last [OF z(1)] by (metis One_nat_def Suc_pred less_antisym w(5))
    define e0 where "e0 = (LEAST y. x < y \<and> key_at ?es (slot ?c z y) = 0)"
    have "x < ?c - 1 \<and> key_at ?es (slot ?c z (?c - 1)) = 0" using xl slot_last [OF z(1)] z by simp
    then have e0: "x < e0" "key_at ?es (slot ?c z e0) = 0" "e0 \<le> ?c - 1"
      unfolding e0_def by (metis (mono_tags, lifting) LeastI, metis (mono_tags, lifting) LeastI, metis (mono_tags, lifting) Least_le)
    have mid: "key_at ?es (slot ?c z y) \<noteq> 0" if "x < y" "y < e0" for y
      using that not_less_Least [of y "\<lambda>y. x < y \<and> key_at ?es (slot ?c z y) = 0"] by (auto simp: e0_def)
    have e0c: "e0 < ?c" using e0(3) w(5) by linarith
    have l1: "lin_ok es1 z {Suc x..<e0}"
      using lin_clear [OF z(1) e0(1) e0c e0(2) lin_mono [OF lin]] x(2) by (simp add: es1_def)
    have l2: "\<forall>q \<in> {Suc x..<e0}. key_at es1 (slot ?c z q) \<noteq> 0 \<and> home ?c z (key_at es1 (slot ?c z q)) \<le> q"
      using mid at e0c lin_okD(1) [OF lin] by auto
    have fuel: "e0 - Suc x \<le> ?c" using e0c by linarith
    obtain ht' where ht': "rehash_cluster ?c (ht\<lparr>ht_entries := es1, ht_size := ht_size ht - 1\<rparr>) (slot ?c z (Suc x)) = Some ht'"
      "lin_ok (ht_entries ht') z {}" "keys_distinct (ht_entries ht')" "entries_map (ht_entries ht') = entries_map es1"
      "used (ht_entries ht') = used es1" "length (ht_entries ht') = ?c" "ht_size ht' = ht_size ht - 1"
      using rehash_cluster_ok [of z "ht\<lparr>ht_entries := es1, ht_size := ht_size ht - 1\<rparr>" "Suc x" e0 ?c] fuel z e0 e0c cl len at l1 l2 w(3)
      by auto
    have "hash_table_remove ht k = Some (ht', v)"
      unfolding rl using ht'(1) p slot_Suc [of ?c z x] x(2) by (simp add: es1_def Let_def)
    moreover have "ht_wf ht'"
      using lin_probe_ok [OF ht'(2)] z(1) ht' cl w by (auto simp: ht_wf_def Let_def)
    moreover have "ht_map ht' = (ht_map ht)(k := None)" using ht'(4) cl by (simp add: ht_map_def)
    ultimately show ?thesis using Some lookup_ok [OF assms, of k] by auto
  qed
qed

section \<open>The dictionary contract\<close>

text \<open>
  What the kernel's users of the table rely on, over the map it stands for: insertion adds a new
  key or reports failure and leaves the map alone, lookup and removal return the stored pointer
  or null, and removal deletes. The outcome of an allocation is an argument of insertion.
\<close>

locale dict =
  fixes wf :: "'t \<Rightarrow> bool" and abs :: "'t \<Rightarrow> u64 \<Rightarrow> ptr option"
    and lookup :: "'t \<Rightarrow> u64 \<Rightarrow> ptr" and ins :: "bool \<Rightarrow> 't \<Rightarrow> u64 \<Rightarrow> ptr \<Rightarrow> 't \<times> bool"
    and del :: "'t \<Rightarrow> u64 \<Rightarrow> ('t \<times> ptr) option"
  assumes lookup_abs: "wf t \<Longrightarrow> lookup t k = (case abs t k of None \<Rightarrow> NULL | Some v \<Rightarrow> v)"
    and ins_abs: "wf t \<Longrightarrow> k \<noteq> 0 \<Longrightarrow> ins ok t k v = (t', b) \<Longrightarrow> wf t' \<and> (b \<longrightarrow> abs t k = None \<and> abs t' = (abs t)(k \<mapsto> v))
      \<and> (\<not> b \<longrightarrow> abs t' = abs t) \<and> (ok \<longrightarrow> b = (abs t k = None))"
    and del_abs: "wf t \<Longrightarrow> \<exists>t'. del t k = Some (t', lookup t k) \<and> wf t' \<and> abs t' = (abs t)(k := None)"
begin

lemma lookup_after_ins:
  assumes "wf t" "k \<noteq> 0" "ins ok t k v = (t', True)"
  shows "lookup t' j = (if j = k then v else lookup t j)"
  using ins_abs [OF assms] lookup_abs assms(1) by auto

lemma lookup_after_del:
  assumes "wf t" "del t k = Some (t', r)"
  shows "r = lookup t k \<and> lookup t' j = (if j = k then NULL else lookup t j)"
  using del_abs [OF assms(1), of k] lookup_abs assms by auto

lemma del_ins:
  assumes "wf t" "k \<noteq> 0" "ins ok t k v = (t', True)" "del t' k = Some (t'', r)"
  shows "r = v \<and> abs t'' = abs t"
  using ins_abs [OF assms(1-3)] del_abs [of t' k] lookup_abs [of t' k] assms(4) by (auto simp: fun_upd_idem)

end

interpretation ht: dict ht_wf ht_map hash_table_lookup hash_table_insert hash_table_remove
  by unfold_locales (fact lookup_ok, fact insert_ok, fact remove_ok)

lemma create_wf:
  assumes "hash_table_create a b c n = Some ht" "0 < n"
  shows "ht_wf ht \<and> ht_map ht = Map.empty"
proof -
  have "ht = \<lparr>ht_size = 0, ht_entries = replicate (n * ENTRIES_PER_PAGE) empty_entry\<rparr>"
    using assms(1) by (simp add: hash_table_create_def split: if_splits)
  then show ?thesis using assms(2) probe_ok_empty
    by (auto simp: ht_wf_def ht_map_def Let_def ENTRIES_PER_PAGE_def)
qed

section \<open>Properties\<close>

text \<open>C25: the table refines a finite map from non-zero keys to pointers. From a well-formed table,
  insertion of a non-zero key, with or without a resize, keeps the invariant, adds exactly the new
  binding when it reports success and changes no binding when it reports failure; a duplicate is
  refused, and when allocation succeeds every new key is accepted. Lookup agrees with the map.\<close>

theorem hash_table_insert_refines:
  assumes "ht_wf t" and "k \<noteq> 0" and "hash_table_insert ok t k v = (t', b)"
  shows "ht_wf t' \<and> ht_map t' = (if b then (ht_map t)(k \<mapsto> v) else ht_map t)
    \<and> (b \<longrightarrow> ht_map t k = None) \<and> (ok \<longrightarrow> b = (ht_map t k = None))
    \<and> hash_table_lookup t' j = (case ht_map t' j of None \<Rightarrow> NULL | Some w \<Rightarrow> w)"
  using ht.ins_abs [OF assms] ht.lookup_abs [of t' j] by auto

lemma one_page_wf: "ht_wf \<lparr>ht_size = 0, ht_entries = replicate 256 empty_entry\<rparr>"
  using create_wf [of True True True 1 "\<lparr>ht_size = 0, ht_entries = replicate 256 empty_entry\<rparr>"]
  by (simp add: hash_table_create_def ENTRIES_PER_PAGE_def)

lemma one_page_map: "ht_map \<lparr>ht_size = 0, ht_entries = replicate 256 empty_entry\<rparr> = Map.empty"
  using create_wf [of True True True 1 "\<lparr>ht_size = 0, ht_entries = replicate 256 empty_entry\<rparr>"]
  by (simp add: hash_table_create_def ENTRIES_PER_PAGE_def)

theorem hash_table_insert_refines_witness:
  "hash_table_lookup (fst (hash_table_insert True \<lparr>ht_size = 0, ht_entries = replicate 256 empty_entry\<rparr> 5 0x1000)) 5 = 0x1000"
proof -
  let ?t = "\<lparr>ht_size = 0, ht_entries = replicate 256 empty_entry\<rparr>"
  show ?thesis
    using hash_table_insert_refines [OF one_page_wf, of 5 True "0x1000" "fst (hash_table_insert True ?t 5 0x1000)"
        "snd (hash_table_insert True ?t 5 0x1000)" 5] one_page_map
    by (simp add: one_page_map)
qed

text \<open>Removal terminates with the stored pointer (null for a missing key), keeps the invariant
  after rehashing the cluster that followed the freed slot, and deletes exactly the key: every
  other key is still found.\<close>

theorem hash_table_remove_refines:
  assumes "ht_wf t"
  shows "\<exists>t'. hash_table_remove t k = Some (t', hash_table_lookup t k) \<and> ht_wf t'
    \<and> ht_map t' = (ht_map t)(k := None)
    \<and> (\<forall>j. hash_table_lookup t' j = (if j = k then NULL else hash_table_lookup t j))"
  using ht.del_abs [OF assms, of k] ht.lookup_after_del [OF assms] by blast

theorem hash_table_remove_refines_witness:
  "\<exists>t'. hash_table_remove \<lparr>ht_size = 0, ht_entries = replicate 256 empty_entry\<rparr> 7 = Some (t', 0) \<and> ht_wf t'"
  using hash_table_remove_refines [OF one_page_wf, of 7] ht.lookup_abs [OF one_page_wf, of 7] one_page_map by auto

end
