(* ===== verification/Vmalloc.thy ===== *)
theory Vmalloc
  imports Anos_Prelude
begin

text \<open>
  The allocator of kernel virtual address ranges, \<^verbatim>\<open>kernel/vmm/vmalloc_linkedlist.c\<close>: an
  address-ordered list of free ranges, best-fit allocation, and freeing with coalescing on both
  sides. The list is the list of its ranges. Unused \<^verbatim>\<open>Range\<close> structures are interchangeable, so
  the pool is their number. The lock is part of the state because one path leaves it held: an
  operation that finds it held spins forever, which is the result \<open>None\<close>. The once-guard of
  \<^verbatim>\<open>vmm_init\<close> is left out.
\<close>

section \<open>State\<close>

record Range =
  rn_start :: u64
  rn_size :: u64

record vmalloc_state =
  va_free :: "Range list"
  va_pool :: nat
  va_initialized :: bool
  va_locked :: bool

datatype vmm_result = VMM_SUCCESS | VMM_ERROR_NO_SPACE | VMM_ERROR_INVALID_PARAMS | VMM_ERROR_NOT_INITIALIZED
  | VMM_OUT_OF_BOUNDS

section \<open>Operations\<close>

definition align_up :: "u64 \<Rightarrow> u64" where
  "align_up addr = (addr + VM_PAGE_SIZE - 1) AND NOT (VM_PAGE_SIZE - 1)"

definition align_down :: "u64 \<Rightarrow> u64" where
  "align_down addr = addr AND NOT (VM_PAGE_SIZE - 1)"

text \<open>
  The pool has one structure of 24 bytes for each that fits in the metadata area. When none fits
  the code steps back before the area and writes there: \<open>VMM_OUT_OF_BOUNDS\<close>.
\<close>

definition vmm_init :: "vmalloc_state \<Rightarrow> u64 \<Rightarrow> u64 \<Rightarrow> u64 \<Rightarrow> u64 \<Rightarrow> vmalloc_state \<times> vmm_result" where
  "vmm_init st metadata_start metadata_size managed_start managed_size =
     (if metadata_start = NULL \<or> metadata_size = 0 \<or> managed_size = 0 then (st, VMM_ERROR_INVALID_PARAMS)
      else
        let aligned_start = align_up managed_start;
            aligned_end = align_down (managed_start + managed_size)
        in if aligned_end \<le> aligned_start then (st, VMM_ERROR_INVALID_PARAMS)
           else
             let pool = unat metadata_size div 24
             in if pool = 0 then (st, VMM_OUT_OF_BOUNDS)
                else (\<lparr>va_free = [\<lparr>rn_start = aligned_start, rn_size = aligned_end - aligned_start\<rparr>],
                       va_pool = pool - 1, va_initialized = True, va_locked = False\<rparr>, VMM_SUCCESS))"

text \<open>The search loop: \<open>i\<close> is the index of \<^verbatim>\<open>curr\<close>, the result the index of \<^verbatim>\<open>best_fit\<close>.\<close>

fun best_fit :: "u64 \<Rightarrow> nat \<Rightarrow> nat option \<Rightarrow> u64 \<Rightarrow> Range list \<Rightarrow> nat option" where
  "best_fit sz i best smallest_viable_size [] = best"
| "best_fit sz i best smallest_viable_size (cur # rest) =
     (if rn_size cur \<ge> sz \<and> rn_size cur < smallest_viable_size then
        if rn_size cur = sz then Some i
        else best_fit sz (i + 1) (Some i) (rn_size cur) rest
      else best_fit sz (i + 1) best smallest_viable_size rest)"

definition vmm_alloc_block :: "vmalloc_state \<Rightarrow> u64 \<Rightarrow> (vmalloc_state \<times> u64) option" where
  "vmm_alloc_block st num_pages =
     (if \<not> va_initialized st \<or> num_pages = 0 then Some (st, 0)
      else if va_locked st then None
      else
        let sz = num_pages * VM_PAGE_SIZE
        in case best_fit sz 0 None 0xFFFFFFFFFFFFFFFF (va_free st) of
             None \<Rightarrow> Some (st, 0)
           | Some i \<Rightarrow>
               let r = va_free st ! i
               in if rn_size r = sz then
                    Some (st\<lparr>va_free := take i (va_free st) @ drop (i + 1) (va_free st), va_pool := va_pool st + 1\<rparr>, rn_start r)
                  else
                    Some (st\<lparr>va_free := (va_free st)[i := r\<lparr>rn_start := rn_start r + sz, rn_size := rn_size r - sz\<rparr>]\<rparr>, rn_start r))"

text \<open>Coalescing after the insertion: with the range before, then with the range after. The
  first list is the part before the new range; the counts are freed structures.\<close>

definition coalesce_prev :: "Range list \<Rightarrow> Range \<Rightarrow> Range list \<times> Range \<times> nat" where
  "coalesce_prev before r =
     (if before \<noteq> [] \<and> rn_start (last before) + rn_size (last before) = rn_start r
      then (butlast before, (last before)\<lparr>rn_size := rn_size (last before) + rn_size r\<rparr>, 1)
      else (before, r, 0))"

fun coalesce_next :: "Range \<Rightarrow> Range list \<Rightarrow> Range list \<times> nat" where
  "coalesce_next r [] = ([r], 0)"
| "coalesce_next r (nxt # rest) =
     (if rn_start r + rn_size r = rn_start nxt then (r\<lparr>rn_size := rn_size r + rn_size nxt\<rparr> # rest, 1)
      else (r # nxt # rest, 0))"

definition vmm_free_block :: "vmalloc_state \<Rightarrow> u64 \<Rightarrow> u64 \<Rightarrow> (vmalloc_state \<times> vmm_result) option" where
  "vmm_free_block st address num_pages =
     (if \<not> va_initialized st then Some (st, VMM_ERROR_NOT_INITIALIZED)
      else if num_pages = 0 \<or> address AND (VM_PAGE_SIZE - 1) \<noteq> 0 then Some (st, VMM_ERROR_INVALID_PARAMS)
      else if va_locked st then None
      else if va_pool st = 0 then Some (st\<lparr>va_locked := True\<rparr>, VMM_ERROR_NO_SPACE)
      else
        let sz = num_pages * VM_PAGE_SIZE;
            before = takeWhile (\<lambda>r. rn_start r < address) (va_free st);
            after = dropWhile (\<lambda>r. rn_start r < address) (va_free st);
            (before, r, n1) = coalesce_prev before \<lparr>rn_start = address, rn_size = sz\<rparr>;
            (rest, n2) = coalesce_next r after
        in Some (st\<lparr>va_free := before @ rest, va_pool := va_pool st - 1 + n1 + n2\<rparr>, VMM_SUCCESS))"

section \<open>Invariant\<close>

text \<open>Page-aligned non-empty ranges below the top of the address space, in address order with
  a gap between any two (adjacent ranges are always coalesced).\<close>

definition range_wf :: "Range \<Rightarrow> bool" where
  "range_wf r \<longleftrightarrow> page_aligned (rn_start r) \<and> page_aligned (rn_size r) \<and> rn_size r \<noteq> 0
     \<and> unat (rn_start r) + unat (rn_size r) < 18446744073709551616"

definition rn_end :: "Range \<Rightarrow> nat" where
  "rn_end r = unat (rn_start r) + unat (rn_size r)"

definition va_wf :: "vmalloc_state \<Rightarrow> bool" where
  "va_wf st \<longleftrightarrow> va_initialized st \<and> \<not> va_locked st \<and> (\<forall>r \<in> set (va_free st). range_wf r)
     \<and> sorted_wrt (\<lambda>x y. rn_end x < unat (rn_start y)) (va_free st)"

text \<open>The free addresses.\<close>

definition range_addrs :: "Range \<Rightarrow> nat set" where
  "range_addrs r = {unat (rn_start r) ..< rn_end r}"

definition va_addrs :: "vmalloc_state \<Rightarrow> nat set" where
  "va_addrs st = (\<Union>r \<in> set (va_free st). range_addrs r)"

section \<open>Library: ranges\<close>

lemma mask_fff: "VM_PAGE_SIZE - 1 = 0xFFF" by (simp add: VM_PAGE_SIZE_def)

lemma page_aligned_add: "page_aligned a \<Longrightarrow> page_aligned b \<Longrightarrow> unat a + unat b < 18446744073709551616 \<Longrightarrow> page_aligned (a + b)"
  by (simp add: page_aligned_iff unat_add_u64 mod_add_eq [symmetric])

lemma page_aligned_sub: "page_aligned a \<Longrightarrow> page_aligned b \<Longrightarrow> unat b \<le> unat a \<Longrightarrow> page_aligned (a - b)"
  by (auto simp: page_aligned_iff unat_sub_u64 mod_eq_0_iff_dvd intro: dvd_diff_nat)

lemma pages_size:
  assumes "unat n * 4096 < 18446744073709551616" "n \<noteq> (0 :: u64)"
  shows "unat (n * VM_PAGE_SIZE) = unat n * 4096" "page_aligned (n * VM_PAGE_SIZE)" "n * VM_PAGE_SIZE \<noteq> 0"
proof -
  show u: "unat (n * VM_PAGE_SIZE) = unat n * 4096" using assms(1) by (subst unat_mult_u64) auto
  show "page_aligned (n * VM_PAGE_SIZE)" by (simp add: page_aligned_iff u)
  show "n * VM_PAGE_SIZE \<noteq> 0" using u assms(2) by (auto simp: u64_eq_iff)
qed

text \<open>The search finds a range of the least sufficient size.\<close>

lemma best_fit_spec:
  obtains (keep) "best_fit sz i b sm rs = b" "\<forall>r \<in> set rs. rn_size r < sz \<or> sm \<le> rn_size r"
  | (found) j where "j < length rs" "best_fit sz i b sm rs = Some (i + j)" "sz \<le> rn_size (rs ! j)" "rn_size (rs ! j) < sm"
      "\<forall>r \<in> set rs. rn_size r < sz \<or> rn_size (rs ! j) \<le> rn_size r"
proof (induction rs arbitrary: i b sm thesis)
  case Nil
  then show ?case by simp
next
  case (Cons r rs)
  show ?case
  proof (cases "rn_size r \<ge> sz \<and> rn_size r < sm")
    case False
    then have step: "best_fit sz i b sm (r # rs) = best_fit sz (i + 1) b sm rs" by auto
    show ?thesis
    proof (rule Cons.IH [where i = "i + 1" and b = b and sm = sm])
      assume "best_fit sz (i + 1) b sm rs = b" "\<forall>r \<in> set rs. rn_size r < sz \<or> sm \<le> rn_size r"
      then show ?thesis using Cons.prems(1) step False by (auto simp: not_le not_less)
    next
      fix j assume j: "j < length rs" "best_fit sz (i + 1) b sm rs = Some (i + 1 + j)" "sz \<le> rn_size (rs ! j)"
        "rn_size (rs ! j) < sm" "\<forall>r \<in> set rs. rn_size r < sz \<or> rn_size (rs ! j) \<le> rn_size r"
      have "rn_size r < sz \<or> rn_size (rs ! j) \<le> rn_size r" using False j(4) by (meson not_le less_imp_le less_le_trans)
      then show ?thesis using Cons.prems(2) [of "Suc j"] step j by auto
    qed
  next
    case True
    show ?thesis
    proof (cases "rn_size r = sz")
      case eq: True
      have "\<forall>x \<in> set (r # rs). rn_size x < sz \<or> rn_size r \<le> rn_size x" using eq by (auto simp: not_less [symmetric])
      then show ?thesis using True eq Cons.prems(2) [of 0] by simp
    next
      case False
      then have step: "best_fit sz i b sm (r # rs) = best_fit sz (i + 1) (Some i) (rn_size r) rs" using True by auto
      show ?thesis
      proof (rule Cons.IH [where i = "i + 1" and b = "Some i" and sm = "rn_size r"])
        assume "best_fit sz (i + 1) (Some i) (rn_size r) rs = Some i" "\<forall>x \<in> set rs. rn_size x < sz \<or> rn_size r \<le> rn_size x"
        then show ?thesis using Cons.prems(2) [of 0] step True by simp
      next
        fix j assume "j < length rs" "best_fit sz (i + 1) (Some i) (rn_size r) rs = Some (i + 1 + j)" "sz \<le> rn_size (rs ! j)"
          "rn_size (rs ! j) < rn_size r" "\<forall>r \<in> set rs. rn_size r < sz \<or> rn_size (rs ! j) \<le> rn_size r"
        moreover then have "rn_size (rs ! j) < sm" using True by (meson less_trans)
        ultimately show ?thesis using Cons.prems(2) [of "Suc j"] step by (simp add: less_imp_le)
      qed
    qed
  qed
qed

lemma range_wf_bound: "range_wf r \<Longrightarrow> unat (rn_size r) < 18446744073709551615"
proof -
  assume r: "range_wf r"
  have "unat (rn_size r) mod 4096 = 0" using r by (simp add: range_wf_def page_aligned_iff)
  then have "unat (rn_size r) \<noteq> 18446744073709551615" by (intro notI) simp
  then show ?thesis using u64_less [of "rn_size r"] by linarith
qed

lemma va_addrs_split: "va_free st = xs @ r # ys \<Longrightarrow>
   va_addrs st = (\<Union>x \<in> set xs. range_addrs x) \<union> range_addrs r \<union> (\<Union>x \<in> set ys. range_addrs x)"
  by (auto simp: va_addrs_def)

lemma sorted_disjoint:
  assumes "sorted_wrt (\<lambda>x y. rn_end x < unat (rn_start y)) (xs @ r # ys)"
  shows "x \<in> set xs \<union> set ys \<Longrightarrow> range_addrs x \<inter> range_addrs r = {}"
  using assms by (fastforce simp: sorted_wrt_append range_addrs_def)

text \<open>Replacing one range of the list by what is left of it.\<close>

lemma va_shrink:
  assumes w: "\<forall>x \<in> set (xs @ r # ys). range_wf x" "sorted_wrt (\<lambda>x y. rn_end x < unat (rn_start y)) (xs @ r # ys)"
    and c: "\<forall>x \<in> set cs. range_wf x \<and> unat (rn_start r) \<le> unat (rn_start x) \<and> rn_end x \<le> rn_end r"
      "sorted_wrt (\<lambda>x y. rn_end x < unat (rn_start y)) cs"
    and g: "(\<Union>x \<in> set cs. range_addrs x) = range_addrs r - B" "B \<subseteq> range_addrs r"
  shows "(\<forall>x \<in> set (xs @ cs @ ys). range_wf x) \<and> sorted_wrt (\<lambda>x y. rn_end x < unat (rn_start y)) (xs @ cs @ ys)
    \<and> (\<Union>x \<in> set (xs @ cs @ ys). range_addrs x) = (\<Union>x \<in> set (xs @ r # ys). range_addrs x) - B"
proof -
  have "B \<inter> range_addrs x = {}" if "x \<in> set xs \<union> set ys" for x
    using sorted_disjoint [OF w(2) that] g(2) by blast
  then have "(\<Union>x \<in> set (xs @ cs @ ys). range_addrs x) = (\<Union>x \<in> set (xs @ r # ys). range_addrs x) - B"
    using g by auto
  moreover have "sorted_wrt (\<lambda>x y. rn_end x < unat (rn_start y)) (xs @ cs @ ys)"
    using w(2) c by (fastforce simp: sorted_wrt_append)
  ultimately show ?thesis using w(1) c(1) by auto
qed

lemma alloc_ok:
  assumes wf: "va_wf st" and n: "n \<noteq> 0" "unat n * 4096 < 18446744073709551616"
    and al: "vmm_alloc_block st n = Some (st', a)"
  shows "va_wf st' \<and> (if \<exists>r \<in> set (va_free st). n * VM_PAGE_SIZE \<le> rn_size r
     then page_aligned a \<and> {unat a ..< unat a + unat n * 4096} \<subseteq> va_addrs st
        \<and> va_addrs st' = va_addrs st - {unat a ..< unat a + unat n * 4096}
     else st' = st \<and> a = 0)"
proof -
  let ?sz = "n * VM_PAGE_SIZE" and ?fs = "va_free st"
  note sz = pages_size [OF n(2,1)]
  have w: "va_initialized st" "\<not> va_locked st" "\<forall>r \<in> set ?fs. range_wf r"
     "sorted_wrt (\<lambda>x y. rn_end x < unat (rn_start y)) ?fs" using wf by (auto simp: va_wf_def)
  have bnd: "rn_size r < 0xFFFFFFFFFFFFFFFF" if "r \<in> set ?fs" for r
    using w(3) range_wf_bound [of r] that by (simp add: word_less_nat_alt)
  show ?thesis
  proof (rule best_fit_spec [where sz = ?sz and i = 0 and b = None and sm = "0xFFFFFFFFFFFFFFFF" and rs = ?fs])
    assume none: "best_fit ?sz 0 None 0xFFFFFFFFFFFFFFFF ?fs = None" "\<forall>r \<in> set ?fs. rn_size r < ?sz \<or> 0xFFFFFFFFFFFFFFFF \<le> rn_size r"
    then have "st' = st \<and> a = 0" using al w n(1) by (simp add: vmm_alloc_block_def Let_def)
    moreover have "\<not> (\<exists>r \<in> set ?fs. ?sz \<le> rn_size r)" using none(2) bnd by (metis not_le)
    ultimately show ?thesis using wf by simp
  next
    fix j assume some: "j < length ?fs" "best_fit ?sz 0 None 0xFFFFFFFFFFFFFFFF ?fs = Some (0 + j)" "?sz \<le> rn_size (?fs ! j)"
    define r where "r = ?fs ! j"
    have split: "?fs = take j ?fs @ r # drop (j + 1) ?fs" using some(1) by (simp add: r_def id_take_nth_drop)
    have rw: "range_wf r" using w(3) some(1) by (simp add: r_def)
    have le: "unat n * 4096 \<le> unat (rn_size r)" using some(3) sz(1) by (simp add: word_le_nat_alt r_def)
    have a: "a = rn_start r" using al some w n(1) by (auto simp: vmm_alloc_block_def Let_def r_def split: if_splits)
    define B where "B = {unat a ..< unat a + unat n * 4096}"
    have blk: "B \<subseteq> range_addrs r" using le by (auto simp: B_def range_addrs_def rn_end_def a)
    define cs where "cs = (if rn_size r = ?sz then [] else [r\<lparr>rn_start := rn_start r + ?sz, rn_size := rn_size r - ?sz\<rparr>])"
    have st': "va_free st' = take j ?fs @ cs @ drop (j + 1) ?fs" "va_initialized st'" "\<not> va_locked st'"
      using al some w n(1) by (auto simp: vmm_alloc_block_def Let_def r_def cs_def upd_conv_take_nth_drop split: if_splits)
    have us: "unat (rn_start r + ?sz) = unat (rn_start r) + unat n * 4096" "unat (rn_size r - ?sz) = unat (rn_size r) - unat n * 4096"
      using rw le sz(1) by (auto simp: range_wf_def unat_add_u64 unat_sub_u64)
    have c: "\<forall>x \<in> set cs. range_wf x \<and> unat (rn_start r) \<le> unat (rn_start x) \<and> rn_end x \<le> rn_end r"
        "sorted_wrt (\<lambda>x y. rn_end x < unat (rn_start y)) cs" "(\<Union>x \<in> set cs. range_addrs x) = range_addrs r - B"
      using rw us le sz page_aligned_add [of "rn_start r" ?sz] page_aligned_sub [of "rn_size r" ?sz]
      by (auto simp: cs_def range_wf_def rn_end_def range_addrs_def B_def a u64_eq_iff)
    have ex: "\<exists>r \<in> set ?fs. ?sz \<le> rn_size r" using some nth_mem by blast
    have al': "page_aligned a" "B \<subseteq> va_addrs st"
      using rw blk some(1) nth_mem [OF some(1)] by (auto simp: a range_wf_def va_addrs_def simp flip: r_def)
    have "(\<forall>x \<in> set (va_free st'). range_wf x) \<and> sorted_wrt (\<lambda>x y. rn_end x < unat (rn_start y)) (va_free st')
       \<and> va_addrs st' = va_addrs st - B"
      using va_shrink [of "take j ?fs" r "drop (j + 1) ?fs" cs B] w(3,4) c blk
      unfolding va_addrs_def st'(1) split [symmetric] by blast
    then show ?thesis using ex al' st' by (simp add: va_wf_def B_def)
  qed
qed

section \<open>Library: freeing\<close>

abbreviation gap :: "Range \<Rightarrow> Range \<Rightarrow> bool" where
  "gap x y \<equiv> rn_end x < unat (rn_start y)"

lemma adj_iff:
  assumes "range_wf x" "unat (rn_start y) < 18446744073709551616"
  shows "rn_start x + rn_size x = rn_start y \<longleftrightarrow> rn_end x = unat (rn_start y)"
  using assms by (auto simp: range_wf_def rn_end_def u64_eq_iff unat_add_u64)

text \<open>Merging two ranges that touch.\<close>

lemma merge_wf:
  assumes "range_wf x" "range_wf y" "rn_end x = unat (rn_start y)"
  defines "m \<equiv> x\<lparr>rn_size := rn_size x + rn_size y\<rparr>"
  shows "range_wf m \<and> rn_end m = rn_end y \<and> unat (rn_start m) = unat (rn_start x) \<and> range_addrs m = range_addrs x \<union> range_addrs y"
proof -
  have u: "unat (rn_size x + rn_size y) = unat (rn_size x) + unat (rn_size y)"
    using assms by (intro unat_add_u64) (auto simp: range_wf_def rn_end_def)
  have "page_aligned (rn_size x + rn_size y)" using assms by (intro page_aligned_add) (auto simp: range_wf_def rn_end_def)
  then show ?thesis using assms u
    by (auto simp: m_def range_wf_def rn_end_def range_addrs_def u64_eq_iff)
qed

lemma coalesce_prev_ok:
  assumes w: "\<forall>x \<in> set before. range_wf x" "sorted_wrt gap before" "range_wf r"
    and le: "\<forall>x \<in> set before. rn_end x \<le> unat (rn_start r)"
    and c: "coalesce_prev before r = (before', r', n)"
  shows "(\<forall>x \<in> set before'. range_wf x \<and> gap x r') \<and> sorted_wrt gap before' \<and> range_wf r' \<and> rn_end r' = rn_end r
    \<and> (\<Union>x \<in> set before'. range_addrs x) \<union> range_addrs r' = (\<Union>x \<in> set before. range_addrs x) \<union> range_addrs r"
proof (cases "before = []")
  case True
  then show ?thesis using c w(3) by (auto simp: coalesce_prev_def)
next
  case False
  define xs l where "xs = butlast before" and "l = last before"
  have b: "before = xs @ [l]" using False by (simp add: xs_def l_def)
  have lw: "range_wf l" "\<forall>x \<in> set xs. range_wf x \<and> gap x l" "sorted_wrt gap xs" "rn_end l \<le> unat (rn_start r)"
    using w le unfolding b by (auto simp: sorted_wrt_append)
  have adj: "rn_start l + rn_size l = rn_start r \<longleftrightarrow> rn_end l = unat (rn_start r)" using adj_iff [OF lw(1)] by simp
  show ?thesis
  proof (cases "rn_end l = unat (rn_start r)")
    case True
    then have "before' = xs" "r' = l\<lparr>rn_size := rn_size l + rn_size r\<rparr>"
      using c adj False by (auto simp: coalesce_prev_def b)
    then show ?thesis using merge_wf [OF lw(1) w(3) True] lw by (auto simp: b)
  next
    case apart: False
    then have "before' = before" "r' = r" using c adj False by (auto simp: coalesce_prev_def b)
    moreover have "\<forall>x \<in> set before. gap x r" using lw apart le unfolding b by (auto simp: range_wf_def rn_end_def)
    ultimately show ?thesis using w by auto
  qed
qed

lemma coalesce_next_ok:
  assumes w: "\<forall>x \<in> set after. range_wf x" "sorted_wrt gap after" "range_wf r"
    and le: "\<forall>x \<in> set after. rn_end r \<le> unat (rn_start x)"
    and c: "coalesce_next r after = (rest, n)"
  shows "(\<forall>x \<in> set rest. range_wf x \<and> unat (rn_start r) \<le> unat (rn_start x)) \<and> sorted_wrt gap rest
    \<and> (\<Union>x \<in> set rest. range_addrs x) = range_addrs r \<union> (\<Union>x \<in> set after. range_addrs x)"
proof (cases after)
  case Nil
  then show ?thesis using c w(3) by auto
next
  case (Cons y ys)
  have yw: "range_wf y" "rn_end r \<le> unat (rn_start y)" "\<forall>x \<in> set ys. gap y x" "sorted_wrt gap ys" using w le Cons by auto
  have ylt: "unat (rn_start y) < rn_end y" using yw(1) by (auto simp: range_wf_def rn_end_def u64_eq_iff)
  have adj: "rn_start r + rn_size r = rn_start y \<longleftrightarrow> rn_end r = unat (rn_start y)" using adj_iff [OF w(3)] by simp
  have base: "\<forall>x \<in> set after. unat (rn_start r) \<le> unat (rn_start x)" using le by (auto simp: rn_end_def)
  show ?thesis
  proof (cases "rn_end r = unat (rn_start y)")
    case True
    then have "rest = r\<lparr>rn_size := rn_size r + rn_size y\<rparr> # ys" using c adj Cons by auto
    then show ?thesis using merge_wf [OF w(3) yw(1) True] yw w base Cons by auto
  next
    case apart: False
    then have "rest = r # after" using c adj Cons by auto
    moreover have "\<forall>x \<in> set after. gap r x" using apart yw ylt Cons by fastforce
    ultimately show ?thesis using w base by auto
  qed
qed

lemma free_ok:
  assumes wf: "va_wf st" and n: "n \<noteq> 0" and al: "page_aligned a" and top: "unat a + unat n * 4096 < 18446744073709551616"
    and free: "{unat a ..< unat a + unat n * 4096} \<inter> va_addrs st = {}" and pool: "va_pool st \<noteq> 0"
    and fr: "vmm_free_block st a n = Some (st', res)"
  shows "res = VMM_SUCCESS \<and> va_wf st' \<and> va_addrs st' = va_addrs st \<union> {unat a ..< unat a + unat n * 4096}"
proof -
  let ?fs = "va_free st" and ?r = "\<lparr>rn_start = a, rn_size = n * VM_PAGE_SIZE\<rparr>"
  have n4: "unat n * 4096 < 18446744073709551616" using top by simp
  note sz = pages_size [OF n4 n]
  have w: "va_initialized st" "\<not> va_locked st" "\<forall>r \<in> set ?fs. range_wf r" "sorted_wrt gap ?fs" using wf by (auto simp: va_wf_def)
  have rw: "range_wf ?r" "rn_end ?r = unat a + unat n * 4096" using al top sz by (auto simp: range_wf_def rn_end_def)
  define before after where "before = takeWhile (\<lambda>r. rn_start r < a) ?fs" and "after = dropWhile (\<lambda>r. rn_start r < a) ?fs"
  have fs: "?fs = before @ after" by (simp add: before_def after_def)
  have bw: "\<forall>x \<in> set before. range_wf x" "sorted_wrt gap before" "\<forall>x \<in> set after. range_wf x" "sorted_wrt gap after"
      "\<forall>x \<in> set before. \<forall>y \<in> set after. gap x y"
    using w(3,4) unfolding fs by (auto simp: sorted_wrt_append)
  have rr: "range_addrs ?r = {unat a ..< unat a + unat n * 4096}" using rw(2) by (simp add: range_addrs_def)
  have pos: "0 < unat n * 4096" using n by (simp add: unat_gt_0)
  have nin: "range_addrs x \<inter> range_addrs ?r = {}" if "x \<in> set before \<union> set after" for x
    unfolding rr using free that by (auto simp only: va_addrs_def fs set_append)
  have ne: "unat (rn_start x) < rn_end x" if "range_wf x" for x using that by (auto simp: range_wf_def rn_end_def u64_eq_iff)
  have lo: "\<forall>x \<in> set before. rn_end x \<le> unat (rn_start ?r)"
  proof
    fix x assume x: "x \<in> set before"
    then have "rn_start x < a" unfolding before_def by (rule set_takeWhileD [THEN conjunct2])
    then show "rn_end x \<le> unat (rn_start ?r)"
      using nin [of x] x pos unfolding rr by (auto simp: range_addrs_def word_less_nat_alt)
  qed
  have ge: "a \<le> rn_start x" if x: "x \<in> set after" for x
  proof -
    obtain y ys where ay: "after = y # ys" using x by (cases after) auto
    then have y: "\<not> rn_start y < a" unfolding after_def by (metis dropWhile_eq_Cons_conv)
    show ?thesis using x bw(3,4) ne [of y] y unfolding ay by (auto simp: word_less_nat_alt word_le_nat_alt)
  qed
  have hi: "\<forall>x \<in> set after. rn_end ?r \<le> unat (rn_start x)"
  proof
    fix x assume x: "x \<in> set after"
    show "rn_end ?r \<le> unat (rn_start x)"
    proof (rule ccontr)
      assume "\<not> ?thesis"
      then have "unat (rn_start x) \<in> range_addrs ?r \<inter> range_addrs x"
        using ge [OF x] ne bw(3) x rw(2) by (auto simp: range_addrs_def word_le_nat_alt)
      then show False using nin [of x] x by blast
    qed
  qed
  obtain before' r' n1 where p: "coalesce_prev before ?r = (before', r', n1)" by (cases "coalesce_prev before ?r")
  note cp = coalesce_prev_ok [OF bw(1,2) rw(1) lo p]
  obtain rest n2 where q: "coalesce_next r' after = (rest, n2)" by (cases "coalesce_next r' after")
  have "\<forall>x \<in> set after. rn_end r' \<le> unat (rn_start x)" using hi cp by simp
  note cn = coalesce_next_ok [OF bw(3,4) _ this q]
  have st': "st' = st\<lparr>va_free := before' @ rest, va_pool := va_pool st - 1 + n1 + n2\<rparr>" "res = VMM_SUCCESS"
    using fr w n al pool p q by (auto simp: vmm_free_block_def Let_def mask_fff page_aligned_def before_def after_def)
  have "\<forall>x \<in> set before'. \<forall>y \<in> set rest. gap x y" using cp cn by fastforce
  then have "va_wf st'" using cp cn w(1,2) by (auto simp: va_wf_def st' sorted_wrt_append)
  moreover have "va_addrs st' = va_addrs st \<union> range_addrs ?r" using cp cn by (auto simp: va_addrs_def st' fs)
  ultimately show ?thesis using st' rw(2) by (simp add: range_addrs_def)
qed

section \<open>Properties\<close>

text \<open>An allocation of a number of pages that does not wrap returns when the lock is free. If
  some free range is large enough it returns a page-aligned address whose pages were all free
  and removes exactly those from the free addresses; otherwise it returns 0 and changes
  nothing. The ordered, coalesced free list is kept.\<close>

theorem vmm_alloc_block_correct:
  assumes "va_wf st" and "n \<noteq> 0" and "unat n * 4096 < 18446744073709551616"
  shows "\<exists>st' a. vmm_alloc_block st n = Some (st', a) \<and> va_wf st'
    \<and> (if \<exists>r \<in> set (va_free st). n * VM_PAGE_SIZE \<le> rn_size r
       then page_aligned a \<and> {unat a ..< unat a + unat n * 4096} \<subseteq> va_addrs st
          \<and> va_addrs st' = va_addrs st - {unat a ..< unat a + unat n * 4096}
       else st' = st \<and> a = 0)"
proof -
  have "vmm_alloc_block st n \<noteq> None"
    using assms(1) by (auto simp: vmm_alloc_block_def va_wf_def Let_def split: option.splits)
  then obtain st' a where e: "vmm_alloc_block st n = Some (st', a)" by auto
  then show ?thesis using alloc_ok [OF assms e] by blast
qed

definition demo_va :: vmalloc_state where
  "demo_va = \<lparr>va_free = [\<lparr>rn_start = 0x1000, rn_size = 0x5000\<rparr>, \<lparr>rn_start = 0x10000, rn_size = 0x3000\<rparr>],
     va_pool = 1, va_initialized = True, va_locked = False\<rparr>"

lemma demo_va_wf: "va_wf demo_va"
  by (simp add: demo_va_def va_wf_def range_wf_def rn_end_def page_aligned_def)

theorem vmm_alloc_block_correct_witness:
  "\<exists>st'. vmm_alloc_block demo_va 2 = Some (st', 0x10000) \<and> va_wf st' \<and> va_addrs st' = va_addrs demo_va - {65536 ..< 73728}"
proof -
  have e: "map_option snd (vmm_alloc_block demo_va 2) = Some 0x10000" by code_simp
  have ex: "\<exists>r \<in> set (va_free demo_va). 2 * VM_PAGE_SIZE \<le> rn_size r" by code_simp
  show ?thesis using vmm_alloc_block_correct [OF demo_va_wf, of 2] e ex by auto
qed

text \<open>Freeing a page-aligned block whose pages are allocated succeeds whenever a range
  structure is available, adds exactly the block to the free addresses and keeps the list
  ordered with a gap between any two ranges: it is coalesced with both neighbours.\<close>

theorem vmm_free_block_correct:
  assumes "va_wf st" and "n \<noteq> 0" and "page_aligned a" and "unat a + unat n * 4096 < 18446744073709551616"
    and "{unat a ..< unat a + unat n * 4096} \<inter> va_addrs st = {}" and "va_pool st \<noteq> 0"
  shows "\<exists>st'. vmm_free_block st a n = Some (st', VMM_SUCCESS) \<and> va_wf st'
    \<and> va_addrs st' = va_addrs st \<union> {unat a ..< unat a + unat n * 4096}"
proof -
  have "vmm_free_block st a n \<noteq> None"
    using assms(1,2,3,6) by (auto simp: vmm_free_block_def va_wf_def Let_def page_aligned_def mask_fff split: prod.splits)
  then obtain st' res where e: "vmm_free_block st a n = Some (st', res)" by auto
  then show ?thesis using free_ok [OF assms e] by blast
qed

theorem vmm_free_block_correct_witness:
  "\<exists>st'. vmm_free_block demo_va 0x6000 10 = Some (st', VMM_SUCCESS)
     \<and> va_addrs st' = va_addrs demo_va \<union> {24576 ..< 65536}"
proof -
  have "va_addrs demo_va = {4096 ..< 24576} \<union> {65536 ..< 77824}"
    by (simp add: demo_va_def va_addrs_def range_addrs_def rn_end_def)
  then have "{24576 ..< 65536} \<inter> va_addrs demo_va = {}" by auto
  then show ?thesis using vmm_free_block_correct [OF demo_va_wf, of 10 "0x6000"]
    by (auto simp: page_aligned_def demo_va_def)
qed

text \<open>When no range structure is left, freeing returns with the lock held, and no later
  allocation or valid free ever returns.\<close>

theorem vmm_free_block_lock_leak:
  assumes "va_wf st" and "va_pool st = 0" and "n \<noteq> 0" and "page_aligned a"
  shows "\<exists>st'. vmm_free_block st a n = Some (st', VMM_ERROR_NO_SPACE)
    \<and> (\<forall>m. m \<noteq> 0 \<longrightarrow> vmm_alloc_block st' m = None)
    \<and> (\<forall>b m. m \<noteq> 0 \<and> page_aligned b \<longrightarrow> vmm_free_block st' b m = None)"
  using assms by (simp add: vmm_free_block_def vmm_alloc_block_def va_wf_def page_aligned_def mask_fff)

theorem vmm_free_block_lock_leak_witness:
  "\<exists>st'. vmm_free_block (demo_va\<lparr>va_pool := 0\<rparr>) 0x20000 1 = Some (st', VMM_ERROR_NO_SPACE) \<and> vmm_alloc_block st' 1 = None"
  using vmm_free_block_lock_leak [of "demo_va\<lparr>va_pool := 0\<rparr>" 1 "0x20000"] demo_va_wf
  by (auto simp: va_wf_def page_aligned_def)

end
