(* ===== verification/Task_Queue.thy ===== *)
theory Task_Queue
  imports Anos_Prelude
begin

text \<open>
  Tasks and the priority queues of the scheduler, \<^verbatim>\<open>kernel/include/task.h\<close> and
  \<^verbatim>\<open>kernel/structs/pq.c\<close>, at the level of pointers: tasks live in a heap, a queue is the pointer
  to its head, and the links are the \<^verbatim>\<open>this.next\<close> fields that every list a task can be on shares.
  A walk along the links returns \<open>None\<close> when it does not end. Also here is \<^verbatim>\<open>list_add\<close> of
  \<^verbatim>\<open>kernel/arch/x86_64/structs/list.asm\<close>, which walks the same links. The checks of the
  conservative build are left out.
\<close>

section \<open>Data\<close>

datatype TaskClass = TASK_CLASS_IDLE | TASK_CLASS_NORMAL | TASK_CLASS_HIGH | TASK_CLASS_REALTIME | TASK_CLASS_INVALID

datatype TaskState = TASK_STATE_BLOCKED | TASK_STATE_READY | TASK_STATE_RUNNING
  | TASK_STATE_TERMINATING | TASK_STATE_TERMINATED

text \<open>The fields of \<^verbatim>\<open>Task\<close> and its \<^verbatim>\<open>TaskSched\<close> that the scheduler uses.\<close>

record Task =
  t_next :: ptr
  ts_remain :: u16
  t_state :: TaskState
  t_class :: TaskClass
  t_prio :: u8
  status_flags :: u16

type_synonym task_heap = "ptr \<Rightarrow> Task"

definition set_next :: "ptr \<Rightarrow> ptr \<Rightarrow> task_heap \<Rightarrow> task_heap" where
  "set_next p n h = h(p := (h p)\<lparr>t_next := n\<rparr>)"

section \<open>Operations\<close>

definition task_pq_init :: ptr where
  "task_pq_init = NULL"

text \<open>The walk of \<^verbatim>\<open>task_pq_push\<close>: the last node before the insertion point.\<close>

partial_function (option) pq_walk :: "task_heap \<Rightarrow> u8 \<Rightarrow> ptr \<Rightarrow> ptr option" where
  "pq_walk h prio current =
     (if t_next (h current) \<noteq> NULL \<and> t_prio (h (t_next (h current))) \<le> prio
      then pq_walk h prio (t_next (h current)) else Some current)"

definition task_pq_push :: "task_heap \<Rightarrow> ptr \<Rightarrow> ptr \<Rightarrow> (task_heap \<times> ptr) option" where
  "task_pq_push h head new_node =
     (if new_node = NULL then Some (h, head)
      else if head = NULL \<or> t_prio (h new_node) < t_prio (h head) then Some (set_next new_node head h, new_node)
      else map_option (\<lambda>current. (set_next current new_node (set_next new_node (t_next (h current)) h), head))
             (pq_walk h (t_prio (h new_node)) head))"

definition task_pq_pop :: "task_heap \<Rightarrow> ptr \<Rightarrow> task_heap \<times> ptr \<times> ptr" where
  "task_pq_pop h head =
     (if head = NULL then (h, head, NULL)
      else (set_next head NULL h, t_next (h head), head))"

definition task_pq_peek :: "ptr \<Rightarrow> ptr" where
  "task_pq_peek head = head"

definition task_pq_empty :: "ptr \<Rightarrow> bool" where
  "task_pq_empty head \<longleftrightarrow> head = NULL"

text \<open>\<^verbatim>\<open>list_insert_after\<close> and \<^verbatim>\<open>list_add\<close>.\<close>

definition list_insert_after :: "task_heap \<Rightarrow> ptr \<Rightarrow> ptr \<Rightarrow> task_heap" where
  "list_insert_after h target subject =
     (if target = NULL then (if subject = NULL then h else set_next subject NULL h)
      else let nxt = t_next (h target); h = set_next target subject h
           in if subject = NULL then h else set_next subject nxt h)"

partial_function (option) list_end :: "task_heap \<Rightarrow> ptr \<Rightarrow> ptr option" where
  "list_end h p = (if t_next (h p) = NULL then Some p else list_end h (t_next (h p)))"

definition list_add :: "task_heap \<Rightarrow> ptr \<Rightarrow> ptr \<Rightarrow> task_heap option" where
  "list_add h head subject =
     (if head = NULL then Some (list_insert_after h head subject)
      else map_option (\<lambda>e. list_insert_after h e subject) (list_end h head))"

section \<open>Queues as lists\<close>

text \<open>\<open>tlist h p xs\<close>: following the links from \<open>p\<close> visits exactly \<open>xs\<close> and ends.\<close>

fun tlist :: "task_heap \<Rightarrow> ptr \<Rightarrow> ptr list \<Rightarrow> bool" where
  "tlist h p [] \<longleftrightarrow> p = NULL"
| "tlist h p (x # xs) \<longleftrightarrow> p = x \<and> x \<noteq> NULL \<and> tlist h (t_next (h x)) xs"

text \<open>Where a node of a given priority goes: after every node of a smaller or equal one.\<close>

definition pq_insert :: "(ptr \<Rightarrow> u8) \<Rightarrow> ptr \<Rightarrow> ptr list \<Rightarrow> ptr list" where
  "pq_insert prio x xs =
     takeWhile (\<lambda>y. prio y \<le> prio x) xs @ x # dropWhile (\<lambda>y. prio y \<le> prio x) xs"

abbreviation prio_of :: "task_heap \<Rightarrow> ptr \<Rightarrow> u8" where
  "prio_of h x \<equiv> t_prio (h x)"

section \<open>Library\<close>

lemma set_next_simps [simp]:
  "t_next (set_next p n h x) = (if x = p then n else t_next (h x))"
  "t_prio (set_next p n h x) = t_prio (h x)" "t_state (set_next p n h x) = t_state (h x)"
  "t_class (set_next p n h x) = t_class (h x)" "ts_remain (set_next p n h x) = ts_remain (h x)"
  "status_flags (set_next p n h x) = status_flags (h x)"
  by (simp_all add: set_next_def)

lemma tlist_cong: "\<forall>x \<in> set xs. t_next (h x) = t_next (h' x) \<Longrightarrow> tlist h p xs = tlist h' p xs"
  by (induction xs arbitrary: p) auto

lemma tlist_frame [simp]: "q \<notin> set xs \<Longrightarrow> tlist (set_next q n h) p xs = tlist h p xs"
  by (rule tlist_cong) auto

lemma tlist_NULL [simp]: "tlist h NULL xs \<longleftrightarrow> xs = []"
  by (cases xs) auto

lemma tlist_not_NULL: "tlist h p xs \<Longrightarrow> NULL \<notin> set xs"
  by (induction xs arbitrary: p) auto

lemma tlist_head: "tlist h p xs \<Longrightarrow> p = (case xs of [] \<Rightarrow> NULL | x # _ \<Rightarrow> x)"
  by (cases xs) auto

lemma tlist_unique: "tlist h p xs \<Longrightarrow> tlist h p ys \<Longrightarrow> xs = ys"
  by (induction xs arbitrary: p ys) (case_tac ys; auto)+

lemma tlist_distinct: "tlist h p xs \<Longrightarrow> distinct xs"
proof (induction xs arbitrary: p)
  case (Cons x xs)
  have "x \<notin> set xs"
  proof
    assume "x \<in> set xs"
    then obtain ys zs where xs: "xs = ys @ x # zs" by (meson split_list)
    have suf: "tlist h q (us @ vs) \<Longrightarrow> \<exists>r. tlist h r vs" for q us vs by (induction us arbitrary: q) auto
    have "tlist h x (x # zs)" using suf [of p "x # ys" "x # zs"] Cons.prems xs by auto
    moreover have "tlist h x (x # xs)" using Cons.prems by simp
    ultimately have "zs = xs" using tlist_unique by blast
    then show False using arg_cong [OF xs, of length] by simp
  qed
  then show ?case using Cons by auto
qed simp

text \<open>Inserting after the node where the walk stops.\<close>

lemma pq_walk_insert:
  assumes "tlist h c (c # ys)" "x \<notin> set (c # ys)" "x \<noteq> NULL"
  shows "\<exists>cur. pq_walk h pr c = Some cur \<and> cur \<in> set (c # ys)
    \<and> tlist (set_next cur x (set_next x (t_next (h cur)) h)) c
        (c # takeWhile (\<lambda>y. prio_of h y \<le> pr) ys @ x # dropWhile (\<lambda>y. prio_of h y \<le> pr) ys)"
  using assms
proof (induction ys arbitrary: c)
  case Nil
  then show ?case by (subst pq_walk.simps) auto
next
  case (Cons y ys)
  have n: "t_next (h c) = y" "y \<noteq> NULL" "tlist h y (y # ys)" "c \<noteq> NULL" using Cons.prems(1) by auto
  have d: "distinct (c # y # ys)" using tlist_distinct [OF Cons.prems(1)] by simp
  show ?case
  proof (cases "prio_of h y \<le> pr")
    case True
    obtain cur where cur: "pq_walk h pr y = Some cur" "cur \<in> set (y # ys)"
      "tlist (set_next cur x (set_next x (t_next (h cur)) h)) y
        (y # takeWhile (\<lambda>y. prio_of h y \<le> pr) ys @ x # dropWhile (\<lambda>y. prio_of h y \<le> pr) ys)"
      using Cons.IH [OF n(3)] Cons.prems by auto
    have "pq_walk h pr c = Some cur" using cur(1) n True by (subst pq_walk.simps) simp
    moreover have "c \<noteq> cur" "c \<noteq> x" using d cur(2) Cons.prems(2) by auto
    ultimately show ?thesis using cur n True by (intro exI [of _ cur]) simp
  next
    case False
    have "pq_walk h pr c = Some c" using n False by (subst pq_walk.simps) simp
    moreover have "c \<noteq> x" "x \<noteq> y" "x \<notin> set ys" "c \<notin> set ys" "c \<noteq> y" using d Cons.prems(2) by auto
    ultimately show ?thesis using n False Cons.prems by simp
  qed
qed

lemma push_ok:
  assumes "tlist h p xs" "x \<notin> set xs" "x \<noteq> NULL"
  shows "\<exists>h' p'. task_pq_push h p x = Some (h', p') \<and> tlist h' p' (pq_insert (prio_of h) x xs)
    \<and> (\<forall>y. y \<notin> insert x (set xs) \<longrightarrow> h' y = h y) \<and> (\<forall>y. \<exists>n. h' y = (h y)\<lparr>t_next := n\<rparr>)"
proof (cases "p = NULL \<or> prio_of h x < prio_of h p")
  case True
  then have "task_pq_push h p x = Some (set_next x p h, x)" using assms(3) by (auto simp: task_pq_push_def)
  moreover have "pq_insert (prio_of h) x xs = x # xs" using True assms(1) by (cases xs) (auto simp: pq_insert_def)
  moreover have "\<exists>n. set_next x p h y = (h y)\<lparr>t_next := n\<rparr>" for y
    by (cases "y = x") (auto simp: set_next_def intro: exI [of _ "t_next (h y)"])
  moreover have "tlist (set_next x p h) x (x # xs)" using assms by simp
  moreover have "\<forall>y. y \<notin> insert x (set xs) \<longrightarrow> set_next x p h y = h y" by (simp add: set_next_def)
  ultimately show ?thesis by simp
next
  case False
  then obtain ys where xs: "xs = p # ys" using assms(1) by (cases xs) auto
  obtain cur where cur: "pq_walk h (prio_of h x) p = Some cur" "cur \<in> set xs"
    "tlist (set_next cur x (set_next x (t_next (h cur)) h)) p
       (p # takeWhile (\<lambda>y. prio_of h y \<le> prio_of h x) ys @ x # dropWhile (\<lambda>y. prio_of h y \<le> prio_of h x) ys)"
    using pq_walk_insert [of h p ys x "prio_of h x"] assms xs by auto
  have "task_pq_push h p x = Some (set_next cur x (set_next x (t_next (h cur)) h), p)"
    using False cur(1) assms(3) by (auto simp: task_pq_push_def)
  moreover have "pq_insert (prio_of h) x xs =
      p # takeWhile (\<lambda>y. prio_of h y \<le> prio_of h x) ys @ x # dropWhile (\<lambda>y. prio_of h y \<le> prio_of h x) ys"
    using False xs by (auto simp: pq_insert_def)
  moreover have "\<exists>n. set_next cur x (set_next x (t_next (h cur)) h) y = (h y)\<lparr>t_next := n\<rparr>" for y
    by (auto simp: set_next_def intro: exI [of _ "t_next (h y)"])
  ultimately show ?thesis using cur by (auto simp: set_next_def)
qed

lemma pop_ok:
  assumes "tlist h p (x # xs)"
  shows "task_pq_pop h p = (set_next x NULL h, t_next (h x), x) \<and> tlist (set_next x NULL h) (t_next (h x)) xs"
  using assms tlist_distinct [OF assms] by (auto simp: task_pq_pop_def)

text \<open>Appending to a list of tasks.\<close>

lemma list_end_ok: "tlist h p (p # ys) \<Longrightarrow> list_end h p = Some (last (p # ys))"
proof (induction ys arbitrary: p)
  case Nil
  then show ?case by (subst list_end.simps) simp
next
  case (Cons y ys)
  then show ?case by (subst list_end.simps) auto
qed

lemma tlist_snoc:
  assumes "tlist h p xs" "xs \<noteq> []" "x \<notin> set xs" "x \<noteq> NULL"
  shows "tlist (set_next x NULL (set_next (last xs) x h)) p (xs @ [x])"
  using assms
proof (induction xs arbitrary: p)
  case (Cons y ys)
  have d: "y \<notin> set ys" using tlist_distinct [OF Cons.prems(1)] by simp
  show ?case
  proof (cases "ys = []")
    case False
    then have "tlist (set_next x NULL (set_next (last ys) x h)) (t_next (h y)) (ys @ [x])"
      using Cons by auto
    moreover have "last ys \<noteq> y" using d False by (metis last_in_set)
    ultimately show ?thesis using Cons.prems False by auto
  qed (use Cons.prems in auto)
qed simp

lemma list_add_ok:
  assumes "tlist h p xs" "xs \<noteq> []" "x \<notin> set xs" "x \<noteq> NULL"
  shows "list_add h p x = Some (set_next x NULL (set_next (last xs) x h))
    \<and> tlist (set_next x NULL (set_next (last xs) x h)) p (xs @ [x])"
proof -
  obtain ys where xs: "xs = p # ys" "p \<noteq> NULL" using assms(1,2) by (cases xs) auto
  have e: "list_end h p = Some (last xs)" using list_end_ok assms(1) xs by auto
  have nz: "last xs \<noteq> NULL" using tlist_not_NULL [OF assms(1)] assms(2) by (metis last_in_set)
  have nn: "t_next (h (last xs)) = NULL" using assms(1,2) by (induction xs arbitrary: p) (auto split: if_splits)
  have ne: "last xs \<noteq> x" using assms(2,3) by auto
  show ?thesis using tlist_snoc [OF assms] e nz nn ne xs assms(4)
    by (simp add: list_add_def list_insert_after_def Let_def)
qed

lemma pq_insert_simps:
  "pq_insert pr x [] = [x]"
  "pq_insert pr x (y # ys) = (if pr y \<le> pr x then y # pq_insert pr x ys else x # y # ys)"
  by (simp_all add: pq_insert_def)

lemma pq_insert_set [simp]: "set (pq_insert pr x xs) = insert x (set xs)"
  by (induction xs) (auto simp: pq_insert_simps)

lemma pq_insert_length [simp]: "length (pq_insert pr x xs) = Suc (length xs)"
  by (induction xs) (auto simp: pq_insert_simps)

lemma pq_insert_sorted:
  assumes "sorted_wrt (\<lambda>a b. pr a \<le> pr b) xs"
  shows "sorted_wrt (\<lambda>a b. pr a \<le> pr b) (pq_insert pr x xs)"
  using assms
proof (induction xs)
  case (Cons y ys)
  show ?case
  proof (cases "pr y \<le> pr x")
    case True
    then show ?thesis using Cons by (simp add: pq_insert_simps)
  next
    case False
    then have "pr x \<le> pr y" by simp
    then have "\<forall>z \<in> set ys. pr x \<le> pr z" using Cons.prems by (auto intro: order_trans)
    then show ?thesis using Cons.prems False \<open>pr x \<le> pr y\<close> by (simp add: pq_insert_simps)
  qed
qed (simp add: pq_insert_simps)

section \<open>Properties\<close>

text \<open>On a well-formed queue the pointer-level push terminates and inserts the new task after
  all tasks of smaller or equal priority value and before the rest, keeps the queue ordered and
  changes no link of any task outside the queue; a pop then takes the first task of the result
  and leaves the rest.\<close>

theorem task_pq_refines:
  assumes "tlist h p xs" and "sorted_wrt (\<lambda>a b. prio_of h a \<le> prio_of h b) xs" and "x \<notin> set xs" and "x \<noteq> NULL"
  shows "\<exists>h' p'. task_pq_push h p x = Some (h', p') \<and> tlist h' p' (pq_insert (prio_of h) x xs)
    \<and> sorted_wrt (\<lambda>a b. prio_of h' a \<le> prio_of h' b) (pq_insert (prio_of h) x xs)
    \<and> (\<forall>y. y \<notin> insert x (set xs) \<longrightarrow> h' y = h y)
    \<and> (case task_pq_pop h' p' of (h'', q, m) \<Rightarrow> pq_insert (prio_of h) x xs = m # tl (pq_insert (prio_of h) x xs)
         \<and> tlist h'' q (tl (pq_insert (prio_of h) x xs)))"
proof -
  obtain h' p' where r: "task_pq_push h p x = Some (h', p')" "tlist h' p' (pq_insert (prio_of h) x xs)"
    "\<forall>y. y \<notin> insert x (set xs) \<longrightarrow> h' y = h y" "\<forall>y. \<exists>n. h' y = (h y)\<lparr>t_next := n\<rparr>"
    using push_ok [OF assms(1,3,4)] by blast
  have pr: "prio_of h' y = prio_of h y" for y using spec [OF r(4), of y] by auto
  obtain m ms where m: "pq_insert (prio_of h) x xs = m # ms" by (cases "pq_insert (prio_of h) x xs") (auto simp: pq_insert_def)
  have "case task_pq_pop h' p' of (h'', q, m') \<Rightarrow> m # ms = m' # ms \<and> tlist h'' q ms"
    using pop_ok [OF r(2) [unfolded m]] by simp
  then show ?thesis using r pr m pq_insert_sorted [OF assms(2), of x] by (intro exI [of _ h'] exI [of _ p']) simp
qed

definition demo_heap :: task_heap where
  "demo_heap p = \<lparr>t_next = (if p = 0x1000 then 0x2000 else NULL), ts_remain = 0, t_state = TASK_STATE_READY,
     t_class = TASK_CLASS_NORMAL, t_prio = (if p = 0x1000 then 1 else if p = 0x2000 then 5 else 3), status_flags = 0\<rparr>"

theorem task_pq_refines_witness:
  "\<exists>h' p'. task_pq_push demo_heap 0x1000 0x3000 = Some (h', p') \<and> tlist h' p' [0x1000, 0x3000, 0x2000]"
  using task_pq_refines [of demo_heap "0x1000" "[0x1000, 0x2000]" "0x3000"]
  by (auto simp: demo_heap_def pq_insert_def)

end
