(* ===== verification/Sched.thy ===== *)
theory Sched
  imports Task_Queue
begin

text \<open>
  The prioritised round-robin scheduler, \<^verbatim>\<open>kernel/sched/prr.c\<close>. Each CPU has one priority queue per
  task class and a count of queued tasks; the task heap is shared. \<open>cs_head\<close> gives the head
  pointer of each class's queue (\<^verbatim>\<open>realtime_head\<close>, \<^verbatim>\<open>high_head\<close>, \<^verbatim>\<open>normal_head\<close>, \<^verbatim>\<open>idle_head\<close>). All
  operations run with the scheduler lock of the CPU they touch held, so each is one step.
  \<^verbatim>\<open>task_switch\<close> is the update of the CPU's current task; killing a thread leaves the scheduler
  and is the outcome \<open>Exits\<close>. A walk of a corrupt queue that does not end gives \<open>None\<close>.
  Creating the first tasks (\<^verbatim>\<open>sched_init\<close>, \<^verbatim>\<open>sched_init_idle\<close>) enqueues a task made elsewhere, which
  is their argument.
\<close>

section \<open>State\<close>

record PerCPUSchedState =
  cs_head :: "TaskClass \<Rightarrow> ptr"
  all_queue_total :: u64
  cs_current :: ptr

record sched_state =
  ss_heap :: task_heap
  ss_cpus :: "PerCPUSchedState list"

definition DEFAULT_TIMESLICE :: u16 where
  "DEFAULT_TIMESLICE = 10"

definition TASK_SCHED_FLAG_KILLED :: u16 where
  "TASK_SCHED_FLAG_KILLED = 1"

definition TASK_SCHED_FLAG_DYING :: u16 where
  "TASK_SCHED_FLAG_DYING = 2"

text \<open>The numeric order of \<^verbatim>\<open>TaskClass\<close>.\<close>

fun class_num :: "TaskClass \<Rightarrow> nat" where
  "class_num TASK_CLASS_IDLE = 0"
| "class_num TASK_CLASS_NORMAL = 1"
| "class_num TASK_CLASS_HIGH = 2"
| "class_num TASK_CLASS_REALTIME = 3"
| "class_num TASK_CLASS_INVALID = 4"

definition upd_task :: "ptr \<Rightarrow> (Task \<Rightarrow> Task) \<Rightarrow> sched_state \<Rightarrow> sched_state" where
  "upd_task t f s = s\<lparr>ss_heap := (ss_heap s)(t := f (ss_heap s t))\<rparr>"

definition upd_cpu :: "nat \<Rightarrow> (PerCPUSchedState \<Rightarrow> PerCPUSchedState) \<Rightarrow> sched_state \<Rightarrow> sched_state" where
  "upd_cpu c f s = s\<lparr>ss_cpus := (ss_cpus s)[c := f (ss_cpus s ! c)]\<rparr>"

section \<open>Operations\<close>

definition init_this_cpu_sched_state :: "PerCPUSchedState \<Rightarrow> PerCPUSchedState" where
  "init_this_cpu_sched_state cpu = cpu\<lparr>cs_head := (\<lambda>_. task_pq_init), all_queue_total := 0\<rparr>"

definition sched_enqueue_on :: "ptr \<Rightarrow> nat \<Rightarrow> sched_state \<Rightarrow> (sched_state \<times> bool) option" where
  "sched_enqueue_on task c s =
     (let cl = t_class (ss_heap s task); cpu = ss_cpus s ! c
      in if cl = TASK_CLASS_INVALID then Some (s, False)
         else map_option (\<lambda>(h, p). (s\<lparr>ss_heap := h, ss_cpus := (ss_cpus s)[c :=
                  cpu\<lparr>cs_head := (cs_head cpu)(cl := p), all_queue_total := all_queue_total cpu + 1\<rparr>]\<rparr>, True))
                (task_pq_push (ss_heap s) (cs_head cpu cl) task))"

definition thread_to_be_killed :: "Task \<Rightarrow> bool" where
  "thread_to_be_killed task \<longleftrightarrow> status_flags task AND TASK_SCHED_FLAG_KILLED \<noteq> 0
     \<and> status_flags task AND TASK_SCHED_FLAG_DYING = 0"

text \<open>The class of the queue \<^verbatim>\<open>sched_schedule\<close> takes its candidate from.\<close>

definition candidate_class :: "PerCPUSchedState \<Rightarrow> TaskClass option" where
  "candidate_class cpu =
     (if task_pq_peek (cs_head cpu TASK_CLASS_REALTIME) \<noteq> NULL then Some TASK_CLASS_REALTIME
      else if task_pq_peek (cs_head cpu TASK_CLASS_HIGH) \<noteq> NULL then Some TASK_CLASS_HIGH
      else if task_pq_peek (cs_head cpu TASK_CLASS_NORMAL) \<noteq> NULL then Some TASK_CLASS_NORMAL
      else if task_pq_peek (cs_head cpu TASK_CLASS_IDLE) \<noteq> NULL then Some TASK_CLASS_IDLE
      else None)"

text \<open>The current task keeps its timeslice.\<close>

definition timeslice_continues :: "Task \<Rightarrow> Task \<Rightarrow> bool" where
  "timeslice_continues current candidate \<longleftrightarrow>
     t_state current \<noteq> TASK_STATE_BLOCKED \<and> ts_remain current > 0
     \<and> (class_num (t_class candidate) \<le> class_num (t_class current)
        \<or> class_num (t_class candidate) = class_num (t_class current) \<and> t_prio candidate \<ge> t_prio current)"

datatype sched_outcome = Continues sched_state | Exits sched_state

definition switch_to :: "nat \<Rightarrow> TaskClass \<Rightarrow> sched_state \<Rightarrow> sched_state option" where
  "switch_to c cl s =
     (let current = cs_current (ss_cpus s ! c);
          (h, p, nxt) = task_pq_pop (ss_heap s) (cs_head (ss_cpus s ! c) cl);
          s = upd_cpu c (\<lambda>cpu. cpu\<lparr>cs_head := (cs_head cpu)(cl := p), all_queue_total := all_queue_total cpu - 1\<rparr>)
                (s\<lparr>ss_heap := h\<rparr>);
          requeued = (if current \<noteq> NULL \<and> t_state (ss_heap s current) = TASK_STATE_RUNNING
                      then map_option fst (sched_enqueue_on current c (upd_task current (\<lambda>t. t\<lparr>t_state := TASK_STATE_READY\<rparr>) s))
                      else Some s)
      in map_option (\<lambda>s. upd_cpu c (\<lambda>cpu. cpu\<lparr>cs_current := nxt\<rparr>)
              (upd_task nxt (\<lambda>t. t\<lparr>ts_remain := DEFAULT_TIMESLICE, t_state := TASK_STATE_RUNNING\<rparr>) s)) requeued)"

definition sched_schedule :: "nat \<Rightarrow> sched_state \<Rightarrow> sched_outcome option" where
  "sched_schedule c s =
     (let cpu = ss_cpus s ! c; current = cs_current cpu
      in case candidate_class cpu of
           None \<Rightarrow> Some (Continues s)
         | Some cl \<Rightarrow>
             if current = NULL then map_option Continues (switch_to c cl s)
             else
               let s = upd_task current (\<lambda>t. if ts_remain t > 0 then t\<lparr>ts_remain := ts_remain t - 1\<rparr> else t) s
               in if thread_to_be_killed (ss_heap s current) then
                    Some (Exits (upd_task current (\<lambda>t. t\<lparr>status_flags := status_flags t OR TASK_SCHED_FLAG_DYING\<rparr>) s))
                  else if timeslice_continues (ss_heap s current) (ss_heap s (cs_head cpu cl)) then Some (Continues s)
                  else map_option Continues (switch_to c cl s))"

text \<open>The search for the least loaded CPU; \<open>i\<close> counts up, \<open>target\<close> is the best so far.\<close>

fun find_target :: "nat \<Rightarrow> nat option \<Rightarrow> PerCPUSchedState list \<Rightarrow> PerCPUSchedState list \<Rightarrow> nat option" where
  "find_target i target all [] = target"
| "find_target i target all (candidate # rest) =
     (if all_queue_total candidate = 1 then Some i
      else find_target (i + 1)
             (case target of
                None \<Rightarrow> Some i
              | Some t \<Rightarrow> if all_queue_total candidate < all_queue_total (all ! t) then Some i else Some t)
             all rest)"

definition sched_find_target_cpu :: "sched_state \<Rightarrow> nat option" where
  "sched_find_target_cpu s = find_target 0 None (ss_cpus s) (ss_cpus s)"

definition sched_unblock_on :: "ptr \<Rightarrow> nat \<Rightarrow> sched_state \<Rightarrow> sched_state option" where
  "sched_unblock_on task c s =
     map_option fst (sched_enqueue_on task c (upd_task task (\<lambda>t. t\<lparr>t_state := TASK_STATE_READY\<rparr>) s))"

definition sched_unblock :: "nat \<Rightarrow> ptr \<Rightarrow> sched_state \<Rightarrow> sched_state option" where
  "sched_unblock this_cpu task s = sched_unblock_on task this_cpu s"

definition sched_block :: "ptr \<Rightarrow> sched_state \<Rightarrow> sched_state" where
  "sched_block task s = upd_task task (\<lambda>t. t\<lparr>t_state := TASK_STATE_BLOCKED\<rparr>) s"

text \<open>Starting the first task of a CPU: the new task, when it was created, is enqueued.\<close>

definition sched_init :: "u64 \<Rightarrow> bool \<Rightarrow> ptr \<Rightarrow> nat \<Rightarrow> sched_state \<Rightarrow> (sched_state \<times> bool) option" where
  "sched_init sys_ssp process_ok new_task c s =
     (if sys_ssp = 0 then Some (s, False)
      else if \<not> process_ok then Some (s, False)
      else sched_enqueue_on new_task c s)"

definition sched_init_idle :: "bool \<Rightarrow> ptr \<Rightarrow> nat \<Rightarrow> sched_state \<Rightarrow> (sched_state \<times> bool) option" where
  "sched_init_idle have_system_process idle_task c s =
     (if \<not> have_system_process then Some (s, False) else sched_enqueue_on idle_task c s)"

section \<open>Invariant\<close>

text \<open>
  \<open>qs c cl\<close> is the queue of class \<open>cl\<close> on CPU \<open>c\<close> as a list. Queues are ordered by priority, hold ready
  tasks of their class, share no task with each other, do not hold a task that is current
  somewhere, and the counter is the number of queued tasks.
\<close>

abbreviation all_classes :: "TaskClass list" where
  "all_classes \<equiv> [TASK_CLASS_REALTIME, TASK_CLASS_HIGH, TASK_CLASS_NORMAL, TASK_CLASS_IDLE]"

definition valid_classes :: "TaskClass set" where
  "valid_classes = - {TASK_CLASS_INVALID}"

type_synonym queues = "nat \<Rightarrow> TaskClass \<Rightarrow> ptr list"

definition queue_ok :: "task_heap \<Rightarrow> ptr \<Rightarrow> TaskClass \<Rightarrow> ptr list \<Rightarrow> bool" where
  "queue_ok h p cl xs \<longleftrightarrow> tlist h p xs \<and> sorted_wrt (\<lambda>a b. prio_of h a \<le> prio_of h b) xs
     \<and> (\<forall>x \<in> set xs. t_class (h x) = cl \<and> t_state (h x) = TASK_STATE_READY)"

definition cpu_tasks :: "queues \<Rightarrow> nat \<Rightarrow> ptr list" where
  "cpu_tasks qs c = concat (map (qs c) all_classes)"

definition queues_ok :: "sched_state \<Rightarrow> queues \<Rightarrow> bool" where
  "queues_ok s qs \<longleftrightarrow>
     (\<forall>c < length (ss_cpus s). (\<forall>cl \<in> valid_classes. queue_ok (ss_heap s) (cs_head (ss_cpus s ! c) cl) cl (qs c cl))
        \<and> unat (all_queue_total (ss_cpus s ! c)) = length (cpu_tasks qs c))
     \<and> (\<forall>c < length (ss_cpus s). \<forall>d < length (ss_cpus s). \<forall>cl \<in> valid_classes. \<forall>dl \<in> valid_classes.
          (c, cl) \<noteq> (d, dl) \<longrightarrow> set (qs c cl) \<inter> set (qs d dl) = {})"

definition queued :: "sched_state \<Rightarrow> queues \<Rightarrow> ptr set" where
  "queued s qs = (\<Union>c < length (ss_cpus s). set (cpu_tasks qs c))"

definition currents_ok :: "sched_state \<Rightarrow> queues \<Rightarrow> bool" where
  "currents_ok s qs \<longleftrightarrow>
     (\<forall>c < length (ss_cpus s). cs_current (ss_cpus s ! c) \<notin> queued s qs)
     \<and> (\<forall>c < length (ss_cpus s). \<forall>d < length (ss_cpus s). c \<noteq> d \<and> cs_current (ss_cpus s ! c) \<noteq> NULL
          \<longrightarrow> cs_current (ss_cpus s ! c) \<noteq> cs_current (ss_cpus s ! d))"

definition sched_ok :: "sched_state \<Rightarrow> queues \<Rightarrow> bool" where
  "sched_ok s qs \<longleftrightarrow> queues_ok s qs \<and> currents_ok s qs"

text \<open>Changing one queue.\<close>

definition set_queue :: "queues \<Rightarrow> nat \<Rightarrow> TaskClass \<Rightarrow> ptr list \<Rightarrow> queues" where
  "set_queue qs c cl xs = qs(c := (qs c)(cl := xs))"

section \<open>Library\<close>

lemma set_queue_simps [simp]: "set_queue qs c cl xs d dl = (if d = c \<and> dl = cl then xs else qs d dl)"
  by (simp add: set_queue_def)

lemma class_valid: "cl \<noteq> TASK_CLASS_INVALID \<Longrightarrow> cl \<in> valid_classes"
  by (simp add: valid_classes_def)

lemma valid_classes_eq: "valid_classes = set all_classes"
  by (auto simp: valid_classes_def) (meson TaskClass.exhaust)

lemma mem_cpu_tasks: "x \<in> set (cpu_tasks qs c) \<longleftrightarrow> (\<exists>cl \<in> valid_classes. x \<in> set (qs c cl))"
  by (simp add: cpu_tasks_def valid_classes_eq)

lemma mem_queued: "x \<in> queued s qs \<longleftrightarrow> (\<exists>c < length (ss_cpus s). \<exists>cl \<in> valid_classes. x \<in> set (qs c cl))"
  by (auto simp: queued_def mem_cpu_tasks)

lemma length_cpu_tasks: "length (cpu_tasks qs c) = (\<Sum>cl \<leftarrow> all_classes. length (qs c cl))"
  by (simp add: cpu_tasks_def)

lemma length_set_queue:
  assumes "cl \<in> valid_classes"
  shows "length (cpu_tasks (set_queue qs c cl xs) d) + (if d = c then length (qs c cl) else 0)
    = length (cpu_tasks qs d) + (if d = c then length xs else 0)"
  using assms by (auto simp: length_cpu_tasks valid_classes_eq)

lemma queue_ok_cong:
  assumes "\<forall>x \<in> set xs. t_next (h' x) = t_next (h x) \<and> t_prio (h' x) = t_prio (h x) \<and> t_class (h' x) = t_class (h x) \<and> t_state (h' x) = t_state (h x)"
  shows "queue_ok h' p cl xs = queue_ok h p cl xs"
proof -
  have "tlist h' p xs = tlist h p xs" using assms by (intro tlist_cong) auto
  moreover have "sorted_wrt (\<lambda>a b. prio_of h' a \<le> prio_of h' b) xs = sorted_wrt (\<lambda>a b. prio_of h a \<le> prio_of h b) xs"
    using assms sorted_wrt_mono_rel [of xs "\<lambda>a b. prio_of h a \<le> prio_of h b" "\<lambda>a b. prio_of h' a \<le> prio_of h' b"]
      sorted_wrt_mono_rel [of xs "\<lambda>a b. prio_of h' a \<le> prio_of h' b" "\<lambda>a b. prio_of h a \<le> prio_of h b"] by auto
  ultimately show ?thesis using assms by (auto simp: queue_ok_def)
qed

lemma queue_ok_NULL: "queue_ok h p cl xs \<Longrightarrow> NULL \<notin> set xs"
  by (auto simp: queue_ok_def dest: tlist_not_NULL)

lemma queues_okD:
  assumes "queues_ok s qs" "c < length (ss_cpus s)"
  shows "\<And>cl. cl \<in> valid_classes \<Longrightarrow> queue_ok (ss_heap s) (cs_head (ss_cpus s ! c) cl) cl (qs c cl)"
    and "unat (all_queue_total (ss_cpus s ! c)) = length (cpu_tasks qs c)"
    and "\<And>d cl dl. d < length (ss_cpus s) \<Longrightarrow> cl \<in> valid_classes \<Longrightarrow> dl \<in> valid_classes \<Longrightarrow> (c, cl) \<noteq> (d, dl)
      \<Longrightarrow> set (qs c cl) \<inter> set (qs d dl) = {}"
  using assms by (auto simp: queues_ok_def)

lemma cpus_simps [simp]:
  "ss_cpus (upd_task t f s) = ss_cpus s" "length (ss_cpus (upd_cpu c g s)) = length (ss_cpus s)"
  "ss_heap (upd_cpu c g s) = ss_heap s" "ss_heap (upd_task t f s) = (ss_heap s)(t := f (ss_heap s t))"
  "c < length (ss_cpus s) \<Longrightarrow> ss_cpus (upd_cpu c g s) ! d = (if d = c then g (ss_cpus s ! c) else ss_cpus s ! d)"
  by (simp_all add: upd_task_def upd_cpu_def nth_list_update)

lemma queued_upd [simp]:
  "queued (upd_task t f s) qs = queued s qs" "queued (upd_cpu c g s) qs = queued s qs"
  by (simp_all add: queued_def)

lemma upd_task_queues:
  assumes "queues_ok s qs" "t \<notin> queued s qs"
  shows "queues_ok (upd_task t f s) qs"
proof -
  have "queue_ok (ss_heap (upd_task t f s)) p cl (qs c cl) = queue_ok (ss_heap s) p cl (qs c cl)"
    if "c < length (ss_cpus s)" "cl \<in> valid_classes" for p cl c
    using assms(2) that by (intro queue_ok_cong) (auto simp: mem_queued)
  then show ?thesis using assms(1) unfolding queues_ok_def by (metis (no_types, lifting) cpus_simps(1))
qed

lemma upd_current_queues:
  assumes "queues_ok s qs" "c < length (ss_cpus s)"
  shows "queues_ok (upd_cpu c (\<lambda>cpu. cpu\<lparr>cs_current := t\<rparr>) s) qs"
  using assms by (auto simp: queues_ok_def)

text \<open>Replacing one queue, with the heap unchanged outside it.\<close>

lemma replace_queue:
  assumes ok: "queues_ok s qs" and c: "c < length (ss_cpus s)" "cl \<in> valid_classes"
    and new: "queue_ok h p cl xs" "set xs \<subseteq> insert t (set (qs c cl))" "t \<notin> queued s qs \<or> t \<in> set (qs c cl)"
    and frame: "\<forall>y. y \<notin> insert t (set (qs c cl)) \<longrightarrow> h y = ss_heap s y"
    and tot: "unat tot + length (qs c cl) = length (cpu_tasks qs c) + length xs"
  defines "s' \<equiv> s\<lparr>ss_heap := h, ss_cpus := (ss_cpus s)[c := (ss_cpus s ! c)\<lparr>cs_head := (cs_head (ss_cpus s ! c))(cl := p), all_queue_total := tot\<rparr>]\<rparr>"
  shows "queues_ok s' (set_queue qs c cl xs)"
proof -
  have len: "length (ss_cpus s') = length (ss_cpus s)" by (simp add: s'_def)
  have other: "\<forall>y \<in> set (qs d dl). h y = ss_heap s y" if "d < length (ss_cpus s)" "dl \<in> valid_classes" "(d, dl) \<noteq> (c, cl)" for d dl
  proof
    fix y assume y: "y \<in> set (qs d dl)"
    have "y \<notin> set (qs c cl)" using queues_okD(3) [OF ok that(1) c(1) that(2) c(2) that(3)] y by blast
    moreover have "y \<noteq> t" using new(3) y that \<open>y \<notin> set (qs c cl)\<close> by (auto simp: mem_queued)
    ultimately show "h y = ss_heap s y" using frame by blast
  qed
  have q: "queue_ok (ss_heap s') (cs_head (ss_cpus s' ! d) dl) dl (set_queue qs c cl xs d dl)"
    if "d < length (ss_cpus s)" "dl \<in> valid_classes" for d dl
  proof (cases "d = c \<and> dl = cl")
    case True
    then show ?thesis using new(1) c by (simp add: s'_def)
  next
    case False
    have "queue_ok h (cs_head (ss_cpus s ! d) dl) dl (qs d dl)"
      using queues_okD(1) [OF ok that] other [OF that] False queue_ok_cong [of "qs d dl" h "ss_heap s"] by auto
    then show ?thesis using False that by (cases "d = c") (auto simp: s'_def)
  qed
  have n: "unat (all_queue_total (ss_cpus s' ! d)) = length (cpu_tasks (set_queue qs c cl xs) d)" if "d < length (ss_cpus s)" for d
    using queues_okD(2) [OF ok that] tot length_set_queue [OF c(2), of qs c xs d] that c(1)
    by (cases "d = c") (auto simp: s'_def)
  have dis: "set (set_queue qs c cl xs d dl) \<inter> set (set_queue qs c cl xs e el) = {}"
    if "d < length (ss_cpus s)" "e < length (ss_cpus s)" "dl \<in> valid_classes" "el \<in> valid_classes" "(d, dl) \<noteq> (e, el)" for d e dl el
  proof -
    have fresh: "set xs \<inter> set (qs f fl) = {}" if "f < length (ss_cpus s)" "fl \<in> valid_classes" "(f, fl) \<noteq> (c, cl)" for f fl
      using new(2,3) queues_okD(3) [OF ok that(1) c(1) that(2) c(2) that(3)] that by (auto simp: mem_queued)
    show ?thesis
      using fresh [of d dl] fresh [of e el] queues_okD(3) [OF ok that(1,2,3,4,5)] that by (auto split: if_splits)
  qed
  show ?thesis unfolding queues_ok_def len using q n dis by blast
qed

lemma enqueue_ok:
  assumes ok: "queues_ok s qs" and c: "c < length (ss_cpus s)" and t: "t \<noteq> NULL" "t \<notin> queued s qs"
    "t_class (ss_heap s t) = cl" "cl \<noteq> TASK_CLASS_INVALID" "t_state (ss_heap s t) = TASK_STATE_READY"
    and room: "length (cpu_tasks qs c) + 1 < 18446744073709551616"
  shows "\<exists>s'. sched_enqueue_on t c s = Some (s', True)
    \<and> queues_ok s' (set_queue qs c cl (pq_insert (prio_of (ss_heap s)) t (qs c cl)))
    \<and> (\<forall>y. \<exists>n. ss_heap s' y = (ss_heap s y)\<lparr>t_next := n\<rparr>) \<and> length (ss_cpus s') = length (ss_cpus s)
    \<and> (\<forall>d < length (ss_cpus s). cs_current (ss_cpus s' ! d) = cs_current (ss_cpus s ! d))"
proof -
  have clv: "cl \<in> valid_classes" by (rule class_valid [OF t(4)])
  let ?xs = "qs c cl" and ?cpu = "ss_cpus s ! c"
  have q: "queue_ok (ss_heap s) (cs_head ?cpu cl) cl ?xs" by (rule queues_okD(1) [OF ok c clv])
  have nin: "t \<notin> set ?xs" using t(2) c clv by (auto simp: mem_queued)
  obtain h p where hp: "task_pq_push (ss_heap s) (cs_head ?cpu cl) t = Some (h, p)"
    "tlist h p (pq_insert (prio_of (ss_heap s)) t ?xs)" "\<forall>y. y \<notin> insert t (set ?xs) \<longrightarrow> h y = ss_heap s y"
    "\<forall>y. \<exists>n. h y = (ss_heap s y)\<lparr>t_next := n\<rparr>"
    using push_ok [of "ss_heap s" "cs_head ?cpu cl" ?xs t] q nin t(1) by (auto simp: queue_ok_def)
  have fld: "t_prio (h y) = t_prio (ss_heap s y)" "t_class (h y) = t_class (ss_heap s y)" "t_state (h y) = t_state (ss_heap s y)" for y
    using spec [OF hp(4), of y] by auto
  have "queue_ok h p cl (pq_insert (prio_of (ss_heap s)) t ?xs)"
    using hp(2) fld q t pq_insert_sorted [of "prio_of (ss_heap s)" ?xs t] by (auto simp: queue_ok_def)
  moreover have "unat (all_queue_total ?cpu + 1) + length ?xs = length (cpu_tasks qs c) + Suc (length ?xs)"
    using queues_okD(2) [OF ok c] room by (subst unat_add_u64) auto
  ultimately have "queues_ok (s\<lparr>ss_heap := h, ss_cpus := (ss_cpus s)[c := ?cpu\<lparr>cs_head := (cs_head ?cpu)(cl := p),
      all_queue_total := all_queue_total ?cpu + 1\<rparr>]\<rparr>) (set_queue qs c cl (pq_insert (prio_of (ss_heap s)) t ?xs))"
    using t(2) hp(3) by (intro replace_queue [OF ok c clv]) auto
  then show ?thesis using hp(1,4) t(3,4) c by (simp add: sched_enqueue_on_def Let_def nth_list_update)
qed

section \<open>Library: scheduling\<close>

lemma queuedI: "c < length (ss_cpus s) \<Longrightarrow> cl \<in> valid_classes \<Longrightarrow> x \<in> set (qs c cl) \<Longrightarrow> x \<in> queued s qs"
  by (auto simp: mem_queued)

lemma queuedE:
  assumes "x \<in> queued s qs"
  obtains c cl where "c < length (ss_cpus s)" "cl \<in> valid_classes" "x \<in> set (qs c cl)"
  using assms by (auto simp: mem_queued)

lemma queues_ok_NULL: "queues_ok s qs \<Longrightarrow> NULL \<notin> queued s qs"
  by (auto simp: mem_queued dest: queues_okD(1) queue_ok_NULL)

lemma pop_queue:
  assumes ok: "queues_ok s qs" and c: "c < length (ss_cpus s)" "cl \<in> valid_classes" and q: "qs c cl = x # xs"
  defines "s1 \<equiv> upd_cpu c (\<lambda>cpu. cpu\<lparr>cs_head := (cs_head cpu)(cl := t_next (ss_heap s x)), all_queue_total := all_queue_total cpu - 1\<rparr>)
       (s\<lparr>ss_heap := set_next x NULL (ss_heap s)\<rparr>)"
  shows "cs_head (ss_cpus s ! c) cl = x \<and> x \<noteq> NULL \<and> t_class (ss_heap s x) = cl
    \<and> task_pq_pop (ss_heap s) x = (set_next x NULL (ss_heap s), t_next (ss_heap s x), x)
    \<and> queues_ok s1 (set_queue qs c cl xs) \<and> x \<notin> queued s1 (set_queue qs c cl xs)"
proof -
  have qo: "queue_ok (ss_heap s) (cs_head (ss_cpus s ! c) cl) cl (x # xs)" using queues_okD(1) [OF ok c] q by simp
  then have tl: "tlist (ss_heap s) (cs_head (ss_cpus s ! c) cl) (x # xs)" by (simp add: queue_ok_def)
  note p = pop_ok [OF tl]
  have d: "x \<notin> set xs" using tlist_distinct [OF tl] by simp
  have "queue_ok (set_next x NULL (ss_heap s)) (t_next (ss_heap s x)) cl xs"
    using qo p d by (auto simp: queue_ok_def)
  moreover have "unat (all_queue_total (ss_cpus s ! c) - 1) + length (qs c cl) = length (cpu_tasks qs c) + length xs"
  proof -
    have "length (qs c cl) \<le> length (cpu_tasks qs c)" using c(2) by (auto simp: length_cpu_tasks valid_classes_eq)
    then have "1 \<le> unat (all_queue_total (ss_cpus s ! c))" using queues_okD(2) [OF ok c(1)] q by simp
    then have "unat (all_queue_total (ss_cpus s ! c) - 1) = unat (all_queue_total (ss_cpus s ! c)) - 1" by (subst unat_sub_u64) auto
    then show ?thesis using queues_okD(2) [OF ok c(1)] q \<open>1 \<le> unat _\<close> by simp
  qed
  ultimately have "queues_ok (s\<lparr>ss_heap := set_next x NULL (ss_heap s), ss_cpus := (ss_cpus s)[c := (ss_cpus s ! c)\<lparr>cs_head :=
      (cs_head (ss_cpus s ! c))(cl := t_next (ss_heap s x)), all_queue_total := all_queue_total (ss_cpus s ! c) - 1\<rparr>]\<rparr>) (set_queue qs c cl xs)"
    using q by (intro replace_queue [OF ok c, where t = x]) (auto simp: set_next_def)
  then have ok1: "queues_ok s1 (set_queue qs c cl xs)" by (simp add: s1_def upd_cpu_def)
  have "x \<notin> queued s1 (set_queue qs c cl xs)"
    using d queues_okD(3) [OF ok _ c(1) _ c(2)] q
    by (fastforce simp: s1_def mem_queued split: if_splits)
  then show ?thesis using tl p ok1 qo by (auto simp: queue_ok_def)
qed

text \<open>What a switch does to the queues: the candidate leaves its queue, a running current task
  is put back.\<close>

definition put_back :: "task_heap \<Rightarrow> queues \<Rightarrow> nat \<Rightarrow> ptr \<Rightarrow> queues" where
  "put_back h qs c current =
     (if current \<noteq> NULL \<and> t_state (h current) = TASK_STATE_RUNNING
      then set_queue qs c (t_class (h current)) (pq_insert (prio_of h) current (qs c (t_class (h current))))
      else qs)"

definition next_queues :: "task_heap \<Rightarrow> queues \<Rightarrow> nat \<Rightarrow> TaskClass \<Rightarrow> ptr \<Rightarrow> queues" where
  "next_queues h qs c cl current = put_back h (set_queue qs c cl (tl (qs c cl))) c current"

lemma requeue_ok:
  assumes ok: "queues_ok s qs" and c: "c < length (ss_cpus s)" and t: "t \<notin> queued s qs"
    "t \<noteq> NULL \<longrightarrow> t_class (ss_heap s t) \<noteq> TASK_CLASS_INVALID"
    and room: "length (cpu_tasks qs c) + 1 < 18446744073709551616"
  shows "\<exists>s3. (if t \<noteq> NULL \<and> t_state (ss_heap s t) = TASK_STATE_RUNNING
        then map_option fst (sched_enqueue_on t c (upd_task t (\<lambda>t. t\<lparr>t_state := TASK_STATE_READY\<rparr>) s)) else Some s) = Some s3
     \<and> queues_ok s3 (put_back (ss_heap s) qs c t) \<and> length (ss_cpus s3) = length (ss_cpus s)
     \<and> queued s3 (put_back (ss_heap s) qs c t) \<subseteq> insert t (queued s qs)
     \<and> (\<forall>d < length (ss_cpus s). cs_current (ss_cpus s3 ! d) = cs_current (ss_cpus s ! d))"
proof (cases "t \<noteq> NULL \<and> t_state (ss_heap s t) = TASK_STATE_RUNNING")
  case False
  then show ?thesis using ok by (auto simp: put_back_def)
next
  case True
  define s2 where "s2 = upd_task t (\<lambda>t. t\<lparr>t_state := TASK_STATE_READY\<rparr>) s"
  let ?cl = "t_class (ss_heap s t)"
  have "queues_ok s2 qs" unfolding s2_def using ok t(1) by (rule upd_task_queues)
  then have "\<exists>s3. sched_enqueue_on t c s2 = Some (s3, True)
      \<and> queues_ok s3 (set_queue qs c ?cl (pq_insert (prio_of (ss_heap s2)) t (qs c ?cl)))
      \<and> (\<forall>y. \<exists>n. ss_heap s3 y = (ss_heap s2 y)\<lparr>t_next := n\<rparr>) \<and> length (ss_cpus s3) = length (ss_cpus s2)
      \<and> (\<forall>d < length (ss_cpus s2). cs_current (ss_cpus s3 ! d) = cs_current (ss_cpus s2 ! d))"
    using c True t room by (intro enqueue_ok) (auto simp: s2_def)
  then obtain s3 where s3: "sched_enqueue_on t c s2 = Some (s3, True)"
      "queues_ok s3 (set_queue qs c ?cl (pq_insert (prio_of (ss_heap s2)) t (qs c ?cl)))"
      "length (ss_cpus s3) = length (ss_cpus s2)" "\<forall>d < length (ss_cpus s2). cs_current (ss_cpus s3 ! d) = cs_current (ss_cpus s2 ! d)"
    by blast
  have "(\<lambda>y. prio_of (ss_heap s2) y) = (\<lambda>y. prio_of (ss_heap s) y)" by (auto simp: s2_def)
  then have pb: "set_queue qs c ?cl (pq_insert (prio_of (ss_heap s2)) t (qs c ?cl)) = put_back (ss_heap s) qs c t"
    using True by (simp add: put_back_def)
  have "queued s3 (put_back (ss_heap s) qs c t) \<subseteq> insert t (queued s qs)"
    unfolding pb [symmetric] using s3(3) by (auto simp: mem_queued s2_def split: if_splits)
  then show ?thesis using True s3 pb by (simp add: s2_def)
qed

lemma switch_ok:
  assumes ok: "sched_ok s qs" and c: "c < length (ss_cpus s)" "cl \<in> valid_classes" and q: "qs c cl = x # xs"
    and room: "length (cpu_tasks qs c) + 1 < 18446744073709551616"
    and cur: "current = cs_current (ss_cpus s ! c)" "current \<noteq> NULL \<longrightarrow> t_class (ss_heap s current) \<noteq> TASK_CLASS_INVALID"
  shows "\<exists>s'. switch_to c cl s = Some s' \<and> sched_ok s' (next_queues (ss_heap s) qs c cl current)
    \<and> cs_current (ss_cpus s' ! c) = x \<and> t_state (ss_heap s' x) = TASK_STATE_RUNNING \<and> ts_remain (ss_heap s' x) = DEFAULT_TIMESLICE
    \<and> (\<forall>d < length (ss_cpus s). d \<noteq> c \<longrightarrow> cs_current (ss_cpus s' ! d) = cs_current (ss_cpus s ! d))"
proof -
  let ?q1 = "set_queue qs c cl xs"
  define s1 where "s1 = upd_cpu c (\<lambda>cpu. cpu\<lparr>cs_head := (cs_head cpu)(cl := t_next (ss_heap s x)), all_queue_total := all_queue_total cpu - 1\<rparr>)
       (s\<lparr>ss_heap := set_next x NULL (ss_heap s)\<rparr>)"
  have okq: "queues_ok s qs" "currents_ok s qs" using ok by (auto simp: sched_ok_def)
  note p = pop_queue [OF okq(1) c q, folded s1_def]
  have xq: "x \<in> queued s qs" using c q by (auto simp: mem_queued intro!: exI [of _ c] bexI [of _ cl])
  have len: "length (ss_cpus s1) = length (ss_cpus s)" by (simp add: s1_def upd_cpu_def)
  have curs: "cs_current (ss_cpus s1 ! d) = cs_current (ss_cpus s ! d)" if "d < length (ss_cpus s)" for d
    using c(1) that by (simp add: s1_def upd_cpu_def nth_list_update)
  have cq: "cs_current (ss_cpus s ! d) \<notin> queued s qs" if "d < length (ss_cpus s)" for d
    using okq(2) that by (simp add: currents_ok_def)
  have sub1: "queued s1 ?q1 \<subseteq> queued s qs"
  proof
    fix y assume "y \<in> queued s1 ?q1"
    then obtain d dl where "d < length (ss_cpus s)" "dl \<in> valid_classes" "y \<in> set (?q1 d dl)" using len by (auto elim: queuedE)
    then show "y \<in> queued s qs" using q by (intro queuedI [of d s dl]) (auto split: if_splits)
  qed
  have curx: "current \<noteq> x" using cq [OF c(1)] xq cur(1) by auto
  have curq1: "current \<notin> queued s1 ?q1" using cq [OF c(1)] sub1 cur(1) by auto
  have h1: "ss_heap s1 current = ss_heap s current" using curx by (simp add: s1_def upd_cpu_def set_next_def)
  define s2 where "s2 = upd_task current (\<lambda>t. t\<lparr>t_state := TASK_STATE_READY\<rparr>) s1"
  have "length (cpu_tasks ?q1 c) + 1 < 18446744073709551616"
    using length_set_queue [OF c(2), of qs c xs c] q room by simp
  then have "\<exists>s3. (if current \<noteq> NULL \<and> t_state (ss_heap s1 current) = TASK_STATE_RUNNING
        then map_option fst (sched_enqueue_on current c s2) else Some s1) = Some s3
     \<and> queues_ok s3 (put_back (ss_heap s1) ?q1 c current) \<and> length (ss_cpus s3) = length (ss_cpus s1)
     \<and> queued s3 (put_back (ss_heap s1) ?q1 c current) \<subseteq> insert current (queued s1 ?q1)
     \<and> (\<forall>d < length (ss_cpus s1). cs_current (ss_cpus s3 ! d) = cs_current (ss_cpus s1 ! d))"
    unfolding s2_def using p c len curq1 h1 cur(2) by (intro requeue_ok) auto
  moreover have "put_back (ss_heap s1) ?q1 c current = next_queues (ss_heap s) qs c cl current"
  proof -
    have "(\<lambda>y. prio_of (ss_heap s1) y) = (\<lambda>y. prio_of (ss_heap s) y)" by (auto simp: s1_def upd_cpu_def)
    then show ?thesis using h1 q by (simp add: next_queues_def put_back_def Let_def)
  qed
  ultimately have "\<exists>s3. (if current \<noteq> NULL \<and> t_state (ss_heap s1 current) = TASK_STATE_RUNNING
        then map_option fst (sched_enqueue_on current c s2) else Some s1) = Some s3
     \<and> queues_ok s3 (next_queues (ss_heap s) qs c cl current) \<and> length (ss_cpus s3) = length (ss_cpus s)
     \<and> queued s3 (next_queues (ss_heap s) qs c cl current) \<subseteq> insert current (queued s1 ?q1)
     \<and> (\<forall>d < length (ss_cpus s). cs_current (ss_cpus s3 ! d) = cs_current (ss_cpus s ! d))"
    using len curs by auto
  then obtain s3 where s3: "(if current \<noteq> NULL \<and> t_state (ss_heap s1 current) = TASK_STATE_RUNNING
        then map_option fst (sched_enqueue_on current c s2) else Some s1) = Some s3"
     "queues_ok s3 (next_queues (ss_heap s) qs c cl current)" "length (ss_cpus s3) = length (ss_cpus s)"
     "queued s3 (next_queues (ss_heap s) qs c cl current) \<subseteq> insert current (queued s1 ?q1)"
     "\<forall>d < length (ss_cpus s). cs_current (ss_cpus s3 ! d) = cs_current (ss_cpus s ! d)" by blast
  let ?q = "next_queues (ss_heap s) qs c cl current"
  have xn: "x \<notin> queued s3 ?q" using s3(4) p curx by auto
  define s4 where "s4 = upd_cpu c (\<lambda>cpu. cpu\<lparr>cs_current := x\<rparr>)
      (upd_task x (\<lambda>t. t\<lparr>ts_remain := DEFAULT_TIMESLICE, t_state := TASK_STATE_RUNNING\<rparr>) s3)"
  have sw: "switch_to c cl s = Some s4"
  proof -
    have pop: "task_pq_pop (ss_heap s) (cs_head (ss_cpus s ! c) cl) = (set_next x NULL (ss_heap s), t_next (ss_heap s x), x)"
      using p by simp
    show ?thesis
      by (simp only: switch_to_def Let_def pop prod.case cur(1) [symmetric] s1_def [symmetric] s2_def [symmetric] s3(1)
          option.map s4_def)
  qed
  have q4: "queues_ok s4 ?q" unfolding s4_def using s3(2,3) xn c by (intro upd_current_queues upd_task_queues) auto
  have cur4: "cs_current (ss_cpus s4 ! d) = (if d = c then x else cs_current (ss_cpus s ! d))" if "d < length (ss_cpus s)" for d
    using that s3(3,5) c(1) by (simp add: s4_def)
  have len4: "length (ss_cpus s4) = length (ss_cpus s)" using s3(3) by (simp add: s4_def)
  have qd4: "queued s4 ?q = queued s3 ?q" by (simp add: s4_def)
  have "currents_ok s4 ?q"
    unfolding currents_ok_def len4 qd4
  proof (intro conjI allI impI)
    fix d assume d: "d < length (ss_cpus s)"
    show "cs_current (ss_cpus s4 ! d) \<notin> queued s3 ?q"
    proof (cases "d = c")
      case False
      have "cs_current (ss_cpus s ! d) = current \<longrightarrow> current = NULL"
        using okq(2) d c(1) False unfolding cur(1) currents_ok_def by metis
      moreover have "NULL \<notin> queued s3 ?q" by (rule queues_ok_NULL [OF s3(2)])
      ultimately show ?thesis using cur4 [OF d] False s3(4) sub1 cq [OF d] by auto
    qed (use xn cur4 [OF d] in simp)
  next
    fix d e assume "d < length (ss_cpus s)" "e < length (ss_cpus s)" "d \<noteq> e \<and> cs_current (ss_cpus s4 ! d) \<noteq> NULL"
    then show "cs_current (ss_cpus s4 ! d) \<noteq> cs_current (ss_cpus s4 ! e)"
      using cur4 okq(2) cq xq by (auto simp: currents_ok_def split: if_splits)
  qed
  then have "sched_ok s4 ?q" using q4 by (simp add: sched_ok_def)
  moreover have "t_state (ss_heap s4 x) = TASK_STATE_RUNNING" "ts_remain (ss_heap s4 x) = DEFAULT_TIMESLICE"
    by (simp_all add: s4_def)
  ultimately show ?thesis using sw cur4 c by simp
qed


text \<open>The class \<^verbatim>\<open>sched_schedule\<close> takes its candidate from, over the queue lists.\<close>

definition top_class :: "queues \<Rightarrow> nat \<Rightarrow> TaskClass option" where
  "top_class qs c = find (\<lambda>cl. qs c cl \<noteq> []) all_classes"

lemma candidate_top:
  assumes "queues_ok s qs" "c < length (ss_cpus s)"
  shows "candidate_class (ss_cpus s ! c) = top_class qs c"
proof -
  have "cs_head (ss_cpus s ! c) cl \<noteq> NULL \<longleftrightarrow> qs c cl \<noteq> []" if "cl \<in> valid_classes" for cl
    using queues_okD(1) [OF assms that] by (cases "qs c cl") (auto simp: queue_ok_def)
  then show ?thesis by (simp add: candidate_class_def top_class_def task_pq_peek_def valid_classes_def)
qed

lemma top_class_Some:
  assumes "top_class qs c = Some cl"
  shows "cl \<in> valid_classes" "qs c cl \<noteq> []" "\<And>dl. dl \<in> valid_classes \<Longrightarrow> qs c dl \<noteq> [] \<Longrightarrow> class_num dl \<le> class_num cl"
  using assms by (auto simp: top_class_def valid_classes_eq split: if_splits)

text \<open>One tick of the current task's timeslice.\<close>

definition ticked :: "Task \<Rightarrow> Task" where
  "ticked t = (if ts_remain t > 0 then t\<lparr>ts_remain := ts_remain t - 1\<rparr> else t)"

lemma ticks_left: "0 < ts_remain (ticked t) \<longleftrightarrow> 1 < ts_remain t"
proof (cases "ts_remain t = 0")
  case False
  then have "unat (ts_remain t - 1) = unat (ts_remain t) - 1" by (simp add: unat_minus_one)
  then show ?thesis using False by (simp add: ticked_def word_less_nat_alt unat_gt_0)
qed (simp add: ticked_def)

lemma tick_ok:
  assumes "sched_ok s qs" "c < length (ss_cpus s)" "current = cs_current (ss_cpus s ! c)"
  shows "sched_ok (upd_task current ticked s) qs"
proof -
  have "current \<notin> queued s qs" using assms by (auto simp: sched_ok_def currents_ok_def)
  then show ?thesis using assms(1) upd_task_queues by (auto simp: sched_ok_def currents_ok_def)
qed


section \<open>The CPU for a new task\<close>

text \<open>The CPU that gets a task: the first one with exactly one queued task, its idle task, if there is such a CPU, and the first one with the fewest queued tasks otherwise.\<close>

definition best_cpu :: "PerCPUSchedState list \<Rightarrow> nat \<Rightarrow> bool" where
  "best_cpu cpus c \<longleftrightarrow> c < length cpus
     \<and> (if \<exists>i < length cpus. all_queue_total (cpus ! i) = 1 then all_queue_total (cpus ! c) = 1 \<and> (\<forall>i < c. all_queue_total (cpus ! i) \<noteq> 1)
        else (\<forall>i < length cpus. all_queue_total (cpus ! c) \<le> all_queue_total (cpus ! i)) \<and> (\<forall>i < c. all_queue_total (cpus ! c) < all_queue_total (cpus ! i)))"

lemma find_target_best:
  assumes "rest = drop i cpus" "\<forall>j < i. all_queue_total (cpus ! j) \<noteq> 1" "i \<le> length cpus" "cpus \<noteq> []"
    "case target of None \<Rightarrow> i = 0
     | Some t \<Rightarrow> t < i \<and> (\<forall>j < i. all_queue_total (cpus ! t) \<le> all_queue_total (cpus ! j)) \<and> (\<forall>j < t. all_queue_total (cpus ! t) < all_queue_total (cpus ! j))"
  shows "\<exists>c. find_target i target cpus rest = Some c \<and> best_cpu cpus c"
  using assms
proof (induction rest arbitrary: i target)
  case Nil
  then obtain t where "target = Some t" "i = length cpus" by (cases target) auto
  then show ?case using Nil.prems by (auto simp: best_cpu_def)
next
  case (Cons r rest)
  have lt: "i < length cpus" using Cons.prems(1) by (metis drop_all leI list.distinct(1))
  have i: "i < length cpus" "r = cpus ! i" "rest = drop (Suc i) cpus" using lt trans [OF Cons.prems(1) Cons_nth_drop_Suc [OF lt, symmetric]] by simp_all
  show ?case
  proof (cases "all_queue_total r = 1")
    case True
    then show ?thesis using i Cons.prems(2) by (auto simp: best_cpu_def)
  next
    case False
    let ?t = "case target of None \<Rightarrow> Some i | Some t \<Rightarrow> if all_queue_total r < all_queue_total (cpus ! t) then Some i else Some t"
    have "\<forall>j < Suc i. all_queue_total (cpus ! j) \<noteq> 1" "Suc i \<le> length cpus" using Cons.prems(2) False i by (auto simp: less_Suc_eq)
    moreover have "case ?t of None \<Rightarrow> Suc i = 0
     | Some t \<Rightarrow> t < Suc i \<and> (\<forall>j < Suc i. all_queue_total (cpus ! t) \<le> all_queue_total (cpus ! j)) \<and> (\<forall>j < t. all_queue_total (cpus ! t) < all_queue_total (cpus ! j))"
      using Cons.prems(5) i(2) by (auto simp: less_Suc_eq not_less split: option.splits if_splits intro: less_imp_le order_less_le_trans)
    ultimately obtain c where "find_target (Suc i) ?t cpus rest = Some c" "best_cpu cpus c" using Cons.IH [OF i(3) _ _ Cons.prems(4)] by blast
    then show ?thesis using False by simp
  qed
qed

lemma target_cpu_best: "ss_cpus s \<noteq> [] \<Longrightarrow> \<exists>c. sched_find_target_cpu s = Some c \<and> best_cpu (ss_cpus s) c"
  using find_target_best [of "ss_cpus s" 0 "ss_cpus s" None] by (simp add: sched_find_target_cpu_def)

section \<open>Properties\<close>

text \<open>A class that is not above another one, by the order from the highest to the lowest.\<close>

definition not_above :: "TaskClass \<Rightarrow> TaskClass \<Rightarrow> bool" where
  "not_above cl dl \<longleftrightarrow> cl \<in> set (dropWhile (\<lambda>e. e \<noteq> dl) [TASK_CLASS_REALTIME, TASK_CLASS_HIGH, TASK_CLASS_NORMAL, TASK_CLASS_IDLE])"

lemma not_above_num: "cl \<in> valid_classes \<Longrightarrow> dl \<noteq> TASK_CLASS_INVALID \<Longrightarrow> not_above cl dl \<longleftrightarrow> class_num cl \<le> class_num dl"
  by (cases cl; cases dl) (simp_all add: not_above_def valid_classes_def)

text \<open>C8: a scheduling decision on a well-formed state always ends, and follows the rules: with no
  queued task nothing changes; otherwise, unless the current task is being killed, the
  current task keeps its CPU, with one tick less, exactly when it is not blocked, has more than one tick of its timeslice left and no queued task is
  of a higher class; otherwise the CPU switches to the first task of the highest non-empty class, which
  gets a full timeslice of ten ticks, while a running task that lost the CPU goes back to its own queue.
  The queues stay ordered, disjoint and correctly counted: no task is lost or duplicated.\<close>

theorem sched_schedule_correct:
  assumes ok: "sched_ok s qs" and c: "c < length (ss_cpus s)" and room: "length (cpu_tasks qs c) + 1 < 18446744073709551616"
    and cur: "current = cs_current (ss_cpus s ! c)" and cls: "current \<noteq> NULL \<longrightarrow> t_class (ss_heap s current) \<noteq> TASK_CLASS_INVALID"
    and live: "current \<noteq> NULL \<longrightarrow> status_flags (ss_heap s current) AND 1 = 0 \<or> status_flags (ss_heap s current) AND 2 \<noteq> 0"
  shows "\<exists>s'. sched_schedule c s = Some (Continues s') \<and>
    (case top_class qs c of
       None \<Rightarrow> s' = s
     | Some cl \<Rightarrow>
         if current \<noteq> NULL \<and> t_state (ss_heap s current) \<noteq> TASK_STATE_BLOCKED \<and> 1 < ts_remain (ss_heap s current)
           \<and> not_above cl (t_class (ss_heap s current))
         then s' = s\<lparr>ss_heap := (ss_heap s)(current := (ss_heap s current)\<lparr>ts_remain := ts_remain (ss_heap s current) - 1\<rparr>)\<rparr> \<and> sched_ok s' qs
           \<and> (\<forall>dl \<in> valid_classes. qs c dl \<noteq> [] \<longrightarrow> not_above dl (t_class (ss_heap s current)))
         else sched_ok s' (next_queues (ss_heap s) qs c cl current)
           \<and> cs_current (ss_cpus s' ! c) = hd (qs c cl) \<and> t_state (ss_heap s' (hd (qs c cl))) = TASK_STATE_RUNNING
           \<and> ts_remain (ss_heap s' (hd (qs c cl))) = 10
           \<and> (\<forall>d < length (ss_cpus s). d \<noteq> c \<longrightarrow> cs_current (ss_cpus s' ! d) = cs_current (ss_cpus s ! d)))"
proof (cases "top_class qs c")
  case None
  then show ?thesis using candidate_top [of s qs c] ok c by (simp add: sched_schedule_def sched_ok_def)
next
  case (Some cl)
  have okq: "queues_ok s qs" using ok by (simp add: sched_ok_def)
  note top = top_class_Some [OF Some]
  obtain x xs where q: "qs c cl = x # xs" using top(2) by (cases "qs c cl") auto
  have cand: "candidate_class (ss_cpus s ! c) = Some cl" using candidate_top [OF okq c] Some by simp
  have x: "cs_head (ss_cpus s ! c) cl = x" "x \<noteq> NULL" "t_class (ss_heap s x) = cl" "x \<in> queued s qs"
    using pop_queue [OF okq c top(1) q] queuedI [OF c top(1), of x qs] q by auto
  show ?thesis
  proof (cases "current = NULL")
    case True
    then show ?thesis using switch_ok [OF ok c top(1) q room cur cls] Some cand cur q
      by (auto simp: sched_schedule_def Let_def DEFAULT_TIMESLICE_def)
  next
    case False
    define s1 where "s1 = upd_task current ticked s"
    have ok1: "sched_ok s1 qs" unfolding s1_def using tick_ok [OF ok c cur] .
    have cx: "current \<noteq> x" using ok c cur x(4) by (auto simp: sched_ok_def currents_ok_def)
    have h1: "ss_heap s1 current = ticked (ss_heap s current)" "ss_heap s1 x = ss_heap s x" "ss_cpus s1 = ss_cpus s"
      using cx by (auto simp: s1_def)
    have fld: "t_class (ticked t) = t_class t" "status_flags (ticked t) = status_flags t" "t_state (ticked t) = t_state t"
      "t_prio (ticked t) = t_prio t" for t by (simp_all add: ticked_def)
    have ev: "sched_schedule c s = (if timeslice_continues (ticked (ss_heap s current)) (ss_heap s x) then Some (Continues s1)
        else map_option Continues (switch_to c cl s1))"
    proof -
      have tk: "(\<lambda>t. if ts_remain t > 0 then t\<lparr>ts_remain := ts_remain t - 1\<rparr> else t) = ticked"
        by (auto simp: ticked_def)
      show ?thesis
        unfolding sched_schedule_def Let_def cur [symmetric] cand option.case tk s1_def [symmetric] x(1)
        using live False h1 fld by (auto simp: thread_to_be_killed_def TASK_SCHED_FLAG_KILLED_def TASK_SCHED_FLAG_DYING_def)
    qed
    let ?go = "t_state (ss_heap s current) \<noteq> TASK_STATE_BLOCKED \<and> 1 < ts_remain (ss_heap s current) \<and> not_above cl (t_class (ss_heap s current))"
    have na: "not_above dl (t_class (ss_heap s current)) \<longleftrightarrow> class_num dl \<le> class_num (t_class (ss_heap s current))" if "dl \<in> valid_classes" for dl
      using not_above_num [OF that] cls False by blast
    have go: "timeslice_continues (ticked (ss_heap s current)) (ss_heap s x) \<longleftrightarrow> ?go"
      unfolding na [OF top(1)] timeslice_continues_def fld x(3) ticks_left by auto
    show ?thesis
    proof (cases ?go)
      case True
      note tc = True
      then have tk1: "upd_task current ticked s = s\<lparr>ss_heap := (ss_heap s)(current := (ss_heap s current)\<lparr>ts_remain := ts_remain (ss_heap s current) - 1\<rparr>)\<rparr>"
        by (auto simp: upd_task_def ticked_def intro: word_gt_0 [THEN iffD2])
      have "timeslice_continues (ticked (ss_heap s current)) (ss_heap s x)" using True go by blast
      then have "class_num cl \<le> class_num (t_class (ss_heap s current))" using x(3) fld by (auto simp: timeslice_continues_def)
      then have "\<forall>dl \<in> valid_classes. qs c dl \<noteq> [] \<longrightarrow> not_above dl (t_class (ss_heap s current))"
        using top(3) na by (meson le_trans)
      then show ?thesis using tc go ev Some q False ok1 tk1 by (simp add: s1_def)
    next
      case sw: False
      have "(\<lambda>y. prio_of (ss_heap s1) y) = (\<lambda>y. prio_of (ss_heap s) y)" by (auto simp: s1_def fld)
      then have nq: "next_queues (ss_heap s1) qs c cl current = next_queues (ss_heap s) qs c cl current"
        using h1 fld by (simp add: next_queues_def put_back_def)
      have "current = cs_current (ss_cpus s1 ! c)" "current \<noteq> NULL \<longrightarrow> t_class (ss_heap s1 current) \<noteq> TASK_CLASS_INVALID"
        using cur cls h1 fld by auto
      from switch_ok [OF ok1 _ top(1) q room this] show ?thesis
        using sw go ev Some q False c h1(3) nq by (auto simp: DEFAULT_TIMESLICE_def)
    qed
  qed
qed

definition demo_task :: "TaskState \<Rightarrow> u8 \<Rightarrow> Task" where
  "demo_task st pr = \<lparr>t_next = NULL, ts_remain = 0, t_state = st, t_class = TASK_CLASS_NORMAL, t_prio = pr, status_flags = 0\<rparr>"

definition demo_sched :: sched_state where
  "demo_sched = \<lparr>ss_heap = (\<lambda>p. if p = 0x1000 then demo_task TASK_STATE_RUNNING 3 else demo_task TASK_STATE_READY 5),
     ss_cpus = [\<lparr>cs_head = (\<lambda>cl. if cl = TASK_CLASS_NORMAL then 0x2000 else NULL), all_queue_total = 1, cs_current = 0x1000\<rparr>]\<rparr>"

definition demo_qs :: queues where
  "demo_qs c cl = (if cl = TASK_CLASS_NORMAL then [0x2000] else [])"

lemma demo_sched_ok: "sched_ok demo_sched demo_qs"
  by (auto simp: sched_ok_def queues_ok_def currents_ok_def queue_ok_def demo_sched_def demo_qs_def demo_task_def cpu_tasks_def queued_def)

theorem sched_schedule_correct_witness:
  "\<exists>s'. sched_schedule 0 demo_sched = Some (Continues s') \<and> cs_current (ss_cpus s' ! 0) = 0x2000"
  using sched_schedule_correct [OF demo_sched_ok, of 0 "0x1000"]
  by (auto simp: top_class_def demo_qs_def cpu_tasks_def)
    (auto simp: demo_sched_def demo_task_def demo_qs_def)

end
