(* ===== verification/Sched_Wait.thy ===== *)
theory Sched_Wait
  imports Sched
begin

text \<open>
  What the clients of the scheduler share: waking one task (\<^verbatim>\<open>sched_unblock_on\<close>) and giving up the
  CPU after blocking (\<^verbatim>\<open>sched_block\<close> followed by \<^verbatim>\<open>sched_schedule\<close>), as laws over the queues of
  \<open>Sched\<close>. The mutex, the sleep queue and the message channels are proved over these laws.
\<close>

section \<open>Waking\<close>

text \<open>The queues after a task is made ready on a CPU.\<close>

definition woken :: "task_heap \<Rightarrow> queues \<Rightarrow> nat \<Rightarrow> ptr \<Rightarrow> queues" where
  "woken h qs c t = set_queue qs c (t_class (h t)) (pq_insert (prio_of h) t (qs c (t_class (h t))))"

text \<open>A task that can be woken: it exists, has a class, and is on no run queue.\<close>

definition wakeable :: "sched_state \<Rightarrow> queues \<Rightarrow> ptr \<Rightarrow> bool" where
  "wakeable s qs t \<longleftrightarrow> t \<noteq> NULL \<and> t \<notin> queued s qs \<and> t_class (ss_heap s t) \<noteq> TASK_CLASS_INVALID"

definition has_room :: "sched_state \<Rightarrow> queues \<Rightarrow> nat \<Rightarrow> bool" where
  "has_room s qs n \<longleftrightarrow> (\<forall>c < length (ss_cpus s). length (cpu_tasks qs c) + n < 18446744073709551616)"

text \<open>A task that waits for an event: blocked, on no run queue, current on no CPU.\<close>

definition waiter_ok :: "sched_state \<Rightarrow> queues \<Rightarrow> ptr \<Rightarrow> bool" where
  "waiter_ok s qs w \<longleftrightarrow> wakeable s qs w \<and> t_state (ss_heap s w) = TASK_STATE_BLOCKED
     \<and> (\<forall>d < length (ss_cpus s). cs_current (ss_cpus s ! d) \<noteq> w)"

lemma has_room_mono: "has_room s qs n \<Longrightarrow> m \<le> n \<Longrightarrow> has_room s qs m"
  by (fastforce simp: has_room_def)

lemma queued_woken:
  assumes "c < length (ss_cpus s)" "t_class (h t) \<noteq> TASK_CLASS_INVALID" "length (ss_cpus s') = length (ss_cpus s)"
  shows "queued s' (woken h qs c t) = insert t (queued s qs)"
proof (rule set_eqI)
  fix x
  have v: "t_class (h t) \<in> valid_classes" by (rule class_valid [OF assms(2)])
  show "x \<in> queued s' (woken h qs c t) \<longleftrightarrow> x \<in> insert t (queued s qs)"
  proof
    assume "x \<in> queued s' (woken h qs c t)"
    then show "x \<in> insert t (queued s qs)" using v by (auto simp: mem_queued assms(3) woken_def split: if_splits)
  next
    assume "x \<in> insert t (queued s qs)"
    then consider "x = t" | d dl where "d < length (ss_cpus s)" "dl \<in> valid_classes" "x \<in> set (qs d dl)"
      by (auto simp: mem_queued)
    then show "x \<in> queued s' (woken h qs c t)"
    proof cases
      case 1
      then show ?thesis using assms(1) v by (auto simp: mem_queued assms(3) woken_def intro!: exI [of _ c] bexI [of _ "t_class (h t)"])
    next
      case 2
      then show ?thesis by (auto simp: mem_queued assms(3) woken_def intro!: exI [of _ d] bexI [of _ dl])
    qed
  qed
qed

lemma queued_tl:
  assumes "length (ss_cpus s') = length (ss_cpus s)"
  shows "queued s' (set_queue qs c cl (tl (qs c cl))) \<subseteq> queued s qs"
proof
  fix x assume "x \<in> queued s' (set_queue qs c cl (tl (qs c cl)))"
  then obtain d dl where d: "d < length (ss_cpus s)" "dl \<in> valid_classes" "x \<in> set (set_queue qs c cl (tl (qs c cl)) d dl)"
    by (auto simp: assms elim: queuedE)
  then have "x \<in> set (qs d dl)" by (cases "qs c cl") (auto split: if_splits)
  then show "x \<in> queued s qs" using d by (intro queuedI)
qed

lemma length_woken:
  assumes "t_class (h t) \<noteq> TASK_CLASS_INVALID"
  shows "length (cpu_tasks (woken h qs c t) d) = length (cpu_tasks qs d) + (if d = c then 1 else 0)"
  using length_set_queue [OF class_valid [OF assms], of qs c "pq_insert (prio_of h) t (qs c (t_class (h t)))" d]
  by (auto simp: woken_def)

lemma enqueue_frame:
  assumes ok: "queues_ok s qs" and c: "c < length (ss_cpus s)" and t: "wakeable s qs t"
    and r: "sched_enqueue_on t c s = Some (s', b)" and y: "y \<notin> insert t (queued s qs)"
  shows "ss_heap s' y = ss_heap s y"
proof -
  let ?cl = "t_class (ss_heap s t)"
  have v: "?cl \<noteq> TASK_CLASS_INVALID" "?cl \<in> valid_classes" using t class_valid by (auto simp: wakeable_def)
  have q: "tlist (ss_heap s) (cs_head (ss_cpus s ! c) ?cl) (qs c ?cl)"
    using queues_okD(1) [OF ok c v(2)] by (simp add: queue_ok_def)
  have nin: "t \<notin> set (qs c ?cl)" "y \<notin> set (qs c ?cl)" using t y c v by (auto simp: wakeable_def mem_queued)
  obtain h p where hp: "task_pq_push (ss_heap s) (cs_head (ss_cpus s ! c) ?cl) t = Some (h, p)"
    "\<forall>y. y \<notin> insert t (set (qs c ?cl)) \<longrightarrow> h y = ss_heap s y"
    using push_ok [OF q nin(1)] t by (auto simp: wakeable_def)
  then have "ss_heap s' = h" using r v by (auto simp: sched_enqueue_on_def Let_def)
  then show ?thesis using hp(2) nin y by auto
qed

lemma unblock_ok:
  assumes ok: "queues_ok s qs" and c: "c < length (ss_cpus s)" and t: "wakeable s qs t" and room: "has_room s qs (Suc n)"
  shows "\<exists>s'. sched_unblock_on t c s = Some s' \<and> queues_ok s' (woken (ss_heap s) qs c t)
    \<and> queued s' (woken (ss_heap s) qs c t) = insert t (queued s qs) \<and> has_room s' (woken (ss_heap s) qs c t) n
    \<and> length (ss_cpus s') = length (ss_cpus s)
    \<and> (\<forall>d < length (ss_cpus s). cs_current (ss_cpus s' ! d) = cs_current (ss_cpus s ! d))
    \<and> (\<forall>y. y \<notin> insert t (queued s qs) \<longrightarrow> ss_heap s' y = ss_heap s y) \<and> t_state (ss_heap s' t) = TASK_STATE_READY"
proof -
  define s1 where "s1 = upd_task t (\<lambda>t. t\<lparr>t_state := TASK_STATE_READY\<rparr>) s"
  let ?cl = "t_class (ss_heap s t)"
  have tq: "t \<noteq> NULL" "t \<notin> queued s qs" "?cl \<noteq> TASK_CLASS_INVALID" using t by (auto simp: wakeable_def)
  have ok1: "queues_ok s1 qs" unfolding s1_def using ok tq(2) by (rule upd_task_queues)
  have h1: "ss_heap s1 t = (ss_heap s t)\<lparr>t_state := TASK_STATE_READY\<rparr>" "\<And>y. y \<noteq> t \<Longrightarrow> ss_heap s1 y = ss_heap s y"
    "ss_cpus s1 = ss_cpus s" "queued s1 qs = queued s qs" by (simp_all add: s1_def)
  have pr: "prio_of (ss_heap s1) = prio_of (ss_heap s)" by (rule ext) (auto simp: s1_def)
  have "length (cpu_tasks qs c) + 1 < 18446744073709551616" using room c by (auto simp: has_room_def)
  then have "\<exists>s'. sched_enqueue_on t c s1 = Some (s', True)
    \<and> queues_ok s' (set_queue qs c ?cl (pq_insert (prio_of (ss_heap s1)) t (qs c ?cl)))
    \<and> (\<forall>y. \<exists>n. ss_heap s' y = (ss_heap s1 y)\<lparr>t_next := n\<rparr>) \<and> length (ss_cpus s') = length (ss_cpus s1)
    \<and> (\<forall>d < length (ss_cpus s1). cs_current (ss_cpus s' ! d) = cs_current (ss_cpus s1 ! d))"
    using tq c h1 by (intro enqueue_ok [OF ok1]) auto
  then obtain s' where s': "sched_enqueue_on t c s1 = Some (s', True)"
    "queues_ok s' (woken (ss_heap s) qs c t)" "\<exists>n. ss_heap s' t = (ss_heap s1 t)\<lparr>t_next := n\<rparr>"
    "length (ss_cpus s') = length (ss_cpus s)" "\<forall>d < length (ss_cpus s). cs_current (ss_cpus s' ! d) = cs_current (ss_cpus s ! d)"
    unfolding pr woken_def h1(3) by blast
  have "wakeable s1 qs t" using t h1 by (simp add: wakeable_def)
  then have fr: "\<forall>y. y \<notin> insert t (queued s qs) \<longrightarrow> ss_heap s' y = ss_heap s y"
    using enqueue_frame [of s1 qs c t s' True] ok1 s'(1) c h1 by auto
  have rm: "has_room s' (woken (ss_heap s) qs c t) n"
    using room s'(4) length_woken [of "ss_heap s" t, OF tq(3), of qs c] by (auto simp: has_room_def)
  have "sched_unblock_on t c s = Some s'" using s'(1) by (simp add: sched_unblock_on_def s1_def)
  moreover have "t_state (ss_heap s' t) = TASK_STATE_READY" using s'(3) h1(1) by auto
  ultimately show ?thesis using s' fr rm queued_woken [of c s "ss_heap s" t s' qs, OF c tq(3) s'(4)] by simp
qed

text \<open>A heap change that touches neither the run queues nor the current tasks.\<close>

lemma heap_change_ok:
  assumes ok: "sched_ok s qs" and same: "\<forall>y \<in> queued s qs. h y = ss_heap s y"
  shows "sched_ok (s\<lparr>ss_heap := h\<rparr>) qs"
proof -
  have "queue_ok h p cl (qs c cl) = queue_ok (ss_heap s) p cl (qs c cl)"
    if "c < length (ss_cpus s)" "cl \<in> valid_classes" for p c cl
    using same queuedI [OF that] by (intro queue_ok_cong) auto
  then have "queues_ok (s\<lparr>ss_heap := h\<rparr>) qs"
    using ok unfolding sched_ok_def queues_ok_def by simp
  then show ?thesis using ok by (simp add: sched_ok_def currents_ok_def queued_def)
qed

lemma currents_distinct:
  assumes "sched_ok s qs" "c < length (ss_cpus s)" "d < length (ss_cpus s)" "c \<noteq> d" "cs_current (ss_cpus s ! c) \<noteq> NULL"
  shows "cs_current (ss_cpus s ! d) \<noteq> cs_current (ss_cpus s ! c)"
proof -
  have "cs_current (ss_cpus s ! c) \<noteq> cs_current (ss_cpus s ! d)"
    using assms unfolding sched_ok_def currents_ok_def by blast
  then show ?thesis by simp
qed

section \<open>Giving up the CPU\<close>

text \<open>With the current task blocked and some task queued, \<^verbatim>\<open>sched_schedule\<close> switches to the first task of
  the highest class; the blocked task is on no queue afterwards and keeps its link.\<close>

lemma schedule_blocked:
  assumes ok: "sched_ok s qs" and c: "c < length (ss_cpus s)" and room: "has_room s qs 1"
    and cur: "current = cs_current (ss_cpus s ! c)" "current \<noteq> NULL" "t_class (ss_heap s current) \<noteq> TASK_CLASS_INVALID"
    and st: "t_state (ss_heap s current) = TASK_STATE_BLOCKED" "\<not> thread_to_be_killed (ss_heap s current)"
    and top: "top_class qs c = Some cl"
  shows "\<exists>s'. sched_schedule c s = Some (Continues s') \<and> sched_ok s' (set_queue qs c cl (tl (qs c cl)))
    \<and> cs_current (ss_cpus s' ! c) = hd (qs c cl) \<and> length (ss_cpus s') = length (ss_cpus s)
    \<and> (\<forall>d < length (ss_cpus s). d \<noteq> c \<longrightarrow> cs_current (ss_cpus s' ! d) = cs_current (ss_cpus s ! d))
    \<and> ss_heap s' current = ticked (ss_heap s current)
    \<and> (\<forall>y. y \<noteq> current \<longrightarrow> y \<noteq> hd (qs c cl) \<longrightarrow> ss_heap s' y = ss_heap s y)"
proof -
  note tc = top_class_Some [OF top]
  have okq: "queues_ok s qs" using ok by (simp add: sched_ok_def)
  obtain x xs where q: "qs c cl = x # xs" using tc(2) by (cases "qs c cl") auto
  have cand: "candidate_class (ss_cpus s ! c) = Some cl" using candidate_top [OF okq c] top by simp
  have x: "cs_head (ss_cpus s ! c) cl = x" "x \<in> queued s qs" "x \<noteq> NULL"
    using pop_queue [OF okq c tc(1) q] queuedI [OF c tc(1), of x qs] q by auto
  define s1 where "s1 = upd_task current ticked s"
  have cx: "current \<noteq> x" using ok c cur x(2) by (auto simp: sched_ok_def currents_ok_def)
  have fld: "t_class (ticked t) = t_class t" "status_flags (ticked t) = status_flags t" "t_state (ticked t) = t_state t" for t
    by (simp_all add: ticked_def)
  have h1: "ss_heap s1 current = ticked (ss_heap s current)" "ss_cpus s1 = ss_cpus s"
    "\<And>y. y \<noteq> current \<Longrightarrow> ss_heap s1 y = ss_heap s y" by (simp_all add: s1_def)
  have ok1: "sched_ok s1 qs" unfolding s1_def using tick_ok [OF ok c cur(1)] .
  have tk: "(\<lambda>t. if ts_remain t > 0 then t\<lparr>ts_remain := ts_remain t - 1\<rparr> else t) = ticked" by (auto simp: ticked_def)
  have ev: "sched_schedule c s = map_option Continues (switch_to c cl s1)"
    unfolding sched_schedule_def Let_def cur(1) [symmetric] cand option.case tk s1_def [symmetric]
    using st cur(2) h1 fld by (auto simp: thread_to_be_killed_def timeslice_continues_def)
  have curs1: "current = cs_current (ss_cpus s1 ! c)" using cur(1) h1(2) by simp
  have "current \<noteq> NULL \<longrightarrow> t_class (ss_heap s1 current) \<noteq> TASK_CLASS_INVALID"
    using cur h1 fld by auto
  from switch_ok [OF ok1 _ tc(1) q _ curs1 this] obtain s' where s': "switch_to c cl s1 = Some s'"
    "sched_ok s' (next_queues (ss_heap s1) qs c cl current)" "cs_current (ss_cpus s' ! c) = x"
    "\<forall>d < length (ss_cpus s). d \<noteq> c \<longrightarrow> cs_current (ss_cpus s' ! d) = cs_current (ss_cpus s ! d)"
    using c room h1(2) by (auto simp: has_room_def)
  have nq: "next_queues (ss_heap s1) qs c cl current = set_queue qs c cl (tl (qs c cl))"
    using st h1 fld by (simp add: next_queues_def put_back_def)
  have blk: "t_state (set_next x NULL (ss_heap s1) current) \<noteq> TASK_STATE_RUNNING" using st h1 fld by simp
  have pop: "task_pq_pop (ss_heap s1) (cs_head (ss_cpus s1 ! c) cl) = (set_next x NULL (ss_heap s1), t_next (ss_heap s1 x), x)"
    unfolding h1(2) x(1) using x(3) by (simp add: task_pq_pop_def)
  have "s' = upd_cpu c (\<lambda>cpu. cpu\<lparr>cs_current := x\<rparr>) (upd_task x (\<lambda>t. t\<lparr>ts_remain := DEFAULT_TIMESLICE, t_state := TASK_STATE_RUNNING\<rparr>)
      (upd_cpu c (\<lambda>cpu. cpu\<lparr>cs_head := (cs_head cpu)(cl := t_next (ss_heap s1 x)), all_queue_total := all_queue_total cpu - 1\<rparr>)
        (s1\<lparr>ss_heap := set_next x NULL (ss_heap s1)\<rparr>)))"
    using s'(1) blk unfolding switch_to_def Let_def pop curs1 [symmetric] by simp
  then have "ss_heap s' y = ss_heap s1 y" "length (ss_cpus s') = length (ss_cpus s)" if "y \<noteq> x" for y
    using that h1(2) by (simp_all add: set_next_def)
  then show ?thesis using ev s' nq q h1 cx by auto
qed

end
