(* ===== verification/Mutex.thy ===== *)
theory Mutex
  imports Sched_Wait
begin

text \<open>
  Scheduler-backed mutexes, \<^verbatim>\<open>kernel/sched/mutex.c\<close>. Each pass of \<^verbatim>\<open>mutex_lock\<close>'s loop and each
  \<^verbatim>\<open>mutex_unlock\<close> runs under the mutex's spin lock (taken with interrupts off) up to the call of
  \<^verbatim>\<open>sched_schedule\<close>, so it is one step on the mutex and the scheduler state. A pass that has to wait ends in
  \<open>Waits\<close>, with the outcome of \<^verbatim>\<open>sched_schedule\<close>: the task runs its next pass when it is switched back
  to. \<open>m_waiters\<close> is the head pointer held by the queue that \<open>m_wait_queue\<close> points to. The blocks the
  slab allocator returns are arguments (null when it fails), the blocks given back are results.
\<close>

section \<open>State and operations\<close>

record Mutex =
  m_owner :: ptr
  m_spin_lock :: ptr
  m_wait_queue :: ptr
  m_waiters :: ptr
  m_locked :: bool

definition mutex_init :: "ptr \<Rightarrow> ptr \<Rightarrow> ptr \<Rightarrow> Mutex \<Rightarrow> Mutex \<times> bool" where
  "mutex_init mutex spin_lock wait_queue m =
     (if mutex = NULL then (m, False)
      else if spin_lock = NULL then (m, False)
      else if wait_queue = NULL then (m, False)
      else (m\<lparr>m_owner := NULL, m_spin_lock := spin_lock, m_wait_queue := wait_queue, m_waiters := task_pq_init,
              m_locked := False\<rparr>, True))"

text \<open>The mutex pointer, its contents, and the blocks freed again on failure.\<close>

definition mutex_create :: "ptr \<Rightarrow> ptr \<Rightarrow> ptr \<Rightarrow> Mutex \<Rightarrow> ptr \<times> Mutex \<times> ptr list" where
  "mutex_create mutex spin_lock wait_queue m =
     (if mutex = NULL then (NULL, m, [])
      else if spin_lock = NULL then (NULL, m, [mutex])
      else if wait_queue = NULL then (NULL, m, [spin_lock, mutex])
      else case mutex_init mutex spin_lock wait_queue m of
             (m, ok) \<Rightarrow> if \<not> ok then (NULL, m, [wait_queue, spin_lock, mutex]) else (mutex, m, []))"

definition mutex_free :: "ptr \<Rightarrow> Mutex \<Rightarrow> ptr list \<times> bool" where
  "mutex_free mutex m =
     (if mutex = NULL then ([], False)
      else if m_locked m then ([], False)
      else ((if m_spin_lock m \<noteq> NULL then [m_spin_lock m] else [])
            @ (if m_wait_queue m \<noteq> NULL then [m_wait_queue m] else []) @ [mutex], True))"

datatype lock_result = Returns bool Mutex sched_state | Waits Mutex sched_outcome

text \<open>One pass of the loop of \<^verbatim>\<open>mutex_lock\<close> by the current task of CPU \<open>c\<close>.\<close>

definition mutex_lock :: "nat \<Rightarrow> ptr \<Rightarrow> Mutex \<Rightarrow> sched_state \<Rightarrow> lock_result option" where
  "mutex_lock c mutex m s =
     (if mutex = NULL then Some (Returns False m s)
      else let task = cs_current (ss_cpus s ! c) in
        if task = NULL then Some (Returns False m s)
        else if \<not> m_locked m then Some (Returns True (m\<lparr>m_owner := task, m_locked := True\<rparr>) s)
        else if m_owner m = task then Some (Returns True m s)
        else case task_pq_push (ss_heap s) (m_waiters m) task of
               None \<Rightarrow> None
             | Some (h, p) \<Rightarrow>
                 map_option (Waits (m\<lparr>m_waiters := p\<rparr>)) (sched_schedule c (sched_block task (s\<lparr>ss_heap := h\<rparr>))))"

definition mutex_unlock :: "nat \<Rightarrow> ptr \<Rightarrow> Mutex \<Rightarrow> sched_state \<Rightarrow> (bool \<times> Mutex \<times> sched_outcome) option" where
  "mutex_unlock c mutex m s =
     (if mutex = NULL then Some (False, m, Continues s)
      else let task = cs_current (ss_cpus s ! c) in
        if task = NULL \<or> m_owner m \<noteq> task then Some (False, m, Continues s)
        else case task_pq_pop (ss_heap s) (m_waiters m) of
               (h, p, nxt) \<Rightarrow>
                 if nxt = NULL then Some (True, m\<lparr>m_locked := False, m_owner := NULL, m_waiters := p\<rparr>, Continues (s\<lparr>ss_heap := h\<rparr>))
                 else case sched_unblock c nxt (s\<lparr>ss_heap := h\<rparr>) of
                        None \<Rightarrow> None
                      | Some s \<Rightarrow> map_option (\<lambda>r. (True, m\<lparr>m_owner := nxt, m_waiters := p\<rparr>, r)) (sched_schedule c s))"

section \<open>Invariant\<close>

text \<open>\<open>ws\<close> is the wait queue as a list: ordered by priority, all its tasks blocked, on no run queue and
  current nowhere. The owner does not wait, and nobody waits for a free mutex.\<close>

definition mutex_ok :: "Mutex \<Rightarrow> sched_state \<Rightarrow> queues \<Rightarrow> ptr list \<Rightarrow> bool" where
  "mutex_ok m s qs ws \<longleftrightarrow> (m_locked m \<longleftrightarrow> m_owner m \<noteq> NULL) \<and> tlist (ss_heap s) (m_waiters m) ws
     \<and> sorted_wrt (\<lambda>a b. prio_of (ss_heap s) a \<le> prio_of (ss_heap s) b) ws
     \<and> (\<forall>w \<in> set ws. waiter_ok s qs w) \<and> m_owner m \<notin> set ws \<and> (\<not> m_locked m \<longrightarrow> ws = [])"

section \<open>Library\<close>

lemma sorted_prio_cong:
  assumes "\<forall>x \<in> set xs. prio_of h' x = prio_of h x" "sorted_wrt (\<lambda>a b. prio_of h a \<le> prio_of h b) xs"
  shows "sorted_wrt (\<lambda>a b. prio_of h' a \<le> prio_of h' b) xs"
  using assms by (auto intro: sorted_wrt_mono_rel [of xs "\<lambda>a b. prio_of h a \<le> prio_of h b"])

lemma mutex_wait_ok:
  assumes ok: "sched_ok s qs" and c: "c < length (ss_cpus s)" and room: "has_room s qs 1"
    and task: "task = cs_current (ss_cpus s ! c)" "task \<noteq> NULL" "t_class (ss_heap s task) \<noteq> TASK_CLASS_INVALID"
    and live: "\<not> thread_to_be_killed (ss_heap s task)" and top: "top_class qs c = Some cl"
    and m: "mutex_ok m s qs ws" "m_locked m" "m_owner m \<noteq> task" "mutex \<noteq> NULL"
  shows "\<exists>m' s'. mutex_lock c mutex m s = Some (Waits m' (Continues s')) \<and> m_owner m' = m_owner m
    \<and> sched_ok s' (set_queue qs c cl (tl (qs c cl))) \<and> cs_current (ss_cpus s' ! c) = hd (qs c cl)
    \<and> mutex_ok m' s' (set_queue qs c cl (tl (qs c cl))) (pq_insert (prio_of (ss_heap s)) task ws)"
proof -
  let ?qs = "set_queue qs c cl (tl (qs c cl))" and ?ws = "pq_insert (prio_of (ss_heap s)) task ws"
  note tc = top_class_Some [OF top]
  have w: "\<forall>w \<in> set ws. waiter_ok s qs w" "tlist (ss_heap s) (m_waiters m) ws" using m(1) by (auto simp: mutex_ok_def)
  have nin: "task \<notin> set ws" using w(1) task(1) c by (auto simp: waiter_ok_def)
  have nq: "task \<notin> queued s qs" using ok task c by (auto simp: sched_ok_def currents_ok_def)
  have wq: "\<forall>w \<in> set ws. w \<notin> queued s qs" using w(1) by (auto simp: waiter_ok_def wakeable_def)
  obtain h p where hp: "task_pq_push (ss_heap s) (m_waiters m) task = Some (h, p)" "tlist h p ?ws"
    "\<forall>y. y \<notin> insert task (set ws) \<longrightarrow> h y = ss_heap s y" "\<forall>y. \<exists>n. h y = (ss_heap s y)\<lparr>t_next := n\<rparr>"
    using push_ok [OF w(2) nin task(2)] by blast
  have fh: "t_prio (h y) = t_prio (ss_heap s y)" "t_class (h y) = t_class (ss_heap s y)" "t_state (h y) = t_state (ss_heap s y)"
    "status_flags (h y) = status_flags (ss_heap s y)" for y using spec [OF hp(4), of y] by auto
  define s1 where "s1 = sched_block task (s\<lparr>ss_heap := h\<rparr>)"
  have h1: "ss_heap s1 task = (h task)\<lparr>t_state := TASK_STATE_BLOCKED\<rparr>" "\<And>y. y \<noteq> task \<Longrightarrow> ss_heap s1 y = h y"
    "ss_cpus s1 = ss_cpus s" by (auto simp: s1_def sched_block_def)
  have q1: "queued s1 qs' = queued s qs'" for qs' by (simp add: queued_def h1(3))
  have s1eq: "s1 = s\<lparr>ss_heap := ss_heap s1\<rparr>" using h1(3) by simp
  have "\<forall>y \<in> queued s qs. ss_heap s1 y = ss_heap s y"
  proof
    fix y assume "y \<in> queued s qs"
    then have "y \<noteq> task" "y \<notin> set ws" using wq nq by auto
    then show "ss_heap s1 y = ss_heap s y" using hp(3) h1(2) by simp
  qed
  then have ok1: "sched_ok s1 qs" by (subst s1eq) (rule heap_change_ok [OF ok])
  have r1: "has_room s1 qs 1" using room h1(3) by (simp add: has_room_def)
  have "\<not> thread_to_be_killed (ss_heap s1 task)" using live fh h1 by (simp add: thread_to_be_killed_def)
  then obtain s' where s': "sched_schedule c s1 = Some (Continues s')" "sched_ok s' ?qs"
    "cs_current (ss_cpus s' ! c) = hd (qs c cl)" "length (ss_cpus s') = length (ss_cpus s)"
    "\<forall>d < length (ss_cpus s). d \<noteq> c \<longrightarrow> cs_current (ss_cpus s' ! d) = cs_current (ss_cpus s ! d)"
    "ss_heap s' task = ticked (ss_heap s1 task)"
    "\<forall>y. y \<noteq> task \<longrightarrow> y \<noteq> hd (qs c cl) \<longrightarrow> ss_heap s' y = ss_heap s1 y"
    using schedule_blocked [OF ok1 _ r1, of c task cl] c task top h1 fh by auto
  have hdq: "hd (qs c cl) \<in> queued s qs" using queuedI [OF c tc(1)] tc(2) by simp
  have sub: "queued s' ?qs \<subseteq> queued s qs"
    by (rule queued_tl [OF s'(4)])
  have keep: "ss_heap s' w = h w" if "w \<in> set ws" for w
  proof -
    have "w \<noteq> task" "w \<noteq> hd (qs c cl)" using that nin wq hdq by auto
    then show ?thesis using s'(7) h1(2) by simp
  qed
  have tk: "t_next (ticked t) = t_next t" "t_state (ticked t) = t_state t" "t_class (ticked t) = t_class t" "t_prio (ticked t) = t_prio t" for t
    by (simp_all add: ticked_def)
  have "tlist (ss_heap s') p ?ws" using hp(2) keep s'(6) h1(1) tk by (subst tlist_cong [of _ _ h]) auto
  moreover have "sorted_wrt (\<lambda>a b. prio_of (ss_heap s') a \<le> prio_of (ss_heap s') b) ?ws"
    using m(1) keep s'(6) h1(1) tk fh by (intro sorted_prio_cong [OF _ pq_insert_sorted]) (auto simp: mutex_ok_def)
  moreover have "waiter_ok s' ?qs w" if "w \<in> set ?ws" for w
  proof (cases "w = task")
    case True
    then have "cs_current (ss_cpus s' ! d) \<noteq> task" if "d < length (ss_cpus s)" for d
      using that s'(3,5) hdq nq currents_distinct [OF ok c that] task by (cases "d = c") auto
    then show ?thesis using True s'(4,6) h1(1) tk fh task nq sub by (auto simp: waiter_ok_def wakeable_def)
  next
    case False
    then have ww: "w \<in> set ws" using that by simp
    then have "cs_current (ss_cpus s' ! d) \<noteq> w" if "d < length (ss_cpus s)" for d
      using that s'(3,5) hdq wq w(1) by (cases "d = c") (auto simp: waiter_ok_def)
    then show ?thesis using ww keep w(1) s'(4) fh sub by (auto simp: waiter_ok_def wakeable_def)
  qed
  ultimately have "mutex_ok (m\<lparr>m_waiters := p\<rparr>) s' ?qs ?ws" using m by (auto simp: mutex_ok_def)
  moreover have "mutex_lock c mutex m s = Some (Waits (m\<lparr>m_waiters := p\<rparr>) (Continues s'))"
    using m hp(1) s'(1) task by (simp add: mutex_lock_def Let_def s1_def)
  ultimately show ?thesis using s' by auto
qed

lemma unlock_handover:
  assumes ok: "sched_ok s qs" "c < length (ss_cpus s)" "has_room s qs 2" and task: "task = cs_current (ss_cpus s ! c)"
    "task \<noteq> NULL" and m: "mutex_ok m s qs (x # xs)" "mutex \<noteq> NULL" "m_owner m = task" "m_locked m"
  shows "\<exists>m' s1. mutex_unlock c mutex m s = map_option (\<lambda>r. (True, m', r)) (sched_schedule c s1)
        \<and> queues_ok s1 (woken (ss_heap s) qs c x) \<and> t_state (ss_heap s1 x) = TASK_STATE_READY
        \<and> mutex_ok m' s1 (woken (ss_heap s) qs c x) xs \<and> m_locked m' \<and> m_owner m' = x
        \<and> (\<forall>d s2. cs_current (ss_cpus s2 ! d) = x \<longrightarrow> mutex_lock d mutex m' s2 = Some (Returns True m' s2))"
proof -
  have w: "tlist (ss_heap s) (m_waiters m) (x # xs)" "\<forall>w \<in> set (x # xs). waiter_ok s qs w" using m(1) by (auto simp: mutex_ok_def)
  note p = pop_ok [OF w(1)]
  have x: "x \<noteq> NULL" "x \<notin> set xs" "waiter_ok s qs x" using w tlist_distinct [OF w(1)] by auto
  define s0 where "s0 = s\<lparr>ss_heap := set_next x NULL (ss_heap s)\<rparr>"
  have xq: "x \<notin> queued s qs" using x(3) by (simp add: waiter_ok_def wakeable_def)
  have ok0: "sched_ok s0 qs" unfolding s0_def using ok(1) xq by (intro heap_change_ok) (auto simp: set_next_def)
  have h0: "ss_cpus s0 = ss_cpus s" "queued s0 qs = queued s qs" "\<And>y. y \<noteq> x \<Longrightarrow> ss_heap s0 y = ss_heap s y"
    "t_class (ss_heap s0 x) = t_class (ss_heap s x)" "prio_of (ss_heap s0) = prio_of (ss_heap s)"
    by (auto simp: s0_def queued_def set_next_def)
  have "wakeable s0 qs x" using x h0 by (simp add: waiter_ok_def wakeable_def)
  moreover have "has_room s0 qs (Suc 1)" using ok(3) h0(1) by (simp add: has_room_def numeral_2_eq_2)
  moreover have "woken (ss_heap s0) qs c x = woken (ss_heap s) qs c x" using h0 by (simp add: woken_def)
  ultimately obtain s1 where s1: "sched_unblock_on x c s0 = Some s1" "queues_ok s1 (woken (ss_heap s) qs c x)"
    "queued s1 (woken (ss_heap s) qs c x) = insert x (queued s qs)" "length (ss_cpus s1) = length (ss_cpus s)"
    "\<forall>d < length (ss_cpus s). cs_current (ss_cpus s1 ! d) = cs_current (ss_cpus s ! d)"
    "\<forall>y. y \<notin> insert x (queued s qs) \<longrightarrow> ss_heap s1 y = ss_heap s0 y" "t_state (ss_heap s1 x) = TASK_STATE_READY"
    using unblock_ok [of s0 qs c x 1] ok0 ok(2) h0 by (auto simp: sched_ok_def)
  let ?m = "m\<lparr>m_owner := x, m_waiters := t_next (ss_heap s x)\<rparr>"
  have keep: "ss_heap s1 y = ss_heap s y" "waiter_ok s qs y" "y \<noteq> x" if "y \<in> set xs" for y
  proof -
    show w': "waiter_ok s qs y" using w(2) that by auto
    show "y \<noteq> x" using x(2) that by auto
    then show "ss_heap s1 y = ss_heap s y" using s1(6) h0(3) w' by (auto simp: waiter_ok_def wakeable_def)
  qed
  have "tlist (ss_heap s1) (t_next (ss_heap s x)) xs" using p keep(1) x(2) by (subst tlist_cong [of _ _ "ss_heap s"]) auto
  moreover have "sorted_wrt (\<lambda>a b. prio_of (ss_heap s1) a \<le> prio_of (ss_heap s1) b) xs"
  proof (rule sorted_prio_cong [of xs _ "ss_heap s"])
    show "sorted_wrt (\<lambda>a b. prio_of (ss_heap s) a \<le> prio_of (ss_heap s) b) xs" using m(1) by (simp add: mutex_ok_def)
  qed (use keep(1) in simp)
  moreover have "\<forall>y \<in> set xs. waiter_ok s1 (woken (ss_heap s) qs c x) y"
    using keep s1(3,4,5) by (auto simp: waiter_ok_def wakeable_def)
  ultimately have "mutex_ok ?m s1 (woken (ss_heap s) qs c x) xs" using x m(4) by (auto simp: mutex_ok_def)
  moreover have "mutex_unlock c mutex m s = map_option (\<lambda>r. (True, ?m, r)) (sched_schedule c s1)"
    unfolding mutex_unlock_def Let_def task(1) [symmetric] sched_unblock_def conjunct1 [OF p] prod.case
    using m task(2) x(1) s1(1) [unfolded s0_def] by simp
  moreover have "\<forall>d s2. cs_current (ss_cpus s2 ! d) = x \<longrightarrow> mutex_lock d mutex ?m s2 = Some (Returns True ?m s2)"
    using m x(1) by (simp add: mutex_lock_def Let_def)
  ultimately have "mutex_unlock c mutex m s = map_option (\<lambda>r. (True, ?m, r)) (sched_schedule c s1)
      \<and> queues_ok s1 (woken (ss_heap s) qs c x) \<and> t_state (ss_heap s1 x) = TASK_STATE_READY
      \<and> mutex_ok ?m s1 (woken (ss_heap s) qs c x) xs \<and> m_locked ?m \<and> m_owner ?m = x
      \<and> (\<forall>d s2. cs_current (ss_cpus s2 ! d) = x \<longrightarrow> mutex_lock d mutex ?m s2 = Some (Returns True ?m s2))"
    using s1(2,7) m(4) by simp
  then show ?thesis by blast
qed

section \<open>Properties\<close>

text \<open>One pass of locking: a free mutex, or one the task already owns, is taken at once and the task
  becomes its owner; otherwise the task is put into the wait queue at the place its priority gives it,
  is blocked, and the CPU switches to the first queued task of the highest class, the owner
  staying as it was. The mutex and the run queues stay well formed, so there is at most one owner
  and no waiting task is runnable.\<close>

theorem mutex_lock_correct:
  assumes "sched_ok s qs" and "c < length (ss_cpus s)" and "has_room s qs 1"
    and "task = cs_current (ss_cpus s ! c)" and "task \<noteq> NULL" and "t_class (ss_heap s task) \<noteq> TASK_CLASS_INVALID"
    and "\<not> thread_to_be_killed (ss_heap s task)" and "top_class qs c = Some cl" and "mutex_ok m s qs ws" and "mutex \<noteq> NULL"
  shows "if \<not> m_locked m \<or> m_owner m = task
    then mutex_lock c mutex m s = Some (Returns True (m\<lparr>m_owner := task, m_locked := True\<rparr>) s)
      \<and> mutex_ok (m\<lparr>m_owner := task, m_locked := True\<rparr>) s qs ws
    else \<exists>m' s'. mutex_lock c mutex m s = Some (Waits m' (Continues s')) \<and> m_owner m' = m_owner m
      \<and> sched_ok s' (set_queue qs c cl (tl (qs c cl))) \<and> cs_current (ss_cpus s' ! c) = hd (qs c cl)
      \<and> mutex_ok m' s' (set_queue qs c cl (tl (qs c cl))) (pq_insert (prio_of (ss_heap s)) task ws)"
proof (cases "\<not> m_locked m \<or> m_owner m = task")
  case True
  have "mutex_ok (m\<lparr>m_owner := task, m_locked := True\<rparr>) s qs ws"
    using True assms(5,9) by (auto simp: mutex_ok_def)
  moreover have "m\<lparr>m_owner := task, m_locked := True\<rparr> = m" if "m_locked m" "m_owner m = task" using that by (cases m) simp
  ultimately show ?thesis using True assms by (auto simp: mutex_lock_def Let_def)
qed (use mutex_wait_ok [OF assms(1-9) _ _ assms(10)] assms in \<open>auto simp: mutex_ok_def\<close>)

definition demo_mutex :: Mutex where
  "demo_mutex = \<lparr>m_owner = 0x3000, m_spin_lock = 0x7000, m_wait_queue = 0x7040, m_waiters = NULL, m_locked = True\<rparr>"

theorem mutex_lock_correct_witness:
  "\<exists>m' s'. mutex_lock 0 0x6000 demo_mutex demo_sched = Some (Waits m' (Continues s')) \<and> m_owner m' = 0x3000
     \<and> cs_current (ss_cpus s' ! 0) = 0x2000"
proof -
  have "has_room demo_sched demo_qs 1" by (simp add: has_room_def cpu_tasks_def demo_qs_def demo_sched_def)
  moreover have "mutex_ok demo_mutex demo_sched demo_qs []" by (simp add: mutex_ok_def demo_mutex_def)
  moreover have "Sched.top_class demo_qs 0 = Some TASK_CLASS_NORMAL" by (simp add: top_class_def demo_qs_def)
  moreover have "0 < length (ss_cpus demo_sched)" "0x1000 = cs_current (ss_cpus demo_sched ! 0)"
    "t_class (ss_heap demo_sched 0x1000) \<noteq> TASK_CLASS_INVALID" "\<not> thread_to_be_killed (ss_heap demo_sched 0x1000)"
    by (simp_all add: demo_sched_def demo_task_def thread_to_be_killed_def)
  moreover have "\<not> (\<not> m_locked demo_mutex \<or> m_owner demo_mutex = 0x1000)" "m_owner demo_mutex = 0x3000"
    "hd (demo_qs 0 TASK_CLASS_NORMAL) = 0x2000" by (simp_all add: demo_mutex_def demo_qs_def)
  ultimately show ?thesis
    using mutex_lock_correct [OF demo_sched_ok, of 0 "0x1000" TASK_CLASS_NORMAL demo_mutex "[]" "0x6000"] by auto
qed

text \<open>C24: unlocking: a task that does not own the mutex is refused and nothing changes; with nobody
  waiting the mutex becomes free; otherwise ownership passes directly to the first waiter, which leaves
  the wait queue and becomes ready on a run queue, the mutex staying locked all along, so no third
  task can take it in between, and the new owner's next pass of locking succeeds.\<close>

theorem mutex_unlock_correct:
  assumes "sched_ok s qs" and "c < length (ss_cpus s)" and "has_room s qs 2" and "task = cs_current (ss_cpus s ! c)"
    and "task \<noteq> NULL" and "mutex_ok m s qs ws" and "mutex \<noteq> NULL"
  shows "if m_owner m \<noteq> task then mutex_unlock c mutex m s = Some (False, m, Continues s)
    else case ws of
      [] \<Rightarrow> \<exists>m'. mutex_unlock c mutex m s = Some (True, m', Continues s) \<and> \<not> m_locked m' \<and> mutex_ok m' s qs []
    | w # ws' \<Rightarrow> \<exists>m' s1. mutex_unlock c mutex m s = map_option (\<lambda>r. (True, m', r)) (sched_schedule c s1)
        \<and> queues_ok s1 (woken (ss_heap s) qs c w) \<and> t_state (ss_heap s1 w) = TASK_STATE_READY
        \<and> mutex_ok m' s1 (woken (ss_heap s) qs c w) ws' \<and> m_locked m' \<and> m_owner m' = w
        \<and> (\<forall>d s2. cs_current (ss_cpus s2 ! d) = w \<longrightarrow> mutex_lock d mutex m' s2 = Some (Returns True m' s2))"
proof (cases "m_owner m = task")
  case own: True
  then have lk: "m_locked m" using assms(5,6) by (auto simp: mutex_ok_def)
  have w: "tlist (ss_heap s) (m_waiters m) ws" "\<forall>w \<in> set ws. waiter_ok s qs w" using assms(6) by (auto simp: mutex_ok_def)
  show ?thesis
  proof (cases ws)
    case Nil
    then show ?thesis using own assms w(1)
      by (auto simp: mutex_unlock_def task_pq_pop_def Let_def mutex_ok_def)
  next
    case (Cons x xs)
    then show ?thesis using unlock_handover [of s qs c task m x xs mutex] own lk assms
      by (simp only: list.case if_False not_True_eq_False simp_thms)
  qed
qed (use assms in \<open>auto simp: mutex_unlock_def Let_def\<close>)

definition demo_wait :: sched_state where
  "demo_wait = demo_sched\<lparr>ss_heap := (ss_heap demo_sched)(0x3000 := demo_task TASK_STATE_BLOCKED 2)\<rparr>"

theorem mutex_unlock_correct_witness:
  "\<exists>m' s1. mutex_unlock 0 0x6000 (demo_mutex\<lparr>m_owner := 0x1000, m_waiters := 0x3000\<rparr>) demo_wait
       = map_option (\<lambda>r. (True, m', r)) (sched_schedule 0 s1)
     \<and> t_state (ss_heap s1 0x3000) = TASK_STATE_READY \<and> m_locked m' \<and> m_owner m' = 0x3000"
proof -
  have q: "queued demo_sched demo_qs = {0x2000}" by (simp add: queued_def cpu_tasks_def demo_sched_def demo_qs_def lessThan_Suc)
  then have "sched_ok demo_wait demo_qs" unfolding demo_wait_def by (intro heap_change_ok [OF demo_sched_ok]) simp
  moreover have "queued demo_wait demo_qs = {0x2000}" using q by (simp add: demo_wait_def queued_def)
  then have "mutex_ok (demo_mutex\<lparr>m_owner := 0x1000, m_waiters := 0x3000\<rparr>) demo_wait demo_qs [0x3000]"
    by (simp add: mutex_ok_def demo_mutex_def waiter_ok_def wakeable_def) (simp add: demo_wait_def demo_task_def demo_sched_def)
  moreover have "has_room demo_wait demo_qs 2" by (simp add: has_room_def cpu_tasks_def demo_qs_def demo_sched_def demo_wait_def)
  moreover have "0 < length (ss_cpus demo_wait)" "0x1000 = cs_current (ss_cpus demo_wait ! 0)" by (simp_all add: demo_wait_def demo_sched_def)
  ultimately show ?thesis
    using mutex_unlock_correct [of demo_wait demo_qs 0 "0x1000" "demo_mutex\<lparr>m_owner := 0x1000, m_waiters := 0x3000\<rparr>" "[0x3000]" "0x6000"]
    by auto
qed

end
