(* ===== verification/Sleep.thy ===== *)
theory Sleep
  imports Sched_Wait "HOL-Library.Multiset"
begin

text \<open>
  Sleeping tasks, \<^verbatim>\<open>kernel/sleep_queue.c\<close>, \<^verbatim>\<open>kernel/sleep.c\<close> and the timer interrupt handlers of
  \<^verbatim>\<open>kernel/timer_isr.c\<close>. Each CPU has a queue of sleepers ordered by deadline; a sleeper node is on no
  other list, so the nodes from \<^verbatim>\<open>head\<close> are a list, each with its address. The tasks a dequeue returns are
  chained through their own \<^verbatim>\<open>this.next\<close> links, which live in the scheduler's task heap. The queue is a
  field of the CPU's state, so its address is not null. The block for a new sleeper and the tick counter
  are arguments; freed blocks are results.
\<close>

section \<open>State\<close>

record Sleeper =
  sl_addr :: ptr
  wake_at :: u64
  sl_task :: ptr

record SleepQueue =
  sq_sleepers :: "Sleeper list"
  sq_tail :: ptr
  sq_count :: u64

record sleep_state =
  sl_sched :: sched_state
  sl_queues :: "SleepQueue list"

definition NANOS_PER_TICK :: u64 where
  "NANOS_PER_TICK = 1000000000 div 100"

section \<open>Operations\<close>

definition sleep_queue_init :: "SleepQueue \<Rightarrow> SleepQueue" where
  "sleep_queue_init q = q\<lparr>sq_sleepers := [], sq_tail := NULL\<rparr>"

text \<open>The walk of \<^verbatim>\<open>sleep_queue_enqueue\<close>: the new sleeper goes before the first one that does not wake
  before it.\<close>

fun insert_sleeper :: "Sleeper \<Rightarrow> Sleeper list \<Rightarrow> Sleeper list" where
  "insert_sleeper sleeper [] = [sleeper]"
| "insert_sleeper sleeper (n # ns) =
     (if wake_at sleeper > wake_at n then n # insert_sleeper sleeper ns else sleeper # n # ns)"

definition sleep_queue_enqueue :: "ptr \<Rightarrow> SleepQueue \<Rightarrow> ptr \<Rightarrow> u64 \<Rightarrow> SleepQueue \<times> bool" where
  "sleep_queue_enqueue block q task deadline =
     (if task = NULL then (q, False)
      else if block = NULL then (q, False)
      else let sleeper = \<lparr>sl_addr = block, wake_at = deadline, sl_task = task\<rparr>;
               ns = insert_sleeper sleeper (sq_sleepers q)
           in (q\<lparr>sq_sleepers := ns,
                 sq_tail := (if dropWhile (\<lambda>n. deadline > wake_at n) (sq_sleepers q) = [] then block else sq_tail q),
                 sq_count := sq_count q + 1\<rparr>, True))"

text \<open>The loop that chains the tasks of the removed sleepers; returns the heap, the first and the last
  task of the chain.\<close>

fun chain_tasks :: "task_heap \<Rightarrow> ptr \<Rightarrow> ptr \<Rightarrow> Sleeper list \<Rightarrow> task_heap \<times> ptr \<times> ptr" where
  "chain_tasks h task_list last_task [] = (h, task_list, last_task)"
| "chain_tasks h task_list last_task (n # ns) =
     (if task_list = NULL then chain_tasks h (sl_task n) (sl_task n) ns
      else chain_tasks (set_next last_task (sl_task n) h) task_list (sl_task n) ns)"

text \<open>The heap, the queue, the chain's first task, and the freed sleepers.\<close>

definition sleep_queue_dequeue :: "task_heap \<Rightarrow> SleepQueue \<Rightarrow> u64 \<Rightarrow> task_heap \<times> SleepQueue \<times> ptr \<times> ptr list" where
  "sleep_queue_dequeue h q deadline =
     (let due = takeWhile (\<lambda>n. wake_at n \<le> deadline) (sq_sleepers q);
          keep = dropWhile (\<lambda>n. wake_at n \<le> deadline) (sq_sleepers q)
      in if due = [] then (h, q, NULL, [])
         else case chain_tasks h NULL NULL due of
                (h, task_list, last_task) \<Rightarrow>
                  (if last_task \<noteq> NULL then set_next last_task NULL h else h,
                   q\<lparr>sq_sleepers := keep, sq_count := sq_count q - of_nat (length due),
                     sq_tail := (if keep = [] then NULL else sq_tail q)\<rparr>,
                   task_list, map sl_addr due))"

definition sleep_task :: "ptr \<Rightarrow> u64 \<Rightarrow> nat \<Rightarrow> ptr \<Rightarrow> u64 \<Rightarrow> sleep_state \<Rightarrow> (SleepQueue list \<times> sched_outcome) option" where
  "sleep_task block upticks c task nanos st =
     (if task = NULL then Some (sl_queues st, Continues (sl_sched st))
      else let wake_tick = upticks + nanos div NANOS_PER_TICK;
               (q, _) = sleep_queue_enqueue block (sl_queues st ! c) task wake_tick
           in map_option (Pair ((sl_queues st)[c := q])) (sched_schedule c (sched_block task (sl_sched st))))"

text \<open>The loop of \<^verbatim>\<open>check_sleepers\<close>: the link is read before the task goes onto a run queue.\<close>

partial_function (option) wake_chain :: "ptr \<Rightarrow> sched_state \<Rightarrow> sched_state option" where
  "wake_chain waker s =
     (if waker = NULL then Some s
      else case sched_find_target_cpu s of
             None \<Rightarrow> None
           | Some target_cpu \<Rightarrow>
               (case sched_unblock_on waker target_cpu s of
                  None \<Rightarrow> None
                | Some s' \<Rightarrow> wake_chain (t_next (ss_heap s waker)) s'))"

definition check_sleepers :: "u64 \<Rightarrow> nat \<Rightarrow> sleep_state \<Rightarrow> sleep_state option" where
  "check_sleepers upticks c st =
     (case sleep_queue_dequeue (ss_heap (sl_sched st)) (sl_queues st ! c) upticks of
        (h, q, waker, freed) \<Rightarrow>
          map_option (\<lambda>s. \<lparr>sl_sched = s, sl_queues = (sl_queues st)[c := q]\<rparr>)
            (wake_chain waker ((sl_sched st)\<lparr>ss_heap := h\<rparr>)))"

text \<open>The timer interrupt: \<^verbatim>\<open>handle_ap_timer_interrupt\<close>, and \<^verbatim>\<open>handle_bsp_timer_interrupt\<close>, which also
  counts the tick.\<close>

definition handle_ap_timer_interrupt :: "u64 \<Rightarrow> nat \<Rightarrow> sleep_state \<Rightarrow> (SleepQueue list \<times> sched_outcome) option" where
  "handle_ap_timer_interrupt upticks c st =
     (case check_sleepers upticks c st of
        None \<Rightarrow> None
      | Some st \<Rightarrow> map_option (Pair (sl_queues st)) (sched_schedule c (sl_sched st)))"

definition handle_bsp_timer_interrupt :: "u64 \<Rightarrow> nat \<Rightarrow> sleep_state \<Rightarrow> (u64 \<times> SleepQueue list \<times> sched_outcome) option" where
  "handle_bsp_timer_interrupt upticks c st =
     map_option (Pair (upticks + 1)) (handle_ap_timer_interrupt (upticks + 1) c st)"

section \<open>Invariant\<close>

definition sleep_queue_ok :: "SleepQueue \<Rightarrow> bool" where
  "sleep_queue_ok q \<longleftrightarrow> sorted (map wake_at (sq_sleepers q)) \<and> distinct (map sl_addr (sq_sleepers q))
     \<and> NULL \<notin> set (map sl_addr (sq_sleepers q)) \<and> distinct (map sl_task (sq_sleepers q)) \<and> NULL \<notin> set (map sl_task (sq_sleepers q))
     \<and> sq_tail q = (case rev (sq_sleepers q) of [] \<Rightarrow> NULL | n # _ \<Rightarrow> sl_addr n)
     \<and> unat (sq_count q) = length (sq_sleepers q)"

section \<open>Library\<close>

lemma insert_sleeper_set [simp]: "set (insert_sleeper x ns) = insert x (set ns)"
  by (induction ns) auto

lemma insert_sleeper_mset: "mset (insert_sleeper x ns) = add_mset x (mset ns)"
  by (induction ns) auto

lemma insert_sleeper_sorted: "sorted (map wake_at ns) \<Longrightarrow> sorted (map wake_at (insert_sleeper x ns))"
  by (induction ns) auto

lemma insert_sleeper_length [simp]: "length (insert_sleeper x ns) = Suc (length ns)"
  by (induction ns) auto

lemma insert_sleeper_distinct:
  "distinct (map f ns) \<Longrightarrow> f x \<notin> f ` set ns \<Longrightarrow> distinct (map f (insert_sleeper x ns))"
  by (induction ns) auto

lemma insert_sleeper_not_Nil: "insert_sleeper x ns \<noteq> []"
  by (cases ns) auto

lemma insert_sleeper_last:
  "last (insert_sleeper x ns) = (if dropWhile (\<lambda>n. wake_at x > wake_at n) ns = [] then x else last ns)"
  by (induction ns) (auto simp: insert_sleeper_not_Nil)

definition tail_of :: "Sleeper list \<Rightarrow> ptr" where
  "tail_of ns = (case rev ns of [] \<Rightarrow> NULL | n # _ \<Rightarrow> sl_addr n)"

lemma tail_of_last: "tail_of ns = (if ns = [] then NULL else sl_addr (last ns))"
  by (cases ns rule: rev_cases) (auto simp: tail_of_def)

lemma tail_of_append: "tail_of (ms @ ns) = (if ns = [] then tail_of ms else tail_of ns)"
  by (auto simp: tail_of_last)

text \<open>Enqueuing keeps the queue well formed.\<close>

lemma sleep_queue_enqueue_ok:
  assumes ok: "sleep_queue_ok q" and b: "block \<noteq> NULL" "block \<notin> sl_addr ` set (sq_sleepers q)"
    and t: "task \<noteq> NULL" "task \<notin> sl_task ` set (sq_sleepers q)" and room: "length (sq_sleepers q) + 1 < 18446744073709551616"
  shows "\<exists>q'. sleep_queue_enqueue block q task deadline = (q', True) \<and> sleep_queue_ok q'
    \<and> mset (sq_sleepers q') = add_mset \<lparr>sl_addr = block, wake_at = deadline, sl_task = task\<rparr> (mset (sq_sleepers q))"
proof -
  let ?n = "\<lparr>sl_addr = block, wake_at = deadline, sl_task = task\<rparr>"
  let ?q = "q\<lparr>sq_sleepers := insert_sleeper ?n (sq_sleepers q),
     sq_tail := (if dropWhile (\<lambda>n. deadline > wake_at n) (sq_sleepers q) = [] then block else sq_tail q), sq_count := sq_count q + 1\<rparr>"
  have e: "sleep_queue_enqueue block q task deadline = (?q, True)"
    using b t by (simp add: sleep_queue_enqueue_def Let_def)
  have tl: "tail_of (insert_sleeper ?n (sq_sleepers q)) = sq_tail ?q"
    using ok insert_sleeper_not_Nil by (auto simp: tail_of_last insert_sleeper_last sleep_queue_ok_def tail_of_def [symmetric])
  have "unat (sq_count q + 1) = Suc (length (sq_sleepers q))"
    using ok room by (subst unat_add_u64) (auto simp: sleep_queue_ok_def)
  then have "sleep_queue_ok ?q"
    using ok b t tl insert_sleeper_distinct [of sl_addr "sq_sleepers q" ?n] insert_sleeper_distinct [of sl_task "sq_sleepers q" ?n]
      insert_sleeper_sorted [of "sq_sleepers q" ?n]
    by (simp add: sleep_queue_ok_def tail_of_def)
  then show ?thesis using e by (simp add: insert_sleeper_mset)
qed

text \<open>Chaining: the tasks of the sleepers, in order, behind an already chained prefix.\<close>

lemma next_self: "\<exists>n. (t :: Task) = t\<lparr>t_next := n\<rparr>"
  by (rule exI [of _ "t_next t"]) simp

lemma chain_tasks_ok:
  assumes "distinct (ts @ map sl_task ns)" "NULL \<notin> set (ts @ map sl_task ns)" "ts \<noteq> []"
    and "tlist (set_next (last ts) NULL h) (hd ts) ts"
  shows "\<exists>h'. chain_tasks h (hd ts) (last ts) ns = (h', hd ts, last (ts @ map sl_task ns))
    \<and> tlist (set_next (last (ts @ map sl_task ns)) NULL h') (hd ts) (ts @ map sl_task ns)
    \<and> (\<forall>y. y \<notin> set (ts @ map sl_task ns) \<longrightarrow> h' y = h y) \<and> (\<forall>y. \<exists>n. h' y = (h y)\<lparr>t_next := n\<rparr>)"
  using assms
proof (induction ns arbitrary: ts h)
  case Nil
  then show ?case using next_self by (auto intro: exI [of _ h])
next
  case (Cons n ns)
  let ?t = "sl_task n" and ?ts = "ts @ [sl_task n]"
  define h1 where "h1 = set_next (last ts) ?t h"
  have hd: "hd ?ts = hd ts" "hd ts \<noteq> NULL" using Cons.prems by auto
  have "tlist (set_next ?t NULL (set_next (last ts) ?t (set_next (last ts) NULL h))) (hd ts) ?ts"
    using Cons.prems by (intro tlist_snoc) auto
  moreover have "set_next (last ts) ?t (set_next (last ts) NULL h) = h1" by (auto simp: h1_def set_next_def)
  ultimately have "tlist (set_next (last ?ts) NULL h1) (hd ?ts) ?ts" using hd by simp
  from Cons.IH [OF _ _ _ this] Cons.prems obtain h' where h':
    "chain_tasks h1 (hd ts) ?t ns = (h', hd ts, last (ts @ map sl_task (n # ns)))"
    "tlist (set_next (last (ts @ map sl_task (n # ns))) NULL h') (hd ts) (ts @ map sl_task (n # ns))"
    "\<forall>y. y \<notin> set (ts @ map sl_task (n # ns)) \<longrightarrow> h' y = h1 y" "\<forall>y. \<exists>n. h' y = (h1 y)\<lparr>t_next := n\<rparr>"
    using hd by auto
  have "\<exists>m. h' y = (h y)\<lparr>t_next := m\<rparr>" for y
    using spec [OF h'(4), of y] by (auto simp: h1_def set_next_def)
  moreover have "\<forall>y. y \<notin> set (ts @ map sl_task (n # ns)) \<longrightarrow> h' y = h y"
    using h'(3) Cons.prems(3) by (auto simp: h1_def set_next_def)
  ultimately show ?case using h' hd by (intro exI [of _ h']) (simp add: h1_def)
qed

lemma dequeue_chain_ok:
  assumes ok: "sleep_queue_ok q" and due: "due = takeWhile (\<lambda>n. wake_at n \<le> d) (sq_sleepers q)"
  shows "\<exists>h' q' p. sleep_queue_dequeue h q d = (h', q', p, map sl_addr due) \<and> tlist h' p (map sl_task due)
    \<and> sq_sleepers q' = dropWhile (\<lambda>n. wake_at n \<le> d) (sq_sleepers q) \<and> sleep_queue_ok q'
    \<and> (\<forall>y. y \<notin> sl_task ` set due \<longrightarrow> h' y = h y) \<and> (\<forall>y. \<exists>n. h' y = (h y)\<lparr>t_next := n\<rparr>)"
proof (cases due)
  case Nil
  have "dropWhile (\<lambda>n. wake_at n \<le> d) (sq_sleepers q) = sq_sleepers q"
    using Nil due takeWhile_dropWhile_id [of "\<lambda>n. wake_at n \<le> d" "sq_sleepers q"] by simp
  then show ?thesis using Nil due ok
    using next_self by (auto simp: sleep_queue_dequeue_def Let_def)
next
  case (Cons n ns)
  let ?keep = "dropWhile (\<lambda>n. wake_at n \<le> d) (sq_sleepers q)"
  have all: "sq_sleepers q = due @ ?keep" unfolding due by simp
  have d: "distinct (map sl_task due)" "NULL \<notin> set (map sl_task due)"
    using ok unfolding sleep_queue_ok_def by (metis all distinct_append map_append, metis UnI1 all map_append set_append)
  have "tlist (set_next (last [sl_task n]) NULL h) (hd [sl_task n]) [sl_task n]" using d Cons by simp
  from chain_tasks_ok [OF _ _ _ this, of ns] obtain h' where h':
    "chain_tasks h (sl_task n) (sl_task n) ns = (h', sl_task n, last (map sl_task due))"
    "tlist (set_next (last (map sl_task due)) NULL h') (sl_task n) (map sl_task due)"
    "\<forall>y. y \<notin> set (map sl_task due) \<longrightarrow> h' y = h y" "\<forall>y. \<exists>n. h' y = (h y)\<lparr>t_next := n\<rparr>"
    using d Cons by auto
  define l where "l = last (map sl_task due)"
  have l: "l \<in> set (map sl_task due)" "l \<noteq> NULL" using d Cons unfolding l_def by (metis last_in_set list.distinct(1) list.map_disc_iff)+
  let ?q = "q\<lparr>sq_sleepers := ?keep, sq_count := sq_count q - of_nat (length due), sq_tail := (if ?keep = [] then NULL else sq_tail q)\<rparr>"
  have "sleep_queue_dequeue h q d = (set_next l NULL h', ?q, sl_task n, map sl_addr due)"
    using h'(1) l(2) Cons unfolding sleep_queue_dequeue_def Let_def due [symmetric] by (simp add: l_def)
  moreover have "sleep_queue_ok ?q"
  proof -
    have len: "length (sq_sleepers q) = length due + length ?keep"
      using trans [OF arg_cong [OF all, of length] length_append] .
    have bnd: "length due < 18446744073709551616" using ok len u64_less [of "sq_count q"] by (simp add: sleep_queue_ok_def)
    have "unat (of_nat (length due) :: u64) = length due" using bnd by (simp add: unsigned_of_nat take_bit_nat_eq_self)
    then have "unat (sq_count q - of_nat (length due)) = length ?keep"
      using ok len by (subst unat_sub_u64) (auto simp: sleep_queue_ok_def)
    moreover have "tail_of (sq_sleepers q) = (if ?keep = [] then tail_of due else tail_of ?keep)"
      using trans [OF arg_cong [OF all, of tail_of] tail_of_append] .
    moreover have "sorted (map wake_at (due @ ?keep))" "distinct (map sl_addr (due @ ?keep))"
      "distinct (map sl_task (due @ ?keep))" "NULL \<notin> set (map sl_addr (due @ ?keep))" "NULL \<notin> set (map sl_task (due @ ?keep))"
      using ok unfolding all [symmetric] sleep_queue_ok_def by blast+
    moreover have "sq_tail q = tail_of (sq_sleepers q)" using ok by (simp add: sleep_queue_ok_def tail_of_def)
    ultimately show ?thesis unfolding sleep_queue_ok_def tail_of_def [symmetric] by (auto simp: sorted_append tail_of_last)
  qed
  moreover have "\<exists>m. set_next l NULL h' y = (h y)\<lparr>t_next := m\<rparr>" for y
    using spec [OF h'(4), of y] by (auto simp: set_next_def)
  moreover have "\<forall>y. y \<notin> sl_task ` set due \<longrightarrow> set_next l NULL h' y = h y"
    using h'(3) l(1) by (auto simp: set_next_def)
  ultimately show ?thesis using h'(2) by (simp add: l_def)
qed

lemma find_target_bound:
  assumes "\<forall>t. target = Some t \<longrightarrow> t < i + length rest" "target \<noteq> None \<or> rest \<noteq> []"
  shows "\<exists>c < i + length rest. find_target i target all rest = Some c"
  using assms
proof (induction rest arbitrary: i target)
  case (Cons r rest)
  let ?t = "case target of None \<Rightarrow> Some i | Some t \<Rightarrow> if all_queue_total r < all_queue_total (all ! t) then Some i else Some t"
  have "\<forall>t. ?t = Some t \<longrightarrow> t < (i + 1) + length rest" "?t \<noteq> None"
    using Cons.prems by (auto split: option.splits if_splits)
  from Cons.IH [OF this(1)] this(2) show ?case by (auto split: if_splits)
qed auto

lemma find_target_cpu_ok: "ss_cpus s \<noteq> [] \<Longrightarrow> \<exists>c < length (ss_cpus s). sched_find_target_cpu s = Some c"
  using find_target_bound [of None 0 "ss_cpus s" "ss_cpus s"] by (simp add: sched_find_target_cpu_def)

lemma queued_ready:
  assumes "queues_ok s qs" "t \<in> queued s qs"
  shows "t_state (ss_heap s t) = TASK_STATE_READY"
  using assms queues_okD(1) [OF assms(1)] by (auto simp: queue_ok_def elim!: queuedE)

lemma wake_chain_ok:
  assumes "queues_ok s qs" "tlist (ss_heap s) p ts" "\<forall>t \<in> set ts. wakeable s qs t" "has_room s qs (length ts)" "ss_cpus s \<noteq> []"
  shows "\<exists>s' qs'. wake_chain p s = Some s' \<and> queues_ok s' qs' \<and> queued s' qs' = set ts \<union> queued s qs
    \<and> length (ss_cpus s') = length (ss_cpus s)
    \<and> (\<forall>d < length (ss_cpus s). cs_current (ss_cpus s' ! d) = cs_current (ss_cpus s ! d))
    \<and> (\<forall>y. y \<notin> set ts \<union> queued s qs \<longrightarrow> ss_heap s' y = ss_heap s y)"
  using assms
proof (induction ts arbitrary: p s qs)
  case Nil
  then show ?case by (subst wake_chain.simps) auto
next
  case (Cons t ts)
  obtain c where c: "c < length (ss_cpus s)" "sched_find_target_cpu s = Some c" using find_target_cpu_ok [OF Cons.prems(5)] by blast
  obtain s1 where s1: "sched_unblock_on t c s = Some s1" "queues_ok s1 (woken (ss_heap s) qs c t)"
    "queued s1 (woken (ss_heap s) qs c t) = insert t (queued s qs)" "has_room s1 (woken (ss_heap s) qs c t) (length ts)"
    "length (ss_cpus s1) = length (ss_cpus s)" "\<forall>d < length (ss_cpus s). cs_current (ss_cpus s1 ! d) = cs_current (ss_cpus s ! d)"
    "\<forall>y. y \<notin> insert t (queued s qs) \<longrightarrow> ss_heap s1 y = ss_heap s y"
    using unblock_ok [OF Cons.prems(1) c(1), of t "length ts"] Cons.prems by auto
  have p: "p = t" "t \<noteq> NULL" "t \<notin> set ts" using Cons.prems(2) tlist_distinct [OF Cons.prems(2)] by auto
  have same: "ss_heap s1 y = ss_heap s y" if "y \<in> set ts" for y
    using s1(7) that p(3) Cons.prems(3) by (auto simp: wakeable_def)
  have tl: "tlist (ss_heap s1) (t_next (ss_heap s t)) ts" using Cons.prems(2) same by (subst tlist_cong [of _ _ "ss_heap s"]) auto
  have wk: "\<forall>u \<in> set ts. wakeable s1 (woken (ss_heap s) qs c t) u"
    using Cons.prems(3) same s1(3) p(3) by (auto simp: wakeable_def)
  have "ss_cpus s1 \<noteq> []" using s1(5) Cons.prems(5) by (metis length_0_conv)
  from Cons.IH [OF s1(2) tl wk s1(4) this, unfolded s1(3,5)]
  obtain s' qs' where s': "wake_chain (t_next (ss_heap s t)) s1 = Some s'" "queues_ok s' qs'"
    "queued s' qs' = set ts \<union> insert t (queued s qs)" "length (ss_cpus s') = length (ss_cpus s)"
    "\<forall>d < length (ss_cpus s). cs_current (ss_cpus s' ! d) = cs_current (ss_cpus s1 ! d)"
    "\<forall>y. y \<notin> set ts \<union> insert t (queued s qs) \<longrightarrow> ss_heap s' y = ss_heap s1 y" by blast
  have "wake_chain p s = Some s'" using p c(2) s1(1) s'(1) by (subst wake_chain.simps) simp
  then show ?case using s' s1(6,7) by (intro exI [of _ s'] exI [of _ qs']) auto
qed

lemma due_filter:
  assumes "sorted (map wake_at ns)"
  shows "takeWhile (\<lambda>n. wake_at n \<le> d) ns = filter (\<lambda>n. wake_at n \<le> d) ns"
    and "dropWhile (\<lambda>n. wake_at n \<le> d) ns = filter (\<lambda>n. \<not> wake_at n \<le> d) ns"
proof -
  have "takeWhile (\<lambda>n. wake_at n \<le> d) ns = filter (\<lambda>n. wake_at n \<le> d) ns
    \<and> dropWhile (\<lambda>n. wake_at n \<le> d) ns = filter (\<lambda>n. \<not> wake_at n \<le> d) ns"
    using assms
  proof (induction ns)
    case (Cons m ns)
    show ?case
    proof (cases "wake_at m \<le> d")
      case False
      then have "\<forall>n \<in> set ns. \<not> wake_at n \<le> d" using Cons.prems by (auto dest: order_trans)
      then show ?thesis using False by (simp add: filter_empty_conv filter_id_conv)
    qed (use Cons in simp)
  qed simp
  then show "takeWhile (\<lambda>n. wake_at n \<le> d) ns = filter (\<lambda>n. wake_at n \<le> d) ns"
    "dropWhile (\<lambda>n. wake_at n \<le> d) ns = filter (\<lambda>n. \<not> wake_at n \<le> d) ns" by blast+
qed

section \<open>Properties\<close>

text \<open>C36: a timer check wakes exactly the tasks whose deadline has passed: every one of them ends on a run
  queue in state ready, every other sleeper stays blocked in the sleep queue, which keeps its order, its
  tail and its count, and no run queue loses a task. The walk of the returned chain ends although
  waking a task overwrites its link.\<close>

theorem check_sleepers_wakes_due:
  assumes ok: "sched_ok (sl_sched st) qs" and c: "c < length (sl_queues st)" "ss_cpus (sl_sched st) \<noteq> []"
    and q: "sleep_queue_ok (sl_queues st ! c)"
    and w: "\<forall>n \<in> set (sq_sleepers (sl_queues st ! c)). wakeable (sl_sched st) qs (sl_task n)
      \<and> (\<forall>d < length (ss_cpus (sl_sched st)). cs_current (ss_cpus (sl_sched st) ! d) \<noteq> sl_task n)"
    and room: "has_room (sl_sched st) qs (length (sq_sleepers (sl_queues st ! c)))"
  shows "\<exists>st' qs'. check_sleepers upticks c st = Some st' \<and> sched_ok (sl_sched st') qs'
    \<and> queued (sl_sched st') qs' = queued (sl_sched st) qs \<union> {sl_task n | n. n \<in> set (sq_sleepers (sl_queues st ! c)) \<and> wake_at n \<le> upticks}
    \<and> (\<forall>n \<in> set (sq_sleepers (sl_queues st ! c)). wake_at n \<le> upticks \<longrightarrow> t_state (ss_heap (sl_sched st') (sl_task n)) = TASK_STATE_READY)
    \<and> sq_sleepers (sl_queues st' ! c) = filter (\<lambda>n. \<not> wake_at n \<le> upticks) (sq_sleepers (sl_queues st ! c)) \<and> sleep_queue_ok (sl_queues st' ! c)
    \<and> (\<forall>n \<in> set (sq_sleepers (sl_queues st' ! c)). ss_heap (sl_sched st') (sl_task n) = ss_heap (sl_sched st) (sl_task n))"
proof -
  let ?s = "sl_sched st" and ?ns = "sq_sleepers (sl_queues st ! c)"
  let ?due = "filter (\<lambda>n. wake_at n \<le> upticks) ?ns" and ?keep = "filter (\<lambda>n. \<not> wake_at n \<le> upticks) ?ns"
  have srt: "sorted (map wake_at ?ns)" "distinct (map sl_task ?ns)" using q by (auto simp: sleep_queue_ok_def)
  obtain h q' p where dq: "sleep_queue_dequeue (ss_heap ?s) (sl_queues st ! c) upticks = (h, q', p, map sl_addr ?due)"
    "tlist h p (map sl_task ?due)" "sq_sleepers q' = ?keep" "sleep_queue_ok q'"
    "\<forall>y. y \<notin> sl_task ` set ?due \<longrightarrow> h y = ss_heap ?s y" "\<forall>y. \<exists>n. h y = (ss_heap ?s y)\<lparr>t_next := n\<rparr>"
    using dequeue_chain_ok [OF q refl, of "ss_heap ?s" upticks] unfolding due_filter [OF srt(1)] by blast
  define s0 where "s0 = ?s\<lparr>ss_heap := h\<rparr>"
  have h0: "ss_heap s0 = h" "ss_cpus s0 = ss_cpus ?s" "queued s0 qs = queued ?s qs" by (simp_all add: s0_def queued_def)
  have nq: "sl_task n \<notin> queued ?s qs" if "n \<in> set ?ns" for n using w that by (auto simp: wakeable_def)
  have "y \<notin> sl_task ` set ?due" if "y \<in> queued ?s qs" for y using nq that by auto
  then have ok0: "sched_ok s0 qs" unfolding s0_def using dq(5) by (intro heap_change_ok [OF ok]) blast
  have cls: "t_class (h y) = t_class (ss_heap ?s y)" for y using spec [OF dq(6), of y] by auto
  have "\<forall>t \<in> set (map sl_task ?due). wakeable s0 qs t" using w h0 cls by (auto simp: wakeable_def)
  moreover have "has_room s0 qs (length (map sl_task ?due))"
    using room h0(2) has_room_mono [of s0 qs "length ?ns" "length (map sl_task ?due)"] by (simp add: has_room_def)
  ultimately obtain s' qs' where s': "wake_chain p s0 = Some s'" "queues_ok s' qs'"
    "queued s' qs' = sl_task ` set ?due \<union> queued ?s qs" "length (ss_cpus s') = length (ss_cpus ?s)"
    "\<forall>d < length (ss_cpus ?s). cs_current (ss_cpus s' ! d) = cs_current (ss_cpus ?s ! d)"
    "\<forall>y. y \<notin> sl_task ` set ?due \<union> queued ?s qs \<longrightarrow> ss_heap s' y = h y"
    using wake_chain_ok [of s0 qs p "map sl_task ?due"] ok0 dq(2) c(2) h0 by (auto simp: sched_ok_def)
  have ev: "check_sleepers upticks c st = Some \<lparr>sl_sched = s', sl_queues = (sl_queues st)[c := q']\<rparr>"
    using dq(1) s'(1) by (simp add: check_sleepers_def s0_def)
  have "currents_ok s' qs'"
    using ok w s'(3,4,5) unfolding sched_ok_def currents_ok_def by auto
  then have ok': "sched_ok s' qs'" using s'(2) by (simp add: sched_ok_def)
  have rdy: "\<forall>n \<in> set ?ns. wake_at n \<le> upticks \<longrightarrow> t_state (ss_heap s' (sl_task n)) = TASK_STATE_READY"
    using queued_ready [OF s'(2)] s'(3) by auto
  have "ss_heap s' (sl_task n) = ss_heap ?s (sl_task n)" if "n \<in> set ?keep" for n
  proof -
    have "inj_on sl_task (set ?ns)" using srt(2) by (simp add: distinct_map)
    then have "sl_task n \<notin> sl_task ` set ?due" using that by (auto dest: inj_onD)
    then show ?thesis using s'(6) dq(5) nq [of n] that by simp
  qed
  then show ?thesis using ev ok' s'(3) rdy dq(3,4) c(1) by (intro exI [of _ "\<lparr>sl_sched = s', sl_queues = (sl_queues st)[c := q']\<rparr>"] exI [of _ qs']) auto
qed

definition demo_sleep :: sleep_state where
  "demo_sleep = \<lparr>sl_sched = demo_sched\<lparr>ss_heap := (ss_heap demo_sched)(0x3000 := demo_task TASK_STATE_BLOCKED 2)\<rparr>,
     sl_queues = [\<lparr>sq_sleepers = [\<lparr>sl_addr = 0x9000, wake_at = 7, sl_task = 0x3000\<rparr>], sq_tail = 0x9000, sq_count = 1\<rparr>]\<rparr>"

theorem check_sleepers_wakes_due_witness:
  "\<exists>st'. check_sleepers 9 0 demo_sleep = Some st' \<and> t_state (ss_heap (sl_sched st') 0x3000) = TASK_STATE_READY
     \<and> sq_sleepers (sl_queues st' ! 0) = []"
proof -
  have q: "queued demo_sched demo_qs = {0x2000}" by (simp add: queued_def cpu_tasks_def demo_sched_def demo_qs_def lessThan_Suc)
  then have "sched_ok (sl_sched demo_sleep) demo_qs" unfolding demo_sleep_def sleep_state.simps
    by (intro heap_change_ok [OF demo_sched_ok]) simp
  moreover have "queued (sl_sched demo_sleep) demo_qs = {0x2000}" using q by (simp add: demo_sleep_def queued_def)
  then have "wakeable (sl_sched demo_sleep) demo_qs 0x3000" by (simp add: wakeable_def demo_sleep_def demo_task_def)
  moreover have "has_room (sl_sched demo_sleep) demo_qs 1" by (simp add: has_room_def cpu_tasks_def demo_qs_def demo_sched_def demo_sleep_def)
  moreover have "sleep_queue_ok (sl_queues demo_sleep ! 0)" by (simp add: sleep_queue_ok_def demo_sleep_def)
  moreover have "sq_sleepers (sl_queues demo_sleep ! 0) = [\<lparr>sl_addr = 0x9000, wake_at = 7, sl_task = 0x3000\<rparr>]"
    "length (sl_queues demo_sleep) = 1" "ss_cpus (sl_sched demo_sleep) \<noteq> []" "length (ss_cpus (sl_sched demo_sleep)) = 1"
    "cs_current (ss_cpus (sl_sched demo_sleep) ! 0) = 0x1000"
    by (simp_all add: demo_sleep_def demo_sched_def)
  ultimately show ?thesis using check_sleepers_wakes_due [of demo_sleep demo_qs 0 9] by auto
qed

text \<open>A task that goes to sleep is blocked, stands in the sleep queue of its CPU with the deadline the
  requested time gives in ticks, at the place that keeps the queue ordered by deadline, and the CPU
  switches to the first queued task of the highest class. Queue, tail, count and run queues stay well
  formed. (It takes a block for the sleeper: without one the code blocks the task all the same.)\<close>

theorem sleep_task_sleeps:
  assumes ok: "sched_ok (sl_sched st) qs" and c: "c < length (ss_cpus (sl_sched st))" "c < length (sl_queues st)"
    and room: "has_room (sl_sched st) qs 1" and top: "top_class qs c = Some cl"
    and task: "task = cs_current (ss_cpus (sl_sched st) ! c)" "task \<noteq> NULL" "t_class (ss_heap (sl_sched st) task) \<noteq> TASK_CLASS_INVALID"
      "\<not> thread_to_be_killed (ss_heap (sl_sched st) task)"
    and q: "sleep_queue_ok (sl_queues st ! c)" "length (sq_sleepers (sl_queues st ! c)) + 1 < 18446744073709551616"
      "task \<notin> sl_task ` set (sq_sleepers (sl_queues st ! c))"
    and block: "block \<noteq> NULL" "block \<notin> sl_addr ` set (sq_sleepers (sl_queues st ! c))"
  shows "\<exists>q' s'. sleep_task block upticks c task nanos st = Some ((sl_queues st)[c := q'], Continues s') \<and> sleep_queue_ok q'
    \<and> mset (sq_sleepers q') = add_mset \<lparr>sl_addr = block, wake_at = upticks + nanos div NANOS_PER_TICK, sl_task = task\<rparr>
        (mset (sq_sleepers (sl_queues st ! c)))
    \<and> sched_ok s' (set_queue qs c cl (tl (qs c cl))) \<and> cs_current (ss_cpus s' ! c) = hd (qs c cl)
    \<and> t_state (ss_heap s' task) = TASK_STATE_BLOCKED"
proof -
  let ?s = "sl_sched st"
  obtain q' where q': "sleep_queue_enqueue block (sl_queues st ! c) task (upticks + nanos div NANOS_PER_TICK) = (q', True)" "sleep_queue_ok q'"
    "mset (sq_sleepers q') = add_mset \<lparr>sl_addr = block, wake_at = upticks + nanos div NANOS_PER_TICK, sl_task = task\<rparr>
        (mset (sq_sleepers (sl_queues st ! c)))"
    using sleep_queue_enqueue_ok [OF q(1) block task(2) q(3,2)] by blast
  define s1 where "s1 = sched_block task ?s"
  have h1: "ss_heap s1 task = (ss_heap ?s task)\<lparr>t_state := TASK_STATE_BLOCKED\<rparr>" "ss_cpus s1 = ss_cpus ?s"
    by (simp_all add: s1_def sched_block_def)
  have "task \<notin> queued ?s qs" using ok task(1) c by (auto simp: sched_ok_def currents_ok_def)
  then have ok1: "sched_ok s1 qs" using heap_change_ok [OF ok] by (auto simp: s1_def sched_block_def upd_task_def)
  have "has_room s1 qs 1" using room h1(2) by (simp add: has_room_def)
  then obtain s' where s': "sched_schedule c s1 = Some (Continues s')" "sched_ok s' (set_queue qs c cl (tl (qs c cl)))"
    "cs_current (ss_cpus s' ! c) = hd (qs c cl)" "ss_heap s' task = ticked (ss_heap s1 task)"
    using schedule_blocked [OF ok1 _ _ _ _ _ _ _ top, of task] c task h1 by (auto simp: thread_to_be_killed_def)
  then show ?thesis using q' task(2) h1 by (auto simp: sleep_task_def s1_def ticked_def)
qed

theorem sleep_task_sleeps_witness:
  "\<exists>q' s'. sleep_task 0x9040 5 0 0x1000 20000000 demo_sleep = Some ([q'], Continues s')
     \<and> mset (map wake_at (sq_sleepers q')) = {#7, 7#} \<and> t_state (ss_heap s' 0x1000) = TASK_STATE_BLOCKED"
proof -
  have q: "queued demo_sched demo_qs = {0x2000}" by (simp add: queued_def cpu_tasks_def demo_sched_def demo_qs_def lessThan_Suc)
  then have "sched_ok (sl_sched demo_sleep) demo_qs" unfolding demo_sleep_def sleep_state.simps
    by (intro heap_change_ok [OF demo_sched_ok]) simp
  moreover have "has_room (sl_sched demo_sleep) demo_qs 1" by (simp add: has_room_def cpu_tasks_def demo_qs_def demo_sched_def demo_sleep_def)
  moreover have "sleep_queue_ok (sl_queues demo_sleep ! 0)" by (simp add: sleep_queue_ok_def demo_sleep_def)
  moreover have "Sched.top_class demo_qs 0 = Some TASK_CLASS_NORMAL" by (simp add: top_class_def demo_qs_def)
  moreover have "sq_sleepers (sl_queues demo_sleep ! 0) = [\<lparr>sl_addr = 0x9000, wake_at = 7, sl_task = 0x3000\<rparr>]"
    "0 < length (sl_queues demo_sleep)" "0 < length (ss_cpus (sl_sched demo_sleep))" "(sl_queues demo_sleep)[0 := x] = [x]"
    "0x1000 = cs_current (ss_cpus (sl_sched demo_sleep) ! 0)" "t_class (ss_heap (sl_sched demo_sleep) 0x1000) \<noteq> TASK_CLASS_INVALID"
    "\<not> thread_to_be_killed (ss_heap (sl_sched demo_sleep) 0x1000)" for x
    by (simp_all add: demo_sleep_def demo_sched_def demo_task_def thread_to_be_killed_def)
  ultimately have "\<exists>q' s'. sleep_task 0x9040 5 0 0x1000 20000000 demo_sleep = Some ([q'], Continues s')
     \<and> mset (sq_sleepers q') = {#\<lparr>sl_addr = 0x9040, wake_at = 5 + 20000000 div NANOS_PER_TICK, sl_task = 0x1000\<rparr>,
         \<lparr>sl_addr = 0x9000, wake_at = 7, sl_task = 0x3000\<rparr>#} \<and> t_state (ss_heap s' 0x1000) = TASK_STATE_BLOCKED"
    using sleep_task_sleeps [of demo_sleep demo_qs 0 TASK_CLASS_NORMAL "0x1000" "0x9040" 5 20000000] by auto
  then show ?thesis by (auto simp: NANOS_PER_TICK_def)
qed

end
