(* ===== verification/Ipc.thy ===== *)
theory Ipc
  imports Sched_Wait Hash_Table
begin

text \<open>
  Message channels, \<^verbatim>\<open>kernel/ipc/channel.c\<close>, and named channels, \<^verbatim>\<open>kernel/ipc/named.c\<close>. Channels and messages
  live in heaps; the two hash tables of the code map channel cookies to channels and the cookies of
  received, unanswered messages to messages. The queue of a channel is linked through the messages, its
  waiting receivers through the tasks of the scheduler. A send or a receive that blocks is two
  operations: the part up to and including \<^verbatim>\<open>sched_schedule\<close> (\<open>_begin\<close>) and the part that runs when the
  task is switched back to (\<open>_resume\<close>); each part and each other call is one step, on the CPU given as
  argument. Arguments also give what other parts decide: the blocks the slab allocator returns (null when
  it fails), fresh cookies, the physical page behind a buffer, and whether a hash table can grow.
  Page mappings made and blocks freed are results. Spin locks and debug output are left out.
\<close>

section \<open>State\<close>

record IpcMessage =
  msg_next :: ptr
  msg_cookie :: u64
  msg_tag :: u64
  arg_buf_size :: u64
  arg_buf_phys :: u64
  msg_waiter :: ptr
  msg_reply :: u64
  msg_handled :: bool

record IpcChannel =
  ch_cookie :: u64
  ch_receivers :: ptr
  ch_receivers_lock :: ptr
  ch_queue :: ptr
  ch_queue_lock :: ptr

record ipc_state =
  ip_sched :: sched_state
  ip_channels :: "ptr \<Rightarrow> IpcChannel"
  ip_messages :: "ptr \<Rightarrow> IpcMessage"
  channel_hash :: HashTable
  in_flight_message_hash :: HashTable

definition upd_channel :: "ptr \<Rightarrow> (IpcChannel \<Rightarrow> IpcChannel) \<Rightarrow> ipc_state \<Rightarrow> ipc_state" where
  "upd_channel p f st = st\<lparr>ip_channels := (ip_channels st)(p := f (ip_channels st p))\<rparr>"

definition upd_message :: "ptr \<Rightarrow> (IpcMessage \<Rightarrow> IpcMessage) \<Rightarrow> ipc_state \<Rightarrow> ipc_state" where
  "upd_message p f st = st\<lparr>ip_messages := (ip_messages st)(p := f (ip_messages st p))\<rparr>"

abbreviation this_task :: "nat \<Rightarrow> ipc_state \<Rightarrow> ptr" where
  "this_task c st \<equiv> cs_current (ss_cpus (ip_sched st) ! c)"

text \<open>\<^verbatim>\<open>sched_schedule\<close> on the whole state; \<open>False\<close> when the current thread exits instead of returning.\<close>

definition ipc_schedule :: "nat \<Rightarrow> ipc_state \<Rightarrow> (ipc_state \<times> bool) option" where
  "ipc_schedule c st =
     map_option (\<lambda>r. case r of Continues s \<Rightarrow> (st\<lparr>ip_sched := s\<rparr>, True) | Exits s \<Rightarrow> (st\<lparr>ip_sched := s\<rparr>, False))
       (sched_schedule c (ip_sched st))"

section \<open>Channels\<close>

definition INITIAL_CHANNEL_HASH_PAGE_COUNT :: nat where
  "INITIAL_CHANNEL_HASH_PAGE_COUNT = 4"

definition INITIAL_IN_FLIGHT_MESSAGE_HASH_PAGE_COUNT :: nat where
  "INITIAL_IN_FLIGHT_MESSAGE_HASH_PAGE_COUNT = 1"

text \<open>\<open>None\<close> is the panic. The second table is not checked: null is the state of an unusable table.\<close>

definition ipc_channel_init :: "(nat \<Rightarrow> HashTable option) \<Rightarrow> (HashTable \<times> HashTable option) option" where
  "ipc_channel_init create =
     (let channels = create INITIAL_CHANNEL_HASH_PAGE_COUNT;
          in_flight = create INITIAL_IN_FLIGHT_MESSAGE_HASH_PAGE_COUNT
      in case channels of None \<Rightarrow> None | Some t \<Rightarrow> Some (t, in_flight))"

definition ipc_channel_exists :: "u64 \<Rightarrow> ipc_state \<Rightarrow> bool" where
  "ipc_channel_exists cookie st \<longleftrightarrow> hash_table_lookup (channel_hash st) cookie \<noteq> NULL"

text \<open>The new state, the channel's cookie (0 on failure), and the blocks freed again.\<close>

definition ipc_channel_create :: "ptr \<Rightarrow> ptr \<Rightarrow> ptr \<Rightarrow> u64 \<Rightarrow> bool \<Rightarrow> ipc_state \<Rightarrow> ipc_state \<times> u64 \<times> ptr list" where
  "ipc_channel_create channel receivers_lock queue_lock cookie hash_ok st =
     (if channel = NULL then (st, 0, [])
      else if receivers_lock = NULL then (upd_channel channel (\<lambda>ch. ch\<lparr>ch_receivers_lock := NULL\<rparr>) st, 0, [channel])
      else if queue_lock = NULL then
        (upd_channel channel (\<lambda>ch. ch\<lparr>ch_receivers_lock := receivers_lock, ch_queue_lock := NULL\<rparr>) st, 0, [receivers_lock, channel])
      else
        let st = upd_channel channel (\<lambda>_. \<lparr>ch_cookie = cookie, ch_receivers = NULL, ch_receivers_lock = receivers_lock,
                   ch_queue = NULL, ch_queue_lock = queue_lock\<rparr>) st
        in (st\<lparr>channel_hash := fst (hash_table_insert hash_ok (channel_hash st) cookie channel)\<rparr>, cookie, []))"

text \<open>Waking the senders of the queued messages. A message without a waiter makes the loop spin.\<close>

partial_function (option) wake_senders :: "(ptr \<Rightarrow> IpcMessage) \<Rightarrow> ptr \<Rightarrow> sched_state \<Rightarrow> sched_state option" where
  "wake_senders ms msg s =
     (if msg = NULL then Some s
      else if msg_waiter (ms msg) = NULL then wake_senders ms msg s
      else case sched_find_target_cpu s of
             None \<Rightarrow> None
           | Some target_cpu \<Rightarrow>
               (case sched_unblock_on (msg_waiter (ms msg)) target_cpu s of
                  None \<Rightarrow> None
                | Some s \<Rightarrow> wake_senders ms (msg_next (ms msg)) s))"

text \<open>Waking the receivers: the link is read after the task went onto a run queue.\<close>

partial_function (option) wake_receivers :: "ptr \<Rightarrow> sched_state \<Rightarrow> sched_state option" where
  "wake_receivers blocked_receiver s =
     (if blocked_receiver = NULL then Some s
      else case sched_find_target_cpu s of
             None \<Rightarrow> None
           | Some target_cpu \<Rightarrow>
               (case sched_unblock_on blocked_receiver target_cpu s of
                  None \<Rightarrow> None
                | Some s \<Rightarrow> wake_receivers (t_next (ss_heap s blocked_receiver)) s))"

definition ipc_channel_destroy :: "u64 \<Rightarrow> ipc_state \<Rightarrow> (ipc_state \<times> ptr list) option" where
  "ipc_channel_destroy cookie st =
     (case hash_table_remove (channel_hash st) cookie of
        None \<Rightarrow> None
      | Some (t, channel) \<Rightarrow>
          let st = st\<lparr>channel_hash := t\<rparr>; ch = ip_channels st channel
          in if channel = NULL then Some (st, [])
             else case wake_senders (ip_messages st) (ch_queue ch) (ip_sched st) of
                    None \<Rightarrow> None
                  | Some s \<Rightarrow>
                      map_option (\<lambda>s. (st\<lparr>ip_sched := s\<rparr>, [ch_receivers_lock ch, ch_queue_lock ch, channel]))
                        (wake_receivers (ch_receivers ch) s))"

section \<open>Receiving\<close>

text \<open>What a successful receive hands out: the message's cookie, the tag, the size, and the page mapped for it.\<close>

record received =
  rc_cookie :: u64
  rc_tag :: u64
  rc_size :: u64
  rc_mapped :: "(u64 \<times> u64) option"

definition deliver :: "u64 \<Rightarrow> ptr \<Rightarrow> ipc_state \<Rightarrow> ipc_state \<times> received" where
  "deliver buffer msg st =
     (let m = ip_messages st msg;
          maps = (buffer \<noteq> 0 \<and> arg_buf_phys m \<noteq> 0 \<and> arg_buf_size m \<noteq> 0)
      in (if maps then st else upd_message msg (\<lambda>m. m\<lparr>arg_buf_phys := 0\<rparr>) st,
          \<lparr>rc_cookie = msg_cookie m, rc_tag = msg_tag m, rc_size = arg_buf_size m,
           rc_mapped = (if maps then Some (buffer, arg_buf_phys m) else None)\<rparr>))"

definition take_message :: "bool \<Rightarrow> ptr \<Rightarrow> ipc_state \<Rightarrow> ptr \<times> ipc_state" where
  "take_message hash_ok channel st =
     (let msg = ch_queue (ip_channels st channel);
          st = upd_channel channel (\<lambda>ch. ch\<lparr>ch_queue := msg_next (ip_messages st msg)\<rparr>) st
      in (msg, st\<lparr>in_flight_message_hash :=
                fst (hash_table_insert hash_ok (in_flight_message_hash st) (msg_cookie (ip_messages st msg)) msg)\<rparr>))"

datatype recv_result = RecvFails ipc_state | RecvGets received ipc_state | RecvBlocks ipc_state bool

definition ipc_channel_recv_begin :: "nat \<Rightarrow> bool \<Rightarrow> u64 \<Rightarrow> u64 \<Rightarrow> ipc_state \<Rightarrow> recv_result option" where
  "ipc_channel_recv_begin c hash_ok cookie buffer st =
     (if buffer AND 0xFFF \<noteq> 0 then Some (RecvFails st)
      else let channel = hash_table_lookup (channel_hash st) cookie in
        if channel = NULL then Some (RecvFails st)
        else if ch_queue (ip_channels st channel) \<noteq> NULL then
          (let (msg, st) = take_message hash_ok channel st; (st, r) = deliver buffer msg st in Some (RecvGets r st))
        else
          let task = this_task c st; s = ip_sched st;
              listed = (if ch_receivers (ip_channels st channel) \<noteq> NULL
                        then map_option (\<lambda>h. st\<lparr>ip_sched := s\<lparr>ss_heap := h\<rparr>\<rparr>)
                               (list_add (ss_heap s) (ch_receivers (ip_channels st channel)) task)
                        else Some (upd_channel channel (\<lambda>ch. ch\<lparr>ch_receivers := task\<rparr>)
                               (st\<lparr>ip_sched := s\<lparr>ss_heap := set_next task NULL (ss_heap s)\<rparr>\<rparr>)))
          in case listed of
               None \<Rightarrow> None
             | Some st \<Rightarrow> map_option (\<lambda>(st, b). RecvBlocks st b)
                           (ipc_schedule c (st\<lparr>ip_sched := sched_block task (ip_sched st)\<rparr>)))"

definition ipc_channel_recv_resume :: "bool \<Rightarrow> u64 \<Rightarrow> u64 \<Rightarrow> ipc_state \<Rightarrow> recv_result" where
  "ipc_channel_recv_resume hash_ok cookie buffer st =
     (let channel = hash_table_lookup (channel_hash st) cookie in
        if channel = NULL then RecvFails st
        else if ch_queue (ip_channels st channel) \<noteq> NULL then
          (let (msg, st) = take_message hash_ok channel
                 (upd_message (ch_queue (ip_channels st channel)) (\<lambda>m. m\<lparr>msg_handled := True\<rparr>) st);
               (st, r) = deliver buffer msg st
           in RecvGets r st)
        else RecvFails st)"

section \<open>Sending and replying\<close>

definition init_message :: "u64 \<Rightarrow> u64 \<Rightarrow> u64 \<Rightarrow> u64 \<Rightarrow> ptr \<Rightarrow> IpcMessage" where
  "init_message cookie tag sz phys current_task =
     \<lparr>msg_next = NULL, msg_cookie = cookie, msg_tag = tag, arg_buf_size = (if sz > VM_PAGE_SIZE then VM_PAGE_SIZE else sz),
      arg_buf_phys = phys, msg_waiter = current_task, msg_reply = 0, msg_handled = False\<rparr>"

text \<open>\<^verbatim>\<open>list_add\<close> on the messages of a queue.\<close>

partial_function (option) msg_list_end :: "(ptr \<Rightarrow> IpcMessage) \<Rightarrow> ptr \<Rightarrow> ptr option" where
  "msg_list_end ms p = (if msg_next (ms p) = NULL then Some p else msg_list_end ms (msg_next (ms p)))"

definition enqueue_message :: "ptr \<Rightarrow> ptr \<Rightarrow> ipc_state \<Rightarrow> ipc_state option" where
  "enqueue_message channel message st =
     (if ch_queue (ip_channels st channel) \<noteq> NULL
      then map_option (\<lambda>e. upd_message message (\<lambda>m. m\<lparr>msg_next := msg_next (ip_messages st e)\<rparr>)
                             (upd_message e (\<lambda>m. m\<lparr>msg_next := message\<rparr>) st))
             (msg_list_end (ip_messages st) (ch_queue (ip_channels st channel)))
      else Some (upd_channel channel (\<lambda>ch. ch\<lparr>ch_queue := message\<rparr>) st))"

definition wake_first_receiver :: "nat \<Rightarrow> ptr \<Rightarrow> ipc_state \<Rightarrow> ipc_state option" where
  "wake_first_receiver c channel st =
     (let receiver = ch_receivers (ip_channels st channel)
      in if receiver \<noteq> NULL
         then let st = upd_channel channel (\<lambda>ch. ch\<lparr>ch_receivers := t_next (ss_heap (ip_sched st) receiver)\<rparr>) st
              in map_option (\<lambda>s. st\<lparr>ip_sched := s\<rparr>) (sched_unblock c receiver (ip_sched st))
         else Some st)"

datatype send_result = SendFails ipc_state | SendBlocks ipc_state bool

definition ipc_channel_send_begin ::
  "(u64 \<Rightarrow> u64) \<Rightarrow> nat \<Rightarrow> ptr \<Rightarrow> u64 \<Rightarrow> u64 \<Rightarrow> u64 \<Rightarrow> u64 \<Rightarrow> u64 \<Rightarrow> ipc_state \<Rightarrow> send_result option" where
  "ipc_channel_send_begin vmm_virt_to_phys_page c message cookie channel_cookie tag sz buffer st =
     (if buffer AND 0xFFF \<noteq> 0 then Some (SendFails st)
      else if sz > VM_PAGE_SIZE then Some (SendFails st)
      else let channel = hash_table_lookup (channel_hash st) channel_cookie in
        if channel = NULL then Some (SendFails st)
        else if message = NULL then Some (SendFails st)
        else
          let task = this_task c st;
              st = upd_message message (\<lambda>_. init_message cookie tag sz (vmm_virt_to_phys_page buffer) task) st
          in case enqueue_message channel message st of
               None \<Rightarrow> None
             | Some st \<Rightarrow>
                 (case wake_first_receiver c channel st of
                    None \<Rightarrow> None
                  | Some st \<Rightarrow> map_option (\<lambda>(st, b). SendBlocks st b)
                                (ipc_schedule c (st\<lparr>ip_sched := sched_block task (ip_sched st)\<rparr>))))"

text \<open>The reply, the address unmapped, and the freed message.\<close>

definition ipc_channel_send_resume :: "ptr \<Rightarrow> ipc_state \<Rightarrow> u64 \<times> u64 option \<times> ptr" where
  "ipc_channel_send_resume message st =
     (let m = ip_messages st message
      in (msg_reply m, if arg_buf_phys m \<noteq> 0 then Some (arg_buf_phys m) else None, message))"

definition ipc_channel_reply :: "nat \<Rightarrow> u64 \<Rightarrow> u64 \<Rightarrow> ipc_state \<Rightarrow> (ipc_state \<times> u64 \<times> bool) option" where
  "ipc_channel_reply c message_cookie result st =
     (let msg = hash_table_lookup (in_flight_message_hash st) message_cookie
      in if msg = NULL then Some (st, 0, True)
         else case hash_table_remove (in_flight_message_hash st) message_cookie of
                None \<Rightarrow> None
              | Some (t, _) \<Rightarrow>
                  let st = upd_message msg (\<lambda>m. m\<lparr>msg_reply := result\<rparr>) (st\<lparr>in_flight_message_hash := t\<rparr>)
                  in case sched_unblock c (msg_waiter (ip_messages st msg)) (ip_sched st) of
                       None \<Rightarrow> None
                     | Some s \<Rightarrow> map_option (\<lambda>(st, b). (st, message_cookie, b)) (ipc_schedule c (st\<lparr>ip_sched := s\<rparr>)))"

section \<open>Named channels\<close>

text \<open>The hash of a name: its bytes up to the terminator, at most \<^verbatim>\<open>max_len\<close> of them; \<open>None\<close> is the null pointer.\<close>

fun sdbm_loop :: "nat \<Rightarrow> u64 \<Rightarrow> u8 list \<Rightarrow> u64" where
  "sdbm_loop n hash [] = hash"
| "sdbm_loop n hash (ch # str) =
     (if ch \<noteq> 0 \<and> n > 0 then sdbm_loop (n - 1) (ucast ch + push_bit 6 hash + push_bit 16 hash - hash) str else hash)"

definition str_hash_sdbm :: "u8 list option \<Rightarrow> nat \<Rightarrow> u64" where
  "str_hash_sdbm str max_len = (case str of None \<Rightarrow> 0 | Some s \<Rightarrow> sdbm_loop max_len 0 s)"

fun djb2_loop :: "nat \<Rightarrow> u64 \<Rightarrow> u8 list \<Rightarrow> u64" where
  "djb2_loop n hash [] = hash"
| "djb2_loop n hash (ch # str) =
     (if ch \<noteq> 0 \<and> n > 0 then djb2_loop (n - 1) (push_bit 5 hash + hash + ucast ch) str else hash)"

definition str_hash_djb2 :: "u8 list option \<Rightarrow> nat \<Rightarrow> u64" where
  "str_hash_djb2 str max_len = (case str of None \<Rightarrow> 5381 | Some s \<Rightarrow> djb2_loop max_len 5381 s)"

definition named_channel_init :: "(nat \<Rightarrow> HashTable option) \<Rightarrow> HashTable option" where
  "named_channel_init create = create 2"

definition named_channel_register :: "bool \<Rightarrow> ipc_state \<Rightarrow> HashTable \<Rightarrow> u64 \<Rightarrow> u8 list option \<Rightarrow> HashTable \<times> bool" where
  "named_channel_register hash_ok st name_table cookie name =
     (if \<not> ipc_channel_exists cookie st then (name_table, False)
      else hash_table_insert hash_ok name_table (str_hash_sdbm name 255) cookie)"

definition named_channel_find :: "HashTable \<Rightarrow> u8 list option \<Rightarrow> u64" where
  "named_channel_find name_table name = hash_table_lookup name_table (str_hash_sdbm name 255)"

definition named_channel_deregister :: "HashTable \<Rightarrow> u8 list option \<Rightarrow> (HashTable \<times> u64) option" where
  "named_channel_deregister name_table name = hash_table_remove name_table (str_hash_sdbm name 255)"

section \<open>Library\<close>

text \<open>The messages from a pointer, in order.\<close>

fun mlist :: "(ptr \<Rightarrow> IpcMessage) \<Rightarrow> ptr \<Rightarrow> ptr list \<Rightarrow> bool" where
  "mlist h p [] \<longleftrightarrow> p = NULL"
| "mlist h p (x # xs) \<longleftrightarrow> p = x \<and> x \<noteq> NULL \<and> mlist h (msg_next (h x)) xs"

lemma mlist_cong: "\<forall>x \<in> set xs. msg_next (h x) = msg_next (h' x) \<Longrightarrow> mlist h p xs = mlist h' p xs"
  by (induction xs arbitrary: p) auto

lemma mlist_NULL: "mlist h p xs \<Longrightarrow> p = NULL \<longleftrightarrow> xs = []"
  by (cases xs) auto

lemma mlist_end: "mlist h p xs \<Longrightarrow> xs \<noteq> [] \<Longrightarrow> msg_list_end h p = Some (last xs) \<and> msg_next (h (last xs)) = NULL"
proof (induction xs arbitrary: p)
  case (Cons x xs)
  show ?case
  proof (cases xs)
    case Nil
    then show ?thesis using Cons.prems by (subst msg_list_end.simps) simp
  next
    case (Cons y ys)
    then show ?thesis using Cons.IH [of y] Cons.prems by (subst msg_list_end.simps) auto
  qed
qed simp

lemma mlist_snoc:
  assumes "mlist h p xs" "xs \<noteq> []" "x \<notin> set xs" "x \<noteq> NULL" "distinct xs"
    and "\<forall>y. y \<noteq> last xs \<longrightarrow> y \<noteq> x \<longrightarrow> msg_next (h' y) = msg_next (h y)" "msg_next (h' (last xs)) = x" "msg_next (h' x) = NULL"
  shows "mlist h' p (xs @ [x])"
  using assms
proof (induction xs arbitrary: p)
  case (Cons y ys)
  show ?case
  proof (cases "ys = []")
    case False
    then have "last ys \<in> set ys" "y \<noteq> last ys" "y \<noteq> x" using Cons.prems by auto
    then show ?thesis using Cons False by auto
  qed (use Cons.prems in auto)
qed simp

lemma tlist_last_NULL: "tlist h p (xs @ [x]) \<Longrightarrow> t_next (h x) = NULL"
  by (induction xs arbitrary: p) auto

lemma upd_simps [simp]:
  "ip_sched (upd_channel p f st) = ip_sched st" "ip_messages (upd_channel p f st) = ip_messages st"
  "channel_hash (upd_channel p f st) = channel_hash st" "in_flight_message_hash (upd_channel p f st) = in_flight_message_hash st"
  "ip_channels (upd_channel p f st) = (ip_channels st)(p := f (ip_channels st p))"
  "ip_sched (upd_message q g st) = ip_sched st" "ip_channels (upd_message q g st) = ip_channels st"
  "channel_hash (upd_message q g st) = channel_hash st" "in_flight_message_hash (upd_message q g st) = in_flight_message_hash st"
  "ip_messages (upd_message q g st) = (ip_messages st)(q := g (ip_messages st q))"
  by (simp_all add: upd_channel_def upd_message_def)

lemma enqueue_message_ok:
  assumes q: "mlist (ip_messages st) (ch_queue (ip_channels st ch)) ms" "distinct ms" "m \<notin> set ms" "m \<noteq> NULL" "msg_next (ip_messages st m) = NULL"
  shows "\<exists>st'. enqueue_message ch m st = Some st' \<and> mlist (ip_messages st') (ch_queue (ip_channels st' ch)) (ms @ [m])
    \<and> ip_sched st' = ip_sched st
    \<and> channel_hash st' = channel_hash st \<and> in_flight_message_hash st' = in_flight_message_hash st
    \<and> ch_receivers (ip_channels st' ch) = ch_receivers (ip_channels st ch)
    \<and> (\<forall>x. x \<noteq> ch \<longrightarrow> ip_channels st' x = ip_channels st x)
    \<and> (\<forall>y. \<exists>n. ip_messages st' y = (ip_messages st y)\<lparr>msg_next := n\<rparr>)"
proof (cases "ms = []")
  case True
  have self: "\<exists>n. r = r\<lparr>msg_next := n\<rparr>" for r :: IpcMessage by (rule exI [of _ "msg_next r"]) simp
  show ?thesis using True q self by (auto simp: enqueue_message_def)
next
  case False
  define e where "e = last ms"
  have e: "e \<in> set ms" "e \<noteq> m" using False q(3) by (auto simp: e_def)
  note en = mlist_end [OF q(1) False, folded e_def]
  let ?st = "upd_message m (\<lambda>x. x\<lparr>msg_next := msg_next (ip_messages st e)\<rparr>) (upd_message e (\<lambda>x. x\<lparr>msg_next := m\<rparr>) st)"
  have nz: "ch_queue (ip_channels st ch) \<noteq> NULL" using mlist_NULL [OF q(1)] False by simp
  have self: "\<exists>n. r = r\<lparr>msg_next := n\<rparr>" for r :: IpcMessage by (rule exI [of _ "msg_next r"]) simp
  have "mlist (ip_messages ?st) (ch_queue (ip_channels ?st ch)) (ms @ [m])"
    using e en q False by (intro mlist_snoc [OF _ False, of "ip_messages st"]) (auto simp: e_def [symmetric])
  moreover have "\<forall>y. \<exists>n. ip_messages ?st y = (ip_messages st y)\<lparr>msg_next := n\<rparr>" using self e(2) by auto
  moreover have "enqueue_message ch m st = Some ?st" using nz en by (simp add: enqueue_message_def)
  ultimately show ?thesis by (intro exI [of _ ?st]) simp
qed

lemma wake_first_ok:
  assumes ok: "sched_ok (ip_sched st) qs" and c: "c < length (ss_cpus (ip_sched st))" and room: "has_room (ip_sched st) qs 2"
    and rs: "tlist (ss_heap (ip_sched st)) (ch_receivers (ip_channels st ch)) rs" "\<forall>r \<in> set rs. waiter_ok (ip_sched st) qs r"
  defines "qs1 \<equiv> (case rs of [] \<Rightarrow> qs | r # _ \<Rightarrow> woken (ss_heap (ip_sched st)) qs c r)"
  shows "\<exists>st'. wake_first_receiver c ch st = Some st' \<and> sched_ok (ip_sched st') qs1 \<and> has_room (ip_sched st') qs1 1
    \<and> ip_messages st' = ip_messages st \<and> channel_hash st' = channel_hash st \<and> in_flight_message_hash st' = in_flight_message_hash st
    \<and> ch_queue (ip_channels st' ch) = ch_queue (ip_channels st ch)
    \<and> tlist (ss_heap (ip_sched st')) (ch_receivers (ip_channels st' ch)) (tl rs)
    \<and> (\<forall>r \<in> set (tl rs). waiter_ok (ip_sched st') qs1 r) \<and> length (ss_cpus (ip_sched st')) = length (ss_cpus (ip_sched st))
    \<and> (\<forall>d < length (ss_cpus (ip_sched st)). cs_current (ss_cpus (ip_sched st') ! d) = cs_current (ss_cpus (ip_sched st) ! d))
    \<and> (\<forall>y. y \<notin> set rs \<union> queued (ip_sched st) qs \<longrightarrow> ss_heap (ip_sched st') y = ss_heap (ip_sched st) y)"
proof (cases rs)
  case Nil
  then show ?thesis using assms has_room_mono [OF room, of 1]
    by (auto simp: wake_first_receiver_def Let_def)
next
  case (Cons r rs')
  let ?s = "ip_sched st" and ?qs = "woken (ss_heap (ip_sched st)) qs c r"
  have r: "ch_receivers (ip_channels st ch) = r" "r \<noteq> NULL" "waiter_ok ?s qs r" "r \<notin> set rs'"
    using rs Cons tlist_distinct [OF rs(1)] by auto
  obtain s1 where s1: "sched_unblock_on r c ?s = Some s1" "queues_ok s1 ?qs" "queued s1 ?qs = insert r (queued ?s qs)" "has_room s1 ?qs 1"
    "length (ss_cpus s1) = length (ss_cpus ?s)" "\<forall>d < length (ss_cpus ?s). cs_current (ss_cpus s1 ! d) = cs_current (ss_cpus ?s ! d)"
    "\<forall>y. y \<notin> insert r (queued ?s qs) \<longrightarrow> ss_heap s1 y = ss_heap ?s y"
    using unblock_ok [of ?s qs c r 1] ok c r(3) room by (auto simp: sched_ok_def waiter_ok_def numeral_2_eq_2)
  have keep: "ss_heap s1 x = ss_heap ?s x" "waiter_ok ?s qs x" "x \<noteq> r" if "x \<in> set rs'" for x
    using that rs(2) Cons r(4) s1(7) by (auto simp: waiter_ok_def wakeable_def)
  have "tlist (ss_heap s1) (t_next (ss_heap ?s r)) rs'" using rs(1) Cons keep(1) by (subst tlist_cong [of _ _ "ss_heap ?s"]) auto
  moreover have "\<forall>x \<in> set rs'. waiter_ok s1 ?qs x" using keep s1(3,5,6) by (auto simp: waiter_ok_def wakeable_def)
  moreover have "currents_ok s1 ?qs" using ok r(3) s1(3,5,6) by (auto simp: sched_ok_def currents_ok_def waiter_ok_def)
  ultimately show ?thesis using Cons r s1 unfolding qs1_def
    by (auto simp: wake_first_receiver_def Let_def sched_unblock_def sched_ok_def)
qed

text \<open>Blocking the current task after the wake-up.\<close>

lemma block_schedule_ok:
  assumes ok: "sched_ok (ip_sched st) qs" and c: "c < length (ss_cpus (ip_sched st))" and room: "has_room (ip_sched st) qs 1"
    and task: "task = this_task c st" "task \<noteq> NULL" "t_class (ss_heap (ip_sched st) task) \<noteq> TASK_CLASS_INVALID"
      "\<not> thread_to_be_killed (ss_heap (ip_sched st) task)"
    and top: "top_class qs c = Some cl"
  shows "\<exists>s'. ipc_schedule c (st\<lparr>ip_sched := sched_block task (ip_sched st)\<rparr>) = Some (st\<lparr>ip_sched := s'\<rparr>, True)
    \<and> sched_ok s' (set_queue qs c cl (tl (qs c cl))) \<and> cs_current (ss_cpus s' ! c) = hd (qs c cl)
    \<and> t_state (ss_heap s' task) = TASK_STATE_BLOCKED \<and> t_next (ss_heap s' task) = t_next (ss_heap (ip_sched st) task)
    \<and> task \<notin> queued (ip_sched st) qs
    \<and> (\<forall>w. waiter_ok (ip_sched st) qs w \<longrightarrow> waiter_ok s' (set_queue qs c cl (tl (qs c cl))) w \<and> ss_heap s' w = ss_heap (ip_sched st) w)
    \<and> waiter_ok s' (set_queue qs c cl (tl (qs c cl))) task"
proof -
  let ?s = "ip_sched st" and ?qs = "set_queue qs c cl (tl (qs c cl))"
  define s1 where "s1 = sched_block task ?s"
  note tc = top_class_Some [OF top]
  have h1: "ss_heap s1 task = (ss_heap ?s task)\<lparr>t_state := TASK_STATE_BLOCKED\<rparr>" "ss_cpus s1 = ss_cpus ?s"
    "\<And>y. y \<noteq> task \<Longrightarrow> ss_heap s1 y = ss_heap ?s y" by (auto simp: s1_def sched_block_def)
  have nq: "task \<notin> queued ?s qs" using ok task(1) c by (auto simp: sched_ok_def currents_ok_def)
  have ok1: "sched_ok s1 qs" using heap_change_ok [OF ok] nq by (auto simp: s1_def sched_block_def upd_task_def)
  have "has_room s1 qs 1" using room h1(2) by (simp add: has_room_def)
  then obtain s' where s': "sched_schedule c s1 = Some (Continues s')" "sched_ok s' ?qs"
    "cs_current (ss_cpus s' ! c) = hd (qs c cl)" "ss_heap s' task = ticked (ss_heap s1 task)"
    "length (ss_cpus s') = length (ss_cpus ?s)" "\<forall>d < length (ss_cpus ?s). d \<noteq> c \<longrightarrow> cs_current (ss_cpus s' ! d) = cs_current (ss_cpus ?s ! d)"
    "\<forall>y. y \<noteq> task \<longrightarrow> y \<noteq> hd (qs c cl) \<longrightarrow> ss_heap s' y = ss_heap s1 y"
    using schedule_blocked [OF ok1 _ _ _ _ _ _ _ top, of task] c task h1 by (auto simp: thread_to_be_killed_def)
  have hdq: "hd (qs c cl) \<in> queued ?s qs" using queuedI [OF c tc(1)] tc(2) by simp
  have sub: "queued s' ?qs \<subseteq> queued ?s qs" by (rule queued_tl [OF s'(5)])
  have tk: "t_next (ticked t) = t_next t" "t_state (ticked t) = t_state t" "t_class (ticked t) = t_class t" for t
    by (simp_all add: ticked_def)
  have wt: "waiter_ok s' ?qs w \<and> ss_heap s' w = ss_heap ?s w" if w: "waiter_ok ?s qs w" for w
  proof -
    have ne: "w \<noteq> task" "w \<noteq> hd (qs c cl)" using w task(1) c hdq by (auto simp: waiter_ok_def wakeable_def)
    then have eq: "ss_heap s' w = ss_heap ?s w" using s'(7) h1(3) by simp
    have "cs_current (ss_cpus s' ! d) \<noteq> w" if "d < length (ss_cpus ?s)" for d
      using that s'(3,6) ne w by (cases "d = c") (auto simp: waiter_ok_def)
    then show ?thesis using eq w sub s'(5) by (auto simp: waiter_ok_def wakeable_def)
  qed
  have "cs_current (ss_cpus s' ! d) \<noteq> task" if "d < length (ss_cpus ?s)" for d
    using that s'(3,6) hdq nq currents_distinct [OF ok c that] task by (cases "d = c") auto
  then have "waiter_ok s' ?qs task"
    using s'(4,5) h1(1) tk task nq sub by (auto simp: waiter_ok_def wakeable_def)
  moreover have "ipc_schedule c (st\<lparr>ip_sched := s1\<rparr>) = Some (st\<lparr>ip_sched := s'\<rparr>, True)"
    using s'(1) by (simp add: ipc_schedule_def)
  ultimately show ?thesis using s' wt nq h1(1) tk unfolding s1_def by (intro exI [of _ s']) simp
qed

text \<open>A state with one channel, two blocked receivers, and given queue and in-flight messages.\<close>

definition demo_table :: HashTable where
  "demo_table = \<lparr>ht_size = 0, ht_entries = replicate 256 empty_entry\<rparr>"

definition demo_ipc :: "ptr \<Rightarrow> ptr \<Rightarrow> HashTable \<Rightarrow> ipc_state" where
  "demo_ipc rs q fl =
     \<lparr>ip_sched = demo_sched\<lparr>ss_heap := (ss_heap demo_sched)
         (0x3000 := (demo_task TASK_STATE_BLOCKED 6)\<lparr>t_next := 0x4000\<rparr>, 0x4000 := demo_task TASK_STATE_BLOCKED 6)\<rparr>,
      ip_channels = (\<lambda>_. \<lparr>ch_cookie = 5, ch_receivers = rs, ch_receivers_lock = 0xA040, ch_queue = q, ch_queue_lock = 0xA080\<rparr>),
      ip_messages = (\<lambda>_. init_message 9 1 64 0x8000 0x3000),
      channel_hash = fst (hash_table_insert True demo_table 5 0xA000), in_flight_message_hash = fl\<rparr>"

lemma demo_table_ok: "ht_wf demo_table" "ht_map demo_table = Map.empty"
  using one_page_wf one_page_map by (simp_all add: demo_table_def)

lemma demo_insert:
  assumes "k \<noteq> 0"
  shows "hash_table_insert True demo_table k v = (fst (hash_table_insert True demo_table k v), True)"
    "ht_wf (fst (hash_table_insert True demo_table k v))" "ht_map (fst (hash_table_insert True demo_table k v)) = [k \<mapsto> v]"
    "hash_table_lookup (fst (hash_table_insert True demo_table k v)) k = v"
proof -
  obtain t b where t: "hash_table_insert True demo_table k v = (t, b)" by fastforce
  note i = ht.ins_abs [OF demo_table_ok(1) assms t]
  show "hash_table_insert True demo_table k v = (fst (hash_table_insert True demo_table k v), True)"
    "ht_wf (fst (hash_table_insert True demo_table k v))" "ht_map (fst (hash_table_insert True demo_table k v)) = [k \<mapsto> v]"
    "hash_table_lookup (fst (hash_table_insert True demo_table k v)) k = v"
    using t i ht.lookup_abs [of t k] demo_table_ok(2) by auto
qed

lemma demo_ipc_ok:
  "sched_ok (ip_sched (demo_ipc rs q fl)) demo_qs" "queued (ip_sched (demo_ipc rs q fl)) demo_qs = {0x2000}"
  "waiter_ok (ip_sched (demo_ipc rs q fl)) demo_qs 0x3000" "waiter_ok (ip_sched (demo_ipc rs q fl)) demo_qs 0x4000"
  "has_room (ip_sched (demo_ipc rs q fl)) demo_qs 2" "has_room (ip_sched (demo_ipc rs q fl)) demo_qs 1"
  "length (ss_cpus (ip_sched (demo_ipc rs q fl))) = 1" "this_task 0 (demo_ipc rs q fl) = 0x1000"
  "\<not> thread_to_be_killed (ss_heap (ip_sched (demo_ipc rs q fl)) 0x1000)"
  "t_class (ss_heap (ip_sched (demo_ipc rs q fl)) x) = TASK_CLASS_NORMAL"
proof -
  have q: "queued demo_sched demo_qs = {0x2000}" by (simp add: queued_def cpu_tasks_def demo_sched_def demo_qs_def lessThan_Suc)
  show "sched_ok (ip_sched (demo_ipc rs q fl)) demo_qs" unfolding demo_ipc_def ipc_state.simps
    by (intro heap_change_ok [OF demo_sched_ok]) (simp add: q)
  show qd: "queued (ip_sched (demo_ipc rs q fl)) demo_qs = {0x2000}" using q by (simp add: demo_ipc_def queued_def)
  show "waiter_ok (ip_sched (demo_ipc rs q fl)) demo_qs 0x3000" "waiter_ok (ip_sched (demo_ipc rs q fl)) demo_qs 0x4000"
    unfolding waiter_ok_def wakeable_def qd by (simp_all add: demo_ipc_def demo_task_def demo_sched_def)
  show "has_room (ip_sched (demo_ipc rs q fl)) demo_qs 2" "has_room (ip_sched (demo_ipc rs q fl)) demo_qs 1"
    by (simp_all add: has_room_def cpu_tasks_def demo_qs_def demo_sched_def demo_ipc_def)
  show "length (ss_cpus (ip_sched (demo_ipc rs q fl))) = 1" "this_task 0 (demo_ipc rs q fl) = 0x1000"
    "\<not> thread_to_be_killed (ss_heap (ip_sched (demo_ipc rs q fl)) 0x1000)"
    "t_class (ss_heap (ip_sched (demo_ipc rs q fl)) x) = TASK_CLASS_NORMAL"
    by (simp_all add: demo_ipc_def demo_sched_def demo_task_def thread_to_be_killed_def)
qed

section \<open>Properties\<close>

text \<open>C19: sending to an existing channel puts the new message, with the given tag and size, the frame of the buffer and the sender as its waiter, at the end of
  the channel's queue (first in, first out), wakes the receiver that has waited longest, whatever its priority, and blocks the
  sender while the CPU switches to the first queued task of the highest class. All other receivers keep
  waiting in order and the run queues stay well formed.\<close>

theorem ipc_channel_send_correct:
  assumes ok: "sched_ok (ip_sched st) qs" and c: "c < length (ss_cpus (ip_sched st))" and room: "has_room (ip_sched st) qs 2"
    and task: "task = this_task c st" "task \<noteq> NULL" "t_class (ss_heap (ip_sched st) task) \<noteq> TASK_CLASS_INVALID"
      "\<not> thread_to_be_killed (ss_heap (ip_sched st) task)"
    and chan: "hash_table_lookup (channel_hash st) cookie = ch" "ch \<noteq> NULL"
    and args: "buffer AND 0xFFF = 0" "sz \<le> VM_PAGE_SIZE" "m \<noteq> NULL" "m \<notin> set ms"
    and q: "mlist (ip_messages st) (ch_queue (ip_channels st ch)) ms" "distinct ms"
    and rs: "tlist (ss_heap (ip_sched st)) (ch_receivers (ip_channels st ch)) rs" "\<forall>r \<in> set rs. waiter_ok (ip_sched st) qs r"
    and qs1: "qs1 = (case rs of [] \<Rightarrow> qs | r # _ \<Rightarrow> woken (ss_heap (ip_sched st)) qs c r)" and top: "top_class qs1 c = Some cl"
  shows "\<exists>st'. ipc_channel_send_begin virt_to_phys c m mc cookie tag sz buffer st = Some (SendBlocks st' True)
    \<and> mlist (ip_messages st') (ch_queue (ip_channels st' ch)) (ms @ [m])
    \<and> ip_messages st' m = \<lparr>msg_next = NULL, msg_cookie = mc, msg_tag = tag, arg_buf_size = sz, arg_buf_phys = virt_to_phys buffer, msg_waiter = task,
         msg_reply = 0, msg_handled = False\<rparr>
    \<and> tlist (ss_heap (ip_sched st')) (ch_receivers (ip_channels st' ch)) (tl rs)
    \<and> sched_ok (ip_sched st') (set_queue qs1 c cl (tl (qs1 c cl))) \<and> cs_current (ss_cpus (ip_sched st') ! c) = hd (qs1 c cl)
    \<and> (\<forall>r \<in> insert task (set (tl rs)). waiter_ok (ip_sched st') (set_queue qs1 c cl (tl (qs1 c cl))) r)"
proof -
  define st0 where "st0 = upd_message m (\<lambda>_. init_message mc tag sz (virt_to_phys buffer) task) st"
  have "mlist (ip_messages st0) (ch_queue (ip_channels st0 ch)) ms"
    using q(1) args(4) by (subst mlist_cong [of _ _ "ip_messages st"]) (auto simp: st0_def)
  then obtain st1 where st1: "enqueue_message ch m st0 = Some st1" "mlist (ip_messages st1) (ch_queue (ip_channels st1 ch)) (ms @ [m])"
    "ip_sched st1 = ip_sched st" "ch_receivers (ip_channels st1 ch) = ch_receivers (ip_channels st ch)"
    "\<forall>y. \<exists>n. ip_messages st1 y = (ip_messages st0 y)\<lparr>msg_next := n\<rparr>"
    using enqueue_message_ok [of st0 ch ms m] q(2) args(3,4) by (auto simp: st0_def init_message_def)
  have nn: "msg_next (ip_messages st1 m) = NULL" using st1(2)
  proof -
    have "mlist h p (xs @ [x]) \<Longrightarrow> msg_next (h x) = NULL" for h p xs x by (induction xs arbitrary: p) auto
    then show ?thesis using st1(2) by blast
  qed
  have mm: "ip_messages st1 m = init_message mc tag sz (virt_to_phys buffer) task"
    using spec [OF st1(5), of m] nn by (auto simp: st0_def init_message_def)
  have "\<exists>st2. wake_first_receiver c ch st1 = Some st2 \<and> sched_ok (ip_sched st2) qs1 \<and> has_room (ip_sched st2) qs1 1
    \<and> ip_messages st2 = ip_messages st1 \<and> channel_hash st2 = channel_hash st1 \<and> in_flight_message_hash st2 = in_flight_message_hash st1
    \<and> ch_queue (ip_channels st2 ch) = ch_queue (ip_channels st1 ch)
    \<and> tlist (ss_heap (ip_sched st2)) (ch_receivers (ip_channels st2 ch)) (tl rs)
    \<and> (\<forall>r \<in> set (tl rs). waiter_ok (ip_sched st2) qs1 r) \<and> length (ss_cpus (ip_sched st2)) = length (ss_cpus (ip_sched st1))
    \<and> (\<forall>d < length (ss_cpus (ip_sched st1)). cs_current (ss_cpus (ip_sched st2) ! d) = cs_current (ss_cpus (ip_sched st1) ! d))
    \<and> (\<forall>y. y \<notin> set rs \<union> queued (ip_sched st1) qs \<longrightarrow> ss_heap (ip_sched st2) y = ss_heap (ip_sched st1) y)"
    unfolding qs1 st1(3) [symmetric] using ok c room rs st1(3,4) by (intro wake_first_ok) simp_all
  then obtain st2 where st2: "wake_first_receiver c ch st1 = Some st2" "sched_ok (ip_sched st2) qs1" "has_room (ip_sched st2) qs1 1"
    "ip_messages st2 = ip_messages st1" "ch_queue (ip_channels st2 ch) = ch_queue (ip_channels st1 ch)"
    "tlist (ss_heap (ip_sched st2)) (ch_receivers (ip_channels st2 ch)) (tl rs)" "\<forall>r \<in> set (tl rs). waiter_ok (ip_sched st2) qs1 r"
    "length (ss_cpus (ip_sched st2)) = length (ss_cpus (ip_sched st))"
    "\<forall>d < length (ss_cpus (ip_sched st)). cs_current (ss_cpus (ip_sched st2) ! d) = cs_current (ss_cpus (ip_sched st) ! d)"
    "\<forall>y. y \<notin> set rs \<union> queued (ip_sched st) qs \<longrightarrow> ss_heap (ip_sched st2) y = ss_heap (ip_sched st) y"
    unfolding st1(3) by blast
  have tn: "task \<notin> set rs \<union> queued (ip_sched st) qs"
    using rs(2) task(1) c ok by (auto simp: waiter_ok_def sched_ok_def currents_ok_def)
  then have same: "ss_heap (ip_sched st2) task = ss_heap (ip_sched st) task" using st2(10) by blast
  have "c < length (ss_cpus (ip_sched st2))" "task = this_task c st2" "t_class (ss_heap (ip_sched st2) task) \<noteq> TASK_CLASS_INVALID"
    "\<not> thread_to_be_killed (ss_heap (ip_sched st2) task)" using st2(8,9) same c task by auto
  from block_schedule_ok [OF st2(2) this(1) st2(3) this(2) task(2) this(3,4) top] obtain s' where
    s': "ipc_schedule c (st2\<lparr>ip_sched := sched_block task (ip_sched st2)\<rparr>) = Some (st2\<lparr>ip_sched := s'\<rparr>, True)"
    "sched_ok s' (set_queue qs1 c cl (tl (qs1 c cl)))" "cs_current (ss_cpus s' ! c) = hd (qs1 c cl)"
    "\<forall>w. waiter_ok (ip_sched st2) qs1 w \<longrightarrow> waiter_ok s' (set_queue qs1 c cl (tl (qs1 c cl))) w \<and> ss_heap s' w = ss_heap (ip_sched st2) w"
    "waiter_ok s' (set_queue qs1 c cl (tl (qs1 c cl))) task" by blast
  have "ipc_channel_send_begin virt_to_phys c m mc cookie tag sz buffer st = Some (SendBlocks (st2\<lparr>ip_sched := s'\<rparr>) True)"
    unfolding ipc_channel_send_begin_def Let_def chan(1) task(1) [symmetric] st0_def [symmetric] st1(1) option.case st2(1) s'(1)
    using args chan(2) by (simp add: linorder_not_less)
  moreover have "tlist (ss_heap s') (ch_receivers (ip_channels st2 ch)) (tl rs)"
    using st2(6,7) s'(4) by (subst tlist_cong [of _ _ "ss_heap (ip_sched st2)"]) auto
  ultimately show ?thesis using st1(2) st2 mm s' leD [OF args(2)] by (intro exI [of _ "st2\<lparr>ip_sched := s'\<rparr>"]) (simp add: init_message_def)
qed

theorem ipc_channel_send_correct_witness:
  "\<exists>st'. ipc_channel_send_begin (\<lambda>v. v) 0 0xB000 7 5 1 64 0 (demo_ipc 0x3000 NULL demo_table) = Some (SendBlocks st' True)
     \<and> mlist (ip_messages st') (ch_queue (ip_channels st' 0xA000)) [0xB000] \<and> msg_waiter (ip_messages st' 0xB000) = 0x1000"
proof -
  let ?st = "demo_ipc 0x3000 NULL demo_table"
  have "hash_table_lookup (channel_hash ?st) 5 = 0xA000" using demo_insert(4) [of 5] by (simp add: demo_ipc_def)
  moreover have "tlist (ss_heap (ip_sched ?st)) (ch_receivers (ip_channels ?st 0xA000)) [0x3000, 0x4000]"
    "mlist (ip_messages ?st) (ch_queue (ip_channels ?st 0xA000)) []"
    by (simp_all add: demo_ipc_def demo_task_def)
  moreover have "top_class (woken (ss_heap (ip_sched ?st)) demo_qs 0 0x3000) 0 = Some TASK_CLASS_NORMAL"
    by (simp add: top_class_def woken_def demo_qs_def demo_ipc_ok(10) pq_insert_def)
  moreover have "(64 :: u64) \<le> VM_PAGE_SIZE" by (simp add: VM_PAGE_SIZE_def)
  ultimately show ?thesis
    using ipc_channel_send_correct [of ?st demo_qs 0 "0x1000" 5 "0xA000" 0 64 "0xB000" "[]" "[0x3000, 0x4000]" _ TASK_CLASS_NORMAL "\<lambda>v. v" 7 1]
      demo_ipc_ok [of "0x3000" NULL demo_table] by simp (metis IpcMessage.select_convs(6))
qed

text \<open>C20: receiving, at once or after being woken, takes the oldest message of the channel's queue: its
  cookie, tag and size are handed out, the rest of the queue keeps its order, and the message is registered
  as in flight under its cookie, so that it can be answered. The argument page is mapped exactly when
  there is a buffer and the message carries one. Receivers that wait on the channel are not looked at, whatever their priority, and keep waiting in order.\<close>

theorem ipc_channel_recv_correct:
  assumes chan: "hash_table_lookup (channel_hash st) cookie = ch" "ch \<noteq> NULL" and al: "buffer AND 0xFFF = 0"
    and q: "mlist (ip_messages st) (ch_queue (ip_channels st ch)) (m # ms)" "distinct (m # ms)"
    and fl: "ht_wf (in_flight_message_hash st)" "msg_cookie (ip_messages st m) \<noteq> 0"
      "ht_map (in_flight_message_hash st) (msg_cookie (ip_messages st m)) = None"
    and recv: "res = ipc_channel_recv_begin c True cookie buffer st \<or> res = Some (ipc_channel_recv_resume True cookie buffer st)"
  shows "\<exists>r st'. res = Some (RecvGets r st') \<and> rc_cookie r = msg_cookie (ip_messages st m) \<and> rc_tag r = msg_tag (ip_messages st m)
    \<and> rc_size r = arg_buf_size (ip_messages st m)
    \<and> rc_mapped r = (if buffer \<noteq> 0 \<and> arg_buf_phys (ip_messages st m) \<noteq> 0 \<and> arg_buf_size (ip_messages st m) \<noteq> 0
         then Some (buffer, arg_buf_phys (ip_messages st m)) else None)
    \<and> mlist (ip_messages st') (ch_queue (ip_channels st' ch)) ms \<and> ht_wf (in_flight_message_hash st')
    \<and> ht_map (in_flight_message_hash st') = (ht_map (in_flight_message_hash st))(msg_cookie (ip_messages st m) \<mapsto> m)
    \<and> ip_sched st' = ip_sched st \<and> msg_waiter (ip_messages st' m) = msg_waiter (ip_messages st m)
    \<and> ch_receivers (ip_channels st' ch) = ch_receivers (ip_channels st ch)"
proof -
  define st0 where "st0 = (\<lambda>b. if b then upd_message m (\<lambda>m. m\<lparr>msg_handled := True\<rparr>) st else st)"
  have m: "ch_queue (ip_channels st ch) = m" "m \<noteq> NULL" using q by auto
  obtain t b where ins: "hash_table_insert True (in_flight_message_hash st) (msg_cookie (ip_messages st m)) m = (t, b)" by fastforce
  have t: "ht_wf t" "ht_map t = (ht_map (in_flight_message_hash st))(msg_cookie (ip_messages st m) \<mapsto> m)"
    using ht.ins_abs [OF fl(1,2) ins] fl(3) by auto
  have ev: "\<exists>b. res = (let (msg, st1) = take_message True ch (st0 b); (st2, r) = deliver buffer msg st1 in Some (RecvGets r st2))"
    using recv
  proof
    assume "res = ipc_channel_recv_begin c True cookie buffer st"
    then show ?thesis using chan al m by (intro exI [of _ False]) (simp add: ipc_channel_recv_begin_def Let_def st0_def)
  next
    assume "res = Some (ipc_channel_recv_resume True cookie buffer st)"
    then show ?thesis using chan m
      by (intro exI [of _ True]) (simp add: ipc_channel_recv_resume_def Let_def st0_def split: prod.splits)
  qed
  then obtain b where res: "res = (let (msg, st1) = take_message True ch (st0 b); (st2, r) = deliver buffer msg st1 in Some (RecvGets r st2))" ..
  have tk: "take_message True ch (st0 b) = (m, upd_channel ch (\<lambda>x. x\<lparr>ch_queue := msg_next (ip_messages st m)\<rparr>) (st0 b)\<lparr>in_flight_message_hash := t\<rparr>)"
    using m ins by (auto simp: take_message_def Let_def st0_def upd_channel_def upd_message_def)
  have ml: "mlist h (msg_next (ip_messages st m)) ms" if "\<forall>x. msg_next (h x) = msg_next (ip_messages st x)" for h
    using q(1) that by (subst mlist_cong [of _ _ "ip_messages st"]) auto
  show ?thesis using t
    unfolding res tk Let_def prod.case deliver_def
    by (cases b) (auto simp: st0_def intro!: ml)
qed

theorem ipc_channel_recv_correct_witness:
  "\<exists>r st'. ipc_channel_recv_begin 0 True 5 0 (demo_ipc NULL 0xB000 demo_table) = Some (RecvGets r st')
     \<and> rc_cookie r = 9 \<and> rc_tag r = 1 \<and> ht_map (in_flight_message_hash st') = [9 \<mapsto> 0xB000]"
proof -
  let ?st = "demo_ipc NULL 0xB000 demo_table"
  have m: "ip_messages ?st = (\<lambda>_. init_message 9 1 64 0x8000 0x3000)" "in_flight_message_hash ?st = demo_table"
    "ch_queue (ip_channels ?st 0xA000) = 0xB000" by (simp_all add: demo_ipc_def)
  have "hash_table_lookup (channel_hash ?st) 5 = 0xA000" using demo_insert(4) [of 5] by (simp add: demo_ipc_def)
  moreover have "mlist (ip_messages ?st) (ch_queue (ip_channels ?st 0xA000)) [0xB000]" using m by (simp add: init_message_def)
  moreover have "ht_wf (in_flight_message_hash ?st)" "msg_cookie (ip_messages ?st 0xB000) = 9" "msg_tag (ip_messages ?st 0xB000) = 1"
    "ht_map (in_flight_message_hash ?st) = Map.empty"
    using m demo_table_ok by (simp_all add: init_message_def)
  ultimately show ?thesis
    using ipc_channel_recv_correct [of ?st 5 "0xA000" 0 "0xB000" "[]" "ipc_channel_recv_begin 0 True 5 0 ?st" 0] by auto
qed

text \<open>C21: a reply to a message in flight stores the result in the message, takes the message out of the
  in-flight table, makes its sender ready, and the sender, when it runs again, returns exactly that
  result. A cookie is good for one reply: a second one finds nothing and changes nothing.\<close>

theorem ipc_channel_reply_correct:
  assumes ok: "sched_ok (ip_sched st) qs" and c: "c < length (ss_cpus (ip_sched st))" and room: "has_room (ip_sched st) qs 1"
    and fl: "ht_wf (in_flight_message_hash st)" "ht_map (in_flight_message_hash st) k = Some m" "m \<noteq> NULL"
    and w: "wakeable (ip_sched st) qs (msg_waiter (ip_messages st m))"
  shows "\<exists>st1. ipc_channel_reply c k result st = map_option (\<lambda>(st, b). (st, k, b)) (ipc_schedule c st1)
    \<and> fst (ipc_channel_send_resume m st1) = result
    \<and> queues_ok (ip_sched st1) (woken (ss_heap (ip_sched st)) qs c (msg_waiter (ip_messages st m)))
    \<and> t_state (ss_heap (ip_sched st1) (msg_waiter (ip_messages st m))) = TASK_STATE_READY
    \<and> ht_wf (in_flight_message_hash st1) \<and> ht_map (in_flight_message_hash st1) = (ht_map (in_flight_message_hash st))(k := None)
    \<and> (\<forall>st2 d r. in_flight_message_hash st2 = in_flight_message_hash st1 \<longrightarrow> ipc_channel_reply d k r st2 = Some (st2, 0, True))"
proof -
  let ?w = "msg_waiter (ip_messages st m)"
  have lk: "hash_table_lookup (in_flight_message_hash st) k = m" using ht.lookup_abs [OF fl(1), of k] fl(2) by simp
  obtain t where t: "hash_table_remove (in_flight_message_hash st) k = Some (t, m)" "ht_wf t"
    "ht_map t = (ht_map (in_flight_message_hash st))(k := None)" using ht.del_abs [OF fl(1), of k] lk by auto
  obtain s1 where s1: "sched_unblock_on ?w c (ip_sched st) = Some s1" "queues_ok s1 (woken (ss_heap (ip_sched st)) qs c ?w)"
    "t_state (ss_heap s1 ?w) = TASK_STATE_READY"
    using unblock_ok [of "ip_sched st" qs c ?w 0] ok c room w by (auto simp: sched_ok_def)
  define st1 where "st1 = (upd_message m (\<lambda>m. m\<lparr>msg_reply := result\<rparr>) (st\<lparr>in_flight_message_hash := t\<rparr>))\<lparr>ip_sched := s1\<rparr>"
  have "hash_table_lookup t k = NULL" using ht.lookup_abs [OF t(2), of k] t(3) by simp
  then have "\<forall>st2 d r. in_flight_message_hash st2 = t \<longrightarrow> ipc_channel_reply d k r st2 = Some (st2, 0, True)"
    by (simp add: ipc_channel_reply_def)
  moreover have "ipc_channel_reply c k result st = map_option (\<lambda>(st, b). (st, k, b)) (ipc_schedule c st1)"
    using lk t(1) s1(1) fl(3) by (simp add: ipc_channel_reply_def Let_def st1_def sched_unblock_def)
  ultimately show ?thesis using s1 t
    by (intro exI [of _ st1]) (simp add: st1_def ipc_channel_send_resume_def Let_def)
qed

theorem ipc_channel_reply_correct_witness:
  "\<exists>st1. ipc_channel_reply 0 9 77 (demo_ipc NULL NULL (fst (hash_table_insert True demo_table 9 0xB000)))
       = map_option (\<lambda>(st, b). (st, 9, b)) (ipc_schedule 0 st1)
     \<and> fst (ipc_channel_send_resume 0xB000 st1) = 77 \<and> t_state (ss_heap (ip_sched st1) 0x3000) = TASK_STATE_READY"
proof -
  let ?st = "demo_ipc NULL NULL (fst (hash_table_insert True demo_table 9 0xB000))"
  have "msg_waiter (ip_messages ?st 0xB000) = 0x3000" "in_flight_message_hash ?st = fst (hash_table_insert True demo_table 9 0xB000)"
    by (simp_all add: demo_ipc_def init_message_def)
  moreover have "wakeable (ip_sched ?st) demo_qs 0x3000" using demo_ipc_ok(3) by (simp add: waiter_ok_def)
  ultimately show ?thesis
    using ipc_channel_reply_correct [of ?st demo_qs 0 9 "0xB000" 77] demo_insert [of 9 "0xB000"]
      demo_ipc_ok [of NULL NULL "fst (hash_table_insert True demo_table 9 0xB000)"] by auto
qed

text \<open>What destroying a channel does when two or more receivers wait on it: the first is woken, and
  when it goes to the end of its run queue the walk stops there, because waking it has overwritten the link to
  the second, which stays blocked and on no run queue although the channel is gone.\<close>

theorem ipc_channel_destroy_loses_receiver:
  assumes ok: "sched_ok (ip_sched st) qs" and c: "sched_find_target_cpu (ip_sched st) = Some c" "c < length (ss_cpus (ip_sched st))"
    and room: "has_room (ip_sched st) qs 1" and hash: "ht_wf (channel_hash st)" "ht_map (channel_hash st) cookie = Some ch" "ch \<noteq> NULL"
    and q: "ch_queue (ip_channels st ch) = NULL"
    and rs: "tlist (ss_heap (ip_sched st)) (ch_receivers (ip_channels st ch)) (r1 # r2 # rs)" "\<forall>r \<in> set (r1 # r2 # rs). waiter_ok (ip_sched st) qs r"
    and last: "\<forall>x \<in> set (qs c (t_class (ss_heap (ip_sched st) r1))). prio_of (ss_heap (ip_sched st)) x \<le> prio_of (ss_heap (ip_sched st)) r1"
  shows "\<exists>st' freed. ipc_channel_destroy cookie st = Some (st', freed) \<and> \<not> ipc_channel_exists cookie st'
    \<and> queues_ok (ip_sched st') (woken (ss_heap (ip_sched st)) qs c r1)
    \<and> r1 \<in> queued (ip_sched st') (woken (ss_heap (ip_sched st)) qs c r1)
    \<and> (\<forall>r \<in> set (r2 # rs). r \<notin> queued (ip_sched st') (woken (ss_heap (ip_sched st)) qs c r1)
         \<and> t_state (ss_heap (ip_sched st') r) = TASK_STATE_BLOCKED)"
proof -
  let ?s = "ip_sched st" and ?qs = "woken (ss_heap (ip_sched st)) qs c r1"
  let ?cl = "t_class (ss_heap ?s r1)"
  obtain t where t: "hash_table_remove (channel_hash st) cookie = Some (t, ch)" "ht_wf t" "ht_map t = (ht_map (channel_hash st))(cookie := None)"
    using ht.del_abs [OF hash(1), of cookie] ht.lookup_abs [OF hash(1), of cookie] hash(2) by auto
  have r1: "ch_receivers (ip_channels st ch) = r1" "r1 \<noteq> NULL" "waiter_ok ?s qs r1" "?cl \<noteq> TASK_CLASS_INVALID" "r1 \<notin> set (r2 # rs)"
    using rs tlist_distinct [OF rs(1)] by (auto simp: waiter_ok_def wakeable_def)
  obtain s1 where s1: "sched_unblock_on r1 c ?s = Some s1" "queues_ok s1 ?qs" "queued s1 ?qs = insert r1 (queued ?s qs)"
    "length (ss_cpus s1) = length (ss_cpus ?s)" "\<forall>y. y \<notin> insert r1 (queued ?s qs) \<longrightarrow> ss_heap s1 y = ss_heap ?s y"
    using unblock_ok [of ?s qs c r1 0] ok c room r1(3) by (auto simp: sched_ok_def waiter_ok_def)
  have "pq_insert (prio_of (ss_heap ?s)) r1 (qs c ?cl) = qs c ?cl @ [r1]"
    using last by (simp add: pq_insert_def takeWhile_eq_all_conv [THEN iffD2] dropWhile_eq_Nil_conv [THEN iffD2])
  then have "?qs c ?cl = qs c ?cl @ [r1]" by (simp add: woken_def)
  moreover have "queue_ok (ss_heap s1) (cs_head (ss_cpus s1 ! c) ?cl) ?cl (?qs c ?cl)"
    using queues_okD(1) [OF s1(2)] c(2) s1(4) class_valid [OF r1(4)] by simp
  ultimately have "t_next (ss_heap s1 r1) = NULL" using tlist_last_NULL by (auto simp: queue_ok_def)
  then have wk: "wake_receivers r1 ?s = Some s1" using r1(2) c(1) s1(1) by (subst wake_receivers.simps) (simp add: wake_receivers.simps)
  let ?st = "st\<lparr>channel_hash := t, ip_sched := s1\<rparr>" and ?ch = "ip_channels st ch"
  have "wake_senders (ip_messages st) NULL ?s = Some ?s" by (subst wake_senders.simps) simp
  then have "ipc_channel_destroy cookie st = Some (?st, [ch_receivers_lock ?ch, ch_queue_lock ?ch, ch])"
    using t(1) q wk r1(1) hash(3) by (simp add: ipc_channel_destroy_def Let_def)
  moreover have "\<not> ipc_channel_exists cookie ?st" using ht.lookup_abs [OF t(2), of cookie] t(3) by (simp add: ipc_channel_exists_def)
  moreover have "r \<notin> queued s1 ?qs \<and> t_state (ss_heap s1 r) = TASK_STATE_BLOCKED" if "r \<in> set (r2 # rs)" for r
  proof -
    have "waiter_ok ?s qs r" "r \<noteq> r1" using that rs(2) r1(5) by auto
    then show ?thesis using s1(3,5) by (auto simp: waiter_ok_def wakeable_def)
  qed
  ultimately show ?thesis using s1(2,3) by (intro exI [of _ ?st] exI [of _ "[ch_receivers_lock ?ch, ch_queue_lock ?ch, ch]"]) simp
qed

theorem ipc_channel_destroy_loses_receiver_witness:
  "\<exists>st' freed. ipc_channel_destroy 5 (demo_ipc 0x3000 NULL demo_table) = Some (st', freed) \<and> \<not> ipc_channel_exists 5 st'
     \<and> t_state (ss_heap (ip_sched st') 0x4000) = TASK_STATE_BLOCKED"
proof -
  let ?st = "demo_ipc 0x3000 NULL demo_table"
  have "sched_find_target_cpu (ip_sched ?st) = Some 0" by (simp add: demo_ipc_def demo_sched_def sched_find_target_cpu_def)
  moreover have "channel_hash ?st = fst (hash_table_insert True demo_table 5 0xA000)" "ch_queue (ip_channels ?st 0xA000) = NULL"
    "tlist (ss_heap (ip_sched ?st)) (ch_receivers (ip_channels ?st 0xA000)) [0x3000, 0x4000]"
    "prio_of (ss_heap (ip_sched ?st)) 0x2000 \<le> prio_of (ss_heap (ip_sched ?st)) 0x3000"
    by (simp_all add: demo_ipc_def demo_task_def demo_sched_def)
  moreover have "set (demo_qs 0 TASK_CLASS_NORMAL) = {0x2000}" by (simp add: demo_qs_def)
  ultimately show ?thesis
    using ipc_channel_destroy_loses_receiver [of ?st demo_qs 0 5 "0xA000" "0x3000" "0x4000" "[]"]
      demo_insert [of 5 "0xA000"] demo_ipc_ok [of "0x3000" NULL demo_table] by auto
qed

text \<open>A channel registered under a name is found under that name and every name with the same hash,
  other names' lookups do not change, a second registration of the name is refused, and
  deregistering returns the cookie and ends it, restoring the table's map.\<close>

theorem named_channel_roundtrip:
  assumes "ht_wf t" and "named_channel_register ok st t cookie name = (t', True)" and "str_hash_sdbm name 255 \<noteq> 0"
  shows "ipc_channel_exists cookie st
    \<and> (\<forall>n. named_channel_find t' n = (if str_hash_sdbm n 255 = str_hash_sdbm name 255 then cookie else named_channel_find t n))
    \<and> snd (named_channel_register True st t' cookie' name) = False
    \<and> (\<exists>t''. named_channel_deregister t' name = Some (t'', cookie) \<and> ht_map t'' = ht_map t \<and> named_channel_find t'' name = 0)"
proof -
  let ?k = "str_hash_sdbm name 255"
  have ex: "ipc_channel_exists cookie st" using assms(2) by (auto simp: named_channel_register_def split: if_splits)
  then have ins: "hash_table_insert ok t ?k cookie = (t', True)" using assms(2) by (simp add: named_channel_register_def)
  note i = ht.ins_abs [OF assms(1,3) ins]
  obtain t'' where t'': "hash_table_remove t' ?k = Some (t'', hash_table_lookup t' ?k)" "ht_wf t''" "ht_map t'' = (ht_map t')(?k := None)"
    using ht.del_abs [of t' ?k] i by blast
  have "ht_map t'' = ht_map t" using t''(3) i by (auto simp: fun_upd_idem)
  moreover have "hash_table_lookup t' ?k = cookie" using ht.lookup_after_ins [OF assms(1,3) ins, of ?k] by simp
  moreover have "snd (hash_table_insert True t' ?k cookie') = False"
    using ht.ins_abs [of t' ?k True cookie' "fst (hash_table_insert True t' ?k cookie')" "snd (hash_table_insert True t' ?k cookie')"] i assms(3)
    by simp
  moreover have "hash_table_lookup t'' ?k = NULL" using ht.lookup_abs [OF t''(2), of ?k] unfolding t''(3) by simp
  ultimately show ?thesis
    using ex t''(1) ht.lookup_after_ins [OF assms(1,3) ins]
    by (auto simp: named_channel_find_def named_channel_deregister_def named_channel_register_def)
qed

theorem named_channel_roundtrip_witness:
  "\<exists>t'. named_channel_register True (demo_ipc NULL NULL demo_table) demo_table 5 (Some [65, 66]) = (t', True)
     \<and> named_channel_find t' (Some [65, 66]) = 5"
proof -
  let ?st = "demo_ipc NULL NULL demo_table"
  have h: "str_hash_sdbm (Some [65, 66]) 255 = 4264001" by (simp add: str_hash_sdbm_def)
  have "ipc_channel_exists 5 ?st" using demo_insert(4) [of 5] by (simp add: ipc_channel_exists_def demo_ipc_def)
  then have r: "named_channel_register True ?st demo_table 5 (Some [65, 66]) = (fst (hash_table_insert True demo_table 4264001 5), True)"
    using demo_insert(1) [of 4264001 5] h by (simp add: named_channel_register_def)
  then show ?thesis using named_channel_roundtrip [OF demo_table_ok(1) r] h by auto
qed

end
