(* ===== verification/Ref_Count_Map.thy ===== *)
theory Ref_Count_Map
  imports Anos_Prelude "HOL-Library.Multiset"
begin

text \<open>
  Reference counts of physical pages, \<^verbatim>\<open>kernel/structs/ref_count_map.c\<close>: a hash map with chained buckets
  whose bucket array is spread over a list of page-sized blocks of 512 bucket heads, newest block
  first. A bucket's entries are on no other list, so a bucket is a list; the blocks are listed in the order of
  \<^verbatim>\<open>block_list\<close>. Every operation holds the map's lock and is one step. Whether an allocation succeeds is an
  argument: \<open>oks i\<close> for the \<open>i\<close>-th call of \<^verbatim>\<open>add_block\<close>. Counts are 64 bits wide and results their low
  32 bits; sizes are naturals (1024 at first, doubled whenever they are three quarters full).
\<close>

section \<open>Data\<close>

record Entry =
  physical_addr :: u64
  ref_count :: u64
  is_occupied :: bool

record RefCountMap =
  rc_size :: nat
  rc_num_entries :: nat
  rc_blocks :: "Entry list list list"

definition INITIAL_SIZE :: nat where
  "INITIAL_SIZE = 1024"

definition PTRS_PER_BLOCK :: nat where
  "PTRS_PER_BLOCK = 4096 div 8"

section \<open>Operations\<close>

definition hash_address :: "u64 \<Rightarrow> nat \<Rightarrow> nat" where
  "hash_address addr sz = unat (drop_bit 32 (addr * 0x9E3779B97F4A7C15)) mod sz"

text \<open>A new block goes to the front of the block list; its bucket heads are cleared by the caller.\<close>

definition add_block :: "bool \<Rightarrow> nat \<Rightarrow> Entry list list list \<Rightarrow> Entry list list list option" where
  "add_block ok ptrs block_list = (if ok then Some (replicate ptrs [] # block_list) else None)"

function allocate_more :: "(nat \<Rightarrow> bool) \<Rightarrow> nat \<Rightarrow> nat \<Rightarrow> Entry list list list \<Rightarrow> Entry list list list option" where
  "allocate_more oks i ptrs_remaining block_list =
     (if ptrs_remaining > 0 then
        let current_block_ptrs = (if ptrs_remaining < PTRS_PER_BLOCK then ptrs_remaining else PTRS_PER_BLOCK)
        in case add_block (oks i) current_block_ptrs block_list of
             None \<Rightarrow> None
           | Some block_list \<Rightarrow> allocate_more oks (i + 1) (ptrs_remaining - current_block_ptrs) block_list
      else Some block_list)"
  by pat_completeness auto
termination
  by (relation "measure (\<lambda>(_, _, n, _). n)") (auto simp: PTRS_PER_BLOCK_def)

declare allocate_more.simps [simp del]

definition allocate_bucket_array :: "(nat \<Rightarrow> bool) \<Rightarrow> nat \<Rightarrow> Entry list list list option" where
  "allocate_bucket_array oks sz =
     (case add_block (oks 0) PTRS_PER_BLOCK [] of
        None \<Rightarrow> None
      | Some block_list \<Rightarrow> allocate_more oks 1 (sz - PTRS_PER_BLOCK) block_list)"

text \<open>The bucket with an index: \<^verbatim>\<open>get_bucket_ptr\<close> read and written through.\<close>

definition get_bucket :: "Entry list list list \<Rightarrow> nat \<Rightarrow> Entry list" where
  "get_bucket blocks idx = blocks ! (idx div PTRS_PER_BLOCK) ! (idx mod PTRS_PER_BLOCK)"

definition set_bucket :: "Entry list list list \<Rightarrow> nat \<Rightarrow> Entry list \<Rightarrow> Entry list list list" where
  "set_bucket blocks idx b =
     blocks[idx div PTRS_PER_BLOCK := (blocks ! (idx div PTRS_PER_BLOCK))[idx mod PTRS_PER_BLOCK := b]]"

definition refcount_map_init :: "bool \<Rightarrow> (nat \<Rightarrow> bool) \<Rightarrow> RefCountMap option \<Rightarrow> RefCountMap option \<times> bool" where
  "refcount_map_init map_ok oks global_refcount_map =
     (case global_refcount_map of
        Some m \<Rightarrow> (Some m, True)
      | None \<Rightarrow>
          if \<not> map_ok then (None, False)
          else case allocate_bucket_array oks INITIAL_SIZE of
                 None \<Rightarrow> (None, False)
               | Some blocks \<Rightarrow> (Some \<lparr>rc_size = INITIAL_SIZE, rc_num_entries = 0, rc_blocks = blocks\<rparr>, True))"

text \<open>Moving one entry into the new array, and all buckets of the old one in turn.\<close>

definition rehash_entry :: "nat \<Rightarrow> Entry \<Rightarrow> Entry list list list \<Rightarrow> Entry list list list" where
  "rehash_entry new_size e blocks =
     (let new_idx = hash_address (physical_addr e) new_size in set_bucket blocks new_idx (e # get_bucket blocks new_idx))"

definition resize_map :: "bool \<Rightarrow> (nat \<Rightarrow> bool) \<Rightarrow> RefCountMap \<Rightarrow> RefCountMap option" where
  "resize_map map_ok oks m =
     (let new_size = rc_size m * 2
      in if \<not> map_ok then None
         else case allocate_bucket_array oks new_size of
                None \<Rightarrow> None
              | Some new_blocks \<Rightarrow>
                  Some (m\<lparr>rc_size := new_size,
                     rc_blocks := fold (\<lambda>i. fold (rehash_entry new_size) (get_bucket (rc_blocks m) i)) [0..<rc_size m] new_blocks\<rparr>))"

text \<open>The search of a bucket, adding to the count of the first match; \<open>None\<close> when there is none.\<close>

fun bump_entry :: "u64 \<Rightarrow> Entry list \<Rightarrow> (Entry list \<times> u32) option" where
  "bump_entry addr [] = None"
| "bump_entry addr (e # es) =
     (if physical_addr e = addr \<and> is_occupied e then Some (e\<lparr>ref_count := ref_count e + 1\<rparr> # es, ucast (ref_count e + 1))
      else map_option (\<lambda>(es, n). (e # es, n)) (bump_entry addr es))"

definition refcount_map_increment :: "bool \<Rightarrow> (nat \<Rightarrow> bool) \<Rightarrow> bool \<Rightarrow> u64 \<Rightarrow> RefCountMap option \<Rightarrow> RefCountMap option \<times> u32" where
  "refcount_map_increment map_ok oks entry_ok addr global_refcount_map =
     (case global_refcount_map of
        None \<Rightarrow> (None, 0)
      | Some m \<Rightarrow>
          let idx = hash_address addr (rc_size m) in
          case bump_entry addr (get_bucket (rc_blocks m) idx) of
            Some (b, result) \<Rightarrow> (Some (m\<lparr>rc_blocks := set_bucket (rc_blocks m) idx b\<rparr>), result)
          | None \<Rightarrow>
              (case (if 4 * rc_num_entries m \<ge> 3 * rc_size m then resize_map map_ok oks m else Some m) of
                 None \<Rightarrow> (Some m, 0)
               | Some m \<Rightarrow>
                   let idx = hash_address addr (rc_size m) in
                   if \<not> entry_ok then (Some m, 0)
                   else (Some (m\<lparr>rc_blocks := set_bucket (rc_blocks m) idx
                            (\<lparr>physical_addr = addr, ref_count = 1, is_occupied = True\<rparr> # get_bucket (rc_blocks m) idx),
                          rc_num_entries := rc_num_entries m + 1\<rparr>), 1)))"

text \<open>The search of a bucket for a decrement: the entry goes when its count reaches 0. Gives the bucket,
  the result, and whether an entry was freed.\<close>

fun drop_entry :: "u64 \<Rightarrow> Entry list \<Rightarrow> (Entry list \<times> u32 \<times> bool) option" where
  "drop_entry addr [] = None"
| "drop_entry addr (e # es) =
     (if physical_addr e = addr \<and> is_occupied e then
        (if ref_count e - 1 = 0 then Some (es, 1, True)
         else Some (e\<lparr>ref_count := ref_count e - 1\<rparr> # es, ucast (ref_count e - 1 + 1), False))
      else map_option (\<lambda>(es, n, freed). (e # es, n, freed)) (drop_entry addr es))"

definition refcount_map_decrement :: "u64 \<Rightarrow> RefCountMap option \<Rightarrow> RefCountMap option \<times> u32" where
  "refcount_map_decrement addr global_refcount_map =
     (case global_refcount_map of
        None \<Rightarrow> (None, 0)
      | Some m \<Rightarrow>
          let idx = hash_address addr (rc_size m) in
          case drop_entry addr (get_bucket (rc_blocks m) idx) of
            None \<Rightarrow> (Some m, 0)
          | Some (b, result, freed) \<Rightarrow>
              (Some (m\<lparr>rc_blocks := set_bucket (rc_blocks m) idx b,
                       rc_num_entries := (if freed then rc_num_entries m - 1 else rc_num_entries m)\<rparr>), result))"

section \<open>Invariant and abstraction\<close>

definition all_entries :: "Entry list list list \<Rightarrow> Entry list" where
  "all_entries blocks = concat (concat blocks)"

definition blocks_ok :: "nat \<Rightarrow> Entry list list list \<Rightarrow> bool" where
  "blocks_ok sz blocks \<longleftrightarrow> 0 < sz \<and> sz = PTRS_PER_BLOCK * length blocks \<and> (\<forall>b \<in> set blocks. length b = PTRS_PER_BLOCK)
     \<and> (\<forall>i < sz. \<forall>e \<in> set (get_bucket blocks i). hash_address (physical_addr e) sz = i \<and> is_occupied e \<and> ref_count e \<noteq> 0)"

definition rc_ok :: "RefCountMap \<Rightarrow> bool" where
  "rc_ok m \<longleftrightarrow> blocks_ok (rc_size m) (rc_blocks m) \<and> distinct (map physical_addr (all_entries (rc_blocks m)))
     \<and> rc_num_entries m = length (all_entries (rc_blocks m))"

text \<open>The counts the map stands for.\<close>

definition rc_count :: "RefCountMap \<Rightarrow> u64 \<Rightarrow> u64 option" where
  "rc_count m a = map_option ref_count (find (\<lambda>e. physical_addr e = a) (all_entries (rc_blocks m)))"

section \<open>Library\<close>

lemma mset_concat_update:
  assumes "i < length xs"
  shows "mset (concat (xs[i := ys])) + mset (xs ! i) = mset (concat xs) + mset ys"
  using assms
proof (induction xs arbitrary: i)
  case (Cons x xs)
  then show ?case by (cases i) (auto simp: ac_simps)
qed simp

lemma mset_swap:
  fixes A :: "'a multiset"
  assumes "A + C = D + B" "B + M = C + b"
  shows "A + M = D + b"
proof -
  have "A + M + (C + B) = (A + C) + (B + M)" by (simp add: ac_simps)
  also have "\<dots> = D + b + (C + B)" unfolding assms by (simp add: ac_simps)
  finally show ?thesis by simp
qed

lemma PTRS_pos [simp]: "0 < PTRS_PER_BLOCK"
  by (simp add: PTRS_PER_BLOCK_def)

text \<open>The shape of a bucket array.\<close>

definition shape :: "nat \<Rightarrow> Entry list list list \<Rightarrow> bool" where
  "shape sz blocks \<longleftrightarrow> 0 < sz \<and> sz = PTRS_PER_BLOCK * length blocks \<and> (\<forall>b \<in> set blocks. length b = PTRS_PER_BLOCK)"

lemma shape_index:
  assumes "shape sz blocks" "i < sz"
  shows "i div PTRS_PER_BLOCK < length blocks" "i mod PTRS_PER_BLOCK < PTRS_PER_BLOCK"
    "length (blocks ! (i div PTRS_PER_BLOCK)) = PTRS_PER_BLOCK"
proof -
  show d: "i div PTRS_PER_BLOCK < length blocks" using assms by (simp add: shape_def less_mult_imp_div_less mult.commute)
  show "i mod PTRS_PER_BLOCK < PTRS_PER_BLOCK" by simp
  show "length (blocks ! (i div PTRS_PER_BLOCK)) = PTRS_PER_BLOCK" using assms(1) d by (simp add: shape_def)
qed

lemma shape_set_bucket:
  assumes "shape sz blocks" "i < sz"
  shows "shape sz (set_bucket blocks i b)"
proof -
  have "length x = PTRS_PER_BLOCK" if "x \<in> set (set_bucket blocks i b)" for x
    using that assms(1) shape_index(3) [OF assms] set_update_subset_insert [of blocks]
    unfolding set_bucket_def shape_def by (metis insertE length_list_update subsetD)
  moreover have "length (set_bucket blocks i b) = length blocks" by (simp add: set_bucket_def)
  ultimately show ?thesis using assms(1) unfolding shape_def by auto
qed

lemma get_set_bucket:
  assumes "shape sz blocks" "i < sz" "j < sz"
  shows "get_bucket (set_bucket blocks i b) j = (if j = i then b else get_bucket blocks j)"
proof -
  note I = shape_index [OF assms(1,2)]
  have "i = j \<longleftrightarrow> i div PTRS_PER_BLOCK = j div PTRS_PER_BLOCK \<and> i mod PTRS_PER_BLOCK = j mod PTRS_PER_BLOCK"
    by (metis div_mult_mod_eq)
  then show ?thesis using I shape_index [OF assms(1,3)] by (auto simp: get_bucket_def set_bucket_def nth_list_update)
qed

lemma mset_set_bucket:
  assumes "shape sz blocks" "i < sz"
  shows "mset (all_entries (set_bucket blocks i b)) + mset (get_bucket blocks i) = mset (all_entries blocks) + mset b"
proof -
  let ?d = "i div PTRS_PER_BLOCK" and ?m = "i mod PTRS_PER_BLOCK"
  note I = shape_index [OF assms]
  have c: "concat (concat bs) = concat (map concat bs)" for bs :: "Entry list list list" by (induction bs) auto
  have e1: "mset (concat ((map concat blocks)[?d := concat ((blocks ! ?d)[?m := b])])) + mset (map concat blocks ! ?d)
      = mset (concat (map concat blocks)) + mset (concat ((blocks ! ?d)[?m := b]))"
    using I(1) by (intro mset_concat_update) simp
  have e2: "mset (concat ((blocks ! ?d)[?m := b])) + mset (blocks ! ?d ! ?m) = mset (concat (blocks ! ?d)) + mset b"
    using I by (intro mset_concat_update) simp
  have "mset (concat ((map concat blocks)[?d := concat ((blocks ! ?d)[?m := b])])) + mset (blocks ! ?d ! ?m)
      = mset (concat (map concat blocks)) + mset b"
    by (rule mset_swap [OF e1 [unfolded nth_map [OF I(1)]] e2])
  then show ?thesis
    unfolding all_entries_def set_bucket_def get_bucket_def c map_update .
qed

text \<open>Every entry is in the bucket with its index.\<close>

lemma mem_all_entries:
  assumes "shape sz blocks"
  shows "e \<in> set (all_entries blocks) \<longleftrightarrow> (\<exists>i < sz. e \<in> set (get_bucket blocks i))"
proof
  assume "e \<in> set (all_entries blocks)"
  then obtain d m where dm: "d < length blocks" "m < length (blocks ! d)" "e \<in> set (blocks ! d ! m)"
    by (auto simp: all_entries_def in_set_conv_nth) blast
  let ?i = "PTRS_PER_BLOCK * d + m"
  have m: "m < PTRS_PER_BLOCK" using dm assms by (simp add: shape_def)
  have "d + 1 \<le> length blocks" using dm(1) by simp
  then have "PTRS_PER_BLOCK * (d + 1) \<le> PTRS_PER_BLOCK * length blocks" by (rule mult_le_mono2)
  then have "?i < sz" using m assms by (simp add: shape_def)
  moreover have "?i div PTRS_PER_BLOCK = d" "?i mod PTRS_PER_BLOCK = m" using m by simp_all
  then have "e \<in> set (get_bucket blocks ?i)" using dm(3) by (simp add: get_bucket_def)
  ultimately show "\<exists>i < sz. e \<in> set (get_bucket blocks i)" by blast
next
  assume "\<exists>i < sz. e \<in> set (get_bucket blocks i)"
  then obtain i where i: "i < sz" "e \<in> set (get_bucket blocks i)" by blast
  note I = shape_index [OF assms i(1)]
  have "get_bucket blocks i \<in> set (blocks ! (i div PTRS_PER_BLOCK))" using I by (simp add: get_bucket_def)
  then show "e \<in> set (all_entries blocks)" using I(1) i(2) by (auto simp: all_entries_def intro!: bexI [of _ "blocks ! (i div PTRS_PER_BLOCK)"])
qed

text \<open>Allocation gives an empty array of the asked size.\<close>

lemma allocate_more_ok:
  assumes "allocate_more oks i (PTRS_PER_BLOCK * n) bl = Some bl'"
  shows "bl' = replicate n (replicate PTRS_PER_BLOCK []) @ bl"
  using assms
proof (induction n arbitrary: i bl)
  case 0
  then show ?case by (simp add: allocate_more.simps)
next
  case (Suc n)
  have "allocate_more oks (i + 1) (PTRS_PER_BLOCK * n) (replicate PTRS_PER_BLOCK [] # bl) = Some bl'"
    using Suc.prems by (subst (asm) allocate_more.simps) (auto simp: add_block_def Let_def PTRS_PER_BLOCK_def split: if_splits)
  from Suc.IH [OF this] show ?case by (simp add: replicate_append_same flip: append_Cons replicate_Suc)
qed

lemma allocate_ok:
  assumes "allocate_bucket_array oks (PTRS_PER_BLOCK * Suc n) = Some blocks"
  shows "blocks = replicate (Suc n) (replicate PTRS_PER_BLOCK [])"
proof -
  have "allocate_more oks 1 (PTRS_PER_BLOCK * n) [replicate PTRS_PER_BLOCK []] = Some blocks"
    using assms by (auto simp: allocate_bucket_array_def add_block_def split: if_splits)
  from allocate_more_ok [OF this] show ?thesis by (simp add: replicate_append_same)
qed

lemma allocate_shape:
  assumes "allocate_bucket_array oks (PTRS_PER_BLOCK * Suc n) = Some blocks"
  shows "blocks_ok (PTRS_PER_BLOCK * Suc n) blocks" "all_entries blocks = []"
proof -
  note b = allocate_ok [OF assms]
  have "get_bucket blocks i = []" if "i < PTRS_PER_BLOCK * Suc n" for i
  proof -
    have "i div PTRS_PER_BLOCK < Suc n" using that by (simp add: less_mult_imp_div_less mult.commute)
    then show ?thesis unfolding b get_bucket_def by (simp del: replicate_Suc)
  qed
  then show "blocks_ok (PTRS_PER_BLOCK * Suc n) blocks" unfolding blocks_ok_def by (auto simp: b)
  show "all_entries blocks = []" by (simp add: b all_entries_def concat_replicate_trivial)
qed

text \<open>Walking the buckets in order visits the entries in order.\<close>

lemma buckets_in_order:
  "\<forall>b \<in> set blocks. length b = PTRS_PER_BLOCK \<Longrightarrow> map (get_bucket blocks) [0..<PTRS_PER_BLOCK * length blocks] = concat blocks"
proof (induction blocks)
  case (Cons b bs)
  let ?n = "PTRS_PER_BLOCK * length bs"
  have first: "map (get_bucket (b # bs)) [0..<PTRS_PER_BLOCK] = b"
    using Cons.prems by (intro nth_equalityI) (auto simp: get_bucket_def)
  have rest: "map (get_bucket (b # bs)) [PTRS_PER_BLOCK..<PTRS_PER_BLOCK + ?n] = map (get_bucket bs) [0..<?n]"
  proof (rule nth_equalityI)
    fix i assume "i < length (map (get_bucket (b # bs)) [PTRS_PER_BLOCK..<PTRS_PER_BLOCK + ?n])"
    then have i: "i < ?n" by simp
    have "(PTRS_PER_BLOCK + i) div PTRS_PER_BLOCK = Suc (i div PTRS_PER_BLOCK)" using div_add_self1 [of PTRS_PER_BLOCK i] PTRS_pos by simp
    then show "map (get_bucket (b # bs)) [PTRS_PER_BLOCK..<PTRS_PER_BLOCK + ?n] ! i = map (get_bucket bs) [0..<?n] ! i"
      using i by (simp add: get_bucket_def)
  qed simp
  have split: "[0..<PTRS_PER_BLOCK * length (b # bs)] = [0..<PTRS_PER_BLOCK] @ [PTRS_PER_BLOCK..<PTRS_PER_BLOCK + ?n]"
    using upt_add_eq_append [of 0 PTRS_PER_BLOCK ?n] by simp
  show ?case unfolding split map_append first rest using Cons by simp
qed simp

lemma fold_buckets:
  assumes "shape sz blocks"
  shows "fold (\<lambda>i. fold f (get_bucket blocks i)) [0..<sz] = fold f (all_entries blocks)"
proof -
  have "fold (\<lambda>i. fold f (g i)) ns = fold f (concat (map g ns))" for ns and g :: "nat \<Rightarrow> Entry list" by (induction ns) auto
  then show ?thesis using assms buckets_in_order [of blocks] by (simp add: shape_def all_entries_def)
qed

lemma blocks_ok_shape: "blocks_ok sz blocks \<Longrightarrow> shape sz blocks"
  unfolding blocks_ok_def shape_def by blast

lemma blocks_okD: "blocks_ok sz blocks \<Longrightarrow> i < sz \<Longrightarrow> e \<in> set (get_bucket blocks i)
    \<Longrightarrow> hash_address (physical_addr e) sz = i \<and> is_occupied e \<and> ref_count e \<noteq> 0"
  unfolding blocks_ok_def by blast

lemma hash_less: "0 < sz \<Longrightarrow> hash_address a sz < sz"
  by (simp add: hash_address_def)

text \<open>Replacing a bucket by one whose entries belong there.\<close>

lemma blocks_ok_set_bucket:
  assumes ok: "blocks_ok sz blocks" and i: "i < sz"
    and b: "\<forall>e \<in> set b. hash_address (physical_addr e) sz = i \<and> is_occupied e \<and> ref_count e \<noteq> 0"
  shows "blocks_ok sz (set_bucket blocks i b)"
proof -
  note sh = blocks_ok_shape [OF ok]
  have "shape sz (set_bucket blocks i b)" by (rule shape_set_bucket [OF sh i])
  moreover have "\<forall>j < sz. \<forall>e \<in> set (get_bucket (set_bucket blocks i b) j). hash_address (physical_addr e) sz = j \<and> is_occupied e \<and> ref_count e \<noteq> 0"
    using b blocks_okD [OF ok] get_set_bucket [OF sh i] by auto
  ultimately show ?thesis unfolding blocks_ok_def shape_def by blast
qed

lemma rehash_entry_ok:
  assumes ok: "blocks_ok sz blocks" and e: "is_occupied e" "ref_count e \<noteq> 0"
  shows "blocks_ok sz (rehash_entry sz e blocks) \<and> mset (all_entries (rehash_entry sz e blocks)) = add_mset e (mset (all_entries blocks))"
proof -
  let ?i = "hash_address (physical_addr e) sz"
  have i: "?i < sz" using ok by (intro hash_less) (unfold blocks_ok_def, blast)
  have "blocks_ok sz (rehash_entry sz e blocks)"
    unfolding rehash_entry_def Let_def using e blocks_okD [OF ok i] by (intro blocks_ok_set_bucket [OF ok i]) auto
  then show ?thesis using mset_set_bucket [OF blocks_ok_shape [OF ok] i, of "e # get_bucket blocks ?i"]
    by (simp add: rehash_entry_def Let_def)
qed

lemma rehash_all_ok:
  assumes "blocks_ok sz blocks" "\<forall>e \<in> set es. is_occupied e \<and> ref_count e \<noteq> 0"
  shows "blocks_ok sz (fold (rehash_entry sz) es blocks) \<and> mset (all_entries (fold (rehash_entry sz) es blocks)) = mset es + mset (all_entries blocks)"
  using assms
proof (induction es arbitrary: blocks)
  case (Cons e es)
  then show ?case using rehash_entry_ok [of sz blocks e] by simp
qed simp

text \<open>The counts of a collection of entries.\<close>

definition count_of :: "Entry list \<Rightarrow> u64 \<Rightarrow> u64 option" where
  "count_of es a = map_option ref_count (find (\<lambda>e. physical_addr e = a) es)"

lemma count_of_simps [simp]: "count_of [] = Map.empty" "count_of (e # es) = (count_of es)(physical_addr e \<mapsto> ref_count e)"
  by (auto simp: count_of_def)

lemma count_of_None: "count_of es a = None \<longleftrightarrow> a \<notin> physical_addr ` set es"
  by (induction es) auto

lemma count_of_iff:
  "distinct (map physical_addr es) \<Longrightarrow> count_of es a = Some n \<longleftrightarrow> (\<exists>e \<in> set es. physical_addr e = a \<and> ref_count e = n)"
proof (induction es)
  case (Cons e es)
  have "f \<in> set es \<Longrightarrow> physical_addr f \<noteq> physical_addr e" for f using Cons.prems by (metis distinct.simps(2) image_eqI list.simps(9) set_map)
  then show ?case using Cons by auto
qed simp

lemma count_of_mset:
  assumes "mset es = mset es'" "distinct (map physical_addr es)"
  shows "count_of es = count_of es' \<and> distinct (map physical_addr es') \<and> length es = length es'"
proof -
  have d: "distinct (map physical_addr es')" using assms by (metis mset_eq_imp_distinct_iff mset_map)
  have s: "set es = set es'" using assms(1) by (rule mset_eq_setD)
  have "count_of es a = count_of es' a" for a
  proof (cases "count_of es a")
    case None
    moreover have "count_of es' a = None" using None s by (simp add: count_of_None)
    ultimately show ?thesis by simp
  next
    case (Some n)
    then show ?thesis using s count_of_iff [OF assms(2), of a n] count_of_iff [OF d, of a n] by simp
  qed
  then show ?thesis using d assms(1) by (auto dest: mset_eq_length)
qed

lemma rc_count_eq: "rc_count m = count_of (all_entries (rc_blocks m))"
  by (rule ext) (simp add: rc_count_def count_of_def)

text \<open>Splitting the entries at one of them.\<close>

lemma split_entry:
  assumes "e \<in> set es"
  obtains rest where "mset es = mset (e # rest)"
  using assms by (metis ex_mset insert_DiffM mset.simps(2) set_mset_mset)

lemma rc_resize_ok:
  assumes ok: "rc_ok m" and r: "resize_map map_ok oks m = Some m'"
  shows "rc_ok m' \<and> rc_count m' = rc_count m \<and> rc_size m' = 2 * rc_size m"
proof -
  have b: "blocks_ok (rc_size m) (rc_blocks m)" using ok by (simp add: rc_ok_def)
  note sh = blocks_ok_shape [OF b]
  obtain n where n: "rc_size m = PTRS_PER_BLOCK * Suc n" using sh by (cases "length (rc_blocks m)") (auto simp: shape_def)
  then have n2: "rc_size m * 2 = PTRS_PER_BLOCK * Suc (2 * n + 1)" by simp
  obtain nb where nb: "allocate_bucket_array oks (rc_size m * 2) = Some nb"
    and m': "m' = m\<lparr>rc_size := rc_size m * 2, rc_blocks := fold (rehash_entry (rc_size m * 2)) (all_entries (rc_blocks m)) nb\<rparr>"
    using r unfolding resize_map_def Let_def by (auto simp: fold_buckets [OF sh] split: if_splits option.splits)
  have nb2: "blocks_ok (rc_size m * 2) nb" "all_entries nb = []" using allocate_shape [of oks "2 * n + 1" nb] nb unfolding n2 by simp_all
  have "\<forall>e \<in> set (all_entries (rc_blocks m)). is_occupied e \<and> ref_count e \<noteq> 0"
    using mem_all_entries [OF sh] blocks_okD [OF b] by blast
  from rehash_all_ok [OF nb2(1) this] nb2(2)
  have f: "blocks_ok (rc_size m') (rc_blocks m')" "mset (all_entries (rc_blocks m')) = mset (all_entries (rc_blocks m))"
    by (simp_all add: m')
  then show ?thesis using ok count_of_mset [OF f(2) [symmetric]] by (auto simp: rc_ok_def rc_count_eq m')
qed

lemma allocate_more_Some:
  assumes "\<forall>i. oks i"
  shows "\<exists>bl'. allocate_more oks i n bl = Some bl'"
proof (induction n arbitrary: i bl rule: less_induct)
  case (less n)
  show ?case
  proof (cases "n > 0")
    case True
    let ?c = "if n < PTRS_PER_BLOCK then n else PTRS_PER_BLOCK"
    have "n - ?c < n" using True by simp
    from less [OF this, of "i + 1" "replicate ?c [] # bl"] show ?thesis
      using True spec [OF assms, of i] by (subst allocate_more.simps) (simp add: add_block_def Let_def split: if_splits)
  qed (subst allocate_more.simps, simp)
qed

lemma resize_Some: "\<forall>i. oks i \<Longrightarrow> \<exists>m'. resize_map True oks m = Some m'"
  using allocate_more_Some [of oks 1 "rc_size m * 2 - PTRS_PER_BLOCK" "[replicate PTRS_PER_BLOCK []]"]
  by (auto simp: resize_map_def allocate_bucket_array_def add_block_def Let_def)

text \<open>The two searches of a bucket.\<close>

lemma bump_entry_Some:
  assumes "bump_entry a b = Some (b', r)"
  shows "\<exists>e pre post. b = pre @ e # post \<and> physical_addr e = a \<and> b' = pre @ e\<lparr>ref_count := ref_count e + 1\<rparr> # post \<and> r = ucast (ref_count e + 1)"
  using assms
proof (induction b arbitrary: b' r)
  case (Cons x b)
  show ?case
  proof (cases "physical_addr x = a \<and> is_occupied x")
    case True
    then show ?thesis using Cons.prems by (intro exI [of _ x] exI [of _ "[]"] exI [of _ b]) auto
  next
    case False
    then obtain b1 where b1: "bump_entry a b = Some (b1, r)" "b' = x # b1" using Cons.prems by auto
    then obtain e pre post where "b = pre @ e # post" "physical_addr e = a" "b1 = pre @ e\<lparr>ref_count := ref_count e + 1\<rparr> # post"
      "r = ucast (ref_count e + 1)" using Cons.IH by blast
    then show ?thesis using b1 by (intro exI [of _ e] exI [of _ "x # pre"] exI [of _ post]) simp
  qed
qed simp

lemma bump_entry_None: "bump_entry a b = None \<Longrightarrow> e \<in> set b \<Longrightarrow> is_occupied e \<Longrightarrow> physical_addr e \<noteq> a"
  by (induction b) (auto split: if_splits)

lemma drop_entry_Some:
  assumes "drop_entry a b = Some (b', r, freed)"
  shows "\<exists>e pre post. b = pre @ e # post \<and> physical_addr e = a \<and> freed = (ref_count e = 1)
    \<and> b' = (if freed then pre @ post else pre @ e\<lparr>ref_count := ref_count e - 1\<rparr> # post) \<and> r = (if freed then 1 else ucast (ref_count e))"
  using assms
proof (induction b arbitrary: b' r)
  case (Cons x b)
  show ?case
  proof (cases "physical_addr x = a \<and> is_occupied x")
    case True
    then show ?thesis using Cons.prems by (intro exI [of _ x] exI [of _ "[]"] exI [of _ b]) (auto split: if_splits)
  next
    case False
    then obtain b1 where b1: "drop_entry a b = Some (b1, r, freed)" "b' = x # b1" using Cons.prems by auto
    from Cons.IH [OF b1(1)] obtain e pre post where e: "b = pre @ e # post" "physical_addr e = a" "freed = (ref_count e = 1)"
      "b1 = (if freed then pre @ post else pre @ e\<lparr>ref_count := ref_count e - 1\<rparr> # post)" "r = (if freed then 1 else ucast (ref_count e))"
      by blast
    show ?thesis using b1(2) e by (intro exI [of _ e] exI [of _ "x # pre"] exI [of _ post]) simp
  qed
qed simp

lemma drop_entry_None: "drop_entry a b = None \<Longrightarrow> e \<in> set b \<Longrightarrow> is_occupied e \<Longrightarrow> physical_addr e \<noteq> a"
  by (induction b) (auto split: if_splits)

text \<open>An address is counted exactly when its bucket has an entry for it.\<close>

lemma rc_count_bucket:
  assumes ok: "rc_ok m" and i: "i = hash_address a (rc_size m)"
  shows "i < rc_size m" "blocks_ok (rc_size m) (rc_blocks m)"
    "\<And>e. e \<in> set (get_bucket (rc_blocks m) i) \<Longrightarrow> rc_count m (physical_addr e) = Some (ref_count e)"
    "(\<And>e. e \<in> set (get_bucket (rc_blocks m) i) \<Longrightarrow> physical_addr e \<noteq> a) \<Longrightarrow> rc_count m a = None"
proof -
  show b: "blocks_ok (rc_size m) (rc_blocks m)" using ok by (simp add: rc_ok_def)
  show il: "i < rc_size m" unfolding i using b by (intro hash_less) (unfold blocks_ok_def, blast)
  note mem = mem_all_entries [OF blocks_ok_shape [OF b]]
  have d: "distinct (map physical_addr (all_entries (rc_blocks m)))" using ok by (simp add: rc_ok_def)
  show "rc_count m (physical_addr e) = Some (ref_count e)" if "e \<in> set (get_bucket (rc_blocks m) i)" for e
    using that il mem count_of_iff [OF d] by (auto simp: rc_count_eq)
  show "rc_count m a = None" if "\<And>e. e \<in> set (get_bucket (rc_blocks m) i) \<Longrightarrow> physical_addr e \<noteq> a"
  proof -
    have "physical_addr e \<noteq> a" if e: "e \<in> set (all_entries (rc_blocks m))" for e
    proof
      assume pa: "physical_addr e = a"
      obtain j where "j < rc_size m" "e \<in> set (get_bucket (rc_blocks m) j)" using e mem by blast
      then have "j = i" "e \<in> set (get_bucket (rc_blocks m) i)" using blocks_okD [OF b] pa i by auto
      then show False using \<open>\<And>e. e \<in> set (get_bucket (rc_blocks m) i) \<Longrightarrow> physical_addr e \<noteq> a\<close> pa by blast
    qed
    then show ?thesis by (auto simp: rc_count_eq count_of_None)
  qed
qed

text \<open>Replacing, adding and removing one entry, over the whole map.\<close>

lemma change_entry:
  assumes ok: "rc_ok m" and i: "i < rc_size m" and b: "get_bucket (rc_blocks m) i = pre @ e # post"
    and e': "physical_addr e' = physical_addr e" "is_occupied e'" "ref_count e' \<noteq> 0"
  defines "m' \<equiv> m\<lparr>rc_blocks := set_bucket (rc_blocks m) i (pre @ e' # post)\<rparr>"
  shows "rc_ok m' \<and> rc_count m' = (rc_count m)(physical_addr e \<mapsto> ref_count e')"
proof -
  have bo: "blocks_ok (rc_size m) (rc_blocks m)" using ok by (simp add: rc_ok_def)
  have bo': "blocks_ok (rc_size m') (rc_blocks m')" unfolding m'_def
    using blocks_okD [OF bo i] b e' by (simp, intro blocks_ok_set_bucket [OF bo i]) auto
  have "mset (all_entries (rc_blocks m')) + mset (get_bucket (rc_blocks m) i) = mset (all_entries (rc_blocks m)) + mset (pre @ e' # post)"
    unfolding m'_def using mset_set_bucket [OF blocks_ok_shape [OF bo] i] by simp
  then have ms: "add_mset e (mset (all_entries (rc_blocks m'))) = add_mset e' (mset (all_entries (rc_blocks m)))"
    unfolding b by simp
  have "e \<in> set (all_entries (rc_blocks m))" using mem_all_entries [OF blocks_ok_shape [OF bo]] i b by auto
  then obtain rest where r: "mset (all_entries (rc_blocks m)) = mset (e # rest)" by (rule split_entry)
  then have r': "mset (all_entries (rc_blocks m')) = mset (e' # rest)" using ms by (simp add: add_mset_commute)
  have d: "distinct (map physical_addr (all_entries (rc_blocks m)))" "rc_num_entries m = length (all_entries (rc_blocks m))"
    using ok by (auto simp: rc_ok_def)
  note c = count_of_mset [OF r d(1)]
  have "distinct (map physical_addr (e' # rest))" using c e'(1) by simp
  note c' = count_of_mset [OF r' [symmetric] this]
  show ?thesis unfolding rc_ok_def rc_count_eq using bo' c c' d e'(1) by (auto simp: m'_def)
qed

lemma add_entry:
  assumes ok: "rc_ok m" and i: "i = hash_address a (rc_size m)" and new: "rc_count m a = None"
  defines "m' \<equiv> m\<lparr>rc_blocks := set_bucket (rc_blocks m) i (\<lparr>physical_addr = a, ref_count = 1, is_occupied = True\<rparr> # get_bucket (rc_blocks m) i),
      rc_num_entries := rc_num_entries m + 1\<rparr>"
  shows "rc_ok m' \<and> rc_count m' = (rc_count m)(a \<mapsto> 1)"
proof -
  let ?e = "\<lparr>physical_addr = a, ref_count = 1, is_occupied = True\<rparr>"
  note b = rc_count_bucket(1,2) [OF ok i]
  have m': "rc_blocks m' = rehash_entry (rc_size m) ?e (rc_blocks m)" "rc_size m' = rc_size m"
    by (simp_all add: m'_def rehash_entry_def Let_def i)
  from rehash_entry_ok [OF b(2), of ?e]
  have r: "blocks_ok (rc_size m') (rc_blocks m')" "mset (all_entries (rc_blocks m')) = mset (?e # all_entries (rc_blocks m))"
    unfolding m' by simp_all
  have "distinct (map physical_addr (?e # all_entries (rc_blocks m)))"
    using ok new by (auto simp: rc_ok_def rc_count_eq count_of_None)
  note c = count_of_mset [OF r(2) [symmetric] this]
  show ?thesis using r(1) c ok unfolding rc_ok_def rc_count_eq by (auto simp: m'_def)
qed

lemma delete_entry:
  assumes ok: "rc_ok m" and i: "i < rc_size m" and b: "get_bucket (rc_blocks m) i = pre @ e # post"
  defines "m' \<equiv> m\<lparr>rc_blocks := set_bucket (rc_blocks m) i (pre @ post), rc_num_entries := rc_num_entries m - 1\<rparr>"
  shows "rc_ok m' \<and> rc_count m' = (rc_count m)(physical_addr e := None)"
proof -
  have bo: "blocks_ok (rc_size m) (rc_blocks m)" using ok by (simp add: rc_ok_def)
  have bo': "blocks_ok (rc_size m') (rc_blocks m')" unfolding m'_def
    using blocks_okD [OF bo i] b by (simp, intro blocks_ok_set_bucket [OF bo i]) auto
  have "mset (all_entries (rc_blocks m')) + mset (get_bucket (rc_blocks m) i) = mset (all_entries (rc_blocks m)) + mset (pre @ post)"
    unfolding m'_def using mset_set_bucket [OF blocks_ok_shape [OF bo] i] by simp
  then have ms: "mset (all_entries (rc_blocks m)) = mset (e # all_entries (rc_blocks m'))" unfolding b by simp
  have d: "distinct (map physical_addr (all_entries (rc_blocks m)))" "rc_num_entries m = length (all_entries (rc_blocks m))"
    using ok by (auto simp: rc_ok_def)
  note c = count_of_mset [OF ms d(1)]
  have "count_of (all_entries (rc_blocks m')) (physical_addr e) = None" using c by (simp add: count_of_None)
  then have "count_of (all_entries (rc_blocks m')) = (count_of (all_entries (rc_blocks m)))(physical_addr e := None)"
    using c by (auto simp: fun_upd_idem)
  moreover have "distinct (map physical_addr (all_entries (rc_blocks m')))" "rc_num_entries m' = length (all_entries (rc_blocks m'))"
    using c d by (simp_all add: m'_def)
  ultimately show ?thesis unfolding rc_ok_def rc_count_eq using bo' by simp
qed

text \<open>The freshly initialised map counts nothing.\<close>

lemma init_ok:
  assumes "\<forall>i. oks i"
  shows "\<exists>m. refcount_map_init True oks None = (Some m, True) \<and> rc_ok m \<and> rc_count m = Map.empty"
proof -
  obtain blocks where b: "allocate_bucket_array oks INITIAL_SIZE = Some blocks"
    using allocate_more_Some [OF assms, of 1 "INITIAL_SIZE - PTRS_PER_BLOCK" "[replicate PTRS_PER_BLOCK []]"] spec [OF assms, of 0]
    by (auto simp: allocate_bucket_array_def add_block_def)
  have "INITIAL_SIZE = PTRS_PER_BLOCK * Suc 1" by (simp add: INITIAL_SIZE_def PTRS_PER_BLOCK_def)
  then have "blocks_ok INITIAL_SIZE blocks" "all_entries blocks = []" using allocate_shape [of oks 1 blocks] b by simp_all
  then show ?thesis using b by (simp add: refcount_map_init_def rc_ok_def rc_count_eq)
qed

text \<open>The two operations on the counts.\<close>

lemma increment_ok:
  assumes ok: "rc_ok m" and inc: "refcount_map_increment map_ok oks entry_ok a (Some m) = (g, r)" and nowrap: "rc_count m a \<noteq> Some (- 1)"
  shows "\<exists>m'. g = Some m' \<and> rc_ok m' \<and>
    (case rc_count m a of
       Some n \<Rightarrow> r = ucast (n + 1) \<and> rc_count m' = (rc_count m)(a \<mapsto> n + 1)
     | None \<Rightarrow> (r = 1 \<and> rc_count m' = (rc_count m)(a \<mapsto> 1)) \<or> (r = 0 \<and> rc_count m' = rc_count m))
    \<and> (map_ok \<and> entry_ok \<and> (\<forall>i. oks i) \<longrightarrow> rc_count m' a \<noteq> None)"
proof -
  let ?i = "hash_address a (rc_size m)"
  note B = rc_count_bucket [where a = a, OF ok refl]
  show ?thesis
  proof (cases "bump_entry a (get_bucket (rc_blocks m) ?i)")
    case (Some br)
    then obtain b r' where br: "bump_entry a (get_bucket (rc_blocks m) ?i) = Some (b, r')" by (cases br) auto
    then obtain e pre post where e: "get_bucket (rc_blocks m) ?i = pre @ e # post" "physical_addr e = a"
      "b = pre @ e\<lparr>ref_count := ref_count e + 1\<rparr> # post" "r' = ucast (ref_count e + 1)" using bump_entry_Some by blast
    have c: "rc_count m a = Some (ref_count e)" using B(3) [of e] e by simp
    have "ref_count e + 1 \<noteq> 0" using nowrap c by (metis add_eq_0_iff2)
    moreover have "is_occupied e" using blocks_okD [OF B(2,1), of e] e(1) by simp
    ultimately have ch: "rc_ok (m\<lparr>rc_blocks := set_bucket (rc_blocks m) ?i b\<rparr>)
      \<and> rc_count (m\<lparr>rc_blocks := set_bucket (rc_blocks m) ?i b\<rparr>) = (rc_count m)(a \<mapsto> ref_count e + 1)"
      using change_entry [OF ok B(1) e(1), of "e\<lparr>ref_count := ref_count e + 1\<rparr>"] e by simp
    have "g = Some (m\<lparr>rc_blocks := set_bucket (rc_blocks m) ?i b\<rparr>)" "r = r'"
      using inc br by (auto simp: refcount_map_increment_def Let_def)
    then show ?thesis using ch c e(4) by auto
  next
    case None
    then have new: "rc_count m a = None" using B(4) bump_entry_None [OF None] blocks_okD [OF B(2,1)] by blast
    let ?grow = "if 4 * rc_num_entries m \<ge> 3 * rc_size m then resize_map map_ok oks m else Some m"
    show ?thesis
    proof (cases ?grow)
      case None
      then have "g = Some m" "r = 0" using inc \<open>bump_entry _ _ = None\<close> by (auto simp: refcount_map_increment_def Let_def)
      moreover have "\<not> (map_ok \<and> (\<forall>i. oks i))"
      proof
        assume a: "map_ok \<and> (\<forall>i. oks i)"
        then show False using resize_Some [of oks m] None by (auto split: if_splits)
      qed
      ultimately show ?thesis using ok new by auto
    next
      case (Some m1)
      then have m1: "rc_ok m1" "rc_count m1 = rc_count m" using ok rc_resize_ok [OF ok] by (auto split: if_splits)
      let ?m2 = "m1\<lparr>rc_blocks := set_bucket (rc_blocks m1) (hash_address a (rc_size m1))
          (\<lparr>physical_addr = a, ref_count = 1, is_occupied = True\<rparr> # get_bucket (rc_blocks m1) (hash_address a (rc_size m1))),
          rc_num_entries := rc_num_entries m1 + 1\<rparr>"
      have "(g, r) = (if \<not> entry_ok then (Some m1, 0) else (Some ?m2, 1))"
        using inc \<open>bump_entry _ _ = None\<close> Some by (auto simp: refcount_map_increment_def Let_def)
      moreover have "rc_ok ?m2 \<and> rc_count ?m2 = (rc_count m)(a \<mapsto> 1)" using add_entry [OF m1(1) refl, of a] m1(2) new by simp
      ultimately show ?thesis using m1 new by (cases entry_ok) auto
    qed
  qed
qed

lemma decrement_ok:
  assumes ok: "rc_ok m"
  shows "\<exists>m'. refcount_map_decrement a (Some m) = (Some m', case rc_count m a of None \<Rightarrow> 0 | Some n \<Rightarrow> ucast n) \<and> rc_ok m'
    \<and> rc_count m' = (rc_count m)(a := (case rc_count m a of None \<Rightarrow> None | Some n \<Rightarrow> if n = 1 then None else Some (n - 1)))"
proof -
  let ?i = "hash_address a (rc_size m)"
  note B = rc_count_bucket [where a = a, OF ok refl]
  show ?thesis
  proof (cases "drop_entry a (get_bucket (rc_blocks m) ?i)")
    case None
    then have "rc_count m a = None" using B(4) drop_entry_None [OF None] blocks_okD [OF B(2,1)] by blast
    then show ?thesis using ok None by (auto simp: refcount_map_decrement_def Let_def)
  next
    case (Some brf)
    then obtain b r freed where br: "drop_entry a (get_bucket (rc_blocks m) ?i) = Some (b, r, freed)" by (cases brf) auto
    then obtain e pre post where e: "get_bucket (rc_blocks m) ?i = pre @ e # post" "physical_addr e = a" "freed = (ref_count e = 1)"
      "b = (if freed then pre @ post else pre @ e\<lparr>ref_count := ref_count e - 1\<rparr> # post)" "r = (if freed then 1 else ucast (ref_count e))"
      using drop_entry_Some [OF br] by blast
    have c: "rc_count m a = Some (ref_count e)" using B(3) [of e] e by simp
    have oc: "is_occupied e" "ref_count e \<noteq> 0" using blocks_okD [OF B(2,1), of e] e(1) by simp_all
    let ?m = "m\<lparr>rc_blocks := set_bucket (rc_blocks m) ?i b, rc_num_entries := (if freed then rc_num_entries m - 1 else rc_num_entries m)\<rparr>"
    have ev: "refcount_map_decrement a (Some m) = (Some ?m, r)" using br by (simp add: refcount_map_decrement_def Let_def)
    have "rc_ok ?m \<and> rc_count ?m = (rc_count m)(a := if ref_count e = 1 then None else Some (ref_count e - 1))"
    proof (cases freed)
      case True
      then show ?thesis using delete_entry [OF ok B(1) e(1)] e by simp
    next
      case False
      have "ref_count e - 1 \<noteq> 0" using False e(3) by simp
      then show ?thesis using change_entry [OF ok B(1) e(1), of "e\<lparr>ref_count := ref_count e - 1\<rparr>"] False e oc by simp
    qed
    then show ?thesis using ev c e by (intro exI [of _ ?m]) simp
  qed
qed

section \<open>Reference counting as an interface\<close>

text \<open>What an owner of pages relies on: counts that agree with the multiset of the references there are. A page with a
  single owner need not be counted; a counted page has as many references as its count. The environment \<open>e\<close> of an increment
  stands for the outcomes of its allocations.\<close>

fun count_agrees :: "u64 option \<Rightarrow> nat \<Rightarrow> bool" where
  "count_agrees None k \<longleftrightarrow> k \<le> 1"
| "count_agrees (Some n) k \<longleftrightarrow> unat n = k \<and> 0 < k \<and> k < 4294967296"

locale ref_counter =
  fixes wf :: "'s \<Rightarrow> bool" and cnt :: "'s \<Rightarrow> u64 \<Rightarrow> u64 option"
    and inc :: "'e \<Rightarrow> u64 \<Rightarrow> 's \<Rightarrow> 's \<times> u32" and dec :: "u64 \<Rightarrow> 's \<Rightarrow> 's \<times> u32"
  assumes inc_law: "wf s \<Longrightarrow> inc e a s = (s', r) \<Longrightarrow> cnt s a \<noteq> Some (- 1) \<Longrightarrow> wf s' \<and>
      (case cnt s a of
         Some n \<Rightarrow> r = ucast (n + 1) \<and> cnt s' = (cnt s)(a \<mapsto> n + 1)
       | None \<Rightarrow> (r = 1 \<and> cnt s' = (cnt s)(a \<mapsto> 1)) \<or> (r = 0 \<and> cnt s' = cnt s))"
    and dec_law: "wf s \<Longrightarrow> dec a s = (s', r) \<Longrightarrow> wf s' \<and> r = (case cnt s a of None \<Rightarrow> 0 | Some n \<Rightarrow> ucast n)
      \<and> cnt s' = (cnt s)(a := (case cnt s a of None \<Rightarrow> None | Some n \<Rightarrow> if n = 1 then None else Some (n - 1)))"
begin

definition tracks :: "'s \<Rightarrow> u64 multiset \<Rightarrow> bool" where
  "tracks s M \<longleftrightarrow> (\<forall>a. count_agrees (cnt s a) (count M a))"

lemma tracksD: "tracks s M \<Longrightarrow> count_agrees (cnt s a) (count M a)"
  by (simp add: tracks_def)

lemma tracks_None: "tracks s M \<Longrightarrow> a \<notin># M \<Longrightarrow> cnt s a = None"
  using tracksD [of s M a] by (cases "cnt s a") (auto simp: not_in_iff)

text \<open>A single new owner needs no count.\<close>

lemma tracks_fresh:
  assumes "tracks s M" "a \<notin># M"
  shows "tracks s (add_mset a M)"
  unfolding tracks_def
proof
  fix x
  show "count_agrees (cnt s x) (count (add_mset a M) x)"
    using tracksD [OF assms(1), of x] tracks_None [OF assms] assms(2) by (cases "x = a") (simp_all add: not_in_iff)
qed

text \<open>Dropping a reference: the count returned says whether it was the last one.\<close>

lemma tracks_dec:
  assumes "wf s" "tracks s (add_mset a M)" "dec a s = (s', r)"
  shows "wf s' \<and> tracks s' M \<and> (r \<le> 1 \<longleftrightarrow> a \<notin># M)"
proof -
  have d: "wf s'" "r = (case cnt s a of None \<Rightarrow> 0 | Some n \<Rightarrow> ucast n)"
    "cnt s' = (cnt s)(a := (case cnt s a of None \<Rightarrow> None | Some n \<Rightarrow> if n = 1 then None else Some (n - 1)))"
    using dec_law [OF assms(1,3)] by simp_all
  have t: "count_agrees (cnt s a) (Suc (count M a))" using tracksD [OF assms(2), of a] by simp
  have here: "count_agrees (cnt s' a) (count M a) \<and> (r \<le> 1 \<longleftrightarrow> a \<notin># M)"
  proof (cases "cnt s a")
    case None
    then show ?thesis using t d by (simp add: not_in_iff)
  next
    case (Some n)
    then have n: "unat n = Suc (count M a)" "Suc (count M a) < 4294967296" using t by simp_all
    then have "unat (ucast n :: u32) = Suc (count M a)" by (simp add: unsigned_ucast_eq take_bit_nat_eq_self)
    then have r: "r \<le> 1 \<longleftrightarrow> a \<notin># M" using d(2) Some by (simp add: word_le_nat_alt not_in_iff)
    have "n = 1 \<longleftrightarrow> count M a = 0" using n(1) by (simp add: word_unat_eq_iff)
    moreover have "unat (n - 1) = count M a" using n(1) by (subst unat_sub_u64) simp_all
    ultimately show ?thesis using r d(3) Some n(2) by simp
  qed
  have "count_agrees (cnt s' x) (count M x)" for x
    using here tracksD [OF assms(2), of x] d(3) by (cases "x = a") simp_all
  then show ?thesis using here d(1) by (simp add: tracks_def)
qed

text \<open>Adding a reference to a page that is counted, or to one nobody references.\<close>

lemma tracks_inc:
  assumes "wf s" "tracks s M" "inc e a s = (s', r)" "cnt s a = None \<Longrightarrow> a \<notin># M" "count M a < 4294967295"
  shows "wf s' \<and> (if r = 0 then cnt s' = cnt s else tracks s' (add_mset a M))"
proof -
  have t: "count_agrees (cnt s a) (count M a)" by (rule tracksD [OF assms(2)])
  have small: "cnt s a \<noteq> Some (- 1)"
  proof
    assume "cnt s a = Some (- 1)"
    then have "unat (- 1 :: u64) < 4294967296" using t by simp
    then show False by (simp add: unsigned_minus_1_eq_mask mask_eq_exp_minus_1)
  qed
  note i = inc_law [OF assms(1,3) small]
  have other: "count_agrees (cnt s' x) (count (add_mset a M) x)" if "x \<noteq> a" for x
    using tracksD [OF assms(2), of x] that i by (auto split: option.splits)
  have here: "if r = 0 then cnt s' = cnt s else count_agrees (cnt s' a) (Suc (count M a))"
  proof (cases "cnt s a")
    case None
    then have "count M a = 0" using assms(4) by (simp add: not_in_iff)
    then show ?thesis using i None by auto
  next
    case (Some n)
    then have n: "unat n = count M a" "cnt s' = (cnt s)(a \<mapsto> n + 1)" "r = ucast (n + 1)" using t i by simp_all
    have u: "unat (n + 1) = Suc (count M a)" using n(1) assms(5) by (subst unat_add_u64) simp_all
    then have "unat r = Suc (count M a)" using n(3) assms(5) by (simp add: unsigned_ucast_eq take_bit_nat_eq_self)
    then have "r \<noteq> 0" by auto
    then show ?thesis using n(2) u assms(5) by simp
  qed
  have "tracks s' (add_mset a M)" if "r \<noteq> 0"
    unfolding tracks_def
  proof
    fix x
    show "count_agrees (cnt s' x) (count (add_mset a M) x)" using other [of x] here that by (cases "x = a") simp_all
  qed
  then show ?thesis using i here by simp
qed

end

text \<open>The map of the kernel is one, with its three allocation outcomes as the environment.\<close>

definition refs_wf :: "RefCountMap option \<Rightarrow> bool" where
  "refs_wf g \<longleftrightarrow> (case g of None \<Rightarrow> False | Some m \<Rightarrow> rc_ok m)"

definition refs_count :: "RefCountMap option \<Rightarrow> u64 \<Rightarrow> u64 option" where
  "refs_count g a = (case g of None \<Rightarrow> None | Some m \<Rightarrow> rc_count m a)"

definition refs_inc :: "bool \<times> (nat \<Rightarrow> bool) \<times> bool \<Rightarrow> u64 \<Rightarrow> RefCountMap option \<Rightarrow> RefCountMap option \<times> u32" where
  "refs_inc e a g = (case e of (map_ok, oks, entry_ok) \<Rightarrow> refcount_map_increment map_ok oks entry_ok a g)"

lemma refs_count_Some [simp]: "refs_count (Some m) = rc_count m"
  by (rule ext) (simp add: refs_count_def)

interpretation rc: ref_counter refs_wf refs_count refs_inc refcount_map_decrement
proof
  fix s s' :: "RefCountMap option" and e :: "bool \<times> (nat \<Rightarrow> bool) \<times> bool" and a r
  assume wf: "refs_wf s"
  then obtain m where m: "s = Some m" "rc_ok m" by (auto simp: refs_wf_def split: option.splits)
  show "refs_wf s' \<and> (case refs_count s a of
      Some n \<Rightarrow> r = ucast (n + 1) \<and> refs_count s' = (refs_count s)(a \<mapsto> n + 1)
    | None \<Rightarrow> (r = 1 \<and> refs_count s' = (refs_count s)(a \<mapsto> 1)) \<or> (r = 0 \<and> refs_count s' = refs_count s))"
    if inc: "refs_inc e a s = (s', r)" and no: "refs_count s a \<noteq> Some (- 1)"
  proof -
    obtain mo oks eo where e: "e = (mo, oks, eo)" by (cases e)
    then have "refcount_map_increment mo oks eo a (Some m) = (s', r)" using inc m(1) by (simp add: refs_inc_def)
    moreover have "rc_count m a \<noteq> Some (- 1)" using no m(1) by simp
    ultimately obtain m' where m': "s' = Some m'" "rc_ok m'" "case rc_count m a of
       Some n \<Rightarrow> r = ucast (n + 1) \<and> rc_count m' = (rc_count m)(a \<mapsto> n + 1)
     | None \<Rightarrow> (r = 1 \<and> rc_count m' = (rc_count m)(a \<mapsto> 1)) \<or> (r = 0 \<and> rc_count m' = rc_count m)"
      using increment_ok [OF m(2)] by blast
    then show ?thesis using m(1) unfolding m'(1) m(1) refs_count_Some by (simp add: refs_wf_def)
  qed
  show "refs_wf s' \<and> r = (case refs_count s a of None \<Rightarrow> 0 | Some n \<Rightarrow> ucast n)
      \<and> refs_count s' = (refs_count s)(a := (case refs_count s a of None \<Rightarrow> None | Some n \<Rightarrow> if n = 1 then None else Some (n - 1)))"
    if "refcount_map_decrement a s = (s', r)"
  proof -
    obtain m' where "refcount_map_decrement a (Some m) = (Some m', case rc_count m a of None \<Rightarrow> 0 | Some n \<Rightarrow> ucast n)" "rc_ok m'"
      "rc_count m' = (rc_count m)(a := (case rc_count m a of None \<Rightarrow> None | Some n \<Rightarrow> if n = 1 then None else Some (n - 1)))"
      using decrement_ok [OF m(2)] by blast
    then show ?thesis using that m(1) by (auto simp: refs_wf_def)
  qed
qed

section \<open>Properties\<close>

text \<open>C37: incrementing refines addition in the map of reference counts: a counted page's count goes up by
  one and is returned (as 32 bits), a page not yet counted gets count 1, whatever growing and
  rehashing that takes, no other page's count changes, and when memory runs out the result is 0 and no
  count changes at all. With memory available a new page is always counted.\<close>

theorem refcount_map_increment_refines:
  assumes ok: "rc_ok m" and inc: "refcount_map_increment map_ok oks entry_ok a (Some m) = (g, r)" and nowrap: "rc_count m a \<noteq> Some (- 1)"
  shows "\<exists>m'. g = Some m' \<and> rc_ok m' \<and>
    (case rc_count m a of
       Some n \<Rightarrow> r = ucast (n + 1) \<and> rc_count m' = (rc_count m)(a \<mapsto> n + 1)
     | None \<Rightarrow> (r = 1 \<and> rc_count m' = (rc_count m)(a \<mapsto> 1)) \<or> (r = 0 \<and> rc_count m' = rc_count m))
    \<and> (map_ok \<and> entry_ok \<and> (\<forall>i. oks i) \<longrightarrow> rc_count m' a \<noteq> None)"
  by (rule increment_ok [OF assms])

theorem refcount_map_increment_refines_witness:
  "\<exists>m m'. refcount_map_init True (\<lambda>_. True) None = (Some m, True)
     \<and> refcount_map_increment True (\<lambda>_. True) True 0x5000 (Some m) = (Some m', 1) \<and> rc_count m' 0x5000 = Some 1"
proof -
  obtain m where m: "refcount_map_init True (\<lambda>_. True) None = (Some m, True)" "rc_ok m" "rc_count m = Map.empty"
    using init_ok [of "\<lambda>_. True"] by auto
  obtain g r where gr: "refcount_map_increment True (\<lambda>_. True) True 0x5000 (Some m) = (g, r)" by fastforce
  have "rc_count m 0x5000 \<noteq> Some (- 1)" using m(3) by simp
  then show ?thesis using refcount_map_increment_refines [OF m(2) gr] m gr by auto
qed

text \<open>Decrementing returns the count before it (as 32 bits), and 0 for a page that is not counted;
  the count goes down by one and a page whose count reaches 0 is forgotten. No other count changes.\<close>

theorem refcount_map_decrement_refines:
  assumes ok: "rc_ok m"
  shows "\<exists>m'. refcount_map_decrement a (Some m) = (Some m', case rc_count m a of None \<Rightarrow> 0 | Some n \<Rightarrow> ucast n) \<and> rc_ok m'
    \<and> rc_count m' = (rc_count m)(a := (case rc_count m a of None \<Rightarrow> None | Some n \<Rightarrow> if n = 1 then None else Some (n - 1)))"
  by (rule decrement_ok [OF assms])

theorem refcount_map_decrement_refines_witness:
  "\<exists>m m'. refcount_map_init True (\<lambda>_. True) None = (Some m, True) \<and> refcount_map_decrement 0x5000 (Some m) = (Some m', 0)"
proof -
  obtain m where m: "refcount_map_init True (\<lambda>_. True) None = (Some m, True)" "rc_ok m" "rc_count m = Map.empty"
    using init_ok [of "\<lambda>_. True"] by auto
  then show ?thesis using refcount_map_decrement_refines [OF m(2), of "0x5000"] by auto
qed

end
