(* ===== verification/Slab.thy ===== *)
theory Slab
  imports Bitmap
begin

text \<open>
  The slab allocator, \<^verbatim>\<open>kernel/slab/alloc.c\<close>: 16 KiB slabs of 256 blocks of 64 bytes, block 0 holding the
  slab's header with its link and a bitmap of four words. Slabs with room are on the partial list, the
  others on the full list, both linked through the headers. Both operations hold the slab lock and are
  one step. The memory for a new slab is what the fixed block allocator returns (null when it fails).
  A walk of a list that does not end gives \<open>None\<close>.
\<close>

section \<open>State and operations\<close>

record Slab =
  sb_next :: ptr
  sb_bitmap :: "u64 list"

record slab_state =
  sb_heap :: "ptr \<Rightarrow> Slab"
  sb_partial :: ptr
  sb_full :: ptr

definition BYTES_PER_SLAB :: u64 where
  "BYTES_PER_SLAB = 16384"

definition SLAB_BASE_MASK :: u64 where
  "SLAB_BASE_MASK = NOT (BYTES_PER_SLAB - 1)"

definition SLAB_BLOCK_SIZE :: u64 where
  "SLAB_BLOCK_SIZE = 64"

definition slab_base :: "ptr \<Rightarrow> ptr" where
  "slab_base block_ptr = block_ptr AND SLAB_BASE_MASK"

definition set_slab :: "ptr \<Rightarrow> (Slab \<Rightarrow> Slab) \<Rightarrow> slab_state \<Rightarrow> slab_state" where
  "set_slab p f st = st\<lparr>sb_heap := (sb_heap st)(p := f (sb_heap st p))\<rparr>"

abbreviation all_ones :: u64 where
  "all_ones \<equiv> 0xffffffffffffffff"

text \<open>The first clear bit; \<open>None\<close> when the slab is full.\<close>

definition find_free_block :: "u64 list \<Rightarrow> nat option" where
  "find_free_block bm =
     (if bm ! 0 \<noteq> all_ones then Some (first_set_bit_64 (NOT (bm ! 0)))
      else if bm ! 1 \<noteq> all_ones then Some (first_set_bit_64 (NOT (bm ! 1)) + 64)
      else if bm ! 2 \<noteq> all_ones then Some (first_set_bit_64 (NOT (bm ! 2)) + 128)
      else if bm ! 3 \<noteq> all_ones then Some (first_set_bit_64 (NOT (bm ! 3)) + 192)
      else None)"

definition slab_is_full :: "u64 list \<Rightarrow> bool" where
  "slab_is_full bm \<longleftrightarrow> bm ! 0 = all_ones \<and> bm ! 1 = all_ones \<and> bm ! 2 = all_ones \<and> bm ! 3 = all_ones"

definition slab_alloc_block :: "ptr \<Rightarrow> slab_state \<Rightarrow> slab_state \<times> ptr" where
  "slab_alloc_block new_slab st =
     (if sb_partial st = NULL \<and> new_slab = NULL then (st, NULL)
      else
        let target = (if sb_partial st = NULL then new_slab else sb_partial st);
            st = (if sb_partial st = NULL
                  then (set_slab new_slab (\<lambda>_. \<lparr>sb_next = NULL, sb_bitmap = [1, 0, 0, 0]\<rparr>) st)\<lparr>sb_partial := new_slab\<rparr>
                  else st)
        in case find_free_block (sb_bitmap (sb_heap st target)) of
             None \<Rightarrow> (st, NULL)
           | Some free_block \<Rightarrow>
               let st = set_slab target (\<lambda>s. s\<lparr>sb_bitmap := bitmap_set (sb_bitmap s) (of_nat free_block)\<rparr>) st;
                   st = (if slab_is_full (sb_bitmap (sb_heap st target))
                         then (set_slab target (\<lambda>s. s\<lparr>sb_next := sb_full st\<rparr>) st)
                                \<lparr>sb_partial := sb_next (sb_heap st target), sb_full := target\<rparr>
                         else st)
               in (st, target + of_nat free_block * SLAB_BLOCK_SIZE))"

text \<open>The node before a slab on the full list; null when there is none.\<close>

partial_function (option) find_prev :: "(ptr \<Rightarrow> Slab) \<Rightarrow> ptr \<Rightarrow> ptr \<Rightarrow> ptr option" where
  "find_prev h slab test =
     (if test = NULL then Some NULL
      else if sb_next (h test) = slab then Some test
      else find_prev h slab (sb_next (h test)))"

definition slab_unfull :: "ptr \<Rightarrow> slab_state \<Rightarrow> slab_state option" where
  "slab_unfull slab st =
     (if sb_full st = slab
      then Some ((set_slab slab (\<lambda>s. s\<lparr>sb_next := sb_partial st\<rparr>) st)\<lparr>sb_full := sb_next (sb_heap st slab), sb_partial := slab\<rparr>)
      else map_option (\<lambda>prev.
             if prev \<noteq> NULL
             then let test = prev;
                      st = set_slab prev (\<lambda>s. s\<lparr>sb_next := sb_next (sb_heap st test)\<rparr>) st
                  in (set_slab test (\<lambda>s. s\<lparr>sb_next := sb_partial st\<rparr>) st)\<lparr>sb_partial := test\<rparr>
             else st) (find_prev (sb_heap st) slab (sb_full st)))"

definition slab_free :: "ptr \<Rightarrow> slab_state \<Rightarrow> slab_state option" where
  "slab_free block st =
     (if block = NULL then Some st
      else let slab = slab_base block in
        if slab = NULL then Some st
        else let block_num = (block - slab) div SLAB_BLOCK_SIZE in
          if block_num = 0 then Some st
          else map_option (set_slab slab (\<lambda>s. s\<lparr>sb_bitmap := bitmap_clear (sb_bitmap s) block_num\<rparr>))
                 (if slab_is_full (sb_bitmap (sb_heap st slab)) then slab_unfull slab st else Some st))"

section \<open>Invariant\<close>

fun slist :: "(ptr \<Rightarrow> Slab) \<Rightarrow> ptr \<Rightarrow> ptr list \<Rightarrow> bool" where
  "slist h p [] \<longleftrightarrow> p = NULL"
| "slist h p (x # xs) \<longleftrightarrow> p = x \<and> x \<noteq> NULL \<and> slist h (sb_next (h x)) xs"

definition slab_at :: "(ptr \<Rightarrow> Slab) \<Rightarrow> ptr \<Rightarrow> bool" where
  "slab_at h p \<longleftrightarrow> unat p mod 16384 = 0 \<and> length (sb_bitmap (h p)) = 4 \<and> bmp_bit (sb_bitmap (h p)) 0"

text \<open>\<open>ps\<close> and \<open>fs\<close> are the partial and the full list.\<close>

definition slab_ok :: "slab_state \<Rightarrow> ptr list \<Rightarrow> ptr list \<Rightarrow> bool" where
  "slab_ok st ps fs \<longleftrightarrow> slist (sb_heap st) (sb_partial st) ps \<and> slist (sb_heap st) (sb_full st) fs \<and> distinct (ps @ fs)
     \<and> (\<forall>p \<in> set (ps @ fs). slab_at (sb_heap st) p)
     \<and> (\<forall>p \<in> set ps. \<not> slab_is_full (sb_bitmap (sb_heap st p))) \<and> (\<forall>p \<in> set fs. slab_is_full (sb_bitmap (sb_heap st p)))"

text \<open>The addresses of the blocks in use.\<close>

definition block_addr :: "ptr \<Rightarrow> nat \<Rightarrow> nat" where
  "block_addr p i = unat p + 64 * i"

definition allocated :: "slab_state \<Rightarrow> ptr set \<Rightarrow> nat set" where
  "allocated st S = {block_addr p i | p i. p \<in> S \<and> 0 < i \<and> i < 256 \<and> bmp_bit (sb_bitmap (sb_heap st p)) i}"

section \<open>Library\<close>

lemma all_ones_eq: "all_ones = (- 1 :: u64)"
  by simp

lemma free_in_word:
  fixes w :: u64
  assumes "w \<noteq> all_ones"
  shows "first_set_bit_64 (NOT w) < 64 \<and> \<not> bit w (first_set_bit_64 (NOT w))"
proof -
  have "NOT w \<noteq> 0" using assms unfolding all_ones_eq by (metis bit.compl_zero bit.double_compl)
  from ctzll_props [OF this] show ?thesis by (simp add: first_set_bit_64_def bit_not_iff)
qed

lemma bmp_bit_word: "length bm = 4 \<Longrightarrow> j < 4 \<Longrightarrow> k < 64 \<Longrightarrow> bmp_bit bm (k + 64 * j) \<longleftrightarrow> bit (bm ! j) k"
  by (simp add: bmp_bit_def)

lemma find_free_block_Some:
  assumes "length bm = 4" "find_free_block bm = Some i"
  shows "i < 256 \<and> \<not> bmp_bit bm i"
proof -
  have pick: "\<exists>j k. j < 4 \<and> k < 64 \<and> i = k + 64 * j \<and> \<not> bit (bm ! j) k"
    if "bm ! j \<noteq> all_ones" "j < 4" "i = first_set_bit_64 (NOT (bm ! j)) + 64 * j" for j
    using free_in_word [OF that(1)] that(2,3) by blast
  have "\<exists>j < 4. bm ! j \<noteq> all_ones \<and> i = first_set_bit_64 (NOT (bm ! j)) + 64 * j"
  proof -
    consider "bm ! 0 \<noteq> all_ones" | "bm ! 0 = all_ones" "bm ! 1 \<noteq> all_ones" | "bm ! 0 = all_ones" "bm ! 1 = all_ones" "bm ! 2 \<noteq> all_ones"
      | "bm ! 0 = all_ones" "bm ! 1 = all_ones" "bm ! 2 = all_ones" by blast
    then show ?thesis
    proof cases
      case 1
      then show ?thesis using assms(2) by (intro exI [of _ 0]) (simp add: find_free_block_def)
    next
      case 2
      then show ?thesis using assms(2) by (intro exI [of _ 1]) (simp add: find_free_block_def)
    next
      case 3
      then show ?thesis using assms(2) by (intro exI [of _ 2]) (simp add: find_free_block_def)
    next
      case 4
      then show ?thesis using assms(2) by (intro exI [of _ 3]) (simp add: find_free_block_def split: if_splits)
    qed
  qed
  then have "\<exists>j k. j < 4 \<and> k < 64 \<and> i = k + 64 * j \<and> \<not> bit (bm ! j) k" using pick by blast
  then obtain j k where jk: "j < 4" "k < 64" "i = k + 64 * j" "\<not> bit (bm ! j) k" by blast
  then show ?thesis using bmp_bit_word [OF assms(1) jk(1,2)] by simp
qed

lemma find_free_block_None: "find_free_block bm = None \<longleftrightarrow> slab_is_full bm"
  by (simp add: find_free_block_def slab_is_full_def)


lemma full_iff:
  assumes "length bm = 4"
  shows "slab_is_full bm \<longleftrightarrow> (\<forall>i < 256. bmp_bit bm i)"
proof
  assume f: "slab_is_full bm"
  show "\<forall>i < 256. bmp_bit bm i"
  proof (intro allI impI)
    fix i :: nat assume i: "i < 256"
    have j: "i div 64 < 4" using i by simp
    then have "i div 64 \<in> {0, 1, 2, 3}" by auto
    then have "bm ! (i div 64) = - 1" using f unfolding slab_is_full_def all_ones_eq by auto
    then show "bmp_bit bm i" using j assms by (simp add: bmp_bit_def)
  qed
next
  assume "\<forall>i < 256. bmp_bit bm i"
  then show "slab_is_full bm" using find_free_block_Some [OF assms] find_free_block_None [of bm] by (cases "find_free_block bm") auto
qed

text \<open>Block addresses.\<close>

lemma aligned_room: "unat (p :: ptr) mod 16384 = 0 \<Longrightarrow> unat p + 16384 \<le> 18446744073709551616"
proof -
  assume "unat p mod 16384 = 0"
  then obtain a where a: "unat p = 16384 * a" by (auto elim: dvdE)
  then have "16384 * a < 16384 * 1125899906842624" using u64_less [of p] by simp
  then have "a < 1125899906842624" by simp
  then show ?thesis using a by simp
qed

lemma block_addr_inj:
  assumes "unat p mod 16384 = 0" "unat q mod 16384 = 0" "i < 256" "j < 256"
  shows "block_addr p i = block_addr q j \<longleftrightarrow> p = q \<and> i = j"
proof
  assume "block_addr p i = block_addr q j"
  then have "unat p + 64 * i = unat q + 64 * j" by (simp add: block_addr_def)
  moreover obtain a b where ab: "unat p = 16384 * a" "unat q = 16384 * b" using assms(1,2) by (auto simp: mod_eq_0_iff_dvd elim!: dvdE)
  ultimately have e: "256 * a + i = 256 * b + j" by simp
  have "(256 * a + i) div 256 = a" "(256 * a + i) mod 256 = i" "(256 * b + j) div 256 = b" "(256 * b + j) mod 256 = j"
    using assms(3,4) by simp_all
  then have "unat p = unat q \<and> i = j" using e ab by metis
  then show "p = q \<and> i = j" by (simp add: u64_eq_iff)
qed (simp)

lemma block_ptr:
  fixes p :: ptr
  assumes "unat p mod 16384 = 0" "i < 256"
  shows "unat (p + of_nat i * SLAB_BLOCK_SIZE) = block_addr p i"
proof -
  have "unat (of_nat i * SLAB_BLOCK_SIZE) = 64 * i"
    using assms(2) by (subst unat_mult_u64) (auto simp: SLAB_BLOCK_SIZE_def unsigned_of_nat take_bit_nat_eq_self)
  then show ?thesis using aligned_room [OF assms(1)] assms(2) by (subst unat_add_u64) (auto simp: block_addr_def)
qed

lemma unat_slab_base: "unat (slab_base b) = unat b - unat b mod 16384"
proof -
  have "SLAB_BASE_MASK = push_bit 14 (mask 50)" by (simp add: SLAB_BASE_MASK_def BYTES_PER_SLAB_def mask_eq_exp_minus_1 push_bit_eq_mult)
  then have "slab_base b = b AND push_bit 14 (mask 50)" by (simp only: slab_base_def)
  also have "\<dots> = push_bit 14 (drop_bit 14 b)" by (rule bit_word_eqI) (auto simp: bit_simps)
  finally have "slab_base b = push_bit 14 (drop_bit 14 b)" .
  moreover have "unat (drop_bit 14 b) = unat b div 16384" by (simp add: drop_bit_eq_div unat_div)
  moreover have "unat b div 16384 * 16384 < 18446744073709551616" using u64_less [of b] by (meson div_times_less_eq_dividend le_less_trans)
  ultimately have "unat (slab_base b) = unat b div 16384 * 16384" by (simp add: push_bit_eq_mult unat_mult_u64)
  then show ?thesis by (metis minus_mod_eq_div_mult)
qed

lemma block_of_addr:
  assumes "unat p mod 16384 = 0" "i < 256" "unat b = block_addr p i"
  shows "slab_base b = p" "unat ((b - p) div SLAB_BLOCK_SIZE) = i"
proof -
  obtain a where a: "unat p = 16384 * a" using assms(1) by (auto simp: mod_eq_0_iff_dvd elim!: dvdE)
  have "(16384 * a + 64 * i) mod 16384 = 64 * i" using assms(2) by simp
  then have m: "unat b mod 16384 = 64 * i" "unat b = unat p + 64 * i" using assms(3) a by (simp_all add: block_addr_def)
  show "slab_base b = p" using m unat_slab_base [of b] by (simp add: u64_eq_iff)
  have "unat (b - p) = 64 * i" using m by (subst unat_sub_u64) auto
  then show "unat ((b - p) div SLAB_BLOCK_SIZE) = i" by (simp add: unat_div SLAB_BLOCK_SIZE_def)
qed

text \<open>Lists of slabs.\<close>

lemma slist_cong: "\<forall>x \<in> set xs. sb_next (h x) = sb_next (h' x) \<Longrightarrow> slist h p xs = slist h' p xs"
  by (induction xs arbitrary: p) auto

lemma slist_NULL: "slist h p xs \<Longrightarrow> p = NULL \<longleftrightarrow> xs = []"
  by (cases xs) auto

lemma slist_not_NULL: "slist h p xs \<Longrightarrow> NULL \<notin> set xs"
  by (induction xs arbitrary: p) auto

lemma set_slab_simps [simp]:
  "sb_heap (set_slab p f st) = (sb_heap st)(p := f (sb_heap st p))" "sb_partial (set_slab p f st) = sb_partial st" "sb_full (set_slab p f st) = sb_full st"
  by (simp_all add: set_slab_def)

text \<open>Marking a block, whatever happens to the links.\<close>

lemma allocated_mark:
  assumes al: "\<forall>q \<in> S. unat q mod 16384 = 0" and p: "p \<in> S" and i: "0 < i" "i < 256"
    and bits: "\<And>k. k < 256 \<Longrightarrow> bmp_bit (sb_bitmap (sb_heap st' p)) k \<longleftrightarrow> k = i \<or> bmp_bit (sb_bitmap (sb_heap st p)) k"
    and others: "\<forall>q \<in> S. q \<noteq> p \<longrightarrow> sb_bitmap (sb_heap st' q) = sb_bitmap (sb_heap st q)"
  shows "allocated st' S = insert (block_addr p i) (allocated st S)"
proof (rule set_eqI)
  fix a
  have bb: "bmp_bit (sb_bitmap (sb_heap st' q)) k \<longleftrightarrow> q = p \<and> k = i \<or> bmp_bit (sb_bitmap (sb_heap st q)) k" if "q \<in> S" "k < 256" for q k
    using bits [OF that(2)] others that by (cases "q = p") auto
  have "a \<in> allocated st' S \<longleftrightarrow> (\<exists>q k. a = block_addr q k \<and> q \<in> S \<and> 0 < k \<and> k < 256
      \<and> (q = p \<and> k = i \<or> bmp_bit (sb_bitmap (sb_heap st q)) k))"
    unfolding allocated_def using bb by blast
  also have "\<dots> \<longleftrightarrow> a = block_addr p i \<or> a \<in> allocated st S" unfolding allocated_def using p i by blast
  finally show "a \<in> allocated st' S \<longleftrightarrow> a \<in> insert (block_addr p i) (allocated st S)" by simp
qed

lemma allocated_clear:
  assumes al: "\<forall>q \<in> S. unat q mod 16384 = 0" and p: "p \<in> S" and i: "i < 256"
    and bits: "\<And>k. k < 256 \<Longrightarrow> bmp_bit (sb_bitmap (sb_heap st' p)) k \<longleftrightarrow> k \<noteq> i \<and> bmp_bit (sb_bitmap (sb_heap st p)) k"
    and others: "\<forall>q \<in> S. q \<noteq> p \<longrightarrow> sb_bitmap (sb_heap st' q) = sb_bitmap (sb_heap st q)"
  shows "allocated st' S = allocated st S - {block_addr p i}"
proof (rule set_eqI)
  fix a
  have bb: "bmp_bit (sb_bitmap (sb_heap st' q)) k \<longleftrightarrow> \<not> (q = p \<and> k = i) \<and> bmp_bit (sb_bitmap (sb_heap st q)) k" if "q \<in> S" "k < 256" for q k
    using bits [OF that(2)] others that by (cases "q = p") auto
  have "a \<in> allocated st' S \<longleftrightarrow> (\<exists>q k. a = block_addr q k \<and> q \<in> S \<and> 0 < k \<and> k < 256
      \<and> \<not> (q = p \<and> k = i) \<and> bmp_bit (sb_bitmap (sb_heap st q)) k)"
    unfolding allocated_def using bb by blast
  also have "\<dots> \<longleftrightarrow> (\<exists>q k. a = block_addr q k \<and> q \<in> S \<and> 0 < k \<and> k < 256
      \<and> block_addr q k \<noteq> block_addr p i \<and> bmp_bit (sb_bitmap (sb_heap st q)) k)"
    using block_addr_inj al p i by metis
  also have "\<dots> \<longleftrightarrow> a \<noteq> block_addr p i \<and> a \<in> allocated st S" unfolding allocated_def by auto
  finally show "a \<in> allocated st' S \<longleftrightarrow> a \<in> allocated st S - {block_addr p i}" by blast
qed

text \<open>Taking a block from the first partial slab.\<close>

lemma alloc_from_partial:
  assumes ok: "slab_ok st (t # ps) fs"
  shows "\<exists>st' r ps' fs'. slab_alloc_block new st = (st', r) \<and> slab_ok st' ps' fs' \<and> set (ps' @ fs') = set ((t # ps) @ fs)
    \<and> r \<noteq> NULL \<and> unat r mod 64 = 0 \<and> unat r \<notin> allocated st (set ((t # ps) @ fs))
    \<and> allocated st' (set (ps' @ fs')) = insert (unat r) (allocated st (set ((t # ps) @ fs)))"
proof -
  let ?S = "set ((t # ps) @ fs)" and ?bm = "sb_bitmap (sb_heap st t)"
  have sl: "slist (sb_heap st) (sb_partial st) (t # ps)" "slist (sb_heap st) (sb_full st) fs" "distinct ((t # ps) @ fs)"
    "\<forall>p \<in> ?S. slab_at (sb_heap st) p" "\<forall>p \<in> set (t # ps). \<not> slab_is_full (sb_bitmap (sb_heap st p))"
    "\<forall>p \<in> set fs. slab_is_full (sb_bitmap (sb_heap st p))"
    using ok unfolding slab_ok_def by blast+
  have t: "sb_partial st = t" "t \<noteq> NULL" "slab_at (sb_heap st) t" "length ?bm = 4" "unat t mod 16384 = 0" "bmp_bit ?bm 0"
    using sl(1,4) by (auto simp: slab_at_def)
  obtain i where i: "find_free_block ?bm = Some i" using sl(5) find_free_block_None [of ?bm] by (cases "find_free_block ?bm") auto
  note fi = find_free_block_Some [OF t(4) i]
  have i0: "0 < i" using fi t(6) by (cases i) auto
  have ui: "unat (of_nat i :: u64) = i" using fi by (simp add: unsigned_of_nat take_bit_nat_eq_self)
  define bm where "bm = bitmap_set ?bm (of_nat i)"
  have bits: "bmp_bit bm k \<longleftrightarrow> k = i \<or> bmp_bit ?bm k" for k unfolding bm_def using bmp_bit_set [of "of_nat i" ?bm k] ui fi t(4) by simp
  have len: "length bm = 4" using t(4) by (simp add: bm_def)
  define r where "r = t + of_nat i * SLAB_BLOCK_SIZE"
  have r: "unat r = block_addr t i" unfolding r_def using fi t(5) by (intro block_ptr) auto
  have rn: "r \<noteq> NULL" using r i0 by (auto simp: block_addr_def)
  obtain a where "unat t = 16384 * a" using t(5) by (auto simp: mod_eq_0_iff_dvd elim!: dvdE)
  then have "unat r = 64 * (256 * a + i)" using r by (simp add: block_addr_def)
  then have r64: "unat r mod 64 = 0" by simp
  have al: "\<forall>q \<in> ?S. unat q mod 16384 = 0" using sl(4) by (auto simp: slab_at_def)
  have fresh: "unat r \<notin> allocated st ?S"
  proof
    assume "unat r \<in> allocated st ?S"
    then obtain q k where qk: "block_addr t i = block_addr q k" "q \<in> ?S" "k < 256" "bmp_bit (sb_bitmap (sb_heap st q)) k"
      using r by (auto simp: allocated_def)
    then have "q = t \<and> k = i" using block_addr_inj [OF t(5) _ _ qk(3), of q i] al fi by auto
    then show False using fi qk(4) by simp
  qed
  define st1 where "st1 = set_slab t (\<lambda>s. s\<lparr>sb_bitmap := bm\<rparr>) st"
  define st2 where "st2 = (if slab_is_full bm then (set_slab t (\<lambda>s. s\<lparr>sb_next := sb_full st1\<rparr>) st1)\<lparr>sb_partial := sb_next (sb_heap st1 t), sb_full := t\<rparr> else st1)"
  have ev: "slab_alloc_block new st = (st2, r)"
    using t(1,2) i by (simp add: slab_alloc_block_def Let_def st2_def st1_def r_def bm_def)
  have bms: "sb_bitmap (sb_heap st2 q) = (if q = t then bm else sb_bitmap (sb_heap st q))" for q by (simp add: st2_def st1_def)
  have nx: "sb_next (sb_heap st2 q) = (if q = t \<and> slab_is_full bm then sb_full st else sb_next (sb_heap st q))" for q
    by (simp add: st2_def st1_def)
  have alloc: "allocated st2 ?S = insert (unat r) (allocated st ?S)"
    unfolding r using al i0 fi bits bms by (intro allocated_mark) auto
  have sat: "\<forall>p \<in> ?S. slab_at (sb_heap st2) p" using sl(4) bms len bits t(5,6) by (auto simp: slab_at_def)
  have tn: "t \<notin> set ps" "t \<notin> set fs" using sl(3) by auto
  have lists: "slist (sb_heap st2) (sb_next (sb_heap st t)) ps" "slist (sb_heap st2) (sb_full st) fs"
    using sl(1,2) tn nx slist_cong [of ps "sb_heap st2" "sb_heap st"] slist_cong [of fs "sb_heap st2" "sb_heap st"] by auto
  show ?thesis
  proof (cases "slab_is_full bm")
    case True
    have "sb_partial st2 = sb_next (sb_heap st t)" "sb_full st2 = t" using True by (simp_all add: st2_def st1_def)
    then have "slab_ok st2 ps (t # fs)" unfolding slab_ok_def using lists sat sl(3,5,6) tn True bms nx t(2) by auto
    moreover have "set (ps @ t # fs) = ?S" by auto
    ultimately show ?thesis using ev rn r64 fresh alloc by (intro exI [of _ st2] exI [of _ r] exI [of _ ps] exI [of _ "t # fs"]) simp
  next
    case False
    have "sb_partial st2 = t" "sb_full st2 = sb_full st" using False t(1) by (simp_all add: st2_def st1_def)
    then have "slab_ok st2 (t # ps) fs" unfolding slab_ok_def using lists sat sl(3,5,6) tn False bms nx t(2) by auto
    then show ?thesis using ev rn r64 fresh alloc by (intro exI [of _ st2] exI [of _ r] exI [of _ "t # ps"] exI [of _ fs]) simp
  qed
qed

text \<open>A slab fresh from the block allocator.\<close>

lemma new_slab_bits: "bmp_bit [1, 0, 0, 0 :: u64] k \<longleftrightarrow> k = 0"
proof -
  have "bmp_bit [1, 0, 0, 0 :: u64] k \<longleftrightarrow> k div 64 = 0 \<and> k mod 64 = 0"
    by (auto simp: bmp_bit_def nth_Cons' bit_1_iff split: if_splits)
  then show ?thesis by (metis div_0 mod_0 div_mod_eqI)
qed

lemma new_slab_ok:
  assumes ok: "slab_ok st [] fs" and n: "n \<noteq> NULL" "unat n mod 16384 = 0" "n \<notin> set fs"
  defines "st0 \<equiv> (set_slab n (\<lambda>_. \<lparr>sb_next = NULL, sb_bitmap = [1, 0, 0, 0]\<rparr>) st)\<lparr>sb_partial := n\<rparr>"
  shows "slab_ok st0 [n] fs" "allocated st0 (set ([n] @ fs)) = allocated st (set fs)"
proof -
  have "slist (sb_heap st0) (sb_full st0) fs"
    using ok n(3) slist_cong [of fs "sb_heap st0" "sb_heap st"] by (auto simp: slab_ok_def st0_def)
  moreover have "\<not> slab_is_full [1, 0, 0, 0 :: u64]" by (simp add: slab_is_full_def)
  ultimately show "slab_ok st0 [n] fs" using ok n by (auto simp: slab_ok_def st0_def slab_at_def new_slab_bits)
  show "allocated st0 (set ([n] @ fs)) = allocated st (set fs)"
    unfolding allocated_def using n(3) by (auto simp: st0_def new_slab_bits)
qed

text \<open>Clearing the bit of a block.\<close>

lemma clear_block:
  assumes at: "slab_at (sb_heap st) p" and i: "0 < i" "i < 256" and b: "unat b = block_addr p i"
  shows "slab_base b = p" "unat ((b - p) div SLAB_BLOCK_SIZE) = i"
    "\<And>k. bmp_bit (bitmap_clear (sb_bitmap (sb_heap st p)) ((b - p) div SLAB_BLOCK_SIZE)) k \<longleftrightarrow> k \<noteq> i \<and> bmp_bit (sb_bitmap (sb_heap st p)) k"
    "\<not> slab_is_full (bitmap_clear (sb_bitmap (sb_heap st p)) ((b - p) div SLAB_BLOCK_SIZE))"
proof -
  have p: "unat p mod 16384 = 0" "length (sb_bitmap (sb_heap st p)) = 4" using at by (auto simp: slab_at_def)
  show "slab_base b = p" by (rule block_of_addr [OF p(1) i(2) b])
  show n: "unat ((b - p) div SLAB_BLOCK_SIZE) = i" by (rule block_of_addr [OF p(1) i(2) b])
  show bits: "bmp_bit (bitmap_clear (sb_bitmap (sb_heap st p)) ((b - p) div SLAB_BLOCK_SIZE)) k \<longleftrightarrow> k \<noteq> i \<and> bmp_bit (sb_bitmap (sb_heap st p)) k" for k
    using bmp_bit_clear [of "(b - p) div SLAB_BLOCK_SIZE" "sb_bitmap (sb_heap st p)" k] n p(2) i(2) by simp
  show "\<not> slab_is_full (bitmap_clear (sb_bitmap (sb_heap st p)) ((b - p) div SLAB_BLOCK_SIZE))"
    using full_iff [of "bitmap_clear (sb_bitmap (sb_heap st p)) ((b - p) div SLAB_BLOCK_SIZE)"] bits p(2) i(2) by auto
qed

lemma find_prev_ok:
  "slist h x (pre @ q # p # post) \<Longrightarrow> distinct (pre @ q # p # post) \<Longrightarrow> find_prev h p x = Some q"
proof (induction pre arbitrary: x)
  case Nil
  then show ?case by (subst find_prev.simps) auto
next
  case (Cons y pre)
  have "sb_next (h y) \<noteq> p" using Cons.prems by (cases pre) auto
  then show ?case using Cons by (subst find_prev.simps) auto
qed

section \<open>Properties\<close>

text \<open>C38: an allocation returns a block that no earlier allocation still holds, 64-byte aligned and never a
  slab's header, and exactly that block becomes allocated; it fails only when there is no partial
  slab and no memory for a new one, and then nothing changes. The partial and full lists stay
  correct, the slab moving over when its last block is taken.\<close>

theorem slab_alloc_block_correct:
  assumes ok: "slab_ok st ps fs" and new: "new \<noteq> NULL \<longrightarrow> unat new mod 16384 = 0 \<and> new \<notin> set (ps @ fs)"
  shows "\<exists>st' r ps' fs'. slab_alloc_block new st = (st', r) \<and> slab_ok st' ps' fs' \<and>
    (if ps = [] \<and> new = NULL then r = NULL \<and> st' = st
     else r \<noteq> NULL \<and> unat r mod 64 = 0 \<and> unat r \<notin> allocated st (set (ps @ fs))
       \<and> set (ps' @ fs') = set (ps @ fs) \<union> (if ps = [] then {new} else {})
       \<and> allocated st' (set (ps' @ fs')) = insert (unat r) (allocated st (set (ps @ fs))))"
proof (cases ps)
  case Nil
  have p: "sb_partial st = NULL" using ok Nil by (simp add: slab_ok_def)
  show ?thesis
  proof (cases "new = NULL")
    case True
    then show ?thesis using Nil p ok by (auto simp: slab_alloc_block_def)
  next
    case False
    let ?st0 = "(set_slab new (\<lambda>_. \<lparr>sb_next = NULL, sb_bitmap = [1, 0, 0, 0]\<rparr>) st)\<lparr>sb_partial := new\<rparr>"
    have ev: "slab_alloc_block new st = slab_alloc_block new ?st0"
      using p False by (simp add: slab_alloc_block_def Let_def)
    have ok0: "slab_ok ?st0 [new] fs" "allocated ?st0 (set ([new] @ fs)) = allocated st (set fs)"
      using new_slab_ok [of st fs new] ok Nil new False by auto
    from alloc_from_partial [OF ok0(1), of new, folded ev, unfolded ok0(2)]
    obtain st' r ps' fs' where "slab_alloc_block new st = (st', r)" "slab_ok st' ps' fs'" "set (ps' @ fs') = set ([new] @ fs)"
      "r \<noteq> NULL" "unat r mod 64 = 0" "unat r \<notin> allocated st (set fs)" "allocated st' (set (ps' @ fs')) = insert (unat r) (allocated st (set fs))"
      by (elim exE conjE) (rule that)
    then show ?thesis using Nil False by (intro exI [of _ st'] exI [of _ r] exI [of _ ps'] exI [of _ fs']) simp
  qed
next
  case (Cons t ps0)
  from alloc_from_partial [OF ok [unfolded Cons], of new]
  obtain st' r ps' fs' where "slab_alloc_block new st = (st', r)" "slab_ok st' ps' fs'" "set (ps' @ fs') = set (ps @ fs)"
    "r \<noteq> NULL" "unat r mod 64 = 0" "unat r \<notin> allocated st (set (ps @ fs))"
    "allocated st' (set (ps' @ fs')) = insert (unat r) (allocated st (set (ps @ fs)))"
    unfolding Cons [symmetric] by (elim exE conjE) (rule that)
  then show ?thesis using Cons by (intro exI [of _ st'] exI [of _ r] exI [of _ ps'] exI [of _ fs']) simp
qed

definition demo_slabs :: slab_state where
  "demo_slabs = \<lparr>sb_heap = (\<lambda>_. \<lparr>sb_next = NULL, sb_bitmap = [3, 0, 0, 0]\<rparr>), sb_partial = NULL, sb_full = NULL\<rparr>"

theorem slab_alloc_block_correct_witness:
  "\<exists>st' r. slab_alloc_block 0x10000 demo_slabs = (st', r) \<and> r \<noteq> NULL \<and> unat r mod 64 = 0"
proof -
  have "slab_ok demo_slabs [] []" by (simp add: slab_ok_def demo_slabs_def)
  then show ?thesis using slab_alloc_block_correct [of demo_slabs "[]" "[]" "0x10000"] by auto
qed

text \<open>Freeing an allocated block of a partial slab, or of the slab at the head of the full list, makes
  exactly that block free again and keeps the lists correct, the full slab going back to the
  partial list.\<close>

theorem slab_free_correct:
  assumes ok: "slab_ok st ps fs" and p: "p \<in> set ps \<or> (\<exists>fs0. fs = p # fs0)" "p \<noteq> NULL"
    and b: "unat b = block_addr p i" "0 < i" "i < 256"
  shows "\<exists>st' ps' fs'. slab_free b st = Some st' \<and> slab_ok st' ps' fs' \<and> set (ps' @ fs') = set (ps @ fs)
    \<and> allocated st' (set (ps' @ fs')) = allocated st (set (ps @ fs)) - {unat b}"
proof -
  let ?S = "set (ps @ fs)"
  have sl: "slist (sb_heap st) (sb_partial st) ps" "slist (sb_heap st) (sb_full st) fs" "distinct (ps @ fs)" "\<forall>p \<in> ?S. slab_at (sb_heap st) p"
    "\<forall>p \<in> set ps. \<not> slab_is_full (sb_bitmap (sb_heap st p))" "\<forall>p \<in> set fs. slab_is_full (sb_bitmap (sb_heap st p))"
    using ok unfolding slab_ok_def by blast+
  have pS: "p \<in> ?S" using p by auto
  have at: "slab_at (sb_heap st) p" using sl(4) pS by blast
  note cl = clear_block [OF at b(2,3,1)]
  define n where "n = (b - p) div SLAB_BLOCK_SIZE"
  define bm where "bm = bitmap_clear (sb_bitmap (sb_heap st p)) n"
  have bn: "b \<noteq> NULL" "n \<noteq> 0" using b cl(2) p(2) by (auto simp: block_addr_def n_def u64_eq_iff)
  have bm: "length bm = 4" "bmp_bit bm 0" "\<not> slab_is_full bm" "unat p mod 16384 = 0"
    using at cl(3) [of 0] cl(4) b(2) by (auto simp: slab_at_def bm_def n_def)
  have al: "\<forall>q \<in> ?S. unat q mod 16384 = 0" using sl(4) by (auto simp: slab_at_def)
  have bits: "bmp_bit bm k \<longleftrightarrow> k \<noteq> i \<and> bmp_bit (sb_bitmap (sb_heap st p)) k" for k
    using cl(3) [of k] by (simp add: bm_def n_def)
  define st1 where "st1 = (if slab_is_full (sb_bitmap (sb_heap st p))
      then (set_slab p (\<lambda>s. s\<lparr>sb_next := sb_partial st\<rparr>) st)\<lparr>sb_full := sb_next (sb_heap st p), sb_partial := p\<rparr> else st)"
  define st' where "st' = set_slab p (\<lambda>s. s\<lparr>sb_bitmap := bm\<rparr>) st1"
  have fl: "slab_is_full (sb_bitmap (sb_heap st p)) \<longleftrightarrow> p \<in> set fs" using sl(5,6) pS by auto
  have "sb_full st = p" if "p \<in> set fs"
    using that p sl(2,3) by auto
  then have "(if slab_is_full (sb_bitmap (sb_heap st p)) then slab_unfull p st else Some st) = Some st1"
    using fl by (auto simp: slab_unfull_def st1_def)
  moreover have "sb_bitmap (sb_heap st1 p) = sb_bitmap (sb_heap st p)" by (simp add: st1_def)
  ultimately have ev: "slab_free b st = Some st'"
    using bn cl(1) p(2) by (simp add: slab_free_def Let_def st'_def bm_def set_slab_def flip: n_def)
  have bms: "sb_bitmap (sb_heap st' q) = (if q = p then bm else sb_bitmap (sb_heap st q))" for q by (simp add: st'_def st1_def)
  have alloc: "allocated st' ?S = allocated st ?S - {unat b}"
    unfolding b(1) using al pS b(3) bits bms by (intro allocated_clear) auto
  have sat: "\<forall>q \<in> ?S. slab_at (sb_heap st') q" using sl(4) bms bm by (auto simp: slab_at_def)
  show ?thesis
  proof (cases "p \<in> set fs")
    case False
    then have nx: "sb_next (sb_heap st' q) = sb_next (sb_heap st q)" "sb_partial st' = sb_partial st" "sb_full st' = sb_full st" for q
      using fl by (auto simp: st'_def st1_def)
    have "slab_ok st' ps fs" unfolding slab_ok_def nx(2,3)
      using sl sat bms bm(3) False nx(1) slist_cong [of ps "sb_heap st'" "sb_heap st"] slist_cong [of fs "sb_heap st'" "sb_heap st"] by auto
    then show ?thesis using ev alloc by blast
  next
    case True
    then obtain fs0 where fs0: "fs = p # fs0" using p(1) sl(3) by auto
    have nx: "sb_next (sb_heap st' q) = (if q = p then sb_partial st else sb_next (sb_heap st q))" "sb_partial st' = p" "sb_full st' = sb_next (sb_heap st p)" for q
      using fl True by (auto simp: st'_def st1_def)
    have pn: "p \<notin> set ps" "p \<notin> set fs0" using sl(3) fs0 by auto
    have "slist (sb_heap st') (sb_partial st) ps" "slist (sb_heap st') (sb_next (sb_heap st p)) fs0"
      using sl(1,2) fs0 pn nx(1) slist_cong [of ps "sb_heap st'" "sb_heap st"] slist_cong [of fs0 "sb_heap st'" "sb_heap st"] by auto
    then have "slab_ok st' (p # ps) fs0" unfolding slab_ok_def nx(2,3)
      using sl(3,5,6) sat bms bm(3) pn fs0 nx(1) p(2) by auto
    moreover have "set ((p # ps) @ fs0) = ?S" using fs0 by auto
    ultimately show ?thesis using ev alloc by (intro exI [of _ st'] exI [of _ "p # ps"] exI [of _ fs0]) simp
  qed
qed

theorem slab_free_correct_witness:
  "\<exists>st'. slab_free 0x10040 (demo_slabs\<lparr>sb_partial := 0x10000\<rparr>) = Some st' \<and> allocated st' {0x10000} = {}"
proof -
  let ?st = "demo_slabs\<lparr>sb_partial := 0x10000\<rparr>"
  have b: "bmp_bit [3, 0, 0, 0 :: u64] k \<longleftrightarrow> k < 2" for k
  proof -
    have "bmp_bit [3, 0, 0, 0 :: u64] k \<longleftrightarrow> k div 64 = 0 \<and> bit (3 :: u64) (k mod 64)"
      by (auto simp: bmp_bit_def nth_Cons' split: if_splits)
    moreover have "bit (3 :: u64) n \<longleftrightarrow> n < 2" for n
    proof -
      have "(3 :: u64) = mask 2" by (simp add: mask_eq_exp_minus_1)
      then have "bit (3 :: u64) n \<longleftrightarrow> bit (mask 2 :: u64) n" by (rule arg_cong)
      also have "\<dots> \<longleftrightarrow> n < 2" by (auto simp: bit_mask_iff simp del: mask_numeral)
      finally show ?thesis .
    qed
    moreover have "k div 64 = 0 \<and> k mod 64 < 2 \<longleftrightarrow> k < 2" by presburger
    ultimately show ?thesis by blast
  qed
  have "slab_ok ?st [0x10000] []" by (simp add: slab_ok_def demo_slabs_def slab_at_def b slab_is_full_def)
  moreover have "allocated ?st {0x10000} = {unat (0x10040 :: ptr)}" by (auto simp: allocated_def demo_slabs_def b block_addr_def)
  moreover have "unat (0x10040 :: ptr) = block_addr 0x10000 1" by (simp add: block_addr_def)
  ultimately show ?thesis using slab_free_correct [of ?st "[0x10000]" "[]" "0x10000" "0x10040" 1] by auto
qed

text \<open>Freeing a block of a full slab that is not at the head of the full list breaks the allocator:
  the slab before it, which is full, is put at the head of the partial list, so the next
  allocation fails although a block has just been freed.\<close>

theorem slab_free_breaks_lists:
  assumes ok: "slab_ok st ps (pre @ q # p # post)" and b: "unat b = block_addr p i" "0 < i" "i < 256" "p \<noteq> NULL"
  shows "\<exists>st'. slab_free b st = Some st' \<and> \<not> bmp_bit (sb_bitmap (sb_heap st' p)) i
    \<and> sb_partial st' = q \<and> slab_is_full (sb_bitmap (sb_heap st' q)) \<and> slab_alloc_block new st' = (st', NULL)"
proof -
  have sl: "slist (sb_heap st) (sb_full st) (pre @ q # p # post)" "distinct (pre @ q # p # post)" "slab_at (sb_heap st) p"
    "slab_is_full (sb_bitmap (sb_heap st p))" "slab_is_full (sb_bitmap (sb_heap st q))"
    using ok by (auto simp: slab_ok_def)
  note cl = clear_block [OF sl(3) b(2,3,1)]
  have qp: "q \<noteq> p" "q \<noteq> NULL" "sb_full st \<noteq> p" using sl(1,2) slist_not_NULL [OF sl(1)] by (cases pre; auto)+
  define n where "n = (b - p) div SLAB_BLOCK_SIZE"
  have bn: "b \<noteq> NULL" "n \<noteq> 0" using b cl(2) by (auto simp: block_addr_def n_def u64_eq_iff)
  define st1 where "st1 = (set_slab q (\<lambda>s. s\<lparr>sb_next := sb_partial st\<rparr>) (set_slab q (\<lambda>s. s\<lparr>sb_next := sb_next (sb_heap st q)\<rparr>) st))\<lparr>sb_partial := q\<rparr>"
  define st' where "st' = set_slab p (\<lambda>s. s\<lparr>sb_bitmap := bitmap_clear (sb_bitmap s) n\<rparr>) st1"
  have "slab_unfull p st = Some st1"
    using find_prev_ok [OF sl(1,2)] qp by (simp add: slab_unfull_def Let_def st1_def)
  then have ev: "slab_free b st = Some st'"
    using bn cl(1) b(4) sl(4) by (simp add: slab_free_def Let_def st'_def flip: n_def)
  have full: "sb_partial st' = q" "slab_is_full (sb_bitmap (sb_heap st' q))" using qp sl(5) by (simp_all add: st'_def st1_def)
  then have "slab_alloc_block new st' = (st', NULL)"
    using qp(2) find_free_block_None [of "sb_bitmap (sb_heap st' q)"] by (simp add: slab_alloc_block_def Let_def)
  moreover have "\<not> bmp_bit (sb_bitmap (sb_heap st' p)) i" using cl(3) [of i] qp(1) by (simp add: st'_def st1_def n_def)
  ultimately show ?thesis using ev full by blast
qed

theorem slab_free_breaks_lists_witness:
  "\<exists>st st'. slab_free 0x20040 st = Some st' \<and> \<not> bmp_bit (sb_bitmap (sb_heap st' 0x20000)) 1
     \<and> slab_alloc_block 0x30000 st' = (st', NULL)"
proof -
  let ?st = "\<lparr>sb_heap = (\<lambda>p. \<lparr>sb_next = (if p = 0x10000 then 0x20000 else NULL), sb_bitmap = replicate 4 all_ones\<rparr>),
    sb_partial = NULL, sb_full = 0x10000\<rparr>"
  have f: "slab_is_full (replicate 4 all_ones)" by (simp add: slab_is_full_def)
  moreover have "bmp_bit (replicate 4 all_ones) 0" using full_iff [of "replicate 4 all_ones"] f by simp
  ultimately have "slab_ok ?st [] ([] @ 0x10000 # 0x20000 # [])" by (simp add: slab_ok_def slab_at_def del: replicate.simps)
  moreover have "unat (0x20040 :: ptr) = block_addr 0x20000 1" by (simp add: block_addr_def)
  ultimately have "\<exists>st'. slab_free 0x20040 ?st = Some st' \<and> \<not> bmp_bit (sb_bitmap (sb_heap st' 0x20000)) 1
     \<and> slab_alloc_block 0x30000 st' = (st', NULL)"
    using slab_free_breaks_lists [of ?st "[]" "[]" "0x10000" "0x20000" "[]" "0x20040" 1 "0x30000"] by auto
  then show ?thesis by (rule exI [of _ ?st])
qed

end
