(* ===== verification/Cap_Map.thy ===== *)
theory Cap_Map
  imports Anos_Prelude
begin

text \<open>
  The capability map, \<^verbatim>\<open>kernel/capabilities/map.c\<close>, and the generator of capability cookies,
  \<^verbatim>\<open>kernel/arch/x86_64/capabilities/cookies.c\<close>. The map is open addressing with linear probing from a
  mixed hash, masked by a power-of-two capacity, with lazy deletion: a deleted entry stays occupied and
  is marked with a tombstone. The capacity is the length of the entry array,
  and the empty array stands for the null pointer of a zeroed map. Every operation holds
  the map's lock and is one step; a probe loop that never meets an unoccupied slot gives \<open>None\<close>. Allocation
  outcomes are arguments. The load test compares doubles that are exact at these sizes.
\<close>

section \<open>Data\<close>

record CapabilityMapEntry =
  ce_key :: u64
  ce_value :: ptr
  ce_occupied :: bool
  ce_tombstone :: bool

record CapabilityMap =
  cm_entries :: "CapabilityMapEntry list"
  cm_size :: nat
  cm_block_count :: nat

definition INITIAL_CAPACITY :: nat where
  "INITIAL_CAPACITY = 64"

definition zero_entry :: CapabilityMapEntry where
  "zero_entry = \<lparr>ce_key = 0, ce_value = NULL, ce_occupied = False, ce_tombstone = False\<rparr>"

section \<open>Operations\<close>

definition hash_u64 :: "u64 \<Rightarrow> u64" where
  "hash_u64 x =
     (let x = x XOR drop_bit 33 x;
          x = x * 0xff51afd7ed558ccd;
          x = x XOR drop_bit 33 x;
          x = x * 0xc4ceb9fe1a85ec53
      in x XOR drop_bit 33 x)"

text \<open>The first index of a key, and the index after one.\<close>

definition home_index :: "nat \<Rightarrow> u64 \<Rightarrow> nat" where
  "home_index capacity key = unat (hash_u64 key AND (of_nat capacity - 1))"

definition next_index :: "nat \<Rightarrow> nat \<Rightarrow> nat" where
  "next_index capacity i = unat ((of_nat i + 1) AND (of_nat capacity - 1 :: u64))"

definition matches :: "u64 \<Rightarrow> CapabilityMapEntry \<Rightarrow> bool" where
  "matches key e \<longleftrightarrow> \<not> ce_tombstone e \<and> ce_key e = key"

text \<open>The loop of \<^verbatim>\<open>resize\<close> that looks for an unoccupied slot.\<close>

partial_function (option) free_slot :: "CapabilityMapEntry list \<Rightarrow> nat \<Rightarrow> nat option" where
  "free_slot es j = (if ce_occupied (es ! j) then free_slot es (next_index (length es) j) else Some j)"

fun reinsert_all :: "CapabilityMapEntry list \<Rightarrow> CapabilityMapEntry list \<Rightarrow> CapabilityMapEntry list option" where
  "reinsert_all [] new_entries = Some new_entries"
| "reinsert_all (old_entry # rest) new_entries =
     (if ce_occupied old_entry \<and> \<not> ce_tombstone old_entry
      then case free_slot new_entries (home_index (length new_entries) (ce_key old_entry)) of
             None \<Rightarrow> None
           | Some j \<Rightarrow> reinsert_all rest (new_entries[j := old_entry])
      else reinsert_all rest new_entries)"

text \<open>\<^verbatim>\<open>resize\<close>: \<open>None\<close> when a loop does not end, otherwise the map and the result.\<close>

definition cap_resize :: "bool \<Rightarrow> nat \<Rightarrow> CapabilityMap \<Rightarrow> (CapabilityMap \<times> bool) option" where
  "cap_resize alloc_ok new_capacity m =
     (let blocks = (new_capacity * 24 + 4095) div 4096
      in if \<not> alloc_ok then Some (m, False)
         else map_option (\<lambda>es. (m\<lparr>cm_entries := es, cm_block_count := blocks\<rparr>, True))
                (reinsert_all (cm_entries m) (replicate new_capacity zero_entry)))"

text \<open>Initialisation: whether the caller passed a map, and the outcomes of the two allocations.\<close>

definition zero_map :: CapabilityMap where
  "zero_map = \<lparr>cm_entries = [], cm_size = 0, cm_block_count = 0\<rparr>"

definition capability_map_init :: "bool \<Rightarrow> bool \<Rightarrow> bool \<Rightarrow> CapabilityMap \<Rightarrow> CapabilityMap \<times> bool" where
  "capability_map_init map_given lock_ok alloc_ok m =
     (if \<not> map_given then (m, False)
      else if \<not> lock_ok then (zero_map, False)
      else if \<not> alloc_ok then (zero_map, False)
      else (zero_map\<lparr>cm_entries := replicate INITIAL_CAPACITY zero_entry,
                     cm_block_count := (INITIAL_CAPACITY * 24 + 4095) div 4096, cm_size := 0\<rparr>, True))"

text \<open>The probe loop of insertion: the index and whether the key was found there; otherwise the index is
  that of the first tombstone passed, or of the unoccupied slot.\<close>

partial_function (option) insert_probe ::
  "CapabilityMapEntry list \<Rightarrow> u64 \<Rightarrow> nat option \<Rightarrow> nat \<Rightarrow> (nat \<times> bool) option" where
  "insert_probe es key first_tombstone i =
     (if ce_occupied (es ! i) then
        (if matches key (es ! i) then Some (i, True)
         else insert_probe es key
                (if ce_tombstone (es ! i) \<and> first_tombstone = None then Some i else first_tombstone)
                (next_index (length es) i))
      else Some (case first_tombstone of Some t \<Rightarrow> t | None \<Rightarrow> i, False))"

definition capability_map_insert :: "bool \<Rightarrow> u64 \<Rightarrow> ptr \<Rightarrow> CapabilityMap \<Rightarrow> (CapabilityMap \<times> bool) option" where
  "capability_map_insert alloc_ok key v m =
     (case (if 4 * (cm_size m + 1) > 3 * length (cm_entries m) then cap_resize alloc_ok (length (cm_entries m) * 2) m else Some (m, True)) of
        None \<Rightarrow> None
      | Some (m, ok) \<Rightarrow>
          if \<not> ok then Some (m, False)
          else map_option (\<lambda>(i, found).
                 if found then (m\<lparr>cm_entries := (cm_entries m)[i := (cm_entries m ! i)\<lparr>ce_value := v\<rparr>]\<rparr>, True)
                 else (m\<lparr>cm_entries := (cm_entries m)[i := \<lparr>ce_key = key, ce_value = v, ce_occupied = True, ce_tombstone = False\<rparr>],
                         cm_size := cm_size m + 1\<rparr>, True))
                 (insert_probe (cm_entries m) key None (home_index (length (cm_entries m)) key)))"

text \<open>The probe loop of lookup and deletion: the index of the key, or \<open>None\<close> inside when it is absent.\<close>

partial_function (option) find_probe :: "CapabilityMapEntry list \<Rightarrow> u64 \<Rightarrow> nat \<Rightarrow> nat option option" where
  "find_probe es key i =
     (if ce_occupied (es ! i) then
        (if matches key (es ! i) then Some (Some i) else find_probe es key (next_index (length es) i))
      else Some None)"

definition capability_map_lookup :: "u64 \<Rightarrow> CapabilityMap \<Rightarrow> ptr option" where
  "capability_map_lookup key m =
     (if cm_entries m = [] then Some NULL else
      map_option (\<lambda>r. case r of None \<Rightarrow> NULL | Some i \<Rightarrow> ce_value (cm_entries m ! i))
        (find_probe (cm_entries m) key (home_index (length (cm_entries m)) key)))"

definition capability_map_delete :: "u64 \<Rightarrow> CapabilityMap \<Rightarrow> (CapabilityMap \<times> bool) option" where
  "capability_map_delete key m =
     (if cm_entries m = [] then Some (m, False) else
      map_option (\<lambda>r. case r of
         None \<Rightarrow> (m, False)
       | Some i \<Rightarrow> (m\<lparr>cm_entries := (cm_entries m)[i := (cm_entries m ! i)\<lparr>ce_tombstone := True, ce_value := NULL\<rparr>],
                       cm_size := cm_size m - 1\<rparr>, True))
        (find_probe (cm_entries m) key (home_index (length (cm_entries m)) key)))"

definition capability_map_cleanup :: "bool \<Rightarrow> CapabilityMap \<Rightarrow> (CapabilityMap \<times> bool) option" where
  "capability_map_cleanup alloc_ok m = cap_resize alloc_ok (length (cm_entries m)) m"

text \<open>The generator of cookies: what the random instructions deliver (\<open>None\<close> when they fail), the CPU's id
  and the time stamp are arguments; the fallback counter is the state.\<close>

definition capability_cookie_generate :: "u64 option \<Rightarrow> u64 option \<Rightarrow> u64 \<Rightarrow> u64 \<Rightarrow> u64 \<Rightarrow> u64 \<times> u64" where
  "capability_cookie_generate rdseed rdrand cpu_id tsc fallback_counter =
     (let (fallback_counter, entropy) =
            (case rdseed of
               Some e \<Rightarrow> (fallback_counter, e)
             | None \<Rightarrow> (case rdrand of
                          Some e \<Rightarrow> (fallback_counter, e)
                        | None \<Rightarrow> (fallback_counter + 1, fallback_counter + 1)));
          entropy = entropy XOR (push_bit 1 tsc XOR cpu_id * 0x9e3779b97f4a7c15);
          entropy = entropy XOR drop_bit 33 entropy;
          entropy = entropy * 0xff51afd7ed558ccd;
          entropy = entropy XOR drop_bit 33 entropy;
          entropy = entropy * 0xc4ceb9fe1a85ec53
      in (fallback_counter, entropy XOR drop_bit 33 entropy))"

section \<open>Invariant and abstraction\<close>

definition live :: "CapabilityMapEntry \<Rightarrow> bool" where
  "live e \<longleftrightarrow> ce_occupied e \<and> \<not> ce_tombstone e"

text \<open>Slot \<open>d\<close> steps after an index.\<close>

definition slot_at :: "nat \<Rightarrow> nat \<Rightarrow> nat \<Rightarrow> nat" where
  "slot_at capacity i d = (i + d) mod capacity"

definition entries_ok :: "CapabilityMapEntry list \<Rightarrow> bool" where
  "entries_ok es \<longleftrightarrow> (\<exists>k. length es = 2 ^ k \<and> 0 < k \<and> k < 60)
     \<and> (\<forall>p < length es. ce_tombstone (es ! p) \<longrightarrow> ce_occupied (es ! p))
     \<and> (\<forall>p < length es. \<forall>q < length es. live (es ! p) \<and> live (es ! q) \<and> ce_key (es ! p) = ce_key (es ! q) \<longrightarrow> p = q)
     \<and> (\<forall>p < length es. live (es ! p) \<longrightarrow> (\<exists>d < length es. p = slot_at (length es) (home_index (length es) (ce_key (es ! p))) d
          \<and> (\<forall>t < d. ce_occupied (es ! slot_at (length es) (home_index (length es) (ce_key (es ! p))) t))))"

definition has_free :: "CapabilityMapEntry list \<Rightarrow> bool" where
  "has_free es \<longleftrightarrow> (\<exists>p < length es. \<not> ce_occupied (es ! p))"

definition cap_ok :: "CapabilityMap \<Rightarrow> bool" where
  "cap_ok m \<longleftrightarrow> entries_ok (cm_entries m) \<and> cm_size m = length (filter live (cm_entries m)) \<and> 4 * cm_size m \<le> 3 * length (cm_entries m)"

text \<open>The capabilities a map grants.\<close>

definition caps :: "CapabilityMapEntry list \<Rightarrow> u64 \<Rightarrow> ptr option" where
  "caps es key = map_option ce_value (find (\<lambda>e. live e \<and> ce_key e = key) es)"

section \<open>Library\<close>

lemma mask_index:
  fixes x :: u64
  assumes "k < 64"
  shows "unat (x AND (of_nat (2 ^ k) - 1)) = unat x mod 2 ^ k"
proof -
  have "(of_nat (2 ^ k) - 1 :: u64) = mask k" by (simp add: mask_eq_exp_minus_1)
  then have "x AND (of_nat (2 ^ k) - 1) = take_bit k x" by (simp add: take_bit_eq_mask)
  moreover have "unat (take_bit k x) = unat x mod 2 ^ k" by (simp only: unsigned_take_bit_eq) (simp add: take_bit_eq_mod)
  ultimately show ?thesis by simp
qed

lemma home_mod: "N = 2 ^ k \<Longrightarrow> k < 60 \<Longrightarrow> home_index N key = unat (hash_u64 key) mod N"
  unfolding home_index_def using mask_index [of k] by simp

lemma cap_home_less: "N = 2 ^ k \<Longrightarrow> k < 60 \<Longrightarrow> home_index N key < N"
  by (simp add: home_mod)

lemma next_mod:
  assumes "N = 2 ^ k" "k < 60" "i < N"
  shows "next_index N i = (i + 1) mod N"
proof -
  have "N < 2 ^ 60" using power_strict_increasing [OF assms(2), of "2 :: nat"] assms(1) by simp
  then have "unat (of_nat i + 1 :: u64) = i + 1"
    using assms(3) by (subst unat_add_u64) (auto simp: unsigned_of_nat take_bit_nat_eq_self)
  then show ?thesis unfolding next_index_def using mask_index [of k "of_nat i + 1"] assms by simp
qed

lemma cap_slot_less: "0 < N \<Longrightarrow> slot_at N i d < N"
  by (simp add: slot_at_def)

lemma next_slot:
  assumes "N = 2 ^ k" "k < 60"
  shows "next_index N (slot_at N i d) = slot_at N i (Suc d)"
  using assms next_mod [OF assms cap_slot_less, of i d] by (simp add: slot_at_def mod_Suc_eq)

lemma slot_0: "i < N \<Longrightarrow> slot_at N i 0 = i"
  by (simp add: slot_at_def)

lemma cap_slot_inj: "d < N \<Longrightarrow> e < N \<Longrightarrow> slot_at N i d = slot_at N i e \<longleftrightarrow> d = e"
  unfolding slot_at_def by (rule nat_mod_shift_inj)

lemma cap_slot_surj:
  assumes "p < N" "i < N"
  obtains d where "d < N" "p = slot_at N i d"
proof (cases "i \<le> p")
  case True
  then show ?thesis using assms by (intro that [of "p - i"]) (auto simp: slot_at_def)
next
  case False
  then have "(i + (N - i + p)) mod N = p" using assms by simp
  then show ?thesis using assms False by (intro that [of "N - i + p"]) (auto simp: slot_at_def)
qed

text \<open>The first unoccupied slot from an index.\<close>

lemma first_free:
  assumes "has_free es" "i < length es"
  obtains d where "d < length es" "\<not> ce_occupied (es ! slot_at (length es) i d)"
    "\<forall>t < d. ce_occupied (es ! slot_at (length es) i t)"
proof -
  let ?P = "\<lambda>d. \<not> ce_occupied (es ! slot_at (length es) i d)"
  obtain p where p: "p < length es" "\<not> ce_occupied (es ! p)" using assms(1) by (auto simp: has_free_def)
  obtain d where d: "d < length es" "p = slot_at (length es) i d" by (rule cap_slot_surj [OF p(1) assms(2)])
  then have pd: "?P d" using p(2) by simp
  have le: "(LEAST d. ?P d) \<le> d" by (rule Least_le) (rule pd)
  show ?thesis
  proof (rule that)
    show "(LEAST d. ?P d) < length es" using le d(1) by simp
    show "?P (LEAST d. ?P d)" by (rule LeastI [of ?P, OF pd])
    show "\<forall>t < (LEAST d. ?P d). ce_occupied (es ! slot_at (length es) i t)" by (auto dest: not_less_Least)
  qed
qed

text \<open>Walking the loops over occupied slots that do not match.\<close>

lemma find_probe_skip:
  assumes N: "length es = 2 ^ k" "k < 60" and skip: "\<forall>t < d. ce_occupied (es ! slot_at (length es) i t) \<and> \<not> matches key (es ! slot_at (length es) i t)"
    and i: "i < length es"
  shows "find_probe es key i = find_probe es key (slot_at (length es) i d)"
  using skip
proof (induction d)
  case 0
  then show ?case using i by (simp add: slot_0)
next
  case (Suc d)
  then have "find_probe es key i = find_probe es key (slot_at (length es) i d)" by simp
  also have "\<dots> = find_probe es key (slot_at (length es) i (Suc d))"
    using Suc.prems next_slot [OF N] by (subst find_probe.simps) simp
  finally show ?case .
qed

lemma free_slot_skip:
  assumes N: "length es = 2 ^ k" "k < 60" and skip: "\<forall>t < d. ce_occupied (es ! slot_at (length es) i t)" and i: "i < length es"
  shows "free_slot es i = free_slot es (slot_at (length es) i d)"
  using skip
proof (induction d)
  case 0
  then show ?case using i by (simp add: slot_0)
next
  case (Suc d)
  then have "free_slot es i = free_slot es (slot_at (length es) i d)" by simp
  also have "\<dots> = free_slot es (slot_at (length es) i (Suc d))"
    using Suc.prems next_slot [OF N] by (subst free_slot.simps) simp
  finally show ?case .
qed

text \<open>The first tombstone among the slots walked.\<close>

definition first_tomb :: "CapabilityMapEntry list \<Rightarrow> nat \<Rightarrow> nat \<Rightarrow> nat option" where
  "first_tomb es i d = map_option (slot_at (length es) i) (find (\<lambda>t. ce_tombstone (es ! slot_at (length es) i t)) [0..<d])"

lemma find_append: "find P (xs @ ys) = (case find P xs of Some x \<Rightarrow> Some x | None \<Rightarrow> find P ys)"
  by (induction xs) auto

lemma first_tomb_Suc:
  "first_tomb es i (Suc d) = (if ce_tombstone (es ! slot_at (length es) i d) \<and> first_tomb es i d = None
     then Some (slot_at (length es) i d) else first_tomb es i d)"
  by (auto simp: first_tomb_def find_append split: option.splits)

lemma insert_probe_skip:
  assumes N: "length es = 2 ^ k" "k < 60" and skip: "\<forall>t < d. ce_occupied (es ! slot_at (length es) i t) \<and> \<not> matches key (es ! slot_at (length es) i t)"
    and i: "i < length es"
  shows "insert_probe es key None i = insert_probe es key (first_tomb es i d) (slot_at (length es) i d)"
  using skip
proof (induction d)
  case 0
  then show ?case using i by (simp add: slot_0 first_tomb_def)
next
  case (Suc d)
  then have "insert_probe es key None i = insert_probe es key (first_tomb es i d) (slot_at (length es) i d)" by simp
  also have "\<dots> = insert_probe es key (first_tomb es i (Suc d)) (slot_at (length es) i (Suc d))"
    using Suc.prems next_slot [OF N] by (subst insert_probe.simps) (simp add: first_tomb_Suc)
  finally show ?case .
qed

lemma entries_okD:
  assumes "entries_ok es"
  obtains k where "length es = 2 ^ k" "k < 60" "0 < length es"
  using assms by (auto simp: entries_ok_def)

lemma entries_ok_distinct:
  "entries_ok es \<Longrightarrow> p < length es \<Longrightarrow> q < length es \<Longrightarrow> live (es ! p) \<Longrightarrow> live (es ! q) \<Longrightarrow> ce_key (es ! p) = ce_key (es ! q) \<Longrightarrow> p = q"
  unfolding entries_ok_def by blast

lemma entries_ok_path:
  assumes "entries_ok es" "p < length es" "live (es ! p)"
  obtains d where "d < length es" "p = slot_at (length es) (home_index (length es) (ce_key (es ! p))) d"
    "\<forall>t < d. ce_occupied (es ! slot_at (length es) (home_index (length es) (ce_key (es ! p))) t)"
  using assms unfolding entries_ok_def by blast

lemma caps_None: "caps es key = None \<longleftrightarrow> (\<forall>p < length es. \<not> (live (es ! p) \<and> ce_key (es ! p) = key))"
  by (auto simp: caps_def find_None_iff in_set_conv_nth)

lemma caps_Some:
  assumes "entries_ok es" "p < length es" "live (es ! p)"
  shows "caps es (ce_key (es ! p)) = Some (ce_value (es ! p))"
proof -
  have "caps es (ce_key (es ! p)) \<noteq> None" using assms(2,3) caps_None by blast
  then obtain e where e: "find (\<lambda>e. live e \<and> ce_key e = ce_key (es ! p)) es = Some e" by (auto simp: caps_def)
  then obtain q where q: "q < length es" "live (es ! q)" "ce_key (es ! q) = ce_key (es ! p)" "e = es ! q" by (auto simp: find_Some_iff)
  then have "q = p" using entries_ok_distinct [OF assms(1) q(1) assms(2) q(2) assms(3)] by simp
  then show ?thesis using e q by (simp add: caps_def)
qed

lemma live_matches: "live e \<Longrightarrow> ce_key e = key \<Longrightarrow> ce_occupied e \<and> matches key e"
  by (simp add: live_def matches_def)

lemma occupied_matches: "ce_occupied e \<Longrightarrow> matches key e \<longleftrightarrow> live e \<and> ce_key e = key"
  by (auto simp: live_def matches_def)

text \<open>The walk to a stored key passes only slots of other keys.\<close>

lemma key_path:
  assumes ok: "entries_ok es" and p: "p < length es" "live (es ! p)" "ce_key (es ! p) = key"
  obtains d where "d < length es" "p = slot_at (length es) (home_index (length es) key) d"
    "\<forall>t < d. ce_occupied (es ! slot_at (length es) (home_index (length es) key) t)
      \<and> \<not> matches key (es ! slot_at (length es) (home_index (length es) key) t)"
proof -
  let ?s = "slot_at (length es) (home_index (length es) key)"
  obtain d where d: "d < length es" "p = ?s d" "\<forall>t < d. ce_occupied (es ! ?s t)"
    using entries_ok_path [OF ok p(1,2)] p(3) by blast
  have pos: "0 < length es" using p(1) by linarith
  have "\<not> matches key (es ! ?s t)" if "t < d" for t
  proof
    assume m: "matches key (es ! ?s t)"
    then have "live (es ! ?s t)" "ce_key (es ! ?s t) = key" using d(3) that occupied_matches by auto
    then have "?s t = p" using entries_ok_distinct [OF ok cap_slot_less [OF pos] p(1)] p by simp
    then show False using d(1,2) that cap_slot_inj [of t "length es" d] by simp
  qed
  then show ?thesis using d by (intro that [of d]) auto
qed

lemma find_probe_ok:
  assumes ok: "entries_ok es"
  shows "caps es key = None \<Longrightarrow> has_free es \<Longrightarrow> find_probe es key (home_index (length es) key) = Some None"
    and "p < length es \<Longrightarrow> live (es ! p) \<Longrightarrow> ce_key (es ! p) = key \<Longrightarrow> find_probe es key (home_index (length es) key) = Some (Some p)"
proof -
  obtain k where k: "length es = 2 ^ k" "k < 60" "0 < length es" by (rule entries_okD [OF ok])
  let ?i = "home_index (length es) key"
  have i: "?i < length es" by (rule cap_home_less [OF k(1,2)])
  show "find_probe es key ?i = Some None" if none: "caps es key = None" and free: "has_free es"
  proof -
    obtain d where d: "d < length es" "\<not> ce_occupied (es ! slot_at (length es) ?i d)" "\<forall>t < d. ce_occupied (es ! slot_at (length es) ?i t)"
      by (rule first_free [OF free i])
    have "\<not> matches key (es ! slot_at (length es) ?i t)" if "t < d" for t
    proof -
      have "ce_occupied (es ! slot_at (length es) ?i t)" using d(3) that by blast
      then show ?thesis using none cap_slot_less [OF k(3), of ?i t] by (auto simp: caps_None occupied_matches)
    qed
    then have "find_probe es key ?i = find_probe es key (slot_at (length es) ?i d)"
      using d(3) by (intro find_probe_skip [OF k(1,2) _ i]) auto
    then show ?thesis using d(2) by (simp add: find_probe.simps [of es key "slot_at (length es) ?i d"])
  qed
  show "find_probe es key ?i = Some (Some p)" if p: "p < length es" "live (es ! p)" "ce_key (es ! p) = key"
  proof -
    obtain d where d: "d < length es" "p = slot_at (length es) ?i d"
      "\<forall>t < d. ce_occupied (es ! slot_at (length es) ?i t) \<and> \<not> matches key (es ! slot_at (length es) ?i t)"
      by (rule key_path [OF ok p])
    have "find_probe es key ?i = find_probe es key p" unfolding d(2) by (rule find_probe_skip [OF k(1,2) d(3) i])
    then show ?thesis using live_matches [OF p(2,3)] by (simp add: find_probe.simps [of es key p])
  qed
qed

definition spinning :: "CapabilityMapEntry list \<Rightarrow> u64 \<Rightarrow> nat \<Rightarrow> bool" where
  "spinning es key i \<longleftrightarrow> (\<forall>p < length es. ce_occupied (es ! p)) \<and> caps es key = None \<and> (\<exists>k. length es = 2 ^ k \<and> k < 60) \<and> i < length es"

lemma spinning_step:
  assumes "spinning es key i"
  shows "ce_occupied (es ! i)" "\<not> matches key (es ! i)" "spinning es key (next_index (length es) i)"
proof -
  obtain k where k: "length es = 2 ^ k" "k < 60" "i < length es" "\<forall>p < length es. ce_occupied (es ! p)" "caps es key = None"
    using assms by (auto simp: spinning_def)
  show oc: "ce_occupied (es ! i)" using k by blast
  show "\<not> matches key (es ! i)" using k(3,5) oc by (auto simp: caps_None occupied_matches)
  have "(i + 1) mod length es < length es" using k(3) by (intro mod_less_divisor) linarith
  then show "spinning es key (next_index (length es) i)" using assms next_mod [OF k(1,2,3)] by (simp add: spinning_def)
qed

lemma find_probe_spins:
  assumes "find_probe es key i = Some r"
  shows "\<not> spinning es key i"
proof (rule find_probe.raw_induct [where P = "\<lambda>es key i r. \<not> spinning es key i", OF _ assms])
  fix probe :: "CapabilityMapEntry list \<Rightarrow> u64 \<Rightarrow> nat \<Rightarrow> nat option option" and es key i r
  assume IH: "\<And>es key i r. probe es key i = Some r \<Longrightarrow> \<not> spinning es key i"
    and body: "(if ce_occupied (es ! i) then (if matches key (es ! i) then Some (Some i) else probe es key (next_index (length es) i)) else Some None) = Some r"
  show "\<not> spinning es key i"
  proof
    assume s: "spinning es key i"
    then have "probe es key (next_index (length es) i) = Some r" using body spinning_step(1,2) [OF s] by simp
    then show False using IH spinning_step(3) [OF s] by blast
  qed
qed

text \<open>Storing a new key at a slot its probe sequence reaches.\<close>

lemma live_count_update:
  assumes "q < length es" "\<not> live (es ! q)" "live e"
  shows "length (filter live (es[q := e])) = Suc (length (filter live es))"
  using assms
proof (induction es arbitrary: q)
  case (Cons x es)
  then show ?case by (cases q) auto
qed simp

lemma live_count_drop:
  assumes "q < length es" "live (es ! q)" "\<not> live e"
  shows "Suc (length (filter live (es[q := e]))) = length (filter live es)"
  using assms
proof (induction es arbitrary: q)
  case (Cons x es)
  then show ?case by (cases q) auto
qed simp

lemma place_entry_ok:
  assumes ok: "entries_ok es" and none: "caps es key = None" and e: "ce_key e = key" "live e"
    and d: "d < length es" "\<forall>t < d. ce_occupied (es ! slot_at (length es) (home_index (length es) key) t)"
    and q: "q = slot_at (length es) (home_index (length es) key) d" "\<not> live (es ! q)"
  shows "entries_ok (es[q := e]) \<and> caps (es[q := e]) = (caps es)(key \<mapsto> ce_value e)
    \<and> length (filter live (es[q := e])) = Suc (length (filter live es))"
proof -
  obtain k where k: "length es = 2 ^ k" "k < 60" "0 < length es" by (rule entries_okD [OF ok])
  let ?es = "es[q := e]"
  have ql: "q < length es" unfolding q(1) by (rule cap_slot_less [OF k(3)])
  have nk: "\<not> (live (es ! p) \<and> ce_key (es ! p) = key)" if "p < length es" for p using none that caps_None by blast
  have oc: "ce_occupied (es ! p) \<longrightarrow> ce_occupied (?es ! p)" for p using e ql by (cases "p = q") (auto simp: live_def)
  have path: "\<exists>d < length es. p = slot_at (length es) (home_index (length es) (ce_key (?es ! p))) d
      \<and> (\<forall>t < d. ce_occupied (?es ! slot_at (length es) (home_index (length es) (ce_key (?es ! p))) t))"
    if p: "p < length es" "live (?es ! p)" for p
  proof (cases "p = q")
    case True
    then show ?thesis using d q(1) e ql oc by (intro exI [of _ d]) auto
  next
    case False
    then have "live (es ! p)" using p by simp
    then show ?thesis using entries_ok_path [OF ok p(1)] False oc by (metis nth_list_update_neq)
  qed
  have dis: "p1 = p2" if "p1 < length es" "p2 < length es" "live (?es ! p1)" "live (?es ! p2)" "ce_key (?es ! p1) = ce_key (?es ! p2)" for p1 p2
    using that nk [of p1] nk [of p2] entries_ok_distinct [OF ok that(1,2)] e(1) ql by (cases "p1 = q"; cases "p2 = q") auto
  have tomb: "ce_tombstone (?es ! p) \<longrightarrow> ce_occupied (?es ! p)" if "p < length es" for p
    using ok that e(2) ql by (cases "p = q") (auto simp: entries_ok_def live_def)
  have ok': "entries_ok ?es" unfolding entries_ok_def length_list_update using ok path dis tomb
    by (simp add: entries_ok_def)
  have "caps ?es x = ((caps es)(key \<mapsto> ce_value e)) x" for x
  proof (cases "x = key")
    case True
    then show ?thesis using caps_Some [OF ok', of q] ql e by simp
  next
    case False
    show ?thesis
    proof (cases "caps es x")
      case None
      then have "caps ?es x = None" using False e(1) ql unfolding caps_None length_list_update by (metis nth_list_update_eq nth_list_update_neq)
      then show ?thesis using None False by simp
    next
      case (Some v)
      then obtain p where p: "p < length es" "live (es ! p)" "ce_key (es ! p) = x" using caps_None [of es x] by auto
      then have "p \<noteq> q" using q(2) by auto
      then show ?thesis using caps_Some [OF ok', of p] caps_Some [OF ok p(1,2)] p False by simp
    qed
  qed
  then show ?thesis using ok' live_count_update [OF ql q(2) e(2)] by auto
qed

text \<open>Where an insertion ends.\<close>

lemma first_tomb_Some:
  assumes "first_tomb es i d = Some q"
  obtains t where "t < d" "q = slot_at (length es) i t" "ce_tombstone (es ! q)"
proof -
  obtain t where "find (\<lambda>t. ce_tombstone (es ! slot_at (length es) i t)) [0..<d] = Some t" "q = slot_at (length es) i t"
    using assms by (auto simp: first_tomb_def)
  then show ?thesis by (intro that [of t]) (auto simp: find_Some_iff)
qed

lemma insert_probe_ok:
  assumes ok: "entries_ok es"
  shows "caps es key = None \<Longrightarrow> has_free es \<Longrightarrow> \<exists>q d. insert_probe es key None (home_index (length es) key) = Some (q, False)
      \<and> q = slot_at (length es) (home_index (length es) key) d \<and> d < length es \<and> \<not> live (es ! q)
      \<and> (\<forall>t < d. ce_occupied (es ! slot_at (length es) (home_index (length es) key) t))"
    and "p < length es \<Longrightarrow> live (es ! p) \<Longrightarrow> ce_key (es ! p) = key \<Longrightarrow> insert_probe es key None (home_index (length es) key) = Some (p, True)"
proof -
  obtain k where k: "length es = 2 ^ k" "k < 60" "0 < length es" by (rule entries_okD [OF ok])
  let ?i = "home_index (length es) key"
  have i: "?i < length es" by (rule cap_home_less [OF k(1,2)])
  show "\<exists>q d. insert_probe es key None ?i = Some (q, False) \<and> q = slot_at (length es) ?i d \<and> d < length es \<and> \<not> live (es ! q)
      \<and> (\<forall>t < d. ce_occupied (es ! slot_at (length es) ?i t))" if none: "caps es key = None" and free: "has_free es"
  proof -
    obtain d where d: "d < length es" "\<not> ce_occupied (es ! slot_at (length es) ?i d)" "\<forall>t < d. ce_occupied (es ! slot_at (length es) ?i t)"
      by (rule first_free [OF free i])
    have "\<not> matches key (es ! slot_at (length es) ?i t)" if "t < d" for t
    proof -
      have "ce_occupied (es ! slot_at (length es) ?i t)" using d(3) that by blast
      then show ?thesis using none cap_slot_less [OF k(3), of ?i t] by (auto simp: caps_None occupied_matches)
    qed
    then have "insert_probe es key None ?i = insert_probe es key (first_tomb es ?i d) (slot_at (length es) ?i d)"
      using d(3) by (intro insert_probe_skip [OF k(1,2) _ i]) auto
    then have ev: "insert_probe es key None ?i = Some (case first_tomb es ?i d of Some t \<Rightarrow> t | None \<Rightarrow> slot_at (length es) ?i d, False)"
      using d(2) by (simp add: insert_probe.simps [of es key _ "slot_at (length es) ?i d"])
    show ?thesis
    proof (cases "first_tomb es ?i d")
      case None
      then show ?thesis using ev d by (intro exI [of _ "slot_at (length es) ?i d"] exI [of _ d]) (simp add: live_def)
    next
      case (Some q)
      then obtain t where t: "t < d" "q = slot_at (length es) ?i t" "ce_tombstone (es ! q)" by (rule first_tomb_Some)
      then show ?thesis using ev Some d by (intro exI [of _ q] exI [of _ t]) (simp add: live_def)
    qed
  qed
  show "insert_probe es key None ?i = Some (p, True)" if p: "p < length es" "live (es ! p)" "ce_key (es ! p) = key"
  proof -
    obtain d where d: "d < length es" "p = slot_at (length es) ?i d"
      "\<forall>t < d. ce_occupied (es ! slot_at (length es) ?i t) \<and> \<not> matches key (es ! slot_at (length es) ?i t)"
      by (rule key_path [OF ok p])
    have "insert_probe es key None ?i = insert_probe es key (first_tomb es ?i d) p" unfolding d(2) by (rule insert_probe_skip [OF k(1,2) d(3) i])
    then show ?thesis using live_matches [OF p(2,3)] by (simp add: insert_probe.simps [of es key _ p])
  qed
qed

text \<open>Rebuilding the table.\<close>

lemma caps_Cons: "caps (e # es) x = (if live e \<and> ce_key e = x then Some (ce_value e) else caps es x)"
  by (simp add: caps_def)

lemma count_has_free:
  assumes "length (filter live es) < length es" "\<forall>p < length es. ce_occupied (es ! p) \<longrightarrow> live (es ! p)"
  shows "has_free es"
proof (rule ccontr)
  assume "\<not> has_free es"
  then have "\<forall>e \<in> set es. live e" using assms(2) by (auto simp: has_free_def in_set_conv_nth)
  then show False using assms(1) by simp
qed

lemma free_slot_ok:
  assumes ok: "entries_ok es" and free: "has_free es"
  shows "\<exists>q d. free_slot es (home_index (length es) key) = Some q \<and> q = slot_at (length es) (home_index (length es) key) d \<and> d < length es
    \<and> \<not> ce_occupied (es ! q) \<and> (\<forall>t < d. ce_occupied (es ! slot_at (length es) (home_index (length es) key) t))"
proof -
  obtain k where k: "length es = 2 ^ k" "k < 60" "0 < length es" by (rule entries_okD [OF ok])
  let ?i = "home_index (length es) key"
  have i: "?i < length es" by (rule cap_home_less [OF k(1,2)])
  obtain d where d: "d < length es" "\<not> ce_occupied (es ! slot_at (length es) ?i d)" "\<forall>t < d. ce_occupied (es ! slot_at (length es) ?i t)"
    by (rule first_free [OF free i])
  have "free_slot es ?i = free_slot es (slot_at (length es) ?i d)" by (rule free_slot_skip [OF k(1,2) d(3) i])
  then show ?thesis using d by (intro exI [of _ "slot_at (length es) ?i d"] exI [of _ d]) (simp add: free_slot.simps [of es "slot_at (length es) ?i d"])
qed

lemma reinsert_all_ok:
  assumes "entries_ok new" "\<forall>p < length new. ce_occupied (new ! p) \<longrightarrow> live (new ! p)" "distinct (map ce_key (filter live old))"
    "\<forall>e \<in> set old. live e \<longrightarrow> caps new (ce_key e) = None" "length (filter live old) + length (filter live new) < length new"
  shows "\<exists>new'. reinsert_all old new = Some new' \<and> entries_ok new' \<and> length new' = length new
    \<and> (\<forall>p < length new'. ce_occupied (new' ! p) \<longrightarrow> live (new' ! p))
    \<and> length (filter live new') = length (filter live old) + length (filter live new)
    \<and> (\<forall>x. caps new' x = (case caps old x of Some v \<Rightarrow> Some v | None \<Rightarrow> caps new x))"
  using assms
proof (induction old arbitrary: new)
  case Nil
  then show ?case by (simp add: caps_def)
next
  case (Cons e old)
  show ?case
  proof (cases "live e")
    case False
    then have "reinsert_all (e # old) new = reinsert_all old new" by (auto simp: live_def)
    then show ?thesis using Cons False by (simp add: caps_Cons)
  next
    case True
    have none: "caps new (ce_key e) = None" using Cons.prems(4) True by simp
    have free: "has_free new" using Cons.prems(2,5) by (intro count_has_free) auto
    obtain q d where q: "free_slot new (home_index (length new) (ce_key e)) = Some q"
      "q = slot_at (length new) (home_index (length new) (ce_key e)) d" "d < length new" "\<not> ce_occupied (new ! q)"
      "\<forall>t < d. ce_occupied (new ! slot_at (length new) (home_index (length new) (ce_key e)) t)"
      using free_slot_ok [OF Cons.prems(1) free, of "ce_key e"] by blast
    have nl: "\<not> live (new ! q)" using q(4) by (simp add: live_def)
    note pl = place_entry_ok [OF Cons.prems(1) none refl True q(3,5,2) nl]
    have ql: "q < length new" unfolding q(2) using Cons.prems(1) by (intro cap_slot_less) (auto elim: entries_okD)
    have occ: "\<forall>p < length (new[q := e]). ce_occupied (new[q := e] ! p) \<longrightarrow> live (new[q := e] ! p)"
    proof (intro allI impI)
      fix p assume "p < length (new[q := e])" "ce_occupied (new[q := e] ! p)"
      then show "live (new[q := e] ! p)" using Cons.prems(2) True ql by (cases "p = q") auto
    qed
    have ks: "distinct (map ce_key (filter live old))" "ce_key e \<notin> ce_key ` set (filter live old)" using Cons.prems(3) True by simp_all
    have "\<forall>f \<in> set old. live f \<longrightarrow> caps (new[q := e]) (ce_key f) = None"
    proof (intro ballI impI)
      fix f assume f: "f \<in> set old" "live f"
      then have "ce_key f \<in> ce_key ` set (filter live old)" by simp
      then have "ce_key f \<noteq> ce_key e" using ks(2) by metis
      moreover have "caps new (ce_key f) = None" using Cons.prems(4) f by simp
      ultimately show "caps (new[q := e]) (ce_key f) = None" using pl by simp
    qed
    moreover have "length (filter live old) + length (filter live (new[q := e])) < length (new[q := e])"
      using pl Cons.prems(5) True by simp
    ultimately obtain new' where n': "reinsert_all old (new[q := e]) = Some new'" "entries_ok new'" "length new' = length (new[q := e])"
      "\<forall>p < length new'. ce_occupied (new' ! p) \<longrightarrow> live (new' ! p)"
      "length (filter live new') = length (filter live old) + length (filter live (new[q := e]))"
      "\<forall>x. caps new' x = (case caps old x of Some v \<Rightarrow> Some v | None \<Rightarrow> caps (new[q := e]) x)"
      using Cons.IH [OF conjunct1 [OF pl] occ ks(1)] by blast
    have co: "caps old (ce_key e) = None" using ks(2) by (simp add: caps_def find_None_iff image_iff) metis
    have ce: "caps (new[q := e]) = (caps new)(ce_key e \<mapsto> ce_value e)" using pl by simp
    have "caps new' x = (case caps (e # old) x of Some v \<Rightarrow> Some v | None \<Rightarrow> caps new x)" for x
      using n'(6) co True by (cases "x = ce_key e") (simp_all add: caps_Cons ce split: option.splits)
    moreover have "reinsert_all (e # old) new = Some new'" using True q(1) n'(1) by (simp add: live_def)
    ultimately show ?thesis using n' pl True by simp
  qed
qed

lemma distinct_filter_map:
  "(\<And>p q. p < length es \<Longrightarrow> q < length es \<Longrightarrow> P (es ! p) \<Longrightarrow> P (es ! q) \<Longrightarrow> f (es ! p) = f (es ! q) \<Longrightarrow> p = q)
    \<Longrightarrow> distinct (map f (filter P es))"
proof (induction es)
  case (Cons e es)
  have IH: "distinct (map f (filter P es))"
  proof (rule Cons.IH)
    fix p q assume "p < length es" "q < length es" "P (es ! p)" "P (es ! q)" "f (es ! p) = f (es ! q)"
    then show "p = q" using Cons.prems [of "Suc p" "Suc q"] by simp
  qed
  have "f e \<noteq> f x" if "x \<in> set es" "P x" "P e" for x
  proof
    assume eq: "f e = f x"
    obtain q where q: "q < length es" "es ! q = x" using \<open>x \<in> set es\<close> by (auto simp: in_set_conv_nth)
    then show False using Cons.prems [of 0 "Suc q"] that eq by simp
  qed
  then show ?case using IH by auto
qed simp

lemma empty_entries_ok:
  assumes "0 < k" "k < 60"
  shows "entries_ok (replicate (2 ^ k) zero_entry)" "caps (replicate (2 ^ k) zero_entry) = Map.empty" "filter live (replicate (2 ^ k) zero_entry) = []"
proof -
  have "caps (replicate (2 ^ k) zero_entry) x = None" for x unfolding caps_None by (simp add: zero_entry_def live_def)
  then show "caps (replicate (2 ^ k) zero_entry) = Map.empty" by auto
  show "entries_ok (replicate (2 ^ k) zero_entry)" using assms unfolding entries_ok_def by (auto simp: zero_entry_def live_def)
  show "filter live (replicate (2 ^ k) zero_entry) = []" by (simp add: zero_entry_def live_def)
qed

lemma cap_resize_ok:
  assumes ok: "cap_ok m" and n: "n = 2 ^ k" "0 < k" "k < 60" "length (cm_entries m) \<le> n"
  shows "\<exists>m'. cap_resize True n m = Some (m', True) \<and> cap_ok m' \<and> caps (cm_entries m') = caps (cm_entries m) \<and> has_free (cm_entries m')
    \<and> length (cm_entries m') = n \<and> cm_size m' = cm_size m"
proof -
  have eo: "entries_ok (cm_entries m)" "cm_size m = length (filter live (cm_entries m))" "4 * cm_size m \<le> 3 * length (cm_entries m)"
    using ok by (auto simp: cap_ok_def)
  let ?new = "replicate n zero_entry"
  note em = empty_entries_ok [OF n(2,3), folded n(1)]
  have "distinct (map ce_key (filter live (cm_entries m)))"
    by (rule distinct_filter_map) (rule entries_ok_distinct [OF eo(1)])
  moreover have pos: "0 < length (cm_entries m)" using eo(1) by (auto elim: entries_okD)
  moreover have "length (filter live (cm_entries m)) < n" using eo(2,3) n(4) pos by linarith
  then have "length (filter live (cm_entries m)) + length (filter live ?new) < length ?new" using em(3) by simp
  moreover have "\<forall>p < length ?new. ce_occupied (?new ! p) \<longrightarrow> live (?new ! p)" by (simp add: zero_entry_def)
  moreover have "\<forall>e \<in> set (cm_entries m). live e \<longrightarrow> caps ?new (ce_key e) = None" unfolding em(2) by simp
  ultimately obtain es where es: "reinsert_all (cm_entries m) ?new = Some es" "entries_ok es" "length es = n"
    "\<forall>p < length es. ce_occupied (es ! p) \<longrightarrow> live (es ! p)" "length (filter live es) = cm_size m"
    "\<forall>x. caps es x = (case caps (cm_entries m) x of Some v \<Rightarrow> Some v | None \<Rightarrow> None)"
    using reinsert_all_ok [OF em(1), of "cm_entries m"] unfolding em(2,3) eo(2) by auto
  have "length (filter live es) < length es" using es(3,5) eo(3) n(4) pos by linarith
  then have "has_free es" using es(4) by (intro count_has_free) auto
  moreover have "caps es = caps (cm_entries m)" using es(6) by (intro ext) (simp split: option.split)
  moreover have "4 * cm_size m \<le> 3 * n" using eo(3) n(4) by linarith
  ultimately show ?thesis using es by (auto simp: cap_resize_def Let_def cap_ok_def)
qed

text \<open>Dropping a key.\<close>

lemma drop_entry_ok:
  assumes ok: "entries_ok es" and p: "p < length es" "live (es ! p)" "ce_key (es ! p) = key"
  defines "es' \<equiv> es[p := (es ! p)\<lparr>ce_tombstone := True, ce_value := NULL\<rparr>]"
  shows "entries_ok es' \<and> caps es' = (caps es)(key := None) \<and> Suc (length (filter live es')) = length (filter live es)
    \<and> (has_free es' = has_free es)"
proof -
  let ?e = "(es ! p)\<lparr>ce_tombstone := True, ce_value := NULL\<rparr>"
  have nl: "\<not> live ?e" by (simp add: live_def)
  have len: "length es' = length es" by (simp add: es'_def)
  have oc: "ce_occupied (es' ! q) = ce_occupied (es ! q)" for q using p(1) by (cases "q = p") (simp_all add: es'_def)
  have same: "es' ! q = es ! q" if "q \<noteq> p" for q using that by (simp add: es'_def)
  have lv: "live (es' ! q) \<longleftrightarrow> live (es ! q) \<and> q \<noteq> p" for q using nl p(1) by (cases "q = p") (simp_all add: es'_def)
  have tomb: "ce_tombstone (es' ! q) \<longrightarrow> ce_occupied (es' ! q)" if "q < length es" for q
    using ok that p oc [of q] same [of q] by (cases "q = p") (auto simp: entries_ok_def live_def)
  have ok': "entries_ok es'" unfolding entries_ok_def len
  proof (intro conjI allI impI)
    show "\<exists>k. length es = 2 ^ k \<and> 0 < k \<and> k < 60" using ok by (simp add: entries_ok_def)
    show "\<And>q. q < length es \<Longrightarrow> ce_tombstone (es' ! q) \<Longrightarrow> ce_occupied (es' ! q)" using tomb by blast
    show "\<And>a b. a < length es \<Longrightarrow> b < length es \<Longrightarrow> live (es' ! a) \<and> live (es' ! b) \<and> ce_key (es' ! a) = ce_key (es' ! b) \<Longrightarrow> a = b"
      using entries_ok_distinct [OF ok] unfolding lv by (metis same)
    show "\<exists>d < length es. q = slot_at (length es) (home_index (length es) (ce_key (es' ! q))) d
      \<and> (\<forall>t < d. ce_occupied (es' ! slot_at (length es) (home_index (length es) (ce_key (es' ! q))) t))"
      if "q < length es" "live (es' ! q)" for q
      using entries_ok_path [OF ok that(1)] that(2) unfolding lv oc by (metis same)
  qed
  have "caps es' x = ((caps es)(key := None)) x" for x
  proof (cases "x = key")
    case True
    then have "caps es' x = None" using entries_ok_distinct [OF ok _ p(1) _ p(2)] p(3) by (auto simp: caps_None len lv same)
    then show ?thesis using True by simp
  next
    case False
    show ?thesis
    proof (cases "caps es x")
      case None
      then have "caps es' x = None" by (auto simp: caps_None len lv same)
      then show ?thesis using None by simp
    next
      case (Some v)
      then obtain q where q: "q < length es" "live (es ! q)" "ce_key (es ! q) = x" using caps_None [of es x] by auto
      then have "q \<noteq> p" using False p(3) by auto
      then have "caps es' x = caps es x" using caps_Some [OF ok q(1,2)] caps_Some [OF ok', of q] q by (simp add: len lv same)
      then show ?thesis using False by simp
    qed
  qed
  moreover have "has_free es' = has_free es" by (simp add: has_free_def len oc)
  ultimately show ?thesis using ok' live_count_drop [OF p(1,2) nl] by (auto simp: es'_def)
qed

text \<open>Overwriting the value of a key.\<close>

lemma live_count_map: "length (filter live es) = length (filter id (map live es))"
  by (induction es) auto

lemma overwrite_entry_ok:
  fixes v :: ptr
  assumes ok: "entries_ok es" and p: "p < length es" "live (es ! p)" "ce_key (es ! p) = key"
  defines "es' \<equiv> es[p := (es ! p)\<lparr>ce_value := v\<rparr>]"
  shows "entries_ok es' \<and> caps es' = (caps es)(key \<mapsto> v) \<and> length (filter live es') = length (filter live es)"
proof -
  have len: "length es' = length es" by (simp add: es'_def)
  have fld: "ce_occupied (es' ! q) = ce_occupied (es ! q)" "ce_tombstone (es' ! q) = ce_tombstone (es ! q)" "ce_key (es' ! q) = ce_key (es ! q)"
    "live (es' ! q) = live (es ! q)" for q using p(1) by (cases "q = p"; simp add: es'_def live_def)+
  have ok': "entries_ok es'" using ok unfolding entries_ok_def len fld .
  have "caps es' x = ((caps es)(key \<mapsto> v)) x" for x
  proof (cases "caps es x")
    case None
    then have "x \<noteq> key" using p by (auto simp: caps_None)
    moreover have "caps es' x = None" using None by (simp add: caps_None len fld)
    ultimately show ?thesis using None by simp
  next
    case (Some w)
    then obtain q where q: "q < length es" "live (es ! q)" "ce_key (es ! q) = x" using caps_None [of es x] by auto
    have "q = p \<longleftrightarrow> x = key" using entries_ok_distinct [OF ok q(1) p(1) q(2) p(2)] q(3) p(3) by auto
    then show ?thesis using caps_Some [OF ok q(1,2)] caps_Some [OF ok', of q] q p(1) by (auto simp: len fld) (auto simp: es'_def)
  qed
  moreover have "map live es' = map live es" by (rule nth_equalityI) (simp_all add: len fld)
  then have "length (filter live es') = length (filter live es)" using live_count_map by metis
  ultimately show ?thesis using ok' by auto
qed

lemma caps_Some_slot:
  assumes "caps es key = Some v"
  obtains p where "p < length es" "live (es ! p)" "ce_key (es ! p) = key"
  using assms caps_None [of es key] by auto

lemma cap_okD:
  assumes "cap_ok m"
  shows "entries_ok (cm_entries m)" "cm_size m = length (filter live (cm_entries m))" "4 * cm_size m \<le> 3 * length (cm_entries m)"
    "cm_entries m \<noteq> []"
  using assms by (auto simp: cap_ok_def elim: entries_okD)

text \<open>Insertion once the table has room for one more key.\<close>

definition store :: "u64 \<Rightarrow> ptr \<Rightarrow> CapabilityMap \<Rightarrow> (CapabilityMap \<times> bool) option" where
  "store key v m = map_option (\<lambda>(i, found).
     if found then (m\<lparr>cm_entries := (cm_entries m)[i := (cm_entries m ! i)\<lparr>ce_value := v\<rparr>]\<rparr>, True)
     else (m\<lparr>cm_entries := (cm_entries m)[i := \<lparr>ce_key = key, ce_value = v, ce_occupied = True, ce_tombstone = False\<rparr>],
             cm_size := cm_size m + 1\<rparr>, True))
     (insert_probe (cm_entries m) key None (home_index (length (cm_entries m)) key))"

lemma store_ok:
  assumes ok: "cap_ok m" and free: "has_free (cm_entries m)" and room: "4 * (cm_size m + 1) \<le> 3 * length (cm_entries m)"
  shows "\<exists>m'. store key v m = Some (m', True) \<and> cap_ok m' \<and> caps (cm_entries m') = (caps (cm_entries m))(key \<mapsto> v)
    \<and> length (cm_entries m') = length (cm_entries m)"
proof (cases "caps (cm_entries m) key")
  case None
  note eo = cap_okD [OF ok]
  let ?e = "\<lparr>ce_key = key, ce_value = v, ce_occupied = True, ce_tombstone = False\<rparr>"
  obtain q d where q: "insert_probe (cm_entries m) key None (home_index (length (cm_entries m)) key) = Some (q, False)"
    "q = slot_at (length (cm_entries m)) (home_index (length (cm_entries m)) key) d" "d < length (cm_entries m)" "\<not> live (cm_entries m ! q)"
    "\<forall>t < d. ce_occupied (cm_entries m ! slot_at (length (cm_entries m)) (home_index (length (cm_entries m)) key) t)"
    using insert_probe_ok(1) [OF eo(1) None free] by blast
  have pl: "entries_ok ((cm_entries m)[q := ?e])" "caps ((cm_entries m)[q := ?e]) = (caps (cm_entries m))(key \<mapsto> v)"
    "length (filter live ((cm_entries m)[q := ?e])) = Suc (length (filter live (cm_entries m)))"
    using place_entry_ok [OF eo(1) None _ _ q(3,5,2,4), of ?e] by (simp_all add: live_def)
  then show ?thesis using q(1) eo(2) room by (simp add: store_def cap_ok_def)
next
  case (Some w)
  note eo = cap_okD [OF ok]
  obtain p where p: "p < length (cm_entries m)" "live (cm_entries m ! p)" "ce_key (cm_entries m ! p) = key" by (rule caps_Some_slot [OF Some])
  then show ?thesis using insert_probe_ok(2) [OF eo(1) p] overwrite_entry_ok [OF eo(1) p, of v] eo(2,3) by (simp add: store_def cap_ok_def)
qed

lemma insert_store:
  "capability_map_insert ok key v m =
     (if 4 * (cm_size m + 1) \<le> 3 * length (cm_entries m) then store key v m
      else case cap_resize ok (length (cm_entries m) * 2) m of
             None \<Rightarrow> None | Some (m', b) \<Rightarrow> if b then store key v m' else Some (m', False))"
  by (simp add: capability_map_insert_def store_def not_less split: option.split)

lemma capability_map_find:
  assumes "cap_ok m" "has_free (cm_entries m) \<or> caps (cm_entries m) key \<noteq> None"
  shows "\<exists>r. find_probe (cm_entries m) key (home_index (length (cm_entries m)) key) = Some r
    \<and> (case r of None \<Rightarrow> caps (cm_entries m) key = None
       | Some p \<Rightarrow> p < length (cm_entries m) \<and> live (cm_entries m ! p) \<and> ce_key (cm_entries m ! p) = key
           \<and> caps (cm_entries m) key = Some (ce_value (cm_entries m ! p)))"
proof (cases "caps (cm_entries m) key")
  case None
  then show ?thesis using assms find_probe_ok(1) [OF cap_okD(1) [OF assms(1)] None] by simp
next
  case (Some w)
  note eo = cap_okD [OF assms(1)]
  obtain p where p: "p < length (cm_entries m)" "live (cm_entries m ! p)" "ce_key (cm_entries m ! p) = key" by (rule caps_Some_slot [OF Some])
  then show ?thesis using find_probe_ok(2) [OF eo(1) p] caps_Some [OF eo(1) p(1,2)] by (intro exI [of _ "Some p"]) simp
qed

lemma insert_probe_spins:
  assumes "insert_probe es key ft i = Some r"
  shows "\<not> spinning es key i"
proof (rule insert_probe.raw_induct [where P = "\<lambda>es key ft i r. \<not> spinning es key i", OF _ assms])
  fix probe :: "CapabilityMapEntry list \<Rightarrow> u64 \<Rightarrow> nat option \<Rightarrow> nat \<Rightarrow> (nat \<times> bool) option" and es key ft i r
  assume IH: "\<And>es key ft i r. probe es key ft i = Some r \<Longrightarrow> \<not> spinning es key i"
    and body: "(if ce_occupied (es ! i) then (if matches key (es ! i) then Some (i, True)
         else probe es key (if ce_tombstone (es ! i) \<and> ft = None then Some i else ft) (next_index (length es) i))
      else Some (case ft of Some t \<Rightarrow> t | None \<Rightarrow> i, False)) = Some r"
  show "\<not> spinning es key i"
  proof
    assume s: "spinning es key i"
    then have "probe es key (if ce_tombstone (es ! i) \<and> ft = None then Some i else ft) (next_index (length es) i) = Some r"
      using body spinning_step(1,2) [OF s] by simp
    then show False using IH spinning_step(3) [OF s] by blast
  qed
qed

text \<open>The mixing function is injective, so zero is the hash of zero only.\<close>

lemma word_xor_eq_0: "(a :: u64) XOR b = 0 \<longleftrightarrow> a = b"
proof
  assume "a XOR b = 0"
  then have "(a XOR b) XOR b = 0 XOR b" by (rule arg_cong)
  then show "a = b" by (simp add: xor.assoc)
qed simp

lemma xor_shift_zero: "(x :: u64) XOR drop_bit 33 x = 0 \<longleftrightarrow> x = 0"
proof
  assume "x XOR drop_bit 33 x = 0"
  then have x: "x = drop_bit 33 x" by (simp only: word_xor_eq_0)
  then have "x = drop_bit 33 (drop_bit 33 x)" by simp
  also have "\<dots> = 0" by (rule bit_word_eqI) (simp add: bit_simps)
  finally show "x = 0" .
qed simp

lemma odd_mult_zero:
  assumes "(c :: u64) * d = 1"
  shows "x * c = 0 \<longleftrightarrow> x = 0"
proof
  assume "x * c = 0"
  then have "x * c * d = 0" by simp
  then show "x = 0" using assms by (simp add: mult.assoc)
qed simp

lemma hash_u64_eq_0: "hash_u64 x = 0 \<longleftrightarrow> x = 0"
proof -
  have c: "(0xff51afd7ed558ccd :: u64) * 0x4f74430c22a54005 = 1" "(0xc4ceb9fe1a85ec53 :: u64) * 0x9cb4b2f8129337db = 1" by simp_all
  show ?thesis unfolding hash_u64_def Let_def by (simp only: xor_shift_zero odd_mult_zero [OF c(1)] odd_mult_zero [OF c(2)])
qed

text \<open>A cookie is zero exactly when the entropy equals the mix of time stamp and CPU.\<close>

lemma capability_cookie_zero:
  "snd (capability_cookie_generate (Some e) rdrand cpu_id tsc n) = 0 \<longleftrightarrow> e = push_bit 1 tsc XOR cpu_id * 0x9e3779b97f4a7c15"
proof -
  have "snd (capability_cookie_generate (Some e) rdrand cpu_id tsc n) = hash_u64 (e XOR (push_bit 1 tsc XOR cpu_id * 0x9e3779b97f4a7c15))"
    by (simp add: capability_cookie_generate_def hash_u64_def Let_def)
  then show ?thesis by (simp only: hash_u64_eq_0 word_xor_eq_0)
qed

section \<open>Properties\<close>

text \<open>Inserting a capability into a well-formed map with an unoccupied slot ends and binds exactly its cookie, over an older
  binding if there is one, also when the load limit makes the table grow; when growing runs out of memory the map is unchanged and the
  result is false.\<close>

theorem capability_map_insert_refines:
  assumes "cap_ok m" "has_free (cm_entries m)" "length (cm_entries m) < 2 ^ 58"
  shows "\<exists>m' b. capability_map_insert ok key v m = Some (m', b) \<and> cap_ok m'
    \<and> (b \<longrightarrow> caps (cm_entries m') = (caps (cm_entries m))(key \<mapsto> v)) \<and> (\<not> b \<longrightarrow> m' = m)
    \<and> (b \<longleftrightarrow> ok \<or> 4 * (cm_size m + 1) \<le> 3 * length (cm_entries m))"
proof (cases "4 * (cm_size m + 1) \<le> 3 * length (cm_entries m)")
  case True
  then show ?thesis using store_ok [OF assms(1,2) True, of key v] by (auto simp: insert_store)
next
  case False
  show ?thesis
  proof (cases ok)
    case True
    note eo = cap_okD [OF assms(1)]
    obtain k where k: "length (cm_entries m) = 2 ^ k" "0 < k" "k < 60" using eo(1) by (auto simp: entries_ok_def)
    then have "(2 :: nat) ^ k < 2 ^ 58" using assms(3) by simp
    then have "k < 58" by (simp only: power_strict_increasing_iff)
    then have k': "length (cm_entries m) * 2 = 2 ^ Suc k" "Suc k < 60" using k(1) by simp_all
    obtain m' where m': "cap_resize True (length (cm_entries m) * 2) m = Some (m', True)" "cap_ok m'" "caps (cm_entries m') = caps (cm_entries m)"
      "has_free (cm_entries m')" "length (cm_entries m') = length (cm_entries m) * 2" "cm_size m' = cm_size m"
      using cap_resize_ok [OF assms(1) k'(1) _ k'(2)] by auto
    have "2 \<le> length (cm_entries m)" unfolding k(1) using power_increasing [of 1 k "2 :: nat"] k(2) by simp
    then have "4 * (cm_size m' + 1) \<le> 3 * length (cm_entries m')" unfolding m'(5,6) using eo(3) by simp
    then obtain m'' where "store key v m' = Some (m'', True)" "cap_ok m''" "caps (cm_entries m'') = (caps (cm_entries m'))(key \<mapsto> v)"
      using store_ok [OF m'(2,4), of key v] by auto
    then show ?thesis using m' False True by (intro exI [of _ m''] exI [of _ True]) (simp add: insert_store)
  next
    case no: False
    then have "cap_resize ok (length (cm_entries m) * 2) m = Some (m, False)" by (simp add: cap_resize_def)
    then show ?thesis using False no assms(1) by (intro exI [of _ m] exI [of _ False]) (simp add: insert_store)
  qed
qed

definition fresh_map :: CapabilityMap where
  "fresh_map = fst (capability_map_init True True True zero_map)"

lemma fresh_map_ok: "cap_ok fresh_map" "has_free (cm_entries fresh_map)" "caps (cm_entries fresh_map) = Map.empty"
  "length (cm_entries fresh_map) = 64" "cm_size fresh_map = 0"
proof -
  have m: "cm_entries fresh_map = replicate (2 ^ 6) zero_entry" "cm_size fresh_map = 0"
    by (simp_all add: fresh_map_def capability_map_init_def INITIAL_CAPACITY_def)
  note em = empty_entries_ok [of 6, simplified]
  show "cap_ok fresh_map" using em m by (simp add: cap_ok_def)
  show "has_free (cm_entries fresh_map)" unfolding has_free_def m(1) by (intro exI [of _ 0]) (simp add: zero_entry_def)
  show "caps (cm_entries fresh_map) = Map.empty" using em m by simp
  show "length (cm_entries fresh_map) = 64" "cm_size fresh_map = 0" using m by simp_all
qed

theorem capability_map_insert_refines_witness:
  "cap_ok fresh_map \<and> has_free (cm_entries fresh_map)
    \<and> (\<exists>m'. capability_map_insert False 0xC0FFEE 0x1000 fresh_map = Some (m', True) \<and> cap_ok m' \<and> caps (cm_entries m') = [0xC0FFEE \<mapsto> 0x1000])"
  using capability_map_insert_refines [OF fresh_map_ok(1,2), of False "0xC0FFEE" "0x1000"] fresh_map_ok by auto

text \<open>Looking a cookie up in a well-formed map ends and gives the capability it is bound to, or null; deleting it removes exactly
  its binding, says whether there was one, and leaves every other cookie bound, although the slots behind a deleted one stay in place.\<close>

theorem capability_map_lookup_delete_refines:
  assumes "cap_ok m" "has_free (cm_entries m) \<or> caps (cm_entries m) key \<noteq> None"
  shows "capability_map_lookup key m = Some (case caps (cm_entries m) key of None \<Rightarrow> NULL | Some v \<Rightarrow> v)
    \<and> (\<exists>m'. capability_map_delete key m = Some (m', caps (cm_entries m) key \<noteq> None) \<and> cap_ok m'
          \<and> caps (cm_entries m') = (caps (cm_entries m))(key := None) \<and> has_free (cm_entries m') = has_free (cm_entries m))"
proof -
  note eo = cap_okD [OF assms(1)]
  obtain r where r: "find_probe (cm_entries m) key (home_index (length (cm_entries m)) key) = Some r"
    "case r of None \<Rightarrow> caps (cm_entries m) key = None
       | Some p \<Rightarrow> p < length (cm_entries m) \<and> live (cm_entries m ! p) \<and> ce_key (cm_entries m ! p) = key
           \<and> caps (cm_entries m) key = Some (ce_value (cm_entries m ! p))"
    using capability_map_find [OF assms] by auto
  show ?thesis
  proof (cases r)
    case None
    then show ?thesis using r eo(4) assms(1) by (simp add: capability_map_lookup_def capability_map_delete_def fun_upd_idem)
  next
    case (Some p)
    then have p: "p < length (cm_entries m)" "live (cm_entries m ! p)" "ce_key (cm_entries m ! p) = key"
      "caps (cm_entries m) key = Some (ce_value (cm_entries m ! p))" using r(2) by simp_all
    note dr = drop_entry_ok [OF eo(1) p(1-3)]
    let ?es = "(cm_entries m)[p := (cm_entries m ! p)\<lparr>ce_tombstone := True, ce_value := NULL\<rparr>]"
    have "Suc (length (filter live ?es)) = cm_size m" using dr eo(2) by metis
    then have "cm_size m - 1 = length (filter live ?es)" by linarith
    then have "cap_ok (m\<lparr>cm_entries := ?es, cm_size := cm_size m - 1\<rparr>)" using dr eo(3) by (simp add: cap_ok_def)
    then show ?thesis using r(1) Some eo(4) p(4) dr by (simp add: capability_map_lookup_def capability_map_delete_def)
  qed
qed

theorem capability_map_lookup_delete_refines_witness:
  "cap_ok fresh_map \<and> has_free (cm_entries fresh_map) \<and> capability_map_lookup 7 fresh_map = Some NULL"
  using capability_map_lookup_delete_refines [of fresh_map 7] fresh_map_ok by simp

text \<open>A well-formed map in which every slot has been occupied once, by live entries or by tombstones, never answers for a
  cookie it does not hold: lookup and deletion probe forever, and so does insertion while the number of live entries, which is all the
  load test looks at, is below its limit.\<close>

theorem capability_map_tombstones_spin:
  assumes "cap_ok m" "\<not> has_free (cm_entries m)" "caps (cm_entries m) key = None"
  shows "capability_map_lookup key m = None \<and> capability_map_delete key m = None
    \<and> (4 * (cm_size m + 1) \<le> 3 * length (cm_entries m) \<longrightarrow> capability_map_insert ok key v m = None)"
proof -
  note eo = cap_okD [OF assms(1)]
  obtain k where k: "length (cm_entries m) = 2 ^ k" "k < 60" "0 < length (cm_entries m)" by (rule entries_okD [OF eo(1)])
  have "spinning (cm_entries m) key (home_index (length (cm_entries m)) key)"
    using assms(2,3) k cap_home_less [OF k(1,2)] unfolding spinning_def has_free_def by blast
  then have "find_probe (cm_entries m) key (home_index (length (cm_entries m)) key) = None"
    "insert_probe (cm_entries m) key None (home_index (length (cm_entries m)) key) = None"
    using find_probe_spins insert_probe_spins by (metis not_None_eq)+
  then show ?thesis using eo(4) by (simp add: capability_map_lookup_def capability_map_delete_def insert_store store_def)
qed

theorem capability_map_tombstones_spin_witness:
  "let m = \<lparr>cm_entries = replicate (2 ^ 6) (zero_entry\<lparr>ce_occupied := True, ce_tombstone := True\<rparr>), cm_size = 0, cm_block_count = 1\<rparr>
   in cap_ok m \<and> \<not> has_free (cm_entries m) \<and> caps (cm_entries m) 7 = None \<and> capability_map_lookup 7 m = None
     \<and> capability_map_insert True 7 0x1000 m = None"
proof -
  let ?e = "zero_entry\<lparr>ce_occupied := True, ce_tombstone := True\<rparr>"
  let ?m = "\<lparr>cm_entries = replicate (2 ^ 6) ?e, cm_size = 0, cm_block_count = 1\<rparr>"
  have e: "\<not> live ?e" "ce_occupied ?e" by (simp_all add: live_def)
  have "entries_ok (replicate (2 ^ 6) ?e)" unfolding entries_ok_def using e by (auto intro: exI [of _ 6])
  then have "cap_ok ?m" using e(1) by (simp add: cap_ok_def)
  moreover have "\<not> has_free (cm_entries ?m)" using e by (simp add: has_free_def)
  moreover have "caps (cm_entries ?m) 7 = None" using e by (simp add: caps_None)
  ultimately show ?thesis using capability_map_tombstones_spin [of ?m 7 True "0x1000"] by simp
qed

end
