(* ===== verification/Process_Memory.thy ===== *)
theory Process_Memory
  imports Page_Alloc Ref_Count_Map
begin

text \<open>
  The pages a process owns, \<^verbatim>\<open>kernel/process/memory.c\<close>, on top of the physical page allocator and the map of
  reference counts. A process's pages are a list of blocks of at most \<^verbatim>\<open>PAGES_PER_BLOCK\<close> entries; the
  list is private to the process, so it is modelled as a list of lists, with \<^verbatim>\<open>blk->count\<close> the length of a block.
  Memory regions and processes are named by their addresses. Every operation holds the process's lock and is one step; outcomes of
  \<^verbatim>\<open>fba_alloc_block\<close> and of the allocations inside \<^verbatim>\<open>refcount_map_increment\<close> are arguments.
\<close>

section \<open>Data\<close>

record ProcessPageEntry =
  pe_region :: ptr
  pe_addr :: u64

type_synonym ProcessPageBlock = "ProcessPageEntry list"

text \<open>The memory of the system as far as these operations see it: the regions, the reference counts, and for every
  process the blocks behind \<^verbatim>\<open>meminfo->pages\<close> (\<open>None\<close> for the null pointer).\<close>

record pmem =
  pm_region :: "ptr \<Rightarrow> MemoryRegion"
  pm_refs :: "RefCountMap option"
  pm_pages :: "ptr \<Rightarrow> ProcessPageBlock list option"

text \<open>The outcomes of the allocations of one call.\<close>

record alloc_env =
  ae_pages :: bool
  ae_block :: bool
  ae_refs :: "bool \<times> (nat \<Rightarrow> bool) \<times> bool"

definition PAGES_PER_BLOCK :: nat where
  "PAGES_PER_BLOCK = (4096 - 8) div 16"

section \<open>Operations\<close>

text \<open>The search for a block with room, and the entry stored at its end.\<close>

fun store_entry :: "ProcessPageEntry \<Rightarrow> ProcessPageBlock list \<Rightarrow> ProcessPageBlock list option" where
  "store_entry e [] = None"
| "store_entry e (blk # blks) =
     (if length blk \<ge> PAGES_PER_BLOCK then map_option ((#) blk) (store_entry e blks)
      else Some ((blk @ [e]) # blks))"

definition process_add_owned_page :: "alloc_env \<Rightarrow> ptr \<Rightarrow> ptr \<Rightarrow> u64 \<Rightarrow> bool \<Rightarrow> pmem \<Rightarrow> pmem \<times> bool" where
  "process_add_owned_page env proc region phys_addr shared s =
     (if proc = NULL then (s, False)
      else if pm_pages s proc = None \<and> \<not> ae_pages env then (s, False)
      else
        let s = (if pm_pages s proc = None then s\<lparr>pm_pages := (pm_pages s)(proc := Some [])\<rparr> else s);
            (refs, n) = (if shared then refs_inc (ae_refs env) phys_addr (pm_refs s) else (pm_refs s, 1));
            s = s\<lparr>pm_refs := refs\<rparr>
        in if shared \<and> n = 0 then (s, False)
           else
             let blks = the (pm_pages s proc); e = \<lparr>pe_region = region, pe_addr = phys_addr\<rparr>
             in case store_entry e blks of
                  Some blks \<Rightarrow> (s\<lparr>pm_pages := (pm_pages s)(proc := Some blks)\<rparr>, True)
                | None \<Rightarrow>
                    if \<not> ae_block env then (s, False)
                    else (s\<lparr>pm_pages := (pm_pages s)(proc := Some ([e] # blks))\<rparr>, True))"

text \<open>Dropping the process's reference to a page: the frame goes back to its region with the last one.\<close>

definition drop_page :: "ProcessPageEntry \<Rightarrow> pmem \<Rightarrow> pmem" where
  "drop_page e s =
     (let (refs, prev_ref) = refcount_map_decrement (pe_addr e) (pm_refs s);
          s = s\<lparr>pm_refs := refs\<rparr>
      in if prev_ref \<le> 1
         then s\<lparr>pm_region := (pm_region s)(pe_region e := page_free (pm_region s (pe_region e)) (pe_addr e))\<rparr>
         else s)"

text \<open>The search of a block for an address, and the removal that moves the last entry into the gap.\<close>

fun entry_index :: "u64 \<Rightarrow> ProcessPageBlock \<Rightarrow> nat option" where
  "entry_index phys_addr [] = None"
| "entry_index phys_addr (e # es) =
     (if pe_addr e = phys_addr then Some 0 else map_option Suc (entry_index phys_addr es))"

definition take_entry :: "nat \<Rightarrow> ProcessPageBlock \<Rightarrow> ProcessPageBlock" where
  "take_entry i blk = butlast (blk[i := last blk])"

text \<open>The search of the blocks: the entry found, and the blocks without it.\<close>

fun remove_entry :: "u64 \<Rightarrow> ProcessPageBlock list \<Rightarrow> (ProcessPageEntry \<times> ProcessPageBlock list) option" where
  "remove_entry phys_addr [] = None"
| "remove_entry phys_addr (blk # blks) =
     (case entry_index phys_addr blk of
        Some i \<Rightarrow>
          let blk' = take_entry i blk
          in Some (blk ! i, if blk' = [] then blks else blk' # blks)
      | None \<Rightarrow> map_option (\<lambda>(e, blks). (e, blk # blks)) (remove_entry phys_addr blks))"

definition process_remove_owned_page :: "ptr \<Rightarrow> u64 \<Rightarrow> pmem \<Rightarrow> pmem \<times> bool" where
  "process_remove_owned_page proc phys_addr s =
     (if proc = NULL \<or> pm_pages s proc = None then (s, False)
      else case remove_entry phys_addr (the (pm_pages s proc)) of
             None \<Rightarrow> (s, False)
           | Some (e, blks) \<Rightarrow> ((drop_page e s)\<lparr>pm_pages := (pm_pages s)(proc := Some blks)\<rparr>, True))"

definition process_release_owned_pages :: "ptr \<Rightarrow> pmem \<Rightarrow> pmem" where
  "process_release_owned_pages proc s =
     (if proc = NULL \<or> pm_pages s proc = None then s
      else let s = fold (\<lambda>blk s. fold drop_page blk s) (the (pm_pages s proc)) s
           in s\<lparr>pm_pages := (pm_pages s)(proc := None)\<rparr>)"

definition process_page_alloc :: "alloc_env \<Rightarrow> ptr \<Rightarrow> ptr \<Rightarrow> pmem \<Rightarrow> pmem \<times> u64" where
  "process_page_alloc env proc region s =
     (if proc = NULL then (s, 0xFF)
      else
        let (r, addr) = page_alloc (pm_region s region);
            s = s\<lparr>pm_region := (pm_region s)(region := r)\<rparr>
        in if addr AND 0xFF \<noteq> 0 then (s, addr)
           else
             let (s, ok) = process_add_owned_page env proc region addr False s
             in if \<not> ok
                then (s\<lparr>pm_region := (pm_region s)(region := page_free (pm_region s region) addr)\<rparr>, 0xFF)
                else (s, addr))"

definition process_page_free :: "ptr \<Rightarrow> u64 \<Rightarrow> pmem \<Rightarrow> pmem \<times> bool" where
  "process_page_free proc phys_addr s =
     (if proc = NULL then (s, False) else process_remove_owned_page proc phys_addr s)"

section \<open>Invariant and abstraction\<close>

text \<open>The addresses a process owns, with multiplicity, and those of a set of processes.\<close>

definition owned :: "pmem \<Rightarrow> ptr \<Rightarrow> u64 multiset" where
  "owned s p = (case pm_pages s p of None \<Rightarrow> {#} | Some blks \<Rightarrow> mset (map pe_addr (concat blks)))"

definition all_owned :: "ptr set \<Rightarrow> pmem \<Rightarrow> u64 multiset" where
  "all_owned P s = (\<Sum>p \<in> P. owned s p)"

text \<open>The frames and the references to them: the counts agree with the references and no referenced frame is free.\<close>

definition frames_ok :: "MemoryRegion \<Rightarrow> RefCountMap option \<Rightarrow> u64 multiset \<Rightarrow> bool" where
  "frames_ok r refs M \<longleftrightarrow> region_wf r \<and> refs_wf refs \<and> rc.tracks refs M
     \<and> (\<forall>a \<in># M. page_aligned a \<and> pfn a + 1 < 4503599627370496 \<and> pfn a \<notin> free_pages r)"

text \<open>All pages of the processes \<open>P\<close> come from region \<open>R\<close>.\<close>

definition pmem_ok :: "ptr \<Rightarrow> ptr set \<Rightarrow> pmem \<Rightarrow> bool" where
  "pmem_ok R P s \<longleftrightarrow> finite P \<and> frames_ok (pm_region s R) (pm_refs s) (all_owned P s)
     \<and> (\<forall>p \<in> P. \<forall>blks. pm_pages s p = Some blks \<longrightarrow>
          (\<forall>e \<in> set (concat blks). pe_region e = R) \<and> (\<forall>b \<in> set blks. b \<noteq> [] \<and> length b \<le> PAGES_PER_BLOCK))"

section \<open>Library\<close>

lemma PAGES_PER_BLOCK_pos [simp]: "0 < PAGES_PER_BLOCK"
  by (simp add: PAGES_PER_BLOCK_def)

lemma take_entry_mset:
  assumes "i < length blk"
  shows "mset blk = add_mset (blk ! i) (mset (take_entry i blk))"
proof -
  let ?xs = "blk[i := last blk]"
  have ne: "blk \<noteq> []" "?xs \<noteq> []" using assms by auto
  then have "last ?xs = last blk" using assms by (cases "i = length blk - 1") (simp_all add: last_conv_nth)
  then have "mset ?xs = add_mset (last blk) (mset (butlast ?xs))" using append_butlast_last_id [OF ne(2)] by (metis mset_append union_mset_add_mset_right mset_single_iff_right mset.simps add.right_neutral)
  moreover have "mset ?xs = add_mset (last blk) (mset blk - {#blk ! i#})" by (rule mset_update [OF assms])
  ultimately have "mset (take_entry i blk) = mset blk - {#blk ! i#}" by (simp add: take_entry_def)
  then show ?thesis using assms by simp
qed

lemma length_take_entry: "length (take_entry i blk) = length blk - 1"
  by (simp add: take_entry_def)

lemma entry_index_Some: "entry_index a blk = Some i \<Longrightarrow> i < length blk \<and> pe_addr (blk ! i) = a"
  by (induction blk arbitrary: i) (auto split: if_splits)

lemma entry_index_None: "entry_index a blk = None \<longleftrightarrow> a \<notin> pe_addr ` set blk"
  by (induction blk) auto

definition blocks_shaped :: "ptr \<Rightarrow> ProcessPageBlock list \<Rightarrow> bool" where
  "blocks_shaped R blks \<longleftrightarrow> (\<forall>e \<in> set (concat blks). pe_region e = R) \<and> (\<forall>b \<in> set blks. b \<noteq> [] \<and> length b \<le> PAGES_PER_BLOCK)"

lemma blocks_shaped_simps [simp]:
  "blocks_shaped R []"
  "blocks_shaped R (b # bs) \<longleftrightarrow> b \<noteq> [] \<and> length b \<le> PAGES_PER_BLOCK \<and> (\<forall>e \<in> set b. pe_region e = R) \<and> blocks_shaped R bs"
  by (auto simp: blocks_shaped_def)

lemma remove_entry_None: "remove_entry a blks = None \<longleftrightarrow> a \<notin> pe_addr ` set (concat blks)"
proof (induction blks)
  case (Cons blk blks)
  show ?case
  proof (cases "entry_index a blk")
    case None
    then show ?thesis using Cons.IH entry_index_None [of a blk] by (simp add: image_Un)
  next
    case (Some i)
    then have "a \<in> pe_addr ` set blk" using entry_index_None [of a blk] by simp
    then show ?thesis using Some by (simp add: Let_def image_Un)
  qed
qed simp

lemma remove_entry_Some:
  "remove_entry a blks = Some (e, blks') \<Longrightarrow> pe_addr e = a \<and> mset (concat blks) = add_mset e (mset (concat blks'))
    \<and> (blocks_shaped R blks \<longrightarrow> pe_region e = R \<and> blocks_shaped R blks')"
proof (induction blks arbitrary: blks')
  case (Cons blk blks)
  show ?case
  proof (cases "entry_index a blk")
    case None
    then obtain bs where bs: "remove_entry a blks = Some (e, bs)" "blks' = blk # bs" using Cons.prems by auto
    then show ?thesis using Cons.IH [OF bs(1)] by simp
  next
    case (Some i)
    then have i: "i < length blk" "pe_addr (blk ! i) = a" using entry_index_Some [OF Some] by simp_all
    have e: "e = blk ! i" "blks' = (if take_entry i blk = [] then blks else take_entry i blk # blks)"
      using Cons.prems Some by (auto simp: Let_def)
    note m = take_entry_mset [OF i(1)]
    have sub: "set (take_entry i blk) \<subseteq> set blk" using arg_cong [OF m, of set_mset] by auto
    have "mset (concat (blk # blks)) = add_mset e (mset (concat blks'))" using m e by simp
    moreover have "blocks_shaped R (blk # blks) \<longrightarrow> pe_region e = R \<and> blocks_shaped R blks'"
      using e sub i(1) length_take_entry [of i blk] by auto
    ultimately show ?thesis using e i by simp
  qed
qed simp

lemma store_entry_Some:
  "store_entry e blks = Some blks' \<Longrightarrow> mset (concat blks') = add_mset e (mset (concat blks))
    \<and> (blocks_shaped R blks \<longrightarrow> pe_region e = R \<longrightarrow> blocks_shaped R blks')"
proof (induction blks arbitrary: blks')
  case (Cons blk blks)
  show ?case
  proof (cases "PAGES_PER_BLOCK \<le> length blk")
    case True
    then obtain bs where bs: "store_entry e blks = Some bs" "blks' = blk # bs" using Cons.prems by auto
    then show ?thesis using Cons.IH [OF bs(1)] by simp
  next
    case False
    then show ?thesis using Cons.prems by auto
  qed
qed simp

lemma all_owned_update:
  assumes "finite P" "p \<in> P" "\<And>q. q \<noteq> p \<Longrightarrow> owned s' q = owned s q"
  shows "all_owned P s' = owned s' p + all_owned (P - {p}) s" "all_owned P s = owned s p + all_owned (P - {p}) s"
proof -
  have "all_owned (P - {p}) s' = all_owned (P - {p}) s" unfolding all_owned_def using assms(3) by (intro sum.cong) auto
  then show "all_owned P s' = owned s' p + all_owned (P - {p}) s" using assms(1,2) by (simp add: all_owned_def sum.remove)
  show "all_owned P s = owned s p + all_owned (P - {p}) s" using assms(1,2) by (simp add: all_owned_def sum.remove)
qed

lemma pmem_ok_iff:
  "pmem_ok R P s \<longleftrightarrow> finite P \<and> frames_ok (pm_region s R) (pm_refs s) (all_owned P s)
     \<and> (\<forall>p \<in> P. \<forall>blks. pm_pages s p = Some blks \<longrightarrow> blocks_shaped R blks)"
  by (simp add: pmem_ok_def blocks_shaped_def)

text \<open>Dropping one reference.\<close>

lemma drop_page_ok:
  assumes ok: "frames_ok (pm_region s R) (pm_refs s) (add_mset (pe_addr e) M)" and R: "pe_region e = R"
  shows "frames_ok (pm_region (drop_page e s) R) (pm_refs (drop_page e s)) M \<and> pm_pages (drop_page e s) = pm_pages s
    \<and> free_pages (pm_region (drop_page e s) R) =
        (if pe_addr e \<in># M then free_pages (pm_region s R) else insert (pfn (pe_addr e)) (free_pages (pm_region s R)))"
proof -
  let ?a = "pe_addr e"
  obtain refs n where d: "refcount_map_decrement ?a (pm_refs s) = (refs, n)" by fastforce
  have f: "region_wf (pm_region s R)" "refs_wf (pm_refs s)" "rc.tracks (pm_refs s) (add_mset ?a M)" "page_aligned ?a"
    "pfn ?a + 1 < 4503599627370496" "pfn ?a \<notin> free_pages (pm_region s R)"
    "\<forall>b \<in># M. page_aligned b \<and> pfn b + 1 < 4503599627370496 \<and> pfn b \<notin> free_pages (pm_region s R)"
    using ok by (simp_all add: frames_ok_def)
  note t = rc.tracks_dec [OF f(2,3) d]
  show ?thesis
  proof (cases "?a \<in># M")
    case True
    then have "\<not> n \<le> 1" using t by simp
    then have "drop_page e s = s\<lparr>pm_refs := refs\<rparr>" using d by (simp add: drop_page_def)
    then show ?thesis using True t f by (simp add: frames_ok_def)
  next
    case False
    then have "n \<le> 1" using t by simp
    then have dp: "drop_page e s = s\<lparr>pm_refs := refs, pm_region := (pm_region s)(R := page_free (pm_region s R) ?a)\<rparr>"
      using d R by (simp add: drop_page_def)
    have pf: "free_pages (page_free (pm_region s R) ?a) = insert (pfn ?a) (free_pages (pm_region s R))" "region_wf (page_free (pm_region s R) ?a)"
      using pmm.free_ok [OF f(1,4,5,6)] by simp_all
    have "pfn b \<noteq> pfn ?a" if "b \<in># M" for b
    proof
      assume "pfn b = pfn ?a"
      then have "b = ?a" using f(4,7) that pfn_inj by blast
      then show False using False that by simp
    qed
    then show ?thesis using dp pf t f False by (simp add: frames_ok_def)
  qed
qed

lemma owned_upd [simp]:
  "pm_pages s' = (pm_pages s)(p := b) \<Longrightarrow> owned s' = (owned s)(p := (case b of None \<Rightarrow> {#} | Some blks \<Rightarrow> mset (map pe_addr (concat blks))))"
  by (rule ext) (simp add: owned_def)

lemma owned_frame [simp]:
  "owned (s\<lparr>pm_region := r\<rparr>) = owned s" "owned (s\<lparr>pm_refs := g\<rparr>) = owned s"
  "all_owned P (s\<lparr>pm_region := r\<rparr>) = all_owned P s" "all_owned P (s\<lparr>pm_refs := g\<rparr>) = all_owned P s"
  by (rule ext | simp add: owned_def all_owned_def)+

lemma owned_Some: "pm_pages s p = Some blks \<Longrightarrow> owned s p = image_mset pe_addr (mset (concat blks))"
  by (simp add: owned_def mset_map)

lemma page_aligned_low: "page_aligned a \<Longrightarrow> a AND 0xFF = 0 \<and> a \<noteq> 0xFF"
proof -
  assume al: "page_aligned a"
  have "a AND 0xFF = (a AND 0xFFF) AND 0xFF" by (simp add: and.assoc)
  then show ?thesis using al unfolding page_aligned_def by auto
qed

text \<open>Replacing the blocks of one process.\<close>

lemma pmem_ok_step:
  assumes ok: "pmem_ok R P s" and p: "p \<in> P" and pg: "pm_pages s' = (pm_pages s)(p := b)"
    and sh: "\<And>blks. b = Some blks \<Longrightarrow> blocks_shaped R blks"
    and fr: "frames_ok (pm_region s' R) (pm_refs s') (owned s' p + all_owned (P - {p}) s)"
  shows "pmem_ok R P s'"
proof -
  have fin: "finite P" using ok by (simp add: pmem_ok_iff)
  have "owned s' q = owned s q" if "q \<noteq> p" for q using pg that by simp
  then have "all_owned P s' = owned s' p + all_owned (P - {p}) s" by (rule all_owned_update(1) [OF fin p])
  moreover have "\<forall>q \<in> P. \<forall>blks. pm_pages s' q = Some blks \<longrightarrow> blocks_shaped R blks"
    using ok pg sh by (auto simp: pmem_ok_iff)
  ultimately show ?thesis using fin fr by (simp add: pmem_ok_iff)
qed

text \<open>Adding an entry to a process's list.\<close>

lemma add_owned_page:
  assumes ok: "pmem_ok R P s" and p: "p \<in> P" "p \<noteq> NULL"
    and fr: "frames_ok (pm_region s R) (pm_refs s) (add_mset a (all_owned P s))"
    and ev: "process_add_owned_page env p R a False s = (s', b)"
  shows "if b then pmem_ok R P s' \<and> owned s' = (owned s)(p := add_mset a (owned s p)) \<and> pm_region s' = pm_region s
    else pmem_ok R P s' \<and> owned s' = owned s \<and> pm_region s' = pm_region s \<and> \<not> (ae_pages env \<and> ae_block env)"
proof -
  let ?blks = "case pm_pages s p of None \<Rightarrow> [] | Some blks \<Rightarrow> blks"
  let ?e = "\<lparr>pe_region = R, pe_addr = a\<rparr>"
  have fin: "finite P" and fr0: "frames_ok (pm_region s R) (pm_refs s) (all_owned P s)" using ok by (simp_all add: pmem_ok_iff)
  have spl: "all_owned P s = owned s p + all_owned (P - {p}) s" by (rule all_owned_update(2) [OF fin p(1)]) simp
  have sh: "blocks_shaped R ?blks" using ok p(1) by (auto simp: pmem_ok_iff split: option.splits)
  have ow: "owned s p = mset (map pe_addr (concat ?blks))" by (simp add: owned_def split: option.splits)
  consider (nopages) "pm_pages s p = None" "\<not> ae_pages env" "s' = s" "\<not> b"
    | (stored) blks where "store_entry ?e ?blks = Some blks" "s' = s\<lparr>pm_pages := (pm_pages s)(p := Some blks)\<rparr>" "b"
    | (noblock) "\<not> ae_block env" "s' = s\<lparr>pm_pages := (pm_pages s)(p := Some ?blks)\<rparr>" "\<not> b"
    | (block) "s' = s\<lparr>pm_pages := (pm_pages s)(p := Some ([?e] # ?blks))\<rparr>" "b"
    using ev p(2) by (auto simp: process_add_owned_page_def Let_def fun_upd_idem split: if_splits option.splits)
  then show ?thesis
  proof cases
    case nopages
    then show ?thesis using ok by simp
  next
    case stored
    note st = store_entry_Some [OF stored(1), of R]
    then have "image_mset pe_addr (mset (concat blks)) = add_mset a (image_mset pe_addr (mset (concat ?blks)))" by simp
    then have ow': "owned s' = (owned s)(p := add_mset a (owned s p))" using stored(2) ow by (simp add: mset_map)
    have "pmem_ok R P s'" using st sh fr ow' spl stored(2) by (intro pmem_ok_step [OF ok p(1), of s' "Some blks"]) simp_all
    then show ?thesis using stored ow' by simp
  next
    case noblock
    have ow': "owned s' = owned s" using noblock(2) ow by (simp add: fun_upd_idem)
    have "pmem_ok R P s'" using sh fr0 ow' spl noblock(2) by (intro pmem_ok_step [OF ok p(1), of s' "Some ?blks"]) simp_all
    then show ?thesis using noblock ow' by simp
  next
    case block
    have ow': "owned s' = (owned s)(p := add_mset a (owned s p))" using block(1) ow by simp
    have "pmem_ok R P s'" using sh fr ow' spl block(1) by (intro pmem_ok_step [OF ok p(1), of s' "Some ([?e] # ?blks)"]) (auto simp: Suc_le_eq)
    then show ?thesis using block ow' by simp
  qed
qed

definition demo_pmem :: pmem where
  "demo_pmem = \<lparr>pm_region = (\<lambda>_. demo_region), pm_refs = fst (refcount_map_init True (\<lambda>_. True) None), pm_pages = (\<lambda>_. None)\<rparr>"

lemma demo_pmem_ok: "pmem_ok R {0x5000, 0x6000} demo_pmem" "owned demo_pmem p = {#}" "all_owned P demo_pmem = {#}"
proof -
  obtain m where m: "refcount_map_init True (\<lambda>_. True) None = (Some m, True)" "rc_ok m" "rc_count m = Map.empty"
    using init_ok [of "\<lambda>_. True"] by auto
  show o: "owned demo_pmem p = {#}" for p by (simp add: owned_def demo_pmem_def)
  then show al: "all_owned P demo_pmem = {#}" for P by (simp add: all_owned_def)
  have "rc.tracks (Some m) {#}" using m(3) by (simp add: rc.tracks_def)
  then show "pmem_ok R {0x5000, 0x6000} demo_pmem" using m demo_region_wf al
    by (simp add: pmem_ok_iff frames_ok_def refs_wf_def) (simp add: demo_pmem_def)
qed

text \<open>A process that owns one page.\<close>

definition demo_owner :: pmem where
  "demo_owner = demo_pmem\<lparr>pm_pages := [0x5000 \<mapsto> [[\<lparr>pe_region = 1, pe_addr = 0x9000\<rparr>]]]\<rparr>"

lemma demo_refs: "\<exists>m. pm_refs demo_owner = Some m \<and> rc_ok m \<and> rc_count m = Map.empty"
  using init_ok [of "\<lambda>_. True"] by (auto simp: demo_owner_def demo_pmem_def)

lemma demo_owner_ok: "pmem_ok 1 {0x5000} demo_owner" "0x9000 \<in># owned demo_owner 0x5000" "refs_count (pm_refs demo_owner) 0x9000 = None"
  "all_owned {0x5000} demo_owner = {#0x9000#}" "owned demo_owner 0x5000 = {#0x9000#}" "pm_region demo_owner 1 = demo_region"
proof -
  obtain m where m: "pm_refs demo_owner = Some m" "rc_ok m" "rc_count m = Map.empty" using demo_refs by auto
  show o: "owned demo_owner 0x5000 = {#0x9000#}" by (simp add: owned_def demo_owner_def)
  have "rc.tracks (Some m) {#}" using m(3) by (simp add: rc.tracks_def)
  then have "rc.tracks (Some m) {#0x9000#}" using rc.tracks_fresh [of "Some m" "{#}" "0x9000"] by simp
  moreover have "page_aligned 0x9000" "pfn 0x9000 = 9" by (simp_all add: page_aligned_def pfn_def)
  moreover have "9 \<notin> free_pages demo_region" by (simp add: free_pages_def demo_region_eq block_pages_def pfn_def)
  ultimately have fr: "frames_ok demo_region (Some m) {#0x9000#}" using demo_region_wf m by (simp add: frames_ok_def refs_wf_def)
  show re: "pm_region demo_owner 1 = demo_region" "all_owned {0x5000} demo_owner = {#0x9000#}" using o by (simp_all add: demo_owner_def demo_pmem_def all_owned_def)
  have "\<forall>blks. pm_pages demo_owner 0x5000 = Some blks \<longrightarrow> blocks_shaped 1 blks" by (simp add: demo_owner_def PAGES_PER_BLOCK_def)
  then show "pmem_ok 1 {0x5000} demo_owner" using fr m(1) re by (simp add: pmem_ok_iff)
  show "0x9000 \<in># owned demo_owner 0x5000" using o by simp
  show "refs_count (pm_refs demo_owner) 0x9000 = None" using m by simp
qed

lemma demo_owner_inc: "refs_inc (True, \<lambda>_. True, True) 0x9000 (pm_refs demo_owner) = (refs, n) \<Longrightarrow> n \<noteq> 0"
proof -
  assume inc: "refs_inc (True, \<lambda>_. True, True) 0x9000 (pm_refs demo_owner) = (refs, n)"
  obtain m where m: "pm_refs demo_owner = Some m" "rc_ok m" "rc_count m = Map.empty" using demo_refs by auto
  have "refcount_map_increment True (\<lambda>_. True) True 0x9000 (Some m) = (refs, n)" using inc m(1) by (simp add: refs_inc_def)
  then show ?thesis using increment_ok [OF m(2)] m(3) by fastforce
qed

section \<open>Properties\<close>

text \<open>A process that allocates a page gets an aligned frame that was free and that no process owned, and becomes its owner; nothing
  else changes hands. When there is no frame, or no memory to record the ownership, the result is 0xFF and neither the free
  frames nor anybody's ownership change. Free frames, reference counts and ownership stay consistent.\<close>

theorem process_page_alloc_correct:
  assumes ok: "pmem_ok R P s" and p: "p \<in> P" "p \<noteq> NULL" and ev: "process_page_alloc env p R s = (s', a)"
  shows "pmem_ok R P s' \<and>
    (if a = 0xFF then owned s' = owned s \<and> free_pages (pm_region s' R) = free_pages (pm_region s R)
        \<and> (free_pages (pm_region s R) = {} \<or> \<not> (ae_pages env \<and> ae_block env))
     else page_aligned a \<and> pfn a \<in> free_pages (pm_region s R) \<and> a \<notin># all_owned P s
        \<and> free_pages (pm_region s' R) = free_pages (pm_region s R) - {pfn a}
        \<and> owned s' = (owned s)(p := add_mset a (owned s p)))"
proof (cases "free_pages (pm_region s R) = {}")
  case True
  have "page_alloc (pm_region s R) = (pm_region s R, 0xFF)" using ok True by (intro pmm.alloc_fail) (simp_all add: pmem_ok_iff frames_ok_def)
  then have "a = 0xFF" "s' = s" using ev p(2) by (auto simp: process_page_alloc_def)
  then show ?thesis using ok True by simp
next
  case False
  have fr: "region_wf (pm_region s R)" "refs_wf (pm_refs s)" "rc.tracks (pm_refs s) (all_owned P s)"
    "\<forall>b \<in># all_owned P s. page_aligned b \<and> pfn b + 1 < 4503599627370496 \<and> pfn b \<notin> free_pages (pm_region s R)"
    using ok by (simp_all add: pmem_ok_iff frames_ok_def)
  obtain r x where rx: "page_alloc (pm_region s R) = (r, x)" by fastforce
  have al: "page_aligned x" "pfn x \<in> free_pages (pm_region s R)" "free_pages r = free_pages (pm_region s R) - {pfn x}" "region_wf r"
    using pmm.alloc_ok [OF fr(1) False rx] by simp_all
  have top: "pfn x + 1 < 4503599627370496" using pmm.frames_top [OF fr(1) al(2)] .
  have low: "x AND 0xFF = 0" "x \<noteq> 0xFF" using page_aligned_low [OF al(1)] by simp_all
  have new: "x \<notin># all_owned P s" using fr(4) al(2) by blast
  let ?s = "s\<lparr>pm_region := (pm_region s)(R := r)\<rparr>"
  have same: "owned ?s = owned s" "all_owned P ?s = all_owned P s" by simp_all
  have ok1: "pmem_ok R P ?s" using ok al same by (auto simp: pmem_ok_iff frames_ok_def)
  have fr1: "frames_ok (pm_region ?s R) (pm_refs ?s) (add_mset x (all_owned P ?s))"
    using ok1 al top new same rc.tracks_fresh [OF fr(3) new] by (auto simp: pmem_ok_iff frames_ok_def)
  obtain s2 b where ad: "process_add_owned_page env p R x False ?s = (s2, b)" by fastforce
  note add = add_owned_page [OF ok1 p fr1 ad]
  show ?thesis
  proof (cases b)
    case True
    then have "s' = s2" "a = x" using ev p(2) rx low ad by (auto simp: process_page_alloc_def)
    then show ?thesis using add True al new low same by simp
  next
    case no: False
    have a: "s' = s2\<lparr>pm_region := (pm_region s2)(R := page_free (pm_region s2 R) x)\<rparr>" "a = 0xFF"
      using ev p(2) rx low ad no by (auto simp: process_page_alloc_def)
    have s2: "pmem_ok R P s2" "owned s2 = owned s" "pm_region s2 R = r" "\<not> (ae_pages env \<and> ae_block env)" using add no same by simp_all
    have pf: "free_pages (page_free r x) = insert (pfn x) (free_pages r)" "region_wf (page_free r x)"
      using pmm.free_ok [OF al(4,1) top] al(3) by simp_all
    have ow: "owned s' = owned s2" "all_owned P s' = all_owned P s2" "all_owned P s2 = all_owned P s"
      using a(1) s2(2) by (simp_all add: all_owned_def)
    have "pmem_ok R P s'" using s2(1,3) a(1) pf ow fr(4) al(2,3) by (auto simp: pmem_ok_iff frames_ok_def)
    then show ?thesis using a s2 ow pf al by auto
  qed
qed

theorem process_page_alloc_correct_witness:
  "\<exists>s' a. process_page_alloc \<lparr>ae_pages = True, ae_block = True, ae_refs = (True, \<lambda>_. True, True)\<rparr> 0x5000 1 demo_pmem = (s', a)
     \<and> pmem_ok 1 {0x5000, 0x6000} s' \<and> a \<noteq> 0xFF \<and> owned s' 0x5000 = {#a#}"
proof -
  let ?env = "\<lparr>ae_pages = True, ae_block = True, ae_refs = (True, \<lambda>_ :: nat. True, True)\<rparr>"
  obtain s' a where ev: "process_page_alloc ?env 0x5000 1 demo_pmem = (s', a)" by fastforce
  have ne: "free_pages (pm_region demo_pmem 1) \<noteq> {}"
    using demo_region_wf by (simp add: free_pages_empty demo_pmem_def demo_region_eq)
  show ?thesis using process_page_alloc_correct [OF demo_pmem_ok(1) _ _ ev] ev ne demo_pmem_ok(2) by (cases "a = 0xFF") simp_all
qed


text \<open>C6: removing a page from a process says whether the process owned it, drops exactly one reference of that process, and gives
  the frame back to the allocator exactly when that was the last reference any process had.\<close>

theorem process_remove_owned_page_correct:
  assumes ok: "pmem_ok R P s" and p: "p \<in> P" "p \<noteq> NULL" and ev: "process_page_free p a s = (s', b)"
  shows "pmem_ok R P s' \<and> b = (a \<in># owned s p) \<and> owned s' = (owned s)(p := owned s p - {#a#})
    \<and> free_pages (pm_region s' R) =
        (if b \<and> count (all_owned P s) a = 1 then insert (pfn a) (free_pages (pm_region s R)) else free_pages (pm_region s R))"
proof -
  have ev: "process_remove_owned_page p a s = (s', b)" using ev p(2) by (simp add: process_page_free_def)
  show ?thesis
  proof (cases "a \<in># owned s p")
    case False
    then have none: "pm_pages s p = None \<or> remove_entry a (the (pm_pages s p)) = None"
      by (auto simp: owned_def remove_entry_None split: option.splits)
    then have "s' = s \<and> \<not> b" using ev p(2) by (auto simp: process_remove_owned_page_def split: if_splits)
    then show ?thesis using ok False by (simp add: diff_single_trivial)
  next
    case True
    then obtain blks where blks: "pm_pages s p = Some blks" by (auto simp: owned_def split: option.splits)
    then have "remove_entry a blks \<noteq> None" using True by (auto simp: owned_def remove_entry_None)
    then obtain e blks' where re: "remove_entry a blks = Some (e, blks')" by auto
    have sh: "blocks_shaped R blks" using ok p(1) blks by (simp add: pmem_ok_iff)
    have e: "pe_addr e = a" "mset (concat blks) = add_mset e (mset (concat blks'))" "pe_region e = R" "blocks_shaped R blks'"
      using remove_entry_Some [OF re, of R] sh by simp_all
    have s': "s' = (drop_page e s)\<lparr>pm_pages := (pm_pages s)(p := Some blks')\<rparr>" "b" using ev p(2) blks re by (auto simp: process_remove_owned_page_def)
    have fin: "finite P" using ok by (simp add: pmem_ok_iff)
    have spl: "all_owned P s = owned s p + all_owned (P - {p}) s" by (rule all_owned_update(2) [OF fin p(1)]) simp
    have "image_mset pe_addr (mset (concat blks)) = add_mset a (image_mset pe_addr (mset (concat blks')))" using e(1,2) by simp
    then have op: "owned s p = add_mset a (mset (map pe_addr (concat blks')))" using owned_Some [OF blks] by (simp only: mset_map)
    have ow: "owned s' = (owned s)(p := owned s p - {#a#})" using s' op by simp
    let ?M = "mset (map pe_addr (concat blks')) + all_owned (P - {p}) s"
    have tot: "all_owned P s = add_mset (pe_addr e) ?M" using spl op e(1) by simp
    then have "frames_ok (pm_region s R) (pm_refs s) (add_mset (pe_addr e) ?M)" using ok by (simp add: pmem_ok_iff)
    note dr = drop_page_ok [OF this e(3)]
    have "pmem_ok R P s'" using dr e(4) s' ow op by (intro pmem_ok_step [OF ok p(1), of s' "Some blks'"]) simp_all
    moreover have "count (all_owned P s) a = Suc (count ?M a)" using tot e(1) by simp
    then have "count (all_owned P s) a = 1 \<longleftrightarrow> a \<notin># ?M" by (simp only: not_in_iff One_nat_def nat.inject)
    ultimately show ?thesis using dr s' ow True e(1) by simp
  qed
qed

theorem process_remove_owned_page_correct_witness:
  "\<exists>s'. process_page_free 0x5000 0x9000 demo_owner = (s', True) \<and> pmem_ok 1 {0x5000} s' \<and> owned s' 0x5000 = {#}
     \<and> free_pages (pm_region s' 1) = insert (pfn 0x9000) (free_pages demo_region)"
proof -
  obtain s' b where ev: "process_page_free 0x5000 0x9000 demo_owner = (s', b)" by fastforce
  show ?thesis using process_remove_owned_page_correct [OF demo_owner_ok(1) _ _ ev] ev demo_owner_ok by simp
qed

lemma fold_drop_pages:
  "frames_ok (pm_region s R) (pm_refs s) (mset (map pe_addr es) + M) \<Longrightarrow> \<forall>e \<in> set es. pe_region e = R \<Longrightarrow>
    frames_ok (pm_region (fold drop_page es s) R) (pm_refs (fold drop_page es s)) M \<and> pm_pages (fold drop_page es s) = pm_pages s
    \<and> free_pages (pm_region (fold drop_page es s) R) = free_pages (pm_region s R) \<union> pfn ` {a. a \<in> pe_addr ` set es \<and> a \<notin># M}"
proof (induction es arbitrary: s)
  case (Cons e es)
  have "frames_ok (pm_region s R) (pm_refs s) (add_mset (pe_addr e) (mset (map pe_addr es) + M))" using Cons.prems(1) by simp
  then have dr: "frames_ok (pm_region (drop_page e s) R) (pm_refs (drop_page e s)) (mset (map pe_addr es) + M)" "pm_pages (drop_page e s) = pm_pages s"
    "free_pages (pm_region (drop_page e s) R) = (if pe_addr e \<in># mset (map pe_addr es) + M then free_pages (pm_region s R)
       else insert (pfn (pe_addr e)) (free_pages (pm_region s R)))" using drop_page_ok Cons.prems(2) by simp_all
  note IH = Cons.IH [OF dr(1)]
  have "free_pages (pm_region (drop_page e s) R) \<union> pfn ` {a. a \<in> pe_addr ` set es \<and> a \<notin># M}
      = free_pages (pm_region s R) \<union> pfn ` {a. a \<in> pe_addr ` set (e # es) \<and> a \<notin># M}"
    unfolding dr(3) by auto
  then show ?case using IH dr(2) Cons.prems(2) by simp
qed simp

lemma release_pages_ok:
  assumes ok: "pmem_ok R P s" and p: "p \<in> P" "p \<noteq> NULL"
  shows "let s' = process_release_owned_pages p s in pmem_ok R P s' \<and> owned s' = (owned s)(p := {#})
    \<and> free_pages (pm_region s' R) = free_pages (pm_region s R) \<union> pfn ` {a. a \<in># owned s p \<and> a \<notin># all_owned (P - {p}) s}"
proof (cases "pm_pages s p")
  case None
  then have "owned s p = {#}" by (simp add: owned_def)
  then show ?thesis using ok None by (simp add: process_release_owned_pages_def fun_upd_idem)
next
  case (Some blks)
  let ?es = "concat blks" and ?s = "fold drop_page (concat blks) s"
  have fin: "finite P" using ok by (simp add: pmem_ok_iff)
  have spl: "all_owned P s = owned s p + all_owned (P - {p}) s" by (rule all_owned_update(2) [OF fin p(1)]) simp
  have sh: "\<forall>e \<in> set ?es. pe_region e = R" using ok p(1) Some by (auto simp: pmem_ok_iff blocks_shaped_def)
  have op: "owned s p = mset (map pe_addr ?es)" using Some by (simp add: owned_def)
  have "frames_ok (pm_region s R) (pm_refs s) (mset (map pe_addr ?es) + all_owned (P - {p}) s)" using ok spl op by (simp add: pmem_ok_iff)
  note f = fold_drop_pages [OF this sh]
  have flat: "fold (\<lambda>blk s. fold drop_page blk s) bs t = fold drop_page (concat bs) t" for bs t by (induction bs arbitrary: t) simp_all
  let ?t = "?s\<lparr>pm_pages := (pm_pages ?s)(p := None)\<rparr>"
  have ev: "process_release_owned_pages p s = ?t" using p(2) Some flat by (simp add: process_release_owned_pages_def Let_def)
  have ow: "owned ?t = (owned s)(p := {#})" using f by simp
  have "pmem_ok R P ?t" using f ow by (intro pmem_ok_step [OF ok p(1), of ?t None]) simp_all
  then show ?thesis unfolding ev Let_def using f ow op by auto
qed

text \<open>Releasing the pages of a process that ends leaves it owning nothing, changes nobody else's ownership, and gives back to the
  allocator exactly the frames no other process references.\<close>

theorem process_release_owned_pages_correct:
  assumes ok: "pmem_ok R P s" and p: "p \<in> P" "p \<noteq> NULL"
  shows "let s' = process_release_owned_pages p s in pmem_ok R P s' \<and> owned s' = (owned s)(p := {#})
    \<and> free_pages (pm_region s' R) = free_pages (pm_region s R) \<union> pfn ` {a. a \<in># owned s p \<and> a \<notin># all_owned (P - {p}) s}"
  by (rule release_pages_ok [OF ok p])

theorem process_release_owned_pages_correct_witness:
  "pmem_ok 1 {0x5000, 0x6000} demo_pmem \<and> pmem_ok 1 {0x5000, 0x6000} (process_release_owned_pages 0x5000 demo_pmem)"
  using process_release_owned_pages_correct [OF demo_pmem_ok(1), of "0x5000"] demo_pmem_ok(1) by (simp add: Let_def)


text \<open>A page shared the way address_space_create does it, by counting the new address space's reference to a page whose owner
  is not itself counted, has count 1 and two users; when its owner frees it, the count read back is 1 and the frame goes to the
  allocator while the other address space still maps it.\<close>

theorem shared_page_freed_early:
  assumes ok: "pmem_ok R P s" and p: "p \<in> P" "p \<noteq> NULL" and a: "a \<in># owned s p" "refs_count (pm_refs s) a = None"
    and share: "refs_inc e a (pm_refs s) = (refs, n)" "n \<noteq> 0"
    and ev: "process_remove_owned_page p a (s\<lparr>pm_refs := refs\<rparr>) = (s', b)"
  shows "refs_count refs a = Some 1 \<and> b \<and> pfn a \<in> free_pages (pm_region s' R)"
proof -
  have fin: "finite P" and fr: "frames_ok (pm_region s R) (pm_refs s) (all_owned P s)" using ok by (simp_all add: pmem_ok_iff)
  have spl: "all_owned P s = owned s p + all_owned (P - {p}) s" by (rule all_owned_update(2) [OF fin p(1)]) simp
  then have mem: "a \<in># all_owned P s" using a(1) by simp
  have wf: "refs_wf (pm_refs s)" "region_wf (pm_region s R)" "page_aligned a" "pfn a + 1 < 4503599627370496" "pfn a \<notin> free_pages (pm_region s R)"
    using fr mem by (simp_all add: frames_ok_def)
  have inc: "refs_wf refs" "refs_count refs = (refs_count (pm_refs s))(a \<mapsto> 1)" using rc.inc_law [OF wf(1) share(1)] a(2) share(2) by auto
  obtain g k where d: "refcount_map_decrement a refs = (g, k)" by fastforce
  have k: "k = 1" using rc.dec_law [OF inc(1) d] inc(2) by simp
  obtain blks where blks: "pm_pages s p = Some blks" using a(1) by (auto simp: owned_def split: option.splits)
  then have "remove_entry a blks \<noteq> None" using a(1) by (auto simp: owned_def remove_entry_None)
  then obtain x blks' where re: "remove_entry a blks = Some (x, blks')" by auto
  have x: "pe_addr x = a" "pe_region x = R" using remove_entry_Some [OF re, of R] ok p(1) blks by (simp_all add: pmem_ok_iff)
  have "pm_region s' R = page_free (pm_region s R) a" "b"
    using ev p(2) blks re d k x by (auto simp: process_remove_owned_page_def drop_page_def)
  moreover have "free_pages (page_free (pm_region s R) a) = insert (pfn a) (free_pages (pm_region s R))" using pmm.free_ok [OF wf(2-5)] by simp
  ultimately show ?thesis using inc(2) by simp
qed

theorem shared_page_freed_early_witness:
  "\<exists>refs n s'. refs_inc (True, \<lambda>_. True, True) 0x9000 (pm_refs demo_owner) = (refs, n) \<and> n \<noteq> 0
     \<and> process_remove_owned_page 0x5000 0x9000 (demo_owner\<lparr>pm_refs := refs\<rparr>) = (s', True) \<and> pfn 0x9000 \<in> free_pages (pm_region s' 1)"
proof -
  obtain refs n where inc: "refs_inc (True, \<lambda>_ :: nat. True, True) 0x9000 (pm_refs demo_owner) = (refs, n)" by fastforce
  obtain s' b where ev: "process_remove_owned_page 0x5000 0x9000 (demo_owner\<lparr>pm_refs := refs\<rparr>) = (s', b)" by fastforce
  have n: "n \<noteq> 0" by (rule demo_owner_inc [OF inc])
  show ?thesis using shared_page_freed_early [OF demo_owner_ok(1) _ _ demo_owner_ok(2,3) inc n ev] inc ev n by auto
qed

end
