(* ===== verification/Vmm_Mapper.thy ===== *)
theory Vmm_Mapper
  imports Page_Alloc
begin

text \<open>
  The virtual memory mapper of x86_64, \<^verbatim>\<open>kernel/arch/x86_64/vmm/vmmapper.c\<close>: the four-level page tables, reached through
  the direct mapping of physical memory. The state holds the tables by their (direct-mapped) virtual address, the region page
  tables are allocated from, whether \<^verbatim>\<open>vmm_map_lock\<close> is held, and the addresses invalidated in the TLB, latest first. The pointer of a
  table is its virtual address and 0 is the null pointer. An operation that takes the lock while it is held spins and gives \<open>None\<close>.
  The page table root (\<^verbatim>\<open>cr3\<close>) is an argument of the operations that read it.
\<close>

section \<open>Data\<close>

definition PG_PRESENT :: u64 where
  "PG_PRESENT = 1"

definition PG_WRITE :: u64 where
  "PG_WRITE = 2"

definition PG_USER :: u64 where
  "PG_USER = 4"

definition PG_PAGESIZE :: u64 where
  "PG_PAGESIZE = 0x80"

definition DIRECT_MAP_BASE :: u64 where
  "DIRECT_MAP_BASE = 0xffff800000000000"

definition PAGE_ALIGN_MASK :: u64 where
  "PAGE_ALIGN_MASK = 0xFFFFFFFFFFFFF000"

definition PER_CPU_TEMP_PAGE_BASE :: u64 where
  "PER_CPU_TEMP_PAGE_BASE = 0xFFFFFFFF80400000"

type_synonym tables = "ptr \<Rightarrow> nat \<Rightarrow> u64"

record vm =
  vm_tables :: tables
  vm_phys :: MemoryRegion
  vm_locked :: bool
  vm_invalidated :: "u64 list"

section \<open>Addresses and entries\<close>

definition vmm_per_cpu_temp_page_addr :: "u8 \<Rightarrow> u64" where
  "vmm_per_cpu_temp_page_addr cpu = PER_CPU_TEMP_PAGE_BASE + push_bit 12 (ucast cpu)"

definition vmm_phys_to_virt :: "u64 \<Rightarrow> u64" where
  "vmm_phys_to_virt phys_addr = DIRECT_MAP_BASE + phys_addr"

definition vmm_virt_to_table_index :: "u64 \<Rightarrow> nat \<Rightarrow> nat" where
  "vmm_virt_to_table_index virt_addr level = unat (drop_bit (9 * (level - 1) + 12) virt_addr AND 0x1ff)"

definition vmm_virt_to_pml4_index :: "u64 \<Rightarrow> nat" where
  "vmm_virt_to_pml4_index virt_addr = unat (drop_bit (9 + 9 + 9 + 12) virt_addr AND 0x1ff)"

definition vmm_virt_to_pdpt_index :: "u64 \<Rightarrow> nat" where
  "vmm_virt_to_pdpt_index virt_addr = unat (drop_bit (9 + 9 + 12) virt_addr AND 0x1ff)"

definition vmm_virt_to_pd_index :: "u64 \<Rightarrow> nat" where
  "vmm_virt_to_pd_index virt_addr = unat (drop_bit (9 + 12) virt_addr AND 0x1ff)"

definition vmm_virt_to_pt_index :: "u64 \<Rightarrow> nat" where
  "vmm_virt_to_pt_index virt_addr = unat (drop_bit 12 virt_addr AND 0x1ff)"

definition vmm_table_entry_to_phys :: "u64 \<Rightarrow> u64" where
  "vmm_table_entry_to_phys table_entry = table_entry AND 0x0000fffffffff000"

definition vmm_table_entry_to_page_flags :: "u64 \<Rightarrow> u16" where
  "vmm_table_entry_to_page_flags table_entry = ucast (table_entry AND 0x3ff)"

definition vmm_phys_and_flags_to_table_entry :: "u64 \<Rightarrow> u64 \<Rightarrow> u64" where
  "vmm_phys_and_flags_to_table_entry phys flags = (phys AND NOT 0xfff) OR flags"

definition vmm_level_page_size :: "nat \<Rightarrow> u64" where
  "vmm_level_page_size level = push_bit (9 * (level - 1)) VM_PAGE_SIZE"

definition is_pagesize_leaf :: "u64 \<Rightarrow> bool" where
  "is_pagesize_leaf table_entry \<longleftrightarrow> table_entry AND PG_PAGESIZE \<noteq> 0"

abbreviation present :: "u64 \<Rightarrow> bool" where
  "present e \<equiv> e AND PG_PRESENT \<noteq> 0"

section \<open>Tables\<close>

definition write_entry :: "ptr \<Rightarrow> nat \<Rightarrow> u64 \<Rightarrow> vm \<Rightarrow> vm" where
  "write_entry t i e s = s\<lparr>vm_tables := (vm_tables s)(t := (vm_tables s t)(i := e))\<rparr>"

definition clear_table :: "ptr \<Rightarrow> vm \<Rightarrow> vm" where
  "clear_table t s = s\<lparr>vm_tables := (vm_tables s)(t := (\<lambda>_. 0))\<rparr>"

definition vmm_invalidate_page :: "u64 \<Rightarrow> vm \<Rightarrow> vm" where
  "vmm_invalidate_page virt_addr s = s\<lparr>vm_invalidated := virt_addr # vm_invalidated s\<rparr>"

text \<open>The write and user bits a table on the way needs.\<close>

definition parent_flags :: "u16 \<Rightarrow> u64" where
  "parent_flags flags =
     (if ucast flags AND PG_WRITE \<noteq> 0 then PG_WRITE else 0) OR (if ucast flags AND PG_USER \<noteq> 0 then PG_USER else 0)"

text \<open>The loop of \<^verbatim>\<open>ensure_tables\<close>, by the levels that remain.\<close>

fun ensure_loop :: "nat \<Rightarrow> u64 \<Rightarrow> u16 \<Rightarrow> ptr \<Rightarrow> vm \<Rightarrow> vm \<times> ptr" where
  "ensure_loop 0 virt_addr flags current_table s = (s, current_table)"
| "ensure_loop (Suc n) virt_addr flags current_table s =
     (let current_index = vmm_virt_to_table_index virt_addr (Suc n + 1);
          current_entry = vm_tables s current_table current_index
      in if current_entry AND PG_PRESENT = 0 then
           let (region, new_table) = page_alloc (vm_phys s); s = s\<lparr>vm_phys := region\<rparr>
           in if new_table AND 0xfff \<noteq> 0 then (s, NULL)
              else
                let new_ptr = vmm_phys_to_virt new_table;
                    s = clear_table new_ptr s;
                    s = write_entry current_table current_index
                          (vmm_phys_and_flags_to_table_entry new_table (PG_PRESENT OR parent_flags flags)) s
                in ensure_loop n virt_addr flags new_ptr s
         else if Suc n > 1 \<and> is_pagesize_leaf current_entry then (s, NULL)
         else
           let s = write_entry current_table current_index
                     (vmm_phys_and_flags_to_table_entry (vmm_table_entry_to_phys current_entry)
                        (ucast (vmm_table_entry_to_page_flags current_entry) OR parent_flags flags)) s
           in ensure_loop n virt_addr flags (vmm_phys_to_virt (vmm_table_entry_to_phys current_entry)) s)"

definition ensure_tables :: "ptr \<Rightarrow> u64 \<Rightarrow> nat \<Rightarrow> u16 \<Rightarrow> vm \<Rightarrow> vm \<times> ptr" where
  "ensure_tables root_table virt_addr to_level flags s =
     (if to_level < 1 \<or> to_level > 4 then (s, NULL) else ensure_loop (4 - to_level) virt_addr flags root_table s)"

section \<open>Mapping\<close>

definition nolock_vmm_map_page_containing_in :: "ptr \<Rightarrow> u64 \<Rightarrow> u64 \<Rightarrow> u16 \<Rightarrow> vm \<Rightarrow> vm \<times> bool" where
  "nolock_vmm_map_page_containing_in pml4 virt_addr phys_addr flags s =
     (let aligned_virt_addr = virt_addr AND PAGE_ALIGN_MASK;
          (s, pt) = ensure_tables pml4 aligned_virt_addr 1 flags s
      in if pt = NULL then (s, False)
         else
           let s = write_entry pt (vmm_virt_to_pt_index virt_addr) (vmm_phys_and_flags_to_table_entry phys_addr (ucast flags)) s;
               s = vmm_invalidate_page virt_addr s
           in (s, True))"

definition vmm_map_page_containing_in :: "ptr \<Rightarrow> u64 \<Rightarrow> u64 \<Rightarrow> u16 \<Rightarrow> vm \<Rightarrow> (vm \<times> bool) option" where
  "vmm_map_page_containing_in pml4 virt_addr phys_addr flags s =
     (if vm_locked s then None else Some (nolock_vmm_map_page_containing_in pml4 virt_addr phys_addr flags s))"

definition vmm_map_page_containing :: "u64 \<Rightarrow> u64 \<Rightarrow> u64 \<Rightarrow> u16 \<Rightarrow> vm \<Rightarrow> (vm \<times> bool) option" where
  "vmm_map_page_containing cr3 virt_addr phys_addr flags s = vmm_map_page_containing_in (vmm_phys_to_virt cr3) virt_addr phys_addr flags s"

definition vmm_map_page_in :: "ptr \<Rightarrow> u64 \<Rightarrow> u64 \<Rightarrow> u16 \<Rightarrow> vm \<Rightarrow> (vm \<times> bool) option" where
  "vmm_map_page_in pml4 virt_addr page flags s = vmm_map_page_containing_in pml4 virt_addr page flags s"

definition vmm_map_page :: "u64 \<Rightarrow> u64 \<Rightarrow> u64 \<Rightarrow> u16 \<Rightarrow> vm \<Rightarrow> (vm \<times> bool) option" where
  "vmm_map_page cr3 virt_addr page flags s = vmm_map_page_containing cr3 virt_addr page flags s"

text \<open>The loop over consecutive pages: a failure returns at once, before the lock is released.\<close>

fun map_pages_loop :: "nat \<Rightarrow> u64 \<Rightarrow> ptr \<Rightarrow> u64 \<Rightarrow> u64 \<Rightarrow> u16 \<Rightarrow> vm \<Rightarrow> vm \<times> bool" where
  "map_pages_loop 0 i pml4 virt_addr phys_addr flags s = (s, True)"
| "map_pages_loop (Suc n) i pml4 virt_addr phys_addr flags s =
     (let (s, ok) = nolock_vmm_map_page_containing_in pml4 (virt_addr + push_bit VM_PAGE_LINEAR_SHIFT i)
                      (phys_addr + push_bit VM_PAGE_LINEAR_SHIFT i) flags s
      in if \<not> ok then (s, False) else map_pages_loop n (i + 1) pml4 virt_addr phys_addr flags s)"

definition vmm_map_pages_containing_in :: "ptr \<Rightarrow> u64 \<Rightarrow> u64 \<Rightarrow> u16 \<Rightarrow> nat \<Rightarrow> vm \<Rightarrow> (vm \<times> bool) option" where
  "vmm_map_pages_containing_in pml4 virt_addr phys_addr flags num_pages s =
     (if vm_locked s then None
      else let (s, ok) = map_pages_loop num_pages 0 pml4 virt_addr phys_addr flags (s\<lparr>vm_locked := True\<rparr>)
           in if \<not> ok then Some (s, False) else Some (s\<lparr>vm_locked := False\<rparr>, True))"

section \<open>Unmapping\<close>

definition nolock_vmm_unmap_page_in :: "ptr \<Rightarrow> u64 \<Rightarrow> vm \<Rightarrow> vm \<times> u64" where
  "nolock_vmm_unmap_page_in pml4 virt_addr s =
     (let pml4_index = vmm_virt_to_pml4_index virt_addr; pml4e = vm_tables s pml4 pml4_index
      in if present pml4e then
           if is_pagesize_leaf pml4e
           then (vmm_invalidate_page virt_addr (write_entry pml4 pml4_index 0 s), vmm_table_entry_to_phys pml4e)
           else
             let pdpt = vmm_phys_to_virt (vmm_table_entry_to_phys pml4e);
                 pdpt_index = vmm_virt_to_pdpt_index virt_addr; pdpte = vm_tables s pdpt pdpt_index
             in if present pdpte then
                  if is_pagesize_leaf pdpte
                  then (vmm_invalidate_page virt_addr (write_entry pdpt pdpt_index 0 s), vmm_table_entry_to_phys pdpte)
                  else
                    let pd = vmm_phys_to_virt (vmm_table_entry_to_phys pdpte);
                        pd_index = vmm_virt_to_pd_index virt_addr; pde = vm_tables s pd pd_index
                    in if present pde then
                         if is_pagesize_leaf pde
                         then (vmm_invalidate_page virt_addr (write_entry pd pd_index 0 s), vmm_table_entry_to_phys pde)
                         else
                           let pt = vmm_phys_to_virt (vmm_table_entry_to_phys pde);
                               pt_index = vmm_virt_to_pt_index virt_addr; pte = vm_tables s pt pt_index
                           in if present pte
                              then (vmm_invalidate_page virt_addr (write_entry pt pt_index 0 s), vmm_table_entry_to_phys pte)
                              else (s, 0)
                       else (s, 0)
                else (s, 0)
         else (s, 0))"

definition vmm_unmap_page_in :: "ptr \<Rightarrow> u64 \<Rightarrow> vm \<Rightarrow> (vm \<times> u64) option" where
  "vmm_unmap_page_in pml4 virt_addr s = (if vm_locked s then None else Some (nolock_vmm_unmap_page_in pml4 virt_addr s))"

definition vmm_unmap_page :: "u64 \<Rightarrow> u64 \<Rightarrow> vm \<Rightarrow> (vm \<times> u64) option" where
  "vmm_unmap_page cr3 virt_addr s = vmm_unmap_page_in (vmm_phys_to_virt cr3) virt_addr s"

fun unmap_pages_loop :: "nat \<Rightarrow> u64 \<Rightarrow> ptr \<Rightarrow> u64 \<Rightarrow> vm \<Rightarrow> vm" where
  "unmap_pages_loop 0 i pml4 virt_addr s = s"
| "unmap_pages_loop (Suc n) i pml4 virt_addr s =
     unmap_pages_loop n (i + 1) pml4 virt_addr (fst (nolock_vmm_unmap_page_in pml4 (virt_addr + push_bit VM_PAGE_LINEAR_SHIFT i) s))"

definition vmm_unmap_pages_in :: "ptr \<Rightarrow> u64 \<Rightarrow> nat \<Rightarrow> vm \<Rightarrow> (vm \<times> u64) option" where
  "vmm_unmap_pages_in pml4 virt_addr num_pages s =
     (if vm_locked s then None
      else let (s, result) = nolock_vmm_unmap_page_in pml4 virt_addr s
           in Some (unmap_pages_loop (num_pages - 1) 1 pml4 virt_addr s, result))"

definition vmm_unmap_pages :: "u64 \<Rightarrow> u64 \<Rightarrow> nat \<Rightarrow> vm \<Rightarrow> (vm \<times> u64) option" where
  "vmm_unmap_pages cr3 virt_addr num_pages s = vmm_unmap_pages_in (vmm_phys_to_virt cr3) virt_addr num_pages s"

section \<open>Translation\<close>

definition vmm_virt_to_pt_entry :: "u64 \<Rightarrow> u64 \<Rightarrow> vm \<Rightarrow> u64" where
  "vmm_virt_to_pt_entry cr3 virt_addr s =
     (let pml4e = vm_tables s (vmm_phys_to_virt cr3) (vmm_virt_to_pml4_index virt_addr)
      in if present pml4e then
           let pdpte = vm_tables s (vmm_phys_to_virt (vmm_table_entry_to_phys pml4e)) (vmm_virt_to_pdpt_index virt_addr)
           in if present pdpte then
                let pde = vm_tables s (vmm_phys_to_virt (vmm_table_entry_to_phys pdpte)) (vmm_virt_to_pd_index virt_addr)
                in if present pde then
                     let pte = vm_tables s (vmm_phys_to_virt (vmm_table_entry_to_phys pde)) (vmm_virt_to_pt_index virt_addr)
                     in if present pte then pte else 0
                   else 0
              else 0
         else 0)"

definition vmm_virt_to_phys_page :: "u64 \<Rightarrow> u64 \<Rightarrow> vm \<Rightarrow> u64" where
  "vmm_virt_to_phys_page cr3 virt_addr s = vmm_table_entry_to_phys (vmm_virt_to_pt_entry cr3 virt_addr s)"

definition vmm_virt_to_phys :: "u64 \<Rightarrow> u64 \<Rightarrow> vm \<Rightarrow> u64" where
  "vmm_virt_to_phys cr3 virt_addr s = vmm_virt_to_phys_page cr3 virt_addr s + (virt_addr AND 0xfff)"

section \<open>Entries\<close>

definition child :: "u64 \<Rightarrow> ptr" where
  "child e = vmm_phys_to_virt (vmm_table_entry_to_phys e)"

text \<open>A frame the direct mapping covers.\<close>

definition table_frame :: "u64 \<Rightarrow> bool" where
  "table_frame f \<longleftrightarrow> page_aligned f \<and> f < 0x800000000000"

lemma entry_masks:
  "(0x0000fffffffff000 :: u64) = push_bit 12 (mask 36)" "(0x3ff :: u64) = mask 10" "(0xfff :: u64) = mask 12" "(0x1ff :: u64) = mask 9"
  by (simp_all add: mask_eq_exp_minus_1 push_bit_eq_mult)

lemma bit_flag: "(e :: u64) AND 2 ^ n \<noteq> 0 \<longleftrightarrow> bit e n"
  by (simp add: and_exp_eq_0_iff_not_bit)

lemma present_bit: "present e \<longleftrightarrow> bit e 0"
  using bit_flag [of e 0] by (simp add: PG_PRESENT_def)

lemma leaf_bit: "is_pagesize_leaf e \<longleftrightarrow> bit e 7"
  using bit_flag [of e 7] by (simp add: is_pagesize_leaf_def PG_PAGESIZE_def)

lemma bit_one_shift: "m < 64 \<Longrightarrow> bit (2 ^ m :: u64) n \<longleftrightarrow> n = m"
  by (auto simp: bit_exp_iff)

lemma bit_PG: "bit PG_PRESENT n \<longleftrightarrow> n = 0" "bit PG_WRITE n \<longleftrightarrow> n = 1" "bit PG_USER n \<longleftrightarrow> n = 2"
  using bit_one_shift [of 0 n] bit_one_shift [of 1 n] bit_one_shift [of 2 n] by (simp_all add: PG_PRESENT_def PG_WRITE_def PG_USER_def)

lemma bit_parent_flags: "bit (parent_flags fl) n \<Longrightarrow> n = 1 \<or> n = 2"
  unfolding parent_flags_def by (auto simp: bit_or_iff bit_PG split: if_splits)

lemma bit_entry_phys: "bit (vmm_table_entry_to_phys e) n \<longleftrightarrow> bit e n \<and> 12 \<le> n \<and> n < 48"
  unfolding vmm_table_entry_to_phys_def entry_masks by (auto simp: bit_simps)

lemma bit_entry: "bit (vmm_phys_and_flags_to_table_entry p fl) n \<longleftrightarrow> (bit p n \<and> 12 \<le> n) \<or> bit fl n"
  unfolding vmm_phys_and_flags_to_table_entry_def entry_masks by (auto simp: bit_simps dest: bit_imp_le_length)

lemma bit_page_flags: "bit (ucast (vmm_table_entry_to_page_flags e) :: u64) n \<longleftrightarrow> bit e n \<and> n < 10"
  unfolding vmm_table_entry_to_page_flags_def entry_masks by (auto simp: bit_simps)

lemma table_frame_bits: "table_frame f \<Longrightarrow> bit f n \<Longrightarrow> 12 \<le> n \<and> n < 47"
proof
  assume f: "table_frame f" "bit f n"
  have "take_bit 12 f = 0" using f(1) by (simp add: table_frame_def page_aligned_def take_bit_eq_mask entry_masks)
  then have "\<not> (n < 12)" using f(2) bit_take_bit_iff [of 12 f n] by auto
  then show "12 \<le> n" by simp
  have "unat f < 2 ^ 47" using f(1) by (simp add: table_frame_def word_less_nat_alt)
  then have "take_bit 47 (unat f) = unat f" by (simp add: take_bit_nat_eq_self_iff)
  then have "take_bit 47 f = f" by (metis unsigned_take_bit_eq word_unat_eq_iff)
  then show "n < 47" using f(2) bit_take_bit_iff [of 47 f n] by auto
qed

lemma table_frame_phys: "table_frame f \<Longrightarrow> vmm_table_entry_to_phys f = f"
proof (rule bit_word_eqI)
  fix n assume "table_frame f"
  then show "bit (vmm_table_entry_to_phys f) n = bit f n" using table_frame_bits [of f n] by (auto simp: bit_entry_phys)
qed

lemma new_entry:
  fixes fl :: u16
  assumes "table_frame f"
  defines "e \<equiv> vmm_phys_and_flags_to_table_entry f (PG_PRESENT OR parent_flags fl)"
  shows "vmm_table_entry_to_phys e = f" "present e" "\<not> is_pagesize_leaf e"
proof -
  have b: "bit e n \<longleftrightarrow> bit f n \<or> n = 0 \<or> bit (parent_flags fl) n" for n
    unfolding e_def using table_frame_bits [OF assms(1), of n] by (auto simp: bit_entry bit_or_iff bit_PG)
  show "vmm_table_entry_to_phys e = f"
  proof (rule bit_word_eqI)
    fix n
    show "bit (vmm_table_entry_to_phys e) n = bit f n"
      using b [of n] table_frame_bits [OF assms(1), of n] bit_parent_flags [of fl n] by (auto simp: bit_entry_phys)
  qed
  show "present e" unfolding present_bit b by simp
  have "\<not> bit f 7" using table_frame_bits [OF assms(1), of 7] by auto
  then show "\<not> is_pagesize_leaf e" unfolding leaf_bit b using bit_parent_flags [of fl 7] by auto
qed

lemma kept_entry:
  fixes fl :: u16
  assumes "present e"
  defines "e' \<equiv> vmm_phys_and_flags_to_table_entry (vmm_table_entry_to_phys e) (ucast (vmm_table_entry_to_page_flags e) OR parent_flags fl)"
  shows "vmm_table_entry_to_phys e' = vmm_table_entry_to_phys e" "present e'" "is_pagesize_leaf e' \<longleftrightarrow> is_pagesize_leaf e"
proof -
  have b: "bit e' n \<longleftrightarrow> (bit e n \<and> (n < 10 \<or> 12 \<le> n \<and> n < 48)) \<or> bit (parent_flags fl) n" for n
    unfolding e'_def by (auto simp: bit_entry bit_or_iff bit_page_flags bit_entry_phys)
  show "vmm_table_entry_to_phys e' = vmm_table_entry_to_phys e"
  proof (rule bit_word_eqI)
    fix n
    show "bit (vmm_table_entry_to_phys e') n = bit (vmm_table_entry_to_phys e) n"
      using b [of n] bit_parent_flags [of fl n] by (auto simp: bit_entry_phys)
  qed
  show "present e'" using assms(1) unfolding present_bit b by simp
  show "is_pagesize_leaf e' \<longleftrightarrow> is_pagesize_leaf e" unfolding leaf_bit b using bit_parent_flags [of fl 7] by auto
qed

lemma phys_to_virt_inj: "vmm_phys_to_virt a = vmm_phys_to_virt b \<longleftrightarrow> a = b"
  by (simp add: vmm_phys_to_virt_def)

lemma phys_to_virt_not_NULL: "table_frame f \<Longrightarrow> vmm_phys_to_virt f \<noteq> NULL"
proof
  assume f: "table_frame f" "vmm_phys_to_virt f = NULL"
  then have "f = - DIRECT_MAP_BASE" by (simp add: vmm_phys_to_virt_def eq_neg_iff_add_eq_0 add.commute)
  then have "f = 0x800000000000" by (simp add: DIRECT_MAP_BASE_def)
  then show False using f(1) by (simp add: table_frame_def)
qed

section \<open>The tree of tables\<close>

fun reach :: "tables \<Rightarrow> ptr \<Rightarrow> nat list \<Rightarrow> ptr option" where
  "reach m t [] = Some t"
| "reach m t (i # p) = (if present (m t i) \<and> \<not> is_pagesize_leaf (m t i) then reach m (child (m t i)) p else None)"

definition wpath :: "nat list \<Rightarrow> bool" where
  "wpath p \<longleftrightarrow> length p \<le> 3 \<and> (\<forall>i \<in> set p. i < 512)"

definition tree_ok :: "tables \<Rightarrow> nat set \<Rightarrow> ptr \<Rightarrow> bool" where
  "tree_ok m F root \<longleftrightarrow>
     (\<forall>p a. wpath p \<and> reach m root p = Some a \<longrightarrow> (\<exists>f. a = vmm_phys_to_virt f \<and> table_frame f \<and> pfn f \<notin> F))
     \<and> (\<forall>p q a. wpath p \<and> wpath q \<and> reach m root p = Some a \<and> reach m root q = Some a \<longrightarrow> p = q)"

lemma reach_append: "reach m t (p @ q) = (case reach m t p of None \<Rightarrow> None | Some a \<Rightarrow> reach m a q)"
  by (induction p arbitrary: t) simp_all

lemma wpath_snoc: "wpath (p @ [i]) \<longleftrightarrow> wpath p \<and> length p < 3 \<and> i < 512"
  by (auto simp: wpath_def)

lemma reach_cong:
  assumes "\<And>t i. present (m' t i) = present (m t i) \<and> is_pagesize_leaf (m' t i) = is_pagesize_leaf (m t i) \<and> (present (m t i) \<longrightarrow> child (m' t i) = child (m t i))"
  shows "reach m' t p = reach m t p"
  using assms by (induction p arbitrary: t) simp_all

text \<open>Linking a fresh table.\<close>

lemma reach_link:
  assumes root: "reach m root p0 = Some t" "wpath (p0 @ [i])" and inj: "tree_ok m F root"
    and abs: "\<not> present (m t i)" and fresh: "\<And>p. wpath p \<Longrightarrow> reach m root p \<noteq> Some new"
    and e: "present e" "\<not> is_pagesize_leaf e" "child e = new"
    and m': "m' = (m(new := (\<lambda>_. 0)))(t := (m t)(i := e))"
    and p: "wpath p"
  shows "reach m' root p = (if p = p0 @ [i] then Some new else reach m root p)"
  using p
proof (induction p rule: rev_induct)
  case Nil
  then show ?case by simp
next
  case (snoc j q)
  have q: "wpath q" "length q < 3" using snoc.prems by (simp_all add: wpath_snoc)
  have t: "t \<noteq> new" using root fresh [of p0] by (auto simp: wpath_snoc)
  have zero: "\<not> present (m' new x)" for x using t m' by simp
  have none: "reach m root (p0 @ [i]) = None" using root(1) abs by (simp add: reach_append)
  show ?case
  proof (cases "q = p0 @ [i]")
    case True
    have "reach m root (q @ [j]) = None" using reach_append [of m root q "[j]"] none True by simp
    moreover have "reach m' root (q @ [j]) = None" using reach_append [of m' root q "[j]"] snoc.IH [OF q(1)] True zero by simp
    ultimately show ?thesis using True by simp
  next
    case False
    then have IH: "reach m' root q = reach m root q" using snoc.IH [OF q(1)] by simp
    show ?thesis
    proof (cases "reach m root q")
      case None
      then have "q \<noteq> p0" using root by auto
      then show ?thesis using None IH by (simp add: reach_append)
    next
      case (Some a)
      have a: "a \<noteq> new" using fresh [OF q(1)] Some by auto
      have "a = t \<longleftrightarrow> q = p0" using Some root inj q(1) unfolding tree_ok_def by (metis option.inject wpath_snoc)
      moreover have "m' a j = (if a = t \<and> j = i then e else m a j)" using m' a by simp
      ultimately show ?thesis using Some IH abs e reach_append [of m root q "[j]"] reach_append [of m' root q "[j]"]
        by (cases "q = p0"; cases "j = i") simp_all
    qed
  qed
qed

text \<open>What the last level says about a page, and whether a large page is in the way.\<close>

definition pte_at :: "tables \<Rightarrow> ptr \<Rightarrow> nat list \<Rightarrow> nat \<Rightarrow> u64" where
  "pte_at m root p j = (case reach m root p of None \<Rightarrow> 0 | Some t \<Rightarrow> if present (m t j) then m t j else 0)"

definition large_at :: "tables \<Rightarrow> ptr \<Rightarrow> nat list \<Rightarrow> nat \<Rightarrow> bool" where
  "large_at m root p j \<longleftrightarrow> (case reach m root p of None \<Rightarrow> False | Some t \<Rightarrow> present (m t j) \<and> is_pagesize_leaf (m t j))"

definition vm_ok :: "ptr \<Rightarrow> vm \<Rightarrow> bool" where
  "vm_ok root s \<longleftrightarrow> region_wf (vm_phys s) \<and> (\<forall>f \<in> free_pages (vm_phys s). f < 34359738368)
     \<and> tree_ok (vm_tables s) (free_pages (vm_phys s)) root"

lemma tree_okD:
  assumes "tree_ok m F root" "wpath p" "reach m root p = Some a"
  shows "\<exists>f. a = vmm_phys_to_virt f \<and> table_frame f \<and> pfn f \<notin> F" "wpath q \<Longrightarrow> reach m root q = Some a \<Longrightarrow> p = q"
  using assms unfolding tree_ok_def by blast+

text \<open>Rewriting the flags of an entry on the way.\<close>

lemma keep_step:
  assumes ok: "tree_ok m F root" and t: "reach m root p0 = Some t" "wpath p0" "length p0 < 3" and pr: "present (m t i)"
    and e: "vmm_table_entry_to_phys e = vmm_table_entry_to_phys (m t i)" "present e" "is_pagesize_leaf e \<longleftrightarrow> is_pagesize_leaf (m t i)"
  defines "m' \<equiv> m(t := (m t)(i := e))"
  shows "reach m' r p = reach m r p" "tree_ok m' F root" "large_at m' root p j = large_at m root p j"
    "wpath q \<Longrightarrow> length q = 3 \<Longrightarrow> pte_at m' root q j = pte_at m root q j"
proof -
  have same: "present (m' x k) = present (m x k) \<and> is_pagesize_leaf (m' x k) = is_pagesize_leaf (m x k) \<and> (present (m x k) \<longrightarrow> child (m' x k) = child (m x k))" for x k
    using e pr by (auto simp: m'_def child_def)
  then show r: "reach m' r p = reach m r p" for r p by (rule reach_cong)
  show "tree_ok m' F root" using ok by (simp add: tree_ok_def r)
  show "large_at m' root p j = large_at m root p j" by (simp add: large_at_def r same split: option.split)
  show "pte_at m' root q j = pte_at m root q j" if q: "wpath q" "length q = 3"
  proof (cases "reach m root q")
    case (Some a)
    then have "a \<noteq> t" using tree_okD(2) [OF ok t(2) _ q(1), of t] t(1,3) q(2) by auto
    then have "m' a = m a" by (simp add: m'_def)
    then show ?thesis using Some by (simp add: pte_at_def r)
  qed (simp add: pte_at_def r)
qed

text \<open>Linking a fresh table.\<close>

lemma link_step:
  assumes ok: "tree_ok m F root" and t: "reach m root p0 = Some t" "wpath (p0 @ [i])" and ab: "\<not> present (m t i)"
    and f: "table_frame f" "pfn f \<in> F"
    and e: "vmm_table_entry_to_phys e = f" "present e" "\<not> is_pagesize_leaf e"
  defines "m' \<equiv> (m(vmm_phys_to_virt f := (\<lambda>_. 0)))(t := (m t)(i := e))"
  shows "reach m' root (p0 @ [i]) = Some (vmm_phys_to_virt f)" "tree_ok m' (F - {pfn f}) root"
    "wpath p \<Longrightarrow> large_at m' root p j \<Longrightarrow> large_at m root p j"
    "wpath q \<Longrightarrow> length q = 3 \<Longrightarrow> pte_at m' root q j = pte_at m root q j"
proof -
  let ?new = "vmm_phys_to_virt f"
  have fresh: "reach m root p \<noteq> Some ?new" if "wpath p" for p
    using tree_okD(1) [OF ok that, of ?new] f(2) by (auto simp: phys_to_virt_inj)
  have p0: "wpath p0" "length p0 < 3" using t(2) by (simp_all add: wpath_snoc)
  have r: "reach m' root p = (if p = p0 @ [i] then Some ?new else reach m root p)" if "wpath p" for p
    using e that by (intro reach_link [OF t ok ab fresh, where e = e and m' = m']) (simp_all add: child_def m'_def)
  have tn: "t \<noteq> ?new" using fresh [OF p0(1)] t(1) by auto
  have zero: "\<not> present (m' ?new x)" for x using tn by (simp add: m'_def)
  have none: "reach m root (p0 @ [i]) = None" using t(1) ab by (simp add: reach_append)
  show "reach m' root (p0 @ [i]) = Some ?new" using r [OF t(2)] by simp
  show "tree_ok m' (F - {pfn f}) root" unfolding tree_ok_def
  proof (intro conjI allI impI)
    fix p a assume p: "wpath p \<and> reach m' root p = Some a"
    then show "\<exists>f'. a = vmm_phys_to_virt f' \<and> table_frame f' \<and> pfn f' \<notin> F - {pfn f}"
      using r [of p] f tree_okD(1) [OF ok, of p a] by (cases "p = p0 @ [i]") auto
  next
    fix p q a assume "wpath p \<and> wpath q \<and> reach m' root p = Some a \<and> reach m' root q = Some a"
    then have w: "wpath p" "wpath q" and ra: "reach m' root p = Some a" "reach m' root q = Some a" by simp_all
    have new: "x = p0 @ [i] \<longleftrightarrow> a = ?new" if "wpath x" "reach m' root x = Some a" for x
      using r [OF that(1)] that(2) fresh [OF that(1)] by (cases "x = p0 @ [i]") auto
    show "p = q"
    proof (cases "a = ?new")
      case True
      then show ?thesis using new [OF w(1) ra(1)] new [OF w(2) ra(2)] by simp
    next
      case False
      then have "reach m root p = Some a" "reach m root q = Some a"
        using new [OF w(1) ra(1)] new [OF w(2) ra(2)] r [OF w(1)] r [OF w(2)] ra by simp_all
      then show ?thesis using tree_okD(2) [OF ok w(1) _ w(2)] by simp
    qed
  qed
  show "large_at m root p j" if p: "wpath p" "large_at m' root p j"
  proof -
    obtain a where a: "reach m' root p = Some a" "present (m' a j)" "is_pagesize_leaf (m' a j)"
      using p(2) by (auto simp: large_at_def split: option.splits)
    then have "a \<noteq> ?new" using zero by auto
    then have "reach m root p = Some a" using r [OF p(1)] a(1) by (auto split: if_splits)
    moreover have "m' a j = m a j" using a(3) e(3) \<open>a \<noteq> ?new\<close> by (auto simp: m'_def)
    ultimately show ?thesis using a by (simp add: large_at_def)
  qed
  show "pte_at m' root q j = pte_at m root q j" if q: "wpath q" "length q = 3"
  proof (cases "q = p0 @ [i]")
    case True
    then show ?thesis using r [OF q(1)] none zero by (simp add: pte_at_def)
  next
    case False
    then have rq: "reach m' root q = reach m root q" using r [OF q(1)] by simp
    show ?thesis
    proof (cases "reach m root q")
      case (Some a)
      then have "a \<noteq> t" using tree_okD(2) [OF ok p0(1) _ q(1), of t] t(1) p0(2) q(2) by auto
      moreover have "a \<noteq> ?new" using fresh [OF q(1)] Some by auto
      ultimately have "m' a = m a" by (simp add: m'_def)
      then show ?thesis using Some rq by (simp add: pte_at_def)
    qed (simp add: pte_at_def rq)
  qed
qed

text \<open>The indices of an address below a level.\<close>

fun va_path :: "nat \<Rightarrow> u64 \<Rightarrow> nat list" where
  "va_path 0 va = []"
| "va_path (Suc n) va = vmm_virt_to_table_index va (Suc n + 1) # va_path n va"

lemma table_index_less: "vmm_virt_to_table_index va l < 512"
proof -
  have "unat (x AND 0x1ff) < 512" for x :: u64
  proof -
    have "x AND 0x1ff = take_bit 9 x" by (simp add: entry_masks take_bit_eq_mask)
    then show ?thesis using take_bit_nat_less_exp [of 9 "unat x"] by (simp add: unsigned_take_bit_eq)
  qed
  then show ?thesis by (simp add: vmm_virt_to_table_index_def)
qed

lemma length_va_path [simp]: "length (va_path n va) = n"
  by (induction n) simp_all

lemma va_path_bound: "\<forall>i \<in> set (va_path n va). i < 512"
  by (induction n) (simp_all add: table_index_less)

lemma fresh_frame:
  assumes "vm_ok root s" "page_alloc (vm_phys s) = (r, x)" "free_pages (vm_phys s) \<noteq> {}"
  shows "table_frame x" "pfn x \<in> free_pages (vm_phys s)" "free_pages r = free_pages (vm_phys s) - {pfn x}" "region_wf r" "x AND 0xfff = 0"
proof -
  have w: "region_wf (vm_phys s)" "\<forall>f \<in> free_pages (vm_phys s). f < 34359738368" using assms(1) by (simp_all add: vm_ok_def)
  have al: "page_aligned x" "pfn x \<in> free_pages (vm_phys s)" "free_pages r = free_pages (vm_phys s) - {pfn x}" "region_wf r"
    using pmm.alloc_ok [OF w(1) assms(3,2)] by simp_all
  have "unat x < 140737488355328" using w(2) al(2) page_aligned_pfn [OF al(1)] by auto
  then show "table_frame x" using al(1) by (simp add: table_frame_def word_less_nat_alt)
  show "x AND 0xfff = 0" using al(1) by (simp add: page_aligned_def)
qed (use assms pmm.alloc_ok in \<open>auto simp: vm_ok_def\<close>)

text \<open>The way down to the last table of an address: nothing that is mapped changes, and the way ends at the table
  the indices lead to, if there are frames for the tables that are missing.\<close>

definition same_ptes :: "tables \<Rightarrow> tables \<Rightarrow> ptr \<Rightarrow> bool" where
  "same_ptes m m' root \<longleftrightarrow> (\<forall>p j. wpath p \<and> length p = 3 \<longrightarrow> pte_at m' root p j = pte_at m root p j)"

definition no_new_large :: "tables \<Rightarrow> tables \<Rightarrow> ptr \<Rightarrow> bool" where
  "no_new_large m m' root \<longleftrightarrow> (\<forall>p j. wpath p \<and> length p < 3 \<and> large_at m' root p j \<longrightarrow> large_at m root p j)"

lemma same_ptes_trans: "same_ptes m m' root \<Longrightarrow> same_ptes m' m'' root \<Longrightarrow> same_ptes m m'' root"
  by (simp add: same_ptes_def)

lemma no_new_large_trans: "no_new_large m m' root \<Longrightarrow> no_new_large m' m'' root \<Longrightarrow> no_new_large m m'' root"
  unfolding no_new_large_def by blast

definition no_large :: "tables \<Rightarrow> ptr \<Rightarrow> nat list \<Rightarrow> nat list \<Rightarrow> bool" where
  "no_large m root p0 rest \<longleftrightarrow> (\<forall>q j r. rest = q @ j # r \<longrightarrow> \<not> large_at m root (p0 @ q) j)"

lemma no_large_Cons: "no_large m root p0 (i # rest) \<longleftrightarrow> \<not> large_at m root p0 i \<and> no_large m root (p0 @ [i]) rest"
proof
  assume l: "no_large m root p0 (i # rest)"
  have "\<not> large_at m root p0 i" using l [unfolded no_large_def, rule_format, of "[]" i rest] by simp
  moreover have "\<not> large_at m root ((p0 @ [i]) @ q) j" if "rest = q @ j # r" for q j r
    using l [unfolded no_large_def, rule_format, of "i # q" j r] that by simp
  ultimately show "\<not> large_at m root p0 i \<and> no_large m root (p0 @ [i]) rest" by (simp add: no_large_def)
next
  assume l: "\<not> large_at m root p0 i \<and> no_large m root (p0 @ [i]) rest"
  show "no_large m root p0 (i # rest)" unfolding no_large_def
  proof (intro allI impI)
    fix q j r assume e: "i # rest = q @ j # r"
    show "\<not> large_at m root (p0 @ q) j"
    proof (cases q)
      case Nil
      then show ?thesis using e l by simp
    next
      case (Cons k ks)
      then show ?thesis using e l [THEN conjunct2, unfolded no_large_def, rule_format, of ks j r] by simp
    qed
  qed
qed

lemma no_large_mono:
  assumes "no_large m root p0 rest" "wpath (p0 @ rest)" "no_new_large m m' root"
  shows "no_large m' root p0 rest"
  unfolding no_large_def
proof (intro allI impI)
  fix q j r assume e: "rest = q @ j # r"
  then have "wpath (p0 @ q)" "length (p0 @ q) < 3" using assms(2) by (auto simp: wpath_def)
  then show "\<not> large_at m' root (p0 @ q) j" using assms(1,3) e unfolding no_large_def no_new_large_def by blast
qed

text \<open>Frames the mapper leaves alone: neither tables of the tree nor free.\<close>

definition untouched :: "ptr \<Rightarrow> ptr \<Rightarrow> vm \<Rightarrow> bool" where
  "untouched root a s \<longleftrightarrow> (\<forall>p. wpath p \<longrightarrow> reach (vm_tables s) root p \<noteq> Some a)
     \<and> (\<forall>f. a = vmm_phys_to_virt f \<longrightarrow> pfn f \<notin> free_pages (vm_phys s))"

definition keeps :: "ptr \<Rightarrow> ptr \<Rightarrow> vm \<Rightarrow> vm \<Rightarrow> bool" where
  "keeps root a s s' \<longleftrightarrow> (untouched root a s \<longrightarrow> untouched root a s' \<and> vm_tables s' a = vm_tables s a)"

lemma keeps_trans: "keeps root a s s1 \<Longrightarrow> keeps root a s1 s2 \<Longrightarrow> keeps root a s s2"
  by (simp add: keeps_def)

lemma keeps_refl [simp]: "keeps root a s s"
  by (simp add: keeps_def)

lemma keep_step_untouched:
  assumes t: "reach (vm_tables s) root p0 = Some t" "wpath p0" and pr: "present (vm_tables s t i)"
    and e: "vmm_table_entry_to_phys e = vmm_table_entry_to_phys (vm_tables s t i)" "present e" "is_pagesize_leaf e \<longleftrightarrow> is_pagesize_leaf (vm_tables s t i)"
  shows "keeps root a s (write_entry t i e s)"
  unfolding keeps_def
proof
  assume u: "untouched root a s"
  let ?m = "(vm_tables s)(t := (vm_tables s t)(i := e))"
  have "present (?m x k) = present (vm_tables s x k) \<and> is_pagesize_leaf (?m x k) = is_pagesize_leaf (vm_tables s x k)
    \<and> (present (vm_tables s x k) \<longrightarrow> child (?m x k) = child (vm_tables s x k))" for x k
    using e pr by (auto simp: child_def)
  then have "reach ?m r p = reach (vm_tables s) r p" for r p by (rule reach_cong)
  moreover have "a \<noteq> t" using u t by (auto simp: untouched_def)
  ultimately show "untouched root a (write_entry t i e s) \<and> vm_tables (write_entry t i e s) a = vm_tables s a"
    using u by (simp add: untouched_def write_entry_def)
qed

lemma link_step_untouched:
  assumes ok: "vm_ok root s" and t: "reach (vm_tables s) root p0 = Some t" "wpath (p0 @ [i])" and ab: "\<not> present (vm_tables s t i)"
    and al: "page_alloc (vm_phys s) = (r, f)" "free_pages (vm_phys s) \<noteq> {}"
    and e: "vmm_table_entry_to_phys e = f" "present e" "\<not> is_pagesize_leaf e"
  shows "keeps root a s (write_entry t i e (clear_table (vmm_phys_to_virt f) (s\<lparr>vm_phys := r\<rparr>)))"
  unfolding keeps_def
proof
  assume u: "untouched root a s"
  note ff = fresh_frame [OF ok al]
  let ?m = "vm_tables s" and ?s = "write_entry t i e (clear_table (vmm_phys_to_virt f) (s\<lparr>vm_phys := r\<rparr>))"
  have tree: "tree_ok ?m (free_pages (vm_phys s)) root" using ok by (simp add: vm_ok_def)
  have p0: "wpath p0" using t(2) by (simp add: wpath_snoc)
  have fresh: "reach ?m root p \<noteq> Some (vmm_phys_to_virt f)" if "wpath p" for p
    using tree_okD(1) [OF tree that, of "vmm_phys_to_virt f"] ff(2) by (auto simp: phys_to_virt_inj)
  have tn: "t \<noteq> vmm_phys_to_virt f" using fresh [OF p0] t(1) by auto
  have m: "vm_tables ?s = (?m(vmm_phys_to_virt f := (\<lambda>_. 0)))(t := (?m t)(i := e))" "vm_phys ?s = r"
    using tn by (simp_all add: write_entry_def clear_table_def)
  have an: "a \<noteq> vmm_phys_to_virt f" "a \<noteq> t" using u ff(2) t(1) p0 by (auto simp: untouched_def)
  have "reach (vm_tables ?s) root p = (if p = p0 @ [i] then Some (vmm_phys_to_virt f) else reach ?m root p)" if "wpath p" for p
    using e that m(1) by (intro reach_link [OF t tree ab fresh, where e = e]) (simp_all add: child_def)
  then have "reach (vm_tables ?s) root p \<noteq> Some a" if "wpath p" for p using that an(1) u by (auto simp: untouched_def)
  moreover have "\<forall>g. a = vmm_phys_to_virt g \<longrightarrow> pfn g \<notin> free_pages (vm_phys ?s)" using u ff(3) m(2) by (auto simp: untouched_def)
  ultimately show "untouched root a ?s \<and> vm_tables ?s a = ?m a" using an m(1) by (simp add: untouched_def)
qed

lemma ensure_loop_ok:
  assumes "vm_ok root s" "reach (vm_tables s) root p0 = Some t" "length p0 + n = 3" "wpath p0"
    "no_large (vm_tables s) root p0 (va_path n va)" "ensure_loop n va fl t s = (s', t')"
  shows "vm_ok root s' \<and> same_ptes (vm_tables s) (vm_tables s') root \<and> no_new_large (vm_tables s) (vm_tables s') root \<and> free_pages (vm_phys s') \<subseteq> free_pages (vm_phys s)
    \<and> vm_locked s' = vm_locked s \<and> vm_invalidated s' = vm_invalidated s
    \<and> (t' \<noteq> NULL \<longrightarrow> reach (vm_tables s') root (p0 @ va_path n va) = Some t') \<and> (n \<le> card (free_pages (vm_phys s)) \<longrightarrow> t' \<noteq> NULL)
    \<and> keeps root a s s' \<and> (reach (vm_tables s) root (p0 @ va_path n va) \<noteq> None \<longrightarrow> t' \<noteq> NULL \<and> vm_phys s' = vm_phys s)"
  using assms
proof (induction n arbitrary: p0 t s)
  case 0
  then have "s' = s" "t' = t" by simp_all
  moreover obtain f where "t = vmm_phys_to_virt f" "table_frame f" using 0 tree_okD(1) [of "vm_tables s" _ root p0 t] by (auto simp: vm_ok_def)
  ultimately show ?case using 0 phys_to_virt_not_NULL by (auto simp: same_ptes_def no_new_large_def)
next
  case (Suc n)
  let ?m = "vm_tables s" and ?i = "vmm_virt_to_table_index va (Suc n + 1)"
  let ?e = "?m t ?i"
  have w: "wpath (p0 @ [?i])" using Suc.prems(3,4) table_index_less by (simp add: wpath_snoc)
  have wp: "wpath ((p0 @ [?i]) @ va_path n va)" using Suc.prems(3,4) table_index_less va_path_bound by (auto simp: wpath_def)
  have tree: "tree_ok ?m (free_pages (vm_phys s)) root" and reg: "region_wf (vm_phys s)" and low: "\<forall>f \<in> free_pages (vm_phys s). f < 34359738368"
    using Suc.prems(1) by (simp_all add: vm_ok_def)
  have big: "\<not> large_at ?m root p0 ?i" "no_large ?m root (p0 @ [?i]) (va_path n va)" using Suc.prems(5) by (simp_all add: no_large_Cons)
  show ?case
  proof (cases "present ?e")
    case True
    then have nl: "\<not> is_pagesize_leaf ?e" using big(1) Suc.prems(2) by (simp add: large_at_def)
    let ?e' = "vmm_phys_and_flags_to_table_entry (vmm_table_entry_to_phys ?e) (ucast (vmm_table_entry_to_page_flags ?e) OR parent_flags fl)"
    note ke = kept_entry [OF True, of fl]
    have lp: "length p0 < 3" using Suc.prems(3) by simp
    note ks = keep_step [OF tree Suc.prems(2,4) lp True ke]
    let ?s = "write_entry t ?i ?e' s"
    have m: "vm_tables ?s = ?m(t := (?m t)(?i := ?e'))" "vm_phys ?s = vm_phys s" "vm_locked ?s = vm_locked s" "vm_invalidated ?s = vm_invalidated s"
      by (simp_all add: write_entry_def)
    have "vm_ok root ?s" using Suc.prems(1,3) ks(2) m by (simp add: vm_ok_def)
    moreover have "reach (vm_tables ?s) root (p0 @ [?i]) = Some (child ?e)"
      unfolding m(1) ks(1) using Suc.prems(2) True nl by (simp add: reach_append)
    moreover have "no_large (vm_tables ?s) root (p0 @ [?i]) (va_path n va)" using big(2) unfolding m(1) no_large_def ks(3) .
    moreover have "ensure_loop n va fl (child ?e) ?s = (s', t')" using Suc.prems(6) True nl by (simp add: Let_def child_def)
    ultimately have IH: "vm_ok root s' \<and> same_ptes (vm_tables ?s) (vm_tables s') root \<and> no_new_large (vm_tables ?s) (vm_tables s') root \<and> free_pages (vm_phys s') \<subseteq> free_pages (vm_phys ?s)
    \<and> vm_locked s' = vm_locked ?s \<and> vm_invalidated s' = vm_invalidated ?s
    \<and> (t' \<noteq> NULL \<longrightarrow> reach (vm_tables s') root ((p0 @ [?i]) @ va_path n va) = Some t') \<and> (n \<le> card (free_pages (vm_phys ?s)) \<longrightarrow> t' \<noteq> NULL)
    \<and> keeps root a ?s s' \<and> (reach (vm_tables ?s) root ((p0 @ [?i]) @ va_path n va) \<noteq> None \<longrightarrow> t' \<noteq> NULL \<and> vm_phys s' = vm_phys ?s)"
      using Suc.IH [of ?s "p0 @ [?i]" "child ?e"] w Suc.prems(3) by simp
    have sp: "same_ptes ?m (vm_tables ?s) root" using ks(4) unfolding m(1) same_ptes_def by blast
    have nn: "no_new_large ?m (vm_tables ?s) root" unfolding m(1) no_new_large_def ks(3) by blast
    have kp: "keeps root a s ?s" by (rule keep_step_untouched [OF Suc.prems(2,4) True ke])
    have rs: "reach (vm_tables ?s) root ((p0 @ [?i]) @ va_path n va) = reach ?m root (p0 @ va_path (Suc n) va)" unfolding m(1) ks(1) by simp
    show ?thesis
    proof (intro conjI)
      show "same_ptes ?m (vm_tables s') root" using same_ptes_trans [OF sp] IH by blast
      show "no_new_large ?m (vm_tables s') root" using no_new_large_trans [OF nn] IH by blast
      show "keeps root a s s'" using keeps_trans [OF kp] IH by blast
      show "reach ?m root (p0 @ va_path (Suc n) va) \<noteq> None \<longrightarrow> t' \<noteq> NULL \<and> vm_phys s' = vm_phys s" using IH rs m(2) by simp
    qed (use IH m(2-4) in simp_all)
  next
    case False
    obtain r x where rx: "page_alloc (vm_phys s) = (r, x)" by fastforce
    show ?thesis
    proof (cases "free_pages (vm_phys s) = {}")
      case True
      then have "page_alloc (vm_phys s) = (vm_phys s, 0xFF)" by (intro pmm.alloc_fail [OF reg])
      then have "s' = s" "t' = NULL" using Suc.prems(6) False by (simp_all add: Let_def)
      then show ?thesis using Suc.prems(1,2) True False by (simp add: same_ptes_def no_new_large_def reach_append)
    next
      case ne: False
      note ff = fresh_frame [OF Suc.prems(1) rx ne]
      let ?e' = "vmm_phys_and_flags_to_table_entry x (PG_PRESENT OR parent_flags fl)"
      note ks = link_step [OF tree Suc.prems(2) w False ff(1,2) new_entry [OF ff(1), of fl]]
      let ?s = "write_entry t ?i ?e' (clear_table (vmm_phys_to_virt x) (s\<lparr>vm_phys := r\<rparr>))"
      have tn: "t \<noteq> vmm_phys_to_virt x" using tree_okD(1) [OF tree Suc.prems(4,2)] ff(2) by (auto simp: phys_to_virt_inj)
      have m: "vm_tables ?s = (?m(vmm_phys_to_virt x := (\<lambda>_. 0)))(t := (?m t)(?i := ?e'))" "vm_phys ?s = r" "vm_locked ?s = vm_locked s"
        "vm_invalidated ?s = vm_invalidated s" using tn by (simp_all add: write_entry_def clear_table_def)
      have "vm_ok root ?s" using Suc.prems(1) ks(2) m ff(3,4) low by (simp add: vm_ok_def)
      moreover have "reach (vm_tables ?s) root (p0 @ [?i]) = Some (vmm_phys_to_virt x)" using ks(1) m(1) by simp
      moreover have nl: "no_new_large ?m (vm_tables ?s) root" using ks(3) unfolding m(1) no_new_large_def by blast
      moreover have "no_large (vm_tables ?s) root (p0 @ [?i]) (va_path n va)" using nl by (intro no_large_mono [OF big(2) wp])
      moreover have "ensure_loop n va fl (vmm_phys_to_virt x) ?s = (s', t')" using Suc.prems(6) False rx ff(5) by (simp add: Let_def)
      ultimately have IH: "vm_ok root s' \<and> same_ptes (vm_tables ?s) (vm_tables s') root \<and> no_new_large (vm_tables ?s) (vm_tables s') root \<and> free_pages (vm_phys s') \<subseteq> free_pages (vm_phys ?s)
    \<and> vm_locked s' = vm_locked ?s \<and> vm_invalidated s' = vm_invalidated ?s
    \<and> (t' \<noteq> NULL \<longrightarrow> reach (vm_tables s') root ((p0 @ [?i]) @ va_path n va) = Some t') \<and> (n \<le> card (free_pages (vm_phys ?s)) \<longrightarrow> t' \<noteq> NULL)
    \<and> keeps root a ?s s' \<and> (reach (vm_tables ?s) root ((p0 @ [?i]) @ va_path n va) \<noteq> None \<longrightarrow> t' \<noteq> NULL \<and> vm_phys s' = vm_phys ?s)"
        using Suc.IH [of ?s "p0 @ [?i]" "vmm_phys_to_virt x"] w Suc.prems(3) by simp
      have sp: "same_ptes ?m (vm_tables ?s) root" using ks(4) m(1) by (simp add: same_ptes_def)
      have "finite (free_pages (vm_phys s))" by (simp add: free_pages_def)
      then have cd: "card (free_pages r) = card (free_pages (vm_phys s)) - 1" using ff(2,3) by (simp add: card_Diff_singleton)
      show ?thesis
      proof (intro conjI)
        show "same_ptes ?m (vm_tables s') root" using same_ptes_trans [OF sp] IH by blast
        show "no_new_large ?m (vm_tables s') root" using no_new_large_trans [OF nl] IH by blast
        show "free_pages (vm_phys s') \<subseteq> free_pages (vm_phys s)" using IH ff(3) m(2) by auto
        show "Suc n \<le> card (free_pages (vm_phys s)) \<longrightarrow> t' \<noteq> NULL" using IH cd m(2) by auto
        have "keeps root a s ?s" by (rule link_step_untouched [OF Suc.prems(1,2) w False rx ne new_entry [OF ff(1), of fl]])
        then show "keeps root a s s'" using keeps_trans IH by blast
        have "reach ?m root (p0 @ va_path (Suc n) va) = None" using Suc.prems(2) False by (simp add: reach_append)
        then show "reach ?m root (p0 @ va_path (Suc n) va) \<noteq> None \<longrightarrow> t' \<noteq> NULL \<and> vm_phys s' = vm_phys s" by simp
      qed (use IH m(3,4) in simp_all)
    qed
  qed
qed

text \<open>Writing an entry of a last-level table.\<close>

lemma pt_write:
  fixes e :: u64 and i :: nat
  assumes ok: "tree_ok m F root" and t: "reach m root P = Some t" "wpath P" "length P = 3"
  defines "m' \<equiv> m(t := (m t)(i := e))"
  shows "wpath p \<Longrightarrow> reach m' root p = reach m root p" "tree_ok m' F root" "no_new_large m m' root"
    "wpath q \<Longrightarrow> length q = 3 \<Longrightarrow> pte_at m' root q j = (if q = P \<and> j = i then (if present e then e else 0) else pte_at m root q j)"
proof -
  have ent: "a \<noteq> t \<Longrightarrow> m' a = m a" for a by (simp add: m'_def)
  have other: "a \<noteq> t" if "reach m root p = Some a" "wpath p" "length p < 3" for p a
    using tree_okD(2) [OF ok that(2,1) t(2)] t(1,3) that(3) by auto
  show r: "reach m' root p = reach m root p" if "wpath p" for p
    using that
  proof (induction p rule: rev_induct)
    case (snoc k p)
    then have p: "wpath p" "length p < 3" by (simp_all add: wpath_snoc)
    then show ?case using snoc.IH reach_append [of m root p "[k]"] reach_append [of m' root p "[k]"] other [OF _ p]
      by (cases "reach m root p") (simp_all add: ent)
  qed simp
  show "tree_ok m' F root" using ok r unfolding tree_ok_def by metis
  show "no_new_large m m' root" unfolding no_new_large_def
  proof (intro allI impI)
    fix p k assume p: "wpath p \<and> length p < 3 \<and> large_at m' root p k"
    then show "large_at m root p k" using r [of p] other [of p] by (cases "reach m root p") (auto simp: large_at_def m'_def)
  qed
  show "pte_at m' root q j = (if q = P \<and> j = i then (if present e then e else 0) else pte_at m root q j)" if q: "wpath q" "length q = 3"
  proof (cases "reach m root q")
    case None
    then have "q \<noteq> P" using t(1) by auto
    then show ?thesis using None r [OF q(1)] by (simp add: pte_at_def)
  next
    case (Some a)
    then have "a = t \<longleftrightarrow> q = P" using tree_okD(2) [OF ok q(1) Some t(2)] t(1) by auto
    then show ?thesis using Some r [OF q(1)] by (auto simp: pte_at_def m'_def)
  qed
qed

text \<open>The walk of the source follows the tree.\<close>

lemma va_path_3: "va_path 3 va = [vmm_virt_to_pml4_index va, vmm_virt_to_pdpt_index va, vmm_virt_to_pd_index va]"
  by (simp add: numeral_3_eq_3 vmm_virt_to_table_index_def vmm_virt_to_pml4_index_def vmm_virt_to_pdpt_index_def vmm_virt_to_pd_index_def)

lemma no_large_3:
  "no_large m root [] (va_path 3 va) \<longleftrightarrow> \<not> large_at m root [] (vmm_virt_to_pml4_index va)
     \<and> \<not> large_at m root [vmm_virt_to_pml4_index va] (vmm_virt_to_pdpt_index va)
     \<and> \<not> large_at m root [vmm_virt_to_pml4_index va, vmm_virt_to_pdpt_index va] (vmm_virt_to_pd_index va)"
  by (simp add: va_path_3 no_large_Cons) (simp add: no_large_def)

lemma wpath_va: "wpath (va_path 3 va)" "length (va_path 3 va) = 3"
  using va_path_bound [of 3 va] by (simp_all add: wpath_def)

abbreviation plain :: "ptr \<Rightarrow> u64 \<Rightarrow> vm \<Rightarrow> bool" where
  "plain root va s \<equiv> no_large (vm_tables s) root [] (va_path 3 va)"

lemma walk_eq:
  assumes "plain (vmm_phys_to_virt cr3) va s"
  shows "vmm_virt_to_pt_entry cr3 va s = pte_at (vm_tables s) (vmm_phys_to_virt cr3) (va_path 3 va) (vmm_virt_to_pt_index va)"
proof -
  let ?m = "vm_tables s" and ?root = "vmm_phys_to_virt cr3"
  let ?e4 = "?m ?root (vmm_virt_to_pml4_index va)"
  let ?e3 = "?m (child ?e4) (vmm_virt_to_pdpt_index va)"
  let ?e2 = "?m (child ?e3) (vmm_virt_to_pd_index va)"
  have l4: "present ?e4 \<Longrightarrow> \<not> is_pagesize_leaf ?e4" using assms by (auto simp: no_large_3 large_at_def)
  have l3: "present ?e4 \<Longrightarrow> present ?e3 \<Longrightarrow> \<not> is_pagesize_leaf ?e3" using assms l4 by (auto simp: no_large_3 large_at_def)
  have l2: "present ?e4 \<Longrightarrow> present ?e3 \<Longrightarrow> present ?e2 \<Longrightarrow> \<not> is_pagesize_leaf ?e2" using assms l4 l3 by (auto simp: no_large_3 large_at_def)
  have "reach ?m ?root (va_path 3 va) = (if present ?e4 \<and> present ?e3 \<and> present ?e2 then Some (child ?e2) else None)"
    using l4 l3 l2 by (auto simp: va_path_3)
  then show ?thesis by (auto simp: vmm_virt_to_pt_entry_def Let_def pte_at_def child_def)
qed

definition same_page :: "u64 \<Rightarrow> u64 \<Rightarrow> bool" where
  "same_page a b \<longleftrightarrow> drop_bit 12 (take_bit 48 a) = drop_bit 12 (take_bit 48 b)"

lemma index_bit: "i < 9 \<Longrightarrow> bit (drop_bit k va AND 0x1ff :: u64) i \<longleftrightarrow> bit va (k + i)"
  unfolding entry_masks by (auto simp: bit_simps dest: bit_imp_le_length)

lemma index_eq:
  "unat (drop_bit k (a :: u64) AND 0x1ff) = unat (drop_bit k (b :: u64) AND 0x1ff) \<longleftrightarrow> (\<forall>n. k \<le> n \<and> n < k + 9 \<longrightarrow> bit a n = bit b n)"
proof -
  have "drop_bit k a AND 0x1ff = drop_bit k b AND 0x1ff \<longleftrightarrow> (\<forall>n. k \<le> n \<and> n < k + 9 \<longrightarrow> bit a n = bit b n)"
  proof
    assume e: "drop_bit k a AND 0x1ff = drop_bit k b AND 0x1ff"
    show "\<forall>n. k \<le> n \<and> n < k + 9 \<longrightarrow> bit a n = bit b n"
    proof (intro allI impI)
      fix n assume "k \<le> n \<and> n < k + 9"
      then obtain i where i: "n = k + i" "i < 9" by (auto simp: le_iff_add)
      then show "bit a n = bit b n" using arg_cong [OF e, of "\<lambda>x. bit x i"] index_bit [of i k a] index_bit [of i k b] by simp
    qed
  next
    assume "\<forall>n. k \<le> n \<and> n < k + 9 \<longrightarrow> bit a n = bit b n"
    then show "drop_bit k a AND 0x1ff = drop_bit k b AND 0x1ff"
      unfolding entry_masks by (intro bit_word_eqI) (auto simp: bit_simps)
  qed
  then show ?thesis by (simp add: word_unat_eq_iff)
qed

lemma four_levels:
  "(\<forall>n :: nat. 12 \<le> n \<and> n < 48 \<longrightarrow> Q n) \<longleftrightarrow> (\<forall>n. 39 \<le> n \<and> n < 39 + 9 \<longrightarrow> Q n) \<and> (\<forall>n. 30 \<le> n \<and> n < 30 + 9 \<longrightarrow> Q n)
     \<and> (\<forall>n. 21 \<le> n \<and> n < 21 + 9 \<longrightarrow> Q n) \<and> (\<forall>n. 12 \<le> n \<and> n < 12 + 9 \<longrightarrow> Q n)" (is "?L \<longleftrightarrow> ?R")
proof
  assume ?R
  show ?L
  proof (intro allI impI)
    fix n :: nat assume "12 \<le> n \<and> n < 48"
    then consider "39 \<le> n \<and> n < 39 + 9" | "30 \<le> n \<and> n < 30 + 9" | "21 \<le> n \<and> n < 21 + 9" | "12 \<le> n \<and> n < 12 + 9" by linarith
    then show "Q n" using \<open>?R\<close> by cases blast+
  qed
qed simp

lemma same_page_iff: "same_page a b \<longleftrightarrow> va_path 3 a = va_path 3 b \<and> vmm_virt_to_pt_index a = vmm_virt_to_pt_index b"
proof -
  have "same_page a b \<longleftrightarrow> (\<forall>n. 12 \<le> n \<and> n < 48 \<longrightarrow> bit a n = bit b n)"
  proof
    assume e: "same_page a b"
    show "\<forall>n. 12 \<le> n \<and> n < 48 \<longrightarrow> bit a n = bit b n"
    proof (intro allI impI)
      fix n :: nat assume n: "12 \<le> n \<and> n < 48"
      then have "bit (drop_bit 12 (take_bit 48 a)) (n - 12) = bit (drop_bit 12 (take_bit 48 b)) (n - 12)" using e by (simp add: same_page_def)
      then show "bit a n = bit b n" using n by (simp add: bit_simps)
    qed
  next
    assume "\<forall>n. 12 \<le> n \<and> n < 48 \<longrightarrow> bit a n = bit b n"
    then show "same_page a b" unfolding same_page_def by (intro bit_word_eqI) (auto simp: bit_simps)
  qed
  also have "\<dots> \<longleftrightarrow> va_path 3 a = va_path 3 b \<and> vmm_virt_to_pt_index a = vmm_virt_to_pt_index b"
    unfolding four_levels by (simp add: va_path_3 vmm_virt_to_pml4_index_def vmm_virt_to_pdpt_index_def vmm_virt_to_pd_index_def vmm_virt_to_pt_index_def index_eq)
  finally show ?thesis .
qed

lemma aligned_path: "va_path n (va AND PAGE_ALIGN_MASK) = va_path n va"
proof -
  have "vmm_virt_to_table_index (va AND PAGE_ALIGN_MASK) l = vmm_virt_to_table_index va l" for l
  proof -
    have "bit (va AND PAGE_ALIGN_MASK) n = bit va n" if "12 \<le> n" for n
    proof -
      have "PAGE_ALIGN_MASK = push_bit 12 (mask 52)" by (simp add: PAGE_ALIGN_MASK_def mask_eq_exp_minus_1 push_bit_eq_mult)
      moreover have "bit (push_bit 12 (mask 52) :: u64) n \<longleftrightarrow> 12 \<le> n \<and> n < 64" by (auto simp: bit_simps)
      ultimately show ?thesis using that by (auto simp: bit_and_iff dest: bit_imp_le_length)
    qed
    then show ?thesis unfolding vmm_virt_to_table_index_def index_eq by auto
  qed
  then show ?thesis by (induction n) simp_all
qed

text \<open>Mapping one page.\<close>

lemma map_page_ok:
  assumes ok: "vm_ok root s" and pl: "plain root va s" and ev: "nolock_vmm_map_page_containing_in root va phys fl s = (s', b)"
    and fl: "present (ucast fl)"
  shows "vm_ok root s' \<and> no_new_large (vm_tables s) (vm_tables s') root \<and> vm_locked s' = vm_locked s
    \<and> (3 \<le> card (free_pages (vm_phys s)) \<longrightarrow> b) \<and> (b \<longrightarrow> vm_invalidated s' = va # vm_invalidated s)
    \<and> (\<forall>q j. wpath q \<and> length q = 3 \<longrightarrow> pte_at (vm_tables s') root q j =
        (if b \<and> q = va_path 3 va \<and> j = vmm_virt_to_pt_index va then vmm_phys_and_flags_to_table_entry phys (ucast fl)
         else pte_at (vm_tables s) root q j))"
proof -
  let ?va = "va AND PAGE_ALIGN_MASK" and ?e = "vmm_phys_and_flags_to_table_entry phys (ucast fl)"
  obtain s1 t where st: "ensure_loop 3 ?va fl root s = (s1, t)" by fastforce
  have E: "vm_ok root s1" "same_ptes (vm_tables s) (vm_tables s1) root" "no_new_large (vm_tables s) (vm_tables s1) root" "vm_locked s1 = vm_locked s"
    "vm_invalidated s1 = vm_invalidated s"
    "t \<noteq> NULL \<longrightarrow> reach (vm_tables s1) root (va_path 3 va) = Some t" "3 \<le> card (free_pages (vm_phys s)) \<longrightarrow> t \<noteq> NULL"
    using ensure_loop_ok [OF ok, of "[]" root 3 ?va fl s1 t] pl st by (simp_all add: wpath_def aligned_path)
  have sp: "pte_at (vm_tables s1) root q j = pte_at (vm_tables s) root q j" if "wpath q" "length q = 3" for q j using E(2) that by (simp add: same_ptes_def)
  have pe: "present ?e" using fl unfolding present_bit bit_entry by simp
  consider (fail) "t = NULL" "s' = s1" "\<not> b"
    | (mapped) "t \<noteq> NULL" "s' = vmm_invalidate_page va (write_entry t (vmm_virt_to_pt_index va) ?e s1)" "b"
    using ev st by (cases "t = NULL") (auto simp: nolock_vmm_map_page_containing_in_def ensure_tables_def Let_def)
  then show ?thesis
  proof cases
    case fail
    then show ?thesis using E sp by simp
  next
    case mapped
    let ?m = "(vm_tables s1)(t := (vm_tables s1 t)(vmm_virt_to_pt_index va := ?e))"
    have tr: "tree_ok (vm_tables s1) (free_pages (vm_phys s1)) root" using E(1) by (simp add: vm_ok_def)
    have rt: "reach (vm_tables s1) root (va_path 3 va) = Some t" using E(6) mapped(1) by simp
    note pw = pt_write [where i = "vmm_virt_to_pt_index va" and e = ?e, OF tr rt wpath_va]
    have s': "vm_tables s' = ?m" "vm_phys s' = vm_phys s1" "vm_locked s' = vm_locked s1" "vm_invalidated s' = va # vm_invalidated s1"
      using mapped(2) by (simp_all add: vmm_invalidate_page_def write_entry_def)
    have "vm_ok root s'" using E(1) pw(2) s' by (simp add: vm_ok_def)
    moreover have "no_new_large (vm_tables s) (vm_tables s') root" unfolding s'(1) by (rule no_new_large_trans [OF E(3) pw(3)])
    moreover have "\<forall>q j. wpath q \<and> length q = 3 \<longrightarrow> pte_at (vm_tables s') root q j =
      (if b \<and> q = va_path 3 va \<and> j = vmm_virt_to_pt_index va then ?e else pte_at (vm_tables s) root q j)"
      using pw(4) sp pe mapped(3) unfolding s'(1) by auto
    ultimately show ?thesis using s' E mapped(3) by simp
  qed
qed

text \<open>Unmapping one page.\<close>

lemma unmap_walk:
  assumes "plain root va s"
  shows "nolock_vmm_unmap_page_in root va s = (case reach (vm_tables s) root (va_path 3 va) of
     None \<Rightarrow> (s, 0)
   | Some t \<Rightarrow> (let e = vm_tables s t (vmm_virt_to_pt_index va) in
       if present e then (vmm_invalidate_page va (write_entry t (vmm_virt_to_pt_index va) 0 s), vmm_table_entry_to_phys e) else (s, 0)))"
proof -
  let ?m = "vm_tables s"
  let ?e4 = "?m root (vmm_virt_to_pml4_index va)"
  let ?e3 = "?m (child ?e4) (vmm_virt_to_pdpt_index va)"
  let ?e2 = "?m (child ?e3) (vmm_virt_to_pd_index va)"
  have l4: "present ?e4 \<Longrightarrow> \<not> is_pagesize_leaf ?e4" using assms by (auto simp: no_large_3 large_at_def)
  have l3: "present ?e4 \<Longrightarrow> present ?e3 \<Longrightarrow> \<not> is_pagesize_leaf ?e3" using assms l4 by (auto simp: no_large_3 large_at_def)
  have l2: "present ?e4 \<Longrightarrow> present ?e3 \<Longrightarrow> present ?e2 \<Longrightarrow> \<not> is_pagesize_leaf ?e2" using assms l4 l3 by (auto simp: no_large_3 large_at_def)
  have "reach ?m root (va_path 3 va) = (if present ?e4 \<and> present ?e3 \<and> present ?e2 then Some (child ?e2) else None)"
    using l4 l3 l2 by (auto simp: va_path_3)
  then show ?thesis unfolding nolock_vmm_unmap_page_in_def Let_def using l4 l3 l2 by (simp add: child_def)
qed

lemma unmap_page_ok:
  assumes ok: "vm_ok root s" and pl: "plain root va s" and ev: "nolock_vmm_unmap_page_in root va s = (s', r)"
  shows "vm_ok root s' \<and> no_new_large (vm_tables s) (vm_tables s') root \<and> vm_locked s' = vm_locked s
    \<and> r = vmm_table_entry_to_phys (pte_at (vm_tables s) root (va_path 3 va) (vmm_virt_to_pt_index va))
    \<and> (\<forall>q j. wpath q \<and> length q = 3 \<longrightarrow> pte_at (vm_tables s') root q j =
        (if q = va_path 3 va \<and> j = vmm_virt_to_pt_index va then 0 else pte_at (vm_tables s) root q j))"
proof -
  have z: "vmm_table_entry_to_phys 0 = 0" by (simp add: vmm_table_entry_to_phys_def)
  have np: "\<not> present 0" by simp
  consider (none) "pte_at (vm_tables s) root (va_path 3 va) (vmm_virt_to_pt_index va) = 0" "s' = s" "r = 0"
    | (found) t where "reach (vm_tables s) root (va_path 3 va) = Some t" "present (vm_tables s t (vmm_virt_to_pt_index va))"
        "s' = vmm_invalidate_page va (write_entry t (vmm_virt_to_pt_index va) 0 s)" "r = vmm_table_entry_to_phys (vm_tables s t (vmm_virt_to_pt_index va))"
    using ev unfolding unmap_walk [OF pl] by (auto simp: pte_at_def Let_def split: option.splits if_splits)
  then show ?thesis
  proof cases
    case none
    then show ?thesis using ok z by (auto simp: no_new_large_def)
  next
    case found
    have tr: "tree_ok (vm_tables s) (free_pages (vm_phys s)) root" using ok by (simp add: vm_ok_def)
    note pw = pt_write [where i = "vmm_virt_to_pt_index va" and e = 0, OF tr found(1) wpath_va]
    have s': "vm_tables s' = (vm_tables s)(t := (vm_tables s t)(vmm_virt_to_pt_index va := 0))" "vm_phys s' = vm_phys s" "vm_locked s' = vm_locked s"
      using found(3) by (simp_all add: vmm_invalidate_page_def write_entry_def)
    have "vm_ok root s'" using ok pw(2) s' by (simp add: vm_ok_def)
    moreover have "r = vmm_table_entry_to_phys (pte_at (vm_tables s) root (va_path 3 va) (vmm_virt_to_pt_index va))" using found by (simp add: pte_at_def)
    ultimately show ?thesis using pw(3,4) np s' by simp
  qed
qed

lemma entry_fields:
  assumes "page_aligned phys" "phys < 0x1000000000000" "fl < 0x1000"
  shows "vmm_table_entry_to_phys (vmm_phys_and_flags_to_table_entry phys (ucast (fl :: u16))) = phys"
proof (rule bit_word_eqI)
  fix n assume n: "n < LENGTH(64)"
  have "take_bit 12 phys = 0" using assms(1) by (simp add: page_aligned_def take_bit_eq_mask entry_masks)
  then have lo: "12 \<le> n" if "bit phys n" using that bit_take_bit_iff [of 12 phys n] by (cases "n < 12") auto
  have "unat phys < 2 ^ 48" using assms(2) by (simp add: word_less_nat_alt)
  then have "take_bit 48 phys = phys" by (metis take_bit_nat_eq_self unsigned_take_bit_eq word_unat_eq_iff)
  then have hi: "n < 48" if "bit phys n" using that bit_take_bit_iff [of 48 phys n] by auto
  have "unat fl < 2 ^ 12" using assms(3) by (simp add: word_less_nat_alt)
  then have "take_bit 12 fl = fl" by (metis take_bit_nat_eq_self unsigned_take_bit_eq word_unat_eq_iff)
  then have "n < 12" if "bit (ucast fl :: u64) n" using that bit_take_bit_iff [of 12 fl n] by (auto simp: bit_simps)
  then show "bit (vmm_table_entry_to_phys (vmm_phys_and_flags_to_table_entry phys (ucast fl))) n = bit phys n"
    using lo hi by (auto simp: bit_entry_phys bit_entry)
qed

lemma plain_mono: "plain root va s \<Longrightarrow> no_new_large (vm_tables s) (vm_tables s') root \<Longrightarrow> plain root va s'"
  using no_large_mono [of "vm_tables s" root "[]" "va_path 3 va" "vm_tables s'"] wpath_va(1) by simp

text \<open>An empty address space with three free frames.\<close>

definition demo_vm :: vm where
  "demo_vm = \<lparr>vm_tables = (\<lambda>_ _. 0), vm_phys = demo_region, vm_locked = False, vm_invalidated = []\<rparr>"

lemma demo_vm_ok: "vm_ok (vmm_phys_to_virt 0x9000) demo_vm" "plain (vmm_phys_to_virt 0x9000) va demo_vm" "\<not> vm_locked demo_vm"
  "3 \<le> card (free_pages (vm_phys demo_vm))"
proof -
  have r: "reach (vm_tables demo_vm) root p = (if p = [] then Some root else None)" for root p by (cases p) (simp_all add: demo_vm_def)
  have F: "free_pages demo_region = {5, 1, 2}"
    by (auto simp: free_pages_def demo_region_eq block_pages_def pfn_def)
  have "table_frame 0x9000" "pfn 0x9000 = 9" by (simp_all add: table_frame_def page_aligned_def pfn_def)
  then have "tree_ok (vm_tables demo_vm) {5, 1, 2} (vmm_phys_to_virt 0x9000)"
    unfolding tree_ok_def r by (auto intro!: exI [of _ "0x9000"])
  then show "vm_ok (vmm_phys_to_virt 0x9000) demo_vm" using demo_region_wf F by (simp add: vm_ok_def) (simp add: demo_vm_def F)
  show "plain (vmm_phys_to_virt 0x9000) va demo_vm" by (simp add: no_large_def large_at_def r) (simp add: demo_vm_def)
  show "\<not> vm_locked demo_vm" by (simp add: demo_vm_def)
  show "3 \<le> card (free_pages (vm_phys demo_vm))" by (simp add: demo_vm_def F)
qed

text \<open>A run of pages that cannot be mapped to its end returns with the lock held: every later operation spins.\<close>

lemma ensure_loop_locked: "vm_locked (fst (ensure_loop n va fl t s)) = vm_locked s"
  by (induction n arbitrary: t s) (simp_all add: Let_def write_entry_def clear_table_def split: prod.split)

lemma map_locked: "vm_locked (fst (nolock_vmm_map_page_containing_in root va phys fl s)) = vm_locked s"
  using ensure_loop_locked [of 3 "va AND PAGE_ALIGN_MASK" fl root s]
  by (auto simp: nolock_vmm_map_page_containing_in_def ensure_tables_def Let_def vmm_invalidate_page_def write_entry_def split: prod.split)

lemma map_pages_locked: "vm_locked (fst (map_pages_loop n i root va phys fl s)) = vm_locked s"
  by (induction n arbitrary: i s) (simp_all add: Let_def map_locked split: prod.split, metis fst_conv map_locked)

lemma vmm_map_pages_lock_leak:
  assumes "vmm_map_pages_containing_in root va phys fl n s = Some (s', False)"
  shows "vm_locked s' \<and> vmm_map_page_in root va' phys' fl' s' = None \<and> vmm_unmap_page_in root va' s' = None"
proof -
  have "fst (map_pages_loop n 0 root va phys fl (s\<lparr>vm_locked := True\<rparr>)) = s'"
    using assms by (auto simp: vmm_map_pages_containing_in_def split: if_splits prod.splits)
  then have "vm_locked s'" using map_pages_locked [of n 0 root va phys fl "s\<lparr>vm_locked := True\<rparr>"] by simp
  then show ?thesis by (simp add: vmm_map_page_in_def vmm_map_page_containing_in_def vmm_unmap_page_in_def)
qed

section \<open>Properties\<close>

text \<open>C7: mapping a page in a well-formed tree of page tables: if it succeeds, the address translates to the frame given, with its
  offset, and its stale translation is invalidated; every other page that no large page covers translates as before, whether it
  succeeds or not. Missing tables are taken from the free frames, and three free frames are enough for it to succeed. The
  tables stay a tree of frames that are not free.\<close>

theorem vmm_map_page_correct:
  assumes ok: "vm_ok (vmm_phys_to_virt cr3) s" and pl: "plain (vmm_phys_to_virt cr3) va s" and un: "\<not> vm_locked s"
    and fl: "present (ucast fl)" "fl < 0x1000" and ph: "page_aligned phys" "phys < 0x1000000000000"
  shows "\<exists>s' b. vmm_map_page cr3 va phys fl s = Some (s', b) \<and> vm_ok (vmm_phys_to_virt cr3) s' \<and> \<not> vm_locked s'
    \<and> (3 \<le> card (free_pages (vm_phys s)) \<longrightarrow> b)
    \<and> (b \<longrightarrow> vmm_virt_to_phys cr3 va s' = phys + (va AND 0xfff) \<and> va \<in> set (vm_invalidated s'))
    \<and> (\<forall>va'. plain (vmm_phys_to_virt cr3) va' s \<and> (b \<longrightarrow> \<not> same_page va' va) \<longrightarrow> vmm_virt_to_pt_entry cr3 va' s' = vmm_virt_to_pt_entry cr3 va' s)"
proof -
  let ?root = "vmm_phys_to_virt cr3"
  obtain s' b where ev: "nolock_vmm_map_page_containing_in ?root va phys fl s = (s', b)" by fastforce
  note m = map_page_ok [OF ok pl ev fl(1)]
  have pl': "plain ?root va' s'" if "plain ?root va' s" for va' using plain_mono [OF that] m by blast
  have hit: "vmm_virt_to_pt_entry cr3 va s' = vmm_phys_and_flags_to_table_entry phys (ucast fl)" if b
    using walk_eq [OF pl' [OF pl]] m that wpath_va by simp
  have miss: "vmm_virt_to_pt_entry cr3 va' s' = vmm_virt_to_pt_entry cr3 va' s" if "plain ?root va' s" "b \<longrightarrow> \<not> same_page va' va" for va'
    using walk_eq [OF that(1)] walk_eq [OF pl' [OF that(1)]] m that(2) wpath_va by (auto simp: same_page_iff)
  have "vmm_virt_to_phys cr3 va s' = phys + (va AND 0xfff)" if b
    using hit [OF that] entry_fields [OF ph fl(2)] by (simp add: vmm_virt_to_phys_def vmm_virt_to_phys_page_def)
  moreover have "vmm_map_page cr3 va phys fl s = Some (s', b)"
    using ev un by (simp add: vmm_map_page_def vmm_map_page_containing_def vmm_map_page_containing_in_def)
  ultimately show ?thesis using m miss un by (intro exI [of _ s'] exI [of _ b]) simp
qed

theorem vmm_map_page_correct_witness:
  "\<exists>s'. vmm_map_page 0x9000 0x40001234 0x7000 7 demo_vm = Some (s', True) \<and> vmm_virt_to_phys 0x9000 0x40001234 s' = 0x7234"
  using vmm_map_page_correct [OF demo_vm_ok(1-3), of 7 "0x7000" "0x40001234"] demo_vm_ok(4)
  by (auto simp: PG_PRESENT_def page_aligned_def)

text \<open>Unmapping a page returns the frame it was mapped to, or 0, and leaves exactly that page unmapped; so unmapping
  a page that was just mapped gives its frame back and every other page as it was before the mapping.\<close>

theorem vmm_map_unmap_roundtrip:
  assumes ok: "vm_ok (vmm_phys_to_virt cr3) s" and pl: "plain (vmm_phys_to_virt cr3) va s" and un: "\<not> vm_locked s"
    and fl: "present (ucast fl)" "fl < 0x1000" and ph: "page_aligned phys" "phys < 0x1000000000000"
    and mp: "vmm_map_page cr3 va phys fl s = Some (s1, True)"
  shows "\<exists>s2. vmm_unmap_page cr3 va s1 = Some (s2, phys) \<and> vm_ok (vmm_phys_to_virt cr3) s2 \<and> vmm_virt_to_pt_entry cr3 va s2 = 0
    \<and> (\<forall>va'. plain (vmm_phys_to_virt cr3) va' s \<and> \<not> same_page va' va \<longrightarrow> vmm_virt_to_pt_entry cr3 va' s2 = vmm_virt_to_pt_entry cr3 va' s)"
proof -
  let ?root = "vmm_phys_to_virt cr3" and ?e = "vmm_phys_and_flags_to_table_entry phys (ucast fl)"
  have ev: "nolock_vmm_map_page_containing_in ?root va phys fl s = (s1, True)"
    using mp un by (simp add: vmm_map_page_def vmm_map_page_containing_def vmm_map_page_containing_in_def)
  note m = map_page_ok [OF ok pl ev fl(1)]
  have pl1: "plain ?root va' s1" if "plain ?root va' s" for va' using plain_mono [OF that] m by blast
  obtain s2 r where un2: "nolock_vmm_unmap_page_in ?root va s1 = (s2, r)" by fastforce
  have ok1: "vm_ok ?root s1" using m by simp
  note u = unmap_page_ok [OF ok1 pl1 [OF pl] un2]
  have pl2: "plain ?root va' s2" if "plain ?root va' s" for va' using plain_mono [OF pl1 [OF that]] u by blast
  have "r = vmm_table_entry_to_phys ?e" using u m wpath_va by simp
  then have r: "r = phys" using entry_fields [OF ph fl(2)] by simp
  have "vmm_virt_to_pt_entry cr3 va s2 = 0" using walk_eq [OF pl2 [OF pl]] u wpath_va by simp
  moreover have "vmm_virt_to_pt_entry cr3 va' s2 = vmm_virt_to_pt_entry cr3 va' s" if "plain ?root va' s" "\<not> same_page va' va" for va'
    using walk_eq [OF that(1)] walk_eq [OF pl2 [OF that(1)]] m u that(2) wpath_va by (auto simp: same_page_iff)
  moreover have "vmm_unmap_page cr3 va s1 = Some (s2, phys)" using un2 m un r by (simp add: vmm_unmap_page_def vmm_unmap_page_in_def)
  ultimately show ?thesis using u by (intro exI [of _ s2]) simp
qed

theorem vmm_map_unmap_roundtrip_witness:
  "\<exists>s1 s2. vmm_map_page 0x9000 0x40001234 0x7000 7 demo_vm = Some (s1, True) \<and> vmm_unmap_page 0x9000 0x40001234 s1 = Some (s2, 0x7000)"
proof -
  obtain s1 b where ev: "nolock_vmm_map_page_containing_in (vmm_phys_to_virt 0x9000) 0x40001234 0x7000 7 demo_vm = (s1, b)" by fastforce
  have "present (ucast (7 :: u16) :: u64)" by (simp add: PG_PRESENT_def)
  then have b using map_page_ok [OF demo_vm_ok(1,2) ev] demo_vm_ok(4) by blast
  then have "vmm_map_page 0x9000 0x40001234 0x7000 7 demo_vm = Some (s1, True)"
    using ev demo_vm_ok(3) by (simp add: vmm_map_page_def vmm_map_page_containing_def vmm_map_page_containing_in_def)
  then show ?thesis using vmm_map_unmap_roundtrip [OF demo_vm_ok(1-3), of 7 "0x7000" "0x40001234" s1]
    by (auto simp: PG_PRESENT_def page_aligned_def)
qed

end
