(* ===== verification/Shift_Array.thy ===== *)
theory Shift_Array
  imports Anos_Prelude
begin

text \<open>
  The growable double-ended array of \<^verbatim>\<open>kernel/structs/shift_array.c\<close>: the elements lie between \<^verbatim>\<open>head\<close> and \<^verbatim>\<open>tail\<close> in
  an array that is twice as large, with its elements in the middle, each time an end is reached. The model's elements are of any type, with
  \<open>z\<close> for the zeroed element; the capacity is the length of the data, and the size of an element does not appear. Memory is
  assumed contiguous, as the code does with the blocks it allocates one by one; whether it is available is an argument.
\<close>

section \<open>Data and operations\<close>

record 'a ShiftToMiddleArray =
  sa_data :: "'a list"
  sa_head :: nat
  sa_tail :: nat

definition shift_array_init :: "bool \<Rightarrow> 'a \<Rightarrow> nat \<Rightarrow> 'a ShiftToMiddleArray option" where
  "shift_array_init ok z initial_capacity =
     (if \<not> ok then None
      else Some \<lparr>sa_data = replicate initial_capacity z, sa_head = initial_capacity div 2, sa_tail = initial_capacity div 2\<rparr>)"

text \<open>The copying loop of \<^verbatim>\<open>shift_array_resize\<close>, by the number of elements left.\<close>

fun copy_elems :: "nat \<Rightarrow> nat \<Rightarrow> nat \<Rightarrow> 'a list \<Rightarrow> 'a list \<Rightarrow> 'a list" where
  "copy_elems 0 i j data new_data = new_data"
| "copy_elems (Suc n) i j data new_data = copy_elems n (i + 1) (j + 1) data (new_data[j := data ! i])"

definition shift_array_resize :: "bool \<Rightarrow> 'a \<Rightarrow> 'a ShiftToMiddleArray \<Rightarrow> 'a ShiftToMiddleArray option" where
  "shift_array_resize ok z arr =
     (let new_capacity = length (sa_data arr) * 2;
          new_head = (new_capacity - (sa_tail arr - sa_head arr)) div 2
      in if \<not> ok then None
         else Some \<lparr>sa_data = copy_elems (sa_tail arr - sa_head arr) (sa_head arr) new_head (sa_data arr) (replicate new_capacity z),
                    sa_head = new_head, sa_tail = new_head + (sa_tail arr - sa_head arr)\<rparr>)"

definition shift_array_insert_head :: "bool \<Rightarrow> 'a \<Rightarrow> 'a \<Rightarrow> 'a ShiftToMiddleArray \<Rightarrow> 'a ShiftToMiddleArray \<times> bool" where
  "shift_array_insert_head ok z v arr =
     (case (if sa_head arr = 0 then shift_array_resize ok z arr else Some arr) of
        None \<Rightarrow> (arr, False)
      | Some arr \<Rightarrow> (arr\<lparr>sa_head := sa_head arr - 1, sa_data := (sa_data arr)[sa_head arr - 1 := v]\<rparr>, True))"

definition shift_array_insert_tail :: "bool \<Rightarrow> 'a \<Rightarrow> 'a \<Rightarrow> 'a ShiftToMiddleArray \<Rightarrow> 'a ShiftToMiddleArray \<times> bool" where
  "shift_array_insert_tail ok z v arr =
     (case (if sa_tail arr = length (sa_data arr) then shift_array_resize ok z arr else Some arr) of
        None \<Rightarrow> (arr, False)
      | Some arr \<Rightarrow> (arr\<lparr>sa_data := (sa_data arr)[sa_tail arr := v], sa_tail := sa_tail arr + 1\<rparr>, True))"

definition shift_array_remove_head :: "'a ShiftToMiddleArray \<Rightarrow> 'a ShiftToMiddleArray" where
  "shift_array_remove_head arr = (if sa_head arr < sa_tail arr then arr\<lparr>sa_head := sa_head arr + 1\<rparr> else arr)"

definition shift_array_remove_tail :: "'a ShiftToMiddleArray \<Rightarrow> 'a ShiftToMiddleArray" where
  "shift_array_remove_tail arr = (if sa_tail arr > sa_head arr then arr\<lparr>sa_tail := sa_tail arr - 1\<rparr> else arr)"

definition shift_array_get_head :: "'a ShiftToMiddleArray \<Rightarrow> 'a option" where
  "shift_array_get_head arr = (if sa_head arr < sa_tail arr then Some (sa_data arr ! sa_head arr) else None)"

definition shift_array_get_tail :: "'a ShiftToMiddleArray \<Rightarrow> 'a option" where
  "shift_array_get_tail arr = (if sa_tail arr > sa_head arr then Some (sa_data arr ! (sa_tail arr - 1)) else None)"

definition shift_array_is_empty :: "'a ShiftToMiddleArray \<Rightarrow> bool" where
  "shift_array_is_empty arr \<longleftrightarrow> sa_head arr = sa_tail arr"

section \<open>Invariant and abstraction\<close>

definition sa_ok :: "'a ShiftToMiddleArray \<Rightarrow> bool" where
  "sa_ok arr \<longleftrightarrow> sa_head arr \<le> sa_tail arr \<and> sa_tail arr \<le> length (sa_data arr) \<and> 2 \<le> length (sa_data arr)"

text \<open>The elements, from head to tail.\<close>

definition elems :: "'a ShiftToMiddleArray \<Rightarrow> 'a list" where
  "elems arr = take (sa_tail arr - sa_head arr) (drop (sa_head arr) (sa_data arr))"

section \<open>Library\<close>

lemma length_copy_elems [simp]: "length (copy_elems n i j data new) = length new"
  by (induction n arbitrary: i j new) simp_all

lemma copy_elems_nth:
  "j + n \<le> length new \<Longrightarrow> k < length new \<Longrightarrow>
    copy_elems n i j data new ! k = (if j \<le> k \<and> k < j + n then data ! (i + (k - j)) else new ! k)"
proof (induction n arbitrary: i j new)
  case (Suc n)
  have "copy_elems (Suc n) i j data new ! k = (if j + 1 \<le> k \<and> k < j + 1 + n then data ! (i + 1 + (k - (j + 1))) else new[j := data ! i] ! k)"
    using Suc.IH [of "j + 1" "new[j := data ! i]"] Suc.prems by simp
  then show ?case using Suc.prems by (cases "k = j") (auto simp: Suc_diff_le Suc_diff_Suc)
qed auto

lemma length_elems: "sa_ok arr \<Longrightarrow> length (elems arr) = sa_tail arr - sa_head arr"
  by (auto simp: sa_ok_def elems_def)

lemma elems_nth: "sa_ok arr \<Longrightarrow> k < sa_tail arr - sa_head arr \<Longrightarrow> elems arr ! k = sa_data arr ! (sa_head arr + k)"
  by (auto simp: sa_ok_def elems_def)

lemma elems_eqI:
  assumes "sa_ok arr" "length xs = sa_tail arr - sa_head arr" "\<And>k. k < length xs \<Longrightarrow> sa_data arr ! (sa_head arr + k) = xs ! k"
  shows "elems arr = xs"
  by (rule nth_equalityI) (use assms in \<open>simp_all add: length_elems elems_nth\<close>)

text \<open>After growing there is room at both ends.\<close>

lemma resize_room:
  assumes ok: "sa_ok arr" and r: "shift_array_resize b z arr = Some arr'"
  shows "sa_ok arr' \<and> elems arr' = elems arr \<and> 0 < sa_head arr' \<and> sa_tail arr' < length (sa_data arr')"
proof -
  let ?n = "sa_tail arr - sa_head arr" and ?c = "length (sa_data arr)"
  let ?h = "(?c * 2 - ?n) div 2"
  have b: "?n \<le> ?c" "2 \<le> ?c" using ok by (auto simp: sa_ok_def)
  have arr': "sa_data arr' = copy_elems ?n (sa_head arr) ?h (sa_data arr) (replicate (?c * 2) z)" "sa_head arr' = ?h" "sa_tail arr' = ?h + ?n"
    using r by (auto simp: shift_array_resize_def Let_def split: if_splits)
  have h: "0 < ?h" "?h + ?n < ?c * 2" using b by auto
  have ok': "sa_ok arr'" using h b arr' by (simp add: sa_ok_def)
  have "elems arr' = elems arr"
    by (rule elems_eqI [OF ok']) (use arr' h ok in \<open>simp_all add: length_elems copy_elems_nth elems_nth\<close>)
  then show ?thesis using ok' h arr' by simp
qed

text \<open>The operations one by one.\<close>

lemma insert_head_ok:
  assumes ok: "sa_ok arr" and r: "shift_array_insert_head b z v arr = (arr', r)"
  shows "sa_ok arr' \<and> elems arr' = (if r then v # elems arr else elems arr) \<and> (b \<longrightarrow> r)"
proof (cases "if sa_head arr = 0 then shift_array_resize b z arr else Some arr")
  case None
  then show ?thesis using r ok by (auto simp: shift_array_insert_head_def shift_array_resize_def Let_def split: if_splits)
next
  case (Some a)
  then have a: "sa_ok a" "elems a = elems arr" "0 < sa_head a" using ok resize_room [OF ok] by (auto split: if_splits)
  have arr': "arr' = a\<lparr>sa_head := sa_head a - 1, sa_data := (sa_data a)[sa_head a - 1 := v]\<rparr>" "r"
    using r Some by (auto simp: shift_array_insert_head_def)
  have ok': "sa_ok arr'" using a arr' by (auto simp: sa_ok_def)
  have hl: "sa_head a - 1 < length (sa_data a)" using a(1,3) by (auto simp: sa_ok_def)
  have "elems arr' = v # elems a"
  proof (rule elems_eqI [OF ok'])
    show "length (v # elems a) = sa_tail arr' - sa_head arr'" using length_elems [OF a(1)] a(1,3) arr' by (auto simp: sa_ok_def)
    fix k assume k: "k < length (v # elems a)"
    show "sa_data arr' ! (sa_head arr' + k) = (v # elems a) ! k"
      using k length_elems [OF a(1)] elems_nth [OF a(1)] a(1,3) hl arr' by (cases k) (simp_all add: sa_ok_def)
  qed
  then show ?thesis using ok' a arr' by simp
qed

lemma insert_tail_ok:
  assumes ok: "sa_ok arr" and r: "shift_array_insert_tail b z v arr = (arr', r)"
  shows "sa_ok arr' \<and> elems arr' = (if r then elems arr @ [v] else elems arr) \<and> (b \<longrightarrow> r)"
proof (cases "if sa_tail arr = length (sa_data arr) then shift_array_resize b z arr else Some arr")
  case None
  then show ?thesis using r ok by (auto simp: shift_array_insert_tail_def shift_array_resize_def Let_def split: if_splits)
next
  case (Some a)
  then have a: "sa_ok a" "elems a = elems arr" "sa_tail a < length (sa_data a)"
    using ok resize_room [OF ok] by (auto simp: sa_ok_def split: if_splits)
  have arr': "arr' = a\<lparr>sa_data := (sa_data a)[sa_tail a := v], sa_tail := sa_tail a + 1\<rparr>" "r"
    using r Some by (auto simp: shift_array_insert_tail_def)
  have ok': "sa_ok arr'" using a arr' by (auto simp: sa_ok_def)
  have le: "sa_head a \<le> sa_tail a" using a by (simp add: sa_ok_def)
  have "elems arr' = elems a @ [v]"
  proof (rule elems_eqI [OF ok'])
    show "length (elems a @ [v]) = sa_tail arr' - sa_head arr'" using length_elems [OF a(1)] arr' le by simp
    fix k assume k: "k < length (elems a @ [v])"
    show "sa_data arr' ! (sa_head arr' + k) = (elems a @ [v]) ! k"
    proof (cases "k < length (elems a)")
      case True
      then show ?thesis using length_elems [OF a(1)] elems_nth [OF a(1)] arr' by (simp add: nth_append)
    next
      case False
      then have "sa_head a + k = sa_tail a" "k = length (elems a)" using k a(1) le by (simp_all add: length_elems)
      then show ?thesis using a(3) arr' by (simp add: nth_append)
    qed
  qed
  then show ?thesis using ok' a arr' by simp
qed

lemma elems_empty: "sa_ok arr \<Longrightarrow> elems arr = [] \<longleftrightarrow> sa_head arr = sa_tail arr"
  using length_elems [of arr] by (auto simp: sa_ok_def)

lemma sa_remove_ok:
  assumes "sa_ok arr"
  shows "sa_ok (shift_array_remove_head arr) \<and> elems (shift_array_remove_head arr) = tl (elems arr)"
    "sa_ok (shift_array_remove_tail arr) \<and> elems (shift_array_remove_tail arr) = butlast (elems arr)"
proof -
  have h: "sa_ok (shift_array_remove_head arr)" "sa_ok (shift_array_remove_tail arr)"
    using assms by (auto simp: sa_ok_def shift_array_remove_head_def shift_array_remove_tail_def)
  have "elems (shift_array_remove_head arr) = tl (elems arr)"
    using assms elems_empty [OF assms]
    by (intro elems_eqI [OF h(1)]) (auto simp: shift_array_remove_head_def length_elems elems_nth nth_tl sa_ok_def)
  then show "sa_ok (shift_array_remove_head arr) \<and> elems (shift_array_remove_head arr) = tl (elems arr)" using h by simp
  have "elems (shift_array_remove_tail arr) = butlast (elems arr)"
    using assms elems_empty [OF assms]
    by (intro elems_eqI [OF h(2)]) (auto simp: shift_array_remove_tail_def length_elems elems_nth nth_butlast sa_ok_def)
  then show "sa_ok (shift_array_remove_tail arr) \<and> elems (shift_array_remove_tail arr) = butlast (elems arr)" using h by simp
qed

lemma get_ok:
  assumes "sa_ok arr"
  shows "shift_array_get_head arr = (if elems arr = [] then None else Some (hd (elems arr)))"
    "shift_array_get_tail arr = (if elems arr = [] then None else Some (last (elems arr)))"
proof -
  have le: "sa_head arr \<le> sa_tail arr" using assms by (simp add: sa_ok_def)
  show "shift_array_get_head arr = (if elems arr = [] then None else Some (hd (elems arr)))"
    using le elems_empty [OF assms] elems_nth [OF assms, of 0] by (auto simp: shift_array_get_head_def hd_conv_nth)
  show "shift_array_get_tail arr = (if elems arr = [] then None else Some (last (elems arr)))"
    using le elems_empty [OF assms] elems_nth [OF assms, of "sa_tail arr - sa_head arr - 1"] length_elems [OF assms]
    by (auto simp: shift_array_get_tail_def last_conv_nth)
qed

section \<open>Properties\<close>

text \<open>The array refines a double-ended queue: inserting at an end adds the element there, whatever growing that takes, and
  fails only without memory and then changes nothing; removing drops the element at that end, and does nothing when there is
  none; reading gives the element at an end, if there is one.\<close>

theorem shift_array_refines_deque:
  assumes ok: "sa_ok arr"
  shows "(case shift_array_insert_head b z v arr of (arr', r) \<Rightarrow> sa_ok arr' \<and> elems arr' = (if r then v # elems arr else elems arr) \<and> (b \<longrightarrow> r))
    \<and> (case shift_array_insert_tail b z v arr of (arr', r) \<Rightarrow> sa_ok arr' \<and> elems arr' = (if r then elems arr @ [v] else elems arr) \<and> (b \<longrightarrow> r))
    \<and> sa_ok (shift_array_remove_head arr) \<and> elems (shift_array_remove_head arr) = tl (elems arr)
    \<and> sa_ok (shift_array_remove_tail arr) \<and> elems (shift_array_remove_tail arr) = butlast (elems arr)
    \<and> shift_array_get_head arr = (if elems arr = [] then None else Some (hd (elems arr)))
    \<and> shift_array_get_tail arr = (if elems arr = [] then None else Some (last (elems arr)))
    \<and> (shift_array_is_empty arr \<longleftrightarrow> elems arr = [])"
  using insert_head_ok [OF ok, of b z v] insert_tail_ok [OF ok, of b z v] sa_remove_ok [OF ok] get_ok [OF ok] elems_empty [OF ok]
  by (cases "shift_array_insert_head b z v arr"; cases "shift_array_insert_tail b z v arr") (simp add: shift_array_is_empty_def)

theorem shift_array_refines_deque_witness:
  "\<exists>arr. shift_array_init True (0 :: nat) 2 = Some arr \<and> sa_ok arr \<and> elems arr = []
     \<and> elems (fst (shift_array_insert_tail True 0 6 (fst (shift_array_insert_tail True 0 5 arr)))) = [5, 6]
     \<and> shift_array_is_empty arr"
proof -
  let ?arr = "\<lparr>sa_data = [0, 0 :: nat], sa_head = 1, sa_tail = 1\<rparr>"
  have ok: "sa_ok ?arr" "elems ?arr = []" by (simp_all add: sa_ok_def elems_def)
  have "elems (fst (shift_array_insert_tail True 0 6 (fst (shift_array_insert_tail True 0 5 ?arr)))) = [5, 6]" by code_simp
  then show ?thesis using shift_array_refines_deque [OF ok(1)] ok
    by (intro exI [of _ ?arr]) (simp add: shift_array_init_def numeral_2_eq_2)
qed

end
