(* ===== verification/Ipwi.thy ===== *)
theory Ipwi
  imports Shift_Array Vmm_Mapper
begin

text \<open>
  Work items between processors, \<^verbatim>\<open>kernel/smp/ipwi.c\<close>, and the mapping operations that tell other processors to drop their
  cached translations, \<^verbatim>\<open>kernel/vmm/vmm_shootdown.c\<close>. The state has one entry per registered CPU (\<^verbatim>\<open>kernel/smp/state.c\<close>): its queue,
  the addresses it has invalidated (latest first), and the process of its current task; and the page tables with the
  mapper's lock. The mapper's log of invalidations is that of the CPU that calls it. A payload is the one of a TLB
  shootdown, the only one the code reads. Each queue operation holds the queue's lock and is one step; the CPU the code runs on and whether
  memory is available are arguments.
\<close>

section \<open>Data\<close>

definition IPWI_TYPE_REMOTE_EXEC :: u32 where
  "IPWI_TYPE_REMOTE_EXEC = 1"

definition IPWI_TYPE_TLB_SHOOTDOWN :: u32 where
  "IPWI_TYPE_TLB_SHOOTDOWN = 2"

definition IPWI_TYPE_PANIC_HALT :: u32 where
  "IPWI_TYPE_PANIC_HALT = 3"

record IpwiPayloadTLBShootdown =
  start_vaddr :: u64
  page_count :: u64
  target_pid :: u64
  target_pml4 :: u64

record IpwiWorkItem =
  wi_type :: u32
  wi_flags :: u32
  wi_payload :: IpwiPayloadTLBShootdown

text \<open>A processor; \<open>cpu_proc\<close> is the pid and page table root of the process it runs.\<close>

record PerCPU =
  cpu_queue :: "IpwiWorkItem ShiftToMiddleArray"
  cpu_invalidated :: "u64 list"
  cpu_proc :: "u64 \<times> u64"

record smp =
  cpus_of :: "PerCPU list"
  vm_of :: vm

definition zero_item :: IpwiWorkItem where
  "zero_item = \<lparr>wi_type = 0, wi_flags = 0, wi_payload = \<lparr>start_vaddr = 0, page_count = 0, target_pid = 0, target_pml4 = 0\<rparr>\<rparr>"

section \<open>Queues of work items\<close>

text \<open>Initialisation on one CPU: its state, if it has one, and whether memory is available.\<close>

definition ipwi_init :: "bool \<Rightarrow> PerCPU option \<Rightarrow> PerCPU option \<times> bool" where
  "ipwi_init ok cpu_state =
     (case cpu_state of
        None \<Rightarrow> (None, False)
      | Some c \<Rightarrow> (case shift_array_init ok zero_item 16 of
                      None \<Rightarrow> (Some c, False)
                    | Some q \<Rightarrow> (Some (c\<lparr>cpu_queue := q\<rparr>), True)))"

definition ipwi_enqueue :: "bool \<Rightarrow> IpwiWorkItem \<Rightarrow> nat \<Rightarrow> PerCPU list \<Rightarrow> PerCPU list \<times> bool" where
  "ipwi_enqueue ok item cpu_num cs =
     (if cpu_num > length cs then (cs, False)
      else if \<not> cpu_num < length cs then (cs, False)
      else (cs[cpu_num := (cs ! cpu_num)\<lparr>cpu_queue := fst (shift_array_insert_tail ok zero_item item (cpu_queue (cs ! cpu_num)))\<rparr>], True))"

text \<open>The loop over the CPUs, by the number of CPUs left.\<close>

fun enqueue_loop :: "(nat \<Rightarrow> bool) \<Rightarrow> IpwiWorkItem \<Rightarrow> nat \<Rightarrow> nat \<Rightarrow> nat \<Rightarrow> PerCPU list \<Rightarrow> PerCPU list \<times> bool" where
  "enqueue_loop oks item this 0 i cs = (cs, True)"
| "enqueue_loop oks item this (Suc n) i cs =
     (if i \<noteq> this
      then let (cs, r) = ipwi_enqueue (oks i) item i cs
           in if \<not> r then (cs, False) else enqueue_loop oks item this n (i + 1) cs
      else enqueue_loop oks item this n (i + 1) cs)"

definition ipwi_enqueue_all_except_current :: "(nat \<Rightarrow> bool) \<Rightarrow> IpwiWorkItem \<Rightarrow> nat \<Rightarrow> PerCPU list \<Rightarrow> PerCPU list \<times> bool" where
  "ipwi_enqueue_all_except_current oks item this cs = enqueue_loop oks item this (length cs) 0 cs"

definition ipwi_dequeue_this_cpu :: "PerCPU \<Rightarrow> PerCPU \<times> IpwiWorkItem option" where
  "ipwi_dequeue_this_cpu c = (c\<lparr>cpu_queue := shift_array_remove_head (cpu_queue c)\<rparr>, shift_array_get_head (cpu_queue c))"

text \<open>The loop over the pages of a shootdown.\<close>

partial_function (option) invalidate_loop :: "u64 \<Rightarrow> u64 \<Rightarrow> u64 list \<Rightarrow> u64 list option" where
  "invalidate_loop addr page_limit done_so_far =
     (if addr < page_limit then invalidate_loop (addr + VM_PAGE_SIZE) page_limit (addr # done_so_far) else Some done_so_far)"

datatype handled = Returned PerCPU | Halted PerCPU

text \<open>One item: \<open>None\<close> when the loop over its pages does not end.\<close>

definition handle_item :: "IpwiWorkItem \<Rightarrow> PerCPU \<Rightarrow> handled option" where
  "handle_item item c =
     (if wi_type item = IPWI_TYPE_TLB_SHOOTDOWN then
        let payload = wi_payload item
        in if target_pid payload = fst (cpu_proc c) \<or> target_pml4 payload = snd (cpu_proc c)
           then map_option (\<lambda>l. Returned (c\<lparr>cpu_invalidated := l\<rparr>))
                  (invalidate_loop (start_vaddr payload) (start_vaddr payload + page_count payload * VM_PAGE_SIZE) (cpu_invalidated c))
           else Some (Returned c)
      else if wi_type item = IPWI_TYPE_REMOTE_EXEC then Some (Returned c)
      else if wi_type item = IPWI_TYPE_PANIC_HALT then Some (Halted c)
      else Some (Returned c))"

partial_function (option) ipwi_ipi_handler :: "PerCPU \<Rightarrow> handled option" where
  "ipwi_ipi_handler c =
     (case ipwi_dequeue_this_cpu c of
        (c, None) \<Rightarrow> Some (Returned c)
      | (c, Some item) \<Rightarrow>
          (case handle_item item c of
             None \<Rightarrow> None
           | Some (Halted c) \<Rightarrow> Some (Halted c)
           | Some (Returned c) \<Rightarrow> ipwi_ipi_handler c))"

section \<open>Mapping with shootdown\<close>

text \<open>The work item of a shootdown.\<close>

definition shootdown_item :: "u64 \<Rightarrow> u64 \<Rightarrow> u64 \<Rightarrow> IpwiWorkItem" where
  "shootdown_item virt_addr pid pml4 =
     \<lparr>wi_type = IPWI_TYPE_TLB_SHOOTDOWN, wi_flags = 0,
      wi_payload = \<lparr>start_vaddr = virt_addr, page_count = 1, target_pid = pid, target_pml4 = pml4\<rparr>\<rparr>"

text \<open>The operations on a process, whose pid and page table root are arguments. \<open>None\<close> when the mapper's lock is never released.\<close>

definition vmm_shootdown_map_page_containing_in_process ::
    "(nat \<Rightarrow> bool) \<Rightarrow> nat \<Rightarrow> u64 \<Rightarrow> u64 \<Rightarrow> u64 \<Rightarrow> u64 \<Rightarrow> u64 \<Rightarrow> smp \<Rightarrow> (smp \<times> bool) option" where
  "vmm_shootdown_map_page_containing_in_process oks this pid pml4 virt_addr phys_addr flags s =
     (let pml4_virt = vmm_phys_to_virt pml4
      in if pml4_virt = NULL then Some (s, False)
         else case vmm_map_page_containing_in pml4_virt virt_addr phys_addr (ucast flags) (vm_of s) of
                None \<Rightarrow> None
              | Some (vm, result) \<Rightarrow>
                  let (cs, _) = ipwi_enqueue_all_except_current oks (shootdown_item virt_addr pid 0) this (cpus_of s)
                  in Some (s\<lparr>vm_of := vm, cpus_of := cs\<rparr>, result))"

definition vmm_shootdown_map_pages_containing_in_process ::
    "(nat \<Rightarrow> bool) \<Rightarrow> nat \<Rightarrow> u64 \<Rightarrow> u64 \<Rightarrow> u64 \<Rightarrow> u64 \<Rightarrow> u64 \<Rightarrow> nat \<Rightarrow> smp \<Rightarrow> (smp \<times> bool) option" where
  "vmm_shootdown_map_pages_containing_in_process oks this pid pml4 virt_addr phys_addr flags num_pages s =
     (let pml4_virt = vmm_phys_to_virt pml4
      in if pml4_virt = NULL then Some (s, False)
         else case vmm_map_pages_containing_in pml4_virt virt_addr phys_addr (ucast flags) num_pages (vm_of s) of
                None \<Rightarrow> None
              | Some (vm, result) \<Rightarrow>
                  let (cs, _) = ipwi_enqueue_all_except_current oks (shootdown_item virt_addr pid 0) this (cpus_of s)
                  in Some (s\<lparr>vm_of := vm, cpus_of := cs\<rparr>, result))"

definition vmm_shootdown_unmap_page_in_process ::
    "(nat \<Rightarrow> bool) \<Rightarrow> nat \<Rightarrow> u64 \<Rightarrow> u64 \<Rightarrow> u64 \<Rightarrow> smp \<Rightarrow> (smp \<times> u64) option" where
  "vmm_shootdown_unmap_page_in_process oks this pid pml4 virt_addr s =
     (let pml4_virt = vmm_phys_to_virt pml4
      in if pml4_virt = NULL then Some (s, 0)
         else case vmm_unmap_page_in pml4_virt virt_addr (vm_of s) of
                None \<Rightarrow> None
              | Some (vm, result) \<Rightarrow>
                  let (cs, _) = ipwi_enqueue_all_except_current oks (shootdown_item virt_addr pid 0) this (cpus_of s)
                  in Some (s\<lparr>vm_of := vm, cpus_of := cs\<rparr>, result))"

definition vmm_shootdown_unmap_pages_in_process ::
    "(nat \<Rightarrow> bool) \<Rightarrow> nat \<Rightarrow> u64 \<Rightarrow> u64 \<Rightarrow> u64 \<Rightarrow> nat \<Rightarrow> smp \<Rightarrow> (smp \<times> u64) option" where
  "vmm_shootdown_unmap_pages_in_process oks this pid pml4 virt_addr num_pages s =
     (let pml4_virt = vmm_phys_to_virt pml4
      in if pml4_virt = NULL then Some (s, 0)
         else case vmm_unmap_pages_in pml4_virt virt_addr num_pages (vm_of s) of
                None \<Rightarrow> None
              | Some (vm, result) \<Rightarrow>
                  let (cs, _) = ipwi_enqueue_all_except_current oks (shootdown_item virt_addr pid 0) this (cpus_of s)
                  in Some (s\<lparr>vm_of := vm, cpus_of := cs\<rparr>, result))"

text \<open>The operations on a page table root given by its virtual address; \<open>cr3\<close> is the current one, through which the
  physical address of the target is looked up.\<close>

definition vmm_shootdown_map_page_containing_in_pml4 ::
    "(nat \<Rightarrow> bool) \<Rightarrow> nat \<Rightarrow> u64 \<Rightarrow> ptr \<Rightarrow> u64 \<Rightarrow> u64 \<Rightarrow> u64 \<Rightarrow> smp \<Rightarrow> (smp \<times> bool) option" where
  "vmm_shootdown_map_page_containing_in_pml4 oks this cr3 pml4_virt virt_addr phys_addr flags s =
     (case vmm_map_page_containing_in pml4_virt virt_addr phys_addr (ucast flags) (vm_of s) of
        None \<Rightarrow> None
      | Some (vm, result) \<Rightarrow>
          let (cs, _) = ipwi_enqueue_all_except_current oks (shootdown_item virt_addr 0 (vmm_virt_to_phys cr3 pml4_virt vm)) this (cpus_of s)
          in Some (s\<lparr>vm_of := vm, cpus_of := cs\<rparr>, result))"

definition vmm_shootdown_map_pages_containing_in_pml4 ::
    "(nat \<Rightarrow> bool) \<Rightarrow> nat \<Rightarrow> u64 \<Rightarrow> ptr \<Rightarrow> u64 \<Rightarrow> u64 \<Rightarrow> u64 \<Rightarrow> nat \<Rightarrow> smp \<Rightarrow> (smp \<times> bool) option" where
  "vmm_shootdown_map_pages_containing_in_pml4 oks this cr3 pml4_virt virt_addr phys_addr flags num_pages s =
     (case vmm_map_pages_containing_in pml4_virt virt_addr phys_addr (ucast flags) num_pages (vm_of s) of
        None \<Rightarrow> None
      | Some (vm, result) \<Rightarrow>
          let (cs, _) = ipwi_enqueue_all_except_current oks (shootdown_item virt_addr 0 (vmm_virt_to_phys cr3 pml4_virt vm)) this (cpus_of s)
          in Some (s\<lparr>vm_of := vm, cpus_of := cs\<rparr>, result))"

definition vmm_shootdown_unmap_page_in_pml4 ::
    "(nat \<Rightarrow> bool) \<Rightarrow> nat \<Rightarrow> u64 \<Rightarrow> ptr \<Rightarrow> u64 \<Rightarrow> smp \<Rightarrow> (smp \<times> u64) option" where
  "vmm_shootdown_unmap_page_in_pml4 oks this cr3 pml4_virt virt_addr s =
     (case vmm_unmap_page_in pml4_virt virt_addr (vm_of s) of
        None \<Rightarrow> None
      | Some (vm, result) \<Rightarrow>
          let (cs, _) = ipwi_enqueue_all_except_current oks (shootdown_item virt_addr 0 (vmm_virt_to_phys cr3 pml4_virt vm)) this (cpus_of s)
          in Some (s\<lparr>vm_of := vm, cpus_of := cs\<rparr>, result))"

definition vmm_shootdown_unmap_pages_in_pml4 ::
    "(nat \<Rightarrow> bool) \<Rightarrow> nat \<Rightarrow> u64 \<Rightarrow> ptr \<Rightarrow> u64 \<Rightarrow> nat \<Rightarrow> smp \<Rightarrow> (smp \<times> u64) option" where
  "vmm_shootdown_unmap_pages_in_pml4 oks this cr3 pml4_virt virt_addr num_pages s =
     (case vmm_unmap_pages_in pml4_virt virt_addr num_pages (vm_of s) of
        None \<Rightarrow> None
      | Some (vm, result) \<Rightarrow>
          let (cs, _) = ipwi_enqueue_all_except_current oks (shootdown_item virt_addr 0 (vmm_virt_to_phys cr3 pml4_virt vm)) this (cpus_of s)
          in Some (s\<lparr>vm_of := vm, cpus_of := cs\<rparr>, result))"

section \<open>Library\<close>

text \<open>The pages a work item makes a processor invalidate, in order: the loop ends for every start and count. The limit is computed in 64 bits, so a range that reaches the end of
  the address space has a limit below its start and none of its pages is invalidated.\<close>

definition span_pages :: "u64 \<Rightarrow> u64 \<Rightarrow> u64 list" where
  "span_pages a n = (let k = unat n mod 4503599627370496 in
     if unat a + k * 4096 < 18446744073709551616 then map (\<lambda>i. a + of_nat i * VM_PAGE_SIZE) [0..<k] else [])"

definition item_pages :: "u64 \<times> u64 \<Rightarrow> IpwiWorkItem \<Rightarrow> u64 list" where
  "item_pages proc item =
     (if wi_type item = IPWI_TYPE_TLB_SHOOTDOWN \<and> (target_pid (wi_payload item) = fst proc \<or> target_pml4 (wi_payload item) = snd proc)
      then span_pages (start_vaddr (wi_payload item)) (page_count (wi_payload item)) else [])"

lemma invalidate_loop_ok:
  "unat a + k * 4096 < 18446744073709551616 \<Longrightarrow>
    invalidate_loop a (a + of_nat k * VM_PAGE_SIZE) l = Some (rev (map (\<lambda>i. a + of_nat i * VM_PAGE_SIZE) [0..<k]) @ l)"
proof (induction k arbitrary: a l)
  case 0
  then show ?case by (subst invalidate_loop.simps) simp
next
  case (Suc k)
  have k: "of_nat (Suc k) * VM_PAGE_SIZE = VM_PAGE_SIZE + of_nat k * VM_PAGE_SIZE" by (simp add: distrib_right)
  have ks: "unat (of_nat (Suc k) * VM_PAGE_SIZE) = Suc k * 4096"
  proof -
    have "Suc k < 18446744073709551616" using Suc.prems by simp
    then have "unat (of_nat (Suc k) :: u64) = Suc k" by (simp add: unsigned_of_nat take_bit_nat_eq_self del: of_nat_Suc)
    then show ?thesis using Suc.prems by (subst unat_mult_u64) (simp_all del: of_nat_Suc)
  qed
  then have "unat (a + of_nat (Suc k) * VM_PAGE_SIZE) = unat a + Suc k * 4096" using Suc.prems by (subst unat_add_u64) (simp_all del: of_nat_Suc)
  then have lt: "a < a + of_nat (Suc k) * VM_PAGE_SIZE" by (simp add: word_less_nat_alt del: of_nat_Suc)
  have ua: "unat (a + VM_PAGE_SIZE) = unat a + 4096" using Suc.prems by (subst unat_add_u64) simp_all
  have e: "a + of_nat (Suc k) * VM_PAGE_SIZE = (a + VM_PAGE_SIZE) + of_nat k * VM_PAGE_SIZE" using k by (simp add: add.assoc)
  have "invalidate_loop a (a + of_nat (Suc k) * VM_PAGE_SIZE) l = invalidate_loop (a + VM_PAGE_SIZE) (a + of_nat (Suc k) * VM_PAGE_SIZE) (a # l)"
    using lt by (subst invalidate_loop.simps) (simp del: of_nat_Suc)
  also have "\<dots> = Some (rev (map (\<lambda>i. (a + VM_PAGE_SIZE) + of_nat i * VM_PAGE_SIZE) [0..<k]) @ a # l)"
    unfolding e by (rule Suc.IH) (use ua Suc.prems in simp)
  also have "rev (map (\<lambda>i. (a + VM_PAGE_SIZE) + of_nat i * VM_PAGE_SIZE) [0..<k]) @ a # l = rev (map (\<lambda>i. a + of_nat i * VM_PAGE_SIZE) [0..<Suc k]) @ l"
  proof -
    have "map (\<lambda>i. a + of_nat i * VM_PAGE_SIZE) [0..<Suc k] = a # map (\<lambda>i. a + of_nat (Suc i) * VM_PAGE_SIZE) [0..<k]"
      by (simp only: upt_conv_Cons [OF zero_less_Suc] map_Suc_upt [symmetric] list.map map_map comp_def) simp
    then show ?thesis by (simp add: distrib_right add.assoc)
  qed
  finally show ?case .
qed

lemma mod_once: "M \<le> x \<Longrightarrow> x < M + M \<Longrightarrow> x mod M = x - (M :: nat)"
  by (simp add: le_mod_geq)

lemma invalidate_span: "invalidate_loop a (a + n * VM_PAGE_SIZE) l = Some (rev (span_pages a n) @ l)"
proof -
  let ?k = "unat n mod 4503599627370496"
  have "unat n * 4096 mod 18446744073709551616 = ?k * 4096"
    using mult_mod_right [of 4096 "unat n" 4503599627370496] by (simp add: mult.commute)
  then have "unat (n * VM_PAGE_SIZE) = ?k * 4096" by (simp add: unat_word_ariths)
  moreover have k: "?k * 4096 < 18446744073709551616" by simp
  moreover have "unat (of_nat ?k * VM_PAGE_SIZE) = ?k * 4096"
  proof -
    have "unat (of_nat ?k :: u64) = ?k" by (simp add: unsigned_of_nat take_bit_nat_eq_self)
    then show ?thesis using k by (subst unat_mult_u64) simp_all
  qed
  ultimately have e: "n * VM_PAGE_SIZE = of_nat ?k * VM_PAGE_SIZE" by (simp add: u64_eq_iff)
  show ?thesis
  proof (cases "unat a + ?k * 4096 < 18446744073709551616")
    case True
    then show ?thesis using invalidate_loop_ok [OF True, of l] e by (simp add: span_pages_def Let_def)
  next
    case False
    have "unat (a + n * VM_PAGE_SIZE) = (unat a + ?k * 4096) mod 18446744073709551616"
      using \<open>unat (n * VM_PAGE_SIZE) = ?k * 4096\<close> by (simp add: unat_word_ariths)
    also have "\<dots> = unat a + ?k * 4096 - 18446744073709551616" using False k u64_less [of a] by (intro mod_once) linarith+
    also have "\<dots> \<le> unat a" using k by linarith
    finally have "\<not> a < a + n * VM_PAGE_SIZE" by (simp add: word_less_nat_alt not_less)
    then show ?thesis using False by (subst invalidate_loop.simps) (simp add: span_pages_def Let_def)
  qed
qed

lemma handle_item_eq:
  "handle_item item c = Some (if wi_type item = IPWI_TYPE_PANIC_HALT then Halted c
     else Returned (c\<lparr>cpu_invalidated := rev (item_pages (cpu_proc c) item) @ cpu_invalidated c\<rparr>))"
  by (simp add: handle_item_def item_pages_def invalidate_span Let_def IPWI_TYPE_TLB_SHOOTDOWN_def IPWI_TYPE_PANIC_HALT_def IPWI_TYPE_REMOTE_EXEC_def)

text \<open>The handler empties the queue, up to an item that halts the processor.\<close>

lemma handler_ok:
  assumes "sa_ok (cpu_queue c)"
  shows "(if \<exists>item \<in> set (elems (cpu_queue c)). wi_type item = IPWI_TYPE_PANIC_HALT then \<exists>c'. ipwi_ipi_handler c = Some (Halted c')
    else \<exists>c'. ipwi_ipi_handler c = Some (Returned c') \<and> elems (cpu_queue c') = [] \<and> sa_ok (cpu_queue c') \<and> cpu_proc c' = cpu_proc c
      \<and> cpu_invalidated c' = rev (concat (map (item_pages (cpu_proc c)) (elems (cpu_queue c)))) @ cpu_invalidated c)"
  using assms
proof (induction "elems (cpu_queue c)" arbitrary: c)
  case Nil
  have "ipwi_ipi_handler c = Some (Returned (c\<lparr>cpu_queue := shift_array_remove_head (cpu_queue c)\<rparr>))"
    using get_ok(1) [OF Nil.prems] Nil.hyps by (subst ipwi_ipi_handler.simps) (simp add: ipwi_dequeue_this_cpu_def)
  then show ?case using sa_remove_ok(1) [OF Nil.prems] Nil.hyps [symmetric] by simp
next
  case (Cons item items)
  let ?c = "c\<lparr>cpu_queue := shift_array_remove_head (cpu_queue c)\<rparr>"
  let ?d = "?c\<lparr>cpu_invalidated := rev (item_pages (cpu_proc c) item) @ cpu_invalidated c\<rparr>"
  have q: "elems (cpu_queue c) = item # items" using Cons.hyps(2) by simp
  have dq: "ipwi_dequeue_this_cpu c = (?c, Some item)" using get_ok(1) [OF Cons.prems] q by (simp add: ipwi_dequeue_this_cpu_def)
  have r: "sa_ok (cpu_queue ?d)" "elems (cpu_queue ?d) = items" using sa_remove_ok(1) [OF Cons.prems] q by simp_all
  show ?case
  proof (cases "wi_type item = IPWI_TYPE_PANIC_HALT")
    case True
    have "ipwi_ipi_handler c = Some (Halted ?c)" using True dq by (subst ipwi_ipi_handler.simps) (simp add: handle_item_eq)
    then show ?thesis using q True by auto
  next
    case False
    have step: "ipwi_ipi_handler c = ipwi_ipi_handler ?d" using False dq by (subst ipwi_ipi_handler.simps) (simp add: handle_item_eq)
    show ?thesis using Cons.hyps(1) [OF r(2) [symmetric] r(1)] False unfolding step r(2) q
      by (cases "\<exists>item \<in> set items. wi_type item = IPWI_TYPE_PANIC_HALT") simp_all
  qed
qed

text \<open>Broadcasting an item.\<close>

definition cpu_plus :: "bool \<Rightarrow> IpwiWorkItem \<Rightarrow> PerCPU \<Rightarrow> PerCPU" where
  "cpu_plus ok item c = c\<lparr>cpu_queue := fst (shift_array_insert_tail ok zero_item item (cpu_queue c))\<rparr>"

lemma enqueue_loop_ok:
  "i + n = length cs \<Longrightarrow> \<exists>cs'. enqueue_loop oks item this n i cs = (cs', True) \<and> length cs' = length cs
    \<and> (\<forall>k < length cs. cs' ! k = (if i \<le> k \<and> k \<noteq> this then cpu_plus (oks k) item (cs ! k) else cs ! k))"
proof (induction n arbitrary: i cs)
  case 0
  then show ?case by simp
next
  case (Suc n)
  show ?case
  proof (cases "i = this")
    case True
    obtain cs' where cs': "enqueue_loop oks item this n (i + 1) cs = (cs', True)" "length cs' = length cs"
      "\<forall>k < length cs. cs' ! k = (if i + 1 \<le> k \<and> k \<noteq> this then cpu_plus (oks k) item (cs ! k) else cs ! k)"
      using Suc.IH [of "i + 1" cs] Suc.prems by auto
    then show ?thesis using True by (intro exI [of _ cs']) auto
  next
    case False
    let ?cs = "cs[i := cpu_plus (oks i) item (cs ! i)]"
    have e: "ipwi_enqueue (oks i) item i cs = (?cs, True)" using Suc.prems by (simp add: ipwi_enqueue_def cpu_plus_def)
    obtain cs' where cs': "enqueue_loop oks item this n (i + 1) ?cs = (cs', True)" "length cs' = length ?cs"
      "\<forall>k < length ?cs. cs' ! k = (if i + 1 \<le> k \<and> k \<noteq> this then cpu_plus (oks k) item (?cs ! k) else ?cs ! k)"
      using Suc.IH [of "i + 1" ?cs] Suc.prems by auto
    have "cs' ! k = (if i \<le> k \<and> k \<noteq> this then cpu_plus (oks k) item (cs ! k) else cs ! k)" if "k < length cs" for k
      using cs'(3) that False by (cases "k = i") auto
    then show ?thesis using e cs'(1,2) False by (intro exI [of _ cs']) simp
  qed
qed

lemma broadcast_ok:
  assumes "ipwi_enqueue_all_except_current oks item this cs = (cs', b)"
  shows "b \<and> length cs' = length cs \<and> (\<forall>k < length cs. cs' ! k = (if k \<noteq> this then cpu_plus (oks k) item (cs ! k) else cs ! k))"
  using enqueue_loop_ok [of 0 "length cs" cs oks item this] assms by (auto simp: ipwi_enqueue_all_except_current_def)

lemma cpu_plus_ok:
  assumes "sa_ok (cpu_queue c)" "ok"
  shows "sa_ok (cpu_queue (cpu_plus ok item c)) \<and> elems (cpu_queue (cpu_plus ok item c)) = elems (cpu_queue c) @ [item]
    \<and> cpu_proc (cpu_plus ok item c) = cpu_proc c \<and> cpu_invalidated (cpu_plus ok item c) = cpu_invalidated c"
  using insert_tail_ok [OF assms(1), of ok zero_item item] assms(2)
  by (cases "shift_array_insert_tail ok zero_item item (cpu_queue c)") (simp add: cpu_plus_def)

lemma shootdown_item_pages: "item_pages proc (shootdown_item va pid pml4) = (if pid = fst proc \<or> pml4 = snd proc then span_pages va 1 else [])"
  by (simp add: item_pages_def shootdown_item_def)

lemma span_pages_1: "unat va + 4096 < 18446744073709551616 \<Longrightarrow> span_pages va 1 = [va]"
  by (simp add: span_pages_def)

text \<open>Two processors that run process 7, and one with a shootdown queued.\<close>

definition idle_cpu :: PerCPU where
  "idle_cpu = \<lparr>cpu_queue = \<lparr>sa_data = [zero_item, zero_item], sa_head = 1, sa_tail = 1\<rparr>, cpu_invalidated = [], cpu_proc = (7, 0x9000)\<rparr>"

definition demo_smp :: smp where
  "demo_smp = \<lparr>cpus_of = [idle_cpu, idle_cpu], vm_of = demo_vm\<rparr>"

lemma idle_cpu_ok: "sa_ok (cpu_queue idle_cpu)" "elems (cpu_queue idle_cpu) = []" "cpu_proc idle_cpu = (7, 0x9000)" "cpu_invalidated idle_cpu = []"
  by (simp_all add: idle_cpu_def sa_ok_def elems_def)

lemma demo_smp_simps [simp]: "cpus_of demo_smp = [idle_cpu, idle_cpu]" "vm_of demo_smp = demo_vm"
  by (simp_all add: demo_smp_def)

lemma root_9000: "vmm_phys_to_virt 0x9000 \<noteq> NULL"
  by (rule phys_to_virt_not_NULL) (simp add: table_frame_def page_aligned_def)

section \<open>Properties\<close>

lemma span_pages_fit:
  assumes "unat a + 4096 * unat n < 18446744073709551616"
  shows "span_pages a n = map (\<lambda>i. a + 4096 * of_nat i) [0..<unat n]"
proof -
  have "unat n < 4503599627370496" using assms by simp
  then show ?thesis using assms by (simp add: span_pages_def Let_def VM_PAGE_SIZE_def mult.commute)
qed

lemma shootdown_at_top: "span_pages 0xFFFFFFFFFFFFF000 1 = []"
  by (simp add: span_pages_def Let_def)

text \<open>C31: the handler of the work item interrupt always ends, whatever the items hold, and leaves the queue empty, unless one of them
  halts the processor. When the ranges of the shootdowns that concern the process it runs end below the end of the address space, it invalidates every page of every such
  shootdown, in the order of the queue, and nothing else.\<close>

theorem ipwi_ipi_handler_terminates:
  assumes "sa_ok (cpu_queue c)"
    and "concerned = (\<lambda>item. wi_type item = 2 \<and> (target_pid (wi_payload item) = fst (cpu_proc c) \<or> target_pml4 (wi_payload item) = snd (cpu_proc c)))"
    and "pages = (\<lambda>item. if concerned item then map (\<lambda>i. start_vaddr (wi_payload item) + 4096 * of_nat i) [0..<unat (page_count (wi_payload item))] else [])"
  shows "(if \<exists>item \<in> set (elems (cpu_queue c)). wi_type item = 3 then \<exists>c'. ipwi_ipi_handler c = Some (Halted c')
    else \<exists>c'. ipwi_ipi_handler c = Some (Returned c') \<and> elems (cpu_queue c') = [] \<and> sa_ok (cpu_queue c') \<and> cpu_proc c' = cpu_proc c
      \<and> ((\<forall>item \<in> set (elems (cpu_queue c)). concerned item \<longrightarrow>
            unat (start_vaddr (wi_payload item)) + 4096 * unat (page_count (wi_payload item)) < 18446744073709551616) \<longrightarrow>
           cpu_invalidated c' = rev (concat (map pages (elems (cpu_queue c)))) @ cpu_invalidated c))"
proof -
  have e: "map (item_pages (cpu_proc c)) (elems (cpu_queue c)) = map pages (elems (cpu_queue c))"
    if "\<forall>item \<in> set (elems (cpu_queue c)). concerned item \<longrightarrow>
            unat (start_vaddr (wi_payload item)) + 4096 * unat (page_count (wi_payload item)) < 18446744073709551616"
    using that by (intro map_cong refl) (auto simp: assms(2,3) item_pages_def IPWI_TYPE_TLB_SHOOTDOWN_def span_pages_fit)
  show ?thesis
  proof (cases "\<exists>item \<in> set (elems (cpu_queue c)). wi_type item = 3")
    case True
    then show ?thesis using handler_ok [OF assms(1)] unfolding IPWI_TYPE_PANIC_HALT_def by simp
  next
    case False
    then obtain c' where "ipwi_ipi_handler c = Some (Returned c')" "elems (cpu_queue c') = []" "sa_ok (cpu_queue c')" "cpu_proc c' = cpu_proc c"
      "cpu_invalidated c' = rev (concat (map (item_pages (cpu_proc c)) (elems (cpu_queue c)))) @ cpu_invalidated c"
      using handler_ok [OF assms(1)] unfolding IPWI_TYPE_PANIC_HALT_def by auto
    then show ?thesis unfolding if_not_P [OF False] using e by (intro exI [of _ c']) (simp del: map_eq_conv)
  qed
qed

theorem ipwi_ipi_handler_terminates_witness:
  "\<exists>c'. ipwi_ipi_handler (cpu_plus True (shootdown_item 0x4000 7 0) idle_cpu) = Some (Returned c') \<and> cpu_invalidated c' = [0x4000]"
proof -
  note cp = cpu_plus_ok [OF idle_cpu_ok(1), of True "shootdown_item 0x4000 7 0"]
  have h: "wi_type (shootdown_item 0x4000 7 0) = 2" "wi_payload (shootdown_item 0x4000 7 0) = \<lparr>start_vaddr = 0x4000, page_count = 1, target_pid = 7, target_pml4 = 0\<rparr>"
    by (simp_all add: shootdown_item_def IPWI_TYPE_TLB_SHOOTDOWN_def)
  show ?thesis using ipwi_ipi_handler_terminates [of "cpu_plus True (shootdown_item 0x4000 7 0) idle_cpu", OF _ refl refl] cp h idle_cpu_ok
    by auto
qed

text \<open>C26: unmapping a page of a process and telling the other processors: the page is unmapped, and each other processor that runs the
  process and has room for the work item invalidates the page when it handles its queue.\<close>

theorem vmm_shootdown_unmap_reaches_all:
  assumes vm: "vm_ok (vmm_phys_to_virt pml4) (vm_of s)" "plain (vmm_phys_to_virt pml4) va (vm_of s)" "vmm_phys_to_virt pml4 \<noteq> NULL"
    and va: "unat va + 4096 < 18446744073709551616"
    and k: "k < length (cpus_of s)" "k \<noteq> this" "sa_ok (cpu_queue (cpus_of s ! k))" "oks k" "fst (cpu_proc (cpus_of s ! k)) = pid"
      "\<forall>item \<in> set (elems (cpu_queue (cpus_of s ! k))). wi_type item \<noteq> IPWI_TYPE_PANIC_HALT"
    and ev: "vmm_shootdown_unmap_page_in_process oks this pid pml4 va s = Some (s', r)"
  shows "r = vmm_virt_to_phys_page pml4 va (vm_of s) \<and> vmm_virt_to_pt_entry pml4 va (vm_of s') = 0
    \<and> (\<exists>c'. ipwi_ipi_handler (cpus_of s' ! k) = Some (Returned c') \<and> elems (cpu_queue c') = [] \<and> va \<in> set (cpu_invalidated c'))"
proof -
  let ?item = "shootdown_item va pid 0" and ?root = "vmm_phys_to_virt pml4" and ?c = "cpus_of s ! k"
  obtain cs b where br: "ipwi_enqueue_all_except_current oks ?item this (cpus_of s) = (cs, b)" by fastforce
  obtain v where v: "vmm_unmap_page_in ?root va (vm_of s) = Some (v, r)" "s' = s\<lparr>vm_of := v, cpus_of := cs\<rparr>"
    using ev vm(3) br by (auto simp: vmm_shootdown_unmap_page_in_process_def Let_def split: option.splits prod.splits)
  have un: "nolock_vmm_unmap_page_in ?root va (vm_of s) = (v, r)" using v(1) by (auto simp: vmm_unmap_page_in_def split: if_splits)
  note u = unmap_page_ok [OF vm(1,2) un]
  have pl: "plain ?root va v" using plain_mono [OF vm(2)] u by blast
  have "r = vmm_virt_to_phys_page pml4 va (vm_of s)" using u walk_eq [OF vm(2)] by (simp add: vmm_virt_to_phys_page_def)
  moreover have "vmm_virt_to_pt_entry pml4 va (vm_of s') = 0" using walk_eq [OF pl] u wpath_va v(2) by simp
  moreover have ck: "cpus_of s' ! k = cpu_plus (oks k) ?item ?c" using broadcast_ok [OF br] k(1,2) v(2) by simp
  note cp = cpu_plus_ok [OF k(3,4), of ?item]
  have "\<not> (\<exists>item \<in> set (elems (cpu_queue (cpu_plus (oks k) ?item ?c))). wi_type item = IPWI_TYPE_PANIC_HALT)"
    using cp k(6) by (auto simp: shootdown_item_def IPWI_TYPE_TLB_SHOOTDOWN_def IPWI_TYPE_PANIC_HALT_def)
  then obtain c' where c': "ipwi_ipi_handler (cpu_plus (oks k) ?item ?c) = Some (Returned c')" "elems (cpu_queue c') = []"
    "cpu_invalidated c' = rev (concat (map (item_pages (cpu_proc ?c)) (elems (cpu_queue ?c) @ [?item]))) @ cpu_invalidated ?c"
    using handler_ok [OF conjunct1 [OF cp]] cp by auto
  have "va \<in> set (cpu_invalidated c')" using c'(3) k(5) span_pages_1 [OF va] by (simp add: shootdown_item_pages)
  ultimately show ?thesis using c' ck by auto
qed

theorem vmm_shootdown_unmap_reaches_all_witness:
  "\<exists>s' r c'. vmm_shootdown_unmap_page_in_process (\<lambda>_. True) 0 7 0x9000 0x40001000 demo_smp = Some (s', r)
     \<and> ipwi_ipi_handler (cpus_of s' ! 1) = Some (Returned c') \<and> 0x40001000 \<in> set (cpu_invalidated c')"
proof -
  have "vmm_shootdown_unmap_page_in_process (\<lambda>_. True) 0 7 0x9000 0x40001000 demo_smp \<noteq> None"
    using demo_vm_ok(3) root_9000 by (simp add: vmm_shootdown_unmap_page_in_process_def vmm_unmap_page_in_def Let_def split: prod.split)
  then obtain s' r where ev: "vmm_shootdown_unmap_page_in_process (\<lambda>_. True) 0 7 0x9000 0x40001000 demo_smp = Some (s', r)" by auto
  show ?thesis using vmm_shootdown_unmap_reaches_all [OF _ _ root_9000 _ _ _ _ _ _ _ ev, of 1] demo_vm_ok(1,2) idle_cpu_ok ev by auto
qed

text \<open>Unmapping several pages sends the other processors one work item, for the first page only: a processor that runs the process and had
  nothing queued has invalidated no page but the first after it has handled its queue, and keeps the translations of the others.\<close>

theorem vmm_shootdown_unmap_pages_first_only:
  assumes va: "unat va + 4096 < 18446744073709551616" and pm: "vmm_phys_to_virt pml4 \<noteq> NULL"
    and k: "k < length (cpus_of s)" "k \<noteq> this" "sa_ok (cpu_queue (cpus_of s ! k))" "elems (cpu_queue (cpus_of s ! k)) = []" "oks k"
    and ev: "vmm_shootdown_unmap_pages_in_process oks this pid pml4 va n s = Some (s', r)"
  shows "\<exists>c'. ipwi_ipi_handler (cpus_of s' ! k) = Some (Returned c')
    \<and> set (cpu_invalidated c') \<subseteq> {va} \<union> set (cpu_invalidated (cpus_of s ! k))"
proof -
  let ?item = "shootdown_item va pid 0" and ?c = "cpus_of s ! k"
  obtain cs b where br: "ipwi_enqueue_all_except_current oks ?item this (cpus_of s) = (cs, b)" by fastforce
  obtain v where v: "s' = s\<lparr>vm_of := v, cpus_of := cs\<rparr>"
    using ev pm br by (auto simp: vmm_shootdown_unmap_pages_in_process_def Let_def split: option.splits prod.splits)
  have ck: "cpus_of s' ! k = cpu_plus (oks k) ?item ?c" using broadcast_ok [OF br] k(1,2) v by simp
  note cp = cpu_plus_ok [OF k(3,5), of ?item]
  have "\<not> (\<exists>item \<in> set (elems (cpu_queue (cpu_plus (oks k) ?item ?c))). wi_type item = IPWI_TYPE_PANIC_HALT)"
    using cp k(4) by (auto simp: shootdown_item_def IPWI_TYPE_TLB_SHOOTDOWN_def IPWI_TYPE_PANIC_HALT_def)
  then obtain c' where c': "ipwi_ipi_handler (cpu_plus (oks k) ?item ?c) = Some (Returned c')"
    "cpu_invalidated c' = rev (concat (map (item_pages (cpu_proc ?c)) (elems (cpu_queue ?c) @ [?item]))) @ cpu_invalidated ?c"
    using handler_ok [OF conjunct1 [OF cp]] cp by auto
  have "set (cpu_invalidated c') \<subseteq> {va} \<union> set (cpu_invalidated ?c)" using c'(2) k(4) span_pages_1 [OF va] by (auto simp: shootdown_item_pages split: if_splits)
  then show ?thesis using c'(1) ck by auto
qed

theorem vmm_shootdown_unmap_pages_first_only_witness:
  "\<exists>s' r c'. vmm_shootdown_unmap_pages_in_process (\<lambda>_. True) 0 7 0x9000 0x40001000 3 demo_smp = Some (s', r)
     \<and> ipwi_ipi_handler (cpus_of s' ! 1) = Some (Returned c') \<and> set (cpu_invalidated c') \<subseteq> {0x40001000} \<and> 0x40002000 \<notin> set (cpu_invalidated c')"
proof -
  have "vmm_shootdown_unmap_pages_in_process (\<lambda>_. True) 0 7 0x9000 0x40001000 3 demo_smp \<noteq> None"
    using demo_vm_ok(3) root_9000 by (simp add: vmm_shootdown_unmap_pages_in_process_def vmm_unmap_pages_in_def Let_def split: prod.split)
  then obtain s' r where ev: "vmm_shootdown_unmap_pages_in_process (\<lambda>_. True) 0 7 0x9000 0x40001000 3 demo_smp = Some (s', r)" by auto
  show ?thesis using vmm_shootdown_unmap_pages_first_only [OF _ root_9000 _ _ _ _ _ ev, of 1] idle_cpu_ok ev by fastforce
qed

end
