(* ===== verification/Kernel_Memory.thy ===== *)
theory Kernel_Memory
  imports Process_Memory Vmm_Mapper
begin

text \<open>
  The memory the kernel's operations share: the allocators' state joined with the page tables. The tables component of the mapper holds the
  contents of every directly mapped frame, so a page's data and a page table are words of the same memory, and copying or
  clearing a page could in principle destroy a table. The theory says how an access goes through the page tables, and shows that mapping
  and unmapping touch no frame but the tables and the free frames.
\<close>

section \<open>Data\<close>

record kmem =
  km_mem :: pmem
  km_vm :: vm

text \<open>How a step ends: it goes on, the kernel panics, an access to an unmapped page faults, or a lock that is
  never released is waited for.\<close>

datatype 'a step_result = Done 'a | Panics | Faults u64 | Spins

section \<open>Operations\<close>

text \<open>The mapper allocates its tables from the same physical region as the processes.\<close>

definition mapper_view :: "ptr \<Rightarrow> kmem \<Rightarrow> vm" where
  "mapper_view rgn s = (km_vm s)\<lparr>vm_phys := pm_region (km_mem s) rgn\<rparr>"

definition mapper_store :: "ptr \<Rightarrow> vm \<Rightarrow> kmem \<Rightarrow> kmem" where
  "mapper_store rgn v s = s\<lparr>km_vm := v, km_mem := (km_mem s)\<lparr>pm_region := (pm_region (km_mem s))(rgn := vm_phys v)\<rparr>\<rparr>"

definition with_mapper :: "ptr \<Rightarrow> (vm \<Rightarrow> (vm \<times> 'b) option) \<Rightarrow> kmem \<Rightarrow> (kmem \<Rightarrow> 'b \<Rightarrow> 'a step_result) \<Rightarrow> 'a step_result" where
  "with_mapper rgn f s k = (case f (mapper_view rgn s) of None \<Rightarrow> Spins | Some (v, r) \<Rightarrow> k (mapper_store rgn v s) r)"

text \<open>The frame an access to a virtual page reaches, as the processor finds it: a large page on the way maps its part.\<close>

definition mmu_frame :: "u64 \<Rightarrow> u64 \<Rightarrow> vm \<Rightarrow> u64 option" where
  "mmu_frame cr3 va s =
     (let pml4e = vm_tables s (vmm_phys_to_virt cr3) (vmm_virt_to_pml4_index va) in
      if \<not> present pml4e then None
      else
        let pdpte = vm_tables s (vmm_phys_to_virt (vmm_table_entry_to_phys pml4e)) (vmm_virt_to_pdpt_index va) in
        if \<not> present pdpte then None
        else if is_pagesize_leaf pdpte
        then Some ((vmm_table_entry_to_phys pdpte AND NOT (mask 30)) OR (va AND mask 30 AND NOT (mask 12)))
        else
          let pde = vm_tables s (vmm_phys_to_virt (vmm_table_entry_to_phys pdpte)) (vmm_virt_to_pd_index va) in
          if \<not> present pde then None
          else if is_pagesize_leaf pde
          then Some ((vmm_table_entry_to_phys pde AND NOT (mask 21)) OR (va AND mask 21 AND NOT (mask 12)))
          else
            let pte = vm_tables s (vmm_phys_to_virt (vmm_table_entry_to_phys pde)) (vmm_virt_to_pt_index va) in
            if present pte then Some (vmm_table_entry_to_phys pte) else None)"

text \<open>The contents of a frame, by its 512 words.\<close>

definition frame_data :: "vm \<Rightarrow> u64 \<Rightarrow> nat \<Rightarrow> u64" where
  "frame_data s f = vm_tables s (vmm_phys_to_virt f)"

definition set_frame :: "u64 \<Rightarrow> (nat \<Rightarrow> u64) \<Rightarrow> vm \<Rightarrow> vm" where
  "set_frame f d s = s\<lparr>vm_tables := (vm_tables s)(vmm_phys_to_virt f := d)\<rparr>"

definition memcpy_page :: "u64 \<Rightarrow> u64 \<Rightarrow> u64 \<Rightarrow> kmem \<Rightarrow> (kmem \<Rightarrow> 'a step_result) \<Rightarrow> 'a step_result" where
  "memcpy_page cr3 dest src s k =
     (case mmu_frame cr3 src (km_vm s) of
        None \<Rightarrow> Faults src
      | Some f \<Rightarrow>
          case mmu_frame cr3 dest (km_vm s) of
            None \<Rightarrow> Faults dest
          | Some g \<Rightarrow> k (s\<lparr>km_vm := set_frame g (frame_data (km_vm s) f) (km_vm s)\<rparr>))"

definition memclr_page :: "u64 \<Rightarrow> u64 \<Rightarrow> kmem \<Rightarrow> (kmem \<Rightarrow> 'a step_result) \<Rightarrow> 'a step_result" where
  "memclr_page cr3 dest s k =
     (case mmu_frame cr3 dest (km_vm s) of
        None \<Rightarrow> Faults dest
      | Some g \<Rightarrow> k (s\<lparr>km_vm := set_frame g (\<lambda>_. 0) (km_vm s)\<rparr>))"


section \<open>Lemmas on the mapper\<close>

lemma pt_write_untouched:
  assumes ok: "vm_ok root s" and t: "reach (vm_tables s) root P = Some t" "wpath P" "length P = 3"
  shows "keeps root a s (vmm_invalidate_page va (write_entry t i e s))"
  unfolding keeps_def
proof
  assume u: "untouched root a s"
  have tr: "tree_ok (vm_tables s) (free_pages (vm_phys s)) root" using ok by (simp add: vm_ok_def)
  have "reach ((vm_tables s)(t := (vm_tables s t)(i := e))) root p = reach (vm_tables s) root p" if "wpath p" for p
    by (rule pt_write(1) [OF tr t that])
  moreover have "a \<noteq> t" using u t by (auto simp: untouched_def)
  ultimately show "untouched root a (vmm_invalidate_page va (write_entry t i e s)) \<and> vm_tables (vmm_invalidate_page va (write_entry t i e s)) a = vm_tables s a"
    using u by (simp add: untouched_def write_entry_def vmm_invalidate_page_def)
qed

text \<open>At most one frame is taken for each table that may be missing.\<close>

lemma ensure_loop_card:
  "region_wf (vm_phys s) \<Longrightarrow> ensure_loop n va fl t s = (s', t') \<Longrightarrow> card (free_pages (vm_phys s)) \<le> card (free_pages (vm_phys s')) + n"
proof (induction n arbitrary: t s)
  case (Suc n)
  obtain r x where rx: "page_alloc (vm_phys s) = (r, x)" by fastforce
  have r: "region_wf r \<and> card (free_pages (vm_phys s)) \<le> card (free_pages r) + 1"
  proof (cases "free_pages (vm_phys s) = {}")
    case True
    then show ?thesis using pmm.alloc_fail [OF Suc.prems(1)] rx Suc.prems(1) by simp
  next
    case False
    have "finite (free_pages (vm_phys s))" by (simp add: free_pages_def)
    then show ?thesis using pmm.alloc_ok [OF Suc.prems(1) False rx] by (simp add: card_Diff_singleton)
  qed
  show ?case
  proof (cases "present (vm_tables s t (vmm_virt_to_table_index va (Suc n + 1)))")
    case True
    then consider "s' = s" | e t1 where "ensure_loop n va fl t1 (write_entry t (vmm_virt_to_table_index va (Suc n + 1)) e s) = (s', t')"
      using Suc.prems(2) by (auto simp: Let_def split: if_splits)
    then show ?thesis
    proof cases
      case 2
      then show ?thesis using Suc.IH [OF _ 2] Suc.prems(1) by (simp add: write_entry_def)
    qed simp
  next
    case False
    then consider "s' = s\<lparr>vm_phys := r\<rparr>"
      | e where "ensure_loop n va fl (vmm_phys_to_virt x) (write_entry t (vmm_virt_to_table_index va (Suc n + 1)) e
          (clear_table (vmm_phys_to_virt x) (s\<lparr>vm_phys := r\<rparr>))) = (s', t')"
      using Suc.prems(2) rx by (auto simp: Let_def split: if_splits)
    then show ?thesis
    proof cases
      case 1
      then show ?thesis using r by simp
    next
      case 2
      then show ?thesis using Suc.IH [OF _ 2] r by (simp add: write_entry_def clear_table_def)
    qed
  qed
qed simp

lemma map_page_frame:
  assumes ok: "vm_ok root s" and pl: "plain root va s" and ev: "nolock_vmm_map_page_containing_in root va phys fl s = (s', b)"
  shows "keeps root a s s'" "free_pages (vm_phys s') \<subseteq> free_pages (vm_phys s)"
    "reach (vm_tables s) root (va_path 3 va) \<noteq> None \<Longrightarrow> b \<and> vm_phys s' = vm_phys s"
    "card (free_pages (vm_phys s)) \<le> card (free_pages (vm_phys s')) + 3"
proof -
  let ?va = "va AND PAGE_ALIGN_MASK"
  obtain s1 t where st: "ensure_loop 3 ?va fl root s = (s1, t)" by fastforce
  have E: "vm_ok root s1" "free_pages (vm_phys s1) \<subseteq> free_pages (vm_phys s)" "keeps root a s s1"
    "t \<noteq> NULL \<longrightarrow> reach (vm_tables s1) root (va_path 3 va) = Some t"
    "reach (vm_tables s) root (va_path 3 va) \<noteq> None \<longrightarrow> t \<noteq> NULL \<and> vm_phys s1 = vm_phys s"
    using ensure_loop_ok [OF ok, of "[]" root 3 ?va fl s1 t a] pl st by (simp_all add: wpath_def aligned_path)
  consider (fail) "t = NULL" "s' = s1" "\<not> b"
    | (mapped) "t \<noteq> NULL" "s' = vmm_invalidate_page va (write_entry t (vmm_virt_to_pt_index va) (vmm_phys_and_flags_to_table_entry phys (ucast fl)) s1)" "b"
    using ev st by (cases "t = NULL") (auto simp: nolock_vmm_map_page_containing_in_def ensure_tables_def Let_def)
  then have "keeps root a s s' \<and> vm_phys s' = vm_phys s1 \<and> (reach (vm_tables s) root (va_path 3 va) \<noteq> None \<longrightarrow> b \<and> vm_phys s' = vm_phys s)"
  proof cases
    case fail
    then show ?thesis using E by simp
  next
    case mapped
    then have "reach (vm_tables s1) root (va_path 3 va) = Some t" using E(4) by simp
    then have "keeps root a s1 s'" unfolding mapped(2) by (rule pt_write_untouched [OF E(1) _ wpath_va])
    moreover have "vm_phys s' = vm_phys s1" using mapped(2) by (simp add: vmm_invalidate_page_def write_entry_def)
    ultimately show ?thesis using E keeps_trans [OF E(3)] mapped(3) by simp
  qed
  then show "keeps root a s s'" "free_pages (vm_phys s') \<subseteq> free_pages (vm_phys s)"
    "reach (vm_tables s) root (va_path 3 va) \<noteq> None \<Longrightarrow> b \<and> vm_phys s' = vm_phys s"
    "card (free_pages (vm_phys s)) \<le> card (free_pages (vm_phys s')) + 3" using E(2) ensure_loop_card [OF _ st] ok by (auto simp: vm_ok_def)
qed

lemma unmap_page_frame:
  assumes ok: "vm_ok root s" and pl: "plain root va s" and ev: "nolock_vmm_unmap_page_in root va s = (s', r)"
  shows "keeps root a s s'" "vm_phys s' = vm_phys s"
proof -
  consider (none) "s' = s"
    | (found) t where "reach (vm_tables s) root (va_path 3 va) = Some t" "s' = vmm_invalidate_page va (write_entry t (vmm_virt_to_pt_index va) 0 s)"
    using ev unfolding unmap_walk [OF pl] by (auto simp: Let_def split: option.splits if_splits)
  then have "keeps root a s s' \<and> vm_phys s' = vm_phys s"
  proof cases
    case found
    then show ?thesis using pt_write_untouched [OF ok found(1) wpath_va] by (simp add: vmm_invalidate_page_def write_entry_def)
  qed simp
  then show "keeps root a s s'" "vm_phys s' = vm_phys s" by simp_all
qed

text \<open>Writing a frame that is not a table.\<close>

lemma reach_data:
  assumes "\<And>p. wpath p \<Longrightarrow> reach m root p \<noteq> Some a" "wpath p"
  shows "reach (m(a := d)) root p = reach m root p"
  using assms(2)
proof (induction p rule: rev_induct)
  case (snoc k p)
  then have p: "wpath p" by (simp add: wpath_snoc)
  show ?case
  proof (cases "reach m root p")
    case (Some b)
    then have "(m(a := d)) b = m b" using assms(1) [OF p] by auto
    then show ?thesis using Some snoc.IH [OF p] by (simp add: reach_append del: fun_upd_apply)
  qed (use snoc.IH [OF p] in \<open>simp add: reach_append del: fun_upd_apply\<close>)
qed simp

lemma data_write:
  fixes d :: "nat \<Rightarrow> u64"
  assumes "vm_ok root s" "untouched root a s"
  defines "s' \<equiv> s\<lparr>vm_tables := (vm_tables s)(a := d)\<rparr>"
  shows "vm_ok root s'" "plain root va s \<Longrightarrow> plain root va s'"
    "untouched root b s \<Longrightarrow> untouched root b s'"
    "wpath p \<Longrightarrow> pte_at (vm_tables s') root p j = pte_at (vm_tables s) root p j"
proof -
  let ?m = "vm_tables s" and ?m' = "vm_tables s'"
  have m: "?m' = ?m(a := d)" "vm_phys s' = vm_phys s" by (simp_all add: s'_def)
  have n: "reach ?m root p \<noteq> Some a" if "wpath p" for p using assms(2) that by (simp add: untouched_def)
  have r: "reach ?m' root p = reach ?m root p" if "wpath p" for p unfolding m(1) by (rule reach_data [OF n that])
  have "tree_ok ?m' (free_pages (vm_phys s)) root" using assms(1) r unfolding vm_ok_def tree_ok_def by metis
  then show "vm_ok root s'" using assms(1) m(2) by (simp add: vm_ok_def)
  have e: "?m' x = ?m x" if "wpath p" "reach ?m root p = Some x" for p x using n [OF that(1)] that(2) m(1) by auto
  have "large_at ?m' root p j = large_at ?m root p j" if "wpath p" for p j
    using r [OF that] e [OF that] by (simp add: large_at_def split: option.split)
  then have "no_new_large ?m ?m' root" unfolding no_new_large_def by blast
  then show "plain root va s \<Longrightarrow> plain root va s'" using plain_mono by simp
  show "untouched root b s \<Longrightarrow> untouched root b s'" using r m(2) by (simp add: untouched_def)
  show "pte_at ?m' root p j = pte_at ?m root p j" if "wpath p"
    using r [OF that] e [OF that] by (simp add: pte_at_def split: option.split)
qed

text \<open>An access to a page no large page covers follows the entry of the last table.\<close>

lemma mmu_frame_plain:
  assumes "plain (vmm_phys_to_virt cr3) va s"
  shows "mmu_frame cr3 va s = (let e = vmm_virt_to_pt_entry cr3 va s in if present e then Some (vmm_table_entry_to_phys e) else None)"
proof -
  let ?m = "vm_tables s" and ?root = "vmm_phys_to_virt cr3"
  let ?e4 = "?m ?root (vmm_virt_to_pml4_index va)"
  let ?e3 = "?m (child ?e4) (vmm_virt_to_pdpt_index va)"
  let ?e2 = "?m (child ?e3) (vmm_virt_to_pd_index va)"
  have l4: "present ?e4 \<Longrightarrow> \<not> is_pagesize_leaf ?e4" using assms by (auto simp: no_large_3 large_at_def)
  have l3: "present ?e4 \<Longrightarrow> present ?e3 \<Longrightarrow> \<not> is_pagesize_leaf ?e3" using assms l4 by (auto simp: no_large_3 large_at_def)
  have l2: "present ?e4 \<Longrightarrow> present ?e3 \<Longrightarrow> present ?e2 \<Longrightarrow> \<not> is_pagesize_leaf ?e2" using assms l4 l3 by (auto simp: no_large_3 large_at_def)
  show ?thesis using l3 l2 by (simp add: mmu_frame_def vmm_virt_to_pt_entry_def Let_def child_def)
qed

section \<open>Steps on the joined state\<close>

abbreviation root_of :: "u64 \<Rightarrow> ptr" where
  "root_of cr3 \<equiv> vmm_phys_to_virt cr3"

definition km_free :: "ptr \<Rightarrow> kmem \<Rightarrow> nat set" where
  "km_free rgn s = free_pages (pm_region (km_mem s) rgn)"

definition km_ok :: "u64 \<Rightarrow> ptr \<Rightarrow> kmem \<Rightarrow> bool" where
  "km_ok cr3 rgn s \<longleftrightarrow> vm_ok (root_of cr3) (mapper_view rgn s) \<and> \<not> vm_locked (km_vm s)"

text \<open>A frame that holds data: neither free nor a table of the tree.\<close>

definition data_frame :: "u64 \<Rightarrow> ptr \<Rightarrow> kmem \<Rightarrow> u64 \<Rightarrow> bool" where
  "data_frame cr3 rgn s f \<longleftrightarrow> untouched (root_of cr3) (vmm_phys_to_virt f) (mapper_view rgn s)"

text \<open>The page table entry of an address.\<close>

abbreviation pte_of :: "u64 \<Rightarrow> u64 \<Rightarrow> kmem \<Rightarrow> u64" where
  "pte_of cr3 va s \<equiv> vmm_virt_to_pt_entry cr3 va (km_vm s)"

text \<open>What a step leaves alone: the pages other than those of \<open>V\<close> and the contents of the data frames other than \<open>W\<close>.\<close>

definition km_step :: "u64 \<Rightarrow> ptr \<Rightarrow> u64 set \<Rightarrow> u64 set \<Rightarrow> kmem \<Rightarrow> kmem \<Rightarrow> bool" where
  "km_step cr3 rgn V W s s' \<longleftrightarrow> km_ok cr3 rgn s' \<and> km_free rgn s' \<subseteq> km_free rgn s
     \<and> (\<forall>va. plain (root_of cr3) va (km_vm s) \<longrightarrow> plain (root_of cr3) va (km_vm s')
          \<and> ((\<forall>v \<in> V. \<not> same_page va v) \<longrightarrow> pte_of cr3 va s' = pte_of cr3 va s))
     \<and> (\<forall>f. data_frame cr3 rgn s f \<longrightarrow> data_frame cr3 rgn s' f \<and> (f \<notin> W \<longrightarrow> frame_data (km_vm s') f = frame_data (km_vm s) f))"

lemma km_stepD:
  assumes "km_step cr3 rgn V W s s'"
  shows "km_ok cr3 rgn s'" "km_free rgn s' \<subseteq> km_free rgn s"
    "plain (root_of cr3) va (km_vm s) \<Longrightarrow> plain (root_of cr3) va (km_vm s')"
    "plain (root_of cr3) va (km_vm s) \<Longrightarrow> (\<And>v. v \<in> V \<Longrightarrow> \<not> same_page va v) \<Longrightarrow> pte_of cr3 va s' = pte_of cr3 va s"
    "data_frame cr3 rgn s f \<Longrightarrow> data_frame cr3 rgn s' f"
    "data_frame cr3 rgn s f \<Longrightarrow> f \<notin> W \<Longrightarrow> frame_data (km_vm s') f = frame_data (km_vm s) f"
  using assms unfolding km_step_def by blast+

lemma km_step_trans:
  assumes "km_step cr3 rgn V W s s1" "km_step cr3 rgn V' W' s1 s2"
  shows "km_step cr3 rgn (V \<union> V') (W \<union> W') s s2"
  using km_stepD [OF assms(1)] km_stepD [OF assms(2)] unfolding km_step_def by (auto 0 3)

lemma km_step_weaken: "km_step cr3 rgn V W s s' \<Longrightarrow> V \<subseteq> V' \<Longrightarrow> W \<subseteq> W' \<Longrightarrow> km_step cr3 rgn V' W' s s'"
  unfolding km_step_def by blast

lemma view_simps [simp]:
  "vm_tables (mapper_view rgn s) = vm_tables (km_vm s)" "vm_locked (mapper_view rgn s) = vm_locked (km_vm s)"
  "vm_phys (mapper_view rgn s) = pm_region (km_mem s) rgn" "vm_invalidated (mapper_view rgn s) = vm_invalidated (km_vm s)"
  by (simp_all add: mapper_view_def)

lemma store_simps [simp]:
  "km_vm (mapper_store rgn v s) = v" "pm_refs (km_mem (mapper_store rgn v s)) = pm_refs (km_mem s)"
  "pm_pages (km_mem (mapper_store rgn v s)) = pm_pages (km_mem s)"
  "pm_region (km_mem (mapper_store rgn v s)) = (pm_region (km_mem s))(rgn := vm_phys v)"
  "mapper_view rgn (mapper_store rgn v s) = v"
  by (simp_all add: mapper_store_def mapper_view_def)

lemma keeps_data: "keeps (root_of cr3) (vmm_phys_to_virt f) (mapper_view rgn s) v \<Longrightarrow> data_frame cr3 rgn s f \<Longrightarrow>
    data_frame cr3 rgn (mapper_store rgn v s) f \<and> frame_data v f = frame_data (km_vm s) f"
  by (simp add: keeps_def data_frame_def frame_data_def)

text \<open>Mapping a page.\<close>

lemma km_map:
  assumes ok: "km_ok cr3 rgn s" and pl: "plain (root_of cr3) va (km_vm s)" and fl: "present (ucast (fl :: u16))"
  obtains s' b where "\<And>k. with_mapper rgn (vmm_map_page cr3 va phys fl) s k = k s' b" "km_step cr3 rgn {va} {} s s'"
    "b \<Longrightarrow> pte_of cr3 va s' = vmm_phys_and_flags_to_table_entry phys (ucast fl)" "\<not> b \<Longrightarrow> pte_of cr3 va s' = pte_of cr3 va s"
    "3 \<le> card (km_free rgn s) \<Longrightarrow> b" "present (pte_of cr3 va s) \<Longrightarrow> b \<and> km_free rgn s' = km_free rgn s"
    "card (km_free rgn s) \<le> card (km_free rgn s') + 3"
    "pm_refs (km_mem s') = pm_refs (km_mem s)" "pm_pages (km_mem s') = pm_pages (km_mem s)"
proof -
  let ?v = "mapper_view rgn s" and ?root = "root_of cr3"
  have ok': "vm_ok ?root ?v" "\<not> vm_locked ?v" "plain ?root va ?v" using ok pl by (simp_all add: km_ok_def)
  obtain v b where ev: "nolock_vmm_map_page_containing_in ?root va phys fl ?v = (v, b)" by fastforce
  note m = map_page_ok [OF ok'(1,3) ev fl] and fr = map_page_frame [OF ok'(1,3) ev]
  let ?s = "mapper_store rgn v s"
  have run: "with_mapper rgn (vmm_map_page cr3 va phys fl) s k = k ?s b" for k :: "kmem \<Rightarrow> bool \<Rightarrow> 'z step_result"
    using ev ok'(2) by (simp add: with_mapper_def vmm_map_page_def vmm_map_page_containing_def vmm_map_page_containing_in_def)
  have pl': "plain ?root va' v" if "plain ?root va' (km_vm s)" for va' using plain_mono [where root = ?root and s = ?v and s' = v and va = va'] that m by simp
  have w: "vmm_virt_to_pt_entry cr3 va' v = (if b \<and> same_page va' va then vmm_phys_and_flags_to_table_entry phys (ucast fl)
      else pte_of cr3 va' s)" if "plain ?root va' (km_vm s)" for va'
    using walk_eq [OF that] walk_eq [OF pl' [OF that]] m wpath_va by (simp add: same_page_iff)
  have "km_step cr3 rgn {va} {} s ?s" unfolding km_step_def
    using m ok'(2) pl' w fr(2) keeps_data [OF fr(1)] by (simp add: km_ok_def km_free_def)
  moreover have "b \<and> km_free rgn ?s = km_free rgn s" if "present (pte_of cr3 va s)"
  proof -
    have "reach (vm_tables ?v) ?root (va_path 3 va) \<noteq> None"
      using that walk_eq [OF pl] by (auto simp: pte_at_def split: option.splits)
    then show ?thesis using fr(3) by (simp add: km_free_def)
  qed
  moreover have "3 \<le> card (km_free rgn s) \<Longrightarrow> b" "card (km_free rgn s) \<le> card (km_free rgn ?s) + 3" using m fr(4) by (simp_all add: km_free_def)
  moreover have "pte_of cr3 va ?s = (if b then vmm_phys_and_flags_to_table_entry phys (ucast fl) else pte_of cr3 va s)"
    using w [OF pl] by (simp add: same_page_def)
  ultimately show thesis using run by (intro that [of ?s b]) simp_all
qed

text \<open>Unmapping a page.\<close>

lemma km_unmap:
  assumes ok: "km_ok cr3 rgn s" and pl: "plain (root_of cr3) va (km_vm s)"
  obtains s' r where "\<And>k. with_mapper rgn (vmm_unmap_page cr3 va) s k = k s' r" "km_step cr3 rgn {va} {} s s'"
    "pte_of cr3 va s' = 0" "r = vmm_table_entry_to_phys (pte_of cr3 va s)" "km_free rgn s' = km_free rgn s"
    "pm_refs (km_mem s') = pm_refs (km_mem s)" "pm_pages (km_mem s') = pm_pages (km_mem s)"
proof -
  let ?v = "mapper_view rgn s" and ?root = "root_of cr3"
  have ok': "vm_ok ?root ?v" "\<not> vm_locked ?v" "plain ?root va ?v" using ok pl by (simp_all add: km_ok_def)
  obtain v r where ev: "nolock_vmm_unmap_page_in ?root va ?v = (v, r)" by fastforce
  note m = unmap_page_ok [OF ok'(1,3) ev] and fr = unmap_page_frame [OF ok'(1,3) ev]
  let ?s = "mapper_store rgn v s"
  have run: "with_mapper rgn (vmm_unmap_page cr3 va) s k = k ?s r" for k :: "kmem \<Rightarrow> u64 \<Rightarrow> 'z step_result"
    using ev ok'(2) by (simp add: with_mapper_def vmm_unmap_page_def vmm_unmap_page_in_def)
  have pl': "plain ?root va' v" if "plain ?root va' (km_vm s)" for va' using plain_mono [where root = ?root and s = ?v and s' = v and va = va'] that m by simp
  have w: "vmm_virt_to_pt_entry cr3 va' v = (if same_page va' va then 0 else pte_of cr3 va' s)" if "plain ?root va' (km_vm s)" for va'
    using walk_eq [OF that] walk_eq [OF pl' [OF that]] m wpath_va by (simp add: same_page_iff)
  have "km_step cr3 rgn {va} {} s ?s" unfolding km_step_def
    using m ok'(2) pl' w fr(2) keeps_data [OF fr(1)] by (simp add: km_ok_def km_free_def)
  moreover have "pte_of cr3 va ?s = 0" using w [OF pl] by (simp add: same_page_def)
  moreover have "r = vmm_table_entry_to_phys (pte_of cr3 va s)" using m walk_eq [OF pl] by simp
  ultimately show thesis using run fr(2) by (intro that [of ?s r]) (simp_all add: km_free_def)
qed

text \<open>Writing a data frame.\<close>

lemma km_write:
  fixes d :: "nat \<Rightarrow> u64"
  assumes ok: "km_ok cr3 rgn s" and f: "data_frame cr3 rgn s f"
  defines "s' \<equiv> s\<lparr>km_vm := set_frame f d (km_vm s)\<rparr>"
  shows "km_step cr3 rgn {} {f} s s'" "frame_data (km_vm s') f = d" "pte_of cr3 va s' = pte_of cr3 va s \<or> \<not> plain (root_of cr3) va (km_vm s)"
proof -
  let ?v = "mapper_view rgn s" and ?root = "root_of cr3" and ?a = "vmm_phys_to_virt f"
  have ok': "vm_ok ?root ?v" "\<not> vm_locked ?v" using ok by (simp_all add: km_ok_def)
  have u: "untouched ?root ?a ?v" using f by (simp add: data_frame_def)
  note d = data_write [OF ok'(1) u, where d = d]
  have v: "mapper_view rgn s' = ?v\<lparr>vm_tables := (vm_tables ?v)(?a := d)\<rparr>" by (simp add: s'_def mapper_view_def set_frame_def)
  have t: "vm_tables (km_vm s') = (vm_tables (km_vm s))(?a := d)" by (simp add: s'_def set_frame_def)
  have pl: "plain ?root va (km_vm s')" if "plain ?root va (km_vm s)" for va using d(2) [of va] that t by simp
  have pe: "pte_of cr3 va s' = pte_of cr3 va s" if "plain ?root va (km_vm s)" for va
    using walk_eq [OF that] walk_eq [OF pl [OF that]] d(4) [OF wpath_va(1)] t by simp
  then show "pte_of cr3 va s' = pte_of cr3 va s \<or> \<not> plain ?root va (km_vm s)" by blast
  show "frame_data (km_vm s') f = d" by (simp add: frame_data_def t)
  have "frame_data (km_vm s') g = frame_data (km_vm s) g" if "g \<noteq> f" for g using that by (simp add: frame_data_def t phys_to_virt_inj)
  moreover have "data_frame cr3 rgn s' g" if "data_frame cr3 rgn s g" for g using d(3) that unfolding data_frame_def v by blast
  moreover have "km_ok cr3 rgn s'" using d(1) ok'(2) unfolding km_ok_def v by (simp add: s'_def set_frame_def)
  moreover have "km_free rgn s' = km_free rgn s" by (simp add: km_free_def s'_def)
  ultimately show "km_step cr3 rgn {} {f} s s'" unfolding km_step_def using pl pe by simp
qed

text \<open>Taking a frame out of the free ones.\<close>

lemma tree_ok_mono: "tree_ok m F root \<Longrightarrow> F' \<subseteq> F \<Longrightarrow> tree_ok m F' root"
  unfolding tree_ok_def by blast

lemma km_take:
  assumes ok: "km_ok cr3 rgn s" and vm: "km_vm s' = km_vm s" and wf: "region_wf (pm_region (km_mem s') rgn)"
    and sub: "km_free rgn s' \<subseteq> km_free rgn s"
  shows "km_step cr3 rgn {} {} s s'"
proof -
  let ?root = "root_of cr3"
  have "vm_ok ?root (mapper_view rgn s')"
    using ok vm wf sub tree_ok_mono [of "vm_tables (km_vm s)" "km_free rgn s" ?root "km_free rgn s'"] by (auto simp: km_ok_def vm_ok_def km_free_def)
  moreover have "data_frame cr3 rgn s' f" if "data_frame cr3 rgn s f" for f
    using that vm sub unfolding data_frame_def untouched_def view_simps km_free_def by auto
  ultimately show ?thesis unfolding km_step_def using ok vm sub by (simp add: km_ok_def)
qed

lemma km_taken_data:
  assumes ok: "km_ok cr3 rgn s" and vm: "km_vm s' = km_vm s" and f: "pfn f \<in> km_free rgn s" "page_aligned f"
    and fr: "km_free rgn s' = km_free rgn s - {pfn f}"
  shows "data_frame cr3 rgn s' f"
proof -
  have tr: "tree_ok (vm_tables (km_vm s)) (km_free rgn s) (root_of cr3)" using ok by (simp add: km_ok_def vm_ok_def km_free_def)
  have "reach (vm_tables (km_vm s)) (root_of cr3) p \<noteq> Some (vmm_phys_to_virt f)" if "wpath p" for p
    using tree_okD(1) [OF tr that, of "vmm_phys_to_virt f"] f(1) by (auto simp: phys_to_virt_inj)
  then show ?thesis using vm fr f unfolding data_frame_def untouched_def by (simp add: km_free_def phys_to_virt_inj)
qed

text \<open>Recording an owner needs no consistency of the reference counts.\<close>

lemma record_owner:
  assumes "p \<noteq> NULL" "ae_pages env" "ae_block env"
  obtains s' where "process_add_owned_page env p rgn a False s = (s', True)" "pm_region s' = pm_region s" "pm_refs s' = pm_refs s"
    "owned s' = (owned s)(p := add_mset a (owned s p))" "\<forall>q. q \<noteq> p \<longrightarrow> pm_pages s' q = pm_pages s q"
proof -
  let ?blks = "case pm_pages s p of None \<Rightarrow> [] | Some blks \<Rightarrow> blks" and ?e = "\<lparr>pe_region = rgn, pe_addr = a\<rparr>"
  let ?new = "case store_entry ?e ?blks of None \<Rightarrow> [?e] # ?blks | Some blks \<Rightarrow> blks"
  let ?s = "s\<lparr>pm_pages := (pm_pages s)(p := Some ?new)\<rparr>"
  have ow: "owned s p = mset (map pe_addr (concat ?blks))" by (simp add: owned_def split: option.splits)
  have "process_add_owned_page env p rgn a False s = (?s, True)"
    using assms by (cases "pm_pages s p") (simp_all add: process_add_owned_page_def Let_def split: option.split)
  moreover have "image_mset pe_addr (mset (concat ?new)) = add_mset a (image_mset pe_addr (mset (concat ?blks)))"
    using store_entry_Some [of ?e ?blks] by (cases "store_entry ?e ?blks") (simp_all del: mset_concat)
  then have "mset (map pe_addr (concat ?new)) = add_mset a (owned s p)" unfolding ow by (simp only: mset_map)
  then have "owned ?s = (owned s)(p := add_mset a (owned s p))" by simp
  ultimately show thesis by (intro that [of ?s]) simp_all
qed

lemma process_alloc_frame:
  assumes wf: "region_wf (pm_region s rgn)" and ne: "free_pages (pm_region s rgn) \<noteq> {}" and p: "p \<noteq> NULL" "ae_pages env" "ae_block env"
  obtains s' a where "process_page_alloc env p rgn s = (s', a)" "page_aligned a" "pfn a \<in> free_pages (pm_region s rgn)"
    "free_pages (pm_region s' rgn) = free_pages (pm_region s rgn) - {pfn a}" "region_wf (pm_region s' rgn)" "pm_refs s' = pm_refs s"
    "owned s' = (owned s)(p := add_mset a (owned s p))" "\<forall>q. q \<noteq> p \<longrightarrow> pm_pages s' q = pm_pages s q"
proof -
  obtain r a where ra: "page_alloc (pm_region s rgn) = (r, a)" by fastforce
  note al = pmm.alloc_ok [OF wf ne ra]
  have low: "a AND 0xFF = 0" using al page_aligned_low by blast
  let ?s = "s\<lparr>pm_region := (pm_region s)(rgn := r)\<rparr>"
  obtain s' where ad: "process_add_owned_page env p rgn a False ?s = (s', True)" and s': "pm_region s' = pm_region ?s" "pm_refs s' = pm_refs ?s"
    "owned s' = (owned ?s)(p := add_mset a (owned ?s p))" "\<forall>q. q \<noteq> p \<longrightarrow> pm_pages s' q = pm_pages ?s q"
    by (rule record_owner [OF p, of rgn a ?s])
  have "process_page_alloc env p rgn s = (s', a)" using p ra low ad by (simp add: process_page_alloc_def)
  then show thesis using al s' by (intro that [of s' a]) simp_all
qed

end
