(* ===== verification/Page_Fault.thy ===== *)
theory Page_Fault
  imports Kernel_Memory Region_Tree
begin

text \<open>
  The page fault handler, \<^verbatim>\<open>kernel/pagefault.c\<close>, on top of the process's pages, the reference counts, the region tree and the virtual
  memory mapper. The physical region, the zero page, the page table root, the CPU number, the running process (0 when
  no task runs or it has no owner) and its region tree are arguments.
\<close>

section \<open>Data\<close>

definition PG_COPY_ON_WRITE :: u64 where
  "PG_COPY_ON_WRITE = 0x40"

definition PG_READ :: u64 where
  "PG_READ = 0"

definition VM_REGION_AUTOMAP :: u64 where
  "VM_REGION_AUTOMAP = 1"

record fault_env =
  fe_region :: ptr
  fe_zero_page :: u64
  fe_cr3 :: u64
  fe_cpu :: u8
  fe_process :: ptr
  fe_regions :: Region
  fe_alloc :: alloc_env

definition IS_USER_ADDRESS :: "u64 \<Rightarrow> bool" where
  "IS_USER_ADDRESS ptr \<longleftrightarrow> ptr AND 0xffff800000000000 = 0"

section \<open>Operations\<close>

definition alloc_phys_appropriately :: "fault_env \<Rightarrow> kmem \<Rightarrow> kmem \<times> u64" where
  "alloc_phys_appropriately env s =
     (if fe_process env \<noteq> NULL
      then let (m, phys) = process_page_alloc (fe_alloc env) (fe_process env) (fe_region env) (km_mem s)
           in (s\<lparr>km_mem := m\<rparr>, phys)
      else let (r, phys) = page_alloc (pm_region (km_mem s) (fe_region env))
           in (s\<lparr>km_mem := (km_mem s)\<lparr>pm_region := (pm_region (km_mem s))(fe_region env := r)\<rparr>\<rparr>, phys))"

text \<open>The results of mapping and unmapping the temporary page are not looked at.\<close>

definition copy_page_safely :: "fault_env \<Rightarrow> u64 \<Rightarrow> u64 \<Rightarrow> kmem \<Rightarrow> (kmem \<Rightarrow> 'a step_result) \<Rightarrow> 'a step_result" where
  "copy_page_safely env src_virt_page dest_phys_page s k =
     (let per_cpu_temp_page = vmm_per_cpu_temp_page_addr (fe_cpu env) in
      with_mapper (fe_region env) (vmm_map_page (fe_cr3 env) per_cpu_temp_page dest_phys_page (ucast (PG_PRESENT OR PG_READ OR PG_WRITE))) s (\<lambda>s _.
      memcpy_page (fe_cr3 env) per_cpu_temp_page src_virt_page s (\<lambda>s.
      with_mapper (fe_region env) (vmm_unmap_page (fe_cr3 env) per_cpu_temp_page) s (\<lambda>s _. k s))))"

definition vm_region_find_in_process :: "Region \<Rightarrow> u64 \<Rightarrow> Region" where
  "vm_region_find_in_process regions vaddr = region_tree_lookup regions vaddr"

definition cow_flags :: "u64 \<Rightarrow> u16" where
  "cow_flags pte = ucast ((ucast (vmm_table_entry_to_page_flags pte) AND NOT PG_COPY_ON_WRITE) OR PG_WRITE)"

text \<open>The copy of a page that is shared, or that is the zero page.\<close>

definition cow_copy :: "fault_env \<Rightarrow> u64 \<Rightarrow> u64 \<Rightarrow> kmem \<Rightarrow> kmem step_result" where
  "cow_copy env fault_addr_page pte s =
     (let (s, phys) = alloc_phys_appropriately env s in
      if phys AND 0xff \<noteq> 0 then Panics
      else
        copy_page_safely env fault_addr_page phys s (\<lambda>s.
        with_mapper (fe_region env) (vmm_map_page (fe_cr3 env) fault_addr_page phys (cow_flags pte)) s (\<lambda>s _. Done s)))"

definition automap :: "fault_env \<Rightarrow> u64 \<Rightarrow> u64 \<Rightarrow> kmem \<Rightarrow> kmem step_result" where
  "automap env code fault_addr_page s =
     (if code AND PG_WRITE \<noteq> 0 then
        let (s, phys) = alloc_phys_appropriately env s in
        if phys AND 0xff \<noteq> 0 then Panics
        else
          with_mapper (fe_region env) (vmm_map_page (fe_cr3 env) fault_addr_page phys
              (ucast (PG_USER OR PG_READ OR PG_WRITE OR PG_PRESENT))) s (\<lambda>s _.
          memclr_page (fe_cr3 env) fault_addr_page s Done)
      else
        with_mapper (fe_region env) (vmm_map_page (fe_cr3 env) fault_addr_page (fe_zero_page env)
            (ucast (PG_USER OR PG_READ OR PG_PRESENT OR PG_COPY_ON_WRITE))) s (\<lambda>s _. Done s))"

definition page_fault_handler :: "fault_env \<Rightarrow> u64 \<Rightarrow> u64 \<Rightarrow> kmem \<Rightarrow> kmem step_result" where
  "page_fault_handler env code fault_addr s =
     (let pte = vmm_virt_to_pt_entry (fe_cr3 env) fault_addr (km_vm s);
          fault_addr_page = fault_addr AND PAGE_ALIGN_MASK;
          current_phys_addr = vmm_table_entry_to_phys pte
      in if IS_USER_ADDRESS fault_addr \<and> pte AND PG_PRESENT \<noteq> 0 \<and> pte AND PG_COPY_ON_WRITE \<noteq> 0 \<and> code AND PG_WRITE \<noteq> 0 then
           if current_phys_addr \<noteq> fe_zero_page env then
             let (refs, n) = refcount_map_decrement current_phys_addr (pm_refs (km_mem s));
                 s = s\<lparr>km_mem := (km_mem s)\<lparr>pm_refs := refs\<rparr>\<rparr>
             in if n = 0
                then with_mapper (fe_region env) (vmm_map_page (fe_cr3 env) fault_addr_page (pte AND PAGE_ALIGN_MASK) (cow_flags pte)) s
                       (\<lambda>s _. Done s)
                else cow_copy env fault_addr_page pte s
           else cow_copy env fault_addr_page pte s
         else if fe_process env \<noteq> NULL then
           case vm_region_find_in_process (fe_regions env) fault_addr of
             Region first limit flags l r h \<Rightarrow>
               if flags AND VM_REGION_AUTOMAP \<noteq> 0 then automap env code fault_addr_page s else Panics
           | NoRegion \<Rightarrow> Panics
         else Panics)"

section \<open>Lemmas\<close>

lemma same_page_aligned: "same_page (va AND PAGE_ALIGN_MASK) va"
proof -
  have al: "PAGE_ALIGN_MASK = push_bit 12 (mask 52)" by (simp add: PAGE_ALIGN_MASK_def mask_eq_exp_minus_1 push_bit_eq_mult)
  have "drop_bit 12 (va AND PAGE_ALIGN_MASK) = drop_bit 12 va" unfolding al
    by (intro bit_word_eqI) (auto simp: bit_simps dest: bit_imp_le_length)
  moreover have "drop_bit 12 (take_bit 48 x) = take_bit 36 (drop_bit 12 x)" for x :: u64 by (intro bit_word_eqI) (auto simp: bit_simps)
  ultimately show ?thesis by (simp only: same_page_def)
qed

lemma same_page_sym: "same_page a b \<longleftrightarrow> same_page b a"
  by (auto simp: same_page_def)

lemma same_page_aligned_iff: "same_page a (va AND PAGE_ALIGN_MASK) \<longleftrightarrow> same_page a va" "same_page (va AND PAGE_ALIGN_MASK) a \<longleftrightarrow> same_page va a"
  using same_page_aligned [of va] by (auto simp: same_page_def)

lemma pte_aligned: "plain (root_of cr3) va s \<Longrightarrow> vmm_virt_to_pt_entry cr3 (va AND PAGE_ALIGN_MASK) s = vmm_virt_to_pt_entry cr3 va s"
proof -
  assume pl: "plain (root_of cr3) va s"
  have i: "va_path 3 (va AND PAGE_ALIGN_MASK) = va_path 3 va" "vmm_virt_to_pt_index (va AND PAGE_ALIGN_MASK) = vmm_virt_to_pt_index va"
    using same_page_aligned [of va] by (simp_all add: same_page_iff)
  then have "plain (root_of cr3) (va AND PAGE_ALIGN_MASK) s" using pl by simp
  then show ?thesis using walk_eq [OF pl] i walk_eq by simp
qed

text \<open>A user address and the temporary page of a CPU are different pages.\<close>

lemma user_not_temp: "IS_USER_ADDRESS va \<Longrightarrow> \<not> same_page va (vmm_per_cpu_temp_page_addr cpu)"
proof
  assume u: "IS_USER_ADDRESS va" and s: "same_page va (vmm_per_cpu_temp_page_addr cpu)"
  have "bit (0xffff800000000000 :: u64) 47" by simp
  then have "\<not> bit va 47" using u by (auto simp: IS_USER_ADDRESS_def bit_and_iff dest: arg_cong [where f = "\<lambda>x. bit x 47"])
  moreover have "bit (vmm_per_cpu_temp_page_addr cpu) 47"
  proof -
    obtain c :: u64 where base: "PER_CPU_TEMP_PAGE_BASE = push_bit 22 c"
      using that [of "0x3FFFFFFFE01"] by (simp add: PER_CPU_TEMP_PAGE_BASE_def push_bit_eq_mult)
    have "PER_CPU_TEMP_PAGE_BASE AND push_bit 12 (ucast cpu) = 0" unfolding base
      by (rule bit_word_eqI) (auto simp: bit_simps dest: bit_imp_le_length)
    then have "vmm_per_cpu_temp_page_addr cpu = PER_CPU_TEMP_PAGE_BASE OR push_bit 12 (ucast cpu)"
      unfolding vmm_per_cpu_temp_page_addr_def by (rule disjunctive_add_eq_or)
    then show ?thesis by (simp add: bit_or_iff PER_CPU_TEMP_PAGE_BASE_def)
  qed
  moreover have "bit (drop_bit 12 (take_bit 48 va)) 35 = bit (drop_bit 12 (take_bit 48 (vmm_per_cpu_temp_page_addr cpu))) 35"
    using s by (simp add: same_page_def)
  ultimately show False by (simp add: bit_simps)
qed

lemma bit_cow_flags: "bit (ucast (cow_flags pte) :: u64) n \<longleftrightarrow> (bit pte n \<and> n < 10 \<and> n \<noteq> 6) \<or> n = 1"
proof -
  have "(PG_COPY_ON_WRITE :: u64) = 2 ^ 6" by (simp add: PG_COPY_ON_WRITE_def)
  then have c: "bit PG_COPY_ON_WRITE n \<longleftrightarrow> n = 6" using bit_one_shift [of 6 n] by simp
  have "bit (ucast (cow_flags pte) :: u64) n \<longleftrightarrow> n < 16 \<and> bit ((ucast (vmm_table_entry_to_page_flags pte) AND NOT PG_COPY_ON_WRITE) OR PG_WRITE) n"
    unfolding cow_flags_def by (auto simp: bit_simps)
  then show ?thesis using c bit_page_flags [of pte n] by (auto simp: bit_or_iff bit_and_iff bit_not_iff bit_PG dest: bit_imp_le_length)
qed

lemma cow_entry:
  assumes "page_aligned phys" "phys < 0x1000000000000" "present pte"
  defines "e \<equiv> vmm_phys_and_flags_to_table_entry phys (ucast (cow_flags pte))"
  shows "vmm_table_entry_to_phys e = phys" "present (ucast (cow_flags pte) :: u64)" "e AND PG_WRITE \<noteq> 0" "e AND PG_COPY_ON_WRITE = 0"
    "e AND PG_USER = pte AND PG_USER"
proof -
  have fl: "cow_flags pte < 0x1000"
  proof -
    have "bit (cow_flags pte) n \<Longrightarrow> n < 10" for n using bit_cow_flags [of pte n] by (auto simp: bit_simps dest: bit_imp_le_length)
    then have "take_bit 10 (cow_flags pte) = cow_flags pte" by (intro bit_word_eqI) (auto simp: bit_simps)
    then have "cow_flags pte \<le> mask 10" by (metis take_bit_eq_mask word_and_le1)
    then show ?thesis by (simp add: mask_eq_exp_minus_1 word_le_nat_alt word_less_nat_alt)
  qed
  show "vmm_table_entry_to_phys e = phys" unfolding e_def by (rule entry_fields [OF assms(1,2) fl])
  show "present (ucast (cow_flags pte) :: u64)" using assms(3) unfolding present_bit bit_cow_flags by simp
  have b: "bit e n \<longleftrightarrow> (bit phys n \<and> 12 \<le> n) \<or> (bit pte n \<and> n < 10 \<and> n \<noteq> 6) \<or> n = 1" for n unfolding e_def bit_entry bit_cow_flags by auto
  show "e AND PG_WRITE \<noteq> 0" using bit_flag [of e 1] b [of 1] by (simp add: PG_WRITE_def)
  show "e AND PG_COPY_ON_WRITE = 0" using bit_flag [of e 6] b [of 6] by (simp add: PG_COPY_ON_WRITE_def)
  show "e AND PG_USER = pte AND PG_USER" by (rule bit_word_eqI) (auto simp: bit_and_iff bit_PG b)
qed

lemma kept_frame_entry:
  assumes "present pte"
  defines "e \<equiv> vmm_phys_and_flags_to_table_entry (pte AND PAGE_ALIGN_MASK) (ucast (cow_flags pte))"
  shows "vmm_table_entry_to_phys e = vmm_table_entry_to_phys pte" "present (ucast (cow_flags pte) :: u64)" "e AND PG_WRITE \<noteq> 0" "e AND PG_COPY_ON_WRITE = 0"
    "e AND PG_USER = pte AND PG_USER"
proof -
  have al: "PAGE_ALIGN_MASK = push_bit 12 (mask 52)" by (simp add: PAGE_ALIGN_MASK_def mask_eq_exp_minus_1 push_bit_eq_mult)
  have pm: "bit (pte AND PAGE_ALIGN_MASK) n \<longleftrightarrow> bit pte n \<and> 12 \<le> n" for n unfolding al by (auto simp: bit_simps dest: bit_imp_le_length)
  have b: "bit e n \<longleftrightarrow> (bit pte n \<and> 12 \<le> n) \<or> (bit pte n \<and> n < 10 \<and> n \<noteq> 6) \<or> n = 1" for n unfolding e_def bit_entry bit_cow_flags pm by auto
  show "vmm_table_entry_to_phys e = vmm_table_entry_to_phys pte" by (rule bit_word_eqI) (auto simp: bit_entry_phys b)
  show "present (ucast (cow_flags pte) :: u64)" using assms(1) unfolding present_bit bit_cow_flags by simp
  show "e AND PG_WRITE \<noteq> 0" using bit_flag [of e 1] b [of 1] by (simp add: PG_WRITE_def)
  show "e AND PG_COPY_ON_WRITE = 0" using bit_flag [of e 6] b [of 6] by (simp add: PG_COPY_ON_WRITE_def)
  show "e AND PG_USER = pte AND PG_USER" by (rule bit_word_eqI) (auto simp: bit_and_iff bit_PG b)
qed

lemma free_frame_low:
  assumes "km_ok cr3 rgn s" "page_aligned f" "pfn f \<in> km_free rgn s"
  shows "f < 0x1000000000000"
proof -
  have "pfn f < 34359738368" using assms by (auto simp: km_ok_def vm_ok_def km_free_def)
  then have "unat f < 140737488355328" using page_aligned_pfn [OF assms(2)] by simp
  then show ?thesis by (simp add: word_less_nat_alt)
qed

text \<open>Taking a page for the running process, or an unowned one.\<close>

lemma alloc_phys_ok:
  assumes ok: "km_ok cr3 (fe_region env) s" and ne: "km_free (fe_region env) s \<noteq> {}" and ae: "ae_pages (fe_alloc env)" "ae_block (fe_alloc env)"
  obtains s' phys where "alloc_phys_appropriately env s = (s', phys)" "page_aligned phys" "pfn phys \<in> km_free (fe_region env) s"
    "km_free (fe_region env) s' = km_free (fe_region env) s - {pfn phys}" "km_step cr3 (fe_region env) {} {} s s'"
    "data_frame cr3 (fe_region env) s' phys" "km_vm s' = km_vm s" "pm_refs (km_mem s') = pm_refs (km_mem s)"
    "owned (km_mem s') = (if fe_process env = NULL then owned (km_mem s)
       else (owned (km_mem s))(fe_process env := add_mset phys (owned (km_mem s) (fe_process env))))"
proof -
  let ?r = "fe_region env"
  have wf: "region_wf (pm_region (km_mem s) ?r)" using ok by (simp add: km_ok_def vm_ok_def)
  have ne': "free_pages (pm_region (km_mem s) ?r) \<noteq> {}" using ne by (simp add: km_free_def)
  obtain m phys where m: "alloc_phys_appropriately env s = (s\<lparr>km_mem := m\<rparr>, phys)" "page_aligned phys" "pfn phys \<in> km_free ?r s"
    "free_pages (pm_region m ?r) = km_free ?r s - {pfn phys}" "region_wf (pm_region m ?r)" "pm_refs m = pm_refs (km_mem s)"
    "owned m = (if fe_process env = NULL then owned (km_mem s) else (owned (km_mem s))(fe_process env := add_mset phys (owned (km_mem s) (fe_process env))))"
  proof (cases "fe_process env = NULL")
    case True
    obtain r a where ra: "page_alloc (pm_region (km_mem s) ?r) = (r, a)" by fastforce
    note al = pmm.alloc_ok [OF wf ne' ra]
    show thesis using True ra al
      by (intro that [of "(km_mem s)\<lparr>pm_region := (pm_region (km_mem s))(?r := r)\<rparr>" a]) (simp_all add: alloc_phys_appropriately_def km_free_def)
  next
    case False
    obtain m a where "process_page_alloc (fe_alloc env) (fe_process env) ?r (km_mem s) = (m, a)" "page_aligned a" "pfn a \<in> free_pages (pm_region (km_mem s) ?r)"
      "free_pages (pm_region m ?r) = free_pages (pm_region (km_mem s) ?r) - {pfn a}" "region_wf (pm_region m ?r)" "pm_refs m = pm_refs (km_mem s)"
      "owned m = (owned (km_mem s))(fe_process env := add_mset a (owned (km_mem s) (fe_process env)))"
      by (rule process_alloc_frame [OF wf ne' False ae])
    then show thesis using False by (intro that [of m a]) (simp_all add: alloc_phys_appropriately_def km_free_def)
  qed
  let ?s = "s\<lparr>km_mem := m\<rparr>"
  have fr: "km_free ?r ?s = km_free ?r s - {pfn phys}" using m(4) by (simp add: km_free_def)
  have "km_step cr3 ?r {} {} s ?s" using m(5) fr by (intro km_take [OF ok]) auto
  moreover have "data_frame cr3 ?r ?s phys" by (rule km_taken_data [OF ok _ m(3,2) fr]) simp
  ultimately show thesis using m fr by (intro that [of ?s phys]) simp_all
qed

text \<open>Copying a page through the temporary mapping.\<close>

lemma copy_page_ok:
  assumes ok: "km_ok cr3 rgn s" and env: "rgn = fe_region env" "cr3 = fe_cr3 env"
    and tp: "plain (root_of cr3) (vmm_per_cpu_temp_page_addr (fe_cpu env)) (km_vm s)"
    and src: "plain (root_of cr3) src (km_vm s)" "\<not> same_page src (vmm_per_cpu_temp_page_addr (fe_cpu env))" "present (pte_of cr3 src s)"
      "data_frame cr3 rgn s (vmm_table_entry_to_phys (pte_of cr3 src s))"
    and dst: "page_aligned dest" "dest < 0x1000000000000" "data_frame cr3 rgn s dest" and free: "3 \<le> card (km_free rgn s)"
  obtains s' where "\<And>k :: kmem \<Rightarrow> 'a step_result. copy_page_safely env src dest s k = k s'"
    "km_step cr3 rgn {vmm_per_cpu_temp_page_addr (fe_cpu env)} {dest} s s'"
    "frame_data (km_vm s') dest = frame_data (km_vm s) (vmm_table_entry_to_phys (pte_of cr3 src s))"
    "pte_of cr3 (vmm_per_cpu_temp_page_addr (fe_cpu env)) s' = 0"
    "pm_refs (km_mem s') = pm_refs (km_mem s)" "pm_pages (km_mem s') = pm_pages (km_mem s)"
proof -
  let ?t = "vmm_per_cpu_temp_page_addr (fe_cpu env)" and ?f = "vmm_table_entry_to_phys (pte_of cr3 src s)"
  define fl :: u16 where "fl = ucast (PG_PRESENT OR PG_READ OR PG_WRITE)"
  have fl: "fl = 3" by (simp add: fl_def PG_PRESENT_def PG_READ_def PG_WRITE_def)
  then have pf: "present (ucast fl :: u64)" by (simp add: PG_PRESENT_def)
  obtain s1 b where s1: "\<And>k :: kmem \<Rightarrow> bool \<Rightarrow> 'a step_result. with_mapper rgn (vmm_map_page cr3 ?t dest fl) s k = k s1 b" "km_step cr3 rgn {?t} {} s s1"
    "b \<Longrightarrow> pte_of cr3 ?t s1 = vmm_phys_and_flags_to_table_entry dest (ucast fl)" "3 \<le> card (km_free rgn s) \<Longrightarrow> b"
    "pm_refs (km_mem s1) = pm_refs (km_mem s)" "pm_pages (km_mem s1) = pm_pages (km_mem s)"
    by (rule km_map [OF ok tp pf, of dest]) blast
  note k1 = km_stepD [OF s1(2)]
  have e: "vmm_table_entry_to_phys (vmm_phys_and_flags_to_table_entry dest (ucast fl)) = dest" "present (vmm_phys_and_flags_to_table_entry dest (ucast fl))"
    using entry_fields [OF dst(1,2), of fl] pf fl by (simp_all add: present_bit bit_entry)
  have mt: "mmu_frame cr3 ?t (km_vm s1) = Some dest" using mmu_frame_plain [OF k1(3) [OF tp]] s1(3,4) free e by (simp add: Let_def)
  have ps: "pte_of cr3 src s1 = pte_of cr3 src s" using k1(4) [OF src(1)] src(2) by simp
  have ms: "mmu_frame cr3 src (km_vm s1) = Some ?f" using mmu_frame_plain [OF k1(3) [OF src(1)]] ps src(3) by (simp add: Let_def)
  let ?s2 = "s1\<lparr>km_vm := set_frame dest (frame_data (km_vm s1) ?f) (km_vm s1)\<rparr>"
  note w = km_write [OF k1(1) k1(5) [OF dst(3)], where d = "frame_data (km_vm s1) ?f"]
  note k2 = km_stepD [OF w(1)]
  have d2: "data_frame cr3 rgn ?s2 dest" using k2(5) k1(5) dst(3) by blast
  have tp2: "plain (root_of cr3) ?t (km_vm ?s2)" using k2(3) k1(3) tp by blast
  obtain s3 r where s3: "\<And>k :: kmem \<Rightarrow> u64 \<Rightarrow> 'a step_result. with_mapper rgn (vmm_unmap_page cr3 ?t) ?s2 k = k s3 r" "km_step cr3 rgn {?t} {} ?s2 s3" "pte_of cr3 ?t s3 = 0"
    "pm_refs (km_mem s3) = pm_refs (km_mem ?s2)" "pm_pages (km_mem s3) = pm_pages (km_mem ?s2)"
    by (rule km_unmap [OF k2(1) tp2]) blast
  have "km_step cr3 rgn ({?t} \<union> {}) ({} \<union> {dest}) s ?s2" by (rule km_step_trans [OF s1(2) w(1)])
  then have "km_step cr3 rgn ({?t} \<union> {} \<union> {?t}) ({} \<union> {dest} \<union> {}) s s3" by (rule km_step_trans) (rule s3(2))
  then have st: "km_step cr3 rgn {?t} {dest} s s3" by simp
  have "frame_data (km_vm s3) dest = frame_data (km_vm s1) ?f" using km_stepD(6) [OF s3(2) d2] w(2) by simp
  then have fd: "frame_data (km_vm s3) dest = frame_data (km_vm s) ?f" using k1(6) [OF src(4)] by simp
  have "copy_page_safely env src dest s k = k s3" for k :: "kmem \<Rightarrow> 'a step_result"
    unfolding copy_page_safely_def env [symmetric] Let_def fl_def [symmetric] s1(1) memcpy_page_def ms mt option.case s3(1) ..
  then show thesis using st fd s3 s1 by (intro that [of s3]) simp_all
qed

text \<open>Changing the reference counts changes no frame and no table.\<close>

lemma refs_frame [simp]:
  "mapper_view r (s\<lparr>km_mem := (km_mem s)\<lparr>pm_refs := g\<rparr>\<rparr>) = mapper_view r s" "km_free r (s\<lparr>km_mem := (km_mem s)\<lparr>pm_refs := g\<rparr>\<rparr>) = km_free r s"
  by (simp_all add: mapper_view_def km_free_def)

lemma refs_frame_ok [simp]:
  "km_ok c r (s\<lparr>km_mem := (km_mem s)\<lparr>pm_refs := g\<rparr>\<rparr>) = km_ok c r s" "data_frame c r (s\<lparr>km_mem := (km_mem s)\<lparr>pm_refs := g\<rparr>\<rparr>) f = data_frame c r s f"
  by (simp_all add: km_ok_def data_frame_def)

definition takes_private_copy :: "fault_env \<Rightarrow> u64 \<Rightarrow> kmem \<Rightarrow> kmem \<Rightarrow> bool" where
  "takes_private_copy env va s s' \<longleftrightarrow>
     (let cr3 = fe_cr3 env; rgn = fe_region env; temp = vmm_per_cpu_temp_page_addr (fe_cpu env);
          old = pte_of cr3 va s; new = pte_of cr3 va s'; phys = vmm_table_entry_to_phys new
      in km_ok cr3 rgn s' \<and> page_aligned phys \<and> pfn phys \<in> km_free rgn s \<and> pfn phys \<notin> km_free rgn s'
       \<and> new AND PG_WRITE \<noteq> 0 \<and> new AND PG_COPY_ON_WRITE = 0 \<and> new AND PG_USER = old AND PG_USER
       \<and> frame_data (km_vm s') phys = frame_data (km_vm s) (vmm_table_entry_to_phys old)
       \<and> (\<forall>f. data_frame cr3 rgn s f \<longrightarrow> data_frame cr3 rgn s' f \<and> frame_data (km_vm s') f = frame_data (km_vm s) f)
       \<and> (\<forall>va'. plain (root_of cr3) va' (km_vm s) \<and> \<not> same_page va' va \<and> \<not> same_page va' temp \<longrightarrow> pte_of cr3 va' s' = pte_of cr3 va' s)
       \<and> pte_of cr3 temp s' = 0
       \<and> owned (km_mem s') = (if fe_process env = NULL then owned (km_mem s)
           else (owned (km_mem s))(fe_process env := add_mset phys (owned (km_mem s) (fe_process env)))))"

lemma cow_copy_ok:
  assumes ok: "km_ok (fe_cr3 env) (fe_region env) s" and va: "IS_USER_ADDRESS va" "plain (root_of (fe_cr3 env)) va (km_vm s)"
    "plain (root_of (fe_cr3 env)) (vmm_per_cpu_temp_page_addr (fe_cpu env)) (km_vm s)"
    and pr: "present (pte_of (fe_cr3 env) va s)" "data_frame (fe_cr3 env) (fe_region env) s (vmm_table_entry_to_phys (pte_of (fe_cr3 env) va s))"
    and free: "4 \<le> card (km_free (fe_region env) s)" and ae: "ae_pages (fe_alloc env)" "ae_block (fe_alloc env)"
  shows "\<exists>s'. cow_copy env (va AND PAGE_ALIGN_MASK) (pte_of (fe_cr3 env) va s) s = Done s' \<and> takes_private_copy env va s s'
    \<and> pm_refs (km_mem s') = pm_refs (km_mem s)"
proof -
  let ?c = "fe_cr3 env" and ?r = "fe_region env" and ?t = "vmm_per_cpu_temp_page_addr (fe_cpu env)" and ?p = "va AND PAGE_ALIGN_MASK"
  define pte where "pte = pte_of ?c va s"
  have ne: "km_free ?r s \<noteq> {}" using free by auto
  obtain s1 phys where s1: "alloc_phys_appropriately env s = (s1, phys)" "page_aligned phys" "pfn phys \<in> km_free ?r s"
    "km_free ?r s1 = km_free ?r s - {pfn phys}" "km_step ?c ?r {} {} s s1" "data_frame ?c ?r s1 phys" "km_vm s1 = km_vm s"
    "pm_refs (km_mem s1) = pm_refs (km_mem s)"
    "owned (km_mem s1) = (if fe_process env = NULL then owned (km_mem s) else (owned (km_mem s))(fe_process env := add_mset phys (owned (km_mem s) (fe_process env))))"
    by (rule alloc_phys_ok [OF ok ne ae])
  note k1 = km_stepD [OF s1(5)]
  have low: "phys < 0x1000000000000" by (rule free_frame_low [OF ok s1(2,3)])
  have fin: "finite (km_free ?r s)" by (simp add: km_free_def free_pages_def)
  have c1: "3 \<le> card (km_free ?r s1)" using free fin s1(3,4) by (simp add: card_Diff_singleton)
  have p1: "plain (root_of ?c) ?p (km_vm s1)" "\<not> same_page ?p ?t" "pte_of ?c ?p s1 = pte"
    using va s1(7) pte_aligned user_not_temp [OF va(1)] by (simp_all add: aligned_path same_page_aligned_iff pte_def)
  have pt: "present pte" using pr(1) by (simp add: pte_def)
  have t1: "plain (root_of ?c) ?t (km_vm s1)" using va(3) s1(7) by simp
  have src: "present (pte_of ?c ?p s1)" "data_frame ?c ?r s1 (vmm_table_entry_to_phys (pte_of ?c ?p s1))"
    using pr k1(5) p1(3) by (simp_all add: pte_def)
  obtain s2 where s2: "\<And>k :: kmem \<Rightarrow> kmem step_result. copy_page_safely env ?p phys s1 k = k s2"
    "km_step ?c ?r {?t} {phys} s1 s2" "frame_data (km_vm s2) phys = frame_data (km_vm s1) (vmm_table_entry_to_phys (pte_of ?c ?p s1))" "pte_of ?c ?t s2 = 0"
    "pm_refs (km_mem s2) = pm_refs (km_mem s1)" "pm_pages (km_mem s2) = pm_pages (km_mem s1)"
    by (rule copy_page_ok [OF k1(1) refl refl t1 p1(1,2) src s1(2) low s1(6) c1]) blast
  note k2 = km_stepD [OF s2(2)]
  have p2: "plain (root_of ?c) ?p (km_vm s2)" "pte_of ?c ?p s2 = pte" using k2(3,4) [OF p1(1)] p1 by simp_all
  note ce = cow_entry [OF s1(2) low pt]
  obtain s3 b where s3: "\<And>k :: kmem \<Rightarrow> bool \<Rightarrow> kmem step_result. with_mapper ?r (vmm_map_page ?c ?p phys (cow_flags pte)) s2 k = k s3 b"
    "km_step ?c ?r {?p} {} s2 s3" "b \<Longrightarrow> pte_of ?c ?p s3 = vmm_phys_and_flags_to_table_entry phys (ucast (cow_flags pte))"
    "present (pte_of ?c ?p s2) \<Longrightarrow> b \<and> km_free ?r s3 = km_free ?r s2"
    "pm_refs (km_mem s3) = pm_refs (km_mem s2)" "pm_pages (km_mem s3) = pm_pages (km_mem s2)"
    by (rule km_map [OF k2(1) p2(1) ce(2), of phys]) blast
  note k3 = km_stepD [OF s3(2)]
  have "phys AND 0xff = 0" using page_aligned_low [OF s1(2)] by simp
  then have run: "cow_copy env ?p pte s = Done s3" using s1(1) by (simp add: cow_copy_def s2(1) s3(1))
  have "km_step ?c ?r ({} \<union> {?t}) ({} \<union> {phys}) s s2" by (rule km_step_trans [OF s1(5) s2(2)])
  then have "km_step ?c ?r ({} \<union> {?t} \<union> {?p}) ({} \<union> {phys} \<union> {}) s s3" by (rule km_step_trans) (rule s3(2))
  then have st: "km_step ?c ?r {?t, ?p} {phys} s s3" by (simp add: insert_commute)
  note k = km_stepD [OF st]
  have e: "pte_of ?c va s3 = vmm_phys_and_flags_to_table_entry phys (ucast (cow_flags pte))"
    using s3(3,4) p2(2) pt pte_aligned [OF k(3) [OF va(2)]] by simp
  have d2: "data_frame ?c ?r s2 phys" using k2(5) [OF s1(6)] .
  have fd: "frame_data (km_vm s3) phys = frame_data (km_vm s) (vmm_table_entry_to_phys pte)"
    using k3(6) [OF d2] s2(3) p1(3) s1(7) by simp
  have nd: "f \<noteq> phys" if "data_frame ?c ?r s f" for f using that s1(3) by (auto simp: data_frame_def untouched_def km_free_def)
  have t2: "plain (root_of ?c) ?t (km_vm s2)" using k2(3) [OF t1] .
  have tz: "pte_of ?c ?t s3 = 0" using k3(4) [OF t2] s2(4) p1(2) by (simp add: same_page_sym)
  have ow: "owned (km_mem s3) = owned (km_mem s1)" using s3(6) s2(6) by (simp add: owned_def fun_eq_iff)
  have nf: "pfn phys \<notin> km_free ?r s3" using k3(2) k2(2) s1(4) by auto
  have keep: "pte_of ?c va' s3 = pte_of ?c va' s" if "plain (root_of ?c) va' (km_vm s)" "\<not> same_page va' va" "\<not> same_page va' ?t" for va'
    by (rule k(4) [OF that(1)]) (use that(2,3) in \<open>auto simp: same_page_aligned_iff\<close>)
  have "takes_private_copy env va s s3" unfolding takes_private_copy_def Let_def e ce(1) pte_def [symmetric]
    using k(1,5,6) ce(3-5) fd nd tz ow s1(2,3,9) nf keep by simp
  then show ?thesis using run s3 s2 s1 by (intro exI [of _ s3]) (simp add: pte_def)
qed

text \<open>The part of the handler that serves automatically mapped regions, whatever the page was mapped to before.\<close>

lemma user_write_flags:
  "ucast (PG_USER OR PG_READ OR PG_WRITE OR PG_PRESENT) = (7 :: u16)" "ucast (PG_USER OR PG_READ OR PG_PRESENT OR PG_COPY_ON_WRITE) = (0x45 :: u16)"
  "present (ucast (7 :: u16) :: u64)" "present (ucast (0x45 :: u16) :: u64)"
  by (simp_all add: PG_USER_def PG_READ_def PG_WRITE_def PG_PRESENT_def PG_COPY_ON_WRITE_def)

lemma automap_write_ok:
  assumes ok: "km_ok (fe_cr3 env) (fe_region env) s" and va: "plain (root_of (fe_cr3 env)) va (km_vm s)" and code: "code AND PG_WRITE \<noteq> 0"
    and p: "fe_process env \<noteq> NULL"
    and free: "4 \<le> card (km_free (fe_region env) s)" and ae: "ae_pages (fe_alloc env)" "ae_block (fe_alloc env)"
  shows "\<exists>s' phys. automap env code (va AND PAGE_ALIGN_MASK) s = Done s' \<and> km_ok (fe_cr3 env) (fe_region env) s'
    \<and> pte_of (fe_cr3 env) va s' = phys OR 7 \<and> page_aligned phys \<and> pfn phys \<in> km_free (fe_region env) s \<and> pfn phys \<notin> km_free (fe_region env) s'
    \<and> frame_data (km_vm s') phys = (\<lambda>_. 0)
    \<and> owned (km_mem s') = (owned (km_mem s))(fe_process env := add_mset phys (owned (km_mem s) (fe_process env)))
    \<and> (\<forall>f. data_frame (fe_cr3 env) (fe_region env) s f \<longrightarrow> data_frame (fe_cr3 env) (fe_region env) s' f \<and> frame_data (km_vm s') f = frame_data (km_vm s) f)
    \<and> (\<forall>va'. plain (root_of (fe_cr3 env)) va' (km_vm s) \<and> \<not> same_page va' va \<longrightarrow> pte_of (fe_cr3 env) va' s' = pte_of (fe_cr3 env) va' s)"
proof -
  let ?c = "fe_cr3 env" and ?r = "fe_region env" and ?p = "va AND PAGE_ALIGN_MASK"
  have ne: "km_free ?r s \<noteq> {}" using free by auto
  obtain s1 phys where s1: "alloc_phys_appropriately env s = (s1, phys)" "page_aligned phys" "pfn phys \<in> km_free ?r s"
    "km_free ?r s1 = km_free ?r s - {pfn phys}" "km_step ?c ?r {} {} s s1" "data_frame ?c ?r s1 phys" "km_vm s1 = km_vm s"
    "owned (km_mem s1) = (if fe_process env = NULL then owned (km_mem s) else (owned (km_mem s))(fe_process env := add_mset phys (owned (km_mem s) (fe_process env))))"
    by (rule alloc_phys_ok [OF ok ne ae])
  note k1 = km_stepD [OF s1(5)]
  have low: "phys < 0x1000000000000" by (rule free_frame_low [OF ok s1(2,3)])
  have fin: "finite (km_free ?r s)" by (simp add: km_free_def free_pages_def)
  have c1: "3 \<le> card (km_free ?r s1)" using free fin s1(3,4) by (simp add: card_Diff_singleton)
  have p1: "plain (root_of ?c) ?p (km_vm s1)" using va s1(7) by (simp add: aligned_path)
  obtain s2 b where s2: "\<And>k :: kmem \<Rightarrow> bool \<Rightarrow> kmem step_result. with_mapper ?r (vmm_map_page ?c ?p phys 7) s1 k = k s2 b"
    "km_step ?c ?r {?p} {} s1 s2" "b \<Longrightarrow> pte_of ?c ?p s2 = vmm_phys_and_flags_to_table_entry phys (ucast (7 :: u16))"
    "3 \<le> card (km_free ?r s1) \<Longrightarrow> b" "pm_pages (km_mem s2) = pm_pages (km_mem s1)"
    by (rule km_map [OF k1(1) p1 user_write_flags(3), of phys]) blast
  note k2 = km_stepD [OF s2(2)]
  have e: "vmm_table_entry_to_phys (vmm_phys_and_flags_to_table_entry phys (ucast (7 :: u16))) = phys" "present (vmm_phys_and_flags_to_table_entry phys (ucast (7 :: u16)))"
    using entry_fields [OF s1(2) low, of 7] user_write_flags(3) by (simp_all add: present_bit bit_entry)
  have pe: "pte_of ?c ?p s2 = vmm_phys_and_flags_to_table_entry phys (ucast (7 :: u16))" using s2(3,4) c1 by simp
  have mp: "mmu_frame ?c ?p (km_vm s2) = Some phys" using mmu_frame_plain [OF k2(3) [OF p1]] pe e by (simp add: Let_def)
  let ?s3 = "s2\<lparr>km_vm := set_frame phys (\<lambda>_. 0) (km_vm s2)\<rparr>"
  have d2: "data_frame ?c ?r s2 phys" using k2(5) [OF s1(6)] .
  note w = km_write [OF k2(1) d2, where d = "\<lambda>_. 0"]
  have low8: "phys AND 0xff = 0" using page_aligned_low [OF s1(2)] by simp
  have run: "automap env code ?p s = Done ?s3"
    unfolding automap_def user_write_flags s1(1) using code low8 by (simp add: s2(1) memclr_page_def mp)
  have "km_step ?c ?r ({} \<union> {?p}) ({} \<union> {}) s s2" by (rule km_step_trans [OF s1(5) s2(2)])
  then have "km_step ?c ?r ({} \<union> {?p} \<union> {}) ({} \<union> {} \<union> {phys}) s ?s3" by (rule km_step_trans) (rule w(1))
  then have st: "km_step ?c ?r {?p} {phys} s ?s3" by simp
  note k = km_stepD [OF st]
  have "pte_of ?c va ?s3 = pte_of ?c ?p ?s3" using pte_aligned [OF k(3) [OF va]] by simp
  also have "\<dots> = pte_of ?c ?p s2" using w(3) [of ?p] k2(3) [OF p1] by simp
  also have "\<dots> = phys OR 7"
  proof -
    have "(x AND m) OR (x AND NOT m) = x" for x m :: u64 by (rule bit_word_eqI) (auto simp: bit_or_iff bit_and_iff bit_not_iff)
    from this [of phys "0xfff"] have "phys AND NOT 0xfff = phys" using s1(2) by (simp add: page_aligned_def)
    then show ?thesis using pe by (simp add: vmm_phys_and_flags_to_table_entry_def)
  qed
  finally have en: "pte_of ?c va ?s3 = phys OR 7" .
  have nd: "f \<noteq> phys" if "data_frame ?c ?r s f" for f using that s1(3) by (auto simp: data_frame_def untouched_def km_free_def)
  have ow: "owned (km_mem ?s3) = (owned (km_mem s))(fe_process env := add_mset phys (owned (km_mem s) (fe_process env)))"
    using s2(5) s1(8) p by (simp add: owned_def fun_eq_iff)
  have keep: "pte_of ?c va' ?s3 = pte_of ?c va' s" if "plain (root_of ?c) va' (km_vm s)" "\<not> same_page va' va" for va'
    by (rule k(4) [OF that(1)]) (use that(2) in \<open>simp add: same_page_aligned_iff\<close>)
  have nf: "pfn phys \<notin> km_free ?r ?s3" using km_stepD(2) [OF w(1)] k2(2) s1(4) by auto
  show ?thesis using run k(1,5,6) en s1(2,3) nf w(2) ow nd keep by (intro exI [of _ ?s3] exI [of _ phys]) blast
qed

text \<open>An address space with no page mapped, sixteen free frames and a process with an automatically mapped region; and the same after a page has been
  mapped copy-on-write.\<close>

definition demo_frames :: MemoryRegion where
  "demo_frames = \<lparr>mr_size = 0x10000, mr_free = 0x10000, mr_stack = [\<lparr>mb_base = 0x10000, mb_size = 16\<rparr>]\<rparr>"

definition demo_kmem :: kmem where
  "demo_kmem = \<lparr>km_mem = demo_pmem\<lparr>pm_region := (\<lambda>_. demo_frames)\<rparr>, km_vm = demo_vm\<rparr>"

definition demo_fault :: "u64 \<Rightarrow> fault_env" where
  "demo_fault zero = \<lparr>fe_region = 1, fe_zero_page = zero, fe_cr3 = 0x9000, fe_cpu = 0, fe_process = 0x5000,
     fe_regions = Region 0x1000 0x5000 1 NoRegion NoRegion 1, fe_alloc = \<lparr>ae_pages = True, ae_block = True, ae_refs = (True, \<lambda>_. True, True)\<rparr>\<rparr>"

lemma demo_fault_simps [simp]:
  "fe_region (demo_fault z) = 1" "fe_zero_page (demo_fault z) = z" "fe_cr3 (demo_fault z) = 0x9000" "fe_cpu (demo_fault z) = 0"
  "fe_process (demo_fault z) = 0x5000" "fe_regions (demo_fault z) = Region 0x1000 0x5000 1 NoRegion NoRegion 1"
  "ae_pages (fe_alloc (demo_fault z))" "ae_block (fe_alloc (demo_fault z))"
  by (simp_all add: demo_fault_def)

lemma demo_entry:
  "present 0xD045" "0xD045 AND PG_COPY_ON_WRITE \<noteq> 0" "7 AND PG_WRITE \<noteq> 0" "vmm_table_entry_to_phys 0xD045 = 0xD000" "IS_USER_ADDRESS 0x2000"
  by (simp_all add: PG_PRESENT_def PG_COPY_ON_WRITE_def PG_WRITE_def vmm_table_entry_to_phys_def IS_USER_ADDRESS_def)

lemma demo_free: "km_free 1 demo_kmem = {16..<32}"
  by (simp add: km_free_def demo_kmem_def free_pages_def demo_frames_def block_pages_def pfn_def)

lemma demo_kmem_ok:
  "km_ok 0x9000 1 demo_kmem" "plain (root_of 0x9000) va (km_vm demo_kmem)" "pte_of 0x9000 va demo_kmem = 0" "data_frame 0x9000 1 demo_kmem 0xD000"
  "frame_data (km_vm demo_kmem) f = (\<lambda>_. 0)" "refs_wf (pm_refs (km_mem demo_kmem))" "refs_count (pm_refs (km_mem demo_kmem)) = Map.empty"
proof -
  have t: "vm_tables (km_vm demo_kmem) = (\<lambda>_ _. 0)" "\<not> vm_locked (km_vm demo_kmem)" by (simp_all add: demo_kmem_def demo_vm_def)
  have r: "reach (\<lambda>_ _. 0) root p = (if p = [] then Some root else None)" for root p by (cases p) simp_all
  have wf: "region_wf demo_frames" by (simp add: demo_frames_def region_wf_def stack_wf_Cons block_wf_def block_pages_def page_aligned_def pfn_def)
  have "table_frame 0x9000" "pfn 0x9000 = 9" by (simp_all add: table_frame_def page_aligned_def pfn_def)
  then have tr: "tree_ok (\<lambda>_ _. 0) {16..<32} (root_of 0x9000)" unfolding tree_ok_def r by (auto intro!: exI [of _ "0x9000"])
  have ph: "pm_region (km_mem demo_kmem) 1 = demo_frames" by (simp add: demo_kmem_def)
  show "km_ok 0x9000 1 demo_kmem" using tr wf t demo_free by (simp add: km_ok_def vm_ok_def ph km_free_def)
  show "plain (root_of 0x9000) va (km_vm demo_kmem)" by (simp add: no_large_def large_at_def t r)
  show "pte_of 0x9000 va demo_kmem = 0" by (simp add: vmm_virt_to_pt_entry_def t)
  show "data_frame 0x9000 1 demo_kmem 0xD000" using demo_free by (auto simp: data_frame_def untouched_def t r km_free_def phys_to_virt_inj pfn_def)
  show "frame_data (km_vm demo_kmem) f = (\<lambda>_. 0)" by (simp add: frame_data_def t)
  show "refs_wf (pm_refs (km_mem demo_kmem))" "refs_count (pm_refs (km_mem demo_kmem)) = Map.empty"
    using demo_refs by (auto simp: demo_kmem_def demo_owner_def refs_wf_def)
qed

lemma demo_cow:
  obtains s where "km_ok 0x9000 1 s" "\<And>va. plain (root_of 0x9000) va (km_vm s)" "pte_of 0x9000 0x2000 s = 0xD045" "data_frame 0x9000 1 s 0xD000"
    "13 \<le> card (km_free 1 s)" "refs_wf (pm_refs (km_mem s))" "refs_count (pm_refs (km_mem s)) = Map.empty"
proof -
  obtain s b where s: "km_step 0x9000 1 {0x2000} {} demo_kmem s" "b \<Longrightarrow> pte_of 0x9000 0x2000 s = vmm_phys_and_flags_to_table_entry 0xD000 (ucast (0x45 :: u16))"
    "3 \<le> card (km_free 1 demo_kmem) \<Longrightarrow> b" "card (km_free 1 demo_kmem) \<le> card (km_free 1 s) + 3" "pm_refs (km_mem s) = pm_refs (km_mem demo_kmem)"
    by (rule km_map [OF demo_kmem_ok(1,2) user_write_flags(4), of "0x2000" "0xD000"]) blast
  note k = km_stepD [OF s(1)]
  have "pte_of 0x9000 0x2000 s = 0xD045" using s(2,3) demo_free by (simp add: vmm_phys_and_flags_to_table_entry_def)
  moreover have "13 \<le> card (km_free 1 s)" using s(4) demo_free by simp
  ultimately show thesis using k(1,3,5) s(5) demo_kmem_ok by (intro that [of s]) simp_all
qed

section \<open>Properties\<close>

text \<open>C2: a write to a copy-on-write page that somebody else still references, or that is the zero page, gives the faulting process a
  private, writable copy: the page is mapped to a frame that was free, now owned by the process, with the contents of the old
  frame; the old frame and every other data frame keep their contents, every other page of the address space but the CPU's temporary page
  keeps its entry, the temporary page is left unmapped, and the count of the old frame goes down by one (the zero page is not counted).\<close>

theorem cow_write_fault_copies:
  assumes ok: "km_ok (fe_cr3 env) (fe_region env) s" "refs_wf (pm_refs (km_mem s))"
    and va: "IS_USER_ADDRESS va" "plain (root_of (fe_cr3 env)) va (km_vm s)"
      "plain (root_of (fe_cr3 env)) (vmm_per_cpu_temp_page_addr (fe_cpu env)) (km_vm s)"
    and pte: "pte = pte_of (fe_cr3 env) va s" "old = vmm_table_entry_to_phys pte"
    and cow: "present pte" "pte AND PG_COPY_ON_WRITE \<noteq> 0" "code AND PG_WRITE \<noteq> 0" "data_frame (fe_cr3 env) (fe_region env) s old"
    and shared: "old = fe_zero_page env \<or> (refs_count (pm_refs (km_mem s)) old = Some n \<and> (ucast n :: u32) \<noteq> 0)"
    and free: "4 \<le> card (km_free (fe_region env) s)" and ae: "ae_pages (fe_alloc env)" "ae_block (fe_alloc env)"
  shows "\<exists>s'. page_fault_handler env code va s = Done s' \<and> takes_private_copy env va s s'
    \<and> refs_count (pm_refs (km_mem s')) = (if old = fe_zero_page env then refs_count (pm_refs (km_mem s))
        else (refs_count (pm_refs (km_mem s)))(old := (if n = 1 then None else Some (n - 1))))"
proof (cases "old = fe_zero_page env")
  case True
  obtain s' where s': "cow_copy env (va AND PAGE_ALIGN_MASK) pte s = Done s'" "takes_private_copy env va s s'" "pm_refs (km_mem s') = pm_refs (km_mem s)"
    using cow_copy_ok [OF ok(1) va _ _ free ae] cow(1,4) pte by blast
  have "page_fault_handler env code va s = Done s'" using s'(1) True va(1) cow pte by (simp add: page_fault_handler_def Let_def)
  then show ?thesis using s' True by simp
next
  case False
  obtain g k where d: "refcount_map_decrement old (pm_refs (km_mem s)) = (g, k)" by fastforce
  have dl: "k = ucast n" "refs_count g = (refs_count (pm_refs (km_mem s)))(old := (if n = 1 then None else Some (n - 1)))"
    using rc.dec_law [OF ok(2) d] shared False by simp_all
  let ?s = "s\<lparr>km_mem := (km_mem s)\<lparr>pm_refs := g\<rparr>\<rparr>"
  obtain s' where s': "cow_copy env (va AND PAGE_ALIGN_MASK) pte ?s = Done s'" "takes_private_copy env va ?s s'" "pm_refs (km_mem s') = g"
    using cow_copy_ok [of env ?s va] ok(1) va cow(1,4) pte free ae by auto
  have "page_fault_handler env code va s = Done s'"
    using s'(1) False va(1) cow pte d dl(1) shared by (simp add: page_fault_handler_def Let_def)
  moreover have "takes_private_copy env va s s'" using s'(2) by (simp add: takes_private_copy_def Let_def)
  ultimately show ?thesis using s'(3) dl(2) False by (intro exI [of _ s']) simp
qed

theorem cow_write_fault_copies_witness:
  "\<exists>s s'. page_fault_handler (demo_fault 0xD000) 7 0x2000 s = Done s' \<and> takes_private_copy (demo_fault 0xD000) 0x2000 s s'"
proof -
  obtain s where s: "km_ok 0x9000 1 s" "\<And>va. plain (root_of 0x9000) va (km_vm s)" "pte_of 0x9000 0x2000 s = 0xD045" "data_frame 0x9000 1 s 0xD000"
    "13 \<le> card (km_free 1 s)" "refs_wf (pm_refs (km_mem s))" by (rule demo_cow) blast
  have mem: "4 \<le> card (km_free 1 s)" using s(5) by simp
  have "\<exists>s'. page_fault_handler (demo_fault 0xD000) 7 0x2000 s = Done s' \<and> takes_private_copy (demo_fault 0xD000) 0x2000 s s'"
    using cow_write_fault_copies [of "demo_fault 0xD000" s "0x2000" _ _ 7 0, unfolded demo_fault_simps(1-4),
        OF s(1,6) demo_entry(5) s(2) s(2) s(3) [symmetric] demo_entry(4) [symmetric] demo_entry(1-3) s(4) disjI1 [OF refl] mem demo_fault_simps(7,8)]
    by blast
  then show ?thesis by blast
qed

text \<open>A write to a copy-on-write page nobody else references makes the page writable where it is: no frame is allocated or copied,
  every data frame keeps its contents and every other page its entry, and the entry keeps its frame.\<close>

theorem cow_write_fault_in_place:
  assumes ok: "km_ok (fe_cr3 env) (fe_region env) s" "refs_wf (pm_refs (km_mem s))"
    and va: "IS_USER_ADDRESS va" "plain (root_of (fe_cr3 env)) va (km_vm s)"
    and pte: "pte = pte_of (fe_cr3 env) va s" "old = vmm_table_entry_to_phys pte"
    and cow: "present pte" "pte AND PG_COPY_ON_WRITE \<noteq> 0" "code AND PG_WRITE \<noteq> 0"
    and sole: "old \<noteq> fe_zero_page env" "refs_count (pm_refs (km_mem s)) old = None"
  shows "\<exists>s'. page_fault_handler env code va s = Done s' \<and> km_ok (fe_cr3 env) (fe_region env) s'
    \<and> (let e = pte_of (fe_cr3 env) va s' in vmm_table_entry_to_phys e = old \<and> e AND PG_WRITE \<noteq> 0 \<and> e AND PG_COPY_ON_WRITE = 0 \<and> e AND PG_USER = pte AND PG_USER)
    \<and> km_free (fe_region env) s' = km_free (fe_region env) s \<and> owned (km_mem s') = owned (km_mem s)
    \<and> refs_count (pm_refs (km_mem s')) = refs_count (pm_refs (km_mem s))
    \<and> (\<forall>f. data_frame (fe_cr3 env) (fe_region env) s f \<longrightarrow> data_frame (fe_cr3 env) (fe_region env) s' f \<and> frame_data (km_vm s') f = frame_data (km_vm s) f)
    \<and> (\<forall>va'. plain (root_of (fe_cr3 env)) va' (km_vm s) \<and> \<not> same_page va' va \<longrightarrow> pte_of (fe_cr3 env) va' s' = pte_of (fe_cr3 env) va' s)"
proof -
  let ?c = "fe_cr3 env" and ?r = "fe_region env" and ?p = "va AND PAGE_ALIGN_MASK"
  obtain g k where d: "refcount_map_decrement old (pm_refs (km_mem s)) = (g, k)" by fastforce
  have dl: "k = 0" "refs_count g = refs_count (pm_refs (km_mem s))" using rc.dec_law [OF ok(2) d] sole(2) by (simp_all add: fun_upd_idem)
  let ?s = "s\<lparr>km_mem := (km_mem s)\<lparr>pm_refs := g\<rparr>\<rparr>"
  have p: "plain (root_of ?c) ?p (km_vm ?s)" "pte_of ?c ?p ?s = pte" using va(2) pte_aligned pte by (simp_all add: aligned_path)
  note ce = kept_frame_entry [OF cow(1)]
  obtain s' b where s': "\<And>k :: kmem \<Rightarrow> bool \<Rightarrow> kmem step_result. with_mapper ?r (vmm_map_page ?c ?p (pte AND PAGE_ALIGN_MASK) (cow_flags pte)) ?s k = k s' b"
    "km_step ?c ?r {?p} {} ?s s'" "b \<Longrightarrow> pte_of ?c ?p s' = vmm_phys_and_flags_to_table_entry (pte AND PAGE_ALIGN_MASK) (ucast (cow_flags pte))"
    "present (pte_of ?c ?p ?s) \<Longrightarrow> b \<and> km_free ?r s' = km_free ?r ?s"
    "pm_refs (km_mem s') = pm_refs (km_mem ?s)" "pm_pages (km_mem s') = pm_pages (km_mem ?s)"
    by (rule km_map [OF _ p(1) ce(2), of ?r "pte AND PAGE_ALIGN_MASK"]) (use ok(1) in \<open>simp, blast\<close>)
  note k = km_stepD [OF s'(2)]
  have run: "page_fault_handler env code va s = Done s'"
    using va(1) cow sole(1) d dl(1) by (simp add: page_fault_handler_def Let_def s'(1) pte [symmetric])
  have en: "pte_of ?c va s' = vmm_phys_and_flags_to_table_entry (pte AND PAGE_ALIGN_MASK) (ucast (cow_flags pte))"
    using s'(3,4) p(2) cow(1) pte_aligned [OF k(3), of va] va(2) by simp
  have fr: "km_free ?r s' = km_free ?r s" using s'(4) p(2) cow(1) by simp
  have ow: "owned (km_mem s') = owned (km_mem s)" using s'(6) by (simp add: owned_def fun_eq_iff)
  have keep: "pte_of ?c va' s' = pte_of ?c va' s" if "plain (root_of ?c) va' (km_vm s)" "\<not> same_page va' va" for va'
    using k(4) [of va'] that by (simp add: same_page_aligned_iff)
  show ?thesis using run k(1,5,6) en ce(1,3-5) pte(2) fr ow keep s'(5) dl(2) by (intro exI [of _ s']) (simp add: Let_def)
qed

theorem cow_write_fault_in_place_witness:
  "\<exists>s s'. page_fault_handler (demo_fault 0xE000) 7 0x2000 s = Done s' \<and> vmm_table_entry_to_phys (pte_of 0x9000 0x2000 s') = 0xD000
     \<and> km_free 1 s' = km_free 1 s"
proof -
  obtain s where s: "km_ok 0x9000 1 s" "\<And>va. plain (root_of 0x9000) va (km_vm s)" "pte_of 0x9000 0x2000 s = 0xD045"
    "refs_wf (pm_refs (km_mem s))" "refs_count (pm_refs (km_mem s)) = Map.empty" by (rule demo_cow) blast
  have "\<exists>s'. page_fault_handler (demo_fault 0xE000) 7 0x2000 s = Done s' \<and> vmm_table_entry_to_phys (pte_of 0x9000 0x2000 s') = 0xD000
      \<and> km_free 1 s' = km_free 1 s"
    using cow_write_fault_in_place [of "demo_fault 0xE000" s "0x2000" _ _ 7, unfolded demo_fault_simps(1-4),
        OF s(1,4) demo_entry(5) s(2) s(3) [symmetric] demo_entry(4) [symmetric] demo_entry(1-3)] s(5) by (simp add: Let_def) blast
  then show ?thesis by blast
qed

text \<open>The first access to a page of an automatically mapped region that is a write gives the process a frame of its own, filled
  with zeros and mapped writable for the user; every data frame keeps its contents and every other page its entry.\<close>

theorem automap_write_fault_zeroed:
  assumes ok: "km_ok (fe_cr3 env) (fe_region env) s" and va: "plain (root_of (fe_cr3 env)) va (km_vm s)"
    and pte: "pte_of (fe_cr3 env) va s = 0" and code: "code AND PG_WRITE \<noteq> 0"
    and rg: "fe_process env \<noteq> NULL" "region_tree_lookup (fe_regions env) va = Region a b fl l r h" "fl AND VM_REGION_AUTOMAP \<noteq> 0"
    and free: "4 \<le> card (km_free (fe_region env) s)" and ae: "ae_pages (fe_alloc env)" "ae_block (fe_alloc env)"
  shows "\<exists>s' phys. page_fault_handler env code va s = Done s' \<and> km_ok (fe_cr3 env) (fe_region env) s'
    \<and> pte_of (fe_cr3 env) va s' = phys OR 7 \<and> page_aligned phys \<and> pfn phys \<in> km_free (fe_region env) s \<and> pfn phys \<notin> km_free (fe_region env) s'
    \<and> frame_data (km_vm s') phys = (\<lambda>_. 0)
    \<and> owned (km_mem s') = (owned (km_mem s))(fe_process env := add_mset phys (owned (km_mem s) (fe_process env)))
    \<and> (\<forall>f. data_frame (fe_cr3 env) (fe_region env) s f \<longrightarrow> data_frame (fe_cr3 env) (fe_region env) s' f \<and> frame_data (km_vm s') f = frame_data (km_vm s) f)
    \<and> (\<forall>va'. plain (root_of (fe_cr3 env)) va' (km_vm s) \<and> \<not> same_page va' va \<longrightarrow> pte_of (fe_cr3 env) va' s' = pte_of (fe_cr3 env) va' s)"
proof -
  have "page_fault_handler env code va s = automap env code (va AND PAGE_ALIGN_MASK) s"
    using pte rg by (simp add: page_fault_handler_def Let_def vm_region_find_in_process_def)
  then show ?thesis using automap_write_ok [OF ok va code rg(1) free ae] by simp
qed

theorem automap_write_fault_zeroed_witness:
  "\<exists>s' phys. page_fault_handler (demo_fault 0xD000) 2 0x2000 demo_kmem = Done s' \<and> pte_of 0x9000 0x2000 s' = phys OR 7 \<and> pfn phys \<in> {16..<32}
     \<and> frame_data (km_vm s') phys = (\<lambda>_. 0)"
  using automap_write_fault_zeroed [of "demo_fault 0xD000" demo_kmem "0x2000" 2] demo_kmem_ok demo_free
  by (auto simp: demo_fault_def PG_WRITE_def VM_REGION_AUTOMAP_def)

lemma and_not_low: "(x :: u64) AND 0xFFF = 0 \<Longrightarrow> x AND NOT 0xFFF = x"
proof -
  assume "x AND 0xFFF = 0"
  moreover have "(x AND 0xFFF) OR (x AND NOT 0xFFF) = x" unfolding bit.conj_disj_distrib [symmetric] bit.disj_cancel_right by simp
  ultimately show ?thesis by (metis or.left_neutral)
qed

text \<open>C22: reading an untouched page of an automatically mapped region maps the zero page there for user mode, copy-on-write and not writable, so that the page reads as
  zeros, and the process owns no frame for it; no other page changes. A write to it afterwards gives the process a private page of zeros, and the zero page keeps its contents.\<close>

theorem automap_read_then_write:
  assumes ok: "km_ok (fe_cr3 env) (fe_region env) s" and wf: "refs_wf (pm_refs (km_mem s))"
    and va: "IS_USER_ADDRESS va" "plain (root_of (fe_cr3 env)) va (km_vm s)"
      "plain (root_of (fe_cr3 env)) (vmm_per_cpu_temp_page_addr (fe_cpu env)) (km_vm s)"
    and pte: "pte_of (fe_cr3 env) va s = 0" and code: "code0 AND PG_WRITE = 0" "code AND PG_WRITE \<noteq> 0"
    and rg: "fe_process env \<noteq> NULL" "region_tree_lookup (fe_regions env) va = Region a b fl l r h" "fl AND VM_REGION_AUTOMAP \<noteq> 0"
    and zero: "page_aligned (fe_zero_page env)" "fe_zero_page env < 0x1000000000000" "data_frame (fe_cr3 env) (fe_region env) s (fe_zero_page env)"
      "frame_data (km_vm s) (fe_zero_page env) = (\<lambda>_. 0)"
    and free: "7 \<le> card (km_free (fe_region env) s)" and ae: "ae_pages (fe_alloc env)" "ae_block (fe_alloc env)"
  shows "\<exists>s1 s2. page_fault_handler env code0 va s = Done s1 \<and> mmu_frame (fe_cr3 env) va (km_vm s1) = Some (fe_zero_page env)
    \<and> pte_of (fe_cr3 env) va s1 = fe_zero_page env OR 0x45 \<and> pte_of (fe_cr3 env) va s1 AND PG_WRITE = 0
    \<and> km_step (fe_cr3 env) (fe_region env) {va AND PAGE_ALIGN_MASK} {} s s1 \<and> owned (km_mem s1) = owned (km_mem s)
    \<and> page_fault_handler env code va s1 = Done s2 \<and> takes_private_copy env va s1 s2
    \<and> frame_data (km_vm s2) (vmm_table_entry_to_phys (pte_of (fe_cr3 env) va s2)) = (\<lambda>_. 0)
    \<and> frame_data (km_vm s2) (fe_zero_page env) = (\<lambda>_. 0)"
proof -
  let ?c = "fe_cr3 env" and ?r = "fe_region env" and ?p = "va AND PAGE_ALIGN_MASK" and ?z = "fe_zero_page env"
  let ?t = "vmm_per_cpu_temp_page_addr (fe_cpu env)" and ?e = "vmm_phys_and_flags_to_table_entry (fe_zero_page env) (ucast (0x45 :: u16))"
  have p: "plain (root_of ?c) ?p (km_vm s)" using va(2) by (simp add: aligned_path)
  obtain s1 b where s1: "\<And>k :: kmem \<Rightarrow> bool \<Rightarrow> kmem step_result. with_mapper ?r (vmm_map_page ?c ?p ?z 0x45) s k = k s1 b"
    "km_step ?c ?r {?p} {} s s1" "b \<Longrightarrow> pte_of ?c ?p s1 = ?e" "3 \<le> card (km_free ?r s) \<Longrightarrow> b" "card (km_free ?r s) \<le> card (km_free ?r s1) + 3"
    "pm_refs (km_mem s1) = pm_refs (km_mem s)" "pm_pages (km_mem s1) = pm_pages (km_mem s)"
    by (rule km_map [OF ok p user_write_flags(4), of ?z]) blast
  note k = km_stepD [OF s1(2)]
  have e: "vmm_table_entry_to_phys ?e = ?z" "present ?e" "?e AND PG_COPY_ON_WRITE \<noteq> 0"
  proof -
    show "vmm_table_entry_to_phys ?e = ?z" by (rule entry_fields [OF zero(1,2)]) simp
    show "present ?e" using user_write_flags(4) by (simp add: present_bit bit_entry)
    show "?e AND PG_COPY_ON_WRITE \<noteq> 0" using bit_flag [of ?e 6] by (simp add: PG_COPY_ON_WRITE_def bit_entry)
  qed
  have en: "pte_of ?c va s1 = ?e" using s1(3,4) free pte_aligned [OF k(3) [OF va(2)]] by simp
  have r1: "page_fault_handler env code0 va s = Done s1"
    using pte rg code(1) by (simp add: page_fault_handler_def Let_def vm_region_find_in_process_def automap_def user_write_flags s1(1))
  have fr: "mmu_frame ?c va (km_vm s1) = Some ?z" using mmu_frame_plain [OF k(3) [OF va(2)]] en e by (simp add: Let_def)
  have z1: "data_frame ?c ?r s1 ?z" "frame_data (km_vm s1) ?z = (\<lambda>_. 0)" using k(5,6) zero(3,4) by simp_all
  have "4 \<le> card (km_free ?r s1)" using s1(5) free by simp
  then obtain s2 where s2: "cow_copy env ?p (pte_of ?c va s1) s1 = Done s2" "takes_private_copy env va s1 s2"
    using cow_copy_ok [OF k(1) va(1) k(3) [OF va(2)] k(3) [OF va(3)]] en e z1(1) ae by auto
  have r2: "page_fault_handler env code va s1 = Done s2" using s2(1) va(1) en e code(2) by (simp add: page_fault_handler_def Let_def)
  have "frame_data (km_vm s2) (vmm_table_entry_to_phys (pte_of ?c va s2)) = (\<lambda>_. 0)" "frame_data (km_vm s2) ?z = (\<lambda>_. 0)"
    using s2(2) z1 en e(1) by (simp_all add: takes_private_copy_def Let_def)
  moreover have "owned (km_mem s1) = owned (km_mem s)" using s1(7) by (simp add: owned_def fun_eq_iff)
  moreover have "pte_of ?c va s1 = ?z OR 0x45" using zero(1) and_not_low [of ?z] unfolding en by (simp add: vmm_phys_and_flags_to_table_entry_def page_aligned_def)
  moreover have "pte_of ?c va s1 AND PG_WRITE = 0" using bit_flag [of ?e 1] unfolding en by (simp add: PG_WRITE_def bit_entry)
  ultimately show ?thesis using r1 fr r2 s2(2) s1(2) by blast
qed

theorem automap_read_then_write_witness:
  "\<exists>s1 s2. page_fault_handler (demo_fault 0xD000) 0 0x2000 demo_kmem = Done s1 \<and> mmu_frame 0x9000 0x2000 (km_vm s1) = Some 0xD000 \<and> pte_of 0x9000 0x2000 s1 = 0xD045
     \<and> page_fault_handler (demo_fault 0xD000) 2 0x2000 s1 = Done s2 \<and> frame_data (km_vm s2) 0xD000 = (\<lambda>_. 0)"
  using automap_read_then_write [of "demo_fault 0xD000" demo_kmem "0x2000" 0 2] demo_kmem_ok demo_free
  by (auto simp: demo_fault_def PG_WRITE_def VM_REGION_AUTOMAP_def IS_USER_ADDRESS_def page_aligned_def)

text \<open>The handler of an automatically mapped region does not look whether the page has been mapped meanwhile: when a second thread
  of the process faults on a page another CPU has just given a frame (the entry is present and no longer copy-on-write), the page gets a
  fresh frame of zeros and what was written to the first one is no longer mapped.\<close>

lemma automap_second_fault_loses_page:
  assumes ok: "km_ok (fe_cr3 env) (fe_region env) s" and va: "plain (root_of (fe_cr3 env)) va (km_vm s)"
    and pte: "present (pte_of (fe_cr3 env) va s)" "pte_of (fe_cr3 env) va s AND PG_COPY_ON_WRITE = 0" and code: "code AND PG_WRITE \<noteq> 0"
    and dat: "data_frame (fe_cr3 env) (fe_region env) s (vmm_table_entry_to_phys (pte_of (fe_cr3 env) va s))"
    and rg: "fe_process env \<noteq> NULL" "region_tree_lookup (fe_regions env) va = Region a b fl l r h" "fl AND VM_REGION_AUTOMAP \<noteq> 0"
    and free: "4 \<le> card (km_free (fe_region env) s)" and ae: "ae_pages (fe_alloc env)" "ae_block (fe_alloc env)"
  shows "\<exists>s' phys. page_fault_handler env code va s = Done s' \<and> pte_of (fe_cr3 env) va s' = phys OR 7
    \<and> phys \<noteq> vmm_table_entry_to_phys (pte_of (fe_cr3 env) va s) \<and> frame_data (km_vm s') phys = (\<lambda>_. 0)"
proof -
  have "page_fault_handler env code va s = automap env code (va AND PAGE_ALIGN_MASK) s"
    using pte rg by (simp add: page_fault_handler_def Let_def vm_region_find_in_process_def)
  moreover obtain s' phys where s': "automap env code (va AND PAGE_ALIGN_MASK) s = Done s'" "pte_of (fe_cr3 env) va s' = phys OR 7"
    "pfn phys \<in> km_free (fe_region env) s" "frame_data (km_vm s') phys = (\<lambda>_. 0)"
    using automap_write_ok [OF ok va code rg(1) free ae] by blast
  moreover have "phys \<noteq> vmm_table_entry_to_phys (pte_of (fe_cr3 env) va s)"
    using dat s'(3) by (auto simp: data_frame_def untouched_def km_free_def)
  ultimately show ?thesis by auto
qed

end
