(* ===== verification/Ring.thy ===== *)
theory Ring
  imports Anos_Prelude
begin

text \<open>
  Circular buffers, as the kernel log and the event queues of interrupt vectors keep them: an array, the index of the oldest element and
  the number of elements. \<open>ring\<close> is the list a buffer stands for, and the lemmas say what storing behind the newest element, dropping the oldest and
  overwriting the oldest do to that list. The locale \<open>fifo\<close> is the contract of a bounded queue; both users interpret it.
\<close>

section \<open>The list of a circular buffer\<close>

definition ring :: "'a list \<Rightarrow> nat \<Rightarrow> nat \<Rightarrow> 'a list" where
  "ring b tail count = map (\<lambda>i. b ! ((tail + i) mod length b)) [0..<count]"

lemma length_ring [simp]: "length (ring b tail count) = count"
  by (simp add: ring_def)

lemma ring_0 [simp]: "ring b tail 0 = []"
  by (simp add: ring_def)

lemma ring_Suc: "ring b tail (Suc n) = b ! (tail mod length b) # ring b ((tail + 1) mod length b) n"
proof -
  have "ring b tail (Suc n) = map (\<lambda>i. b ! ((tail + i) mod length b)) (0 # map Suc [0..<n])"
    unfolding ring_def by (simp only: upt_conv_Cons map_Suc_upt zero_less_Suc)
  also have "\<dots> = b ! (tail mod length b) # ring b ((tail + 1) mod length b) n"
    by (simp add: ring_def mod_add_left_eq)
  finally show ?thesis .
qed

lemma ring_push:
  assumes "count < length b"
  shows "ring (b[(tail + count) mod length b := x]) tail (Suc count) = ring b tail count @ [x]"
proof -
  have "0 < length b" using assms by linarith
  then have "(b[(tail + count) mod length b := x]) ! ((tail + i) mod length b) = (if i = count then x else b ! ((tail + i) mod length b))" if "i \<le> count" for i
    using nat_mod_shift_inj [of i "length b" count tail] assms that by (auto simp: nth_list_update)
  then show ?thesis by (simp add: ring_def)
qed

text \<open>Overwriting the oldest element of a full buffer.\<close>

lemma ring_overwrite:
  assumes "b \<noteq> []" "tail < length b"
  shows "ring (b[tail := x]) ((tail + 1) mod length b) (length b) = tl (ring b tail (length b)) @ [x]"
proof -
  obtain n where n: "length b = Suc n" using assms(1) by (cases b) simp_all
  have one: "((tail + 1) mod Suc n + n) mod Suc n = tail" using assms(2) n mod_add_self2 [of tail "Suc n"] by (simp add: mod_add_left_eq)
  have "ring b tail (length b) = b ! tail # ring b ((tail + 1) mod length b) n" using ring_Suc [of b tail n] assms(2) n by simp
  moreover have "ring (b[tail := x]) ((tail + 1) mod length b) (Suc n) = ring b ((tail + 1) mod length b) n @ [x]"
    using ring_push [of n b "(tail + 1) mod length b" x] one n by simp
  ultimately show ?thesis using n by simp
qed

section \<open>Bounded queues\<close>

locale fifo =
  fixes ok :: "'s \<Rightarrow> bool" and contents :: "'s \<Rightarrow> 'a list" and cap :: nat
    and push :: "'a \<Rightarrow> 's \<Rightarrow> 's" and pop :: "'s \<Rightarrow> ('a \<times> 's) option"
  assumes push_law: "ok s \<Longrightarrow> length (contents s) < cap \<Longrightarrow> ok (push x s) \<and> contents (push x s) = contents s @ [x]"
    and pop_law: "ok s \<Longrightarrow> case contents s of [] \<Rightarrow> pop s = None | x # xs \<Rightarrow> \<exists>s'. pop s = Some (x, s') \<and> ok s' \<and> contents s' = xs"
begin

fun pop_many :: "nat \<Rightarrow> 's \<Rightarrow> 'a list \<times> 's" where
  "pop_many 0 s = ([], s)"
| "pop_many (Suc n) s = (case pop s of None \<Rightarrow> ([], s) | Some (x, s') \<Rightarrow> (case pop_many n s' of (xs, t) \<Rightarrow> (x # xs, t)))"

lemma push_many: "ok s \<Longrightarrow> length (contents s) + length xs \<le> cap \<Longrightarrow> ok (fold push xs s) \<and> contents (fold push xs s) = contents s @ xs"
proof (induction xs arbitrary: s)
  case (Cons x xs)
  have "ok (push x s) \<and> contents (push x s) = contents s @ [x]" using push_law Cons.prems by simp
  then show ?case using Cons.IH [of "push x s"] Cons.prems(2) by simp
qed simp

lemma pop_many_ok: "ok s \<Longrightarrow> \<exists>t. pop_many n s = (take n (contents s), t) \<and> ok t \<and> contents t = drop n (contents s)"
proof (induction n arbitrary: s)
  case (Suc n)
  show ?case
  proof (cases "contents s")
    case Nil
    then show ?thesis using pop_law [OF Suc.prems] Suc.prems by simp
  next
    case (Cons x xs)
    then obtain s' where s': "pop s = Some (x, s')" "ok s'" "contents s' = xs" using pop_law [OF Suc.prems] by auto
    then show ?thesis using Suc.IH [OF s'(2)] Cons by auto
  qed
qed simp

text \<open>What was put in comes out in the same order.\<close>

lemma fifo_order:
  assumes "ok s" "contents s = []" "length xs \<le> cap"
  shows "\<exists>t. pop_many (length xs) (fold push xs s) = (xs, t) \<and> ok t \<and> contents t = []"
  using pop_many_ok [of "fold push xs s" "length xs"] push_many [OF assms(1), of xs] assms(2,3) by simp

end

end
