(* ===== verification/Klog.thy ===== *)
theory Klog
  imports Ring Sched_Wait
begin

text \<open>
  The kernel log, \<^verbatim>\<open>kernel/klog.c\<close>: a circular buffer of characters with a list of tasks that wait for data. The buffer is written and read under its
  spin lock, so each operation is one step up to the point where a reader gives up the CPU. The list of waiting readers is linked through the
  tasks. The frame buffer fallback only prints and is not modelled; the buffer the block allocator returns is an argument.
\<close>

section \<open>Data\<close>

definition KLOG_BUFFER_SIZE :: nat where
  "KLOG_BUFFER_SIZE = 64 * 1024"

record KernelLogBuffer =
  kl_buffer :: "char list"
  kl_size :: nat
  kl_head :: nat
  kl_tail :: nat
  kl_count :: nat
  dropped_messages :: bool
  waiting_readers :: ptr
  klog_initialized :: bool

record KernelLogStats =
  ks_buffer_size :: nat
  ks_bytes_available :: nat
  ks_bytes_free :: nat
  ks_head_position :: nat
  ks_tail_position :: nat
  ks_dropped_messages :: bool

section \<open>Operations\<close>

definition klog_init :: "char list option \<Rightarrow> KernelLogBuffer \<Rightarrow> KernelLogBuffer \<times> bool" where
  "klog_init buffer l =
     (if klog_initialized l then (l, True)
      else case buffer of
             None \<Rightarrow> (l, False)
           | Some b \<Rightarrow> (l\<lparr>kl_buffer := b, kl_size := KLOG_BUFFER_SIZE, kl_head := 0, kl_tail := 0, kl_count := 0,
                          dropped_messages := False, waiting_readers := NULL, klog_initialized := True\<rparr>, True))"

definition klog_write_char_internal :: "char \<Rightarrow> KernelLogBuffer \<Rightarrow> KernelLogBuffer" where
  "klog_write_char_internal c l =
     (if \<not> klog_initialized l then l
      else let l = (if kl_count l \<ge> kl_size l
                    then l\<lparr>kl_tail := (kl_tail l + 1) mod kl_size l, dropped_messages := True\<rparr>
                    else l\<lparr>kl_count := kl_count l + 1\<rparr>)
           in l\<lparr>kl_buffer := (kl_buffer l)[kl_head l := c], kl_head := (kl_head l + 1) mod kl_size l\<rparr>)"

text \<open>The loop that wakes the readers, each taken off the list before it is made ready.\<close>

partial_function (option) wake_readers :: "nat \<Rightarrow> ptr \<Rightarrow> sched_state \<Rightarrow> sched_state option" where
  "wake_readers cpu reader s =
     (if reader = NULL then Some s
      else let nxt = t_next (ss_heap s reader)
           in case sched_unblock cpu reader (upd_task reader (\<lambda>t. t\<lparr>t_next := NULL\<rparr>) s) of
                None \<Rightarrow> None
              | Some s \<Rightarrow> wake_readers cpu nxt s)"

definition klog_write_char :: "nat \<Rightarrow> char \<Rightarrow> KernelLogBuffer \<Rightarrow> sched_state \<Rightarrow> (KernelLogBuffer \<times> sched_state) option" where
  "klog_write_char cpu c l s =
     (if \<not> klog_initialized l then Some (l, s)
      else let l = klog_write_char_internal c l
           in map_option (\<lambda>s. (l\<lparr>waiting_readers := NULL\<rparr>, s)) (wake_readers cpu (waiting_readers l) s))"

definition klog_write_string :: "string \<Rightarrow> KernelLogBuffer \<Rightarrow> KernelLogBuffer" where
  "klog_write_string str l = (if \<not> klog_initialized l then l else fold klog_write_char_internal str l)"

text \<open>The copying loop of \<^verbatim>\<open>klog_read\<close>, by the bytes that may still be read.\<close>

fun read_loop :: "nat \<Rightarrow> KernelLogBuffer \<Rightarrow> KernelLogBuffer \<times> string" where
  "read_loop 0 l = (l, [])"
| "read_loop (Suc n) l =
     (if kl_count l > 0
      then let c = kl_buffer l ! kl_tail l;
               (l, cs) = read_loop n (l\<lparr>kl_tail := (kl_tail l + 1) mod kl_size l, kl_count := kl_count l - 1\<rparr>)
           in (l, c # cs)
      else (l, []))"

datatype klog_read_result = Read string | Must_wait

text \<open>One pass of \<^verbatim>\<open>klog_read\<close> under the lock: the data, or the current task put on the list of waiting readers.\<close>

definition klog_read :: "ptr \<Rightarrow> ptr \<Rightarrow> nat \<Rightarrow> KernelLogBuffer \<Rightarrow> sched_state \<Rightarrow> KernelLogBuffer \<times> sched_state \<times> klog_read_result" where
  "klog_read current_task dest max_bytes l s =
     (if \<not> klog_initialized l \<or> dest = NULL \<or> max_bytes = 0 then (l, s, Read [])
      else if kl_count l > 0 then let (l, cs) = read_loop max_bytes l in (l, s, Read cs)
      else (l\<lparr>waiting_readers := current_task\<rparr>, upd_task current_task (\<lambda>t. t\<lparr>t_next := waiting_readers l\<rparr>) s, Must_wait))"

text \<open>The end of a pass that has to wait, after the lock has been released.\<close>

definition klog_read_block :: "nat \<Rightarrow> ptr \<Rightarrow> sched_state \<Rightarrow> sched_outcome option" where
  "klog_read_block cpu current_task s = sched_schedule cpu (sched_block current_task s)"

definition klog_available :: "KernelLogBuffer \<Rightarrow> nat" where
  "klog_available l = (if \<not> klog_initialized l then 0 else kl_count l)"

definition klog_has_dropped_messages :: "KernelLogBuffer \<Rightarrow> KernelLogBuffer \<times> bool" where
  "klog_has_dropped_messages l =
     (if \<not> klog_initialized l then (l, False) else (l\<lparr>dropped_messages := False\<rparr>, dropped_messages l))"

definition klog_clear :: "KernelLogBuffer \<Rightarrow> KernelLogBuffer" where
  "klog_clear l =
     (if \<not> klog_initialized l then l
      else l\<lparr>kl_head := 0, kl_tail := 0, kl_count := 0, dropped_messages := False\<rparr>)"

definition klog_get_stats :: "KernelLogBuffer \<Rightarrow> KernelLogStats" where
  "klog_get_stats l =
     (if \<not> klog_initialized l then \<lparr>ks_buffer_size = 0, ks_bytes_available = 0, ks_bytes_free = 0, ks_head_position = 0, ks_tail_position = 0, ks_dropped_messages = False\<rparr>
      else \<lparr>ks_buffer_size = kl_size l, ks_bytes_available = kl_count l, ks_bytes_free = kl_size l - kl_count l,
            ks_head_position = kl_head l, ks_tail_position = kl_tail l, ks_dropped_messages = dropped_messages l\<rparr>)"

section \<open>Invariant and abstraction\<close>

definition klog_ok :: "KernelLogBuffer \<Rightarrow> bool" where
  "klog_ok l \<longleftrightarrow> klog_initialized l \<and> 0 < kl_size l \<and> length (kl_buffer l) = kl_size l \<and> kl_tail l < kl_size l
     \<and> kl_count l \<le> kl_size l \<and> kl_head l = (kl_tail l + kl_count l) mod kl_size l"

definition klog_text :: "KernelLogBuffer \<Rightarrow> string" where
  "klog_text l = ring (kl_buffer l) (kl_tail l) (kl_count l)"

text \<open>The last \<open>n\<close> elements of a list.\<close>

definition last_n :: "nat \<Rightarrow> 'a list \<Rightarrow> 'a list" where
  "last_n n xs = drop (length xs - n) xs"

section \<open>Lemmas\<close>

lemma length_last_n [simp]: "length (last_n n xs) = min n (length xs)"
  by (simp add: last_n_def)

lemma last_n_short: "length xs \<le> n \<Longrightarrow> last_n n xs = xs"
  by (simp add: last_n_def)

lemma last_n_snoc_full: "length xs = n \<Longrightarrow> xs \<noteq> [] \<Longrightarrow> last_n n (xs @ [x]) = tl xs @ [x]"
  by (cases xs) (simp_all add: last_n_def)

lemma last_n_append: "last_n n (last_n n xs @ ys) = last_n n (xs @ ys)"
  by (cases "length xs \<le> n") (simp_all add: last_n_def add.commute)

lemma write_internal_ok:
  assumes "klog_ok l"
  shows "klog_ok (klog_write_char_internal c l) \<and> kl_size (klog_write_char_internal c l) = kl_size l
    \<and> klog_text (klog_write_char_internal c l) = last_n (kl_size l) (klog_text l @ [c])
    \<and> waiting_readers (klog_write_char_internal c l) = waiting_readers l
    \<and> dropped_messages (klog_write_char_internal c l) = (dropped_messages l \<or> kl_count l = kl_size l)"
proof -
  have ok: "klog_initialized l" "0 < kl_size l" "length (kl_buffer l) = kl_size l" "kl_tail l < kl_size l" "kl_count l \<le> kl_size l"
    "kl_head l = (kl_tail l + kl_count l) mod kl_size l" using assms by (simp_all add: klog_ok_def)
  have ne: "kl_buffer l \<noteq> []" using ok(2,3) by auto
  show ?thesis
  proof (cases "kl_count l \<ge> kl_size l")
    case True
    then have full: "kl_count l = kl_size l" "kl_head l = kl_tail l" using ok by simp_all
    have h: "(kl_tail l + 1) mod kl_size l < kl_size l" using ok(2) by simp
    have "((kl_tail l + 1) mod kl_size l + kl_size l) mod kl_size l = (kl_tail l + 1) mod kl_size l" by simp
    moreover have "ring ((kl_buffer l)[kl_tail l := c]) ((kl_tail l + 1) mod kl_size l) (kl_size l) = tl (klog_text l) @ [c]"
      using ring_overwrite [OF ne, of "kl_tail l" c] ok full by (simp add: klog_text_def)
    moreover have "length (klog_text l) = kl_size l" "klog_text l \<noteq> []" using full ok(2) by (simp_all add: klog_text_def ring_def)
    ultimately show ?thesis using True full ok h last_n_snoc_full [of "klog_text l" "kl_size l" c]
      by (simp add: klog_write_char_internal_def klog_ok_def klog_text_def)
  next
    case False
    have "ring ((kl_buffer l)[kl_head l := c]) (kl_tail l) (Suc (kl_count l)) = klog_text l @ [c]"
      using ring_push [of "kl_count l" "kl_buffer l" "kl_tail l" c] ok False by (simp add: klog_text_def)
    moreover have "((kl_tail l + kl_count l) mod kl_size l + 1) mod kl_size l = (kl_tail l + Suc (kl_count l)) mod kl_size l" by (simp add: mod_simps)
    moreover have "last_n (kl_size l) (klog_text l @ [c]) = klog_text l @ [c]" using False by (intro last_n_short) (simp add: klog_text_def)
    ultimately show ?thesis using False ok by (simp add: klog_write_char_internal_def klog_ok_def klog_text_def)
  qed
qed

lemma read_loop_ok:
  assumes "klog_ok l"
  shows "\<exists>l'. read_loop n l = (l', take n (klog_text l)) \<and> klog_ok l' \<and> klog_text l' = drop n (klog_text l) \<and> kl_size l' = kl_size l
    \<and> waiting_readers l' = waiting_readers l \<and> dropped_messages l' = dropped_messages l"
  using assms
proof (induction n arbitrary: l)
  case (Suc n)
  show ?case
  proof (cases "kl_count l")
    case 0
    then show ?thesis using Suc.prems by (simp add: klog_text_def)
  next
    case (Suc k)
    let ?l = "l\<lparr>kl_tail := (kl_tail l + 1) mod kl_size l, kl_count := kl_count l - 1\<rparr>"
    have ok: "0 < kl_size l" "length (kl_buffer l) = kl_size l" "kl_tail l < kl_size l" "kl_head l = (kl_tail l + kl_count l) mod kl_size l"
      "klog_initialized l" "kl_count l \<le> kl_size l" using Suc.prems by (simp_all add: klog_ok_def)
    have "((kl_tail l + 1) mod kl_size l + k) mod kl_size l = (kl_tail l + Suc k) mod kl_size l" by (simp add: mod_simps)
    then have "klog_ok ?l" using ok Suc by (simp add: klog_ok_def)
    moreover have "klog_text l = kl_buffer l ! kl_tail l # klog_text ?l" using ok Suc ring_Suc [of "kl_buffer l" "kl_tail l" k] by (simp add: klog_text_def)
    ultimately show ?thesis using Suc.IH [of ?l] Suc by auto
  qed
qed simp

lemma klog_fifo: "fifo (\<lambda>l. klog_ok l \<and> kl_size l = n) klog_text n klog_write_char_internal
    (\<lambda>l. case read_loop 1 l of (l', c # _) \<Rightarrow> Some (c, l') | _ \<Rightarrow> None)"
proof
  fix l :: KernelLogBuffer and c
  assume l: "klog_ok l \<and> kl_size l = n"
  assume "length (klog_text l) < n"
  then show "(klog_ok (klog_write_char_internal c l) \<and> kl_size (klog_write_char_internal c l) = n)
      \<and> klog_text (klog_write_char_internal c l) = klog_text l @ [c]"
    using write_internal_ok [of l c] l last_n_short [of "klog_text l @ [c]" n] by simp
next
  fix l :: KernelLogBuffer
  assume l: "klog_ok l \<and> kl_size l = n"
  show "case klog_text l of
      [] \<Rightarrow> (case read_loop 1 l of (l', c # _) \<Rightarrow> Some (c, l') | _ \<Rightarrow> None) = None
    | c # cs \<Rightarrow> \<exists>l'. (case read_loop 1 l of (l', c # _) \<Rightarrow> Some (c, l') | _ \<Rightarrow> None) = Some (c, l')
        \<and> (klog_ok l' \<and> kl_size l' = n) \<and> klog_text l' = cs"
  proof -
    obtain l' where l': "read_loop 1 l = (l', take 1 (klog_text l))" "klog_ok l'" "klog_text l' = drop 1 (klog_text l)" "kl_size l' = kl_size l"
      using read_loop_ok [of l 1] l by blast
    then show ?thesis using l unfolding l'(1) by (cases "klog_text l") simp_all
  qed
qed

interpretation lg: fifo "\<lambda>l. klog_ok l \<and> kl_size l = KLOG_BUFFER_SIZE" klog_text KLOG_BUFFER_SIZE klog_write_char_internal
    "\<lambda>l. case read_loop 1 l of (l', c # _) \<Rightarrow> Some (c, l') | _ \<Rightarrow> None"
  by (rule klog_fifo)

text \<open>Waking a list of readers.\<close>

lemma wake_readers_ok:
  assumes "queues_ok s qs" "tlist (ss_heap s) p rs" "\<forall>r \<in> set rs. wakeable s qs r" "has_room s qs (length rs)" "c < length (ss_cpus s)"
  shows "\<exists>s' qs'. wake_readers c p s = Some s' \<and> queues_ok s' qs' \<and> queued s' qs' = set rs \<union> queued s qs
    \<and> length (ss_cpus s') = length (ss_cpus s) \<and> (\<forall>d < length (ss_cpus s). cs_current (ss_cpus s' ! d) = cs_current (ss_cpus s ! d))
    \<and> (\<forall>y. y \<notin> set rs \<union> queued s qs \<longrightarrow> ss_heap s' y = ss_heap s y)"
  using assms
proof (induction rs arbitrary: p s qs)
  case Nil
  then have "p = NULL" by simp
  then have "wake_readers c p s = Some s" by (simp add: wake_readers.simps)
  then show ?case using Nil by auto
next
  case (Cons r rs)
  let ?s = "upd_task r (\<lambda>t. t\<lparr>t_next := NULL\<rparr>) s"
  have p: "p = r" "r \<noteq> NULL" "tlist (ss_heap s) (t_next (ss_heap s r)) rs" "r \<notin> set rs" using Cons.prems(2) tlist_distinct [OF Cons.prems(2)] by auto
  have w: "wakeable s qs r" "r \<notin> queued s qs" using Cons.prems(3) by (auto simp: wakeable_def)
  have ok: "queues_ok ?s qs" by (rule upd_task_queues [OF Cons.prems(1) w(2)])
  have w1: "wakeable ?s qs r" "has_room ?s qs (Suc (length rs))" using w Cons.prems(4) by (simp_all add: wakeable_def has_room_def)
  let ?qs = "woken (ss_heap ?s) qs c r"
  have c1: "c < length (ss_cpus ?s)" using Cons.prems(5) by simp
  from unblock_ok [OF ok c1 w1] obtain s1 where u: "sched_unblock_on r c ?s = Some s1" "queues_ok s1 ?qs" "queued s1 ?qs = insert r (queued ?s qs)"
    "has_room s1 ?qs (length rs)" "length (ss_cpus s1) = length (ss_cpus ?s)" "\<forall>d < length (ss_cpus ?s). cs_current (ss_cpus s1 ! d) = cs_current (ss_cpus ?s ! d)"
    "\<forall>y. y \<notin> insert r (queued ?s qs) \<longrightarrow> ss_heap s1 y = ss_heap ?s y" by blast
  then have s1: "sched_unblock_on r c ?s = Some s1" "queues_ok s1 ?qs" "queued s1 ?qs = insert r (queued s qs)" "has_room s1 ?qs (length rs)"
    "length (ss_cpus s1) = length (ss_cpus s)" "\<forall>d < length (ss_cpus s). cs_current (ss_cpus s1 ! d) = cs_current (ss_cpus s ! d)"
    "\<forall>y. y \<notin> insert r (queued s qs) \<longrightarrow> ss_heap s1 y = ss_heap s y" by simp_all
  have same: "ss_heap s1 y = ss_heap s y" if "y \<in> set rs" for y
  proof -
    have "y \<noteq> r" "y \<notin> queued s qs" using that p(4) Cons.prems(3) by (auto simp: wakeable_def)
    then show ?thesis using s1(7) by simp
  qed
  have t1: "tlist (ss_heap s1) (t_next (ss_heap s r)) rs" using p(3) same tlist_cong [of rs "ss_heap s1" "ss_heap s"] by simp
  have w2: "\<forall>y \<in> set rs. wakeable s1 ?qs y"
  proof
    fix y assume y: "y \<in> set rs"
    then have "y \<noteq> r" "wakeable s qs y" using p(4) Cons.prems(3) by auto
    then show "wakeable s1 ?qs y" using same [OF y] s1(3) by (simp add: wakeable_def)
  qed
  obtain s' qs' where s': "wake_readers c (t_next (ss_heap s r)) s1 = Some s'" "queues_ok s' qs'" "queued s' qs' = set rs \<union> queued s1 ?qs"
    "length (ss_cpus s') = length (ss_cpus s1)" "\<forall>d < length (ss_cpus s1). cs_current (ss_cpus s' ! d) = cs_current (ss_cpus s1 ! d)"
    "\<forall>y. y \<notin> set rs \<union> queued s1 ?qs \<longrightarrow> ss_heap s' y = ss_heap s1 y"
    using Cons.IH [OF s1(2) t1 w2 s1(4)] Cons.prems(5) s1(5) by auto
  have "wake_readers c p s = Some s'" using p s1(1) s'(1) by (subst wake_readers.simps) (simp add: sched_unblock_def Let_def)
  moreover have "\<forall>y. y \<notin> set (r # rs) \<union> queued s qs \<longrightarrow> ss_heap s' y = ss_heap s y" using s'(6) s1(3,7) by simp
  ultimately show ?case using s' s1 by (intro exI [of _ s'] exI [of _ qs']) simp
qed

lemma write_all_ok:
  "klog_ok l \<Longrightarrow> klog_ok (fold klog_write_char_internal cs l) \<and> kl_size (fold klog_write_char_internal cs l) = kl_size l
    \<and> klog_text (fold klog_write_char_internal cs l) = last_n (kl_size l) (klog_text l @ cs)
    \<and> waiting_readers (fold klog_write_char_internal cs l) = waiting_readers l
    \<and> dropped_messages (fold klog_write_char_internal cs l) = (dropped_messages l \<or> length (klog_text l) + length cs > kl_size l)"
proof (induction cs arbitrary: l)
  case Nil
  then show ?case using last_n_short [of "klog_text l" "kl_size l"] by (simp add: klog_ok_def klog_text_def)
next
  case (Cons c cs)
  note w = write_internal_ok [OF Cons.prems, of c]
  have k: "length (klog_text l) = kl_count l" "kl_count l \<le> kl_size l" using Cons.prems by (simp_all add: klog_text_def klog_ok_def)
  have "kl_count l = kl_size l \<or> length (last_n (kl_size l) (klog_text l @ [c])) + length cs > kl_size l
      \<longleftrightarrow> kl_count l + length (c # cs) > kl_size l" using k by (cases cs) (auto simp: min_def)
  then show ?case using Cons.IH [of "klog_write_char_internal c l"] w last_n_append [of "kl_size l" "klog_text l @ [c]" cs] k(1) by auto
qed

text \<open>A log of eight characters.\<close>

definition demo_log :: KernelLogBuffer where
  "demo_log = \<lparr>kl_buffer = replicate 8 (CHR ''.''), kl_size = 8, kl_head = 3, kl_tail = 3, kl_count = 0, dropped_messages = False,
     waiting_readers = NULL, klog_initialized = True\<rparr>"

lemma demo_log_ok: "klog_ok demo_log" "klog_text demo_log = []" "kl_size demo_log = 8"
  by (simp_all add: klog_ok_def klog_text_def demo_log_def)

section \<open>Properties\<close>

text \<open>C29: the log keeps the newest characters: after writing a string, however long, it holds the last characters of what it held
  followed by the string, as many as fit, and says that something was dropped exactly when it did not all fit; reading then returns
  the oldest characters first and removes them.\<close>

theorem klog_refines_text:
  assumes ok: "klog_ok l" and args: "dest \<noteq> NULL" "0 < n" "klog_text l @ str \<noteq> []"
  shows "let l1 = klog_write_string str l; held = last_n (kl_size l) (klog_text l @ str)
    in klog_ok l1 \<and> klog_text l1 = held \<and> klog_available l1 = length held
     \<and> dropped_messages l1 = (dropped_messages l \<or> length (klog_text l) + length str > kl_size l)
     \<and> (\<exists>l2. klog_read t dest n l1 s = (l2, s, Read (take n held)) \<and> klog_ok l2 \<and> klog_text l2 = drop n held)"
proof -
  let ?l1 = "klog_write_string str l" and ?held = "last_n (kl_size l) (klog_text l @ str)"
  have l1: "?l1 = fold klog_write_char_internal str l" using ok by (simp add: klog_write_string_def klog_ok_def)
  note w = write_all_ok [OF ok, of str]
  have sz: "0 < kl_size l" using ok by (simp add: klog_ok_def)
  have ok1: "klog_ok ?l1" "klog_text ?l1 = ?held" using w l1 by simp_all
  have av: "kl_count ?l1 = length ?held" using ok1(2) by (metis klog_text_def length_ring)
  have "0 < length (klog_text l @ str)" using args(3) by (simp only: length_greater_0_conv not_False_eq_True)
  then have pos: "0 < kl_count ?l1" using av sz by simp
  have ini: "klog_initialized ?l1" using ok1(1) by (simp add: klog_ok_def)
  obtain l2 where l2: "read_loop n ?l1 = (l2, take n ?held)" "klog_ok l2" "klog_text l2 = drop n ?held"
    using read_loop_ok [OF ok1(1), of n] ok1(2) by auto
  have "klog_read t dest n ?l1 s = (l2, s, Read (take n ?held))" using ini args pos l2(1) by (simp add: klog_read_def)
  then show ?thesis using ok1 av ini w l1 l2 by (auto simp: Let_def klog_available_def)
qed

theorem klog_refines_text_witness:
  "klog_text (klog_write_string ''kernel log'' demo_log) = ''rnel log'' \<and> dropped_messages (klog_write_string ''kernel log'' demo_log)"
  using klog_refines_text [OF demo_log_ok(1), of 1 1 "''kernel log''"] demo_log_ok by (simp add: Let_def last_n_def)

text \<open>C30: writing a character makes every waiting reader ready: each is put on the run queue of the writing CPU and is no longer on the list of
  waiting readers, and nothing else changes in the run queues and on the CPUs.\<close>

theorem klog_write_char_wakes:
  assumes ok: "klog_ok l" "sched_ok s qs" and c: "c < length (ss_cpus s)"
    and rs: "tlist (ss_heap s) (waiting_readers l) rs" "\<forall>r \<in> set rs. waiter_ok s qs r" and room: "has_room s qs (length rs)"
  shows "\<exists>l' s' qs'. klog_write_char c ch l s = Some (l', s') \<and> klog_ok l' \<and> klog_text l' = last_n (kl_size l) (klog_text l @ [ch])
    \<and> waiting_readers l' = NULL \<and> sched_ok s' qs' \<and> queued s' qs' = set rs \<union> queued s qs
    \<and> (\<forall>r \<in> set rs. t_state (ss_heap s' r) = TASK_STATE_READY)"
proof -
  let ?l = "klog_write_char_internal ch l"
  note w = write_internal_ok [OF ok(1), of ch]
  have wk: "\<forall>r \<in> set rs. wakeable s qs r" "\<forall>r \<in> set rs. \<forall>d < length (ss_cpus s). cs_current (ss_cpus s ! d) \<noteq> r"
    using rs(2) by (auto simp: waiter_ok_def)
  have q: "queues_ok s qs" "currents_ok s qs" using ok(2) by (simp_all add: sched_ok_def)
  obtain s' qs' where s': "wake_readers c (waiting_readers l) s = Some s'" "queues_ok s' qs'" "queued s' qs' = set rs \<union> queued s qs"
    "length (ss_cpus s') = length (ss_cpus s)" "\<forall>d < length (ss_cpus s). cs_current (ss_cpus s' ! d) = cs_current (ss_cpus s ! d)"
    using wake_readers_ok [OF q(1) rs(1) wk(1) room c] by blast
  have cur: "currents_ok s' qs'" using q(2) s'(3-5) wk(2) by (auto simp: currents_ok_def)
  have rd: "t_state (ss_heap s' r) = TASK_STATE_READY" if "r \<in> set rs" for r
  proof -
    have "r \<in> queued s' qs'" using that s'(3) by simp
    then obtain d dl where d: "d < length (ss_cpus s')" "dl \<in> valid_classes" "r \<in> set (qs' d dl)" by (auto elim: queuedE)
    then show ?thesis using queues_okD(1) [OF s'(2) d(1,2)] by (simp add: queue_ok_def)
  qed
  have "klog_write_char c ch l s = Some (?l\<lparr>waiting_readers := NULL\<rparr>, s')"
    using ok(1) w s'(1) by (simp add: klog_write_char_def klog_ok_def Let_def)
  moreover have "klog_ok (?l\<lparr>waiting_readers := NULL\<rparr>)" "klog_text (?l\<lparr>waiting_readers := NULL\<rparr>) = klog_text ?l" using w by (simp_all add: klog_ok_def klog_text_def)
  ultimately show ?thesis using w s' cur rd by (intro exI [of _ "?l\<lparr>waiting_readers := NULL\<rparr>"] exI [of _ s'] exI [of _ qs']) (simp add: sched_ok_def)
qed

definition demo_reader :: sched_state where
  "demo_reader = demo_sched\<lparr>ss_heap := (ss_heap demo_sched)(0x3000 := demo_task TASK_STATE_BLOCKED 2)\<rparr>"

theorem klog_write_char_wakes_witness:
  "\<exists>l' s'. klog_write_char 0 (CHR ''a'') (demo_log\<lparr>waiting_readers := 0x3000\<rparr>) demo_reader = Some (l', s') \<and> klog_text l' = ''a''
     \<and> t_state (ss_heap s' 0x3000) = TASK_STATE_READY"
proof -
  have q: "queued demo_sched demo_qs = {0x2000}" by (simp add: queued_def cpu_tasks_def demo_sched_def demo_qs_def lessThan_Suc)
  then have so: "sched_ok demo_reader demo_qs" unfolding demo_reader_def by (intro heap_change_ok [OF demo_sched_ok]) simp
  have q2: "queued demo_reader demo_qs = {0x2000}" using q by (simp add: demo_reader_def queued_def)
  have w: "\<forall>r \<in> set [0x3000]. waiter_ok demo_reader demo_qs r" using q2
    by (simp add: waiter_ok_def wakeable_def) (simp add: demo_reader_def demo_task_def demo_sched_def)
  have tl: "tlist (ss_heap demo_reader) (waiting_readers (demo_log\<lparr>waiting_readers := 0x3000\<rparr>)) [0x3000]" by (simp add: demo_reader_def demo_task_def)
  have rm: "has_room demo_reader demo_qs (length [0x3000 :: u64])" by (simp add: has_room_def cpu_tasks_def demo_qs_def demo_reader_def demo_sched_def)
  have ok: "klog_ok (demo_log\<lparr>waiting_readers := 0x3000\<rparr>)" "klog_text (demo_log\<lparr>waiting_readers := 0x3000\<rparr>) = []" "kl_size demo_log = 8"
    by (simp_all add: klog_ok_def klog_text_def demo_log_def)
  have c: "0 < length (ss_cpus demo_reader)" by (simp add: demo_reader_def demo_sched_def)
  show ?thesis using klog_write_char_wakes [OF ok(1) so c tl w rm, of "CHR ''a''"] ok(2,3) by (auto simp: last_n_def)
qed

text \<open>A reader releases the log's lock before it blocks. When a writer on another CPU comes in between, it finds a reader that is still the
  current task of its CPU and puts it on its own run queue: the task is then current on one CPU and queued on another.\<close>

lemma klog_read_race:
  assumes ok: "klog_ok l" "kl_count l = 0" "waiting_readers l = NULL" "sched_ok s qs" and c: "c < length (ss_cpus s)" "d < length (ss_cpus s)"
    and t: "t = cs_current (ss_cpus s ! c)" "t \<noteq> NULL" "t_class (ss_heap s t) \<noteq> TASK_CLASS_INVALID" and args: "dest \<noteq> NULL" "0 < n" and room: "has_room s qs 1"
  shows "\<exists>l1 s1 l2 s2 qs2. klog_read t dest n l s = (l1, s1, Must_wait) \<and> klog_write_char d ch l1 s1 = Some (l2, s2)
    \<and> queues_ok s2 qs2 \<and> cs_current (ss_cpus s2 ! c) = t \<and> t \<in> queued s2 qs2 \<and> \<not> sched_ok s2 qs2"
proof -
  let ?l = "l\<lparr>waiting_readers := t\<rparr>" and ?s = "upd_task t (\<lambda>t. t\<lparr>t_next := NULL\<rparr>) s"
  have q: "queues_ok s qs" "t \<notin> queued s qs" using ok(4) c(1) t(1) by (auto simp: sched_ok_def currents_ok_def)
  have r: "klog_read t dest n l s = (?l, ?s, Must_wait)" using ok args by (simp add: klog_read_def klog_ok_def)
  have okl: "klog_ok ?l" using ok(1) by (simp add: klog_ok_def)
  note w = write_internal_ok [OF okl, of ch]
  have qs: "queues_ok ?s qs" by (rule upd_task_queues [OF q])
  have wk: "\<forall>r \<in> set [t]. wakeable ?s qs r" "has_room ?s qs (length [t])" "tlist (ss_heap ?s) t [t]" "d < length (ss_cpus ?s)"
    using q(2) t room c(2) by (simp_all add: wakeable_def has_room_def)
  obtain s2 qs2 where s2: "wake_readers d t ?s = Some s2" "queues_ok s2 qs2" "queued s2 qs2 = set [t] \<union> queued ?s qs"
    "length (ss_cpus s2) = length (ss_cpus ?s)" "\<forall>e < length (ss_cpus ?s). cs_current (ss_cpus s2 ! e) = cs_current (ss_cpus ?s ! e)"
    using wake_readers_ok [OF qs wk(3,1,2,4)] by blast
  have cur: "cs_current (ss_cpus s2 ! c) = t" "t \<in> queued s2 qs2" using s2(3,5) c(1) t(1) by simp_all
  then have "\<not> sched_ok s2 qs2" using c(1) s2(4) by (auto simp: sched_ok_def currents_ok_def)
  moreover have "klog_write_char d ch ?l ?s = Some ((klog_write_char_internal ch ?l)\<lparr>waiting_readers := NULL\<rparr>, s2)"
    using w s2(1) ok(1) by (simp add: klog_write_char_def klog_ok_def Let_def)
  ultimately show ?thesis using r s2(2) cur by blast
qed

end
