(* ===== verification/Msi.thy ===== *)
theory Msi
  imports Ring Sched_Wait
begin

text \<open>
  Message signalled interrupts of devices, \<^verbatim>\<open>kernel/arch/x86_64/msi.c\<close>, with the registry of CPUs, \<^verbatim>\<open>kernel/smp/state.c\<close>, their targets are taken from. A vector
  belongs to a process, has a queue of four events and at most one waiting task. The manager is read and written under \<^verbatim>\<open>msi_lock\<close>; an operation that
  wakes tasks does so after releasing it, and waiting for an interrupt is two definitions, up to the switch and from the resumption. The time,
  the process of a task and the local APIC of a CPU are arguments. The counters that only grow are words of their width; indices are naturals.
\<close>

section \<open>CPUs\<close>

definition MAX_CPU_COUNT :: nat where
  "MAX_CPU_COUNT = 16"

record cpu_registry =
  cpu_states :: "ptr list"
  cpu_count :: u8

definition state_register_cpu :: "u8 \<Rightarrow> ptr \<Rightarrow> cpu_registry \<Rightarrow> cpu_registry" where
  "state_register_cpu cpu_num state r = r\<lparr>cpu_states := (cpu_states r)[unat cpu_num := state], cpu_count := cpu_count r + 1\<rparr>"

definition state_get_cpu_count :: "cpu_registry \<Rightarrow> u8" where
  "state_get_cpu_count r = cpu_count r"

definition state_get_for_any_cpu :: "u8 \<Rightarrow> cpu_registry \<Rightarrow> ptr" where
  "state_get_for_any_cpu cpu_num r = cpu_states r ! unat cpu_num"

section \<open>Data\<close>

definition MSI_VECTOR_BASE :: nat where
  "MSI_VECTOR_BASE = 0x40"

definition MSI_VECTOR_TOP :: nat where
  "MSI_VECTOR_TOP = 0xDF"

definition MSI_VECTOR_COUNT :: nat where
  "MSI_VECTOR_COUNT = MSI_VECTOR_TOP - MSI_VECTOR_BASE + 1"

definition MSI_QUEUE_SIZE :: nat where
  "MSI_QUEUE_SIZE = 4"

definition MSI_TIMEOUT_MS :: u64 where
  "MSI_TIMEOUT_MS = 100"

record MSIEvent =
  ev_data :: u32
  ev_timestamp_ms :: u64

record MSIDevice =
  dv_vector :: u8
  dv_bus_device_func :: u32
  dv_owner_pid :: u64
  dv_queue :: "MSIEvent list"
  dv_head :: nat
  dv_tail :: nat
  dv_count :: nat
  dv_last_event_ms :: u64
  dv_overflow_count :: u32
  dv_slow_consumer :: bool
  dv_waiting_task :: ptr
  dv_total_events :: u64

record MSIManager =
  mm_devices :: "MSIDevice list"
  mm_allocated :: "bool list"
  mm_next_vector_hint :: nat

definition MSI_INDEX :: "u8 \<Rightarrow> nat" where
  "MSI_INDEX v = unat v - MSI_VECTOR_BASE"

definition MSI_VALID :: "u8 \<Rightarrow> bool" where
  "MSI_VALID v \<longleftrightarrow> unat v \<ge> MSI_VECTOR_BASE \<and> unat v \<le> MSI_VECTOR_TOP"

definition upd_device :: "nat \<Rightarrow> (MSIDevice \<Rightarrow> MSIDevice) \<Rightarrow> MSIManager \<Rightarrow> MSIManager" where
  "upd_device i f m = m\<lparr>mm_devices := (mm_devices m)[i := f (mm_devices m ! i)]\<rparr>"

section \<open>Operations\<close>

definition msi_queue_push :: "u32 \<Rightarrow> u64 \<Rightarrow> MSIDevice \<Rightarrow> MSIDevice" where
  "msi_queue_push data now d =
     d\<lparr>dv_queue := (dv_queue d)[dv_head d := \<lparr>ev_data = data, ev_timestamp_ms = now\<rparr>],
       dv_head := (dv_head d + 1) mod MSI_QUEUE_SIZE, dv_count := dv_count d + 1,
       dv_last_event_ms := now, dv_total_events := dv_total_events d + 1\<rparr>"

definition msi_queue_pop :: "MSIDevice \<Rightarrow> (u32 \<times> MSIDevice) option" where
  "msi_queue_pop d =
     (if dv_count d = 0 then None
      else Some (ev_data (dv_queue d ! dv_tail d),
                 d\<lparr>dv_tail := (dv_tail d + 1) mod MSI_QUEUE_SIZE, dv_count := dv_count d - 1\<rparr>))"

text \<open>The loop of \<^verbatim>\<open>msi_init\<close> over freshly allocated memory, which holds any devices.\<close>

definition msi_init :: "MSIManager \<Rightarrow> MSIManager" where
  "msi_init m =
     \<lparr>mm_devices = map (\<lambda>d. d\<lparr>dv_vector := 0, dv_bus_device_func := 0, dv_owner_pid := 0, dv_head := 0, dv_tail := 0, dv_count := 0,
         dv_last_event_ms := 0, dv_overflow_count := 0, dv_slow_consumer := False, dv_waiting_task := NULL, dv_total_events := 0\<rparr>) (mm_devices m),
      mm_allocated = replicate MSI_VECTOR_COUNT False, mm_next_vector_hint = 0\<rparr>"

text \<open>The search for a free vector, by the vectors left to try: it starts at the hint and goes round once.\<close>

fun find_vector :: "nat \<Rightarrow> nat \<Rightarrow> bool list \<Rightarrow> nat option" where
  "find_vector 0 i allocated = None"
| "find_vector (Suc n) i allocated =
     (if \<not> allocated ! i then Some i else find_vector n ((i + 1) mod MSI_VECTOR_COUNT) allocated)"

definition msi_target :: "cpu_registry \<Rightarrow> ptr \<Rightarrow> nat \<Rightarrow> ptr" where
  "msi_target r this_cpu i =
     (let cpu_count = state_get_cpu_count r;
          target_cpu = (if cpu_count \<noteq> 0 then of_nat i mod ucast cpu_count else (0 :: u32));
          target_state = state_get_for_any_cpu (ucast target_cpu) r
      in if target_state = NULL then this_cpu else target_state)"

text \<open>The result is the vector (0 when there is none), with the address and data for the device when there is one.\<close>

definition msi_allocate_vector :: "cpu_registry \<Rightarrow> (ptr \<Rightarrow> u64) \<Rightarrow> ptr \<Rightarrow> u64 \<Rightarrow> u32 \<Rightarrow> u64 \<Rightarrow> MSIManager \<Rightarrow> MSIManager \<times> u8 \<times> (u64 \<times> u32) option" where
  "msi_allocate_vector r lapic_id this_cpu now bus_device_func owner_pid m =
     (case find_vector MSI_VECTOR_COUNT (mm_next_vector_hint m) (mm_allocated m) of
        None \<Rightarrow> (m, 0, None)
      | Some i \<Rightarrow>
          let vector = of_nat (MSI_VECTOR_BASE + i) :: u8;
              m = upd_device i (\<lambda>d. d\<lparr>dv_vector := vector, dv_bus_device_func := bus_device_func, dv_owner_pid := owner_pid,
                    dv_head := 0, dv_tail := 0, dv_count := 0, dv_last_event_ms := now, dv_overflow_count := 0,
                    dv_slow_consumer := False, dv_waiting_task := NULL, dv_total_events := 0\<rparr>) m;
              m = m\<lparr>mm_allocated := (mm_allocated m)[i := True], mm_next_vector_hint := (i + 1) mod MSI_VECTOR_COUNT\<rparr>;
              target_state = msi_target r this_cpu i;
              apic_id = (if target_state \<noteq> NULL then ucast (lapic_id target_state) else 0 :: u8)
          in (m, vector, Some (0xFEE00000 OR push_bit 12 (ucast apic_id), ucast vector)))"

text \<open>What happens to a vector that is given back: the manager, and the task to wake.\<close>

definition release_vector :: "nat \<Rightarrow> MSIManager \<Rightarrow> MSIManager \<times> ptr" where
  "release_vector i m =
     ((upd_device i (\<lambda>d. d\<lparr>dv_waiting_task := NULL, dv_vector := 0, dv_owner_pid := 0\<rparr>) m)\<lparr>mm_allocated := (mm_allocated m)[i := False]\<rparr>,
      dv_waiting_task (mm_devices m ! i))"

definition wake :: "nat \<Rightarrow> ptr \<Rightarrow> sched_state \<Rightarrow> sched_state option" where
  "wake cpu to_wake s = (if to_wake \<noteq> NULL then sched_unblock cpu to_wake s else Some s)"

definition msi_deallocate_vector :: "nat \<Rightarrow> u8 \<Rightarrow> u64 \<Rightarrow> MSIManager \<Rightarrow> sched_state \<Rightarrow> (MSIManager \<times> sched_state \<times> bool) option" where
  "msi_deallocate_vector cpu vector owner_pid m s =
     (if \<not> MSI_VALID vector then Some (m, s, False)
      else let idx = MSI_INDEX vector
           in if \<not> mm_allocated m ! idx \<or> dv_owner_pid (mm_devices m ! idx) \<noteq> owner_pid then Some (m, s, False)
              else let (m, to_wake) = release_vector idx m in map_option (\<lambda>s. (m, s, True)) (wake cpu to_wake s))"

definition msi_register_handler :: "u8 \<Rightarrow> ptr \<Rightarrow> (ptr \<Rightarrow> u64) \<Rightarrow> MSIManager \<Rightarrow> bool" where
  "msi_register_handler vector task pid_of m =
     (if \<not> MSI_VALID vector \<or> task = NULL then False
      else mm_allocated m ! MSI_INDEX vector \<and> dv_owner_pid (mm_devices m ! MSI_INDEX vector) = pid_of task)"

datatype msi_wait = Fails | Event u32 | Blocks sched_outcome

text \<open>Waiting, up to the switch; and the end of it, which runs at once when there is an event and after the switch back otherwise.\<close>

definition msi_wait_finish :: "u8 \<Rightarrow> MSIManager \<Rightarrow> MSIManager \<times> u32 option" where
  "msi_wait_finish vector m =
     (case msi_queue_pop (mm_devices m ! MSI_INDEX vector) of
        None \<Rightarrow> (m, None)
      | Some (data, d) \<Rightarrow> (upd_device (MSI_INDEX vector) (\<lambda>_. d) m, Some data))"

definition msi_wait_interrupt :: "nat \<Rightarrow> u8 \<Rightarrow> ptr \<Rightarrow> ptr \<Rightarrow> (ptr \<Rightarrow> u64) \<Rightarrow> MSIManager \<Rightarrow> sched_state \<Rightarrow> (MSIManager \<times> msi_wait) option" where
  "msi_wait_interrupt cpu vector task event_data pid_of m s =
     (if \<not> MSI_VALID vector \<or> task = NULL \<or> event_data = NULL then Some (m, Fails)
      else let idx = MSI_INDEX vector; dev = mm_devices m ! idx
           in if \<not> mm_allocated m ! idx \<or> dv_owner_pid dev \<noteq> pid_of task \<or> dv_slow_consumer dev then Some (m, Fails)
              else if dv_count dev = 0
              then map_option (\<lambda>r. (upd_device idx (\<lambda>d. d\<lparr>dv_waiting_task := task\<rparr>) m, Blocks r)) (sched_schedule cpu (sched_block task s))
              else case msi_wait_finish vector m of
                     (m, None) \<Rightarrow> Some (m, Fails)
                   | (m, Some data) \<Rightarrow> Some (m, Event data))"

text \<open>The part of the interrupt handler under the lock: the manager, and the task to wake.\<close>

definition msi_deliver :: "u64 \<Rightarrow> nat \<Rightarrow> u32 \<Rightarrow> MSIManager \<Rightarrow> MSIManager \<times> ptr" where
  "msi_deliver now idx data m =
     (let dev = mm_devices m ! idx
      in if dv_count dev \<ge> MSI_QUEUE_SIZE
         then (upd_device idx (\<lambda>d. d\<lparr>dv_overflow_count := dv_overflow_count d + 1,
                  dv_slow_consumer := (dv_slow_consumer d \<or> now - dv_last_event_ms d > MSI_TIMEOUT_MS)\<rparr>) m, NULL)
         else (upd_device idx (\<lambda>d. (msi_queue_push data now d)\<lparr>dv_waiting_task := NULL\<rparr>) m, dv_waiting_task dev))"

definition msi_handle_interrupt :: "nat \<Rightarrow> u64 \<Rightarrow> u8 \<Rightarrow> u32 \<Rightarrow> MSIManager \<Rightarrow> sched_state \<Rightarrow> (MSIManager \<times> sched_state) option" where
  "msi_handle_interrupt cpu now vector data m s =
     (if \<not> MSI_VALID vector then Some (m, s)
      else let idx = MSI_INDEX vector
           in if \<not> mm_allocated m ! idx then Some (m, s)
              else let (m, to_wake) = msi_deliver now idx data m in map_option (Pair m) (wake cpu to_wake s))"

text \<open>The loop of \<^verbatim>\<open>msi_cleanup_process\<close> over the vectors, with the tasks to wake in order.\<close>

fun cleanup_loop :: "u64 \<Rightarrow> nat list \<Rightarrow> MSIManager \<Rightarrow> MSIManager \<times> ptr list" where
  "cleanup_loop pid [] m = (m, [])"
| "cleanup_loop pid (i # js) m =
     (if mm_allocated m ! i \<and> dv_owner_pid (mm_devices m ! i) = pid
      then let (m, t) = release_vector i m; (m, ts) = cleanup_loop pid js m
           in (m, if t \<noteq> NULL then t # ts else ts)
      else cleanup_loop pid js m)"

fun wake_all :: "nat \<Rightarrow> ptr list \<Rightarrow> sched_state \<Rightarrow> sched_state option" where
  "wake_all cpu [] s = Some s"
| "wake_all cpu (t # ts) s = (case sched_unblock cpu t s of None \<Rightarrow> None | Some s \<Rightarrow> wake_all cpu ts s)"

definition msi_cleanup_process :: "nat \<Rightarrow> u64 \<Rightarrow> MSIManager \<Rightarrow> sched_state \<Rightarrow> (MSIManager \<times> sched_state) option" where
  "msi_cleanup_process cpu pid m s =
     (let (m, wake_list) = cleanup_loop pid [0..<MSI_VECTOR_COUNT] m in map_option (Pair m) (wake_all cpu wake_list s))"

definition msi_is_slow_consumer :: "u8 \<Rightarrow> MSIManager \<Rightarrow> bool" where
  "msi_is_slow_consumer vector m = (MSI_VALID vector \<and> dv_slow_consumer (mm_devices m ! MSI_INDEX vector))"

definition msi_verify_ownership :: "u8 \<Rightarrow> u64 \<Rightarrow> MSIManager \<Rightarrow> bool" where
  "msi_verify_ownership vector pid m =
     (MSI_VALID vector \<and> mm_allocated m ! MSI_INDEX vector \<and> dv_owner_pid (mm_devices m ! MSI_INDEX vector) = pid)"

section \<open>Invariant and abstraction\<close>

definition dev_ok :: "MSIDevice \<Rightarrow> bool" where
  "dev_ok d \<longleftrightarrow> length (dv_queue d) = MSI_QUEUE_SIZE \<and> dv_tail d < MSI_QUEUE_SIZE \<and> dv_count d \<le> MSI_QUEUE_SIZE
     \<and> dv_head d = (dv_tail d + dv_count d) mod MSI_QUEUE_SIZE"

definition dev_events :: "MSIDevice \<Rightarrow> u32 list" where
  "dev_events d = map ev_data (ring (dv_queue d) (dv_tail d) (dv_count d))"

definition mgr_ok :: "MSIManager \<Rightarrow> bool" where
  "mgr_ok m \<longleftrightarrow> length (mm_devices m) = MSI_VECTOR_COUNT \<and> length (mm_allocated m) = MSI_VECTOR_COUNT \<and> mm_next_vector_hint m < MSI_VECTOR_COUNT
     \<and> (\<forall>i < MSI_VECTOR_COUNT. dev_ok (mm_devices m ! i) \<and> (mm_allocated m ! i \<longrightarrow> dv_vector (mm_devices m ! i) = of_nat (MSI_VECTOR_BASE + i)))"

lemma count_160: "MSI_VECTOR_COUNT = 160"
  by (simp add: MSI_VECTOR_COUNT_def MSI_VECTOR_TOP_def MSI_VECTOR_BASE_def)

lemma queue_size_4: "MSI_QUEUE_SIZE = 4"
  by (simp add: MSI_QUEUE_SIZE_def)

lemma mgr_okD:
  assumes "mgr_ok m"
  shows "length (mm_devices m) = MSI_VECTOR_COUNT" "length (mm_allocated m) = MSI_VECTOR_COUNT" "mm_next_vector_hint m < MSI_VECTOR_COUNT"
    "i < MSI_VECTOR_COUNT \<Longrightarrow> dev_ok (mm_devices m ! i)"
    "i < MSI_VECTOR_COUNT \<Longrightarrow> mm_allocated m ! i \<Longrightarrow> dv_vector (mm_devices m ! i) = of_nat (MSI_VECTOR_BASE + i)"
  using assms unfolding mgr_ok_def by blast+

lemma index_less: "MSI_VALID v \<Longrightarrow> MSI_INDEX v < MSI_VECTOR_COUNT"
  unfolding MSI_VALID_def MSI_INDEX_def count_160 MSI_VECTOR_BASE_def MSI_VECTOR_TOP_def by linarith

lemma vector_of_index:
  assumes "i < MSI_VECTOR_COUNT"
  shows "MSI_VALID (of_nat (MSI_VECTOR_BASE + i))" "MSI_INDEX (of_nat (MSI_VECTOR_BASE + i)) = i"
proof -
  have "unat (of_nat (MSI_VECTOR_BASE + i) :: u8) = MSI_VECTOR_BASE + i"
  proof -
    have "take_bit 8 (MSI_VECTOR_BASE + i) = MSI_VECTOR_BASE + i" using assms by (simp add: take_bit_nat_eq_self count_160 MSI_VECTOR_BASE_def)
    then show ?thesis by (simp only: unsigned_of_nat len_num1 len_bit0 len_num0 semiring_norm mult_num_simps) (simp add: unsigned_of_nat)
  qed
  then show "MSI_VALID (of_nat (MSI_VECTOR_BASE + i))" "MSI_INDEX (of_nat (MSI_VECTOR_BASE + i)) = i"
    using assms by (simp_all add: MSI_VALID_def MSI_INDEX_def count_160) (simp add: MSI_VECTOR_BASE_def MSI_VECTOR_TOP_def)
qed

text \<open>The queue of a vector is a queue of four events.\<close>

lemma device_fifo: "fifo dev_ok dev_events MSI_QUEUE_SIZE (\<lambda>x. msi_queue_push x now) msi_queue_pop"
proof
  fix d :: MSIDevice and x
  assume d: "dev_ok d" "length (dev_events d) < MSI_QUEUE_SIZE"
  let ?e = "\<lparr>ev_data = x, ev_timestamp_ms = now\<rparr>"
  have "((dv_tail d + dv_count d) mod MSI_QUEUE_SIZE + 1) mod MSI_QUEUE_SIZE = (dv_tail d + Suc (dv_count d)) mod MSI_QUEUE_SIZE" by (simp add: mod_simps)
  moreover have "ring ((dv_queue d)[dv_head d := ?e]) (dv_tail d) (Suc (dv_count d)) = ring (dv_queue d) (dv_tail d) (dv_count d) @ [?e]"
    using ring_push [of "dv_count d" "dv_queue d" "dv_tail d" ?e] d by (simp add: dev_ok_def dev_events_def)
  ultimately show "dev_ok (msi_queue_push x now d) \<and> dev_events (msi_queue_push x now d) = dev_events d @ [x]"
    using d by (simp add: dev_ok_def dev_events_def msi_queue_push_def)
next
  fix d :: MSIDevice
  assume d: "dev_ok d"
  show "case dev_events d of [] \<Rightarrow> msi_queue_pop d = None | x # xs \<Rightarrow> \<exists>d'. msi_queue_pop d = Some (x, d') \<and> dev_ok d' \<and> dev_events d' = xs"
  proof (cases "dv_count d")
    case 0
    then show ?thesis by (simp add: dev_events_def msi_queue_pop_def)
  next
    case (Suc k)
    have "((dv_tail d + 1) mod MSI_QUEUE_SIZE + k) mod MSI_QUEUE_SIZE = (dv_tail d + Suc k) mod MSI_QUEUE_SIZE" by (simp add: mod_simps)
    moreover have "0 < MSI_QUEUE_SIZE" by (simp add: queue_size_4)
    ultimately show ?thesis using d Suc ring_Suc [of "dv_queue d" "dv_tail d" k] by (simp add: dev_ok_def dev_events_def msi_queue_pop_def)
  qed
qed

interpretation mq: fifo dev_ok dev_events MSI_QUEUE_SIZE "\<lambda>x. msi_queue_push x now" msi_queue_pop for now
  by (rule device_fifo)

lemma find_vector_Some: "find_vector n i al = Some j \<Longrightarrow> i < MSI_VECTOR_COUNT \<Longrightarrow> j < MSI_VECTOR_COUNT \<and> \<not> al ! j"
proof (induction n arbitrary: i)
  case (Suc n)
  have "(i + 1) mod MSI_VECTOR_COUNT < MSI_VECTOR_COUNT" by (simp add: count_160)
  then show ?case using Suc by (auto split: if_splits)
qed simp

lemma find_vector_None: "find_vector n i al = None \<longleftrightarrow> (\<forall>k < n. al ! ((i + k) mod MSI_VECTOR_COUNT))" if "i < MSI_VECTOR_COUNT"
  using that
proof (induction n arbitrary: i)
  case (Suc n)
  have "(i + 1) mod MSI_VECTOR_COUNT < MSI_VECTOR_COUNT" by (simp add: count_160)
  then have IH: "find_vector n ((i + 1) mod MSI_VECTOR_COUNT) al = None \<longleftrightarrow> (\<forall>k < n. al ! ((i + Suc k) mod MSI_VECTOR_COUNT))"
    using Suc.IH [of "(i + 1) mod MSI_VECTOR_COUNT"] by (simp add: mod_simps)
  show ?case using IH Suc.prems by (simp add: All_less_Suc2)
qed simp

lemma find_vector_all:
  assumes "i < MSI_VECTOR_COUNT"
  shows "find_vector MSI_VECTOR_COUNT i al = None \<longleftrightarrow> (\<forall>j < MSI_VECTOR_COUNT. al ! j)"
proof -
  have "\<exists>k < MSI_VECTOR_COUNT. (i + k) mod MSI_VECTOR_COUNT = j" if "j < MSI_VECTOR_COUNT" for j
  proof (cases "i \<le> j")
    case True
    then show ?thesis using that by (intro exI [of _ "j - i"]) simp
  next
    case False
    then have "i + (MSI_VECTOR_COUNT + j - i) = MSI_VECTOR_COUNT + j" "MSI_VECTOR_COUNT + j - i < MSI_VECTOR_COUNT" using that assms by simp_all
    then show ?thesis using that by (intro exI [of _ "MSI_VECTOR_COUNT + j - i"]) simp
  qed
  moreover have "(i + k) mod MSI_VECTOR_COUNT < MSI_VECTOR_COUNT" for k by (simp add: count_160)
  ultimately show ?thesis unfolding find_vector_None [OF assms] by metis
qed

text \<open>Changing one vector.\<close>

lemma upd_device_simps [simp]:
  "mm_allocated (upd_device i f m) = mm_allocated m" "mm_next_vector_hint (upd_device i f m) = mm_next_vector_hint m"
  "length (mm_devices (upd_device i f m)) = length (mm_devices m)"
  "i < length (mm_devices m) \<Longrightarrow> mm_devices (upd_device i f m) ! j = (if j = i then f (mm_devices m ! i) else mm_devices m ! j)"
  by (simp_all add: upd_device_def nth_list_update)

lemma upd_device_ok:
  assumes "mgr_ok m" "i < MSI_VECTOR_COUNT" "dev_ok (f (mm_devices m ! i))" "dv_vector (f (mm_devices m ! i)) = dv_vector (mm_devices m ! i)"
  shows "mgr_ok (upd_device i f m)"
proof -
  note o = mgr_okD [OF assms(1)]
  have "mm_devices (upd_device i f m) ! j = (if j = i then f (mm_devices m ! i) else mm_devices m ! j)" for j using o(1) assms(2) by simp
  then show ?thesis unfolding mgr_ok_def using o assms by simp
qed

section \<open>Each operation keeps the manager well formed\<close>

lemma msi_init_ok:
  assumes "length (mm_devices m) = MSI_VECTOR_COUNT" "\<forall>d \<in> set (mm_devices m). length (dv_queue d) = MSI_QUEUE_SIZE"
  shows "mgr_ok (msi_init m)"
  using assms by (auto simp: mgr_ok_def msi_init_def dev_ok_def queue_size_4 count_160)

lemma release_ok:
  assumes ok: "mgr_ok m" and i: "i < MSI_VECTOR_COUNT"
  shows "mgr_ok (fst (release_vector i m))" "mm_allocated (fst (release_vector i m)) = (mm_allocated m)[i := False]"
    "j \<noteq> i \<Longrightarrow> mm_devices (fst (release_vector i m)) ! j = mm_devices m ! j" "snd (release_vector i m) = dv_waiting_task (mm_devices m ! i)"
proof -
  note o = mgr_okD [OF ok]
  let ?m = "fst (release_vector i m)"
  have d: "mm_devices ?m ! j = (if j = i then (mm_devices m ! i)\<lparr>dv_waiting_task := NULL, dv_vector := 0, dv_owner_pid := 0\<rparr> else mm_devices m ! j)" for j
    using o(1) i by (simp add: release_vector_def)
  show al: "mm_allocated ?m = (mm_allocated m)[i := False]" "snd (release_vector i m) = dv_waiting_task (mm_devices m ! i)" by (simp_all add: release_vector_def)
  show "j \<noteq> i \<Longrightarrow> mm_devices ?m ! j = mm_devices m ! j" using d by simp
  have "dev_ok (mm_devices ?m ! j)" if "j < MSI_VECTOR_COUNT" for j using d o(4) [OF that] by (cases "j = i") (simp_all add: dev_ok_def)
  moreover have "dv_vector (mm_devices ?m ! j) = of_nat (MSI_VECTOR_BASE + j)" if "j < MSI_VECTOR_COUNT" "(mm_allocated m)[i := False] ! j" for j
    using that d o(2) o(5) [OF that(1)] by (auto simp: nth_list_update split: if_splits)
  moreover have "length (mm_devices ?m) = MSI_VECTOR_COUNT" "length (mm_allocated ?m) = MSI_VECTOR_COUNT" "mm_next_vector_hint ?m < MSI_VECTOR_COUNT"
    using o by (simp_all add: release_vector_def)
  ultimately show "mgr_ok ?m" unfolding mgr_ok_def by (simp add: al(1))
qed

lemma deliver_ok:
  assumes ok: "mgr_ok m" and i: "i < MSI_VECTOR_COUNT" and ev: "msi_deliver now i data m = (m', t)"
  shows "mgr_ok m' \<and> mm_allocated m' = mm_allocated m \<and> (\<forall>j. j \<noteq> i \<longrightarrow> mm_devices m' ! j = mm_devices m ! j)
    \<and> dv_owner_pid (mm_devices m' ! i) = dv_owner_pid (mm_devices m ! i)
    \<and> (if length (dev_events (mm_devices m ! i)) < MSI_QUEUE_SIZE
       then dev_events (mm_devices m' ! i) = dev_events (mm_devices m ! i) @ [data] \<and> t = dv_waiting_task (mm_devices m ! i)
         \<and> dv_waiting_task (mm_devices m' ! i) = NULL \<and> dv_slow_consumer (mm_devices m' ! i) = dv_slow_consumer (mm_devices m ! i)
       else dev_events (mm_devices m' ! i) = dev_events (mm_devices m ! i) \<and> t = NULL
         \<and> dv_overflow_count (mm_devices m' ! i) = dv_overflow_count (mm_devices m ! i) + 1
         \<and> dv_slow_consumer (mm_devices m' ! i) = (dv_slow_consumer (mm_devices m ! i) \<or> now - dv_last_event_ms (mm_devices m ! i) > MSI_TIMEOUT_MS))"
proof -
  let ?d = "mm_devices m ! i"
  note o = mgr_okD [OF ok]
  have d: "dev_ok ?d" using o(4) [OF i] .
  have il: "i < length (mm_devices m)" using o(1) i by simp
  have len: "length (dev_events ?d) = dv_count ?d" by (simp add: dev_events_def)
  show ?thesis
  proof (cases "dv_count ?d \<ge> MSI_QUEUE_SIZE")
    case True
    let ?f = "\<lambda>d. d\<lparr>dv_overflow_count := dv_overflow_count d + 1, dv_slow_consumer := (dv_slow_consumer d \<or> now - dv_last_event_ms d > MSI_TIMEOUT_MS)\<rparr>"
    have m': "m' = upd_device i ?f m" "t = NULL" using ev True by (simp_all add: msi_deliver_def Let_def)
    have "mgr_ok m'" unfolding m'(1) using d by (intro upd_device_ok [OF ok i]) (simp_all add: dev_ok_def)
    then show ?thesis using True len m' il by (simp add: dev_events_def)
  next
    case False
    let ?f = "\<lambda>d. (msi_queue_push data now d)\<lparr>dv_waiting_task := NULL\<rparr>"
    have m': "m' = upd_device i ?f m" "t = dv_waiting_task ?d" using ev False by (simp_all add: msi_deliver_def Let_def)
    have p: "dev_ok (msi_queue_push data now ?d)" "dev_events (msi_queue_push data now ?d) = dev_events ?d @ [data]"
      using mq.push_law [OF d] False len by simp_all
    have q: "dev_ok (?f ?d)" "dev_events (?f ?d) = dev_events ?d @ [data]" using p by (simp_all add: dev_ok_def dev_events_def)
    have "mgr_ok m'" unfolding m'(1) using q(1) by (intro upd_device_ok [OF ok i]) (simp_all add: msi_queue_push_def)
    then show ?thesis using False len m' il q(2) by (simp add: msi_queue_push_def)
  qed
qed

lemma msi_allocate_ok:
  assumes ok: "mgr_ok m" and ev: "msi_allocate_vector r lapic this_cpu now bdf pid m = (m', v, a)"
  shows "mgr_ok m' \<and> (if \<forall>i < MSI_VECTOR_COUNT. mm_allocated m ! i then m' = m \<and> v = 0 \<and> a = None
    else MSI_VALID v \<and> \<not> mm_allocated m ! MSI_INDEX v \<and> mm_allocated m' = (mm_allocated m)[MSI_INDEX v := True]
      \<and> dv_owner_pid (mm_devices m' ! MSI_INDEX v) = pid \<and> dev_events (mm_devices m' ! MSI_INDEX v) = []
      \<and> dv_waiting_task (mm_devices m' ! MSI_INDEX v) = NULL \<and> \<not> dv_slow_consumer (mm_devices m' ! MSI_INDEX v)
      \<and> (\<forall>j. j \<noteq> MSI_INDEX v \<longrightarrow> mm_devices m' ! j = mm_devices m ! j)
      \<and> (\<exists>apic :: u8. a = Some (0xFEE00000 OR push_bit 12 (ucast apic), ucast v)))"
proof (cases "find_vector MSI_VECTOR_COUNT (mm_next_vector_hint m) (mm_allocated m)")
  case None
  then have "\<forall>i < MSI_VECTOR_COUNT. mm_allocated m ! i" using find_vector_all [OF mgr_okD(3) [OF ok]] by blast
  moreover have "m' = m" "v = 0" "a = None" using ev None by (simp_all add: msi_allocate_vector_def)
  ultimately show ?thesis using ok by simp
next
  case (Some i)
  note o = mgr_okD [OF ok]
  have i: "i < MSI_VECTOR_COUNT" "\<not> mm_allocated m ! i" using find_vector_Some [OF Some o(3)] by simp_all
  have ne: "\<not> (\<forall>i < MSI_VECTOR_COUNT. mm_allocated m ! i)" using i by blast
  note vi = vector_of_index [OF i(1)]
  define f :: "MSIDevice \<Rightarrow> MSIDevice" where "f = (\<lambda>d. d\<lparr>dv_vector := of_nat (MSI_VECTOR_BASE + i), dv_bus_device_func := bdf, dv_owner_pid := pid,
                    dv_head := 0, dv_tail := 0, dv_count := 0, dv_last_event_ms := now, dv_overflow_count := 0,
                    dv_slow_consumer := False, dv_waiting_task := NULL, dv_total_events := 0\<rparr>)"
  have m': "m' = (upd_device i f m)\<lparr>mm_allocated := (mm_allocated m)[i := True], mm_next_vector_hint := (i + 1) mod MSI_VECTOR_COUNT\<rparr>"
    "v = of_nat (MSI_VECTOR_BASE + i)" "\<exists>apic :: u8. a = Some (0xFEE00000 OR push_bit 12 (ucast apic), ucast v)"
    using ev Some by (auto simp: msi_allocate_vector_def Let_def f_def)
  have d: "mm_devices m' ! j = (if j = i then f (mm_devices m ! i) else mm_devices m ! j)" for j using m'(1) o(1) i(1) by simp
  have fi: "dev_ok (f (mm_devices m ! i))" "dev_events (f (mm_devices m ! i)) = []" "dv_owner_pid (f (mm_devices m ! i)) = pid"
    "dv_waiting_task (f (mm_devices m ! i)) = NULL" "\<not> dv_slow_consumer (f (mm_devices m ! i))" "dv_vector (f (mm_devices m ! i)) = of_nat (MSI_VECTOR_BASE + i)"
    using o(4) [OF i(1)] by (simp_all add: f_def dev_ok_def dev_events_def queue_size_4)
  have "(i + 1) mod MSI_VECTOR_COUNT < MSI_VECTOR_COUNT" by (simp add: count_160)
  moreover have "dev_ok (mm_devices m' ! j)" if "j < MSI_VECTOR_COUNT" for j using d fi(1) o(4) [OF that] by simp
  moreover have "dv_vector (mm_devices m' ! j) = of_nat (MSI_VECTOR_BASE + j)" if "j < MSI_VECTOR_COUNT" "mm_allocated m' ! j" for j
    using that d fi(6) o(2) o(5) [OF that(1)] m'(1) by (auto simp: nth_list_update split: if_splits)
  ultimately have "mgr_ok m'" unfolding mgr_ok_def using m'(1) o by simp
  moreover have "MSI_VALID v" "MSI_INDEX v = i" "mm_allocated m' = (mm_allocated m)[i := True]" using vi m'(1,2) by simp_all
  ultimately show ?thesis unfolding if_not_P [OF ne] using i(2) m'(3) d fi by simp
qed

lemma finish_ok:
  assumes ok: "mgr_ok m" and v: "MSI_VALID v" and ev: "msi_wait_finish v m = (m', r)"
  shows "mgr_ok m' \<and> mm_allocated m' = mm_allocated m \<and> (\<forall>j. dv_owner_pid (mm_devices m' ! j) = dv_owner_pid (mm_devices m ! j))
    \<and> (\<forall>j. j \<noteq> MSI_INDEX v \<longrightarrow> mm_devices m' ! j = mm_devices m ! j)
    \<and> (case dev_events (mm_devices m ! MSI_INDEX v) of [] \<Rightarrow> r = None \<and> m' = m | x # xs \<Rightarrow> r = Some x \<and> dev_events (mm_devices m' ! MSI_INDEX v) = xs)"
proof -
  let ?i = "MSI_INDEX v"
  have i: "?i < MSI_VECTOR_COUNT" by (rule index_less [OF v])
  have il: "?i < length (mm_devices m)" using i mgr_okD(1) [OF ok] by simp
  have d: "dev_ok (mm_devices m ! ?i)" by (rule mgr_okD(4) [OF ok i])
  show ?thesis
  proof (cases "dev_events (mm_devices m ! ?i)")
    case Nil
    then have "msi_queue_pop (mm_devices m ! ?i) = None" using mq.pop_law [OF d] by simp
    then show ?thesis using ev ok Nil by (simp add: msi_wait_finish_def)
  next
    case (Cons x xs)
    then obtain d' where d': "msi_queue_pop (mm_devices m ! ?i) = Some (x, d')" "dev_ok d'" "dev_events d' = xs" using mq.pop_law [OF d] by auto
    then have same: "dv_vector d' = dv_vector (mm_devices m ! ?i)" "dv_owner_pid d' = dv_owner_pid (mm_devices m ! ?i)"
      by (auto simp: msi_queue_pop_def split: if_splits)
    have m': "m' = upd_device ?i (\<lambda>_. d') m" "r = Some x" using ev d'(1) by (simp_all add: msi_wait_finish_def)
    have "mgr_ok m'" unfolding m'(1) using d'(2) same(1) by (intro upd_device_ok [OF ok i]) simp_all
    then show ?thesis using m' il d'(3) Cons same(2) by simp
  qed
qed

section \<open>Runs\<close>

text \<open>What can happen to the manager: a process takes or gives back a vector, a device interrupts, a task waits or comes back from waiting, a
  process ends.\<close>

datatype msi_action = Allocate u64 | Deallocate u8 u64 | Interrupt u8 | Wait u8 | Resume u8 | Cleanup u64

inductive msi_step :: "msi_action \<Rightarrow> MSIManager \<Rightarrow> MSIManager \<Rightarrow> bool" where
  alloc: "msi_allocate_vector r lapic this_cpu now bdf pid m = (m', v, a) \<Longrightarrow> msi_step (Allocate pid) m m'"
| dealloc: "msi_deallocate_vector cpu v pid m s = Some (m', s', b) \<Longrightarrow> msi_step (Deallocate v pid) m m'"
| interrupt: "msi_handle_interrupt cpu now v data m s = Some (m', s') \<Longrightarrow> msi_step (Interrupt v) m m'"
| wait: "msi_wait_interrupt cpu v task e pid_of m s = Some (m', w) \<Longrightarrow> msi_step (Wait v) m m'"
| resume: "MSI_VALID v \<Longrightarrow> msi_wait_finish v m = (m', r) \<Longrightarrow> msi_step (Resume v) m m'"
| cleanup: "msi_cleanup_process cpu pid m s = Some (m', s') \<Longrightarrow> msi_step (Cleanup pid) m m'"

inductive msi_run :: "msi_action list \<Rightarrow> MSIManager \<Rightarrow> MSIManager \<Rightarrow> bool" where
  stop: "msi_run [] m m"
| more: "msi_step a m m1 \<Longrightarrow> msi_run as m1 m' \<Longrightarrow> msi_run (a # as) m m'"

text \<open>What a step keeps of a vector's owner.\<close>

definition keeps_owner :: "nat \<Rightarrow> MSIManager \<Rightarrow> MSIManager \<Rightarrow> bool" where
  "keeps_owner i m m' \<longleftrightarrow> mm_allocated m ! i \<longrightarrow> mm_allocated m' ! i \<and> dv_owner_pid (mm_devices m' ! i) = dv_owner_pid (mm_devices m ! i)"

lemma dealloc_ok:
  assumes ok: "mgr_ok m" and ev: "msi_deallocate_vector cpu v pid m s = Some (m', s', b)"
  shows "mgr_ok m' \<and> b = msi_verify_ownership v pid m \<and> (if b then m' = fst (release_vector (MSI_INDEX v) m) else m' = m)"
proof (cases "msi_verify_ownership v pid m")
  case False
  then show ?thesis using ev ok by (auto simp: msi_deallocate_vector_def msi_verify_ownership_def Let_def split: if_splits)
next
  case True
  then have "m' = fst (release_vector (MSI_INDEX v) m)" "b"
    using ev by (auto simp: msi_deallocate_vector_def msi_verify_ownership_def Let_def split: prod.splits)
  then show ?thesis using release_ok(1) [OF ok] index_less True by (simp add: msi_verify_ownership_def)
qed

lemma cleanup_loop_ok:
  assumes "mgr_ok m" "\<forall>i \<in> set js. i < MSI_VECTOR_COUNT" "cleanup_loop pid js m = (m', ts)" "distinct js"
  shows "mgr_ok m' \<and> (\<forall>j < MSI_VECTOR_COUNT. if j \<in> set js \<and> mm_allocated m ! j \<and> dv_owner_pid (mm_devices m ! j) = pid then \<not> mm_allocated m' ! j
      else mm_allocated m' ! j = mm_allocated m ! j \<and> mm_devices m' ! j = mm_devices m ! j)
    \<and> ts = filter (\<lambda>t. t \<noteq> NULL) (map (\<lambda>j. dv_waiting_task (mm_devices m ! j)) (filter (\<lambda>j. mm_allocated m ! j \<and> dv_owner_pid (mm_devices m ! j) = pid) js))"
  using assms
proof (induction js arbitrary: m ts)
  case (Cons i js)
  have il: "i < MSI_VECTOR_COUNT" using Cons.prems(2) by simp
  show ?case
  proof (cases "mm_allocated m ! i \<and> dv_owner_pid (mm_devices m ! i) = pid")
    case False
    then have "cleanup_loop pid js m = (m', ts)" using Cons.prems(3) by auto
    then show ?thesis using Cons.IH [of m ts] Cons.prems False by auto
  next
    case True
    let ?m = "fst (release_vector i m)" and ?t = "dv_waiting_task (mm_devices m ! i)"
    note r = release_ok [OF Cons.prems(1) il]
    obtain ts1 where ts1: "cleanup_loop pid js ?m = (m', ts1)" "ts = (if ?t \<noteq> NULL then ?t # ts1 else ts1)"
      using Cons.prems(3) True r(4) by (auto simp: Let_def split: prod.splits)
    have al: "mm_allocated ?m ! j = (j \<noteq> i \<and> mm_allocated m ! j)" if "j < MSI_VECTOR_COUNT" for j
      using r(2) that il mgr_okD(2) [OF Cons.prems(1)] by (simp add: nth_list_update)
    have IH: "mgr_ok m' \<and> (\<forall>j < MSI_VECTOR_COUNT. if j \<in> set js \<and> mm_allocated ?m ! j \<and> dv_owner_pid (mm_devices ?m ! j) = pid then \<not> mm_allocated m' ! j
      else mm_allocated m' ! j = mm_allocated ?m ! j \<and> mm_devices m' ! j = mm_devices ?m ! j)
      \<and> ts1 = filter (\<lambda>t. t \<noteq> NULL) (map (\<lambda>j. dv_waiting_task (mm_devices ?m ! j)) (filter (\<lambda>j. mm_allocated ?m ! j \<and> dv_owner_pid (mm_devices ?m ! j) = pid) js))"
      using Cons.IH [OF r(1) _ ts1(1)] Cons.prems(2,4) by simp
    have dv: "mm_devices ?m ! j = mm_devices m ! j" if "j \<in> set js" for j using r(3) [of j] that Cons.prems(4) by auto
    have fl: "filter (\<lambda>j. mm_allocated ?m ! j \<and> dv_owner_pid (mm_devices ?m ! j) = pid) js
        = filter (\<lambda>j. mm_allocated m ! j \<and> dv_owner_pid (mm_devices m ! j) = pid) js"
      using al dv Cons.prems(2,4) by (intro filter_cong) auto
    have mp: "map (\<lambda>j. dv_waiting_task (mm_devices ?m ! j)) (filter P js) = map (\<lambda>j. dv_waiting_task (mm_devices m ! j)) (filter P js)" for P
      using dv by (intro map_cong) auto
    have "ts = filter (\<lambda>t. t \<noteq> NULL) (map (\<lambda>j. dv_waiting_task (mm_devices m ! j)) (filter (\<lambda>j. mm_allocated m ! j \<and> dv_owner_pid (mm_devices m ! j) = pid) (i # js)))"
      using IH ts1(2) True unfolding fl mp by simp
    moreover have "if j \<in> set (i # js) \<and> mm_allocated m ! j \<and> dv_owner_pid (mm_devices m ! j) = pid then \<not> mm_allocated m' ! j
      else mm_allocated m' ! j = mm_allocated m ! j \<and> mm_devices m' ! j = mm_devices m ! j" if "j < MSI_VECTOR_COUNT" for j
    proof (cases "j = i")
      case j: True
      then have "\<not> mm_allocated m' ! j" using IH al that Cons.prems(4) by (metis distinct.simps(2))
      then show ?thesis using j True by simp
    next
      case False
      then have "mm_devices ?m ! j = mm_devices m ! j" "mm_allocated ?m ! j = mm_allocated m ! j" using r(3) al that by simp_all
      then show ?thesis using IH that False by simp
    qed
    ultimately show ?thesis using IH by blast
  qed
qed simp

lemma cleanup_ok:
  assumes ok: "mgr_ok m" and ev: "msi_cleanup_process cpu pid m s = Some (m', s')"
  shows "mgr_ok m' \<and> (\<forall>j < MSI_VECTOR_COUNT. if mm_allocated m ! j \<and> dv_owner_pid (mm_devices m ! j) = pid then \<not> mm_allocated m' ! j
      else mm_allocated m' ! j = mm_allocated m ! j \<and> mm_devices m' ! j = mm_devices m ! j)"
proof -
  obtain ts where "cleanup_loop pid [0..<MSI_VECTOR_COUNT] m = (m', ts)" using ev by (auto simp: msi_cleanup_process_def split: prod.splits)
  from cleanup_loop_ok [OF ok _ this] show ?thesis by simp
qed

lemma wait_ok:
  assumes ok: "mgr_ok m" and ev: "msi_wait_interrupt cpu v task e pid_of m s = Some (m', w)"
  shows "mgr_ok m' \<and> mm_allocated m' = mm_allocated m \<and> (\<forall>j. dv_owner_pid (mm_devices m' ! j) = dv_owner_pid (mm_devices m ! j))"
proof -
  let ?i = "MSI_INDEX v"
  consider "m' = m" | "MSI_VALID v" "m' = upd_device ?i (\<lambda>d. d\<lparr>dv_waiting_task := task\<rparr>) m" | r where "MSI_VALID v" "msi_wait_finish v m = (m', r)"
    using ev by (auto simp: msi_wait_interrupt_def Let_def split: if_splits prod.splits option.splits)
  then show ?thesis
  proof cases
    case 1
    then show ?thesis using ok by simp
  next
    case 2
    have i: "?i < MSI_VECTOR_COUNT" by (rule index_less [OF 2(1)])
    then have "mgr_ok m'" unfolding 2(2) using mgr_okD(4) [OF ok i] by (intro upd_device_ok [OF ok]) (simp_all add: dev_ok_def)
    then show ?thesis using 2(2) i mgr_okD(1) [OF ok] by simp
  next
    case 3
    then show ?thesis using finish_ok [OF ok 3] by simp
  qed
qed

lemma interrupt_step:
  assumes ok: "mgr_ok m" and ev: "msi_handle_interrupt cpu now v data m s = Some (m', s')"
  shows "m' = m \<or> (MSI_VALID v \<and> mm_allocated m ! MSI_INDEX v \<and> (\<exists>t. msi_deliver now (MSI_INDEX v) data m = (m', t)))"
  using ev by (auto simp: msi_handle_interrupt_def Let_def split: if_splits prod.splits)

text \<open>One step: the manager stays well formed, and a vector keeps its owner unless the owner gives it back or ends.\<close>

lemma msi_step_ok:
  assumes "msi_step a m m'" "mgr_ok m"
  shows "mgr_ok m' \<and> (\<forall>i < MSI_VECTOR_COUNT. keeps_owner i m m' \<or> a = Cleanup (dv_owner_pid (mm_devices m ! i))
    \<or> (\<exists>v. a = Deallocate v (dv_owner_pid (mm_devices m ! i)) \<and> MSI_INDEX v = i \<and> MSI_VALID v))"
  using assms
proof (cases rule: msi_step.cases)
  case (alloc r lapic this_cpu now bdf pid v a)
  note al = msi_allocate_ok [OF assms(2) alloc(2)]
  have "keeps_owner i m m'" if "i < MSI_VECTOR_COUNT" for i
  proof (cases "\<forall>i < MSI_VECTOR_COUNT. mm_allocated m ! i")
    case True
    then show ?thesis using al by (simp add: keeps_owner_def)
  next
    case False
    then show ?thesis using al unfolding if_not_P [OF False] by (cases "i = MSI_INDEX v") (simp_all add: keeps_owner_def)
  qed
  then show ?thesis using al by blast
next
  case (dealloc cpu v pid s s' b)
  note de = dealloc_ok [OF assms(2) dealloc(2)]
  have "keeps_owner i m m' \<or> (MSI_INDEX v = i \<and> MSI_VALID v \<and> pid = dv_owner_pid (mm_devices m ! i))" if "i < MSI_VECTOR_COUNT" for i
  proof (cases "b \<and> MSI_INDEX v = i")
    case True
    then show ?thesis using de unfolding msi_verify_ownership_def by blast
  next
    case False
    have "keeps_owner i m m'"
    proof (cases b)
      case True
      then have v: "MSI_VALID v" "m' = fst (release_vector (MSI_INDEX v) m)" "i \<noteq> MSI_INDEX v" using de False by (auto simp: msi_verify_ownership_def)
      show ?thesis using release_ok(2,3) [OF assms(2) index_less [OF v(1)]] v(2,3) by (simp add: keeps_owner_def)
    qed (use de in \<open>simp add: keeps_owner_def\<close>)
    then show ?thesis ..
  qed
  then show ?thesis using de dealloc(1) by blast
next
  case (interrupt cpu now v data s s')
  show ?thesis
  proof (cases "m' = m")
    case True
    then show ?thesis using assms(2) by (simp add: keeps_owner_def)
  next
    case False
    then obtain t where d: "MSI_VALID v" "msi_deliver now (MSI_INDEX v) data m = (m', t)" using interrupt_step [OF assms(2) interrupt(2)] by blast
    note de = deliver_ok [OF assms(2) index_less [OF d(1)] d(2)]
    have "keeps_owner i m m'" for i using de by (cases "i = MSI_INDEX v") (simp_all add: keeps_owner_def)
    then show ?thesis using de by blast
  qed
next
  case (wait cpu v task e pid_of s w)
  then show ?thesis using wait_ok [OF assms(2) wait(2)] by (simp add: keeps_owner_def)
next
  case (resume v r)
  then show ?thesis using finish_ok [OF assms(2) resume(2,3)] by (simp add: keeps_owner_def)
next
  case (cleanup cpu pid s s')
  note cl = cleanup_ok [OF assms(2) cleanup(2)]
  have "keeps_owner i m m' \<or> pid = dv_owner_pid (mm_devices m ! i)" if "i < MSI_VECTOR_COUNT" for i using cl that by (auto simp: keeps_owner_def split: if_splits)
  then show ?thesis using cl cleanup(1) by blast
qed

definition demo_device :: MSIDevice where
  "demo_device = \<lparr>dv_vector = 0, dv_bus_device_func = 0, dv_owner_pid = 0, dv_queue = replicate 4 \<lparr>ev_data = 0, ev_timestamp_ms = 0\<rparr>, dv_head = 0,
     dv_tail = 0, dv_count = 0, dv_last_event_ms = 0, dv_overflow_count = 0, dv_slow_consumer = False, dv_waiting_task = NULL, dv_total_events = 0\<rparr>"

definition demo_msi :: MSIManager where
  "demo_msi = msi_init \<lparr>mm_devices = replicate 160 demo_device, mm_allocated = [], mm_next_vector_hint = 0\<rparr>"

lemma demo_msi_ok: "mgr_ok demo_msi"
  unfolding demo_msi_def by (rule msi_init_ok) (simp_all add: count_160 queue_size_4 demo_device_def)

lemma demo_msi_free: "\<not> (\<forall>i < MSI_VECTOR_COUNT. mm_allocated demo_msi ! i)"
proof -
  have "\<not> mm_allocated demo_msi ! 0" "0 < MSI_VECTOR_COUNT" by (simp_all add: demo_msi_def msi_init_def count_160)
  then show ?thesis by blast
qed

section \<open>Properties\<close>

text \<open>C28: from initialisation on, through any sequence of allocations, releases, interrupts, waits and ends of processes, the table of vectors stays well formed:
  its size and indices are in range, every event queue is a valid circular buffer and every allocated slot carries its own vector number.\<close>

theorem msi_run_well_formed:
  assumes "length (mm_devices m0) = MSI_VECTOR_COUNT" "\<forall>d \<in> set (mm_devices m0). length (dv_queue d) = MSI_QUEUE_SIZE"
    and "msi_run acts (msi_init m0) m"
  shows "mgr_ok m"
proof -
  have "msi_run acts m1 m \<Longrightarrow> mgr_ok m1 \<Longrightarrow> mgr_ok m" for m1
  proof (induction acts m1 m rule: msi_run.induct)
    case (more a m m1 acts m')
    then show ?case using msi_step_ok by blast
  qed
  then show ?thesis using assms(3) msi_init_ok [OF assms(1,2)] by blast
qed

theorem msi_run_well_formed_witness: "\<exists>m. msi_run [Allocate 7] demo_msi m \<and> mgr_ok m"
proof -
  obtain m v a where e: "msi_allocate_vector \<lparr>cpu_states = replicate 16 0, cpu_count = 1\<rparr> (\<lambda>_. 0) 0 5 0 7 demo_msi = (m, v, a)" by (metis prod.collapse)
  have m: "msi_run [Allocate 7] demo_msi m" by (rule msi_run.more [OF msi_step.alloc [OF e] msi_run.stop])
  show ?thesis using msi_run_well_formed [OF _ _ m [unfolded demo_msi_def]] m by (auto simp: count_160 queue_size_4 demo_device_def)
qed

text \<open>C27: a vector stays with its owner: whatever other processes and the devices do, a process keeps a vector until it gives that vector
  back or ends.\<close>

theorem msi_owner_keeps_vector:
  assumes "mgr_ok m" "msi_verify_ownership v pid m" "msi_run acts m m'" "Cleanup pid \<notin> set acts" "\<forall>w. MSI_INDEX w = MSI_INDEX v \<longrightarrow> Deallocate w pid \<notin> set acts"
  shows "msi_verify_ownership v pid m'"
  using assms(3,1,2,4,5)
proof (induction acts m m' rule: msi_run.induct)
  case (more a m m1 acts m')
  have i: "MSI_INDEX v < MSI_VECTOR_COUNT" using more.prems(2) index_less by (simp add: msi_verify_ownership_def)
  have own: "mm_allocated m ! MSI_INDEX v" "dv_owner_pid (mm_devices m ! MSI_INDEX v) = pid" "MSI_VALID v" using more.prems(2) by (simp_all add: msi_verify_ownership_def)
  note st = msi_step_ok [OF more.hyps(1) more.prems(1)]
  have "keeps_owner (MSI_INDEX v) m m1" using st i own more.prems(3,4) by auto
  then have "msi_verify_ownership v pid m1" using own by (simp add: keeps_owner_def msi_verify_ownership_def)
  then show ?case using more.IH st more.prems(3,4) by simp
qed simp

theorem msi_owner_keeps_vector_witness:
  "\<exists>m v. msi_verify_ownership v 7 m \<and> msi_run [Allocate 7] m (fst (msi_allocate_vector \<lparr>cpu_states = replicate 16 0, cpu_count = 1\<rparr> (\<lambda>_. 0) 0 5 0 7 m))
     \<and> msi_verify_ownership v 7 (fst (msi_allocate_vector \<lparr>cpu_states = replicate 16 0, cpu_count = 1\<rparr> (\<lambda>_. 0) 0 5 0 7 m))"
proof -
  let ?al = "\<lambda>m. msi_allocate_vector \<lparr>cpu_states = replicate 16 0, cpu_count = 1\<rparr> (\<lambda>_. 0) 0 5 0 7 m"
  obtain m v a where e: "?al demo_msi = (m, v, a)" by (metis prod.collapse)
  note al = msi_allocate_ok [OF demo_msi_ok e, unfolded if_not_P [OF demo_msi_free]]
  have own: "msi_verify_ownership v 7 m" using al index_less [of v] mgr_okD(2) [OF demo_msi_ok] by (simp add: msi_verify_ownership_def)
  obtain m1 v1 a1 where e1: "?al m = (m1, v1, a1)" by (metis prod.collapse)
  have "msi_run [Allocate 7] m (fst (?al m))" using e1 by (auto intro: msi_run.intros msi_step.alloc)
  then show ?thesis using msi_owner_keeps_vector [OF _ own, of "[Allocate 7]"] al own by (intro exI [of _ m] exI [of _ v]) simp
qed

text \<open>A process that asks for a vector gets one that was free, with an empty queue and nobody waiting, and the address and data a
  device needs for it; the other vectors are untouched. When all are taken the result is 0 and nothing changes.\<close>

theorem msi_allocate_vector_correct:
  assumes "mgr_ok m" "msi_allocate_vector r lapic this_cpu now bdf pid m = (m', v, a)"
  shows "if \<forall>i < MSI_VECTOR_COUNT. mm_allocated m ! i then m' = m \<and> v = 0 \<and> a = None
    else MSI_VALID v \<and> \<not> mm_allocated m ! MSI_INDEX v \<and> msi_verify_ownership v pid m'
      \<and> dev_events (mm_devices m' ! MSI_INDEX v) = [] \<and> dv_waiting_task (mm_devices m' ! MSI_INDEX v) = NULL \<and> \<not> msi_is_slow_consumer v m'
      \<and> (\<forall>j. j \<noteq> MSI_INDEX v \<longrightarrow> mm_devices m' ! j = mm_devices m ! j \<and> mm_allocated m' ! j = mm_allocated m ! j)
      \<and> (\<exists>apic :: u8. a = Some (0xFEE00000 OR push_bit 12 (ucast apic), ucast v))"
proof (cases "\<forall>i < MSI_VECTOR_COUNT. mm_allocated m ! i")
  case True
  then show ?thesis using msi_allocate_ok [OF assms] by simp
next
  case False
  note al = msi_allocate_ok [OF assms, unfolded if_not_P [OF False]]
  have "msi_verify_ownership v pid m'" using al index_less [of v] mgr_okD(2) [OF assms(1)] by (simp add: msi_verify_ownership_def)
  then show ?thesis unfolding if_not_P [OF False] using al by (simp add: msi_is_slow_consumer_def)
qed

theorem msi_allocate_vector_correct_witness:
  "\<exists>m' v a. msi_allocate_vector \<lparr>cpu_states = replicate 16 0, cpu_count = 1\<rparr> (\<lambda>_. 0) 0 5 0 7 demo_msi = (m', v, a) \<and> msi_verify_ownership v 7 m'"
proof -
  obtain m v a where e: "msi_allocate_vector \<lparr>cpu_states = replicate 16 0, cpu_count = 1\<rparr> (\<lambda>_. 0) 0 5 0 7 demo_msi = (m, v, a)" by (metis prod.collapse)
  show ?thesis using msi_allocate_vector_correct [OF demo_msi_ok e, unfolded if_not_P [OF demo_msi_free]] e by blast
qed

text \<open>An interrupt on an allocated vector with room in its queue appends its event and makes the task that waits for the vector ready, if
  there is one; when the queue is full the event is counted as lost, a consumer that has not kept up for longer than the timeout is marked, and nobody is woken.
  No other vector changes.\<close>

theorem msi_handle_interrupt_correct:
  assumes ok: "mgr_ok m" "sched_ok s qs" and c: "c < length (ss_cpus s)" and v: "MSI_VALID v" "mm_allocated m ! MSI_INDEX v"
    and d: "d = mm_devices m ! MSI_INDEX v" and t: "t = dv_waiting_task d" "t \<noteq> NULL \<longrightarrow> waiter_ok s qs t" and room: "has_room s qs 1"
  shows "\<exists>m' s' qs' d'. msi_handle_interrupt c now v data m s = Some (m', s') \<and> mgr_ok m' \<and> sched_ok s' qs' \<and> d' = mm_devices m' ! MSI_INDEX v
    \<and> (\<forall>j. j \<noteq> MSI_INDEX v \<longrightarrow> mm_devices m' ! j = mm_devices m ! j) \<and> mm_allocated m' = mm_allocated m \<and> dv_owner_pid d' = dv_owner_pid d
    \<and> (if length (dev_events d) < MSI_QUEUE_SIZE
       then dev_events d' = dev_events d @ [data] \<and> dv_waiting_task d' = NULL \<and> queued s' qs' = (if t = NULL then queued s qs else insert t (queued s qs))
         \<and> (t \<noteq> NULL \<longrightarrow> t_state (ss_heap s' t) = TASK_STATE_READY)
       else dev_events d' = dev_events d \<and> s' = s \<and> dv_overflow_count d' = dv_overflow_count d + 1
         \<and> dv_slow_consumer d' = (dv_slow_consumer d \<or> now - dv_last_event_ms d > MSI_TIMEOUT_MS))"
proof -
  obtain m' w where de: "msi_deliver now (MSI_INDEX v) data m = (m', w)" by fastforce
  note dl = deliver_ok [OF ok(1) index_less [OF v(1)] de]
  have run: "msi_handle_interrupt c now v data m s = map_option (Pair m') (wake c w s)" using v de by (simp add: msi_handle_interrupt_def)
  have q: "queues_ok s qs" "currents_ok s qs" using ok(2) by (simp_all add: sched_ok_def)
  show ?thesis
  proof (cases "w = NULL")
    case True
    then have "msi_handle_interrupt c now v data m s = Some (m', s)" using run by (simp add: wake_def)
    moreover have "t = NULL \<or> \<not> length (dev_events d) < MSI_QUEUE_SIZE" using True dl d t(1) by auto
    ultimately show ?thesis using dl ok(2) d t(1) True by (intro exI [of _ m'] exI [of _ s] exI [of _ qs] exI [of _ "mm_devices m' ! MSI_INDEX v"]) auto
  next
    case False
    then have len: "length (dev_events d) < MSI_QUEUE_SIZE" "w = t" using dl d t(1) by (auto split: if_splits)
    then have wt: "waiter_ok s qs t" "t \<noteq> NULL" using t(2) False by simp_all
    then have wk: "wakeable s qs t" "\<forall>e < length (ss_cpus s). cs_current (ss_cpus s ! e) \<noteq> t" by (simp_all add: waiter_ok_def)
    have "has_room s qs (Suc 0)" using room by simp
    from unblock_ok [OF q(1) c wk(1) this] obtain s' where s': "sched_unblock_on t c s = Some s'" "queues_ok s' (woken (ss_heap s) qs c t)"
      "queued s' (woken (ss_heap s) qs c t) = insert t (queued s qs)" "length (ss_cpus s') = length (ss_cpus s)"
      "\<forall>e < length (ss_cpus s). cs_current (ss_cpus s' ! e) = cs_current (ss_cpus s ! e)" "t_state (ss_heap s' t) = TASK_STATE_READY" by blast
    have "currents_ok s' (woken (ss_heap s) qs c t)" using q(2) s'(3-5) wk(2) by (auto simp: currents_ok_def)
    then have so: "sched_ok s' (woken (ss_heap s) qs c t)" using s'(2) by (simp add: sched_ok_def)
    have "msi_handle_interrupt c now v data m s = Some (m', s')" using run len(2) wt(2) s'(1) by (simp add: wake_def sched_unblock_def)
    then show ?thesis using dl so d len wt(2) s'(3,6)
      by (intro exI [of _ m'] exI [of _ s'] exI [of _ "woken (ss_heap s) qs c t"] exI [of _ "mm_devices m' ! MSI_INDEX v"]) simp
  qed
qed

theorem msi_handle_interrupt_correct_witness:
  "\<exists>m v m' s'. msi_handle_interrupt 0 9 v 42 m demo_sched = Some (m', s') \<and> dev_events (mm_devices m' ! MSI_INDEX v) = [42]"
proof -
  obtain m v a where e: "msi_allocate_vector \<lparr>cpu_states = replicate 16 0, cpu_count = 1\<rparr> (\<lambda>_. 0) 0 5 0 7 demo_msi = (m, v, a)" by (metis prod.collapse)
  note al = msi_allocate_ok [OF demo_msi_ok e, unfolded if_not_P [OF demo_msi_free]]
  have v: "MSI_VALID v" "mm_allocated m ! MSI_INDEX v" using al index_less [of v] mgr_okD(2) [OF demo_msi_ok] by simp_all
  have c: "0 < length (ss_cpus demo_sched)" by (simp add: demo_sched_def)
  have rm: "has_room demo_sched demo_qs 1" by (simp add: has_room_def cpu_tasks_def demo_qs_def demo_sched_def)
  have w: "NULL = dv_waiting_task (mm_devices m ! MSI_INDEX v)" "NULL \<noteq> NULL \<longrightarrow> waiter_ok demo_sched demo_qs NULL" using al by simp_all
  have "mgr_ok m" using al by simp
  from msi_handle_interrupt_correct [OF this demo_sched_ok c v refl w rm, of 9 42] show ?thesis using al queue_size_4 by auto
qed

text \<open>A task that has waited takes the next event of the vector without looking whether the vector is still its process's: after a release and an
  allocation by another process it gets the other process's event.\<close>

lemma msi_resume_takes_foreign_event:
  assumes "mgr_ok m" "MSI_VALID v" "msi_verify_ownership v other m" "other \<noteq> pid_of task" "dev_events (mm_devices m ! MSI_INDEX v) = x # xs"
  shows "\<exists>m'. msi_wait_finish v m = (m', Some x) \<and> dev_events (mm_devices m' ! MSI_INDEX v) = xs"
proof -
  obtain m' r where e: "msi_wait_finish v m = (m', r)" by fastforce
  then show ?thesis using finish_ok [OF assms(1,2) e] assms(5) by simp
qed

text \<open>A vector has one place for a waiting task: the second task that waits replaces the first, which no interrupt will wake.\<close>

lemma msi_second_waiter_replaces_first:
  assumes "mgr_ok m" "MSI_VALID v" "mm_allocated m ! MSI_INDEX v" "task \<noteq> NULL" "e \<noteq> NULL" "dv_owner_pid (mm_devices m ! MSI_INDEX v) = pid_of task"
    and "\<not> dv_slow_consumer (mm_devices m ! MSI_INDEX v)" "dv_count (mm_devices m ! MSI_INDEX v) = 0"
    and "msi_wait_interrupt cpu v task e pid_of m s = Some (m', w)"
  shows "dv_waiting_task (mm_devices m' ! MSI_INDEX v) = task"
proof -
  have "m' = upd_device (MSI_INDEX v) (\<lambda>d. d\<lparr>dv_waiting_task := task\<rparr>) m" using assms by (auto simp: msi_wait_interrupt_def Let_def)
  then show ?thesis using index_less [OF assms(2)] mgr_okD(1) [OF assms(1)] by simp
qed

end
