(* ===== verification/Process.thy ===== *)
theory Process
  imports Process_Memory Region_Tree Msi
begin

text \<open>
  Processes, their tasks and their managed resources: \<^verbatim>\<open>kernel/process/process.c\<close>, \<^verbatim>\<open>kernel/managed_resources/resources.c\<close> and the parts of
  \<^verbatim>\<open>kernel/task.c\<close> that create, remove and destroy tasks. The objects live in heaps by their addresses; a block a process is built in keeps its
  old contents until they are overwritten. The blocks the allocators return are arguments (null when they fail), and the state records which blocks are in
  use. Ending a process composes the release of its interrupt vectors, its pages and its regions. The function that frees a managed resource is
  found through a pointer in the resource and is a parameter.
\<close>

section \<open>Data\<close>

record Process =
  pr_cap_failures :: u64
  pr_pid :: u64
  pr_pml4 :: u64
  pr_tasks :: ptr
  pr_meminfo :: ptr

record ProcessMemoryInfo =
  mi_pages_lock :: ptr
  mi_res_head :: ptr
  mi_res_tail :: ptr
  mi_regions :: Region

record ProcessTask =
  ptk_next :: ptr
  ptk_task :: ptr

record ManagedResource =
  res_next :: ptr
  res_free_func :: ptr
  res_ptr :: ptr

text \<open>The fields of a task the scheduler does not use.\<close>

record TaskContext =
  tc_tid :: u64
  tc_rsp0 :: u64
  tc_ssp :: u64
  tc_owner :: ptr
  tc_pml4 :: u64

record kproc =
  kp_procs :: "ptr \<Rightarrow> Process"
  kp_infos :: "ptr \<Rightarrow> ProcessMemoryInfo"
  kp_ptasks :: "ptr \<Rightarrow> ProcessTask"
  kp_res :: "ptr \<Rightarrow> ManagedResource"
  kp_ctx :: "ptr \<Rightarrow> TaskContext"
  kp_slab :: "ptr set"
  kp_fba :: "ptr set"
  kp_words :: "u64 \<Rightarrow> u64"
  kp_next_pid :: u64
  kp_next_tid :: u64
  kp_mem :: pmem
  kp_msi :: MSIManager
  kp_sched :: sched_state

abbreviation info_of :: "kproc \<Rightarrow> ptr \<Rightarrow> ProcessMemoryInfo" where
  "info_of s p \<equiv> kp_infos s (pr_meminfo (kp_procs s p))"

definition upd_info :: "ptr \<Rightarrow> (ProcessMemoryInfo \<Rightarrow> ProcessMemoryInfo) \<Rightarrow> kproc \<Rightarrow> kproc" where
  "upd_info p f s = s\<lparr>kp_infos := (kp_infos s)(pr_meminfo (kp_procs s p) := f (info_of s p))\<rparr>"

definition slab_take :: "ptr \<Rightarrow> kproc \<Rightarrow> kproc" where
  "slab_take b s = (if b = NULL then s else s\<lparr>kp_slab := insert b (kp_slab s)\<rparr>)"

definition slab_give :: "ptr \<Rightarrow> kproc \<Rightarrow> kproc" where
  "slab_give b s = s\<lparr>kp_slab := kp_slab s - {b}\<rparr>"

section \<open>Creation\<close>

definition process_init :: "kproc \<Rightarrow> kproc" where
  "process_init s = s\<lparr>kp_next_pid := 1\<rparr>"

definition process_create :: "u64 \<Rightarrow> ptr \<Rightarrow> ptr \<Rightarrow> ptr \<Rightarrow> kproc \<Rightarrow> kproc \<times> ptr" where
  "process_create pml4 lock meminfo process s =
     (if lock = NULL then (s, NULL)
      else
        let s = slab_take lock s
        in if meminfo = NULL then (slab_give lock s, NULL)
           else
             let s = slab_take meminfo s
             in if process = NULL then (slab_give meminfo (slab_give lock s), NULL)
                else
                  let s = slab_take process s;
                      s = s\<lparr>kp_procs := (kp_procs s)(process := (kp_procs s process)\<lparr>pr_pid := kp_next_pid s, pr_pml4 := pml4,
                              pr_cap_failures := 0, pr_meminfo := meminfo\<rparr>),
                            kp_next_pid := kp_next_pid s + 1,
                            kp_infos := (kp_infos s)(meminfo := \<lparr>mi_pages_lock = lock, mi_res_head = NULL, mi_res_tail = NULL, mi_regions = NoRegion\<rparr>),
                            kp_mem := (kp_mem s)\<lparr>pm_pages := (pm_pages (kp_mem s))(process := None)\<rparr>\<rparr>
                  in (s, process))"

section \<open>Managed resources\<close>

definition process_add_managed_resource :: "ptr \<Rightarrow> ptr \<Rightarrow> kproc \<Rightarrow> kproc \<times> bool" where
  "process_add_managed_resource process r s =
     (if process = NULL \<or> r = NULL then (s, False)
      else
        let s = s\<lparr>kp_res := (kp_res s)(r := (kp_res s r)\<lparr>res_next := NULL\<rparr>)\<rparr>;
            tail = mi_res_tail (info_of s process);
            s = (if tail \<noteq> NULL then s\<lparr>kp_res := (kp_res s)(tail := (kp_res s tail)\<lparr>res_next := r\<rparr>)\<rparr>
                 else upd_info process (\<lambda>i. i\<lparr>mi_res_head := r\<rparr>) s)
        in (upd_info process (\<lambda>i. i\<lparr>mi_res_tail := r\<rparr>) s, True))"

text \<open>The walk along a list up to the first node that is looked for, with the node before it. It is the loop of
  \<^verbatim>\<open>process_remove_managed_resource\<close> and, where the node before stands for the link that leads to the node, of \<^verbatim>\<open>task_remove_from_process\<close>.\<close>

partial_function (option) find_link :: "(ptr \<Rightarrow> ptr) \<Rightarrow> (ptr \<Rightarrow> bool) \<Rightarrow> ptr \<Rightarrow> ptr \<Rightarrow> (ptr \<times> ptr) option" where
  "find_link nxt hit prev cur =
     (if cur = NULL then Some (prev, NULL)
      else if hit cur then Some (prev, cur)
      else find_link nxt hit cur (nxt cur))"

definition process_remove_managed_resource :: "ptr \<Rightarrow> ptr \<Rightarrow> kproc \<Rightarrow> (kproc \<times> bool) option" where
  "process_remove_managed_resource process r s =
     (if process = NULL \<or> r = NULL then Some (s, False)
      else case find_link (\<lambda>x. res_next (kp_res s x)) (\<lambda>x. x = r) NULL (mi_res_head (info_of s process)) of
             None \<Rightarrow> None
           | Some (prev, cur) \<Rightarrow>
               if cur = NULL then Some (s, False)
               else
                 let nxt = res_next (kp_res s cur);
                     s = (if prev \<noteq> NULL then s\<lparr>kp_res := (kp_res s)(prev := (kp_res s prev)\<lparr>res_next := nxt\<rparr>)\<rparr>
                          else upd_info process (\<lambda>i. i\<lparr>mi_res_head := nxt\<rparr>) s);
                     s = (if mi_res_tail (info_of s process) = r then upd_info process (\<lambda>i. i\<lparr>mi_res_tail := prev\<rparr>) s else s)
                 in Some (s\<lparr>kp_res := (kp_res s)(r := (kp_res s r)\<lparr>res_next := NULL\<rparr>)\<rparr>, True))"

text \<open>The next resource is read before the function that frees this one is called.\<close>

partial_function (option) managed_resources_free_all :: "(ptr \<Rightarrow> ptr \<Rightarrow> kproc \<Rightarrow> kproc) \<Rightarrow> ptr \<Rightarrow> kproc \<Rightarrow> kproc option" where
  "managed_resources_free_all free head s =
     (if head = NULL then Some s
      else let nxt = res_next (kp_res s head)
           in managed_resources_free_all free nxt (free (res_free_func (kp_res s head)) head s))"

section \<open>Tasks\<close>

definition TASK_SAVED_REGISTER_COUNT :: u64 where
  "TASK_SAVED_REGISTER_COUNT = 15"

definition push_word :: "u64 \<Rightarrow> u64 \<times> (u64 \<Rightarrow> u64) \<Rightarrow> u64 \<times> (u64 \<Rightarrow> u64)" where
  "push_word v m = (case m of (ssp, words) \<Rightarrow> (ssp - 8, words(ssp - 8 := v)))"

text \<open>The frame the first switch to a task takes its registers and its return address from.\<close>

definition initial_stack :: "u64 \<Rightarrow> u64 \<Rightarrow> u64 \<Rightarrow> u64 \<Rightarrow> (u64 \<Rightarrow> u64) \<Rightarrow> u64 \<times> (u64 \<Rightarrow> u64)" where
  "initial_stack rsp0 bootstrap sp func words =
     (let (ssp, words) = push_word bootstrap (rsp0, words);
          ssp = ssp - 8 * (TASK_SAVED_REGISTER_COUNT - 2)
      in push_word func (push_word sp (ssp, words)))"

text \<open>What the end of a switch takes off the stack it switches to: the first two argument registers, the return address after all the saved
  registers, and the stack pointer it leaves.\<close>

definition resume_frame :: "(u64 \<Rightarrow> u64) \<Rightarrow> u64 \<Rightarrow> u64 \<times> u64 \<times> u64 \<times> u64" where
  "resume_frame words ssp =
     (words ssp, words (ssp + 8), words (ssp + 8 * TASK_SAVED_REGISTER_COUNT), ssp + 8 * TASK_SAVED_REGISTER_COUNT + 8)"

text \<open>The task's page, the page of its kernel stack and the node of the process's list are arguments; the code does not look whether the
  last two were allocated.\<close>

definition task_create_new :: "ptr \<Rightarrow> u64 \<Rightarrow> u64 \<Rightarrow> u64 \<Rightarrow> u64 \<Rightarrow> TaskClass \<Rightarrow> ptr \<Rightarrow> ptr \<Rightarrow> ptr \<Rightarrow> kproc \<Rightarrow> kproc \<times> ptr" where
  "task_create_new owner sp sys_ssp bootstrap func class task stack process_task s =
     (if task = NULL then (s, NULL)
      else
        let s = s\<lparr>kp_fba := insert task (kp_fba s)\<rparr>;
            tid = kp_next_tid s;
            s = s\<lparr>kp_next_tid := kp_next_tid s + 1\<rparr>;
            rsp0 = (if sys_ssp \<noteq> 0 then sys_ssp else stack + 0x1000);
            s = (if sys_ssp \<noteq> 0 \<or> stack = NULL then s else s\<lparr>kp_fba := insert stack (kp_fba s)\<rparr>);
            (ssp, words) = initial_stack rsp0 bootstrap sp func (kp_words s);
            s = s\<lparr>kp_words := words,
                  kp_ctx := (kp_ctx s)(task := \<lparr>tc_tid = tid, tc_rsp0 = rsp0, tc_ssp = ssp, tc_owner = owner, tc_pml4 = pr_pml4 (kp_procs s owner)\<rparr>),
                  kp_sched := upd_task task (\<lambda>_. \<lparr>t_next = NULL, ts_remain = DEFAULT_TIMESLICE, t_state = TASK_STATE_READY, t_class = class,
                                 t_prio = 0, status_flags = 0\<rparr>) (kp_sched s)\<rparr>;
            s = slab_take process_task s;
            s = s\<lparr>kp_ptasks := (kp_ptasks s)(process_task := \<lparr>ptk_next = pr_tasks (kp_procs s owner), ptk_task = task\<rparr>),
                  kp_procs := (kp_procs s)(owner := (kp_procs s owner)\<lparr>pr_tasks := process_task\<rparr>)\<rparr>
        in (s, task))"

text \<open>The two entry points of new threads are addresses of machine code and arguments.\<close>

definition task_create_user :: "u64 \<Rightarrow> ptr \<Rightarrow> u64 \<Rightarrow> u64 \<Rightarrow> u64 \<Rightarrow> TaskClass \<Rightarrow> ptr \<Rightarrow> ptr \<Rightarrow> ptr \<Rightarrow> kproc \<Rightarrow> kproc \<times> ptr" where
  "task_create_user user_thread_entrypoint owner sp sys_ssp func class task stack process_task s =
     task_create_new owner sp sys_ssp user_thread_entrypoint func class task stack process_task s"

definition task_create_kernel :: "u64 \<Rightarrow> ptr \<Rightarrow> u64 \<Rightarrow> u64 \<Rightarrow> u64 \<Rightarrow> TaskClass \<Rightarrow> ptr \<Rightarrow> ptr \<Rightarrow> ptr \<Rightarrow> kproc \<Rightarrow> kproc \<times> ptr" where
  "task_create_kernel kernel_thread_entrypoint owner sp sys_ssp func class task stack process_task s =
     task_create_new owner sp sys_ssp kernel_thread_entrypoint func class task stack process_task s"

definition task_init :: "nat \<Rightarrow> kproc \<Rightarrow> kproc" where
  "task_init cpu s = s\<lparr>kp_sched := upd_cpu cpu (\<lambda>c. c\<lparr>cs_current := NULL\<rparr>) (kp_sched s), kp_next_tid := 2\<rparr>"

definition task_destroy :: "nat \<Rightarrow> ptr \<Rightarrow> kproc \<Rightarrow> kproc" where
  "task_destroy cpu task s =
     (if task = NULL then s
      else
        let s = (if cs_current (ss_cpus (kp_sched s) ! cpu) = task
                 then s\<lparr>kp_sched := upd_cpu cpu (\<lambda>c. c\<lparr>cs_current := NULL\<rparr>) (kp_sched s)\<rparr> else s)
        in s\<lparr>kp_fba := kp_fba s - {task}\<rparr>)"

definition task_remove_from_process :: "ptr \<Rightarrow> kproc \<Rightarrow> kproc option" where
  "task_remove_from_process task s =
     (let owner = tc_owner (kp_ctx s task)
      in if task = NULL \<or> owner = NULL then Some s
         else case find_link (\<lambda>x. ptk_next (kp_ptasks s x)) (\<lambda>x. ptk_task (kp_ptasks s x) = task) NULL (pr_tasks (kp_procs s owner)) of
                None \<Rightarrow> None
              | Some (prev, cur) \<Rightarrow>
                  if cur = NULL then Some s
                  else
                    let nxt = ptk_next (kp_ptasks s cur);
                        s = (if prev \<noteq> NULL then s\<lparr>kp_ptasks := (kp_ptasks s)(prev := (kp_ptasks s prev)\<lparr>ptk_next := nxt\<rparr>)\<rparr>
                             else s\<lparr>kp_procs := (kp_procs s)(owner := (kp_procs s owner)\<lparr>pr_tasks := nxt\<rparr>)\<rparr>)
                    in Some (slab_give cur s))"

section \<open>Destruction\<close>

partial_function (option) destroy_process_tasks :: "nat \<Rightarrow> ptr \<Rightarrow> kproc \<Rightarrow> kproc option" where
  "destroy_process_tasks cpu process s =
     (let node = pr_tasks (kp_procs s process)
      in if node = NULL then Some s
         else
           let s = task_destroy cpu (ptk_task (kp_ptasks s node)) s;
               nxt = ptk_next (kp_ptasks s node);
               s = slab_give node s
           in destroy_process_tasks cpu process (s\<lparr>kp_procs := (kp_procs s)(process := (kp_procs s process)\<lparr>pr_tasks := nxt\<rparr>)\<rparr>))"

definition platform_cleanup_process :: "nat \<Rightarrow> u64 \<Rightarrow> kproc \<Rightarrow> kproc option" where
  "platform_cleanup_process cpu pid s =
     (case msi_cleanup_process cpu pid (kp_msi s) (kp_sched s) of
        None \<Rightarrow> None
      | Some (m, sc) \<Rightarrow> Some (s\<lparr>kp_msi := m, kp_sched := sc\<rparr>))"

text \<open>What follows when the tasks are gone. The nodes of the region tree are values without addresses here: the tree is emptied, and the blocks its nodes were in are
  not among those of \<open>kp_slab\<close>.\<close>

definition process_release :: "(ptr \<Rightarrow> ptr \<Rightarrow> kproc \<Rightarrow> kproc) \<Rightarrow> nat \<Rightarrow> ptr \<Rightarrow> kproc \<Rightarrow> kproc option" where
  "process_release free cpu process s =
     (case platform_cleanup_process cpu (pr_pid (kp_procs s process)) s of
        None \<Rightarrow> None
      | Some s \<Rightarrow>
          case managed_resources_free_all free (mi_res_head (info_of s process)) s of
            None \<Rightarrow> None
          | Some s \<Rightarrow>
              let s = s\<lparr>kp_mem := process_release_owned_pages process (kp_mem s)\<rparr>;
                  s = upd_info process (\<lambda>i. i\<lparr>mi_regions := fst (region_tree_free_all (mi_regions i))\<rparr>) s
              in Some (slab_give process (slab_give (pr_meminfo (kp_procs s process)) (slab_give (mi_pages_lock (info_of s process)) s))))"

definition process_destroy :: "(ptr \<Rightarrow> ptr \<Rightarrow> kproc \<Rightarrow> kproc) \<Rightarrow> nat \<Rightarrow> ptr \<Rightarrow> kproc \<Rightarrow> kproc option" where
  "process_destroy free cpu process s =
     (case destroy_process_tasks cpu process s of
        None \<Rightarrow> None
      | Some s \<Rightarrow> process_release free cpu process s)"

text \<open>The end of a thread: the last one takes its process with it. The switch away does not come back.\<close>

definition task_current_exitpoint :: "(ptr \<Rightarrow> ptr \<Rightarrow> kproc \<Rightarrow> kproc) \<Rightarrow> nat \<Rightarrow> kproc \<Rightarrow> (kproc \<times> sched_outcome) option" where
  "task_current_exitpoint free cpu s =
     (let task = cs_current (ss_cpus (kp_sched s) ! cpu); owner = tc_owner (kp_ctx s task)
      in case task_remove_from_process task s of
           None \<Rightarrow> None
         | Some s \<Rightarrow>
             case (if pr_tasks (kp_procs s owner) = NULL then process_destroy free cpu owner s else Some s) of
               None \<Rightarrow> None
             | Some s \<Rightarrow>
                 let s = task_destroy cpu task s
                 in map_option (Pair s) (sched_schedule cpu (kp_sched s)))"

section \<open>The checks of a conservative build\<close>

text \<open>With \<^verbatim>\<open>CONSERVATIVE_BUILD\<close> a task must be marked as terminated before it is destroyed, or the kernel panics. The checks that only print a warning are left out.\<close>

datatype 'a checked = Passed 'a | Panicked

definition task_destroy_conservative :: "nat \<Rightarrow> ptr \<Rightarrow> kproc \<Rightarrow> kproc checked" where
  "task_destroy_conservative cpu task s =
     (if task = NULL then Passed s
      else if t_state (ss_heap (kp_sched s) task) \<noteq> TASK_STATE_TERMINATED then Panicked
      else Passed (task_destroy cpu task s))"

partial_function (option) destroy_process_tasks_conservative :: "nat \<Rightarrow> ptr \<Rightarrow> kproc \<Rightarrow> kproc checked option" where
  "destroy_process_tasks_conservative cpu process s =
     (let node = pr_tasks (kp_procs s process)
      in if node = NULL then Some (Passed s)
         else
           case task_destroy_conservative cpu (ptk_task (kp_ptasks s node)) s of
             Panicked \<Rightarrow> Some Panicked
           | Passed s \<Rightarrow>
               let nxt = ptk_next (kp_ptasks s node);
                   s = slab_give node s
               in destroy_process_tasks_conservative cpu process (s\<lparr>kp_procs := (kp_procs s)(process := (kp_procs s process)\<lparr>pr_tasks := nxt\<rparr>)\<rparr>))"

definition process_destroy_conservative :: "(ptr \<Rightarrow> ptr \<Rightarrow> kproc \<Rightarrow> kproc) \<Rightarrow> nat \<Rightarrow> ptr \<Rightarrow> kproc \<Rightarrow> kproc checked option" where
  "process_destroy_conservative free cpu process s =
     (case destroy_process_tasks_conservative cpu process s of
        None \<Rightarrow> None
      | Some Panicked \<Rightarrow> Some Panicked
      | Some (Passed s) \<Rightarrow> map_option Passed (process_release free cpu process s))"

definition task_current_exitpoint_conservative ::
    "(ptr \<Rightarrow> ptr \<Rightarrow> kproc \<Rightarrow> kproc) \<Rightarrow> nat \<Rightarrow> kproc \<Rightarrow> (kproc \<times> sched_outcome) checked option" where
  "task_current_exitpoint_conservative free cpu s =
     (let task = cs_current (ss_cpus (kp_sched s) ! cpu); owner = tc_owner (kp_ctx s task)
      in case task_remove_from_process task s of
           None \<Rightarrow> None
         | Some s \<Rightarrow>
             case (if pr_tasks (kp_procs s owner) = NULL then process_destroy_conservative free cpu owner s else Some (Passed s)) of
               None \<Rightarrow> None
             | Some Panicked \<Rightarrow> Some Panicked
             | Some (Passed s) \<Rightarrow>
                 (case task_destroy_conservative cpu task s of
                    Panicked \<Rightarrow> Some Panicked
                  | Passed s \<Rightarrow> map_option (\<lambda>r. Passed (s, r)) (sched_schedule cpu (kp_sched s))))"

section \<open>Lists linked by pointers\<close>

fun lnk :: "(ptr \<Rightarrow> ptr) \<Rightarrow> ptr \<Rightarrow> ptr list \<Rightarrow> bool" where
  "lnk n p [] \<longleftrightarrow> p = NULL"
| "lnk n p (x # xs) \<longleftrightarrow> p = x \<and> x \<noteq> NULL \<and> lnk n (n x) xs"

lemma lnk_cong: "(\<And>x. x \<in> set xs \<Longrightarrow> m x = n x) \<Longrightarrow> lnk m p xs = lnk n p xs"
  by (induction xs arbitrary: p) simp_all

lemma lnk_upd [simp]: "y \<notin> set xs \<Longrightarrow> lnk (n(y := z)) p xs = lnk n p xs"
  by (rule lnk_cong) auto

lemma lnk_if [simp]: "r \<notin> set xs \<Longrightarrow> lnk (\<lambda>x. f (if x = r then a else h x)) p xs = lnk (\<lambda>x. f (h x)) p xs"
  by (rule lnk_cong) auto

lemma lnk_not_NULL: "lnk n p xs \<Longrightarrow> x \<in> set xs \<Longrightarrow> x \<noteq> NULL"
  by (induction xs arbitrary: p) auto

lemma lnk_Nil_iff: "lnk n p xs \<Longrightarrow> (p = NULL) = (xs = [])"
  by (cases xs) auto

lemma lnk_snoc:
  assumes "lnk n p xs" "distinct xs" "r \<notin> set xs" "r \<noteq> NULL" "n r = NULL" "xs \<noteq> []"
  shows "lnk (n(last xs := r)) p (xs @ [r])"
  using assms
proof (induction xs arbitrary: p)
  case (Cons x xs)
  then show ?case by (cases xs) auto
qed simp

lemma lnk_unlink:
  assumes "lnk n p (as @ x # bs)" "distinct (as @ x # bs)"
  shows "if as = [] then p = x \<and> lnk n (n x) bs else lnk (n(last as := n x)) p (as @ bs)"
  using assms
proof (induction as arbitrary: p)
  case (Cons a as)
  show ?case
  proof (cases as)
    case Nil
    then show ?thesis using Cons.prems by simp
  next
    case (Cons b cs)
    then have "lnk (n(last as := n x)) (n a) (as @ bs)" "last as \<in> set as" using Cons.IH [of "n a"] Cons.prems by simp_all
    moreover have "a \<notin> set as" "a \<noteq> NULL" "p = a" using Cons.prems by simp_all
    ultimately show ?thesis using Cons by auto
  qed
qed simp

lemma find_link_miss: "lnk n p xs \<Longrightarrow> \<forall>x \<in> set xs. \<not> hit x \<Longrightarrow> \<exists>q. find_link n hit prev p = Some (q, NULL)"
  by (induction xs arbitrary: p prev) (simp_all add: find_link.simps)

lemma find_link_hit:
  assumes "lnk n p (as @ x # bs)" "\<forall>y \<in> set as. \<not> hit y" "hit x"
  shows "find_link n hit prev p = Some (last (prev # as), x)"
  using assms
proof (induction as arbitrary: p prev)
  case (Cons a as)
  then have "find_link n hit a (n a) = Some (last (a # as), x)" by simp
  then show ?case using Cons.prems by (simp add: find_link.simps [of _ _ prev])
qed (simp add: find_link.simps)

section \<open>Managed resources as a list\<close>

definition resources :: "kproc \<Rightarrow> ptr \<Rightarrow> ptr list \<Rightarrow> bool" where
  "resources s p rs \<longleftrightarrow> lnk (\<lambda>x. res_next (kp_res s x)) (mi_res_head (info_of s p)) rs \<and> distinct rs
     \<and> mi_res_tail (info_of s p) = (if rs = [] then NULL else last rs)"

definition task_nodes :: "kproc \<Rightarrow> ptr \<Rightarrow> ptr list \<Rightarrow> bool" where
  "task_nodes s p ns \<longleftrightarrow> lnk (\<lambda>x. ptk_next (kp_ptasks s x)) (pr_tasks (kp_procs s p)) ns \<and> distinct ns"

lemma res_next_upd [simp]: "(\<lambda>x. res_next ((h(r := (h r)\<lparr>res_next := v\<rparr>)) x)) = (\<lambda>x. res_next (h x))(r := v)"
  by auto

lemma ptk_next_upd [simp]: "(\<lambda>x. ptk_next ((h(r := (h r)\<lparr>ptk_next := v\<rparr>)) x)) = (\<lambda>x. ptk_next (h x))(r := v)"
  by auto

lemma upd_info_simps [simp]:
  "kp_infos (upd_info p f s) = (kp_infos s)(pr_meminfo (kp_procs s p) := f (info_of s p))" "kp_procs (upd_info p f s) = kp_procs s" "kp_res (upd_info p f s) = kp_res s"
  "kp_ptasks (upd_info p f s) = kp_ptasks s" "kp_slab (upd_info p f s) = kp_slab s" "kp_fba (upd_info p f s) = kp_fba s"
  "kp_mem (upd_info p f s) = kp_mem s" "kp_msi (upd_info p f s) = kp_msi s" "kp_sched (upd_info p f s) = kp_sched s"
  by (simp_all add: upd_info_def)

lemma add_resource_ok:
  assumes rs: "resources s p rs" and n: "p \<noteq> NULL" "r \<noteq> NULL" "r \<notin> set rs"
  shows "\<exists>s'. process_add_managed_resource p r s = (s', True) \<and> resources s' p (rs @ [r])"
proof (cases "rs = []")
  case True
  then show ?thesis using rs n by (simp add: resources_def process_add_managed_resource_def Let_def)
next
  case False
  let ?n = "(\<lambda>x. res_next (kp_res s x))(r := NULL)"
  have t: "mi_res_tail (info_of s p) = last rs" "last rs \<noteq> NULL" "last rs \<noteq> r"
    using rs False n lnk_not_NULL [of _ _ rs "last rs"] by (auto simp: resources_def)
  have "lnk ?n (mi_res_head (info_of s p)) rs" using rs n by (simp add: resources_def)
  then have l: "lnk (?n(last rs := r)) (mi_res_head (info_of s p)) (rs @ [r])" using rs n False by (intro lnk_snoc) (simp_all add: resources_def)
  let ?h = "(kp_res s)(r := (kp_res s r)\<lparr>res_next := NULL\<rparr>)"
  have e: "process_add_managed_resource p r s = (upd_info p (\<lambda>i. i\<lparr>mi_res_tail := r\<rparr>) (s\<lparr>kp_res := ?h(last rs := (?h (last rs))\<lparr>res_next := r\<rparr>)\<rparr>), True)"
    using n t by (simp add: process_add_managed_resource_def Let_def)
  have "(\<lambda>x. res_next ((?h(last rs := (?h (last rs))\<lparr>res_next := r\<rparr>)) x)) = ?n(last rs := r)" unfolding res_next_upd ..
  then show ?thesis unfolding e using l rs n by (simp add: resources_def)
qed

lemma remove_resource_ok:
  assumes rs: "resources s p rs" and n: "p \<noteq> NULL" "r \<noteq> NULL"
  shows "\<exists>s'. process_remove_managed_resource p r s = Some (s', r \<in> set rs) \<and> resources s' p (remove1 r rs)"
proof (cases "r \<in> set rs")
  case False
  then have "\<exists>q. find_link (\<lambda>x. res_next (kp_res s x)) (\<lambda>x. x = r) NULL (mi_res_head (info_of s p)) = Some (q, NULL)"
    using rs by (intro find_link_miss [of _ _ rs]) (auto simp: resources_def)
  then show ?thesis using rs n False by (auto simp: process_remove_managed_resource_def remove1_idem)
next
  case True
  then obtain as bs where sp: "rs = as @ r # bs" "r \<notin> set as" by (meson split_list_first)
  let ?n = "\<lambda>x. res_next (kp_res s x)" and ?p = "mi_res_head (info_of s p)"
  have d: "distinct (as @ r # bs)" and l: "lnk ?n ?p (as @ r # bs)" and t: "mi_res_tail (info_of s p) = last (r # bs)"
    using rs sp by (auto simp: resources_def)
  have f: "find_link ?n (\<lambda>x. x = r) NULL ?p = Some (last (NULL # as), r)" using sp(2) by (intro find_link_hit [OF l]) auto
  have rm: "remove1 r rs = as @ bs" using sp by (simp add: remove1_append)
  have tl: "(mi_res_tail (info_of s p) = r) = (bs = [])" using t d by (auto dest: last_in_set)
  note u = lnk_unlink [OF l d]
  show ?thesis
  proof (cases "as = []")
    case True
    then have "\<exists>s'. process_remove_managed_resource p r s = Some (s', True) \<and> resources s' p bs"
      using n f u t d tl by (cases "bs = []") (simp_all add: process_remove_managed_resource_def Let_def resources_def)
    then show ?thesis using sp rm True by simp
  next
    case False
    then have la: "last as \<in> set as" "last as \<noteq> NULL" "last as \<noteq> r" using lnk_not_NULL [OF l, of "last as"] sp(2) by auto
    have "lnk (\<lambda>x. res_next (((kp_res s)(last as := (kp_res s (last as))\<lparr>res_next := res_next (kp_res s r)\<rparr>)) x)) ?p (as @ bs)"
      unfolding res_next_upd using u False by (simp only: if_False)
    moreover have "r \<notin> set (as @ bs)" using d by auto
    ultimately have "\<exists>s'. process_remove_managed_resource p r s = Some (s', True) \<and> resources s' p (as @ bs)"
      using n f t d tl la False by (cases "bs = []") (simp_all add: process_remove_managed_resource_def Let_def resources_def)
    then show ?thesis using sp rm by simp
  qed
qed

text \<open>What the function that frees a managed resource must do by its documentation: free the resource, and leave alone what is not its own.\<close>

definition frees_only :: "(ptr \<Rightarrow> ptr \<Rightarrow> kproc \<Rightarrow> kproc) \<Rightarrow> bool" where
  "frees_only free \<longleftrightarrow> (\<forall>f r s. (\<forall>x. x \<noteq> r \<longrightarrow> kp_res (free f r s) x = kp_res s x) \<and> kp_procs (free f r s) = kp_procs s
     \<and> kp_infos (free f r s) = kp_infos s \<and> kp_mem (free f r s) = kp_mem s \<and> kp_msi (free f r s) = kp_msi s
     \<and> kp_sched (free f r s) = kp_sched s \<and> kp_slab (free f r s) = kp_slab s - {r} \<and> kp_fba (free f r s) = kp_fba s)"

lemma frees_onlyD:
  assumes "frees_only free"
  shows "x \<noteq> r \<Longrightarrow> kp_res (free f r s) x = kp_res s x" "kp_procs (free f r s) = kp_procs s" "kp_infos (free f r s) = kp_infos s"
    "kp_mem (free f r s) = kp_mem s" "kp_msi (free f r s) = kp_msi s" "kp_sched (free f r s) = kp_sched s"
    "kp_slab (free f r s) = kp_slab s - {r}" "kp_fba (free f r s) = kp_fba s"
  using assms by (simp_all add: frees_only_def)

lemma free_all_ok:
  assumes fr: "frees_only free" and "lnk (\<lambda>x. res_next (kp_res s x)) p rs" "distinct rs"
  shows "managed_resources_free_all free p s = Some (fold (\<lambda>r. free (res_free_func (kp_res s r)) r) rs s)"
  using assms(2,3)
proof (induction rs arbitrary: p s)
  case (Cons r rs)
  let ?s = "free (res_free_func (kp_res s r)) r s"
  have same: "kp_res ?s x = kp_res s x" if "x \<in> set rs" for x using that Cons.prems by (intro frees_onlyD(1) [OF fr]) auto
  have "lnk (\<lambda>x. res_next (kp_res ?s x)) (res_next (kp_res s r)) rs" using Cons.prems same by (simp cong: lnk_cong)
  from Cons.IH [OF this] Cons.prems
  have "managed_resources_free_all free p s = Some (fold (\<lambda>r. free (res_free_func (kp_res ?s r)) r) rs ?s)"
    by (simp add: managed_resources_free_all.simps [of _ r] Let_def)
  moreover have "fold (\<lambda>r. free (res_free_func (kp_res ?s r)) r) rs ?s = fold (\<lambda>r. free (res_free_func (kp_res s r)) r) rs ?s"
    using same by (intro fold_cong) simp_all
  ultimately show ?case by simp
qed (simp add: managed_resources_free_all.simps)

lemma fold_free_keeps:
  assumes fr: "frees_only free"
  shows "let s' = fold (\<lambda>r. free (g r) r) rs s in kp_procs s' = kp_procs s \<and> kp_infos s' = kp_infos s \<and> kp_mem s' = kp_mem s \<and> kp_msi s' = kp_msi s
    \<and> kp_sched s' = kp_sched s \<and> kp_slab s' = kp_slab s - set rs \<and> kp_fba s' = kp_fba s"
  by (induction rs arbitrary: s) (auto simp: Let_def frees_onlyD [OF fr])

section \<open>The end of tasks and processes\<close>

lemma destroy_tasks_ok:
  assumes "task_nodes s p ns"
  shows "\<exists>s'. destroy_process_tasks cpu p s = Some s' \<and> kp_procs s' = (kp_procs s)(p := (kp_procs s p)\<lparr>pr_tasks := NULL\<rparr>)
    \<and> kp_infos s' = kp_infos s \<and> kp_res s' = kp_res s \<and> kp_mem s' = kp_mem s \<and> kp_msi s' = kp_msi s \<and> kp_slab s' = kp_slab s - set ns
    \<and> kp_fba s' = kp_fba s - ((\<lambda>n. ptk_task (kp_ptasks s n)) ` set ns - {NULL}) \<and> (ns = [] \<longrightarrow> kp_sched s' = kp_sched s)"
  using assms
proof (induction ns arbitrary: s)
  case Nil
  then show ?case by (auto simp: task_nodes_def destroy_process_tasks.simps [of _ p s] fun_eq_iff)
next
  case (Cons n ns)
  let ?t = "ptk_task (kp_ptasks s n)"
  let ?s = "task_destroy cpu ?t s"
  let ?u = "slab_give n ?s"
  let ?v = "?u\<lparr>kp_procs := (kp_procs ?u)(p := (kp_procs ?u p)\<lparr>pr_tasks := ptk_next (kp_ptasks ?s n)\<rparr>)\<rparr>"
  have hd: "pr_tasks (kp_procs s p) = n" "n \<noteq> NULL" "n \<notin> set ns" "distinct ns" "lnk (\<lambda>x. ptk_next (kp_ptasks s x)) (ptk_next (kp_ptasks s n)) ns"
    using Cons.prems by (simp_all add: task_nodes_def)
  have k: "kp_procs ?s = kp_procs s" "kp_infos ?s = kp_infos s" "kp_res ?s = kp_res s" "kp_mem ?s = kp_mem s" "kp_msi ?s = kp_msi s"
    "kp_slab ?s = kp_slab s" "kp_ptasks ?s = kp_ptasks s" "kp_fba ?s = kp_fba s - ({?t} - {NULL})"
    by (simp_all add: task_destroy_def Let_def)
  have "task_nodes ?v p ns" using hd k by (simp add: task_nodes_def slab_give_def)
  from Cons.IH [OF this] obtain s' where s': "destroy_process_tasks cpu p ?v = Some s'" "kp_procs s' = (kp_procs ?v)(p := (kp_procs ?v p)\<lparr>pr_tasks := NULL\<rparr>)"
    "kp_infos s' = kp_infos ?v" "kp_res s' = kp_res ?v" "kp_mem s' = kp_mem ?v" "kp_msi s' = kp_msi ?v" "kp_slab s' = kp_slab ?v - set ns"
    "kp_fba s' = kp_fba ?v - ((\<lambda>n. ptk_task (kp_ptasks ?v n)) ` set ns - {NULL})" by blast
  have "destroy_process_tasks cpu p s = Some s'" using s'(1) hd by (simp add: destroy_process_tasks.simps [of _ p s] Let_def)
  then show ?case using s'(2-) k by (intro exI [of _ s']) (auto simp: slab_give_def)
qed

lemma platform_cleanup_ok:
  assumes ok: "mgr_ok (kp_msi s)" and w: "\<forall>i < MSI_VECTOR_COUNT. mm_allocated (kp_msi s) ! i \<and> dv_owner_pid (mm_devices (kp_msi s) ! i) = pid
      \<longrightarrow> dv_waiting_task (mm_devices (kp_msi s) ! i) = NULL"
  shows "\<exists>m. platform_cleanup_process cpu pid s = Some (s\<lparr>kp_msi := m\<rparr>) \<and> mgr_ok m \<and> (\<forall>v. \<not> msi_verify_ownership v pid m)
    \<and> (\<forall>v q. q \<noteq> pid \<longrightarrow> msi_verify_ownership v q m = msi_verify_ownership v q (kp_msi s))"
proof -
  obtain m ts where c: "cleanup_loop pid [0..<MSI_VECTOR_COUNT] (kp_msi s) = (m, ts)" by fastforce
  have "ts = []" using cleanup_loop_ok [OF ok _ c] w by (auto simp: filter_empty_conv)
  then have e: "msi_cleanup_process cpu pid (kp_msi s) (kp_sched s) = Some (m, kp_sched s)" using c by (simp add: msi_cleanup_process_def)
  note cl = cleanup_ok [OF ok e]
  have "\<not> msi_verify_ownership v pid m" for v using cl index_less [of v] by (auto simp: msi_verify_ownership_def split: if_splits)
  moreover have "msi_verify_ownership v q m = msi_verify_ownership v q (kp_msi s)" if "q \<noteq> pid" for v q
    using cl index_less [of v] that by (auto simp: msi_verify_ownership_def split: if_splits)
  ultimately show ?thesis using e cl by (intro exI [of _ m]) (simp add: platform_cleanup_process_def)
qed

text \<open>What is true of a process that can be ended: its lists are intact and none of its interrupt vectors has a task waiting on it.\<close>

definition process_ok :: "ptr \<Rightarrow> ptr set \<Rightarrow> kproc \<Rightarrow> ptr \<Rightarrow> ptr list \<Rightarrow> ptr list \<Rightarrow> bool" where
  "process_ok reg P s p ns rs \<longleftrightarrow> p \<noteq> NULL \<and> p \<in> P \<and> pmem_ok reg P (kp_mem s) \<and> task_nodes s p ns \<and> resources s p rs \<and> mgr_ok (kp_msi s)
     \<and> (\<forall>i < MSI_VECTOR_COUNT. mm_allocated (kp_msi s) ! i \<and> dv_owner_pid (mm_devices (kp_msi s) ! i) = pr_pid (kp_procs s p)
          \<longrightarrow> dv_waiting_task (mm_devices (kp_msi s) ! i) = NULL)"

text \<open>Everything a process had is given back, and nothing else is touched.\<close>

definition process_gone :: "ptr \<Rightarrow> ptr set \<Rightarrow> kproc \<Rightarrow> ptr \<Rightarrow> ptr list \<Rightarrow> ptr list \<Rightarrow> kproc \<Rightarrow> bool" where
  "process_gone reg P s p ns rs s' \<longleftrightarrow> pmem_ok reg P (kp_mem s') \<and> owned (kp_mem s') = (owned (kp_mem s))(p := {#})
     \<and> free_pages (pm_region (kp_mem s') reg) = free_pages (pm_region (kp_mem s) reg) \<union> pfn ` {a. a \<in># owned (kp_mem s) p \<and> a \<notin># all_owned (P - {p}) (kp_mem s)}
     \<and> (\<forall>v. \<not> msi_verify_ownership v (pr_pid (kp_procs s p)) (kp_msi s'))
     \<and> (\<forall>v q. q \<noteq> pr_pid (kp_procs s p) \<longrightarrow> msi_verify_ownership v q (kp_msi s') = msi_verify_ownership v q (kp_msi s))
     \<and> kp_slab s' = kp_slab s - set ns - set rs - {mi_pages_lock (info_of s p), pr_meminfo (kp_procs s p), p}
     \<and> kp_fba s' = kp_fba s - ((\<lambda>n. ptk_task (kp_ptasks s n)) ` set ns - {NULL})
     \<and> mi_regions (kp_infos s' (pr_meminfo (kp_procs s p))) = NoRegion"

lemma free_all_empty: "fst (region_tree_free_all t) = NoRegion"
  by (cases t) simp_all

lemma destroy_ok:
  assumes ok: "process_ok reg P s p ns rs" and fr: "frees_only free"
  shows "\<exists>s'. process_destroy free cpu p s = Some s' \<and> process_gone reg P s p ns rs s' \<and> (ns = [] \<longrightarrow> kp_sched s' = kp_sched s)"
proof -
  let ?pid = "pr_pid (kp_procs s p)" and ?i = "info_of s p"
  obtain s1 where s1: "destroy_process_tasks cpu p s = Some s1" "kp_procs s1 = (kp_procs s)(p := (kp_procs s p)\<lparr>pr_tasks := NULL\<rparr>)"
    "kp_infos s1 = kp_infos s" "kp_res s1 = kp_res s" "kp_mem s1 = kp_mem s" "kp_msi s1 = kp_msi s" "kp_slab s1 = kp_slab s - set ns"
    "kp_fba s1 = kp_fba s - ((\<lambda>n. ptk_task (kp_ptasks s n)) ` set ns - {NULL})" "ns = [] \<longrightarrow> kp_sched s1 = kp_sched s"
    using destroy_tasks_ok [of s p ns cpu] ok by (auto simp: process_ok_def)
  obtain m where m: "platform_cleanup_process cpu ?pid s1 = Some (s1\<lparr>kp_msi := m\<rparr>)" "\<forall>v. \<not> msi_verify_ownership v ?pid m"
    "\<forall>v q. q \<noteq> ?pid \<longrightarrow> msi_verify_ownership v q m = msi_verify_ownership v q (kp_msi s)"
    using platform_cleanup_ok [of s1 ?pid cpu] ok s1(6) by (auto simp: process_ok_def)
  let ?g = "\<lambda>r. res_free_func (kp_res (s1\<lparr>kp_msi := m\<rparr>) r)"
  define s3 where "s3 = fold (\<lambda>r. free (?g r) r) rs (s1\<lparr>kp_msi := m\<rparr>)"
  have e3: "managed_resources_free_all free (mi_res_head ?i) (s1\<lparr>kp_msi := m\<rparr>) = Some s3"
    unfolding s3_def using ok s1(4) by (intro free_all_ok [OF fr]) (simp_all add: process_ok_def resources_def)
  have s3: "kp_procs s3 = kp_procs s1" "kp_infos s3 = kp_infos s" "kp_mem s3 = kp_mem s" "kp_msi s3 = m" "kp_sched s3 = kp_sched s1"
    "kp_slab s3 = kp_slab s1 - set rs" "kp_fba s3 = kp_fba s1"
    using fold_free_keeps [OF fr, of ?g rs "s1\<lparr>kp_msi := m\<rparr>"] s1 by (simp_all add: s3_def Let_def)
  define s4 where "s4 = upd_info p (\<lambda>i. i\<lparr>mi_regions := fst (region_tree_free_all (mi_regions i))\<rparr>) (s3\<lparr>kp_mem := process_release_owned_pages p (kp_mem s3)\<rparr>)"
  have s4: "mi_pages_lock (info_of s4 p) = mi_pages_lock ?i" "pr_meminfo (kp_procs s4 p) = pr_meminfo (kp_procs s p)"
    "kp_mem s4 = process_release_owned_pages p (kp_mem s)" "kp_msi s4 = m" "kp_sched s4 = kp_sched s1" "kp_slab s4 = kp_slab s - set ns - set rs"
    "kp_fba s4 = kp_fba s1" "mi_regions (kp_infos s4 (pr_meminfo (kp_procs s p))) = NoRegion"
    using s1(2,7) s3 by (simp_all add: s4_def upd_info_def free_all_empty)
  let ?s = "slab_give p (slab_give (pr_meminfo (kp_procs s4 p)) (slab_give (mi_pages_lock (info_of s4 p)) s4))"
  have "process_destroy free cpu p s = Some ?s"
    using s1(1,2,3) m(1) e3 by (simp add: process_destroy_def process_release_def s4_def Let_def)
  moreover have "process_gone reg P s p ns rs ?s"
    using release_pages_ok [of reg P "kp_mem s" p] ok m(2,3) s1(8) s4
    by (auto simp: process_gone_def process_ok_def slab_give_def Let_def)
  moreover have "ns = [] \<longrightarrow> kp_sched ?s = kp_sched s" using s1(9) s4(5) by (simp add: slab_give_def)
  ultimately show ?thesis by blast
qed

lemma remove_task_ok:
  assumes t: "task \<noteq> NULL" "tc_owner (kp_ctx s task) = p" "p \<noteq> NULL" and ns: "task_nodes s p (as @ n # bs)"
    and hit: "ptk_task (kp_ptasks s n) = task" "\<forall>k \<in> set as. ptk_task (kp_ptasks s k) \<noteq> task"
  shows "\<exists>s'. task_remove_from_process task s = Some s' \<and> task_nodes s' p (as @ bs) \<and> kp_slab s' = kp_slab s - {n}
    \<and> (\<exists>h t. s' = s\<lparr>kp_ptasks := h, kp_procs := (kp_procs s)(p := (kp_procs s p)\<lparr>pr_tasks := t\<rparr>), kp_slab := kp_slab s - {n}\<rparr>
         \<and> (\<forall>k. ptk_task (h k) = ptk_task (kp_ptasks s k)))"
proof -
  let ?n = "\<lambda>x. ptk_next (kp_ptasks s x)" and ?p = "pr_tasks (kp_procs s p)"
  have d: "distinct (as @ n # bs)" and l: "lnk ?n ?p (as @ n # bs)" using ns by (simp_all add: task_nodes_def)
  have nn: "n \<noteq> NULL" using lnk_not_NULL [OF l, of n] by simp
  note f = find_link_hit [OF l, of "\<lambda>x. ptk_task (kp_ptasks s x) = task" NULL, OF hit(2,1)] and u = lnk_unlink [OF l d]
  show ?thesis
  proof (cases "as = []")
    case True
    let ?s = "slab_give n (s\<lparr>kp_procs := (kp_procs s)(p := (kp_procs s p)\<lparr>pr_tasks := ?n n\<rparr>)\<rparr>)"
    have "task_remove_from_process task s = Some ?s" using t nn f True by (simp add: task_remove_from_process_def Let_def)
    moreover have "task_nodes ?s p (as @ bs)" using u d True by (simp add: task_nodes_def slab_give_def)
    moreover have "?s = s\<lparr>kp_ptasks := kp_ptasks s, kp_procs := (kp_procs s)(p := (kp_procs s p)\<lparr>pr_tasks := ?n n\<rparr>), kp_slab := kp_slab s - {n}\<rparr>"
      by (simp add: slab_give_def)
    ultimately show ?thesis by (intro exI [of _ ?s]) (auto simp: slab_give_def intro!: exI [of _ "kp_ptasks s"])
  next
    case False
    let ?h = "(kp_ptasks s)(last as := (kp_ptasks s (last as))\<lparr>ptk_next := ?n n\<rparr>)"
    let ?s = "slab_give n (s\<lparr>kp_ptasks := ?h\<rparr>)"
    have "last as \<noteq> NULL" using lnk_not_NULL [OF l, of "last as"] False by simp
    then have "task_remove_from_process task s = Some ?s" using t nn f False by (simp add: task_remove_from_process_def Let_def)
    moreover have "lnk (\<lambda>x. ptk_next (?h x)) ?p (as @ bs)" unfolding ptk_next_upd using u False by (simp only: if_False)
    then have "task_nodes ?s p (as @ bs)" using d by (simp add: task_nodes_def slab_give_def)
    moreover have "?s = s\<lparr>kp_ptasks := ?h, kp_procs := (kp_procs s)(p := (kp_procs s p)\<lparr>pr_tasks := ?p\<rparr>), kp_slab := kp_slab s - {n}\<rparr>"
      by (simp add: slab_give_def)
    ultimately show ?thesis by (intro exI [of _ ?s]) (auto simp: slab_give_def intro!: exI [of _ ?h] exI [of _ ?p])
  qed
qed

lemma leave_cpu_ok:
  assumes ok: "sched_ok s qs" and c: "c < length (ss_cpus s)"
  shows "sched_ok (upd_cpu c (\<lambda>cpu. cpu\<lparr>cs_current := NULL\<rparr>) s) qs"
  using assms upd_current_queues [of s qs c NULL] queues_ok_NULL [of s qs] by (auto simp: sched_ok_def currents_ok_def)

lemma schedule_idle_cpu:
  assumes ok: "sched_ok s qs" and c: "c < length (ss_cpus s)" and room: "length (cpu_tasks qs c) + 1 < 18446744073709551616"
    and idle: "cs_current (ss_cpus s ! c) = NULL" and top: "top_class qs c = Some cl"
  shows "\<exists>s'. sched_schedule c s = Some (Continues s') \<and> sched_ok s' (next_queues (ss_heap s) qs c cl NULL) \<and> cs_current (ss_cpus s' ! c) = hd (qs c cl)"
proof -
  note tc = top_class_Some [OF top]
  obtain x xs where q: "qs c cl = x # xs" using tc(2) by (cases "qs c cl") auto
  have "candidate_class (ss_cpus s ! c) = Some cl" using candidate_top [of s qs c] ok c top by (simp add: sched_ok_def)
  then show ?thesis using switch_ok [OF ok c tc(1) q room, of NULL] idle q by (auto simp: sched_schedule_def Let_def)
qed

section \<open>A process for the witnesses\<close>

definition demo_kproc :: kproc where
  "demo_kproc = \<lparr>kp_procs = (\<lambda>_. \<lparr>pr_cap_failures = 0, pr_pid = 7, pr_pml4 = 0, pr_tasks = 0x7100, pr_meminfo = 0x7000\<rparr>),
     kp_infos = (\<lambda>_. \<lparr>mi_pages_lock = 0x7040, mi_res_head = 0x7200, mi_res_tail = 0x7200, mi_regions = NoRegion\<rparr>),
     kp_ptasks = (\<lambda>_. \<lparr>ptk_next = NULL, ptk_task = 0x1000\<rparr>), kp_res = (\<lambda>_. \<lparr>res_next = NULL, res_free_func = 0, res_ptr = 0\<rparr>),
     kp_ctx = (\<lambda>_. \<lparr>tc_tid = 2, tc_rsp0 = 0, tc_ssp = 0, tc_owner = 0x5000, tc_pml4 = 0\<rparr>),
     kp_slab = {0x5000, 0x7000, 0x7040, 0x7100, 0x7200}, kp_fba = {0x1000}, kp_words = (\<lambda>_. 0), kp_next_pid = 8, kp_next_tid = 3,
     kp_mem = demo_owner, kp_msi = demo_msi, kp_sched = demo_sched\<rparr>"

lemma demo_kproc_ok: "process_ok 1 {0x5000} demo_kproc 0x5000 [0x7100] [0x7200]"
proof -
  have "\<not> mm_allocated demo_msi ! i" if "i < MSI_VECTOR_COUNT" for i using that by (simp add: demo_msi_def msi_init_def)
  then show ?thesis using demo_owner_ok(1) demo_msi_ok by (simp add: process_ok_def task_nodes_def resources_def demo_kproc_def)
qed

lemma demo_free_ok: "frees_only (\<lambda>f r s. slab_give r s)"
  by (simp add: frees_only_def slab_give_def)

section \<open>Properties\<close>

lemma destroy_tasks_conservative:
  assumes "task_nodes s p ns"
  shows "destroy_process_tasks_conservative cpu p s =
    (if \<forall>t \<in> (\<lambda>n. ptk_task (kp_ptasks s n)) ` set ns - {NULL}. t_state (ss_heap (kp_sched s) t) = TASK_STATE_TERMINATED
     then map_option Passed (destroy_process_tasks cpu p s) else Some Panicked)"
  using assms
proof (induction ns arbitrary: s)
  case Nil
  then show ?case by (simp add: task_nodes_def destroy_process_tasks.simps [of _ p s] destroy_process_tasks_conservative.simps [of _ p s])
next
  case (Cons n ns)
  let ?t = "ptk_task (kp_ptasks s n)"
  let ?s = "task_destroy cpu ?t s"
  let ?u = "slab_give n ?s"
  let ?v = "?u\<lparr>kp_procs := (kp_procs ?u)(p := (kp_procs ?u p)\<lparr>pr_tasks := ptk_next (kp_ptasks ?s n)\<rparr>)\<rparr>"
  have hd: "pr_tasks (kp_procs s p) = n" "n \<noteq> NULL" "n \<notin> set ns" "distinct ns" "lnk (\<lambda>x. ptk_next (kp_ptasks s x)) (ptk_next (kp_ptasks s n)) ns"
    using Cons.prems by (simp_all add: task_nodes_def)
  have k: "kp_procs ?s = kp_procs s" "kp_ptasks ?s = kp_ptasks s" "ss_heap (kp_sched ?s) = ss_heap (kp_sched s)" by (simp_all add: task_destroy_def Let_def upd_cpu_def)
  have v: "kp_ptasks ?v = kp_ptasks s" "ss_heap (kp_sched ?v) = ss_heap (kp_sched s)" using k by (simp_all add: slab_give_def)
  have "task_nodes ?v p ns" using hd k by (simp add: task_nodes_def slab_give_def)
  note ih = Cons.IH [OF this, unfolded v]
  have d: "destroy_process_tasks cpu p s = destroy_process_tasks cpu p ?v" using hd by (simp add: destroy_process_tasks.simps [of _ p s] Let_def)
  have c: "destroy_process_tasks_conservative cpu p s =
      (if ?t \<noteq> NULL \<and> t_state (ss_heap (kp_sched s) ?t) \<noteq> TASK_STATE_TERMINATED then Some Panicked else destroy_process_tasks_conservative cpu p ?v)"
    using hd by (simp add: destroy_process_tasks_conservative.simps [of _ p s] task_destroy_conservative_def task_destroy_def [of cpu NULL] Let_def)
  show ?case unfolding c d ih by auto
qed

lemma process_destroy_conservative_eq:
  assumes "task_nodes s p ns"
  shows "process_destroy_conservative free cpu p s =
    (if \<forall>t \<in> (\<lambda>n. ptk_task (kp_ptasks s n)) ` set ns - {NULL}. t_state (ss_heap (kp_sched s) t) = TASK_STATE_TERMINATED
     then map_option Passed (process_destroy free cpu p s) else Some Panicked)"
  unfolding process_destroy_conservative_def process_destroy_def destroy_tasks_conservative [OF assms] by (simp split: option.split)


definition demo_kproc_ended :: kproc where
  "demo_kproc_ended = demo_kproc\<lparr>kp_sched := upd_task 0x1000 (\<lambda>t. t\<lparr>t_state := TASK_STATE_TERMINATED\<rparr>) demo_sched\<rparr>"




text \<open>The managed resources of a process are a list: adding one appends it, removing one takes it out and tells whether it was there, and freeing
  them all frees each once, in order, with its own function. Every walk ends.\<close>

theorem managed_resources_refine:
  assumes "resources s p rs" "p \<noteq> NULL" "r \<noteq> NULL"
  shows "(r \<notin> set rs \<longrightarrow> (\<exists>s'. process_add_managed_resource p r s = (s', True) \<and> resources s' p (rs @ [r])))
    \<and> (\<exists>s'. process_remove_managed_resource p r s = Some (s', r \<in> set rs) \<and> resources s' p (remove1 r rs))
    \<and> (frees_only free \<longrightarrow> managed_resources_free_all free (mi_res_head (info_of s p)) s = Some (fold (\<lambda>r. free (res_free_func (kp_res s r)) r) rs s))"
  using add_resource_ok [OF assms(1,2,3)] remove_resource_ok [OF assms] free_all_ok [of free s] assms(1) by (auto simp: resources_def)

theorem managed_resources_refine_witness:
  "resources demo_kproc 0x5000 [0x7200] \<and> (\<exists>s'. process_remove_managed_resource 0x5000 0x7200 demo_kproc = Some (s', True) \<and> resources s' 0x5000 [])
     \<and> (\<exists>s'. process_add_managed_resource 0x5000 0x7240 demo_kproc = (s', True) \<and> resources s' 0x5000 [0x7200, 0x7240])"
proof -
  have r: "resources demo_kproc 0x5000 [0x7200]" using demo_kproc_ok by (simp add: process_ok_def)
  show ?thesis using managed_resources_refine [OF r, of "0x7200" "\<lambda>f r s. slab_give r s"] managed_resources_refine [OF r, of "0x7240" "\<lambda>f r s. slab_give r s"] r by auto
qed

lemma initial_stack_frame:
  assumes "initial_stack rsp0 bootstrap sp func words = (ssp, words')"
  shows "resume_frame words' ssp = (func, sp, bootstrap, rsp0) \<and> ssp = rsp0 - 128
    \<and> (\<forall>a. a \<notin> {rsp0 - 8, rsp0 - 120, rsp0 - 128} \<longrightarrow> words' a = words a)"
proof -
  have e: "ssp = rsp0 - 128" "words' = words(rsp0 - 8 := bootstrap, rsp0 - 120 := sp, rsp0 - 128 := func)"
    using assms by (auto simp: initial_stack_def push_word_def TASK_SAVED_REGISTER_COUNT_def Let_def)
  have n: "rsp0 - 8 \<noteq> rsp0 - 120" "rsp0 - 8 \<noteq> rsp0 - 128" "rsp0 - 120 \<noteq> rsp0 - 128" by (simp_all add: diff_eq_eq)
  have a: "rsp0 - 128 + 8 = rsp0 - 120" "rsp0 - 128 + 8 * TASK_SAVED_REGISTER_COUNT = rsp0 - 8" by (simp_all add: TASK_SAVED_REGISTER_COUNT_def)
  show ?thesis unfolding resume_frame_def e(1) a using e n by auto
qed

lemma task_create_new_ok:
  assumes blocks: "task \<noteq> NULL" "stack \<noteq> NULL \<or> sys_ssp \<noteq> 0" "node \<noteq> NULL" "node \<notin> set ns" and ns: "task_nodes s owner ns"
    and ev: "task_create_new owner sp sys_ssp bootstrap func class task stack node s = (s', t)"
  defines "rsp0 \<equiv> if sys_ssp \<noteq> 0 then sys_ssp else stack + 0x1000"
  shows "t = task \<and> task_nodes s' owner (node # ns) \<and> ptk_task (kp_ptasks s' node) = task \<and> tc_owner (kp_ctx s' task) = owner
    \<and> tc_tid (kp_ctx s' task) = kp_next_tid s \<and> kp_next_tid s' = kp_next_tid s + 1
    \<and> resume_frame (kp_words s') (tc_ssp (kp_ctx s' task)) = (func, sp, bootstrap, rsp0)
    \<and> (\<forall>a. a \<notin> {rsp0 - 8, rsp0 - 120, rsp0 - 128} \<longrightarrow> kp_words s' a = kp_words s a)
    \<and> t_state (ss_heap (kp_sched s') task) = TASK_STATE_READY \<and> ts_remain (ss_heap (kp_sched s') task) = DEFAULT_TIMESLICE
    \<and> t_class (ss_heap (kp_sched s') task) = class \<and> ss_cpus (kp_sched s') = ss_cpus (kp_sched s)
    \<and> (\<forall>x. x \<noteq> task \<longrightarrow> ss_heap (kp_sched s') x = ss_heap (kp_sched s) x)"
proof -
  obtain ssp words where st: "initial_stack rsp0 bootstrap sp func (kp_words s) = (ssp, words)" by fastforce
  note fr = initial_stack_frame [OF st]
  show ?thesis using ev blocks ns fr st
    by (auto simp: task_create_new_def Let_def rsp0_def task_nodes_def slab_take_def split: if_splits)
qed

text \<open>A new task is ready with a full time slice, belongs to its process's list, has an identity of its own, and the first switch to it enters the
  bootstrap routine with the function and the user stack in the argument registers and an empty kernel stack. The frame is the only part of
  memory that is written.\<close>

theorem task_create_new_correct:
  assumes blocks: "task \<noteq> NULL" "stack \<noteq> NULL \<or> sys_ssp \<noteq> 0" "node \<noteq> NULL" "node \<notin> set ns" and ns: "task_nodes s owner ns"
    and ev: "task_create_new owner sp sys_ssp bootstrap func class task stack node s = (s', t)"
  defines "rsp0 \<equiv> if sys_ssp \<noteq> 0 then sys_ssp else stack + 0x1000"
  shows "t = task \<and> task_nodes s' owner (node # ns) \<and> ptk_task (kp_ptasks s' node) = task \<and> tc_owner (kp_ctx s' task) = owner
    \<and> tc_tid (kp_ctx s' task) = kp_next_tid s \<and> kp_next_tid s' = kp_next_tid s + 1
    \<and> resume_frame (kp_words s') (tc_ssp (kp_ctx s' task)) = (func, sp, bootstrap, rsp0)
    \<and> (\<forall>a. a \<notin> {rsp0 - 8, rsp0 - 120, rsp0 - 128} \<longrightarrow> kp_words s' a = kp_words s a)
    \<and> t_state (ss_heap (kp_sched s') task) = TASK_STATE_READY \<and> ts_remain (ss_heap (kp_sched s') task) = DEFAULT_TIMESLICE
    \<and> t_class (ss_heap (kp_sched s') task) = class \<and> ss_cpus (kp_sched s') = ss_cpus (kp_sched s)
    \<and> (\<forall>x. x \<noteq> task \<longrightarrow> ss_heap (kp_sched s') x = ss_heap (kp_sched s) x)"
  unfolding rsp0_def by (rule task_create_new_ok [OF blocks ns ev])

theorem task_create_new_correct_witness:
  "\<exists>s'. task_create_new 0x5000 0x8000 0 0x100 0x200 TASK_CLASS_NORMAL 0x3000 0x4000 0x7140 demo_kproc = (s', 0x3000)
     \<and> task_nodes s' 0x5000 [0x7140, 0x7100] \<and> resume_frame (kp_words s') (tc_ssp (kp_ctx s' 0x3000)) = (0x200, 0x8000, 0x100, 0x5000)"
proof -
  have n: "task_nodes demo_kproc 0x5000 [0x7100]" using demo_kproc_ok by (simp add: process_ok_def)
  obtain s' t where e: "task_create_new 0x5000 0x8000 0 0x100 0x200 TASK_CLASS_NORMAL 0x3000 0x4000 0x7140 demo_kproc = (s', t)" by fastforce
  show ?thesis using task_create_new_correct [OF _ _ _ _ n e] e by simp
qed

lemma process_create_ok:
  assumes fresh: "{lock, meminfo, process} \<inter> kp_slab s = {}" and ev: "process_create pml4 lock meminfo process s = (s', p)"
  shows "if lock = NULL \<or> meminfo = NULL \<or> process = NULL then s' = s \<and> p = NULL
    else p = process \<and> pr_pid (kp_procs s' p) = kp_next_pid s \<and> kp_next_pid s' = kp_next_pid s + 1 \<and> pr_pml4 (kp_procs s' p) = pml4
      \<and> pr_cap_failures (kp_procs s' p) = 0 \<and> resources s' p [] \<and> mi_regions (info_of s' p) = NoRegion \<and> owned (kp_mem s') = (owned (kp_mem s))(p := {#})
      \<and> kp_slab s' = kp_slab s \<union> {lock, meminfo, process} \<and> (\<forall>q. q \<noteq> p \<longrightarrow> kp_procs s' q = kp_procs s q)"
proof -
  have g: "slab_give lock (slab_take lock s) = s" "meminfo \<noteq> NULL \<Longrightarrow> lock \<noteq> NULL \<Longrightarrow> slab_give meminfo (slab_give lock (slab_take meminfo (slab_take lock s))) = s"
    using fresh by (auto simp: slab_give_def slab_take_def Diff_insert_absorb insert_Diff_if)
  show ?thesis
  proof (cases "lock = NULL \<or> meminfo = NULL \<or> process = NULL")
    case True
    then show ?thesis using ev g by (auto simp: process_create_def Let_def split: if_splits)
  next
    case False
    then show ?thesis using ev by (auto simp: process_create_def Let_def slab_take_def resources_def owned_def fun_eq_iff)
  qed
qed

text \<open>Creating a process either fails and leaves every allocation as it was, or gives the next process number to a process with no pages, no
  regions and no managed resources, in blocks of its own; no other process changes.\<close>

theorem process_create_correct:
  assumes fresh: "{lock, meminfo, process} \<inter> kp_slab s = {}" and ev: "process_create pml4 lock meminfo process s = (s', p)"
  shows "if lock = NULL \<or> meminfo = NULL \<or> process = NULL then s' = s \<and> p = NULL
    else p = process \<and> pr_pid (kp_procs s' p) = kp_next_pid s \<and> kp_next_pid s' = kp_next_pid s + 1 \<and> pr_pml4 (kp_procs s' p) = pml4
      \<and> pr_cap_failures (kp_procs s' p) = 0 \<and> resources s' p [] \<and> mi_regions (info_of s' p) = NoRegion \<and> owned (kp_mem s') = (owned (kp_mem s))(p := {#})
      \<and> kp_slab s' = kp_slab s \<union> {lock, meminfo, process} \<and> (\<forall>q. q \<noteq> p \<longrightarrow> kp_procs s' q = kp_procs s q)"
  by (rule process_create_ok [OF fresh ev])

theorem process_create_correct_witness:
  "process_create 0x9000 0x7300 0x7340 0 demo_kproc = (demo_kproc, NULL) \<and> pr_pid (kp_procs (fst (process_create 0x9000 0x7300 0x7340 0x7380 demo_kproc)) 0x7380) = 8"
proof -
  have k: "kp_slab demo_kproc = {0x5000, 0x7000, 0x7040, 0x7100, 0x7200}" "kp_next_pid demo_kproc = 8" by (simp_all add: demo_kproc_def)
  obtain s1 p1 s2 p2 where e: "process_create 0x9000 0x7300 0x7340 0 demo_kproc = (s1, p1)" "process_create 0x9000 0x7300 0x7340 0x7380 demo_kproc = (s2, p2)" by fastforce
  show ?thesis using process_create_correct [OF _ e(1)] process_create_correct [OF _ e(2)] e k by auto
qed

text \<open>The block of a new process is not cleared and its list of tasks is not set: whatever the block held before is taken for the list.\<close>

lemma process_create_keeps_stale_tasks:
  assumes "process_create pml4 lock meminfo process s = (s', p)" "p \<noteq> NULL"
  shows "pr_tasks (kp_procs s' p) = pr_tasks (kp_procs s process)"
  using assms by (auto simp: process_create_def Let_def slab_take_def split: if_splits)

text \<open>The block of the kernel stack stays allocated after its thread has ended: only the task's own block is given back.\<close>

lemma task_destroy_keeps_stack:
  "stack \<noteq> task \<Longrightarrow> (stack \<in> kp_fba (task_destroy cpu task s)) = (stack \<in> kp_fba s)"
  by (simp add: task_destroy_def Let_def)

end
