(* ===== verification/Two_Spaces.thy ===== *)
theory Two_Spaces
  imports Page_Fault
begin

text \<open>
  Two address spaces that share the kernel's half of their page tables, as every pair of spaces of \<^verbatim>\<open>kernel/process/address_space.c\<close> does. The theory
  says exactly which entries of which tables a mapping writes, and shows that a user page mapped in one space is invisible in the other although
  the two trees overlap.
\<close>

section \<open>Definitions\<close>

definition KERNEL_BEGIN_ENTRY :: nat where
  "KERNEL_BEGIN_ENTRY = 256"

definition in_mapper :: "ptr \<Rightarrow> (vm \<Rightarrow> (vm \<times> 'b) option) \<Rightarrow> kmem \<Rightarrow> kmem option" where
  "in_mapper rgn f s = map_option (\<lambda>(v, _). mapper_store rgn v s) (f (mapper_view rgn s))"

section \<open>Which entries the mapper writes\<close>

text \<open>The entries on the way to a page.\<close>

fun way :: "nat \<Rightarrow> u64 \<Rightarrow> ptr \<Rightarrow> tables \<Rightarrow> (ptr \<times> nat) set" where
  "way 0 va t m = {(t, vmm_virt_to_pt_index va)}"
| "way (Suc n) va t m =
     (let i = vmm_virt_to_table_index va (Suc n + 1) in insert (t, i) (if present (m t i) then way n va (child (m t i)) m else {}))"

definition free_table :: "vm \<Rightarrow> ptr \<Rightarrow> bool" where
  "free_table s a \<longleftrightarrow> (\<exists>f. a = vmm_phys_to_virt f \<and> pfn f \<in> free_pages (vm_phys s))"

lemma way_kept:
  assumes "present (m t i)" "present e" "child e = child (m t i)"
  shows "way n va c (m(t := (m t)(i := e))) = way n va c m"
proof (induction n arbitrary: c)
  case (Suc n)
  let ?m = "m(t := (m t)(i := e))" and ?j = "vmm_virt_to_table_index va (Suc n + 1)"
  have "present (?m c ?j) = present (m c ?j)" "present (m c ?j) \<Longrightarrow> child (?m c ?j) = child (m c ?j)" using assms by auto
  then show ?case unfolding way.simps Let_def Suc.IH by auto
qed simp

lemma ensure_writes:
  assumes "region_wf (vm_phys s)" "ensure_loop n va fl t s = (s', t')" "\<forall>(a, i) \<in> way n va t (vm_tables s). \<not> free_table s a"
  shows "(\<forall>a i. vm_tables s' a i \<noteq> vm_tables s a i \<longrightarrow> (a, i) \<in> way n va t (vm_tables s) \<or> free_table s a)
    \<and> (t' \<noteq> NULL \<longrightarrow> (t', vmm_virt_to_pt_index va) \<in> way n va t (vm_tables s) \<or> free_table s t')"
  using assms
proof (induction n arbitrary: t s)
  case (Suc n)
  let ?m = "vm_tables s" and ?i = "vmm_virt_to_table_index va (Suc n + 1)"
  let ?e = "?m t ?i"
  have tw: "(t, ?i) \<in> way (Suc n) va t ?m" by (simp add: Let_def)
  then have tf: "\<not> free_table s t" using Suc.prems(3) by blast
  show ?case
  proof (cases "present ?e")
    case True
    let ?e' = "vmm_phys_and_flags_to_table_entry (vmm_table_entry_to_phys ?e) (ucast (vmm_table_entry_to_page_flags ?e) OR parent_flags fl)"
    let ?s = "write_entry t ?i ?e' s"
    note ke = kept_entry [OF True, of fl]
    have m: "vm_tables ?s = ?m(t := (?m t)(?i := ?e'))" "vm_phys ?s = vm_phys s" by (simp_all add: write_entry_def)
    have wk: "way n va c (vm_tables ?s) = way n va c ?m" for c unfolding m(1) using ke(1,2) True by (intro way_kept) (simp_all add: child_def)
    have w: "way (Suc n) va t ?m = insert (t, ?i) (way n va (child ?e) ?m)" using True by (simp add: Let_def)
    have ft: "free_table ?s = free_table s" by (simp add: fun_eq_iff free_table_def write_entry_def)
    have ev: "ensure_loop (Suc n) va fl t s = (if Suc n > 1 \<and> is_pagesize_leaf ?e then (s, NULL) else ensure_loop n va fl (child ?e) ?s)"
      using True by (simp add: Let_def child_def)
    show ?thesis
    proof (cases "Suc n > 1 \<and> is_pagesize_leaf ?e")
      case True
      have "(s, NULL) = (s', t')" using Suc.prems(2) unfolding ev if_P [OF True] .
      then show ?thesis by simp
    next
      case False
      have 2: "ensure_loop n va fl (child ?e) ?s = (s', t')" using Suc.prems(2) unfolding ev if_not_P [OF False] .
      have "\<forall>(a, i) \<in> way n va (child ?e) (vm_tables ?s). \<not> free_table ?s a" using Suc.prems(3) unfolding wk ft w by blast
      from Suc.IH [OF _ 2 this] Suc.prems(1) have IH: "\<forall>a i. vm_tables s' a i \<noteq> vm_tables ?s a i \<longrightarrow> (a, i) \<in> way n va (child ?e) ?m \<or> free_table s a"
        "t' \<noteq> NULL \<longrightarrow> (t', vmm_virt_to_pt_index va) \<in> way n va (child ?e) ?m \<or> free_table s t'" unfolding wk ft m(2) by blast+
      have "vm_tables ?s a i = ?m a i" if "(a, i) \<noteq> (t, ?i)" for a i using that m(1) by auto
      then show ?thesis using IH unfolding w by (metis insert_iff)
    qed
  next
    case False
    obtain r x where rx: "page_alloc (vm_phys s) = (r, x)" by fastforce
    show ?thesis
    proof (cases "free_pages (vm_phys s) = {}")
      case True
      then have "page_alloc (vm_phys s) = (vm_phys s, 0xFF)" by (intro pmm.alloc_fail [OF Suc.prems(1)])
      then show ?thesis using Suc.prems(2) False by (auto simp: Let_def)
    next
      case ne: False
      note al = pmm.alloc_ok [OF Suc.prems(1) ne rx]
      have al0: "x AND 0xfff = 0" using al by (simp add: page_aligned_def)
      let ?new = "vmm_phys_to_virt x" and ?e' = "vmm_phys_and_flags_to_table_entry x (PG_PRESENT OR parent_flags fl)"
      let ?s = "write_entry t ?i ?e' (clear_table ?new (s\<lparr>vm_phys := r\<rparr>))"
      have nf: "free_table s ?new" using al by (auto simp: free_table_def)
      then have tn: "t \<noteq> ?new" using tf by blast
      have m: "vm_tables ?s = (?m(?new := (\<lambda>_. 0)))(t := (?m t)(?i := ?e'))" "vm_phys ?s = r"
        using tn by (simp_all add: write_entry_def clear_table_def)
      have z: "\<not> present (vm_tables ?s ?new j)" for j using m(1) tn by simp
      have wn: "a = ?new" if "(a, i) \<in> way n va ?new (vm_tables ?s)" for a i using that z by (cases n) (auto simp: Let_def)
      have fs: "free_table s a" if "free_table ?s a" for a using that al m(2) by (auto simp: free_table_def)
      have "\<not> free_table ?s ?new" using al m(2) by (auto simp: free_table_def phys_to_virt_inj)
      then have "\<forall>(a, i) \<in> way n va ?new (vm_tables ?s). \<not> free_table ?s a" using wn by blast
      moreover have "ensure_loop n va fl ?new ?s = (s', t')" using Suc.prems(2) False rx al0 by (simp add: Let_def)
      ultimately have IH: "\<forall>a i. vm_tables s' a i \<noteq> vm_tables ?s a i \<longrightarrow> free_table s a" "t' \<noteq> NULL \<longrightarrow> free_table s t'"
        using Suc.IH [of ?s ?new] al m(2) wn fs nf by simp_all blast+
      have "vm_tables ?s a i = ?m a i" if "(a, i) \<noteq> (t, ?i)" "a \<noteq> ?new" for a i using that m(1) by auto
      then show ?thesis using IH nf tw by metis
    qed
  qed
qed simp

lemma aligned_pt: "vmm_virt_to_pt_index (va AND PAGE_ALIGN_MASK) = vmm_virt_to_pt_index va"
proof -
  have "bit (va AND PAGE_ALIGN_MASK) n = bit va n" if "12 \<le> n" for n
  proof -
    have "PAGE_ALIGN_MASK = push_bit 12 (mask 52)" by (simp add: PAGE_ALIGN_MASK_def mask_eq_exp_minus_1 push_bit_eq_mult)
    moreover have "bit (push_bit 12 (mask 52) :: u64) n \<longleftrightarrow> 12 \<le> n \<and> n < 64" by (auto simp: bit_simps)
    ultimately show ?thesis using that by (auto simp: bit_and_iff dest: bit_imp_le_length)
  qed
  then show ?thesis unfolding vmm_virt_to_pt_index_def index_eq by auto
qed

lemma way_path: "va_path n va = va_path n va' \<Longrightarrow> vmm_virt_to_pt_index va = vmm_virt_to_pt_index va' \<Longrightarrow> way n va t m = way n va' t m"
  by (induction n arbitrary: t) (simp_all add: Let_def)

lemma map_writes:
  assumes wf: "region_wf (vm_phys s)" and ev: "nolock_vmm_map_page_containing_in root va phys fl s = (s', b)"
    and fr: "\<forall>(a, i) \<in> way 3 va root (vm_tables s). \<not> free_table s a" and ch: "vm_tables s' a i \<noteq> vm_tables s a i"
  shows "(a, i) \<in> way 3 va root (vm_tables s) \<or> free_table s a"
proof -
  let ?va = "va AND PAGE_ALIGN_MASK"
  have w: "way 3 ?va root m = way 3 va root m" for m by (rule way_path [OF aligned_path aligned_pt])
  obtain s1 t where st: "ensure_loop 3 ?va fl root s = (s1, t)" by fastforce
  note E = ensure_writes [OF wf st, unfolded w aligned_pt, OF fr]
  show ?thesis
  proof (cases "vm_tables s1 a i = vm_tables s a i")
    case True
    then have "t \<noteq> NULL \<and> (a, i) = (t, vmm_virt_to_pt_index va)"
      using ev st ch by (cases "t = NULL") (auto simp: nolock_vmm_map_page_containing_in_def ensure_tables_def Let_def write_entry_def vmm_invalidate_page_def split: if_splits)
    then show ?thesis using E by auto
  qed (use E in blast)
qed

lemma way_reach:
  assumes "(a, i) \<in> way n va t m" "reach m root p0 = Some t" "no_large m root p0 (va_path n va)"
  shows "\<exists>k \<le> n. reach m root (p0 @ take k (va_path n va)) = Some a \<and> (k = 0 \<longrightarrow> n \<noteq> 0 \<longrightarrow> i = hd (va_path n va))"
  using assms
proof (induction n arbitrary: t p0)
  case (Suc n)
  let ?j = "vmm_virt_to_table_index va (Suc n + 1)"
  consider "(a, i) = (t, ?j)" | "present (m t ?j)" "(a, i) \<in> way n va (child (m t ?j)) m" using Suc.prems(1) by (auto simp: Let_def split: if_splits)
  then show ?case
  proof cases
    case 1
    then show ?thesis using Suc.prems(2) by (intro exI [of _ 0]) simp
  next
    case 2
    have nl: "\<not> large_at m root p0 ?j" "no_large m root (p0 @ [?j]) (va_path n va)" using Suc.prems(3) by (simp_all add: no_large_Cons)
    then have "reach m root (p0 @ [?j]) = Some (child (m t ?j))" using Suc.prems(2) 2(1) by (simp add: reach_append large_at_def)
    from Suc.IH [OF 2(2) this nl(2)] obtain k where "k \<le> n" "reach m root (p0 @ [?j] @ take k (va_path n va)) = Some a" by auto
    then show ?thesis by (intro exI [of _ "Suc k"]) simp
  qed
qed simp

section \<open>Two address spaces that share the kernel\<close>

definition user_path :: "nat list \<Rightarrow> bool" where
  "user_path q \<longleftrightarrow> wpath q \<and> (q = [] \<or> hd q < KERNEL_BEGIN_ENTRY)"

definition spaces_ok :: "ptr \<Rightarrow> u64 \<Rightarrow> u64 \<Rightarrow> kmem \<Rightarrow> bool" where
  "spaces_ok rgn cr3 new s \<longleftrightarrow> km_ok cr3 rgn s \<and> km_ok new rgn s
     \<and> (\<forall>i. KERNEL_BEGIN_ENTRY \<le> i \<and> i < 512 \<longrightarrow> vm_tables (km_vm s) (root_of new) i = vm_tables (km_vm s) (root_of cr3) i)
     \<and> (\<forall>p q a. wpath p \<and> user_path q \<and> reach (vm_tables (km_vm s)) (root_of new) q = Some a \<longrightarrow> reach (vm_tables (km_vm s)) (root_of cr3) p \<noteq> Some a)"

lemma spaces_okD: "spaces_ok rgn cr3 new s \<Longrightarrow> km_ok cr3 rgn s" "spaces_ok rgn cr3 new s \<Longrightarrow> km_ok new rgn s"
  by (simp_all add: spaces_ok_def)

text \<open>Tables that agree where a tree leads give the same tree.\<close>

lemma reach_agree:
  assumes same: "\<forall>p a. wpath p \<and> reach m root p = Some a \<longrightarrow> m' a = m a" and "wpath p"
  shows "reach m' root p = reach m root p"
  using assms(2)
proof (induction p rule: rev_induct)
  case (snoc k p)
  then have p: "wpath p" by (simp add: wpath_snoc)
  show ?case using snoc.IH [OF p] same p by (cases "reach m root p") (simp_all add: reach_append)
qed simp

lemma tree_agree:
  assumes same: "\<forall>p a. wpath p \<and> reach m root p = Some a \<longrightarrow> m' a = m a"
  shows "tree_ok m F root \<Longrightarrow> tree_ok m' F root" "no_new_large m m' root" "wpath q \<Longrightarrow> pte_at m' root q j = pte_at m root q j"
proof -
  have r: "reach m' root p = reach m root p" if "wpath p" for p by (rule reach_agree [OF same that])
  show "tree_ok m F root \<Longrightarrow> tree_ok m' F root" using r unfolding tree_ok_def by metis
  show "pte_at m' root q j = pte_at m root q j" if "wpath q"
    using r [OF that] same that by (simp add: pte_at_def split: option.split)
  have "large_at m' root p j = large_at m root p j" if "wpath p" for p j
    using r [OF that] same that by (simp add: large_at_def split: option.split)
  then show "no_new_large m m' root" unfolding no_new_large_def by blast
qed

text \<open>A user page mapped in the new space: the current space sees nothing of it.\<close>

lemma kernel_reach:
  assumes ok: "spaces_ok rgn cr3 new s" and p: "wpath p" "p \<noteq> []" "\<not> user_path p"
  shows "reach (vm_tables (km_vm s)) (root_of new) p = reach (vm_tables (km_vm s)) (root_of cr3) p"
proof -
  obtain i q where q: "p = i # q" "KERNEL_BEGIN_ENTRY \<le> i" "i < 512" using p by (cases p) (auto simp: user_path_def wpath_def)
  then have "vm_tables (km_vm s) (root_of new) i = vm_tables (km_vm s) (root_of cr3) i" using ok by (simp add: spaces_ok_def)
  then show ?thesis using q(1) by simp
qed

definition user_va :: "u64 \<Rightarrow> bool" where
  "user_va va \<longleftrightarrow> vmm_virt_to_pml4_index va < KERNEL_BEGIN_ENTRY"

lemma user_map:
  assumes ok: "spaces_ok rgn cr3 new s" and va: "user_va va" "plain (root_of new) va (km_vm s)" and fl: "present (ucast (fl :: u16))"
    and ev: "nolock_vmm_map_page_containing_in (root_of new) va phys fl (mapper_view rgn s) = (v, b)"
  defines "s' \<equiv> mapper_store rgn v s"
  shows "spaces_ok rgn cr3 new s' \<and> (\<forall>f. data_frame cr3 rgn s f \<longrightarrow> data_frame cr3 rgn s' f)
    \<and> vm_tables (km_vm s') (root_of cr3) = vm_tables (km_vm s) (root_of cr3) \<and> (\<forall>va'. plain (root_of cr3) va' (km_vm s) \<longrightarrow> plain (root_of cr3) va' (km_vm s') \<and> pte_of cr3 va' s' = pte_of cr3 va' s)"
proof -
  let ?v = "mapper_view rgn s" and ?m = "vm_tables (km_vm s)" and ?m' = "vm_tables v" and ?c = "root_of cr3" and ?n = "root_of new"
  have vok: "vm_ok ?c ?v" "vm_ok ?n ?v" "\<not> vm_locked ?v" using ok by (simp_all add: spaces_ok_def km_ok_def)
  have pl: "plain ?n va ?v" using va(2) by simp
  note mp = map_page_ok [OF vok(2) pl ev fl] and fr = map_page_frame [OF vok(2) pl ev]
  have tc: "tree_ok ?m (free_pages (vm_phys ?v)) ?c" and tn: "tree_ok ?m (free_pages (vm_phys ?v)) ?n" using vok by (simp_all add: vm_ok_def)
  have nofree: "\<not> free_table ?v a" if "wpath p" "reach ?m ?n p = Some a \<or> reach ?m ?c p = Some a" for p a
    using that tree_okD(1) [OF tn that(1), of a] tree_okD(1) [OF tc that(1), of a] by (auto simp: free_table_def phys_to_virt_inj)
  have wayu: "\<exists>q. user_path q \<and> reach ?m ?n q = Some a \<and> (q = [] \<longrightarrow> i < KERNEL_BEGIN_ENTRY)" if w: "(a, i) \<in> way 3 va ?n ?m" for a i
  proof -
    obtain k where k: "k \<le> 3" "reach ?m ?n (take k (va_path 3 va)) = Some a" "k = 0 \<longrightarrow> i = hd (va_path 3 va)"
      using way_reach [OF w, of ?n "[]"] va(2) by auto
    have "user_path (take k (va_path 3 va))" using va(1) wpath_va(1) [of va] by (cases k) (auto simp: user_path_def user_va_def va_path_3 wpath_def dest: in_set_takeD)
    then show ?thesis using k va(1) by (intro exI [of _ "take k (va_path 3 va)"]) (auto simp: user_va_def va_path_3)
  qed
  have wnf: "\<forall>(a, i) \<in> way 3 va ?n (vm_tables ?v). \<not> free_table ?v a" using wayu nofree by (auto simp: user_path_def)
  have wf: "region_wf (vm_phys ?v)" using vok(1) by (simp add: vm_ok_def)
  have wr: "(a, i) \<in> way 3 va ?n ?m \<or> free_table ?v a" if "?m' a i \<noteq> ?m a i" for a i using map_writes [OF wf ev wnf] that by simp
  have sep: "reach ?m ?c p \<noteq> Some a" if "wpath p" "user_path q" "reach ?m ?n q = Some a" for p q a using ok that unfolding spaces_ok_def by blast
  have cur: "?m' a = ?m a" if "wpath p" "reach ?m ?c p = Some a" for p a
  proof (rule ext)
    fix i show "?m' a i = ?m a i" using wr [of a i] wayu [of a i] sep [OF that(1)] that nofree [OF that(1)] by blast
  qed
  have same: "\<forall>p a. wpath p \<and> reach ?m ?c p = Some a \<longrightarrow> ?m' a = ?m a" using cur by blast
  note ta = tree_agree [OF same]
  have rc: "reach ?m' ?c p = reach ?m ?c p" if "wpath p" for p by (rule reach_agree [OF same that])
  have free': "free_pages (vm_phys v) \<subseteq> free_pages (vm_phys ?v)" by (rule fr(2))
  have "tree_ok ?m' (free_pages (vm_phys v)) ?c" using ta(1) [OF tc] free' tree_ok_mono by blast
  then have okc: "km_ok cr3 rgn s'" using mp vok(3) by (simp add: km_ok_def s'_def vm_ok_def)
  have okn: "km_ok new rgn s'" using mp vok(3) by (simp add: km_ok_def s'_def)
  have ker: "?m' ?n i = ?m' ?c i" if i: "KERNEL_BEGIN_ENTRY \<le> i" "i < 512" for i
  proof -
    have "(?n, i) \<notin> way 3 va ?n ?m"
    proof
      assume "(?n, i) \<in> way 3 va ?n ?m"
      from wayu [OF this] obtain q where q: "user_path q" "reach ?m ?n q = Some ?n" "q = [] \<longrightarrow> i < KERNEL_BEGIN_ENTRY" by blast
      then have "q = []" using tree_okD(2) [OF tn, of q ?n "[]"] by (simp add: user_path_def wpath_def)
      then show False using q(3) i by simp
    qed
    then have "?m' ?n i = ?m ?n i" using wr [of ?n i] nofree [of "[]" ?n] by (auto simp: wpath_def)
    then show ?thesis using cur [of "[]" ?c] ok i by (simp add: wpath_def spaces_ok_def)
  qed
  have sep': "reach ?m' ?c p \<noteq> Some a" if p: "wpath p" and q: "user_path q" and r: "reach ?m' ?n q = Some a" for p q a
  proof
    assume c: "reach ?m' ?c p = Some a"
    then have c0: "reach ?m ?c p = Some a" using rc [OF p] by simp
    have wq: "wpath q" using q by (simp add: user_path_def)
    have "\<not> untouched ?n a v" using r wq by (auto simp: untouched_def)
    then have "\<not> untouched ?n a ?v" using fr(1) [of a] by (auto simp: keeps_def)
    then obtain r0 where r0: "wpath r0" "reach ?m ?n r0 = Some a" using nofree [OF p] c0 by (auto simp: untouched_def free_table_def)
    have nu: "\<not> user_path r0" using sep [OF p _ r0(2)] c0 by blast
    then obtain i q0 where iq: "r0 = i # q0" "KERNEL_BEGIN_ENTRY \<le> i" "i < 512" using r0(1) by (cases r0) (auto simp: user_path_def wpath_def)
    have "reach ?m' ?n r0 = reach ?m' ?c r0" using ker [OF iq(2,3)] iq(1) by simp
    also have "\<dots> = reach ?m ?c r0" by (rule rc [OF r0(1)])
    also have "\<dots> = reach ?m ?n r0" using kernel_reach [OF ok r0(1) _ nu] iq(1) by simp
    finally have "reach ?m' ?n r0 = Some a" using r0(2) by simp
    moreover have "tree_ok ?m' (free_pages (vm_phys v)) ?n" using mp by (simp add: vm_ok_def)
    ultimately have "r0 = q" using tree_okD(2) [OF _ r0(1)] wq r by blast
    then show False using nu q by simp
  qed
  have "spaces_ok rgn cr3 new s'" unfolding spaces_ok_def s'_def store_simps using okc [unfolded s'_def] okn [unfolded s'_def] ker sep' by blast
  moreover have "vm_tables (km_vm s') ?c = ?m ?c" using cur [of "[]" ?c] by (simp add: s'_def wpath_def)
  moreover have "data_frame cr3 rgn s' f" if "data_frame cr3 rgn s f" for f
    using that rc free' unfolding data_frame_def untouched_def s'_def store_simps view_simps by auto
  moreover have "plain ?c va' (km_vm s') \<and> pte_of cr3 va' s' = pte_of cr3 va' s" if p: "plain ?c va' (km_vm s)" for va'
  proof -
    have q: "plain ?c va' (km_vm s')" using plain_mono [where root = ?c and s = "km_vm s" and s' = "km_vm s'" and va = va'] p ta(2) by (simp add: s'_def)
    show ?thesis using q walk_eq [OF p] walk_eq [OF q] ta(3) [OF wpath_va(1)] by (simp add: s'_def)
  qed
  ultimately show ?thesis by blast
qed

text \<open>What a step of building the new space leaves alone in the current one: its pages and the frames that are neither free nor tables.\<close>

definition keeps_current :: "ptr \<Rightarrow> u64 \<Rightarrow> kmem \<Rightarrow> kmem \<Rightarrow> bool" where
  "keeps_current rgn cr3 s s' \<longleftrightarrow> (\<forall>f. data_frame cr3 rgn s f \<longrightarrow> data_frame cr3 rgn s' f)
     \<and> vm_tables (km_vm s') (root_of cr3) = vm_tables (km_vm s) (root_of cr3)
     \<and> (\<forall>va. plain (root_of cr3) va (km_vm s) \<longrightarrow> plain (root_of cr3) va (km_vm s') \<and> pte_of cr3 va s' = pte_of cr3 va s)"

lemma keeps_current_trans: "keeps_current rgn cr3 s s1 \<Longrightarrow> keeps_current rgn cr3 s1 s2 \<Longrightarrow> keeps_current rgn cr3 s s2"
  unfolding keeps_current_def by simp

lemma keeps_current_refl [simp]: "keeps_current rgn cr3 s s"
  by (simp add: keeps_current_def)

lemma km_user_map:
  assumes ok: "spaces_ok rgn cr3 new s" and va: "user_va va" "plain (root_of new) va (km_vm s)" and fl: "present (ucast (fl :: u16))"
  obtains s' b where "in_mapper rgn (vmm_map_page_in (root_of new) va phys fl) s = Some s'" "spaces_ok rgn cr3 new s'" "keeps_current rgn cr3 s s'"
    "km_step new rgn {va} {} s s'" "3 \<le> card (km_free rgn s) \<Longrightarrow> pte_of new va s' = vmm_phys_and_flags_to_table_entry phys (ucast fl)"
    "card (km_free rgn s) \<le> card (km_free rgn s') + 3" "pm_refs (km_mem s') = pm_refs (km_mem s)" "pm_pages (km_mem s') = pm_pages (km_mem s)"
proof -
  obtain v b where ev: "nolock_vmm_map_page_containing_in (root_of new) va phys fl (mapper_view rgn s) = (v, b)" by fastforce
  have okn: "km_ok new rgn s" using ok by (simp add: spaces_ok_def)
  then have nl: "\<not> vm_locked (mapper_view rgn s)" by (simp add: km_ok_def)
  have vm: "vmm_map_page_in (root_of new) va phys fl (mapper_view rgn s) = Some (v, b)" "vmm_map_page new va phys fl (mapper_view rgn s) = Some (v, b)"
    using ev nl by (simp_all add: vmm_map_page_in_def vmm_map_page_def vmm_map_page_containing_def vmm_map_page_containing_in_def)
  obtain s1 b1 where k: "\<And>k :: kmem \<Rightarrow> bool \<Rightarrow> (kmem \<times> bool) step_result. with_mapper rgn (vmm_map_page new va phys fl) s k = k s1 b1" and st: "km_step new rgn {va} {} s s1"
    and pe: "b1 \<Longrightarrow> pte_of new va s1 = vmm_phys_and_flags_to_table_entry phys (ucast fl)" and bb: "3 \<le> card (km_free rgn s) \<Longrightarrow> b1"
    and cd: "card (km_free rgn s) \<le> card (km_free rgn s1) + 3" and rf: "pm_refs (km_mem s1) = pm_refs (km_mem s)" "pm_pages (km_mem s1) = pm_pages (km_mem s)"
    by (rule km_map [OF okn va(2) fl, where phys = phys]) blast
  have e: "s1 = mapper_store rgn v s" "b1 = b" using k [of "\<lambda>s b. Done (s, b)"] vm(2) by (simp_all add: with_mapper_def)
  have "in_mapper rgn (vmm_map_page_in (root_of new) va phys fl) s = Some s1" using vm(1) e by (simp add: in_mapper_def)
  moreover have "spaces_ok rgn cr3 new s1" "keeps_current rgn cr3 s s1" using user_map [OF ok va fl ev] unfolding e keeps_current_def by blast+
  ultimately show thesis using that [of s1] st pe bb cd rf by blast
qed

section \<open>User pages by number\<close>

lemma pml4_index_unat: "vmm_virt_to_pml4_index va = (unat va div 549755813888) mod 512"
proof -
  have "drop_bit 39 va AND 0x1ff = take_bit 9 (drop_bit 39 va)" by (simp add: entry_masks take_bit_eq_mask)
  then show ?thesis by (simp add: vmm_virt_to_pml4_index_def take_bit_eq_mod drop_bit_eq_div unat_div unat_mod)
qed

lemma user_va_less: "unat va < 140737488355328 \<Longrightarrow> user_va va"
proof -
  assume "unat va < 140737488355328"
  then have "unat va div 549755813888 < 256" by simp
  then show "user_va va" by (simp add: user_va_def pml4_index_unat KERNEL_BEGIN_ENTRY_def)
qed

lemma same_page_unat:
  assumes "unat a < 140737488355328" "unat b < 140737488355328"
  shows "same_page a b \<longleftrightarrow> unat a div 4096 = unat b div 4096"
proof -
  have t: "unat (drop_bit 12 (take_bit 48 x)) = unat x div 4096" if "unat x < 140737488355328" for x :: u64
    using that by (simp add: drop_bit_eq_div unat_div unsigned_take_bit_eq take_bit_nat_eq_self)
  show ?thesis unfolding same_page_def using t [OF assms(1)] t [OF assms(2)] by (metis word_unat_eq_iff)
qed

lemma same_page_refl [simp]: "same_page a a" by (simp add: same_page_def)

lemma pte_same_page: "same_page a b \<Longrightarrow> pte_of cr3 a s = pte_of cr3 b s"
  by (simp add: same_page_iff va_path_3 vmm_virt_to_pt_entry_def Let_def)

lemma plain_same_page: "same_page a b \<Longrightarrow> plain root a vs = plain root b vs"
  by (simp add: same_page_iff)

lemma user_same_page: "same_page a b \<Longrightarrow> user_va a = user_va b"
  by (simp add: same_page_iff va_path_3 user_va_def)

text \<open>A new space before anything is mapped in it, and how it grows.\<close>

definition user_plain :: "u64 \<Rightarrow> kmem \<Rightarrow> bool" where
  "user_plain cr3 s \<longleftrightarrow> (\<forall>va. user_va va \<longrightarrow> plain (root_of cr3) va (km_vm s))"

lemma user_plain_step: "km_step cr3 rgn V W s s' \<Longrightarrow> user_plain cr3 s \<Longrightarrow> user_plain cr3 s'"
  using km_stepD(3) unfolding user_plain_def by blast

lemma user_plain_current: "keeps_current rgn cr3 s s' \<Longrightarrow> user_plain cr3 s \<Longrightarrow> user_plain cr3 s'"
  unfolding user_plain_def keeps_current_def by blast

section \<open>Steps on two spaces\<close>

text \<open>The predicates look at tables, lock and region only.\<close>

lemma view_cong:
  assumes "vm_tables (km_vm t) = vm_tables (km_vm s)" "vm_locked (km_vm t) = vm_locked (km_vm s)" "pm_region (km_mem t) rgn = pm_region (km_mem s) rgn"
  shows "km_ok c rgn t = km_ok c rgn s" "data_frame c rgn t f = data_frame c rgn s f" "pte_of c va t = pte_of c va s" "frame_data (km_vm t) f = frame_data (km_vm s) f"
    "spaces_ok rgn c n t = spaces_ok rgn c n s" "km_free rgn t = km_free rgn s"
proof -
  show k: "km_ok c rgn t = km_ok c rgn s" for c using assms by (simp add: km_ok_def vm_ok_def)
  show "data_frame c rgn t f = data_frame c rgn s f" using assms by (simp add: data_frame_def untouched_def)
  show "pte_of c va t = pte_of c va s" using assms by (simp add: vmm_virt_to_pt_entry_def Let_def)
  show "frame_data (km_vm t) f = frame_data (km_vm s) f" using assms by (simp add: frame_data_def)
  show "spaces_ok rgn c n t = spaces_ok rgn c n s" unfolding spaces_ok_def k assms(1) ..
  show "km_free rgn t = km_free rgn s" using assms by (simp add: km_free_def)
qed

lemma step_cong:
  assumes "vm_tables (km_vm t) = vm_tables (km_vm s)" "vm_locked (km_vm t) = vm_locked (km_vm s)" "pm_region (km_mem t) rgn = pm_region (km_mem s) rgn" "km_ok c rgn s"
  shows "km_step c rgn {} {} s t" "keeps_current rgn c s t"
  using assms(1,4) view_cong [OF assms(1-3)] by (simp_all add: km_step_def keeps_current_def)

definition take_frame :: "ptr \<Rightarrow> MemoryRegion \<Rightarrow> kmem \<Rightarrow> kmem" where
  "take_frame rgn r s = s\<lparr>km_mem := (km_mem s)\<lparr>pm_region := (pm_region (km_mem s))(rgn := r)\<rparr>\<rparr>"

lemma take_frame_ok:
  assumes ok: "km_ok c rgn s" and al: "page_alloc (pm_region (km_mem s) rgn) = (r, x)" "km_free rgn s \<noteq> {}"
  defines "t \<equiv> take_frame rgn r s"
  shows "km_step c rgn {} {} s t" "keeps_current rgn c s t" "data_frame c rgn t x" "table_frame x" "x AND 0xff = 0" "pfn x \<in> km_free rgn s"
    "km_free rgn t = km_free rgn s - {pfn x}" "km_vm t = km_vm s"
proof -
  let ?v = "mapper_view rgn s"
  have vok: "vm_ok (root_of c) ?v" using ok by (simp add: km_ok_def)
  note ff = fresh_frame [OF vok, of r x, simplified, OF al [unfolded km_free_def]]
  show vm: "km_vm t = km_vm s" by (simp add: t_def take_frame_def)
  show fr: "km_free rgn t = km_free rgn s - {pfn x}" using ff(3) by (simp add: t_def take_frame_def km_free_def)
  show x: "table_frame x" "pfn x \<in> km_free rgn s" using ff by (simp_all add: km_free_def)
  show "x AND 0xff = 0" using page_aligned_low x(1) by (simp add: table_frame_def)
  show st: "km_step c rgn {} {} s t" using ff(4) fr by (intro km_take [OF ok vm]) (auto simp: t_def take_frame_def)
  show "keeps_current rgn c s t" unfolding keeps_current_def using km_stepD(5) [OF st] vm by auto
  show "data_frame c rgn t x" using x by (intro km_taken_data [OF ok vm _ _ fr]) (simp_all add: table_frame_def)
qed

lemma take_frame_spaces:
  assumes ok: "spaces_ok rgn cr3 new s" and al: "page_alloc (pm_region (km_mem s) rgn) = (r, x)" "km_free rgn s \<noteq> {}"
  shows "spaces_ok rgn cr3 new (take_frame rgn r s)"
proof -
  let ?t = "take_frame rgn r s"
  have k: "km_ok cr3 rgn ?t" "km_ok new rgn ?t"
    using km_stepD(1) [OF take_frame_ok(1) [OF _ al]] spaces_okD [OF ok] by blast+
  have v: "km_vm ?t = km_vm s" by (rule take_frame_ok(8) [OF spaces_okD(1) [OF ok] al])
  show ?thesis using ok k unfolding spaces_ok_def v by blast
qed

lemma refs_step:
  fixes r :: "RefCountMap option"
  assumes "spaces_ok rgn cr3 new s"
  defines "s' \<equiv> s\<lparr>km_mem := (km_mem s)\<lparr>pm_refs := r\<rparr>\<rparr>"
  shows "spaces_ok rgn cr3 new s'" "keeps_current rgn cr3 s s'" "km_step new rgn {} {} s s'" "km_free rgn s' = km_free rgn s" "km_vm s' = km_vm s"
proof -
  have v: "mapper_view rgn s' = mapper_view rgn s" and vm: "km_vm s' = km_vm s" by (simp_all add: s'_def mapper_view_def)
  have d: "data_frame c rgn s' f = data_frame c rgn s f" for c f unfolding data_frame_def v ..
  have k: "km_ok c rgn s' = km_ok c rgn s" for c unfolding km_ok_def v vm ..
  show "spaces_ok rgn cr3 new s'" using assms(1) unfolding spaces_ok_def k vm .
  show "keeps_current rgn cr3 s s'" unfolding keeps_current_def d vm by simp
  show fr: "km_free rgn s' = km_free rgn s" by (simp add: km_free_def s'_def)
  show "km_step new rgn {} {} s s'" using assms(1) unfolding km_step_def d k vm fr spaces_ok_def by simp
  show "km_vm s' = km_vm s" by (rule vm)
qed

lemma unat_next_page: "unat p + 4096 < 18446744073709551616 \<Longrightarrow> unat (p + VM_PAGE_SIZE) = unat p + 4096"
  using unat_add_lem [of p VM_PAGE_SIZE] by (simp add: VM_PAGE_SIZE_def)

end
