(* ===== verification/Address_Space.thy ===== *)
theory Address_Space
  imports Two_Spaces
begin

text \<open>
  Address spaces, \<^verbatim>\<open>kernel/process/address_space.c\<close>: the page table root of a new process, which shares the kernel's half of the
  current one, the pages it shares with its parent, and its initial stack. The state is the joined state of allocators and page
  tables. The loops over addresses are written with the machine's arithmetic and may not end; a loop that does not end, or waits for the mapper's lock for
  ever, gives \<open>None\<close>, which the whole operation reports as \<open>Spins\<close>. The result of an increment of a reference count is ignored by the code; its allocations are an
  argument, as are the contents of the slots of the array of stack pages that are read without having been written.
\<close>

section \<open>Data\<close>

definition INIT_STACK_ARG_PAGES_COUNT :: nat where
  "INIT_STACK_ARG_PAGES_COUNT = 33"

definition MAX_STACK_VALUE_COUNT :: nat where
  "MAX_STACK_VALUE_COUNT = (INIT_STACK_ARG_PAGES_COUNT - 1) * 4096 div 8"

definition PG_EXEC :: u64 where
  "PG_EXEC = 0"

record AddressSpaceRegion =
  as_start :: u64
  as_len_bytes :: u64

section \<open>Initialisation\<close>

text \<open>One entry of the kernel's half: a missing table is allocated, linked and cleared.\<close>

definition init_kernel_entry :: "ptr \<Rightarrow> nat \<Rightarrow> vm \<Rightarrow> vm \<times> bool" where
  "init_kernel_entry pml4 i s =
     (if vm_tables s pml4 i AND PG_PRESENT = 0 then
        let (region, new_pdpt) = page_alloc (vm_phys s); s = s\<lparr>vm_phys := region\<rparr>
        in if new_pdpt AND 0xff \<noteq> 0 then (s, False)
           else
             let s = write_entry pml4 i (vmm_phys_and_flags_to_table_entry new_pdpt (PG_READ OR PG_WRITE OR PG_PRESENT)) s;
                 vaddr = vmm_phys_to_virt new_pdpt;
                 s = vmm_invalidate_page vaddr s
             in (clear_table vaddr s, True)
      else (s, True))"

fun init_kernel_entries :: "ptr \<Rightarrow> nat list \<Rightarrow> vm \<Rightarrow> vm \<times> bool" where
  "init_kernel_entries pml4 [] s = (s, True)"
| "init_kernel_entries pml4 (i # js) s =
     (case init_kernel_entry pml4 i s of (s, ok) \<Rightarrow> if ok then init_kernel_entries pml4 js s else (s, False))"

definition address_space_init :: "u64 \<Rightarrow> vm \<Rightarrow> vm \<times> bool" where
  "address_space_init cr3 s = init_kernel_entries (vmm_phys_to_virt cr3) [KERNEL_BEGIN_ENTRY..<512] s"

section \<open>Creation\<close>

text \<open>The new root: user space empty, kernel space copied.\<close>

definition new_root :: "u64 \<Rightarrow> u64 \<Rightarrow> vm \<Rightarrow> vm" where
  "new_root cr3 new_pml4_phys s =
     (let new_pml4_virt = vmm_phys_to_virt new_pml4_phys;
          s = vmm_invalidate_page new_pml4_virt s
      in s\<lparr>vm_tables := (vm_tables s)(new_pml4_virt :=
           (\<lambda>i. if i < KERNEL_BEGIN_ENTRY then 0 else if i < 512 then vm_tables s (vmm_phys_to_virt cr3) i else vm_tables s new_pml4_virt i))\<rparr>)"

definition shared_flags :: u16 where
  "shared_flags = ucast (PG_PRESENT OR PG_READ OR PG_USER OR PG_EXEC OR PG_COPY_ON_WRITE)"

text \<open>One page of a shared region: a page that is there is mapped in the new space and its frame is counted.\<close>

definition share_page :: "ptr \<Rightarrow> u64 \<Rightarrow> (u64 \<Rightarrow> bool \<times> (nat \<Rightarrow> bool) \<times> bool) \<Rightarrow> u64 \<Rightarrow> u64 \<Rightarrow> kmem \<Rightarrow> kmem option" where
  "share_page rgn cr3 env new_pml4_phys p s =
     (let shared_phys = vmm_virt_to_phys_page cr3 p (km_vm s)
      in if shared_phys \<noteq> 0
         then map_option (\<lambda>s. s\<lparr>km_mem := (km_mem s)\<lparr>pm_refs := fst (refs_inc (env p) shared_phys (pm_refs (km_mem s)))\<rparr>\<rparr>)
                (in_mapper rgn (vmm_map_page_in (vmm_phys_to_virt new_pml4_phys) p shared_phys shared_flags) s)
         else Some s)"

partial_function (option) share_loop :: "ptr \<Rightarrow> u64 \<Rightarrow> (u64 \<Rightarrow> bool \<times> (nat \<Rightarrow> bool) \<times> bool) \<Rightarrow> u64 \<Rightarrow> u64 \<Rightarrow> u64 \<Rightarrow> kmem \<Rightarrow> kmem option" where
  "share_loop rgn cr3 env new_pml4_phys region_end p s =
     (if p < region_end
      then case share_page rgn cr3 env new_pml4_phys p s of
             None \<Rightarrow> None
           | Some s \<Rightarrow> share_loop rgn cr3 env new_pml4_phys region_end (p + VM_PAGE_SIZE) s
      else Some s)"

fun share_regions :: "ptr \<Rightarrow> u64 \<Rightarrow> (u64 \<Rightarrow> bool \<times> (nat \<Rightarrow> bool) \<times> bool) \<Rightarrow> u64 \<Rightarrow> AddressSpaceRegion list \<Rightarrow> kmem \<Rightarrow> kmem option" where
  "share_regions rgn cr3 env new_pml4_phys [] s = Some s"
| "share_regions rgn cr3 env new_pml4_phys (r # rs) s =
     (case share_loop rgn cr3 env new_pml4_phys (as_start r + as_len_bytes r) (as_start r) s of
        None \<Rightarrow> None
      | Some s \<Rightarrow> share_regions rgn cr3 env new_pml4_phys rs s)"

definition stack_flags :: u16 where
  "stack_flags = ucast (PG_READ OR PG_WRITE OR PG_PRESENT OR PG_USER)"

text \<open>The pages of the initial stack, from the top down, with the frames of the first ones recorded.\<close>

partial_function (option) stack_loop :: "ptr \<Rightarrow> u64 \<Rightarrow> u64 \<Rightarrow> u64 \<Rightarrow> u64 list \<Rightarrow> kmem \<Rightarrow> (kmem \<times> u64 list \<times> bool) option" where
  "stack_loop rgn new_pml4_phys init_stack_vaddr p pages s =
     (if p \<ge> init_stack_vaddr then
        let (region, stack_page) = page_alloc (pm_region (km_mem s) rgn);
            s = s\<lparr>km_mem := (km_mem s)\<lparr>pm_region := (pm_region (km_mem s))(rgn := region)\<rparr>\<rparr>
        in if stack_page AND 0xff \<noteq> 0 then Some (s, pages, False)
           else
             let pages = (if length pages < INIT_STACK_ARG_PAGES_COUNT then pages @ [stack_page] else pages)
             in case in_mapper rgn (vmm_map_page_in (vmm_phys_to_virt new_pml4_phys) p stack_page stack_flags) s of
                  None \<Rightarrow> None
                | Some s \<Rightarrow> stack_loop rgn new_pml4_phys init_stack_vaddr (p - VM_PAGE_SIZE) pages s
      else Some (s, pages, True))"

text \<open>The initial values of the stack, from the last to the first, through the CPU's temporary page. \<open>pos\<close> is the number of words of that page below
  \<^verbatim>\<open>temp_stack_bottom\<close>; \<open>slot\<close> is the array of stack pages.\<close>

definition store_word :: "u64 \<Rightarrow> u64 \<Rightarrow> nat \<Rightarrow> u64 \<Rightarrow> kmem \<Rightarrow> (kmem \<Rightarrow> 'a step_result) \<Rightarrow> 'a step_result" where
  "store_word cr3 va j w s k =
     (case mmu_frame cr3 va (km_vm s) of
        None \<Rightarrow> Faults va
      | Some f \<Rightarrow> k (s\<lparr>km_vm := set_frame f ((frame_data (km_vm s) f)(j := w)) (km_vm s)\<rparr>))"

fun push_values :: "ptr \<Rightarrow> u64 \<Rightarrow> u64 \<Rightarrow> (nat \<Rightarrow> u64) \<Rightarrow> u64 list \<Rightarrow> nat \<Rightarrow> nat \<Rightarrow> kmem \<Rightarrow> kmem step_result" where
  "push_values rgn cr3 temp slot stack_values 0 pos s = Done s"
| "push_values rgn cr3 temp slot stack_values (Suc i) pos s =
     (if pos = 0
      then with_mapper rgn (vmm_map_page cr3 temp (slot (i div 512)) (ucast (PG_READ OR PG_WRITE OR PG_PRESENT))) s
             (\<lambda>s _. store_word cr3 temp 511 (stack_values ! i) s (push_values rgn cr3 temp slot stack_values i 511))
      else store_word cr3 temp (pos - 1) (stack_values ! i) s (push_values rgn cr3 temp slot stack_values i (pos - 1)))"

definition address_space_create :: "ptr \<Rightarrow> u64 \<Rightarrow> u8 \<Rightarrow> (u64 \<Rightarrow> bool \<times> (nat \<Rightarrow> bool) \<times> bool) \<Rightarrow> (nat \<Rightarrow> u64) \<Rightarrow> u64 \<Rightarrow> u64
    \<Rightarrow> AddressSpaceRegion list \<Rightarrow> u64 list \<Rightarrow> kmem \<Rightarrow> (kmem \<times> u64) step_result" where
  "address_space_create rgn cr3 cpu_id env uninit init_stack_vaddr init_stack_len regions stack_values s =
     (let init_stack_vaddr = init_stack_vaddr AND NOT 0xfff;
          init_stack_end = init_stack_vaddr + init_stack_len;
          (region, new_pml4_phys) = page_alloc (pm_region (km_mem s) rgn);
          s = s\<lparr>km_mem := (km_mem s)\<lparr>pm_region := (pm_region (km_mem s))(rgn := region)\<rparr>\<rparr>
      in if new_pml4_phys AND 0xff \<noteq> 0 then Done (s, 0)
         else
           let s = s\<lparr>km_vm := new_root cr3 new_pml4_phys (km_vm s)\<rparr>
           in case share_regions rgn cr3 env new_pml4_phys regions s of
                None \<Rightarrow> Spins
              | Some s \<Rightarrow>
                  case (if init_stack_len \<noteq> 0 then stack_loop rgn new_pml4_phys init_stack_vaddr (init_stack_end - VM_PAGE_SIZE) [] s
                        else Some (s, [], True)) of
                    None \<Rightarrow> Spins
                  | Some (s, pages, ok) \<Rightarrow>
                      let drop_root = (\<lambda>s. s\<lparr>km_vm := vmm_invalidate_page (vmm_phys_to_virt new_pml4_phys) (km_vm s)\<rparr>)
                      in if \<not> ok then Done (drop_root s, 0)
                         else
                           let temp = vmm_per_cpu_temp_page_addr cpu_id;
                               slot = (\<lambda>j. if j < length pages then pages ! j else uninit j)
                           in case push_values rgn cr3 temp slot stack_values (length stack_values) 0 s of
                                Done s \<Rightarrow> with_mapper rgn (vmm_unmap_page cr3 temp) s (\<lambda>s _. Done (drop_root s, new_pml4_phys))
                              | Panics \<Rightarrow> Panics
                              | Faults a \<Rightarrow> Faults a
                              | Spins \<Rightarrow> Spins)"

section \<open>The new root\<close>

lemma new_root_ok:
  assumes ok: "km_ok cr3 rgn s" and al: "page_alloc (pm_region (km_mem s) rgn) = (r, new)" "km_free rgn s \<noteq> {}"
  defines "t \<equiv> (take_frame rgn r s)\<lparr>km_vm := new_root cr3 new (km_vm s)\<rparr>"
  shows "spaces_ok rgn cr3 new t" "keeps_current rgn cr3 s t" "km_free rgn t = km_free rgn s - {pfn new}" "user_plain new t"
    "user_va va \<Longrightarrow> pte_of new va t = 0" "data_frame cr3 rgn s f \<Longrightarrow> frame_data (km_vm t) f = frame_data (km_vm s) f \<and> data_frame new rgn t f"
proof -
  note tk = take_frame_ok [OF ok al]
  let ?s1 = "take_frame rgn r s" and ?m = "vm_tables (km_vm s)" and ?n = "root_of new" and ?c = "root_of cr3"
  define d where "d = (\<lambda>i. if i < KERNEL_BEGIN_ENTRY then 0 else if i < 512 then ?m ?c i else ?m ?n i)"
  define t1 where "t1 = ?s1\<lparr>km_vm := set_frame new d (km_vm ?s1)\<rparr>"
  note kw = km_write [OF km_stepD(1) [OF tk(1)] tk(3), where d = d, folded t1_def]
  have mt: "vm_tables (km_vm t1) = ?m(?n := d)" by (simp add: t1_def set_frame_def tk(8))
  have c: "vm_tables (km_vm t) = vm_tables (km_vm t1)" "vm_locked (km_vm t) = vm_locked (km_vm t1)" "pm_region (km_mem t) rgn = pm_region (km_mem t1) rgn"
    by (simp_all add: t_def t1_def new_root_def set_frame_def vmm_invalidate_page_def Let_def tk(8) d_def fun_eq_iff)
  note vc = view_cong [OF c]
  let ?m' = "?m(?n := d)"
  have tc: "tree_ok ?m (km_free rgn s) ?c" using ok by (simp add: km_ok_def vm_ok_def km_free_def)
  have nf: "reach ?m ?c p \<noteq> Some ?n" if "wpath p" for p
    using tree_okD(1) [OF tc that, of ?n] tk(6) by (auto simp: phys_to_virt_inj)
  have rc: "reach ?m' ?c p = reach ?m ?c p" if "wpath p" for p by (rule reach_data [OF nf that])
  have nc: "?n \<noteq> ?c" using nf [of "[]"] by (auto simp: wpath_def)
  have rn: "reach ?m' ?n (i # q) = (if i < KERNEL_BEGIN_ENTRY then None else reach ?m ?c (i # q))" if "wpath (i # q)" for i q
  proof -
    have "i < 512" using that by (simp add: wpath_def)
    then have "reach ?m' ?n (i # q) = (if i < KERNEL_BEGIN_ENTRY then None else reach ?m' ?c (i # q))" using nc by (simp add: d_def)
    then show ?thesis using rc [OF that] by simp
  qed
  have tn: "tree_ok ?m' (km_free rgn s - {pfn new}) ?n" unfolding tree_ok_def
  proof (intro conjI allI impI)
    fix p a assume p: "wpath p \<and> reach ?m' ?n p = Some a"
    show "\<exists>f. a = root_of f \<and> table_frame f \<and> pfn f \<notin> km_free rgn s - {pfn new}"
    proof (cases p)
      case Nil
      then show ?thesis using p tk(4) by auto
    next
      case (Cons i q)
      then show ?thesis using p rn [of i q] tree_okD(1) [OF tc, of p a] by (auto split: if_splits)
    qed
  next
    fix p q a assume pq: "wpath p \<and> wpath q \<and> reach ?m' ?n p = Some a \<and> reach ?m' ?n q = Some a"
    have via: "reach ?m ?c p' = Some a \<and> a \<noteq> ?n" if w: "wpath p'" and r: "reach ?m' ?n p' = Some a" and n: "p' \<noteq> []" for p'
    proof -
      obtain i q where p': "p' = i # q" using n by (cases p') auto
      then have "reach ?m ?c p' = Some a" using w r rn [of i q] by (simp del: reach.simps split: if_splits)
      then show ?thesis using nf [OF w] by auto
    qed
    have nil: "a = ?n" if "reach ?m' ?n [] = Some a" using that by simp
    show "p = q"
      using pq via [of p] via [of q] nil tree_okD(2) [OF tc, of p a q] by (cases "p = []"; cases "q = []") auto
  qed
  have okn: "km_ok new rgn t1" using km_stepD(1) [OF kw(1)] tn tk(7) km_stepD(1) [OF tk(1)]
    unfolding km_ok_def vm_ok_def view_simps mt by (simp add: t1_def km_free_def)
  have ker: "?m' ?n i = ?m' ?c i" if "KERNEL_BEGIN_ENTRY \<le> i" "i < 512" for i using that nc by (simp add: d_def)
  have sep: "reach ?m' ?c p \<noteq> Some a" if "wpath p" "user_path q" "reach ?m' ?n q = Some a" for p q a
  proof (cases q)
    case Nil
    then show ?thesis using that nf rc by auto
  next
    case (Cons i q')
    then show ?thesis using that rn [of i q'] by (simp add: user_path_def)
  qed
  have "spaces_ok rgn cr3 new t1" unfolding spaces_ok_def mt using km_stepD(1) [OF kw(1)] okn ker sep by blast
  then show "spaces_ok rgn cr3 new t" unfolding vc .
  show "km_free rgn t = km_free rgn s - {pfn new}" unfolding vc using tk(7) by (simp add: t1_def km_free_def)
  have st: "km_step cr3 rgn {} {new} s t1" using km_step_trans [OF tk(1) kw(1)] by simp
  show "keeps_current rgn cr3 s t" unfolding keeps_current_def vc c(1)
    using km_stepD(3-5) [OF st] mt nc by auto
  show "user_plain new t" unfolding user_plain_def c(1) mt no_large_3
  proof (intro allI impI conjI)
    fix va assume u: "user_va va"
    have z: "reach ?m' ?n (vmm_virt_to_pml4_index va # q) = None" for q using u by (simp add: d_def user_va_def)
    show "\<not> large_at ?m' ?n [] (vmm_virt_to_pml4_index va)" using u by (simp add: large_at_def d_def user_va_def)
    show "\<not> large_at ?m' ?n [vmm_virt_to_pml4_index va] (vmm_virt_to_pdpt_index va)" using z [of "[]"] by (simp add: large_at_def)
    show "\<not> large_at ?m' ?n [vmm_virt_to_pml4_index va, vmm_virt_to_pdpt_index va] (vmm_virt_to_pd_index va)" using z by (simp add: large_at_def)
  qed
  show "pte_of new va t = 0" if "user_va va" unfolding vc using that by (simp add: vmm_virt_to_pt_entry_def Let_def mt d_def user_va_def)
  assume f: "data_frame cr3 rgn s f"
  have fn: "f \<noteq> new" using f tk(6) by (auto simp: data_frame_def untouched_def km_free_def)
  have "reach ?m' ?n p \<noteq> Some (root_of f)" if "wpath p" for p
    using that rn fn f by (cases p) (auto simp: phys_to_virt_inj data_frame_def untouched_def split: if_splits)
  then have "data_frame new rgn t1 f" using f tk(7) unfolding data_frame_def untouched_def view_simps mt
    by (simp add: t1_def km_free_def take_frame_def phys_to_virt_inj)
  then show "frame_data (km_vm t) f = frame_data (km_vm s) f \<and> data_frame new rgn t f" unfolding vc using km_stepD(6) [OF st f] fn by simp
qed

section \<open>Sharing pages\<close>

lemma shared_flags_ok: "present (ucast shared_flags)" "shared_flags < 0x1000"
  by (simp_all add: shared_flags_def PG_PRESENT_def PG_READ_def PG_USER_def PG_EXEC_def PG_COPY_ON_WRITE_def)

lemma stack_flags_ok: "present (ucast stack_flags)" "stack_flags < 0x1000"
  by (simp_all add: stack_flags_def PG_PRESENT_def PG_READ_def PG_USER_def PG_WRITE_def)

abbreviation phys_of :: "u64 \<Rightarrow> u64 \<Rightarrow> kmem \<Rightarrow> u64" where
  "phys_of cr3 va s \<equiv> vmm_virt_to_phys_page cr3 va (km_vm s)"

text \<open>The pages of \<open>V\<close> that the current space has are in the new one, on the same frames and copy-on-write; nothing else changed there.\<close>

definition shares :: "ptr \<Rightarrow> u64 \<Rightarrow> u64 \<Rightarrow> u64 set \<Rightarrow> kmem \<Rightarrow> kmem \<Rightarrow> bool" where
  "shares rgn cr3 new V s s' \<longleftrightarrow> spaces_ok rgn cr3 new s' \<and> keeps_current rgn cr3 s s' \<and> km_step new rgn V {} s s'
     \<and> (\<forall>va. user_va va \<longrightarrow> pte_of new va s' = (if (\<exists>v \<in> V. same_page va v) \<and> phys_of cr3 va s \<noteq> 0
          then vmm_phys_and_flags_to_table_entry (phys_of cr3 va s) (ucast shared_flags) else pte_of new va s))"

lemma shares_refl: "spaces_ok rgn cr3 new s \<Longrightarrow> shares rgn cr3 new {} s s"
  using spaces_okD(2) by (simp add: shares_def km_step_def)

lemma shares_trans:
  assumes a: "shares rgn cr3 new V s s1" and b: "shares rgn cr3 new V' s1 s2" and pl: "user_plain cr3 s"
  shows "shares rgn cr3 new (V \<union> V') s s2"
proof -
  have "phys_of cr3 va s1 = phys_of cr3 va s" if "user_va va" for va
    using a pl that unfolding shares_def keeps_current_def user_plain_def vmm_virt_to_phys_page_def by metis
  then show ?thesis using a b km_step_trans [of new rgn V "{}" s s1 V' "{}" s2] keeps_current_trans [of rgn cr3 s s1 s2]
    unfolding shares_def by auto
qed

lemma share_page_ok:
  assumes ok: "spaces_ok rgn cr3 new s" and pl: "user_plain cr3 s" "user_plain new s" and va: "user_va p" and mem: "3 \<le> card (km_free rgn s)"
  shows "\<exists>s'. share_page rgn cr3 env new p s = Some s' \<and> shares rgn cr3 new {p} s s' \<and> card (km_free rgn s) \<le> card (km_free rgn s') + 3"
proof (cases "phys_of cr3 p s = 0")
  case True
  have "phys_of cr3 va s = 0" if "same_page va p" for va using pte_same_page [OF that] True by (simp add: vmm_virt_to_phys_page_def)
  moreover have "km_step new rgn {p} {} s s" using ok by (simp add: km_step_def spaces_ok_def)
  ultimately have "shares rgn cr3 new {p} s s" using ok by (auto simp: shares_def)
  then show ?thesis using True by (auto simp: share_page_def)
next
  case False
  have plp: "plain (root_of new) p (km_vm s)" using pl(2) va by (simp add: user_plain_def)
  obtain s1 where s1: "in_mapper rgn (vmm_map_page_in (root_of new) p (phys_of cr3 p s) shared_flags) s = Some s1" "spaces_ok rgn cr3 new s1" "keeps_current rgn cr3 s s1"
    "km_step new rgn {p} {} s s1" "pte_of new p s1 = vmm_phys_and_flags_to_table_entry (phys_of cr3 p s) (ucast shared_flags)"
    "card (km_free rgn s) \<le> card (km_free rgn s1) + 3"
    by (rule km_user_map [OF ok va plp shared_flags_ok(1), where phys = "phys_of cr3 p s"]) (use mem in blast)
  define s' where "s' = s1\<lparr>km_mem := (km_mem s1)\<lparr>pm_refs := fst (refs_inc (env p) (phys_of cr3 p s) (pm_refs (km_mem s1)))\<rparr>\<rparr>"
  note r = refs_step [OF s1(2), of "fst (refs_inc (env p) (phys_of cr3 p s) (pm_refs (km_mem s1)))", folded s'_def]
  have "pte_of new va s' = (if same_page va p \<and> phys_of cr3 va s \<noteq> 0 then vmm_phys_and_flags_to_table_entry (phys_of cr3 va s) (ucast shared_flags) else pte_of new va s)"
    if u: "user_va va" for va
  proof (cases "same_page va p")
    case True
    then show ?thesis using pte_same_page [OF True] s1(5) False r(5) by (simp add: vmm_virt_to_phys_page_def)
  next
    case f: False
    then show ?thesis using km_stepD(4) [OF s1(4), of va] pl(2) u r(5) by (simp add: user_plain_def)
  qed
  moreover have "km_step new rgn {p} {} s s'" using km_step_trans [OF s1(4) r(3)] by simp
  ultimately have "shares rgn cr3 new {p} s s'" using r(1) keeps_current_trans [OF s1(3) r(2)] by (simp add: shares_def)
  moreover have "share_page rgn cr3 env new p s = Some s'" using False s1(1) by (simp add: share_page_def s'_def Let_def)
  ultimately show ?thesis using s1(6) r(4) by auto
qed

fun pages_from :: "u64 \<Rightarrow> nat \<Rightarrow> u64 list" where
  "pages_from p 0 = []"
| "pages_from p (Suc n) = p # pages_from (p + VM_PAGE_SIZE) n"

lemma share_loop_ok:
  assumes "spaces_ok rgn cr3 new s" "user_plain cr3 s" "user_plain new s" "3 * n \<le> card (km_free rgn s)"
    "unat p + 4096 * n \<le> 140737488355328" "unat e = unat p + 4096 * n"
  shows "\<exists>s'. share_loop rgn cr3 env new e p s = Some s' \<and> shares rgn cr3 new (set (pages_from p n)) s s'
    \<and> card (km_free rgn s) \<le> card (km_free rgn s') + 3 * n"
  using assms
proof (induction n arbitrary: p s)
  case 0
  then have "\<not> p < e" by (simp add: word_less_nat_alt)
  then show ?case using 0 shares_refl by (simp add: share_loop.simps [of _ _ _ _ _ p])
next
  case (Suc n)
  have lt: "p < e" using Suc.prems(6) by (simp add: word_less_nat_alt)
  have u: "user_va p" using Suc.prems(5) by (intro user_va_less) simp
  have q: "unat (p + VM_PAGE_SIZE) = unat p + 4096" using Suc.prems(5) by (intro unat_next_page) simp
  obtain s1 where s1: "share_page rgn cr3 env new p s = Some s1" "shares rgn cr3 new {p} s s1" "card (km_free rgn s) \<le> card (km_free rgn s1) + 3"
    using share_page_ok [OF Suc.prems(1,2,3) u] Suc.prems(4) by auto
  have ok1: "spaces_ok rgn cr3 new s1" "user_plain cr3 s1" "user_plain new s1"
    using s1(2) user_plain_current [OF _ Suc.prems(2)] user_plain_step [OF _ Suc.prems(3)] unfolding shares_def by blast+
  have b: "3 * n \<le> card (km_free rgn s1)" "unat (p + VM_PAGE_SIZE) + 4096 * n \<le> 140737488355328" "unat e = unat (p + VM_PAGE_SIZE) + 4096 * n"
    using Suc.prems(4,5,6) s1(3) q by simp_all
  obtain s' where s': "share_loop rgn cr3 env new e (p + VM_PAGE_SIZE) s1 = Some s'" "shares rgn cr3 new (set (pages_from (p + VM_PAGE_SIZE) n)) s1 s'"
    "card (km_free rgn s1) \<le> card (km_free rgn s') + 3 * n"
    using Suc.IH [OF ok1 b] by blast
  have "share_loop rgn cr3 env new e p s = Some s'" using s'(1) s1(1) lt by (simp add: share_loop.simps [of _ _ _ _ _ p])
  moreover have "shares rgn cr3 new (set (pages_from p (Suc n))) s s'" using shares_trans [OF s1(2) s'(2) Suc.prems(2)] by simp
  ultimately show ?case using s'(3) s1(3) by auto
qed

text \<open>The pages of a list of regions; a region is sound when its length is a whole number of pages and it ends in user space.\<close>

definition region_sound :: "AddressSpaceRegion \<Rightarrow> bool" where
  "region_sound r \<longleftrightarrow> unat (as_len_bytes r) mod 4096 = 0 \<and> unat (as_start r) + unat (as_len_bytes r) \<le> 140737488355328"

definition region_pages :: "AddressSpaceRegion list \<Rightarrow> u64 set" where
  "region_pages rs = (\<Union>r \<in> set rs. set (pages_from (as_start r) (unat (as_len_bytes r) div 4096)))"

definition region_count :: "AddressSpaceRegion list \<Rightarrow> nat" where
  "region_count rs = (\<Sum>r \<leftarrow> rs. unat (as_len_bytes r) div 4096)"

lemma share_regions_ok:
  assumes "spaces_ok rgn cr3 new s" "user_plain cr3 s" "user_plain new s" "3 * region_count rs \<le> card (km_free rgn s)" "\<forall>r \<in> set rs. region_sound r"
  shows "\<exists>s'. share_regions rgn cr3 env new rs s = Some s' \<and> shares rgn cr3 new (region_pages rs) s s'
    \<and> card (km_free rgn s) \<le> card (km_free rgn s') + 3 * region_count rs"
  using assms
proof (induction rs arbitrary: s)
  case Nil
  then show ?case using shares_refl by (simp add: region_pages_def region_count_def)
next
  case (Cons r rs)
  let ?n = "unat (as_len_bytes r) div 4096"
  have rd: "unat (as_len_bytes r) = 4096 * ?n" "unat (as_start r) + 4096 * ?n \<le> 140737488355328" using Cons.prems(5) by (auto simp: region_sound_def)
  have e: "unat (as_start r + as_len_bytes r) = unat (as_start r) + 4096 * ?n" using rd unat_add_lem [of "as_start r" "as_len_bytes r"] by simp
  have n: "region_count (r # rs) = ?n + region_count rs" by (simp add: region_count_def)
  obtain s1 where s1: "share_loop rgn cr3 env new (as_start r + as_len_bytes r) (as_start r) s = Some s1" "shares rgn cr3 new (set (pages_from (as_start r) ?n)) s s1"
    "card (km_free rgn s) \<le> card (km_free rgn s1) + 3 * ?n"
    using share_loop_ok [OF Cons.prems(1,2,3) _ rd(2) e] Cons.prems(4) n by auto
  have ok1: "spaces_ok rgn cr3 new s1" "user_plain cr3 s1" "user_plain new s1"
    using s1(2) user_plain_current [OF _ Cons.prems(2)] user_plain_step [OF _ Cons.prems(3)] unfolding shares_def by blast+
  have b: "3 * region_count rs \<le> card (km_free rgn s1)" "\<forall>r \<in> set rs. region_sound r" using Cons.prems(4,5) s1(3) n by simp_all
  obtain s' where s': "share_regions rgn cr3 env new rs s1 = Some s'" "shares rgn cr3 new (region_pages rs) s1 s'"
    "card (km_free rgn s1) \<le> card (km_free rgn s') + 3 * region_count rs"
    using Cons.IH [OF ok1 b] by blast
  have "shares rgn cr3 new (region_pages (r # rs)) s s'" using shares_trans [OF s1(2) s'(2) Cons.prems(2)] by (simp add: region_pages_def)
  then show ?case using s' s1 n by auto
qed

section \<open>The initial stack\<close>

text \<open>\<open>n\<close> pages from \<open>base\<close> up are in the new space, writable, on frames that were free; the first frame of the list is the top page's.\<close>

definition stacked :: "ptr \<Rightarrow> u64 \<Rightarrow> u64 \<Rightarrow> u64 \<Rightarrow> nat \<Rightarrow> u64 list \<Rightarrow> kmem \<Rightarrow> kmem \<Rightarrow> bool" where
  "stacked rgn cr3 new base n fs s s' \<longleftrightarrow> spaces_ok rgn cr3 new s' \<and> keeps_current rgn cr3 s s'
     \<and> km_step new rgn {v. unat base \<le> unat v \<and> unat v < unat base + 4096 * n} {} s s'
     \<and> length fs = n \<and> distinct fs \<and> (\<forall>f \<in> set fs. table_frame f \<and> pfn f \<in> km_free rgn s \<and> data_frame new rgn s' f \<and> data_frame cr3 rgn s' f)
     \<and> (\<forall>k va. k < n \<and> unat va div 4096 = unat base div 4096 + (n - 1 - k) \<longrightarrow> pte_of new va s' = vmm_phys_and_flags_to_table_entry (fs ! k) (ucast stack_flags))"

lemma in_mapper_take: "s\<lparr>km_mem := (km_mem s)\<lparr>pm_region := (pm_region (km_mem s))(rgn := r)\<rparr>\<rparr> = take_frame rgn r s"
  by (simp add: take_frame_def)

lemma take_33: "length ps \<le> m \<Longrightarrow> take m ((if length ps < m then ps @ [f] else ps) @ fs) = take m (ps @ f # fs)"
  by (auto simp: take_Cons')

lemma stack_loop_ok:
  assumes "spaces_ok rgn cr3 new s" "user_plain new s" "4 * n \<le> card (km_free rgn s)" "4096 \<le> unat base" "unat base mod 4096 = 0"
    "unat base + 4096 * n \<le> 140737488355328" "unat p + 4096 = unat base + 4096 * n" "length pages \<le> INIT_STACK_ARG_PAGES_COUNT"
  shows "\<exists>s' fs. stack_loop rgn new base p pages s = Some (s', take INIT_STACK_ARG_PAGES_COUNT (pages @ fs), True) \<and> stacked rgn cr3 new base n fs s s'
    \<and> card (km_free rgn s) \<le> card (km_free rgn s') + 4 * n"
  using assms
proof (induction n arbitrary: p pages s)
  case 0
  then have "\<not> base \<le> p" by (simp add: word_le_nat_alt)
  moreover have "stacked rgn cr3 new base 0 [] s s" using 0 spaces_okD(2) by (simp add: stacked_def km_step_def)
  ultimately show ?case using 0 by (intro exI [of _ s] exI [of _ "[]"]) (simp add: stack_loop.simps [of _ _ _ p])
next
  case (Suc n)
  have up: "unat p = unat base + 4096 * n" using Suc.prems(7) by simp
  have le: "base \<le> p" using up by (simp add: word_le_nat_alt)
  have uva: "user_va p" using up Suc.prems(6) by (intro user_va_less) simp
  have ne: "km_free rgn s \<noteq> {}" using Suc.prems(3) by (auto dest: arg_cong [where f = card])
  have fin: "finite (km_free rgn s)" by (simp add: km_free_def free_pages_def)
  obtain r x where al: "page_alloc (pm_region (km_mem s) rgn) = (r, x)" by fastforce
  let ?s1 = "take_frame rgn r s" and ?pages = "if length pages < INIT_STACK_ARG_PAGES_COUNT then pages @ [x] else pages"
  note tn = take_frame_ok [OF spaces_okD(2) [OF Suc.prems(1)] al ne] and tc = take_frame_ok [OF spaces_okD(1) [OF Suc.prems(1)] al ne]
  have ok1: "spaces_ok rgn cr3 new ?s1" by (rule take_frame_spaces [OF Suc.prems(1) al ne])
  have up1: "user_plain new ?s1" by (rule user_plain_step [OF tn(1) Suc.prems(2)])
  have c1: "card (km_free rgn ?s1) = card (km_free rgn s) - 1" using tn(6,7) fin by (simp add: card_Diff_singleton)
  have c3: "3 \<le> card (km_free rgn ?s1)" using c1 Suc.prems(3) by simp
  have pl: "plain (root_of new) p (km_vm ?s1)" using up1 uva by (simp add: user_plain_def)
  obtain s2 where s2: "in_mapper rgn (vmm_map_page_in (root_of new) p x stack_flags) ?s1 = Some s2" "spaces_ok rgn cr3 new s2" "keeps_current rgn cr3 ?s1 s2"
    "km_step new rgn {p} {} ?s1 s2" "pte_of new p s2 = vmm_phys_and_flags_to_table_entry x (ucast stack_flags)" "card (km_free rgn ?s1) \<le> card (km_free rgn s2) + 3"
    by (rule km_user_map [OF ok1 uva pl stack_flags_ok(1), where phys = x]) (use c3 in blast)
  have up2: "user_plain new s2" by (rule user_plain_step [OF s2(4) up1])
  have q: "unat (p - VM_PAGE_SIZE) = unat p - 4096" using up Suc.prems(4) unat_sub [of VM_PAGE_SIZE p] by (simp add: VM_PAGE_SIZE_def word_le_nat_alt)
  have b: "4 * n \<le> card (km_free rgn s2)" "unat base + 4096 * n \<le> 140737488355328" "unat (p - VM_PAGE_SIZE) + 4096 = unat base + 4096 * n" "length ?pages \<le> INIT_STACK_ARG_PAGES_COUNT"
    using Suc.prems(3,4,6,8) s2(6) c1 q up by simp_all
  obtain s' fs where s': "stack_loop rgn new base (p - VM_PAGE_SIZE) ?pages s2 = Some (s', take INIT_STACK_ARG_PAGES_COUNT (?pages @ fs), True)"
    and st: "stacked rgn cr3 new base n fs s2 s'" and cd: "card (km_free rgn s2) \<le> card (km_free rgn s') + 4 * n"
    using Suc.IH [OF s2(2) up2 b(1) Suc.prems(4,5) b(2-4)] by blast
  let ?V = "\<lambda>n. {v. unat base \<le> unat v \<and> unat v < unat base + 4096 * n}"
  have sub: "km_free rgn s2 \<subseteq> km_free rgn s - {pfn x}" using km_stepD(2) [OF s2(4)] tn(7) by simp
  have run: "stack_loop rgn new base p pages s = Some (s', take INIT_STACK_ARG_PAGES_COUNT (pages @ x # fs), True)"
    using s' s2(1) al le tn(5) take_33 [OF Suc.prems(8), of x fs] by (simp add: stack_loop.simps [of _ _ _ p] in_mapper_take Let_def)
  have "stacked rgn cr3 new base (Suc n) (x # fs) s s'" unfolding stacked_def
  proof (intro conjI)
    show "spaces_ok rgn cr3 new s'" using st by (simp add: stacked_def)
    show "keeps_current rgn cr3 s s'" using keeps_current_trans [OF keeps_current_trans [OF tc(2) s2(3)]] st by (simp add: stacked_def)
    have "km_step new rgn ({} \<union> {p} \<union> ?V n) ({} \<union> {} \<union> {}) s s'" using km_step_trans [OF km_step_trans [OF tn(1) s2(4)]] st by (simp add: stacked_def)
    then show "km_step new rgn (?V (Suc n)) {} s s'" by (rule km_step_weaken) (use up in auto)
    show "length (x # fs) = Suc n" using st by (simp add: stacked_def)
    show "distinct (x # fs)" using st sub by (auto simp: stacked_def)
    have "data_frame new rgn s2 x" "data_frame cr3 rgn s2 x" using km_stepD(5) [OF s2(4) tn(3)] s2(3) tc(3) unfolding keeps_current_def by blast+
    then have "data_frame new rgn s' x" "data_frame cr3 rgn s' x" using st km_stepD(5) unfolding stacked_def keeps_current_def by blast+
    then show "\<forall>f \<in> set (x # fs). table_frame f \<and> pfn f \<in> km_free rgn s \<and> data_frame new rgn s' f \<and> data_frame cr3 rgn s' f"
      using st sub tn(4,6) by (auto simp: stacked_def)
    show "\<forall>k va. k < Suc n \<and> unat va div 4096 = unat base div 4096 + (Suc n - 1 - k) \<longrightarrow> pte_of new va s' = vmm_phys_and_flags_to_table_entry ((x # fs) ! k) (ucast stack_flags)"
    proof (intro allI impI)
      fix k and va :: u64 assume k: "k < Suc n \<and> unat va div 4096 = unat base div 4096 + (Suc n - 1 - k)"
      show "pte_of new va s' = vmm_phys_and_flags_to_table_entry ((x # fs) ! k) (ucast stack_flags)"
      proof (cases k)
        case (Suc j)
        then have "j < n \<and> unat va div 4096 = unat base div 4096 + (n - 1 - j)" using k by auto
        then show ?thesis using st Suc unfolding stacked_def by auto
      next
        case 0
        have bd: "unat base = 4096 * (unat base div 4096)" using Suc.prems(5) by auto
        have vd: "unat va div 4096 = unat base div 4096 + n" using k 0 by simp
        have pd: "unat p div 4096 = unat base div 4096 + n" using up bd by simp
        have "unat va < 4096 + unat va div 4096 * 4096" by (rule dividend_less_div_times) simp
        then have vl: "unat va < 140737488355328" unfolding vd using bd Suc.prems(6) by simp
        have sv: "same_page va p" using same_page_unat [OF vl, of p] vd pd up Suc.prems(6) by simp
        have "\<not> same_page va w" if "w \<in> ?V n" for w
        proof -
          have "unat w div 4096 < unat base div 4096 + n" using that bd by auto
          moreover have "unat w < 140737488355328" using that Suc.prems(6) by auto
          ultimately show ?thesis using same_page_unat [OF vl, of w] vd by simp
        qed
        moreover have "user_va va" by (rule user_va_less [OF vl])
        ultimately have "pte_of new va s' = pte_of new va s2" using st up2 unfolding stacked_def user_plain_def by (blast intro: km_stepD(4))
        then show ?thesis using pte_same_page [OF sv, of new s2] s2(5) 0 by simp
      qed
    qed
  qed
  then show ?case using run cd s2(6) c1 Suc.prems(3) by (intro exI [of _ s'] exI [of _ "x # fs"]) auto
qed

section \<open>The values on the stack\<close>

lemma store_word_ok:
  assumes pl: "plain (root_of cr3) va (km_vm s)" and pt: "present (pte_of cr3 va s)" "vmm_table_entry_to_phys (pte_of cr3 va s) = f"
  shows "store_word cr3 va j w s k = k (s\<lparr>km_vm := set_frame f ((frame_data (km_vm s) f)(j := w)) (km_vm s)\<rparr>)"
  using pt mmu_frame_plain [OF pl] by (simp add: store_word_def Let_def)

lemma push_values_ok:
  assumes "km_ok cr3 rgn s" "plain (root_of cr3) temp (km_vm s)" "present (pte_of cr3 temp s)" "vmm_table_entry_to_phys (pte_of cr3 temp s) = f"
    "data_frame cr3 rgn s f" "i \<le> pos"
  shows "\<exists>s'. push_values rgn cr3 temp slot vals i pos s = Done s' \<and> km_step cr3 rgn {} {f} s s' \<and> km_free rgn s' = km_free rgn s
    \<and> frame_data (km_vm s') f = (\<lambda>j. if pos - i \<le> j \<and> j < pos then vals ! (j + i - pos) else frame_data (km_vm s) f j)"
  using assms
proof (induction i arbitrary: pos s)
  case 0
  then show ?case by (auto simp: km_step_def fun_eq_iff)
next
  case (Suc i)
  let ?s = "s\<lparr>km_vm := set_frame f ((frame_data (km_vm s) f)(pos - 1 := vals ! i)) (km_vm s)\<rparr>"
  note kw = km_write [OF Suc.prems(1,5), where d = "(frame_data (km_vm s) f)(pos - 1 := vals ! i)"]
  have pte: "pte_of cr3 temp ?s = pte_of cr3 temp s" using kw(3) [of temp] Suc.prems(2) by blast
  have prem: "km_ok cr3 rgn ?s" "plain (root_of cr3) temp (km_vm ?s)" "present (pte_of cr3 temp ?s)" "vmm_table_entry_to_phys (pte_of cr3 temp ?s) = f"
    "data_frame cr3 rgn ?s f" "i \<le> pos - 1"
    using km_stepD(1) [OF kw(1)] km_stepD(3) [OF kw(1) Suc.prems(2)] pte Suc.prems(3,4) km_stepD(5) [OF kw(1) Suc.prems(5)] Suc.prems(6) by simp_all
  obtain s' where s': "push_values rgn cr3 temp slot vals i (pos - 1) ?s = Done s'" "km_step cr3 rgn {} {f} ?s s'" "km_free rgn s' = km_free rgn ?s"
    "frame_data (km_vm s') f = (\<lambda>j. if pos - 1 - i \<le> j \<and> j < pos - 1 then vals ! (j + i - (pos - 1)) else frame_data (km_vm ?s) f j)"
    using Suc.IH [OF prem] by blast
  have "push_values rgn cr3 temp slot vals (Suc i) pos s = Done s'"
    using Suc.prems(6) s'(1) store_word_ok [OF Suc.prems(2,3,4), of "pos - 1" "vals ! i" "push_values rgn cr3 temp slot vals i (pos - 1)"] by simp
  moreover have "km_step cr3 rgn {} {f} s s'" using km_step_trans [OF kw(1) s'(2)] by simp
  moreover have "frame_data (km_vm s') f = (\<lambda>j. if pos - Suc i \<le> j \<and> j < pos then vals ! (j + Suc i - pos) else frame_data (km_vm s) f j)"
    unfolding s'(4) kw(2) using Suc.prems(6) by (auto simp: fun_eq_iff)
  ultimately show ?case using s'(3) by (auto simp: km_free_def)
qed

lemma values_ok:
  assumes ok: "km_ok cr3 rgn s" "plain (root_of cr3) temp (km_vm s)" and f: "table_frame f" "data_frame cr3 rgn s f" "slot 0 = f"
    and n: "vals \<noteq> []" "length vals \<le> 512" and mem: "3 \<le> card (km_free rgn s)"
  shows "\<exists>s'. push_values rgn cr3 temp slot vals (length vals) 0 s = Done s' \<and> km_step cr3 rgn {temp} {f} s s' \<and> plain (root_of cr3) temp (km_vm s')
    \<and> (\<forall>j < length vals. frame_data (km_vm s') f (512 - length vals + j) = vals ! j) \<and> (\<forall>j < 512 - length vals. frame_data (km_vm s') f j = frame_data (km_vm s) f j)"
proof -
  obtain i where i: "length vals = Suc i" using n(1) by (cases vals) auto
  let ?fl = "ucast (PG_READ OR PG_WRITE OR PG_PRESENT) :: u16"
  have fl: "present (ucast ?fl)" "?fl < 0x1000" by (simp_all add: PG_PRESENT_def PG_READ_def PG_WRITE_def)
  obtain s1 b where s1: "\<And>k :: kmem \<Rightarrow> bool \<Rightarrow> kmem step_result. with_mapper rgn (vmm_map_page cr3 temp f ?fl) s k = k s1 b" "km_step cr3 rgn {temp} {} s s1"
    "pte_of cr3 temp s1 = vmm_phys_and_flags_to_table_entry f (ucast ?fl)"
    by (rule km_map [OF ok fl(1), where phys = f]) (use mem in blast)
  have "f < 0x1000000000000" "page_aligned f" using f(1) by (simp_all add: table_frame_def word_less_nat_alt)
  then have pt: "vmm_table_entry_to_phys (pte_of cr3 temp s1) = f" unfolding s1(3) using fl(2) by (intro entry_fields) simp_all
  have pr: "present (pte_of cr3 temp s1)" unfolding s1(3) using fl(1) unfolding present_bit bit_entry by simp
  note k1 = km_stepD(1) [OF s1(2)] km_stepD(3) [OF s1(2) ok(2)] pr pt km_stepD(5) [OF s1(2) f(2)]
  have "push_values rgn cr3 temp slot vals (Suc i) 0 s = push_values rgn cr3 temp slot vals (Suc i) 512 s1"
    using s1(1) f(3) n(2) i by simp
  moreover have le: "Suc i \<le> 512" using n(2) i by simp
  moreover obtain s' where s': "push_values rgn cr3 temp slot vals (Suc i) 512 s1 = Done s'" "km_step cr3 rgn {} {f} s1 s'"
    "frame_data (km_vm s') f = (\<lambda>j. if 512 - Suc i \<le> j \<and> j < 512 then vals ! (j + Suc i - 512) else frame_data (km_vm s1) f j)"
    using push_values_ok [OF k1 le, of slot vals] by blast
  moreover have "km_step cr3 rgn {temp} {f} s s'" using km_step_trans [OF s1(2) s'(2)] by simp
  moreover have "frame_data (km_vm s1) f = frame_data (km_vm s) f" using km_stepD(6) [OF s1(2) f(2)] by simp
  ultimately show ?thesis using n(2) i km_stepD(3) [OF s'(2) k1(2)] by auto
qed

text \<open>What happens to kernel pages and data of the current space does not reach the user half of the other space.\<close>

lemma user_half_kept:
  assumes ok: "spaces_ok rgn cr3 new s" and st: "km_step cr3 rgn V W s s'" and W: "\<forall>f \<in> W. data_frame new rgn s f"
  shows "vm_tables (km_vm s') (root_of new) = vm_tables (km_vm s) (root_of new)"
    "user_va va \<Longrightarrow> plain (root_of new) va (km_vm s) \<Longrightarrow> plain (root_of new) va (km_vm s') \<and> pte_of new va s' = pte_of new va s"
proof -
  let ?m = "vm_tables (km_vm s)" and ?m' = "vm_tables (km_vm s')" and ?n = "root_of new"
  have tn: "tree_ok ?m (km_free rgn s) ?n" using spaces_okD(2) [OF ok] by (simp add: km_ok_def vm_ok_def km_free_def)
  have same: "?m' a = ?m a" if q: "user_path q" "reach ?m ?n q = Some a" for q a
  proof -
    have wq: "wpath q" using q(1) by (simp add: user_path_def)
    obtain g where g: "a = root_of g" "pfn g \<notin> km_free rgn s" using tree_okD(1) [OF tn wq q(2)] by blast
    have "reach ?m (root_of cr3) p \<noteq> Some a" if "wpath p" for p using ok q that unfolding spaces_ok_def by blast
    then have "data_frame cr3 rgn s g" using g by (simp add: data_frame_def untouched_def km_free_def phys_to_virt_inj)
    moreover have "g \<notin> W" using W q(2) wq g(1) by (auto simp: data_frame_def untouched_def)
    ultimately show ?thesis using km_stepD(6) [OF st] g(1) by (simp add: frame_data_def)
  qed
  show "?m' ?n = ?m ?n" using same [of "[]" ?n] by (simp add: user_path_def wpath_def)
  have r: "reach ?m' ?n q = reach ?m ?n q" if "user_path q" for q
    using that
  proof (induction q rule: rev_induct)
    case (snoc k q)
    then have q: "user_path q" by (cases q) (simp_all add: user_path_def wpath_def)
    show ?case using snoc.IH [OF q] same [OF q] by (cases "reach ?m ?n q") (simp_all add: reach_append)
  qed simp
  have l: "large_at ?m' ?n q j = large_at ?m ?n q j" "pte_at ?m' ?n q j = pte_at ?m ?n q j" if "user_path q" for q j
    using r [OF that] same [OF that] by (simp_all add: large_at_def pte_at_def split: option.split)
  assume u: "user_va va" and pl: "plain ?n va (km_vm s)"
  have up: "user_path (take k (va_path 3 va))" for k
    using u wpath_va(1) [of va] by (cases k) (auto simp: user_path_def user_va_def va_path_3 wpath_def dest: in_set_takeD)
  have pl': "plain ?n va (km_vm s')" using pl l(1) [OF up [of 0, unfolded va_path_3]] l(1) [OF up [of 1, unfolded va_path_3]] l(1) [OF up [of 2, unfolded va_path_3]]
    unfolding no_large_3 by (simp add: numeral_2_eq_2)
  then show "plain ?n va (km_vm s') \<and> pte_of new va s' = pte_of new va s"
    using walk_eq [OF pl] walk_eq [OF pl'] l(2) [OF up [of 3]] wpath_va(2) [of va] by simp
qed

lemma temp_not_user: "\<not> user_va (vmm_per_cpu_temp_page_addr cpu)"
proof -
  have "unat cpu < 2 ^ LENGTH(8)" by (rule unsigned_less)
  then have c: "unat (ucast cpu :: u64) < 256" by (simp add: unsigned_ucast_eq take_bit_nat_eq_self)
  have "unat (push_bit 12 (ucast cpu :: u64)) = 4096 * unat (ucast cpu :: u64)"
    using c unat_mult_lem [of "4096 :: u64" "ucast cpu"] by (simp add: push_bit_eq_mult mult.commute)
  then have "unat (vmm_per_cpu_temp_page_addr cpu) = 18446744071566262272 + 4096 * unat (ucast cpu :: u64)"
    using c unat_add_lem [of "PER_CPU_TEMP_PAGE_BASE" "push_bit 12 (ucast cpu)"] by (simp add: vmm_per_cpu_temp_page_addr_def PER_CPU_TEMP_PAGE_BASE_def)
  then have "unat (vmm_per_cpu_temp_page_addr cpu) div 549755813888 = 33554431" using c by simp
  then show ?thesis by (simp add: user_va_def pml4_index_unat KERNEL_BEGIN_ENTRY_def)
qed

section \<open>The kernel's entries\<close>

lemma init_kernel_entry_ok:
  assumes ok: "vm_ok root s" and i: "i < 512" and ev: "init_kernel_entry root i s = (s', b)"
  shows "vm_ok root s' \<and> same_ptes (vm_tables s) (vm_tables s') root \<and> no_new_large (vm_tables s) (vm_tables s') root
    \<and> (b \<longrightarrow> present (vm_tables s' root i)) \<and> (\<forall>j. j \<noteq> i \<longrightarrow> vm_tables s' root j = vm_tables s root j) \<and> (present (vm_tables s root i) \<longrightarrow> s' = s \<and> b)
    \<and> (free_pages (vm_phys s) \<noteq> {} \<longrightarrow> b) \<and> card (free_pages (vm_phys s)) \<le> card (free_pages (vm_phys s')) + 1"
proof (cases "present (vm_tables s root i)")
  case True
  then have "s' = s" "b" using ev by (simp_all add: init_kernel_entry_def)
  then show ?thesis using ok True by (simp add: same_ptes_def no_new_large_def)
next
  case ab: False
  obtain r x where rx: "page_alloc (vm_phys s) = (r, x)" by fastforce
  have reg: "region_wf (vm_phys s)" and tree: "tree_ok (vm_tables s) (free_pages (vm_phys s)) root" and low: "\<forall>f \<in> free_pages (vm_phys s). f < 34359738368"
    using ok by (simp_all add: vm_ok_def)
  show ?thesis
  proof (cases "free_pages (vm_phys s) = {}")
    case True
    then have "page_alloc (vm_phys s) = (vm_phys s, 0xFF)" by (intro pmm.alloc_fail [OF reg])
    then have "s' = s" "\<not> b" using ev ab by (simp_all add: init_kernel_entry_def)
    then show ?thesis using ok ab True by (simp add: same_ptes_def no_new_large_def)
  next
    case False
    note ff = fresh_frame [OF ok rx False]
    let ?e = "vmm_phys_and_flags_to_table_entry x (PG_PRESENT OR parent_flags 2)"
    have e: "vmm_phys_and_flags_to_table_entry x (PG_READ OR PG_WRITE OR PG_PRESENT) = ?e"
      by (simp add: parent_flags_def PG_READ_def PG_WRITE_def PG_PRESENT_def PG_USER_def)
    have low8: "x AND 0xff = 0" using page_aligned_low ff(1) by (simp add: table_frame_def)
    have r0: "reach (vm_tables s) root [] = Some root" "wpath ([] @ [i])" using i by (simp_all add: wpath_def)
    note ks = link_step [OF tree r0 ab ff(1,2) new_entry [OF ff(1), of 2]]
    have tn: "root \<noteq> vmm_phys_to_virt x" using tree_okD(1) [OF tree, of "[]" root] ff(2) by (auto simp: phys_to_virt_inj wpath_def)
    have s': "vm_tables s' = ((vm_tables s)(vmm_phys_to_virt x := (\<lambda>_. 0)))(root := (vm_tables s root)(i := ?e))" "vm_phys s' = r" "b"
      using ev ab rx low8 e tn by (auto simp: init_kernel_entry_def Let_def write_entry_def vmm_invalidate_page_def clear_table_def fun_upd_twist)
    have "finite (free_pages (vm_phys s))" by (simp add: free_pages_def)
    then have "card (free_pages (vm_phys s)) \<le> card (free_pages r) + 1" using ff(2,3) by (simp add: card_Diff_singleton)
    then show ?thesis using ks s' tn ff(3,4) low new_entry(2) [OF ff(1), of 2] ab
      by (auto simp: vm_ok_def same_ptes_def no_new_large_def)
  qed
qed

lemma init_kernel_entries_ok:
  assumes "vm_ok root s" "\<forall>i \<in> set js. i < 512" "init_kernel_entries root js s = (s', b)"
  shows "vm_ok root s' \<and> same_ptes (vm_tables s) (vm_tables s') root \<and> no_new_large (vm_tables s) (vm_tables s') root
    \<and> (\<forall>i. present (vm_tables s root i) \<or> i \<notin> set js \<longrightarrow> vm_tables s' root i = vm_tables s root i)
    \<and> (b \<longrightarrow> (\<forall>i \<in> set js. present (vm_tables s' root i))) \<and> (length js \<le> card (free_pages (vm_phys s)) \<longrightarrow> b)"
  using assms
proof (induction js arbitrary: s)
  case (Cons i js)
  obtain s1 b1 where e1: "init_kernel_entry root i s = (s1, b1)" by fastforce
  have i: "i < 512" "\<forall>j \<in> set js. j < 512" using Cons.prems(2) by simp_all
  note k = init_kernel_entry_ok [OF Cons.prems(1) i(1) e1]
  show ?case
  proof (cases b1)
    case False
    then have "s' = s1" "\<not> b" "free_pages (vm_phys s) = {}" using Cons.prems(3) e1 k by auto
    then show ?thesis using k by (cases "present (vm_tables s root i)") auto
  next
    case True
    then have e: "init_kernel_entries root js s1 = (s', b)" using Cons.prems(3) e1 by simp
    have "vm_ok root s1" using k by blast
    note IH = Cons.IH [OF this i(2) e]
    show ?thesis
    proof (intro conjI)
      show "same_ptes (vm_tables s) (vm_tables s') root" using k IH same_ptes_trans by blast
      show "no_new_large (vm_tables s) (vm_tables s') root" using k IH no_new_large_trans by blast
      show "\<forall>j. present (vm_tables s root j) \<or> j \<notin> set (i # js) \<longrightarrow> vm_tables s' root j = vm_tables s root j"
      proof (intro allI impI)
        fix j assume j: "present (vm_tables s root j) \<or> j \<notin> set (i # js)"
        then have "vm_tables s1 root j = vm_tables s root j" using k by (cases "j = i") auto
        then show "vm_tables s' root j = vm_tables s root j" using IH j by auto
      qed
      show "b \<longrightarrow> (\<forall>j \<in> set (i # js). present (vm_tables s' root j))" using IH k True by (metis set_ConsD)
      show "length (i # js) \<le> card (free_pages (vm_phys s)) \<longrightarrow> b" using IH k by auto
    qed (use IH in blast)
  qed
qed (simp add: same_ptes_def no_new_large_def)

section \<open>Properties\<close>

text \<open>What the arguments of a sound request are: whole pages in user space, at most one page of values when there is a stack to hold them, and enough free memory for the
  root, the tables, the stack and the temporary page.\<close>

definition request_ok :: "ptr \<Rightarrow> u64 \<Rightarrow> nat \<Rightarrow> AddressSpaceRegion list \<Rightarrow> u64 list \<Rightarrow> kmem \<Rightarrow> bool" where
  "request_ok rgn base n regions vals s \<longleftrightarrow> (\<forall>r \<in> set regions. region_sound r) \<and> unat base mod 4096 = 0 \<and> 4096 \<le> unat base \<and> unat base + 4096 * n \<le> 140737488355328
     \<and> length vals \<le> 512 \<and> (vals \<noteq> [] \<longrightarrow> 0 < n) \<and> 4 + 3 * region_count regions + 4 * n \<le> card (km_free rgn s)"

text \<open>What a page of the new space is: a page of the stack, which user mode may write (7), a page shared with the current space, which user mode may read and which is
  copied on a write (0x45), or nothing.\<close>

lemma flags_literal: "ucast stack_flags = (7 :: u64)" "ucast shared_flags = (0x45 :: u64)"
  by (simp_all add: stack_flags_def shared_flags_def PG_PRESENT_def PG_READ_def PG_USER_def PG_WRITE_def PG_EXEC_def PG_COPY_ON_WRITE_def)

definition new_page :: "u64 \<Rightarrow> u64 \<Rightarrow> nat \<Rightarrow> u64 list \<Rightarrow> AddressSpaceRegion list \<Rightarrow> kmem \<Rightarrow> u64 \<Rightarrow> u64" where
  "new_page cr3 base n fs regions s va =
     (if unat base \<le> unat va \<and> unat va < unat base + 4096 * n
      then vmm_phys_and_flags_to_table_entry (fs ! (n - 1 - (unat va div 4096 - unat base div 4096))) 7
      else if (\<exists>v \<in> region_pages regions. same_page va v) \<and> phys_of cr3 va s \<noteq> 0
      then vmm_phys_and_flags_to_table_entry (phys_of cr3 va s) 0x45 else 0)"

lemma stacked_page:
  assumes st: "stacked rgn cr3 new base n fs s s'" and b: "unat base mod 4096 = 0" "unat base + 4096 * n \<le> 140737488355328" and u: "unat va < 140737488355328" "user_plain new s"
  shows "pte_of new va s' = (if unat base \<le> unat va \<and> unat va < unat base + 4096 * n
    then vmm_phys_and_flags_to_table_entry (fs ! (n - 1 - (unat va div 4096 - unat base div 4096))) (ucast stack_flags) else pte_of new va s)"
proof -
  let ?b = "unat base div 4096" and ?v = "unat va div 4096"
  have bd: "unat base = 4096 * ?b" using b(1) by auto
  show ?thesis
  proof (cases "unat base \<le> unat va \<and> unat va < unat base + 4096 * n")
    case True
    then have "?b \<le> ?v" "?v < ?b + n" using bd by (auto simp: div_le_mono)
    then have "n - 1 - (?v - ?b) < n" "?v = ?b + (n - 1 - (n - 1 - (?v - ?b)))" by auto
    moreover have "\<forall>k va. k < n \<and> unat va div 4096 = ?b + (n - 1 - k) \<longrightarrow> pte_of new va s' = vmm_phys_and_flags_to_table_entry (fs ! k) (ucast stack_flags)"
      using st unfolding stacked_def by blast
    ultimately show ?thesis unfolding if_P [OF True] by blast
  next
    case False
    have "\<not> same_page va w" if w: "unat base \<le> unat w" "unat w < unat base + 4096 * n" for w
    proof
      assume "same_page va w"
      then have "?v = unat w div 4096" using same_page_unat [OF u(1), of w] w b(2) by simp
      moreover have "?b \<le> unat w div 4096" "unat w div 4096 < ?b + n" using w bd by (auto simp: div_le_mono)
      ultimately have "unat base \<le> unat va" "unat va < unat base + 4096 * n" using bd by auto
      then show False using False by simp
    qed
    then have "pte_of new va s' = pte_of new va s" using st u user_va_less [OF u(1)] unfolding stacked_def user_plain_def by (blast intro: km_stepD(4))
    then show ?thesis unfolding if_not_P [OF False] .
  qed
qed

text \<open>The end of the operation: the values are on the top page, and the temporary page is gone again.\<close>

lemma end_of_create:
  fixes new :: u64
  assumes ok: "km_ok cr3 rgn s" "plain (root_of cr3) temp (km_vm s)" and fs: "\<forall>f \<in> set fs. table_frame f \<and> data_frame cr3 rgn s f"
    and n: "length vals \<le> 512" "vals \<noteq> [] \<longrightarrow> fs \<noteq> []" and mem: "3 \<le> card (km_free rgn s)"
    and slot: "slot = (\<lambda>j. if j < length pages then pages ! j else uninit j)" "pages = take INIT_STACK_ARG_PAGES_COUNT fs"
  shows "\<exists>s'. (case push_values rgn cr3 temp slot vals (length vals) 0 s of
        Done s \<Rightarrow> with_mapper rgn (vmm_unmap_page cr3 temp) s (\<lambda>s _. Done (s\<lparr>km_vm := vmm_invalidate_page a (km_vm s)\<rparr>, new))
      | Panics \<Rightarrow> Panics | Faults a \<Rightarrow> Faults a | Spins \<Rightarrow> Spins) = Done (s', new)
    \<and> km_step cr3 rgn {temp} (set (take 1 fs)) s s' \<and> (\<forall>j < length vals. frame_data (km_vm s') (hd fs) (512 - length vals + j) = vals ! j)"
proof -
  obtain s1 where s1: "push_values rgn cr3 temp slot vals (length vals) 0 s = Done s1" "km_step cr3 rgn {temp} (set (take 1 fs)) s s1"
    "\<forall>j < length vals. frame_data (km_vm s1) (hd fs) (512 - length vals + j) = vals ! j"
  proof (cases "vals = []")
    case True
    then show ?thesis using that [of s] ok(1) by (simp add: km_step_def)
  next
    case False
    then obtain f gs where f: "fs = f # gs" using n(2) by (cases fs) auto
    have "slot 0 = f" using f slot by (simp add: INIT_STACK_ARG_PAGES_COUNT_def)
    then show ?thesis using values_ok [OF ok _ _ _ False n(1) mem, of f slot] fs f that by auto
  qed
  have pl1: "plain (root_of cr3) temp (km_vm s1)" by (rule km_stepD(3) [OF s1(2) ok(2)])
  obtain s2 r where s2: "\<And>k :: kmem \<Rightarrow> u64 \<Rightarrow> (kmem \<times> u64) step_result. with_mapper rgn (vmm_unmap_page cr3 temp) s1 k = k s2 r" "km_step cr3 rgn {temp} {} s1 s2"
    by (rule km_unmap [OF km_stepD(1) [OF s1(2)] pl1]) blast
  let ?s3 = "s2\<lparr>km_vm := vmm_invalidate_page a (km_vm s2)\<rparr>"
  have c: "vm_tables (km_vm ?s3) = vm_tables (km_vm s2)" "vm_locked (km_vm ?s3) = vm_locked (km_vm s2)" "pm_region (km_mem ?s3) rgn = pm_region (km_mem s2) rgn"
    by (simp_all add: vmm_invalidate_page_def)
  note st3 = step_cong(1) [OF c km_stepD(1) [OF s2(2)]]
  have "km_step cr3 rgn {temp} (set (take 1 fs)) s ?s3" using km_step_trans [OF km_step_trans [OF s1(2) s2(2)] st3] by simp
  moreover have "frame_data (km_vm ?s3) (hd fs) (512 - length vals + j) = vals ! j" if j: "j < length vals" for j
  proof -
    have "fs \<noteq> []" using n(2) j by auto
    then have "data_frame cr3 rgn s1 (hd fs)" using fs km_stepD(5) [OF s1(2)] by simp
    then have "frame_data (km_vm s2) (hd fs) = frame_data (km_vm s1) (hd fs)" using km_stepD(6) [OF s2(2)] by simp
    then show ?thesis using s1(3) j view_cong(4) [OF c] by simp
  qed
  moreover have "with_mapper rgn (vmm_unmap_page cr3 temp) s1 (\<lambda>s _. Done (s\<lparr>km_vm := vmm_invalidate_page a (km_vm s)\<rparr>, new)) = Done (?s3, new)" using s2(1) by simp
  ultimately show ?thesis unfolding s1(1) step_result.case by blast
qed

lemma address_space_create_ok:
  assumes cur: "km_ok cr3 rgn s" "user_plain cr3 s" and temp: "plain (root_of cr3) (vmm_per_cpu_temp_page_addr cpu) (km_vm s)"
    and req: "request_ok rgn base n regions vals s" and arg: "vaddr AND NOT 0xfff = base" "unat len = 4096 * n"
  shows "\<exists>s' new fs. address_space_create rgn cr3 cpu env uninit vaddr len regions vals s = Done (s', new) \<and> pfn new \<in> km_free rgn s
    \<and> length fs = n \<and> distinct fs \<and> (\<forall>f \<in> set fs. pfn f \<in> km_free rgn s)
    \<and> (\<forall>va. unat va < 140737488355328 \<longrightarrow> pte_of new va s' = new_page cr3 base n fs regions s va \<and> pte_of cr3 va s' = pte_of cr3 va s)
    \<and> (\<forall>i. KERNEL_BEGIN_ENTRY \<le> i \<and> i < 512 \<longrightarrow> vm_tables (km_vm s') (root_of new) i = vm_tables (km_vm s) (root_of cr3) i)
    \<and> (\<forall>j < length vals. frame_data (km_vm s') (hd fs) (512 - length vals + j) = vals ! j)
    \<and> (\<forall>f. data_frame cr3 rgn s f \<longrightarrow> frame_data (km_vm s') f = frame_data (km_vm s) f)"
proof -
  let ?temp = "vmm_per_cpu_temp_page_addr cpu"
  have rq: "\<forall>r \<in> set regions. region_sound r" "unat base mod 4096 = 0" "4096 \<le> unat base" "unat base + 4096 * n \<le> 140737488355328" "length vals \<le> 512" "vals \<noteq> [] \<longrightarrow> 0 < n"
    and mem: "4 + 3 * region_count regions + 4 * n \<le> card (km_free rgn s)" using req by (simp_all add: request_ok_def)
  obtain r new where al: "page_alloc (pm_region (km_mem s) rgn) = (r, new)" by fastforce
  have fin: "finite (km_free rgn s)" by (simp add: km_free_def free_pages_def)
  have ne: "km_free rgn s \<noteq> {}" using mem by auto
  note tk = take_frame_ok [OF cur(1) al ne]
  define t where "t = (take_frame rgn r s)\<lparr>km_vm := new_root cr3 new (km_vm s)\<rparr>"
  note nr = new_root_ok [OF cur(1) al ne, folded t_def]
  have ct: "card (km_free rgn t) = card (km_free rgn s) - 1" unfolding nr(3) using tk(6) fin by (simp add: card_Diff_singleton)
  have upt: "user_plain cr3 t" by (rule user_plain_current [OF nr(2) cur(2)])
  have mt: "3 * region_count regions \<le> card (km_free rgn t)" using mem ct by simp
  obtain s1 where s1: "share_regions rgn cr3 env new regions t = Some s1" "shares rgn cr3 new (region_pages regions) t s1"
    "card (km_free rgn t) \<le> card (km_free rgn s1) + 3 * region_count regions"
    using share_regions_ok [OF nr(1) upt nr(4) mt rq(1), of env] by blast
  have sh: "spaces_ok rgn cr3 new s1" "keeps_current rgn cr3 t s1" "km_step new rgn (region_pages regions) {} t s1" using s1(2) by (simp_all add: shares_def)
  have up1: "user_plain new s1" by (rule user_plain_step [OF sh(3) nr(4)])
  have m1: "4 * n \<le> card (km_free rgn s1)" using s1(3) mem ct by simp
  obtain s2 fs where s2: "(if len \<noteq> 0 then stack_loop rgn new base (base + len - VM_PAGE_SIZE) [] s1 else Some (s1, [], True)) = Some (s2, take INIT_STACK_ARG_PAGES_COUNT fs, True)"
    "stacked rgn cr3 new base n fs s1 s2" "card (km_free rgn s1) \<le> card (km_free rgn s2) + 4 * n"
  proof (cases "n = 0")
    case True
    then have "len = 0" using arg(2) by (simp add: unat_eq_0)
    moreover have "stacked rgn cr3 new base 0 [] s1 s1" using sh(1) spaces_okD(2) by (simp add: stacked_def km_step_def)
    ultimately show ?thesis using that [of s1 "[]"] True by simp
  next
    case False
    have u: "unat (base + len) = unat base + 4096 * n" using unat_add_lem [of base len] rq(4) arg(2) by simp
    have "unat (base + len - VM_PAGE_SIZE) + 4096 = unat base + 4096 * n"
      using u rq(3) unat_sub [of VM_PAGE_SIZE "base + len"] by (simp add: VM_PAGE_SIZE_def word_le_nat_alt)
    from stack_loop_ok [OF sh(1) up1 m1 rq(3,2,4) this, of "[]"]
    obtain s2 fs where "stack_loop rgn new base (base + len - VM_PAGE_SIZE) [] s1 = Some (s2, take INIT_STACK_ARG_PAGES_COUNT fs, True)"
      "stacked rgn cr3 new base n fs s1 s2" "card (km_free rgn s1) \<le> card (km_free rgn s2) + 4 * n" by auto
    moreover have "len \<noteq> 0" using False arg(2) by auto
    ultimately show ?thesis using that [of s2 fs] by simp
  qed
  have st: "spaces_ok rgn cr3 new s2" "keeps_current rgn cr3 s1 s2" "length fs = n" "distinct fs"
    "\<forall>f \<in> set fs. table_frame f \<and> pfn f \<in> km_free rgn s1 \<and> data_frame new rgn s2 f \<and> data_frame cr3 rgn s2 f"
    and st3: "km_step new rgn {v. unat base \<le> unat v \<and> unat v < unat base + 4096 * n} {} s1 s2" using s2(2) by (simp_all add: stacked_def)
  have kc: "keeps_current rgn cr3 s s2" using keeps_current_trans [OF keeps_current_trans [OF nr(2) sh(2)] st(2)] .
  have pl2: "plain (root_of cr3) ?temp (km_vm s2)" using kc temp by (simp add: keeps_current_def)
  have m2: "3 \<le> card (km_free rgn s2)" using s2(3) s1(3) mem ct by simp
  obtain s' where s': "(case push_values rgn cr3 ?temp (\<lambda>j. if j < length (take INIT_STACK_ARG_PAGES_COUNT fs) then take INIT_STACK_ARG_PAGES_COUNT fs ! j else uninit j) vals (length vals) 0 s2 of
        Done s \<Rightarrow> with_mapper rgn (vmm_unmap_page cr3 ?temp) s (\<lambda>s _. Done (s\<lparr>km_vm := vmm_invalidate_page (root_of new) (km_vm s)\<rparr>, new))
      | Panics \<Rightarrow> Panics | Faults a \<Rightarrow> Faults a | Spins \<Rightarrow> Spins) = Done (s', new)"
    and k': "km_step cr3 rgn {?temp} (set (take 1 fs)) s2 s'" and vals: "\<forall>j < length vals. frame_data (km_vm s') (hd fs) (512 - length vals + j) = vals ! j"
    using end_of_create [where fs = fs and uninit = uninit and a = "root_of new" and new = new, OF spaces_okD(1) [OF st(1)] pl2 _ rq(5) _ m2 refl refl] st(3,5) rq(6) by auto
  have W: "\<forall>f \<in> set (take 1 fs). data_frame new rgn s2 f" using st(5) by (auto dest: in_set_takeD)
  note uh = user_half_kept [OF st(1) k' W]
  have run: "address_space_create rgn cr3 cpu env uninit vaddr len regions vals s = Done (s', new)"
  proof -
    have "s\<lparr>km_mem := (km_mem s)\<lparr>pm_region := (pm_region (km_mem s))(rgn := r)\<rparr>, km_vm := new_root cr3 new (km_vm s)\<rparr> = t" by (simp add: t_def take_frame_def)
    then show ?thesis using al tk(5) s1(1) s2(1) s' arg(1) by (simp add: address_space_create_def Let_def)
  qed
  have sub1: "km_free rgn s1 \<subseteq> km_free rgn s" using km_stepD(2) [OF sh(3)] nr(3) by blast
  have up2: "user_plain new s2" by (rule user_plain_step [OF st3 up1])
  have pages: "pte_of new va s' = new_page cr3 base n fs regions s va \<and> pte_of cr3 va s' = pte_of cr3 va s" if v: "unat va < 140737488355328" for va
  proof -
    have u: "user_va va" by (rule user_va_less [OF v])
    have pc: "plain (root_of cr3) va (km_vm s)" "plain (root_of cr3) va (km_vm s2)" "pte_of cr3 va s2 = pte_of cr3 va s" "pte_of cr3 va t = pte_of cr3 va s"
      using cur(2) u kc nr(2) by (simp_all add: user_plain_def keeps_current_def)
    have "\<not> same_page va ?temp" using u temp_not_user user_same_page by blast
    then have "pte_of cr3 va s' = pte_of cr3 va s" using km_stepD(4) [OF k' pc(2)] pc(3) by simp
    moreover have "pte_of new va s' = pte_of new va s2" using uh(2) [OF u] up2 u by (simp add: user_plain_def)
    moreover have "pte_of new va s1 = (if (\<exists>v \<in> region_pages regions. same_page va v) \<and> phys_of cr3 va s \<noteq> 0
        then vmm_phys_and_flags_to_table_entry (phys_of cr3 va s) (ucast shared_flags) else 0)"
      using s1(2) u nr(5) [OF u] pc(4) by (simp add: shares_def vmm_virt_to_phys_page_def)
    ultimately show ?thesis using stacked_page [OF s2(2) rq(2,4) v up1] unfolding new_page_def flags_literal by simp
  qed
  have kernel: "vm_tables (km_vm s') (root_of new) i = vm_tables (km_vm s) (root_of cr3) i" if "KERNEL_BEGIN_ENTRY \<le> i" "i < 512" for i
    using uh(1) st(1) kc that by (simp add: spaces_ok_def keeps_current_def)
  have data: "frame_data (km_vm s') f = frame_data (km_vm s) f" if f: "data_frame cr3 rgn s f" for f
  proof -
    note f0 = nr(6) [OF f]
    have f1: "data_frame new rgn s1 f" "frame_data (km_vm s1) f = frame_data (km_vm s) f" using km_stepD(5,6) [OF sh(3)] f0 by simp_all
    have f2: "frame_data (km_vm s2) f = frame_data (km_vm s) f" using km_stepD(6) [OF st3 f1(1)] f1(2) by simp
    have "pfn f \<notin> km_free rgn s" using f by (simp add: data_frame_def untouched_def km_free_def phys_to_virt_inj)
    then have "f \<notin> set (take 1 fs)" using st(5) sub1 by (auto dest: in_set_takeD)
    moreover have "data_frame cr3 rgn s2 f" using kc f by (simp add: keeps_current_def)
    ultimately show ?thesis using km_stepD(6) [OF k'] f2 by simp
  qed
  show ?thesis using run tk(6) st(3,4,5) sub1 pages kernel vals data by (intro exI [of _ s'] exI [of _ new] exI [of _ fs]) auto
qed

text \<open>C3: a new address space shares the kernel's half of the page tables, has the requested pages of its parent on the same frames and
  copy-on-write, a stack of fresh writable frames with the initial values at its top, and nothing else; the current space, and every frame that is in use,
  is as before.\<close>

theorem address_space_create_correct:
  assumes cur: "km_ok cr3 rgn s" "user_plain cr3 s" and temp: "plain (root_of cr3) (vmm_per_cpu_temp_page_addr cpu) (km_vm s)"
    and req: "request_ok rgn base n regions vals s" and arg: "vaddr AND NOT 0xfff = base" "unat len = 4096 * n"
  shows "\<exists>s' new fs. address_space_create rgn cr3 cpu env uninit vaddr len regions vals s = Done (s', new) \<and> pfn new \<in> km_free rgn s
    \<and> length fs = n \<and> distinct fs \<and> (\<forall>f \<in> set fs. pfn f \<in> km_free rgn s)
    \<and> (\<forall>va. unat va < 140737488355328 \<longrightarrow> pte_of new va s' = new_page cr3 base n fs regions s va \<and> pte_of cr3 va s' = pte_of cr3 va s)
    \<and> (\<forall>i. KERNEL_BEGIN_ENTRY \<le> i \<and> i < 512 \<longrightarrow> vm_tables (km_vm s') (root_of new) i = vm_tables (km_vm s) (root_of cr3) i)
    \<and> (\<forall>j < length vals. frame_data (km_vm s') (hd fs) (512 - length vals + j) = vals ! j)
    \<and> (\<forall>f. data_frame cr3 rgn s f \<longrightarrow> frame_data (km_vm s') f = frame_data (km_vm s) f)"
  by (rule address_space_create_ok [OF cur temp req arg])

theorem address_space_create_correct_witness:
  "\<exists>s s' new f. pte_of 0x9000 0x2000 s = 0xD045 \<and> address_space_create 1 0x9000 0 (\<lambda>_. (True, \<lambda>_. True, True)) (\<lambda>_. 0) 0x10234 0x1000 [\<lparr>as_start = 0x2000, as_len_bytes = 0x1000\<rparr>] [7, 8] s = Done (s', new)
     \<and> pte_of new 0x2000 s' = 0xD045 \<and> pte_of new 0x10008 s' = vmm_phys_and_flags_to_table_entry f 7 \<and> pte_of new 0x5000 s' = 0
     \<and> frame_data (km_vm s') f 510 = 7 \<and> frame_data (km_vm s') f 511 = 8"
proof -
  obtain s where s: "km_ok 0x9000 1 s" "\<And>va. plain (root_of 0x9000) va (km_vm s)" "pte_of 0x9000 0x2000 s = 0xD045" "13 \<le> card (km_free 1 s)"
    by (rule demo_cow) blast
  let ?r = "[\<lparr>as_start = 0x2000, as_len_bytes = 0x1000\<rparr>] :: AddressSpaceRegion list"
  have rq: "request_ok 1 0x10000 1 ?r [7, 8] s" using s(4) by (simp add: request_ok_def region_sound_def region_count_def)
  have arg: "0x10234 AND NOT 0xfff = (0x10000 :: u64)" "unat (0x1000 :: u64) = 4096 * 1" by simp_all
  have up: "user_plain 0x9000 s" using s(2) by (simp add: user_plain_def)
  obtain s' new fs where c: "address_space_create 1 0x9000 0 (\<lambda>_. (True, \<lambda>_. True, True)) (\<lambda>_. 0) 0x10234 0x1000 ?r [7, 8] s = Done (s', new)"
    "length fs = 1" "\<forall>va. unat va < 140737488355328 \<longrightarrow> pte_of new va s' = new_page 0x9000 0x10000 1 fs ?r s va"
    "\<forall>j < length [7, 8 :: u64]. frame_data (km_vm s') (hd fs) (512 - length [7, 8 :: u64] + j) = [7, 8] ! j"
    using address_space_create_correct [where cpu = 0 and env = "\<lambda>_. (True, \<lambda>_. True, True)" and uninit = "\<lambda>_. 0", OF s(1) up s(2) rq arg] by blast
  obtain f where f: "fs = [f]" using c(2) by (cases fs) auto
  have ph: "phys_of 0x9000 0x2000 s = 0xD000" using s(3) by (simp add: vmm_virt_to_phys_page_def vmm_table_entry_to_phys_def)
  have sp: "region_pages ?r = {0x2000}" by (simp add: region_pages_def VM_PAGE_SIZE_def)
  have n5: "\<not> same_page 0x5000 0x2000" by (simp add: same_page_unat)
  have "new_page 0x9000 0x10000 1 fs ?r s 0x2000 = 0xD045"
    using ph sp by (simp add: new_page_def vmm_phys_and_flags_to_table_entry_def)
  moreover have "new_page 0x9000 0x10000 1 fs ?r s 0x10008 = vmm_phys_and_flags_to_table_entry f 7" "new_page 0x9000 0x10000 1 fs ?r s 0x5000 = 0"
    using f sp n5 by (simp_all add: new_page_def)
  moreover have "frame_data (km_vm s') f 510 = 7" "frame_data (km_vm s') f 511 = 8" using c(4) f by (auto simp: less_Suc_eq)
  ultimately show ?thesis using c(1,3) s(3) by (intro exI [of _ s] exI [of _ s'] exI [of _ new] exI [of _ f]) simp
qed

text \<open>A stack that starts on the first page cannot be built: the loop compares unsigned addresses with 0, goes on below it into the kernel's addresses, and only
  ends when memory is used up.\<close>

lemma stack_at_zero_fails:
  assumes "stack_loop rgn new 0 p pages s = Some (s', ps, ok)"
  shows "\<not> ok"
proof -
  have "0 = (0 :: u64) \<longrightarrow> \<not> snd (snd (s', ps, ok))"
  proof (rule stack_loop.raw_induct [where P = "\<lambda>rgn new base p pages s r. base = 0 \<longrightarrow> \<not> snd (snd r)", OF _ assms])
    fix loop :: "ptr \<Rightarrow> u64 \<Rightarrow> u64 \<Rightarrow> u64 \<Rightarrow> u64 list \<Rightarrow> kmem \<Rightarrow> (kmem \<times> u64 list \<times> bool) option" and rgn new base p pages s r
    assume IH: "\<And>rgn new base p pages s r. loop rgn new base p pages s = Some r \<Longrightarrow> base = 0 \<longrightarrow> \<not> snd (snd r)"
      and body: "(if p \<ge> base then
        let (region, stack_page) = page_alloc (pm_region (km_mem s) rgn);
            s = s\<lparr>km_mem := (km_mem s)\<lparr>pm_region := (pm_region (km_mem s))(rgn := region)\<rparr>\<rparr>
        in if stack_page AND 0xff \<noteq> 0 then Some (s, pages, False)
           else
             let pages = (if length pages < INIT_STACK_ARG_PAGES_COUNT then pages @ [stack_page] else pages)
             in case in_mapper rgn (vmm_map_page_in (root_of new) p stack_page stack_flags) s of
                  None \<Rightarrow> None
                | Some s \<Rightarrow> loop rgn new base (p - VM_PAGE_SIZE) pages s
      else Some (s, pages, True)) = Some r"
    show "base = 0 \<longrightarrow> \<not> snd (snd r)"
    proof
      assume "base = 0"
      then show "\<not> snd (snd r)" using body IH by (auto simp: Let_def split: prod.splits if_splits option.splits)
    qed
  qed
  then show ?thesis by simp
qed

text \<open>With more values than a page holds, the last values go to the page below the top of the stack instead of the top page.\<close>

lemma values_start_below_top:
  "push_values rgn cr3 temp slot vals 513 0 s
     = with_mapper rgn (vmm_map_page cr3 temp (slot 1) (ucast (PG_READ OR PG_WRITE OR PG_PRESENT))) s
         (\<lambda>s _. store_word cr3 temp 511 (vals ! 512) s (push_values rgn cr3 temp slot vals 512 511))"
  by (simp add: push_values.simps(2) [of _ _ _ _ _ 512, simplified])

text \<open>Initialisation gives every entry of the kernel's half a table, so that all later address spaces share it, and changes no translation; it succeeds when
  there is a frame for each entry.\<close>

theorem address_space_init_correct:
  assumes "vm_ok (root_of cr3) s" "address_space_init cr3 s = (s', b)"
  shows "vm_ok (root_of cr3) s' \<and> (b \<longrightarrow> (\<forall>i. KERNEL_BEGIN_ENTRY \<le> i \<and> i < 512 \<longrightarrow> present (vm_tables s' (root_of cr3) i)))
    \<and> (256 \<le> card (free_pages (vm_phys s)) \<longrightarrow> b) \<and> (\<forall>i. present (vm_tables s (root_of cr3) i) \<longrightarrow> vm_tables s' (root_of cr3) i = vm_tables s (root_of cr3) i)
    \<and> (\<forall>va. plain (root_of cr3) va s \<longrightarrow> plain (root_of cr3) va s' \<and> vmm_virt_to_pt_entry cr3 va s' = vmm_virt_to_pt_entry cr3 va s)"
proof -
  have js: "\<forall>i \<in> set [KERNEL_BEGIN_ENTRY..<512]. i < 512" "length [KERNEL_BEGIN_ENTRY..<512] = 256" by (simp, simp add: KERNEL_BEGIN_ENTRY_def)
  note k = init_kernel_entries_ok [OF assms(1) js(1) assms(2) [unfolded address_space_init_def], unfolded js(2)]
  have "plain (root_of cr3) va s' \<and> vmm_virt_to_pt_entry cr3 va s' = vmm_virt_to_pt_entry cr3 va s" if p: "plain (root_of cr3) va s" for va
  proof -
    have q: "plain (root_of cr3) va s'" using plain_mono [where root = "root_of cr3" and s = s and s' = s' and va = va] p k by simp
    then show ?thesis using walk_eq [OF p] walk_eq [OF q] k wpath_va by (simp add: same_ptes_def)
  qed
  moreover have "b \<longrightarrow> (\<forall>i. KERNEL_BEGIN_ENTRY \<le> i \<and> i < 512 \<longrightarrow> present (vm_tables s' (root_of cr3) i))" using k by simp
  ultimately show ?thesis using k by blast
qed

theorem address_space_init_correct_witness:
  "vm_ok (root_of 0x9000) (fst (address_space_init 0x9000 demo_vm))"
  using address_space_init_correct [OF demo_vm_ok(1), of "fst (address_space_init 0x9000 demo_vm)" "snd (address_space_init 0x9000 demo_vm)"] by simp

end
