(* ===== verification/Syscall_Memory.thy ===== *)
theory Syscall_Memory
  imports Address_Space Syscall_Result
begin

text \<open>
  The system calls of \<^verbatim>\<open>kernel/syscalls.c\<close> that change the memory of the calling process: mapping and unmapping virtual pages, mapping
  physical pages, taking contiguous physical pages and the memory statistics. The state is the joined state of allocators and page tables, \<open>rgn\<close> the
  physical region and \<open>cr3\<close> the caller's page tables. The loops over addresses are written with the machine's arithmetic; \<open>None\<close> is a call that
  does not return. What a call writes through a pointer of the caller is part of its result.
\<close>

section \<open>Data\<close>

definition PG_NOCACHE :: u64 where
  "PG_NOCACHE = 0x10"

definition PG_NOEXEC :: u64 where
  "PG_NOEXEC = 0x8000000000000000"

definition ANOS_MAP_VIRTUAL_FLAG_READ :: u64 where
  "ANOS_MAP_VIRTUAL_FLAG_READ = 1"

definition ANOS_MAP_VIRTUAL_FLAG_WRITE :: u64 where
  "ANOS_MAP_VIRTUAL_FLAG_WRITE = 2"

definition ANOS_MAP_VIRTUAL_FLAG_EXEC :: u64 where
  "ANOS_MAP_VIRTUAL_FLAG_EXEC = 4"

definition ANOS_MAP_PHYSICAL_FLAG_READ :: u64 where
  "ANOS_MAP_PHYSICAL_FLAG_READ = 1"

definition ANOS_MAP_PHYSICAL_FLAG_WRITE :: u64 where
  "ANOS_MAP_PHYSICAL_FLAG_WRITE = 2"

definition ANOS_MAP_PHYSICAL_FLAG_EXEC :: u64 where
  "ANOS_MAP_PHYSICAL_FLAG_EXEC = 4"

definition ANOS_MAP_PHYSICAL_FLAG_NOCACHE :: u64 where
  "ANOS_MAP_PHYSICAL_FLAG_NOCACHE = 8"

section \<open>Operations\<close>

text \<open>A call of the mapper with its result.\<close>

definition call_mapper :: "ptr \<Rightarrow> (vm \<Rightarrow> (vm \<times> 'b) option) \<Rightarrow> kmem \<Rightarrow> (kmem \<times> 'b) option" where
  "call_mapper rgn f s = map_option (\<lambda>(v, r). (mapper_store rgn v s, r)) (f (mapper_view rgn s))"

definition page_align :: "u64 \<Rightarrow> u64" where
  "page_align addr = (if addr AND 0xfff \<noteq> 0 then (addr + VM_PAGE_SIZE) AND NOT 0xfff else addr)"

definition handle_memstats :: "ptr \<Rightarrow> u64 \<Rightarrow> kmem \<Rightarrow> (u64 \<times> u64) option \<times> SyscallResult" where
  "handle_memstats rgn mem_info s =
     (let physical_region = pm_region (km_mem s) rgn
      in (if IS_USER_ADDRESS mem_info then Some (mr_size physical_region, mr_free physical_region) else None, RESULT_OK))"

definition map_virtual_flags :: "u64 \<Rightarrow> u64" where
  "map_virtual_flags flags =
     (let vmm_flags = PG_PRESENT OR PG_USER;
          vmm_flags = (if flags AND ANOS_MAP_VIRTUAL_FLAG_READ \<noteq> 0 then vmm_flags OR PG_READ else vmm_flags);
          vmm_flags = (if flags AND ANOS_MAP_VIRTUAL_FLAG_WRITE \<noteq> 0 then vmm_flags OR PG_COPY_ON_WRITE else vmm_flags)
      in if flags AND ANOS_MAP_VIRTUAL_FLAG_EXEC \<noteq> 0 then vmm_flags OR PG_EXEC else vmm_flags)"

text \<open>The loop that undoes a failed mapping unmaps the same page again and again.\<close>

partial_function (option) map_virtual_undo :: "ptr \<Rightarrow> u64 \<Rightarrow> u64 \<Rightarrow> u64 \<Rightarrow> kmem \<Rightarrow> kmem option" where
  "map_virtual_undo rgn cr3 addr unmap_addr s =
     (if unmap_addr < addr
      then case call_mapper rgn (vmm_unmap_page cr3 addr) s of
             None \<Rightarrow> None
           | Some (s, _) \<Rightarrow> map_virtual_undo rgn cr3 addr (unmap_addr + VM_PAGE_SIZE) s
      else Some s)"

partial_function (option) map_virtual_loop :: "ptr \<Rightarrow> u64 \<Rightarrow> u64 \<Rightarrow> u16 \<Rightarrow> u64 \<Rightarrow> u64 \<Rightarrow> u64 \<Rightarrow> kmem \<Rightarrow> (kmem \<times> bool) option" where
  "map_virtual_loop rgn cr3 kernel_zero_page fl virtual_base virtual_end addr s =
     (if addr < virtual_end
      then case call_mapper rgn (vmm_map_page cr3 addr kernel_zero_page fl) s of
             None \<Rightarrow> None
           | Some (s, ok) \<Rightarrow>
               if \<not> ok then map_option (\<lambda>s. (s, False)) (map_virtual_undo rgn cr3 addr virtual_base s)
               else map_virtual_loop rgn cr3 kernel_zero_page fl virtual_base virtual_end (addr + VM_PAGE_SIZE) s
      else Some (s, True))"

definition handle_map_virtual :: "ptr \<Rightarrow> u64 \<Rightarrow> u64 \<Rightarrow> u64 \<Rightarrow> u64 \<Rightarrow> u64 \<Rightarrow> kmem \<Rightarrow> (kmem \<times> SyscallResult) option" where
  "handle_map_virtual rgn cr3 kernel_zero_page sz virtual_base flags s =
     (if sz = 0 then Some (s, RESULT_BADARGS)
      else
        let virtual_base = page_align virtual_base; sz = page_align sz
        in if \<not> IS_USER_ADDRESS virtual_base then Some (s, RESULT_BADARGS)
           else if \<not> IS_USER_ADDRESS (virtual_base + sz) then Some (s, RESULT_BADARGS)
           else map_option (\<lambda>(s, ok). (s, if ok then RESULT_OK_VAL virtual_base else RESULT_FAILURE))
                  (map_virtual_loop rgn cr3 kernel_zero_page (ucast (map_virtual_flags flags)) virtual_base (virtual_base + sz) virtual_base s))"

partial_function (option) unmap_virtual_loop :: "ptr \<Rightarrow> u64 \<Rightarrow> u64 \<Rightarrow> u64 \<Rightarrow> kmem \<Rightarrow> kmem option" where
  "unmap_virtual_loop rgn cr3 virtual_base sz s =
     (if sz > 0
      then case call_mapper rgn (vmm_unmap_page cr3 virtual_base) s of
             None \<Rightarrow> None
           | Some (s, _) \<Rightarrow> unmap_virtual_loop rgn cr3 (virtual_base + VM_PAGE_SIZE) (sz - VM_PAGE_SIZE) s
      else Some s)"

definition handle_unmap_virtual :: "ptr \<Rightarrow> u64 \<Rightarrow> u64 \<Rightarrow> u64 \<Rightarrow> kmem \<Rightarrow> (kmem \<times> SyscallResult) option" where
  "handle_unmap_virtual rgn cr3 sz virtual_base s =
     (let virtual_base = page_align virtual_base; sz = page_align sz
      in if \<not> IS_USER_ADDRESS virtual_base then Some (s, RESULT_BADARGS)
         else if \<not> IS_USER_ADDRESS (virtual_base + sz) then Some (s, RESULT_BADARGS)
         else map_option (\<lambda>s. (s, RESULT_OK)) (unmap_virtual_loop rgn cr3 virtual_base sz s))"

definition map_physical_flags :: "u64 \<Rightarrow> u64" where
  "map_physical_flags flags =
     (let page_flags = PG_PRESENT OR PG_USER
      in if flags = 0 then page_flags OR PG_READ
         else
           let page_flags = (if flags AND ANOS_MAP_PHYSICAL_FLAG_READ \<noteq> 0 then page_flags OR PG_READ else page_flags);
               page_flags = (if flags AND ANOS_MAP_PHYSICAL_FLAG_WRITE \<noteq> 0 then page_flags OR PG_WRITE else page_flags);
               page_flags = (if flags AND ANOS_MAP_PHYSICAL_FLAG_EXEC = 0 then page_flags OR PG_NOEXEC else page_flags)
           in if flags AND ANOS_MAP_PHYSICAL_FLAG_NOCACHE \<noteq> 0 then page_flags OR PG_NOCACHE else page_flags)"

partial_function (option) map_physical_undo :: "ptr \<Rightarrow> u64 \<Rightarrow> u64 \<Rightarrow> u64 \<Rightarrow> u64 \<Rightarrow> kmem \<Rightarrow> kmem option" where
  "map_physical_undo rgn cr3 user_vaddr offset unmap_offset s =
     (if unmap_offset < offset
      then case call_mapper rgn (vmm_unmap_page cr3 (user_vaddr + unmap_offset)) s of
             None \<Rightarrow> None
           | Some (s, _) \<Rightarrow> map_physical_undo rgn cr3 user_vaddr offset (unmap_offset + VM_PAGE_SIZE) s
      else Some s)"

partial_function (option) map_physical_loop :: "ptr \<Rightarrow> u64 \<Rightarrow> u16 \<Rightarrow> u64 \<Rightarrow> u64 \<Rightarrow> u64 \<Rightarrow> u64 \<Rightarrow> kmem \<Rightarrow> (kmem \<times> bool) option" where
  "map_physical_loop rgn cr3 fl phys_addr user_vaddr sz offset s =
     (if offset < sz
      then case call_mapper rgn (vmm_map_page cr3 (user_vaddr + offset) (phys_addr + offset) fl) s of
             None \<Rightarrow> None
           | Some (s, ok) \<Rightarrow>
               if \<not> ok then map_option (\<lambda>s. (s, False)) (map_physical_undo rgn cr3 user_vaddr offset 0 s)
               else map_physical_loop rgn cr3 fl phys_addr user_vaddr sz (offset + VM_PAGE_SIZE) s
      else Some (s, True))"

definition handle_map_physical :: "ptr \<Rightarrow> u64 \<Rightarrow> u64 \<Rightarrow> u64 \<Rightarrow> u64 \<Rightarrow> u64 \<Rightarrow> kmem \<Rightarrow> (kmem \<times> SyscallResult) option" where
  "handle_map_physical rgn cr3 phys_addr user_vaddr sz flags s =
     (if \<not> IS_USER_ADDRESS user_vaddr then Some (s, RESULT_BADARGS)
      else if user_vaddr AND 0xFFF \<noteq> 0 \<or> phys_addr AND 0xFFF \<noteq> 0 \<or> sz AND 0xFFF \<noteq> 0 then Some (s, RESULT_BADARGS)
      else if \<not> IS_USER_ADDRESS (user_vaddr + sz - 1) then Some (s, RESULT_BADARGS)
      else map_option (\<lambda>(s, ok). (s, if ok then RESULT_OK else RESULT_FAILURE))
             (map_physical_loop rgn cr3 (ucast (map_physical_flags flags)) phys_addr user_vaddr sz 0 s))"

definition handle_alloc_physical_pages :: "ptr \<Rightarrow> u64 \<Rightarrow> kmem \<Rightarrow> kmem \<times> SyscallResult" where
  "handle_alloc_physical_pages rgn sz s =
     (if sz AND 0xFFF \<noteq> 0 then (s, RESULT_BADARGS)
      else
        let num_pages = sz div VM_PAGE_SIZE
        in if num_pages = 0 then (s, RESULT_BADARGS)
           else
             let (r, phys_addr) = page_alloc_m (pm_region (km_mem s) rgn) num_pages; s = take_frame rgn r s
             in if phys_addr = 0 then (s, RESULT_FAILURE) else (s, RESULT_OK_VAL phys_addr))"

section \<open>Single calls of the mapper\<close>

lemma call_with: "with_mapper rgn f s (\<lambda>s r. Done (s, r)) = Done (s', r) \<Longrightarrow> call_mapper rgn f s = Some (s', r)"
  by (auto simp: with_mapper_def call_mapper_def split: option.splits)

lemma call_map:
  assumes "km_ok cr3 rgn s" "plain (root_of cr3) va (km_vm s)" "present (ucast (fl :: u16))"
  obtains s' b where "call_mapper rgn (vmm_map_page cr3 va phys fl) s = Some (s', b)" "km_step cr3 rgn {va} {} s s'"
    "b \<Longrightarrow> pte_of cr3 va s' = vmm_phys_and_flags_to_table_entry phys (ucast fl)" "\<not> b \<Longrightarrow> pte_of cr3 va s' = pte_of cr3 va s"
    "3 \<le> card (km_free rgn s) \<Longrightarrow> b" "present (pte_of cr3 va s) \<Longrightarrow> b" "card (km_free rgn s) \<le> card (km_free rgn s') + 3"
proof -
  obtain s' b where k: "\<And>k :: kmem \<Rightarrow> bool \<Rightarrow> (kmem \<times> bool) step_result. with_mapper rgn (vmm_map_page cr3 va phys fl) s k = k s' b"
    and r: "km_step cr3 rgn {va} {} s s'" "b \<Longrightarrow> pte_of cr3 va s' = vmm_phys_and_flags_to_table_entry phys (ucast fl)" "\<not> b \<Longrightarrow> pte_of cr3 va s' = pte_of cr3 va s"
    "3 \<le> card (km_free rgn s) \<Longrightarrow> b" "present (pte_of cr3 va s) \<Longrightarrow> b \<and> km_free rgn s' = km_free rgn s" "card (km_free rgn s) \<le> card (km_free rgn s') + 3"
    by (rule km_map [OF assms, where phys = phys]) blast
  show thesis by (rule that [OF call_with [OF k [of "\<lambda>s r. Done (s, r)"]] r(1-4)]) (use r in auto)
qed

lemma call_unmap:
  assumes "km_ok cr3 rgn s" "plain (root_of cr3) va (km_vm s)"
  obtains s' r where "call_mapper rgn (vmm_unmap_page cr3 va) s = Some (s', r)" "km_step cr3 rgn {va} {} s s'" "pte_of cr3 va s' = 0" "km_free rgn s' = km_free rgn s"
proof -
  obtain s' r where k: "\<And>k :: kmem \<Rightarrow> u64 \<Rightarrow> (kmem \<times> u64) step_result. with_mapper rgn (vmm_unmap_page cr3 va) s k = k s' r"
    and r: "km_step cr3 rgn {va} {} s s'" "pte_of cr3 va s' = 0" "km_free rgn s' = km_free rgn s"
    by (rule km_unmap [OF assms]) blast
  show thesis by (rule that [OF call_with [OF k [of "\<lambda>s r. Done (s, r)"]] r])
qed

section \<open>Ranges of pages\<close>

abbreviation page_set :: "u64 \<Rightarrow> nat \<Rightarrow> u64 set" where
  "page_set p n \<equiv> set (pages_from p n)"

definition in_pages :: "u64 \<Rightarrow> u64 set \<Rightarrow> bool" where
  "in_pages va V \<longleftrightarrow> (\<exists>v \<in> V. same_page va v)"

lemma in_pages_simps [simp]: "\<not> in_pages va {}" "in_pages va (insert v V) \<longleftrightarrow> same_page va v \<or> in_pages va V"
  "in_pages va (V \<union> W) \<longleftrightarrow> in_pages va V \<or> in_pages va W"
  by (auto simp: in_pages_def)

lemma page_set_iff: "v \<in> page_set p n \<longleftrightarrow> (\<exists>i < n. v = p + of_nat (4096 * i))"
proof (induction n arbitrary: p)
  case (Suc n)
  have "(\<exists>i < Suc n. v = p + of_nat (4096 * i)) \<longleftrightarrow> v = p \<or> (\<exists>i < n. v = p + of_nat (4096 * Suc i))"
    by (auto simp: less_Suc_eq_0_disj)
  moreover have "p + of_nat (4096 * Suc i) = p + VM_PAGE_SIZE + of_nat (4096 * i)" for i by (simp add: VM_PAGE_SIZE_def algebra_simps)
  ultimately show ?case using Suc.IH [of "p + VM_PAGE_SIZE"] by (simp add: add.assoc)
qed simp

lemma step_kept: "km_step cr3 rgn V W s s' \<Longrightarrow> plain (root_of cr3) va (km_vm s) \<Longrightarrow> \<not> in_pages va V \<Longrightarrow> pte_of cr3 va s' = pte_of cr3 va s"
  using km_stepD(4) [of cr3 rgn V W s s' va] by (auto simp: in_pages_def)

lemma step_none: "km_ok cr3 rgn s \<Longrightarrow> km_step cr3 rgn {} {} s s"
  by (simp add: km_step_def)

section \<open>Unmapping a range\<close>

lemma unmap_loop_ok:
  assumes "km_ok cr3 rgn s" "\<forall>v \<in> page_set p n. plain (root_of cr3) v (km_vm s)" "unat sz = 4096 * n"
  shows "\<exists>s'. unmap_virtual_loop rgn cr3 p sz s = Some s' \<and> km_step cr3 rgn (page_set p n) {} s s'
    \<and> (\<forall>v \<in> page_set p n. pte_of cr3 v s' = 0) \<and> km_free rgn s' = km_free rgn s"
  using assms
proof (induction n arbitrary: p sz s)
  case 0
  then have "sz = 0" by (simp add: unat_eq_0)
  then show ?case using 0 step_none by (simp add: unmap_virtual_loop.simps [of _ _ _ 0])
next
  case (Suc n)
  have sz: "0 < sz" "unat (sz - VM_PAGE_SIZE) = 4096 * n"
    using Suc.prems(3) by (auto simp: word_gt_0 VM_PAGE_SIZE_def unat_sub word_le_nat_alt)
  have plp: "plain (root_of cr3) p (km_vm s)" using Suc.prems(2) by simp
  obtain s1 r where s1: "call_mapper rgn (vmm_unmap_page cr3 p) s = Some (s1, r)" "km_step cr3 rgn {p} {} s s1" "pte_of cr3 p s1 = 0" "km_free rgn s1 = km_free rgn s"
    by (rule call_unmap [OF Suc.prems(1) plp])
  note k = km_stepD [OF s1(2)]
  let ?V = "page_set (p + VM_PAGE_SIZE) n"
  have "\<forall>v \<in> ?V. plain (root_of cr3) v (km_vm s1)" using Suc.prems(2) k(3) by simp
  from Suc.IH [OF k(1) this sz(2)] obtain s' where s': "unmap_virtual_loop rgn cr3 (p + VM_PAGE_SIZE) (sz - VM_PAGE_SIZE) s1 = Some s'" "km_step cr3 rgn ?V {} s1 s'"
    "\<forall>v \<in> ?V. pte_of cr3 v s' = 0" "km_free rgn s' = km_free rgn s1" by blast
  have "pte_of cr3 p s' = 0"
  proof (cases "in_pages p ?V")
    case True
    then show ?thesis using s'(3) pte_same_page unfolding in_pages_def by metis
  qed (use step_kept [OF s'(2) k(3) [OF plp]] s1(3) in simp)
  then show ?case using s1(1,4) s' km_step_trans [OF s1(2) s'(2)] sz(1) by (simp add: unmap_virtual_loop.simps [of _ _ p])
qed

section \<open>Mapping a range\<close>

lemma unat_page: "unat (p :: u64) + 4096 * i < 18446744073709551616 \<Longrightarrow> unat (p + of_nat (4096 * i)) = unat p + 4096 * i"
  using unat_add_lem [of p "of_nat (4096 * i)"] by (simp add: unat_of_nat del: of_nat_mult)

lemma page_apart:
  assumes "unat p + 4096 * Suc n \<le> 140737488355328"
  shows "\<not> in_pages p (page_set (p + VM_PAGE_SIZE) n)"
proof
  assume "in_pages p (page_set (p + VM_PAGE_SIZE) n)"
  then obtain i where i: "i < n" "same_page p (p + of_nat (4096 * Suc i))"
    by (auto simp: in_pages_def page_set_iff VM_PAGE_SIZE_def algebra_simps)
  have u: "unat (p + of_nat (4096 * Suc i)) = unat p + 4096 * Suc i" using assms i(1) by (intro unat_page) simp
  then have "(unat p + 4096 * Suc i) div 4096 = unat p div 4096"
    using i assms same_page_unat [of p "p + of_nat (4096 * Suc i)"] by simp
  then show False by simp
qed

lemma map_virtual_undo_ok:
  assumes "km_ok cr3 rgn s" "plain (root_of cr3) addr (km_vm s)" "unat addr = unat u + 4096 * m"
  shows "\<exists>s'. map_virtual_undo rgn cr3 addr u s = Some s' \<and> km_step cr3 rgn {addr} {} s s' \<and> pte_of cr3 addr s' = (if m = 0 then pte_of cr3 addr s else 0)
    \<and> km_free rgn s' = km_free rgn s"
  using assms
proof (induction m arbitrary: u s)
  case 0
  then have "\<not> u < addr" by (simp add: word_less_nat_alt)
  then show ?case using 0 km_step_weaken [OF step_none] by (simp add: map_virtual_undo.simps [of _ _ _ u])
next
  case (Suc m)
  have lt: "u < addr" using Suc.prems(3) by (simp add: word_less_nat_alt)
  have "unat (u + VM_PAGE_SIZE) = unat u + 4096" using Suc.prems(3) unsigned_less [where ?'a = nat, of addr] by (intro unat_next_page) simp
  then have q: "unat addr = unat (u + VM_PAGE_SIZE) + 4096 * m" using Suc.prems(3) by simp
  obtain s1 r where s1: "call_mapper rgn (vmm_unmap_page cr3 addr) s = Some (s1, r)" "km_step cr3 rgn {addr} {} s s1" "pte_of cr3 addr s1 = 0" "km_free rgn s1 = km_free rgn s"
    by (rule call_unmap [OF Suc.prems(1,2)])
  note k = km_stepD [OF s1(2)]
  from Suc.IH [OF k(1) k(3) [OF Suc.prems(2)] q] obtain s' where s': "map_virtual_undo rgn cr3 addr (u + VM_PAGE_SIZE) s1 = Some s'" "km_step cr3 rgn {addr} {} s1 s'"
    "pte_of cr3 addr s' = 0" "km_free rgn s' = km_free rgn s1" using s1(3) by auto
  show ?case using lt s1(1,4) s' km_step_trans [OF s1(2) s'(2)] by (simp add: map_virtual_undo.simps [of _ _ _ u])
qed

text \<open>What the loop has done when it ends: \<open>k\<close> of the \<open>n\<close> pages are mapped, and when these are not all, the next one could not be.\<close>

definition mapped_prefix :: "ptr \<Rightarrow> u64 \<Rightarrow> u64 \<Rightarrow> u64 \<Rightarrow> nat \<Rightarrow> nat \<Rightarrow> kmem \<Rightarrow> kmem \<Rightarrow> bool" where
  "mapped_prefix rgn cr3 entry p n k s s' \<longleftrightarrow> k \<le> n \<and> km_step cr3 rgn (page_set p (min n (Suc k))) {} s s'
     \<and> (\<forall>v \<in> page_set p k. pte_of cr3 v s' = entry) \<and> (k < n \<longrightarrow> \<not> present (pte_of cr3 (p + of_nat (4096 * k)) s'))
     \<and> (3 * n \<le> card (km_free rgn s) \<longrightarrow> k = n) \<and> card (km_free rgn s) \<le> card (km_free rgn s') + 3 * Suc k"

lemma map_virtual_loop_ok:
  assumes "km_ok cr3 rgn s" "user_plain cr3 s" "unat p + 4096 * n < 140737488355328" "unat e = unat p + 4096 * n" "unat p = unat b + 4096 * j"
    and fl: "present (ucast (fl :: u16))"
  shows "\<exists>s' k. map_virtual_loop rgn cr3 zero fl b e p s = Some (s', k = n)
    \<and> mapped_prefix rgn cr3 (vmm_phys_and_flags_to_table_entry zero (ucast fl)) p n k s s'"
  using assms(1-5)
proof (induction n arbitrary: p j s)
  case 0
  then have "\<not> p < e" by (simp add: word_less_nat_alt)
  then show ?case using 0 step_none by (simp add: map_virtual_loop.simps [of _ _ _ _ _ _ p] mapped_prefix_def)
next
  case (Suc n)
  let ?e = "vmm_phys_and_flags_to_table_entry zero (ucast fl)" and ?q = "p + VM_PAGE_SIZE"
  have lt: "p < e" using Suc.prems(4) by (simp add: word_less_nat_alt)
  have plp: "plain (root_of cr3) p (km_vm s)" using Suc.prems(2,3) user_va_less [of p] by (simp add: user_plain_def)
  obtain s1 ok where s1: "call_mapper rgn (vmm_map_page cr3 p zero fl) s = Some (s1, ok)" "km_step cr3 rgn {p} {} s s1" "ok \<Longrightarrow> pte_of cr3 p s1 = ?e"
    "\<not> ok \<Longrightarrow> pte_of cr3 p s1 = pte_of cr3 p s" "3 \<le> card (km_free rgn s) \<Longrightarrow> ok" "present (pte_of cr3 p s) \<Longrightarrow> ok" "card (km_free rgn s) \<le> card (km_free rgn s1) + 3"
    by (rule call_map [OF Suc.prems(1) plp fl, of zero]) blast
  note k = km_stepD [OF s1(2)]
  show ?case
  proof (cases ok)
    case False
    obtain s' where s': "map_virtual_undo rgn cr3 p b s1 = Some s'" "km_step cr3 rgn {p} {} s1 s'" "pte_of cr3 p s' = (if j = 0 then pte_of cr3 p s1 else 0)" "km_free rgn s' = km_free rgn s1"
      using map_virtual_undo_ok [OF k(1) k(3) [OF plp] Suc.prems(5)] by blast
    have "mapped_prefix rgn cr3 ?e p (Suc n) 0 s s'"
      using False s1(4-7) s' km_step_trans [OF s1(2) s'(2)] by (auto simp: mapped_prefix_def)
    then show ?thesis using lt s1(1) s'(1) False by (intro exI [of _ s'] exI [of _ 0]) (simp add: map_virtual_loop.simps [of _ _ _ _ _ _ p])
  next
    case True
    have q: "unat ?q = unat p + 4096" using Suc.prems(3) by (intro unat_next_page) simp
    have "unat ?q + 4096 * n < 140737488355328" "unat e = unat ?q + 4096 * n" "unat ?q = unat b + 4096 * Suc j" using Suc.prems(3-5) q by simp_all
    from Suc.IH [OF k(1) user_plain_step [OF s1(2) Suc.prems(2)] this] obtain s' m where
      s': "map_virtual_loop rgn cr3 zero fl b e ?q s1 = Some (s', m = n)" "mapped_prefix rgn cr3 ?e ?q n m s1 s'" by blast
    let ?V = "page_set ?q (min n (Suc m))"
    have st: "km_step cr3 rgn ?V {} s1 s'" using s'(2) by (simp add: mapped_prefix_def)
    have "\<not> in_pages p ?V" using Suc.prems(3) by (intro page_apart) (simp add: min_def)
    then have "pte_of cr3 p s' = ?e" using step_kept [OF st k(3) [OF plp]] s1(3) True by simp
    moreover have "p + of_nat (4096 * Suc m) = ?q + of_nat (4096 * m)" by (simp add: VM_PAGE_SIZE_def algebra_simps)
    moreover have "km_step cr3 rgn (page_set p (min (Suc n) (Suc (Suc m)))) {} s s'" using km_step_trans [OF s1(2) st] by (simp add: min_Suc_Suc)
    ultimately have "mapped_prefix rgn cr3 ?e p (Suc n) (Suc m) s s'"
      using s'(2) s1(7) unfolding mapped_prefix_def by (simp add: add.assoc del: of_nat_mult)
    then show ?thesis using lt s1(1) s'(1) True by (intro exI [of _ s'] exI [of _ "Suc m"]) (simp add: map_virtual_loop.simps [of _ _ _ _ _ _ p])
  qed
qed

lemma map_physical_undo_ok:
  assumes "km_ok cr3 rgn s" "user_plain cr3 s" "unat u + 4096 * (i + m) \<le> 140737488355328" "unat off = 4096 * (i + m)" "unat uo = 4096 * i"
  shows "\<exists>s'. map_physical_undo rgn cr3 u off uo s = Some s' \<and> km_step cr3 rgn (page_set (u + uo) m) {} s s'
    \<and> (\<forall>v \<in> page_set (u + uo) m. pte_of cr3 v s' = 0) \<and> km_free rgn s' = km_free rgn s"
  using assms
proof (induction m arbitrary: uo i s)
  case 0
  then have "\<not> uo < off" by (simp add: word_less_nat_alt)
  then show ?case using 0 step_none by (simp add: map_physical_undo.simps [of _ _ _ _ uo])
next
  case (Suc m)
  let ?v = "u + uo" and ?q = "u + (uo + VM_PAGE_SIZE)"
  have lt: "uo < off" using Suc.prems(4,5) by (simp add: word_less_nat_alt)
  have q: "unat (uo + VM_PAGE_SIZE) = 4096 * Suc i" using Suc.prems(3,5) unat_next_page [of uo] by simp
  have v: "unat ?v = unat u + 4096 * i" using Suc.prems(3,5) unat_add_lem [of u uo] by simp
  have pl: "plain (root_of cr3) ?v (km_vm s)" using Suc.prems(2,3) v user_va_less [of ?v] by (simp add: user_plain_def)
  obtain s1 r where s1: "call_mapper rgn (vmm_unmap_page cr3 ?v) s = Some (s1, r)" "km_step cr3 rgn {?v} {} s s1" "pte_of cr3 ?v s1 = 0" "km_free rgn s1 = km_free rgn s"
    by (rule call_unmap [OF Suc.prems(1) pl])
  note k = km_stepD [OF s1(2)]
  have "unat u + 4096 * (Suc i + m) \<le> 140737488355328" "unat off = 4096 * (Suc i + m)" using Suc.prems(3,4) by simp_all
  from Suc.IH [OF k(1) user_plain_step [OF s1(2) Suc.prems(2)] this q] obtain s' where
    s': "map_physical_undo rgn cr3 u off (uo + VM_PAGE_SIZE) s1 = Some s'" "km_step cr3 rgn (page_set ?q m) {} s1 s'" "\<forall>v \<in> page_set ?q m. pte_of cr3 v s' = 0"
    "km_free rgn s' = km_free rgn s1" by blast
  have e: "?q = ?v + VM_PAGE_SIZE" by (simp add: add.assoc)
  have "\<not> in_pages ?v (page_set (?v + VM_PAGE_SIZE) m)" using Suc.prems(3) v by (intro page_apart) simp
  then have "pte_of cr3 ?v s' = 0" using step_kept [OF s'(2) k(3) [OF pl]] s1(3) unfolding e by simp
  then show ?case using lt s1(1,4) s' km_step_trans [OF s1(2) s'(2)] unfolding e by (simp add: map_physical_undo.simps [of _ _ _ _ uo])
qed

text \<open>When a page cannot be mapped, those before it are unmapped.\<close>

lemma map_physical_loop_ok:
  assumes "km_ok cr3 rgn s" "user_plain cr3 s" "unat u + 4096 * (j + n) \<le> 140737488355328" "unat sz = 4096 * (j + n)" "unat off = 4096 * j"
    and fl: "present (ucast (fl :: u16))"
  shows "\<exists>s' ok. map_physical_loop rgn cr3 fl ph u sz off s = Some (s', ok) \<and> (3 * n \<le> card (km_free rgn s) \<longrightarrow> ok)
    \<and> (if ok then km_step cr3 rgn (page_set (u + off) n) {} s s'
           \<and> (\<forall>i < n. pte_of cr3 (u + off + of_nat (4096 * i)) s' = vmm_phys_and_flags_to_table_entry (ph + off + of_nat (4096 * i)) (ucast fl))
       else \<exists>k < n. km_step cr3 rgn (page_set u (Suc (j + k))) {} s s' \<and> (\<forall>v \<in> page_set u (Suc (j + k)). \<not> present (pte_of cr3 v s')))"
  using assms(1-5)
proof (induction n arbitrary: j off s)
  case 0
  then have "\<not> off < sz" by (simp add: word_less_nat_alt)
  then show ?case using 0(1) step_none [of cr3 rgn s] by (intro exI [of _ s] exI [of _ True]) (simp add: map_physical_loop.simps [of _ _ _ _ _ _ off])
next
  case (Suc n)
  let ?v = "u + off" and ?q = "off + VM_PAGE_SIZE" and ?e = "\<lambda>x. vmm_phys_and_flags_to_table_entry x (ucast fl)"
  have lt: "off < sz" using Suc.prems(4,5) by (simp add: word_less_nat_alt)
  have q: "unat ?q = 4096 * Suc j" using Suc.prems(3,5) unat_next_page [of off] by simp
  have v: "unat ?v = unat u + 4096 * j" using Suc.prems(3,5) unat_add_lem [of u off] by simp
  have ov: "?v = u + of_nat (4096 * j)" unfolding Suc.prems(5) [symmetric] by simp
  have pl: "plain (root_of cr3) ?v (km_vm s)" using Suc.prems(2,3) v user_va_less [of ?v] by (simp add: user_plain_def)
  obtain s1 ok where s1: "call_mapper rgn (vmm_map_page cr3 ?v (ph + off) fl) s = Some (s1, ok)" "km_step cr3 rgn {?v} {} s s1" "ok \<Longrightarrow> pte_of cr3 ?v s1 = ?e (ph + off)"
    "\<not> ok \<Longrightarrow> pte_of cr3 ?v s1 = pte_of cr3 ?v s" "3 \<le> card (km_free rgn s) \<Longrightarrow> ok" "present (pte_of cr3 ?v s) \<Longrightarrow> ok" "card (km_free rgn s) \<le> card (km_free rgn s1) + 3"
    by (rule call_map [OF Suc.prems(1) pl fl, of "ph + off"]) blast
  note k = km_stepD [OF s1(2)]
  note run = lt s1(1) map_physical_loop.simps [of _ _ _ _ _ _ off]
  show ?case
  proof (cases ok)
    case False
    have up: "user_plain cr3 s1" by (rule user_plain_step [OF s1(2) Suc.prems(2)])
    obtain s' where s': "map_physical_undo rgn cr3 u off 0 s1 = Some s'" "km_step cr3 rgn (page_set u j) {} s1 s'" "\<forall>w \<in> page_set u j. pte_of cr3 w s' = 0" "km_free rgn s' = km_free rgn s1"
      using map_physical_undo_ok [OF k(1) up, of u 0 j off 0] Suc.prems(3,5) by auto
    have ps: "page_set u (Suc j) = insert ?v (page_set u j)" using ov by (auto simp: page_set_iff less_Suc_eq simp del: pages_from.simps)
    have st: "km_step cr3 rgn (page_set u (Suc j)) {} s s'" using km_step_trans [OF s1(2) s'(2)] ps by simp
    have "pte_of cr3 ?v s' = 0 \<or> pte_of cr3 ?v s' = pte_of cr3 ?v s"
      using s'(3) step_kept [OF s'(2) k(3) [OF pl]] s1(4) False pte_same_page [of ?v _ cr3 s'] unfolding in_pages_def by metis
    then have "\<not> present (pte_of cr3 ?v s')" using s1(6) False by (elim disjE) (simp, metis)
    then have "\<forall>w \<in> page_set u (Suc j). \<not> present (pte_of cr3 w s')" using s'(3) ps by auto
    then show ?thesis using run s'(1) False st s1(5) by (intro exI [of _ s'] exI [of _ False]) (auto simp del: pages_from.simps)
  next
    case True
    have "unat u + 4096 * (Suc j + n) \<le> 140737488355328" "unat sz = 4096 * (Suc j + n)" using Suc.prems(3,4) by simp_all
    from Suc.IH [OF k(1) user_plain_step [OF s1(2) Suc.prems(2)] this q] obtain s' ok' where
      s': "map_physical_loop rgn cr3 fl ph u sz ?q s1 = Some (s', ok')" "3 * n \<le> card (km_free rgn s1) \<longrightarrow> ok'"
      "if ok' then km_step cr3 rgn (page_set (u + ?q) n) {} s1 s' \<and> (\<forall>i < n. pte_of cr3 (u + ?q + of_nat (4096 * i)) s' = ?e (ph + ?q + of_nat (4096 * i)))
       else \<exists>m < n. km_step cr3 rgn (page_set u (Suc (Suc j + m))) {} s1 s' \<and> (\<forall>w \<in> page_set u (Suc (Suc j + m)). \<not> present (pte_of cr3 w s'))" by blast
    show ?thesis
    proof (cases ok')
      case ok: True
      have st: "km_step cr3 rgn (page_set (?v + VM_PAGE_SIZE) n) {} s1 s'" using s'(3) ok by (simp add: add.assoc)
      have "\<not> in_pages ?v (page_set (?v + VM_PAGE_SIZE) n)" using Suc.prems(3) v by (intro page_apart) simp
      then have h: "pte_of cr3 ?v s' = ?e (ph + off)" using step_kept [OF st k(3) [OF pl]] s1(3) True by simp
      have "pte_of cr3 (?v + of_nat (4096 * i)) s' = ?e (ph + off + of_nat (4096 * i))" if "i < Suc n" for i
      proof (cases i)
        case (Suc i')
        have e: "x + off + of_nat (4096 * i) = x + ?q + of_nat (4096 * i')" for x :: u64 using Suc by (simp add: VM_PAGE_SIZE_def algebra_simps)
        show ?thesis unfolding e using s'(3) ok that Suc by (simp del: of_nat_mult)
      qed (use h in simp)
      moreover have "km_step cr3 rgn (page_set ?v (Suc n)) {} s s'" using km_step_trans [OF s1(2) st] by simp
      ultimately show ?thesis using run s'(1) True ok by (intro exI [of _ s'] exI [of _ True]) (simp del: of_nat_mult pages_from.simps)
    next
      case no: False
      then obtain m where m: "m < n" "km_step cr3 rgn (page_set u (Suc (Suc j + m))) {} s1 s'" "\<forall>w \<in> page_set u (Suc (Suc j + m)). \<not> present (pte_of cr3 w s')" using s'(3) by auto
      have "?v \<in> page_set u (Suc (j + Suc m))" unfolding page_set_iff by (rule exI [of _ j]) (use ov in simp)
      then have st: "km_step cr3 rgn (page_set u (Suc (j + Suc m))) {} s s'"
        using km_step_weaken [OF km_step_trans [OF s1(2) m(2)], of "page_set u (Suc (j + Suc m))" "{}"] by (simp del: pages_from.simps)
      have nm: "\<not> 3 * Suc n \<le> card (km_free rgn s)" using s'(2) no s1(7) by auto
      have ex: "\<exists>k < Suc n. km_step cr3 rgn (page_set u (Suc (j + k))) {} s s' \<and> (\<forall>w \<in> page_set u (Suc (j + k)). \<not> present (pte_of cr3 w s'))"
        using m st by (intro exI [of _ "Suc m"]) (simp del: pages_from.simps)
      show ?thesis using run s'(1) True no nm ex by (intro exI [of _ s'] exI [of _ False]) (simp del: pages_from.simps)
    qed
  qed
qed

section \<open>Arguments\<close>

lemma unat_high_bits: "unat ((y :: u64) AND NOT (mask k)) = 2 ^ k * (unat y div 2 ^ k)" if "k < 64"
proof -
  have e: "y AND NOT (mask k) = drop_bit k y * 2 ^ k" unfolding push_bit_eq_mult [symmetric] by (rule bit_word_eqI) (auto simp: bit_simps)
  have k: "unat (2 ^ k :: u64) = 2 ^ k" using that power_strict_increasing [OF that, of "2 :: nat"] unat_of_nat [of "2 ^ k", where ?'a = 64] by simp
  have "unat (drop_bit k y) = unat y div 2 ^ k" using k by (simp add: drop_bit_eq_div unat_div)
  moreover have "unat y div 2 ^ k * 2 ^ k < 2 ^ 64" using unsigned_less [where ?'a = nat, of y] order_le_less_trans [OF div_times_less_eq_dividend, of "unat y"] by simp
  ultimately show ?thesis using unat_mult_lem [of "drop_bit k y" "2 ^ k"] k unfolding e by (simp add: mult.commute)
qed

lemma user_address_unat: "IS_USER_ADDRESS p \<longleftrightarrow> unat p < 140737488355328"
proof -
  have "(0xffff800000000000 :: u64) = NOT (mask 47)" by (simp add: mask_eq_exp_minus_1)
  then have "IS_USER_ADDRESS p \<longleftrightarrow> unat (p AND NOT (mask 47)) = 0" unfolding IS_USER_ADDRESS_def by (simp add: unat_eq_0)
  then show ?thesis using unat_high_bits [of 47 p] by (simp add: div_eq_0_iff)
qed

lemma low_bits_unat: "x AND 0xfff = 0 \<longleftrightarrow> 4096 dvd unat (x :: u64)"
proof -
  have "(0xfff :: u64) = mask 12" by (simp add: mask_eq_exp_minus_1)
  then have "x AND 0xfff = take_bit 12 x" by (simp add: take_bit_eq_mask)
  then show ?thesis by (simp add: take_bit_eq_mod word_unat_eq_iff unat_mod dvd_eq_mod_eq_0)
qed

lemma unat_page_align: "unat x + 4096 < 18446744073709551616 \<Longrightarrow> unat (page_align x) = 4096 * ((unat x + 4095) div 4096)"
proof -
  assume x: "unat x + 4096 < 18446744073709551616"
  have m: "NOT (0xfff :: u64) = NOT (mask 12)" by (simp add: mask_eq_exp_minus_1)
  have a: "unat (y AND NOT 0xfff) = 4096 * (unat y div 4096)" for y :: u64 using unat_high_bits [of 12 y] unfolding m by simp
  show ?thesis
  proof (cases "4096 dvd unat x")
    case True
    then show ?thesis using low_bits_unat [of x] by (auto simp: page_align_def)
  next
    case False
    then have "page_align x = (x + VM_PAGE_SIZE) AND NOT 0xfff" using low_bits_unat [of x] by (simp add: page_align_def)
    moreover have "(m + 4096) div 4096 = (m + 4095) div 4096" if "\<not> 4096 dvd m" for m :: nat
    proof -
      have "m mod 4096 \<noteq> 0" using that by (simp add: dvd_eq_mod_eq_0)
      then have "(m mod 4096 + 4095) div 4096 = 1" using mod_less_divisor [of 4096 m] by (intro div_nat_eqI) simp_all
      then show ?thesis using div_add1_eq [of m 4095 4096] by simp
    qed
    ultimately show ?thesis using a [of "x + VM_PAGE_SIZE"] unat_next_page [OF x] False by simp
  qed
qed

text \<open>A request that fits user space: its first page and the number of its pages.\<close>

lemma aligned_request:
  assumes "b = 4096 * ((unat base + 4095) div 4096)" "n = (unat sz + 4095) div 4096" "b + 4096 * n < 140737488355328"
  shows "page_align base = of_nat b" "unat (of_nat b :: u64) = b" "unat (page_align sz) = 4096 * n" "unat (of_nat b + page_align sz) = b + 4096 * n"
    "IS_USER_ADDRESS (of_nat b)" "IS_USER_ADDRESS (of_nat b + page_align sz)"
proof -
  have up: "x \<le> 4096 * ((x + 4095) div 4096)" for x :: nat by linarith
  have "unat (page_align base) = b" using assms up [of "unat base"] unat_page_align [of base] by simp
  then show b: "page_align base = of_nat b" by (auto simp flip: assms(1))
  show ub: "unat (of_nat b :: u64) = b" using assms(3) by (simp add: unat_of_nat)
  show s: "unat (page_align sz) = 4096 * n" using assms up [of "unat sz"] unat_page_align [of sz] by simp
  show e: "unat (of_nat b + page_align sz) = b + 4096 * n" using assms(3) ub s unat_add_lem [of "of_nat b" "page_align sz"] by simp
  show "IS_USER_ADDRESS (of_nat b)" "IS_USER_ADDRESS (of_nat b + page_align sz)" using assms(3) ub e by (simp_all add: user_address_unat)
qed

lemma map_virtual_flags_value: "map_virtual_flags flags = (if flags AND 2 \<noteq> 0 then 0x45 else 5)"
  by (simp add: map_virtual_flags_def Let_def ANOS_MAP_VIRTUAL_FLAG_READ_def ANOS_MAP_VIRTUAL_FLAG_WRITE_def ANOS_MAP_VIRTUAL_FLAG_EXEC_def
      PG_PRESENT_def PG_USER_def PG_READ_def PG_COPY_ON_WRITE_def PG_EXEC_def)

lemma map_virtual_flags_narrow: "ucast (ucast (map_virtual_flags flags) :: u16) = map_virtual_flags flags" "present (map_virtual_flags flags)"
  by (simp_all add: map_virtual_flags_value PG_PRESENT_def)

lemma map_virtual_run:
  assumes ok: "km_ok cr3 rgn s" "user_plain cr3 s" and sz: "sz \<noteq> 0"
    and r: "b = 4096 * ((unat base + 4095) div 4096)" "n = (unat sz + 4095) div 4096" "b + 4096 * n < 140737488355328"
  shows "\<exists>s' k. handle_map_virtual rgn cr3 zero sz base flags s = Some (s', if k = n then RESULT_OK_VAL (of_nat b) else RESULT_FAILURE)
    \<and> mapped_prefix rgn cr3 (vmm_phys_and_flags_to_table_entry zero (map_virtual_flags flags)) (of_nat b) n k s s'"
proof -
  note a = aligned_request [OF r] and f = map_virtual_flags_narrow [of flags]
  have pf: "present (ucast (ucast (map_virtual_flags flags) :: u16))" unfolding f(1) by (rule f(2))
  obtain s' k where "map_virtual_loop rgn cr3 zero (ucast (map_virtual_flags flags)) (of_nat b) (of_nat b + page_align sz) (of_nat b) s = Some (s', k = n)"
    "mapped_prefix rgn cr3 (vmm_phys_and_flags_to_table_entry zero (map_virtual_flags flags)) (of_nat b) n k s s'"
    using map_virtual_loop_ok [OF ok, where p = "of_nat b" and n = n and e = "of_nat b + page_align sz" and b = "of_nat b" and j = 0 and zero = zero, OF _ _ _ pf]
      a(2,4) r(3) unfolding f(1) by auto
  then show ?thesis using a(1,5,6) sz by (intro exI [of _ s'] exI [of _ k]) (simp add: handle_map_virtual_def Let_def)
qed

lemma unmap_virtual_run:
  assumes "km_ok cr3 rgn s" "user_plain cr3 s"
    and r: "b = 4096 * ((unat base + 4095) div 4096)" "n = (unat sz + 4095) div 4096" "b + 4096 * n < 140737488355328"
  shows "\<exists>s'. handle_unmap_virtual rgn cr3 sz base s = Some (s', RESULT_OK) \<and> km_step cr3 rgn (page_set (of_nat b) n) {} s s'
    \<and> (\<forall>v \<in> page_set (of_nat b) n. pte_of cr3 v s' = 0) \<and> km_free rgn s' = km_free rgn s"
proof -
  note a = aligned_request [OF r]
  have "plain (root_of cr3) v (km_vm s)" if v: "v \<in> page_set (of_nat b) n" for v
  proof -
    obtain i where i: "i < n" "v = of_nat b + of_nat (4096 * i)" using v unfolding page_set_iff by blast
    then have "unat v < 140737488355328" using r(3) a(2) unat_page [of "of_nat b" i] by simp
    then show ?thesis using assms(2) user_va_less by (simp add: user_plain_def)
  qed
  then obtain s' where "unmap_virtual_loop rgn cr3 (of_nat b) (page_align sz) s = Some s'" "km_step cr3 rgn (page_set (of_nat b) n) {} s s'"
    "\<forall>v \<in> page_set (of_nat b) n. pte_of cr3 v s' = 0" "km_free rgn s' = km_free rgn s"
    using unmap_loop_ok [OF assms(1) _ a(3)] by blast
  then show ?thesis using a(1,5,6) by (intro exI [of _ s']) (simp add: handle_unmap_virtual_def Let_def)
qed

text \<open>A request for two pages, with a base and a size that are not multiples of the page size.\<close>

lemma demo_request:
  "(0x1800 :: u64) \<noteq> 0" "(8192 :: nat) = 4096 * ((unat (0x1FFF :: u64) + 4095) div 4096)" "(2 :: nat) = (unat (0x1800 :: u64) + 4095) div 4096"
  "(8192 :: nat) + 4096 * 2 < 140737488355328" "user_plain 0x9000 demo_kmem"
  using demo_kmem_ok(2) by (simp_all add: user_plain_def)

lemma two_pages: "page_set (of_nat 8192) 2 = {0x2000, 0x3000}"
  by (simp add: numeral_2_eq_2 VM_PAGE_SIZE_def)

section \<open>Properties\<close>

text \<open>C10: mapping virtual pages always returns. With at least three free frames for each page it succeeds; then exactly the pages of the rounded
  range are mapped to the zero page, copy-on-write if they may be written, and every other page and the contents of every data frame are as before. When a page cannot be
  mapped the call fails; the pages before it stay mapped.\<close>

theorem map_virtual_correct:
  assumes "km_ok cr3 rgn s" "user_plain cr3 s" "sz \<noteq> 0"
    "b = 4096 * ((unat base + 4095) div 4096)" "n = (unat sz + 4095) div 4096" "b + 4096 * n < 140737488355328"
  shows "\<exists>s' k. handle_map_virtual rgn cr3 zero sz base flags s = Some (s', if k = n then RESULT_OK_VAL (of_nat b) else RESULT_FAILURE)
    \<and> k \<le> n \<and> (3 * n \<le> card (km_free rgn s) \<longrightarrow> k = n)
    \<and> (\<forall>v \<in> page_set (of_nat b) k. pte_of cr3 v s' = vmm_phys_and_flags_to_table_entry zero (if flags AND 2 \<noteq> 0 then 0x45 else 5))
    \<and> (k < n \<longrightarrow> \<not> present (pte_of cr3 (of_nat b + of_nat (4096 * k)) s'))
    \<and> km_step cr3 rgn (page_set (of_nat b) (min n (Suc k))) {} s s'"
proof -
  obtain s' k where "handle_map_virtual rgn cr3 zero sz base flags s = Some (s', if k = n then RESULT_OK_VAL (of_nat b) else RESULT_FAILURE)"
    "mapped_prefix rgn cr3 (vmm_phys_and_flags_to_table_entry zero (map_virtual_flags flags)) (of_nat b) n k s s'"
    using map_virtual_run [OF assms] by blast
  then show ?thesis unfolding mapped_prefix_def map_virtual_flags_value by blast
qed

theorem map_virtual_correct_witness:
  "\<exists>s'. handle_map_virtual 1 0x9000 0xD000 0x1800 0x1FFF 3 demo_kmem = Some (s', RESULT_OK_VAL 0x2000)
    \<and> pte_of 0x9000 0x2000 s' = 0xD045 \<and> pte_of 0x9000 0x3000 s' = 0xD045"
proof -
  obtain s' k where r: "handle_map_virtual 1 0x9000 0xD000 0x1800 0x1FFF 3 demo_kmem = Some (s', if k = 2 then RESULT_OK_VAL (of_nat 8192) else RESULT_FAILURE)"
    "3 * 2 \<le> card (km_free 1 demo_kmem) \<longrightarrow> k = 2" "\<forall>v \<in> page_set (of_nat 8192) k. pte_of 0x9000 v s' = vmm_phys_and_flags_to_table_entry 0xD000 (if (3 :: u64) AND 2 \<noteq> 0 then 0x45 else 5)"
    using map_virtual_correct [OF demo_kmem_ok(1) demo_request(5,1-4), where flags = 3 and zero = "0xD000"] by blast
  have k: "k = 2" using r(2) demo_free by simp
  have "\<forall>v \<in> {0x2000, 0x3000}. pte_of 0x9000 v s' = 0xD045" using r(3) unfolding k two_pages by (simp add: vmm_phys_and_flags_to_table_entry_def)
  then show ?thesis using r(1) k by simp
qed

text \<open>C5: the first write to a page mapped for writing gives the process a frame of its own filled with zeroes: the mapping call and the page
  fault handler together. The zero page keeps its contents.\<close>

theorem map_virtual_then_write:
  assumes ok: "km_ok cr3 rgn s" "user_plain cr3 s" and sz: "sz \<noteq> 0" and w: "flags AND 2 \<noteq> 0"
    and r: "b = 4096 * ((unat base + 4095) div 4096)" "n = (unat sz + 4095) div 4096" "b + 4096 * n < 140737488355328"
    and z: "table_frame zero" "data_frame cr3 rgn s zero" "frame_data (km_vm s) zero = (\<lambda>_. 0)" and free: "3 * n + 7 \<le> card (km_free rgn s)"
    and va: "b \<le> unat va" "unat va < b + 4096 * n"
    and env: "fe_cr3 env = cr3" "fe_region env = rgn" "fe_zero_page env = zero" "ae_pages (fe_alloc env)" "ae_block (fe_alloc env)" "code AND PG_WRITE \<noteq> 0"
      "plain (root_of cr3) (vmm_per_cpu_temp_page_addr (fe_cpu env)) (km_vm s)"
  shows "\<exists>s1 s2 f. handle_map_virtual rgn cr3 zero sz base flags s = Some (s1, RESULT_OK_VAL (of_nat b)) \<and> page_fault_handler env code va s1 = Done s2
    \<and> takes_private_copy env va s1 s2 \<and> f = vmm_table_entry_to_phys (pte_of cr3 va s2) \<and> pfn f \<in> km_free rgn s
    \<and> frame_data (km_vm s2) f = (\<lambda>_. 0) \<and> frame_data (km_vm s2) zero = (\<lambda>_. 0)"
proof -
  obtain s1 k where s1: "handle_map_virtual rgn cr3 zero sz base flags s = Some (s1, if k = n then RESULT_OK_VAL (of_nat b) else RESULT_FAILURE)"
    "mapped_prefix rgn cr3 (vmm_phys_and_flags_to_table_entry zero (map_virtual_flags flags)) (of_nat b) n k s s1"
    using map_virtual_run [OF ok sz r] by blast
  have k: "k = n" using s1(2) free by (simp add: mapped_prefix_def)
  have st: "km_step cr3 rgn (page_set (of_nat b) n) {} s s1" and cd: "4 \<le> card (km_free rgn s1)" using s1(2) free unfolding mapped_prefix_def k by (simp_all add: min_def)
  note ks = km_stepD [OF st]
  let ?p = "of_nat b + of_nat (4096 * ((unat va - b) div 4096)) :: u64"
  have b: "unat (of_nat b :: u64) = b" "4096 dvd b" using aligned_request(2) [OF r] r(1) by simp_all
  have i: "(unat va - b) div 4096 < n" using va by (simp add: less_mult_imp_div_less mult.commute)
  then have in_set: "?p \<in> page_set (of_nat b) n" unfolding page_set_iff by blast
  have up: "unat ?p = b + 4096 * ((unat va - b) div 4096)" using unat_page [of "of_nat b"] b(1) r(3) i by simp
  obtain m where m: "b = 4096 * m" using b(2) by blast
  have "unat va div 4096 = unat ?p div 4096" unfolding up using va(1) unfolding m by (simp add: div_mult_self1 flip: div_mult_self4 [of 4096 m "unat va - 4096 * m"])
  then have sp: "same_page va ?p" using va r(3) up i by (subst same_page_unat) auto
  have pte: "pte_of cr3 va s1 = vmm_phys_and_flags_to_table_entry zero 0x45"
    using pte_same_page [OF sp] s1(2) in_set w unfolding mapped_prefix_def map_virtual_flags_value k by simp
  have zl: "page_aligned zero" "zero < 0x1000000000000" using z(1) by (auto simp: table_frame_def word_less_nat_alt)
  have ph: "vmm_table_entry_to_phys (pte_of cr3 va s1) = zero" "present (pte_of cr3 va s1)" "pte_of cr3 va s1 AND PG_COPY_ON_WRITE \<noteq> 0"
    using entry_fields [OF zl, of "0x45"] bit_flag [of "pte_of cr3 va s1" 6] unfolding pte by (simp_all add: present_bit bit_entry PG_COPY_ON_WRITE_def)
  have u: "IS_USER_ADDRESS va" "user_va va" using va r(3) user_va_less by (simp_all add: user_address_unat)
  have pl: "plain (root_of cr3) va (km_vm s1)" using ks(3) ok(2) u(2) by (simp add: user_plain_def)
  have "\<exists>s2. cow_copy env (va AND PAGE_ALIGN_MASK) (pte_of cr3 va s1) s1 = Done s2 \<and> takes_private_copy env va s1 s2"
    using cow_copy_ok [of env s1 va] ks(1) u(1) pl ks(3) [OF env(7)] ph ks(5) [OF z(2)] cd env by auto
  then obtain s2 where s2: "cow_copy env (va AND PAGE_ALIGN_MASK) (pte_of cr3 va s1) s1 = Done s2" "takes_private_copy env va s1 s2" by blast
  have h: "page_fault_handler env code va s1 = Done s2" using s2(1) u(1) ph env by (simp add: page_fault_handler_def Let_def)
  have zd: "frame_data (km_vm s1) zero = (\<lambda>_. 0)" "data_frame cr3 rgn s1 zero" using ks(5,6) [OF z(2)] z(3) by simp_all
  let ?f = "vmm_table_entry_to_phys (pte_of cr3 va s2)"
  have "pfn ?f \<in> km_free rgn s1" "frame_data (km_vm s2) ?f = (\<lambda>_. 0)" "frame_data (km_vm s2) zero = (\<lambda>_. 0)"
    using s2(2) ph(1) zd env unfolding takes_private_copy_def Let_def by simp_all
  then show ?thesis using s1(1) h s2(2) ks(2) k by (intro exI [of _ s1] exI [of _ s2] exI [of _ ?f]) auto
qed

theorem map_virtual_then_write_witness:
  "\<exists>s1 s2. handle_map_virtual 1 0x9000 0xD000 0x1800 0x1FFF 3 demo_kmem = Some (s1, RESULT_OK_VAL 0x2000)
    \<and> page_fault_handler (demo_fault 0xD000) 7 0x3008 s1 = Done s2 \<and> frame_data (km_vm s2) (vmm_table_entry_to_phys (pte_of 0x9000 0x3008 s2)) = (\<lambda>_. 0)"
proof -
  have z: "table_frame 0xD000" "3 * 2 + 7 \<le> card (km_free 1 demo_kmem)" "(3 :: u64) AND 2 \<noteq> 0" "8192 \<le> unat (0x3008 :: u64)" "unat (0x3008 :: u64) < 8192 + 4096 * 2"
    using demo_free by (simp_all add: table_frame_def page_aligned_def)
  note r = map_virtual_then_write [OF demo_kmem_ok(1) demo_request(5,1) z(3) demo_request(2-4) z(1) demo_kmem_ok(4,5) z(2,4,5) demo_fault_simps(3,1,2,7,8) demo_entry(3) demo_kmem_ok(2)]
  then show ?thesis by auto
qed

text \<open>C12: unmapping a range that fits user space always succeeds: exactly the pages of the rounded range lose their entries, every other page and
  the contents of every data frame are as before. The frames that were mapped are not given back.\<close>

theorem unmap_virtual_correct:
  assumes "km_ok cr3 rgn s" "user_plain cr3 s"
    "b = 4096 * ((unat base + 4095) div 4096)" "n = (unat sz + 4095) div 4096" "b + 4096 * n < 140737488355328"
  shows "\<exists>s'. handle_unmap_virtual rgn cr3 sz base s = Some (s', RESULT_OK) \<and> km_step cr3 rgn (page_set (of_nat b) n) {} s s'
    \<and> (\<forall>v \<in> page_set (of_nat b) n. pte_of cr3 v s' = 0) \<and> km_free rgn s' = km_free rgn s"
  by (rule unmap_virtual_run [OF assms])

theorem unmap_virtual_correct_witness:
  "\<exists>s'. handle_unmap_virtual 1 0x9000 0x1800 0x1FFF demo_kmem = Some (s', RESULT_OK) \<and> pte_of 0x9000 0x2000 s' = 0 \<and> pte_of 0x9000 0x3000 s' = 0"
  using unmap_virtual_correct [OF demo_kmem_ok(1) demo_request(5,2-4), unfolded two_pages] by blast

text \<open>A size that wraps round passes the checks of \<^verbatim>\<open>unmap_virtual\<close>: base and sum are user addresses, and the loop unmaps the whole address space but
  its first page, the kernel's half included.\<close>

lemma unmap_virtual_wraps:
  assumes "km_ok cr3 rgn s" "\<And>va. plain (root_of cr3) va (km_vm s)"
  shows "\<exists>s'. handle_unmap_virtual rgn cr3 0xFFFFFFFFFFFFF000 0x1000 s = Some (s', RESULT_OK) \<and> (\<forall>va. \<not> same_page va 0 \<longrightarrow> pte_of cr3 va s' = 0)"
proof -
  have a: "page_align 0x1000 = 0x1000" "page_align 0xFFFFFFFFFFFFF000 = 0xFFFFFFFFFFFFF000" by (simp_all add: page_align_def)
  have "unat (0xFFFFFFFFFFFFF000 :: u64) = 4096 * 4503599627370495" by simp
  from unmap_loop_ok [OF assms(1) _ this, of "0x1000"] assms(2) obtain s' where
    s': "unmap_virtual_loop rgn cr3 0x1000 0xFFFFFFFFFFFFF000 s = Some s'" "\<forall>v \<in> page_set 0x1000 4503599627370495. pte_of cr3 v s' = 0" by auto
  have "pte_of cr3 va s' = 0" if "\<not> same_page va 0" for va
  proof -
    let ?p = "va AND PAGE_ALIGN_MASK"
    have "PAGE_ALIGN_MASK = NOT (mask 12)" by (simp add: PAGE_ALIGN_MASK_def mask_eq_exp_minus_1)
    then have m: "unat ?p = 4096 * (unat va div 4096)" using unat_high_bits [of 12 va] by simp
    have nz: "unat va div 4096 \<noteq> 0"
    proof
      assume "unat va div 4096 = 0"
      then have "?p = 0" using m by (simp add: unat_eq_0)
      then show False using that same_page_aligned [of va] same_page_sym by metis
    qed
    have "unat va < 4503599627370496 * 4096" using unsigned_less [where ?'a = nat, of va] by simp
    then have "unat va div 4096 < 4503599627370496" by (rule less_mult_imp_div_less)
    then have lt: "unat va div 4096 - 1 < 4503599627370495" using nz by linarith
    have "?p = of_nat (4096 * (unat va div 4096))" unfolding m [symmetric] by simp
    also have "\<dots> = 0x1000 + of_nat (4096 * (unat va div 4096 - 1))" using nz by (cases "unat va div 4096") (simp_all add: algebra_simps)
    finally have "?p \<in> page_set 0x1000 4503599627370495" unfolding page_set_iff using lt by blast
    then show ?thesis using s'(2) pte_same_page [OF same_page_aligned] by metis
  qed
  then show ?thesis using s'(1) by (intro exI [of _ s']) (simp add: handle_unmap_virtual_def a IS_USER_ADDRESS_def)
qed

text \<open>The flags of a page as the mapper gets them: 5 for a page of user space, 2 when it may be written, 16 when it is not cached.\<close>

lemma map_physical_flags_bits:
  "ucast (ucast (map_physical_flags flags) :: u16) = (5 OR (if flags AND 2 = 0 then 0 else 2) OR (if flags AND 8 = 0 then 0 else 16) :: u64)"
proof -
  note defs = map_physical_flags_def ANOS_MAP_PHYSICAL_FLAG_READ_def ANOS_MAP_PHYSICAL_FLAG_WRITE_def ANOS_MAP_PHYSICAL_FLAG_EXEC_def
    ANOS_MAP_PHYSICAL_FLAG_NOCACHE_def PG_PRESENT_def PG_READ_def PG_USER_def PG_WRITE_def PG_NOEXEC_def PG_NOCACHE_def
  show ?thesis
  proof (cases "flags = 0")
    case False
    then show ?thesis by (cases "flags AND 1 = 0"; cases "flags AND 2 = 0"; cases "flags AND 4 = 0"; cases "flags AND 8 = 0") (simp_all add: defs)
  qed (simp add: defs)
qed

lemma aligned_add: "x AND 0xFFF = 0 \<Longrightarrow> (x + of_nat (4096 * i)) AND NOT 0xFFF = (x + of_nat (4096 * i) :: u64)"
proof -
  assume x: "x AND 0xFFF = 0"
  have d: "(4096 :: nat) dvd 18446744073709551616" by (rule dvdI [of _ _ 4503599627370496]) simp
  have "4096 dvd unat (of_nat (4096 * i) :: u64)" unfolding unat_of_nat using d by (simp add: dvd_mod)
  moreover have "4096 dvd unat x" using x by (simp only: low_bits_unat)
  ultimately have "4096 dvd unat (x + of_nat (4096 * i))" unfolding unat_word_ariths(1) using d by (simp add: dvd_mod del: of_nat_mult)
  then have "(x + of_nat (4096 * i)) AND 0xFFF = 0" by (simp only: low_bits_unat)
  then show ?thesis by (rule and_not_low)
qed

text \<open>C13: mapping physical pages into a range of user space: with at least three free frames for each page it succeeds, and then the pages of the range are mapped to
  the frames in order, for user mode, writable exactly when the flags ask for it and uncached exactly when they ask for it, and nothing else changes. The page can be executed
  whatever the flags say. When the call fails, none of the pages it tried is mapped any more, and no other page has changed.\<close>

theorem map_physical_correct:
  assumes ok: "km_ok cr3 rgn s" "user_plain cr3 s"
    and al: "phys AND 0xFFF = 0" "u AND 0xFFF = 0" "unat sz = 4096 * n" and n: "0 < n" and fit: "unat u + 4096 * n \<le> 140737488355328"
  shows "\<exists>s' ok. handle_map_physical rgn cr3 phys u sz flags s = Some (s', if ok then RESULT_OK else RESULT_FAILURE) \<and> (3 * n \<le> card (km_free rgn s) \<longrightarrow> ok)
    \<and> (if ok then km_step cr3 rgn (page_set u n) {} s s'
           \<and> (\<forall>i < n. pte_of cr3 (u + of_nat (4096 * i)) s' =
                (phys + of_nat (4096 * i)) OR (5 OR (if flags AND 2 = 0 then 0 else 2) OR (if flags AND 8 = 0 then 0 else 16)))
       else \<exists>k < n. km_step cr3 rgn (page_set u (Suc k)) {} s s' \<and> (\<forall>v \<in> page_set u (Suc k). \<not> present (pte_of cr3 v s')))"
proof -
  let ?fl = "ucast (map_physical_flags flags) :: u16"
  have pf: "present (ucast ?fl)"
    unfolding present_bit by (auto simp: bit_simps map_physical_flags_def Let_def PG_PRESENT_def)
  have "sz \<noteq> 0" using al(3) n by auto
  then have "unat (u + sz - 1) = unat u + 4096 * n - 1"
    using fit al(3) n unat_add_lem [of u sz] by (subst unat_minus_one) (auto simp: unat_eq_0 [symmetric] simp del: unat_eq_0)
  then have u: "IS_USER_ADDRESS u" "IS_USER_ADDRESS (u + sz - 1)" using fit n by (simp_all add: user_address_unat)
  have szl: "sz AND 0xFFF = 0" using al(3) by (simp add: low_bits_unat)
  have q: "unat u + 4096 * (0 + n) \<le> 140737488355328" "unat sz = 4096 * (0 + n)" "unat (0 :: u64) = 4096 * 0" using fit al(3) by simp_all
  from map_physical_loop_ok [OF ok q pf, of phys, unfolded add_0_left add_0_right] obtain s' ok where
    "map_physical_loop rgn cr3 ?fl phys u sz 0 s = Some (s', ok)" "3 * n \<le> card (km_free rgn s) \<longrightarrow> ok"
    "if ok then km_step cr3 rgn (page_set u n) {} s s' \<and> (\<forall>i < n. pte_of cr3 (u + of_nat (4096 * i)) s' = vmm_phys_and_flags_to_table_entry (phys + of_nat (4096 * i)) (ucast ?fl))
     else \<exists>k < n. km_step cr3 rgn (page_set u (Suc k)) {} s s' \<and> (\<forall>v \<in> page_set u (Suc k). \<not> present (pte_of cr3 v s'))" by blast
  note run = this [unfolded map_physical_flags_bits vmm_phys_and_flags_to_table_entry_def aligned_add [OF al(1)]]
  show ?thesis using run u al(1,2) szl by (intro exI [of _ s'] exI [of _ ok]) (simp add: handle_map_physical_def del: pages_from.simps of_nat_mult)
qed

theorem map_physical_correct_witness:
  "\<exists>s'. handle_map_physical 1 0x9000 0xF0000 0x2000 0x2000 2 demo_kmem = Some (s', RESULT_OK)
    \<and> pte_of 0x9000 0x2000 s' = 0xF0007 \<and> pte_of 0x9000 0x3000 s' = 0xF1007"
proof -
  have a: "(0xF0000 :: u64) AND 0xFFF = 0" "(0x2000 :: u64) AND 0xFFF = 0" "unat (0x2000 :: u64) = 4096 * 2" "0 < (2 :: nat)" "unat (0x2000 :: u64) + 4096 * 2 \<le> 140737488355328"
    by simp_all
  obtain s' ok where r: "handle_map_physical 1 0x9000 0xF0000 0x2000 0x2000 2 demo_kmem = Some (s', if ok then RESULT_OK else RESULT_FAILURE)"
    "3 * 2 \<le> card (km_free 1 demo_kmem) \<longrightarrow> ok"
    "if ok then km_step 0x9000 1 (page_set 0x2000 2) {} demo_kmem s' \<and> (\<forall>i < 2. pte_of 0x9000 (0x2000 + of_nat (4096 * i)) s' =
             (0xF0000 + of_nat (4096 * i)) OR (5 OR (if (2 :: u64) AND 2 = 0 then 0 else 2) OR (if (2 :: u64) AND 8 = 0 then 0 else 16)))
       else \<exists>k < 2. km_step 0x9000 1 (page_set 0x2000 (Suc k)) {} demo_kmem s' \<and> (\<forall>v \<in> page_set 0x2000 (Suc k). \<not> present (pte_of 0x9000 v s'))"
    using map_physical_correct [OF demo_kmem_ok(1) demo_request(5) a, of 2] by blast
  have ok: "ok" using r(2) demo_free by simp
  have "pte_of 0x9000 (0x2000 + of_nat (4096 * i)) s' = (0xF0000 + of_nat (4096 * i)) OR (5 OR (if (2 :: u64) AND 2 = 0 then 0 else 2) OR (if (2 :: u64) AND 8 = 0 then 0 else 16))" if "i < 2" for i
    using r(3) ok that by (simp only: if_True)
  from this [of 0] this [of 1] have "pte_of 0x9000 0x2000 s' = 0xF0007" "pte_of 0x9000 0x3000 s' = 0xF1007" by simp_all
  then show ?thesis using r(1) ok by simp
qed

text \<open>The flag that forbids execution is bit 63, and the mapper takes sixteen bits of flags: a page mapped without the permission to execute can be executed.\<close>

lemma map_physical_noexec_lost: "ucast (ucast (map_physical_flags flags) :: u16) AND PG_NOEXEC = 0"
proof -
  have n: "PG_NOEXEC = 2 ^ 63" by (simp add: PG_NOEXEC_def)
  have "\<not> bit (ucast (ucast (map_physical_flags flags) :: u16) :: u64) 63" by (simp add: bit_simps)
  then show ?thesis unfolding n using bit_flag by blast
qed

text \<open>A size that wraps round passes the checks of \<^verbatim>\<open>map_physical\<close> too: the loop is entered for a range that goes on past the user half.\<close>

lemma map_physical_check_wraps:
  assumes "phys AND 0xFFF = 0"
  shows "handle_map_physical rgn cr3 phys 0x7FFFFFFFF000 0xFFFF800000002000 flags s =
    map_option (\<lambda>(s, ok). (s, if ok then RESULT_OK else RESULT_FAILURE)) (map_physical_loop rgn cr3 (ucast (map_physical_flags flags)) phys 0x7FFFFFFFF000 0xFFFF800000002000 0 s)"
    "\<not> IS_USER_ADDRESS (0x7FFFFFFFF000 + VM_PAGE_SIZE)"
  using assms by (simp_all add: handle_map_physical_def IS_USER_ADDRESS_def VM_PAGE_SIZE_def)

text \<open>A failed allocation of physical pages is reported as a success: the allocator's failure value is 0xFF, and the call looks for 0.\<close>

lemma alloc_physical_pages_failure:
  assumes "sz AND 0xFFF = 0" "sz div VM_PAGE_SIZE \<noteq> 0" "page_alloc_m (pm_region (km_mem s) rgn) (sz div VM_PAGE_SIZE) = (r, 0xFF)"
  shows "snd (handle_alloc_physical_pages rgn sz s) = RESULT_OK_VAL 0xFF"
  using assms by (simp add: handle_alloc_physical_pages_def)

end
