(* ===== verification/Syscall_Caps.thy ===== *)
theory Syscall_Caps
  imports Cap_Map Process Syscall_Result
begin

text \<open>
  System calls as capabilities: the registration of the handlers at start-up and the entry point, \<^verbatim>\<open>kernel/syscalls.c\<close>, with the delay of
  \<^verbatim>\<open>arch/x86_64/throttle.h\<close>. A handler is named by its function; the names are called through a parameter of the entry point. The block
  of a new capability and the sources of entropy are arguments of each registration. \<open>None\<close> is a call that does not return.
\<close>

section \<open>Data\<close>

datatype SyscallId = SYSCALL_ID_INVALID | SYSCALL_ID_DEBUG_PRINT | SYSCALL_ID_DEBUG_CHAR | SYSCALL_ID_CREATE_THREAD | SYSCALL_ID_MEMSTATS | SYSCALL_ID_SLEEP
  | SYSCALL_ID_CREATE_PROCESS | SYSCALL_ID_MAP_VIRTUAL | SYSCALL_ID_SEND_MESSAGE | SYSCALL_ID_RECV_MESSAGE | SYSCALL_ID_REPLY_MESSAGE
  | SYSCALL_ID_CREATE_CHANNEL | SYSCALL_ID_DESTROY_CHANNEL | SYSCALL_ID_REGISTER_NAMED_CHANNEL | SYSCALL_ID_DEREGISTER_NAMED_CHANNEL
  | SYSCALL_ID_FIND_NAMED_CHANNEL | SYSCALL_ID_KILL_CURRENT_TASK | SYSCALL_ID_UNMAP_VIRTUAL | SYSCALL_ID_CREATE_REGION | SYSCALL_ID_DESTROY_REGION
  | SYSCALL_ID_MAP_FIRMWARE_TABLES | SYSCALL_ID_MAP_PHYSICAL | SYSCALL_ID_ALLOC_PHYSICAL_PAGES | SYSCALL_ID_ALLOC_INTERRUPT_VECTOR
  | SYSCALL_ID_WAIT_INTERRUPT | SYSCALL_ID_READ_KERNEL_LOG | SYSCALL_ID_GET_FRAMEBUFFER_PHYS

fun syscall_number :: "SyscallId \<Rightarrow> u64" where
  "syscall_number SYSCALL_ID_INVALID = 0"
| "syscall_number SYSCALL_ID_DEBUG_PRINT = 1"
| "syscall_number SYSCALL_ID_DEBUG_CHAR = 2"
| "syscall_number SYSCALL_ID_CREATE_THREAD = 3"
| "syscall_number SYSCALL_ID_MEMSTATS = 4"
| "syscall_number SYSCALL_ID_SLEEP = 5"
| "syscall_number SYSCALL_ID_CREATE_PROCESS = 6"
| "syscall_number SYSCALL_ID_MAP_VIRTUAL = 7"
| "syscall_number SYSCALL_ID_SEND_MESSAGE = 8"
| "syscall_number SYSCALL_ID_RECV_MESSAGE = 9"
| "syscall_number SYSCALL_ID_REPLY_MESSAGE = 10"
| "syscall_number SYSCALL_ID_CREATE_CHANNEL = 11"
| "syscall_number SYSCALL_ID_DESTROY_CHANNEL = 12"
| "syscall_number SYSCALL_ID_REGISTER_NAMED_CHANNEL = 13"
| "syscall_number SYSCALL_ID_DEREGISTER_NAMED_CHANNEL = 14"
| "syscall_number SYSCALL_ID_FIND_NAMED_CHANNEL = 15"
| "syscall_number SYSCALL_ID_KILL_CURRENT_TASK = 16"
| "syscall_number SYSCALL_ID_UNMAP_VIRTUAL = 17"
| "syscall_number SYSCALL_ID_CREATE_REGION = 18"
| "syscall_number SYSCALL_ID_DESTROY_REGION = 19"
| "syscall_number SYSCALL_ID_MAP_FIRMWARE_TABLES = 20"
| "syscall_number SYSCALL_ID_MAP_PHYSICAL = 21"
| "syscall_number SYSCALL_ID_ALLOC_PHYSICAL_PAGES = 22"
| "syscall_number SYSCALL_ID_ALLOC_INTERRUPT_VECTOR = 23"
| "syscall_number SYSCALL_ID_WAIT_INTERRUPT = 24"
| "syscall_number SYSCALL_ID_READ_KERNEL_LOG = 25"
| "syscall_number SYSCALL_ID_GET_FRAMEBUFFER_PHYS = 26"

definition SYSCALL_ID_END :: u64 where
  "SYSCALL_ID_END = 27"

datatype CapabilityType = CAPABILITY_TYPE_INVALID | CAPABILITY_TYPE_SYSCALL | CAPABILITY_TYPE_USER

record SyscallCapability =
  sc_type :: CapabilityType
  sc_subtype :: u8
  sc_syscall_id :: SyscallId
  sc_flags :: u32
  sc_handler :: "string option"

record cap_state =
  sy_map :: CapabilityMap
  sy_caps :: "ptr \<Rightarrow> SyscallCapability"
  sy_blocks :: "ptr set"
  sy_fallback :: u64

record cap_env =
  cv_block :: ptr
  cv_rdseed :: "u64 option"
  cv_rdrand :: "u64 option"
  cv_cpu :: u64
  cv_tsc :: u64
  cv_grow :: bool

section \<open>Registration\<close>

definition init_syscall_capability :: "cap_env \<Rightarrow> bool \<Rightarrow> SyscallId \<Rightarrow> string \<Rightarrow> cap_state \<Rightarrow> (cap_state \<times> u64) option" where
  "init_syscall_capability env map_given syscall_id handler st =
     (if \<not> map_given then Some (st, 0)
      else let capability = cv_block env
        in if capability = NULL then Some (st, 0)
           else
             let st = st\<lparr>sy_blocks := insert capability (sy_blocks st)\<rparr>;
                 (fallback, cookie) = capability_cookie_generate (cv_rdseed env) (cv_rdrand env) (cv_cpu env) (cv_tsc env) (sy_fallback st);
                 st = st\<lparr>sy_fallback := fallback\<rparr>;
                 free = (\<lambda>st. st\<lparr>sy_blocks := sy_blocks st - {capability}\<rparr>)
             in if cookie = 0 then Some (free st, 0)
                else
                  let st = st\<lparr>sy_caps := (sy_caps st)(capability := \<lparr>sc_type = CAPABILITY_TYPE_SYSCALL, sc_subtype = 1,
                             sc_syscall_id = syscall_id, sc_flags = 0, sc_handler = Some handler\<rparr>)\<rparr>
                  in case capability_map_insert (cv_grow env) cookie capability (sy_map st) of
                       None \<Rightarrow> None
                     | Some (m, ok) \<Rightarrow>
                         let st = st\<lparr>sy_map := m\<rparr> in if \<not> ok then Some (free st, 0) else Some (st, cookie))"

text \<open>The handlers in the order of their registration.\<close>

definition registrations :: "(SyscallId \<times> string) list" where
  "registrations =
     [(SYSCALL_ID_DEBUG_PRINT, ''debugprint''), (SYSCALL_ID_DEBUG_CHAR, ''debugchar''), (SYSCALL_ID_CREATE_THREAD, ''create_thread''),
      (SYSCALL_ID_MEMSTATS, ''memstats''), (SYSCALL_ID_SLEEP, ''sleep''), (SYSCALL_ID_CREATE_PROCESS, ''create_process''),
      (SYSCALL_ID_MAP_VIRTUAL, ''map_virtual''), (SYSCALL_ID_SEND_MESSAGE, ''send_message''), (SYSCALL_ID_RECV_MESSAGE, ''recv_message''),
      (SYSCALL_ID_REPLY_MESSAGE, ''reply_message''), (SYSCALL_ID_CREATE_CHANNEL, ''create_channel''), (SYSCALL_ID_DESTROY_CHANNEL, ''destroy_channel''),
      (SYSCALL_ID_REGISTER_NAMED_CHANNEL, ''register_named_channel''), (SYSCALL_ID_DEREGISTER_NAMED_CHANNEL, ''deregister_named_channel''),
      (SYSCALL_ID_FIND_NAMED_CHANNEL, ''find_named_channel''), (SYSCALL_ID_KILL_CURRENT_TASK, ''kill_current_task''),
      (SYSCALL_ID_UNMAP_VIRTUAL, ''unmap_virtual''), (SYSCALL_ID_CREATE_REGION, ''create_region''), (SYSCALL_ID_DESTROY_REGION, ''destroy_region''),
      (SYSCALL_ID_MAP_FIRMWARE_TABLES, ''map_firmware_tables''), (SYSCALL_ID_MAP_PHYSICAL, ''map_physical''),
      (SYSCALL_ID_ALLOC_PHYSICAL_PAGES, ''alloc_physical_pages''), (SYSCALL_ID_ALLOC_INTERRUPT_VECTOR, ''alloc_interrupt_vector''),
      (SYSCALL_ID_WAIT_INTERRUPT, ''wait_interrupt''), (SYSCALL_ID_READ_KERNEL_LOG, ''read_kernel_log''),
      (SYSCALL_ID_GET_FRAMEBUFFER_PHYS, ''get_framebuffer_phys'')]"

text \<open>Registering and stacking, over the registrations left; the last component is false when the whole function returns null.\<close>

fun stack_capabilities :: "(SyscallId \<Rightarrow> cap_env) \<Rightarrow> (SyscallId \<times> string) list \<Rightarrow> u64 \<times> (u64 \<Rightarrow> u64) \<Rightarrow> cap_state
    \<Rightarrow> (cap_state \<times> (u64 \<times> (u64 \<Rightarrow> u64)) \<times> bool) option" where
  "stack_capabilities env [] stack st = Some (st, stack, True)"
| "stack_capabilities env ((syscall_id, handler) # rest) stack st =
     (case init_syscall_capability (env syscall_id) True syscall_id handler st of
        None \<Rightarrow> None
      | Some (st, cookie) \<Rightarrow>
          if cookie = 0 then Some (st, stack, False)
          else stack_capabilities env rest (push_word (syscall_number syscall_id) (push_word cookie stack)) st)"

text \<open>The result is the new stack pointer, 0 for null.\<close>

definition syscall_init_capabilities :: "(SyscallId \<Rightarrow> cap_env) \<Rightarrow> u64 \<Rightarrow> (u64 \<Rightarrow> u64) \<Rightarrow> cap_state \<Rightarrow> (cap_state \<times> (u64 \<Rightarrow> u64) \<times> u64) option" where
  "syscall_init_capabilities env stack words st =
     (case stack_capabilities env registrations (stack, words) st of
        None \<Rightarrow> None
      | Some (st, (current_stack, words), ok) \<Rightarrow>
          if \<not> ok then Some (st, words, 0)
          else
            let (current_stack, words) = push_word 0 (push_word 0 (current_stack, words));
                (current_stack, words) = push_word (current_stack - 8 + 3 * 8) (current_stack, words);
                (current_stack, words) = push_word (SYSCALL_ID_END - 1) (current_stack, words)
            in Some (st, words, current_stack))"

section \<open>The entry point\<close>

definition rand_entropy :: "u64 option \<Rightarrow> u64 \<Rightarrow> u64" where
  "rand_entropy rdrand tsc =
     (case rdrand of
        Some value \<Rightarrow> value
      | None \<Rightarrow>
          let value = tsc;
              value = value XOR drop_bit 33 value;
              value = value * 0xff51afd7ed558ccd;
              value = value XOR drop_bit 33 value;
              value = value * 0xc4ceb9fe1a85ec53
          in value XOR drop_bit 33 value)"

definition throttle_base :: "u64 \<Rightarrow> u64" where
  "throttle_base cap_failures = (let base = 50000 + cap_failures * 5000 in if base > 1000000 then 1000000 else base)"

text \<open>The delay in processor cycles and the process after it.\<close>

definition throttle_abuse :: "u64 \<Rightarrow> Process \<Rightarrow> u64 \<times> Process" where
  "throttle_abuse entropy proc =
     (let base = throttle_base (pr_cap_failures proc); jitter = entropy mod base
      in (base + jitter, proc\<lparr>pr_cap_failures := pr_cap_failures proc + 1\<rparr>))"

text \<open>\<open>call\<close> runs a handler by its name; the pair holds the two sources of entropy.\<close>

definition handle_syscall_69 :: "(string \<Rightarrow> kproc \<Rightarrow> (kproc \<times> SyscallResult) option) \<Rightarrow> u64 option \<times> u64 \<Rightarrow> nat \<Rightarrow> u64 \<Rightarrow> cap_state \<Rightarrow> kproc \<Rightarrow> (kproc \<times> SyscallResult) option" where
  "handle_syscall_69 call entropy cpu capability_cookie st s =
     (let proc = tc_owner (kp_ctx s (cs_current (ss_cpus (kp_sched s) ! cpu)))
      in case capability_map_lookup capability_cookie (sy_map st) of
           None \<Rightarrow> None
         | Some cap \<Rightarrow>
             case (if cap \<noteq> NULL then sc_handler (sy_caps st cap) else None) of
               Some handler \<Rightarrow> call handler s
             | None \<Rightarrow> Some (s\<lparr>kp_procs := (kp_procs s)(proc := snd (throttle_abuse (rand_entropy (fst entropy) (snd entropy)) (kp_procs s proc)))\<rparr>, RESULT_TYPE SYSCALL_INCAPABLE))"

section \<open>Maps without tombstones\<close>

definition untombed :: "CapabilityMap \<Rightarrow> bool" where
  "untombed m \<longleftrightarrow> (\<forall>e \<in> set (cm_entries m). \<not> ce_tombstone e)"

lemma untombed_free:
  assumes ok: "cap_ok m" and u: "untombed m"
  shows "has_free (cm_entries m)"
proof (rule ccontr)
  assume "\<not> has_free (cm_entries m)"
  then have "\<forall>e \<in> set (cm_entries m). live e" using u by (auto simp: has_free_def untombed_def live_def in_set_conv_nth)
  then have "filter live (cm_entries m) = cm_entries m" by (simp add: filter_id_conv)
  then show False using cap_okD(2-4) [OF ok] by simp
qed

lemma untombed_update: "untombed m \<Longrightarrow> (i < length (cm_entries m) \<Longrightarrow> \<not> ce_tombstone e) \<Longrightarrow> untombed (m\<lparr>cm_entries := (cm_entries m)[i := e]\<rparr>)"
  by (cases "i < length (cm_entries m)") (auto simp: untombed_def list_update_beyond dest!: set_update_subset_insert [THEN subsetD])

lemma untombed_nth: "untombed m \<Longrightarrow> i < length (cm_entries m) \<Longrightarrow> \<not> ce_tombstone (cm_entries m ! i)"
  by (simp add: untombed_def)

lemma untombed_size [simp]: "untombed (m\<lparr>cm_size := n\<rparr>) = untombed m"
  by (simp add: untombed_def)

lemma store_untombed: "untombed m \<Longrightarrow> store key v m = Some (m', b) \<Longrightarrow> untombed m'"
  using untombed_update [of m] untombed_nth [of m] by (auto simp: store_def split: if_splits)

lemma untombed_insert:
  assumes "cap_ok m" "untombed m" "4 * (cm_size m + 1) \<le> 3 * length (cm_entries m)"
  shows "\<exists>m'. capability_map_insert grow key v m = Some (m', True) \<and> cap_ok m' \<and> untombed m' \<and> caps (cm_entries m') = (caps (cm_entries m))(key \<mapsto> v)
    \<and> length (cm_entries m') = length (cm_entries m) \<and> cm_size m' \<le> cm_size m + 1"
proof -
  obtain m' where m': "store key v m = Some (m', True)" "cap_ok m'" "caps (cm_entries m') = (caps (cm_entries m))(key \<mapsto> v)" "length (cm_entries m') = length (cm_entries m)"
    using store_ok [OF assms(1) untombed_free [OF assms(1,2)] assms(3)] by blast
  moreover have "cm_size m' \<le> cm_size m + 1" using m'(1) by (auto simp: store_def split: if_splits)
  ultimately show ?thesis using assms(3) store_untombed [OF assms(2) m'(1)] by (simp add: insert_store)
qed

lemma lookup_untombed:
  assumes "cap_ok m" "untombed m"
  shows "capability_map_lookup key m = Some (case caps (cm_entries m) key of None \<Rightarrow> NULL | Some v \<Rightarrow> v)"
proof -
  obtain r where "find_probe (cm_entries m) key (home_index (length (cm_entries m)) key) = Some r"
    "case r of None \<Rightarrow> caps (cm_entries m) key = None | Some p \<Rightarrow> caps (cm_entries m) key = Some (ce_value (cm_entries m ! p))"
    using capability_map_find [OF assms(1) disjI1 [OF untombed_free [OF assms]]] by (fastforce split: option.splits)
  then show ?thesis using cap_okD(4) [OF assms(1)] by (cases r) (auto simp: capability_map_lookup_def)
qed

section \<open>Registering the handlers\<close>

abbreviation grants :: "cap_state \<Rightarrow> u64 \<Rightarrow> ptr option" where
  "grants st \<equiv> caps (cm_entries (sy_map st))"

text \<open>The cookie of a registration when one of the random instructions delivers.\<close>

definition cookie_of :: "cap_env \<Rightarrow> u64" where
  "cookie_of env = snd (capability_cookie_generate (cv_rdseed env) (cv_rdrand env) (cv_cpu env) (cv_tsc env) 0)"

definition env_ok :: "cap_env \<Rightarrow> bool" where
  "env_ok env \<longleftrightarrow> (cv_rdseed env \<noteq> None \<or> cv_rdrand env \<noteq> None) \<and> cv_block env \<noteq> NULL \<and> cookie_of env \<noteq> 0"

lemma generated_cookie:
  "env_ok env \<Longrightarrow> capability_cookie_generate (cv_rdseed env) (cv_rdrand env) (cv_cpu env) (cv_tsc env) n = (n, cookie_of env)"
  by (auto simp: env_ok_def cookie_of_def capability_cookie_generate_def Let_def split: option.splits)

definition caps_ready :: "nat \<Rightarrow> cap_state \<Rightarrow> bool" where
  "caps_ready n st \<longleftrightarrow> cap_ok (sy_map st) \<and> untombed (sy_map st) \<and> 4 * (cm_size (sy_map st) + n) \<le> 3 * length (cm_entries (sy_map st))"

lemma init_capability_ok:
  assumes ok: "caps_ready (Suc n) st" and env: "env_ok env"
  shows "\<exists>st'. init_syscall_capability env True i h st = Some (st', cookie_of env) \<and> caps_ready n st' \<and> grants st' = (grants st)(cookie_of env \<mapsto> cv_block env)
    \<and> sy_caps st' = (sy_caps st)(cv_block env := \<lparr>sc_type = CAPABILITY_TYPE_SYSCALL, sc_subtype = 1, sc_syscall_id = i, sc_flags = 0, sc_handler = Some h\<rparr>)"
proof -
  have r: "cap_ok (sy_map st)" "untombed (sy_map st)" "4 * (cm_size (sy_map st) + 1) \<le> 3 * length (cm_entries (sy_map st))" using ok by (simp_all add: caps_ready_def)
  obtain m where m: "capability_map_insert (cv_grow env) (cookie_of env) (cv_block env) (sy_map st) = Some (m, True)" "cap_ok m" "untombed m"
    "caps (cm_entries m) = (grants st)(cookie_of env \<mapsto> cv_block env)" "length (cm_entries m) = length (cm_entries (sy_map st))" "cm_size m \<le> cm_size (sy_map st) + 1"
    using untombed_insert [OF r] by blast
  have "4 * (cm_size m + n) \<le> 3 * length (cm_entries m)" using ok m(5,6) by (simp add: caps_ready_def)
  then show ?thesis using m env generated_cookie [OF env] by (simp add: init_syscall_capability_def caps_ready_def env_ok_def Let_def)
qed

text \<open>What the registrations \<open>rs\<close> have added to the capabilities.\<close>

definition added :: "(SyscallId \<Rightarrow> cap_env) \<Rightarrow> (SyscallId \<times> string) list \<Rightarrow> cap_state \<Rightarrow> cap_state \<Rightarrow> bool" where
  "added env rs st st' \<longleftrightarrow>
     (\<forall>(i, h) \<in> set rs. grants st' (cookie_of (env i)) = Some (cv_block (env i)) \<and> sc_handler (sy_caps st' (cv_block (env i))) = Some h)
     \<and> (\<forall>c. c \<notin> (\<lambda>(i, h). cookie_of (env i)) ` set rs \<longrightarrow> grants st' c = grants st c)
     \<and> (\<forall>p. p \<notin> (\<lambda>(i, h). cv_block (env i)) ` set rs \<longrightarrow> sy_caps st' p = sy_caps st p)"

definition pushes :: "u64 list \<Rightarrow> u64 \<times> (u64 \<Rightarrow> u64) \<Rightarrow> u64 \<times> (u64 \<Rightarrow> u64)" where
  "pushes xs m = fold push_word xs m"

definition cookie_words :: "(SyscallId \<Rightarrow> cap_env) \<Rightarrow> (SyscallId \<times> string) list \<Rightarrow> u64 list" where
  "cookie_words env rs = concat (map (\<lambda>(i, h). [cookie_of (env i), syscall_number i]) rs)"

lemma stack_capabilities_ok:
  assumes "caps_ready (length rs) st" "\<forall>(i, h) \<in> set rs. env_ok (env i)"
    "distinct (map (\<lambda>(i, h). cookie_of (env i)) rs)" "distinct (map (\<lambda>(i, h). cv_block (env i)) rs)"
  shows "\<exists>st'. stack_capabilities env rs stack st = Some (st', pushes (cookie_words env rs) stack, True) \<and> caps_ready 0 st' \<and> added env rs st st'"
  using assms
proof (induction rs arbitrary: st stack)
  case Nil
  then show ?case by (simp add: added_def pushes_def cookie_words_def)
next
  case (Cons r rs)
  obtain i h where r: "r = (i, h)" by fastforce
  have e: "env_ok (env i)" using Cons.prems(2) r by simp
  then have nz: "cookie_of (env i) \<noteq> 0" by (simp add: env_ok_def)
  obtain st1 where st1: "init_syscall_capability (env i) True i h st = Some (st1, cookie_of (env i))" "caps_ready (length rs) st1"
    "grants st1 = (grants st)(cookie_of (env i) \<mapsto> cv_block (env i))"
    "sy_caps st1 = (sy_caps st)(cv_block (env i) := \<lparr>sc_type = CAPABILITY_TYPE_SYSCALL, sc_subtype = 1, sc_syscall_id = i, sc_flags = 0, sc_handler = Some h\<rparr>)"
    using init_capability_ok [OF _ e, of "length rs" st i h] Cons.prems(1) by auto
  let ?s = "push_word (syscall_number i) (push_word (cookie_of (env i)) stack)"
  obtain st' where st': "stack_capabilities env rs ?s st1 = Some (st', pushes (cookie_words env rs) ?s, True)" "caps_ready 0 st'" "added env rs st1 st'"
    using Cons.IH [OF st1(2), of ?s] Cons.prems(2-4) by auto
  have "cookie_of (env i) \<notin> (\<lambda>(i, h). cookie_of (env i)) ` set rs" "cv_block (env i) \<notin> (\<lambda>(i, h). cv_block (env i)) ` set rs"
    using Cons.prems(3,4) r by auto
  then have "added env (r # rs) st st'" using st'(3) st1(3,4) unfolding added_def r by simp
  moreover have "pushes (cookie_words env (r # rs)) stack = pushes (cookie_words env rs) ?s" by (simp add: pushes_def cookie_words_def r)
  ultimately show ?case using st1(1) st'(1,2) nz r by simp
qed

text \<open>Words pushed on a stack that grows down.\<close>

lemma pushes_snoc: "pushes (xs @ [x]) m = push_word x (pushes xs m)" "pushes [] m = m"
  by (simp_all add: pushes_def)

lemma pushes_top: "fst (pushes xs (sp, w)) = sp - 8 * of_nat (length xs)"
  by (induction xs rule: rev_induct) (simp_all add: pushes_snoc push_word_def case_prod_beta algebra_simps)

lemma stack_slot_inj:
  assumes "(8 :: u64) * of_nat a = 8 * of_nat b" "a < 1152921504606846976" "b < 1152921504606846976"
  shows "a = b"
proof -
  have "unat (of_nat (8 * a) :: u64) = unat (of_nat (8 * b) :: u64)" using assms(1) by simp
  then show ?thesis using assms(2,3) by (simp add: unat_of_nat del: of_nat_mult)
qed

lemma pushes_nth:
  assumes "length xs < 1152921504606846975" "k < length xs"
  shows "snd (pushes xs (sp, w)) (sp - 8 * of_nat (Suc k)) = xs ! k"
  using assms
proof (induction xs rule: rev_induct)
  case (snoc x xs)
  have p: "snd (pushes (xs @ [x]) (sp, w)) = (snd (pushes xs (sp, w)))(sp - 8 * of_nat (Suc (length xs)) := x)"
    unfolding pushes_snoc push_word_def case_prod_beta pushes_top by (simp add: diff_diff_eq add.commute)
  show ?case
  proof (cases "k = length xs")
    case False
    then have k: "k < length xs" using snoc.prems(2) by simp
    have "8 * of_nat (Suc k) \<noteq> (8 * of_nat (Suc (length xs)) :: u64)" using stack_slot_inj [of "Suc k" "Suc (length xs)"] k snoc.prems(1) by auto
    then show ?thesis unfolding p using snoc.IH snoc.prems(1) k by (simp add: nth_append del: of_nat_Suc)
  qed (simp add: p del: of_nat_Suc)
qed simp

lemma cookie_words_length [simp]: "length (cookie_words env rs) = 2 * length rs"
  by (induction rs) (auto simp: cookie_words_def)

lemma cookie_words_nth:
  "k < length rs \<Longrightarrow> cookie_words env rs ! (2 * k) = cookie_of (env (fst (rs ! k))) \<and> cookie_words env rs ! Suc (2 * k) = syscall_number (fst (rs ! k))"
proof (induction rs arbitrary: k)
  case (Cons r rs)
  have e: "cookie_words env (r # rs) = cookie_of (env (fst r)) # syscall_number (fst r) # cookie_words env rs" by (simp add: cookie_words_def case_prod_beta)
  show ?case using Cons by (cases k) (simp_all add: e)
qed simp

lemma registrations_length [simp]: "length registrations = 26"
  by (simp add: registrations_def)

lemma registrations_numbers: "k < 26 \<Longrightarrow> syscall_number (fst (registrations ! k)) = of_nat (Suc k)"
proof -
  have "map (\<lambda>r. syscall_number (fst r)) registrations = map (\<lambda>k. of_nat (Suc k)) [0..<26]" by (simp add: registrations_def upt_rec)
  then have "map (\<lambda>r. syscall_number (fst r)) registrations ! k = map (\<lambda>k. of_nat (Suc k)) [0..<26] ! k" by simp
  then show "k < 26 \<Longrightarrow> syscall_number (fst (registrations ! k)) = of_nat (Suc k)" by simp
qed

lemma registrations_distinct: "distinct (map fst registrations)"
  by (simp add: registrations_def)

lemma registrations_names: "map snd registrations = [''debugprint'', ''debugchar'', ''create_thread'', ''memstats'', ''sleep'', ''create_process'',
    ''map_virtual'', ''send_message'', ''recv_message'', ''reply_message'', ''create_channel'', ''destroy_channel'', ''register_named_channel'',
    ''deregister_named_channel'', ''find_named_channel'', ''kill_current_task'', ''unmap_virtual'', ''create_region'', ''destroy_region'',
    ''map_firmware_tables'', ''map_physical'', ''alloc_physical_pages'', ''alloc_interrupt_vector'', ''wait_interrupt'', ''read_kernel_log'', ''get_framebuffer_phys'']"
  by (simp add: registrations_def)

lemma dispatch:
  assumes "cap_ok (sy_map st)" "untombed (sy_map st)"
  shows "grants st c = Some p \<Longrightarrow> p \<noteq> NULL \<Longrightarrow> sc_handler (sy_caps st p) = Some h \<Longrightarrow> handle_syscall_69 call e cpu c st s = call h s"
    "grants st c = None \<Longrightarrow> proc = tc_owner (kp_ctx s (cs_current (ss_cpus (kp_sched s) ! cpu))) \<Longrightarrow> handle_syscall_69 call e cpu c st s =
       Some (s\<lparr>kp_procs := (kp_procs s)(proc := (kp_procs s proc)\<lparr>pr_cap_failures := pr_cap_failures (kp_procs s proc) + 1\<rparr>)\<rparr>, RESULT_TYPE SYSCALL_INCAPABLE)"
  using lookup_untombed [OF assms] by (simp_all add: handle_syscall_69_def throttle_abuse_def Let_def)

text \<open>Cookies made of different entropy at the same time are different.\<close>

lemma hash_u64_inj: "inj hash_u64"
proof -
  have x: "a = b" if "(a :: u64) XOR drop_bit 33 a = b XOR drop_bit 33 b" for a b
  proof -
    have "(a XOR b) XOR drop_bit 33 (a XOR b) = (a XOR drop_bit 33 a) XOR (b XOR drop_bit 33 b)" by (rule bit_word_eqI) (auto simp: bit_simps)
    also have "\<dots> = 0" using that by simp
    finally have "a XOR b = 0" by (simp only: xor_shift_zero)
    then show ?thesis by (simp only: word_xor_eq_0)
  qed
  have m: "a = b" if "(c :: u64) * d = 1" "a * c = b * c" for a b c d
  proof -
    have "(a - b) * c = 0" using that(2) by (simp add: left_diff_distrib)
    then show ?thesis using odd_mult_zero [OF that(1)] by simp
  qed
  have c: "(0xff51afd7ed558ccd :: u64) * 0x4f74430c22a54005 = 1" "(0xc4ceb9fe1a85ec53 :: u64) * 0x9cb4b2f8129337db = 1" by simp_all
  show ?thesis
  proof (rule injI)
    fix a b assume h: "hash_u64 a = hash_u64 b"
    show "a = b" by (rule x [OF m [OF c(1) x [OF m [OF c(2) x [OF h [unfolded hash_u64_def Let_def]]]]]])
  qed
qed

definition demo_env :: "SyscallId \<Rightarrow> cap_env" where
  "demo_env i = \<lparr>cv_block = 0xFFFF800000000000 + syscall_number i, cv_rdseed = Some (1 + syscall_number i), cv_rdrand = None, cv_cpu = 0, cv_tsc = 0, cv_grow = False\<rparr>"

definition demo_caps :: cap_state where
  "demo_caps = \<lparr>sy_map = fresh_map, sy_caps = (\<lambda>_. \<lparr>sc_type = CAPABILITY_TYPE_INVALID, sc_subtype = 0, sc_syscall_id = SYSCALL_ID_DEBUG_PRINT, sc_flags = 0, sc_handler = None\<rparr>),
     sy_blocks = {}, sy_fallback = 0\<rparr>"

lemma syscall_number_inj: "inj syscall_number"
proof -
  have u: "UNIV = set (SYSCALL_ID_INVALID # map fst registrations)" unfolding registrations_def by (auto intro: SyscallId.exhaust)
  have "distinct (map syscall_number (SYSCALL_ID_INVALID # map fst registrations))" by (simp add: registrations_def)
  then show ?thesis unfolding u distinct_map by blast
qed

lemma demo_env_ok: "\<forall>i. env_ok (demo_env i)" "inj (\<lambda>i. cookie_of (demo_env i))" "inj (\<lambda>i. cv_block (demo_env i))" "caps_ready 26 demo_caps"
proof -
  have c: "cookie_of (demo_env i) = hash_u64 (1 + syscall_number i)" for i
    by (simp add: cookie_of_def demo_env_def capability_cookie_generate_def hash_u64_def Let_def)
  have "1 + syscall_number i \<noteq> 0 \<and> 0xFFFF800000000000 + syscall_number i \<noteq> 0" for i by (cases i) simp_all
  then show "\<forall>i. env_ok (demo_env i)" using c hash_u64_eq_0 by (simp add: env_ok_def demo_env_def)
  show "inj (\<lambda>i. cookie_of (demo_env i))" unfolding c by (rule injI) (use injD [OF hash_u64_inj] injD [OF syscall_number_inj] in fastforce)
  show "inj (\<lambda>i. cv_block (demo_env i))" using syscall_number_inj by (simp add: inj_def demo_env_def)
  have "cm_entries fresh_map = replicate 64 zero_entry" by (simp add: fresh_map_def capability_map_init_def INITIAL_CAPACITY_def)
  then have "untombed fresh_map" by (simp add: untombed_def zero_entry_def)
  then show "caps_ready 26 demo_caps" using fresh_map_ok by (simp add: caps_ready_def demo_caps_def)
qed

section \<open>Properties\<close>

text \<open>C11: the start-up registers every handler: the stack of the first process gets the number of system calls and a table that pairs each number with a cookie of its
  own; a call with the cookie that stands beside a number runs the handler of that number, by the names in the source, and a call with any value that is neither in the
  table nor granted anything before runs none.\<close>

theorem syscall_init_capabilities_grants:
  assumes ok: "caps_ready 26 st" "\<forall>i. env_ok (env i)" "inj (\<lambda>i. cookie_of (env i))" "inj (\<lambda>i. cv_block (env i))"
    and sp: "sp = stack - 8 * 56" "table = stack - 8 * 52" and slot: "slot = (\<lambda>k :: nat. table + 16 * (25 - of_nat k))"
  shows "\<exists>st' words'. syscall_init_capabilities env stack words st = Some (st', words', sp) \<and> words' sp = 26 \<and> words' (sp + 8) = table
    \<and> (\<forall>k < 26. words' (slot k) = of_nat (Suc k) \<and> words' (slot k + 8) \<noteq> 0
         \<and> handle_syscall_69 call e cpu (words' (slot k + 8)) st' s = call ([''debugprint'', ''debugchar'', ''create_thread'', ''memstats'', ''sleep'', ''create_process'',
             ''map_virtual'', ''send_message'', ''recv_message'', ''reply_message'', ''create_channel'', ''destroy_channel'', ''register_named_channel'',
             ''deregister_named_channel'', ''find_named_channel'', ''kill_current_task'', ''unmap_virtual'', ''create_region'', ''destroy_region'',
             ''map_firmware_tables'', ''map_physical'', ''alloc_physical_pages'', ''alloc_interrupt_vector'', ''wait_interrupt'', ''read_kernel_log'',
             ''get_framebuffer_phys''] ! k) s)
    \<and> inj_on (\<lambda>k. words' (slot k + 8)) {..<26}
    \<and> (\<forall>c. (\<forall>k < 26. words' (slot k + 8) \<noteq> c) \<and> grants st c = None \<longrightarrow> (\<exists>s'. handle_syscall_69 call e cpu c st' s = Some (s', RESULT_TYPE SYSCALL_INCAPABLE)))"
proof -
  have m: "map (\<lambda>(i, h). f i) registrations = map f (map fst registrations)" for f :: "SyscallId \<Rightarrow> u64" by (simp add: case_prod_beta)
  have d: "distinct (map (\<lambda>(i, h). cookie_of (env i)) registrations)" "distinct (map (\<lambda>(i, h). cv_block (env i)) registrations)"
    unfolding m distinct_map using registrations_distinct ok(3,4) by (auto intro: inj_on_subset simp: distinct_map)
  have r: "caps_ready (length registrations) st" "\<forall>(i, h) \<in> set registrations. env_ok (env i)" using ok(1,2) by auto
  obtain st' where st': "stack_capabilities env registrations (stack, words) st = Some (st', pushes (cookie_words env registrations) (stack, words), True)"
    "caps_ready 0 st'" "added env registrations st st'" using stack_capabilities_ok [OF r d, of "(stack, words)"] by blast
  let ?xs = "cookie_words env registrations @ [0] @ [0] @ [table] @ [26]"
  obtain sp' words' where p: "pushes ?xs (stack, words) = (sp', words')" by fastforce
  have sp': "sp' = sp" using pushes_top [of ?xs stack words] unfolding p sp(1) by simp
  have w: "words' (stack - 8 * of_nat (Suc j)) = ?xs ! j" if "j < 56" for j using pushes_nth [of ?xs j stack words] that unfolding p by simp
  have t: "fst (pushes (cookie_words env registrations) (stack, words)) = table" unfolding pushes_top sp(2) by simp
  have run: "syscall_init_capabilities env stack words st = Some (st', words', sp)"
  proof -
    obtain w0 where w0: "pushes (cookie_words env registrations) (stack, words) = (table, w0)" using t by (cases "pushes (cookie_words env registrations) (stack, words)") simp
    have "pushes ?xs (stack, words) = push_word 26 (push_word table (push_word 0 (push_word 0 (table, w0))))"
      unfolding append.assoc [symmetric] pushes_snoc w0 ..
    then show ?thesis using st'(1) p sp' unfolding w0 by (auto simp: syscall_init_capabilities_def push_word_def SYSCALL_ID_END_def Let_def)
  qed
  have top: "words' sp = 26" "words' (sp + 8) = table" using w [of 55] w [of 54] by (simp_all add: sp nth_append)
  let ?i = "\<lambda>k. fst (registrations ! k)"
  have tab: "words' (slot k) = of_nat (Suc k)" "words' (slot k + 8) = cookie_of (env (?i k))" if k: "k < 26" for k
  proof -
    have e: "slot k = stack - 8 * of_nat (Suc (Suc (2 * k)))" "slot k + 8 = stack - 8 * of_nat (Suc (2 * k))" by (simp_all add: slot sp algebra_simps)
    show "words' (slot k) = of_nat (Suc k)" "words' (slot k + 8) = cookie_of (env (?i k))"
      unfolding e(2) unfolding e(1) using w [of "2 * k"] w [of "Suc (2 * k)"] k cookie_words_nth [of k registrations env] registrations_numbers [OF k] by (simp_all add: nth_append del: of_nat_Suc)
  qed
  have run1: "handle_syscall_69 call e cpu (words' (slot k + 8)) st' s = call (map snd registrations ! k) s" if k: "k < 26" for k
  proof -
    obtain i h where ih: "registrations ! k = (i, h)" by fastforce
    then have "(i, h) \<in> set registrations" using k nth_mem [of k registrations] by simp
    then have "grants st' (cookie_of (env i)) = Some (cv_block (env i))" "sc_handler (sy_caps st' (cv_block (env i))) = Some h" using st'(3) by (auto simp: added_def)
    then show ?thesis using dispatch(1) [of st'] st'(2) ok(2) ih k unfolding tab(2) [OF k] by (simp add: caps_ready_def env_ok_def)
  qed
  have nz: "words' (slot k + 8) \<noteq> 0" if "k < 26" for k using ok(2) tab(2) [OF that] by (simp add: env_ok_def)
  have inj: "inj_on (\<lambda>k. words' (slot k + 8)) {..<26}"
  proof (rule inj_onI)
    fix j k :: nat assume jk: "j \<in> {..<26}" "k \<in> {..<26}" "words' (slot j + 8) = words' (slot k + 8)"
    then have "?i j = ?i k" using injD [OF ok(3)] by (simp add: tab(2))
    then show "j = k" using nth_eq_iff_index_eq [OF registrations_distinct, of j k] jk(1,2) by simp
  qed
  have none: "\<exists>s'. handle_syscall_69 call e cpu c st' s = Some (s', RESULT_TYPE SYSCALL_INCAPABLE)" if c: "\<forall>k < 26. words' (slot k + 8) \<noteq> c" "grants st c = None" for c
  proof -
    have "c \<notin> (\<lambda>(i, h). cookie_of (env i)) ` set registrations" using c(1) tab(2) by (auto simp: in_set_conv_nth) (metis fst_conv)
    then have "grants st' c = None" using st'(3) c(2) by (simp add: added_def)
    then show ?thesis using dispatch(2) [of st'] st'(2) by (simp add: caps_ready_def)
  qed
  show ?thesis unfolding registrations_names [symmetric] using run top tab(1) nz run1 inj none by (intro exI [of _ st'] exI [of _ words']) blast
qed

theorem syscall_init_capabilities_grants_witness:
  "\<exists>st' words'. syscall_init_capabilities demo_env 0x10000 (\<lambda>_. 0) demo_caps = Some (st', words', 0xFE40) \<and> words' 0xFE40 = 26 \<and> words' 0xFE48 = 0xFE60
    \<and> words' 0xFF90 = 7 \<and> handle_syscall_69 (\<lambda>h s. Some (s, RESULT_OK_VAL (if h = ''map_virtual'' then 1 else 0))) (None, 5) 0 (words' 0xFF98) st' demo_kproc = Some (demo_kproc, RESULT_OK_VAL 1)"
proof -
  obtain st' words' where r: "syscall_init_capabilities demo_env 0x10000 (\<lambda>_. 0) demo_caps = Some (st', words', 0xFE40)" "words' 0xFE40 = 26" "words' (0xFE40 + 8) = 0xFE60"
    and k: "\<forall>k < 26. words' (0xFE60 + 16 * (25 - of_nat k)) = of_nat (Suc k) \<and> words' (0xFE60 + 16 * (25 - of_nat k) + 8) \<noteq> 0
         \<and> handle_syscall_69 (\<lambda>h s. Some (s, RESULT_OK_VAL (if h = ''map_virtual'' then 1 else 0))) (None, 5) 0 (words' (0xFE60 + 16 * (25 - of_nat k) + 8)) st' demo_kproc
           = Some (demo_kproc, RESULT_OK_VAL (if [''debugprint'', ''debugchar'', ''create_thread'', ''memstats'', ''sleep'', ''create_process'',
             ''map_virtual'', ''send_message'', ''recv_message'', ''reply_message'', ''create_channel'', ''destroy_channel'', ''register_named_channel'',
             ''deregister_named_channel'', ''find_named_channel'', ''kill_current_task'', ''unmap_virtual'', ''create_region'', ''destroy_region'',
             ''map_firmware_tables'', ''map_physical'', ''alloc_physical_pages'', ''alloc_interrupt_vector'', ''wait_interrupt'', ''read_kernel_log'',
             ''get_framebuffer_phys''] ! k = ''map_virtual'' then 1 else 0))"
    using syscall_init_capabilities_grants [OF demo_env_ok(4,1-3) _ _ refl, of "0xFE40" "0x10000" "0xFE60" "\<lambda>_. 0" "\<lambda>h s. Some (s, RESULT_OK_VAL (if h = ''map_virtual'' then 1 else 0))" "(None, 5)" 0 demo_kproc] by auto
  from spec [OF k, of 6] r show ?thesis by auto
qed

text \<open>A system call with a value that grants no capability runs no handler: the only effect is that the failures of the calling process are counted.\<close>

theorem syscall_without_capability:
  assumes "cap_ok (sy_map st)" "untombed (sy_map st)" "grants st c = None" "proc = tc_owner (kp_ctx s (cs_current (ss_cpus (kp_sched s) ! cpu)))"
  shows "handle_syscall_69 call e cpu c st s =
    Some (s\<lparr>kp_procs := (kp_procs s)(proc := (kp_procs s proc)\<lparr>pr_cap_failures := pr_cap_failures (kp_procs s proc) + 1\<rparr>)\<rparr>, RESULT_TYPE SYSCALL_INCAPABLE)"
  by (rule dispatch(2) [OF assms])

theorem syscall_without_capability_witness:
  "\<exists>s'. handle_syscall_69 (\<lambda>_ _. None) (None, 5) 0 7 demo_caps demo_kproc = Some (s', RESULT_TYPE SYSCALL_INCAPABLE)"
proof -
  have "cap_ok (sy_map demo_caps)" "untombed (sy_map demo_caps)" "grants demo_caps 7 = None" using demo_env_ok(4) fresh_map_ok(3) by (simp_all add: caps_ready_def demo_caps_def)
  from syscall_without_capability [OF this refl] show ?thesis by blast
qed

text \<open>C40: the delay after a failed call has a part that grows by 5000 cycles with every failure of the process, from 50000 up to a million, and a random part
  smaller than that; the failure is counted. All delays are between 50000 and 2000000 cycles.\<close>

theorem throttle_delay_bounds:
  assumes "pr_cap_failures p < 0x4000000000000" "throttle_abuse entropy p = (delay, p')" "b = min 1000000 (50000 + 5000 * unat (pr_cap_failures p))"
  shows "unat delay = b + unat entropy mod b \<and> b \<le> unat delay \<and> unat delay < 2 * b \<and> 50000 \<le> unat delay \<and> unat delay < 2000000
    \<and> p' = p\<lparr>pr_cap_failures := pr_cap_failures p + 1\<rparr> \<and> unat (pr_cap_failures p') = unat (pr_cap_failures p) + 1"
proof -
  let ?f = "unat (pr_cap_failures p)" and ?b = "throttle_base (pr_cap_failures p)"
  have f: "?f < 1125899906842624" using assms(1) by (simp add: word_less_nat_alt)
  have "unat (pr_cap_failures p * 5000) = ?f * 5000" using f unat_mult_lem [of "pr_cap_failures p" 5000] by simp
  then have "unat (50000 + pr_cap_failures p * 5000) = 50000 + ?f * 5000" using f unat_add_lem [of 50000 "pr_cap_failures p * 5000"] by simp
  then have b: "unat ?b = b" by (simp add: assms(3) throttle_base_def Let_def word_less_nat_alt min_def)
  have b1: "50000 \<le> b" "b \<le> 1000000" by (simp_all add: assms(3))
  have d: "delay = ?b + entropy mod ?b" "p' = p\<lparr>pr_cap_failures := pr_cap_failures p + 1\<rparr>" using assms(2) by (auto simp: throttle_abuse_def Let_def)
  have n: "unat (pr_cap_failures p + 1) = ?f + 1" using f unat_add_lem [of "pr_cap_failures p" 1] by simp
  have m: "unat (entropy mod ?b) = unat entropy mod b" "unat entropy mod b < b" unfolding unat_mod b using b1 by simp_all
  then have "unat ?b + unat (entropy mod ?b) < 18446744073709551616" using b b1(2) by linarith
  then have dl: "unat delay = b + unat entropy mod b" unfolding d(1) using iffD1 [OF unat_add_lem, of ?b "entropy mod ?b"] b m(1) by simp
  then have "b \<le> unat delay" "unat delay < 2 * b" "50000 \<le> unat delay" "unat delay < 2000000" using m(2) b1 by linarith+
  then show ?thesis using dl d(2) n by simp
qed

theorem throttle_delay_bounds_witness:
  "\<exists>delay p'. throttle_abuse 77 ((kp_procs demo_kproc 0)\<lparr>pr_cap_failures := 3\<rparr>) = (delay, p') \<and> unat delay = 65077 \<and> pr_cap_failures p' = 4"
proof -
  let ?p = "(kp_procs demo_kproc 0)\<lparr>pr_cap_failures := 3\<rparr>"
  obtain delay p' where t: "throttle_abuse 77 ?p = (delay, p')" by fastforce
  have "pr_cap_failures ?p < 0x4000000000000" by simp
  from throttle_delay_bounds [OF this t refl] t show ?thesis by simp
qed

end
