(* ===== verification/Syscalls.thy ===== *)
theory Syscalls
  imports Syscall_Memory Process Ipc Sleep Klog
begin

text \<open>
  The other handlers of \<^verbatim>\<open>kernel/syscalls.c\<close>: threads and processes, sleeping, messages, channels and their names, interrupts, the kernel
  log, the framebuffer and the firmware tables. Each handler is a function on the state of the components it calls. Blocks that allocators return
  are arguments (null when they fail); what a handler writes through a pointer of the caller is part of its result. A handler that gives up the
  processor has a second part, which runs after the switch back.
\<close>

section \<open>Threads and processes\<close>

text \<open>The numbers of the classes are those of the enumeration; a larger number is no class.\<close>

definition class_of :: "u8 \<Rightarrow> TaskClass" where
  "class_of n = (if n = 0 then TASK_CLASS_IDLE else if n = 1 then TASK_CLASS_NORMAL else if n = 2 then TASK_CLASS_HIGH
     else if n = 3 then TASK_CLASS_REALTIME else TASK_CLASS_INVALID)"

record task_blocks =
  tb_task :: ptr
  tb_stack :: ptr
  tb_node :: ptr

text \<open>The new task on the least loaded CPU. Without a CPU, or without a task, a null pointer is followed.\<close>

definition start_task :: "ptr \<Rightarrow> kproc \<Rightarrow> (kproc \<Rightarrow> 'a step_result) \<Rightarrow> 'a step_result" where
  "start_task task s k =
     (case sched_find_target_cpu (kp_sched s) of
        None \<Rightarrow> Faults 0
      | Some target_cpu \<Rightarrow>
          if task = NULL then Faults 0
          else case sched_unblock_on task target_cpu (kp_sched s) of None \<Rightarrow> Spins | Some sc \<Rightarrow> k (s\<lparr>kp_sched := sc\<rparr>))"

definition handle_create_thread :: "u64 \<Rightarrow> nat \<Rightarrow> task_blocks \<Rightarrow> u64 \<Rightarrow> u64 \<Rightarrow> u64 \<Rightarrow> kproc \<Rightarrow> (kproc \<times> SyscallResult) step_result" where
  "handle_create_thread user_thread_entrypoint cpu bl func user_stack arg2 s =
     (let task_class = ucast arg2 :: u8
      in if task_class \<ge> 4 then Done (s, RESULT_BADARGS)
         else
           let owner = tc_owner (kp_ctx s (cs_current (ss_cpus (kp_sched s) ! cpu)));
               (s, task) = task_create_user user_thread_entrypoint owner user_stack 0 func (class_of task_class) (tb_task bl) (tb_stack bl) (tb_node bl) s
           in start_task task s (\<lambda>s. Done (s, RESULT_OK_VAL (tc_tid (kp_ctx s task)))))"

definition VM_KERNEL_SPACE_START :: u64 where
  "VM_KERNEL_SPACE_START = 0xffff800000000000"

definition MAX_PROCESS_REGIONS :: u8 where
  "MAX_PROCESS_REGIONS = 16"

definition MIN_PROCESS_STACK_HEADROOM :: u64 where
  "MIN_PROCESS_STACK_HEADROOM = 1024"

record ProcessCreateParams =
  pp_entry_point :: u64
  pp_stack_base :: u64
  pp_stack_size :: u64
  pp_region_count :: u8
  pp_task_class :: u8
  pp_regions :: u64
  pp_stack_value_count :: u16
  pp_stack_values :: u64

text \<open>The caller's memory: the parameters, the regions their pointer leads to, and the stack values.\<close>

record process_request =
  rq_params :: ProcessCreateParams
  rq_regions :: "nat \<Rightarrow> AddressSpaceRegion"
  rq_values :: "nat \<Rightarrow> u64"

definition process_params_ok :: "u64 \<Rightarrow> ProcessCreateParams \<Rightarrow> bool" where
  "process_params_ok addr p \<longleftrightarrow>
     IS_USER_ADDRESS addr \<and> IS_USER_ADDRESS (addr + 64)
     \<and> \<not> (pp_stack_base p \<ge> VM_KERNEL_SPACE_START \<or> pp_stack_base p + pp_stack_size p \<ge> VM_KERNEL_SPACE_START)
     \<and> \<not> unat (pp_stack_value_count p) > MAX_STACK_VALUE_COUNT
     \<and> \<not> ucast (pp_stack_value_count p) * 8 > pp_stack_size p - MIN_PROCESS_STACK_HEADROOM
     \<and> \<not> pp_region_count p > MAX_PROCESS_REGIONS"

text \<open>The loop over the regions; \<open>None\<close> is a bad argument.\<close>

fun copy_regions :: "u64 \<Rightarrow> (nat \<Rightarrow> AddressSpaceRegion) \<Rightarrow> nat list \<Rightarrow> AddressSpaceRegion list option" where
  "copy_regions regions src [] = Some []"
| "copy_regions regions src (i # js) =
     (let src_ptr = regions + 16 * of_nat i
      in if src_ptr > VM_KERNEL_SPACE_START then None
         else if src_ptr + 16 > VM_KERNEL_SPACE_START then None
         else if as_start (src i) AND 0xfff \<noteq> 0 then None
         else if as_len_bytes (src i) AND 0xfff \<noteq> 0 then None
         else map_option ((#) \<lparr>as_start = as_start (src i), as_len_bytes = as_len_bytes (src i)\<rparr>) (copy_regions regions src js))"

record create_env =
  ce_rgn :: ptr
  ce_cr3 :: u64
  ce_cpu_id :: u8
  ce_refs :: "u64 \<Rightarrow> bool \<times> (nat \<Rightarrow> bool) \<times> bool"
  ce_uninit :: "nat \<Rightarrow> u64"
  ce_lock :: ptr
  ce_meminfo :: ptr
  ce_process :: ptr
  ce_task :: task_blocks
  ce_entrypoint :: u64
  ce_free :: "ptr \<Rightarrow> ptr \<Rightarrow> kproc \<Rightarrow> kproc"

record kernel =
  kn_proc :: kproc
  kn_vm :: vm

definition kn_mem :: "kernel \<Rightarrow> kmem" where
  "kn_mem s = \<lparr>km_mem = kp_mem (kn_proc s), km_vm = kn_vm s\<rparr>"

definition kn_set_mem :: "kmem \<Rightarrow> kernel \<Rightarrow> kernel" where
  "kn_set_mem m s = s\<lparr>kn_proc := (kn_proc s)\<lparr>kp_mem := km_mem m\<rparr>, kn_vm := km_vm m\<rparr>"

text \<open>What follows when the address space has been made.\<close>

definition create_process_in :: "create_env \<Rightarrow> nat \<Rightarrow> ProcessCreateParams \<Rightarrow> u64 \<Rightarrow> kernel \<Rightarrow> (kernel \<times> SyscallResult) step_result" where
  "create_process_in env cpu p new_pml4 s =
     (let (k, new_process) = process_create new_pml4 (ce_lock env) (ce_meminfo env) (ce_process env) (kn_proc s); s = s\<lparr>kn_proc := k\<rparr>
      in if new_process = NULL then Done (s, RESULT_FAILURE)
         else
           let (k, new_task) = task_create_user (ce_entrypoint env) new_process
                 (pp_stack_base p + pp_stack_size p - ucast (pp_stack_value_count p) * 8) 0 (pp_entry_point p) (class_of (pp_task_class p))
                 (tb_task (ce_task env)) (tb_stack (ce_task env)) (tb_node (ce_task env)) (kn_proc s)
           in if new_task = NULL then
                (case process_destroy (ce_free env) cpu new_process k of
                   None \<Rightarrow> Spins
                 | Some k \<Rightarrow> Done (s\<lparr>kn_proc := k\<rparr>, RESULT_FAILURE))
              else start_task new_task k (\<lambda>k. Done (s\<lparr>kn_proc := k\<rparr>, RESULT_OK_VAL (pr_pid (kp_procs k new_process)))))"

definition handle_create_process :: "create_env \<Rightarrow> nat \<Rightarrow> u64 \<Rightarrow> process_request \<Rightarrow> kernel \<Rightarrow> (kernel \<times> SyscallResult) step_result" where
  "handle_create_process env cpu arg0 rq s =
     (let p = rq_params rq
      in if \<not> process_params_ok arg0 p then Done (s, RESULT_BADARGS)
         else case copy_regions (pp_regions p) (rq_regions rq) [0..<unat (pp_region_count p)] of
                None \<Rightarrow> Done (s, RESULT_BADARGS)
              | Some ad_regions \<Rightarrow>
                  case address_space_create (ce_rgn env) (ce_cr3 env) (ce_cpu_id env) (ce_refs env) (ce_uninit env) (pp_stack_base p) (pp_stack_size p)
                         ad_regions (map (rq_values rq) [0..<unat (pp_stack_value_count p)]) (kn_mem s) of
                    Panics \<Rightarrow> Panics
                  | Faults a \<Rightarrow> Faults a
                  | Spins \<Rightarrow> Spins
                  | Done (m, new_pml4) \<Rightarrow>
                      let s = kn_set_mem m s
                      in if new_pml4 = 0 then Done (s, RESULT_FAILURE) else create_process_in env cpu p new_pml4 s)"

definition handle_sleep :: "ptr \<Rightarrow> u64 \<Rightarrow> nat \<Rightarrow> u64 \<Rightarrow> sleep_state \<Rightarrow> (SleepQueue list \<times> sched_outcome \<times> SyscallResult) option" where
  "handle_sleep block upticks cpu nanos st =
     map_option (\<lambda>(qs, r). (qs, r, RESULT_OK)) (sleep_task block upticks cpu (cs_current (ss_cpus (sl_sched st) ! cpu)) nanos st)"

text \<open>\<open>Inl\<close> is a result for the caller; \<open>Inr\<close> is what the scheduler did, from which the call does not return.\<close>

definition handle_kill_current_task :: "nat \<Rightarrow> sched_state \<Rightarrow> (SyscallResult + sched_outcome) option" where
  "handle_kill_current_task cpu s =
     (let current = cs_current (ss_cpus s ! cpu)
      in if current \<noteq> NULL
         then map_option Inr (sched_schedule cpu (upd_task current (\<lambda>t. t\<lparr>status_flags := status_flags t OR TASK_SCHED_FLAG_KILLED\<rparr>) s))
         else Some (Inl RESULT_FAILURE))"

section \<open>Messages and channels\<close>

definition IS_PAGE_ALIGNED :: "u64 \<Rightarrow> bool" where
  "IS_PAGE_ALIGNED p \<longleftrightarrow> p AND 0xfff = 0"

text \<open>How a call that may wait ends: with a result, or blocked; the flag is that of the scheduler.\<close>

datatype 'a sys_outcome = Returns 'a SyscallResult | Waits 'a bool

definition value_or_failure :: "u64 \<Rightarrow> SyscallResult" where
  "value_or_failure v = (if v \<noteq> 0 then RESULT_OK_VAL v else RESULT_FAILURE)"

definition handle_send_message :: "(u64 \<Rightarrow> u64) \<Rightarrow> nat \<Rightarrow> ptr \<Rightarrow> u64 \<Rightarrow> u64 \<Rightarrow> u64 \<Rightarrow> u64 \<Rightarrow> u64 \<Rightarrow> ipc_state \<Rightarrow> ipc_state sys_outcome option" where
  "handle_send_message virt_to_phys cpu message cookie channel_cookie tag sz buffer st =
     (if IS_USER_ADDRESS buffer \<and> IS_PAGE_ALIGNED buffer
      then map_option (\<lambda>r. case r of SendFails st \<Rightarrow> Returns st (value_or_failure 0) | SendBlocks st b \<Rightarrow> Waits st b)
             (ipc_channel_send_begin virt_to_phys cpu message cookie channel_cookie tag sz buffer st)
      else Some (Returns st RESULT_BADARGS))"

definition handle_send_message_resume :: "ptr \<Rightarrow> ipc_state \<Rightarrow> SyscallResult" where
  "handle_send_message_resume message st = value_or_failure (fst (ipc_channel_send_resume message st))"

text \<open>A receive also gives what was received.\<close>

definition received_result :: "recv_result \<Rightarrow> ipc_state sys_outcome \<times> received option" where
  "received_result r =
     (case r of
        RecvFails st \<Rightarrow> (Returns st (value_or_failure 0), None)
      | RecvGets g st \<Rightarrow> (Returns st (value_or_failure (rc_cookie g)), Some g)
      | RecvBlocks st b \<Rightarrow> (Waits st b, None))"

definition handle_recv_message :: "nat \<Rightarrow> bool \<Rightarrow> u64 \<Rightarrow> u64 \<Rightarrow> u64 \<Rightarrow> u64 \<Rightarrow> ipc_state \<Rightarrow> (ipc_state sys_outcome \<times> received option) option" where
  "handle_recv_message cpu hash_ok channel_cookie tag sz buffer st =
     (if IS_USER_ADDRESS tag \<and> IS_USER_ADDRESS sz \<and> IS_USER_ADDRESS buffer \<and> IS_PAGE_ALIGNED buffer
      then map_option received_result (ipc_channel_recv_begin cpu hash_ok channel_cookie buffer st)
      else Some (Returns st RESULT_BADARGS, None))"

definition handle_recv_message_resume :: "bool \<Rightarrow> u64 \<Rightarrow> u64 \<Rightarrow> ipc_state \<Rightarrow> ipc_state sys_outcome \<times> received option" where
  "handle_recv_message_resume hash_ok channel_cookie buffer st = received_result (ipc_channel_recv_resume hash_ok channel_cookie buffer st)"

definition handle_reply_message :: "nat \<Rightarrow> u64 \<Rightarrow> u64 \<Rightarrow> ipc_state \<Rightarrow> (ipc_state \<times> bool \<times> SyscallResult) option" where
  "handle_reply_message cpu message_cookie reply st =
     map_option (\<lambda>(st, result, b). (st, b, value_or_failure result)) (ipc_channel_reply cpu message_cookie reply st)"

definition handle_create_channel :: "ptr \<Rightarrow> ptr \<Rightarrow> ptr \<Rightarrow> u64 \<Rightarrow> bool \<Rightarrow> ipc_state \<Rightarrow> ipc_state \<times> SyscallResult" where
  "handle_create_channel channel receivers_lock queue_lock cookie hash_ok st =
     (let (st, cookie, _) = ipc_channel_create channel receivers_lock queue_lock cookie hash_ok st in (st, value_or_failure cookie))"

definition handle_destroy_channel :: "u64 \<Rightarrow> ipc_state \<Rightarrow> (ipc_state \<times> SyscallResult) option" where
  "handle_destroy_channel cookie st = map_option (\<lambda>(st, _). (st, RESULT_OK)) (ipc_channel_destroy cookie st)"

definition handle_register_named_channel :: "bool \<Rightarrow> ipc_state \<Rightarrow> u64 \<Rightarrow> u64 \<Rightarrow> u8 list \<Rightarrow> HashTable \<Rightarrow> HashTable \<times> SyscallResult" where
  "handle_register_named_channel hash_ok st cookie name_ptr name names =
     (if \<not> IS_USER_ADDRESS name_ptr then (names, RESULT_BADARGS)
      else let (names, ok) = named_channel_register hash_ok st names cookie (if name_ptr = 0 then None else Some name)
           in (names, if ok then RESULT_OK else RESULT_TYPE SYSCALL_BAD_NUMBER))"

definition handle_deregister_named_channel :: "u64 \<Rightarrow> u8 list \<Rightarrow> HashTable \<Rightarrow> (HashTable \<times> SyscallResult) option" where
  "handle_deregister_named_channel name_ptr name names =
     (if \<not> IS_USER_ADDRESS name_ptr then Some (names, RESULT_BADARGS)
      else map_option (\<lambda>(names, r). (names, if r \<noteq> 0 then RESULT_OK else RESULT_TYPE SYSCALL_BAD_NAME))
             (named_channel_deregister names (if name_ptr = 0 then None else Some name)))"

definition handle_find_named_channel :: "u64 \<Rightarrow> u8 list \<Rightarrow> HashTable \<Rightarrow> SyscallResult" where
  "handle_find_named_channel name_ptr name names =
     (if \<not> IS_USER_ADDRESS name_ptr then RESULT_TYPE SYSCALL_BAD_NAME
      else RESULT_OK_VAL (named_channel_find names (if name_ptr = 0 then None else Some name)))"

section \<open>Interrupts, log and framebuffer\<close>

definition pid_of :: "kproc \<Rightarrow> ptr \<Rightarrow> u64" where
  "pid_of s task = pr_pid (kp_procs s (tc_owner (kp_ctx s task)))"

text \<open>The address and data for the device are given to the caller.\<close>

definition handle_alloc_interrupt_vector :: "cpu_registry \<Rightarrow> (ptr \<Rightarrow> u64) \<Rightarrow> ptr \<Rightarrow> u64 \<Rightarrow> nat \<Rightarrow> u64 \<Rightarrow> u64 \<Rightarrow> u64 \<Rightarrow> kproc
    \<Rightarrow> (kproc \<times> (u64 \<times> u32) option \<times> SyscallResult) option" where
  "handle_alloc_interrupt_vector r lapic_id this_cpu now cpu arg0 msi_address_ptr msi_data_ptr s =
     (let current_task = cs_current (ss_cpus (kp_sched s) ! cpu); pid = pid_of s current_task
      in if \<not> IS_USER_ADDRESS msi_address_ptr \<or> \<not> IS_USER_ADDRESS msi_data_ptr then Some (s, None, RESULT_BADARGS)
         else
           let (m, allocated_vector, msi) = msi_allocate_vector r lapic_id this_cpu now (ucast arg0) pid (kp_msi s); s = s\<lparr>kp_msi := m\<rparr>
           in if allocated_vector = 0 then Some (s, None, RESULT_FAILURE)
              else if \<not> msi_register_handler allocated_vector current_task (pid_of s) (kp_msi s) then
                map_option (\<lambda>(m, sc, _). (s\<lparr>kp_msi := m, kp_sched := sc\<rparr>, None, RESULT_FAILURE))
                  (msi_deallocate_vector cpu allocated_vector pid (kp_msi s) (kp_sched s))
              else Some (s, msi, RESULT_OK_VAL (ucast allocated_vector)))"

text \<open>The place for the event is a variable of the handler, so its address is not null: 1 stands for it.\<close>

datatype wait_outcome = Got "u32 option" SyscallResult | Sleeps sched_outcome

definition handle_wait_interrupt :: "nat \<Rightarrow> u64 \<Rightarrow> u64 \<Rightarrow> kproc \<Rightarrow> (kproc \<times> wait_outcome) option" where
  "handle_wait_interrupt cpu arg0 event_data_ptr s =
     (let vector = ucast arg0 :: u8; current_task = cs_current (ss_cpus (kp_sched s) ! cpu)
      in if \<not> IS_USER_ADDRESS event_data_ptr then Some (s, Got None RESULT_BADARGS)
         else if msi_is_slow_consumer vector (kp_msi s) then Some (s, Got None RESULT_FAILURE)
         else map_option (\<lambda>(m, w). (s\<lparr>kp_msi := m\<rparr>,
                case w of Fails \<Rightarrow> Got None RESULT_FAILURE | Event data \<Rightarrow> Got (Some data) RESULT_OK | Blocks r \<Rightarrow> Sleeps r))
                (msi_wait_interrupt cpu vector current_task 1 (pid_of s) (kp_msi s) (kp_sched s)))"

text \<open>The end of the call after the switch back.\<close>

definition handle_wait_interrupt_resume :: "u64 \<Rightarrow> kproc \<Rightarrow> kproc \<times> u32 option \<times> SyscallResult" where
  "handle_wait_interrupt_resume arg0 s =
     (case msi_wait_finish (ucast arg0) (kp_msi s) of
        (m, None) \<Rightarrow> (s\<lparr>kp_msi := m\<rparr>, None, RESULT_FAILURE)
      | (m, Some data) \<Rightarrow> (s\<lparr>kp_msi := m\<rparr>, Some data, RESULT_OK))"

text \<open>One pass of the read: the bytes and the result, or the task was put on the list of waiting readers.\<close>

definition handle_read_kernel_log :: "nat \<Rightarrow> u64 \<Rightarrow> u64 \<Rightarrow> KernelLogBuffer \<Rightarrow> sched_state
    \<Rightarrow> KernelLogBuffer \<times> sched_state \<times> (string \<times> SyscallResult) option" where
  "handle_read_kernel_log cpu buffer buffer_size l s =
     (if \<not> IS_USER_ADDRESS buffer \<or> buffer_size = 0 then (l, s, Some ([], RESULT_BADARGS))
      else case klog_read (cs_current (ss_cpus s ! cpu)) buffer (unat buffer_size) l s of
             (l, s, Read cs) \<Rightarrow> (l, s, Some (cs, RESULT_OK_VAL (of_nat (length cs))))
           | (l, s, Must_wait) \<Rightarrow> (l, s, None))"

record KernelFramebufferInfo =
  fb_physical_address :: u64
  fb_virtual_address :: u64
  fb_width :: u32
  fb_height :: u32
  fb_pitch :: u32
  fb_bpp :: u32
  fb_initialized :: bool

definition framebuffer_set_info :: "u64 \<Rightarrow> u64 \<Rightarrow> u32 \<Rightarrow> u32 \<Rightarrow> u32 \<Rightarrow> KernelFramebufferInfo" where
  "framebuffer_set_info phys_addr virt_addr width hgt bpp =
     \<lparr>fb_physical_address = phys_addr, fb_virtual_address = virt_addr, fb_width = width, fb_height = hgt,
      fb_pitch = width * (bpp div 8), fb_bpp = bpp, fb_initialized = True\<rparr>"

definition framebuffer_get_info :: "KernelFramebufferInfo \<Rightarrow> KernelFramebufferInfo option" where
  "framebuffer_get_info kernel_framebuffer = (if \<not> fb_initialized kernel_framebuffer then None else Some kernel_framebuffer)"

record AnosFramebufferInfo =
  af_physical_address :: u64
  af_width :: u32
  af_height :: u32
  af_pitch :: u32
  af_bpp :: u32
  af_reserved :: "u32 list"

definition handle_get_framebuffer_phys :: "u64 \<Rightarrow> KernelFramebufferInfo \<Rightarrow> AnosFramebufferInfo option \<times> SyscallResult" where
  "handle_get_framebuffer_phys user_info kernel_framebuffer =
     (if \<not> IS_USER_ADDRESS user_info then (None, RESULT_BADARGS)
      else case framebuffer_get_info kernel_framebuffer of
             None \<Rightarrow> (None, RESULT_FAILURE)
           | Some kernel_info \<Rightarrow>
               (Some \<lparr>af_physical_address = fb_physical_address kernel_info, af_width = fb_width kernel_info, af_height = fb_height kernel_info,
                      af_pitch = fb_pitch kernel_info, af_bpp = fb_bpp kernel_info, af_reserved = [0, 0, 0]\<rparr>, RESULT_OK))"

definition handle_debugprint :: "u64 \<Rightarrow> string \<Rightarrow> string \<times> SyscallResult" where
  "handle_debugprint message_ptr message = (if IS_USER_ADDRESS message_ptr then message else [], RESULT_OK)"

definition handle_debugchar :: "u64 \<Rightarrow> string \<times> SyscallResult" where
  "handle_debugchar arg0 = ([char_of (unat (ucast arg0 :: u8))], RESULT_OK)"

section \<open>Firmware tables\<close>

text \<open>The root table: its signature, its length, and the memory behind its header as 64-bit and as 32-bit entries.\<close>

record ACPI_RSDT =
  rs_signature :: string
  rs_length :: u32
  rs_entry64 :: "nat \<Rightarrow> u64"
  rs_entry32 :: "nat \<Rightarrow> u32"

record ACPI_RSDP =
  rp_revision :: u8
  rp_length :: u32
  rp_bytes :: "nat \<Rightarrow> u8"

record firmware =
  fw_handed_over :: bool
  fw_rsdp :: "ACPI_RSDP option"
  fw_root :: "ACPI_RSDT option"

definition ACPI_R0_RSDP_SIZE :: nat where
  "ACPI_R0_RSDP_SIZE = 20"

definition ACPI_TABLES_VADDR_BASE :: u64 where
  "ACPI_TABLES_VADDR_BASE = 0xffffffff81100000"

definition ACPI_TABLES_VADDR_LIMIT :: u64 where
  "ACPI_TABLES_VADDR_LIMIT = 0xffffffff82000000"

fun sig_loop :: "string \<Rightarrow> string \<Rightarrow> nat list \<Rightarrow> bool" where
  "sig_loop expect sdt [] = True"
| "sig_loop expect sdt (i # js) = (if expect ! i \<noteq> sdt ! i then False else sig_loop expect sdt js)"

definition has_sig :: "string \<Rightarrow> ACPI_RSDT \<Rightarrow> bool" where
  "has_sig expect sdt = sig_loop expect (rs_signature sdt) [0..<4]"

definition RSDT_ENTRY_COUNT :: "ACPI_RSDT \<Rightarrow> u32" where
  "RSDT_ENTRY_COUNT sdt = ucast ((ucast (rs_length sdt) - 36 :: u64) div 4)"

definition XSDT_ENTRY_COUNT :: "ACPI_RSDT \<Rightarrow> u32" where
  "XSDT_ENTRY_COUNT sdt = ucast ((ucast (rs_length sdt) - 36 :: u64) div 8)"

text \<open>The loop over the entries: empty ones are skipped, one that does not translate ends it.\<close>

fun convert_entries :: "('a::zero \<Rightarrow> 'a option) \<Rightarrow> nat list \<Rightarrow> (nat \<Rightarrow> 'a) \<Rightarrow> (nat \<Rightarrow> 'a) \<times> bool" where
  "convert_entries translate [] entry = (entry, True)"
| "convert_entries translate (i # js) entry =
     (if entry i \<noteq> 0
      then case translate (entry i) of
             None \<Rightarrow> (entry, False)
           | Some p \<Rightarrow> convert_entries translate js (entry(i := p))
      else convert_entries translate js entry)"

definition xsdt_translate :: "u64 \<Rightarrow> vm \<Rightarrow> u64 \<Rightarrow> u64 option" where
  "xsdt_translate cr3 v entry = (let phys_addr = vmm_virt_to_phys cr3 entry v in if phys_addr = 0 then None else Some phys_addr)"

definition rsdt_translate :: "u64 \<Rightarrow> vm \<Rightarrow> u32 \<Rightarrow> u32 option" where
  "rsdt_translate cr3 v entry =
     (let phys_addr = vmm_virt_to_phys cr3 (ucast entry OR 0xFFFFFFFF00000000) v in if phys_addr = 0 then None else Some (ucast phys_addr))"

definition convert_root :: "u64 \<Rightarrow> vm \<Rightarrow> ACPI_RSDT \<Rightarrow> ACPI_RSDT \<times> bool" where
  "convert_root cr3 v root_table =
     (if has_sig ''XSDT'' root_table then
        let (es, ok) = convert_entries (xsdt_translate cr3 v) [0..<unat (XSDT_ENTRY_COUNT root_table)] (rs_entry64 root_table)
        in (root_table\<lparr>rs_entry64 := es\<rparr>, ok)
      else if has_sig ''RSDT'' root_table then
        let (es, ok) = convert_entries (rsdt_translate cr3 v) [0..<unat (RSDT_ENTRY_COUNT root_table)] (rs_entry32 root_table)
        in (root_table\<lparr>rs_entry32 := es\<rparr>, ok)
      else (root_table, False))"

partial_function (option) unmap_tables :: "ptr \<Rightarrow> u64 \<Rightarrow> u64 \<Rightarrow> u64 \<Rightarrow> kmem \<Rightarrow> kmem option" where
  "unmap_tables rgn cr3 acpi_virt_end virt_addr s =
     (if virt_addr < acpi_virt_end
      then case (if vmm_virt_to_phys_page cr3 virt_addr (km_vm s) \<noteq> 0
                 then map_option fst (call_mapper rgn (vmm_unmap_page cr3 virt_addr) s) else Some s) of
             None \<Rightarrow> None
           | Some s \<Rightarrow> unmap_tables rgn cr3 acpi_virt_end (virt_addr + VM_PAGE_SIZE) s
      else Some s)"

text \<open>The bytes are those copied to the caller.\<close>

definition handle_map_firmware_tables :: "ptr \<Rightarrow> u64 \<Rightarrow> u64 \<Rightarrow> firmware \<Rightarrow> kmem \<Rightarrow> (firmware \<times> kmem \<times> u8 list \<times> SyscallResult) option" where
  "handle_map_firmware_tables rgn cr3 user_rsdp fw s =
     (if fw_handed_over fw then Some (fw, s, [], RESULT_FAILURE)
      else if \<not> IS_USER_ADDRESS user_rsdp then Some (fw, s, [], RESULT_BADARGS)
      else case (fw_rsdp fw, fw_root fw) of
             (Some kernel_rsdp, Some root_table) \<Rightarrow>
               let (root_table, ok) = convert_root cr3 (km_vm s) root_table; fw = fw\<lparr>fw_root := Some root_table\<rparr>
               in if \<not> ok then Some (fw, s, [], RESULT_FAILURE)
                  else
                    let rsdp_size = (if rp_revision kernel_rsdp = 0 then ACPI_R0_RSDP_SIZE else unat (rp_length kernel_rsdp))
                    in map_option (\<lambda>s. (fw\<lparr>fw_handed_over := True\<rparr>, s, map (rp_bytes kernel_rsdp) [0..<rsdp_size], RESULT_OK))
                         (unmap_tables rgn cr3 ACPI_TABLES_VADDR_LIMIT ACPI_TABLES_VADDR_BASE s)
           | _ \<Rightarrow> Some (fw, s, [], RESULT_FAILURE))"

section \<open>Starting a task\<close>

text \<open>What a new task needs: blocks of its own, a class, and room in the queues.\<close>

definition can_start :: "kproc \<Rightarrow> queues \<Rightarrow> task_blocks \<Rightarrow> TaskClass \<Rightarrow> bool" where
  "can_start s qs bl cl \<longleftrightarrow> queues_ok (kp_sched s) qs \<and> has_room (kp_sched s) qs 1 \<and> ss_cpus (kp_sched s) \<noteq> [] \<and> cl \<noteq> TASK_CLASS_INVALID
     \<and> tb_task bl \<noteq> NULL \<and> tb_stack bl \<noteq> NULL \<and> tb_node bl \<noteq> NULL \<and> tb_task bl \<notin> queued (kp_sched s) qs"

text \<open>A started task: it is queued on the CPU that is best for it, in the list of its process, and enters its function with its stack on the first switch to it.\<close>

definition started :: "u64 \<Rightarrow> ptr \<Rightarrow> ptr list \<Rightarrow> u64 \<Rightarrow> u64 \<Rightarrow> task_blocks \<Rightarrow> TaskClass \<Rightarrow> queues \<Rightarrow> kproc \<Rightarrow> kproc \<Rightarrow> bool" where
  "started ep owner ns sp func bl cl qs s s' \<longleftrightarrow>
     (\<exists>c qs'. best_cpu (ss_cpus (kp_sched s)) c \<and> queues_ok (kp_sched s') qs' \<and> tb_task bl \<in> set (qs' c cl)
        \<and> queued (kp_sched s') qs' = insert (tb_task bl) (queued (kp_sched s) qs))
     \<and> task_nodes s' owner (tb_node bl # ns) \<and> ptk_task (kp_ptasks s' (tb_node bl)) = tb_task bl
     \<and> tc_owner (kp_ctx s' (tb_task bl)) = owner \<and> tc_tid (kp_ctx s' (tb_task bl)) = kp_next_tid s
     \<and> resume_frame (kp_words s') (tc_ssp (kp_ctx s' (tb_task bl))) = (func, sp, ep, tb_stack bl + 0x1000)
     \<and> kp_procs s' = (kp_procs s)(owner := (kp_procs s owner)\<lparr>pr_tasks := tb_node bl\<rparr>) \<and> kp_mem s' = kp_mem s \<and> kp_infos s' = kp_infos s"

lemma task_created:
  assumes "task \<noteq> NULL" "task_create_new owner sp 0 ep func cl task stack node s = (s', t)"
  shows "kp_sched s' = upd_task task (\<lambda>_. \<lparr>t_next = NULL, ts_remain = DEFAULT_TIMESLICE, t_state = TASK_STATE_READY, t_class = cl, t_prio = 0, status_flags = 0\<rparr>) (kp_sched s)"
    "kp_procs s' = (kp_procs s)(owner := (kp_procs s owner)\<lparr>pr_tasks := node\<rparr>)" "kp_mem s' = kp_mem s" "kp_infos s' = kp_infos s"
  using assms by (auto simp: task_create_new_def Let_def slab_take_def case_prod_beta)

lemma start_new_task:
  fixes k :: "kproc \<Rightarrow> 'a step_result"
  assumes can: "can_start s qs bl cl" and ns: "task_nodes s owner ns" "tb_node bl \<notin> set ns"
  shows "\<exists>s1 s2. task_create_user ep owner sp 0 func cl (tb_task bl) (tb_stack bl) (tb_node bl) s = (s1, tb_task bl)
    \<and> start_task (tb_task bl) s1 k = k s2 \<and> started ep owner ns sp func bl cl qs s s2"
proof -
  let ?t = "tb_task bl"
  have c: "queues_ok (kp_sched s) qs" "has_room (kp_sched s) qs (Suc 0)" "ss_cpus (kp_sched s) \<noteq> []" "cl \<noteq> TASK_CLASS_INVALID" "?t \<noteq> NULL" "tb_stack bl \<noteq> NULL" "tb_node bl \<noteq> NULL"
    "?t \<notin> queued (kp_sched s) qs" using can by (simp_all add: can_start_def)
  obtain s1 t where e: "task_create_new owner sp 0 ep func cl ?t (tb_stack bl) (tb_node bl) s = (s1, t)" by fastforce
  have ok: "t = ?t" "task_nodes s1 owner (tb_node bl # ns)" "ptk_task (kp_ptasks s1 (tb_node bl)) = ?t" "tc_owner (kp_ctx s1 ?t) = owner" "tc_tid (kp_ctx s1 ?t) = kp_next_tid s"
    "resume_frame (kp_words s1) (tc_ssp (kp_ctx s1 ?t)) = (func, sp, ep, tb_stack bl + 0x1000)"
    using task_create_new_ok [OF c(5) _ c(7) ns(2,1) e] c(6) by simp_all
  note tc = task_created [OF c(5) e]
  have cp: "ss_cpus (kp_sched s1) = ss_cpus (kp_sched s)" "queued (kp_sched s1) qs = queued (kp_sched s) qs" by (simp_all add: tc(1))
  have q1: "queues_ok (kp_sched s1) qs" unfolding tc(1) by (rule upd_task_queues [OF c(1,8)])
  have w: "wakeable (kp_sched s1) qs ?t" using c(4,5,8) cp by (simp add: wakeable_def) (simp add: tc(1) upd_task_def)
  have rm: "has_room (kp_sched s1) qs (Suc 0)" using c(2) cp by (simp add: has_room_def)
  obtain d where d: "d < length (ss_cpus (kp_sched s1))" "sched_find_target_cpu (kp_sched s1) = Some d" "best_cpu (ss_cpus (kp_sched s)) d"
    using target_cpu_best [of "kp_sched s1"] c(3) cp by (auto simp: best_cpu_def)
  let ?qs = "woken (ss_heap (kp_sched s1)) qs d ?t"
  obtain sc where sc: "sched_unblock_on ?t d (kp_sched s1) = Some sc" "queues_ok sc ?qs" "queued sc ?qs = insert ?t (queued (kp_sched s1) qs)"
    using unblock_ok [OF q1 d(1) w rm] by blast
  have cl: "t_class (ss_heap (kp_sched s1) ?t) = cl" by (simp add: tc(1) upd_task_def)
  have m: "?t \<in> set (?qs d cl)" unfolding woken_def cl by simp
  let ?s2 = "s1\<lparr>kp_sched := sc\<rparr>"
  have "start_task ?t s1 k = k ?s2" using d(2) sc(1) c(5) by (simp add: start_task_def)
  moreover have "\<exists>c qs'. best_cpu (ss_cpus (kp_sched s)) c \<and> queues_ok (kp_sched ?s2) qs' \<and> ?t \<in> set (qs' c cl) \<and> queued (kp_sched ?s2) qs' = insert ?t (queued (kp_sched s) qs)"
    using sc(2,3) m d(3) cp(2) by (intro exI [of _ d] exI [of _ ?qs]) simp
  moreover have "task_nodes ?s2 owner (tb_node bl # ns)" using ok(2) by (simp add: task_nodes_def)
  ultimately show ?thesis using ok e tc(2-4) by (intro exI [of _ s1] exI [of _ ?s2]) (simp add: task_create_user_def started_def)
qed

section \<open>Handing the firmware tables over\<close>

lemma unmap_tables_ok:
  assumes "km_ok cr3 rgn s" "\<forall>v \<in> page_set p n. plain (root_of cr3) v (km_vm s)" "unat e = unat p + 4096 * n"
  shows "\<exists>s'. unmap_tables rgn cr3 e p s = Some s' \<and> km_step cr3 rgn (page_set p n) {} s s' \<and> (\<forall>v \<in> page_set p n. vmm_virt_to_phys_page cr3 v (km_vm s') = 0)"
  using assms
proof (induction n arbitrary: p s)
  case 0
  then have "\<not> p < e" by (simp add: word_less_nat_alt)
  then show ?case using 0 step_none by (simp add: unmap_tables.simps [of _ _ _ p])
next
  case (Suc n)
  let ?q = "p + VM_PAGE_SIZE"
  have lt: "p < e" using Suc.prems(3) by (simp add: word_less_nat_alt)
  have q: "unat e = unat ?q + 4096 * n" using Suc.prems(3) unat_next_page [of p] unsigned_less [where ?'a = nat, of e] by simp
  have plp: "plain (root_of cr3) p (km_vm s)" using Suc.prems(2) by simp
  obtain s1 where s1: "(if vmm_virt_to_phys_page cr3 p (km_vm s) \<noteq> 0 then map_option fst (call_mapper rgn (vmm_unmap_page cr3 p) s) else Some s) = Some s1"
    "km_step cr3 rgn {p} {} s s1" "vmm_virt_to_phys_page cr3 p (km_vm s1) = 0"
  proof (cases "vmm_virt_to_phys_page cr3 p (km_vm s) = 0")
    case True
    then show thesis using that [of s] km_step_weaken [OF step_none [OF Suc.prems(1)]] by simp
  next
    case False
    obtain s1 r where "call_mapper rgn (vmm_unmap_page cr3 p) s = Some (s1, r)" "km_step cr3 rgn {p} {} s s1" "pte_of cr3 p s1 = 0"
      by (rule call_unmap [OF Suc.prems(1) plp])
    then show thesis using that [of s1] False by (simp add: vmm_virt_to_phys_page_def vmm_table_entry_to_phys_def)
  qed
  note k = km_stepD [OF s1(2)]
  let ?V = "page_set ?q n"
  have "\<forall>v \<in> ?V. plain (root_of cr3) v (km_vm s1)" using Suc.prems(2) k(3) by simp
  from Suc.IH [OF k(1) this q] obtain s' where s': "unmap_tables rgn cr3 e ?q s1 = Some s'" "km_step cr3 rgn ?V {} s1 s'"
    "\<forall>v \<in> ?V. vmm_virt_to_phys_page cr3 v (km_vm s') = 0" by blast
  have "vmm_virt_to_phys_page cr3 p (km_vm s') = 0"
  proof (cases "in_pages p ?V")
    case True
    then show ?thesis using s'(3) pte_same_page unfolding in_pages_def vmm_virt_to_phys_page_def by metis
  qed (use step_kept [OF s'(2) k(3) [OF plp]] s1(3) in \<open>simp add: vmm_virt_to_phys_page_def\<close>)
  then show ?case using s1(1) s' km_step_trans [OF s1(2) s'(2)] lt by (simp add: unmap_tables.simps [of _ _ _ p])
qed

text \<open>The conversion of entries that all translate: an entry that is not empty is translated, the others stay.\<close>

lemma convert_entries_ok:
  assumes "distinct js" "\<forall>i \<in> set js. entry i \<noteq> 0 \<longrightarrow> translate (entry i) = Some (f (entry i))"
  shows "convert_entries translate js entry = (\<lambda>i. if i \<in> set js \<and> entry i \<noteq> 0 then f (entry i) else entry i, True)"
  using assms
proof (induction js arbitrary: entry)
  case (Cons i js)
  let ?e = "if entry i \<noteq> 0 then entry(i := f (entry i)) else entry"
  have "\<forall>k \<in> set js. ?e k = entry k" using Cons.prems(1) by auto
  then have "convert_entries translate js ?e = (\<lambda>k. if k \<in> set js \<and> ?e k \<noteq> 0 then f (?e k) else ?e k, True)"
    using Cons.prems by (intro Cons.IH) simp_all
  moreover have "convert_entries translate (i # js) entry = convert_entries translate js ?e" using Cons.prems(2) by simp
  ultimately show ?case using Cons.prems(1) by (auto intro!: ext)
qed simp

lemma class_of_nth: "n < 4 \<Longrightarrow> class_of n = [TASK_CLASS_IDLE, TASK_CLASS_NORMAL, TASK_CLASS_HIGH, TASK_CLASS_REALTIME] ! unat n"
proof -
  assume "n < 4"
  then have "unat n < 4" by (simp add: word_less_nat_alt)
  then consider "unat n = 0" | "unat n = 1" | "unat n = 2" | "unat n = 3" by linarith
  then show ?thesis by cases (simp_all add: class_of_def word_unat_eq_iff)
qed

section \<open>Properties\<close>

text \<open>C14: creating a thread with one of the four classes puts a new thread of the calling process, with that class, on the first CPU that has nothing but its idle task queued,
  or else on the first CPU with the fewest queued tasks, and returns its number; the first switch to it enters the function with the given stack.\<close>

theorem create_thread_correct:
  assumes cl: "ucast arg2 < (4 :: u8)" "cl = [TASK_CLASS_IDLE, TASK_CLASS_NORMAL, TASK_CLASS_HIGH, TASK_CLASS_REALTIME] ! unat (ucast arg2 :: u8)"
    and can: "can_start s qs bl cl" and owner: "owner = tc_owner (kp_ctx s (cs_current (ss_cpus (kp_sched s) ! cpu)))" "task_nodes s owner ns" "tb_node bl \<notin> set ns"
  shows "\<exists>s'. handle_create_thread ep cpu bl func user_stack arg2 s = Done (s', RESULT_OK_VAL (kp_next_tid s))
    \<and> started ep owner ns user_stack func bl cl qs s s'"
proof -
  have c: "class_of (ucast arg2) = cl" using class_of_nth [OF cl(1)] cl(2) by simp
  let ?k = "\<lambda>s. Done (s, RESULT_OK_VAL (tc_tid (kp_ctx s (tb_task bl))))"
  obtain s1 s2 where s: "task_create_user ep owner user_stack 0 func cl (tb_task bl) (tb_stack bl) (tb_node bl) s = (s1, tb_task bl)"
    "start_task (tb_task bl) s1 ?k = ?k s2" "started ep owner ns user_stack func bl cl qs s s2"
    using start_new_task [OF can owner(2,3), of ep user_stack func ?k] by blast
  moreover have "tc_tid (kp_ctx s2 (tb_task bl)) = kp_next_tid s" using s(3) by (simp add: started_def)
  ultimately show ?thesis using cl(1) owner(1) by (simp add: handle_create_thread_def Let_def c)
qed

theorem create_thread_correct_witness:
  "\<exists>s'. handle_create_thread 0x100 0 \<lparr>tb_task = 0x3000, tb_stack = 0x4000, tb_node = 0x7140\<rparr> 0x200 0x8000 1 demo_kproc = Done (s', RESULT_OK_VAL 3)
    \<and> task_nodes s' 0x5000 [0x7140, 0x7100]"
proof -
  have n: "task_nodes demo_kproc 0x5000 [0x7100]" using demo_kproc_ok by (simp add: process_ok_def)
  have q: "queues_ok demo_sched demo_qs" "kp_sched demo_kproc = demo_sched" "length (ss_cpus demo_sched) = 1" "queued demo_sched demo_qs = {0x2000}" "length (cpu_tasks demo_qs 0) = 1"
    using demo_sched_ok by (auto simp: sched_ok_def demo_kproc_def demo_sched_def queued_def cpu_tasks_def demo_qs_def)
  have c: "can_start demo_kproc demo_qs \<lparr>tb_task = 0x3000, tb_stack = 0x4000, tb_node = 0x7140\<rparr> TASK_CLASS_NORMAL"
    using q by (auto simp: can_start_def has_room_def)
  have o: "0x5000 = tc_owner (kp_ctx demo_kproc (cs_current (ss_cpus (kp_sched demo_kproc) ! 0)))" by (simp add: demo_kproc_def)
  obtain s' where s': "handle_create_thread 0x100 0 \<lparr>tb_task = 0x3000, tb_stack = 0x4000, tb_node = 0x7140\<rparr> 0x200 0x8000 1 demo_kproc = Done (s', RESULT_OK_VAL (kp_next_tid demo_kproc))"
    "started 0x100 0x5000 [0x7100] 0x8000 0x200 \<lparr>tb_task = 0x3000, tb_stack = 0x4000, tb_node = 0x7140\<rparr> TASK_CLASS_NORMAL demo_qs demo_kproc s'"
    using create_thread_correct [OF _ _ c o n, of 1 "0x100" "0x200" "0x8000"] by auto
  moreover have "kp_next_tid demo_kproc = 3" by (simp add: demo_kproc_def)
  ultimately show ?thesis by (auto simp: started_def)
qed

text \<open>The words of the initial stack as the new process sees them.\<close>

lemma initial_values_seen:
  assumes b: "unat base mod 4096 = 0" "unat base + 4096 * n \<le> 140737488355328" "length vals \<le> 512" "unat size_bytes = 4096 * n" and fs: "length fs = n"
    and v: "\<forall>j < length vals. frame (hd fs) (512 - length vals + j) = vals ! j" and j: "j < length vals" "0 < n"
    and va: "va = base + size_bytes - of_nat (length vals) * 8 + 8 * of_nat j"
  shows "new_page cr3 base n fs regions s va = vmm_phys_and_flags_to_table_entry (hd fs) 7 \<and> frame (hd fs) (unat va mod 4096 div 8) = vals ! j
    \<and> unat va < 140737488355328"
proof -
  obtain m where m: "n = Suc m" using j(2) by (cases n) auto
  have top: "unat (base + size_bytes) = unat base + 4096 * n" using b(2,4) unat_add_lem [of base size_bytes] by simp
  have l8: "unat (of_nat (length vals) * 8 :: u64) = 8 * length vals" using b(3) unat_of_nat [of "length vals * 8", where ?'a = 64] by (simp add: mult.commute)
  have j8: "unat (8 * of_nat j :: u64) = 8 * j" using b(3) j(1) unat_of_nat [of "8 * j", where ?'a = 64] by simp
  have sub: "unat (base + size_bytes - of_nat (length vals) * 8) = unat base + 4096 * n - 8 * length vals"
    using top l8 b(3) m by (subst unat_sub) (simp_all add: word_le_nat_alt)
  have u: "unat va = unat base + 4096 * m + 8 * (512 - length vals + j)"
  proof -
    have "unat (base + size_bytes - of_nat (length vals) * 8) + unat (8 * of_nat j :: u64) < 18446744073709551616" using sub j8 b(2,3) j(1) m by simp
    then have "unat va = unat (base + size_bytes - of_nat (length vals) * 8) + 8 * j" unfolding va j8 [symmetric] by (intro iffD1 [OF unat_add_lem]) simp
    then show ?thesis using sub b(3) m by simp
  qed
  have i: "512 - length vals + j < 512" using j(1) b(3) by simp
  obtain q where q: "unat base = 4096 * q" using b(1) by (auto simp: mod_eq_0_iff_dvd)
  define w where "w = 512 - length vals + j"
  have uw: "unat va = 8 * w + (q + m) * 4096" "w < 512" using u i q by (simp_all add: w_def)
  have dm: "unat va div 4096 = q + m" "unat va mod 4096 = 8 * w" unfolding uw(1) div_mult_self1 [OF zero_neq_numeral [symmetric]] mod_mult_self1 using uw(2) by simp_all
  have "fs ! 0 = hd fs" using fs m by (cases fs) simp_all
  then have "new_page cr3 base n fs regions s va = vmm_phys_and_flags_to_table_entry (hd fs) 7"
    using u i m dm(1) q by (simp add: new_page_def)
  moreover have "frame (hd fs) (unat va mod 4096 div 8) = vals ! j" unfolding dm(2) using v j(1) by (simp add: w_def)
  moreover have "unat va < 140737488355328" using u b(2) i m by simp
  ultimately show ?thesis by blast
qed

lemma create_process_ok:
  assumes par: "p = rq_params rq" "process_params_ok arg0 p" "copy_regions (pp_regions p) (rq_regions rq) [0..<unat (pp_region_count p)] = Some regions"
      "vals = map (rq_values rq) [0..<unat (pp_stack_value_count p)]"
    and cur: "km_ok (ce_cr3 env) (ce_rgn env) (kn_mem s)" "user_plain (ce_cr3 env) (kn_mem s)"
      "plain (root_of (ce_cr3 env)) (vmm_per_cpu_temp_page_addr (ce_cpu_id env)) (km_vm (kn_mem s))" "0 \<notin> km_free (ce_rgn env) (kn_mem s)"
    and req: "request_ok (ce_rgn env) (pp_stack_base p) n regions vals (kn_mem s)" "pp_stack_base p AND NOT 0xfff = pp_stack_base p" "unat (pp_stack_size p) = 4096 * n"
    and blk: "{ce_lock env, ce_meminfo env, ce_process env} \<inter> (kp_slab (kn_proc s) \<union> {NULL}) = {}" "pr_tasks (kp_procs (kn_proc s) (ce_process env)) = NULL"
      "can_start (kn_proc s) qs (ce_task env) (class_of (pp_task_class p))"
    and sp: "sp = pp_stack_base p + pp_stack_size p - of_nat (length vals) * 8"
  shows "\<exists>s' new fs k. handle_create_process env cpu arg0 rq s = Done (s', RESULT_OK_VAL (kp_next_pid (kn_proc s)))
    \<and> pr_pid (kp_procs (kn_proc s') (ce_process env)) = kp_next_pid (kn_proc s) \<and> pr_pml4 (kp_procs (kn_proc s') (ce_process env)) = new
    \<and> started (ce_entrypoint env) (ce_process env) [] sp (pp_entry_point p) (ce_task env) (class_of (pp_task_class p)) qs k (kn_proc s')
    \<and> kp_sched k = kp_sched (kn_proc s)
    \<and> length fs = n \<and> distinct fs \<and> (\<forall>f \<in> set fs. pfn f \<in> km_free (ce_rgn env) (kn_mem s))
    \<and> (\<forall>va. unat va < 140737488355328 \<longrightarrow> pte_of new va (kn_mem s') = new_page (ce_cr3 env) (pp_stack_base p) n fs regions (kn_mem s) va
         \<and> pte_of (ce_cr3 env) va (kn_mem s') = pte_of (ce_cr3 env) va (kn_mem s))
    \<and> (\<forall>j < length vals. pte_of new (sp + 8 * of_nat j) (kn_mem s') = vmm_phys_and_flags_to_table_entry (hd fs) 7
         \<and> frame_data (kn_vm s') (hd fs) (unat (sp + 8 * of_nat j) mod 4096 div 8) = vals ! j)
    \<and> (\<forall>f. data_frame (ce_cr3 env) (ce_rgn env) (kn_mem s) f \<longrightarrow> frame_data (kn_vm s') f = frame_data (kn_vm s) f)"
proof -
  let ?P = "ce_process env" and ?cl = "class_of (pp_task_class p)" and ?bl = "ce_task env" and ?k0 = "kn_proc s" and ?c = "ce_cr3 env"
  obtain m new fs where m: "address_space_create (ce_rgn env) ?c (ce_cpu_id env) (ce_refs env) (ce_uninit env) (pp_stack_base p) (pp_stack_size p) regions vals (kn_mem s) = Done (m, new)"
    "pfn new \<in> km_free (ce_rgn env) (kn_mem s)" "length fs = n"
    and fresh: "distinct fs" "\<forall>f \<in> set fs. pfn f \<in> km_free (ce_rgn env) (kn_mem s)" and m':
    "\<And>va. unat va < 140737488355328 \<Longrightarrow> pte_of new va m = new_page ?c (pp_stack_base p) n fs regions (kn_mem s) va \<and> pte_of ?c va m = pte_of ?c va (kn_mem s)"
    "\<forall>j < length vals. frame_data (km_vm m) (hd fs) (512 - length vals + j) = vals ! j"
    "\<forall>f. data_frame ?c (ce_rgn env) (kn_mem s) f \<longrightarrow> frame_data (km_vm m) f = frame_data (km_vm (kn_mem s)) f"
    using address_space_create_ok [OF cur(1-3) req, of "ce_refs env" "ce_uninit env"] by blast
  have nz: "new \<noteq> 0" using m(2) cur(4) by (auto simp: pfn_def)
  let ?s1 = "kn_set_mem m s"
  obtain k1 P where k1: "process_create new (ce_lock env) (ce_meminfo env) ?P (kn_proc ?s1) = (k1, P)" by fastforce
  have b: "ce_lock env \<noteq> NULL" "ce_meminfo env \<noteq> NULL" "?P \<noteq> NULL" "{ce_lock env, ce_meminfo env, ?P} \<inter> kp_slab (kn_proc ?s1) = {}" using blk(1) by (auto simp: kn_set_mem_def)
  have pc: "P = ?P" "pr_pid (kp_procs k1 ?P) = kp_next_pid ?k0" "pr_pml4 (kp_procs k1 ?P) = new" using process_create_ok [OF b(4) k1] b(1-3) by (auto simp: kn_set_mem_def)
  have k1s: "kp_sched k1 = kp_sched ?k0" "pr_tasks (kp_procs k1 ?P) = NULL"
    using k1 b(1-3) blk(2) process_create_keeps_stale_tasks [OF k1] pc(1) by (auto simp: process_create_def Let_def slab_take_def kn_set_mem_def)
  have can: "can_start k1 qs ?bl ?cl" using blk(3) by (simp add: can_start_def k1s)
  have tn: "task_nodes k1 ?P []" using k1s by (simp add: task_nodes_def)
  let ?go = "\<lambda>k. Done (?s1\<lparr>kn_proc := k\<rparr>, RESULT_OK_VAL (pr_pid (kp_procs k ?P)))"
  obtain k2 k3 where k3: "task_create_user (ce_entrypoint env) ?P sp 0 (pp_entry_point p) ?cl (tb_task ?bl) (tb_stack ?bl) (tb_node ?bl) k1 = (k2, tb_task ?bl)"
    "start_task (tb_task ?bl) k2 ?go = ?go k3" "started (ce_entrypoint env) ?P [] sp (pp_entry_point p) ?bl ?cl qs k1 k3"
    using start_new_task [OF can tn, of "ce_entrypoint env" sp "pp_entry_point p" ?go] by auto
  have lv: "length vals = unat (pp_stack_value_count p)" by (simp add: par(4))
  have spe: "pp_stack_base p + pp_stack_size p - ucast (pp_stack_value_count p) * 8 = sp" by (simp add: sp lv)
  let ?s' = "?s1\<lparr>kn_proc := k3\<rparr>"
  have pid: "pr_pid (kp_procs k3 ?P) = kp_next_pid ?k0" "pr_pml4 (kp_procs k3 ?P) = new" using k3(3) pc by (simp_all add: started_def)
  have bt: "tb_task ?bl \<noteq> NULL" using blk(3) by (simp add: can_start_def)
  have "create_process_in env cpu p new ?s1 = Done (?s', RESULT_OK_VAL (kp_next_pid ?k0))"
    using k1 k3(1,2) pid(1) bt b(3) unfolding pc(1) by (simp add: create_process_in_def spe)
  then have run: "handle_create_process env cpu arg0 rq s = Done (?s', RESULT_OK_VAL (kp_next_pid ?k0))"
    using m(1) nz par by (simp add: handle_create_process_def Let_def)
  have vm: "kn_vm ?s' = km_vm m" "km_vm (kn_mem ?s') = km_vm m" by (simp_all add: kn_mem_def kn_set_mem_def)
  have rq: "unat (pp_stack_base p) mod 4096 = 0" "unat (pp_stack_base p) + 4096 * n \<le> 140737488355328" "length vals \<le> 512" "vals \<noteq> [] \<longrightarrow> 0 < n"
    using req(1) by (simp_all add: request_ok_def)
  have vals: "pte_of new (sp + 8 * of_nat j) m = vmm_phys_and_flags_to_table_entry (hd fs) 7 \<and> frame_data (km_vm m) (hd fs) (unat (sp + 8 * of_nat j) mod 4096 div 8) = vals ! j"
    if j: "j < length vals" for j
  proof -
    have n: "0 < n" using rq(4) j by auto
    note iv = initial_values_seen [where frame = "frame_data (km_vm m)" and regions = regions and s = "kn_mem s" and ?cr3.0 = ?c, OF rq(1-3) req(3) m(3) m'(2) j n, of "sp + 8 * of_nat j", unfolded sp, OF refl, folded sp]
    show ?thesis using iv m'(1) by simp
  qed
  show ?thesis using run pid k3(3) k1s(1) m(3) m'(1,3) fresh vals
    by (intro exI [of _ ?s'] exI [of _ new] exI [of _ fs] exI [of _ k1]) (simp add: vm kn_mem_def kn_set_mem_def)
qed

lemma copy_regions_ok:
  assumes "\<forall>i \<in> set js. regions + 16 * of_nat i \<le> VM_KERNEL_SPACE_START \<and> regions + 16 * of_nat i + 16 \<le> VM_KERNEL_SPACE_START
    \<and> as_start (src i) AND 0xfff = 0 \<and> as_len_bytes (src i) AND 0xfff = 0"
  shows "copy_regions regions src js = Some (map src js)"
  using assms by (induction js) (auto simp: Let_def not_less)

text \<open>C4: creating a process, for a request with whole pages in user space, enough memory and blocks: the caller gets the number of a process whose address space holds
  exactly the pages of the requested regions, shared with the caller and copied on a write, and a stack of fresh frames, and whose only thread has the requested class, is queued on
  the first CPU that has nothing but its idle task queued or else on the first with the fewest queued tasks, and will enter the entry point with a stack pointer at which it finds the
  given values. The caller's own pages and every frame in use are as before.\<close>

theorem create_process_correct:
  assumes par: "p = rq_params rq" "process_params_ok arg0 p" "vals = map (rq_values rq) [0..<unat (pp_stack_value_count p)]"
    and reg: "regions = map (rq_regions rq) [0..<unat (pp_region_count p)]" "\<forall>r \<in> set regions. as_start r AND 0xfff = 0 \<and> as_len_bytes r AND 0xfff = 0"
      "\<forall>i < unat (pp_region_count p). pp_regions p + 16 * of_nat i \<le> 0xffff800000000000 \<and> pp_regions p + 16 * of_nat i + 16 \<le> 0xffff800000000000"
    and cl: "pp_task_class p < 4" "cl = [TASK_CLASS_IDLE, TASK_CLASS_NORMAL, TASK_CLASS_HIGH, TASK_CLASS_REALTIME] ! unat (pp_task_class p)"
    and cur: "km_ok (ce_cr3 env) (ce_rgn env) (kn_mem s)" "user_plain (ce_cr3 env) (kn_mem s)"
      "plain (root_of (ce_cr3 env)) (vmm_per_cpu_temp_page_addr (ce_cpu_id env)) (km_vm (kn_mem s))" "0 \<notin> km_free (ce_rgn env) (kn_mem s)"
    and req: "request_ok (ce_rgn env) (pp_stack_base p) n regions vals (kn_mem s)" "pp_stack_base p AND NOT 0xfff = pp_stack_base p" "unat (pp_stack_size p) = 4096 * n"
    and blk: "{ce_lock env, ce_meminfo env, ce_process env} \<inter> (kp_slab (kn_proc s) \<union> {NULL}) = {}" "pr_tasks (kp_procs (kn_proc s) (ce_process env)) = NULL"
      "can_start (kn_proc s) qs (ce_task env) cl"
    and sp: "sp = pp_stack_base p + pp_stack_size p - of_nat (length vals) * 8"
  shows "\<exists>s' new fs k. handle_create_process env cpu arg0 rq s = Done (s', RESULT_OK_VAL (kp_next_pid (kn_proc s)))
    \<and> pr_pid (kp_procs (kn_proc s') (ce_process env)) = kp_next_pid (kn_proc s) \<and> pr_pml4 (kp_procs (kn_proc s') (ce_process env)) = new
    \<and> started (ce_entrypoint env) (ce_process env) [] sp (pp_entry_point p) (ce_task env) cl qs k (kn_proc s')
    \<and> kp_sched k = kp_sched (kn_proc s)
    \<and> length fs = n \<and> distinct fs \<and> (\<forall>f \<in> set fs. pfn f \<in> km_free (ce_rgn env) (kn_mem s))
    \<and> (\<forall>va. unat va < 140737488355328 \<longrightarrow> pte_of new va (kn_mem s') = new_page (ce_cr3 env) (pp_stack_base p) n fs regions (kn_mem s) va
         \<and> pte_of (ce_cr3 env) va (kn_mem s') = pte_of (ce_cr3 env) va (kn_mem s))
    \<and> (\<forall>j < length vals. pte_of new (sp + 8 * of_nat j) (kn_mem s') = vmm_phys_and_flags_to_table_entry (hd fs) 7
         \<and> frame_data (kn_vm s') (hd fs) (unat (sp + 8 * of_nat j) mod 4096 div 8) = vals ! j)
    \<and> (\<forall>f. data_frame (ce_cr3 env) (ce_rgn env) (kn_mem s) f \<longrightarrow> frame_data (kn_vm s') f = frame_data (kn_vm s) f)"
proof -
  have r: "copy_regions (pp_regions p) (rq_regions rq) [0..<unat (pp_region_count p)] = Some regions"
    unfolding reg(1) by (rule copy_regions_ok) (use reg in \<open>auto simp: VM_KERNEL_SPACE_START_def\<close>)
  have c: "class_of (pp_task_class p) = cl" using class_of_nth [OF cl(1)] cl(2) by simp
  show ?thesis using create_process_ok [OF par(1,2) r par(3) cur req blk(1,2) _ sp, of qs cpu] blk(3) unfolding c by blast
qed

definition demo_kernel :: kernel where
  "demo_kernel = \<lparr>kn_proc = demo_kproc\<lparr>kp_mem := km_mem demo_kmem, kp_procs := (kp_procs demo_kproc)(0x7380 := (kp_procs demo_kproc 0x7380)\<lparr>pr_tasks := NULL\<rparr>)\<rparr>,
     kn_vm = km_vm demo_kmem\<rparr>"

definition demo_request :: process_request where
  "demo_request = \<lparr>rq_params = \<lparr>pp_entry_point = 0x2010, pp_stack_base = 0x10000, pp_stack_size = 0x1000, pp_region_count = 1, pp_task_class = 1,
       pp_regions = 0x3000, pp_stack_value_count = 2, pp_stack_values = 0x3100\<rparr>,
     rq_regions = (\<lambda>_. \<lparr>as_start = 0x2000, as_len_bytes = 0x1000\<rparr>), rq_values = (\<lambda>j. of_nat (7 + j))\<rparr>"

definition demo_create :: create_env where
  "demo_create = \<lparr>ce_rgn = 1, ce_cr3 = 0x9000, ce_cpu_id = 0, ce_refs = (\<lambda>_. (True, \<lambda>_. True, True)), ce_uninit = (\<lambda>_. 0), ce_lock = 0x7300, ce_meminfo = 0x7340,
     ce_process = 0x7380, ce_task = \<lparr>tb_task = 0x3000, tb_stack = 0x4000, tb_node = 0x7140\<rparr>, ce_entrypoint = 0x100, ce_free = (\<lambda>f r s. slab_give r s)\<rparr>"

lemma demo_create_simps [simp]:
  "ce_rgn demo_create = 1" "ce_cr3 demo_create = 0x9000" "ce_cpu_id demo_create = 0" "ce_lock demo_create = 0x7300" "ce_meminfo demo_create = 0x7340"
  "ce_process demo_create = 0x7380" "ce_task demo_create = \<lparr>tb_task = 0x3000, tb_stack = 0x4000, tb_node = 0x7140\<rparr>" "ce_entrypoint demo_create = 0x100"
  by (simp_all add: demo_create_def)

lemma demo_sched_facts:
  "queues_ok demo_sched demo_qs" "kp_sched demo_kproc = demo_sched" "length (ss_cpus demo_sched) = 1" "queued demo_sched demo_qs = {0x2000}" "length (cpu_tasks demo_qs 0) = 1"
  using demo_sched_ok by (auto simp: sched_ok_def demo_kproc_def demo_sched_def queued_def cpu_tasks_def demo_qs_def)

theorem create_process_correct_witness:
  "\<exists>s'. handle_create_process demo_create 0 0x8000 demo_request demo_kernel = Done (s', RESULT_OK_VAL 8)
    \<and> (\<exists>f. frame_data (kn_vm s') f 510 = 7 \<and> frame_data (kn_vm s') f 511 = 8)"
proof -
  let ?p = "rq_params demo_request" and ?r = "[\<lparr>as_start = 0x2000, as_len_bytes = 0x1000\<rparr>] :: AddressSpaceRegion list"
  have mem: "kn_mem demo_kernel = demo_kmem" by (simp add: kn_mem_def demo_kernel_def)
  have par: "process_params_ok 0x8000 ?p"
    by (simp add: process_params_ok_def demo_request_def IS_USER_ADDRESS_def VM_KERNEL_SPACE_START_def MAX_STACK_VALUE_COUNT_def INIT_STACK_ARG_PAGES_COUNT_def
        MIN_PROCESS_STACK_HEADROOM_def MAX_PROCESS_REGIONS_def)
  have reg: "?r = map (rq_regions demo_request) [0..<unat (pp_region_count ?p)]" "\<forall>r \<in> set ?r. as_start r AND 0xfff = 0 \<and> as_len_bytes r AND 0xfff = 0"
    "\<forall>i < unat (pp_region_count ?p). pp_regions ?p + 16 * of_nat i \<le> 0xffff800000000000 \<and> pp_regions ?p + 16 * of_nat i + 16 \<le> 0xffff800000000000"
    and cl: "pp_task_class ?p < 4" "TASK_CLASS_NORMAL = [TASK_CLASS_IDLE, TASK_CLASS_NORMAL, TASK_CLASS_HIGH, TASK_CLASS_REALTIME] ! unat (pp_task_class ?p)"
    by (simp_all add: demo_request_def)
  have vals: "map (rq_values demo_request) [0..<unat (pp_stack_value_count ?p)] = [7, 8]" by (simp add: demo_request_def upt_rec)
  have pl: "user_plain 0x9000 demo_kmem" using demo_kmem_ok(2) by (simp add: user_plain_def)
  have rq: "request_ok 1 (pp_stack_base ?p) 1 ?r [7, 8] demo_kmem" using demo_free by (simp add: request_ok_def region_sound_def region_count_def demo_request_def)
  have arg: "pp_stack_base ?p AND NOT 0xfff = pp_stack_base ?p" "unat (pp_stack_size ?p) = 4096 * 1" by (simp_all add: demo_request_def)
  have k: "kp_sched (kn_proc demo_kernel) = demo_sched" "kp_next_pid (kn_proc demo_kernel) = 8" "kp_slab (kn_proc demo_kernel) = {0x5000, 0x7000, 0x7040, 0x7100, 0x7200}"
    "pr_tasks (kp_procs (kn_proc demo_kernel) 0x7380) = NULL" by (simp_all add: demo_kernel_def demo_kproc_def)
  have can: "can_start (kn_proc demo_kernel) demo_qs (ce_task demo_create) TASK_CLASS_NORMAL"
    using demo_sched_facts k(1) by (auto simp: can_start_def has_room_def)
  have blk: "{ce_lock demo_create, ce_meminfo demo_create, ce_process demo_create} \<inter> (kp_slab (kn_proc demo_kernel) \<union> {NULL}) = {}" "pr_tasks (kp_procs (kn_proc demo_kernel) (ce_process demo_create)) = NULL"
    using k(3,4) by simp_all
  have cur: "km_ok (ce_cr3 demo_create) (ce_rgn demo_create) (kn_mem demo_kernel)" "user_plain (ce_cr3 demo_create) (kn_mem demo_kernel)"
    "plain (root_of (ce_cr3 demo_create)) (vmm_per_cpu_temp_page_addr (ce_cpu_id demo_create)) (km_vm (kn_mem demo_kernel))" "0 \<notin> km_free (ce_rgn demo_create) (kn_mem demo_kernel)"
    "request_ok (ce_rgn demo_create) (pp_stack_base ?p) 1 ?r [7, 8] (kn_mem demo_kernel)"
    unfolding mem demo_create_simps using demo_kmem_ok(1,2) pl rq demo_free by simp_all
  obtain s' fs where r: "handle_create_process demo_create 0 0x8000 demo_request demo_kernel = Done (s', RESULT_OK_VAL 8)"
    and v: "\<forall>j < length [7, 8 :: u64]. frame_data (kn_vm s') (hd fs) (unat (pp_stack_base ?p + pp_stack_size ?p - of_nat (length [7, 8 :: u64]) * 8 + 8 * of_nat j) mod 4096 div 8) = [7, 8] ! j"
    using create_process_correct [OF refl par vals [symmetric] reg cl cur arg blk can refl, of 0] unfolding k(2) by blast
  have "frame_data (kn_vm s') (hd fs) 510 = 7" "frame_data (kn_vm s') (hd fs) 511 = 8" using spec [OF v, of 0] spec [OF v, of 1] by (simp_all add: demo_request_def)
  then show ?thesis using r by blast
qed

text \<open>The size of the stack is compared after 1024 has been taken off it: a stack of less than that wraps round, and a stack of one page may then be asked to hold more values
  than it has room for.\<close>

lemma stack_headroom_wraps:
  "process_params_ok 0x8000 \<lparr>pp_entry_point = 0, pp_stack_base = 0x10000, pp_stack_size = 512, pp_region_count = 0, pp_task_class = 0,
     pp_regions = 0, pp_stack_value_count = 16384, pp_stack_values = 0xFFFF800000000000\<rparr>"
  by (simp add: process_params_ok_def IS_USER_ADDRESS_def VM_KERNEL_SPACE_START_def MAX_STACK_VALUE_COUNT_def INIT_STACK_ARG_PAGES_COUNT_def
      MIN_PROCESS_STACK_HEADROOM_def MAX_PROCESS_REGIONS_def)

text \<open>The start of a region is not checked: a region in the kernel's half passes.\<close>

lemma kernel_region_accepted: "copy_regions 0x3000 (\<lambda>_. \<lparr>as_start = 0xFFFF800000000000, as_len_bytes = 0x1000\<rparr>) [0] \<noteq> None"
  by (simp add: VM_KERNEL_SPACE_START_def Let_def)

text \<open>Without memory for the task, creating a thread follows a null pointer.\<close>

lemma create_thread_no_memory:
  assumes "ucast arg2 < (4 :: u8)" "tb_task bl = NULL"
  shows "handle_create_thread ep cpu bl func user_stack arg2 s = Faults 0"
  using assms by (auto simp: handle_create_thread_def task_create_user_def task_create_new_def start_task_def Let_def split: option.split)

text \<open>A reply of 0 reaches the sender as a failure.\<close>

lemma reply_zero_is_failure: "msg_reply (ip_messages st message) = 0 \<Longrightarrow> handle_send_message_resume message st = RESULT_FAILURE"
  by (simp add: handle_send_message_resume_def ipc_channel_send_resume_def value_or_failure_def Let_def)

text \<open>A task that kills itself does not go on: with another task ready, the scheduler takes it to its exit point.\<close>

theorem kill_current_task_exits:
  assumes "cpu < length (ss_cpus s)" "current = cs_current (ss_cpus s ! cpu)" "current \<noteq> NULL" "status_flags (ss_heap s current) AND TASK_SCHED_FLAG_DYING = 0"
    "candidate_class (ss_cpus s ! cpu) = Some cl"
  shows "\<exists>s'. handle_kill_current_task cpu s = Some (Inr (Exits s')) \<and> status_flags (ss_heap s' current) AND TASK_SCHED_FLAG_DYING \<noteq> 0"
proof -
  let ?f = "status_flags (ss_heap s current) OR TASK_SCHED_FLAG_KILLED"
  have k: "?f AND TASK_SCHED_FLAG_KILLED \<noteq> 0" by (simp add: TASK_SCHED_FLAG_KILLED_def)
  have d: "?f AND TASK_SCHED_FLAG_DYING = 0" using assms(4) by (simp add: TASK_SCHED_FLAG_KILLED_def TASK_SCHED_FLAG_DYING_def bit.conj_disj_distrib2)
  have y: "(?f OR TASK_SCHED_FLAG_DYING) AND TASK_SCHED_FLAG_DYING \<noteq> 0" by (simp add: TASK_SCHED_FLAG_DYING_def)
  show ?thesis using assms(2,3,5) k d y by (simp add: handle_kill_current_task_def sched_schedule_def thread_to_be_killed_def upd_task_def Let_def)
qed

theorem kill_current_task_exits_witness: "\<exists>s'. handle_kill_current_task 0 demo_sched = Some (Inr (Exits s'))"
proof -
  have "0 < length (ss_cpus demo_sched)" "0x1000 = cs_current (ss_cpus demo_sched ! 0)" "(0x1000 :: ptr) \<noteq> NULL"
    "status_flags (ss_heap demo_sched 0x1000) AND TASK_SCHED_FLAG_DYING = 0" "candidate_class (ss_cpus demo_sched ! 0) = Some TASK_CLASS_NORMAL"
    by (simp_all add: demo_sched_def demo_task_def candidate_class_def task_pq_peek_def)
  from kill_current_task_exits [OF this] show ?thesis by blast
qed

text \<open>With no task ready the scheduler comes back, to code that is marked as unreachable.\<close>

lemma kill_current_task_returns:
  assumes "cs_current (ss_cpus s ! cpu) \<noteq> NULL" "candidate_class (ss_cpus s ! cpu) = None"
  shows "\<exists>s'. handle_kill_current_task cpu s = Some (Inr (Continues s'))"
  using assms by (simp add: handle_kill_current_task_def sched_schedule_def upd_task_def Let_def)

text \<open>C15: asking for an interrupt vector gives the calling process a vector that nobody had, with the address and data for the device, unless all of them are taken; every
  other vector stays free, or with its owner, as it was, and the attempt to give a vector back after a failed registration is never made.\<close>

theorem alloc_interrupt_vector_correct:
  assumes ok: "mgr_ok (kp_msi s)" and task: "task = cs_current (ss_cpus (kp_sched s) ! cpu)" "task \<noteq> NULL" and user: "IS_USER_ADDRESS a" "IS_USER_ADDRESS d"
  shows "\<exists>m. mgr_ok m \<and> (if \<forall>i < MSI_VECTOR_COUNT. mm_allocated (kp_msi s) ! i
    then handle_alloc_interrupt_vector r lapic this_cpu now cpu bdf a d s = Some (s, None, RESULT_FAILURE)
    else \<exists>v apic :: u8. handle_alloc_interrupt_vector r lapic this_cpu now cpu bdf a d s =
           Some (s\<lparr>kp_msi := m\<rparr>, Some (0xFEE00000 OR push_bit 12 (ucast apic), ucast v), RESULT_OK_VAL (ucast v))
         \<and> MSI_VALID v \<and> \<not> mm_allocated (kp_msi s) ! MSI_INDEX v \<and> msi_verify_ownership v (pid_of s task) m
         \<and> mm_allocated m = (mm_allocated (kp_msi s))[MSI_INDEX v := True] \<and> dv_owner_pid (mm_devices m ! MSI_INDEX v) = pid_of s task
         \<and> (\<forall>j. j \<noteq> MSI_INDEX v \<longrightarrow> mm_devices m ! j = mm_devices (kp_msi s) ! j))"
proof -
  obtain m v o' where e: "msi_allocate_vector r lapic this_cpu now (ucast bdf) (pid_of s task) (kp_msi s) = (m, v, o')" by (metis prod.collapse)
  note al = msi_allocate_ok [OF ok e]
  show ?thesis
  proof (cases "\<forall>i < MSI_VECTOR_COUNT. mm_allocated (kp_msi s) ! i")
    case True
    then have n: "m = kp_msi s" "v = 0" using al unfolding if_P [OF True] by simp_all
    have "handle_alloc_interrupt_vector r lapic this_cpu now cpu bdf a d s = Some (s, None, RESULT_FAILURE)"
      using e n user unfolding task(1) by (simp add: handle_alloc_interrupt_vector_def Let_def)
    then show ?thesis unfolding if_P [OF True] using ok by blast
  next
    case False
    have v: "mgr_ok m" "MSI_VALID v" "\<not> mm_allocated (kp_msi s) ! MSI_INDEX v" "mm_allocated m = (mm_allocated (kp_msi s))[MSI_INDEX v := True]"
      "dv_owner_pid (mm_devices m ! MSI_INDEX v) = pid_of s task" "\<forall>j. j \<noteq> MSI_INDEX v \<longrightarrow> mm_devices m ! j = mm_devices (kp_msi s) ! j"
      "\<exists>apic :: u8. o' = Some (0xFEE00000 OR push_bit 12 (ucast apic), ucast v)" using al unfolding if_not_P [OF False] by blast+
    have own: "mm_allocated m ! MSI_INDEX v" using v(2,4) mgr_okD(2) [OF ok] index_less [OF v(2)] by simp
    have nz: "v \<noteq> 0" using v(2) by (auto simp: MSI_VALID_def MSI_VECTOR_BASE_def)
    obtain apic :: u8 where ap: "o' = Some (0xFEE00000 OR push_bit 12 (ucast apic), ucast v)" using v(7) by blast
    have "msi_register_handler v task (pid_of (s\<lparr>kp_msi := m\<rparr>)) m" using v(2,5) own task(2) by (simp add: msi_register_handler_def pid_of_def)
    then have "handle_alloc_interrupt_vector r lapic this_cpu now cpu bdf a d s = Some (s\<lparr>kp_msi := m\<rparr>, o', RESULT_OK_VAL (ucast v))"
      using e user nz unfolding task(1) by (simp add: handle_alloc_interrupt_vector_def Let_def)
    then show ?thesis unfolding if_not_P [OF False] using v(1-6) own ap by (intro exI [of _ m]) (auto simp: msi_verify_ownership_def)
  qed
qed

theorem alloc_interrupt_vector_correct_witness:
  "\<exists>s' x v. handle_alloc_interrupt_vector \<lparr>cpu_states = replicate 16 0, cpu_count = 1\<rparr> (\<lambda>_. 0) 0 5 0 0 0x1000 0x1008 demo_kproc = Some (s', Some x, RESULT_OK_VAL v)"
proof -
  have k: "kp_msi demo_kproc = demo_msi" "0x1000 = cs_current (ss_cpus (kp_sched demo_kproc) ! 0)" by (simp_all add: demo_kproc_def demo_sched_def)
  have ok: "mgr_ok (kp_msi demo_kproc)" using k(1) demo_msi_ok by simp
  have n: "(0x1000 :: ptr) \<noteq> NULL" "IS_USER_ADDRESS 0x1000" "IS_USER_ADDRESS 0x1008" by (simp_all add: IS_USER_ADDRESS_def)
  have "\<not> (\<forall>i < MSI_VECTOR_COUNT. mm_allocated (kp_msi demo_kproc) ! i)" unfolding k(1) by (rule demo_msi_free)
  from alloc_interrupt_vector_correct [OF ok k(2) n, unfolded if_not_P [OF this], where bdf = 0] show ?thesis by blast
qed

text \<open>C39: the firmware tables are handed over at most once. Then every entry of the root table that is not empty holds the physical address of its table, the caller
  has the root pointer, the addresses of the tables are no longer mapped in the kernel and no other page changes; a further call is refused without effect.\<close>

theorem map_firmware_tables_correct:
  assumes ok: "km_ok cr3 rgn s" "\<forall>v \<in> page_set ACPI_TABLES_VADDR_BASE 3840. plain (root_of cr3) v (km_vm s)"
    and fw: "\<not> fw_handed_over fw" "IS_USER_ADDRESS a" "fw_rsdp fw = Some rsdp" "fw_root fw = Some root" "has_sig ''XSDT'' root" "c = unat (XSDT_ENTRY_COUNT root)"
    and tr: "\<forall>i < c. rs_entry64 root i \<noteq> 0 \<longrightarrow> vmm_virt_to_phys cr3 (rs_entry64 root i) (km_vm s) \<noteq> 0"
  shows "\<exists>fw' s' root'. handle_map_firmware_tables rgn cr3 a fw s =
      Some (fw', s', map (rp_bytes rsdp) [0..<if rp_revision rsdp = 0 then 20 else unat (rp_length rsdp)], RESULT_OK)
    \<and> fw_root fw' = Some root'
    \<and> (\<forall>i. rs_entry64 root' i = (if i < c \<and> rs_entry64 root i \<noteq> 0 then vmm_virt_to_phys cr3 (rs_entry64 root i) (km_vm s) else rs_entry64 root i))
    \<and> (\<forall>v \<in> page_set ACPI_TABLES_VADDR_BASE 3840. vmm_virt_to_phys_page cr3 v (km_vm s') = 0)
    \<and> (\<forall>v. plain (root_of cr3) v (km_vm s) \<and> \<not> in_pages v (page_set ACPI_TABLES_VADDR_BASE 3840) \<longrightarrow> pte_of cr3 v s' = pte_of cr3 v s)
    \<and> (\<forall>b t. handle_map_firmware_tables rgn cr3 b fw' t = Some (fw', t, [], RESULT_FAILURE))"
proof -
  let ?V = "page_set ACPI_TABLES_VADDR_BASE 3840"
  have "unat ACPI_TABLES_VADDR_LIMIT = unat ACPI_TABLES_VADDR_BASE + 4096 * 3840" by (simp add: ACPI_TABLES_VADDR_LIMIT_def ACPI_TABLES_VADDR_BASE_def)
  from unmap_tables_ok [OF ok this] obtain s' where s': "unmap_tables rgn cr3 ACPI_TABLES_VADDR_LIMIT ACPI_TABLES_VADDR_BASE s = Some s'" "km_step cr3 rgn ?V {} s s'"
    "\<forall>v \<in> ?V. vmm_virt_to_phys_page cr3 v (km_vm s') = 0" by blast
  define es where "es = (\<lambda>i. if i < c \<and> rs_entry64 root i \<noteq> 0 then vmm_virt_to_phys cr3 (rs_entry64 root i) (km_vm s) else rs_entry64 root i)"
  have es: "convert_entries (xsdt_translate cr3 (km_vm s)) [0..<c] (rs_entry64 root) = (es, True)"
    using convert_entries_ok [OF distinct_upt, of 0 c "rs_entry64 root" "xsdt_translate cr3 (km_vm s)" "\<lambda>e. vmm_virt_to_phys cr3 e (km_vm s)"] tr
    by (simp add: xsdt_translate_def Let_def es_def)
  let ?fw = "fw\<lparr>fw_root := Some (root\<lparr>rs_entry64 := es\<rparr>), fw_handed_over := True\<rparr>"
  have "convert_root cr3 (km_vm s) root = (root\<lparr>rs_entry64 := es\<rparr>, True)" using fw(5,6) es by (simp add: convert_root_def)
  then have "handle_map_firmware_tables rgn cr3 a fw s = Some (?fw, s', map (rp_bytes rsdp) [0..<if rp_revision rsdp = 0 then 20 else unat (rp_length rsdp)], RESULT_OK)"
    using fw(1-4) s'(1) by (simp add: handle_map_firmware_tables_def ACPI_R0_RSDP_SIZE_def)
  moreover have "handle_map_firmware_tables rgn cr3 b ?fw t = Some (?fw, t, [], RESULT_FAILURE)" for b t by (simp add: handle_map_firmware_tables_def)
  ultimately show ?thesis using s'(3) step_kept [OF s'(2)] by (intro exI [of _ ?fw] exI [of _ s'] exI [of _ "root\<lparr>rs_entry64 := es\<rparr>"]) (simp add: es_def)
qed

definition demo_firmware :: firmware where
  "demo_firmware = \<lparr>fw_handed_over = False, fw_rsdp = Some \<lparr>rp_revision = 0, rp_length = 0, rp_bytes = (\<lambda>i. of_nat i)\<rparr>,
     fw_root = Some \<lparr>rs_signature = ''XSDT'', rs_length = 52, rs_entry64 = (\<lambda>i. if i = 1 then 0xffffffff81100010 else 0), rs_entry32 = (\<lambda>_. 0)\<rparr>\<rparr>"

theorem map_firmware_tables_correct_witness:
  "\<exists>s fw' s'. vmm_virt_to_phys_page 0x9000 0xffffffff81100010 (km_vm s) = 0xD000
    \<and> handle_map_firmware_tables 1 0x9000 0x4000 demo_firmware s = Some (fw', s', map of_nat [0..<20], RESULT_OK)
    \<and> rs_entry64 (the (fw_root fw')) 1 = 0xD010 \<and> vmm_virt_to_phys_page 0x9000 0xffffffff81100000 (km_vm s') = 0"
proof -
  obtain s b where "call_mapper 1 (vmm_map_page 0x9000 0xffffffff81100010 0xD000 3) demo_kmem = Some (s, b)" and s: "km_step 0x9000 1 {0xffffffff81100010} {} demo_kmem s"
    and e: "b \<Longrightarrow> pte_of 0x9000 0xffffffff81100010 s = vmm_phys_and_flags_to_table_entry 0xD000 (ucast (3 :: u16))" and b: "3 \<le> card (km_free 1 demo_kmem) \<Longrightarrow> b"
    by (rule call_map [OF demo_kmem_ok(1,2), of 3 "0xffffffff81100010" "0xD000"]) (simp_all add: PG_PRESENT_def)
  have p: "vmm_virt_to_phys_page 0x9000 0xffffffff81100010 (km_vm s) = 0xD000"
    using e b demo_free by (simp add: vmm_virt_to_phys_page_def vmm_table_entry_to_phys_def vmm_phys_and_flags_to_table_entry_def)
  then have v: "vmm_virt_to_phys 0x9000 0xffffffff81100010 (km_vm s) = 0xD010" by (simp add: vmm_virt_to_phys_def)
  let ?root = "the (fw_root demo_firmware)" and ?rsdp = "the (fw_rsdp demo_firmware)"
  have fw: "\<not> fw_handed_over demo_firmware" "IS_USER_ADDRESS 0x4000" "fw_rsdp demo_firmware = Some ?rsdp" "fw_root demo_firmware = Some ?root" "has_sig ''XSDT'' ?root"
    "2 = unat (XSDT_ENTRY_COUNT ?root)" by (simp_all add: demo_firmware_def IS_USER_ADDRESS_def has_sig_def XSDT_ENTRY_COUNT_def upt_rec)
  have en: "rs_entry64 ?root i = (if i = 1 then 0xffffffff81100010 else 0)" for i by (simp add: demo_firmware_def)
  have tr: "\<forall>i < 2. rs_entry64 ?root i \<noteq> 0 \<longrightarrow> vmm_virt_to_phys 0x9000 (rs_entry64 ?root i) (km_vm s) \<noteq> 0" unfolding en using v by simp
  have pl: "\<forall>v \<in> page_set ACPI_TABLES_VADDR_BASE 3840. plain (root_of 0x9000) v (km_vm s)" using km_stepD(3) [OF s] demo_kmem_ok(2) by blast
  have rb: "map (rp_bytes ?rsdp) [0..<if rp_revision ?rsdp = 0 then 20 else unat (rp_length ?rsdp)] = map of_nat [0..<20]" by (simp add: demo_firmware_def)
  obtain fw' s' root' where r: "handle_map_firmware_tables 1 0x9000 0x4000 demo_firmware s = Some (fw', s', map of_nat [0..<20], RESULT_OK)" "fw_root fw' = Some root'"
    "\<forall>i. rs_entry64 root' i = (if i < 2 \<and> rs_entry64 ?root i \<noteq> 0 then vmm_virt_to_phys 0x9000 (rs_entry64 ?root i) (km_vm s) else rs_entry64 ?root i)"
    "\<forall>v \<in> page_set ACPI_TABLES_VADDR_BASE 3840. vmm_virt_to_phys_page 0x9000 v (km_vm s') = 0"
    using map_firmware_tables_correct [OF km_stepD(1) [OF s] pl fw tr, unfolded rb] by blast
  have "rs_entry64 root' 1 = 0xD010" using spec [OF r(3), of 1] v unfolding en by simp
  moreover have "vmm_virt_to_phys_page 0x9000 0xffffffff81100000 (km_vm s') = 0"
    by (rule bspec [OF r(4)]) (simp only: page_set_iff, rule exI [of _ 0], simp add: ACPI_TABLES_VADDR_BASE_def)
  ultimately show ?thesis using p r(1,2) by (intro exI [of _ s] exI [of _ fw'] exI [of _ s']) simp
qed

end
