(* ===== verification/User_Memory.thy ===== *)
theory User_Memory
  imports Anos_Prelude
begin

text \<open>
  The memory of a user-space program as bytes: integers of the C types are read and written in little-endian order, strings end at the first zero
  byte. The routines of the C library that the servers use are here too. Addresses are words and wrap.
\<close>

type_synonym mem = "u64 \<Rightarrow> u8"

section \<open>Bytes\<close>

fun bytes_at :: "nat \<Rightarrow> mem \<Rightarrow> u64 \<Rightarrow> u8 list" where
  "bytes_at 0 m p = []"
| "bytes_at (Suc n) m p = m p # bytes_at n m (p + 1)"

fun store_bytes :: "u64 \<Rightarrow> u8 list \<Rightarrow> mem \<Rightarrow> mem" where
  "store_bytes p [] m = m"
| "store_bytes p (b # bs) m = store_bytes (p + 1) bs (m(p := b))"

fun le_nat :: "u8 list \<Rightarrow> nat" where
  "le_nat [] = 0"
| "le_nat (b # bs) = unat b + 256 * le_nat bs"

fun le_bytes :: "nat \<Rightarrow> nat \<Rightarrow> u8 list" where
  "le_bytes 0 n = []"
| "le_bytes (Suc k) n = of_nat n # le_bytes k (n div 256)"

definition load_u16 :: "mem \<Rightarrow> u64 \<Rightarrow> u16" where
  "load_u16 m p = of_nat (le_nat (bytes_at 2 m p))"

definition load_u32 :: "mem \<Rightarrow> u64 \<Rightarrow> u32" where
  "load_u32 m p = of_nat (le_nat (bytes_at 4 m p))"

definition load_u64 :: "mem \<Rightarrow> u64 \<Rightarrow> u64" where
  "load_u64 m p = of_nat (le_nat (bytes_at 8 m p))"

definition store_u64 :: "u64 \<Rightarrow> u64 \<Rightarrow> mem \<Rightarrow> mem" where
  "store_u64 p v m = store_bytes p (le_bytes 8 (unat v)) m"

section \<open>Strings\<close>

fun strncmp :: "mem \<Rightarrow> u64 \<Rightarrow> u64 \<Rightarrow> nat \<Rightarrow> int" where
  "strncmp m a b 0 = 0"
| "strncmp m a b (Suc n) =
     (if m a \<noteq> m b then int (unat (m a)) - int (unat (m b))
      else if m a = 0 then 0 else strncmp m (a + 1) (b + 1) n)"

fun strnlen :: "mem \<Rightarrow> u64 \<Rightarrow> nat \<Rightarrow> nat" where
  "strnlen m p 0 = 0"
| "strnlen m p (Suc n) = (if m p = 0 then 0 else Suc (strnlen m (p + 1) n))"

text \<open>The field that \<open>strncpy\<close> leaves when it copies a string of at most \<open>n\<close> characters to an array of \<open>size\<close> zero bytes.\<close>

definition name_field :: "nat \<Rightarrow> nat \<Rightarrow> u8 list \<Rightarrow> u8 list" where
  "name_field n width s = take n s @ replicate (width - length (take n s)) 0"

section \<open>What memory holds\<close>

definition holds :: "mem \<Rightarrow> u64 \<Rightarrow> u8 list \<Rightarrow> bool" where
  "holds m p bs \<longleftrightarrow> (\<forall>i < length bs. m (p + of_nat i) = bs ! i)"

definition holds_str :: "mem \<Rightarrow> u64 \<Rightarrow> u8 list \<Rightarrow> bool" where
  "holds_str m p s \<longleftrightarrow> holds m p (s @ [0]) \<and> 0 \<notin> set s"

definition region :: "u64 \<Rightarrow> nat \<Rightarrow> u64 set" where
  "region p n = (\<lambda>i. p + of_nat i) ` {..<n}"

lemma holds_simps [simp]:
  "holds m p []" "holds m p (b # bs) \<longleftrightarrow> m p = b \<and> holds m (p + 1) bs"
  by (auto simp: holds_def less_Suc_eq_0_disj algebra_simps)

lemma holds_append [simp]: "holds m p (xs @ ys) \<longleftrightarrow> holds m p xs \<and> holds m (p + of_nat (length xs)) ys"
  by (induction xs arbitrary: p) (auto simp: algebra_simps)

lemma length_bytes_at [simp]: "length (bytes_at n m p) = n"
  by (induction n arbitrary: p) auto

lemma bytes_at_holds: "bytes_at n m p = bs \<longleftrightarrow> length bs = n \<and> holds m p bs"
proof (induction n arbitrary: p bs)
  case (Suc n)
  then show ?case by (cases bs) auto
qed auto

lemma holds_bytes_at [simp]: "holds m p (bytes_at n m p)"
  using bytes_at_holds by blast

lemma length_le_bytes [simp]: "length (le_bytes k n) = k"
  by (induction k arbitrary: n) auto

lemma le_nat_bytes [simp]: "le_nat (le_bytes k n) = n mod 256 ^ k"
proof (induction k arbitrary: n)
  case (Suc k)
  have "unat (of_nat n :: u8) = n mod 256" by (simp add: unat_of_nat)
  then show ?case using Suc by (simp add: mod_mult2_eq)
qed simp

lemma load_holds:
  "holds m p (le_bytes 4 (unat (v :: u32))) \<Longrightarrow> load_u32 m p = v"
  "holds m p (le_bytes 8 (unat (w :: u64))) \<Longrightarrow> load_u64 m p = w"
proof -
  have "unat v mod 256 ^ 4 = unat v" using unsigned_less [where ?'a = nat, of v] by simp
  then show "holds m p (le_bytes 4 (unat v)) \<Longrightarrow> load_u32 m p = v"
    unfolding load_u32_def using bytes_at_holds [of 4 m p "le_bytes 4 (unat v)"] by simp
  have "unat w mod 256 ^ 8 = unat w" using u64_less [of w] by simp
  then show "holds m p (le_bytes 8 (unat w)) \<Longrightarrow> load_u64 m p = w"
    unfolding load_u64_def using bytes_at_holds [of 8 m p "le_bytes 8 (unat w)"] by simp
qed

lemma holds_take_drop:
  assumes "holds m p bs" "i + n \<le> length bs"
  shows "holds m (p + of_nat i) (take n (drop i bs))"
  using assms by (auto simp: holds_def algebra_simps simp flip: of_nat_add)

lemma holds_cong: "(\<And>a. a \<in> region p (length bs) \<Longrightarrow> m' a = m a) \<Longrightarrow> holds m' p bs \<longleftrightarrow> holds m p bs"
  by (auto simp: holds_def region_def)

lemma region_0 [simp]: "region p 0 = {}"
  by (simp add: region_def)

lemma region_Suc: "region p (Suc n) = insert p (region (p + 1) n)"
proof -
  have "{..<Suc n} = insert 0 (Suc ` {..<n})" by (auto simp: less_Suc_eq_0_disj)
  then show ?thesis by (simp add: region_def image_image algebra_simps)
qed

lemma region_sub:
  assumes "k + l \<le> n"
  shows "region (p + of_nat k) l \<subseteq> region p n"
proof
  fix x assume "x \<in> region (p + of_nat k) l"
  then obtain i where "i < l" "x = p + of_nat (k + i)" by (auto simp: region_def algebra_simps)
  then show "x \<in> region p n" using assms by (auto simp: region_def intro!: image_eqI [of _ _ "k + i"])
qed

lemma in_region: "i < n \<Longrightarrow> p + of_nat i \<in> region p n"
  by (auto simp: region_def)

lemma region_inj: "i < n \<Longrightarrow> j < n \<Longrightarrow> n \<le> 18446744073709551616 \<Longrightarrow> (p :: u64) + of_nat i = p + of_nat j \<longleftrightarrow> i = j"
  by (simp add: word_of_nat_eq_iff take_bit_nat_eq_self)

lemma region_unat:
  assumes "unat (p :: u64) + n \<le> 18446744073709551616"
  shows "region p n = {a. unat p \<le> unat a \<and> unat a < unat p + n}"
proof -
  have u: "unat (p + of_nat i) = unat p + i" if "i < n" for i using that assms unat_add_lem [of p "of_nat i"] by (simp add: unat_of_nat)
  have "a \<in> region p n" if "unat p \<le> unat a" "unat a < unat p + n" for a
    using that u [of "unat a - unat p"] by (auto simp: region_def u64_eq_iff intro!: image_eqI [of _ _ "unat a - unat p"])
  then show ?thesis using u by (auto simp: region_def)
qed

section \<open>Stores\<close>

lemma store_bytes_other: "a \<notin> region p (length bs) \<Longrightarrow> store_bytes p bs m a = m a"
  by (induction p bs m rule: store_bytes.induct) (auto simp: region_Suc)

lemma region_apart:
  assumes "n + k \<le> 18446744073709551616"
  shows "region p n \<inter> region (p + of_nat n) k = {}"
proof -
  have "p + of_nat i \<noteq> p + of_nat (n + j)" if "i < n" "j < k" for i j
    using that assms region_inj [of i "n + k" "n + j" p] by simp
  then show ?thesis by (auto simp: region_def algebra_simps)
qed

lemma region_head: "n < 18446744073709551616 \<Longrightarrow> p \<notin> region (p + 1) n"
  using region_apart [of 1 n p] by (simp add: region_Suc)

lemma store_bytes_holds: "length bs \<le> 18446744073709551616 \<Longrightarrow> holds (store_bytes p bs m) p bs"
proof (induction bs arbitrary: p m)
  case (Cons b bs)
  then show ?case using store_bytes_other [of p "p + 1" bs "m(p := b)"] region_head [of "length bs" p] by simp
qed simp

lemma holds_agree: "holds m p bs \<Longrightarrow> \<forall>a \<in> region p (length bs). m' a = m a \<Longrightarrow> holds m' p bs"
  using holds_cong [of p bs m' m] by blast

lemma bytes_at_agree: "\<forall>a \<in> region p n. m' a = m a \<Longrightarrow> bytes_at n m' p = bytes_at n m p"
  using holds_agree [of m p "bytes_at n m p" m'] by (simp add: bytes_at_holds)

lemma load_agree: "\<forall>a \<in> region p 8. m' a = m a \<Longrightarrow> load_u64 m' p = load_u64 m p"
  using bytes_at_agree [of p 8 m' m] by (simp only: load_u64_def)

lemma holds_str_agree: "holds_str m p s \<Longrightarrow> \<forall>a \<in> region p (Suc (length s)). m' a = m a \<Longrightarrow> holds_str m' p s"
  unfolding holds_str_def using holds_agree [of m p "s @ [0]" m'] by simp

lemma store_load [simp]: "load_u64 (store_u64 p v m) p = v"
  unfolding store_u64_def by (rule load_holds) (simp add: store_bytes_holds)

lemma store_u64_other: "a \<notin> region p 8 \<Longrightarrow> store_u64 p v m a = m a"
  by (simp add: store_u64_def store_bytes_other)

lemma holds_str_Cons [simp]: "holds_str m p [] \<longleftrightarrow> m p = 0" "holds_str m p (c # s) \<longleftrightarrow> m p = c \<and> c \<noteq> 0 \<and> holds_str m (p + 1) s"
  by (auto simp: holds_str_def)

lemma holds_str_append: "holds_str m p (s @ t) \<longleftrightarrow> holds m p s \<and> 0 \<notin> set s \<and> holds_str m (p + of_nat (length s)) t"
  by (auto simp: holds_str_def algebra_simps)

lemma strnlen_str: "holds_str m p s \<Longrightarrow> length s \<le> n \<Longrightarrow> strnlen m p n = length s"
proof (induction s arbitrary: p n)
  case Nil
  then show ?case by (cases n) auto
next
  case (Cons c s)
  then show ?case by (cases n) auto
qed

lemma bytes_at_str: "holds_str m p s \<Longrightarrow> bytes_at (length s) m p = s"
  by (simp add: bytes_at_holds holds_str_def)

text \<open>Two memories that agree outside a set of addresses.\<close>

definition agree :: "u64 set \<Rightarrow> mem \<Rightarrow> mem \<Rightarrow> bool" where
  "agree R m m' \<longleftrightarrow> (\<forall>a. a \<notin> R \<longrightarrow> m' a = m a)"

lemma agree_refl [simp]: "agree R m m"
  by (simp add: agree_def)

lemma agree_trans: "agree R m m' \<Longrightarrow> agree R m' m'' \<Longrightarrow> agree R m m''"
  by (simp add: agree_def)

lemma agree_mono: "agree R m m' \<Longrightarrow> R \<subseteq> T \<Longrightarrow> agree T m m'"
  by (auto simp: agree_def)

lemma agree_load: "agree R m m' \<Longrightarrow> region p 8 \<inter> R = {} \<Longrightarrow> load_u64 m' p = load_u64 m p"
  by (rule load_agree) (auto simp: agree_def)

lemma agree_holds: "agree R m m' \<Longrightarrow> region p (length bs) \<inter> R = {} \<Longrightarrow> holds m p bs \<Longrightarrow> holds m' p bs"
  by (erule holds_agree) (auto simp: agree_def)

lemma agree_store: "agree (region p (length bs)) m (store_bytes p bs m)"
  by (auto simp: agree_def intro!: store_bytes_other)

end
