(* ===== verification/Ramfs.thy ===== *)
theory Ramfs
  imports User_Memory
begin

text \<open>
  The RAM file system from the tool that packs it to the server that hands its pages out: \<^verbatim>\<open>tools/mkramfs/main.c\<close>, \<^verbatim>\<open>system/ramfs.c\<close>,
  \<^verbatim>\<open>system/path.c\<close> and the two queries of \<^verbatim>\<open>system/main.c\<close>. The image is a list of bytes while it is packed and a part of the server's memory afterwards.
  The replies of a query are a list, as a query can reply more than once. Offsets in the image are naturals.
\<close>

section \<open>The image\<close>

definition ANOS_RAMFS_MAGIC :: u32 where
  "ANOS_RAMFS_MAGIC = 0x0101CA75"

definition ANOS_RAMFS_VERSION :: u32 where
  "ANOS_RAMFS_VERSION = 10"

record AnosRAMFSHeader =
  fs_magic :: u32
  fs_version :: u32
  fs_size :: u64
  fs_file_count :: u64
  fs_reserved :: u64

record AnosRAMFSFileHeader =
  file_start :: u64
  file_length :: u64
  file_name :: "u8 list"

text \<open>The packed layout of the two structures, 32 bytes each.\<close>

definition header_bytes :: "AnosRAMFSHeader \<Rightarrow> u8 list" where
  "header_bytes h = le_bytes 4 (unat (fs_magic h)) @ le_bytes 4 (unat (fs_version h)) @ le_bytes 8 (unat (fs_size h))
     @ le_bytes 8 (unat (fs_file_count h)) @ le_bytes 8 (unat (fs_reserved h))"

definition file_header_bytes :: "AnosRAMFSFileHeader \<Rightarrow> u8 list" where
  "file_header_bytes h = le_bytes 8 (unat (file_start h)) @ le_bytes 8 (unat (file_length h)) @ file_name h"

definition zero_file_header :: AnosRAMFSFileHeader where
  "zero_file_header = \<lparr>file_start = 0, file_length = 0, file_name = replicate 16 0\<rparr>"

section \<open>Packing\<close>

definition PAGE_SIZE :: nat where
  "PAGE_SIZE = 4096"

record InputFile =
  if_path :: string
  if_name :: "u8 list"

text \<open>The loop that copies a file through a buffer of 4096 bytes.\<close>

function copy_data :: "u8 list \<Rightarrow> u8 list \<Rightarrow> u8 list" where
  "copy_data remaining out = (if remaining = [] then out else copy_data (drop 4096 remaining) (out @ take 4096 remaining))"
  by pat_completeness auto
termination by (relation "measure (\<lambda>(r, out). length r)") auto

declare copy_data.simps [simp del]

text \<open>A write at a position of the file that exists already.\<close>

definition patch :: "u8 list \<Rightarrow> nat \<Rightarrow> u8 list \<Rightarrow> u8 list" where
  "patch out pos bs = take pos out @ bs @ drop (pos + length bs) out"

text \<open>\<open>read\<close> opens a file; the tool exits when one cannot be opened.\<close>

primrec write_files :: "(string \<Rightarrow> u8 list option) \<Rightarrow> InputFile list \<Rightarrow> nat \<Rightarrow> nat \<Rightarrow> AnosRAMFSFileHeader list \<Rightarrow> u8 list
    \<Rightarrow> (AnosRAMFSFileHeader list \<times> u8 list) option" where
  "write_files read [] i current_offset file_headers out = Some (file_headers, out)"
| "write_files read (f # files) i current_offset file_headers out =
     (case read (if_path f) of
        None \<Rightarrow> None
      | Some content \<Rightarrow>
          let file_size = length content;
              file_headers = file_headers[i := \<lparr>file_start = of_nat (current_offset - (32 + i * 32)), file_length = of_nat file_size,
                                               file_name = name_field 15 16 (if_name f)\<rparr>];
              out = copy_data content out;
              current_offset = current_offset + file_size;
              pad = (PAGE_SIZE - current_offset mod PAGE_SIZE) mod PAGE_SIZE
          in write_files read files (i + 1) (current_offset + pad) file_headers (out @ replicate pad 0))"

definition write_filesystem :: "(string \<Rightarrow> u8 list option) \<Rightarrow> InputFile list \<Rightarrow> u8 list option" where
  "write_filesystem read files =
     (let file_count = length files;
          header = \<lparr>fs_magic = ANOS_RAMFS_MAGIC, fs_version = ANOS_RAMFS_VERSION, fs_size = 0, fs_file_count = of_nat file_count, fs_reserved = 0\<rparr>;
          file_headers = replicate file_count zero_file_header;
          headers_raw = 32 + file_count * 32;
          headers_padded = (headers_raw + PAGE_SIZE - 1) div PAGE_SIZE * PAGE_SIZE;
          out = header_bytes header @ concat (map file_header_bytes file_headers) @ replicate (headers_padded - headers_raw) 0
      in case write_files read files 0 headers_padded file_headers out of
           None \<Rightarrow> None
         | Some (file_headers, out) \<Rightarrow>
             let out = patch out 32 (concat (map file_header_bytes file_headers));
                 final_size = (length out + PAGE_SIZE - 1) div PAGE_SIZE * PAGE_SIZE
             in Some (patch out 8 (le_bytes 8 final_size)))"

section \<open>Reading\<close>

definition is_valid_ramfs :: "mem \<Rightarrow> u64 \<Rightarrow> bool" where
  "is_valid_ramfs m p =
     (if p = NULL then False
      else if load_u32 m p \<noteq> ANOS_RAMFS_MAGIC then False
      else if load_u32 m (p + 4) \<noteq> ANOS_RAMFS_VERSION then False
      else True)"

definition ramfs_size :: "mem \<Rightarrow> u64 \<Rightarrow> 32 word" where
  "ramfs_size m fs = (if \<not> is_valid_ramfs m fs then - 1 else ucast (load_u64 m (fs + 8)))"

definition ramfs_file_count :: "mem \<Rightarrow> u64 \<Rightarrow> 32 word" where
  "ramfs_file_count m fs = (if \<not> is_valid_ramfs m fs then - 1 else ucast (load_u64 m (fs + 16)))"

primrec find_loop :: "mem \<Rightarrow> u64 \<Rightarrow> nat \<Rightarrow> u64 \<Rightarrow> u64" where
  "find_loop m name 0 current = NULL"
| "find_loop m name (Suc n) current =
     (if m (current + 16) \<noteq> 0 \<and> strncmp m name (current + 16) 24 = 0 then current else find_loop m name n (current + 32))"

definition ramfs_find_file :: "mem \<Rightarrow> u64 \<Rightarrow> u64 \<Rightarrow> u64" where
  "ramfs_find_file m fs name =
     (if \<not> is_valid_ramfs m fs then NULL
      else if name = NULL then NULL
      else find_loop m name (unat (load_u64 m (fs + 16))) (fs + 32))"

definition ramfs_file_open :: "mem \<Rightarrow> u64 \<Rightarrow> u64" where
  "ramfs_file_open m file =
     (if file = NULL then NULL
      else if load_u64 m (file + 8) = 0 then NULL
      else if load_u64 m file = 0 then NULL
      else file + load_u64 m file)"

section \<open>Paths\<close>

primrec strnchr :: "mem \<Rightarrow> u64 \<Rightarrow> u8 \<Rightarrow> nat \<Rightarrow> u64" where
  "strnchr m s c 0 = NULL"
| "strnchr m s c (Suc n) = (if m s = c then s else if m s = 0 then NULL else strnchr m (s + 1) c n)"

primrec has_nul :: "mem \<Rightarrow> u64 \<Rightarrow> nat \<Rightarrow> bool" where
  "has_nul m p 0 = False"
| "has_nul m p (Suc n) = (if m p = 0 then True else has_nul m (p + 1) n)"

text \<open>The mount point and the path, with the colon between them overwritten. \<open>outs\<close>: neither of the places for the results is null.\<close>

definition parse_file_path :: "bool \<Rightarrow> u64 \<Rightarrow> u64 \<Rightarrow> mem \<Rightarrow> mem \<times> (u64 \<times> u64) option" where
  "parse_file_path outs inp input_len m =
     (if inp = NULL \<or> \<not> outs \<or> input_len = 0 then (m, None)
      else if \<not> has_nul m inp (unat input_len) then (m, None)
      else let colon = strnchr m inp 58 (unat input_len)
           in if colon = NULL \<or> colon = inp then (m, None)
              else if m (colon + 1) = 0 then (m, None)
              else (m(colon := 0), Some (inp, colon + 1)))"

partial_function (option) skip_slashes :: "mem \<Rightarrow> u64 \<Rightarrow> u64 option" where
  "skip_slashes m path = (if m path = 47 then skip_slashes m (path + 1) else Some path)"

section \<open>Queries\<close>

text \<open>The size of a message buffer is a constant of the C library's \<^verbatim>\<open>anos/syscalls.h\<close>, of which the repository has the copy its tests use.\<close>

definition MAX_IPC_BUFFER_SIZE :: u64 where
  "MAX_IPC_BUFFER_SIZE = 4096"

primrec copy_loop :: "nat \<Rightarrow> u64 \<Rightarrow> u64 \<Rightarrow> mem \<Rightarrow> mem" where
  "copy_loop 0 src dest m = m"
| "copy_loop (Suc n) src dest m = copy_loop n (src + 1) (dest + 1) (m(dest := m src))"

definition handle_file_size_query :: "u64 \<Rightarrow> u64 \<Rightarrow> u64 \<Rightarrow> u64 \<Rightarrow> mem \<Rightarrow> (mem \<times> (u64 \<times> u64) list) option" where
  "handle_file_size_query ramfs message_cookie message_size message_buffer m =
     (let early = (if message_size > MAX_IPC_BUFFER_SIZE then [(message_cookie, 0)] else [])
      in case parse_file_path True message_buffer message_size m of
           (m, None) \<Rightarrow> Some (m, early @ [(message_cookie, 0)])
         | (m, Some (mount_point, path)) \<Rightarrow>
             map_option (\<lambda>path. let target = ramfs_find_file m ramfs path
               in (m, early @ [(message_cookie, if target \<noteq> NULL then load_u64 m (target + 8) else 0)])) (skip_slashes m path))"

definition handle_file_load_page_query :: "u64 \<Rightarrow> u64 \<Rightarrow> u64 \<Rightarrow> u64 \<Rightarrow> mem \<Rightarrow> (mem \<times> (u64 \<times> u64) list) option" where
  "handle_file_load_page_query ramfs message_cookie message_size message_buffer m =
     (let early = (if message_size > MAX_IPC_BUFFER_SIZE then [(message_cookie, 0)] else [])
      in case parse_file_path True (message_buffer + 8) (message_size - 4) m of
           (m, None) \<Rightarrow> Some (m, early @ [(message_cookie, 0)])
         | (m, Some (mount_point, path)) \<Rightarrow>
             map_option (\<lambda>path.
               let target = ramfs_find_file m ramfs path
               in if target = NULL then (m, early @ [(message_cookie, 0)])
                  else
                    let start = load_u64 m message_buffer;
                        copy_size = load_u64 m (target + 8) - start;
                        copy_size = (if copy_size > MAX_IPC_BUFFER_SIZE then MAX_IPC_BUFFER_SIZE else copy_size);
                        src = ramfs_file_open m target + start
                    in (copy_loop (unat copy_size) src message_buffer m, early @ [(message_cookie, copy_size)])) (skip_slashes m path))"

text \<open>One message of the driver's loop, by its tag.\<close>

definition ramfs_driver_step :: "u64 \<Rightarrow> u64 \<Rightarrow> u64 \<Rightarrow> u64 \<Rightarrow> u64 \<Rightarrow> mem \<Rightarrow> (mem \<times> (u64 \<times> u64) list) option" where
  "ramfs_driver_step ramfs tag message_cookie message_size message_buffer m =
     (if tag = 1 then handle_file_size_query ramfs message_cookie message_size message_buffer m
      else if tag = 2 then handle_file_load_page_query ramfs message_cookie message_size message_buffer m
      else Some (m, [(message_cookie, 0)]))"

section \<open>The packed image\<close>

lemma copy_data_eq [simp]: "copy_data content out = out @ content"
  by (induction content out rule: copy_data.induct) (subst copy_data.simps, simp)

lemma length_name_field [simp]: "n \<le> w \<Longrightarrow> length (name_field n w s) = w"
  by (simp add: name_field_def)

lemma length_header_bytes [simp]: "length (header_bytes h) = 32"
  by (simp add: header_bytes_def)

text \<open>A file as the headers describe it: where its contents start in the image.\<close>

definition entry_at :: "nat \<Rightarrow> nat \<Rightarrow> u8 list \<Rightarrow> u8 list \<Rightarrow> AnosRAMFSFileHeader" where
  "entry_at j d name content = \<lparr>file_start = of_nat (d - (32 + j * 32)), file_length = of_nat (length content), file_name = name_field 15 16 name\<rparr>"

lemma length_file_header [simp]: "length (file_header_bytes (entry_at j d name content)) = 32" "length (file_header_bytes zero_file_header) = 32"
  by (simp_all add: file_header_bytes_def entry_at_def zero_file_header_def)

abbreviation content_of :: "(string \<Rightarrow> u8 list option) \<Rightarrow> InputFile \<Rightarrow> u8 list" where
  "content_of read f \<equiv> the (read (if_path f))"

text \<open>The data of a file at an offset of the image.\<close>

definition slice_at :: "u8 list \<Rightarrow> nat \<Rightarrow> u8 list \<Rightarrow> bool" where
  "slice_at img d bs \<longleftrightarrow> d + length bs \<le> length img \<and> take (length bs) (drop d img) = bs"

lemma slice_append: "slice_at out d bs \<Longrightarrow> slice_at (out @ t) d bs"
  by (auto simp: slice_at_def)

lemma slice_here: "slice_at (out @ bs @ t) (length out) bs"
  by (simp add: slice_at_def)

lemma pad_dvd: "0 < (p :: nat) \<Longrightarrow> p dvd n + (p - n mod p) mod p"
proof (cases "n mod p = 0")
  case False
  moreover assume "0 < p"
  ultimately have "(p - n mod p) mod p = p - n mod p" "n mod p < p" by simp_all
  then have "n + (p - n mod p) mod p = n div p * p + p" using div_mult_mod_eq [of n p] by linarith
  then show ?thesis by simp
qed auto

lemma write_files_ok:
  assumes "length out = cur" "i + length files = length hs" "\<forall>f \<in> set files. read (if_path f) \<noteq> None"
  shows "\<exists>hs' t. write_files read files i cur hs out = Some (hs', out @ t) \<and> length hs' = length hs \<and> (\<forall>j < i. hs' ! j = hs ! j)
    \<and> (\<forall>j < length files. \<exists>d \<ge> cur. hs' ! (i + j) = entry_at (i + j) d (if_name (files ! j)) (content_of read (files ! j))
         \<and> slice_at (out @ t) d (content_of read (files ! j)))
    \<and> (PAGE_SIZE dvd cur \<longrightarrow> PAGE_SIZE dvd length (out @ t))"
  using assms
proof (induction files arbitrary: i cur hs out)
  case (Cons f files)
  obtain c where c: "read (if_path f) = Some c" using Cons.prems(3) by auto
  let ?e = "entry_at i cur (if_name f) c" and ?n = "cur + length c"
  let ?pad = "(PAGE_SIZE - ?n mod PAGE_SIZE) mod PAGE_SIZE"
  let ?out = "out @ c @ replicate ?pad 0"
  have "length ?out = ?n + ?pad" "Suc i + length files = length (hs[i := ?e])" "\<forall>g \<in> set files. read (if_path g) \<noteq> None" using Cons.prems by simp_all
  from Cons.IH [OF this] obtain hs' t where r: "write_files read files (Suc i) (?n + ?pad) (hs[i := ?e]) ?out = Some (hs', ?out @ t)" "length hs' = length hs"
    "\<forall>j < Suc i. hs' ! j = hs[i := ?e] ! j"
    "\<forall>j < length files. \<exists>d \<ge> ?n + ?pad. hs' ! (Suc i + j) = entry_at (Suc i + j) d (if_name (files ! j)) (content_of read (files ! j)) \<and> slice_at (?out @ t) d (content_of read (files ! j))"
    "PAGE_SIZE dvd length (?out @ t)"
    using pad_dvd [of PAGE_SIZE ?n] by (auto simp: PAGE_SIZE_def)
  have w: "write_files read (f # files) i cur hs out = Some (hs', out @ (c @ replicate ?pad 0 @ t))"
    using r(1) c by (simp add: Let_def entry_at_def)
  have first: "hs' ! i = entry_at i cur (if_name f) c" "slice_at (?out @ t) cur c" using r(3) Cons.prems(1,2) slice_here [of out c "replicate ?pad 0 @ t"] by auto
  have "\<exists>d \<ge> cur. hs' ! (i + j) = entry_at (i + j) d (if_name ((f # files) ! j)) (content_of read ((f # files) ! j)) \<and> slice_at (?out @ t) d (content_of read ((f # files) ! j))"
    if j: "j < length (f # files)" for j
  proof (cases j)
    case 0
    then show ?thesis using first c by (intro exI [of _ cur]) simp
  next
    case (Suc k)
    then obtain d where "d \<ge> ?n + ?pad" "hs' ! (Suc i + k) = entry_at (Suc i + k) d (if_name (files ! k)) (content_of read (files ! k))" "slice_at (?out @ t) d (content_of read (files ! k))"
      using r(4) j by auto
    then show ?thesis using Suc by (intro exI [of _ d]) simp
  qed
  moreover have "\<forall>j < i. hs' ! j = hs ! j" using r(3) by auto
  ultimately show ?case using w r(2,5) by (intro exI [of _ hs'] exI [of _ "c @ replicate ?pad 0 @ t"]) simp
qed (auto intro: exI [of _ "[]"])

lemma round_page: "n \<le> (n + PAGE_SIZE - 1) div PAGE_SIZE * PAGE_SIZE" "PAGE_SIZE dvd n \<Longrightarrow> (n + PAGE_SIZE - 1) div PAGE_SIZE * PAGE_SIZE = n"
proof -
  show "n \<le> (n + PAGE_SIZE - 1) div PAGE_SIZE * PAGE_SIZE"
    using div_mult_mod_eq [of "n + 4095" 4096] mod_less_divisor [of 4096 "n + 4095"] by (simp add: PAGE_SIZE_def)
  assume "PAGE_SIZE dvd n"
  then obtain q where q: "n = 4096 * q" by (auto simp: PAGE_SIZE_def)
  have "(n + PAGE_SIZE - 1) div PAGE_SIZE = (4095 + 4096 * q) div 4096" by (simp add: q PAGE_SIZE_def)
  also have "\<dots> = q" by simp
  finally show "(n + PAGE_SIZE - 1) div PAGE_SIZE * PAGE_SIZE = n" by (simp add: q PAGE_SIZE_def)
qed

lemma drop_skip: "length a = length b \<Longrightarrow> length a \<le> d \<Longrightarrow> drop d (a @ r) = drop d (b @ r)"
  by (simp add: drop_append)

lemma length_concat_32: "\<forall>h \<in> set hs. length (f h) = 32 \<Longrightarrow> length (concat (map f hs)) = 32 * length hs"
  by (induction hs) auto

lemma concat_nth_32: "\<forall>h \<in> set hs. length (f h) = 32 \<Longrightarrow> j < length hs \<Longrightarrow> take 32 (drop (32 * j) (concat (map f hs))) = f (hs ! j)"
proof (induction hs arbitrary: j)
  case (Cons h hs)
  then show ?case by (cases j) (simp_all add: drop_append)
qed simp

text \<open>The image of readable files: a valid header, and for each file a header that leads to its contents.\<close>

lemma write_filesystem_ok:
  assumes "\<forall>f \<in> set files. read (if_path f) \<noteq> None"
  shows "\<exists>img hs. write_filesystem read files = Some img \<and> length hs = length files \<and> slice_at img 0 (le_bytes 4 (unat ANOS_RAMFS_MAGIC))
    \<and> slice_at img 4 (le_bytes 4 (unat ANOS_RAMFS_VERSION)) \<and> slice_at img 8 (le_bytes 8 (length img)) \<and> slice_at img 16 (le_bytes 8 (length files mod 2 ^ 64))
    \<and> (\<forall>j < length files. \<exists>d. hs ! j = entry_at j d (if_name (files ! j)) (content_of read (files ! j)) \<and> 32 + 32 * length files \<le> d
         \<and> slice_at img d (content_of read (files ! j)) \<and> slice_at img (32 + 32 * j) (file_header_bytes (hs ! j)))"
proof -
  let ?n = "length files"
  define raw padded h zs where d: "raw = 32 + ?n * 32" "padded = (raw + PAGE_SIZE - 1) div PAGE_SIZE * PAGE_SIZE"
    "h = \<lparr>fs_magic = ANOS_RAMFS_MAGIC, fs_version = ANOS_RAMFS_VERSION, fs_size = 0, fs_file_count = of_nat ?n, fs_reserved = 0\<rparr>"
    "zs = concat (map file_header_bytes (replicate ?n zero_file_header))"
  define out where "out = header_bytes h @ zs @ replicate (padded - raw) 0"
  have zs: "length zs = 32 * ?n" unfolding d(4) using length_concat_32 [of "replicate ?n zero_file_header" file_header_bytes] by simp
  have le: "raw \<le> padded" unfolding d(2) by (rule round_page)
  have lo: "length out = padded" "0 + ?n = length (replicate ?n zero_file_header)" using zs le by (simp_all add: out_def d(1))
  obtain hs t where w: "write_files read files 0 padded (replicate ?n zero_file_header) out = Some (hs, out @ t)" "length hs = length (replicate ?n zero_file_header)"
    and e: "\<forall>j < ?n. \<exists>d \<ge> padded. hs ! (0 + j) = entry_at (0 + j) d (if_name (files ! j)) (content_of read (files ! j)) \<and> slice_at (out @ t) d (content_of read (files ! j))"
    and dv: "PAGE_SIZE dvd padded \<longrightarrow> PAGE_SIZE dvd length (out @ t)" using write_files_ok [OF lo assms] by blast
  note w(2) [simplified, simp] and e = e [simplified]
  have l32: "\<forall>h \<in> set hs. length (file_header_bytes h) = 32" using e w(2) by (metis in_set_conv_nth length_file_header(1) length_replicate)
  define fhs rest where f: "fhs = concat (map file_header_bytes hs)" "rest = replicate (padded - raw) 0 @ t"
  have hs: "length fhs = 32 * ?n" using length_concat_32 [OF l32] by (simp add: f(1))
  have p1: "patch (out @ t) 32 fhs = header_bytes h @ fhs @ rest" using hs zs by (simp add: patch_def out_def f(2))
  let ?L = "length (out @ t)"
  have L: "length (header_bytes h @ fhs @ rest) = ?L" using hs zs by (simp add: out_def f(2))
  have fin: "(?L + PAGE_SIZE - 1) div PAGE_SIZE * PAGE_SIZE = ?L" using dv by (intro round_page) (simp add: d(2))
  define img where "img = le_bytes 4 (unat ANOS_RAMFS_MAGIC) @ le_bytes 4 (unat ANOS_RAMFS_VERSION) @ le_bytes 8 ?L @ le_bytes 8 (?n mod 2 ^ 64) @ le_bytes 8 0 @ fhs @ rest"
  have p2: "patch (header_bytes h @ fhs @ rest) 8 (le_bytes 8 ?L) = img" by (simp add: img_def patch_def header_bytes_def unat_of_nat d(3))
  have run: "write_filesystem read files = Some img"
    unfolding write_filesystem_def Let_def d(1) [symmetric] unfolding d(2-4) [symmetric] out_def [symmetric] w(1) using p1 L fin p2 by (simp add: f(1))
  have li: "length img = ?L" unfolding L [symmetric] by (simp add: img_def)
  have tail: "drop d img = drop d (out @ t)" if "padded \<le> d" for d
  proof -
    let ?a = "le_bytes 4 (unat ANOS_RAMFS_MAGIC) @ le_bytes 4 (unat ANOS_RAMFS_VERSION) @ le_bytes 8 ?L @ le_bytes 8 (?n mod 2 ^ 64) @ le_bytes 8 0 @ fhs"
    have la: "length ?a = length (header_bytes h @ zs)" "length ?a \<le> d" unfolding length_append hs zs using that le by (simp_all add: d(1))
    from drop_skip [OF this, of rest] show ?thesis unfolding img_def out_def f(2) by (simp only: append.assoc)
  qed
  have "\<exists>d. hs ! j = entry_at j d (if_name (files ! j)) (content_of read (files ! j)) \<and> 32 + 32 * ?n \<le> d
      \<and> slice_at img d (content_of read (files ! j)) \<and> slice_at img (32 + 32 * j) (file_header_bytes (hs ! j))" if j: "j < ?n" for j
  proof -
    obtain d where x: "padded \<le> d" "hs ! j = entry_at j d (if_name (files ! j)) (content_of read (files ! j))" "slice_at (out @ t) d (content_of read (files ! j))" using e j by blast
    have 1: "slice_at img d (content_of read (files ! j))" using x(3) tail [OF x(1)] li by (simp add: slice_at_def)
    have "take 32 (drop (32 * j) (fhs @ rest)) = file_header_bytes (hs ! j)" using concat_nth_32 [OF l32, of j] j hs by (simp add: f(1) take_append)
    then have 2: "slice_at img (32 + 32 * j) (file_header_bytes (hs ! j))" using x(2) j hs by (simp add: slice_at_def img_def flip: drop_drop)
    show ?thesis using x(1,2) 1 2 le by (intro exI [of _ d]) (simp add: d(1))
  qed
  moreover have "slice_at img 0 (le_bytes 4 (unat ANOS_RAMFS_MAGIC))" "slice_at img 4 (le_bytes 4 (unat ANOS_RAMFS_VERSION))" "slice_at img 8 (le_bytes 8 (length img))"
    "slice_at img 16 (le_bytes 8 (?n mod 2 ^ 64))" unfolding li by (simp_all add: slice_at_def img_def)
  ultimately show ?thesis using run w(2) unfolding length_replicate by blast
qed

section \<open>Strings in memory\<close>

lemma strncmp_eq:
  assumes "holds_str m a s" "holds_str m b t" "length t < n"
  shows "strncmp m a b n = 0 \<longleftrightarrow> s = t"
  using assms
proof (induction t arbitrary: a b s n)
  case Nil
  then show ?case by (cases n; cases s) (auto simp: uint_0_iff)
next
  case (Cons c t)
  then obtain k where n: "n = Suc k" by (cases n) auto
  show ?case
  proof (cases s)
    case (Cons d s')
    then show ?thesis using Cons.prems Cons.IH [of "a + 1" s' "b + 1" k] n by (auto dest: word_uint_eq_iff [THEN iffD2])
  qed (use Cons.prems n in \<open>auto simp: uint_0_iff\<close>)
qed

lemma name_field_str: "length s \<le> n \<Longrightarrow> n < w \<Longrightarrow> holds m p (name_field n w s) \<Longrightarrow> 0 \<notin> set s \<Longrightarrow> holds_str m p s"
proof -
  assume a: "length s \<le> n" "n < w" "holds m p (name_field n w s)" "0 \<notin> set s"
  obtain k where "w - length s = Suc k" using a(1,2) by (cases "w - length s") auto
  then have "name_field n w s = s @ [0] @ replicate k 0" using a(1) by (simp add: name_field_def)
  then show ?thesis using a(3,4) by (simp add: holds_str_def)
qed

lemma has_nul_str: "holds_str m p s \<Longrightarrow> length s < n \<Longrightarrow> has_nul m p n"
proof (induction s arbitrary: p n)
  case Nil
  then show ?case by (cases n) auto
next
  case (Cons c s)
  then show ?case by (cases n) auto
qed

lemma strnchr_str:
  assumes "holds_str m p (s @ c # t)" "c \<notin> set s" "length s < n"
  shows "strnchr m p c n = p + of_nat (length s)"
  using assms
proof (induction s arbitrary: p n)
  case Nil
  then show ?case by (cases n) auto
next
  case (Cons d s)
  then obtain k where "n = Suc k" by (cases n) auto
  then show ?case using Cons by (auto simp: algebra_simps)
qed

lemma skip_slashes_str: "holds_str m p (replicate k 47 @ s) \<Longrightarrow> s = [] \<or> hd s \<noteq> 47 \<Longrightarrow> skip_slashes m p = Some (p + of_nat k)"
proof (induction k arbitrary: p)
  case 0
  then have "m p \<noteq> 47" by (cases s) auto
  then show ?case by (simp add: skip_slashes.simps [of m p])
next
  case (Suc k)
  then have "m p = 47" "skip_slashes m (p + 1) = Some (p + 1 + of_nat k)" by auto
  then show ?case by (simp add: skip_slashes.simps [of m p] algebra_simps)
qed

lemma copy_loop_other: "a \<notin> region dest n \<Longrightarrow> copy_loop n src dest m a = m a"
  by (induction n arbitrary: src dest m) (auto simp: region_Suc)

lemma copy_loop_agree: "agree (region dest n) m (copy_loop n src dest m)"
  by (simp add: agree_def copy_loop_other)

lemma copy_loop_holds:
  assumes "holds m src bs" "region src (length bs) \<inter> region dest (length bs) = {}" "length bs \<le> 18446744073709551616"
  shows "holds (copy_loop (length bs) src dest m) dest bs"
  using assms
proof (induction bs arbitrary: src dest m)
  case (Cons b bs)
  let ?m = "m(dest := m src)"
  have d: "region (src + 1) (length bs) \<inter> region (dest + 1) (length bs) = {}" "dest \<notin> region (src + 1) (length bs)"
    using Cons.prems(2) by (auto simp: region_Suc)
  have "holds ?m (src + 1) bs \<longleftrightarrow> holds m (src + 1) bs" by (rule holds_cong) (use d(2) in auto)
  then have "holds ?m (src + 1) bs" using Cons.prems(1) by simp
  then have "holds (copy_loop (length bs) (src + 1) (dest + 1) ?m) (dest + 1) bs" using Cons.IH [OF _ d(1)] Cons.prems(3) by simp
  moreover have "dest \<notin> region (dest + 1) (length bs)" using Cons.prems(3) by (intro region_head) simp
  ultimately show ?case using Cons.prems(1) copy_loop_other [of dest "dest + 1" "length bs"] by simp
qed simp

section \<open>The image in memory\<close>

lemma holds_slice: "holds m p img \<Longrightarrow> slice_at img d bs \<Longrightarrow> holds m (p + of_nat d) bs"
  using holds_take_drop [of m p img d "length bs"] by (simp add: slice_at_def)

abbreviation header_addr :: "u64 \<Rightarrow> nat \<Rightarrow> u64" where
  "header_addr p j \<equiv> p + of_nat (32 + 32 * j)"

text \<open>Names that the tool accepts and that a path can lead to.\<close>

definition good_name :: "u8 list \<Rightarrow> bool" where
  "good_name s \<longleftrightarrow> s \<noteq> [] \<and> hd s \<noteq> 47 \<and> 0 \<notin> set s \<and> length s \<le> 15"

lemma image_entry:
  assumes "write_filesystem read files = Some img" "\<forall>f \<in> set files. read (if_path f) \<noteq> None" "holds m p img" "j < length files" "good_name (if_name (files ! j))"
  shows "\<exists>d. load_u64 m (header_addr p j) = of_nat (d - (32 + 32 * j)) \<and> load_u64 m (header_addr p j + 8) = of_nat (length (content_of read (files ! j)))
    \<and> holds_str m (header_addr p j + 16) (if_name (files ! j)) \<and> 32 + 32 * length files \<le> d \<and> slice_at img d (content_of read (files ! j))"
proof -
  obtain d hs where h: "hs ! j = entry_at j d (if_name (files ! j)) (content_of read (files ! j))" "32 + 32 * length files \<le> d" "slice_at img d (content_of read (files ! j))"
    "slice_at img (32 + 32 * j) (file_header_bytes (hs ! j))" using write_filesystem_ok [OF assms(2)] assms(1,4) by auto
  have "holds m (header_addr p j) (file_header_bytes (hs ! j))" by (rule holds_slice [OF assms(3) h(4)])
  then have b: "holds m (header_addr p j) (le_bytes 8 (unat (file_start (hs ! j))))" "holds m (header_addr p j + 8) (le_bytes 8 (unat (file_length (hs ! j))))"
    "holds m (header_addr p j + 16) (file_name (hs ! j))" by (simp_all add: file_header_bytes_def algebra_simps)
  have "holds_str m (header_addr p j + 16) (if_name (files ! j))" using b(3) assms(5) h(1) by (intro name_field_str [of _ 15 16]) (simp_all add: entry_at_def good_name_def)
  then show ?thesis using load_holds(2) [OF b(1)] load_holds(2) [OF b(2)] h(1-3) by (intro exI [of _ d]) (simp add: entry_at_def mult.commute)
qed

lemma find_loop_ok:
  assumes "\<forall>j < n. holds_str m (header_addr p j + 16) (nm j) \<and> nm j \<noteq> [] \<and> length (nm j) < 24" "holds_str m q (nm k)" "k < n" "\<forall>j < k. nm j \<noteq> nm k"
  shows "i \<le> k \<Longrightarrow> find_loop m q (n - i) (header_addr p i) = header_addr p k"
proof (induction "k - i" arbitrary: i)
  case 0
  then have "i = k" "n - i = Suc (n - Suc i)" using assms(3) by simp_all
  moreover have h: "holds_str m (header_addr p k + 16) (nm k)" "length (nm k) < 24" "nm k \<noteq> []" using spec [OF assms(1), of k] assms(3) by auto
  moreover have "m (header_addr p k + 16) \<noteq> 0" using h(1,3) by (cases "nm k") auto
  ultimately show ?case using strncmp_eq [OF assms(2) h(1,2)] by simp
next
  case (Suc e)
  then have i: "i < k" "n - i = Suc (n - Suc i)" "e = k - Suc i" using assms(3) by simp_all
  have h: "holds_str m (header_addr p i + 16) (nm i)" "length (nm i) < 24" "nm k \<noteq> nm i" using spec [OF assms(1), of i] spec [OF assms(4), of i] assms(3) i(1) by auto
  have "strncmp m q (header_addr p i + 16) 24 \<noteq> 0" using strncmp_eq [OF assms(2) h(1,2)] h(3) by blast
  moreover have "header_addr p i + 32 = header_addr p (Suc i)" by (simp add: algebra_simps)
  ultimately show ?case using Suc.hyps(1) [OF i(3)] i(1,2) by (simp add: ac_simps)
qed

lemma image_find:
  assumes "write_filesystem read files = Some img" "\<forall>f \<in> set files. read (if_path f) \<noteq> None" "holds m p img" "k < length files" "\<forall>f \<in> set files. good_name (if_name f)"
    "distinct (map if_name files)" "p \<noteq> 0" "length img < 18446744073709551616" "holds_str m q (if_name (files ! k))" "q \<noteq> 0"
  shows "ramfs_find_file m p q = header_addr p k"
proof -
  obtain hs :: "AnosRAMFSFileHeader list" where s: "slice_at img 0 (le_bytes 4 (unat ANOS_RAMFS_MAGIC))" "slice_at img 4 (le_bytes 4 (unat ANOS_RAMFS_VERSION))"
    "slice_at img 16 (le_bytes 8 (length files mod 2 ^ 64))" using write_filesystem_ok [OF assms(2)] assms(1) by auto
  have n: "length files < 18446744073709551616"
  proof -
    obtain d where "32 + 32 * length files \<le> d" "slice_at img d (content_of read (files ! k))"
      using image_entry [OF assms(1-4)] assms(4,5) by auto
    then show ?thesis using assms(8) by (simp add: slice_at_def)
  qed
  then have c: "unat (of_nat (length files) :: u64) = length files" by (simp add: unat_of_nat)
  have "load_u32 m p = ANOS_RAMFS_MAGIC" "load_u32 m (p + 4) = ANOS_RAMFS_VERSION" "load_u64 m (p + 16) = of_nat (length files)"
    using holds_slice [OF assms(3) s(1)] holds_slice [OF assms(3) s(2)] holds_slice [OF assms(3) s(3)] n c by (auto intro!: load_holds)
  moreover have "find_loop m q (length files - 0) (header_addr p 0) = header_addr p k"
  proof (rule find_loop_ok [where nm = "\<lambda>j. if_name (files ! j)"])
    show "\<forall>j < length files. holds_str m (header_addr p j + 16) (if_name (files ! j)) \<and> if_name (files ! j) \<noteq> [] \<and> length (if_name (files ! j)) < 24"
    proof (intro allI impI)
      fix j assume j: "j < length files"
      then have g: "good_name (if_name (files ! j))" using assms(5) by simp
      then show "holds_str m (header_addr p j + 16) (if_name (files ! j)) \<and> if_name (files ! j) \<noteq> [] \<and> length (if_name (files ! j)) < 24"
        using image_entry [OF assms(1-3) j g] by (simp add: good_name_def) blast
    qed
    show "\<forall>j < k. if_name (files ! j) \<noteq> if_name (files ! k)" using assms(4,6) by (auto simp: distinct_conv_nth)
  qed (use assms in auto)
  ultimately show ?thesis using assms(7,10) c by (simp add: ramfs_find_file_def is_valid_ramfs_def)
qed

text \<open>A path of a mount point, slashes and a name.\<close>

lemma parse_path_ok:
  assumes "holds_str m b path" "path = mount @ [58] @ replicate l 47 @ name" "mount \<noteq> []" "58 \<notin> set mount" "good_name name" "length path < unat len"
    and b: "b \<noteq> 0" "0 \<notin> region b (Suc (length path))"
  shows "\<exists>m' q q'. parse_file_path True b len m = (m', Some (b, q)) \<and> (\<forall>a. a \<notin> region b (length path) \<longrightarrow> m' a = m a)
    \<and> skip_slashes m' q = Some q' \<and> holds_str m' q' name \<and> q' \<noteq> 0"
proof -
  let ?i = "length mount" and ?c = "b + of_nat (length mount)" and ?n = "Suc (length path)"
  let ?q = "b + of_nat (Suc ?i)" and ?r = "replicate l 47 @ name"
  have n: "?n \<le> 18446744073709551616" using assms(6) u64_less [of len] by linarith
  have lp: "length path = Suc ?i + length ?r" by (simp add: assms(2))
  have h: "holds_str m b (mount @ 58 # ?r)" "holds_str m ?q ?r" using assms(1,2) by (simp_all add: holds_str_append algebra_simps)
  have c: "strnchr m b 58 (unat len) = ?c" by (rule strnchr_str [OF h(1) assms(4)]) (use assms(6) lp in simp)
  have "?c \<in> region b ?n" by (rule in_region) (use lp in simp)
  then have c0: "?c \<noteq> 0" using b(2) by auto
  have cb: "?c \<noteq> b" using region_inj [of ?i ?n 0 b] n lp assms(3) by (cases mount) auto
  let ?m = "m(?c := 0)"
  have q: "?c + 1 = ?q" by (simp add: algebra_simps)
  have "m ?q \<noteq> 0" using h(2) assms(5) by (cases l; cases name) (simp_all add: good_name_def del: of_nat_Suc)
  then have p: "parse_file_path True b len m = (?m, Some (b, ?q))" using c0 cb b(1) has_nul_str [OF assms(1,6)] assms(6)
    unfolding parse_file_path_def c Let_def q by (simp del: of_nat_Suc) auto
  have "?c \<notin> region ?q (Suc (length ?r))"
  proof
    assume "?c \<in> region ?q (Suc (length ?r))"
    then obtain j where j: "j < Suc (length ?r)" "b + of_nat ?i = b + of_nat (Suc ?i + j)" by (auto simp: region_def algebra_simps)
    then show False using region_inj [of ?i ?n "Suc ?i + j" b] n lp by simp
  qed
  then have h': "holds_str ?m ?q ?r" by (intro holds_str_agree [OF h(2)]) auto
  have q': "skip_slashes ?m ?q = Some (?q + of_nat l)" by (rule skip_slashes_str [OF h']) (use assms(5) in \<open>simp add: good_name_def\<close>)
  have nm: "holds_str ?m (?q + of_nat l) name" using h' by (simp add: holds_str_append)
  have "b + of_nat (Suc ?i + l) \<in> region b ?n" by (rule in_region) (use lp in simp)
  then have "?q + of_nat l \<noteq> 0" using b(2) by (auto simp: algebra_simps)
  moreover have "\<forall>a. a \<notin> region b (length path) \<longrightarrow> ?m a = m a" using in_region [of ?i "length path" b] lp by auto
  ultimately show ?thesis using p q' nm by (intro exI [of _ ?m] exI [of _ ?q] exI [of _ "?q + of_nat l"]) simp
qed

lemma ramfs_serves:
  assumes img: "write_filesystem read files = Some img" "\<forall>f \<in> set files. read (if_path f) \<noteq> None \<and> good_name (if_name f)" "distinct (map if_name files)"
    and mem: "holds m ramfs img" "ramfs \<noteq> 0" "unat ramfs + length img < 18446744073709551616" "region buf 4096 \<inter> (region ramfs (length img) \<union> {0}) = {}"
    and k: "k < length files" "content = content_of read (files ! k)"
    and path: "path = mount @ [58] @ replicate l 47 @ if_name (files ! k)" "mount \<noteq> []" "58 \<notin> set mount"
  shows "(holds_str m buf path \<and> length path < unat sz \<and> sz \<le> 4096 \<longrightarrow>
      (\<exists>m'. handle_file_size_query ramfs cookie sz buf m = Some (m', [(cookie, of_nat (length content))]) \<and> agree (region buf 4096) m m'))
    \<and> (holds m buf (le_bytes 8 (unat (ofs :: u64))) \<and> holds_str m (buf + 8) path \<and> length path + 4 < unat sz \<and> length path + 8 < 4096 \<and> sz \<le> 4096 \<and> unat ofs < length content \<longrightarrow>
      (\<exists>m' n. handle_file_load_page_query ramfs cookie sz buf m = Some (m', [(cookie, of_nat n)]) \<and> n = min 4096 (length content - unat ofs)
         \<and> holds m' buf (take n (drop (unat ofs) content)) \<and> agree (region buf 4096) m m'))"
proof -
  let ?f = "files ! k" and ?H = "header_addr ramfs k"
  have rd: "\<forall>f \<in> set files. read (if_path f) \<noteq> None" "\<forall>f \<in> set files. good_name (if_name f)" "good_name (if_name ?f)" using img(2) k(1) by auto
  have li: "length img < 18446744073709551616" using mem(3) by simp
  have b: "0 \<notin> region buf 4096" "buf \<noteq> 0" using mem(4) in_region [of 0 4096 buf] by auto
  have found: "ramfs_find_file m' ramfs q = ?H \<and> ?H \<noteq> 0 \<and> (\<exists>d. load_u64 m' (?H + 8) = of_nat (length content) \<and> length content < 18446744073709551616
      \<and> (content \<noteq> [] \<longrightarrow> ramfs_file_open m' ?H = ramfs + of_nat d) \<and> slice_at img d content \<and> holds m' ramfs img)"
    if a: "\<forall>a. a \<notin> region buf 4096 \<longrightarrow> m' a = m a" and q: "holds_str m' q (if_name ?f)" "q \<noteq> 0" for m' q
  proof -
    have "holds m' ramfs img \<longleftrightarrow> holds m ramfs img" by (rule holds_cong) (use a mem(4) in blast)
    then have hi: "holds m' ramfs img" using mem(1) by simp
    obtain d where d: "load_u64 m' ?H = of_nat (d - (32 + 32 * k))" "load_u64 m' (?H + 8) = of_nat (length content)"
      "32 + 32 * length files \<le> d" "slice_at img d content" using image_entry [OF img(1) rd(1) hi k(1) rd(3)] unfolding k(2) by blast
    have dl: "d + length content \<le> length img" using d(4) by (simp add: slice_at_def)
    have kd: "32 + 32 * k < d" using d(3) k(1) by simp
    then have "unat ?H = unat ramfs + (32 + 32 * k)" using dl mem(3) unat_add_lem [of ramfs "of_nat (32 + 32 * k)"] by (simp add: unat_of_nat del: of_nat_add of_nat_mult)
    then have h: "?H \<noteq> 0" by (auto simp del: of_nat_add of_nat_mult)
    have st: "(of_nat (d - (32 + 32 * k)) :: u64) \<noteq> 0" unfolding word_of_nat_eq_0_iff using kd dl li by (auto dest!: dvd_imp_le)
    have ln: "content \<noteq> [] \<longrightarrow> (of_nat (length content) :: u64) \<noteq> 0" unfolding word_of_nat_eq_0_iff using dl li by (auto dest!: dvd_imp_le)
    have "?H + of_nat (d - (32 + 32 * k)) = ramfs + of_nat d" using kd by (simp add: of_nat_diff)
    then have "content \<noteq> [] \<longrightarrow> ramfs_file_open m' ?H = ramfs + of_nat d" using d(1,2) h st ln by (simp add: ramfs_file_open_def)
    then show ?thesis using image_find [OF img(1) rd(1) hi k(1) rd(2) img(3) mem(2) li q] h d(2,4) dl li hi by auto
  qed
  have 1: "\<exists>m'. handle_file_size_query ramfs cookie sz buf m = Some (m', [(cookie, of_nat (length content))]) \<and> agree (region buf 4096) m m'"
    if a: "holds_str m buf path" "length path < unat sz" "sz \<le> 4096"
  proof -
    have le: "Suc (length path) \<le> 4096" using a(2,3) by (simp add: word_le_nat_alt)
    have r: "region buf (Suc (length path)) \<subseteq> region buf 4096" "region buf (length path) \<subseteq> region buf 4096"
      using region_sub [of 0 "Suc (length path)" 4096 buf] region_sub [of 0 "length path" 4096 buf] le by simp_all
    obtain m' q q' where p: "parse_file_path True buf sz m = (m', Some (buf, q))" "\<forall>a. a \<notin> region buf (length path) \<longrightarrow> m' a = m a" "skip_slashes m' q = Some q'"
      "holds_str m' q' (if_name ?f)" "q' \<noteq> 0" using parse_path_ok [OF a(1) path rd(3) a(2) b(2)] b(1) r(1) by blast
    have ag: "\<forall>a. a \<notin> region buf 4096 \<longrightarrow> m' a = m a" using p(2) r(2) by blast
    from found [OF ag p(4,5)] show ?thesis using p(1,3) a(3) ag by (auto simp: handle_file_size_query_def MAX_IPC_BUFFER_SIZE_def agree_def)
  qed
  have 2: "\<exists>m' n. handle_file_load_page_query ramfs cookie sz buf m = Some (m', [(cookie, of_nat n)]) \<and> n = min 4096 (length content - unat ofs)
         \<and> holds m' buf (take n (drop (unat ofs) content)) \<and> agree (region buf 4096) m m'"
    if a: "holds m buf (le_bytes 8 (unat ofs))" "holds_str m (buf + 8) path" "length path + 4 < unat sz" "length path + 8 < 4096" "sz \<le> 4096" "unat ofs < length content"
  proof -
    have r: "region (buf + 8) (Suc (length path)) \<subseteq> region buf 4096" "region (buf + 8) (length path) \<subseteq> region buf 4096"
      using region_sub [of 8 "Suc (length path)" 4096 buf] region_sub [of 8 "length path" 4096 buf] a(4) by simp_all
    have b8: "buf + 8 \<noteq> 0" using in_region [of 8 4096 buf] b(1) by auto
    have len: "length path < unat (sz - 4)" using a(3) by (simp add: unat_sub word_le_nat_alt)
    obtain m' q q' where p: "parse_file_path True (buf + 8) (sz - 4) m = (m', Some (buf + 8, q))" "\<forall>a. a \<notin> region (buf + 8) (length path) \<longrightarrow> m' a = m a" "skip_slashes m' q = Some q'"
      "holds_str m' q' (if_name ?f)" "q' \<noteq> 0" using parse_path_ok [OF a(2) path rd(3) len b8] b(1) r(1) by blast
    have ag: "\<forall>a. a \<notin> region buf 4096 \<longrightarrow> m' a = m a" using p(2) r(2) by blast
    note f = found [OF ag p(4,5)]
    obtain d where d: "load_u64 m' (?H + 8) = of_nat (length content)" "length content < 18446744073709551616" "ramfs_file_open m' ?H = ramfs + of_nat d" "slice_at img d content" "holds m' ramfs img"
      using f a(6) by auto
    have "region buf 8 \<inter> region (buf + 8) (length path) = {}" using region_apart [of 8 "length path" buf] a(4) by simp
    then have "holds m' buf (le_bytes 8 (unat ofs)) \<longleftrightarrow> holds m buf (le_bytes 8 (unat ofs))" using p(2) by (intro holds_cong) auto
    then have o: "load_u64 m' buf = ofs" using a(1) load_holds(2) by blast
    let ?n = "min 4096 (length content - unat ofs)"
    have "unat (of_nat (length content) - ofs) = length content - unat ofs" using d(2) a(6) by (simp add: unat_sub word_le_nat_alt unat_of_nat)
    then have c: "(if of_nat (length content) - ofs > MAX_IPC_BUFFER_SIZE then MAX_IPC_BUFFER_SIZE else of_nat (length content) - ofs) = of_nat ?n"
      "unat (of_nat ?n :: u64) = ?n" by (auto simp: MAX_IPC_BUFFER_SIZE_def word_less_nat_alt u64_eq_iff unat_of_nat min_def)
    let ?bs = "take ?n (drop (unat ofs) content)" and ?src = "ramfs + of_nat d + ofs"
    have lb: "length ?bs = ?n" by simp
    have "holds m' (ramfs + of_nat d) content" by (rule holds_slice [OF d(5,4)])
    then have hs: "holds m' ?src ?bs" using holds_take_drop [of m' "ramfs + of_nat d" content "unat ofs" ?n] a(6) by simp
    have "d + unat ofs + ?n \<le> length img" using d(4) a(6) by (auto simp: slice_at_def)
    from region_sub [OF this, of ramfs] have "region ?src ?n \<subseteq> region ramfs (length img)" by (simp add: add.assoc)
    moreover have rn: "region buf ?n \<subseteq> region buf 4096" using region_sub [of 0 ?n 4096 buf] by simp
    ultimately have "region ?src (length ?bs) \<inter> region buf (length ?bs) = {}" unfolding lb using mem(4) by blast
    from copy_loop_holds [OF hs this] have "holds (copy_loop ?n ?src buf m') buf ?bs" unfolding lb by simp
    moreover have "handle_file_load_page_query ramfs cookie sz buf m = Some (copy_loop ?n ?src buf m', [(cookie, of_nat ?n)])"
      using p(1,3) f d(1,3) o c a(5) by (simp add: handle_file_load_page_query_def MAX_IPC_BUFFER_SIZE_def Let_def)
    moreover have "agree (region buf 4096) m (copy_loop ?n ?src buf m')"
      by (rule agree_trans [OF _ agree_mono [OF copy_loop_agree rn]]) (use ag in \<open>simp add: agree_def\<close>)
    ultimately show ?thesis by blast
  qed
  show ?thesis using 1 2 by blast
qed

section \<open>Properties\<close>

text \<open>C16: what the tool packs the server hands out: for a file of an image in memory, a query for its size with a path of the mount point and the name is answered with the
  length of the file, and a query for a page with the number of bytes from the given offset on, at most a page, which then stand in the message; both change nothing but the message.\<close>

theorem ramfs_serves_packed_files:
  assumes img: "write_filesystem read files = Some img" "\<forall>f \<in> set files. read (if_path f) \<noteq> None \<and> good_name (if_name f)" "distinct (map if_name files)"
    and mem: "holds m ramfs img" "ramfs \<noteq> 0" "unat ramfs + length img < 18446744073709551616" "region buf 4096 \<inter> (region ramfs (length img) \<union> {0}) = {}"
    and k: "k < length files" "content = content_of read (files ! k)"
    and path: "path = mount @ [58] @ replicate l 47 @ if_name (files ! k)" "mount \<noteq> []" "58 \<notin> set mount"
  shows "(holds_str m buf path \<and> length path < unat sz \<and> sz \<le> 4096 \<longrightarrow>
      (\<exists>m'. handle_file_size_query ramfs cookie sz buf m = Some (m', [(cookie, of_nat (length content))]) \<and> agree (region buf 4096) m m'))
    \<and> (holds m buf (le_bytes 8 (unat (ofs :: u64))) \<and> holds_str m (buf + 8) path \<and> length path + 4 < unat sz \<and> length path + 8 < 4096 \<and> sz \<le> 4096 \<and> unat ofs < length content \<longrightarrow>
      (\<exists>m' n. handle_file_load_page_query ramfs cookie sz buf m = Some (m', [(cookie, of_nat n)]) \<and> n = min 4096 (length content - unat ofs)
         \<and> holds m' buf (take n (drop (unat ofs) content)) \<and> agree (region buf 4096) m m'))"
  using ramfs_serves [OF assms] .

text \<open>One file of three bytes, and a message that asks for its page from the second byte on: the offset 1 and the path \<^verbatim>\<open>boot:/a\<close>.\<close>

definition demo_files :: "InputFile list" where
  "demo_files = [\<lparr>if_path = ''a'', if_name = [97]\<rparr>]"

definition demo_read :: "string \<Rightarrow> u8 list option" where
  "demo_read path = (if path = ''a'' then Some [1, 2, 3] else None)"

definition demo_path :: "u8 list" where
  "demo_path = [98, 111, 111, 116, 58, 47, 97]"

definition demo_memory :: "u8 list \<Rightarrow> mem" where
  "demo_memory img a = (if 0x10000 \<le> unat a \<and> unat a - 0x10000 < length img then img ! (unat a - 0x10000)
     else if 0x4000 \<le> unat a \<and> unat a - 0x4000 < 16 then (le_bytes 8 1 @ demo_path @ [0]) ! (unat a - 0x4000) else 0)"

lemma demo_image: "\<exists>img. write_filesystem demo_read demo_files = Some img \<and> length img = 8192"
  by (simp add: write_filesystem_def demo_files_def demo_read_def Let_def PAGE_SIZE_def patch_def zero_file_header_def file_header_bytes_def name_field_def)

theorem ramfs_serves_packed_files_witness:
  "\<exists>img m'. write_filesystem demo_read demo_files = Some img
    \<and> handle_file_load_page_query 0x10000 7 20 0x4000 (demo_memory img) = Some (m', [(7, 2)]) \<and> holds m' 0x4000 [2, 3]"
proof -
  obtain img where img: "write_filesystem demo_read demo_files = Some img" "length img = 8192" using demo_image by blast
  let ?m = "demo_memory img"
  have u: "unat (0x10000 + of_nat i :: u64) = 0x10000 + i" "unat (0x4000 + of_nat i :: u64) = 0x4000 + i" if "i < 8192" for i
    using that unat_add_lem [of "0x10000 :: u64" "of_nat i"] unat_add_lem [of "0x4000 :: u64" "of_nat i"] by (simp_all add: unat_of_nat)
  have mem: "holds ?m 0x10000 img" "(0x10000 :: u64) \<noteq> 0" "unat (0x10000 :: u64) + length img < 18446744073709551616"
    using u(1) img(2) by (auto simp: holds_def demo_memory_def)
  have d: "region 0x4000 4096 \<inter> (region 0x10000 (length img) \<union> {0}) = {}"
    using img(2) by (auto simp: region_unat)
  have "holds ?m 0x4000 (le_bytes 8 1 @ demo_path @ [0])" using u(2) by (auto simp: holds_def demo_memory_def demo_path_def)
  then have msg: "holds ?m 0x4000 (le_bytes 8 (unat (1 :: u64)))" "holds_str ?m (0x4000 + 8) demo_path" by (simp_all add: holds_str_def demo_path_def)
  have f: "\<forall>f \<in> set demo_files. demo_read (if_path f) \<noteq> None \<and> good_name (if_name f)" "distinct (map if_name demo_files)" "0 < length demo_files"
    "[1, 2, 3] = content_of demo_read (demo_files ! 0)" by (simp_all add: demo_files_def demo_read_def good_name_def)
  have p: "demo_path = [98, 111, 111, 116] @ [58] @ replicate 1 47 @ if_name (demo_files ! 0)" "[98, 111, 111, 116] \<noteq> ([] :: u8 list)" "58 \<notin> set [98, 111, 111, 116 :: u8]"
    by (simp_all add: demo_path_def demo_files_def)
  have "length demo_path + 4 < unat (20 :: u64)" "length demo_path + 8 < 4096" "(20 :: u64) \<le> 4096" "unat (1 :: u64) < length [1, 2, 3 :: u8]" by (simp_all add: demo_path_def)
  then obtain m' n where r: "handle_file_load_page_query 0x10000 7 20 0x4000 ?m = Some (m', [(7, of_nat n)])" "n = min 4096 (length [1, 2, 3 :: u8] - unat (1 :: u64))"
    "holds m' 0x4000 (take n (drop (unat (1 :: u64)) [1, 2, 3]))"
    using ramfs_serves_packed_files [OF img(1) f(1,2) mem d f(3,4) p, of 20 7 1] msg by blast
  then show ?thesis using img(1) by (intro exI [of _ img] exI [of _ m']) (simp add: min_def)
qed

end
