(* ===== verification/Elf_Loader.thy ===== *)
theory Elf_Loader
  imports Ramfs
begin

text \<open>
  Loading a program, \<^verbatim>\<open>system/elf.c\<close> and \<^verbatim>\<open>system/loader.c\<close>: the headers are read through one page that the file server fills, the segments are filled page by page at their
  place. Sending a message and mapping memory are parameters; \<open>file_server\<close> connects the first to the server of \<open>Ramfs\<close>, which sees the sender's page at the address of its
  message buffer. The result distinguishes a call that never comes back and an access through a null pointer.
\<close>

section \<open>Reading through a page\<close>

record ElfPagedReader =
  rd_filename :: "u8 list"
  rd_fs_cookie :: u64
  rd_page :: u64
  rd_current_page_offset :: u64

datatype 'a load_outcome = Loaded 'a | Null_deref | Never

text \<open>The result of a system call: whether it succeeded, and its value.\<close>

type_synonym sender = "u64 \<Rightarrow> u64 \<Rightarrow> u64 \<Rightarrow> u64 \<Rightarrow> mem \<Rightarrow> (mem \<times> bool \<times> u64) option"

definition SYS_VFS_TAG_LOAD_PAGE :: u64 where
  "SYS_VFS_TAG_LOAD_PAGE = 2"

definition load_page :: "sender \<Rightarrow> u64 \<Rightarrow> ElfPagedReader \<times> mem \<Rightarrow> ((ElfPagedReader \<times> mem) \<times> u64) load_outcome" where
  "load_page anos_send_message offset rm =
     (let (r, m) = rm; aligned = offset AND NOT (VM_PAGE_SIZE - 1)
      in if aligned \<noteq> rd_current_page_offset r then
           let m = store_u64 (rd_page r) offset m;
               m = store_bytes (rd_page r + 8) (rd_filename r @ [0]) m
           in case anos_send_message (rd_fs_cookie r) SYS_VFS_TAG_LOAD_PAGE 26 (rd_page r) m of
                None \<Rightarrow> Never
              | Some (m, ok, loaded_bytes) \<Rightarrow>
                  if \<not> ok \<or> loaded_bytes = 0 then Loaded ((r, m), 0)
                  else Loaded ((r\<lparr>rd_current_page_offset := aligned\<rparr>, m), VM_PAGE_SIZE)
         else Loaded ((r, m), VM_PAGE_SIZE))"

text \<open>A pointer to the bytes, in the page or, when they cross its end, in the static array \<open>temp\<close>.\<close>

definition get_ptr :: "sender \<Rightarrow> u64 \<Rightarrow> u64 \<Rightarrow> nat \<Rightarrow> ElfPagedReader \<times> mem \<Rightarrow> ((ElfPagedReader \<times> mem) \<times> u64) load_outcome" where
  "get_ptr send temp offset sz rm =
     (let in_page_offset = offset AND (VM_PAGE_SIZE - 1)
      in if unat in_page_offset + sz \<le> 4096 then
           case load_page send offset rm of
             Loaded (rm, n) \<Rightarrow> if n = 0 then Loaded (rm, NULL) else Loaded (rm, rd_page (fst rm) + in_page_offset)
           | Null_deref \<Rightarrow> Null_deref | Never \<Rightarrow> Never
         else
           let first_part = 4096 - unat in_page_offset
           in case load_page send offset rm of
                Loaded ((r, m), n) \<Rightarrow>
                  if n = 0 then Loaded ((r, m), NULL)
                  else
                    let m = store_bytes temp (bytes_at first_part m (rd_page r + in_page_offset)) m
                    in (case load_page send (offset + of_nat first_part) (r, m) of
                          Loaded ((r, m), n) \<Rightarrow>
                            if n = 0 then Loaded ((r, m), NULL)
                            else Loaded ((r, store_bytes (temp + of_nat first_part) (bytes_at (sz - first_part) m (rd_page r)) m), temp)
                        | Null_deref \<Rightarrow> Null_deref | Never \<Rightarrow> Never)
              | Null_deref \<Rightarrow> Null_deref | Never \<Rightarrow> Never)"

section \<open>Headers\<close>

text \<open>The fields of the two headers at their addresses.\<close>

definition e_entry :: "mem \<Rightarrow> u64 \<Rightarrow> u64" where
  "e_entry m p = load_u64 m (p + 24)"

definition e_phoff :: "mem \<Rightarrow> u64 \<Rightarrow> u64" where
  "e_phoff m p = load_u64 m (p + 32)"

definition e_phentsize :: "mem \<Rightarrow> u64 \<Rightarrow> u16" where
  "e_phentsize m p = load_u16 m (p + 54)"

definition e_phnum :: "mem \<Rightarrow> u64 \<Rightarrow> u16" where
  "e_phnum m p = load_u16 m (p + 56)"

definition p_type :: "mem \<Rightarrow> u64 \<Rightarrow> u32" where
  "p_type m p = load_u32 m p"

definition p_offset :: "mem \<Rightarrow> u64 \<Rightarrow> u64" where
  "p_offset m p = load_u64 m (p + 8)"

definition p_vaddr :: "mem \<Rightarrow> u64 \<Rightarrow> u64" where
  "p_vaddr m p = load_u64 m (p + 16)"

definition p_filesz :: "mem \<Rightarrow> u64 \<Rightarrow> u64" where
  "p_filesz m p = load_u64 m (p + 32)"

definition p_memsz :: "mem \<Rightarrow> u64 \<Rightarrow> u64" where
  "p_memsz m p = load_u64 m (p + 40)"

definition PT_LOAD :: u32 where
  "PT_LOAD = 1"

lemma phnum_less: "i < unat (e_phnum m p) \<Longrightarrow> 65536 - Suc i < 65536 - i"
  using unsigned_less [where ?'a = nat, of "e_phnum m p"] by simp

text \<open>The loop over the program headers. The ELF header is read again for every one of them, where it was found.\<close>

function map_headers :: "sender \<Rightarrow> u64 \<Rightarrow> (ElfPagedReader \<Rightarrow> u64 \<Rightarrow> mem \<Rightarrow> (mem \<times> bool) option) \<Rightarrow> u64 \<Rightarrow> u64 \<Rightarrow> nat \<Rightarrow> ElfPagedReader \<times> mem
    \<Rightarrow> ((ElfPagedReader \<times> mem) \<times> u64) load_outcome" where
  "map_headers send temp handler ehdr ent i rm =
     (if i < unat (e_phnum (snd rm) ehdr) then
        let ph_offset = e_phoff (snd rm) ehdr + of_nat i * ucast (e_phentsize (snd rm) ehdr)
        in case get_ptr send temp ph_offset 56 rm of
             Loaded ((r, m), phdr) \<Rightarrow>
               if phdr = NULL then Null_deref
               else if p_type m phdr \<noteq> PT_LOAD then map_headers send temp handler ehdr ent (i + 1) (r, m)
               else (case handler r phdr m of
                       None \<Rightarrow> Never
                     | Some (m, ok) \<Rightarrow> if \<not> ok then Loaded ((r, m), 0) else map_headers send temp handler ehdr ent (i + 1) (r, m))
           | Null_deref \<Rightarrow> Null_deref | Never \<Rightarrow> Never
      else Loaded (rm, ent))"
  by pat_completeness auto
termination by (relation "measure (\<lambda>(send, temp, handler, ehdr, ent, i, rm). 65536 - i)") (auto dest: phnum_less)

declare map_headers.simps [simp del]

definition elf_map_elf64 :: "sender \<Rightarrow> u64 \<Rightarrow> (ElfPagedReader \<Rightarrow> u64 \<Rightarrow> mem \<Rightarrow> (mem \<times> bool) option) \<Rightarrow> ElfPagedReader \<times> mem \<Rightarrow> ((ElfPagedReader \<times> mem) \<times> u64) load_outcome" where
  "elf_map_elf64 send temp handler rm =
     (case get_ptr send temp 0 64 rm of
        Loaded (rm, ehdr) \<Rightarrow>
          if ehdr = NULL then Loaded (rm, 0)
          else let ent = e_entry (snd rm) ehdr
               in if bytes_at 4 (snd rm) ehdr \<noteq> [0x7f, 0x45, 0x4c, 0x46] \<or> snd rm (ehdr + 4) \<noteq> 2 then Loaded (rm, 0)
                  else map_headers send temp handler ehdr ent 0 rm
      | Null_deref \<Rightarrow> Null_deref | Never \<Rightarrow> Never)"

section \<open>Segments\<close>

text \<open>The loop over the pages of a segment; every round reads the program header again.\<close>

partial_function (option) segment_loop :: "sender \<Rightarrow> u64 \<Rightarrow> u8 list \<Rightarrow> u64 \<Rightarrow> nat \<Rightarrow> mem \<Rightarrow> (mem \<times> bool) option" where
  "segment_loop send ramfs_cookie filename phdr i m =
     (if i < unat (p_filesz m phdr) then
        let msg_buffer = p_vaddr m phdr + of_nat i;
            m = store_u64 msg_buffer (of_nat i + p_offset m phdr) m;
            m = store_bytes (msg_buffer + 8) (name_field 1024 1024 filename) m
        in case send ramfs_cookie SYS_VFS_TAG_LOAD_PAGE 26 msg_buffer m of
             None \<Rightarrow> None
           | Some (m, ok, loaded_bytes) \<Rightarrow> if loaded_bytes = 0 then Some (m, False) else segment_loop send ramfs_cookie filename phdr (i + 4096) m
      else Some (m, True))"

definition on_program_header :: "sender \<Rightarrow> (u64 \<Rightarrow> u64 \<Rightarrow> mem \<Rightarrow> mem \<times> bool \<times> u64) \<Rightarrow> u64 \<Rightarrow> ElfPagedReader \<Rightarrow> u64 \<Rightarrow> mem \<Rightarrow> (mem \<times> bool) option" where
  "on_program_header send anos_map_virtual ramfs_cookie reader phdr m =
     (if p_offset m phdr AND (VM_PAGE_SIZE - 1) \<noteq> 0 then Some (m, False)
      else if p_vaddr m phdr AND (VM_PAGE_SIZE - 1) \<noteq> 0 then Some (m, False)
      else
        let (m, ok, buffer) = anos_map_virtual (p_memsz m phdr) (p_vaddr m phdr) m
        in if \<not> ok then Some (m, False)
           else if buffer = NULL then Some (m, False)
           else if p_filesz m phdr > 0 then segment_loop send ramfs_cookie (rd_filename reader) phdr 0 m
           else Some (store_bytes buffer (replicate (unat (p_memsz m phdr)) 0) m, True))"

section \<open>The file server\<close>

text \<open>The server's memory with the sender's page at the address of the message buffer, and the sender's memory after the reply. The reply is the value of the call, and 0 is a
  failure. What the server changes outside of the buffer is nothing.\<close>

definition RAMFS_BUFFER :: u64 where
  "RAMFS_BUFFER = 0xb0000000"

definition server_view :: "mem \<Rightarrow> u64 \<Rightarrow> mem \<Rightarrow> mem" where
  "server_view srv buf m a = (if unat (a - RAMFS_BUFFER) < 4096 then m (buf + (a - RAMFS_BUFFER)) else srv a)"

definition file_server :: "u64 \<Rightarrow> mem \<Rightarrow> sender" where
  "file_server ramfs srv cookie tag sz buf m =
     (case ramfs_driver_step ramfs tag cookie sz RAMFS_BUFFER (server_view srv buf m) of
        None \<Rightarrow> None
      | Some (srv', replies) \<Rightarrow>
          let v = snd (hd replies) in Some (\<lambda>a. if unat (a - buf) < 4096 then srv' (RAMFS_BUFFER + (a - buf)) else m a, v \<noteq> 0, v))"

section \<open>Asking the server\<close>

text \<open>A server whose image holds a file with the given contents under the given path; the length of the path is what fits the size of the messages.\<close>

definition serves :: "u64 \<Rightarrow> mem \<Rightarrow> u8 list \<Rightarrow> u8 list \<Rightarrow> bool" where
  "serves ramfs srv content path \<longleftrightarrow> (\<exists>read files img k mount l. write_filesystem read files = Some img
     \<and> (\<forall>f \<in> set files. read (if_path f) \<noteq> None \<and> good_name (if_name f)) \<and> distinct (map if_name files)
     \<and> holds srv ramfs img \<and> ramfs \<noteq> 0 \<and> unat ramfs + length img < 18446744073709551616 \<and> region RAMFS_BUFFER 4096 \<inter> (region ramfs (length img) \<union> {0}) = {}
     \<and> k < length files \<and> content = content_of read (files ! k)
     \<and> path = mount @ [58] @ replicate l 47 @ if_name (files ! k) \<and> mount \<noteq> [] \<and> 58 \<notin> set mount \<and> length path \<le> 21)"

lemma server_view_holds: "holds m (buf + of_nat k) bs \<Longrightarrow> k + length bs \<le> 4096 \<Longrightarrow> holds (server_view srv buf m) (RAMFS_BUFFER + of_nat k) bs"
  unfolding holds_def server_view_def
proof (intro allI impI)
  fix i assume a: "\<forall>i < length bs. m (buf + of_nat k + of_nat i) = bs ! i" "k + length bs \<le> 4096" "i < length bs"
  have u: "unat (of_nat (k + i) :: u64) < 4096" using a(2,3) unat_of_nat [of "k + i", where ?'a = 64] by (simp del: of_nat_add)
  have e: "RAMFS_BUFFER + of_nat k + of_nat i - RAMFS_BUFFER = of_nat (k + i)" by simp
  show "(if unat (RAMFS_BUFFER + of_nat k + of_nat i - RAMFS_BUFFER) < 4096 then m (buf + (RAMFS_BUFFER + of_nat k + of_nat i - RAMFS_BUFFER)) else srv (RAMFS_BUFFER + of_nat k + of_nat i)) = bs ! i"
    unfolding e if_P [OF u] using a(1,3) by (simp add: add.assoc)
qed

lemma server_view_agree: "agree (region RAMFS_BUFFER 4096) srv (server_view srv buf m)"
proof -
  have "a \<in> region RAMFS_BUFFER 4096" if "unat (a - RAMFS_BUFFER) < 4096" for a using in_region [OF that, of RAMFS_BUFFER] by simp
  then show ?thesis by (auto simp: agree_def server_view_def)
qed

lemma file_server_page:
  assumes "serves ramfs srv content path" "holds m buf (le_bytes 8 (unat ofs))" "holds_str m (buf + 8) path" "unat (ofs :: u64) < length content"
  shows "\<exists>m' n. file_server ramfs srv ck SYS_VFS_TAG_LOAD_PAGE 26 buf m = Some (m', True, of_nat n) \<and> n = min 4096 (length content - unat ofs) \<and> (of_nat n :: u64) \<noteq> 0
    \<and> holds m' buf (take n (drop (unat ofs) content)) \<and> agree (region buf 4096) m m'"
proof -
  obtain read files img k mount l where i: "write_filesystem read files = Some img" "\<forall>f \<in> set files. read (if_path f) \<noteq> None \<and> good_name (if_name f)" "distinct (map if_name files)"
    "holds srv ramfs img" "ramfs \<noteq> 0" "unat ramfs + length img < 18446744073709551616" "region RAMFS_BUFFER 4096 \<inter> (region ramfs (length img) \<union> {0}) = {}"
    "k < length files" "content = content_of read (files ! k)" "path = mount @ [58] @ replicate l 47 @ if_name (files ! k)" "mount \<noteq> []" "58 \<notin> set mount" "length path \<le> 21"
    using assms(1) unfolding serves_def by blast
  let ?v = "server_view srv buf m" and ?n = "min 4096 (length content - unat ofs)"
  have img: "holds ?v ramfs img" by (rule agree_holds [OF server_view_agree _ i(4)]) (use i(7) in blast)
  have msg: "holds ?v RAMFS_BUFFER (le_bytes 8 (unat ofs))" "holds_str ?v (RAMFS_BUFFER + 8) path"
    using server_view_holds [of m buf 0 "le_bytes 8 (unat ofs)" srv] server_view_holds [of m buf 8 "path @ [0]" srv] assms(2,3) i(13) by (simp_all add: holds_str_def)
  have sz: "length path + 4 < unat (26 :: u64)" "length path + 8 < 4096" "(26 :: u64) \<le> 4096" using i(13) by simp_all
  obtain srv' n where r: "handle_file_load_page_query ramfs ck 26 RAMFS_BUFFER ?v = Some (srv', [(ck, of_nat n)])" "n = ?n"
    "holds srv' RAMFS_BUFFER (take n (drop (unat ofs) content))"
    using ramfs_serves [OF i(1-3) img i(5-12), of 26 ck ofs] msg sz assms(4) by blast
  let ?m' = "\<lambda>a. if unat (a - buf) < 4096 then srv' (RAMFS_BUFFER + (a - buf)) else m a"
  have n0: "(of_nat ?n :: u64) \<noteq> 0" unfolding word_of_nat_eq_0_iff using assms(4) by (auto dest!: dvd_imp_le)
  have "agree (region buf 4096) m ?m'"
  proof -
    have "a \<in> region buf 4096" if "unat (a - buf) < 4096" for a using in_region [OF that, of buf] by simp
    then show ?thesis by (auto simp: agree_def)
  qed
  moreover have "holds ?m' buf (take n (drop (unat ofs) content))" unfolding holds_def
  proof (intro allI impI)
    fix j assume j: "j < length (take n (drop (unat ofs) content))"
    then have "unat (of_nat j :: u64) = j" "j < 4096" using r(2) by (simp_all add: unat_of_nat)
    then show "?m' (buf + of_nat j) = take n (drop (unat ofs) content) ! j" using r(3) j by (simp add: holds_def)
  qed
  moreover have "file_server ramfs srv ck SYS_VFS_TAG_LOAD_PAGE 26 buf m = Some (?m', True, of_nat n)"
    using r(1) n0 unfolding r(2) by (simp add: file_server_def ramfs_driver_step_def SYS_VFS_TAG_LOAD_PAGE_def Let_def)
  ultimately show ?thesis using r(2) n0 by (intro exI [of _ ?m'] exI [of _ n]) simp
qed

section \<open>Filling a segment\<close>

lemma phdr_fields_agree:
  assumes "agree R m m'" "region phdr 56 \<inter> R = {}"
  shows "p_offset m' phdr = p_offset m phdr" "p_vaddr m' phdr = p_vaddr m phdr" "p_filesz m' phdr = p_filesz m phdr" "p_memsz m' phdr = p_memsz m phdr"
proof -
  have "load_u64 m' (phdr + of_nat d) = load_u64 m (phdr + of_nat d)" if "d + 8 \<le> 56" for d
    using agree_load [OF assms(1), of "phdr + of_nat d"] region_sub [OF that, of phdr] assms(2) by blast
  from this [of 8] this [of 16] this [of 32] this [of 40]
  show "p_offset m' phdr = p_offset m phdr" "p_vaddr m' phdr = p_vaddr m phdr" "p_filesz m' phdr = p_filesz m phdr" "p_memsz m' phdr = p_memsz m phdr"
    by (simp_all add: p_offset_def p_vaddr_def p_filesz_def p_memsz_def)
qed

lemma name_field_full_str: "0 \<notin> set s \<Longrightarrow> length s < n \<Longrightarrow> holds m p (name_field n n s) \<Longrightarrow> holds_str m p s"
  by (cases "n - length s") (auto simp: name_field_def holds_str_def)

lemma serves_path: "serves ramfs srv content path \<Longrightarrow> length path \<le> 21"
  by (auto simp: serves_def)

lemma agree_store_u64: "agree (region p 8) m (store_u64 p v m)"
  by (simp add: agree_def store_u64_other)

lemma segment_message:
  assumes "serves ramfs srv content path" "0 \<notin> set path" "m' = store_bytes (buf + 8) (name_field 1024 1024 path) (store_u64 buf ofs m)"
  shows "holds m' buf (le_bytes 8 (unat ofs))" "holds_str m' (buf + 8) path" "agree (region buf 4096) m m'"
proof -
  define nf where "nf = name_field 1024 1024 path"
  have l: "length nf = 1024" unfolding nf_def by (rule length_name_field) simp
  have m': "m' = store_bytes (buf + 8) nf (store_u64 buf ofs m)" unfolding assms(3) nf_def ..
  have a: "agree (region (buf + 8) 1024) (store_u64 buf ofs m) m'" using agree_store [of "buf + 8" nf "store_u64 buf ofs m"] unfolding m' l .
  have sub: "region buf 8 \<subseteq> region buf 4096" "region (buf + 8) 1024 \<subseteq> region buf 4096" using region_sub [of 0 8 4096 buf] region_sub [of 8 1024 4096 buf] by simp_all
  show "agree (region buf 4096) m m'" by (rule agree_trans [OF agree_mono [OF agree_store_u64 sub(1)] agree_mono [OF a sub(2)]])
  have "region buf 8 \<inter> region (buf + 8) 1024 = {}" using region_apart [of 8 1024 buf] by simp
  moreover have "holds (store_u64 buf ofs m) buf (le_bytes 8 (unat ofs))" unfolding store_u64_def by (rule store_bytes_holds) simp
  ultimately show "holds m' buf (le_bytes 8 (unat ofs))" using agree_holds [OF a, of buf "le_bytes 8 (unat ofs)"] unfolding length_le_bytes by blast
  have "holds m' (buf + 8) nf" unfolding m' by (rule store_bytes_holds) (simp add: l)
  then show "holds_str m' (buf + 8) path" using name_field_full_str [OF assms(2), of 1024] serves_path [OF assms(1)] unfolding nf_def by simp
qed

lemma holds_shorter: "holds m p (take b xs) \<Longrightarrow> a \<le> b \<Longrightarrow> holds m p (take a xs)"
  by (auto simp: holds_def)

lemma segment_loop_ok:
  assumes "serves ramfs srv content path" "0 \<notin> set path"
    and "p_offset m phdr = ofs" "p_vaddr m phdr = va" "p_filesz m phdr = fs" "unat ofs + unat fs \<le> length content" "length content < 18446744073709551616"
    and "unat fs \<le> 4096 * K" "4096 * K \<le> 18446744073709551616" "region phdr 56 \<inter> region va (4096 * K) = {}"
    and "j \<le> K" "4096 * j \<le> unat fs + 4096" "holds m va (take (4096 * j) (drop (unat ofs) content))"
  shows "\<exists>m'. segment_loop (file_server ramfs srv) ck path phdr (4096 * j) m = Some (m', True) \<and> holds m' va (take (unat fs) (drop (unat ofs) content)) \<and> agree (region va (4096 * K)) m m'"
  using assms
proof (induction "K - j" arbitrary: j m)
  case 0
  then have "j = K" by simp
  moreover have "holds m va (take (unat fs) (drop (unat ofs) content))"
    using holds_shorter [OF 0(14)] 0(9) \<open>j = K\<close> by simp
  ultimately show ?case using 0 by (subst segment_loop.simps) auto
next
  case (Suc d)
  let ?D = "drop (unat ofs) content" and ?buf = "va + of_nat (4096 * j)" and ?o = "of_nat (4096 * j) + ofs"
  show ?case
  proof (cases "4096 * j < unat fs")
    case False
    then have "holds m va (take (unat fs) ?D)" using holds_shorter [OF Suc.prems(13)] by simp
    then show ?thesis using False Suc.prems by (subst segment_loop.simps) auto
  next
    case True
    define m1 where "m1 = store_bytes (?buf + 8) (name_field 1024 1024 path) (store_u64 ?buf ?o m)"
    note msg = segment_message [OF Suc.prems(1,2) m1_def]
    have uo: "unat ?o = unat ofs + 4096 * j" using True Suc.prems(6,7) unat_add_lem [of "of_nat (4096 * j)" ofs] unat_of_nat [of "4096 * j", where ?'a = 64] by (simp del: of_nat_mult)
    then have "unat ?o < length content" using True Suc.prems(6) by simp
    from file_server_page [OF Suc.prems(1) msg(1,2) this, of ck] obtain m2 n where
      s: "file_server ramfs srv ck SYS_VFS_TAG_LOAD_PAGE 26 ?buf m1 = Some (m2, True, of_nat n)" "(of_nat n :: u64) \<noteq> 0"
      "n = min 4096 (length content - unat ?o)" "holds m2 ?buf (take n (drop (unat ?o) content))" "agree (region ?buf 4096) m1 m2" by blast
    have ag: "agree (region ?buf 4096) m m2" using agree_trans [OF msg(3) s(5)] .
    have Kj: "4096 * j + 4096 \<le> 4096 * K" using Suc(2) by simp
    have sub: "region ?buf 4096 \<subseteq> region va (4096 * K)" using region_sub [OF Kj, of va] .
    then have ph: "region phdr 56 \<inter> region ?buf 4096 = {}" using Suc.prems(10) by blast
    have lt: "length (take (4096 * j) ?D) = 4096 * j" using True Suc.prems(6) by simp
    have "region va (4096 * j) \<inter> region ?buf 4096 = {}" using region_apart [of "4096 * j" 4096 va] Kj Suc.prems(9) by simp
    then have h1: "holds m2 va (take (4096 * j) ?D)" using agree_holds [OF ag, of va "take (4096 * j) ?D"] Suc.prems(13) lt by simp
    have h2: "holds m2 ?buf (take 4096 (drop (4096 * j) ?D))"
      using s(4) unfolding s(3) uo by (simp add: min_def add.commute split: if_splits)
    have "take (4096 * Suc j) ?D = take (4096 * j) ?D @ take 4096 (drop (4096 * j) ?D)" using take_add [of "4096 * j" 4096 ?D] by (simp add: add.commute)
    then have h: "holds m2 va (take (4096 * Suc j) ?D)" using h1 h2 lt by simp
    have "d = K - Suc j" "Suc j \<le> K" "4096 * Suc j \<le> unat fs + 4096" using Suc(2) True by simp_all
    from Suc.hyps(1) [OF this(1) Suc.prems(1,2) _ _ _ Suc.prems(6-10) this(2,3) h] obtain m3 where
      r: "segment_loop (file_server ramfs srv) ck path phdr (4096 * Suc j) m2 = Some (m3, True)" "holds m3 va (take (unat fs) ?D)" "agree (region va (4096 * K)) m2 m3"
      using phdr_fields_agree [OF ag ph] Suc.prems(3-5) by metis
    have "segment_loop (file_server ramfs srv) ck path phdr (4096 * j) m = Some (m3, True)"
      using True Suc.prems(3-5) s(1,2) r(1) by (subst segment_loop.simps) (simp add: Let_def m1_def add.commute)
    then show ?thesis using r(2) agree_trans [OF agree_mono [OF ag sub] r(3)] by blast
  qed
qed

text \<open>The result of mapping memory at an address, as the loader relies on it: it succeeds with the address, and nothing else changes.\<close>

definition pages_for :: "u64 \<Rightarrow> nat" where
  "pages_for sz = (unat sz + 4095) div 4096"

definition maps_at :: "(u64 \<Rightarrow> u64 \<Rightarrow> mem \<Rightarrow> mem \<times> bool \<times> u64) \<Rightarrow> u64 \<Rightarrow> u64 \<Rightarrow> bool" where
  "maps_at map_virtual sz va \<longleftrightarrow> (\<forall>m. \<exists>m'. map_virtual sz va m = (m', True, va) \<and> agree (region va (4096 * pages_for sz)) m m')"

lemma pages_for_le: "unat sz \<le> 4096 * pages_for sz"
  unfolding pages_for_def by (simp add: minus_mod_eq_mult_div [symmetric])

lemma on_program_header_ok:
  assumes "serves ramfs srv content path" "0 \<notin> set path" "rd_filename r = path" "length content < 18446744073709551616"
    and "p_offset m phdr = ofs" "p_vaddr m phdr = va" "p_filesz m phdr = fs" "p_memsz m phdr = ms"
    and "ofs AND (VM_PAGE_SIZE - 1) = 0" "va AND (VM_PAGE_SIZE - 1) = 0" "va \<noteq> 0" "unat ofs + unat fs \<le> length content" "fs \<le> ms"
    and "maps_at map_virtual ms va" "4096 * pages_for ms \<le> 18446744073709551616" "region phdr 56 \<inter> region va (4096 * pages_for ms) = {}"
  shows "\<exists>m'. on_program_header (file_server ramfs srv) map_virtual ck r phdr m = Some (m', True)
    \<and> holds m' va (take (unat fs) (drop (unat ofs) content)) \<and> agree (region va (4096 * pages_for ms)) m m'"
proof -
  let ?R = "region va (4096 * pages_for ms)"
  obtain m1 where m1: "map_virtual ms va m = (m1, True, va)" "agree ?R m m1" using assms(14) unfolding maps_at_def by blast
  note f = phdr_fields_agree [OF m1(2) assms(16), unfolded assms(5-8)]
  have le: "unat fs \<le> unat ms" using assms(13) by (simp add: word_le_nat_alt)
  show ?thesis
  proof (cases "fs = 0")
    case True
    let ?m = "store_bytes va (replicate (unat ms) 0) m1"
    have "region va (unat ms) \<subseteq> ?R" using region_sub [of 0 "unat ms" "4096 * pages_for ms" va] pages_for_le by simp
    then have "agree ?R m1 ?m" using agree_mono [OF agree_store, of va "replicate (unat ms) 0"] by simp
    moreover have "on_program_header (file_server ramfs srv) map_virtual ck r phdr m = Some (?m, True)"
      using True m1(1) f assms(5-11) by (simp add: on_program_header_def)
    ultimately show ?thesis using True agree_trans [OF m1(2)] by auto
  next
    case False
    have "unat fs \<le> 4096 * pages_for ms" using le pages_for_le [of ms] by linarith
    from segment_loop_ok [OF assms(1,2) f(1-3) assms(12,4) this assms(15,16), of 0 ck]
    obtain m' where "segment_loop (file_server ramfs srv) ck path phdr 0 m1 = Some (m', True)"
      "holds m' va (take (unat fs) (drop (unat ofs) content))" "agree ?R m1 m'" by auto
    moreover have "0 < fs" using False by (simp add: word_greater_zero_iff)
    ultimately show ?thesis using m1 f assms(3,5-11) agree_trans [OF m1(2)] by (auto simp: on_program_header_def)
  qed
qed

section \<open>The file's headers\<close>

text \<open>The file as a memory that starts at address 0, for the fields of its headers; the headers are in its first page.\<close>

definition as_mem :: "u8 list \<Rightarrow> mem" where
  "as_mem content a = (if unat a < length content then content ! unat a else 0)"

definition ph_at :: "u8 list \<Rightarrow> nat \<Rightarrow> u64" where
  "ph_at content i = e_phoff (as_mem content) 0 + of_nat i * ucast (e_phentsize (as_mem content) 0)"

definition elf_headers :: "u8 list \<Rightarrow> bool" where
  "elf_headers content \<longleftrightarrow> 64 \<le> length content \<and> length content < 18446744073709551616
     \<and> bytes_at 4 (as_mem content) 0 = [0x7f, 0x45, 0x4c, 0x46] \<and> as_mem content 4 = 2
     \<and> (\<forall>i < unat (e_phnum (as_mem content) 0). unat (ph_at content i) + 56 \<le> min 4096 (length content))"

definition is_load :: "u8 list \<Rightarrow> nat \<Rightarrow> bool" where
  "is_load content i \<longleftrightarrow> i < unat (e_phnum (as_mem content) 0) \<and> p_type (as_mem content) (ph_at content i) = PT_LOAD"

definition seg_vaddr :: "u8 list \<Rightarrow> nat \<Rightarrow> u64" where
  "seg_vaddr content i = p_vaddr (as_mem content) (ph_at content i)"

definition seg_memsz :: "u8 list \<Rightarrow> nat \<Rightarrow> u64" where
  "seg_memsz content i = p_memsz (as_mem content) (ph_at content i)"

definition seg_region :: "u8 list \<Rightarrow> nat \<Rightarrow> u64 set" where
  "seg_region content i = region (seg_vaddr content i) (4096 * pages_for (seg_memsz content i))"

text \<open>The bytes of the file that a segment holds.\<close>

definition seg_bytes :: "u8 list \<Rightarrow> nat \<Rightarrow> u8 list" where
  "seg_bytes content i = take (unat (p_filesz (as_mem content) (ph_at content i))) (drop (unat (p_offset (as_mem content) (ph_at content i))) content)"

definition good_segment :: "u8 list \<Rightarrow> nat \<Rightarrow> bool" where
  "good_segment content i \<longleftrightarrow>
     (let ph = ph_at content i; F = as_mem content
      in p_offset F ph AND (VM_PAGE_SIZE - 1) = 0 \<and> p_vaddr F ph AND (VM_PAGE_SIZE - 1) = 0 \<and> p_vaddr F ph \<noteq> 0
         \<and> unat (p_offset F ph) + unat (p_filesz F ph) \<le> length content \<and> p_filesz F ph \<le> p_memsz F ph
         \<and> 4096 * pages_for (p_memsz F ph) \<le> 18446744073709551616)"

lemma as_mem_holds: "length content \<le> 18446744073709551616 \<Longrightarrow> holds (as_mem content) 0 content"
  by (simp add: holds_def as_mem_def unat_of_nat)

text \<open>What is read from the page is what the file has there.\<close>

lemma page_bytes:
  assumes "holds m page (take 4096 content)" "length content < 18446744073709551616" "unat (d :: u64) + k \<le> min 4096 (length content)"
  shows "bytes_at k m (page + d) = bytes_at k (as_mem content) d"
proof -
  have "k \<le> 4096 - unat d" using assms(3) by auto
  then have t: "take k (drop (unat d) (take 4096 content)) = take k (drop (unat d) content)" by (simp add: drop_take min_absorb1)
  have "holds m (page + of_nat (unat d)) (take k (drop (unat d) content))" using holds_take_drop [OF assms(1), of "unat d" k] assms(3) unfolding t by simp
  moreover have "holds (as_mem content) (0 + of_nat (unat d)) (take k (drop (unat d) content))"
    by (rule holds_take_drop [OF as_mem_holds]) (use assms(2,3) in simp_all)
  moreover have "length (take k (drop (unat d) content)) = k" using assms(3) by auto
  ultimately have "bytes_at k m (page + d) = take k (drop (unat d) content)" "bytes_at k (as_mem content) d = take k (drop (unat d) content)"
    by (simp_all add: bytes_at_holds)
  then show ?thesis by simp
qed

lemma ehdr_fields:
  assumes "holds m page (take 4096 content)" "elf_headers content"
  shows "e_entry m page = e_entry (as_mem content) 0" "e_phoff m page = e_phoff (as_mem content) 0" "e_phentsize m page = e_phentsize (as_mem content) 0"
    "e_phnum m page = e_phnum (as_mem content) 0" "bytes_at 4 m page = [0x7f, 0x45, 0x4c, 0x46]" "m (page + 4) = 2"
proof -
  have l: "length content < 18446744073709551616" "64 \<le> length content" using assms(2) by (simp_all add: elf_headers_def)
  note b = page_bytes [OF assms(1) l(1)]
  show "e_entry m page = e_entry (as_mem content) 0" "e_phoff m page = e_phoff (as_mem content) 0" "e_phentsize m page = e_phentsize (as_mem content) 0"
    "e_phnum m page = e_phnum (as_mem content) 0"
    using b [of 24 8] b [of 32 8] b [of 54 2] b [of 56 2] l(2) by (simp_all add: e_entry_def e_phoff_def e_phentsize_def e_phnum_def load_u64_def load_u16_def)
  show "bytes_at 4 m page = [0x7f, 0x45, 0x4c, 0x46]" using b [of 0 4] l(2) assms(2) by (simp add: elf_headers_def)
  have "bytes_at (Suc 0) m (page + 4) = bytes_at (Suc 0) (as_mem content) 4" using b [of 4 "Suc 0"] l(2) by simp
  then show "m (page + 4) = 2" using assms(2) by (simp add: elf_headers_def)
qed

lemma phdr_fields:
  assumes "holds m page (take 4096 content)" "length content < 18446744073709551616" "unat ph + 56 \<le> min 4096 (length content)"
  shows "p_type m (page + ph) = p_type (as_mem content) ph" "p_offset m (page + ph) = p_offset (as_mem content) ph" "p_vaddr m (page + ph) = p_vaddr (as_mem content) ph"
    "p_filesz m (page + ph) = p_filesz (as_mem content) ph" "p_memsz m (page + ph) = p_memsz (as_mem content) ph"
proof -
  have u: "unat (ph + of_nat d) = unat ph + d" if "d \<le> 56" for d
    using that assms(3) unat_add_lem [of ph "of_nat d"] by (simp add: unat_of_nat)
  have b: "bytes_at k m (page + ph + of_nat d) = bytes_at k (as_mem content) (ph + of_nat d)" if "d + k \<le> 56" for d k
    using page_bytes [OF assms(1,2), of "ph + of_nat d" k] u [of d] that assms(3) by (simp add: add.assoc)
  show "p_type m (page + ph) = p_type (as_mem content) ph" "p_offset m (page + ph) = p_offset (as_mem content) ph" "p_vaddr m (page + ph) = p_vaddr (as_mem content) ph"
    "p_filesz m (page + ph) = p_filesz (as_mem content) ph" "p_memsz m (page + ph) = p_memsz (as_mem content) ph"
    using b [of 0 4] b [of 8 8] b [of 16 8] b [of 32 8] b [of 40 8]
    by (simp_all add: p_type_def p_offset_def p_vaddr_def p_filesz_def p_memsz_def load_u64_def load_u32_def)
qed

section \<open>Mapping the file\<close>

lemma low_masks:
  assumes "unat (a :: u64) < 4096"
  shows "a AND (VM_PAGE_SIZE - 1) = a" "a AND NOT (VM_PAGE_SIZE - 1) = 0"
proof -
  have m: "VM_PAGE_SIZE - 1 = (mask 12 :: u64)" by (simp add: VM_PAGE_SIZE_def mask_eq_exp_minus_1)
  have "a = take_bit 12 a" using assms by (simp add: u64_eq_iff take_bit_eq_mod unat_mod)
  then have e: "a AND mask 12 = a" by (simp add: take_bit_eq_mask)
  then show "a AND (VM_PAGE_SIZE - 1) = a" unfolding m .
  have "(a AND mask 12) AND NOT (mask 12) = 0" unfolding and.assoc bit.conj_cancel_right by simp
  then show "a AND NOT (VM_PAGE_SIZE - 1) = 0" unfolding m e .
qed

lemma get_ptr_first_page:
  assumes "rd_current_page_offset r = 0" "unat d + sz \<le> 4096" "unat d < 4096"
  shows "get_ptr send temp d sz (r, m) = Loaded ((r, m), rd_page r + d)"
  using assms low_masks [OF assms(3)] by (simp add: get_ptr_def load_page_def VM_PAGE_SIZE_def)

text \<open>What the loader needs of the file and of the place of its page: headers in the first page, sound segments that share no address with each other or the page, and memory
  for them.\<close>

definition can_load :: "(u64 \<Rightarrow> u64 \<Rightarrow> mem \<Rightarrow> mem \<times> bool \<times> u64) \<Rightarrow> u64 \<Rightarrow> u8 list \<Rightarrow> bool" where
  "can_load map_virtual page content \<longleftrightarrow> elf_headers content \<and> 0 \<notin> region page 4096
     \<and> (\<forall>i. is_load content i \<longrightarrow> good_segment content i \<and> maps_at map_virtual (seg_memsz content i) (seg_vaddr content i) \<and> seg_region content i \<inter> region page 4096 = {}
          \<and> (\<forall>j. is_load content j \<and> j \<noteq> i \<longrightarrow> seg_region content j \<inter> seg_region content i = {}))"

definition segments_loaded :: "u8 list \<Rightarrow> nat \<Rightarrow> mem \<Rightarrow> bool" where
  "segments_loaded content n m \<longleftrightarrow> (\<forall>i < n. is_load content i \<longrightarrow> holds m (seg_vaddr content i) (seg_bytes content i))"

lemma seg_bytes_region:
  assumes "good_segment content i"
  shows "region (seg_vaddr content i) (length (seg_bytes content i)) \<subseteq> seg_region content i"
proof -
  have "length (seg_bytes content i) \<le> unat (seg_memsz content i)" using assms by (auto simp: good_segment_def seg_bytes_def seg_memsz_def word_le_nat_alt Let_def intro: min.coboundedI2)
  then have "length (seg_bytes content i) \<le> 4096 * pages_for (seg_memsz content i)" using pages_for_le [of "seg_memsz content i"] by linarith
  then show ?thesis unfolding seg_region_def using region_sub [of 0 "length (seg_bytes content i)" _ "seg_vaddr content i"] by simp
qed

lemma load_segment:
  assumes srv: "serves ramfs srv content path" "0 \<notin> set path" "rd_filename r = path" and can: "can_load map_virtual page content"
    and i: "is_load content i" and m: "holds m page (take 4096 content)" "segments_loaded content i m"
  shows "\<exists>m'. on_program_header (file_server ramfs srv) map_virtual ck r (page + ph_at content i) m = Some (m', True)
    \<and> holds m' page (take 4096 content) \<and> segments_loaded content (Suc i) m' \<and> agree (seg_region content i) m m'"
proof -
  let ?ph = "ph_at content i" and ?F = "as_mem content"
  have h: "elf_headers content" "good_segment content i" "maps_at map_virtual (seg_memsz content i) (seg_vaddr content i)" "seg_region content i \<inter> region page 4096 = {}"
    using can i by (simp_all add: can_load_def)
  have l: "length content < 18446744073709551616" "unat ?ph + 56 \<le> min 4096 (length content)" using h(1) i by (simp_all add: elf_headers_def is_load_def)
  note f = phdr_fields [OF m(1) l]
  have "region (page + of_nat (unat ?ph)) 56 \<subseteq> region page 4096" by (rule region_sub) (use l(2) in simp)
  then have sub: "region (page + ?ph) 56 \<inter> region (p_vaddr ?F ?ph) (4096 * pages_for (p_memsz ?F ?ph)) = {}"
    using h(4) by (auto simp: seg_region_def seg_vaddr_def seg_memsz_def)
  obtain m' where m': "on_program_header (file_server ramfs srv) map_virtual ck r (page + ?ph) m = Some (m', True)"
    "holds m' (seg_vaddr content i) (seg_bytes content i)" "agree (seg_region content i) m m'"
    using on_program_header_ok [OF srv l(1) f(2-5) _ _ _ _ _ _ _ sub, of map_virtual ck] h(2,3)
    unfolding good_segment_def seg_bytes_def seg_region_def seg_vaddr_def seg_memsz_def Let_def by blast
  have tl: "length (take 4096 content) \<le> 4096" by simp
  have "region page (length (take 4096 content)) \<subseteq> region page 4096" using region_sub [of 0 "length (take 4096 content)" 4096 page] tl by simp
  then have "holds m' page (take 4096 content)" using agree_holds [OF m'(3) _ m(1)] h(4) by blast
  moreover have "holds m' (seg_vaddr content j) (seg_bytes content j)" if j: "j < Suc i" "is_load content j" for j
  proof (cases "j = i")
    case False
    then have "seg_region content j \<inter> seg_region content i = {}" "good_segment content j" using can i j(2) by (auto simp: can_load_def)
    then have "region (seg_vaddr content j) (length (seg_bytes content j)) \<inter> seg_region content i = {}" using seg_bytes_region by blast
    then show ?thesis using agree_holds [OF m'(3)] m(2) j False by (simp add: segments_loaded_def)
  qed (use m'(2) in simp)
  ultimately show ?thesis using m'(1,3) by (auto simp: segments_loaded_def)
qed

lemma map_headers_ok:
  assumes srv: "serves ramfs srv content path" "0 \<notin> set path" "rd_filename r = path" and can: "can_load map_virtual page content"
    and r: "rd_page r = page" "rd_current_page_offset r = 0"
    and m: "i \<le> unat (e_phnum (as_mem content) 0)" "holds m page (take 4096 content)" "segments_loaded content i m"
  shows "\<exists>m'. map_headers (file_server ramfs srv) temp (on_program_header (file_server ramfs srv) map_virtual ck) page ent i (r, m) = Loaded ((r, m'), ent)
    \<and> segments_loaded content (unat (e_phnum (as_mem content) 0)) m' \<and> agree (\<Union>j \<in> Collect (is_load content). seg_region content j) m m'"
  using m
proof (induction "unat (e_phnum (as_mem content) 0) - i" arbitrary: i m)
  case 0
  then have "i = unat (e_phnum (as_mem content) 0)" by simp
  moreover have "e_phnum m page = e_phnum (as_mem content) 0" using ehdr_fields(4) [OF 0(3)] can by (simp add: can_load_def)
  ultimately show ?case using 0(4) by (subst map_headers.simps) (intro exI [of _ m], simp)
next
  case (Suc d)
  let ?n = "unat (e_phnum (as_mem content) 0)" and ?ph = "ph_at content i" and ?R = "\<Union>j \<in> Collect (is_load content). seg_region content j"
  let ?h = "on_program_header (file_server ramfs srv) map_virtual ck"
  have i: "i < ?n" "d = ?n - Suc i" using Suc(2) by simp_all
  have hd: "elf_headers content" "0 \<notin> region page 4096" using can by (simp_all add: can_load_def)
  then have l: "length content < 18446744073709551616" "unat ?ph + 56 \<le> min 4096 (length content)" using i(1) by (simp_all add: elf_headers_def)
  note e = ehdr_fields [OF Suc.prems(2) hd(1)]
  have gp: "get_ptr (file_server ramfs srv) temp ?ph 56 (r, m) = Loaded ((r, m), page + ?ph)"
    using get_ptr_first_page [OF r(2), of ?ph 56] l(2) r(1) by simp
  have nn: "page + ?ph \<noteq> 0" using in_region [of "unat ?ph" 4096 page] l(2) hd(2) by auto
  have ty: "p_type m (page + ?ph) = p_type (as_mem content) ?ph" by (rule phdr_fields(1) [OF Suc.prems(2) l])
  have ev: "map_headers (file_server ramfs srv) temp ?h page ent i (r, m) =
      (if \<not> is_load content i then map_headers (file_server ramfs srv) temp ?h page ent (Suc i) (r, m)
       else case ?h r (page + ?ph) m of None \<Rightarrow> Never
            | Some (m, ok) \<Rightarrow> if \<not> ok then Loaded ((r, m), 0) else map_headers (file_server ramfs srv) temp ?h page ent (Suc i) (r, m))"
    using i(1) gp nn ty unfolding ph_at_def by (subst map_headers.simps) (simp add: e Let_def is_load_def ph_at_def split: option.split prod.split)
  show ?case
  proof (cases "is_load content i")
    case False
    then have "segments_loaded content (Suc i) m" using Suc.prems(3) by (auto simp: segments_loaded_def less_Suc_eq)
    from Suc.hyps(1) [OF i(2) _ Suc.prems(2) this] show ?thesis using i(1) ev False by simp
  next
    case True
    obtain m1 where m1: "?h r (page + ?ph) m = Some (m1, True)" "holds m1 page (take 4096 content)" "segments_loaded content (Suc i) m1" "agree (seg_region content i) m m1"
      using load_segment [OF srv can True Suc.prems(2,3), of ck] by blast
    obtain m' where m': "map_headers (file_server ramfs srv) temp ?h page ent (Suc i) (r, m1) = Loaded ((r, m'), ent)" "segments_loaded content ?n m'" "agree ?R m1 m'"
      using Suc.hyps(1) [OF i(2) _ m1(2,3)] i(1) by auto
    have "agree ?R m m1" by (rule agree_mono [OF m1(4)]) (use True in blast)
    then have "agree ?R m m'" using agree_trans m'(3) by blast
    then show ?thesis using ev True m1(1) m'(1,2) by auto
  qed
qed

lemma first_page_read:
  assumes srv: "serves ramfs srv content path" "0 \<notin> set path" "rd_filename r = path" and cur: "rd_current_page_offset r \<noteq> 0" and ne: "content \<noteq> []"
  shows "\<exists>m'. get_ptr (file_server ramfs srv) temp 0 64 (r, m) = Loaded ((r\<lparr>rd_current_page_offset := 0\<rparr>, m'), rd_page r)
    \<and> holds m' (rd_page r) (take 4096 content) \<and> agree (region (rd_page r) 4096) m m'"
proof -
  let ?p = "rd_page r"
  define m1 where "m1 = store_u64 ?p 0 m"
  define m2 where "m2 = store_bytes (?p + 8) (path @ [0]) m1"
  have lp: "length path \<le> 21" by (rule serves_path [OF srv(1)])
  have a: "agree (region (?p + 8) (length (path @ [0]))) m1 m2" unfolding m2_def by (rule agree_store)
  have sub: "region ?p 8 \<subseteq> region ?p 4096" "region (?p + 8) (length (path @ [0])) \<subseteq> region ?p 4096" "region ?p 8 \<inter> region (?p + 8) (length (path @ [0])) = {}"
    using region_sub [of 0 8 4096 ?p] region_sub [of 8 "length (path @ [0])" 4096 ?p] region_apart [of 8 "length (path @ [0])" ?p] lp by simp_all
  have "holds m1 ?p (le_bytes 8 (unat (0 :: u64)))" unfolding m1_def store_u64_def by (rule store_bytes_holds) simp
  then have h1: "holds m2 ?p (le_bytes 8 (unat (0 :: u64)))" using agree_holds [OF a, of ?p "le_bytes 8 (unat (0 :: u64))"] sub(3) unfolding length_le_bytes by blast
  have "holds m2 (?p + 8) (path @ [0])" unfolding m2_def by (rule store_bytes_holds) (use lp in simp)
  then have h2: "holds_str m2 (?p + 8) path" using srv(2) by (simp add: holds_str_def)
  have am: "agree (region ?p 4096) m m2" unfolding m1_def
    by (rule agree_trans [OF agree_mono [OF agree_store_u64 sub(1)] agree_mono [OF a [unfolded m1_def] sub(2)]])
  have "unat (0 :: u64) < length content" using ne by simp
  from file_server_page [OF srv(1) h1 h2 this, of "rd_fs_cookie r"] obtain m' n where
    s: "file_server ramfs srv (rd_fs_cookie r) SYS_VFS_TAG_LOAD_PAGE 26 ?p m2 = Some (m', True, of_nat n)" "n = min 4096 (length content)" "(of_nat n :: u64) \<noteq> 0"
    "holds m' ?p (take n content)" "agree (region ?p 4096) m2 m'" by auto
  have tk: "take n content = take 4096 content" unfolding s(2) by (simp add: min_def)
  have "load_page (file_server ramfs srv) 0 (r, m) = Loaded ((r\<lparr>rd_current_page_offset := 0\<rparr>, m'), VM_PAGE_SIZE)"
    using s(1,3) cur srv(3) by (simp add: load_page_def Let_def m1_def m2_def)
  then have "get_ptr (file_server ramfs srv) temp 0 64 (r, m) = Loaded ((r\<lparr>rd_current_page_offset := 0\<rparr>, m'), ?p)" by (simp add: get_ptr_def VM_PAGE_SIZE_def)
  then show ?thesis using s(4) agree_trans [OF am s(5)] unfolding tk by blast
qed

section \<open>Properties\<close>


text \<open>A program of one segment, its own 120 bytes, on an image with one file.\<close>

definition demo_elf :: "u8 list" where
  "demo_elf = [0x7f, 0x45, 0x4c, 0x46, 2] @ replicate 19 0 @ le_bytes 8 0x20010 @ le_bytes 8 64 @ replicate 14 0 @ le_bytes 2 56 @ le_bytes 2 1 @ replicate 6 0
     @ le_bytes 4 1 @ replicate 4 0 @ le_bytes 8 0 @ le_bytes 8 0x20000 @ le_bytes 8 0 @ le_bytes 8 120 @ le_bytes 8 120 @ le_bytes 8 0"

lemma demo_elf_length [simp]: "length demo_elf = 120"
  by (simp add: demo_elf_def)

definition demo_elf_read :: "string \<Rightarrow> u8 list option" where
  "demo_elf_read path = (if path = ''a'' then Some demo_elf else None)"

definition demo_elf_image :: "u8 list" where
  "demo_elf_image = the (write_filesystem demo_elf_read demo_files)"

definition demo_server :: mem where
  "demo_server a = (if 0x10000 \<le> unat a \<and> unat a - 0x10000 < length demo_elf_image then demo_elf_image ! (unat a - 0x10000) else 0)"

lemma demo_elf_image_ok: "write_filesystem demo_elf_read demo_files = Some demo_elf_image" "length demo_elf_image = 8192"
proof -
  have "\<exists>img. write_filesystem demo_elf_read demo_files = Some img \<and> length img = 8192"
    by (simp add: write_filesystem_def demo_files_def demo_elf_read_def Let_def PAGE_SIZE_def patch_def zero_file_header_def file_header_bytes_def name_field_def)
  then show "write_filesystem demo_elf_read demo_files = Some demo_elf_image" "length demo_elf_image = 8192" by (auto simp: demo_elf_image_def)
qed

lemma demo_serves: "serves 0x10000 demo_server demo_elf [98, 58, 97]"
proof -
  have u: "unat (0x10000 + of_nat i :: u64) = 0x10000 + i" if "i < 8192" for i
    using that unat_add_lem [of "0x10000 :: u64" "of_nat i"] by (simp add: unat_of_nat)
  have h: "holds demo_server 0x10000 demo_elf_image" using u demo_elf_image_ok(2) by (auto simp: holds_def demo_server_def)
  have f: "\<forall>f \<in> set demo_files. demo_elf_read (if_path f) \<noteq> None \<and> good_name (if_name f)" "distinct (map if_name demo_files)" "0 < length demo_files"
    "demo_elf = content_of demo_elf_read (demo_files ! 0)" "[98, 58, 97] = [98] @ [58] @ replicate 0 47 @ if_name (demo_files ! 0)"
    by (simp_all add: demo_files_def demo_elf_read_def good_name_def)
  have d: "region RAMFS_BUFFER 4096 \<inter> (region 0x10000 (length demo_elf_image) \<union> {0}) = {}" by (auto simp: demo_elf_image_ok(2) RAMFS_BUFFER_def region_unat)
  have s: "unat (0x10000 :: u64) + length demo_elf_image < 18446744073709551616" "(0x10000 :: u64) \<noteq> 0" "[98] \<noteq> ([] :: u8 list)" "58 \<notin> set [98 :: u8]" "length [98, 58, 97 :: u8] \<le> 21"
    by (simp_all add: demo_elf_image_ok(2))
  show ?thesis unfolding serves_def using demo_elf_image_ok(1) f h d s by blast
qed

lemma demo_elf_fields:
  defines "F \<equiv> as_mem demo_elf"
  shows "e_entry F 0 = 0x20010" "e_phoff F 0 = 64" "e_phentsize F 0 = 56" "e_phnum F 0 = 1" "bytes_at 4 F 0 = [0x7f, 0x45, 0x4c, 0x46]" "F 4 = 2"
    "p_type F 64 = 1" "p_offset F 64 = 0" "p_vaddr F 64 = 0x20000" "p_filesz F 64 = 120" "p_memsz F 64 = 120"
proof -
  have "holds F 0 demo_elf" unfolding F_def by (rule as_mem_holds) simp
  then have h: "holds F 0 [0x7f, 0x45, 0x4c, 0x46]" "F 4 = 2" "holds F 24 (le_bytes 8 0x20010)" "holds F 32 (le_bytes 8 64)" "holds F 54 (le_bytes 2 56)" "holds F 56 (le_bytes 2 1)"
    "holds F 64 (le_bytes 4 1)" "holds F 72 (le_bytes 8 0)" "holds F 80 (le_bytes 8 0x20000)" "holds F 96 (le_bytes 8 120)" "holds F 104 (le_bytes 8 120)"
    unfolding demo_elf_def by simp_all
  show "bytes_at 4 F 0 = [0x7f, 0x45, 0x4c, 0x46]" "F 4 = 2" using h(1,2) bytes_at_holds [of 4 F 0 "[0x7f, 0x45, 0x4c, 0x46]"] by simp_all
  have w: "bytes_at 8 F p = le_bytes 8 n" if "holds F p (le_bytes 8 n)" for p n using that by (simp add: bytes_at_holds)
  have w2: "bytes_at 2 F p = le_bytes 2 n" if "holds F p (le_bytes 2 n)" for p n using that by (simp add: bytes_at_holds)
  have w4: "bytes_at 4 F p = le_bytes 4 n" if "holds F p (le_bytes 4 n)" for p n using that by (simp add: bytes_at_holds)
  show "e_entry F 0 = 0x20010" "e_phoff F 0 = 64" "p_offset F 64 = 0" "p_vaddr F 64 = 0x20000" "p_filesz F 64 = 120" "p_memsz F 64 = 120"
    using w [OF h(3)] w [OF h(4)] w [OF h(8)] w [OF h(9)] w [OF h(10)] w [OF h(11)]
    by (simp_all add: e_entry_def e_phoff_def p_offset_def p_vaddr_def p_filesz_def p_memsz_def load_u64_def)
  show "e_phentsize F 0 = 56" "e_phnum F 0 = 1" using w2 [OF h(5)] w2 [OF h(6)] by (simp_all add: e_phentsize_def e_phnum_def load_u16_def)
  show "p_type F 64 = 1" using w4 [OF h(7)] by (simp add: p_type_def load_u32_def)
qed

lemma demo_can_load: "can_load (\<lambda>sz va m. (m, True, va)) 0x8000 demo_elf" "is_load demo_elf i \<longleftrightarrow> i = 0" "ph_at demo_elf 0 = 64"
proof -
  note f = demo_elf_fields
  show ph: "ph_at demo_elf 0 = 64" by (simp add: ph_at_def f)
  show il: "is_load demo_elf i \<longleftrightarrow> i = 0" for i using ph by (auto simp: is_load_def f PT_LOAD_def)
  have hd: "elf_headers demo_elf" using ph by (simp add: elf_headers_def f)
  have g: "good_segment demo_elf 0" by (simp add: good_segment_def ph f pages_for_def VM_PAGE_SIZE_def)
  have "maps_at (\<lambda>sz va m. (m, True, va)) sz va" for sz va by (simp add: maps_at_def)
  moreover have "seg_region demo_elf 0 \<inter> region 0x8000 4096 = {}" by (auto simp: seg_region_def seg_vaddr_def seg_memsz_def ph f pages_for_def region_unat)
  moreover have "(0 :: u64) \<notin> region 0x8000 4096" by (simp add: region_unat)
  ultimately show "can_load (\<lambda>sz va m. (m, True, va)) 0x8000 demo_elf" using hd g il by (auto simp: can_load_def)
qed


end
