(* ===== verification/Init_Stack.thy ===== *)
theory Init_Stack
  imports User_Memory
begin

text \<open>
  The initial stack that SYSTEM builds for a new process, \<^verbatim>\<open>system/process.c\<close>: capabilities and arguments, laid out from the top down in a page of
  SYSTEM's own memory and addressed as the new process will see them. The pages that the kernel maps for the buffers and the address of the stack frame, from
  which the addresses of the buffers are made, are arguments; a mapped page is zero. \<open>None\<close> is an access through a null pointer.
\<close>

section \<open>Constants and data\<close>

definition MAX_ARG_LENGTH :: nat where
  "MAX_ARG_LENGTH = 256"

definition MAX_ARG_COUNT :: u16 where
  "MAX_ARG_COUNT = 512"

definition INIT_STACK_STATIC_VALUE_COUNT :: u64 where
  "INIT_STACK_STATIC_VALUE_COUNT = 4"

definition SYSTEM_MAX_STACK_VALUE_COUNT :: u64 where
  "SYSTEM_MAX_STACK_VALUE_COUNT = (33 - 1) * VM_PAGE_SIZE div 8"

record InitStackValues =
  iv_value_count :: u64
  iv_data :: u64
  iv_allocated_size :: u64
  iv_argv_buffer :: u64
  iv_stack_buffer :: u64

definition round_up_to_page_size :: "u64 \<Rightarrow> u32" where
  "round_up_to_page_size sz = ucast ((sz + VM_PAGE_SIZE - 1) AND NOT (VM_PAGE_SIZE - 1))"

definition round_up_to_machine_word_size :: "u64 \<Rightarrow> u32" where
  "round_up_to_machine_word_size sz = ucast ((sz + 8 - 1) AND NOT (8 - 1))"

section \<open>Building\<close>

definition map_zero_page :: "u64 \<Rightarrow> mem \<Rightarrow> mem" where
  "map_zero_page p m a = (if unat (a - p) < 4096 then 0 else m a)"

definition arg_at :: "mem \<Rightarrow> u64 \<Rightarrow> nat \<Rightarrow> u64" where
  "arg_at m argv i = load_u64 m (argv + 8 * of_nat i)"

fun argv_length :: "mem \<Rightarrow> u64 \<Rightarrow> nat list \<Rightarrow> u64 \<Rightarrow> u64" where
  "argv_length m argv [] len = len"
| "argv_length m argv (i # js) len =
     argv_length m argv js (if arg_at m argv i \<noteq> NULL then len + of_nat (strnlen m (arg_at m argv i) (MAX_ARG_LENGTH - 1) + 1) else len)"

text \<open>Bytes written below a pointer that moves down.\<close>

definition push_bytes :: "u8 list \<Rightarrow> u64 \<times> mem \<Rightarrow> u64 \<times> mem" where
  "push_bytes bs st = (fst st - of_nat (length bs), store_bytes (fst st - of_nat (length bs)) bs (snd st))"

definition push_long :: "u64 \<Rightarrow> u64 \<times> mem \<Rightarrow> u64 \<times> mem" where
  "push_long v st = push_bytes (le_bytes 8 (unat v)) st"

text \<open>The loop over the arguments, from the last to the first; the number counts those that are left.\<close>

primrec copy_strings :: "u64 \<Rightarrow> u64 \<Rightarrow> u64 \<Rightarrow> u64 \<Rightarrow> nat \<Rightarrow> u64 \<times> mem \<Rightarrow> u64 \<times> mem" where
  "copy_strings argv argv_pointers bottom new_stack 0 st = st"
| "copy_strings argv argv_pointers bottom new_stack (Suc i) st =
     (let a = arg_at (snd st) argv i
      in if a \<noteq> NULL
         then let len = strnlen (snd st) a (MAX_ARG_LENGTH - 1);
                  st = push_bytes [0] st;
                  (str_data_ptr, m) = push_bytes (bytes_at len (snd st) a) st;
                  m = store_u64 (argv_pointers + 8 * of_nat i) (bottom + (str_data_ptr - new_stack)) m
              in copy_strings argv argv_pointers bottom new_stack i (str_data_ptr, m)
         else copy_strings argv argv_pointers bottom new_stack i (push_bytes [0] st))"

primrec push_zeros :: "nat \<Rightarrow> u64 \<times> mem \<Rightarrow> u64 \<times> mem" where
  "push_zeros 0 st = st"
| "push_zeros (Suc n) st = push_zeros n (push_bytes [0] st)"

primrec copy_caps :: "u64 \<Rightarrow> nat \<Rightarrow> u64 \<times> mem \<Rightarrow> u64 \<times> mem" where
  "copy_caps capabilities 0 st = st"
| "copy_caps capabilities (Suc i) st =
     (let st = push_long (load_u64 (snd st) (capabilities + 16 * of_nat i + 8)) st;
          st = push_long (load_u64 (snd st) (capabilities + 16 * of_nat i)) st
      in copy_caps capabilities i st)"

primrec copy_argv :: "u64 \<Rightarrow> nat \<Rightarrow> u64 \<times> mem \<Rightarrow> u64 \<times> mem" where
  "copy_argv argv_pointers 0 st = st"
| "copy_argv argv_pointers (Suc i) st = copy_argv argv_pointers i (push_long (load_u64 (snd st) (argv_pointers + 8 * of_nat i)) st)"

text \<open>The part after the buffers have been mapped.\<close>

definition fill_stack :: "u64 \<Rightarrow> u16 \<Rightarrow> u64 \<Rightarrow> u16 \<Rightarrow> u64 \<Rightarrow> u64 \<Rightarrow> u64 \<Rightarrow> u64 \<Rightarrow> bool \<Rightarrow> mem \<Rightarrow> mem" where
  "fill_stack stack_bottom_addr cap_count capabilities argc argv argv_pointers new_stack value_count has_caps m =
     (let (str_data_ptr, m) = copy_strings argv argv_pointers stack_bottom_addr new_stack (unat argc) (new_stack + value_count * 8, m);
          st = push_zeros (unat (ucast (str_data_ptr mod 8) :: u8)) (str_data_ptr, m);
          st = (if has_caps then copy_caps capabilities (unat cap_count) st else st);
          cap_ptr = (if has_caps then stack_bottom_addr + (fst st - new_stack) else 0);
          st = copy_argv argv_pointers (unat argc) st;
          argv_ptr = stack_bottom_addr + (fst st - new_stack);
          st = push_long (ucast argc) (push_long argv_ptr st);
          st = push_long (ucast cap_count) (push_long cap_ptr st)
      in snd st)"

definition build_new_process_init_values :: "bool \<Rightarrow> u64 \<Rightarrow> u64 option \<Rightarrow> u64 option \<Rightarrow> u64 \<Rightarrow> u16 \<Rightarrow> u64 \<Rightarrow> u16 \<Rightarrow> u64 \<Rightarrow> mem
    \<Rightarrow> (mem \<times> InitStackValues option) option" where
  "build_new_process_init_values out_given frame argv_map stack_map stack_top_addr cap_count capabilities argc argv m =
     (if \<not> out_given then Some (m, None)
      else if argc > MAX_ARG_COUNT then Some (m, None)
      else
        let total_argv_len = (if argc > 0 \<and> argv \<noteq> NULL then argv_length m argv [0..<unat argc] 0 else 0);
            total_argv_words = ucast (round_up_to_machine_word_size total_argv_len div 8) :: u64;
            value_count = total_argv_words + ucast cap_count * 2 + ucast argc + INIT_STACK_STATIC_VALUE_COUNT
        in if value_count > SYSTEM_MAX_STACK_VALUE_COUNT then Some (m, None)
           else
             let aligned_value_count = (if value_count AND 1 \<noteq> 0 then value_count + 1 else value_count);
                 unique_addr_base = 0x3000000 + (frame AND 0xFFF000)
             in case argv_map of
                  None \<Rightarrow> Some (m, None)
                | Some argv_pointers \<Rightarrow>
                    let m = map_zero_page argv_pointers m; stack_blocks_needed = aligned_value_count div 512
                    in if stack_blocks_needed > 1 then Some (m, None)
                       else case stack_map of
                              None \<Rightarrow> Some (m, None)
                            | Some new_stack \<Rightarrow>
                                let m = map_zero_page new_stack m; stack_bottom_addr = stack_top_addr - 8 * aligned_value_count
                                in if argc > 0 \<and> argv = NULL then None
                                   else Some (fill_stack stack_bottom_addr cap_count capabilities argc argv argv_pointers new_stack value_count
                                                (cap_count > 0 \<and> capabilities \<noteq> NULL) m,
                                              Some \<lparr>iv_value_count = aligned_value_count, iv_data = new_stack, iv_allocated_size = stack_blocks_needed,
                                                    iv_argv_buffer = unique_addr_base, iv_stack_buffer = unique_addr_base + VM_PAGE_SIZE\<rparr>))"

section \<open>Building downwards\<close>

declare of_nat_diff [simp del]

text \<open>What has been written so far ends at offset \<open>e\<close> of the buffer.\<close>

definition built :: "u64 \<Rightarrow> nat \<Rightarrow> u8 list \<Rightarrow> u64 \<times> mem \<Rightarrow> bool" where
  "built S e bs st \<longleftrightarrow> length bs \<le> e \<and> fst st = S + of_nat (e - length bs) \<and> holds (snd st) (fst st) bs"

lemma push_built:
  assumes "built S e bs (p, m)" "length xs + length bs \<le> e" "e \<le> 4096"
  shows "built S e (xs @ bs) (push_bytes xs (p, m))" "agree (region S e) m (snd (push_bytes xs (p, m)))"
proof -
  let ?q = "S + of_nat (e - length (xs @ bs))"
  have p: "p = S + of_nat (e - length bs)" "holds m p bs" using assms(1) by (auto simp: built_def)
  have e: "e - length bs = (e - length (xs @ bs)) + length xs" using assms(2) by simp
  have q: "p - of_nat (length xs) = ?q" "p = ?q + of_nat (length xs)" unfolding p(1) e by simp_all
  have st: "push_bytes xs (p, m) = (?q, store_bytes ?q xs m)" by (simp add: push_bytes_def q(1))
  have "region ?q (length xs) \<inter> region p (length bs) = {}" unfolding q(2) by (rule region_apart) (use assms(2,3) in simp)
  then have "holds (store_bytes ?q xs m) p bs" by (intro holds_agree [OF p(2)]) (auto intro!: store_bytes_other)
  moreover have "holds (store_bytes ?q xs m) ?q xs" by (rule store_bytes_holds) (use assms(2,3) in simp)
  ultimately show "built S e (xs @ bs) (push_bytes xs (p, m))" using assms(2) q(2) unfolding st by (simp add: built_def)
  have "region ?q (length xs) \<subseteq> region S e" by (rule region_sub) (use assms(2) in simp)
  then show "agree (region S e) m (snd (push_bytes xs (p, m)))" unfolding st by (auto simp: agree_def intro!: store_bytes_other)
qed

lemma pushed:
  assumes "built S e bs st" "length xs + length bs \<le> e" "e \<le> 4096"
  obtains st' where "push_bytes xs st = st'" "built S e (xs @ bs) st'" "agree (region S e) (snd st) (snd st')"
  using push_built [of S e bs "fst st" "snd st" xs] assms by auto

lemma pushed_long:
  assumes "built S e bs st" "8 + length bs \<le> e" "e \<le> 4096"
  obtains st' where "push_long v st = st'" "built S e (le_bytes 8 (unat v) @ bs) st'" "agree (region S e) (snd st) (snd st')"
proof -
  have "length (le_bytes 8 (unat v)) + length bs \<le> e" using assms(2) by simp
  then show ?thesis using pushed [OF assms(1) _ assms(3), of "le_bytes 8 (unat v)"] that unfolding push_long_def by blast
qed

lemma push_zeros_built:
  assumes "built S e bs st" "n + length bs \<le> e" "e \<le> 4096"
  shows "built S e (replicate n 0 @ bs) (push_zeros n st) \<and> agree (region S e) (snd st) (snd (push_zeros n st))"
  using assms
proof (induction n arbitrary: bs st)
  case (Suc n)
  obtain st' where st': "push_bytes [0] st = st'" "built S e ([0] @ bs) st'" "agree (region S e) (snd st) (snd st')"
    by (rule pushed [OF Suc.prems(1), of "[0]"]) (use Suc.prems(2,3) in auto)
  have "built S e (replicate n 0 @ [0] @ bs) (push_zeros n st') \<and> agree (region S e) (snd st') (snd (push_zeros n st'))"
    by (rule Suc.IH [OF st'(2)]) (use Suc.prems in simp_all)
  then show ?case using st' agree_trans by (auto simp: replicate_app_Cons_same)
qed simp

section \<open>The strings\<close>

abbreviation strs :: "u8 list list \<Rightarrow> u8 list" where
  "strs xs \<equiv> concat (map (\<lambda>s. s @ [0]) xs)"

definition args_at :: "mem \<Rightarrow> u64 \<Rightarrow> u8 list list \<Rightarrow> bool" where
  "args_at m argv args \<longleftrightarrow> (\<forall>i < length args. arg_at m argv i \<noteq> NULL \<and> holds_str m (arg_at m argv i) (args ! i) \<and> length (args ! i) < MAX_ARG_LENGTH)"

text \<open>The addresses of the array of arguments and of the arguments.\<close>

definition args_area :: "mem \<Rightarrow> u64 \<Rightarrow> u8 list list \<Rightarrow> u64 set" where
  "args_area m argv args = region argv (8 * length args) \<union> (\<Union>i < length args. region (arg_at m argv i) (Suc (length (args ! i))))"

lemma args_agree:
  assumes "args_at m argv args" "agree R m m'" "args_area m argv args \<inter> R = {}" "i < length args"
  shows "arg_at m' argv i = arg_at m argv i" "arg_at m argv i \<noteq> NULL" "holds_str m' (arg_at m argv i) (args ! i)" "length (args ! i) < MAX_ARG_LENGTH"
proof -
  have "region (argv + of_nat (8 * i)) 8 \<subseteq> region argv (8 * length args)" using assms(4) by (intro region_sub) simp
  then have "region (argv + 8 * of_nat i) 8 \<inter> R = {}" using assms(3) by (auto simp: args_area_def)
  then show "arg_at m' argv i = arg_at m argv i" unfolding arg_at_def by (rule agree_load [OF assms(2)])
  have h: "arg_at m argv i \<noteq> NULL" "holds_str m (arg_at m argv i) (args ! i)" "length (args ! i) < MAX_ARG_LENGTH" using assms(1,4) by (simp_all add: args_at_def)
  then show "arg_at m argv i \<noteq> NULL" "length (args ! i) < MAX_ARG_LENGTH" by simp_all
  have "region (arg_at m argv i) (Suc (length (args ! i))) \<inter> R = {}" using assms(3,4) by (auto simp: args_area_def)
  then show "holds_str m' (arg_at m argv i) (args ! i)" using assms(2) by (intro holds_str_agree [OF h(2)]) (auto simp: agree_def)
qed

lemma argv_length_ok:
  assumes "args_at m argv args" "set is \<subseteq> {..<length args}"
  shows "argv_length m argv is t = t + of_nat (length (strs (map (\<lambda>i. args ! i) is)))"
  using assms(2)
proof (induction "is" arbitrary: t)
  case (Cons i "is")
  then have i: "i < length args" by simp
  note a = args_agree [OF assms(1) agree_refl [of "{}"] _ i, simplified]
  have "strnlen m (arg_at m argv i) (MAX_ARG_LENGTH - 1) = length (args ! i)" by (rule strnlen_str [OF a(3)]) (use a(4) in simp)
  then show ?case using Cons a(2) by (simp add: algebra_simps)
qed simp

text \<open>The memory the loops write: the buffer of pointers and the part of the stack buffer in use.\<close>

abbreviation writes :: "u64 \<Rightarrow> u64 \<Rightarrow> nat \<Rightarrow> u64 set" where
  "writes A S e \<equiv> region A 4096 \<union> region S e"

lemma built_agree: "built S e bs (p, m) \<Longrightarrow> \<forall>a \<in> region S e. m' a = m a \<Longrightarrow> built S e bs (p, m')"
  unfolding built_def using holds_agree [of m p bs m'] region_sub [of "e - length bs" "length bs" e S] by auto

lemma pointer_slot: "i < 512 \<Longrightarrow> region (A + 8 * of_nat i) 8 \<subseteq> region A 4096"
  using region_sub [of "8 * i" 8 4096 A] by simp

lemma pointer_slots_apart: "i < 512 \<Longrightarrow> j < 512 \<Longrightarrow> i \<noteq> j \<Longrightarrow> region (A + 8 * of_nat i) 8 \<inter> region (A + 8 * of_nat j) 8 = {}"
proof -
  assume a: "i < 512" "j < 512" "i \<noteq> j"
  have "A + of_nat (8 * i + k) \<noteq> A + of_nat (8 * j + l)" if "k < 8" "l < 8" for k l
    using a that region_inj [of "8 * i + k" 4096 "8 * j + l" A] by auto
  then show ?thesis by (auto simp: region_def algebra_simps)
qed

lemma strs_take_Suc: "n < length args \<Longrightarrow> strs (take (Suc n) args) = strs (take n args) @ args ! n @ [0]"
  "n < length args \<Longrightarrow> i \<le> n \<Longrightarrow> strs (drop i (take (Suc n) args)) = strs (drop i (take n args)) @ args ! n @ [0]"
  by (simp_all add: take_Suc_conv_app_nth)

lemma copy_strings_ok:
  assumes args: "args_at m0 argv args" "args_area m0 argv args \<inter> writes A S e = {}" and apart: "region A 4096 \<inter> region S e = {}" "e \<le> 4096"
  shows "n \<le> length args \<Longrightarrow> n \<le> 512 \<Longrightarrow> agree (writes A S e) m0 m \<Longrightarrow> built S e bs (p, m) \<Longrightarrow> length (strs (take n args)) + length bs \<le> e \<Longrightarrow>
    \<exists>st'. copy_strings argv A bottom S n (p, m) = st' \<and> built S e (strs (take n args) @ bs) st' \<and> agree (writes A S e) m0 (snd st')
      \<and> (\<forall>i < n. load_u64 (snd st') (A + 8 * of_nat i) = bottom + of_nat (e - length bs - length (strs (drop i (take n args)))))
      \<and> (\<forall>i. n \<le> i \<and> i < 512 \<longrightarrow> load_u64 (snd st') (A + 8 * of_nat i) = load_u64 m (A + 8 * of_nat i))"
proof (induction n arbitrary: m p bs)
  case 0
  then show ?case by simp
next
  case (Suc n)
  let ?s = "args ! n" and ?a = "arg_at m0 argv n"
  have n: "n < length args" "n \<le> length args" "n < 512" using Suc.prems(1,2) by simp_all
  have sz: "length (strs (take n args)) + length (?s @ [0] @ bs) \<le> e" using Suc.prems(5) strs_take_Suc(1) [OF n(1)] by simp
  note a = args_agree [OF args(1) Suc.prems(3) args(2) n(1)]
  obtain st1 where st1: "push_bytes [0] (p, m) = st1" "built S e ([0] @ bs) st1" "agree (region S e) m (snd st1)"
    by (rule pushed [OF Suc.prems(4), of "[0]"]) (use sz apart(2) in auto)
  have ag1: "agree (writes A S e) m0 (snd st1)" by (rule agree_trans [OF Suc.prems(3) agree_mono [OF st1(3)]]) simp
  note a1 = args_agree [OF args(1) ag1 args(2) n(1)]
  have len: "strnlen m ?a (MAX_ARG_LENGTH - 1) = length ?s" by (rule strnlen_str [OF a(3)]) (use a(4) in simp)
  have b: "bytes_at (length ?s) (snd st1) ?a = ?s" by (rule bytes_at_str [OF a1(3)])
  obtain p2 m2 where st2: "push_bytes ?s st1 = (p2, m2)" "built S e (?s @ [0] @ bs) (p2, m2)" "agree (region S e) (snd st1) m2"
    by (rule pushed [OF st1(2), of ?s]) (use sz apart(2) in \<open>auto\<close>)
  let ?slot = "A + 8 * of_nat n" and ?v = "bottom + (p2 - S)"
  let ?m3 = "store_u64 ?slot ?v m2"
  have sl: "region ?slot 8 \<subseteq> region A 4096" by (rule pointer_slot [OF n(3)])
  have ag3: "agree (region A 4096) m2 ?m3" using sl by (auto simp: agree_def intro!: store_u64_other)
  have b3: "built S e (?s @ [0] @ bs) (p2, ?m3)" using ag3 apart(1) by (intro built_agree [OF st2(2)]) (auto simp: agree_def)
  have m02: "agree (writes A S e) m0 m2" by (rule agree_trans [OF ag1 agree_mono [OF st2(3)]]) simp
  have m03: "agree (writes A S e) m0 ?m3" by (rule agree_trans [OF m02 agree_mono [OF ag3]]) simp
  have p2: "p2 - S = of_nat (e - length (?s @ [0] @ bs))" using st2(2) by (simp add: built_def)
  obtain st' where st': "copy_strings argv A bottom S n (p2, ?m3) = st'" "built S e (strs (take n args) @ ?s @ [0] @ bs) st'" "agree (writes A S e) m0 (snd st')"
    "\<forall>i < n. load_u64 (snd st') (A + 8 * of_nat i) = bottom + of_nat (e - length (?s @ [0] @ bs) - length (strs (drop i (take n args))))"
    "\<forall>i. n \<le> i \<and> i < 512 \<longrightarrow> load_u64 (snd st') (A + 8 * of_nat i) = load_u64 ?m3 (A + 8 * of_nat i)"
    using Suc.IH [OF n(2) _ m03 b3 sz] n(3) by auto
  have run: "copy_strings argv A bottom S (Suc n) (p, m) = st'"
    using a(1,2) len b st1(1) st2(1) st'(1) by (simp add: Let_def)
  have "load_u64 (snd st') (A + 8 * of_nat i) = bottom + of_nat (e - length bs - length (strs (drop i (take (Suc n) args))))" if i: "i < Suc n" for i
  proof (cases "i = n")
    case True
    have "load_u64 (snd st') ?slot = ?v" using st'(5) n(3) by simp
    then show ?thesis using True strs_take_Suc(2) [OF n(1), of n] p2 by (simp add: add.commute)
  next
    case False
    then show ?thesis using i st'(4) strs_take_Suc(2) [OF n(1), of i] by (simp add: ac_simps)
  qed
  moreover have "load_u64 (snd st') (A + 8 * of_nat i) = load_u64 m (A + 8 * of_nat i)" if i: "Suc n \<le> i" "i < 512" for i
  proof -
    have "load_u64 (snd st') (A + 8 * of_nat i) = load_u64 ?m3 (A + 8 * of_nat i)" using st'(5) i by simp
    also have "\<dots> = load_u64 m2 (A + 8 * of_nat i)"
      using pointer_slots_apart [of i n A] i n(3) by (intro load_agree) (auto intro!: store_u64_other)
    also have "\<dots> = load_u64 m (A + 8 * of_nat i)"
      by (rule agree_load [OF agree_trans [OF st1(3) st2(3)]]) (use pointer_slot [OF i(2), of A] apart(1) in blast)
    finally show ?thesis .
  qed
  ultimately show ?case using run st'(2,3) strs_take_Suc(1) [OF n(1)] by (intro exI [of _ st']) simp
qed

section \<open>Capabilities and pointers\<close>

definition caps_at :: "mem \<Rightarrow> u64 \<Rightarrow> (u64 \<times> u64) list \<Rightarrow> bool" where
  "caps_at m c caps \<longleftrightarrow> (\<forall>i < length caps. load_u64 m (c + 16 * of_nat i) = fst (caps ! i) \<and> load_u64 m (c + 16 * of_nat i + 8) = snd (caps ! i))"

abbreviation cap_bytes :: "(u64 \<times> u64) list \<Rightarrow> u8 list" where
  "cap_bytes cs \<equiv> concat (map (\<lambda>(i, k). le_bytes 8 (unat i) @ le_bytes 8 (unat k)) cs)"

abbreviation long_bytes :: "u64 list \<Rightarrow> u8 list" where
  "long_bytes vs \<equiv> concat (map (\<lambda>v. le_bytes 8 (unat v)) vs)"

lemma length_cap_bytes [simp]: "length (cap_bytes cs) = 16 * length cs"
  by (induction cs) auto

lemma length_long_bytes [simp]: "length (long_bytes vs) = 8 * length vs"
  by (induction vs) auto

lemma copy_caps_ok:
  assumes "caps_at m0 c caps" "region c (16 * length caps) \<inter> R = {}" "region S e \<subseteq> R" "e \<le> 4096"
  shows "n \<le> length caps \<Longrightarrow> agree R m0 (snd st) \<Longrightarrow> built S e bs st \<Longrightarrow> 16 * n + length bs \<le> e \<Longrightarrow>
    built S e (cap_bytes (take n caps) @ bs) (copy_caps c n st) \<and> agree (region S e) (snd st) (snd (copy_caps c n st))"
proof (induction n arbitrary: st bs)
  case (Suc n)
  obtain i k where ik: "caps ! n = (i, k)" by fastforce
  have n: "n < length caps" "n \<le> length caps" using Suc.prems(1) by simp_all
  have sub: "region (c + of_nat (16 * n)) 8 \<subseteq> region c (16 * length caps)" "region (c + of_nat (16 * n + 8)) 8 \<subseteq> region c (16 * length caps)"
    using n(1) by (intro region_sub; simp)+
  have ld: "load_u64 m (c + 16 * of_nat n) = i" "load_u64 m (c + 16 * of_nat n + 8) = k" if "agree R m0 m" for m
  proof -
    have "region (c + 16 * of_nat n) 8 \<inter> R = {}" "region (c + 16 * of_nat n + 8) 8 \<inter> R = {}" using sub assms(2) by (auto simp: algebra_simps)
    from agree_load [OF that this(1)] agree_load [OF that this(2)] show "load_u64 m (c + 16 * of_nat n) = i" "load_u64 m (c + 16 * of_nat n + 8) = k"
      using assms(1) n(1) ik by (simp_all add: caps_at_def)
  qed
  obtain st1 where st1: "push_long k st = st1" "built S e (le_bytes 8 (unat k) @ bs) st1" "agree (region S e) (snd st) (snd st1)"
    by (rule pushed_long [OF Suc.prems(3), of k]) (use Suc.prems(4) assms(4) in auto)
  have ag1: "agree R m0 (snd st1)" by (rule agree_trans [OF Suc.prems(2) agree_mono [OF st1(3) assms(3)]])
  obtain st2 where st2: "push_long i st1 = st2" "built S e (le_bytes 8 (unat i) @ le_bytes 8 (unat k) @ bs) st2" "agree (region S e) (snd st1) (snd st2)"
    by (rule pushed_long [OF st1(2), of i]) (use Suc.prems(4) assms(4) in auto)
  have ag2: "agree R m0 (snd st2)" by (rule agree_trans [OF ag1 agree_mono [OF st2(3) assms(3)]])
  have run: "copy_caps c (Suc n) st = copy_caps c n st2" using ld [OF Suc.prems(2)] ld [OF ag1] st1(1) st2(1) by (simp add: Let_def)
  have "built S e (cap_bytes (take n caps) @ le_bytes 8 (unat i) @ le_bytes 8 (unat k) @ bs) (copy_caps c n st2) \<and> agree (region S e) (snd st2) (snd (copy_caps c n st2))"
    by (rule Suc.IH [OF n(2) ag2 st2(2)]) (use Suc.prems(4) in simp)
  then show ?case unfolding run using ik n(1) agree_trans [OF agree_trans [OF st1(3) st2(3)]] by (simp add: take_Suc_conv_app_nth)
qed simp

lemma copy_argv_ok:
  assumes "region A 4096 \<inter> region S e = {}" "e \<le> 4096"
  shows "n \<le> 512 \<Longrightarrow> \<forall>i < n. load_u64 (snd st) (A + 8 * of_nat i) = f i \<Longrightarrow> built S e bs st \<Longrightarrow> 8 * n + length bs \<le> e \<Longrightarrow>
    built S e (long_bytes (map f [0..<n]) @ bs) (copy_argv A n st) \<and> agree (region S e) (snd st) (snd (copy_argv A n st))"
proof (induction n arbitrary: st bs)
  case (Suc n)
  obtain st1 where st1: "push_long (f n) st = st1" "built S e (le_bytes 8 (unat (f n)) @ bs) st1" "agree (region S e) (snd st) (snd st1)"
    by (rule pushed_long [OF Suc.prems(3), of "f n"]) (use Suc.prems(4) assms(2) in auto)
  have "\<forall>i < n. load_u64 (snd st1) (A + 8 * of_nat i) = f i"
  proof (intro allI impI)
    fix i assume i: "i < n"
    have "region (A + 8 * of_nat i) 8 \<inter> region S e = {}" using pointer_slot [of i A] i Suc.prems(1) assms(1) by auto
    from agree_load [OF st1(3) this] show "load_u64 (snd st1) (A + 8 * of_nat i) = f i" using Suc.prems(2) i by simp
  qed
  from Suc.IH [OF _ this st1(2)] have "built S e (long_bytes (map f [0..<n]) @ le_bytes 8 (unat (f n)) @ bs) (copy_argv A n st1) \<and> agree (region S e) (snd st1) (snd (copy_argv A n st1))"
    using Suc.prems(1,4) by simp
  moreover have "copy_argv A (Suc n) st = copy_argv A n st1" using Suc.prems(2) st1(1) by simp
  ultimately show ?case using agree_trans [OF st1(3)] by simp
qed simp

section \<open>The whole stack\<close>

lemma word_mod_8: "unat (p :: u64) mod 8 = 0 \<Longrightarrow> unat (ucast ((p + of_nat x) mod 8) :: u8) = x mod 8"
proof -
  assume p: "unat p mod 8 = 0"
  have "unat (p + of_nat x) = (unat p + x) mod 18446744073709551616" by (simp add: unat_word_ariths(1) unat_of_nat mod_add_right_eq)
  then have "unat ((p + of_nat x) mod 8) = (unat p + x) mod 18446744073709551616 mod 8" by (simp add: unat_mod)
  also have "\<dots> = (unat p + x) mod 8" by (rule mod_mod_cancel) simp
  also have "\<dots> = x mod 8" using p by (metis add_0 mod_add_left_eq)
  finally have "unat ((p + of_nat x) mod 8) = x mod 8" .
  moreover have "x mod 8 < 256" using mod_less_divisor [of 8 x] by linarith
  ultimately show ?thesis by (simp add: unsigned_ucast_eq take_bit_nat_eq_self)
qed

lemma and_not_7: "y < 0x100000000 \<Longrightarrow> (of_nat y :: u64) AND NOT 7 = of_nat (y div 8 * 8)"
proof -
  assume y: "y < 0x100000000"
  let ?x = "of_nat y :: u64"
  have "(7 :: u64) = mask 3" by (simp add: mask_eq_exp_minus_1)
  then have "?x AND NOT 7 = ?x AND NOT (mask 3)" by (simp only:)
  also have "\<dots> = push_bit 3 (drop_bit 3 ?x)" by (rule bit_word_eqI) (auto simp: bit_simps)
  finally have x: "?x AND NOT 7 = drop_bit 3 ?x * 8" by (simp add: push_bit_eq_mult)
  have "y div 8 < 0x100000000" using y div_le_dividend [of y 8] by linarith
  then have d: "drop_bit 3 ?x = of_nat (y div 8)" using y by (simp add: drop_bit_eq_div u64_eq_iff unat_div unat_of_nat)
  show ?thesis unfolding x d by simp
qed

lemma round_words: "T \<le> 0x10000 \<Longrightarrow> (ucast (round_up_to_machine_word_size (of_nat T) div 8) :: u64) = of_nat ((T + 7) div 8)"
proof -
  assume T: "T \<le> 0x10000"
  let ?w = "(T + 7) div 8"
  have w: "?w * 8 \<le> 0x10007" using T div_times_less_eq_dividend [of "T + 7" 8] by linarith
  have x: "(of_nat T + 8 - 1 :: u64) = of_nat (T + 7)" "(8 - 1 :: u64) = 7" by simp_all
  have "T + 7 < 0x100000000" using T by simp
  then have "round_up_to_machine_word_size (of_nat T) = ucast (of_nat (?w * 8) :: u64)" unfolding round_up_to_machine_word_size_def x by (simp only: and_not_7)
  then have "unat (round_up_to_machine_word_size (of_nat T)) = ?w * 8" using w by (simp add: unsigned_ucast_eq take_bit_nat_eq_self unat_of_nat del: of_nat_mult)
  then have "unat (round_up_to_machine_word_size (of_nat T) div 8) = ?w" by (simp add: unat_div)
  then show ?thesis using w by (simp add: u64_eq_iff unsigned_ucast_eq unat_of_nat take_bit_nat_eq_self)
qed

text \<open>The bytes of the stack of a process with the given capabilities and arguments, whose stack pointer is \<open>bottom\<close>.\<close>

definition stack_bytes :: "u64 \<Rightarrow> (u64 \<times> u64) list \<Rightarrow> u8 list list \<Rightarrow> nat \<Rightarrow> u8 list" where
  "stack_bytes bottom caps args e =
     long_bytes [of_nat (length caps), if caps = [] then 0 else bottom + of_nat (32 + 8 * length args), of_nat (length args), bottom + 32]
     @ long_bytes (map (\<lambda>i. bottom + of_nat (e - length (strs (drop i args)))) [0..<length args])
     @ cap_bytes caps @ replicate (8 * ((length (strs args) + 7) div 8) - length (strs args)) 0 @ strs args"

lemma fill_stack_ok:
  assumes args: "args_at m argv args" "args_area m argv args \<inter> writes A S e = {}" and n: "unat argc = length args" "length args \<le> 512"
    and caps: "caps_at m capv caps" "region capv (16 * length caps) \<inter> writes A S e = {}" "unat capc = length caps"
    and e: "e = 8 * ((length (strs args) + 7) div 8 + 2 * length caps + length args + 4)" "e \<le> 4096" and S: "unat S mod 8 = 0" "region A 4096 \<inter> region S e = {}"
    and vc: "vc * 8 = of_nat e"
  shows "holds (fill_stack bottom capc capv argc argv A S vc (caps \<noteq> []) m) S (stack_bytes bottom caps args e)
    \<and> agree (writes A S e) m (fill_stack bottom capc capv argc argv A S vc (caps \<noteq> []) m)"
proof -
  let ?n = "length args" and ?c = "length caps" and ?T = "length (strs args)"
  let ?tw = "(?T + 7) div 8"
  have E: "8 * ?tw + 16 * ?c + 8 * ?n + 32 = e" "?T \<le> 8 * ?tw" "8 * ?tw - ?T < 8" unfolding e(1) by (simp, linarith, linarith)
  have b0: "built S e [] (S + of_nat e, m)" by (simp add: built_def)
  obtain p1 m1 where st1: "copy_strings argv A bottom S ?n (S + of_nat e, m) = (p1, m1)" "built S e (strs args) (p1, m1)" "agree (writes A S e) m m1"
    "\<forall>i < ?n. load_u64 m1 (A + 8 * of_nat i) = bottom + of_nat (e - length (strs (drop i args)))"
    using copy_strings_ok [OF args S(2) e(2) order_refl n(2) agree_refl b0, of bottom] E(1,2) by (cases "copy_strings argv A bottom S ?n (S + of_nat e, m)") auto
  have p1: "p1 = S + of_nat (e - ?T)" using st1(2) by (simp add: built_def)
  have "e - ?T = (8 * ?tw - ?T) + 8 * (2 * ?c + ?n + 4)" using E(1,2) by simp
  then have "(e - ?T) mod 8 = 8 * ?tw - ?T" using E(3) by (metis mod_less mod_mult_self2)
  then have pad: "unat (ucast (p1 mod 8) :: u8) = 8 * ?tw - ?T" unfolding p1 word_mod_8 [OF S(1)] .
  define bs2 where "bs2 = replicate (8 * ?tw - ?T) 0 @ strs args"
  have l2: "length bs2 = 8 * ?tw" using E(2) by (simp add: bs2_def)
  obtain st2 where st2: "push_zeros (8 * ?tw - ?T) (p1, m1) = st2" "built S e bs2 st2" "agree (region S e) m1 (snd st2)"
    using push_zeros_built [OF st1(2) _ e(2), of "8 * ?tw - ?T"] E(1,2) unfolding bs2_def by auto
  have ag2: "agree (writes A S e) m (snd st2)" by (rule agree_trans [OF st1(3) agree_mono [OF st2(3)]]) simp
  obtain st3 where st3: "(if caps \<noteq> [] then copy_caps capv ?c st2 else st2) = st3" "built S e (cap_bytes caps @ bs2) st3" "agree (region S e) (snd st2) (snd st3)"
    using copy_caps_ok [OF caps(1,2) _ e(2) order_refl ag2 st2(2)] st2(2) l2 E(1) by (cases caps) auto
  have p3: "fst st3 - S = of_nat (32 + 8 * ?n)" using st3(2) l2 unfolding built_def E(1) [symmetric] by simp
  have ag13: "agree (region S e) m1 (snd st3)" by (rule agree_trans [OF st2(3) st3(3)])
  let ?f = "\<lambda>i. bottom + of_nat (e - length (strs (drop i args))) :: u64"
  have ptrs: "\<forall>i < ?n. load_u64 (snd st3) (A + 8 * of_nat i) = ?f i"
  proof (intro allI impI)
    fix i assume i: "i < ?n"
    have "region (A + 8 * of_nat i) 8 \<inter> region S e = {}" using pointer_slot [of i A] i n(2) S(2) by auto
    from agree_load [OF ag13 this] show "load_u64 (snd st3) (A + 8 * of_nat i) = ?f i" using st1(4) i by simp
  qed
  define bs4 where "bs4 = long_bytes (map ?f [0..<?n]) @ cap_bytes caps @ bs2"
  have l4: "length bs4 + 32 = e" unfolding bs4_def length_append length_long_bytes length_cap_bytes l2 using E(1) by simp
  obtain st4 where st4: "copy_argv A ?n st3 = st4" "built S e bs4 st4" "agree (region S e) (snd st3) (snd st4)"
    using copy_argv_ok [OF S(2) e(2) n(2) ptrs st3(2)] l2 E(1) unfolding bs4_def by auto
  have p4: "fst st4 - S = 32" using st4(2) unfolding built_def l4 [symmetric] by simp
  let ?v = "if caps = [] then 0 else bottom + of_nat (32 + 8 * ?n) :: u64"
  obtain st5 where st5: "push_long (bottom + 32) st4 = st5" "built S e (le_bytes 8 (unat (bottom + 32)) @ bs4) st5" "agree (region S e) (snd st4) (snd st5)"
    by (rule pushed_long [where v = "bottom + 32", OF st4(2) _ e(2)]) (use l4 in auto)
  obtain st6 where st6: "push_long (ucast argc) st5 = st6" "built S e (le_bytes 8 (unat (ucast argc :: u64)) @ le_bytes 8 (unat (bottom + 32)) @ bs4) st6" "agree (region S e) (snd st5) (snd st6)"
    by (rule pushed_long [where v = "ucast argc", OF st5(2) _ e(2)]) (use l4 in auto)
  obtain st7 where st7: "push_long ?v st6 = st7" "built S e (le_bytes 8 (unat ?v) @ le_bytes 8 (unat (ucast argc :: u64)) @ le_bytes 8 (unat (bottom + 32)) @ bs4) st7" "agree (region S e) (snd st6) (snd st7)"
    by (rule pushed_long [where v = "?v", OF st6(2) _ e(2)]) (use l4 in auto)
  obtain st8 where st8: "push_long (ucast capc) st7 = st8" "agree (region S e) (snd st7) (snd st8)"
    "built S e (le_bytes 8 (unat (ucast capc :: u64)) @ le_bytes 8 (unat ?v) @ le_bytes 8 (unat (ucast argc :: u64)) @ le_bytes 8 (unat (bottom + 32)) @ bs4) st8"
    by (rule pushed_long [where v = "ucast capc", OF st7(2) _ e(2)]) (use l4 in auto)
  have run: "fill_stack bottom capc capv argc argv A S vc (caps \<noteq> []) m = snd st8"
    unfolding fill_stack_def vc n(1) st1(1) Let_def prod.case pad st2(1) caps(3) st3(1) p3 st4(1) p4 st5(1) st6(1)
    using st7(1) st8(1) by (simp split: if_splits)
  have u: "(ucast capc :: u64) = of_nat ?c" "(ucast argc :: u64) = of_nat ?n" using n(1) caps(3) by (metis of_nat_unat)+
  have sb: "stack_bytes bottom caps args e
      = le_bytes 8 (unat (ucast capc :: u64)) @ le_bytes 8 (unat ?v) @ le_bytes 8 (unat (ucast argc :: u64)) @ le_bytes 8 (unat (bottom + 32)) @ bs4"
    unfolding u by (simp add: stack_bytes_def bs4_def bs2_def)
  have "length (stack_bytes bottom caps args e) = e" unfolding sb using l4 by simp
  then have "holds (snd st8) S (stack_bytes bottom caps args e)" using st8(3) unfolding sb [symmetric] by (auto simp: built_def)
  moreover have "agree (writes A S e) m (snd st8)"
    using agree_trans [OF agree_trans [OF agree_trans [OF st4(3) st5(3)] agree_trans [OF st6(3) st7(3)]] st8(2)] st3(3) agree_trans agree_mono [of "region S e"] ag2 by (meson Un_upper2)
  ultimately show ?thesis unfolding run by blast
qed

section \<open>The stack as the new process sees it\<close>

text \<open>The kernel puts the words of the buffer at the top of the new stack, so that the process finds the byte at offset \<open>k\<close> of the buffer at offset \<open>k\<close> from its stack pointer.\<close>

definition stack_view :: "u64 \<Rightarrow> u64 \<Rightarrow> mem \<Rightarrow> mem" where
  "stack_view sp buffer m a = m (buffer + (a - sp))"

lemma view_holds: "holds m (S + of_nat k) bs \<Longrightarrow> holds (stack_view sp S m) (sp + of_nat k) bs"
  by (auto simp: holds_def stack_view_def algebra_simps)

text \<open>What a process finds on its stack: the numbers and places of its capabilities and arguments.\<close>

definition starts_with :: "mem \<Rightarrow> u64 \<Rightarrow> (u64 \<times> u64) list \<Rightarrow> u8 list list \<Rightarrow> bool" where
  "starts_with m sp caps args \<longleftrightarrow> load_u64 m sp = of_nat (length caps) \<and> (caps \<noteq> [] \<longrightarrow> caps_at m (load_u64 m (sp + 8)) caps)
     \<and> load_u64 m (sp + 16) = of_nat (length args) \<and> (\<forall>i < length args. holds_str m (load_u64 m (load_u64 m (sp + 24) + 8 * of_nat i)) (args ! i))"

lemma long_bytes_at: "holds m p (long_bytes vs) \<Longrightarrow> i < length vs \<Longrightarrow> load_u64 m (p + 8 * of_nat i) = vs ! i"
proof (induction vs arbitrary: p i)
  case (Cons v vs)
  then show ?case using load_holds(2) [of m p v] Cons.IH [of "p + 8" "i - 1"] by (cases i) (auto simp: add.assoc)
qed simp

lemma cap_bytes_at: "holds m p (cap_bytes cs) \<Longrightarrow> caps_at m p cs"
proof (induction cs arbitrary: p)
  case (Cons c cs)
  obtain i k where c: "c = (i, k)" by fastforce
  then have h: "load_u64 m p = i" "load_u64 m (p + 8) = k" "caps_at m (p + 16) cs" using Cons load_holds(2) [of m p i] load_holds(2) [of m "p + 8" k] by (auto simp: algebra_simps)
  show ?case unfolding caps_at_def
  proof (intro allI impI)
    fix j assume j: "j < length (c # cs)"
    show "load_u64 m (p + 16 * of_nat j) = fst ((c # cs) ! j) \<and> load_u64 m (p + 16 * of_nat j + 8) = snd ((c # cs) ! j)"
      using h c j by (cases j) (auto simp: caps_at_def algebra_simps)
  qed
qed (simp add: caps_at_def)

lemma stack_bytes_seen:
  assumes "holds m sp (stack_bytes sp caps args e)" "e = 8 * ((length (strs args) + 7) div 8 + 2 * length caps + length args + 4)" "\<forall>s \<in> set args. 0 \<notin> set s"
  shows "starts_with m sp caps args"
proof -
  let ?n = "length args" and ?T = "length (strs args)" and ?f = "\<lambda>i. sp + of_nat (e - length (strs (drop i args))) :: u64"
  let ?tw = "(?T + 7) div 8" and ?v = "if caps = [] then 0 else sp + of_nat (32 + 8 * ?n) :: u64"
  define pad where "pad = 8 * ?tw - ?T"
  have T: "8 * ?tw = ?T + pad" unfolding pad_def by linarith
  have h: "holds m sp (long_bytes [of_nat (length caps), ?v, of_nat ?n, sp + 32])" "holds m (sp + 32) (long_bytes (map ?f [0..<?n]))"
    "holds m (sp + of_nat (32 + 8 * ?n)) (cap_bytes caps)" "holds m (sp + of_nat (32 + 8 * ?n + 16 * length caps + pad)) (strs args)"
    using assms(1) unfolding stack_bytes_def pad_def [symmetric] holds_append length_long_bytes length_cap_bytes by (simp_all add: algebra_simps)
  have w: "load_u64 m sp = of_nat (length caps)" "load_u64 m (sp + 8) = ?v" "load_u64 m (sp + 16) = of_nat ?n" "load_u64 m (sp + 24) = sp + 32"
    using long_bytes_at [OF h(1), of 0] long_bytes_at [OF h(1), of 1] long_bytes_at [OF h(1), of 2] long_bytes_at [OF h(1), of 3] by (simp_all add: numeral_2_eq_2 numeral_3_eq_3)
  have "holds_str m (load_u64 m (sp + 32 + 8 * of_nat i)) (args ! i)" if i: "i < ?n" for i
  proof -
    have l: "load_u64 m (sp + 32 + 8 * of_nat i) = ?f i" using long_bytes_at [OF h(2), of i] i by simp
    have sp: "strs args = strs (take i args) @ strs (drop i args)" by (metis append_take_drop_id concat_append map_append)
    have dr: "strs (drop i args) = args ! i @ [0] @ strs (drop (Suc i) args)" using i by (simp add: Cons_nth_drop_Suc [symmetric])
    have "?T = length (strs (take i args)) + length (strs (drop i args))" by (subst sp) simp
    then have off: "32 + 8 * ?n + 16 * length caps + pad + length (strs (take i args)) = e - length (strs (drop i args))" using assms(2) T by simp
    have "holds m (sp + of_nat (32 + 8 * ?n + 16 * length caps + pad) + of_nat (length (strs (take i args)))) (args ! i @ [0])"
      using h(4) unfolding sp dr holds_append by (simp add: algebra_simps)
    then have "holds m (?f i) (args ! i @ [0])" unfolding off [symmetric] by (simp add: algebra_simps)
    then show ?thesis using l assms(3) i by (simp add: holds_str_def)
  qed
  then show ?thesis using w cap_bytes_at [OF h(3)] by (simp add: starts_with_def)
qed

lemma map_zero_agree: "agree (region p 4096) m (map_zero_page p m)"
proof -
  have "a \<in> region p 4096" if "unat (a - p) < 4096" for a using in_region [OF that, of p] by simp
  then show ?thesis by (auto simp: agree_def map_zero_page_def)
qed

lemma args_stable:
  assumes "args_at m argv args" "agree R m m'" "args_area m argv args \<inter> R = {}"
  shows "args_at m' argv args" "args_area m' argv args = args_area m argv args"
  using args_agree [OF assms] by (simp_all add: args_at_def args_area_def)

lemma caps_stable:
  assumes "caps_at m c caps" "agree R m m'" "region c (16 * length caps) \<inter> R = {}"
  shows "caps_at m' c caps"
  unfolding caps_at_def
proof (intro allI impI)
  fix i assume i: "i < length caps"
  have "region (c + of_nat (16 * i)) 8 \<subseteq> region c (16 * length caps)" "region (c + of_nat (16 * i + 8)) 8 \<subseteq> region c (16 * length caps)"
    using i by (intro region_sub; simp)+
  then have "region (c + 16 * of_nat i) 8 \<inter> R = {}" "region (c + 16 * of_nat i + 8) 8 \<inter> R = {}" using assms(3) by (auto simp: algebra_simps)
  from agree_load [OF assms(2) this(1)] agree_load [OF assms(2) this(2)]
  show "load_u64 m' (c + 16 * of_nat i) = fst (caps ! i) \<and> load_u64 m' (c + 16 * of_nat i + 8) = snd (caps ! i)" using assms(1) i by (simp add: caps_at_def)
qed

lemma aligned_count:
  assumes "w \<le> 512"
  shows "(if (of_nat w :: u64) AND 1 \<noteq> 0 then of_nat w + 1 else of_nat w) = (of_nat (2 * ((w + 1) div 2)) :: u64)"
proof (cases "even w")
  case True
  then have "2 * ((w + 1) div 2) = w" by (auto elim!: evenE)
  then show ?thesis using True by (simp add: and_one_eq mod_2_eq_odd even_of_nat del: of_nat_mult)
next
  case False
  then have "2 * ((w + 1) div 2) = w + 1" by (auto elim!: oddE)
  then show ?thesis using False by (simp add: and_one_eq mod_2_eq_odd even_of_nat del: of_nat_mult)
qed

text \<open>For arguments of less than 256 characters and capabilities that fit a page, the new process finds, from its stack pointer on, the number and the list of
  its capabilities and the number of its arguments and pointers to them, whatever the place of the stack; only the two buffers are written.\<close>

lemma init_stack_ok:
  assumes args: "args_at m argv args" "args_area m argv args \<inter> writes A S 4096 = {}" "argv \<noteq> 0" "argc = of_nat (length args)" "length args \<le> 512"
    and caps: "caps_at m capv caps" "region capv (16 * length caps) \<inter> writes A S 4096 = {}" "capv \<noteq> 0" "capc = of_nat (length caps)"
    and w: "w = (length (strs args) + 7) div 8 + 2 * length caps + length args + 4" "w \<le> 512"
    and S: "unat S mod 8 = 0" "region A 4096 \<inter> region S 4096 = {}"
  shows "\<exists>m' iv. build_new_process_init_values True frame (Some A) (Some S) stack_top capc capv argc argv m = Some (m', Some iv)
    \<and> iv_data iv = S \<and> unat (iv_value_count iv) = 2 * ((w + 1) div 2) \<and> agree (writes A S 4096) m m'
    \<and> (\<forall>sp. sp = stack_top - 8 * iv_value_count iv \<longrightarrow> starts_with (stack_view sp S m') sp caps args)"
proof -
  let ?n = "length args" and ?c = "length caps" and ?T = "length (strs args)"
  have b: "?T \<le> 4096" "?c \<le> 254" "?n \<le> 508" "(?T + 7) div 8 \<le> 508" using w by linarith+
  have nn: "unat argc = ?n" "unat capc = ?c" using b(2,3) by (simp_all add: args(4) caps(4) unat_of_nat)
  have u: "(ucast capc :: u64) = of_nat ?c" "(ucast argc :: u64) = of_nat ?n" using nn by (metis of_nat_unat)+
  have pos: "argc > 0 \<longleftrightarrow> args \<noteq> []" "capc > 0 \<longleftrightarrow> caps \<noteq> []" using nn by (auto simp: word_less_nat_alt)
  have len: "(if argc > 0 \<and> argv \<noteq> NULL then argv_length m argv [0..<unat argc] 0 else 0) = of_nat ?T"
    using argv_length_ok [OF args(1), of "[0..<?n]" 0] args(3) unfolding nn(1) pos(1) map_nth by (auto simp: atLeast0LessThan)
  define vc where "vc = (of_nat w :: u64)"
  have vc: "of_nat ((?T + 7) div 8) + of_nat ?c * 2 + of_nat ?n + INIT_STACK_STATIC_VALUE_COUNT = vc" by (simp add: vc_def w(1) INIT_STACK_STATIC_VALUE_COUNT_def)
  have vcu: "unat vc = w" "vc * 8 = of_nat (8 * w)" using w(2) by (simp_all add: vc_def unat_of_nat)
  let ?al = "of_nat (2 * ((w + 1) div 2)) :: u64"
  have alu: "unat ?al = 2 * ((w + 1) div 2)" "2 * ((w + 1) div 2) \<le> 512" using w(2) by (simp_all add: unat_of_nat del: of_nat_mult)
  have lim: "\<not> argc > MAX_ARG_COUNT" "\<not> vc > SYSTEM_MAX_STACK_VALUE_COUNT" "\<not> ?al div 512 > 1"
    using nn(1) b(3) vcu(1) w(2) alu by (simp_all add: MAX_ARG_COUNT_def SYSTEM_MAX_STACK_VALUE_COUNT_def VM_PAGE_SIZE_def word_less_nat_alt unat_div del: of_nat_mult)
  define m2 where "m2 = map_zero_page S (map_zero_page A m)"
  have ag2: "agree (writes A S 4096) m m2" unfolding m2_def
    by (rule agree_trans [OF agree_mono [OF map_zero_agree] agree_mono [OF map_zero_agree]]) simp_all
  note a2 = args_stable [OF args(1) ag2 args(2)] and c2 = caps_stable [OF caps(1) ag2 caps(2)]
  have e: "8 * w = 8 * ((?T + 7) div 8 + 2 * ?c + ?n + 4)" "8 * w \<le> 4096" using w by simp_all
  have sub: "region S (8 * w) \<subseteq> region S 4096" using region_sub [of 0 "8 * w" 4096 S] e(2) by simp
  define bt where "bt = stack_top - 8 * ?al"
  have dj: "args_area m2 argv args \<inter> writes A S (8 * w) = {}" "region capv (16 * ?c) \<inter> writes A S (8 * w) = {}" "region A 4096 \<inter> region S (8 * w) = {}"
    unfolding a2(2) using args(2) caps(2) S(2) sub by blast+
  let ?m3 = "fill_stack bt capc capv argc argv A S vc (caps \<noteq> []) m2"
  have fs: "holds ?m3 S (stack_bytes bt caps args (8 * w))" "agree (writes A S (8 * w)) m2 ?m3"
    using fill_stack_ok [OF a2(1) dj(1) nn(1) args(5) c2 dj(2) nn(2) e S(1) dj(3) vcu(2), of bt] by blast+
  have ag3: "agree (writes A S 4096) m ?m3" by (rule agree_trans [OF ag2 agree_mono [OF fs(2)]]) (use sub in auto)
  let ?iv = "\<lparr>iv_value_count = ?al, iv_data = S, iv_allocated_size = ?al div 512, iv_argv_buffer = 0x3000000 + (frame AND 0xFFF000), iv_stack_buffer = 0x3000000 + (frame AND 0xFFF000) + VM_PAGE_SIZE\<rparr>"
  have run: "build_new_process_init_values True frame (Some A) (Some S) stack_top capc capv argc argv m = Some (?m3, Some ?iv)"
    unfolding build_new_process_init_values_def Let_def len round_words [OF order_trans [OF b(1)], simplified] u vc
    unfolding vc_def aligned_count [OF w(2)] unfolding vc_def [symmetric] bt_def [symmetric] m2_def [symmetric]
    using lim args(3) caps(3) pos(2) by (simp add: m2_def bt_def)
  have "\<forall>s \<in> set args. 0 \<notin> set s" using args(1) by (auto simp: args_at_def holds_str_def in_set_conv_nth)
  then have "starts_with (stack_view bt S ?m3) bt caps args" using stack_bytes_seen [OF _ e(1)] view_holds [of ?m3 S 0 _ bt] fs(1) by simp
  then show ?thesis using run ag3 alu(1) by (intro exI [of _ ?m3] exI [of _ ?iv]) (simp add: bt_def)
qed

end
