(* ===== verification/Server_Process.thy ===== *)
theory Server_Process
  imports Init_Stack Syscalls
begin

text \<open>
  SYSTEM starting a server, \<^verbatim>\<open>system/process.c\<close>: the request it makes of the kernel, with its own code and data as shared regions and the initial stack as stack
  values. The system call is a parameter of the model and is instantiated with the kernel's handler. The places of SYSTEM's segments, of the loader and of the
  local variables are arguments. The buffers that are unmapped at the end are not read again.
\<close>

definition STACK_TOP :: u64 where
  "STACK_TOP = 0x44000000"

record system_image =
  si_code_start :: u64
  si_code_end :: u64
  si_data_start :: u64
  si_data_end :: u64
  si_bss_start :: u64
  si_bss_end :: u64
  si_loader :: u64

text \<open>The number of a result, as the caller of a system call sees it.\<close>

fun result_code :: "SyscallResultType \<Rightarrow> u64" where
  "result_code SYSCALL_OK = 0"
| "result_code SYSCALL_FAILURE = - 1"
| "result_code SYSCALL_BAD_NUMBER = - 2"
| "result_code SYSCALL_NOT_IMPL = - 3"
| "result_code SYSCALL_BADARGS = - 4"
| "result_code SYSCALL_BAD_NAME = - 5"
| "result_code SYSCALL_INCAPABLE = - 254"

definition server_regions :: "system_image \<Rightarrow> AddressSpaceRegion list" where
  "server_regions si =
     [\<lparr>as_start = si_code_start si, as_len_bytes = ucast (round_up_to_page_size (si_code_end si - si_code_start si))\<rparr>,
      \<lparr>as_start = si_data_start si, as_len_bytes = ucast (round_up_to_page_size (si_data_end si - si_data_start si))\<rparr>,
      \<lparr>as_start = si_bss_start si, as_len_bytes = ucast (round_up_to_page_size (si_bss_end si - si_bss_start si))\<rparr>]"

text \<open>The request, with the memory it points to; \<open>regions\<close> is the address of the array of regions.\<close>

definition server_request :: "system_image \<Rightarrow> u64 \<Rightarrow> u64 \<Rightarrow> u8 \<Rightarrow> InitStackValues \<Rightarrow> mem \<Rightarrow> process_request" where
  "server_request si regions stack_size task_class iv m =
     \<lparr>rq_params = \<lparr>pp_entry_point = si_loader si, pp_stack_base = STACK_TOP - stack_size, pp_stack_size = stack_size, pp_region_count = 3,
         pp_task_class = task_class, pp_regions = regions, pp_stack_value_count = ucast (iv_value_count iv), pp_stack_values = iv_data iv\<rparr>,
      rq_regions = (\<lambda>i. server_regions si ! i), rq_values = (\<lambda>j. load_u64 m (iv_data iv + 8 * of_nat j))\<rparr>"

datatype 's server_outcome = Created mem 's u64 | Not_created mem 's | Null_access

definition create_server_process :: "(process_request \<Rightarrow> 's \<Rightarrow> ('s \<times> SyscallResult) step_result) \<Rightarrow> system_image \<Rightarrow> u64 \<Rightarrow> u64 \<Rightarrow> u64 option \<Rightarrow> u64 option
    \<Rightarrow> u64 \<Rightarrow> u16 \<Rightarrow> u64 \<Rightarrow> u16 \<Rightarrow> u64 \<Rightarrow> u8 \<Rightarrow> mem \<Rightarrow> 's \<Rightarrow> 's server_outcome" where
  "create_server_process anos_create_process si regions frame argv_map stack_map stack_size capc capv argc argv task_class m s =
     (if task_class \<ge> 4 then Created m s 0
      else case build_new_process_init_values True frame argv_map stack_map STACK_TOP capc capv argc argv m of
             None \<Rightarrow> Null_access
           | Some (m, None) \<Rightarrow> Created m s 0
           | Some (m, Some iv) \<Rightarrow>
               (case anos_create_process (server_request si regions stack_size task_class iv m) s of
                  Done (s, r) \<Rightarrow> Created m s (if sr_type r = SYSCALL_OK then sr_value r else result_code (sr_type r))
                | _ \<Rightarrow> Not_created m s))"

section \<open>Starting a server\<close>

lemma view_word: "load_u64 (stack_view sp S m) (sp + 8 * of_nat j) = load_u64 m (S + 8 * of_nat j)"
proof -
  have "bytes_at n (stack_view sp S m) (sp + x) = bytes_at n m (S + x)" for n x
    by (induction n arbitrary: x) (simp_all add: stack_view_def add.assoc)
  then show ?thesis by (simp only: load_u64_def)
qed

text \<open>What the kernel needs to create the process of a request: memory, blocks and sound arguments.\<close>

definition kernel_ready :: "create_env \<Rightarrow> u64 \<Rightarrow> process_request \<Rightarrow> AddressSpaceRegion list \<Rightarrow> u64 list \<Rightarrow> nat \<Rightarrow> queues \<Rightarrow> kernel \<Rightarrow> bool" where
  "kernel_ready env arg0 rq regions vals n qs s \<longleftrightarrow>
     process_params_ok arg0 (rq_params rq) \<and> copy_regions (pp_regions (rq_params rq)) (rq_regions rq) [0..<unat (pp_region_count (rq_params rq))] = Some regions
     \<and> km_ok (ce_cr3 env) (ce_rgn env) (kn_mem s) \<and> user_plain (ce_cr3 env) (kn_mem s)
     \<and> plain (root_of (ce_cr3 env)) (vmm_per_cpu_temp_page_addr (ce_cpu_id env)) (km_vm (kn_mem s)) \<and> 0 \<notin> km_free (ce_rgn env) (kn_mem s)
     \<and> request_ok (ce_rgn env) (pp_stack_base (rq_params rq)) n regions vals (kn_mem s)
     \<and> pp_stack_base (rq_params rq) AND NOT 0xfff = pp_stack_base (rq_params rq) \<and> unat (pp_stack_size (rq_params rq)) = 4096 * n
     \<and> {ce_lock env, ce_meminfo env, ce_process env} \<inter> (kp_slab (kn_proc s) \<union> {NULL}) = {} \<and> pr_tasks (kp_procs (kn_proc s) (ce_process env)) = NULL
     \<and> can_start (kn_proc s) qs (ce_task env) (class_of (pp_task_class (rq_params rq)))"

lemma ready_create:
  assumes "kernel_ready env arg0 rq regions vals n qs s" "p = rq_params rq" "vals = map (rq_values rq) [0..<unat (pp_stack_value_count p)]" "sp = pp_stack_base p + pp_stack_size p - of_nat (length vals) * 8"
  shows "\<exists>s' new fs k. handle_create_process env cpu arg0 rq s = Done (s', RESULT_OK_VAL (kp_next_pid (kn_proc s)))
    \<and> pr_pml4 (kp_procs (kn_proc s') (ce_process env)) = new
    \<and> started (ce_entrypoint env) (ce_process env) [] sp (pp_entry_point p) (ce_task env) (class_of (pp_task_class p)) qs k (kn_proc s')
    \<and> kp_sched k = kp_sched (kn_proc s)
    \<and> (\<forall>j < length vals. pte_of new (sp + 8 * of_nat j) (kn_mem s') = vmm_phys_and_flags_to_table_entry (hd fs) 7
         \<and> frame_data (kn_vm s') (hd fs) (unat (sp + 8 * of_nat j) mod 4096 div 8) = vals ! j)"
proof -
  have k: "process_params_ok arg0 p" "copy_regions (pp_regions p) (rq_regions rq) [0..<unat (pp_region_count p)] = Some regions"
    "km_ok (ce_cr3 env) (ce_rgn env) (kn_mem s)" "user_plain (ce_cr3 env) (kn_mem s)"
    "plain (root_of (ce_cr3 env)) (vmm_per_cpu_temp_page_addr (ce_cpu_id env)) (km_vm (kn_mem s))" "0 \<notin> km_free (ce_rgn env) (kn_mem s)"
    "request_ok (ce_rgn env) (pp_stack_base p) n regions vals (kn_mem s)" "pp_stack_base p AND NOT 0xfff = pp_stack_base p" "unat (pp_stack_size p) = 4096 * n"
    "{ce_lock env, ce_meminfo env, ce_process env} \<inter> (kp_slab (kn_proc s) \<union> {NULL}) = {}" "pr_tasks (kp_procs (kn_proc s) (ce_process env)) = NULL"
    "can_start (kn_proc s) qs (ce_task env) (class_of (pp_task_class p))" using assms(1,2) unfolding kernel_ready_def by blast+
  from create_process_ok [OF assms(2) k(1,2) assms(3) k(3-12) assms(4), of cpu] show ?thesis by blast
qed

section \<open>Properties\<close>


text \<open>A server with one argument and one capability.\<close>

definition demo_args :: mem where
  "demo_args a = (if a = 0x5001 then 0x51 else if a = 0x5100 then 97 else if a = 0x5200 then 1 else if a = 0x5208 then 9 else 0)"

definition demo_system :: system_image where
  "demo_system = \<lparr>si_code_start = 0x2000, si_code_end = 0x2800, si_data_start = 0x3000, si_data_end = 0x3000, si_bss_start = 0x4000, si_bss_end = 0x4000, si_loader = 0x2010\<rparr>"

lemma demo_args_ok: "args_at demo_args 0x5000 [[97]]" "caps_at demo_args 0x5200 [(1, 9)]" "args_area demo_args 0x5000 [[97]] \<inter> writes 0x6000 0x7000 4096 = {}"
  "region 0x5200 (16 * length [(1 :: u64, 9 :: u64)]) \<inter> writes 0x6000 0x7000 4096 = {}"
proof -
  have b: "bytes_at 8 m p = [m p, m (p + 1), m (p + 2), m (p + 3), m (p + 4), m (p + 5), m (p + 6), m (p + 7)]" for m p
    by (simp add: bytes_at_holds add.commute)
  have l: "load_u64 demo_args 0x5000 = 0x5100" "load_u64 demo_args 0x5200 = 1" "load_u64 demo_args 0x5208 = 9" "demo_args 0x5100 = 97" "demo_args 0x5101 = 0" by (simp_all add: load_u64_def b demo_args_def)
  then have a: "arg_at demo_args 0x5000 0 = 0x5100" by (simp add: arg_at_def)
  show "args_at demo_args 0x5000 [[97]]" using a l(4,5) by (simp add: args_at_def MAX_ARG_LENGTH_def)
  show "caps_at demo_args 0x5200 [(1, 9)]" using l(2,3) by (simp add: caps_at_def)
  show "args_area demo_args 0x5000 [[97]] \<inter> writes 0x6000 0x7000 4096 = {}" using a by (auto simp: args_area_def region_unat)
  show "region 0x5200 (16 * length [(1 :: u64, 9 :: u64)]) \<inter> writes 0x6000 0x7000 4096 = {}" by (auto simp: region_unat)
qed

lemma demo_ready:
  assumes "unat (iv_value_count iv) = 8" "rq = server_request demo_system 0x8000 0x1000 1 iv m" "vals = map (rq_values rq) [0..<8]"
  shows "kernel_ready demo_create 0x8000 rq (server_regions demo_system) vals 1 demo_qs demo_kernel"
proof -
  have c: "ucast (iv_value_count iv) = (8 :: u16)" using assms(1) by (simp add: word_unat_eq_iff unsigned_ucast_eq)
  have p: "rq_params rq = \<lparr>pp_entry_point = 0x2010, pp_stack_base = 0x43FFF000, pp_stack_size = 0x1000, pp_region_count = 3, pp_task_class = 1, pp_regions = 0x8000,
      pp_stack_value_count = 8, pp_stack_values = iv_data iv\<rparr>" "rq_regions rq = (\<lambda>i. server_regions demo_system ! i)"
    unfolding assms(2) by (simp_all add: server_request_def c STACK_TOP_def demo_system_def)
  have rs: "server_regions demo_system = [\<lparr>as_start = 0x2000, as_len_bytes = 0x1000\<rparr>, \<lparr>as_start = 0x3000, as_len_bytes = 0\<rparr>, \<lparr>as_start = 0x4000, as_len_bytes = 0\<rparr>]"
    by (simp add: server_regions_def demo_system_def round_up_to_page_size_def VM_PAGE_SIZE_def)
  have mem: "kn_mem demo_kernel = demo_kmem" by (simp add: kn_mem_def demo_kernel_def)
  have par: "process_params_ok 0x8000 (rq_params rq)" "copy_regions (pp_regions (rq_params rq)) (rq_regions rq) [0..<unat (pp_region_count (rq_params rq))] = Some (server_regions demo_system)"
    unfolding p rs by (simp_all add: process_params_ok_def IS_USER_ADDRESS_def VM_KERNEL_SPACE_START_def MAX_STACK_VALUE_COUNT_def INIT_STACK_ARG_PAGES_COUNT_def
        MIN_PROCESS_STACK_HEADROOM_def MAX_PROCESS_REGIONS_def Let_def upt_rec)
  have pl: "user_plain 0x9000 demo_kmem" using demo_kmem_ok(2) by (simp add: user_plain_def)
  have rq: "request_ok 1 (pp_stack_base (rq_params rq)) 1 (server_regions demo_system) vals demo_kmem"
    unfolding p rs using demo_free assms(3) by (simp add: request_ok_def region_sound_def region_count_def)
  have k: "kp_sched (kn_proc demo_kernel) = demo_sched" "kp_slab (kn_proc demo_kernel) = {0x5000, 0x7000, 0x7040, 0x7100, 0x7200}"
    "pr_tasks (kp_procs (kn_proc demo_kernel) 0x7380) = NULL" by (simp_all add: demo_kernel_def demo_kproc_def)
  have can: "can_start (kn_proc demo_kernel) demo_qs (ce_task demo_create) (class_of 1)"
    using demo_sched_facts k(1) by (auto simp: can_start_def class_of_def has_room_def)
  show ?thesis unfolding kernel_ready_def mem demo_create_simps using par demo_kmem_ok(1,2) pl demo_free rq k can by (simp add: p)
qed


text \<open>A failure to build the stack, and a class that does not exist, are reported as 0.\<close>

lemma create_server_failure_zero: "task_class \<ge> 4 \<Longrightarrow> create_server_process call si regions frame am sm stack_size capc capv argc argv task_class m s = Created m s 0"
  by (simp add: create_server_process_def)

end
