(* ===== verification/Spec2Isabelle.thy ===== *)
theory Spec2Isabelle
  imports Page_Alloc Region_Tree Fba Hash_Table Vmalloc Mutex Sleep Ipc Ref_Count_Map Slab Cap_Map Process_Memory Vmm_Mapper Ipwi Kernel_Memory Page_Fault Klog Msi Process Address_Space Syscall_Memory Syscall_Caps Syscalls Ramfs Elf_Loader Server_Process
begin

text \<open>
  A verification development of the kernel of anos, a microkernel for x86_64 and RISC-V, and of the part of its user space that
  starts programs. It follows the C sources of \<^verbatim>\<open>src/kernel\<close> for x86_64 and of \<^verbatim>\<open>src/system\<close>. The definitions translate the functions of the sources; the theorems say what they do
  on every state that satisfies the invariants of their component, and that the invariants are kept.

  \<^bold>\<open>Parts of the kernel and how they interact.\<close> At the bottom are the allocators: the stack of free physical
  pages (\<^verbatim>\<open>pmm/pagealloc.c\<close>), the fixed block allocator (\<^verbatim>\<open>fba/alloc.c\<close>) for kernel pages, the slab allocator
  (\<^verbatim>\<open>slab/alloc.c\<close>) for 64-byte blocks, and the free list of kernel addresses (\<^verbatim>\<open>vmm/vmalloc_linkedlist.c\<close>). The mapper
  (\<^verbatim>\<open>vmm/vmmapper.c\<close>) keeps the page tables on pages of the first one. Processes own pages (\<^verbatim>\<open>process/memory.c\<close>), shared
  pages are counted (\<^verbatim>\<open>structs/ref_count_map.c\<close>), and a process's regions are an AVL tree (\<^verbatim>\<open>structs/region_tree.c\<close>). Tasks
  wait in priority queues (\<^verbatim>\<open>structs/pq.c\<close>) that the scheduler (\<^verbatim>\<open>sched/prr.c\<close>) serves per CPU; mutexes, sleeping tasks and
  IPC channels block tasks and make them ready again through it. Channels, messages in flight and names are found
  in hash tables (\<^verbatim>\<open>structs/hash.c\<close>), capabilities in a map of their own (\<^verbatim>\<open>capabilities/map.c\<close>). CPUs tell each other to drop
  translations through queues of work items (\<^verbatim>\<open>smp/ipwi.c\<close>, \<^verbatim>\<open>vmm/vmm_shootdown.c\<close>). In user space, SYSTEM holds an image of files that
  a tool packed, answers queries for them, and starts server processes that load their program through such queries.

  \<^bold>\<open>Theories.\<close>
  \<^item> \<open>Anos_Prelude\<close>: integer widths, page geometry, and facts on words, pages and circular indices used everywhere.
  \<^item> \<open>Page_Alloc\<close> (\<^verbatim>\<open>pmm/pagealloc.c\<close>): the stack of blocks as a list; \<open>free_pages\<close> is the set of free frames it stands for. The
    locale \<open>frame_allocator\<close> states what a client may rely on and is interpreted on \<open>page_alloc\<close> and \<open>page_free\<close>; exclusive ownership over
    whole runs, initialisation from the memory map, and contiguous allocation follow.
  \<^item> \<open>Region_Tree\<close> (\<^verbatim>\<open>structs/region_tree.c\<close> and the region system calls of \<^verbatim>\<open>syscalls.c\<close>): insertion, removal, lookup and overlap of
    the AVL tree against its in-order list, and creation of regions with coalescing.
  \<^item> \<open>Bitmap\<close>, \<open>Fba\<close>, \<open>Slab\<close> (\<^verbatim>\<open>structs/bitmap.h\<close>, \<^verbatim>\<open>fba/alloc.c\<close>, \<^verbatim>\<open>slab/alloc.c\<close>): the first-fit search over words of a bitmap
    against the bits it stands for, block allocation, and slabs with their partial and full lists at the level of pointers.
  \<^item> \<open>Hash_Table\<close> (\<^verbatim>\<open>structs/hash.c\<close>), \<open>Cap_Map\<close> (\<^verbatim>\<open>capabilities/map.c\<close>, \<^verbatim>\<open>capabilities/cookies.c\<close>), \<open>Ref_Count_Map\<close>
    (\<^verbatim>\<open>structs/ref_count_map.c\<close>): open addressing with rehashed clusters, open addressing with tombstones, and chained buckets spread over
    blocks, each a refinement of a finite map, across growth. The locale \<open>dict\<close> is the interface of the first, \<open>ref_counter\<close> that of the last:
    counts that track a multiset of references.
  \<^item> \<open>Vmalloc\<close> (\<^verbatim>\<open>vmm/vmalloc_linkedlist.c\<close>): best-fit allocation and freeing with coalescing on the sorted free list.
  \<^item> \<open>Task_Queue\<close>, \<open>Sched\<close>, \<open>Sched_Wait\<close> (\<^verbatim>\<open>structs/pq.c\<close>, \<^verbatim>\<open>sched/prr.c\<close>): queues linked through the tasks refine lists ordered by
    priority; the scheduling decision, blocking and unblocking keep every ready task in exactly one queue.
  \<^item> \<open>Mutex\<close>, \<open>Sleep\<close>, \<open>Ipc\<close> (\<^verbatim>\<open>sched/mutex.c\<close>, \<^verbatim>\<open>sleep_queue.c\<close>, \<^verbatim>\<open>sleep.c\<close>, \<^verbatim>\<open>ipc/channel.c\<close>, \<^verbatim>\<open>ipc/named.c\<close>): the parts that make tasks
    wait, on top of the scheduler. A call that blocks is two definitions, up to the switch and from the resumption.
  \<^item> \<open>Process_Memory\<close> (\<^verbatim>\<open>process/memory.c\<close>): pages owned by processes, composed of the page allocator and the reference counts; a frame is
    free exactly when its last owner has dropped it.
  \<^item> \<open>Vmm_Mapper\<close> (\<^verbatim>\<open>arch/x86_64/vmm/vmmapper.c\<close>): the four-level page tables as a tree of frames that are not free; mapping and unmapping
    change the translation of one page.
  \<^item> \<open>Shift_Array\<close>, \<open>Ipwi\<close> (\<^verbatim>\<open>structs/shift_array.c\<close>, \<^verbatim>\<open>smp/ipwi.c\<close>, \<^verbatim>\<open>vmm/vmm_shootdown.c\<close>): the queues of work items refine lists, the
    interrupt handler ends, and an unmapped page is invalidated by every CPU that handles its queue.

  \<^item> \<open>Kernel_Memory\<close>, \<open>Page_Fault\<close> (\<^verbatim>\<open>pagefault.c\<close>): page tables and the contents of pages as one memory, joined with the allocator and the
    reference counts; copy-on-write and automatically mapped pages from the fault to the new translation.
  \<^item> \<open>Ring\<close>, \<open>Klog\<close>, \<open>Msi\<close> (\<^verbatim>\<open>klog.c\<close>, \<^verbatim>\<open>arch/x86_64/msi.c\<close>, \<^verbatim>\<open>smp/state.c\<close>): circular buffers as lists; the locale \<open>fifo\<close> is interpreted on the
    kernel log and on the event queues of devices, and the life of interrupt vectors is a transition system whose runs keep ownership.
  \<^item> \<open>Process\<close> (\<^verbatim>\<open>process/process.c\<close>, \<^verbatim>\<open>managed_resources/resources.c\<close>, \<^verbatim>\<open>task.c\<close>): processes, tasks and managed resources from creation to their
    end, composed of the owned pages, the interrupt vectors, the region tree and the scheduler.
  \<^item> \<open>Two_Spaces\<close>, \<open>Address_Space\<close> (\<^verbatim>\<open>process/address_space.c\<close>): which entries of the page tables a mapping writes, two spaces whose trees overlap in the
    kernel's half, and the creation of a space with shared pages and a stack: what is mapped in it does not show in the other.
  \<^item> \<open>Syscall_Result\<close>, \<open>Syscall_Memory\<close>, \<open>Syscall_Caps\<close>, \<open>Syscalls\<close> (\<^verbatim>\<open>syscalls.c\<close>, \<^verbatim>\<open>throttle.h\<close>, \<^verbatim>\<open>framebuffer.c\<close>): the system calls on top of everything
    else. The memory calls change exactly the pages of their range; the start-up grants each handler by one cookie and the entry point runs nothing without one; creating a
    process composes address space, process, first thread and scheduler.

  \<^item> \<open>User_Memory\<close>, \<open>Ramfs\<close> (\<^verbatim>\<open>tools/mkramfs/main.c\<close>, \<^verbatim>\<open>system/ramfs.c\<close>, \<^verbatim>\<open>system/path.c\<close>, \<^verbatim>\<open>system/main.c\<close>): memory of user space as bytes;
    what the tool packs into an image is what the driver of the RAM file system answers its queries with.
  \<^item> \<open>Init_Stack\<close>, \<open>Server_Process\<close> (\<^verbatim>\<open>system/process.c\<close>): the initial stack that SYSTEM builds for a server and the request it makes of the kernel,
    composed with the kernel's own handler: the new thread finds its capabilities and arguments at its stack pointer.
  \<^item> \<open>Elf_Loader\<close> (\<^verbatim>\<open>system/elf.c\<close>, \<^verbatim>\<open>system/loader.c\<close>): programs read page by page from the RAM file system's driver; every loadable segment ends up
    with the bytes of the file that its header names.

  \<^bold>\<open>Conventions.\<close> Machine integers are words of their width, and wrap; sizes that cannot reach their width are naturals. Pointers are
  64-bit words and 0 is the null pointer. Objects that the kernel links by pointers are maps from pointers to records where the links
  matter, and lists where a list is private to its owner. Outcomes of hardware and of allocations made inside an operation are
  arguments. An operation that holds a lock is one step; where the code can leave a lock held, the lock is part of the state and an
  operation that would spin on it gives \<open>None\<close>. Loops over data are recursive functions with a termination proof; loops that may not
  end are partial functions into an option type, and the theorems say when they end. One
  function takes fuel: \<open>rehash_cluster\<close> of \<open>Hash_Table\<close> gets the size of the table, and the lemma on removal shows that it never runs out on a
  well-formed table. The model is the default build. What \<^verbatim>\<open>CONSERVATIVE_BUILD\<close> adds at the end of tasks, a panic unless the task is in a state that
  nothing in the kernel sets, is modelled by the \<open>_conservative\<close> definitions of \<open>Process\<close>. Task classes from 4 on are one invalid class.

  \<^bold>\<open>Not modelled.\<close> The RISC-V port, boot, descriptor tables, device drivers, printing and panics are hardware or
  output. Of user space, the drivers and servers under \<^verbatim>\<open>src/servers\<close>, SYSTEM's start-up and its threads for the virtual file system
  and the process manager, and the JSON library are left out.
\<close>

end
